(* ===== verification/Base.thy ===== *)
theory Base
  imports Main "HOL-Library.Word" "HOL-Library.Monad_Syntax"
begin

text \<open>
  Prelude of the development: the machine-integer types of the C sources, the constants of
  \<^verbatim>\<open>hash_hot_cmt/dftl_settings.h\<close> and \<^verbatim>\<open>hash_hot_cmt/demand.h\<close> that every component uses, the
  collections of rewrite rules the component theories extend, and generic lemmas on the option
  monad, lists and counting.

  Conventions.  A function whose C original may call \<^verbatim>\<open>abort()\<close>, dereference a null or freed
  pointer, or loop for ever returns an \<open>option\<close>; \<open>None\<close> stands for these outcomes and nothing
  else.  Addresses of flash pages and grains, indices and page counts are \<open>nat\<close>; the value
  \<open>UINT32_MAX\<close> is the sentinel the code stores for "no address".  Hash values, bit masks and
  counters whose wrap-around is visible are words of their C width.
\<close>

section \<open>Integer types\<close>

type_synonym u8 = "8 word"
type_synonym u32 = "32 word"
type_synonym u64 = "64 word"

type_synonym lpa_t = nat
type_synonym ppa_t = nat
type_synonym addr = nat

section \<open>Collections of rules\<close>

named_theorems settings "values of the compile-time constants"
named_theorems heap_simps "field reads and writes of the node store"
named_theorems frame "operations that leave a part of the state alone"

section \<open>Compile-time constants\<close>

definition UINT32_MAX :: nat where
  "UINT32_MAX = 4294967295"

definition PAGESIZE :: nat where
  "PAGESIZE = 4096"

definition GRAINED_UNIT :: nat where
  "GRAINED_UNIT = 1024"

definition GRAIN_PER_PAGE :: nat where
  "GRAIN_PER_PAGE = PAGESIZE div GRAINED_UNIT"

definition EPP :: nat where
  "EPP = PAGESIZE div 8"

definition NOP_NO_OP :: nat where
  "NOP_NO_OP = 2 ^ 26"

definition NOP :: nat where
  "NOP = (NOP_NO_OP * 115) div 100"

definition PPS :: nat where
  "PPS = 2 ^ 16"

definition NOS :: nat where
  "NOS = NOP div PPS"

definition MAX_WRITE_BUF :: nat where
  "MAX_WRITE_BUF = 256"

lemma UINT32_MAX_val [settings]: "UINT32_MAX = 4294967295"
  by (simp add: UINT32_MAX_def)

lemma PAGESIZE_val [settings]: "PAGESIZE = 4096"
  by (simp add: PAGESIZE_def)

lemma GRAIN_PER_PAGE_val [settings]: "GRAIN_PER_PAGE = 4"
  by (simp add: GRAIN_PER_PAGE_def PAGESIZE_def GRAINED_UNIT_def)

lemma EPP_val [settings]: "EPP = 512"
  by (simp add: EPP_def PAGESIZE_def)

lemma PPS_val [settings]: "PPS = 65536"
  by (simp add: PPS_def)

lemma NOP_val [settings]: "NOP = 77175193"
  by (simp add: NOP_def NOP_NO_OP_def)

lemma NOS_val [settings]: "NOS = 1177"
  by (simp add: NOS_def NOP_def NOP_NO_OP_def PPS_def)

text \<open>\<^verbatim>\<open>D_IDX\<close> and \<^verbatim>\<open>P_IDX\<close>: a logical address is a page-table page and an offset in it.\<close>

definition D_IDX :: "lpa_t \<Rightarrow> nat" where
  "D_IDX lpa = lpa div EPP"

definition P_IDX :: "lpa_t \<Rightarrow> nat" where
  "P_IDX lpa = lpa mod EPP"

definition IDX_TO_LPA :: "nat \<Rightarrow> nat \<Rightarrow> lpa_t" where
  "IDX_TO_LPA d p = d * EPP + p"

lemma IDX_TO_LPA_D_P [simp]: "IDX_TO_LPA (D_IDX lpa) (P_IDX lpa) = lpa"
  by (simp add: IDX_TO_LPA_def D_IDX_def P_IDX_def)

lemma P_IDX_less [simp]: "P_IDX lpa < EPP"
  by (simp add: P_IDX_def EPP_val)

lemma D_P_IDX_TO_LPA [simp]:
  assumes "p < EPP"
  shows "D_IDX (IDX_TO_LPA d p) = d" and "P_IDX (IDX_TO_LPA d p) = p"
  using assms by (simp_all add: IDX_TO_LPA_def D_IDX_def P_IDX_def)

section \<open>The option monad\<close>

text \<open>
  \<open>returns m Q\<close>: the computation \<open>m\<close> returns (it neither aborts nor diverges) and its result
  satisfies \<open>Q\<close>.  The rules push the postcondition through a computation, so that \<open>simp\<close>
  executes it symbolically.
\<close>

definition returns :: "'a option \<Rightarrow> ('a \<Rightarrow> bool) \<Rightarrow> bool" where
  "returns m Q \<longleftrightarrow> (\<exists>x. m = Some x \<and> Q x)"

lemma returns_simps [simp]:
  "returns (Some x) Q \<longleftrightarrow> Q x"
  "returns None Q \<longleftrightarrow> False"
  "returns (Option.bind m f) Q \<longleftrightarrow> returns m (\<lambda>x. returns (f x) Q)"
  by (cases m; simp add: returns_def)+

lemma returns_if: "returns (if b then m else k) Q \<longleftrightarrow> (if b then returns m Q else returns k Q)"
  by simp

lemma returnsE:
  assumes "returns m Q"
  obtains x where "m = Some x" and "Q x"
  using assms by (auto simp: returns_def)

lemma returnsD: "returns m Q \<Longrightarrow> m = Some x \<Longrightarrow> Q x"
  by (simp add: returns_def)

lemma returns_mono: "returns m Q \<Longrightarrow> (\<And>x. Q x \<Longrightarrow> R x) \<Longrightarrow> returns m R"
  by (auto simp: returns_def)

lemma returns_bindI: "returns m P \<Longrightarrow> (\<And>x. P x \<Longrightarrow> returns (f x) Q) \<Longrightarrow> returns (Option.bind m f) Q"
  by (auto simp: returns_def)

lemma returns_conj: "returns m Q \<Longrightarrow> returns m R \<Longrightarrow> returns m (\<lambda>x. Q x \<and> R x)"
  by (auto simp: returns_def)

lemma bind_Some_iff:
  "Option.bind m f = Some y \<longleftrightarrow> (\<exists>x. m = Some x \<and> f x = Some y)"
  by (cases m) auto

section \<open>Lists and counting\<close>

definition count_if :: "('a \<Rightarrow> bool) \<Rightarrow> 'a list \<Rightarrow> nat" where
  "count_if P xs = length (filter P xs)"

lemma count_if_Nil [simp]: "count_if P [] = 0"
  by (simp add: count_if_def)

lemma count_if_Cons [simp]:
  "count_if P (x # xs) = (if P x then Suc (count_if P xs) else count_if P xs)"
  by (simp add: count_if_def)

lemma count_if_append [simp]: "count_if P (xs @ ys) = count_if P xs + count_if P ys"
  by (simp add: count_if_def)

lemma count_if_le: "count_if P xs \<le> length xs"
  by (simp add: count_if_def)

lemma count_if_update:
  assumes "i < length xs"
  shows "count_if P (xs[i := y]) + (if P (xs ! i) then 1 else 0) =
    count_if P xs + (if P y then 1 else 0)"
proof -
  have "count_if P xs = count_if P (take i xs @ xs ! i # drop (Suc i) xs)"
    by (rule arg_cong [OF id_take_nth_drop [OF assms]])
  then show ?thesis
    using upd_conv_take_nth_drop [OF assms, of y] by simp
qed

lemma count_if_pos: "i < length xs \<Longrightarrow> P (xs ! i) \<Longrightarrow> 0 < count_if P xs"
  by (auto simp: count_if_def filter_empty_conv)

end
