(* ===== verification/Murmur.thy ===== *)
theory Murmur
  imports Base
begin

text \<open>
  The two 32-bit MurmurHash3 routines of \<^verbatim>\<open>tools/murmurhash.c\<close>: \<open>murmurhash\<close>, which
  \<^verbatim>\<open>hash_hot_cmt/request.c\<close> uses to place keys and to fingerprint them, and
  \<open>MurmurHash3_x86_32\<close>, which the Bloom filter uses.  A key is its byte list; a four-byte block
  is read little-endian as on the target machine (x86-64).  Both routines turn out to be the same
  function.
\<close>

unbundle bit_operations_syntax

section \<open>Shared constants and byte access\<close>

definition murmur_c1 :: u32 where
  "murmur_c1 = 0xcc9e2d51"

definition murmur_c2 :: u32 where
  "murmur_c2 = 0x1b873593"

text \<open>\<^verbatim>\<open>chunks[i]\<close> and \<^verbatim>\<open>getblock32\<close>: four bytes from the body, little-endian.\<close>

definition getblock32 :: "u8 list \<Rightarrow> nat \<Rightarrow> u32" where
  "getblock32 d i =
     ucast (d ! (4 * i)) OR push_bit 8 (ucast (d ! (4 * i + 1)))
     OR push_bit 16 (ucast (d ! (4 * i + 2))) OR push_bit 24 (ucast (d ! (4 * i + 3)))"

section \<open>murmurhash\<close>

text \<open>One round of the body loop: \<^verbatim>\<open>k\<close> is scrambled and folded into \<^verbatim>\<open>h\<close>.\<close>

definition murmur_round :: "u32 \<Rightarrow> u32 \<Rightarrow> u32" where
  "murmur_round h k0 =
     (let k = k0 * murmur_c1;
          k = push_bit 15 k OR drop_bit (32 - 15) k;
          k = k * murmur_c2;
          h = h XOR k;
          h = push_bit 13 h OR drop_bit (32 - 13) h
      in h * 5 + 0xe6546b64)"

text \<open>
  The loop \<^verbatim>\<open>for (i = -l; i != 0; ++i)\<close>: the last argument is \<^verbatim>\<open>-i\<close>, and \<^verbatim>\<open>chunks[i]\<close>, where
  \<^verbatim>\<open>chunks\<close> points behind the last block, is block \<open>l - (-i)\<close>.
\<close>

fun murmur_body :: "u8 list \<Rightarrow> nat \<Rightarrow> nat \<Rightarrow> u32 \<Rightarrow> u32" where
  "murmur_body d l 0 h = h"
| "murmur_body d l (Suc j) h = murmur_body d l j (murmur_round h (getblock32 d (l - Suc j)))"

text \<open>The \<^verbatim>\<open>switch (len & 3)\<close>, whose cases fall through.\<close>

definition murmur_tail :: "u8 list \<Rightarrow> nat \<Rightarrow> u32 \<Rightarrow> u32" where
  "murmur_tail tail r h =
     (let k = (0 :: u32);
          k = (if r = 3 then k XOR push_bit 16 (ucast (tail ! 2)) else k);
          k = (if r = 3 \<or> r = 2 then k XOR push_bit 8 (ucast (tail ! 1)) else k)
      in if r = 3 \<or> r = 2 \<or> r = 1 then
           (let k = k XOR ucast (tail ! 0);
                k = k * murmur_c1;
                k = push_bit 15 k OR drop_bit (32 - 15) k;
                k = k * murmur_c2
            in h XOR k)
         else h)"

definition murmurhash :: "u8 list \<Rightarrow> u32 \<Rightarrow> u32" where
  "murmurhash key seed =
     (let len = length key;
          l = len div 4;
          h = murmur_body key l l seed;
          h = murmur_tail (drop (l * 4) key) (len mod 4) h;
          h = h XOR of_nat len;
          h = h XOR drop_bit 16 h;
          h = h * 0x85ebca6b;
          h = h XOR drop_bit 13 h;
          h = h * 0xc2b2ae35
      in h XOR drop_bit 16 h)"

section \<open>MurmurHash3_x86_32\<close>

definition rotl32 :: "u32 \<Rightarrow> nat \<Rightarrow> u32" where
  "rotl32 x r = push_bit r x OR drop_bit (32 - r) x"

definition fmix32 :: "u32 \<Rightarrow> u32" where
  "fmix32 h =
     (let h = h XOR drop_bit 16 h;
          h = h * 0x85ebca6b;
          h = h XOR drop_bit 13 h;
          h = h * 0xc2b2ae35;
          h = h XOR drop_bit 16 h
      in h)"

text \<open>The body loop counts \<^verbatim>\<open>i\<close> from \<^verbatim>\<open>-nblocks\<close> up to zero; \<open>j\<close> is \<^verbatim>\<open>-i\<close>, so the
  block read is \<open>nblocks - j\<close>.\<close>

fun mm3_body :: "u8 list \<Rightarrow> nat \<Rightarrow> nat \<Rightarrow> u32 \<Rightarrow> u32" where
  "mm3_body d nblocks 0 h1 = h1"
| "mm3_body d nblocks (Suc j) h1 =
     (let k1 = getblock32 d (nblocks - Suc j);
          k1 = k1 * murmur_c1;
          k1 = rotl32 k1 15;
          k1 = k1 * murmur_c2;
          h1 = h1 XOR k1;
          h1 = rotl32 h1 13;
          h1 = h1 * 5 + 0xe6546b64
      in mm3_body d nblocks j h1)"

definition mm3_tail :: "u8 list \<Rightarrow> nat \<Rightarrow> u32 \<Rightarrow> u32" where
  "mm3_tail tail r h1 =
     (let k1 = (0 :: u32);
          k1 = (if r = 3 then k1 XOR push_bit 16 (ucast (tail ! 2)) else k1);
          k1 = (if r = 3 \<or> r = 2 then k1 XOR push_bit 8 (ucast (tail ! 1)) else k1)
      in if r = 3 \<or> r = 2 \<or> r = 1 then
           (let k1 = k1 XOR ucast (tail ! 0);
                k1 = k1 * murmur_c1;
                k1 = rotl32 k1 15;
                k1 = k1 * murmur_c2
            in h1 XOR k1)
         else h1)"

definition MurmurHash3_x86_32 :: "u8 list \<Rightarrow> u32 \<Rightarrow> u32" where
  "MurmurHash3_x86_32 key seed =
     (let len = length key;
          nblocks = len div 4;
          h1 = mm3_body key nblocks nblocks seed;
          h1 = mm3_tail (drop (nblocks * 4) key) (len mod 4) h1;
          h1 = h1 XOR of_nat len
      in fmix32 h1)"

section \<open>A reference definition, and the two routines against it\<close>

text \<open>The blocks of a key, its tail, and the hash as a fold over them.\<close>

definition blocks32 :: "u8 list \<Rightarrow> u32 list" where
  "blocks32 key = map (getblock32 key) [0..<length key div 4]"

definition tail_bytes :: "u8 list \<Rightarrow> u8 list" where
  "tail_bytes key = drop (length key div 4 * 4) key"

definition murmur_spec :: "u8 list \<Rightarrow> u32 \<Rightarrow> u32" where
  "murmur_spec key seed =
     fmix32 (mm3_tail (tail_bytes key) (length (tail_bytes key)) (foldl murmur_round seed (blocks32 key))
       XOR of_nat (length key))"

lemma murmur_round_rotl:
  "murmur_round h k = rotl32 (h XOR rotl32 (k * murmur_c1) 15 * murmur_c2) 13 * 5 + 0xe6546b64"
  by (simp add: murmur_round_def rotl32_def Let_def)

lemma murmur_body_foldl:
  "j \<le> l \<Longrightarrow> murmur_body d l j h = foldl murmur_round h (map (getblock32 d) [l - j..<l])"
proof (induction j arbitrary: h)
  case 0
  then show ?case by simp
next
  case (Suc j)
  then have "[l - Suc j..<l] = (l - Suc j) # [l - j..<l]"
    by (simp add: upt_conv_Cons Suc_diff_Suc)
  with Suc show ?case by simp
qed

lemma mm3_body_murmur_body: "mm3_body d n j h = murmur_body d n j h"
  by (induction j arbitrary: h) (simp_all add: murmur_round_rotl Let_def)

lemma murmur_tail_mm3_tail: "murmur_tail t r h = mm3_tail t r h"
  by (simp add: murmur_tail_def mm3_tail_def rotl32_def Let_def)

lemma length_tail_bytes: "length (tail_bytes key) = length key mod 4"
  by (simp add: tail_bytes_def minus_div_mult_eq_mod)

text \<open>
  C32. \<open>murmurhash\<close> (the hash of the key placement) and \<open>MurmurHash3_x86_32\<close> (the hash of the
  Bloom filter) are the same function: on every key and seed both return the finalised fold of
  the round function over the key's four-byte blocks and its tail.
\<close>

theorem murmurhash_MurmurHash3_spec:
  "murmurhash key seed = murmur_spec key seed \<and> MurmurHash3_x86_32 key seed = murmur_spec key seed"
proof
  let ?n = "length key div 4"
  have body: "murmur_body key ?n ?n seed = foldl murmur_round seed (blocks32 key)"
    by (simp add: murmur_body_foldl blocks32_def)
  then show "murmurhash key seed = murmur_spec key seed"
    by (simp add: murmurhash_def murmur_spec_def murmur_tail_mm3_tail length_tail_bytes
        fmix32_def Let_def) (simp add: tail_bytes_def)
  from body show "MurmurHash3_x86_32 key seed = murmur_spec key seed"
    by (simp add: MurmurHash3_x86_32_def murmur_spec_def mm3_body_murmur_body length_tail_bytes
        Let_def) (simp add: tail_bytes_def)
qed

section \<open>No collisions between four-byte keys\<close>

text \<open>Every step of the hash is invertible: rotations, multiplications by odd constants and
  the shifts of the finaliser.\<close>

lemma rotl32_rotl32:
  assumes "0 < r" "r < 32"
  shows "rotl32 (rotl32 x r) (32 - r) = x"
  using assms by (intro bit_word_eqI) (auto simp: rotl32_def bit_simps)

lemma inj_rotl32: "0 < r \<Longrightarrow> r < 32 \<Longrightarrow> rotl32 x r = rotl32 y r \<Longrightarrow> x = y"
  by (metis rotl32_rotl32)

lemma inj_mult_unit:
  fixes x y c i :: u32
  assumes "c * i = 1" and "x * c = y * c"
  shows "x = y"
proof -
  have "x * c * i = y * c * i"
    using assms(2) by simp
  then show ?thesis
    using assms(1) by (simp add: mult.assoc)
qed

lemma murmur_c1_unit: "murmur_c1 * 0xdee13bb1 = 1"
  by (simp add: murmur_c1_def)

lemma murmur_c2_unit: "murmur_c2 * 0x56ed309b = 1"
  by (simp add: murmur_c2_def)

lemma xor_drop_16:
  fixes h :: u32
  shows "(h XOR drop_bit 16 h) XOR drop_bit 16 (h XOR drop_bit 16 h) = h"
  by (intro bit_word_eqI) (auto simp: bit_simps)

lemma xor_drop_13:
  fixes h :: u32
  defines "g \<equiv> h XOR drop_bit 13 h"
  shows "g XOR drop_bit 13 g XOR drop_bit 26 g = h"
  unfolding g_def by (intro bit_word_eqI) (auto simp: bit_simps)

lemma inj_fmix32:
  assumes "fmix32 x = fmix32 y"
  shows "x = y"
proof -
  have u1: "(0x85ebca6b :: u32) * 0xa5cb9243 = 1" and u2: "(0xc2b2ae35 :: u32) * 0x7ed1b41d = 1"
    by simp_all
  note steps = assms [unfolded fmix32_def Let_def]
  from steps show ?thesis
    by (metis xor_drop_16 xor_drop_13 inj_mult_unit [OF u1] inj_mult_unit [OF u2])
qed

lemma xor_cancel_left:
  fixes h a b :: u32
  assumes eq: "h XOR a = h XOR b"
  shows "a = b"
proof (rule bit_word_eqI)
  fix n
  assume "n < LENGTH(32)"
  have "bit (h XOR a) n = bit (h XOR b) n"
    by (simp only: eq)
  then show "bit a n = bit b n"
    by (auto simp: bit_xor_iff)
qed

lemma inj_murmur_round:
  assumes "murmur_round h x = murmur_round h y"
  shows "x = y"
proof -
  have u5: "(5 :: u32) * 0xcccccccd = 1" by simp
  from assms have "rotl32 (h XOR rotl32 (x * murmur_c1) 15 * murmur_c2) 13 * 5 =
      rotl32 (h XOR rotl32 (y * murmur_c1) 15 * murmur_c2) 13 * 5"
    by (simp add: murmur_round_rotl)
  then have "rotl32 (h XOR rotl32 (x * murmur_c1) 15 * murmur_c2) 13 =
      rotl32 (h XOR rotl32 (y * murmur_c1) 15 * murmur_c2) 13"
    by (rule inj_mult_unit [OF u5])
  then have "h XOR rotl32 (x * murmur_c1) 15 * murmur_c2 = h XOR rotl32 (y * murmur_c1) 15 * murmur_c2"
    by (rule inj_rotl32 [of 13, simplified])
  then have "rotl32 (x * murmur_c1) 15 * murmur_c2 = rotl32 (y * murmur_c1) 15 * murmur_c2"
    by (rule xor_cancel_left)
  then have "rotl32 (x * murmur_c1) 15 = rotl32 (y * murmur_c1) 15"
    by (rule inj_mult_unit [OF murmur_c2_unit])
  then have "x * murmur_c1 = y * murmur_c1"
    by (rule inj_rotl32 [of 15, simplified])
  then show ?thesis
    by (rule inj_mult_unit [OF murmur_c1_unit])
qed

lemma getblock32_byte:
  fixes a b c d :: u8
  defines "w \<equiv> getblock32 [a, b, c, d] 0"
  shows "ucast w = a" and "ucast (drop_bit 8 w) = b"
    and "ucast (drop_bit 16 w) = c" and "ucast (drop_bit 24 w) = d"
  unfolding w_def
  by (intro bit_word_eqI; auto simp: getblock32_def bit_simps dest: bit_imp_le_length)+

lemma getblock32_bytes:
  fixes a b c d a' b' c' d' :: u8
  assumes "getblock32 [a, b, c, d] 0 = getblock32 [a', b', c', d'] 0"
  shows "[a, b, c, d] = [a', b', c', d']"
  using assms getblock32_byte [of a b c d] getblock32_byte [of a' b' c' d'] by simp

lemma length_4_cases:
  assumes "length xs = 4"
  obtains a b c d where "xs = [a, b, c, d]"
  using assms that by (cases xs; cases "tl xs"; cases "tl (tl xs)"; cases "tl (tl (tl xs))") auto

lemma MurmurHash3_4:
  "MurmurHash3_x86_32 [a, b, c, d] seed = fmix32 (murmur_round seed (getblock32 [a, b, c, d] 0) XOR 4)"
proof -
  have "mm3_body [a, b, c, d] 1 1 seed = murmur_round seed (getblock32 [a, b, c, d] 0)"
    using mm3_body_murmur_body [of "[a, b, c, d]" 1 1 seed] by (simp add: One_nat_def)
  then show ?thesis
    by (simp add: MurmurHash3_x86_32_def mm3_tail_def Let_def)
qed

text \<open>
  Two different four-byte keys (the logical page addresses the Bloom filter hashes) never
  collide: for every seed the full 32-bit hash is injective on them.
\<close>

theorem murmur_injective_4:
  assumes "length a = 4" and "length b = 4"
    and "MurmurHash3_x86_32 a seed = MurmurHash3_x86_32 b seed"
  shows "a = b"
proof -
  obtain a0 a1 a2 a3 where a: "a = [a0, a1, a2, a3]"
    using assms(1) by (rule length_4_cases)
  obtain b0 b1 b2 b3 where b: "b = [b0, b1, b2, b3]"
    using assms(2) by (rule length_4_cases)
  have "4 XOR murmur_round seed (getblock32 a 0) = 4 XOR murmur_round seed (getblock32 b 0)"
    using inj_fmix32 [OF assms(3) [unfolded a b MurmurHash3_4]] by (simp add: a b xor.commute)
  then have "getblock32 a 0 = getblock32 b 0"
    by (rule inj_murmur_round [OF xor_cancel_left])
  then show ?thesis
    unfolding a b by (rule getblock32_bytes)
qed

text \<open>A witness: the hypotheses hold at a concrete key, and the contrapositive separates two keys.\<close>

theorem murmur_injective_4_witness:
  "MurmurHash3_x86_32 [1, 0, 0, 0] 7 \<noteq> MurmurHash3_x86_32 [2, 0, 0, 0] 7 \<and>
   length ([1, 0, 0, 0] :: u8 list) = 4"
  using murmur_injective_4 [of "[1, 0, 0, 0]" "[2, 0, 0, 0]" 7] by auto

end
