(* ===== verification/Interfaces.thy ===== *)
theory Interfaces
  imports Base
begin

text \<open>
  The interfaces between the components, one locale each: the operations a client calls, the laws
  the provider promises, and what follows from the laws.  Each locale is interpreted on the model
  of every component that provides it, in that component's theory.
\<close>

section \<open>Membership filters\<close>

text \<open>
  A filter may answer "present" for an element that was never added, but never "absent" for one
  that was.  The Bloom filter and the write buffer's hash table are used this way.
\<close>

locale membership_filter =
  fixes wf :: "'s \<Rightarrow> bool"
    and add :: "'a \<Rightarrow> 's \<Rightarrow> 's"
    and query :: "'s \<Rightarrow> 'a \<Rightarrow> bool"
  assumes wf_add: "wf s \<Longrightarrow> wf (add x s)"
    and query_add_same: "wf s \<Longrightarrow> query (add x s) x"
    and query_add_mono: "wf s \<Longrightarrow> query s y \<Longrightarrow> query (add x s) y"
begin

lemma wf_fold: "wf s \<Longrightarrow> wf (fold add xs s)"
  by (induction xs arbitrary: s) (auto intro: wf_add)

lemma query_fold_mono: "wf s \<Longrightarrow> query s y \<Longrightarrow> query (fold add xs s) y"
  by (induction xs arbitrary: s) (auto intro: wf_add query_add_mono)

lemma query_fold: "wf s \<Longrightarrow> x \<in> set xs \<Longrightarrow> query (fold add xs s) x"
proof (induction xs arbitrary: s)
  case Nil
  then show ?case by simp
next
  case (Cons y xs)
  have "wf (add y s)"
    using Cons.prems(1) by (rule wf_add)
  moreover have "query (add x s) x"
    using Cons.prems(1) by (rule query_add_same)
  ultimately show ?case
    using Cons.IH Cons.prems(2) query_fold_mono by auto
qed

end

section \<open>Recency lists\<close>

text \<open>
  What the mapping cache relies on in the LRU list: a new node is the most recent, a touch makes
  a node the most recent and keeps the order of the others, a removal keeps the order of the
  rest, and a pop returns the least recent.  \<open>rep\<close> relates the list to its (node, data) pairs.
\<close>

fun pop_n :: "('l \<Rightarrow> ('r \<times> 'l) option) \<Rightarrow> nat \<Rightarrow> 'l \<Rightarrow> ('r list \<times> 'l) option" where
  "pop_n pop 0 l = Some ([], l)"
| "pop_n pop (Suc k) l = do {
     (r, l') \<leftarrow> pop l;
     (rs, l'') \<leftarrow> pop_n pop k l';
     Some (r # rs, l'')
   }"

locale recency =
  fixes rep :: "'l \<Rightarrow> ('a \<times> 'd) list \<Rightarrow> bool"
    and push :: "'l \<Rightarrow> 'd \<Rightarrow> ('a \<times> 'l) option"
    and pop :: "'l \<Rightarrow> ('d \<times> 'l) option"
    and touch :: "'l \<Rightarrow> 'a \<Rightarrow> 'l option"
    and remove :: "'l \<Rightarrow> 'a \<Rightarrow> 'l option"
  assumes push: "rep l ps \<Longrightarrow> returns (push l d) (\<lambda>(a, l'). a \<notin> fst ` set ps \<and> rep l' ((a, d) # ps))"
    and pop: "rep l (ps @ [(a, d)]) \<Longrightarrow> returns (pop l) (\<lambda>(r, l'). r = d \<and> rep l' ps)"
    and touch: "rep l (us @ (a, d) # vs) \<Longrightarrow> returns (touch l a) (\<lambda>l'. rep l' ((a, d) # us @ vs))"
    and remove: "rep l (us @ (a, d) # vs) \<Longrightarrow> returns (remove l a) (\<lambda>l'. rep l' (us @ vs))"
begin

lemma drain:
  "rep l (us @ ps) \<Longrightarrow> returns (pop_n pop (length ps) l) (\<lambda>(rs, l'). rs = rev (map snd ps) \<and> rep l' us)"
proof (induction ps arbitrary: l rule: rev_induct)
  case Nil
  then show ?case by simp
next
  case (snoc p ps)
  obtain a d where p: "p = (a, d)" by (cases p)
  from snoc.prems have "rep l ((us @ ps) @ [(a, d)])" by (simp add: p)
  from pop [OF this] obtain l' where "pop l = Some (d, l')" and l': "rep l' (us @ ps)"
    by (auto elim!: returnsE)
  with snoc.IH [OF l'] show ?case
    by (auto simp: p elim!: returnsE)
qed

text \<open>The touched node is the last one a drain returns; the others keep their order.\<close>

lemma touch_drain:
  assumes "rep l (us @ (a, d) # vs)"
  shows "returns (touch l a) (\<lambda>l'. returns (pop_n pop (length us + length vs) l')
    (\<lambda>(rs, l''). rs = rev (map snd (us @ vs)) \<and> rep l'' [(a, d)]))"
  using touch [OF assms]
proof (rule returns_mono)
  fix l'
  assume "rep l' ((a, d) # us @ vs)"
  then have "rep l' ([(a, d)] @ (us @ vs))" by simp
  from drain [OF this] show "returns (pop_n pop (length us + length vs) l')
    (\<lambda>(rs, l''). rs = rev (map snd (us @ vs)) \<and> rep l'' [(a, d)])"
    by simp
qed

lemma push_remove:
  assumes "rep l ps"
  shows "returns (push l d) (\<lambda>(a, l'). returns (remove l' a) (\<lambda>l''. rep l'' ps))"
proof -
  have "returns (remove l' a) (\<lambda>l''. rep l'' ps)" if "rep l' ((a, d) # ps)" for a l'
    using remove [of l' "[]" a d ps] that by simp
  then show ?thesis
    using returns_mono [OF push [OF assms]] by auto
qed

end

section \<open>Flash devices\<close>

text \<open>
  What the translation layer relies on in the device.  A line is programmed from its write pointer
  on; the pages below the pointer, and only those, can be read; an erase moves the pointer of its
  line to the start.
\<close>

fun program_all :: "(nat \<Rightarrow> nat \<Rightarrow> 's \<Rightarrow> 's option) \<Rightarrow> (nat \<times> nat) list \<Rightarrow> 's \<Rightarrow> 's option" where
  "program_all prog [] s = Some s"
| "program_all prog ((p, n) # segs) s = do { s' \<leftarrow> prog p n s; program_all prog segs s' }"

text \<open>Adjacent segments of the given lengths from page \<open>p\<close> on.\<close>

fun tiles :: "nat \<Rightarrow> nat list \<Rightarrow> (nat \<times> nat) list" where
  "tiles p [] = []"
| "tiles p (n # ns) = (p, n) # tiles (p + n) ns"

locale flash_device =
  fixes inv :: "'s \<Rightarrow> bool"
    and lines :: "'s \<Rightarrow> nat"
    and lsize :: "'s \<Rightarrow> nat"
    and wp :: "'s \<Rightarrow> nat \<Rightarrow> nat"
    and readable :: "'s \<Rightarrow> nat \<Rightarrow> bool"
    and prog :: "nat \<Rightarrow> nat \<Rightarrow> 's \<Rightarrow> 's option"
    and erase :: "nat \<Rightarrow> 's \<Rightarrow> 's option"
  assumes prog: "\<lbrakk>inv s; l < lines s; wp s l + n \<le> lsize s\<rbrakk> \<Longrightarrow>
      returns (prog (l * lsize s + wp s l) n s)
        (\<lambda>s'. inv s' \<and> lines s' = lines s \<and> lsize s' = lsize s \<and> wp s' = (wp s)(l := wp s l + n))"
    and erase: "\<lbrakk>inv s; l < lines s\<rbrakk> \<Longrightarrow>
      returns (erase (l * lsize s) s)
        (\<lambda>s'. inv s' \<and> lines s' = lines s \<and> lsize s' = lsize s \<and> wp s' = (wp s)(l := 0))"
    and readable: "\<lbrakk>inv s; l < lines s; i < lsize s\<rbrakk> \<Longrightarrow> readable s (l * lsize s + i) \<longleftrightarrow> i < wp s l"
begin

lemma program_tiles:
  "\<lbrakk>inv s; l < lines s; wp s l + sum_list ns \<le> lsize s\<rbrakk> \<Longrightarrow>
    returns (program_all prog (tiles (l * lsize s + wp s l) ns) s)
      (\<lambda>s'. inv s' \<and> lines s' = lines s \<and> lsize s' = lsize s \<and> wp s' = (wp s)(l := wp s l + sum_list ns))"
proof (induction ns arbitrary: s)
  case Nil
  then show ?case by simp
next
  case (Cons n ns)
  have "returns (prog (l * lsize s + wp s l) n s)
      (\<lambda>s'. inv s' \<and> lines s' = lines s \<and> lsize s' = lsize s \<and> wp s' = (wp s)(l := wp s l + n))"
    using Cons.prems by (intro prog) auto
  then obtain s1 where s1: "prog (l * lsize s + wp s l) n s = Some s1" "inv s1" "lines s1 = lines s"
    "lsize s1 = lsize s" "wp s1 = (wp s)(l := wp s l + n)"
    by (auto elim: returnsE)
  have "returns (program_all prog (tiles (l * lsize s1 + wp s1 l) ns) s1)
      (\<lambda>s'. inv s' \<and> lines s' = lines s1 \<and> lsize s' = lsize s1 \<and> wp s' = (wp s1)(l := wp s1 l + sum_list ns))"
    using Cons.prems s1 by (intro Cons.IH) auto
  then obtain s2 where s2: "program_all prog (tiles (l * lsize s1 + wp s1 l) ns) s1 = Some s2" "inv s2"
    "lines s2 = lines s1" "lsize s2 = lsize s1" "wp s2 = (wp s1)(l := wp s1 l + sum_list ns)"
    by (auto elim: returnsE)
  have "wp s2 = (wp s)(l := wp s l + sum_list (n # ns))"
    by (simp add: s1 s2(5) add.assoc)
  moreover have "program_all prog (tiles (l * lsize s + wp s l) (n # ns)) s = Some s2"
    using s2(1) by (simp add: s1 add.assoc)
  ultimately show ?case
    using s1 s2 by (simp add: returns_def fun_eq_iff)
qed

lemma erase_program:
  assumes "inv s" and "l < lines s" and "sum_list ns \<le> lsize s"
  shows "returns (erase (l * lsize s) s) (\<lambda>s1.
    returns (program_all prog (tiles (l * lsize s) ns) s1) (\<lambda>s2. inv s2 \<and>
      (\<forall>i < lsize s. readable s2 (l * lsize s + i) \<longleftrightarrow> i < sum_list ns)))"
  using erase [OF assms(1,2)]
proof (rule returns_mono, elim conjE)
  fix s1
  assume s1: "inv s1" "lines s1 = lines s" "lsize s1 = lsize s" "wp s1 = (wp s)(l := 0)"
  have "returns (program_all prog (tiles (l * lsize s1 + wp s1 l) ns) s1)
      (\<lambda>s'. inv s' \<and> lines s' = lines s1 \<and> lsize s' = lsize s1 \<and> wp s' = (wp s1)(l := wp s1 l + sum_list ns))"
    using assms s1 by (intro program_tiles) auto
  then obtain s2 where s2: "program_all prog (tiles (l * lsize s1 + wp s1 l) ns) s1 = Some s2" "inv s2"
    "lines s2 = lines s1" "lsize s2 = lsize s1" "wp s2 = (wp s1)(l := wp s1 l + sum_list ns)"
    by (auto elim: returnsE)
  have "readable s2 (l * lsize s + i) \<longleftrightarrow> i < sum_list ns" if "i < lsize s" for i
    using readable [of s2 l i] that s1 s2 assms(2) by simp
  then show "returns (program_all prog (tiles (l * lsize s) ns) s1) (\<lambda>s2. inv s2 \<and>
      (\<forall>i < lsize s. readable s2 (l * lsize s + i) \<longleftrightarrow> i < sum_list ns))"
    using s1 s2 by (simp add: returns_def)
qed

end

section \<open>Bounded queues\<close>

text \<open>
  A queue of bounded capacity whose push drops the oldest element when it is full.
\<close>

definition last_n :: "nat \<Rightarrow> 'a list \<Rightarrow> 'a list" where
  "last_n n xs = drop (length xs - n) xs"

lemma last_n_short [simp]: "length xs \<le> n \<Longrightarrow> last_n n xs = xs"
  by (simp add: last_n_def)

lemma length_last_n [simp]: "length (last_n n xs) = min n (length xs)"
  by (simp add: last_n_def)

lemma last_n_snoc: "last_n n (last_n n xs @ [x]) = last_n n (xs @ [x])"
  by (cases "length xs \<le> n") (auto simp: last_n_def min_def Suc_diff_le)

locale bounded_queue =
  fixes inv :: "'s \<Rightarrow> bool"
    and capacity :: "'s \<Rightarrow> nat"
    and content :: "'s \<Rightarrow> 'a list"
    and push :: "'a \<Rightarrow> 's \<Rightarrow> 's"
    and pop :: "'s \<Rightarrow> ('a \<times> 's) option"
  assumes push: "inv s \<Longrightarrow> inv (push x s) \<and> capacity (push x s) = capacity s \<and>
      content (push x s) = last_n (capacity s) (content s @ [x])"
    and pop: "\<lbrakk>inv s; content s = x # xs\<rbrakk> \<Longrightarrow>
      returns (pop s) (\<lambda>(y, s'). y = x \<and> inv s' \<and> capacity s' = capacity s \<and> content s' = xs)"
begin

lemma push_all:
  "inv s \<Longrightarrow> length (content s) \<le> capacity s \<Longrightarrow> inv (fold push xs s) \<and> capacity (fold push xs s) = capacity s \<and>
    content (fold push xs s) = last_n (capacity s) (content s @ xs)"
proof (induction xs rule: rev_induct)
  case (snoc x xs)
  then show ?case
    using push [of "fold push xs s" x] last_n_snoc [of "capacity s" "content s @ xs" x] by simp
qed simp

lemma pop_all:
  "inv s \<Longrightarrow> content s = xs @ ys \<Longrightarrow> returns (pop_n pop (length xs) s) (\<lambda>(rs, s'). rs = xs \<and> inv s' \<and> content s' = ys)"
proof (induction xs arbitrary: s)
  case (Cons x xs)
  obtain s' where s': "pop s = Some (x, s')" "inv s'" "content s' = xs @ ys"
    using pop [of s x "xs @ ys"] Cons.prems by (auto elim!: returnsE)
  show ?case
    using Cons.IH [OF s'(2,3)] s'(1) by (auto elim!: returnsE)
qed simp

text \<open>What was pushed last comes out, oldest first.\<close>

lemma push_pop:
  assumes "inv s" and "content s = []"
  shows "returns (pop_n pop (min (capacity s) (length xs)) (fold push xs s))
    (\<lambda>(rs, s'). rs = last_n (capacity s) xs \<and> content s' = [])"
proof -
  have f: "inv (fold push xs s)" "content (fold push xs s) = last_n (capacity s) xs @ []"
    using push_all [of s xs] assms by simp_all
  have "returns (pop_n pop (length (last_n (capacity s) xs)) (fold push xs s))
      (\<lambda>(rs, s'). rs = last_n (capacity s) xs \<and> inv s' \<and> content s' = [])"
    using f by (rule pop_all)
  then have "returns (pop_n pop (min (capacity s) (length xs)) (fold push xs s))
      (\<lambda>(rs, s'). rs = last_n (capacity s) xs \<and> inv s' \<and> content s' = [])"
    by simp
  then show ?thesis
    by (rule returns_mono) auto
qed

end

section \<open>Service queues\<close>

text \<open>
  A queue that places an arrival by some rule and serves from its front.  \<open>place\<close> is the rule on
  the list of waiting elements.
\<close>

fun enter_all :: "('p \<Rightarrow> 'q \<Rightarrow> 'q option) \<Rightarrow> 'p list \<Rightarrow> 'q \<Rightarrow> 'q option" where
  "enter_all enter [] q = Some q"
| "enter_all enter (p # ps) q = do { q' \<leftarrow> enter p q; enter_all enter ps q' }"

locale service_queue =
  fixes rep :: "'q \<Rightarrow> 'p list \<Rightarrow> bool"
    and enter :: "'p \<Rightarrow> 'q \<Rightarrow> 'q option"
    and serve :: "'q \<Rightarrow> ('p option \<times> 'q) option"
    and place :: "'p \<Rightarrow> 'p list \<Rightarrow> 'p list"
  assumes enter: "rep q xs \<Longrightarrow> returns (enter p q) (\<lambda>q'. rep q' (place p xs))"
    and serve: "rep q (x # xs) \<Longrightarrow> returns (serve q) (\<lambda>(r, q'). r = Some x \<and> rep q' xs)"
    and length_place: "length (place p xs) = Suc (length xs)"
begin

lemma enter_all: "rep q xs \<Longrightarrow> returns (enter_all enter ps q) (\<lambda>q'. rep q' (fold place ps xs))"
proof (induction ps arbitrary: q xs)
  case (Cons p ps)
  then obtain q' where "enter p q = Some q'" "rep q' (place p xs)"
    using enter [of q xs p] by (auto elim: returnsE)
  then show ?case
    using Cons.IH by simp
qed simp

lemma serve_all: "rep q xs \<Longrightarrow> returns (pop_n serve (length xs) q) (\<lambda>(rs, q'). rs = map Some xs \<and> rep q' [])"
proof (induction xs arbitrary: q)
  case (Cons x xs)
  then obtain q' where q': "serve q = Some (Some x, q')" "rep q' xs"
    using serve [of q x xs] by (auto elim!: returnsE)
  from Cons.IH [OF q'(2)] q'(1) show ?case
    by (auto elim!: returnsE)
qed simp

lemma length_fold_place: "length (fold place ps xs) = length ps + length xs"
  by (induction ps arbitrary: xs) (simp_all add: length_place)

text \<open>Everything that entered is served, in the order of the rule.\<close>

lemma enter_serve:
  assumes "rep q []"
  shows "returns (enter_all enter ps q) (\<lambda>q1. returns (pop_n serve (length ps) q1)
    (\<lambda>(rs, q2). rs = map Some (fold place ps []) \<and> rep q2 []))"
  using enter_all [OF assms]
proof (rule returns_mono)
  fix q1
  assume "rep q1 (fold place ps [])"
  from serve_all [OF this] show "returns (pop_n serve (length ps) q1)
    (\<lambda>(rs, q2). rs = map Some (fold place ps []) \<and> rep q2 [])"
    by (simp add: length_fold_place)
qed

end

end
