(* ===== verification/Bloom.thy ===== *)
theory Bloom
  imports Interfaces Murmur
begin

text \<open>
  The Bloom filter of \<^verbatim>\<open>tools/bloomfilter.c\<close> (built with \<^verbatim>\<open>MURMUR_HASH\<close>): the filter as a
  byte array, its operations, the set of bits it stands for, and the refinement of the operations
  to that set.  The size \<^verbatim>\<open>m\<close> and the number of hash functions that \<open>bf_init\<close> computes in
  floating point are arguments of the model of \<open>bf_init\<close>.
\<close>

unbundle bit_operations_syntax

section \<open>State and operations\<close>

record bf =
  nr_hash :: nat
  bf_m :: nat
  targetsize :: nat
  nr_entry :: int
  valid_entry :: int
  body :: "u8 list"

definition BITSET :: "u8 \<Rightarrow> nat \<Rightarrow> u8" where
  "BITSET input offset = input OR push_bit offset 1"

definition BITGET :: "u8 \<Rightarrow> nat \<Rightarrow> bool" where
  "BITGET input offset \<longleftrightarrow> input AND push_bit offset 1 \<noteq> 0"

text \<open>\<^verbatim>\<open>bf_init\<close>: \<open>fpr_ok\<close> is the test \<^verbatim>\<open>0 < fpr && fpr <= 1\<close>; \<open>m\<close> and \<open>k\<close> are the values
  of the two floating-point expressions.\<close>

definition bf_init :: "int \<Rightarrow> bool \<Rightarrow> nat \<Rightarrow> int \<Rightarrow> bf option" where
  "bf_init entry fpr_ok m k =
     (if entry \<le> 0 \<or> \<not> fpr_ok then None
      else
        (let targetsize = m div 8;
             targetsize = (if m mod 8 \<noteq> 0 then targetsize + 1 else targetsize)
         in Some \<lparr>nr_hash = (if k < 1 then 1 else nat k), bf_m = m, targetsize = targetsize,
                  nr_entry = entry, valid_entry = 0, body = replicate targetsize 0\<rparr>))"

definition bf_reset :: "bf \<Rightarrow> bf" where
  "bf_reset b = b\<lparr>valid_entry := 0, body := replicate (targetsize b) 0\<rparr>"

text \<open>The bytes of a \<^verbatim>\<open>uint32_t\<close> in memory order.\<close>

definition lpa_bytes :: "u32 \<Rightarrow> u8 list" where
  "lpa_bytes lpa = [ucast lpa, ucast (drop_bit 8 lpa), ucast (drop_bit 16 lpa), ucast (drop_bit 24 lpa)]"

definition bf_hash :: "bf \<Rightarrow> u32 \<Rightarrow> nat \<Rightarrow> nat" where
  "bf_hash b lpa i = unat (MurmurHash3_x86_32 (lpa_bytes lpa) (of_nat i)) mod bf_m b"

text \<open>The loop \<^verbatim>\<open>for (i = 0; i < nr_hash; i++)\<close> of \<^verbatim>\<open>bf_set\<close>, with \<open>n\<close> rounds to go.\<close>

fun bf_set_from :: "nat \<Rightarrow> nat \<Rightarrow> u32 \<Rightarrow> bf \<Rightarrow> bf" where
  "bf_set_from 0 i lpa b = b"
| "bf_set_from (Suc n) i lpa b =
     (let h = bf_hash b lpa i;
          block = h div 8;
          offset = h mod 8
      in bf_set_from n (Suc i) lpa (b\<lparr>body := (body b)[block := BITSET (body b ! block) offset]\<rparr>))"

definition bf_set :: "u32 \<Rightarrow> bf \<Rightarrow> bf" where
  "bf_set lpa b = bf_set_from (nr_hash b) 0 lpa b"

fun bf_check_from :: "nat \<Rightarrow> nat \<Rightarrow> bf \<Rightarrow> u32 \<Rightarrow> bool" where
  "bf_check_from 0 i b lpa = True"
| "bf_check_from (Suc n) i b lpa =
     (let h = bf_hash b lpa i;
          block = h div 8;
          offset = h mod 8
      in if \<not> BITGET (body b ! block) offset then False else bf_check_from n (Suc i) b lpa)"

definition bf_check :: "bf \<Rightarrow> u32 \<Rightarrow> bool" where
  "bf_check b lpa = bf_check_from (nr_hash b) 0 b lpa"

section \<open>The set of bits a filter stands for\<close>

definition bf_wf :: "bf \<Rightarrow> bool" where
  "bf_wf b \<longleftrightarrow> 0 < bf_m b \<and> length (body b) = targetsize b \<and> bf_m b \<le> 8 * targetsize b"

definition bf_bits :: "bf \<Rightarrow> nat set" where
  "bf_bits b = {h. h < bf_m b \<and> bit (body b ! (h div 8)) (h mod 8)}"

definition bf_positions :: "bf \<Rightarrow> u32 \<Rightarrow> nat set" where
  "bf_positions b lpa = bf_hash b lpa ` {..<nr_hash b}"

lemma BITGET_bit: "offset < 8 \<Longrightarrow> BITGET w offset \<longleftrightarrow> bit w offset"
proof
  assume "offset < 8" "BITGET w offset"
  then obtain n where "bit (w AND push_bit offset 1) n"
    by (auto simp: BITGET_def bit_eq_iff)
  then show "bit w offset"
    by (auto simp: bit_and_iff bit_exp_iff)
next
  assume "offset < 8" "bit w offset"
  then have "bit (w AND push_bit offset 1) offset"
    by (auto simp: bit_and_iff bit_exp_iff)
  then show "BITGET w offset"
    by (auto simp: BITGET_def)
qed

lemma bit_BITSET: "offset < 8 \<Longrightarrow> bit (BITSET w offset) n \<longleftrightarrow> bit w n \<or> n = offset"
  by (auto simp: BITSET_def bit_or_iff bit_exp_iff)

lemma bf_hash_less: "bf_wf b \<Longrightarrow> bf_hash b lpa i < bf_m b"
  by (simp add: bf_hash_def bf_wf_def)

lemma block_in_range: "bf_wf b \<Longrightarrow> h < bf_m b \<Longrightarrow> h div 8 < length (body b)"
  by (auto simp: bf_wf_def less_mult_imp_div_less mult.commute)

abbreviation bf_set_bit :: "nat \<Rightarrow> bf \<Rightarrow> bf" where
  "bf_set_bit h b \<equiv> b\<lparr>body := (body b)[h div 8 := BITSET (body b ! (h div 8)) (h mod 8)]\<rparr>"

lemma bf_bits_set_bit:
  assumes "bf_wf b" and "h < bf_m b"
  shows "bf_bits (bf_set_bit h b) = insert h (bf_bits b)"
proof -
  have "g = h" if "g div 8 = h div 8" "g mod 8 = h mod 8" for g
    using that by (metis mult_div_mod_eq)
  then show ?thesis
    using assms block_in_range [OF assms]
    by (auto simp: bf_bits_def nth_list_update bit_BITSET)
qed

lemma bf_set_from_props:
  assumes "bf_wf b"
  shows "bf_wf (bf_set_from n i lpa b)"
    and "nr_hash (bf_set_from n i lpa b) = nr_hash b"
    and "bf_m (bf_set_from n i lpa b) = bf_m b"
    and "bf_bits (bf_set_from n i lpa b) = bf_bits b \<union> bf_hash b lpa ` {i..<i + n}"
  using assms
proof (induction n arbitrary: i b)
  case 0
  { case 1 then show ?case by simp
  next case 2 then show ?case by simp
  next case 3 then show ?case by simp
  next case 4 then show ?case by simp }
next
  case (Suc n)
  have step: "bf_wf b \<Longrightarrow> bf_wf (bf_set_bit h b)" for h and b :: bf
    by (simp add: bf_wf_def)
  have hash: "bf_hash (bf_set_bit h b) lpa j = bf_hash b lpa j" for h j and b :: bf
    by (simp add: bf_hash_def)
  { case 1 show ?case using Suc.IH(1) [OF step [OF 1]] by (simp add: Let_def)
  next case 2 then show ?case by (simp add: Let_def Suc.IH(2) step)
  next case 3 then show ?case by (simp add: Let_def Suc.IH(3) step)
  next
    case 4
    have "{i..<i + Suc n} = insert i {Suc i..<Suc i + n}" by auto
    then show ?case
      using Suc.IH(4) [OF step [OF 4]] bf_bits_set_bit [OF 4 bf_hash_less [OF 4]] hash
      by (simp add: Let_def) }
qed

lemma bf_check_from_iff:
  assumes "bf_wf b"
  shows "bf_check_from n i b lpa \<longleftrightarrow> bf_hash b lpa ` {i..<i + n} \<subseteq> bf_bits b"
proof (induction n arbitrary: i)
  case 0
  then show ?case by simp
next
  case (Suc n)
  have "{i..<i + Suc n} = insert i {Suc i..<Suc i + n}" by auto
  moreover have "bf_hash b lpa i \<in> bf_bits b \<longleftrightarrow>
      BITGET (body b ! (bf_hash b lpa i div 8)) (bf_hash b lpa i mod 8)"
    using bf_hash_less [OF assms] by (simp add: bf_bits_def BITGET_bit)
  ultimately show ?case
    using Suc by (simp add: Let_def)
qed

lemma bf_wf_set: "bf_wf b \<Longrightarrow> bf_wf (bf_set lpa b)"
  by (simp add: bf_set_def bf_set_from_props)

lemma bf_positions_set: "bf_wf b \<Longrightarrow> bf_positions (bf_set lpa b) x = bf_positions b x"
  by (simp add: bf_positions_def bf_set_def bf_set_from_props bf_hash_def)

lemma bf_bits_set: "bf_wf b \<Longrightarrow> bf_bits (bf_set lpa b) = bf_bits b \<union> bf_positions b lpa"
  by (simp add: bf_set_def bf_positions_def bf_set_from_props(4) lessThan_atLeast0)

lemma bf_check_iff: "bf_wf b \<Longrightarrow> bf_check b lpa \<longleftrightarrow> bf_positions b lpa \<subseteq> bf_bits b"
  by (simp add: bf_check_def bf_positions_def bf_check_from_iff lessThan_atLeast0)

lemma bf_wf_reset: "bf_wf b \<Longrightarrow> bf_wf (bf_reset b)"
  by (simp add: bf_wf_def bf_reset_def)

lemma bf_bits_reset: "bf_wf b \<Longrightarrow> bf_bits (bf_reset b) = {}"
  using block_in_range [of b] by (auto simp: bf_bits_def bf_reset_def bf_wf_def)

lemma bf_wf_init: "bf_init entry ok m k = Some b \<Longrightarrow> 0 < m \<Longrightarrow> bf_wf b"
  by (auto simp: bf_init_def bf_wf_def Let_def split: if_splits)

section \<open>The filter interface\<close>

interpretation bloom: membership_filter bf_wf bf_set bf_check
  by unfold_locales (auto simp: bf_wf_set bf_check_iff bf_bits_set bf_positions_set)

lemma bf_set_fold_bits:
  "bf_wf b \<Longrightarrow> bf_bits (fold bf_set xs b) = bf_bits b \<union> (\<Union>x\<in>set xs. bf_positions b x)"
  by (induction xs arbitrary: b) (auto simp: bf_wf_set bf_bits_set bf_positions_set)

lemma bf_set_fold_positions:
  "bf_wf b \<Longrightarrow> bf_positions (fold bf_set xs b) y = bf_positions b y"
  by (induction xs arbitrary: b) (simp_all add: bf_wf_set bf_positions_set)

text \<open>
  C31. After a reset and any sequence of \<open>bf_set\<close> calls, \<open>bf_check\<close> answers exactly whether every
  bit position of the queried address was set by one of the inserted addresses; in particular an
  inserted address is always found (no false negatives).
\<close>

theorem bf_check_after_sets:
  assumes "bf_wf b"
  shows "(bf_check (fold bf_set xs (bf_reset b)) y \<longleftrightarrow>
            bf_positions b y \<subseteq> (\<Union>x\<in>set xs. bf_positions b x)) \<and>
         (y \<in> set xs \<longrightarrow> bf_check (fold bf_set xs (bf_reset b)) y)"
proof
  have wf: "bf_wf (bf_reset b)"
    using assms by (rule bf_wf_reset)
  have pos: "bf_positions (bf_reset b) x = bf_positions b x" for x
    by (simp add: bf_positions_def bf_reset_def bf_hash_def)
  show "bf_check (fold bf_set xs (bf_reset b)) y \<longleftrightarrow>
      bf_positions b y \<subseteq> (\<Union>x\<in>set xs. bf_positions b x)"
    by (simp add: bf_check_iff bloom.wf_fold wf bf_set_fold_bits bf_set_fold_positions
        bf_bits_reset assms pos)
  show "y \<in> set xs \<longrightarrow> bf_check (fold bf_set xs (bf_reset b)) y"
    using wf bloom.query_fold by blast
qed

text \<open>A witness: a filter of 16 bits and two hash functions.\<close>

theorem bf_check_after_sets_witness:
  "\<exists>b. bf_init 4 True 16 2 = Some b \<and> bf_check (fold bf_set [7, 9] (bf_reset b)) 9"
proof -
  obtain b where b: "bf_init 4 True 16 2 = Some b"
    by (simp add: bf_init_def Let_def)
  have "bf_wf b"
    using bf_wf_init [OF b] by simp
  then show ?thesis
    using b bf_check_after_sets [of b "[7, 9]" 9] by auto
qed

end
