(* ===== verification/Store.thy ===== *)
theory Store
  imports Base
begin

text \<open>
  The explicit store of the pointer structures: memory cells at addresses, \<^verbatim>\<open>malloc\<close> and \<^verbatim>\<open>free\<close>,
  the doubly linked node that \<^verbatim>\<open>tools/lru_list.c\<close> and \<^verbatim>\<open>hash_hot_cmt/algo_queue.c\<close> share in
  shape, and the segments of such nodes.  A pointer is an \<open>addr option\<close>, with \<open>None\<close> for \<^verbatim>\<open>NULL\<close>;
  reading or writing through a null or freed pointer is \<open>None\<close>.
\<close>

section \<open>Memory\<close>

record 'n mem =
  cells :: "addr \<rightharpoonup> 'n"
  brk :: addr

definition empty_mem :: "'n mem" where
  "empty_mem = \<lparr>cells = Map.empty, brk = 0\<rparr>"

text \<open>\<^verbatim>\<open>malloc\<close> returns an address that no live cell has (allocation never fails here).\<close>

definition malloc :: "'n \<Rightarrow> 'n mem \<Rightarrow> addr \<times> 'n mem" where
  "malloc n m = (brk m, m\<lparr>cells := (cells m)(brk m \<mapsto> n), brk := Suc (brk m)\<rparr>)"

definition free_cell :: "addr option \<Rightarrow> 'n mem \<Rightarrow> 'n mem option" where
  "free_cell p m =
     (case p of None \<Rightarrow> None
      | Some a \<Rightarrow> (case cells m a of None \<Rightarrow> None | Some _ \<Rightarrow> Some (m\<lparr>cells := (cells m)(a := None)\<rparr>)))"

definition load :: "addr option \<Rightarrow> 'n mem \<Rightarrow> 'n option" where
  "load p m = (case p of None \<Rightarrow> None | Some a \<Rightarrow> cells m a)"

definition modify :: "addr option \<Rightarrow> ('n \<Rightarrow> 'n) \<Rightarrow> 'n mem \<Rightarrow> 'n mem option" where
  "modify p f m =
     (case p of None \<Rightarrow> None
      | Some a \<Rightarrow> (case cells m a of None \<Rightarrow> None | Some n \<Rightarrow> Some (m\<lparr>cells := (cells m)(a \<mapsto> f n)\<rparr>)))"

definition mem_wf :: "'n mem \<Rightarrow> bool" where
  "mem_wf m \<longleftrightarrow> (\<forall>a. cells m a \<noteq> None \<longrightarrow> a < brk m)"

lemma load_simps [simp]: "load None m = None" "load (Some a) m = cells m a"
  by (simp_all add: load_def)

lemma modify_simps [simp]:
  "modify None f m = None"
  "cells m a = Some n \<Longrightarrow> modify (Some a) f m = Some (m\<lparr>cells := (cells m)(a \<mapsto> f n)\<rparr>)"
  by (simp_all add: modify_def)

lemma free_cell_simps [simp]:
  "free_cell None m = None"
  "cells m a = Some n \<Longrightarrow> free_cell (Some a) m = Some (m\<lparr>cells := (cells m)(a := None)\<rparr>)"
  by (simp_all add: free_cell_def)

lemma mem_wf_fresh: "mem_wf m \<Longrightarrow> cells m (brk m) = None"
  by (auto simp: mem_wf_def)

lemma mem_wf_upd: "mem_wf m \<Longrightarrow> a < brk m \<Longrightarrow> mem_wf (m\<lparr>cells := (cells m)(a := v)\<rparr>)"
  by (auto simp: mem_wf_def)

lemma mem_wf_upd_live:
  "mem_wf m \<Longrightarrow> cells m a = Some n \<Longrightarrow> mem_wf (m\<lparr>cells := (cells m)(a := v)\<rparr>)"
  by (auto simp: mem_wf_def)

lemma mem_wf_alloc:
  "mem_wf m \<Longrightarrow> mem_wf (m\<lparr>cells := (cells m)(brk m \<mapsto> n), brk := Suc (brk m)\<rparr>)"
  by (auto simp: mem_wf_def less_Suc_eq)

section \<open>Doubly linked nodes and segments\<close>

record 'd node =
  data :: 'd
  nxt :: "addr option"
  prv :: "addr option"

text \<open>
  \<open>seg c pr p xs l nx\<close>: starting at \<open>p\<close>, whose predecessor is \<open>pr\<close>, the nodes at the addresses
  \<open>xs\<close> are linked in both directions; \<open>l\<close> is the last of them (\<open>pr\<close> if there is none), and \<open>nx\<close>
  is what follows.
\<close>

fun seg :: "(addr \<rightharpoonup> 'd node) \<Rightarrow> addr option \<Rightarrow> addr option \<Rightarrow> addr list \<Rightarrow> addr option \<Rightarrow>
    addr option \<Rightarrow> bool" where
  "seg c pr p [] l nx \<longleftrightarrow> l = pr \<and> p = nx"
| "seg c pr p (a # xs) l nx \<longleftrightarrow>
     p = Some a \<and> (\<exists>n. c a = Some n \<and> prv n = pr \<and> seg c (Some a) (nxt n) xs l nx)"

lemma seg_append [simp]:
  "seg c pr p (xs @ ys) l nx \<longleftrightarrow> (\<exists>l' p'. seg c pr p xs l' p' \<and> seg c l' p' ys l nx)"
  by (induction xs arbitrary: pr p) auto

lemma seg_frame [simp]: "a \<notin> set xs \<Longrightarrow> seg (c(a := v)) pr p xs l nx \<longleftrightarrow> seg c pr p xs l nx"
  by (induction xs arbitrary: pr p) auto

lemma seg_live: "seg c pr p xs l nx \<Longrightarrow> a \<in> set xs \<Longrightarrow> \<exists>n. c a = Some n"
  by (induction xs arbitrary: pr p) auto

lemma seg_head: "seg c pr p xs l nx \<Longrightarrow> p = (if xs = [] then nx else Some (hd xs))"
  by (cases xs) auto

lemma seg_last: "seg c pr p xs l nx \<Longrightarrow> l = (if xs = [] then pr else Some (last xs))"
  by (induction xs arbitrary: pr p) auto

lemma seg_prev_upd:
  assumes "seg c pr p (a # xs) l nx" and "a \<notin> set xs" and "c a = Some n"
  shows "seg (c(a \<mapsto> n\<lparr>prv := pr'\<rparr>)) pr' p (a # xs) l nx"
  using assms by auto

lemma seg_next_upd:
  assumes "seg c pr p (xs @ [a]) l nx" and "a \<notin> set xs" and "c a = Some n"
  shows "seg (c(a \<mapsto> n\<lparr>nxt := nx'\<rparr>)) pr p (xs @ [a]) l nx'"
  using assms by auto

lemma seg_node:
  assumes "seg c None p (xs @ a # ys) l None"
  obtains n where "c a = Some n" "prv n = (if xs = [] then None else Some (last xs))"
    "nxt n = (if ys = [] then None else Some (hd ys))"
  using assms by (auto dest: seg_head seg_last)

text \<open>The data a segment carries does not depend on its links.\<close>

fun carries :: "(addr \<rightharpoonup> 'd node) \<Rightarrow> (addr \<times> 'd) list \<Rightarrow> bool" where
  "carries c [] = True"
| "carries c ((a, d) # ps) \<longleftrightarrow> (\<exists>n. c a = Some n \<and> data n = d) \<and> carries c ps"

lemma carries_append [simp]: "carries c (ps @ qs) \<longleftrightarrow> carries c ps \<and> carries c qs"
  by (induction c ps rule: carries.induct) auto

lemma carries_frame [simp]: "a \<notin> fst ` set ps \<Longrightarrow> carries (c(a := v)) ps \<longleftrightarrow> carries c ps"
  by (induction c ps rule: carries.induct) auto

lemma carries_link [simp]:
  "c a = Some n \<Longrightarrow> data n' = data n \<Longrightarrow> carries (c(a \<mapsto> n')) ps \<longleftrightarrow> carries c ps"
  by (induction c ps rule: carries.induct) auto

lemma carries_nth:
  "carries c ps \<Longrightarrow> (a, d) \<in> set ps \<Longrightarrow> \<exists>n. c a = Some n \<and> data n = d"
  by (induction c ps rule: carries.induct) auto

end
