(* ===== verification/Cmt.thy ===== *)
theory Cmt
  imports Base
begin

text \<open>
  The mapping-table entries of \<^verbatim>\<open>hash_hot_cmt/demand.h\<close>: page-table entries, hot entries, the
  cached-mapping-table page \<^verbatim>\<open>cmt_struct\<close>, and the inline functions on their heat counters.  The
  invariant is that the page heat never exceeds the sum of the grain counters, which stay in the
  six levels 0 to 5; between an initialisation and a tail eviction it equals that sum.
\<close>

section \<open>Data\<close>

record pte =
  pte_ppa :: ppa_t
  pte_fp :: u32

record h_pte =
  h_lpa :: lpa_t
  h_ppa :: ppa_t
  h_state :: nat
  h_fp :: u32
  key_ghost_mark :: bool
  key_ghost_state :: nat

text \<open>
  \<^verbatim>\<open>pt\<close> is null or points to a row of the in-memory mapping table (\<^verbatim>\<open>mem_table\<close>), so it is an
  optional row index; \<^verbatim>\<open>cnt_map\<close> is an array that may be absent; the ring \<^verbatim>\<open>retry_q\<close> holds handles of
  waiting requests, oldest first (\<^verbatim>\<open>wait_q\<close> is created with it and never used).
\<close>

record cmt =
  cmt_idx :: nat
  cmt_pt :: "nat option"
  t_ppa :: ppa_t
  cmt_dirty :: bool
  is_flying :: bool
  retry_q :: "addr list"
  lru_ptr :: "addr option"
  is_cached :: "bool list"
  cached_cnt :: nat
  dirty_cnt :: nat
  cnt_map :: "nat list option"
  page_heat_sum :: nat
  has_hot_entry :: bool
  ghost_mark :: bool

definition STATE_NUM :: nat where "STATE_NUM = 6"
definition MIN_STATE :: nat where "MIN_STATE = 0"
definition HOT_STATE_MAX :: nat where "HOT_STATE_MAX = STATE_NUM - 1"
definition DEFAULT_STATE :: nat where "DEFAULT_STATE = 2"
definition HOT_STATE_MIN :: nat where "HOT_STATE_MIN = 3"
definition HOT_EVICT_STATE_THRESH :: nat where "HOT_EVICT_STATE_THRESH = DEFAULT_STATE"
definition COLD_CNT_PROMOTE_THRESH :: nat where "COLD_CNT_PROMOTE_THRESH = 1"
definition COLD_LRU_PROMOTE_TOP_PCT :: nat where "COLD_LRU_PROMOTE_TOP_PCT = 50"
definition COLD_LRU_PROMOTE_INTERVAL :: nat where "COLD_LRU_PROMOTE_INTERVAL = 1000"
definition COLD_LRU_PROMOTE_TOP_K :: nat where "COLD_LRU_PROMOTE_TOP_K = 50"

lemma state_vals [settings]:
  "STATE_NUM = 6" "MIN_STATE = 0" "HOT_STATE_MAX = 5" "DEFAULT_STATE = 2" "HOT_STATE_MIN = 3"
  "HOT_EVICT_STATE_THRESH = 2" "COLD_CNT_PROMOTE_THRESH = 1" "COLD_LRU_PROMOTE_TOP_PCT = 50"
  "COLD_LRU_PROMOTE_INTERVAL = 1000" "COLD_LRU_PROMOTE_TOP_K = 50"
  by (simp_all add: STATE_NUM_def MIN_STATE_def HOT_STATE_MAX_def DEFAULT_STATE_def
      HOT_STATE_MIN_def HOT_EVICT_STATE_THRESH_def COLD_CNT_PROMOTE_THRESH_def
      COLD_LRU_PROMOTE_TOP_PCT_def COLD_LRU_PROMOTE_INTERVAL_def COLD_LRU_PROMOTE_TOP_K_def)

section \<open>Heat counters\<close>

definition grain_heat_raise :: "nat \<Rightarrow> nat" where
  "grain_heat_raise heat = (if heat < HOT_STATE_MAX then heat + 1 else heat)"

definition grain_heat_decay :: "nat \<Rightarrow> nat" where
  "grain_heat_decay heat = (if heat > MIN_STATE then heat - 1 else heat)"

definition cmt_counter_raise :: "nat \<Rightarrow> nat" where
  "cmt_counter_raise counter = grain_heat_raise counter"

definition cold_cnt_promotable :: "nat \<Rightarrow> bool" where
  "cold_cnt_promotable cnt \<longleftrightarrow> cnt \<ge> COLD_CNT_PROMOTE_THRESH"

text \<open>The slot predicates take a slot that exists; every caller passes the address of one.\<close>

definition hot_pte_is_warm :: "h_pte \<Rightarrow> bool" where
  "hot_pte_is_warm slot \<longleftrightarrow> h_lpa slot \<noteq> UINT32_MAX \<and> h_state slot \<ge> DEFAULT_STATE"

definition hot_pte_is_hot :: "h_pte \<Rightarrow> bool" where
  "hot_pte_is_hot slot \<longleftrightarrow> h_lpa slot \<noteq> UINT32_MAX \<and> h_state slot \<ge> HOT_STATE_MIN"

definition hot_pte_counts_hot_evict :: "h_pte \<Rightarrow> bool" where
  "hot_pte_counts_hot_evict slot \<longleftrightarrow> h_lpa slot \<noteq> UINT32_MAX \<and> h_state slot \<ge> HOT_EVICT_STATE_THRESH"

definition promote_displace_counts_hot_evict :: "h_pte \<Rightarrow> nat \<Rightarrow> bool" where
  "promote_displace_counts_hot_evict victim incoming_cnt = hot_pte_counts_hot_evict victim"

definition hot_pte_key_is_ghost :: "h_pte \<Rightarrow> bool" where
  "hot_pte_key_is_ghost slot = key_ghost_mark slot"

section \<open>Heat of a mapping page\<close>

definition cmt_cnt_map_active :: "cmt \<Rightarrow> bool" where
  "cmt_cnt_map_active cmt \<longleftrightarrow> cmt_pt cmt \<noteq> None \<and> cnt_map cmt \<noteq> None"

text \<open>A grain index is a C \<^verbatim>\<open>int\<close>; the result is the new level and the page.\<close>

definition cmt_grain_heat_raise :: "cmt \<Rightarrow> int \<Rightarrow> nat \<times> cmt" where
  "cmt_grain_heat_raise cmt grain_idx =
     (if \<not> cmt_cnt_map_active cmt \<or> grain_idx < 0 \<or> grain_idx \<ge> int EPP then (0, cmt)
      else let cs = the (cnt_map cmt); i = nat grain_idx;
               prev = cs ! i;
               next = cmt_counter_raise prev;
               cmt1 = cmt\<lparr>cnt_map := Some (cs[i := next])\<rparr>;
               cmt2 = (if next > prev
                       then cmt1\<lparr>page_heat_sum := page_heat_sum cmt1 + (next - prev)\<rparr> else cmt1)
           in (next, cmt2\<lparr>has_hot_entry := True\<rparr>))"

definition cmt_grain_heat_clear :: "cmt \<Rightarrow> int \<Rightarrow> cmt" where
  "cmt_grain_heat_clear cmt grain_idx =
     (if \<not> cmt_cnt_map_active cmt \<or> grain_idx < 0 \<or> grain_idx \<ge> int EPP then cmt
      else let cs = the (cnt_map cmt); i = nat grain_idx; prev = cs ! i
           in if prev = 0 then cmt
              else let cmt1 = cmt\<lparr>cnt_map := Some (cs[i := 0])\<rparr>
                   in if page_heat_sum cmt1 \<ge> prev
                      then cmt1\<lparr>page_heat_sum := page_heat_sum cmt1 - prev\<rparr>
                      else cmt1\<lparr>page_heat_sum := 0\<rparr>)"

definition cmt_update_hot_entry_flag :: "(nat \<Rightarrow> nat \<Rightarrow> pte) \<Rightarrow> cmt \<Rightarrow> cmt" where
  "cmt_update_hot_entry_flag mt cmt =
     (if \<not> cmt_cnt_map_active cmt then cmt
      else if list_ex (\<lambda>i. pte_ppa (mt (the (cmt_pt cmt)) i) \<noteq> UINT32_MAX \<and>
                          the (cnt_map cmt) ! i \<ge> DEFAULT_STATE) [0..<EPP]
           then cmt\<lparr>has_hot_entry := True\<rparr>
           else cmt\<lparr>has_hot_entry := False\<rparr>)"

definition cmt_page_heat_clear :: "cmt \<Rightarrow> cmt" where
  "cmt_page_heat_clear cmt =
     (let cmt1 = cmt\<lparr>page_heat_sum := 0\<rparr>
      in if cnt_map cmt1 \<noteq> None then cmt1\<lparr>cnt_map := Some (replicate EPP 0)\<rparr> else cmt1)"

definition cmt_cold_tail_evict_teardown :: "cmt \<Rightarrow> cmt" where
  "cmt_cold_tail_evict_teardown cmt = cmt\<lparr>page_heat_sum := 0\<rparr>"

definition cmt_cold_resident_meta_init :: "cmt \<Rightarrow> cmt" where
  "cmt_cold_resident_meta_init cmt = cmt\<lparr>page_heat_sum := 0, has_hot_entry := False\<rparr>"

definition cold_cnt_record_grain :: "cmt \<Rightarrow> int \<Rightarrow> cmt" where
  "cold_cnt_record_grain cmt grain_idx = snd (cmt_grain_heat_raise cmt grain_idx)"

definition cmt_is_ghost :: "cmt \<Rightarrow> bool" where
  "cmt_is_ghost cmt = ghost_mark cmt"

definition cmt_is_resident :: "cmt \<Rightarrow> bool" where
  "cmt_is_resident cmt \<longleftrightarrow> cmt_pt cmt \<noteq> None \<and> \<not> ghost_mark cmt"

section \<open>The heat invariant\<close>

definition heat_wf :: "cmt \<Rightarrow> bool" where
  "heat_wf c \<longleftrightarrow> (case cnt_map c of None \<Rightarrow> True
     | Some cs \<Rightarrow> length cs = EPP \<and> (\<forall>x \<in> set cs. x \<le> HOT_STATE_MAX) \<and> page_heat_sum c \<le> sum_list cs)"

definition heat_exact :: "cmt \<Rightarrow> bool" where
  "heat_exact c \<longleftrightarrow> (case cnt_map c of None \<Rightarrow> page_heat_sum c = 0
     | Some cs \<Rightarrow> page_heat_sum c = sum_list cs)"

lemma grain_heat_raise_le: "h \<le> HOT_STATE_MAX \<Longrightarrow> grain_heat_raise h \<le> HOT_STATE_MAX"
  by (simp add: grain_heat_raise_def)

lemma grain_heat_raise_ge: "h \<le> grain_heat_raise h"
  by (simp add: grain_heat_raise_def)

lemma grain_heat_raise_step: "grain_heat_raise h \<le> Suc h"
  by (simp add: grain_heat_raise_def)

lemma grain_heat_decay_le: "h \<le> HOT_STATE_MAX \<Longrightarrow> grain_heat_decay h \<le> HOT_STATE_MAX"
  by (auto simp: grain_heat_decay_def)

lemma grain_heat_decay_raise: "h < HOT_STATE_MAX \<Longrightarrow> grain_heat_decay (grain_heat_raise h) = h"
  by (simp add: grain_heat_decay_def grain_heat_raise_def settings)

lemma sum_list_bounded:
  fixes cs :: "nat list"
  shows "\<forall>x \<in> set cs. x \<le> b \<Longrightarrow> sum_list cs \<le> length cs * b"
  by (induction cs) auto

lemma heat_wf_bound:
  assumes "heat_wf c" and "cnt_map c \<noteq> None"
  shows "page_heat_sum c \<le> EPP * HOT_STATE_MAX"
proof -
  from assms obtain cs where cs: "length cs = EPP" "\<forall>x \<in> set cs. x \<le> HOT_STATE_MAX"
    "page_heat_sum c \<le> sum_list cs"
    by (auto simp: heat_wf_def)
  with sum_list_bounded [OF cs(2)] show ?thesis by simp
qed

lemma sum_list_update_nat:
  fixes cs :: "nat list"
  shows "i < length cs \<Longrightarrow> sum_list (cs[i := x]) + cs ! i = sum_list cs + x"
  using elem_le_sum_list [of i cs] by (simp add: sum_list_update)

lemma heat_wf_update:
  assumes "heat_wf c" and "cnt_map c = Some cs" and "i < EPP" and "x \<le> HOT_STATE_MAX"
    and "s + cs ! i \<le> page_heat_sum c + x \<or> s = 0"
  shows "heat_wf (c\<lparr>cnt_map := Some (cs[i := x]), page_heat_sum := s\<rparr>)"
  using assms sum_list_update_nat [of i cs x]
  by (auto simp: heat_wf_def dest: set_update_subset_insert [THEN subsetD])

lemma heat_wf_flag [simp]: "heat_wf (c\<lparr>has_hot_entry := b\<rparr>) = heat_wf c"
  by (cases "cnt_map c") (simp_all add: heat_wf_def)

lemma heat_exact_flag [simp]: "heat_exact (c\<lparr>has_hot_entry := b\<rparr>) = heat_exact c"
  by (cases "cnt_map c") (simp_all add: heat_exact_def)

lemma heat_wf_upd_same [simp]:
  "cnt_map c = Some cs \<Longrightarrow> cs ! i = x \<Longrightarrow> heat_wf (c\<lparr>cnt_map := Some (cs[i := x])\<rparr>) = heat_wf c"
  by (auto simp: heat_wf_def)

lemma heat_wf_nth:
  "heat_wf c \<Longrightarrow> cnt_map c = Some cs \<Longrightarrow> i < EPP \<Longrightarrow> cs ! i \<le> HOT_STATE_MAX"
  by (simp add: heat_wf_def)

lemma cmt_grain_heat_raise_wf:
  assumes wf: "heat_wf c"
  shows "heat_wf (snd (cmt_grain_heat_raise c g))"
proof (cases "\<not> cmt_cnt_map_active c \<or> g < 0 \<or> g \<ge> int EPP")
  case False
  then obtain cs where cs: "cnt_map c = Some cs" and g: "nat g < EPP"
    by (auto simp: cmt_cnt_map_active_def)
  have le: "cs ! nat g \<le> HOT_STATE_MAX"
    using wf cs g by (rule heat_wf_nth)
  have "heat_wf (c\<lparr>cnt_map := Some (cs[nat g := Suc (cs ! nat g)]),
      page_heat_sum := Suc (page_heat_sum c)\<rparr>)" if "cs ! nat g < HOT_STATE_MAX"
    using wf cs g that by (intro heat_wf_update) auto
  then show ?thesis
    using False wf cs le
    by (auto simp: cmt_grain_heat_raise_def cmt_counter_raise_def grain_heat_raise_def Let_def
        heat_wf_upd_same)
qed (simp add: cmt_grain_heat_raise_def wf)

lemma cmt_grain_heat_clear_wf:
  assumes wf: "heat_wf c"
  shows "heat_wf (cmt_grain_heat_clear c g)"
proof (cases "\<not> cmt_cnt_map_active c \<or> g < 0 \<or> g \<ge> int EPP")
  case False
  then obtain cs where cs: "cnt_map c = Some cs" and g: "nat g < EPP"
    by (auto simp: cmt_cnt_map_active_def)
  have "heat_wf (c\<lparr>cnt_map := Some (cs[nat g := 0]), page_heat_sum := s\<rparr>)"
    if "s = page_heat_sum c - cs ! nat g \<and> cs ! nat g \<le> page_heat_sum c \<or> s = 0" for s
    using wf cs g that by (intro heat_wf_update) auto
  then show ?thesis
    using False wf cs by (auto simp: cmt_grain_heat_clear_def Let_def)
qed (simp add: cmt_grain_heat_clear_def wf)

lemma cmt_grain_heat_raise_exact:
  assumes "heat_wf c" and "heat_exact c"
  shows "heat_exact (snd (cmt_grain_heat_raise c g))"
proof (cases "\<not> cmt_cnt_map_active c \<or> g < 0 \<or> g \<ge> int EPP")
  case False
  then obtain cs where cs: "cnt_map c = Some cs" and g: "nat g < EPP" "length cs = EPP"
    using assms by (auto simp: cmt_cnt_map_active_def heat_wf_def)
  then show ?thesis
    using False assms sum_list_update_nat [of "nat g" cs "Suc (cs ! nat g)"]
    by (auto simp: cmt_grain_heat_raise_def cmt_counter_raise_def grain_heat_raise_def Let_def
        heat_exact_def)
qed (simp add: cmt_grain_heat_raise_def assms)

lemma cmt_grain_heat_clear_exact:
  assumes "heat_wf c" and "heat_exact c"
  shows "heat_exact (cmt_grain_heat_clear c g)"
proof (cases "\<not> cmt_cnt_map_active c \<or> g < 0 \<or> g \<ge> int EPP")
  case False
  then obtain cs where cs: "cnt_map c = Some cs" and g: "nat g < EPP" "length cs = EPP"
    using assms by (auto simp: cmt_cnt_map_active_def heat_wf_def)
  have "cs ! nat g \<le> sum_list cs"
    using g by (simp add: elem_le_sum_list)
  then show ?thesis
    using False assms g cs sum_list_update_nat [of "nat g" cs 0]
    by (auto simp: cmt_grain_heat_clear_def Let_def heat_exact_def)
qed (simp add: cmt_grain_heat_clear_def assms)

lemma cmt_update_hot_entry_flag_exact:
  assumes "cmt_cnt_map_active c"
  shows "has_hot_entry (cmt_update_hot_entry_flag mt c) \<longleftrightarrow>
    (\<exists>i < EPP. pte_ppa (mt (the (cmt_pt c)) i) \<noteq> UINT32_MAX \<and> the (cnt_map c) ! i \<ge> DEFAULT_STATE)"
  using assms by (auto simp: cmt_update_hot_entry_flag_def list_ex_iff)

end
