(* ===== verification/Lru.thy ===== *)
theory Lru
  imports Interfaces Store Cmt "HOL-Library.Multiset"
begin

text \<open>
  The LRU list of \<^verbatim>\<open>tools/lru_list.c\<close> at the level of its pointers: the list record, the node
  operations, the abstraction to a list of (node, data) pairs, most recent first, and the
  refinement of every operation to that list.  Under the representation invariant no operation
  touches a null or freed node.
\<close>

section \<open>State and operations\<close>

record 'd lru =
  lru_size :: int
  lru_head :: "addr option"
  lru_tail :: "addr option"
  lru_mem :: "'d option node mem"

text \<open>A node's \<^verbatim>\<open>DATA\<close> is a pointer, so it may be null.\<close>

definition lru_init :: "'d lru" where
  "lru_init = \<lparr>lru_size = 0, lru_head = None, lru_tail = None, lru_mem = empty_mem\<rparr>"

definition lru_push :: "'d lru \<Rightarrow> 'd option \<Rightarrow> (addr \<times> 'd lru) option" where
  "lru_push l table_ptr =
     (let (now, m) = malloc \<lparr>data = table_ptr, nxt = None, prv = None\<rparr> (lru_mem l)
      in do {
        l' \<leftarrow> (if lru_size l = 0 then
                 Some (l\<lparr>lru_head := Some now, lru_tail := Some now, lru_mem := m\<rparr>)
               else do {
                 m1 \<leftarrow> modify (lru_head l) (\<lambda>n. n\<lparr>prv := Some now\<rparr>) m;
                 m2 \<leftarrow> modify (Some now) (\<lambda>n. n\<lparr>nxt := lru_head l\<rparr>) m1;
                 Some (l\<lparr>lru_head := Some now, lru_mem := m2\<rparr>)
               });
        Some (now, l'\<lparr>lru_size := lru_size l' + 1\<rparr>)
      })"

text \<open>\<^verbatim>\<open>lru_pop\<close> returns \<^verbatim>\<open>NULL\<close> on the empty list; the first component is the returned pointer.\<close>

definition lru_pop :: "'d lru \<Rightarrow> ('d option \<times> 'd lru) option" where
  "lru_pop l =
     (if lru_head l = None \<or> lru_size l = 0 then Some (None, l)
      else do {
        let now = lru_tail l;
        n \<leftarrow> load now (lru_mem l);
        let re = data n;
        let l1 = l\<lparr>lru_tail := prv n\<rparr>;
        l2 \<leftarrow> (if lru_tail l1 \<noteq> None then do {
                 m \<leftarrow> modify (lru_tail l1) (\<lambda>n. n\<lparr>nxt := None\<rparr>) (lru_mem l1);
                 Some (l1\<lparr>lru_mem := m\<rparr>)
               } else Some (l1\<lparr>lru_head := None\<rparr>));
        let l3 = l2\<lparr>lru_size := lru_size l2 - 1\<rparr>;
        m \<leftarrow> free_cell now (lru_mem l3);
        Some (re, l3\<lparr>lru_mem := m\<rparr>)
      })"

text \<open>Unlinking a middle node: \<^verbatim>\<open>now->prev->next = now->next; now->next->prev = now->prev\<close>.\<close>

definition unlink_middle :: "addr option \<Rightarrow> 'd node mem \<Rightarrow> 'd node mem option" where
  "unlink_middle now m = do {
     n \<leftarrow> load now m;
     m1 \<leftarrow> modify (prv n) (\<lambda>k. k\<lparr>nxt := nxt n\<rparr>) m;
     n1 \<leftarrow> load now m1;
     modify (nxt n1) (\<lambda>k. k\<lparr>prv := prv n1\<rparr>) m1
   }"

definition lru_update :: "'d lru \<Rightarrow> addr option \<Rightarrow> 'd lru option" where
  "lru_update l now =
     (if now = None then Some l
      else if now = lru_head l then Some l
      else do {
        l1 \<leftarrow> (if now = lru_tail l then do {
                 n \<leftarrow> load now (lru_mem l);
                 m \<leftarrow> modify (prv n) (\<lambda>k. k\<lparr>nxt := None\<rparr>) (lru_mem l);
                 Some (l\<lparr>lru_tail := prv n, lru_mem := m\<rparr>)
               } else do {
                 m \<leftarrow> unlink_middle now (lru_mem l);
                 Some (l\<lparr>lru_mem := m\<rparr>)
               });
        m1 \<leftarrow> modify now (\<lambda>k. k\<lparr>prv := None\<rparr>) (lru_mem l1);
        m2 \<leftarrow> modify (lru_head l1) (\<lambda>k. k\<lparr>prv := now\<rparr>) m1;
        m3 \<leftarrow> modify now (\<lambda>k. k\<lparr>nxt := lru_head l1\<rparr>) m2;
        Some (l1\<lparr>lru_head := now, lru_mem := m3\<rparr>)
      })"

definition lru_delete :: "'d lru \<Rightarrow> addr option \<Rightarrow> 'd lru option" where
  "lru_delete l now =
     (if now = None then Some l
      else do {
        l1 \<leftarrow> (if now = lru_head l then do {
                 n \<leftarrow> load now (lru_mem l);
                 let l0 = l\<lparr>lru_head := nxt n\<rparr>;
                 if lru_head l0 \<noteq> None then do {
                   m \<leftarrow> modify (lru_head l0) (\<lambda>k. k\<lparr>prv := None\<rparr>) (lru_mem l0);
                   Some (l0\<lparr>lru_mem := m\<rparr>)
                 } else Some (l0\<lparr>lru_tail := None\<rparr>)
               } else if now = lru_tail l then do {
                 n \<leftarrow> load now (lru_mem l);
                 m \<leftarrow> modify (prv n) (\<lambda>k. k\<lparr>nxt := None\<rparr>) (lru_mem l);
                 Some (l\<lparr>lru_tail := prv n, lru_mem := m\<rparr>)
               } else do {
                 m \<leftarrow> unlink_middle now (lru_mem l);
                 Some (l\<lparr>lru_mem := m\<rparr>)
               });
        m \<leftarrow> free_cell now (lru_mem l1);
        Some (l1\<lparr>lru_size := lru_size l1 - 1, lru_mem := m\<rparr>)
      })"

definition lru_get_target_node :: "'d lru option \<Rightarrow> addr option \<Rightarrow> 'd option node mem \<Rightarrow> addr option option" where
  "lru_get_target_node l now m =
     (case l of Some lru \<Rightarrow> Some (lru_head lru)
      | None \<Rightarrow> if now \<noteq> None then map_option nxt (load now m) else Some None)"

section \<open>Abstraction\<close>

definition lru_rep :: "'d lru \<Rightarrow> (addr \<times> 'd option) list \<Rightarrow> bool" where
  "lru_rep l ps \<longleftrightarrow>
     seg (cells (lru_mem l)) None (lru_head l) (map fst ps) (lru_tail l) None \<and>
     distinct (map fst ps) \<and> lru_size l = int (length ps) \<and>
     carries (cells (lru_mem l)) ps \<and> mem_wf (lru_mem l)"

lemma lru_rep_init: "lru_rep lru_init []"
  by (simp add: lru_rep_def lru_init_def empty_mem_def mem_wf_def)

lemma lru_rep_head:
  assumes "lru_rep l ps"
  shows "lru_head l = (if ps = [] then None else Some (fst (hd ps)))"
proof -
  from assms have "seg (cells (lru_mem l)) None (lru_head l) (map fst ps) (lru_tail l) None"
    by (simp add: lru_rep_def)
  from seg_head [OF this] show ?thesis by (simp add: hd_map)
qed

lemma lru_rep_tail:
  assumes "lru_rep l ps"
  shows "lru_tail l = (if ps = [] then None else Some (fst (last ps)))"
proof -
  from assms have "seg (cells (lru_mem l)) None (lru_head l) (map fst ps) (lru_tail l) None"
    by (simp add: lru_rep_def)
  from seg_last [OF this] show ?thesis by (simp add: last_map)
qed

lemma lru_rep_distinct: "lru_rep l ps \<Longrightarrow> distinct (map fst ps)"
  by (simp add: lru_rep_def)

lemma lru_rep_fresh: "lru_rep l ps \<Longrightarrow> brk (lru_mem l) \<notin> fst ` set ps"
  using seg_live mem_wf_fresh by (fastforce simp: lru_rep_def)

lemma lru_push_refines:
  assumes rep: "lru_rep l ps"
  shows "returns (lru_push l d)
    (\<lambda>(now, l'). now = brk (lru_mem l) \<and> lru_rep l' ((now, d) # ps))"
proof (cases ps)
  case Nil
  with rep show ?thesis
    by (auto simp: lru_push_def malloc_def lru_rep_def mem_wf_alloc Let_def)
next
  case (Cons p qs)
  obtain h e where p: "p = (h, e)" by (cases p)
  have new: "brk (lru_mem l) \<notin> fst ` set ps"
    using rep by (rule lru_rep_fresh)
  show ?thesis
    using rep new unfolding Cons p
    by (auto simp: lru_push_def malloc_def lru_rep_def Let_def mem_wf_def less_Suc_eq)
qed

lemma lru_pop_refines:
  assumes rep: "lru_rep l (ps @ [(a, d)])"
  shows "returns (lru_pop l) (\<lambda>(r, l'). r = d \<and> lru_rep l' ps)"
proof (cases ps rule: rev_cases)
  case Nil
  with rep show ?thesis
    by (auto simp: lru_pop_def lru_rep_def Let_def mem_wf_def)
next
  case (snoc qs q)
  obtain b e where q: "q = (b, e)" by (cases q)
  have "lru_head l \<noteq> None"
    using lru_rep_head [OF rep] by simp
  then show ?thesis
    using rep unfolding snoc q
    by (auto simp: lru_pop_def lru_rep_def Let_def mem_wf_def)
qed

lemma lru_pop_empty: "lru_rep l [] \<Longrightarrow> lru_pop l = Some (None, l)"
  by (simp add: lru_rep_def lru_pop_def)

text \<open>
  What relinking keeps: the data of every node and the set of live cells (so the next fresh
  address stays fresh).
\<close>

definition same_data :: "'d node mem \<Rightarrow> 'd node mem \<Rightarrow> bool" where
  "same_data m m' \<longleftrightarrow> brk m' = brk m \<and>
     (\<forall>a. map_option data (cells m' a) = map_option data (cells m a))"

lemma same_data_refl [simp]: "same_data m m"
  by (simp add: same_data_def)

lemma same_data_trans: "same_data m m' \<Longrightarrow> same_data m' m'' \<Longrightarrow> same_data m m''"
  by (simp add: same_data_def)

lemma same_data_live: "same_data m m' \<Longrightarrow> cells m a = Some n \<Longrightarrow> \<exists>n'. cells m' a = Some n' \<and> data n' = data n"
  unfolding same_data_def by (metis map_option_eq_Some option.simps(9))

lemma same_data_carries: "same_data m m' \<Longrightarrow> carries (cells m) ps \<Longrightarrow> carries (cells m') ps"
  by (induction "cells m" ps rule: carries.induct) (auto dest: same_data_live)

lemma same_data_wf: "same_data m m' \<Longrightarrow> mem_wf m \<Longrightarrow> mem_wf m'"
  unfolding same_data_def mem_wf_def by (metis map_option_is_None)

lemma unlink_middle_returns:
  assumes "seg (cells m) None h (us @ b # a # c # vs) t None"
    and "distinct (us @ b # a # c # vs)"
  shows "returns (unlink_middle (Some a) m)
    (\<lambda>m'. seg (cells m') None h (us @ b # c # vs) t None \<and> same_data m m')"
proof -
  from assms obtain nb na nc where n: "cells m b = Some nb" "cells m a = Some na" "cells m c = Some nc"
    "prv na = Some b" "nxt na = Some c" "nxt nb = Some a" "prv nc = Some a"
    "seg (cells m) None h us (prv nb) (Some b)" "seg (cells m) (Some c) (nxt nc) vs t None"
    by auto
  with assms(2) show ?thesis
    by (auto simp: unlink_middle_def same_data_def)
qed

lemma seg_unlink_last:
  assumes "seg c None h (us @ [b, a]) t None" and "distinct (us @ [b, a])"
  obtains nb na where "c b = Some nb" "c a = Some na" "prv na = Some b" "t = Some a"
    "seg (c(b \<mapsto> nb\<lparr>nxt := None\<rparr>)) None h (us @ [b]) (Some b) None"
  using assms by auto

text \<open>Moving a node that is not in the segment to its front.\<close>

definition move_front :: "addr option \<Rightarrow> addr option \<Rightarrow> 'd node mem \<Rightarrow> 'd node mem option" where
  "move_front now h m = do {
     m1 \<leftarrow> modify now (\<lambda>k. k\<lparr>prv := None\<rparr>) m;
     m2 \<leftarrow> modify h (\<lambda>k. k\<lparr>prv := now\<rparr>) m1;
     modify now (\<lambda>k. k\<lparr>nxt := h\<rparr>) m2
   }"

lemma move_front_returns:
  assumes "seg (cells m) None h xs t None" and "xs \<noteq> []" and "distinct xs" and "a \<notin> set xs"
    and "cells m a = Some n"
  shows "returns (move_front (Some a) h m)
    (\<lambda>m'. seg (cells m') None (Some a) (a # xs) t None \<and> same_data m m')"
proof -
  obtain x ys where xs: "xs = x # ys"
    using assms(2) by (cases xs) auto
  from assms obtain nx where x: "h = Some x" "cells m x = Some nx" "prv nx = None"
    "seg (cells m) (Some x) (nxt nx) ys t None"
    unfolding xs by auto
  with assms(3-5) show ?thesis
    unfolding xs by (auto simp: move_front_def same_data_def)
qed

lemma lru_update_move_front:
  "lru_update l now =
     (if now = None \<or> now = lru_head l then Some l
      else do {
        l1 \<leftarrow> (if now = lru_tail l then do {
                 n \<leftarrow> load now (lru_mem l);
                 m \<leftarrow> modify (prv n) (\<lambda>k. k\<lparr>nxt := None\<rparr>) (lru_mem l);
                 Some (l\<lparr>lru_tail := prv n, lru_mem := m\<rparr>)
               } else do {
                 m \<leftarrow> unlink_middle now (lru_mem l);
                 Some (l\<lparr>lru_mem := m\<rparr>)
               });
        m \<leftarrow> move_front now (lru_head l1) (lru_mem l1);
        Some (l1\<lparr>lru_head := now, lru_mem := m\<rparr>)
      })"
  by (simp add: lru_update_def move_front_def)

lemma lru_update_refines:
  assumes rep: "lru_rep l (us @ (a, d) # vs)"
  shows "returns (lru_update l (Some a)) (\<lambda>l'. lru_rep l' ((a, d) # us @ vs))"
proof (cases us rule: rev_cases)
  case Nil
  with rep show ?thesis
    by (auto simp: lru_update_def lru_rep_def)
next
  case us: (snoc us' u)
  obtain b e where u: "u = (b, e)" by (cases u)
  note parts = rep [unfolded lru_rep_def]
  have not_head: "Some a \<noteq> lru_head l"
    using lru_rep_head [OF rep] lru_rep_distinct [OF rep] unfolding us by (cases us') auto
  have live: "\<exists>n. cells (lru_mem l) a = Some n"
    using parts by auto
  have result: "returns (move_front (Some a) (lru_head l) m)
      (\<lambda>m'. lru_rep (l\<lparr>lru_tail := t, lru_head := Some a, lru_mem := m'\<rparr>) ((a, d) # us @ vs))"
    if that_seg: "seg (cells m) None (lru_head l) (map fst (us @ vs)) t None"
      and that_same: "same_data (lru_mem l) m" for m t
  proof -
    obtain n where "cells m a = Some n"
      using live same_data_live [OF that_same] by blast
    then have "returns (move_front (Some a) (lru_head l) m)
      (\<lambda>m'. seg (cells m') None (Some a) (a # map fst (us @ vs)) t None \<and> same_data m m')"
      using parts that_seg by (intro move_front_returns) (auto simp: us)
    then show ?thesis
    proof (rule returns_mono, elim conjE)
      fix m'
      assume seg: "seg (cells m') None (Some a) (a # map fst (us @ vs)) t None" and "same_data m m'"
      then have "same_data (lru_mem l) m'"
        using that_same same_data_trans by blast
      then show "lru_rep (l\<lparr>lru_tail := t, lru_head := Some a, lru_mem := m'\<rparr>) ((a, d) # us @ vs)"
        using parts seg same_data_carries [of "lru_mem l" m' "us @ (a, d) # vs"] same_data_wf
        by (auto simp: lru_rep_def)
    qed
  qed
  show ?thesis
  proof (cases vs)
    case Nil
    from parts obtain nb na where n: "cells (lru_mem l) b = Some nb" "cells (lru_mem l) a = Some na"
      "prv na = Some b" "lru_tail l = Some a"
      "seg ((cells (lru_mem l))(b \<mapsto> nb\<lparr>nxt := None\<rparr>)) None (lru_head l) (map fst us' @ [b]) (Some b) None"
      unfolding us u Nil by (auto elim: seg_unlink_last)
    let ?m = "lru_mem l\<lparr>cells := (cells (lru_mem l))(b \<mapsto> nb\<lparr>nxt := None\<rparr>)\<rparr>"
    have "same_data (lru_mem l) ?m"
      using n(1) by (auto simp: same_data_def)
    with n(5) have "returns (move_front (Some a) (lru_head l) ?m)
      (\<lambda>m'. lru_rep (l\<lparr>lru_tail := Some b, lru_head := Some a, lru_mem := m'\<rparr>) ((a, d) # us @ vs))"
      by (intro result) (auto simp: us u Nil)
    then show ?thesis
      using not_head n(1-4) by (simp add: lru_update_move_front)
  next
    case (Cons v vs')
    obtain c f where v: "v = (c, f)" by (cases v)
    have tail: "lru_tail l \<noteq> Some a"
      using lru_rep_tail [OF rep] lru_rep_distinct [OF rep] last_in_set [of vs]
      unfolding Cons by (auto simp: image_iff)
    have "returns (unlink_middle (Some a) (lru_mem l))
      (\<lambda>m'. seg (cells m') None (lru_head l) (map fst us' @ b # c # map fst vs') (lru_tail l) None
         \<and> same_data (lru_mem l) m')"
      using parts unfolding us u Cons v by (intro unlink_middle_returns) auto
    then have "returns (unlink_middle (Some a) (lru_mem l))
      (\<lambda>m. returns (move_front (Some a) (lru_head l) m)
        (\<lambda>m'. lru_rep (l\<lparr>lru_tail := lru_tail l, lru_head := Some a, lru_mem := m'\<rparr>) ((a, d) # us @ vs)))"
      by (rule returns_mono) (intro result, auto simp: us u Cons v)
    then show ?thesis
      using not_head tail by (simp add: lru_update_move_front eq_commute [of "Some a"])
  qed
qed

lemma lru_rep_free:
  assumes "seg (cells m) None (lru_head l) (map fst ps) (lru_tail l) None"
    and "distinct (map fst ps)" and "lru_size l = int (length ps) + 1" and "carries (cells m) ps"
    and "mem_wf m" and "cells m a = Some n" and "a \<notin> fst ` set ps"
  shows "returns (free_cell (Some a) m)
    (\<lambda>m'. lru_rep (l\<lparr>lru_size := lru_size l - 1, lru_mem := m'\<rparr>) ps)"
  using assms by (simp add: lru_rep_def mem_wf_upd_live)

lemma lru_delete_refines:
  assumes rep: "lru_rep l (us @ (a, d) # vs)"
  shows "returns (lru_delete l (Some a)) (\<lambda>l'. lru_rep l' (us @ vs))"
proof (cases us rule: rev_cases)
  case Nil
  show ?thesis
  proof (cases vs)
    case Nil': Nil
    with rep Nil show ?thesis
      by (auto simp: lru_delete_def lru_rep_def Let_def mem_wf_upd_live)
  next
    case (Cons v vs')
    obtain c f where v: "v = (c, f)" by (cases v)
    with rep Nil Cons show ?thesis
      by (auto simp: lru_delete_def lru_rep_def Let_def mem_wf_def)
  qed
next
  case us: (snoc us' u)
  obtain b e where u: "u = (b, e)" by (cases u)
  note parts = rep [unfolded lru_rep_def]
  have not_head: "Some a \<noteq> lru_head l"
    using lru_rep_head [OF rep] lru_rep_distinct [OF rep] unfolding us by (cases us') auto
  show ?thesis
  proof (cases vs)
    case Nil
    from parts obtain nb na where n: "cells (lru_mem l) b = Some nb" "cells (lru_mem l) a = Some na"
      "prv na = Some b" "lru_tail l = Some a"
      "seg ((cells (lru_mem l))(b \<mapsto> nb\<lparr>nxt := None\<rparr>)) None (lru_head l) (map fst us' @ [b]) (Some b) None"
      unfolding us u Nil by (auto elim: seg_unlink_last)
    then show ?thesis
      using not_head parts unfolding us u Nil
      by (auto simp: lru_delete_def lru_rep_def mem_wf_def)
  next
    case (Cons v vs')
    obtain c f where v: "v = (c, f)" by (cases v)
    have tail: "lru_tail l \<noteq> Some a"
      using lru_rep_tail [OF rep] lru_rep_distinct [OF rep] last_in_set [of vs]
      unfolding Cons by (auto simp: image_iff)
    have "returns (unlink_middle (Some a) (lru_mem l))
      (\<lambda>m'. seg (cells m') None (lru_head l) (map fst us' @ b # c # map fst vs') (lru_tail l) None
         \<and> same_data (lru_mem l) m')"
      using parts unfolding us u Cons v by (intro unlink_middle_returns) auto
    then have "returns (unlink_middle (Some a) (lru_mem l))
      (\<lambda>m. returns (free_cell (Some a) m)
        (\<lambda>m'. lru_rep (l\<lparr>lru_size := lru_size l - 1, lru_mem := m'\<rparr>) (us @ vs)))"
    proof (rule returns_mono, elim conjE)
      fix m
      assume seg: "seg (cells m) None (lru_head l) (map fst us' @ b # c # map fst vs') (lru_tail l) None"
        and same: "same_data (lru_mem l) m"
      from parts obtain n0 where "cells (lru_mem l) a = Some n0"
        by auto
      then obtain n where n: "cells m a = Some n"
        using same_data_live [OF same] by blast
      have kept: "carries (cells m) (us @ vs)"
        using parts by (intro same_data_carries [OF same]) simp
      show "returns (free_cell (Some a) m)
        (\<lambda>m'. lru_rep (l\<lparr>lru_size := lru_size l - 1, lru_mem := m'\<rparr>) (us @ vs))"
        using parts seg same_data_wf [OF same] kept n
        by (intro lru_rep_free) (auto simp: us u Cons v)
    qed
    then show ?thesis
      using not_head tail by (simp add: lru_delete_def eq_commute [of "Some a"])
  qed
qed

interpretation recent: recency lru_rep lru_push lru_pop "\<lambda>l a. lru_update l (Some a)"
    "\<lambda>l a. lru_delete l (Some a)"
proof
  show "returns (lru_push l d) (\<lambda>(a, l'). a \<notin> fst ` set ps \<and> lru_rep l' ((a, d) # ps))"
    if "lru_rep l ps" for l :: "'b lru" and ps d
    by (rule returns_mono [OF lru_push_refines [OF that]]) (use lru_rep_fresh [OF that] in auto)
qed (simp_all add: lru_pop_refines lru_update_refines lru_delete_refines)

section \<open>Releasing the list\<close>

partial_function (option) lru_free_loop :: "'d lru \<Rightarrow> 'd lru option" where
  "lru_free_loop l = do {
     (re, l') \<leftarrow> lru_pop l;
     if re \<noteq> None then lru_free_loop l' else Some l'
   }"

declare lru_free_loop.simps [code]

lemma lru_free_loop_empties:
  "lru_rep l ps \<Longrightarrow> \<forall>(a, d) \<in> set ps. d \<noteq> None \<Longrightarrow> returns (lru_free_loop l) (\<lambda>l'. lru_rep l' [])"
proof (induction ps arbitrary: l rule: rev_induct)
  case Nil
  then show ?case by (simp add: lru_free_loop.simps lru_pop_empty)
next
  case (snoc p ps)
  obtain a d where p: "p = (a, d)" by (cases p)
  from snoc.prems(1) have "lru_rep l (ps @ [(a, d)])" by (simp add: p)
  from lru_pop_refines [OF this] obtain l' where "lru_pop l = Some (d, l')" "lru_rep l' ps"
    by (auto elim!: returnsE)
  with snoc.IH [of l'] snoc.prems(2) show ?case
    by (auto simp: p lru_free_loop.simps [of l])
qed

section \<open>Choosing pages to promote\<close>

text \<open>
  The scans look at the most recent \<^verbatim>\<open>COLD_LRU_PROMOTE_TOP_PCT\<close> percent of the list.  A node's
  data is the handle of a mapping page; \<open>cm\<close> reads the page behind a handle.  The result's
  candidates array is the list of the entries filled so far, its count their number.
\<close>

definition LRU_PROMOTE_MAX_K :: int where
  "LRU_PROMOTE_MAX_K = 100"

definition lru_top_pct_window :: "int \<Rightarrow> int \<Rightarrow> int" where
  "lru_top_pct_window tot pct =
     (let window = (tot * pct + 99) div 100 in if window > 0 then window else 1)"

definition lru_top_k_min_heat :: "nat list \<Rightarrow> int \<Rightarrow> int \<Rightarrow> int" where
  "lru_top_k_min_heat heats k cnt =
     (if cnt = 0 then - 1
      else fold (\<lambda>i min_idx. if heats ! nat i < heats ! nat min_idx then i else min_idx)
             [1..min cnt k - 1] 0)"

text \<open>
  The scan loops.  \<open>n\<close> is \<^verbatim>\<open>top_window - traverse_cnt\<close>, the number of nodes still to visit.
\<close>

fun hot_pages_loop :: "('d \<Rightarrow> cmt) \<Rightarrow> 'd option node mem \<Rightarrow> int \<Rightarrow> nat \<Rightarrow> addr option \<Rightarrow> 'd list \<Rightarrow>
    'd list option" where
  "hot_pages_loop cm m target_k 0 current out = Some out"
| "hot_pages_loop cm m target_k (Suc n') current out =
        (if current = None then Some out
         else if int (length out) \<ge> target_k then Some out
         else do {
           nd \<leftarrow> load current m;
           let out' = (case data nd of None \<Rightarrow> out
                       | Some d \<Rightarrow> if has_hot_entry (cm d) \<and> \<not> cmt_is_ghost (cm d)
                                   then out @ [d] else out);
           hot_pages_loop cm m target_k n' (nxt nd) out'
         })"

definition lru_pick_promote_hot_pages :: "('d \<Rightarrow> cmt) \<Rightarrow> 'd lru \<Rightarrow> int \<Rightarrow> 'd list option" where
  "lru_pick_promote_hot_pages cm l target_k =
     (if lru_size l = 0 then Some []
      else if target_k \<le> 0 \<or> target_k > LRU_PROMOTE_MAX_K then Some []
      else hot_pages_loop cm (lru_mem l) target_k
             (nat (lru_top_pct_window (lru_size l) (int COLD_LRU_PROMOTE_TOP_PCT))) (lru_head l) [])"

definition page_heat :: "cmt \<Rightarrow> nat" where
  "page_heat c = (if cnt_map c \<noteq> None then page_heat_sum c else 0)"

text \<open>One candidate offered to the \<^verbatim>\<open>heats\<close> and \<^verbatim>\<open>candidates\<close> arrays, kept in step.\<close>

definition top_k_offer :: "int \<Rightarrow> nat \<times> 'd \<Rightarrow> (nat \<times> 'd) list \<Rightarrow> (nat \<times> 'd) list" where
  "top_k_offer k c out =
     (if fst c > 0 then
        (if int (length out) < k then out @ [c]
         else let min_idx = lru_top_k_min_heat (map fst out) k (int (length out))
              in if min_idx \<ge> 0 \<and> fst c > map fst out ! nat min_idx
                 then out[nat min_idx := c] else out)
      else out)"

fun top_k_loop :: "('d \<Rightarrow> cmt) \<Rightarrow> 'd option node mem \<Rightarrow> int \<Rightarrow> nat \<Rightarrow> addr option \<Rightarrow>
    (nat \<times> 'd) list \<Rightarrow> (nat \<times> 'd) list option" where
  "top_k_loop cm m k 0 current out = Some out"
| "top_k_loop cm m k (Suc n') current out =
        (if current = None then Some out
         else do {
           nd \<leftarrow> load current m;
           let out' = (case data nd of None \<Rightarrow> out
                       | Some d \<Rightarrow> top_k_offer k (page_heat (cm d), d) out);
           top_k_loop cm m k n' (nxt nd) out'
         })"

definition lru_pick_promote_top_k :: "('d \<Rightarrow> cmt) \<Rightarrow> 'd lru \<Rightarrow> int \<Rightarrow> (nat \<times> 'd) list option" where
  "lru_pick_promote_top_k cm l k0 =
     (if lru_size l = 0 then Some []
      else let k = (if k0 > LRU_PROMOTE_MAX_K then LRU_PROMOTE_MAX_K else k0)
           in if k \<le> 0 then Some []
              else top_k_loop cm (lru_mem l) k
                (nat (lru_top_pct_window (lru_size l) (int COLD_LRU_PROMOTE_TOP_PCT))) (lru_head l) [])"

definition lru_pick_promote_top_heat :: "('d \<Rightarrow> cmt) \<Rightarrow> 'd lru \<Rightarrow> 'd option option" where
  "lru_pick_promote_top_heat cm l = do {
     res \<leftarrow> lru_pick_promote_top_k cm l 1;
     Some (if length res > 0 then Some (snd (res ! 0)) else None)
   }"

fun pop_hot_loop :: "('d \<Rightarrow> cmt) \<Rightarrow> 'd option node mem \<Rightarrow> nat \<Rightarrow> addr option \<Rightarrow> nat \<times> addr option \<Rightarrow>
    addr option option" where
  "pop_hot_loop cm m 0 current best = Some (snd best)"
| "pop_hot_loop cm m (Suc n') current best =
        (if current = None then Some (snd best)
         else do {
           nd \<leftarrow> load current m;
           let best' = (case data nd of None \<Rightarrow> best
                        | Some d \<Rightarrow> if page_heat (cm d) > fst best
                                    then (page_heat (cm d), current) else best);
           pop_hot_loop cm m n' (nxt nd) best'
         })"

definition lru_pop_hot :: "('d \<Rightarrow> cmt) \<Rightarrow> 'd lru \<Rightarrow> ('d option \<times> 'd lru) option" where
  "lru_pop_hot cm l =
     (if lru_size l = 0 then Some (None, l)
      else do {
        target \<leftarrow> pop_hot_loop cm (lru_mem l)
          (nat (lru_top_pct_window (lru_size l) (int COLD_LRU_PROMOTE_TOP_PCT))) (lru_head l) (0, None);
        if target = None then Some (None, l)
        else do {
          tn \<leftarrow> load target (lru_mem l);
          l1 \<leftarrow> (if target = lru_head l then do {
                   let l0 = l\<lparr>lru_head := nxt tn\<rparr>;
                   if lru_head l0 \<noteq> None then do {
                     m \<leftarrow> modify (lru_head l0) (\<lambda>k. k\<lparr>prv := None\<rparr>) (lru_mem l0);
                     Some (l0\<lparr>lru_mem := m\<rparr>)
                   } else Some (l0\<lparr>lru_tail := None\<rparr>)
                 } else if target = lru_tail l then do {
                   let l0 = l\<lparr>lru_tail := prv tn\<rparr>;
                   if lru_tail l0 \<noteq> None then do {
                     m \<leftarrow> modify (lru_tail l0) (\<lambda>k. k\<lparr>nxt := None\<rparr>) (lru_mem l0);
                     Some (l0\<lparr>lru_mem := m\<rparr>)
                   } else Some l0
                 } else do {
                   m \<leftarrow> unlink_middle target (lru_mem l);
                   Some (l\<lparr>lru_mem := m\<rparr>)
                 });
          m \<leftarrow> free_cell target (lru_mem l1);
          Some (data tn, l1\<lparr>lru_size := lru_size l1 - 1, lru_mem := m\<rparr>)
        }
      })"

text \<open>What a scan sees: the data of the first \<open>n\<close> nodes.\<close>

definition window_data :: "nat \<Rightarrow> (addr \<times> 'd option) list \<Rightarrow> 'd list" where
  "window_data n ps = List.map_filter snd (take n ps)"

lemma window_data_simps [simp]:
  "window_data 0 ps = []" "window_data n [] = []"
  "window_data (Suc n) ((a, None) # ps) = window_data n ps"
  "window_data (Suc n) ((a, Some d) # ps) = d # window_data n ps"
  by (simp_all add: window_data_def List.map_filter_def)

definition lru_window :: "'d lru \<Rightarrow> nat" where
  "lru_window l = nat (lru_top_pct_window (lru_size l) (int COLD_LRU_PROMOTE_TOP_PCT))"

lemma lru_window_half:
  assumes "lru_rep l ps" and "ps \<noteq> []"
  shows "lru_window l = (length ps + 1) div 2"
proof -
  have "(int n * 50 + 99) div 100 = int ((n + 1) div 2)" for n
  proof (cases "even n")
    case True
    then obtain k where "n = 2 * k" by blast
    then show ?thesis by simp
  next
    case False
    then obtain k where "n = 2 * k + 1" using oddE by blast
    then show ?thesis by simp
  qed
  moreover have "0 < (length ps + 1) div 2"
    using assms(2) by (cases ps) auto
  ultimately show ?thesis
    using assms by (simp add: lru_window_def lru_top_pct_window_def lru_rep_def settings Let_def)
qed

definition promotable_page :: "cmt \<Rightarrow> bool" where
  "promotable_page c \<longleftrightarrow> has_hot_entry c \<and> \<not> cmt_is_ghost c"

lemma hot_pages_loop_spec:
  assumes "seg (cells m) pr p (map fst ps) t None" and "carries (cells m) ps"
    and "int (length out) \<le> k"
  shows "hot_pages_loop cm m k n p out =
    Some (out @ take (nat k - length out) (filter (promotable_page \<circ> cm) (window_data n ps)))"
  using assms
proof (induction n arbitrary: pr p ps out)
  case 0
  then show ?case by simp
next
  case (Suc n)
  show ?case
  proof (cases "ps = [] \<or> k \<le> int (length out)")
    case True
    with Suc.prems show ?thesis by auto
  next
    case False
    then obtain a d qs where ps: "ps = (a, d) # qs"
      by (cases ps) auto
    from Suc.prems False show ?thesis
      by (cases d) (auto simp: ps Suc.IH promotable_page_def take_Cons')
  qed
qed

lemma top_k_loop_spec:
  assumes "seg (cells m) pr p (map fst ps) t None" and "carries (cells m) ps"
  shows "top_k_loop cm m k n p out =
    Some (fold (top_k_offer k) (map (\<lambda>d. (page_heat (cm d), d)) (window_data n ps)) out)"
  using assms
proof (induction n arbitrary: pr p ps out)
  case 0
  then show ?case by simp
next
  case (Suc n)
  show ?case
  proof (cases ps)
    case Nil
    with Suc.prems show ?thesis by auto
  next
    case (Cons q qs)
    obtain a d where q: "q = (a, d)" by (cases q)
    from Suc.prems show ?thesis
      by (cases d) (auto simp: Cons q Suc.IH)
  qed
qed

text \<open>The index the minimum scan returns points to a minimal heat.\<close>

lemma min_heat_fold:
  assumes "j = fold (\<lambda>i min_idx. if heats ! nat i < heats ! nat min_idx then i else min_idx) [1..int n] (0::int)"
  shows "0 \<le> j \<and> j \<le> int n \<and> (\<forall>i \<le> n. heats ! nat j \<le> (heats ! i :: nat))"
  using assms
proof (induction n arbitrary: j)
  case 0
  then show ?case by simp
next
  case (Suc n)
  let ?f = "\<lambda>i min_idx. if heats ! nat i < heats ! nat min_idx then i else min_idx"
  have "[1..int (Suc n)] = [1..int n] @ [int (Suc n)]"
    using upto_rec2 [of 1 "int (Suc n)"] by simp
  with Suc.prems have j: "j = ?f (int (Suc n)) (fold ?f [1..int n] 0)" by simp
  from Suc.IH [OF refl] j show ?case
    by (auto simp: le_Suc_eq nat_add_distrib intro: order_trans less_imp_le split: if_splits)
qed

lemma top_k_min_heat_min:
  assumes "0 < length heats" and "int (length heats) \<le> k"
    and "j = lru_top_k_min_heat heats k (int (length heats))"
  shows "0 \<le> j \<and> nat j < length heats \<and> (\<forall>h \<in> set heats. heats ! nat j \<le> h)"
proof -
  obtain n where n: "length heats = Suc n"
    using assms(1) by (cases heats) auto
  with assms have "j = fold (\<lambda>i min_idx. if heats ! nat i < heats ! nat min_idx then i else min_idx)
      [1..int n] 0"
    by (simp add: lru_top_k_min_heat_def)
  from min_heat_fold [OF this] n show ?thesis
    by (auto simp: in_set_conv_nth nat_less_iff)
qed

text \<open>
  \<open>top_k_inv k xs out\<close>: of the candidates with positive heat among \<open>xs\<close>, \<open>out\<close> holds \<open>k\<close> of the
  hottest (all of them if there are fewer).
\<close>

definition top_k_inv :: "int \<Rightarrow> (nat \<times> 'd) list \<Rightarrow> (nat \<times> 'd) list \<Rightarrow> bool" where
  "top_k_inv k xs out \<longleftrightarrow> int (length out) \<le> k \<and>
     (\<exists>rest. mset (filter (\<lambda>c. 0 < fst c) xs) = mset out + rest \<and>
        (rest = {#} \<or> int (length out) = k) \<and>
        (\<forall>c \<in> set out. \<forall>r \<in># rest. fst r \<le> fst c))"

lemma top_k_inv_step:
  assumes inv: "top_k_inv k xs out" and k: "0 < k"
  shows "top_k_inv k (xs @ [c]) (top_k_offer k c out)"
proof -
  from inv obtain rest where len: "int (length out) \<le> k"
    and ms: "mset (filter (\<lambda>c. 0 < fst c) xs) = mset out + rest"
    and full: "rest = {#} \<or> int (length out) = k"
    and low: "\<forall>c \<in> set out. \<forall>r \<in># rest. fst r \<le> fst c"
    by (auto simp: top_k_inv_def)
  let ?xs = "filter (\<lambda>c. 0 < fst c) (xs @ [c])"
  show ?thesis
  proof (cases "fst c = 0 \<or> int (length out) < k")
    case True
    with len ms full low show ?thesis
      by (auto simp: top_k_inv_def top_k_offer_def)
  next
    case False
    define j where "j = lru_top_k_min_heat (map fst out) k (int (length out))"
    have outk: "int (length out) = k" and pos: "0 < fst c"
      using False len by auto
    have j: "0 \<le> j" "nat j < length out" "\<forall>d \<in> set out. fst (out ! nat j) \<le> fst d"
      using top_k_min_heat_min [of "map fst out" k j] outk k by (fastforce simp: j_def)+
    let ?o = "out ! nat j"
    have o: "?o \<in> set out"
      using j(2) by simp
    show ?thesis
    proof (cases "fst c > fst ?o")
      case True
      have "top_k_inv k (xs @ [c]) (out[nat j := c])"
        unfolding top_k_inv_def
      proof (intro conjI exI [of _ "add_mset ?o rest"] ballI)
        show "mset ?xs = mset (out[nat j := c]) + add_mset ?o rest"
          using j(2) ms pos o by (simp add: mset_update)
        fix d r
        assume d: "d \<in> set (out[nat j := c])" and r: "r \<in># add_mset ?o rest"
        have "d = c \<or> d \<in> set out"
          using d set_update_subset_insert by fast
        moreover have "fst r \<le> fst ?o"
          using r low o by auto
        ultimately show "fst r \<le> fst d"
          using j(3) True by (auto intro: order_trans)
      qed (use outk in auto)
      then show ?thesis
        using False True j by (simp add: top_k_offer_def Let_def j_def)
    next
      case False': False
      have "top_k_inv k (xs @ [c]) out"
        unfolding top_k_inv_def
      proof (intro conjI exI [of _ "add_mset c rest"] ballI)
        fix d r
        assume "d \<in> set out" and "r \<in># add_mset c rest"
        then show "fst r \<le> fst d"
          using low j(3) False' by (auto simp: not_less intro: order_trans)
      qed (use outk ms pos in auto)
      then show ?thesis
        using False False' j by (simp add: top_k_offer_def Let_def j_def)
    qed
  qed
qed

lemma top_k_inv_fold: "0 < k \<Longrightarrow> top_k_inv k xs (fold (top_k_offer k) xs [])"
proof (induction xs rule: rev_induct)
  case Nil
  then show ?case by (simp add: top_k_inv_def)
next
  case (snoc c xs)
  then show ?case by (simp add: top_k_inv_step)
qed

section \<open>Properties\<close>

text \<open>
  C24. Least-recently-used order.  When a node is touched and the list is then drained by pops,
  the other nodes come out oldest first, in their old order, and the touched node is the one
  that stays: no operation aborts, and exactly the touched node is left.
\<close>

theorem lru_touched_survives:
  assumes "lru_rep l (us @ (a, d) # vs)"
  shows "returns (lru_update l (Some a)) (\<lambda>l'. returns (pop_n lru_pop (length us + length vs) l')
    (\<lambda>(rs, l''). rs = rev (map snd (us @ vs)) \<and> lru_rep l'' [(a, d)]))"
  using assms by (rule recent.touch_drain)

definition lru_demo :: "nat lru" where
  "lru_demo = the (do {
     (a, l) \<leftarrow> lru_push lru_init (Some 10);
     (b, l) \<leftarrow> lru_push l (Some 20);
     (c, l) \<leftarrow> lru_push l (Some 30);
     Some l
   })"

lemma lru_demo_rep: "lru_rep lru_demo [(2, Some 30), (1, Some 20), (0, Some 10)]"
  by (simp add: lru_demo_def lru_push_def lru_init_def empty_mem_def malloc_def lru_rep_def mem_wf_def
      Let_def)

lemma lru_touched_survives_witness:
  "returns (lru_update lru_demo (Some 1)) (\<lambda>l'. returns (pop_n lru_pop (1 + 1) l')
    (\<lambda>(rs, l''). rs = [Some 10, Some 30] \<and> lru_rep l'' [(1, Some 20)]))"
  using lru_touched_survives [of lru_demo "[(2, Some 30)]" 1 "Some 20" "[(0, Some 10)]"] lru_demo_rep
  by simp

text \<open>
  C26. The promotion scan.  For a target between 1 and 100, \<^verbatim>\<open>lru_pick_promote_hot_pages\<close> returns
  the first \<open>target_k\<close> pages, most recent first, among the resident pages with a hot entry in the
  upper half (rounded up) of the list; it never follows a null pointer.  Half is what the code scans,
  \<^verbatim>\<open>COLD_LRU_PROMOTE_TOP_PCT\<close> percent; the comment on the function in \<^verbatim>\<open>lru_list.h\<close> says the first 10 percent,
  the one on the constant 5 percent.
\<close>

theorem lru_pick_promote_hot_pages_spec:
  assumes "lru_rep l ps" and "0 < k" and "k \<le> 100"
  shows "lru_pick_promote_hot_pages cm l k =
    Some (take (nat k) (filter (\<lambda>d. has_hot_entry (cm d) \<and> \<not> ghost_mark (cm d))
      (window_data ((length ps + 1) div 2) ps)))"
proof (cases "ps = []")
  case True
  with assms show ?thesis
    by (simp add: lru_pick_promote_hot_pages_def lru_rep_def)
next
  case False
  have "lru_pick_promote_hot_pages cm l k =
      hot_pages_loop cm (lru_mem l) k (lru_window l) (lru_head l) []"
    using assms False
    by (simp add: lru_pick_promote_hot_pages_def lru_rep_def LRU_PROMOTE_MAX_K_def lru_window_def)
  also have "\<dots> = Some (take (nat k) (filter (promotable_page \<circ> cm) (window_data (lru_window l) ps)))"
    using assms hot_pages_loop_spec [of "lru_mem l" None "lru_head l" ps "lru_tail l" "[]" k cm]
    by (simp add: lru_rep_def)
  finally show ?thesis
    using lru_window_half [OF assms(1) False]
    by (simp add: promotable_page_def cmt_is_ghost_def comp_def)
qed

definition demo_page :: "bool \<Rightarrow> nat list \<Rightarrow> cmt" where
  "demo_page hot cs = \<lparr>cmt_idx = 0, cmt_pt = Some 0, t_ppa = 0, cmt_dirty = False, is_flying = False,
     retry_q = [], lru_ptr = None, is_cached = [], cached_cnt = 0, dirty_cnt = 0,
     cnt_map = Some cs, page_heat_sum = sum_list cs, has_hot_entry = hot, ghost_mark = False\<rparr>"

lemma lru_pick_promote_hot_pages_spec_witness:
  "lru_pick_promote_hot_pages (\<lambda>d. demo_page (d = 20) []) lru_demo 5 = Some [20]"
  using lru_pick_promote_hot_pages_spec [OF lru_demo_rep, of 5 "\<lambda>d. demo_page (d = 20) []"]
  by (simp add: demo_page_def window_data_def List.map_filter_def)

text \<open>
  C25. \<^verbatim>\<open>lru_pick_promote_top_k\<close> keeps the hottest pages: of the pages with positive heat in the
  scanned window it returns \<open>min k 100\<close> (all if fewer), and no page it leaves out is hotter than
  one it returns.
\<close>

theorem lru_pick_promote_top_k_hottest:
  assumes "lru_rep l ps" and "0 < k"
  shows "returns (lru_pick_promote_top_k cm l k)
    (top_k_inv (min k 100) (map (\<lambda>d. (page_heat (cm d), d)) (window_data ((length ps + 1) div 2) ps)))"
proof (cases "ps = []")
  case True
  with assms show ?thesis
    by (simp add: lru_pick_promote_top_k_def lru_rep_def top_k_inv_def)
next
  case False
  have "lru_pick_promote_top_k cm l k =
      top_k_loop cm (lru_mem l) (min k 100) (lru_window l) (lru_head l) []"
    using assms False
    by (simp add: lru_pick_promote_top_k_def lru_rep_def LRU_PROMOTE_MAX_K_def lru_window_def Let_def)
  also have "\<dots> = Some (fold (top_k_offer (min k 100))
      (map (\<lambda>d. (page_heat (cm d), d)) (window_data (lru_window l) ps)) [])"
    using assms(1) by (intro top_k_loop_spec) (auto simp: lru_rep_def)
  finally show ?thesis
    using lru_window_half [OF assms(1) False] top_k_inv_fold [of "min k 100"] assms(2) by simp
qed

lemma lru_pick_promote_top_k_hottest_witness:
  "returns (lru_pick_promote_top_k (\<lambda>d. demo_page True [d]) lru_demo 1)
    (top_k_inv 1 [(30, 30), (20, 20)])"
  using lru_pick_promote_top_k_hottest [OF lru_demo_rep, of 1 "\<lambda>d. demo_page True [d]"]
  by (simp add: demo_page_def page_heat_def window_data_def List.map_filter_def)

end
