(* ===== verification/Dcache.thy ===== *)
theory Dcache
  imports Lru
begin

text \<open>
  The state of the mapping cache of \<^verbatim>\<open>hash_hot_cmt/cache.h\<close>: configuration, members, statistics,
  the background rehash of the hot table (\<^verbatim>\<open>dftl_cache.c\<close>) and the ghost rings
  (\<^verbatim>\<open>adaptive_mem.c\<close>), with their initialisation.  Built with \<^verbatim>\<open>HOT_CMT\<close> and
  \<^verbatim>\<open>ADAPTIVE_MEM\<close>, without \<^verbatim>\<open>VERIFY_CACHE\<close>.  Tables are functions on indices.  The two spin locks
  protect single steps of this model and do not appear in it.
\<close>

section \<open>Records\<close>

record cache_env =
  nr_tpages_optimal_caching :: nat
  nr_valid_tpages :: nat
  nr_valid_tentries :: nat
  max_cached_tpages :: nat
  max_cached_tentries :: nat
  max_cached_hot_tpages :: nat
  max_cached_hot_entries :: nat
  max_cached_full_key :: nat
  max_cached_full_key_budget :: nat
  total_cache_tpages :: nat
  hot_tpages_cap :: nat
  min_cached_tpages :: nat
  min_cached_hot_tpages :: nat
  chunk_tpages :: nat
  n_hot :: nat
  key_entries_cap :: nat
  key_chunk_entries :: nat
  ghost_cold_cap :: nat
  ghost_key_cap :: nat
  ghost_cold_frac_pct :: nat
  max_cache_entry :: nat

text \<open>\<^verbatim>\<open>lru\<close> holds the indices of the cached mapping pages.  Counters that the code decrements
  without a test are words.\<close>

record cache_member =
  cmts :: "nat \<Rightarrow> cmt"
  mem_table :: "nat \<Rightarrow> nat \<Rightarrow> pte"
  hot_mem_table :: "nat \<Rightarrow> nat \<Rightarrow> h_pte"
  clru :: "nat lru"
  nr_cached_tpages :: int
  nr_ghost_cold :: u64
  nr_ghost_key :: u64

record cache_stat =
  cache_hit :: nat
  cache_miss :: nat
  clean_evict :: nat
  dirty_evict :: nat
  blocked_miss :: nat
  cache_miss_by_collision :: nat
  cache_hit_by_collision :: nat
  cache_load :: nat
  hot_cmt_hit :: nat
  hot_valid_entries :: nat
  hot_rewrite_entries :: nat
  hot_promote_blocked_cnt :: nat
  up_grain_cnt :: nat
  up_grain_new_cnt :: nat
  up_hit_cnt :: nat
  up_page_cnt :: nat
  grain_heat_distribute :: "nat \<Rightarrow> nat"
  hot_pte_state_on_hit :: "nat \<Rightarrow> nat"
  hot_pte_state_live :: "nat \<Rightarrow> nat"
  cold_promote_page_grain_period :: "nat \<Rightarrow> nat"
  cold_promote_grain_period :: "nat \<Rightarrow> nat"
  cold_promote_pages_period :: nat
  cold_promote_page_heat_sum_period :: nat
  ghost_hit_cold :: nat
  ghost_hit_key :: nat
  hot_evict_count :: nat
  cold_evict_count :: nat
  expand_count :: nat
  shrink_count :: nat
  ghost_key_state_live :: "nat \<Rightarrow> u64"

datatype rehash_phase = HOT_REHASH_IDLE | HOT_REHASH_COLLECT | HOT_REHASH_INSERT

text \<open>\<^verbatim>\<open>n_saved\<close> is the length of \<open>saved\<close>; its capacity is not modelled (the allocation of
  \<^verbatim>\<open>g_realloc\<close> does not fail).\<close>

record hot_rehash =
  phase :: rehash_phase
  n_pages :: nat
  scan_page :: nat
  scan_grain :: nat
  saved :: "h_pte list"
  insert_idx :: nat
  placed :: nat
  ghosts :: nat
  insert_dropped :: nat
  collect_dropped_cold :: nat

record ghost_fifo =
  gf_ring :: "nat \<Rightarrow> nat"
  gf_cap :: nat
  gf_head :: nat
  gf_count :: nat

text \<open>The cache with the file-scope and function-scope static variables of its two files.\<close>

record dcache =
  env :: cache_env
  member :: cache_member
  stat :: cache_stat
  rehash :: hot_rehash
  cold_fifo :: ghost_fifo
  key_fifo :: ghost_fifo
  ghost_cold_scan_rr :: nat
  ghost_key_scan_rr :: nat
  pop_count :: nat
  rebalance_evict_cnt :: u32

definition upd_env :: "(cache_env \<Rightarrow> cache_env) \<Rightarrow> dcache \<Rightarrow> dcache" where
  "upd_env f c = c\<lparr>env := f (env c)\<rparr>"

definition upd_member :: "(cache_member \<Rightarrow> cache_member) \<Rightarrow> dcache \<Rightarrow> dcache" where
  "upd_member f c = c\<lparr>member := f (member c)\<rparr>"

definition upd_stat :: "(cache_stat \<Rightarrow> cache_stat) \<Rightarrow> dcache \<Rightarrow> dcache" where
  "upd_stat f c = c\<lparr>stat := f (stat c)\<rparr>"

definition upd_rehash :: "(hot_rehash \<Rightarrow> hot_rehash) \<Rightarrow> dcache \<Rightarrow> dcache" where
  "upd_rehash f c = c\<lparr>rehash := f (rehash c)\<rparr>"

definition upd_cmt :: "nat \<Rightarrow> (cmt \<Rightarrow> cmt) \<Rightarrow> dcache \<Rightarrow> dcache" where
  "upd_cmt i f = upd_member (\<lambda>m. m\<lparr>cmts := (cmts m)(i := f (cmts m i))\<rparr>)"

definition hot_slot :: "dcache \<Rightarrow> nat \<times> nat \<Rightarrow> h_pte" where
  "hot_slot c = (\<lambda>(d, p). hot_mem_table (member c) d p)"

definition upd_slot :: "nat \<times> nat \<Rightarrow> (h_pte \<Rightarrow> h_pte) \<Rightarrow> dcache \<Rightarrow> dcache" where
  "upd_slot = (\<lambda>(d, p) f. upd_member (\<lambda>m. m\<lparr>hot_mem_table :=
     (hot_mem_table m)(d := (hot_mem_table m d)(p := f (hot_mem_table m d p)))\<rparr>))"

lemma upd_env_simps [simp]:
  "env (upd_env f c) = f (env c)" "member (upd_env f c) = member c" "stat (upd_env f c) = stat c"
  "rehash (upd_env f c) = rehash c" "cold_fifo (upd_env f c) = cold_fifo c"
  "key_fifo (upd_env f c) = key_fifo c" "hot_slot (upd_env f c) = hot_slot c"
  by (simp_all add: upd_env_def hot_slot_def)

lemma upd_member_simps [simp]:
  "env (upd_member f c) = env c" "member (upd_member f c) = f (member c)" "stat (upd_member f c) = stat c"
  "rehash (upd_member f c) = rehash c" "cold_fifo (upd_member f c) = cold_fifo c"
  "key_fifo (upd_member f c) = key_fifo c"
  by (simp_all add: upd_member_def)

lemma hot_slot_upd_member [simp]:
  "(\<And>m. hot_mem_table (f m) = hot_mem_table m) \<Longrightarrow> hot_slot (upd_member f c) = hot_slot c"
  by (simp add: hot_slot_def)

lemma hot_slot_other [simp]:
  "hot_slot (c\<lparr>cold_fifo := f\<rparr>) = hot_slot c" "hot_slot (c\<lparr>key_fifo := f\<rparr>) = hot_slot c"
  "hot_slot (c\<lparr>ghost_cold_scan_rr := n\<rparr>) = hot_slot c" "hot_slot (c\<lparr>ghost_key_scan_rr := n\<rparr>) = hot_slot c"
  "hot_slot (c\<lparr>pop_count := n\<rparr>) = hot_slot c" "hot_slot (c\<lparr>rebalance_evict_cnt := w\<rparr>) = hot_slot c"
  by (simp_all add: hot_slot_def)

lemma upd_stat_simps [simp]:
  "env (upd_stat f c) = env c" "member (upd_stat f c) = member c" "stat (upd_stat f c) = f (stat c)"
  "rehash (upd_stat f c) = rehash c" "cold_fifo (upd_stat f c) = cold_fifo c"
  "key_fifo (upd_stat f c) = key_fifo c" "hot_slot (upd_stat f c) = hot_slot c"
  by (simp_all add: upd_stat_def hot_slot_def)

lemma upd_rehash_simps [simp]:
  "env (upd_rehash f c) = env c" "member (upd_rehash f c) = member c" "stat (upd_rehash f c) = stat c"
  "rehash (upd_rehash f c) = f (rehash c)" "cold_fifo (upd_rehash f c) = cold_fifo c"
  "key_fifo (upd_rehash f c) = key_fifo c" "hot_slot (upd_rehash f c) = hot_slot c"
  by (simp_all add: upd_rehash_def hot_slot_def)

lemma upd_cmt_simps [simp]:
  "env (upd_cmt i f c) = env c" "stat (upd_cmt i f c) = stat c" "rehash (upd_cmt i f c) = rehash c"
  "cold_fifo (upd_cmt i f c) = cold_fifo c" "key_fifo (upd_cmt i f c) = key_fifo c"
  "hot_slot (upd_cmt i f c) = hot_slot c"
  "cmts (member (upd_cmt i f c)) = (cmts (member c))(i := f (cmts (member c) i))"
  "mem_table (member (upd_cmt i f c)) = mem_table (member c)"
  "clru (member (upd_cmt i f c)) = clru (member c)"
  "nr_cached_tpages (member (upd_cmt i f c)) = nr_cached_tpages (member c)"
  "nr_ghost_cold (member (upd_cmt i f c)) = nr_ghost_cold (member c)"
  by (simp_all add: upd_cmt_def hot_slot_def)

lemma upd_slot_simps [simp]:
  "env (upd_slot q f c) = env c" "stat (upd_slot q f c) = stat c" "rehash (upd_slot q f c) = rehash c"
  "cold_fifo (upd_slot q f c) = cold_fifo c" "key_fifo (upd_slot q f c) = key_fifo c"
  "cmts (member (upd_slot q f c)) = cmts (member c)"
  "mem_table (member (upd_slot q f c)) = mem_table (member c)"
  "clru (member (upd_slot q f c)) = clru (member c)"
  "nr_ghost_cold (member (upd_slot q f c)) = nr_ghost_cold (member c)"
  "nr_ghost_key (member (upd_slot q f c)) = nr_ghost_key (member c)"
  "nr_cached_tpages (member (upd_slot q f c)) = nr_cached_tpages (member c)"
  "hot_slot (upd_slot q f c) = (hot_slot c)(q := f (hot_slot c q))"
  by (auto simp: upd_slot_def hot_slot_def split: prod.splits)

text \<open>What an operation on the hot table does not touch.\<close>

definition side :: "dcache \<Rightarrow> (nat \<Rightarrow> cmt) \<times> (nat \<Rightarrow> nat \<Rightarrow> pte) \<times> nat lru \<times> int \<times> u64 \<times> ghost_fifo \<times> ghost_fifo \<times>
    nat \<times> nat \<times> nat \<times> u32" where
  "side c = (cmts (member c), mem_table (member c), clru (member c), nr_cached_tpages (member c),
     nr_ghost_cold (member c), cold_fifo c, key_fifo c, ghost_cold_scan_rr c, ghost_key_scan_rr c, pop_count c,
     rebalance_evict_cnt c)"

lemma side_upd [simp]:
  "side (upd_stat f c) = side c" "side (upd_rehash g c) = side c" "side (upd_slot q h c) = side c"
  "side (upd_env k c) = side c"
  by (auto simp: side_def upd_stat_def upd_rehash_def upd_slot_def upd_member_def upd_env_def split: prod.splits)

lemma side_nr_ghost_key [simp]: "side (upd_member (\<lambda>m. m\<lparr>nr_ghost_key := n m\<rparr>) c) = side c"
  by (simp add: side_def upd_member_def)

lemma side_eqD:
  assumes "side c' = side c"
  shows "cmts (member c') = cmts (member c)" "mem_table (member c') = mem_table (member c)"
    "nr_ghost_cold (member c') = nr_ghost_cold (member c)" "cold_fifo c' = cold_fifo c" "key_fifo c' = key_fifo c"
    "clru (member c') = clru (member c)" "nr_cached_tpages (member c') = nr_cached_tpages (member c)"
  using assms by (simp_all add: side_def)

section \<open>Initialisation\<close>

definition MAXKEYSIZE :: nat where "MAXKEYSIZE = 128"
definition ADAPTIVE_CHUNK_FRAC_PCT :: nat where "ADAPTIVE_CHUNK_FRAC_PCT = 1"
definition ADAPTIVE_HOT_MAX_POOL_PCT :: nat where "ADAPTIVE_HOT_MAX_POOL_PCT = 20"
definition ADAPTIVE_KEY_MAX_POOL_PCT :: nat where "ADAPTIVE_KEY_MAX_POOL_PCT = 10"
definition ADAPTIVE_REBALANCE_THRESH_DIV :: nat where "ADAPTIVE_REBALANCE_THRESH_DIV = 256"
definition HOT_REHASH_SCAN_BUDGET :: nat where "HOT_REHASH_SCAN_BUDGET = 32768"
definition HOT_REHASH_INSERT_BUDGET :: nat where "HOT_REHASH_INSERT_BUDGET = 8192"
definition HOT_REHASH_DRAIN_ROUNDS :: nat where "HOT_REHASH_DRAIN_ROUNDS = 48"

text \<open>
  \<^verbatim>\<open>cache_env_init\<close>.  The floating-point ceilings of 65536 times 0.95 and 0.05 are computed
  exactly (the products, 62259.2 and 3276.8, are far from an integer); \<^verbatim>\<open>full_key_frac\<close> is 0.
\<close>

definition cache_env_init :: cache_env where
  "cache_env_init =
     (let pool = NOP_NO_OP div 1024;
          lpages = (NOP_NO_OP div EPP + (if NOP_NO_OP mod EPP \<noteq> 0 then 1 else 0)) * GRAIN_PER_PAGE * 4 div 3;
          cold = (pool * 95 + 99) div 100;
          hot = (pool * 5 + 99) div 100;
          total_pages = cold + hot;
          chunk = (let ch = total_pages * ADAPTIVE_CHUNK_FRAC_PCT div 100 in if ch = 0 then 1 else ch);
          nh = (chunk * EPP) div ADAPTIVE_REBALANCE_THRESH_DIV;
          kchunk = total_pages * ADAPTIVE_CHUNK_FRAC_PCT div 1000 * EPP * MAXKEYSIZE
      in \<lparr>nr_tpages_optimal_caching = NOP_NO_OP * 4 div PAGESIZE,
          nr_valid_tpages = lpages, nr_valid_tentries = lpages * EPP,
          max_cached_tpages = cold, max_cached_tentries = cold * EPP,
          max_cached_hot_tpages = hot, max_cached_hot_entries = hot * EPP,
          max_cached_full_key = 0, max_cached_full_key_budget = 0,
          total_cache_tpages = total_pages,
          hot_tpages_cap = total_pages * ADAPTIVE_HOT_MAX_POOL_PCT div 100,
          min_cached_tpages = chunk, min_cached_hot_tpages = chunk, chunk_tpages = chunk,
          n_hot = (if nh = 0 then 1 else nh),
          key_entries_cap = total_pages * ADAPTIVE_KEY_MAX_POOL_PCT div 100 * EPP * MAXKEYSIZE,
          key_chunk_entries = (if kchunk = 0 then 1 else kchunk),
          ghost_cold_cap = 0, ghost_key_cap = 0, ghost_cold_frac_pct = 0, max_cache_entry = lpages\<rparr>)"

definition empty_slot :: h_pte where
  "empty_slot = \<lparr>h_lpa = UINT32_MAX, h_ppa = UINT32_MAX, h_state = MIN_STATE, h_fp = 0,
     key_ghost_mark = False, key_ghost_state = 0\<rparr>"

definition blank_cmt :: "nat \<Rightarrow> cmt" where
  "blank_cmt i = \<lparr>cmt_idx = i, cmt_pt = None, t_ppa = UINT32_MAX, cmt_dirty = False, is_flying = False,
     retry_q = [], lru_ptr = None, is_cached = [], cached_cnt = 0, dirty_cnt = 0, cnt_map = None,
     page_heat_sum = 0, has_hot_entry = False, ghost_mark = False\<rparr>"

definition cache_member_init :: cache_member where
  "cache_member_init = \<lparr>cmts = blank_cmt, mem_table = (\<lambda>_ _. \<lparr>pte_ppa = UINT32_MAX, pte_fp = 0\<rparr>),
     hot_mem_table = (\<lambda>_ _. empty_slot), clru = lru_init, nr_cached_tpages = 0, nr_ghost_cold = 0,
     nr_ghost_key = 0\<rparr>"

definition cache_stat_init :: cache_stat where
  "cache_stat_init = \<lparr>cache_hit = 0, cache_miss = 0, clean_evict = 0, dirty_evict = 0, blocked_miss = 0,
     cache_miss_by_collision = 0, cache_hit_by_collision = 0, cache_load = 0, hot_cmt_hit = 0,
     hot_valid_entries = 0, hot_rewrite_entries = 0, hot_promote_blocked_cnt = 0, up_grain_cnt = 0,
     up_grain_new_cnt = 0, up_hit_cnt = 0, up_page_cnt = 0, grain_heat_distribute = (\<lambda>_. 0),
     hot_pte_state_on_hit = (\<lambda>_. 0), hot_pte_state_live = (\<lambda>_. 0),
     cold_promote_page_grain_period = (\<lambda>_. 0), cold_promote_grain_period = (\<lambda>_. 0),
     cold_promote_pages_period = 0, cold_promote_page_heat_sum_period = 0, ghost_hit_cold = 0,
     ghost_hit_key = 0, hot_evict_count = 0, cold_evict_count = 0, expand_count = 0, shrink_count = 0,
     ghost_key_state_live = (\<lambda>_. 0)\<rparr>"

definition rehash_zero :: hot_rehash where
  "rehash_zero = \<lparr>phase = HOT_REHASH_IDLE, n_pages = 0, scan_page = 0, scan_grain = 0, saved = [],
     insert_idx = 0, placed = 0, ghosts = 0, insert_dropped = 0, collect_dropped_cold = 0\<rparr>"

definition fifo_empty :: ghost_fifo where
  "fifo_empty = \<lparr>gf_ring = (\<lambda>_. 0), gf_cap = 0, gf_head = 0, gf_count = 0\<rparr>"

lemma cache_env_init_vals [simp]:
  "max_cached_tpages cache_env_init = 62260" "max_cached_hot_tpages cache_env_init = 3277"
  "total_cache_tpages cache_env_init = 65537" "hot_tpages_cap cache_env_init = 13107"
  "chunk_tpages cache_env_init = 655" "min_cached_tpages cache_env_init = 655"
  "min_cached_hot_tpages cache_env_init = 655" "max_cached_hot_entries cache_env_init = 1677824"
  "n_hot cache_env_init = 1310" "key_entries_cap cache_env_init = 429457408"
  "key_chunk_entries cache_env_init = 4259840" "max_cached_full_key_budget cache_env_init = 0"
  "max_cached_full_key cache_env_init = 0" "nr_valid_tpages cache_env_init = 699050"
  "nr_valid_tentries cache_env_init = 357913600"
  by (simp_all add: cache_env_init_def NOP_NO_OP_def settings Let_def MAXKEYSIZE_def
      ADAPTIVE_CHUNK_FRAC_PCT_def ADAPTIVE_HOT_MAX_POOL_PCT_def ADAPTIVE_KEY_MAX_POOL_PCT_def
      ADAPTIVE_REBALANCE_THRESH_DIV_def)

end
