(* ===== verification/Keys.thy ===== *)
theory Keys
  imports Murmur Dcache
begin

text \<open>
  Keys, values and hash parameters: \<^verbatim>\<open>hash_hot_cmt/dftl_types.h\<close>, \<^verbatim>\<open>request.c\<close>, \<^verbatim>\<open>get_lpa\<close> of
  \<^verbatim>\<open>demand.c\<close>, the key comparison that \<^verbatim>\<open>skiplist.c\<close>, \<^verbatim>\<open>demand.c\<close> and \<^verbatim>\<open>dftl_wb.c\<close> each repeat,
  \<^verbatim>\<open>valueset.c\<close> and the collision log of \<^verbatim>\<open>dftl_utils.c\<close>.  The comparison is the lexicographic
  order of byte strings, and the probe sequence of a key never visits an address twice within the
  permitted number of collisions.
\<close>

section \<open>Keys\<close>

text \<open>A \<^verbatim>\<open>str_key\<close> is the list of its first \<^verbatim>\<open>len\<close> bytes; the bytes behind them are never compared.\<close>

type_synonym str_key = "u8 list"

text \<open>The sign of the C library's \<^verbatim>\<open>memcmp\<close> on the first \<open>n\<close> bytes, compared as unsigned.\<close>

fun memcmp :: "u8 list \<Rightarrow> u8 list \<Rightarrow> nat \<Rightarrow> int" where
  "memcmp a b 0 = 0"
| "memcmp (x # a) (y # b) (Suc n) = (if x = y then memcmp a b n else if x < y then - 1 else 1)"
| "memcmp a b (Suc n) = 0"

definition KEYCMP :: "str_key \<Rightarrow> str_key \<Rightarrow> int" where
  "KEYCMP a b =
     (if length a = 0 \<and> length b = 0 then 0
      else if length a = 0 then - 1
      else if length b = 0 then 1
      else let r = memcmp a b (if length a > length b then length b else length a)
           in if r \<noteq> 0 \<or> length a = length b then r
              else if length a < length b then - 1 else 1)"

definition KEYTEST :: "str_key \<Rightarrow> str_key \<Rightarrow> bool" where
  "KEYTEST a b = (if length a \<noteq> length b then False else memcmp a b (length a) = 0)"

definition key_max :: str_key where
  "key_max = replicate MAXKEYSIZE 0xFF"

definition key_min :: str_key where
  "key_min = replicate MAXKEYSIZE 0"

abbreviation key_less :: "str_key \<Rightarrow> str_key \<Rightarrow> bool" where
  "key_less \<equiv> ord_class.lexordp"

lemma memcmp_lexordp:
  "memcmp a b (min (length a) (length b)) =
    (if take (length b) a = take (length a) b then 0 else if key_less a b then - 1 else 1)"
proof (induction a arbitrary: b)
  case Nil
  then show ?case by simp
next
  case (Cons x a)
  show ?case
  proof (cases b)
    case Nil
    then show ?thesis by simp
  next
    case (Cons y b')
    then show ?thesis
      using Cons.IH [of b'] by auto
  qed
qed

lemma lexordp_prefix: "key_less a b \<longleftrightarrow> length a < length b" if "take (length b) a = take (length a) b"
  using that
proof (induction a arbitrary: b)
  case (Cons x a)
  then show ?case by (cases b) auto
qed simp

lemma take_length_eq: "length a = length b \<Longrightarrow> take (length b) a = take (length a) b \<longleftrightarrow> a = b"
  by simp

lemma KEYCMP_lexordp: "KEYCMP a b = (if a = b then 0 else if key_less a b then - 1 else 1)"
proof (cases "length a = 0 \<or> length b = 0")
  case True
  then show ?thesis by (cases b) (auto simp: KEYCMP_def)
next
  case False
  have "(if length a > length b then length b else length a) = min (length a) (length b)"
    by simp
  then show ?thesis
    using False lexordp_prefix [of b a] memcmp_lexordp [of a b]
    by (auto simp: KEYCMP_def Let_def)
qed

lemma KEYCMP_0 [simp]: "KEYCMP a b = 0 \<longleftrightarrow> a = b"
  by (simp add: KEYCMP_lexordp)

lemma KEYCMP_neg [simp]: "KEYCMP a b < 0 \<longleftrightarrow> key_less a b"
  by (auto simp: KEYCMP_lexordp lexordp_irreflexive')

lemma KEYTEST_eq [simp]: "KEYTEST a b \<longleftrightarrow> a = b"
  using memcmp_lexordp [of a b] by (auto simp: KEYTEST_def split: if_splits)

section \<open>Values\<close>

definition PIECE :: nat where "PIECE = 1024"

record value_set =
  vs_value :: "u8 list"
  vs_length :: nat
  vs_ppa :: nat
  vs_length_in_bytes :: nat
  vs_offset :: nat

text \<open>
  \<^verbatim>\<open>inf_get_valueset\<close>: the buffer has \<open>len\<close> bytes, filled from \<open>in_v\<close> (which the caller must
  provide with as many) or with zeros.  \<^verbatim>\<open>ppa\<close> and \<^verbatim>\<open>offset\<close> are not initialised there.
\<close>

definition inf_get_valueset :: "u8 list option \<Rightarrow> nat \<Rightarrow> nat \<times> nat \<Rightarrow> value_set option" where
  "inf_get_valueset in_v len garbage =
     (let len' = (len div PIECE + (if len mod PIECE \<noteq> 0 then 1 else 0)) * PIECE;
          n = (if len < len' then len else len')
      in case in_v of
           None \<Rightarrow> Some \<lparr>vs_value = replicate n 0, vs_length = len', vs_ppa = fst garbage,
                     vs_length_in_bytes = len, vs_offset = snd garbage\<rparr>
         | Some v \<Rightarrow> if length v < n then None
             else Some \<lparr>vs_value = take n v, vs_length = len', vs_ppa = fst garbage,
                     vs_length_in_bytes = len, vs_offset = snd garbage\<rparr>)"

text \<open>The number of pieces of a value, which \<^verbatim>\<open>skiplist_insert\<close> stores in \<^verbatim>\<open>length\<close>.\<close>

definition pieces :: "nat \<Rightarrow> nat" where
  "pieces n = n div PIECE + (if n mod PIECE \<noteq> 0 then 1 else 0)"

section \<open>Hash parameters and probing\<close>

datatype hash_find = HASH_KEY_INITIAL | HASH_KEY_NONE | HASH_KEY_SAME | HASH_KEY_DIFF

record hash_params =
  hash :: u32
  hp_key_fp :: u32
  hp_cnt :: nat
  hp_find :: hash_find

definition hashing_key :: "str_key \<Rightarrow> u32" where
  "hashing_key key = murmurhash key 1"

definition hashing_key_fp :: "str_key \<Rightarrow> u32" where
  "hashing_key_fp key = murmurhash key 2"

definition make_hash_params :: "str_key \<Rightarrow> hash_params" where
  "make_hash_params key = \<lparr>hash = hashing_key key, hp_key_fp = hashing_key_fp key, hp_cnt = 0,
     hp_find = HASH_KEY_INITIAL\<rparr>"

definition QUADRATIC_PROBING :: "u32 \<Rightarrow> u32 \<Rightarrow> u32" where
  "QUADRATIC_PROBING h c = h + c + c * c"

text \<open>The sum is computed in 32 bits, then reduced; a table without entries is a division by zero.\<close>

definition get_lpa :: "cache_env \<Rightarrow> hash_params \<Rightarrow> lpa_t option" where
  "get_lpa e h =
     (if nr_valid_tentries e = 0 then None
      else Some (unat (QUADRATIC_PROBING (hash h) (of_nat (hp_cnt h))) mod nr_valid_tentries e))"

definition MAX_HASH_COLLISION :: nat where "MAX_HASH_COLLISION = 1024"

datatype rw_t = READ | WRITE

text \<open>\<^verbatim>\<open>r_hash_collision_cnt\<close> and \<^verbatim>\<open>w_hash_collision_cnt\<close>, and the result code.\<close>

definition hash_collision_logging :: "nat \<Rightarrow> rw_t \<Rightarrow> (nat \<Rightarrow> nat) \<times> (nat \<Rightarrow> nat) \<Rightarrow> nat \<times> (nat \<Rightarrow> nat) \<times> (nat \<Rightarrow> nat)" where
  "hash_collision_logging cnt type = (\<lambda>(r, w).
     if cnt > MAX_HASH_COLLISION then (1, r, w)
     else case type of READ \<Rightarrow> (0, r(cnt := r cnt + 1), w) | WRITE \<Rightarrow> (0, r, w(cnt := w cnt + 1)))"

section \<open>The probe sequence does not repeat\<close>

lemma odd_dvd_4096: "odd s \<Longrightarrow> s dvd 4096 \<Longrightarrow> s = 1" for s :: nat
proof -
  assume "odd s" "s dvd 4096"
  have "coprime s (2 ^ 12)"
    using \<open>odd s\<close> by (simp only: coprime_power_right_iff coprime_right_2_iff_odd) simp
  moreover have "s dvd 2 ^ 12"
    using \<open>s dvd 4096\<close> by simp
  ultimately show "s = 1"
    by (simp only: coprime_absorb_left) simp
qed

text \<open>The offsets grow by less than the table, and never by 4096, the residue of \<open>2 ^ 32\<close>.\<close>

lemma probe_step:
  fixes c d :: nat
  assumes "c < d" and "d \<le> 1024"
  shows "c + c * c < d + d * d" and "d + d * d \<le> c + c * c + 1049600" and "d + d * d \<noteq> c + c * c + 4096"
proof -
  obtain k where k: "d = c + Suc k" using assms(1) less_iff_Suc_add by auto
  have d: "d + d * d = c + c * c + Suc k * (2 * c + k + 2)"
    unfolding k by (simp add: algebra_simps)
  then show "c + c * c < d + d * d"
    by simp
  have "d * d \<le> 1024 * 1024"
    using assms(2) by (intro mult_le_mono)
  then show "d + d * d \<le> c + c * c + 1049600"
    using assms(2) by simp
  show "d + d * d \<noteq> c + c * c + 4096"
  proof
    assume "d + d * d = c + c * c + 4096"
    with d have *: "Suc k * (2 * c + k + 2) = 4096" by simp
    then have dvd: "Suc k dvd 4096" "2 * c + k + 2 dvd 4096"
      by (metis dvd_triv_left, metis dvd_triv_right)
    show False
    proof (cases "even k")
      case True
      then have "Suc k = 1" using dvd(1) by (intro odd_dvd_4096) simp
      with * k assms show False by simp
    next
      case False
      then have "2 * c + k + 2 = 1" using dvd(2) by (intro odd_dvd_4096) simp
      then show False by simp
    qed
  qed
qed

lemma mod_shift_neq:
  fixes a b n :: nat
  assumes "a < b" and "b < a + n"
  shows "a mod n \<noteq> b mod n"
proof
  assume "a mod n = b mod n"
  then have "n dvd b - a"
    using assms(1) mod_eq_dvd_iff_nat [of a b n] by (simp add: less_imp_le dvd_diff_commute)
  then show False
    using assms by (auto dest!: dvd_imp_le)
qed

lemma unat_probe:
  "unat (QUADRATIC_PROBING h (of_nat c)) = (unat h + (c + c * c)) mod 4294967296"
proof -
  have "QUADRATIC_PROBING h (of_nat c) = of_nat (unat h + (c + c * c))"
    by (simp add: QUADRATIC_PROBING_def)
  then show ?thesis
    by (simp only: unat_of_nat) simp
qed

lemma get_lpa_init:
  "get_lpa cache_env_init (h\<lparr>hp_cnt := c\<rparr>) = Some ((unat (hash h) + (c + c * c)) mod 4294967296 mod 357913600)"
  by (simp only: get_lpa_def cache_env_init_vals unat_probe hash_params.simps hash_params.surjective) simp

text \<open>
  Probing.  For the table size the cache is created with, the addresses of a key for the
  collision counts 0 to \<^verbatim>\<open>MAX_HASH_COLLISION\<close> are pairwise different, although the sum of hash
  and offset wraps around at 32 bits.
\<close>

theorem probe_addresses_distinct:
  assumes "c < d" and "d \<le> MAX_HASH_COLLISION"
  shows "get_lpa cache_env_init (h\<lparr>hp_cnt := c\<rparr>) \<noteq> get_lpa cache_env_init (h\<lparr>hp_cnt := d\<rparr>)"
proof -
  define x where "x = unat (hash h) + (c + c * c)"
  define y where "y = unat (hash h) + (d + d * d)"
  have lim: "d \<le> 1024" using assms(2) by (simp add: MAX_HASH_COLLISION_def)
  note step = probe_step [OF assms(1) lim]
  have xy: "x < y" "y \<le> x + 1049600" "y \<noteq> x + 4096"
    using step by (simp_all add: x_def y_def)
  have h: "unat (hash h) < 4294967296"
    using unsigned_less [of "hash h"] by simp
  have "c * c \<le> 1024 * 1024" "d * d \<le> 1024 * 1024"
    using assms(1) lim by (intro mult_le_mono; simp)+
  with h lim assms(1) have bound: "x < 4294967296 + 1049600" "y < 4294967296 + 1049600"
    by (simp_all add: x_def y_def)
  have "x mod 4294967296 mod 357913600 \<noteq> y mod 4294967296 mod 357913600"
  proof (cases "x < 4294967296 \<and> 4294967296 \<le> y")
    case True
    then obtain z where z: "y = 4294967296 + z" using nat_le_iff_add by auto
    have zl: "z < 1049600" using True xy z by simp
    show ?thesis
    proof (cases "12 * 357913600 \<le> x")
      case big: True
      then obtain w where w: "x = 12 * 357913600 + w" using nat_le_iff_add by auto
      have wz: "w < 4096" "w \<noteq> z" using True w xy z by simp_all
      have "x mod 357913600 = w"
        unfolding w using wz(1) by (simp only: mod_mult_self4 mod_mult_self3) simp
      then show ?thesis using True zl wz by (simp add: z)
    next
      case False
      have "11 * 357913600 \<le> x" using xy z by simp
      then obtain w where w: "x = 11 * 357913600 + w" using nat_le_iff_add by auto
      have wz: "w < 357913600" "z < w" using False w xy z zl by simp_all
      have "x mod 357913600 = w"
        unfolding w using wz(1) by (simp only: mod_mult_self4 mod_mult_self3) simp
      then show ?thesis using True zl wz by (simp add: z)
    qed
  next
    case False
    then have "y < 4294967296 \<or> 4294967296 \<le> x" using xy by auto
    then show ?thesis
    proof
      assume "y < 4294967296"
      then show ?thesis using xy mod_shift_neq [of x y 357913600] by simp
    next
      assume wrap: "4294967296 \<le> x"
      then obtain u where "x = 4294967296 + u" using nat_le_iff_add by auto
      moreover from wrap obtain v where "y = 4294967296 + v" using xy(1) nat_le_iff_add [of 4294967296 y] by auto
      ultimately show ?thesis using xy bound mod_shift_neq [of u v 357913600] by simp
    qed
  qed
  then show ?thesis
    by (simp only: get_lpa_init x_def y_def option.inject not_False_eq_True)
qed

lemma probe_addresses_distinct_witness:
  "get_lpa cache_env_init ((make_hash_params [1, 2])\<lparr>hp_cnt := 0\<rparr>) \<noteq>
   get_lpa cache_env_init ((make_hash_params [1, 2])\<lparr>hp_cnt := 1024\<rparr>)"
  by (rule probe_addresses_distinct) (simp_all add: MAX_HASH_COLLISION_def)

text \<open>
  C34. Key comparison.  \<^verbatim>\<open>KEYCMP\<close> decides the lexicographic order of the byte strings, a prefix
  before its extensions: it is negative, zero or positive exactly for smaller, equal and greater
  keys, and \<^verbatim>\<open>KEYTEST\<close> holds exactly for equal ones.
\<close>

theorem KEYCMP_lexicographic:
  "KEYCMP a b = (if a = b then 0 else if (a, b) \<in> lexord {(x, y). x < y} then - 1 else 1) \<and>
   (KEYTEST a b \<longleftrightarrow> a = b)"
  by (simp_all add: KEYCMP_lexordp lexordp_conv_lexord)

end
