(* ===== verification/Skiplist.thy ===== *)
theory Skiplist
  imports Keys Store
begin

text \<open>
  The skip list of \<^verbatim>\<open>tools/skiplist.c\<close> that holds the write buffer, at the level of its forward
  pointers: nodes in a memory, a search that walks down the levels, insertion and deletion that
  relink every level of a node, the iterator.  For every outcome of the coin tosses the list
  behaves as a sorted map from keys to values.
\<close>

section \<open>State\<close>

datatype jump_t = GOTO_LOAD | GOTO_LIST | GOTO_EVICT | GOTO_COMPLETE | GOTO_READ | GOTO_WRITE | GOTO_UPDATE

text \<open>
  \<^verbatim>\<open>list\<close> is an allocated array: its length is the number of cells, and a cell that was never
  written is \<open>None\<close>.
\<close>

record snode =
  sn_ppa :: ppa_t
  sn_key :: str_key
  sn_etime :: nat
  sn_level :: nat
  sn_value :: "value_set option"
  sn_isvalid :: bool
  sn_lpa :: lpa_t
  sn_hash_params :: "hash_params option"
  sn_params :: "jump_t option"
  sn_list :: "addr option list"
  sn_back :: "addr option"

text \<open>\<^verbatim>\<open>data_size\<close> is not initialised by \<^verbatim>\<open>skiplist_init\<close>; the counters are unsigned.\<close>

record skiplist =
  sl_level :: nat
  sl_size :: nat
  sl_all_length :: u32
  sl_data_size :: u32
  sl_header :: addr
  sl_mem :: "snode mem"

definition MAX_L :: nat where "MAX_L = 30"
definition PROB :: int where "PROB = 4"

definition blank_snode :: snode where
  "blank_snode = \<lparr>sn_ppa = 0, sn_key = [], sn_etime = 0, sn_level = 0, sn_value = None, sn_isvalid = False,
     sn_lpa = 0, sn_hash_params = None, sn_params = None, sn_list = [], sn_back = None\<rparr>"

section \<open>Operations\<close>

definition skiplist_init :: "u32 \<Rightarrow> skiplist" where
  "skiplist_init garbage =
     (let h = brk (empty_mem :: snode mem);
          header = blank_snode\<lparr>sn_key := key_max, sn_list := replicate MAX_L (Some h) @ [None], sn_back := Some h\<rparr>
      in \<lparr>sl_level = 1, sl_size = 0, sl_all_length = 0, sl_data_size = garbage, sl_header = h,
          sl_mem = snd (malloc header empty_mem)\<rparr>)"

text \<open>\<open>x->list[i]\<close>: a read outside the array or of an unwritten cell is undefined.\<close>

definition forward :: "snode mem \<Rightarrow> nat \<Rightarrow> addr \<Rightarrow> addr option" where
  "forward m i x = do {
     n \<leftarrow> cells m x;
     if i < length (sn_list n) then sn_list n ! i else None
   }"

partial_function (option) sl_walk :: "snode mem \<Rightarrow> str_key \<Rightarrow> nat \<Rightarrow> addr \<Rightarrow> addr option" where
  "sl_walk m key i x = do {
     y \<leftarrow> forward m i x;
     n \<leftarrow> cells m y;
     if KEYCMP (sn_key n) key < 0 then sl_walk m key i y else Some x
   }"

declare sl_walk.simps [code]

text \<open>The descent from level \<open>i\<close> to level 1, recording where each level was left.\<close>

fun sl_descend :: "snode mem \<Rightarrow> str_key \<Rightarrow> nat \<Rightarrow> addr \<Rightarrow> (nat \<rightharpoonup> addr) \<Rightarrow> (addr \<times> (nat \<rightharpoonup> addr)) option" where
  "sl_descend m key 0 x update = Some (x, update)"
| "sl_descend m key (Suc i) x update = do {
     x' \<leftarrow> sl_walk m key (Suc i) x;
     sl_descend m key i x' (update(Suc i \<mapsto> x'))
   }"

definition skiplist_find :: "skiplist \<Rightarrow> str_key \<Rightarrow> addr option option" where
  "skiplist_find l key =
     (if sl_size l = 0 then Some None
      else do {
        (x, _) \<leftarrow> sl_descend (sl_mem l) key (sl_level l) (sl_header l) Map.empty;
        y \<leftarrow> forward (sl_mem l) 1 x;
        n \<leftarrow> cells (sl_mem l) y;
        if KEYTEST (sn_key n) key then Some (Some y) else Some None
      })"

definition skiplist_find_lowerbound :: "skiplist \<Rightarrow> str_key \<Rightarrow> addr option option" where
  "skiplist_find_lowerbound l key =
     (if sl_size l = 0 then Some None
      else do {
        (x, _) \<leftarrow> sl_descend (sl_mem l) key (sl_level l) (sl_header l) Map.empty;
        y \<leftarrow> forward (sl_mem l) 1 x;
        Some (Some y)
      })"

text \<open>\<^verbatim>\<open>getLevel\<close>: \<open>draws\<close> are the values \<^verbatim>\<open>rand()\<close> returns from now on.\<close>

fun level_loop :: "nat \<Rightarrow> nat \<Rightarrow> (nat \<Rightarrow> int) \<Rightarrow> nat \<Rightarrow> nat" where
  "level_loop 0 level draws k = level"
| "level_loop (Suc n) level draws k =
     (if draws k mod PROB = 1
      then (if level + 2 \<ge> MAX_L then level + 1 else level_loop n (level + 1) draws (k + 1))
      else level)"

definition getLevel :: "(nat \<Rightarrow> int) \<Rightarrow> nat" where
  "getLevel draws = level_loop MAX_L 1 draws 0"

text \<open>One round of the relinking loop: \<^verbatim>\<open>x->list[i] = update[i]->list[i]; update[i]->list[i] = x\<close>.\<close>

definition set_forward :: "nat \<Rightarrow> addr \<Rightarrow> addr option \<Rightarrow> snode mem \<Rightarrow> snode mem option" where
  "set_forward i x y m = do {
     n \<leftarrow> cells m x;
     if i < length (sn_list n) then modify (Some x) (\<lambda>n. n\<lparr>sn_list := (sn_list n)[i := y]\<rparr>) m else None
   }"

definition sl_link :: "addr \<Rightarrow> (nat \<rightharpoonup> addr) \<Rightarrow> nat \<Rightarrow> snode mem \<Rightarrow> snode mem option" where
  "sl_link x update i m = do {
     u \<leftarrow> update i;
     y \<leftarrow> forward m i u;
     m1 \<leftarrow> set_forward i x (Some y) m;
     set_forward i u (Some x) m1
   }"

fun sl_link_all :: "addr \<Rightarrow> (nat \<rightharpoonup> addr) \<Rightarrow> nat list \<Rightarrow> snode mem \<Rightarrow> snode mem option" where
  "sl_link_all x update [] m = Some m"
| "sl_link_all x update (i # is) m = do { m' \<leftarrow> sl_link x update i m; sl_link_all x update is m' }"

text \<open>
  \<^verbatim>\<open>skiplist_insert\<close>.  \<^verbatim>\<open>KEYLEN\<close> is the key length plus four.  A null value is dereferenced in both
  branches, and so is the old value of an equal key.
\<close>

definition skiplist_insert :: "(nat \<Rightarrow> int) \<Rightarrow> skiplist \<Rightarrow> str_key \<Rightarrow> value_set option \<Rightarrow> bool \<Rightarrow> (addr \<times> skiplist) option" where
  "skiplist_insert draws l key value deletef = do {
     (x0, update) \<leftarrow> sl_descend (sl_mem l) key (sl_level l) (sl_header l) Map.empty;
     x \<leftarrow> forward (sl_mem l) 1 x0;
     n \<leftarrow> cells (sl_mem l) x;
     v0 \<leftarrow> value;
     let v = v0\<lparr>vs_length := pieces (vs_length v0)\<rparr>;
     if KEYTEST key (sn_key n) then do {
       old \<leftarrow> sn_value n;
       m \<leftarrow> modify (Some x) (\<lambda>n. n\<lparr>sn_value := Some v, sn_isvalid := deletef\<rparr>) (sl_mem l);
       Some (x, l\<lparr>sl_mem := m, sl_data_size := sl_data_size l - of_nat (vs_length old * PIECE)
                    + of_nat (vs_length v * PIECE)\<rparr>)
     } else do {
       let level = getLevel draws;
       let update' = (if level > sl_level l
          then (\<lambda>i. if sl_level l < i \<and> i \<le> level then Some (sl_header l) else update i) else update);
       let node = blank_snode\<lparr>sn_key := key, sn_isvalid := deletef, sn_ppa := UINT32_MAX, sn_value := Some v,
          sn_lpa := UINT32_MAX, sn_list := replicate (level + 1) None\<rparr>;
       let (new, m0) = malloc node (sl_mem l);
       m1 \<leftarrow> sl_link_all new update' [1..<Suc level] m0;
       y \<leftarrow> forward m1 1 new;
       yn \<leftarrow> cells m1 y;
       m2 \<leftarrow> modify (Some new) (\<lambda>n. n\<lparr>sn_back := sn_back yn\<rparr>) m1;
       m3 \<leftarrow> modify (Some y) (\<lambda>n. n\<lparr>sn_back := Some new\<rparr>) m2;
       m4 \<leftarrow> modify (Some new) (\<lambda>n. n\<lparr>sn_level := level\<rparr>) m3;
       Some (new, l\<lparr>sl_level := (if level > sl_level l then level else sl_level l),
         sl_all_length := sl_all_length l + of_nat (length key + 4), sl_mem := m4,
         sl_size := sl_size l + 1, sl_data_size := sl_data_size l + of_nat (vs_length v * PIECE)\<rparr>)
     }
   }"

fun skiplist_at :: "snode mem \<Rightarrow> nat \<Rightarrow> addr \<Rightarrow> addr option" where
  "skiplist_at m 0 x = Some x"
| "skiplist_at m (Suc idx) x = do { y \<leftarrow> forward m 1 x; skiplist_at m idx y }"

text \<open>The unlinking loop of \<^verbatim>\<open>skiplist_delete\<close>, from the node's level down to 1.\<close>

fun sl_unlink :: "addr \<Rightarrow> (nat \<rightharpoonup> addr) \<Rightarrow> nat \<Rightarrow> nat \<times> snode mem \<Rightarrow> (nat \<times> snode mem) option" where
  "sl_unlink x update 0 lm = Some lm"
| "sl_unlink x update (Suc i) (level, m) = do {
     u \<leftarrow> update (Suc i);
     y \<leftarrow> forward m (Suc i) x;
     m1 \<leftarrow> set_forward (Suc i) u (Some y) m;
     sl_unlink x update i (if u = y then level - 1 else level, m1)
   }"

definition skiplist_delete :: "skiplist \<Rightarrow> str_key \<Rightarrow> (int \<times> skiplist) option" where
  "skiplist_delete l key =
     (if sl_size l = 0 then Some (- 1, l)
      else do {
        (x0, update) \<leftarrow> sl_descend (sl_mem l) key (sl_level l) (sl_header l) Map.empty;
        x \<leftarrow> forward (sl_mem l) 1 x0;
        n \<leftarrow> cells (sl_mem l) x;
        if KEYCMP (sn_key n) key \<noteq> 0 then Some (- 2, l)
        else do {
          (level, m) \<leftarrow> sl_unlink x update (sn_level n) (sl_level l, sl_mem l);
          m1 \<leftarrow> free_cell (Some x) m;
          Some (0, l\<lparr>sl_level := level, sl_mem := m1, sl_size := sl_size l - 1\<rparr>)
        }
      })"

text \<open>The iterator is the node it stands on; at the end it stays and returns \<^verbatim>\<open>NULL\<close>.\<close>

definition skiplist_get_iterator :: "skiplist \<Rightarrow> addr" where
  "skiplist_get_iterator l = sl_header l"

definition skiplist_get_next :: "skiplist \<Rightarrow> addr \<Rightarrow> (addr option \<times> addr) option" where
  "skiplist_get_next l now = do {
     y \<leftarrow> forward (sl_mem l) 1 now;
     if y = sl_header l then Some (None, now) else Some (Some y, y)
   }"

text \<open>\<^verbatim>\<open>skiplist_clear\<close> frees the nodes of level 1 in turn.\<close>

partial_function (option) sl_clear_loop :: "addr \<Rightarrow> snode mem \<Rightarrow> addr \<Rightarrow> snode mem option" where
  "sl_clear_loop h m now =
     (if now = h then Some m
      else do {
        y \<leftarrow> forward m 1 now;
        m' \<leftarrow> free_cell (Some now) m;
        sl_clear_loop h m' y
      })"

declare sl_clear_loop.simps [code]

definition skiplist_clear :: "skiplist \<Rightarrow> skiplist option" where
  "skiplist_clear l = do {
     now \<leftarrow> forward (sl_mem l) 1 (sl_header l);
     _ \<leftarrow> forward (sl_mem l) 1 now;
     m \<leftarrow> sl_clear_loop (sl_header l) (sl_mem l) now;
     m' \<leftarrow> modify (Some (sl_header l)) (\<lambda>n. n\<lparr>sn_list := replicate MAX_L (Some (sl_header l)) @ drop MAX_L (sn_list n),
            sn_key := key_max\<rparr>) m;
     Some (l\<lparr>sl_size := 0, sl_level := 0, sl_mem := m'\<rparr>)
   }"

section \<open>Towers and representation\<close>

text \<open>
  The list holds nodes with their levels, in key order; the nodes of level at least \<open>i\<close> form a
  cycle through the header along the forward pointers of level \<open>i\<close>.
\<close>

definition tower :: "nat \<Rightarrow> (addr \<times> nat) list \<Rightarrow> addr list" where
  "tower i xs = map fst (filter (\<lambda>(a, k). i \<le> k) xs)"

definition chain :: "snode mem \<Rightarrow> nat \<Rightarrow> addr list \<Rightarrow> bool" where
  "chain m i as \<longleftrightarrow> successively (\<lambda>a b. forward m i a = Some b) as"

definition node_key :: "snode mem \<Rightarrow> addr \<Rightarrow> str_key" where
  "node_key m a = sn_key (the (cells m a))"

definition node_ok :: "snode mem \<Rightarrow> addr \<Rightarrow> nat \<Rightarrow> bool" where
  "node_ok m a k \<longleftrightarrow> (\<exists>n. cells m a = Some n \<and> sn_level n = k \<and> length (sn_list n) = k + 1 \<and> sn_value n \<noteq> None)"

definition sl_rep :: "skiplist \<Rightarrow> (addr \<times> nat) list \<Rightarrow> bool" where
  "sl_rep l xs \<longleftrightarrow>
     mem_wf (sl_mem l) \<and> distinct (map fst xs) \<and> sl_header l \<notin> fst ` set xs \<and>
     sl_size l = length xs \<and> sl_level l < MAX_L \<and>
     (\<exists>hn. cells (sl_mem l) (sl_header l) = Some hn \<and> sn_key hn = key_max \<and> sn_value hn = None \<and>
        length (sn_list hn) = MAX_L + 1) \<and>
     (\<forall>(a, k) \<in> set xs. 1 \<le> k \<and> k \<le> sl_level l \<and> node_ok (sl_mem l) a k) \<and>
     (\<forall>i. 1 \<le> i \<longrightarrow> i < MAX_L \<longrightarrow> chain (sl_mem l) i (sl_header l # tower i xs @ [sl_header l])) \<and>
     sorted_wrt key_less (map (node_key (sl_mem l)) (map fst xs @ [sl_header l]))"

lemma tower_append [simp]: "tower i (us @ vs) = tower i us @ tower i vs"
  by (simp add: tower_def)

lemma tower_Nil [simp]: "tower i [] = []"
  by (simp add: tower_def)

lemma tower_Cons [simp]: "tower i ((a, k) # xs) = (if i \<le> k then a # tower i xs else tower i xs)"
  by (simp add: tower_def)

lemma set_tower: "set (tower i xs) = {a. \<exists>k. (a, k) \<in> set xs \<and> i \<le> k}"
  by (force simp: tower_def)

lemma tower_1: "\<forall>(a, k) \<in> set xs. 1 \<le> k \<Longrightarrow> tower (Suc 0) xs = map fst xs"
  by (induction xs) auto

lemma tower_empty: "\<forall>(a, k) \<in> set xs. k < i \<Longrightarrow> tower i xs = []"
  by (induction xs) auto

lemma distinct_tower: "distinct (map fst xs) \<Longrightarrow> distinct (tower i xs)"
  unfolding tower_def by (rule distinct_map_filter)

lemma chain_step: "chain m i (ps @ x # y # rs) \<Longrightarrow> forward m i x = Some y"
  by (simp add: chain_def successively_append_iff)

text \<open>The link out of the last node before the gap.\<close>

lemma chain_gap: "chain m i (h # as @ bs @ [h]) \<Longrightarrow> forward m i (last (h # as)) = Some (hd (bs @ [h]))"
proof -
  assume c: "chain m i (h # as @ bs @ [h])"
  have "butlast (h # as) @ [last (h # as)] = h # as" "hd (bs @ [h]) # tl (bs @ [h]) = bs @ [h]"
    by (rule append_butlast_last_id) simp_all
  then have "h # as @ bs @ [h] = butlast (h # as) @ last (h # as) # hd (bs @ [h]) # tl (bs @ [h])"
    by (metis append.assoc append_Cons append_Nil)
  with c show ?thesis by (metis chain_step)
qed

text \<open>Inserting into and removing from a chain.\<close>

lemma chain_insert:
  assumes "chain m i (as @ bs)" and "as \<noteq> []" and "bs \<noteq> []" and "x \<notin> set as \<union> set (butlast bs)"
    and "last as \<notin> set (butlast as) \<union> set (butlast bs)"
    and fwd: "\<And>a. forward m' i a = (if a = last as then Some x else if a = x then Some (hd bs) else forward m i a)"
  shows "chain m' i (as @ x # bs)"
  unfolding chain_def successively_append_iff
proof (intro conjI)
  have *: "successively (\<lambda>a b. forward m' i a = Some b) cs"
    if "successively (\<lambda>a b. forward m i a = Some b) cs" "x \<notin> set (butlast cs)" "last as \<notin> set (butlast cs)" for cs
    using that by (induction cs rule: induct_list012) (auto simp: fwd)
  show "successively (\<lambda>a b. forward m' i a = Some b) as"
    using assms(1,4,5) by (intro *) (auto simp: chain_def successively_append_iff dest: in_set_butlastD)
  have "successively (\<lambda>a b. forward m' i a = Some b) bs"
    using assms(1,4,5) by (intro *) (auto simp: chain_def successively_append_iff)
  then show "successively (\<lambda>a b. forward m' i a = Some b) (x # bs)"
    using assms(2-4) by (auto simp: fwd successively_Cons)
  show "as = [] \<or> x # bs = [] \<or> forward m' i (last as) = Some (hd (x # bs))"
    by (simp add: fwd)
qed

lemma chain_cong: "(\<And>a. a \<in> set (butlast as) \<Longrightarrow> forward m' i a = forward m i a) \<Longrightarrow> chain m' i as \<longleftrightarrow> chain m i as"
  unfolding chain_def by (induction as rule: induct_list012) auto

section \<open>Search\<close>

definition below :: "snode mem \<Rightarrow> str_key \<Rightarrow> addr \<Rightarrow> bool" where
  "below m key a \<longleftrightarrow> (\<exists>n. cells m a = Some n \<and> key_less (sn_key n) key)"

definition not_below :: "snode mem \<Rightarrow> str_key \<Rightarrow> addr \<Rightarrow> bool" where
  "not_below m key a \<longleftrightarrow> (\<exists>n. cells m a = Some n \<and> \<not> key_less (sn_key n) key)"

lemma sl_walk_spec:
  assumes "chain m i (h # as @ bs @ [h])" and "\<forall>a \<in> set as. below m key a" and "\<forall>a \<in> set (bs @ [h]). not_below m key a"
    and "h # as = ps @ x # qs"
  shows "sl_walk m key i x = Some (last (h # as))"
  using assms(4)
proof (induction qs arbitrary: ps x)
  case Nil
  then have x: "x = last (h # as)" by simp
  have "hd (bs @ [h]) \<in> set (bs @ [h])"
    by (rule hd_in_set) simp
  with assms(3) obtain n where "cells m (hd (bs @ [h])) = Some n" "\<not> key_less (sn_key n) key"
    by (auto simp: not_below_def)
  then show ?case
    using chain_gap [OF assms(1)] unfolding x
    by (simp add: sl_walk.simps [of m key i "last (h # as)"] del: last.simps)
next
  case (Cons y qs)
  have y: "y \<in> set as"
    using Cons.prems by (cases ps) auto
  have "chain m i (ps @ x # y # qs @ bs @ [h])"
    using assms(1) Cons.prems by (metis append.assoc append_Cons)
  then have "forward m i x = Some y"
    by (rule chain_step)
  moreover have "sl_walk m key i y = Some (last (h # as))"
    using Cons.prems by (intro Cons.IH [of "ps @ [x]"]) simp
  ultimately show ?case
    using y assms(2) by (auto simp: sl_walk.simps [of m key i x] below_def)
qed

lemma sl_descend_spec:
  assumes "\<And>j. 1 \<le> j \<Longrightarrow> j \<le> i \<Longrightarrow> chain m j (h # tower j us @ tower j vs @ [h])"
    and "\<forall>a \<in> fst ` set us. below m key a" and "\<forall>a \<in> insert h (fst ` set vs). not_below m key a"
    and "x \<in> set (h # tower i us)"
  shows "sl_descend m key i x upd = Some (if i = 0 then x else last (h # tower 1 us),
    \<lambda>j. if 1 \<le> j \<and> j \<le> i then Some (last (h # tower j us)) else upd j)"
  using assms(1,4)
proof (induction i arbitrary: x upd)
  case 0
  then show ?case by auto
next
  case (Suc i)
  let ?x = "last (h # tower (Suc i) us)"
  from Suc.prems(2) obtain ps qs where "h # tower (Suc i) us = ps @ x # qs"
    by (meson split_list)
  moreover have "set (tower (Suc i) us) \<subseteq> fst ` set us" "set (tower (Suc i) vs) \<subseteq> fst ` set vs"
    by (force simp: set_tower)+
  ultimately have walk: "sl_walk m key (Suc i) x = Some ?x"
    using Suc.prems(1) [of "Suc i"] assms(2,3) by (intro sl_walk_spec [of m "Suc i" h _ "tower (Suc i) vs"]) auto
  have "?x \<in> set (h # tower (Suc i) us)"
    by (rule last_in_set) simp
  then have "?x \<in> set (h # tower i us)"
    by (auto simp: set_tower simp del: last.simps)
  with Suc.prems(1) have "sl_descend m key i ?x (upd(Suc i \<mapsto> ?x)) =
      Some (if i = 0 then ?x else last (h # tower 1 us),
        \<lambda>j. if 1 \<le> j \<and> j \<le> i then Some (last (h # tower j us)) else (upd(Suc i \<mapsto> ?x)) j)"
    by (intro Suc.IH) auto
  moreover have "(\<lambda>j. if 1 \<le> j \<and> j \<le> i then Some (last (h # tower j us)) else (upd(Suc i \<mapsto> ?x)) j) =
      (\<lambda>j. if 1 \<le> j \<and> j \<le> Suc i then Some (last (h # tower j us)) else upd j)"
    by (auto simp: le_Suc_eq fun_eq_iff simp del: last.simps)
  ultimately show ?case
    using walk by (cases i) (simp_all del: last.simps)
qed

text \<open>The place of a key: the nodes before it are smaller, the header and the others are not.\<close>

lemma sl_rep_split:
  assumes "sl_rep l xs" and "\<not> key_less key_max key"
  obtains us vs where "xs = us @ vs" and "\<forall>a \<in> fst ` set us. below (sl_mem l) key a"
    and "\<forall>a \<in> insert (sl_header l) (fst ` set vs). not_below (sl_mem l) key a"
proof -
  let ?P = "\<lambda>(a, k). key_less (node_key (sl_mem l) a) key"
  define us where "us = takeWhile ?P xs"
  define vs where "vs = dropWhile ?P xs"
  have xs: "xs = us @ vs" by (simp add: us_def vs_def)
  note parts = assms(1) [unfolded sl_rep_def]
  have live: "\<exists>n. cells (sl_mem l) a = Some n" if "(a, k) \<in> set xs" for a k
    using parts that by (fastforce simp: node_ok_def)
  have "below (sl_mem l) key a" if "(a, k) \<in> set us" for a k
    using set_takeWhileD [of "(a, k)" ?P xs] that live by (fastforce simp: us_def below_def node_key_def)
  moreover have "not_below (sl_mem l) key a" if "(a, k) \<in> set vs" for a k
  proof -
    from that obtain b j rest where vs: "vs = (b, j) # rest" by (cases vs) auto
    then have b: "\<not> key_less (node_key (sl_mem l) b) key"
      using hd_dropWhile [of ?P xs] by (auto simp: vs_def [symmetric])
    have sorted: "sorted_wrt key_less (map (node_key (sl_mem l)) (map fst vs))"
      using parts by (simp add: xs sorted_wrt_append)
    have "a = b \<or> key_less (node_key (sl_mem l) b) (node_key (sl_mem l) a)"
      using sorted that by (auto simp: vs)
    then have "\<not> key_less (node_key (sl_mem l) a) key"
      using b lexordp_trans by blast
    then show ?thesis
      using live that by (fastforce simp: xs not_below_def node_key_def)
  qed
  moreover have "not_below (sl_mem l) key (sl_header l)"
    using parts assms(2) by (auto simp: not_below_def)
  ultimately show thesis
    by (intro that [OF xs]) auto
qed

lemma sl_descend_rep:
  assumes "sl_rep l (us @ vs)" and "\<forall>a \<in> fst ` set us. below (sl_mem l) key a"
    and "\<forall>a \<in> insert (sl_header l) (fst ` set vs). not_below (sl_mem l) key a"
  shows "sl_descend (sl_mem l) key (sl_level l) (sl_header l) Map.empty =
      Some (last (sl_header l # map fst us),
        \<lambda>j. if 1 \<le> j \<and> j \<le> sl_level l then Some (last (sl_header l # tower j us)) else None)"
    and "forward (sl_mem l) 1 (last (sl_header l # map fst us)) = Some (hd (map fst vs @ [sl_header l]))"
proof -
  note parts = assms(1) [unfolded sl_rep_def]
  have chains: "chain (sl_mem l) j (sl_header l # tower j us @ tower j vs @ [sl_header l])" if "1 \<le> j" "j < MAX_L" for j
    using parts that by simp
  have t1: "tower (Suc 0) us = map fst us" "tower (Suc 0) vs = map fst vs"
    using parts by (intro tower_1; fastforce)+
  have "us = []" if "sl_level l = 0"
    using parts that by (cases us) auto
  moreover have "sl_descend (sl_mem l) key (sl_level l) (sl_header l) Map.empty =
      Some (if sl_level l = 0 then sl_header l else last (sl_header l # tower 1 us),
        \<lambda>j. if 1 \<le> j \<and> j \<le> sl_level l then Some (last (sl_header l # tower j us)) else Map.empty j)"
    using parts assms(2,3) by (intro sl_descend_spec chains) auto
  ultimately show "sl_descend (sl_mem l) key (sl_level l) (sl_header l) Map.empty =
      Some (last (sl_header l # map fst us),
        \<lambda>j. if 1 \<le> j \<and> j \<le> sl_level l then Some (last (sl_header l # tower j us)) else None)"
    by (simp add: t1 del: last.simps) auto
  show "forward (sl_mem l) 1 (last (sl_header l # map fst us)) = Some (hd (map fst vs @ [sl_header l]))"
    using chain_gap [OF chains [of 1]] by (simp add: t1 MAX_L_def del: last.simps)
qed

text \<open>The key is present exactly when the node behind the gap carries it.\<close>

lemma key_behind_gap:
  assumes "sl_rep l (us @ vs)" and "\<forall>a \<in> fst ` set us. below (sl_mem l) key a"
    and "\<forall>a \<in> insert (sl_header l) (fst ` set vs). not_below (sl_mem l) key a"
    and "(a, k) \<in> set (us @ vs)" and "node_key (sl_mem l) a = key"
  obtains rest where "vs = (a, k) # rest"
proof -
  note parts = assms(1) [unfolded sl_rep_def]
  have "(a, k) \<notin> set us"
  proof
    assume "(a, k) \<in> set us"
    then have "below (sl_mem l) key a"
      using assms(2) by force
    then show False
      using assms(5) by (auto simp: below_def node_key_def lexordp_irreflexive')
  qed
  then have a: "(a, k) \<in> set vs" using assms(4) by simp
  then obtain b j rest where vs: "vs = (b, j) # rest" by (cases vs) auto
  have "sorted_wrt key_less (map (node_key (sl_mem l)) (map fst vs))"
    using parts by (simp add: sorted_wrt_append)
  then have "(a, k) = (b, j) \<or> key_less (node_key (sl_mem l) b) key"
    using a assms(5) by (auto simp: vs)
  moreover have "\<not> key_less (node_key (sl_mem l) b) key"
    using assms(3) by (auto simp: vs not_below_def node_key_def)
  ultimately show thesis
    using that vs by auto
qed

section \<open>Finding\<close>

definition found_at :: "snode mem \<Rightarrow> (addr \<times> nat) list \<Rightarrow> str_key \<Rightarrow> addr option \<Rightarrow> bool" where
  "found_at m xs key r \<longleftrightarrow>
     (case r of None \<Rightarrow> \<forall>a \<in> fst ` set xs. node_key m a \<noteq> key | Some a \<Rightarrow> a \<in> fst ` set xs \<and> node_key m a = key)"

text \<open>What stands behind the gap decides whether the key is present.\<close>

lemma gap_cases:
  assumes "sl_rep l (us @ vs)" and "\<forall>a \<in> fst ` set us. below (sl_mem l) key a"
    and "\<forall>a \<in> insert (sl_header l) (fst ` set vs). not_below (sl_mem l) key a" and "key_less key key_max"
  obtains (present) a k rest n where "vs = (a, k) # rest" "cells (sl_mem l) a = Some n" "sn_key n = key"
  | (absent) n where "cells (sl_mem l) (hd (map fst vs @ [sl_header l])) = Some n" "sn_key n \<noteq> key"
      "\<forall>a \<in> fst ` set (us @ vs). node_key (sl_mem l) a \<noteq> key"
proof (cases "\<exists>a k. (a, k) \<in> set (us @ vs) \<and> node_key (sl_mem l) a = key")
  case True
  then obtain a k rest where "node_key (sl_mem l) a = key" "vs = (a, k) # rest"
    using key_behind_gap [OF assms(1-3)] by metis
  moreover have "\<exists>n. cells (sl_mem l) a = Some n" if "vs = (a, k) # rest"
    using assms(3) that by (auto simp: not_below_def)
  ultimately show thesis
    by (auto simp: node_key_def intro!: present)
next
  case False
  have "\<exists>n. cells (sl_mem l) (hd (map fst vs @ [sl_header l])) = Some n \<and> sn_key n \<noteq> key"
  proof (cases vs)
    case Nil
    then show ?thesis
      using assms(1,4) lexordp_irreflexive' [of key] by (auto simp: sl_rep_def)
  next
    case (Cons p rest)
    then show ?thesis
      using False assms(3) by (cases p) (fastforce simp: not_below_def node_key_def)
  qed
  with False show thesis
    by (fastforce intro!: absent)
qed

lemma skiplist_find_spec:
  assumes "sl_rep l xs" and "key_less key key_max"
  shows "returns (skiplist_find l key) (found_at (sl_mem l) xs key)"
proof (cases "sl_size l = 0")
  case True
  with assms(1) show ?thesis
    by (simp add: skiplist_find_def found_at_def sl_rep_def)
next
  case False
  obtain us vs where xs: "xs = us @ vs" and split: "\<forall>a \<in> fst ` set us. below (sl_mem l) key a"
    "\<forall>a \<in> insert (sl_header l) (fst ` set vs). not_below (sl_mem l) key a"
    using assms(1) lexordp_antisym assms(2) by (metis sl_rep_split)
  have rep: "sl_rep l (us @ vs)" using assms(1) by (simp add: xs)
  note desc = sl_descend_rep [OF rep split]
  from rep split assms(2) show ?thesis
  proof (cases rule: gap_cases)
    case (present a k rest n)
    then show ?thesis
      using False desc by (simp add: skiplist_find_def xs found_at_def node_key_def del: last.simps)
  next
    case (absent n)
    then show ?thesis
      using False desc by (simp add: skiplist_find_def xs found_at_def del: last.simps)
  qed
qed

section \<open>Linking\<close>

text \<open>Relinking changes forward cells only: everything else of a node, and the array sizes, stay.\<close>

definition skel :: "snode \<Rightarrow> snode" where
  "skel n = n\<lparr>sn_list := map (\<lambda>_. None) (sn_list n)\<rparr>"

definition same_skel :: "snode mem \<Rightarrow> snode mem \<Rightarrow> bool" where
  "same_skel m m' \<longleftrightarrow> brk m' = brk m \<and> (\<forall>a. map_option skel (cells m' a) = map_option skel (cells m a))"

lemma same_skel_refl: "same_skel m m"
  by (simp add: same_skel_def)

lemma same_skel_trans: "same_skel m m' \<Longrightarrow> same_skel m' m'' \<Longrightarrow> same_skel m m''"
  by (simp add: same_skel_def)

lemma skel_fields:
  assumes "skel n' = skel n"
  shows "sn_key n' = sn_key n" "sn_level n' = sn_level n" "sn_value n' = sn_value n"
    "length (sn_list n') = length (sn_list n)" "sn_hash_params n' = sn_hash_params n"
    "sn_params n' = sn_params n" "sn_ppa n' = sn_ppa n" "sn_etime n' = sn_etime n"
proof -
  from assms have "sn_key (skel n') = sn_key (skel n)" "sn_level (skel n') = sn_level (skel n)"
    "sn_value (skel n') = sn_value (skel n)" "length (sn_list (skel n')) = length (sn_list (skel n))"
    "sn_hash_params (skel n') = sn_hash_params (skel n)" "sn_params (skel n') = sn_params (skel n)"
    "sn_ppa (skel n') = sn_ppa (skel n)" "sn_etime (skel n') = sn_etime (skel n)"
    by simp_all
  then show "sn_key n' = sn_key n" "sn_level n' = sn_level n" "sn_value n' = sn_value n"
    "length (sn_list n') = length (sn_list n)" "sn_hash_params n' = sn_hash_params n"
    "sn_params n' = sn_params n" "sn_ppa n' = sn_ppa n" "sn_etime n' = sn_etime n"
    by (simp_all add: skel_def)
qed

lemma same_skel_live:
  assumes "same_skel m m'" and "cells m a = Some n"
  obtains n' where "cells m' a = Some n'" "skel n' = skel n"
proof -
  have "map_option skel (cells m' a) = Some (skel n)"
    using assms by (simp add: same_skel_def)
  then show thesis
    using that by auto
qed

lemma same_skel_wf: "same_skel m m' \<Longrightarrow> mem_wf m \<Longrightarrow> mem_wf m'"
  unfolding same_skel_def mem_wf_def by (metis map_option_is_None)

lemma forward_Some_length: "forward m i x = Some y \<Longrightarrow> \<exists>n. cells m x = Some n \<and> i < length (sn_list n)"
  by (auto simp: forward_def bind_Some_iff split: if_splits)

lemma set_forward_returns:
  assumes "cells m x = Some n" and "i < length (sn_list n)"
  shows "returns (set_forward i x y m) (\<lambda>m'. same_skel m m' \<and>
    (\<forall>j a. forward m' j a = (if j = i \<and> a = x then y else forward m j a)))"
  using assms
  by (auto simp: set_forward_def same_skel_def skel_def forward_def map_update nth_list_update
      intro!: nth_equalityI snode.equality split: option.splits)

lemma sl_link_returns:
  assumes "upd i = Some u" and "u \<noteq> x" and "forward m i u = Some y" and "cells m x = Some n" and "i < length (sn_list n)"
  shows "returns (sl_link x upd i m) (\<lambda>m'. same_skel m m' \<and>
    (\<forall>j a. forward m' j a = (if j = i \<and> a = u then Some x else if j = i \<and> a = x then Some y else forward m j a)))"
proof -
  obtain m1 where m1: "set_forward i x (Some y) m = Some m1" "same_skel m m1"
    "\<And>j a. forward m1 j a = (if j = i \<and> a = x then Some y else forward m j a)"
    using set_forward_returns [OF assms(4,5), of "Some y"] by (auto elim: returnsE)
  obtain nu where nu: "cells m u = Some nu" "i < length (sn_list nu)"
    using forward_Some_length [OF assms(3)] by auto
  obtain nu' where nu': "cells m1 u = Some nu'" "skel nu' = skel nu"
    using m1(2) nu(1) by (rule same_skel_live)
  have eq: "sl_link x upd i m = set_forward i u (Some x) m1"
    using assms(1,3) m1(1) by (simp add: sl_link_def)
  have "returns (set_forward i u (Some x) m1) (\<lambda>m'. same_skel m1 m' \<and>
    (\<forall>j a. forward m' j a = (if j = i \<and> a = u then Some x else forward m1 j a)))"
    using nu(2) skel_fields(4) [OF nu'(2)] by (intro set_forward_returns [OF nu'(1)]) simp
  then show ?thesis
    unfolding eq
  proof (rule returns_mono, elim conjE, intro conjI)
    fix m'
    assume "same_skel m1 m'"
    with m1(2) show "same_skel m m'" by (rule same_skel_trans)
  qed (simp add: m1(3))
qed

lemma sl_link_all_returns:
  assumes "distinct is" and "\<forall>i \<in> set is. upd i = Some (u i) \<and> u i \<noteq> x \<and> forward m i (u i) = Some (y i)"
    and "cells m x = Some n" and "\<forall>i \<in> set is. i < length (sn_list n)"
  shows "returns (sl_link_all x upd is m) (\<lambda>m'. same_skel m m' \<and>
    (\<forall>j a. forward m' j a = (if j \<in> set is \<and> a = u j then Some x
        else if j \<in> set is \<and> a = x then Some (y j) else forward m j a)))"
  using assms
proof (induction "is" arbitrary: m n)
  case Nil
  then show ?case by (simp add: same_skel_refl)
next
  case (Cons i "is")
  obtain m1 where m1: "sl_link x upd i m = Some m1" "same_skel m m1"
    "\<And>j a. forward m1 j a = (if j = i \<and> a = u i then Some x else if j = i \<and> a = x then Some (y i) else forward m j a)"
    using sl_link_returns [of upd i "u i" x m "y i" n] Cons.prems by (auto elim: returnsE)
  obtain n1 where n1: "cells m1 x = Some n1" "skel n1 = skel n"
    using m1(2) Cons.prems(3) by (rule same_skel_live)
  have "returns (sl_link_all x upd is m1) (\<lambda>m'. same_skel m1 m' \<and>
    (\<forall>j a. forward m' j a = (if j \<in> set is \<and> a = u j then Some x
        else if j \<in> set is \<and> a = x then Some (y j) else forward m1 j a)))"
    using Cons.prems n1 skel_fields(4) [OF n1(2)] m1(3) by (intro Cons.IH [of m1 n1]) auto
  then have "returns (sl_link_all x upd is m1) (\<lambda>m'. same_skel m m' \<and>
    (\<forall>j a. forward m' j a = (if j \<in> set (i # is) \<and> a = u j then Some x
        else if j \<in> set (i # is) \<and> a = x then Some (y j) else forward m j a)))"
  proof (rule returns_mono, elim conjE, intro conjI)
    fix m'
    assume "same_skel m1 m'"
    with m1(2) show "same_skel m m'" by (rule same_skel_trans)
  qed (use Cons.prems(1) in \<open>simp add: m1(3)\<close>)
  with m1(1) show ?case by simp
qed

section \<open>Insertion\<close>

text \<open>The sorted association list behind the skip list.\<close>

fun ins_item :: "str_key \<Rightarrow> 'v \<Rightarrow> (str_key \<times> 'v) list \<Rightarrow> (str_key \<times> 'v) list" where
  "ins_item k v [] = [(k, v)]"
| "ins_item k v ((k', v') # r) =
     (if key_less k' k then (k', v') # ins_item k v r else if k' = k then (k, v) # r else (k, v) # (k', v') # r)"

lemma ins_item_append: "\<forall>p \<in> set as. key_less (fst p) k \<Longrightarrow> ins_item k v (as @ bs) = as @ ins_item k v bs"
  by (induction as) auto

lemma map_of_ins_item:
  "sorted_wrt key_less (map fst xs) \<Longrightarrow> map_of (ins_item k v xs) = (map_of xs)(k \<mapsto> v)"
  by (induction xs) (auto simp: lexordp_irreflexive' fun_upd_twist)

text \<open>The part of a node that the representation reads besides its links.\<close>

definition info :: "snode \<Rightarrow> str_key \<times> nat \<times> nat \<times> value_set option" where
  "info n = (sn_key n, sn_level n, length (sn_list n), sn_value n)"

definition sl_items :: "snode mem \<Rightarrow> (addr \<times> nat) list \<Rightarrow> (str_key \<times> value_set) list" where
  "sl_items m xs = map (\<lambda>(a, k). (node_key m a, the (sn_value (the (cells m a))))) xs"

lemma skel_info: "skel n' = skel n \<Longrightarrow> info n' = info n"
  unfolding info_def by (simp only: skel_fields(1-4) [of n' n])

lemma same_skel_info: "same_skel m m' \<Longrightarrow> map_option info (cells m' a) = map_option info (cells m a)"
proof -
  assume "same_skel m m'"
  then have "map_option skel (cells m' a) = map_option skel (cells m a)"
    by (simp add: same_skel_def)
  then show "map_option info (cells m' a) = map_option info (cells m a)"
    by (cases "cells m a"; cases "cells m' a") (auto intro: skel_info)
qed

lemma info_live:
  assumes "map_option info (cells m' a) = map_option info (cells m a)" and "cells m a = Some n"
  obtains n' where "cells m' a = Some n'" "sn_key n' = sn_key n" "sn_level n' = sn_level n"
    "length (sn_list n') = length (sn_list n)" "sn_value n' = sn_value n"
  using assms by (auto simp: info_def)

lemma info_same:
  assumes "cells m a \<noteq> None" and "map_option info (cells m' a) = map_option info (cells m a)"
  shows "node_key m' a = node_key m a" and "the (sn_value (the (cells m' a))) = the (sn_value (the (cells m a)))"
  using assms by (auto simp: info_def node_key_def)

lemma sl_items_cong:
  assumes "\<And>a. a \<in> fst ` set xs \<Longrightarrow> cells m a \<noteq> None \<and> map_option info (cells m' a) = map_option info (cells m a)"
  shows "sl_items m' xs = sl_items m xs"
proof -
  have "node_key m' a = node_key m a \<and> the (sn_value (the (cells m' a))) = the (sn_value (the (cells m a)))"
    if "a \<in> fst ` set xs" for a
    using assms [OF that] by (intro conjI info_same) auto
  then show ?thesis
    unfolding sl_items_def by (intro map_cong refl) force
qed

lemma sl_rep_live: "sl_rep l xs \<Longrightarrow> a \<in> insert (sl_header l) (fst ` set xs) \<Longrightarrow> \<exists>n. cells (sl_mem l) a = Some n"
  by (fastforce simp: sl_rep_def node_ok_def)

lemma sl_rep_node: "sl_rep l xs \<Longrightarrow> (a, k) \<in> set xs \<Longrightarrow> 1 \<le> k \<and> k \<le> sl_level l \<and> node_ok (sl_mem l) a k"
  unfolding sl_rep_def by blast

lemma sl_rep_chain: "sl_rep l xs \<Longrightarrow> 1 \<le> i \<Longrightarrow> i < MAX_L \<Longrightarrow> chain (sl_mem l) i (sl_header l # tower i xs @ [sl_header l])"
  unfolding sl_rep_def by blast

lemma sl_rep_cong:
  assumes rep: "sl_rep l xs" and "mem_wf m'" and fwd: "\<And>i a. forward m' i a = forward (sl_mem l) i a"
    and node: "\<And>a. a \<in> insert (sl_header l) (fst ` set xs) \<Longrightarrow> map_option info (cells m' a) = map_option info (cells (sl_mem l) a)"
    and l': "sl_mem l' = m'" "sl_size l' = sl_size l" "sl_level l' = sl_level l" "sl_header l' = sl_header l"
  shows "sl_rep l' xs"
proof -
  note parts = rep [unfolded sl_rep_def]
  have "node_key m' a = node_key (sl_mem l) a" if "a \<in> insert (sl_header l) (fst ` set xs)" for a
    using sl_rep_live [OF rep that] node [OF that] by (intro info_same) auto
  then have "map (node_key m') (map fst xs @ [sl_header l]) = map (node_key (sl_mem l)) (map fst xs @ [sl_header l])"
    by (intro map_cong refl) auto
  then have sorted: "sorted_wrt key_less (map (node_key m') (map fst xs @ [sl_header l]))"
    using parts by metis
  obtain hn where hn: "cells (sl_mem l) (sl_header l) = Some hn" "sn_key hn = key_max" "sn_value hn = None" "length (sn_list hn) = MAX_L + 1"
    using parts by auto
  then obtain hn' where hn': "cells m' (sl_header l) = Some hn'" "sn_key hn' = key_max" "sn_value hn' = None" "length (sn_list hn') = MAX_L + 1"
    using node [of "sl_header l"] by (auto simp: info_def)
  have ok: "node_ok m' a k" if "(a, k) \<in> set xs" for a k
  proof -
    from parts that obtain n where n: "cells (sl_mem l) a = Some n" "sn_level n = k" "length (sn_list n) = k + 1" "sn_value n \<noteq> None"
      by (fastforce simp: node_ok_def)
    then show ?thesis
      using node [of a] that by (force simp: node_ok_def info_def)
  qed
  have chain: "chain m' i as = chain (sl_mem l) i as" for i as
    by (rule chain_cong) (rule fwd)
  show ?thesis
    unfolding sl_rep_def l' using parts assms(2) hn' ok sorted
    by (intro conjI) (auto simp: chain simp del: map_append)
qed

lemma level_loop_bounds: "1 \<le> level \<Longrightarrow> level + 1 < MAX_L \<Longrightarrow> 1 \<le> level_loop n level draws k \<and> level_loop n level draws k < MAX_L"
  by (induction n arbitrary: level k) (auto simp: MAX_L_def)

lemma getLevel_bounds: "1 \<le> getLevel draws" "getLevel draws < MAX_L"
  using level_loop_bounds [of 1 MAX_L draws 0] by (simp_all add: getLevel_def MAX_L_def)

text \<open>A node linked in at the gap of every level up to its own.\<close>

lemma sl_rep_grow:
  assumes rep: "sl_rep l (us @ vs)" and wf: "mem_wf m'" and L: "1 \<le> L" "L < MAX_L"
    and new: "new \<notin> insert (sl_header l) (fst ` set (us @ vs))"
    and lower: "\<forall>a \<in> fst ` set us. below (sl_mem l) key a"
    and upper: "\<forall>a \<in> insert (sl_header l) (fst ` set vs). not_below (sl_mem l) key a \<and> node_key (sl_mem l) a \<noteq> key"
    and node: "\<And>a. a \<noteq> new \<Longrightarrow> map_option info (cells m' a) = map_option info (cells (sl_mem l) a)"
    and new_node: "map_option info (cells m' new) = Some (key, L, L + 1, Some v)"
    and fwd: "\<And>i a. forward m' i a =
      (if 1 \<le> i \<and> i \<le> L \<and> a = last (sl_header l # tower i us) then Some new
       else if 1 \<le> i \<and> i \<le> L \<and> a = new then Some (hd (tower i vs @ [sl_header l])) else forward (sl_mem l) i a)"
    and l': "sl_mem l' = m'" "sl_size l' = Suc (sl_size l)" "sl_level l' = max L (sl_level l)" "sl_header l' = sl_header l"
  shows "sl_rep l' (us @ (new, L) # vs)"
    and "sl_items m' (us @ (new, L) # vs) = ins_item key v (sl_items (sl_mem l) (us @ vs))"
proof -
  let ?h = "sl_header l" and ?m = "sl_mem l"
  note parts = rep [unfolded sl_rep_def]
  have live: "\<exists>n. cells ?m a = Some n" if "a \<in> insert ?h (fst ` set (us @ vs))" for a
    using rep that by (rule sl_rep_live)
  have key: "node_key m' a = node_key ?m a" if "a \<in> insert ?h (fst ` set (us @ vs))" for a
    using live [OF that] node [of a] new that by (intro info_same) auto
  have new_key: "node_key m' new = key"
    using new_node by (auto simp: info_def node_key_def)
  have chain: "chain m' i (?h # tower i (us @ (new, L) # vs) @ [?h])" if i: "1 \<le> i" "i < MAX_L" for i
  proof -
    have old: "chain ?m i ((?h # tower i us) @ (tower i vs @ [?h]))"
      using parts i by simp
    have sub: "set (tower i us) \<subseteq> fst ` set us" "set (tower i vs) \<subseteq> fst ` set vs"
      by (force simp: set_tower)+
    show ?thesis
    proof (cases "i \<le> L")
      case True
      have d: "distinct (?h # tower i us @ tower i vs)"
        using parts sub distinct_tower [of "us @ vs" i] by auto
      have bl: "butlast (?h # tower i us) @ [last (?h # tower i us)] = ?h # tower i us"
        by (rule append_butlast_last_id) simp
      have "last (?h # tower i us) \<notin> set (butlast (?h # tower i us))"
        using d bl by (metis append_Cons distinct_append not_distinct_conv_prefix)
      moreover have "last (?h # tower i us) \<in> set (?h # tower i us)"
        by (rule last_in_set) simp
      ultimately have "chain m' i ((?h # tower i us) @ new # (tower i vs @ [?h]))"
        using new sub d True i
        by (intro chain_insert [OF old]) (auto simp: fwd butlast_snoc simp del: last.simps butlast.simps dest: in_set_butlastD)
      with True show ?thesis by simp
    next
      case False
      have "chain m' i ((?h # tower i us) @ (tower i vs @ [?h])) = chain ?m i ((?h # tower i us) @ (tower i vs @ [?h]))"
        using False by (intro chain_cong) (simp add: fwd del: last.simps)
      with old False show ?thesis by simp
    qed
  qed
  have sorted: "sorted_wrt key_less (map (node_key m') (map fst (us @ (new, L) # vs) @ [?h]))"
  proof -
    have eq: "map (node_key m') (map fst us) = map (node_key ?m) (map fst us)"
      "map (node_key m') (map fst vs @ [?h]) = map (node_key ?m) (map fst vs @ [?h])"
      using key by (intro map_cong refl; auto)+
    have old: "sorted_wrt key_less (map (node_key ?m) (map fst us) @ map (node_key ?m) (map fst vs @ [?h]))"
      using parts by (metis map_append append.assoc)
    have lo: "key_less x key" if "x \<in> set (map (node_key ?m) (map fst us))" for x
      using lower that by (auto simp: below_def node_key_def)
    have up: "key_less key x" if "x \<in> set (map (node_key ?m) (map fst vs @ [?h]))" for x
    proof -
      from that obtain a where a: "a \<in> insert ?h (fst ` set vs)" "x = node_key ?m a"
        by auto
      then have "\<not> key_less x key" "x \<noteq> key"
        using upper by (auto simp: not_below_def node_key_def)
      then show ?thesis using lexordp_linear by blast
    qed
    have "sorted_wrt key_less (map (node_key m') (map fst us) @ key # map (node_key m') (map fst vs @ [?h]))"
      unfolding eq using old lo up by (auto simp only: sorted_wrt_append sorted_wrt.simps list.set Un_iff insert_iff)
    then show ?thesis
      by (simp add: new_key)
  qed
  have ok: "node_ok m' a k" if "(a, k) \<in> set (us @ vs)" for a k
  proof -
    from parts that obtain n where n: "cells ?m a = Some n" "sn_level n = k" "length (sn_list n) = k + 1" "sn_value n \<noteq> None"
      by (fastforce simp: node_ok_def)
    have "a \<noteq> new" using that new by force
    with n show ?thesis
      using node [of a] by (auto simp: node_ok_def info_def)
  qed
  have ok_new: "node_ok m' new L"
    using new_node by (auto simp: node_ok_def info_def)
  obtain hn where hn: "cells ?m ?h = Some hn" "sn_key hn = key_max" "sn_value hn = None" "length (sn_list hn) = MAX_L + 1"
    using parts by auto
  then obtain hn' where hn': "cells m' ?h = Some hn'" "sn_key hn' = key_max" "sn_value hn' = None" "length (sn_list hn') = MAX_L + 1"
    using node [of ?h] new by (auto simp: info_def)
  have levels: "1 \<le> k \<and> k \<le> max L (sl_level l) \<and> node_ok m' a k" if "(a, k) \<in> set (us @ (new, L) # vs)" for a k
  proof (cases "(a, k) \<in> set (us @ vs)")
    case True
    then show ?thesis using sl_rep_node [OF rep True] ok [OF True] by auto
  next
    case False
    then have "a = new" "k = L" using that by auto
    then show ?thesis using ok_new L by simp
  qed
  show "sl_rep l' (us @ (new, L) # vs)"
    unfolding sl_rep_def l'
  proof (intro conjI)
    show "distinct (map fst (us @ (new, L) # vs))" using parts new by auto
    show "?h \<notin> fst ` set (us @ (new, L) # vs)" using parts new by auto
    show "Suc (sl_size l) = length (us @ (new, L) # vs)" using parts by simp
    show "max L (sl_level l) < MAX_L" using parts L by simp
    show "\<exists>hn. cells m' ?h = Some hn \<and> sn_key hn = key_max \<and> sn_value hn = None \<and> length (sn_list hn) = MAX_L + 1" using hn' by blast
    show "\<forall>(a, k) \<in> set (us @ (new, L) # vs). 1 \<le> k \<and> k \<le> max L (sl_level l) \<and> node_ok m' a k" using levels by blast
    show "\<forall>i. 1 \<le> i \<longrightarrow> i < MAX_L \<longrightarrow> chain m' i (?h # tower i (us @ (new, L) # vs) @ [?h])" using chain by blast
  qed (use wf sorted in simp_all)
  have same: "sl_items m' us = sl_items ?m us" "sl_items m' vs = sl_items ?m vs"
  proof -
    have "cells ?m a \<noteq> None \<and> map_option info (cells m' a) = map_option info (cells ?m a)"
      if "a \<in> fst ` set us \<or> a \<in> fst ` set vs" for a
      using live [of a] node [of a] new that by auto
    then show "sl_items m' us = sl_items ?m us" "sl_items m' vs = sl_items ?m vs"
      by (intro sl_items_cong; blast intro: UnI1 UnI2)+
  qed
  have "the (sn_value (the (cells m' new))) = v"
    using new_node by (auto simp: info_def)
  then have items: "sl_items m' (us @ (new, L) # vs) = sl_items ?m us @ (key, v) # sl_items ?m vs"
    using same new_key by (simp add: sl_items_def)
  have "ins_item key v (sl_items ?m vs) = (key, v) # sl_items ?m vs"
    using upper by (cases vs) (auto simp: sl_items_def not_below_def node_key_def)
  moreover have "\<forall>p \<in> set (sl_items ?m us). key_less (fst p) key"
    using lower by (force simp: sl_items_def below_def node_key_def)
  ultimately show "sl_items m' (us @ (new, L) # vs) = ins_item key v (sl_items ?m (us @ vs))"
    using ins_item_append [of "sl_items ?m us" key v "sl_items ?m vs"]
    by (simp add: items) (simp add: sl_items_def)
qed

text \<open>A new value for a present key.\<close>

lemma sl_rep_replace:
  assumes rep: "sl_rep l (us @ (a, k) # vs)" and a: "cells (sl_mem l) a = Some n" "sn_key n = key"
    and lower: "\<forall>a \<in> fst ` set us. below (sl_mem l) key a"
    and l': "sl_mem l' = (sl_mem l)\<lparr>cells := (cells (sl_mem l))(a \<mapsto> n\<lparr>sn_value := Some v, sn_isvalid := f\<rparr>)\<rparr>"
      "sl_size l' = sl_size l" "sl_level l' = sl_level l" "sl_header l' = sl_header l"
  shows "sl_rep l' (us @ (a, k) # vs)"
    and "sl_items (sl_mem l') (us @ (a, k) # vs) = ins_item key v (sl_items (sl_mem l) (us @ (a, k) # vs))"
proof -
  let ?h = "sl_header l" and ?m = "sl_mem l"
  let ?m' = "?m\<lparr>cells := (cells ?m)(a \<mapsto> n\<lparr>sn_value := Some v, sn_isvalid := f\<rparr>)\<rparr>"
  note parts = rep [unfolded sl_rep_def]
  have fwd: "forward ?m' i b = forward ?m i b" for i b
    using a by (simp add: forward_def)
  have keys: "node_key ?m' b = node_key ?m b" for b
    using a by (simp add: node_key_def)
  have chain: "chain ?m' i as = chain ?m i as" for i as
    by (rule chain_cong) (rule fwd)
  have wf: "mem_wf ?m'" using parts a by (auto intro: mem_wf_upd_live)
  have ok: "node_ok ?m' b j" if "(b, j) \<in> set (us @ (a, k) # vs)" for b j
  proof -
    from parts that have "node_ok ?m b j" by fastforce
    with a show ?thesis by (auto simp: node_ok_def)
  qed
  have "a \<noteq> ?h" using parts by auto
  have "1 \<le> j \<and> j \<le> sl_level l \<and> node_ok ?m' b j" if "(b, j) \<in> set (us @ (a, k) # vs)" for b j
    using sl_rep_node [OF rep that] ok [OF that] by simp
  then have "\<forall>(b, j) \<in> set (us @ (a, k) # vs). 1 \<le> j \<and> j \<le> sl_level l \<and> node_ok ?m' b j"
    by blast
  then show "sl_rep l' (us @ (a, k) # vs)"
    unfolding sl_rep_def l' chain keys using parts wf \<open>a \<noteq> ?h\<close> by (intro conjI) (simp_all del: map_append)
  have others: "a \<notin> fst ` set us" "a \<notin> fst ` set vs"
    using parts by auto
  have "sl_items ?m' us = sl_items ?m us" "sl_items ?m' vs = sl_items ?m vs"
    using others unfolding sl_items_def keys by (intro map_cong refl; force)+
  moreover have "ins_item key v (sl_items ?m (us @ (a, k) # vs)) = sl_items ?m us @ (key, v) # sl_items ?m vs"
  proof -
    have "\<forall>p \<in> set (sl_items ?m us). key_less (fst p) key"
      using lower by (force simp: sl_items_def below_def node_key_def)
    then show ?thesis
      using ins_item_append [of "sl_items ?m us" key v "sl_items ?m ((a, k) # vs)"] a
      by (simp add: sl_items_def node_key_def lexordp_irreflexive')
  qed
  ultimately show "sl_items (sl_mem l') (us @ (a, k) # vs) = ins_item key v (sl_items ?m (us @ (a, k) # vs))"
    unfolding l' using a by (simp add: sl_items_def node_key_def)
qed

definition norm_value :: "value_set \<Rightarrow> value_set" where
  "norm_value v = v\<lparr>vs_length := pieces (vs_length v)\<rparr>"

lemma skiplist_insert_refines:
  assumes rep: "sl_rep l xs" and key: "key_less key key_max"
  shows "returns (skiplist_insert draws l key (Some v) f) (\<lambda>(a, l'). \<exists>xs'. sl_rep l' xs' \<and>
    a \<in> fst ` set xs' \<and> node_key (sl_mem l') a = key \<and>
    sl_items (sl_mem l') xs' = ins_item key (norm_value v) (sl_items (sl_mem l) xs))"
proof -
  let ?h = "sl_header l" and ?m = "sl_mem l"
  obtain us vs where xs: "xs = us @ vs" and split: "\<forall>a \<in> fst ` set us. below ?m key a"
    "\<forall>a \<in> insert ?h (fst ` set vs). not_below ?m key a"
    using rep lexordp_antisym key by (metis sl_rep_split)
  have rep': "sl_rep l (us @ vs)" using rep by (simp add: xs)
  note parts = rep' [unfolded sl_rep_def]
  note desc = sl_descend_rep [OF rep' split]
  from rep' split key show ?thesis
  proof (cases rule: gap_cases)
    case (present a k rest n)
    obtain old where old: "sn_value n = Some old"
      using parts present by (auto simp: node_ok_def)
    let ?l' = "l\<lparr>sl_mem := ?m\<lparr>cells := (cells ?m)(a \<mapsto> n\<lparr>sn_value := Some (norm_value v), sn_isvalid := f\<rparr>)\<rparr>,
      sl_data_size := sl_data_size l - of_nat (vs_length old * PIECE) + of_nat (vs_length (norm_value v) * PIECE)\<rparr>"
    have "skiplist_insert draws l key (Some v) f = Some (a, ?l')"
      using desc present old by (simp add: skiplist_insert_def norm_value_def del: last.simps)
    moreover have rep_a: "sl_rep l (us @ (a, k) # rest)"
      using rep' present(1) by simp
    moreover have "sl_rep ?l' (us @ (a, k) # rest)"
      by (rule sl_rep_replace(1) [OF rep_a present(2,3) split(1), where v = "norm_value v" and f = f]) simp_all
    moreover have "sl_items (sl_mem ?l') (us @ (a, k) # rest) = ins_item key (norm_value v) (sl_items ?m (us @ (a, k) # rest))"
      by (rule sl_rep_replace(2) [OF rep_a present(2,3) split(1), where v = "norm_value v" and f = f]) simp_all
    moreover have "node_key (sl_mem ?l') a = key"
      using present by (simp add: node_key_def)
    ultimately show ?thesis
      using present(1) by (auto simp: xs returns_def intro!: exI [of _ "us @ (a, k) # rest"])
  next
    case (absent n)
    let ?L = "getLevel draws" and ?new = "brk ?m"
    let ?node = "blank_snode\<lparr>sn_key := key, sn_isvalid := f, sn_ppa := UINT32_MAX, sn_value := Some (norm_value v),
      sn_lpa := UINT32_MAX, sn_list := replicate (?L + 1) None\<rparr>"
    let ?mn = "?m\<lparr>cells := (cells ?m)(?new \<mapsto> ?node), brk := Suc ?new\<rparr>"
    let ?u = "\<lambda>i. last (?h # tower i us)" and ?y = "\<lambda>i. hd (tower i vs @ [?h])"
    let ?upd = "\<lambda>j. if 1 \<le> j \<and> j \<le> sl_level l then Some (?u j) else None"
    let ?upd' = "if ?L > sl_level l then (\<lambda>i. if sl_level l < i \<and> i \<le> ?L then Some ?h else ?upd i) else ?upd"
    note L = getLevel_bounds [of draws]
    have wf: "mem_wf ?m" using parts by simp
    have dead: "cells ?m ?new = None" using wf by (rule mem_wf_fresh)
    have new: "?new \<notin> insert ?h (fst ` set (us @ vs))"
      using sl_rep_live [OF rep', of ?new] dead by auto
    have fwd0: "forward ?mn i a = forward ?m i a" for i a
      using dead by (simp add: forward_def del: replicate_Suc)
    have u_in: "?u i \<in> insert ?h (fst ` set (us @ vs))" for i
    proof -
      have "?u i \<in> set (?h # tower i us)" by (rule last_in_set) simp
      then show ?thesis by (force simp: set_tower simp del: last.simps)
    qed
    have upd': "?upd' i = Some (?u i)" if "1 \<le> i" "i \<le> ?L" for i
    proof (cases "i \<le> sl_level l")
      case False
      then have "tower i us = []"
        using sl_rep_node [OF rep'] by (intro tower_empty) force
      with False that show ?thesis by simp
    qed (use that in \<open>simp del: last.simps\<close>)
    have gap: "forward ?mn i (?u i) = Some (?y i)" if "1 \<le> i" "i \<le> ?L" for i
    proof -
      have "i < MAX_L" using that L by simp
      then have "chain ?m i (?h # tower i us @ tower i vs @ [?h])"
        using parts that by simp
      then show ?thesis unfolding fwd0 by (rule chain_gap)
    qed
    have "returns (sl_link_all ?new ?upd' [1..<Suc ?L] ?mn) (\<lambda>m'. same_skel ?mn m' \<and>
      (\<forall>j a. forward m' j a = (if j \<in> set [1..<Suc ?L] \<and> a = ?u j then Some ?new
        else if j \<in> set [1..<Suc ?L] \<and> a = ?new then Some (?y j) else forward ?mn j a)))"
    proof (rule sl_link_all_returns)
      show "\<forall>i \<in> set [1..<Suc ?L]. ?upd' i = Some (?u i) \<and> ?u i \<noteq> ?new \<and> forward ?mn i (?u i) = Some (?y i)"
      proof (intro ballI conjI)
        fix i assume i: "i \<in> set [1..<Suc ?L]"
        then have i': "1 \<le> i" "i \<le> ?L" by auto
        show "?upd' i = Some (?u i)" using i' by (rule upd')
        show "?u i \<noteq> ?new" using u_in [of i] new by metis
        show "forward ?mn i (?u i) = Some (?y i)" using i' by (rule gap)
      qed
      show "cells ?mn ?new = Some ?node" by simp
    qed auto
    then obtain m1 where m1: "sl_link_all ?new ?upd' [1..<Suc ?L] ?mn = Some m1" "same_skel ?mn m1"
      and links: "\<forall>j a. forward m1 j a = (if j \<in> set [1..<Suc ?L] \<and> a = ?u j then Some ?new
        else if j \<in> set [1..<Suc ?L] \<and> a = ?new then Some (?y j) else forward ?mn j a)"
      by (rule returnsE) blast
    have fwd1: "forward m1 j a = (if 1 \<le> j \<and> j \<le> ?L \<and> a = ?u j then Some ?new
        else if 1 \<le> j \<and> j \<le> ?L \<and> a = ?new then Some (?y j) else forward ?m j a)" for j a
    proof -
      have "j \<in> set [1..<Suc ?L] \<longleftrightarrow> 1 \<le> j \<and> j \<le> ?L"
        by (simp only: set_upt atLeastLessThan_iff less_Suc_eq_le)
      then show ?thesis by (simp only: links fwd0 conj_assoc)
    qed
    let ?yy = "hd (map fst vs @ [?h])"
    have "tower (Suc 0) vs = map fst vs"
      using sl_rep_node [OF rep'] by (intro tower_1) force
    then have y1: "forward m1 1 ?new = Some ?yy"
      using L u_in [of 1] new by (metis One_nat_def fwd1 le_refl)
    have yy_in: "?yy \<in> insert ?h (fst ` set (us @ vs))" by (cases vs) auto
    then have yy: "?yy \<noteq> ?new" using new by metis
    have wf1: "mem_wf m1"
      using m1(2) mem_wf_alloc [OF wf] by (rule same_skel_wf)
    obtain nn where nn: "cells m1 ?new = Some nn" "skel nn = skel ?node"
      using m1(2) by (rule same_skel_live [where a = ?new and n = ?node]) simp
    obtain yn where yn: "cells m1 ?yy = Some yn"
      using m1(2) absent(1) yy by (auto elim: same_skel_live [where a = ?yy and n = n])
    let ?c = "(cells m1)(?new \<mapsto> nn\<lparr>sn_back := sn_back yn, sn_level := ?L\<rparr>, ?yy \<mapsto> yn\<lparr>sn_back := Some ?new\<rparr>)"
    let ?m' = "m1\<lparr>cells := ?c\<rparr>"
    let ?l' = "l\<lparr>sl_level := (if ?L > sl_level l then ?L else sl_level l),
         sl_all_length := sl_all_length l + of_nat (length key + 4), sl_mem := ?m',
         sl_size := sl_size l + 1, sl_data_size := sl_data_size l + of_nat (vs_length (norm_value v) * PIECE)\<rparr>"
    have result: "skiplist_insert draws l key (Some v) f = Some (?new, ?l')"
      using desc absent(1,2) m1(1) y1 nn(1) yn yy
      by (simp add: skiplist_insert_def norm_value_def malloc_def fun_upd_twist [of ?yy ?new] eq_commute [of key] Let_def
          del: last.simps upt_Suc replicate_Suc cong: if_cong)
    have fwd': "forward ?m' i a = forward m1 i a" for i a
      using nn(1) yn by (simp add: forward_def)
    have wf': "mem_wf ?m'"
      using wf1 nn(1) yn by (auto intro!: mem_wf_upd_live simp: mem_wf_def)
    have upper: "\<forall>a \<in> insert ?h (fst ` set vs). not_below ?m key a \<and> node_key ?m a \<noteq> key"
    proof -
      have "node_key ?m ?h \<noteq> key"
        using parts key lexordp_irreflexive' [of key] by (auto simp: node_key_def)
      with absent(3) split(2) show ?thesis by auto
    qed
    have node: "map_option info (cells ?m' a) = map_option info (cells ?m a)" if "a \<noteq> ?new" for a
    proof -
      have "map_option info (cells m1 a) = map_option info (cells ?m a)"
        using same_skel_info [OF m1(2), of a] that by simp
      then show ?thesis using that yn by (auto simp: info_def)
    qed
    have new_node: "map_option info (cells ?m' ?new) = Some (key, ?L, ?L + 1, Some (norm_value v))"
      using yy skel_fields [OF nn(2)] by (simp add: info_def)
    have fwd: "forward ?m' i a =
      (if 1 \<le> i \<and> i \<le> ?L \<and> a = last (sl_header l # tower i us) then Some ?new
       else if 1 \<le> i \<and> i \<le> ?L \<and> a = ?new then Some (hd (tower i vs @ [sl_header l])) else forward (sl_mem l) i a)" for i a
      unfolding fwd' by (rule fwd1)
    note grow = sl_rep_grow [OF rep' wf' L new split(1) upper node new_node fwd, of ?l']
    have "sl_rep ?l' (us @ (?new, ?L) # vs)"
      by (rule grow(1)) (simp_all add: max_def)
    moreover have "sl_items ?m' (us @ (?new, ?L) # vs) = ins_item key (norm_value v) (sl_items ?m (us @ vs))"
      by (rule grow(2)) (simp_all add: max_def)
    ultimately have "sl_rep ?l' (us @ (?new, ?L) # vs) \<and>
      sl_items (sl_mem ?l') (us @ (?new, ?L) # vs) = ins_item key (norm_value v) (sl_items ?m (us @ vs))"
      by simp
    moreover have "node_key (sl_mem ?l') ?new = key"
      using yy skel_fields(1) [OF nn(2)] by (simp add: node_key_def)
    ultimately have "\<exists>xs'. sl_rep ?l' xs' \<and> ?new \<in> fst ` set xs' \<and> node_key (sl_mem ?l') ?new = key \<and>
      sl_items (sl_mem ?l') xs' = ins_item key (norm_value v) (sl_items ?m (us @ vs))"
      by (intro exI [of _ "us @ (?new, ?L) # vs"]) auto
    then show ?thesis
      by (simp only: result xs returns_simps prod.case)
  qed
qed

lemma skiplist_init_rep: "sl_rep (skiplist_init g) []"
proof -
  have "chain (sl_mem (skiplist_init g)) i [0, 0]" if "i < MAX_L" for i
    using that by (simp add: chain_def skiplist_init_def forward_def malloc_def empty_mem_def nth_append)
  then show ?thesis
    by (simp add: sl_rep_def) (simp add: skiplist_init_def malloc_def empty_mem_def mem_wf_def blank_snode_def MAX_L_def)
qed

section \<open>The iterator\<close>

lemma skiplist_get_next_spec:
  assumes "sl_rep l (us @ vs)"
  shows "skiplist_get_next l (last (sl_header l # map fst us)) =
    Some (case vs of [] \<Rightarrow> (None, last (sl_header l # map fst us)) | (a, k) # _ \<Rightarrow> (Some a, a))"
proof -
  have "chain (sl_mem l) 1 (sl_header l # tower 1 us @ tower 1 vs @ [sl_header l])"
    using assms by (simp add: sl_rep_def MAX_L_def)
  from chain_gap [OF this]
  have "forward (sl_mem l) 1 (last (sl_header l # tower 1 us)) = Some (hd (tower 1 vs @ [sl_header l]))" .
  moreover have "tower (Suc 0) us = map fst us" "tower (Suc 0) vs = map fst vs"
    using sl_rep_node [OF assms] by (intro tower_1; force)+
  ultimately have "forward (sl_mem l) 1 (last (sl_header l # map fst us)) = Some (hd (map fst vs @ [sl_header l]))"
    by (simp del: last.simps)
  moreover have "sl_header l \<notin> fst ` set vs"
    using assms by (auto simp: sl_rep_def)
  ultimately show ?thesis
    by (auto simp: skiplist_get_next_def simp del: last.simps split: list.split)
qed

lemma skiplist_iterate:
  "sl_rep l (us @ vs) \<Longrightarrow> pop_n (skiplist_get_next l) (length vs) (last (sl_header l # map fst us)) =
    Some (map (\<lambda>(a, k). Some a) vs, last (sl_header l # map fst (us @ vs)))"
proof (induction vs arbitrary: us)
  case (Cons p vs)
  obtain a k where p: "p = (a, k)" by (cases p)
  have "skiplist_get_next l (last (sl_header l # map fst us)) = Some (Some a, a)"
    using skiplist_get_next_spec [OF Cons.prems] by (simp add: p del: last.simps)
  moreover have "pop_n (skiplist_get_next l) (length vs) (last (sl_header l # map fst (us @ [p]))) =
      Some (map (\<lambda>(a, k). Some a) vs, last (sl_header l # map fst ((us @ [p]) @ vs)))"
    using Cons.prems by (intro Cons.IH) simp
  ultimately show ?case
    by (simp add: p)
qed simp

section \<open>The skip list is a sorted map\<close>

fun skiplist_insert_all :: "((nat \<Rightarrow> int) \<times> str_key \<times> value_set) list \<Rightarrow> skiplist \<Rightarrow> skiplist option" where
  "skiplist_insert_all [] l = Some l"
| "skiplist_insert_all ((draws, key, v) # r) l = do {
     (a, l') \<leftarrow> skiplist_insert draws l key (Some v) True;
     skiplist_insert_all r l'
   }"

lemma sl_rep_items_sorted: "sl_rep l xs \<Longrightarrow> sorted_wrt key_less (map fst (sl_items (sl_mem l) xs))"
  unfolding sl_rep_def sl_items_def by (auto simp: sorted_wrt_append sorted_wrt_map case_prod_beta)

lemma skiplist_insert_all_refines:
  "sl_rep l xs \<Longrightarrow> \<forall>(d, k, v) \<in> set kvs. key_less k key_max \<Longrightarrow>
    returns (skiplist_insert_all kvs l) (\<lambda>l'. \<exists>xs'. sl_rep l' xs' \<and>
      map_of (sl_items (sl_mem l') xs') = fold (\<lambda>(d, k, v) m. m(k \<mapsto> norm_value v)) kvs (map_of (sl_items (sl_mem l) xs)))"
proof (induction kvs arbitrary: l xs)
  case Nil
  then show ?case by auto
next
  case (Cons q kvs)
  obtain d k v where q: "q = (d, k, v)" by (cases q)
  have "returns (skiplist_insert d l k (Some v) True) (\<lambda>(a, l'). \<exists>xs'. sl_rep l' xs' \<and>
    a \<in> fst ` set xs' \<and> node_key (sl_mem l') a = k \<and>
    sl_items (sl_mem l') xs' = ins_item k (norm_value v) (sl_items (sl_mem l) xs))"
    using Cons.prems by (intro skiplist_insert_refines) (simp_all add: q)
  then obtain a l1 xs1 where l1: "skiplist_insert d l k (Some v) True = Some (a, l1)" "sl_rep l1 xs1"
    "sl_items (sl_mem l1) xs1 = ins_item k (norm_value v) (sl_items (sl_mem l) xs)"
    by (auto elim!: returnsE)
  have "map_of (sl_items (sl_mem l1) xs1) = (map_of (sl_items (sl_mem l) xs))(k \<mapsto> norm_value v)"
    using sl_rep_items_sorted [OF Cons.prems(1)] by (simp add: l1(3) map_of_ins_item)
  moreover have "returns (skiplist_insert_all kvs l1) (\<lambda>l'. \<exists>xs'. sl_rep l' xs' \<and>
      map_of (sl_items (sl_mem l') xs') = fold (\<lambda>(d, k, v) m. m(k \<mapsto> norm_value v)) kvs (map_of (sl_items (sl_mem l1) xs1)))"
    using l1(2) Cons.prems by (intro Cons.IH) (auto simp: q)
  ultimately show ?case
    by (simp add: q l1(1) del: fun_upd_apply)
qed

lemma found_value:
  assumes "sl_rep l xs" and "found_at (sl_mem l) xs key r"
  shows "map_option (\<lambda>a. the (sn_value (the (cells (sl_mem l) a)))) r = map_of (sl_items (sl_mem l) xs) key"
proof (cases r)
  case None
  then have "key \<notin> fst ` set (sl_items (sl_mem l) xs)"
    using assms(2) by (force simp: found_at_def sl_items_def)
  then show ?thesis
    using None map_of_eq_None_iff [of "sl_items (sl_mem l) xs" key] by simp
next
  case (Some a)
  then obtain k where a: "(a, k) \<in> set xs" "node_key (sl_mem l) a = key"
    using assms(2) by (auto simp: found_at_def)
  have "distinct (map fst (sl_items (sl_mem l) xs))"
  proof -
    have "distinct ks" if "sorted_wrt key_less ks" for ks
      using that by (induction ks) (auto simp: lexordp_irreflexive')
    then show ?thesis using sl_rep_items_sorted [OF assms(1)] .
  qed
  moreover have "(key, the (sn_value (the (cells (sl_mem l) a)))) \<in> set (sl_items (sl_mem l) xs)"
    using a by (force simp: sl_items_def)
  ultimately show ?thesis
    using Some by simp
qed

text \<open>
  C23. The skip list is a map.  Starting from the empty list, any sequence of insertions of keys
  below \<^verbatim>\<open>key_max\<close>, with any outcomes of the coin tosses, returns, and afterwards
  \<^verbatim>\<open>skiplist_find\<close> returns a node that carries the value inserted last under the key (its length
  rounded to pieces), or \<^verbatim>\<open>NULL\<close> if there was none.
\<close>

theorem skiplist_find_after_inserts:
  assumes "\<forall>(d, k, v) \<in> set kvs. key_less k key_max" and "key_less key key_max"
  shows "returns (skiplist_insert_all kvs (skiplist_init g)) (\<lambda>l. returns (skiplist_find l key)
    (\<lambda>r. map_option (\<lambda>a. the (sn_value (the (cells (sl_mem l) a)))) r =
       fold (\<lambda>(d, k, v) m. m(k \<mapsto> norm_value v)) kvs Map.empty key))"
  using skiplist_insert_all_refines [OF skiplist_init_rep assms(1)]
proof (rule returns_mono, elim exE conjE)
  fix l xs
  assume rep: "sl_rep l xs" and
    m: "map_of (sl_items (sl_mem l) xs) = fold (\<lambda>(d, k, v) m. m(k \<mapsto> norm_value v)) kvs
      (map_of (sl_items (sl_mem (skiplist_init g)) []))"
  have "sl_items (sl_mem (skiplist_init g)) [] = []"
    by (simp add: sl_items_def)
  with m have m': "map_of (sl_items (sl_mem l) xs) = fold (\<lambda>(d, k, v) m. m(k \<mapsto> norm_value v)) kvs Map.empty"
    by (simp only: map_of.simps)
  show "returns (skiplist_find l key) (\<lambda>r. map_option (\<lambda>a. the (sn_value (the (cells (sl_mem l) a)))) r =
       fold (\<lambda>(d, k, v) m. m(k \<mapsto> norm_value v)) kvs Map.empty key)"
    using skiplist_find_spec [OF rep assms(2)]
    by (rule returns_mono) (simp only: m' [symmetric] found_value [OF rep])
qed

definition demo_value :: "nat \<Rightarrow> value_set" where
  "demo_value n = \<lparr>vs_value = [], vs_length = n, vs_ppa = 0, vs_length_in_bytes = n, vs_offset = 0\<rparr>"

lemma key_less_key_max: "key_less [a] key_max"
proof -
  have km: "key_max = 0xFF # replicate 127 0xFF"
    by (simp add: key_max_def MAXKEYSIZE_def flip: replicate_Suc)
  have "a < 0xFF \<or> a = 0xFF"
  proof -
    have "(0xFF :: u8) = - 1" by simp
    then have "a \<le> 0xFF" by (metis word_n1_ge)
    then show ?thesis by (simp only: order_le_less)
  qed
  then show ?thesis unfolding km by auto
qed

lemma skiplist_find_after_inserts_witness:
  "returns (skiplist_insert_all [(\<lambda>_. 0, [7], demo_value 1000), (\<lambda>_. 1, [3], demo_value 5000), (\<lambda>_. 0, [7], demo_value 2000)]
      (skiplist_init 0)) (\<lambda>l. returns (skiplist_find l [7])
    (\<lambda>r. map_option (\<lambda>a. the (sn_value (the (cells (sl_mem l) a)))) r =
       fold (\<lambda>(d, k, v) m. m(k \<mapsto> norm_value v))
         [(\<lambda>_ :: nat. 0 :: int, [7], demo_value 1000), (\<lambda>_. 1, [3], demo_value 5000), (\<lambda>_. 0, [7], demo_value 2000)] Map.empty [7 :: u8]))"
  by (rule skiplist_find_after_inserts) (simp_all add: key_less_key_max)

text \<open>
  The iterator of a skip list built by insertions returns its nodes in strictly increasing
  order of their keys, each inserted key once, and then \<^verbatim>\<open>NULL\<close>.
\<close>

theorem skiplist_iterates_sorted:
  assumes "\<forall>(d, k, v) \<in> set kvs. key_less k key_max"
  shows "returns (skiplist_insert_all kvs (skiplist_init g)) (\<lambda>l.
    returns (pop_n (skiplist_get_next l) (sl_size l) (skiplist_get_iterator l)) (\<lambda>(rs, now).
      None \<notin> set rs \<and> sorted_wrt key_less (map (node_key (sl_mem l) \<circ> the) rs) \<and>
      node_key (sl_mem l) ` the ` set rs = (fst \<circ> snd) ` set kvs \<and> skiplist_get_next l now = Some (None, now)))"
  using skiplist_insert_all_refines [OF skiplist_init_rep assms]
proof (rule returns_mono, elim exE conjE)
  fix l xs
  assume rep: "sl_rep l xs" and
    m: "map_of (sl_items (sl_mem l) xs) = fold (\<lambda>(d, k, v) m. m(k \<mapsto> norm_value v)) kvs
      (map_of (sl_items (sl_mem (skiplist_init g)) []))"
  have dom_fold: "dom (fold (\<lambda>(d, k, v) m. m(k \<mapsto> norm_value v)) kvs m) = (fst \<circ> snd) ` set kvs \<union> dom m"
    for m and kvs :: "((nat \<Rightarrow> int) \<times> str_key \<times> value_set) list"
    by (induction kvs arbitrary: m) auto
  have "fst ` set (sl_items (sl_mem l) xs) = dom (map_of (sl_items (sl_mem l) xs))"
    by (simp add: dom_map_of_conv_image_fst)
  also have "\<dots> = (fst \<circ> snd) ` set kvs"
    unfolding m dom_fold by (simp add: sl_items_def)
  finally have keys: "node_key (sl_mem l) ` fst ` set xs = (fst \<circ> snd) ` set kvs"
    by (auto simp: sl_items_def image_image case_prod_beta)
  have "pop_n (skiplist_get_next l) (length xs) (skiplist_get_iterator l) =
      Some (map (\<lambda>(a, k). Some a) xs, last (sl_header l # map fst xs))"
    using skiplist_iterate [of l "[]" xs] rep by (simp add: skiplist_get_iterator_def)
  moreover have "sl_size l = length xs"
    using rep by (simp add: sl_rep_def)
  moreover have "skiplist_get_next l (last (sl_header l # map fst xs)) = Some (None, last (sl_header l # map fst xs))"
    using skiplist_get_next_spec [of l xs "[]"] rep by simp
  moreover have "map (node_key (sl_mem l) \<circ> the) (map (\<lambda>(a, k). Some a) xs) = map (node_key (sl_mem l)) (map fst xs)"
    by auto
  moreover have "sorted_wrt key_less (map (node_key (sl_mem l)) (map fst xs))"
    using rep by (simp add: sl_rep_def sorted_wrt_append)
  moreover have "the ` set (map (\<lambda>(a, k). Some a) xs) = fst ` set xs"
    by (force simp: image_image)
  moreover have "None \<notin> set (map (\<lambda>(a, k). Some a) xs)"
    by auto
  ultimately show "returns (pop_n (skiplist_get_next l) (sl_size l) (skiplist_get_iterator l)) (\<lambda>(rs, now).
      None \<notin> set rs \<and> sorted_wrt key_less (map (node_key (sl_mem l) \<circ> the) rs) \<and>
      node_key (sl_mem l) ` the ` set rs = (fst \<circ> snd) ` set kvs \<and> skiplist_get_next l now = Some (None, now))"
    by (simp only: returns_simps prod.case keys simp_thms)
qed

lemma skiplist_iterates_sorted_witness:
  "returns (skiplist_insert_all [(\<lambda>_. 0, [7], demo_value 1000), (\<lambda>_. 1, [3], demo_value 5000)] (skiplist_init 0)) (\<lambda>l.
    returns (pop_n (skiplist_get_next l) (sl_size l) (skiplist_get_iterator l)) (\<lambda>(rs, now).
      None \<notin> set rs \<and> sorted_wrt key_less (map (node_key (sl_mem l) \<circ> the) rs) \<and>
      node_key (sl_mem l) ` the ` set rs = (fst \<circ> snd) ` set [(\<lambda>_ :: nat. 0 :: int, [7], demo_value 1000), (\<lambda>_. 1, [3], demo_value 5000)] \<and>
      skiplist_get_next l now = Some (None, now)))"
  by (rule skiplist_iterates_sorted) (simp add: key_less_key_max)

text \<open>
  The sentinel is not a usable key.  Inserting the key of 128 bytes 0xFF into any
  well-formed skip list takes the header for an entry with that key and dereferences its null
  value; all smaller keys can be inserted.
\<close>

theorem skiplist_insert_key_max:
  assumes "sl_rep l xs" and "key_less key key_max"
  shows "skiplist_insert draws l key_max v f = None \<and> skiplist_insert draws l key (Some w) f \<noteq> None"
proof
  obtain us vs where xs: "xs = us @ vs" and split: "\<forall>a \<in> fst ` set us. below (sl_mem l) key_max a"
    "\<forall>a \<in> insert (sl_header l) (fst ` set vs). not_below (sl_mem l) key_max a"
    using sl_rep_split [OF assms(1), of key_max] lexordp_irreflexive' by blast
  have rep: "sl_rep l (us @ vs)" using assms(1) by (simp add: xs)
  note parts = rep [unfolded sl_rep_def]
  have "vs = []"
  proof (rule ccontr)
    assume "vs \<noteq> []"
    then obtain a k rest where vs: "vs = (a, k) # rest" by (cases vs) auto
    then have "key_less (node_key (sl_mem l) a) key_max"
      using parts by (auto simp: sorted_wrt_append node_key_def)
    then show False
      using split(2) by (auto simp: vs not_below_def node_key_def)
  qed
  then show "skiplist_insert draws l key_max v f = None"
    using sl_descend_rep [OF rep split] parts
    by (cases v) (auto simp: skiplist_insert_def simp del: last.simps)
  show "skiplist_insert draws l key (Some w) f \<noteq> None"
    using skiplist_insert_refines [OF assms, of draws w f] by (auto simp: returns_def)
qed

lemma skiplist_insert_key_max_witness:
  "skiplist_insert (\<lambda>_. 0) (skiplist_init 0) key_max (Some (demo_value 9)) True = None \<and>
   skiplist_insert (\<lambda>_. 0) (skiplist_init 0) [1] (Some (demo_value 9)) True \<noteq> None"
  by (rule skiplist_insert_key_max [OF skiplist_init_rep key_less_key_max])

section \<open>Clearing\<close>

lemma sl_clear_loop_returns:
  assumes "chain m 1 (as @ [h])" and "distinct (as @ [h])" and "\<forall>a \<in> set as. cells m a \<noteq> None"
  shows "returns (sl_clear_loop h m (hd (as @ [h]))) (\<lambda>m'. brk m' = brk m \<and>
    (\<forall>a. cells m' a = (if a \<in> set as then None else cells m a)))"
  using assms
proof (induction as arbitrary: m)
  case Nil
  then show ?case by (simp add: sl_clear_loop.simps)
next
  case (Cons a as)
  let ?m = "m\<lparr>cells := (cells m)(a := None)\<rparr>"
  from Cons.prems obtain n where n: "cells m a = Some n" by auto
  have fwd: "forward m 1 a = Some (hd (as @ [h]))"
    using Cons.prems(1) by (cases as) (auto simp: chain_def)
  have "chain ?m 1 (as @ [h]) = chain m 1 (as @ [h])"
    using Cons.prems(2) by (intro chain_cong) (auto simp: forward_def)
  then have "chain ?m 1 (as @ [h])"
    using Cons.prems(1) by (cases as) (auto simp: chain_def)
  then have "returns (sl_clear_loop h ?m (hd (as @ [h]))) (\<lambda>m'. brk m' = brk ?m \<and>
    (\<forall>b. cells m' b = (if b \<in> set as then None else cells ?m b)))"
    using Cons.prems by (intro Cons.IH) auto
  then show ?case
    using Cons.prems(2) n fwd by (auto simp: sl_clear_loop.simps [of h m] elim!: returns_mono)
qed

lemma skiplist_clear_rep:
  assumes "sl_rep l xs"
  shows "returns (skiplist_clear l) (\<lambda>l'. sl_rep l' [])"
proof -
  let ?h = "sl_header l" and ?m = "sl_mem l"
  note parts = assms [unfolded sl_rep_def]
  obtain hn where hn: "cells ?m ?h = Some hn" "sn_key hn = key_max" "sn_value hn = None" "length (sn_list hn) = MAX_L + 1"
    using parts by auto
  have t1: "tower (Suc 0) xs = map fst xs"
    using sl_rep_node [OF assms] by (intro tower_1) force
  have c: "chain ?m 1 (?h # map fst xs @ [?h])"
    using sl_rep_chain [OF assms, of 1] t1 by (simp add: MAX_L_def)
  then have first: "forward ?m 1 ?h = Some (hd (map fst xs @ [?h]))"
    using chain_gap [of ?m 1 ?h "[]" "map fst xs"] by simp
  have "\<exists>y. forward ?m 1 (hd (map fst xs @ [?h])) = Some y"
    using c first by (cases xs rule: list.exhaust) (auto simp: chain_def successively_Cons split: list.splits)
  then obtain y where y: "forward ?m 1 (hd (map fst xs @ [?h])) = Some y" by blast
  have "chain ?m 1 (map fst xs @ [?h])"
    using c by (cases xs) (auto simp: chain_def)
  then have "returns (sl_clear_loop ?h ?m (hd (map fst xs @ [?h]))) (\<lambda>m'. brk m' = brk ?m \<and>
    (\<forall>a. cells m' a = (if a \<in> set (map fst xs) then None else cells ?m a)))"
    using parts sl_rep_live [OF assms] by (intro sl_clear_loop_returns) auto
  then obtain m where m: "sl_clear_loop ?h ?m (hd (map fst xs @ [?h])) = Some m" "brk m = brk ?m"
    "\<And>a. cells m a = (if a \<in> set (map fst xs) then None else cells ?m a)"
    by (auto elim: returnsE)
  have mh: "cells m ?h = Some hn"
    using parts hn(1) m(3) [of ?h] by simp
  let ?hn = "hn\<lparr>sn_list := replicate MAX_L (Some ?h) @ drop MAX_L (sn_list hn), sn_key := key_max\<rparr>"
  let ?l = "l\<lparr>sl_size := 0, sl_level := 0, sl_mem := m\<lparr>cells := (cells m)(?h \<mapsto> ?hn)\<rparr>\<rparr>"
  have "skiplist_clear l = Some ?l"
    using first y m(1) mh by (simp add: skiplist_clear_def)
  moreover have "mem_wf m"
    using parts m(2,3) by (auto simp: mem_wf_def)
  then have "mem_wf (m\<lparr>cells := (cells m)(?h \<mapsto> ?hn)\<rparr>)"
    using mh by (rule mem_wf_upd_live)
  moreover have "chain (m\<lparr>cells := (cells m)(?h \<mapsto> ?hn)\<rparr>) i [?h, ?h]" if "i < MAX_L" for i
    using that by (simp add: chain_def forward_def nth_append hn(4))
  ultimately show ?thesis
    using hn(3,4) by (simp add: sl_rep_def MAX_L_def)
qed

end
