(* ===== verification/Algoq.thy ===== *)
theory Algoq
  imports Interfaces Store "HOL-Library.Multiset"
begin

text \<open>
  The retry queue of \<^verbatim>\<open>hash_hot_cmt/algo_queue.c\<close>: a doubly linked list of requests (or of write
  buffer entries) that wait for a flash operation, in the order of their completion times with a
  tolerance of one microsecond.  The operations are modelled at the level of the pointers and
  refine an insertion into a list.  \<open>et\<close> reads the \<^verbatim>\<open>etime\<close> behind a payload pointer; a queue
  only ever holds one kind of payload.
\<close>

section \<open>State and operations\<close>

record 'p algo_q =
  q_head :: "addr option"
  q_last :: "addr option"
  q_size :: nat
  q_mem :: "'p node mem"

definition algo_q_create :: "'p algo_q" where
  "algo_q_create = \<lparr>q_head = None, q_last = None, q_size = 0, q_mem = empty_mem\<rparr>"

text \<open>The payload is the request if there is one, else the write buffer entry, else \<^verbatim>\<open>abort()\<close>.\<close>

definition algo_q_payload :: "'p option \<Rightarrow> 'p option \<Rightarrow> 'p option" where
  "algo_q_payload req wbe = (case req of Some r \<Rightarrow> Some r | None \<Rightarrow> wbe)"

text \<open>The search from the last node back for the node to insert behind.\<close>

partial_function (option) algo_q_scan :: "('p \<Rightarrow> nat) \<Rightarrow> 'p node mem \<Rightarrow> nat \<Rightarrow> nat \<Rightarrow> addr option \<Rightarrow>
    addr option option" where
  "algo_q_scan et m etime nsecs_target cur =
     (if cur = None then Some None
      else do {
        n \<leftarrow> load cur m;
        if et (data n) \<le> etime then Some cur
        else if et (data n) \<le> nsecs_target then Some cur
        else algo_q_scan et m etime nsecs_target (prv n)
      })"

declare algo_q_scan.simps [code]

definition algo_q_insert_sorted :: "('p \<Rightarrow> nat) \<Rightarrow> 'p algo_q \<Rightarrow> 'p option \<Rightarrow> 'p option \<Rightarrow> 'p algo_q option" where
  "algo_q_insert_sorted et q req wbe = do {
     p \<leftarrow> algo_q_payload req wbe;
     let (entry, m) = malloc \<lparr>data = p, nxt = None, prv = None\<rparr> (q_mem q);
     q' \<leftarrow> (if q_head q = None then Some (q\<lparr>q_head := Some entry, q_last := Some entry, q_mem := m\<rparr>)
        else do {
          cur \<leftarrow> algo_q_scan et m (et p) (et p + 1000) (q_last q);
          if cur = None then do {
            m1 \<leftarrow> modify (q_head q) (\<lambda>n. n\<lparr>prv := Some entry\<rparr>) m;
            m2 \<leftarrow> modify (Some entry) (\<lambda>n. n\<lparr>prv := None, nxt := q_head q\<rparr>) m1;
            Some (q\<lparr>q_head := Some entry, q_mem := m2\<rparr>)
          } else do {
            c \<leftarrow> load cur m;
            m1 \<leftarrow> modify (Some entry) (\<lambda>n. n\<lparr>prv := cur, nxt := nxt c\<rparr>) m;
            if nxt c = None then do {
              m2 \<leftarrow> modify cur (\<lambda>n. n\<lparr>nxt := Some entry\<rparr>) m1;
              Some (q\<lparr>q_last := Some entry, q_mem := m2\<rparr>)
            } else do {
              m2 \<leftarrow> modify (nxt c) (\<lambda>n. n\<lparr>prv := Some entry\<rparr>) m1;
              m3 \<leftarrow> modify cur (\<lambda>n. n\<lparr>nxt := Some entry\<rparr>) m2;
              Some (q\<lparr>q_mem := m3\<rparr>)
            }
          }
        });
     Some (q'\<lparr>q_size := q_size q' + 1\<rparr>)
   }"

text \<open>\<^verbatim>\<open>algo_q_dequeue\<close> returns \<^verbatim>\<open>NULL\<close> on the empty queue.\<close>

definition algo_q_dequeue :: "'p algo_q \<Rightarrow> ('p option \<times> 'p algo_q) option" where
  "algo_q_dequeue q =
     (if q_head q = None then Some (None, q)
      else do {
        let entry = q_head q;
        n \<leftarrow> load entry (q_mem q);
        let q1 = q\<lparr>q_head := nxt n\<rparr>;
        m1 \<leftarrow> (if q_head q1 \<noteq> None then modify (q_head q1) (\<lambda>k. k\<lparr>prv := None\<rparr>) (q_mem q1)
               else Some (q_mem q1));
        let q2 = (if q_head q1 = None then q1\<lparr>q_last := None\<rparr> else q1);
        m2 \<leftarrow> free_cell entry m1;
        Some (Some (data n), q2\<lparr>q_size := q_size q2 - 1, q_mem := m2\<rparr>)
      })"

partial_function (option) algo_q_free_loop :: "'p algo_q \<Rightarrow> 'p algo_q option" where
  "algo_q_free_loop q =
     (if q_head q = None then Some q
      else do {
        n \<leftarrow> load (q_head q) (q_mem q);
        m \<leftarrow> free_cell (q_head q) (q_mem q);
        algo_q_free_loop (q\<lparr>q_head := nxt n, q_mem := m\<rparr>)
      })"

declare algo_q_free_loop.simps [code]

definition algo_q_free :: "'p algo_q \<Rightarrow> 'p algo_q option" where
  "algo_q_free q = do { q' \<leftarrow> algo_q_free_loop q; Some (q'\<lparr>q_last := None\<rparr>) }"

section \<open>The list behind the queue\<close>

definition q_rep :: "'p algo_q \<Rightarrow> (addr \<times> 'p) list \<Rightarrow> bool" where
  "q_rep q ps \<longleftrightarrow>
     seg (cells (q_mem q)) None (q_head q) (map fst ps) (q_last q) None \<and>
     distinct (map fst ps) \<and> q_size q = length ps \<and> carries (cells (q_mem q)) ps \<and> mem_wf (q_mem q)"

definition q_list :: "'p algo_q \<Rightarrow> 'p list \<Rightarrow> bool" where
  "q_list q xs \<longleftrightarrow> (\<exists>ps. q_rep q ps \<and> map snd ps = xs)"

text \<open>The element goes behind the last one that is due at most 1000 ns after it.\<close>

definition due_by :: "('p \<Rightarrow> nat) \<Rightarrow> 'p \<Rightarrow> 'p \<Rightarrow> bool" where
  "due_by et x y \<longleftrightarrow> et y \<le> et x + 1000"

fun timed_insert :: "('p \<Rightarrow> nat) \<Rightarrow> 'p \<Rightarrow> 'p list \<Rightarrow> 'p list" where
  "timed_insert et x [] = [x]"
| "timed_insert et x (y # ys) =
     (if due_by et x y \<or> (\<exists>z \<in> set ys. due_by et x z) then y # timed_insert et x ys else x # y # ys)"

lemma timed_insert_append:
  assumes "us \<noteq> [] \<Longrightarrow> due_by et x (last us)" and "\<forall>v \<in> set vs. \<not> due_by et x v"
  shows "timed_insert et x (us @ vs) = us @ x # vs"
  using assms
proof (induction us)
  case Nil
  then show ?case by (cases vs) auto
next
  case (Cons u us)
  show ?case
  proof (cases "us = []")
    case True
    with Cons.prems show ?thesis
      using Cons.IH by simp
  next
    case False
    with Cons have "due_by et x (last us)" "last us \<in> set us" "timed_insert et x (us @ vs) = us @ x # vs"
      by simp_all
    then show ?thesis by auto
  qed
qed

text \<open>Where the search stops.\<close>

lemma split_due:
  obtains us vs where "ps = us @ vs" and "us \<noteq> [] \<Longrightarrow> due_by et x (snd (last us))"
    and "\<forall>v \<in> snd ` set vs. \<not> due_by et x v"
proof (induction ps arbitrary: thesis rule: rev_induct)
  case Nil
  then show ?case by simp
next
  case (snoc p ps)
  show ?case
  proof (cases "due_by et x (snd p)")
    case True
    then show ?thesis
      by (intro snoc.prems [of "ps @ [p]" "[]"]) auto
  next
    case False
    from snoc.IH obtain us vs where "ps = us @ vs" "us \<noteq> [] \<Longrightarrow> due_by et x (snd (last us))"
      "\<forall>v \<in> snd ` set vs. \<not> due_by et x v"
      by metis
    with False show ?thesis
      by (intro snoc.prems [of us "vs @ [p]"]) auto
  qed
qed

lemma algo_q_scan_spec:
  assumes "seg (cells m) None h (map fst (us @ vs)) l nx" and "carries (cells m) (us @ vs)"
    and "us \<noteq> [] \<Longrightarrow> due_by et x (snd (last us))" and "\<forall>v \<in> snd ` set vs. \<not> due_by et x v"
  shows "algo_q_scan et m (et x) (et x + 1000) l = Some (if us = [] then None else Some (fst (last us)))"
  using assms
proof (induction vs arbitrary: l nx rule: rev_induct)
  case Nil
  show ?case
  proof (cases us rule: rev_cases)
    case Nil
    with \<open>seg _ _ _ _ l nx\<close> show ?thesis by (simp add: algo_q_scan.simps [of _ _ _ _ None])
  next
    case (snoc us' u)
    with Nil.prems show ?thesis
      by (cases u) (auto simp: image_Un algo_q_scan.simps [of _ _ _ _ "Some _"] due_by_def)
  qed
next
  case (snoc v vs)
  obtain a d where v: "v = (a, d)" by (cases v)
  from snoc.prems(1) obtain n where n: "cells m a = Some n" "l = Some a"
    "seg (cells m) None h (map fst (us @ vs)) (prv n) (Some a)"
    by (auto simp: v)
  have "data n = d" "\<not> due_by et x d"
    using snoc.prems n by (auto simp: v)
  then have "algo_q_scan et m (et x) (et x + 1000) l = algo_q_scan et m (et x) (et x + 1000) (prv n)"
    using n by (simp add: algo_q_scan.simps [of _ _ _ _ "Some _"] due_by_def)
  also have "\<dots> = Some (if us = [] then None else Some (fst (last us)))"
    using snoc.prems n(3) by (intro snoc.IH) auto
  finally show ?case .
qed

lemma q_rep_fresh: "q_rep q ps \<Longrightarrow> brk (q_mem q) \<notin> fst ` set ps"
  using seg_live mem_wf_fresh by (fastforce simp: q_rep_def)

lemma algo_q_insert_rep:
  assumes rep: "q_rep q (us @ vs)" and p: "algo_q_payload req wbe = Some p"
    and us: "us \<noteq> [] \<Longrightarrow> due_by et p (snd (last us))" and vs: "\<forall>v \<in> snd ` set vs. \<not> due_by et p v"
  shows "returns (algo_q_insert_sorted et q req wbe) (\<lambda>q'. q_rep q' (us @ (brk (q_mem q), p) # vs))"
proof -
  let ?e = "brk (q_mem q)" and ?m0 = "q_mem q"
  let ?m = "?m0\<lparr>cells := (cells ?m0)(?e \<mapsto> \<lparr>data = p, nxt = None, prv = None\<rparr>), brk := Suc ?e\<rparr>"
  note parts = rep [unfolded q_rep_def]
  have new: "?e \<notin> fst ` set (us @ vs)"
    using rep by (rule q_rep_fresh)
  have scan: "algo_q_scan et ?m (et p) (et p + 1000) (q_last q) = Some (if us = [] then None else Some (fst (last us)))"
  proof (rule algo_q_scan_spec [OF _ _ us vs])
    have "?e \<notin> set (map fst (us @ vs))"
      using new by (simp add: image_Un)
    then show "seg (cells ?m) None (q_head q) (map fst (us @ vs)) (q_last q) None"
      using parts by (simp del: seg_append map_append)
    show "carries (cells ?m) (us @ vs)"
      using parts new by (simp del: carries_append)
  qed
  have head: "q_head q = None \<longleftrightarrow> us @ vs = []"
    using parts by (auto dest!: seg_head split: if_splits)
  consider (empty) "us = []" "vs = []" | (head) v vs' where "us = []" "vs = v # vs'"
    | (tail) us' u where "us = us' @ [u]" "vs = []" | (middle) us' u v vs' where "us = us' @ [u]" "vs = v # vs'"
    by (metis list.exhaust rev_exhaust)
  then show ?thesis
  proof cases
    case empty
    with parts p head show ?thesis
      by (simp add: algo_q_insert_sorted_def malloc_def q_rep_def mem_wf_alloc)
  next
    case (head v vs')
    with parts p new scan show ?thesis
      by (cases v) (auto simp: image_Un algo_q_insert_sorted_def malloc_def q_rep_def mem_wf_def less_Suc_eq)
  next
    case (tail us' u)
    with parts p new scan head show ?thesis
      by (cases u) (auto simp: image_Un algo_q_insert_sorted_def malloc_def q_rep_def mem_wf_def less_Suc_eq)
  next
    case (middle us' u v vs')
    with parts p new scan head show ?thesis
      by (cases u; cases v) (auto simp: image_Un algo_q_insert_sorted_def malloc_def q_rep_def mem_wf_def less_Suc_eq)
  qed
qed

lemma algo_q_insert_refines:
  assumes "q_list q xs" and "algo_q_payload req wbe = Some p"
  shows "returns (algo_q_insert_sorted et q req wbe) (\<lambda>q'. q_list q' (timed_insert et p xs))"
proof -
  from assms(1) obtain ps where ps: "q_rep q ps" "xs = map snd ps"
    by (auto simp: q_list_def)
  obtain us vs where split: "ps = us @ vs" "us \<noteq> [] \<Longrightarrow> due_by et p (snd (last us))"
    "\<forall>v \<in> snd ` set vs. \<not> due_by et p v"
    using split_due [of ps et p] by metis
  have "timed_insert et p xs = map snd us @ p # map snd vs"
    using split(2,3) timed_insert_append [of "map snd us" et p "map snd vs"]
    by (simp add: ps(2) split(1) last_map)
  moreover have "returns (algo_q_insert_sorted et q req wbe) (\<lambda>q'. q_rep q' (us @ (brk (q_mem q), p) # vs))"
    using ps(1) assms(2) split by (intro algo_q_insert_rep) auto
  ultimately show ?thesis
    by (elim returns_mono) (auto simp: q_list_def)
qed

lemma algo_q_dequeue_refines:
  assumes "q_list q (x # xs)"
  shows "returns (algo_q_dequeue q) (\<lambda>(r, q'). r = Some x \<and> q_list q' xs)"
proof -
  from assms obtain a ps where "q_rep q ((a, x) # ps)" "map snd ps = xs"
    by (auto simp: q_list_def)
  then show ?thesis
    by (cases ps) (auto simp: algo_q_dequeue_def q_list_def q_rep_def mem_wf_def
        intro!: exI [of _ ps])
qed

lemma algo_q_dequeue_empty: "q_list q [] \<Longrightarrow> algo_q_dequeue q = Some (None, q)"
  by (auto simp: q_list_def q_rep_def algo_q_dequeue_def)

lemma q_list_create: "q_list algo_q_create []"
  by (simp add: q_list_def q_rep_def algo_q_create_def empty_mem_def mem_wf_def)

lemma algo_q_free_refines: "q_rep q ps \<Longrightarrow> returns (algo_q_free q) (\<lambda>q'. q_head q' = None \<and> q_last q' = None)"
proof -
  have "returns (algo_q_free_loop q) (\<lambda>q'. q_head q' = None)"
    if "seg (cells (q_mem q)) pr (q_head q) as l None" "distinct as" for q :: "'a algo_q" and pr as l
    using that
  proof (induction as arbitrary: q pr)
    case Nil
    then show ?case by (simp add: algo_q_free_loop.simps)
  next
    case (Cons a as)
    then obtain n where n: "q_head q = Some a" "cells (q_mem q) a = Some n"
      "seg (cells (q_mem q)) (Some a) (nxt n) as l None" "a \<notin> set as" "distinct as"
      by auto
    have "seg ((cells (q_mem q))(a := None)) (Some a) (nxt n) as l None"
      using n(3,4) seg_frame [of a as "cells (q_mem q)" None] by metis
    then have "returns (algo_q_free_loop (q\<lparr>q_head := nxt n, q_mem := q_mem q\<lparr>cells := (cells (q_mem q))(a := None)\<rparr>\<rparr>))
        (\<lambda>q'. q_head q' = None)"
      using n(5) by (intro Cons.IH [of _ "Some a"]) (simp_all del: fun_upd_apply)
    with n show ?case by (simp add: algo_q_free_loop.simps [of q])
  qed
  then show "q_rep q ps \<Longrightarrow> ?thesis"
    unfolding q_rep_def algo_q_free_def by (simp, elim conjE) (rule returns_mono, assumption, simp)
qed

section \<open>Order of service\<close>

text \<open>Neighbours are in order up to the tolerance, so elements \<open>k\<close> apart are up to \<open>k\<close> tolerances.\<close>

definition nearly_sorted :: "('p \<Rightarrow> nat) \<Rightarrow> 'p list \<Rightarrow> bool" where
  "nearly_sorted et xs \<longleftrightarrow> (\<forall>i j. i \<le> j \<longrightarrow> j < length xs \<longrightarrow> et (xs ! i) \<le> et (xs ! j) + 1000 * (j - i))"

lemma nearly_sorted_neighbours:
  "nearly_sorted et xs \<longleftrightarrow> (\<forall>i. Suc i < length xs \<longrightarrow> et (xs ! i) \<le> et (xs ! Suc i) + 1000)"
  (is "_ \<longleftrightarrow> ?N")
proof
  show "nearly_sorted et xs \<Longrightarrow> ?N"
    unfolding nearly_sorted_def by (metis One_nat_def Suc_diff_le diff_self_eq_0 le_refl le_SucI mult.right_neutral)
next
  assume N: ?N
  have "i + k < length xs \<Longrightarrow> et (xs ! i) \<le> et (xs ! (i + k)) + 1000 * k" for i k
  proof (induction k)
    case (Suc k)
    with N have "et (xs ! (i + k)) \<le> et (xs ! Suc (i + k)) + 1000" by simp
    with Suc show ?case by simp
  qed simp
  then show "nearly_sorted et xs"
    unfolding nearly_sorted_def by (metis le_add_diff_inverse)
qed

lemma nearly_sorted_Cons:
  "nearly_sorted et (x # xs) \<longleftrightarrow> (xs = [] \<or> due_by et (hd xs) x) \<and> nearly_sorted et xs"
proof -
  have all_nat: "(\<forall>n. P n) \<longleftrightarrow> P 0 \<and> (\<forall>n. P (Suc n))" for P
    by (metis nat.exhaust)
  show ?thesis
    unfolding nearly_sorted_neighbours due_by_def all_nat [of "\<lambda>i. Suc i < length (x # xs) \<longrightarrow> _ i"]
    by (cases xs) simp_all
qed

lemma timed_insert_nearly_sorted:
  "nearly_sorted et xs \<Longrightarrow> nearly_sorted et (timed_insert et x xs)"
proof (induction xs)
  case Nil
  then show ?case by (simp add: nearly_sorted_def)
next
  case (Cons y ys)
  show ?case
  proof (cases "due_by et x y \<or> (\<exists>z \<in> set ys. due_by et x z)")
    case True
    have "due_by et (hd (timed_insert et x ys)) y"
      using True Cons.prems by (cases ys) (auto simp: nearly_sorted_Cons)
    with True Cons show ?thesis by (auto simp: nearly_sorted_Cons)
  next
    case False
    then have "due_by et y x" by (simp add: due_by_def)
    with False Cons.prems show ?thesis by (simp add: nearly_sorted_Cons)
  qed
qed

lemma mset_timed_insert [simp]: "mset (timed_insert et x xs) = add_mset x (mset xs)"
  by (induction xs) auto

lemma length_timed_insert: "length (timed_insert et x xs) = Suc (length xs)"
  by (induction xs) auto

text \<open>Elements that are due at the same time stay in the order of arrival.\<close>

lemma timed_insert_stable:
  "filter (\<lambda>y. et y = t) (timed_insert et x xs) =
    filter (\<lambda>y. et y = t) xs @ (if et x = t then [x] else [])"
proof (induction xs)
  case (Cons y ys)
  have "filter (\<lambda>z. et z = t) (y # ys) = []" if "et x = t" "\<not> due_by et x y" "\<forall>z \<in> set ys. \<not> due_by et x z"
    using that by (auto simp: due_by_def filter_empty_conv)
  with Cons show ?case by auto
qed simp

lemma fold_timed_insert:
  "nearly_sorted et (fold (timed_insert et) ps [])"
  "mset (fold (timed_insert et) ps []) = mset ps"
  "filter (\<lambda>y. et y = t) (fold (timed_insert et) ps []) = filter (\<lambda>y. et y = t) ps"
proof -
  show "nearly_sorted et (fold (timed_insert et) ps [])"
    by (induction ps rule: rev_induct) (simp_all add: timed_insert_nearly_sorted, simp add: nearly_sorted_def)
  show "mset (fold (timed_insert et) ps []) = mset ps"
    by (induction ps rule: rev_induct) simp_all
  show "filter (\<lambda>y. et y = t) (fold (timed_insert et) ps []) = filter (\<lambda>y. et y = t) ps"
    by (induction ps rule: rev_induct) (simp_all add: timed_insert_stable)
qed

interpretation waiting: service_queue q_list "\<lambda>p q. algo_q_insert_sorted et q (Some p) None" algo_q_dequeue
    "timed_insert et" for et
proof
  show "returns (algo_q_insert_sorted et q (Some p) None) (\<lambda>q'. q_list q' (timed_insert et p xs))"
    if "q_list q xs" for q :: "'a algo_q" and xs p
    using that by (rule algo_q_insert_refines) (simp add: algo_q_payload_def)
qed (simp_all add: algo_q_dequeue_refines length_timed_insert)

text \<open>
  C28. The retry queue.  Requests entered into an empty queue and served until it is empty are all
  served, once each; a request is served at most 1000 ns times its distance in the queue before
  an earlier-due one, and requests with equal completion times are served in the order of arrival.
\<close>

theorem retry_queue_service:
  "returns (enter_all (\<lambda>p q. algo_q_insert_sorted et q (Some p) None) ps algo_q_create)
    (\<lambda>q1. returns (pop_n algo_q_dequeue (length ps) q1) (\<lambda>(rs, q2). q_list q2 [] \<and>
      (\<exists>xs. rs = map Some xs \<and> mset xs = mset ps \<and> nearly_sorted et xs \<and>
        (\<forall>t. filter (\<lambda>y. et y = t) xs = filter (\<lambda>y. et y = t) ps))))"
  using waiting.enter_serve [OF q_list_create, of et ps]
  by (elim returns_mono) (auto simp: fold_timed_insert)

text \<open>
  The tolerance adds up.  Three requests due at 2000, 1000 and 0 ns that arrive in this order
  are served in this order: the one due first waits for one due two microseconds later.
\<close>

theorem retry_queue_inversion:
  "returns (enter_all (\<lambda>p q. algo_q_insert_sorted id q (Some p) None) [2000, 1000, 0] algo_q_create)
    (\<lambda>q1. returns (pop_n algo_q_dequeue 3 q1) (\<lambda>(rs, q2). rs = [Some 2000, Some 1000, Some 0]))"
proof -
  have "fold (timed_insert id) [2000, 1000, 0] [] = [2000, 1000, 0 :: nat]"
    by (simp add: due_by_def)
  with waiting.enter_serve [OF q_list_create, of id "[2000, 1000, 0]"] show ?thesis
    by (elim returns_mono) (simp add: numeral_3_eq_3, elim returns_mono, auto)
qed

end
