(* ===== verification/Htable.thy ===== *)
theory Htable
  imports Interfaces
begin

text \<open>
  The chained hash table of \<^verbatim>\<open>tools/d_htable.c\<close>.  The write buffer records in it the logical
  addresses it has remapped in the current flush, so that a second buffered key with the same
  fingerprint is recognised as a collision.  A bucket is a dummy node with a chain of items, here
  the list of the items.
\<close>

section \<open>State and operations\<close>

record d_htable =
  bucket :: "lpa_t list list"
  ht_max :: nat

definition d_htable_init :: "nat \<Rightarrow> d_htable" where
  "d_htable_init max_sz = \<lparr>bucket = replicate max_sz [], ht_max = max_sz\<rparr>"

text \<open>The loop \<^verbatim>\<open>while (hn->next != NULL)\<close> runs to the end of the chain; the new node is linked there.\<close>

fun chain_append :: "lpa_t list \<Rightarrow> lpa_t \<Rightarrow> lpa_t list" where
  "chain_append [] lpa = [lpa]"
| "chain_append (item # rest) lpa = item # chain_append rest lpa"

fun chain_find :: "lpa_t list \<Rightarrow> lpa_t \<Rightarrow> bool" where
  "chain_find [] lpa = False"
| "chain_find (item # rest) lpa = (if item = lpa then True else chain_find rest lpa)"

definition d_htable_insert :: "ppa_t \<Rightarrow> lpa_t \<Rightarrow> d_htable \<Rightarrow> d_htable" where
  "d_htable_insert ppa lpa ht =
     (let i = ppa mod ht_max ht
      in ht\<lparr>bucket := (bucket ht)[i := chain_append (bucket ht ! i) lpa]\<rparr>)"

definition d_htable_find :: "d_htable \<Rightarrow> ppa_t \<Rightarrow> lpa_t \<Rightarrow> bool" where
  "d_htable_find ht ppa lpa = chain_find (bucket ht ! (ppa mod ht_max ht)) lpa"

section \<open>Correctness\<close>

definition ht_wf :: "d_htable \<Rightarrow> bool" where
  "ht_wf ht \<longleftrightarrow> 0 < ht_max ht \<and> length (bucket ht) = ht_max ht"

lemma chain_append_snoc [simp]: "chain_append xs lpa = xs @ [lpa]"
  by (induction xs) auto

lemma chain_find_mem [simp]: "chain_find xs lpa \<longleftrightarrow> lpa \<in> set xs"
  by (induction xs) auto

lemma ht_wf_init: "0 < n \<Longrightarrow> ht_wf (d_htable_init n)"
  by (simp add: ht_wf_def d_htable_init_def)

lemma ht_wf_insert: "ht_wf ht \<Longrightarrow> ht_wf (d_htable_insert ppa lpa ht)"
  by (simp add: ht_wf_def d_htable_insert_def Let_def)

lemma ht_max_insert [simp]: "ht_max (d_htable_insert ppa lpa ht) = ht_max ht"
  by (simp add: d_htable_insert_def Let_def)

lemma d_htable_find_insert:
  "ht_wf ht \<Longrightarrow> d_htable_find (d_htable_insert p l ht) ppa lpa \<longleftrightarrow>
     (l = lpa \<and> p mod ht_max ht = ppa mod ht_max ht) \<or> d_htable_find ht ppa lpa"
  by (auto simp: d_htable_find_def d_htable_insert_def ht_wf_def Let_def nth_list_update)

lemma d_htable_find_init: "0 < n \<Longrightarrow> \<not> d_htable_find (d_htable_init n) ppa lpa"
  by (simp add: d_htable_find_def d_htable_init_def)

abbreviation ht_add :: "ppa_t \<times> lpa_t \<Rightarrow> d_htable \<Rightarrow> d_htable" where
  "ht_add e \<equiv> d_htable_insert (fst e) (snd e)"

abbreviation ht_query :: "d_htable \<Rightarrow> ppa_t \<times> lpa_t \<Rightarrow> bool" where
  "ht_query ht e \<equiv> d_htable_find ht (fst e) (snd e)"

interpretation htable: membership_filter ht_wf ht_add ht_query
  by unfold_locales (simp_all add: ht_wf_insert d_htable_find_insert)

lemma d_htable_find_fold:
  "ht_wf ht \<Longrightarrow> d_htable_find (fold ht_add es ht) ppa lpa \<longleftrightarrow>
     (\<exists>p. (p, lpa) \<in> set es \<and> p mod ht_max ht = ppa mod ht_max ht) \<or> d_htable_find ht ppa lpa"
  by (induction es arbitrary: ht) (auto simp: ht_wf_insert d_htable_find_insert)

text \<open>
  C33. After any sequence of insertions into a fresh table, \<open>d_htable_find ppa lpa\<close> succeeds
  exactly when some inserted pair has this logical address and a physical address in the same
  bucket: inserted pairs are always found, and an address of another bucket never is.
\<close>

theorem d_htable_find_after_inserts:
  assumes "0 < n"
  shows "(d_htable_find (fold ht_add es (d_htable_init n)) ppa lpa \<longleftrightarrow>
            (\<exists>p. (p, lpa) \<in> set es \<and> p mod n = ppa mod n)) \<and>
         ((ppa, lpa) \<in> set es \<longrightarrow> d_htable_find (fold ht_add es (d_htable_init n)) ppa lpa)"
proof
  have max: "ht_max (d_htable_init n) = n"
    by (simp add: d_htable_init_def)
  show "d_htable_find (fold ht_add es (d_htable_init n)) ppa lpa \<longleftrightarrow>
      (\<exists>p. (p, lpa) \<in> set es \<and> p mod n = ppa mod n)"
    using d_htable_find_fold [OF ht_wf_init [OF assms]] d_htable_find_init [OF assms] max by simp
  show "(ppa, lpa) \<in> set es \<longrightarrow> d_htable_find (fold ht_add es (d_htable_init n)) ppa lpa"
    using htable.query_fold [OF ht_wf_init [OF assms], of "(ppa, lpa)" es] by simp
qed

text \<open>A witness, which also shows that the physical address is only compared by its bucket.\<close>

theorem d_htable_find_after_inserts_witness:
  "d_htable_find (fold ht_add [(3, 5), (4, 6)] (d_htable_init 8)) 11 5"
  using d_htable_find_after_inserts [of 8 "[(3, 5), (4, 6)]" 11 5] by force

end
