(* ===== verification/Ssd.thy ===== *)
theory Ssd
  imports Interfaces
begin

text \<open>
  The simulated flash device of \<^verbatim>\<open>lower/ssd.c\<close>: its geometry, the per-line write pointers, the
  state of every page, the busy time of every LUN and the counters, with the operations the
  translation layer calls (\<^verbatim>\<open>write\<close>, \<^verbatim>\<open>read\<close>, \<^verbatim>\<open>trim_block\<close>).  The value of the monotonic
  clock is an argument of every operation.  Times are natural numbers of nanoseconds.  \<open>None\<close> is
  an access outside the page or line arrays, which the disabled assertions do not catch.
\<close>

section \<open>Geometry\<close>

record ssdparams =
  secsz :: nat
  secs_per_pg :: nat
  pgs_per_blk :: nat
  blks_per_pl :: nat
  pls_per_lun :: nat
  luns_per_ch :: nat
  nchs :: nat
  pg_rd_lat :: nat
  pg_wr_lat :: nat
  blk_er_lat :: nat
  ch_xfer_lat :: nat
  enable_gc_delay :: bool
  secs_per_blk :: nat
  secs_per_pl :: nat
  secs_per_lun :: nat
  secs_per_ch :: nat
  tt_secs :: nat
  pgs_per_pl :: nat
  pgs_per_lun :: nat
  pgs_per_ch :: nat
  tt_pgs :: nat
  blks_per_lun :: nat
  blks_per_ch :: nat
  tt_blks :: nat
  secs_per_line :: nat
  pgs_per_line :: nat
  blks_per_line :: nat
  tt_lines :: nat
  pls_per_ch :: nat
  tt_pls :: nat
  tt_luns :: nat

definition NAND_READ_LATENCY :: nat where "NAND_READ_LATENCY = 50000"
definition NAND_WRITE_LATENCY :: nat where "NAND_WRITE_LATENCY = 500000"
definition NAND_ERASE_LATENCY :: nat where "NAND_ERASE_LATENCY = 5000000"
definition CHANNEL_XFER_LATENCY :: nat where "CHANNEL_XFER_LATENCY = 1000"

definition ssd_init_params :: ssdparams where
  "ssd_init_params =
     (let secsz = 512; secs_per_pg = 8; pgs_per_blk = 2048; blks_per_pl = 1178;
          pls_per_lun = 1; luns_per_ch = 8; nchs = 4;
          secs_per_blk = secs_per_pg * pgs_per_blk;
          secs_per_pl = secs_per_blk * blks_per_pl;
          secs_per_lun = secs_per_pl * pls_per_lun;
          secs_per_ch = secs_per_lun * luns_per_ch;
          pgs_per_pl = pgs_per_blk * blks_per_pl;
          pgs_per_lun = pgs_per_pl * pls_per_lun;
          pgs_per_ch = pgs_per_lun * luns_per_ch;
          blks_per_lun = blks_per_pl * pls_per_lun;
          blks_per_ch = blks_per_lun * luns_per_ch;
          pls_per_ch = pls_per_lun * luns_per_ch;
          tt_luns = luns_per_ch * nchs;
          blks_per_line = tt_luns;
          pgs_per_line = blks_per_line * pgs_per_blk
      in \<lparr>secsz = secsz, secs_per_pg = secs_per_pg, pgs_per_blk = pgs_per_blk,
          blks_per_pl = blks_per_pl, pls_per_lun = pls_per_lun, luns_per_ch = luns_per_ch,
          nchs = nchs, pg_rd_lat = NAND_READ_LATENCY, pg_wr_lat = NAND_WRITE_LATENCY,
          blk_er_lat = NAND_ERASE_LATENCY, ch_xfer_lat = CHANNEL_XFER_LATENCY,
          enable_gc_delay = True, secs_per_blk = secs_per_blk, secs_per_pl = secs_per_pl,
          secs_per_lun = secs_per_lun, secs_per_ch = secs_per_ch, tt_secs = secs_per_ch * nchs,
          pgs_per_pl = pgs_per_pl, pgs_per_lun = pgs_per_lun, pgs_per_ch = pgs_per_ch,
          tt_pgs = pgs_per_ch * nchs, blks_per_lun = blks_per_lun, blks_per_ch = blks_per_ch,
          tt_blks = blks_per_ch * nchs, secs_per_line = pgs_per_line * secs_per_pg,
          pgs_per_line = pgs_per_line, blks_per_line = blks_per_line, tt_lines = blks_per_lun,
          pls_per_ch = pls_per_ch, tt_pls = pls_per_ch * nchs, tt_luns = tt_luns\<rparr>)"

text \<open>\<^verbatim>\<open>toggle_ssd_lat\<close> of \<^verbatim>\<open>hash_hot_cmt/dftl_utils.c\<close> switches the latencies.\<close>

definition toggle_ssd_lat :: "bool \<Rightarrow> ssdparams \<Rightarrow> ssdparams" where
  "toggle_ssd_lat on sp =
     (if \<not> on then sp\<lparr>pg_wr_lat := 0, pg_rd_lat := 0, blk_er_lat := 0, ch_xfer_lat := 0\<rparr>
      else sp\<lparr>pg_wr_lat := NAND_WRITE_LATENCY, pg_rd_lat := NAND_READ_LATENCY,
              blk_er_lat := NAND_ERASE_LATENCY, ch_xfer_lat := CHANNEL_XFER_LATENCY\<rparr>)"

record ppa_fields =
  g_ch :: nat
  g_lun :: nat
  g_pl :: nat
  g_blk :: nat
  g_pg :: nat

definition pgidx2ppa :: "ssdparams \<Rightarrow> nat \<Rightarrow> ppa_fields" where
  "pgidx2ppa spp pgidx =
     \<lparr>g_ch = pgidx mod nchs spp,
      g_lun = (pgidx div nchs spp) mod luns_per_ch spp,
      g_pl = (pgidx div nchs spp div luns_per_ch spp) mod pls_per_lun spp,
      g_blk = (pgidx div nchs spp div luns_per_ch spp div pls_per_lun spp) mod blks_per_pl spp,
      g_pg = (pgidx div nchs spp div luns_per_ch spp div pls_per_lun spp div blks_per_pl spp)
               mod pgs_per_blk spp\<rparr>"

definition ppa2pgidx :: "ssdparams \<Rightarrow> ppa_fields \<Rightarrow> nat" where
  "ppa2pgidx spp ppa =
     g_ch ppa * pgs_per_ch spp + g_lun ppa * pgs_per_lun spp + g_pl ppa * pgs_per_pl spp
     + g_blk ppa * pgs_per_blk spp + g_pg ppa"

definition valid_ppa :: "ssdparams \<Rightarrow> ppa_fields \<Rightarrow> nat \<Rightarrow> bool" where
  "valid_ppa spp ppa sec \<longleftrightarrow>
     g_ch ppa < nchs spp \<and> g_lun ppa < luns_per_ch spp \<and> g_pl ppa < pls_per_lun spp \<and>
     g_blk ppa < blks_per_pl spp \<and> g_pg ppa < pgs_per_blk spp \<and> sec < secs_per_pg spp"

section \<open>State\<close>

record lower_stats =
  nr_nand_write :: nat
  nr_nand_read :: nat
  nr_nand_erase :: nat
  nr_nand_wr_lun :: "nat \<Rightarrow> nat"
  nr_nand_rd_lun :: "nat \<Rightarrow> nat"
  nr_nand_er_lun :: "nat \<Rightarrow> nat"

record ssd =
  sp :: ssdparams
  next_lun_avail_time :: "nat \<Rightarrow> nat \<Rightarrow> nat"
  ppa_state :: "nat \<Rightarrow> bool"
  line_wp :: "nat \<Rightarrow> nat"
  stats :: lower_stats

definition ssd_stats_init :: lower_stats where
  "ssd_stats_init = \<lparr>nr_nand_write = 0, nr_nand_read = 0, nr_nand_erase = 0,
     nr_nand_wr_lun = (\<lambda>_. 0), nr_nand_rd_lun = (\<lambda>_. 0), nr_nand_er_lun = (\<lambda>_. 0)\<rparr>"

definition ssd_init :: ssd where
  "ssd_init = \<lparr>sp = ssd_init_params, next_lun_avail_time = (\<lambda>_ _. 0), ppa_state = (\<lambda>_. False),
     line_wp = (\<lambda>_. 0), stats = ssd_stats_init\<rparr>"

definition LINE_IDX :: "ssd \<Rightarrow> nat \<Rightarrow> nat" where
  "LINE_IDX s ppa = ppa div pgs_per_line (sp s)"

section \<open>Operations\<close>

datatype nand_op = NAND_READ | NAND_WRITE | NAND_ERASE

definition op_latency :: "ssdparams \<Rightarrow> nand_op \<Rightarrow> nat" where
  "op_latency spp c = (case c of NAND_READ \<Rightarrow> pg_rd_lat spp | NAND_WRITE \<Rightarrow> pg_wr_lat spp
     | NAND_ERASE \<Rightarrow> blk_er_lat spp)"

text \<open>The three cases of the switch differ only in the latency they add.\<close>

definition ssd_advance_status :: "nat \<Rightarrow> ppa_fields \<Rightarrow> nand_op \<Rightarrow> nat \<Rightarrow> ssd \<Rightarrow> nat \<times> ssd" where
  "ssd_advance_status now ppa c stime s =
     (let cmd_stime = (if stime = 0 then now else stime);
          avail = next_lun_avail_time s (g_ch ppa) (g_lun ppa);
          nand_stime = (if avail < cmd_stime then cmd_stime else avail);
          avail' = nand_stime + op_latency (sp s) c
      in (avail' - cmd_stime,
          s\<lparr>next_lun_avail_time :=
              (next_lun_avail_time s)(g_ch ppa := (next_lun_avail_time s (g_ch ppa))(g_lun ppa := avail'))\<rparr>))"

definition lun_index :: "ssd \<Rightarrow> ppa_fields \<Rightarrow> nat" where
  "lun_index s ppa = g_ch ppa * luns_per_ch (sp s) + g_lun ppa"

datatype ssd_error = Overwrite_PPA | Out_of_order | Not_written

text \<open>
  The loops over the pages of a request: \<open>n\<close> pages to go.  An error returns at once and keeps what
  the earlier rounds did.
\<close>

fun ssd_write_loop :: "nat \<Rightarrow> nat \<Rightarrow> nat \<Rightarrow> nat \<Rightarrow> nat \<Rightarrow> ssd \<Rightarrow> ((ssd_error + nat) \<times> ssd) option" where
  "ssd_write_loop now 0 tmp_pgidx stime max_etime s = Some (Inr max_etime, s)"
| "ssd_write_loop now (Suc n) tmp_pgidx stime max_etime s =
     (if tmp_pgidx \<ge> tt_pgs (sp s) then None
      else if ppa_state s tmp_pgidx then Some (Inl Overwrite_PPA, s)
      else
        (let line_idx = LINE_IDX s tmp_pgidx;
             current_line_wp = line_wp s line_idx;
             target_offset_in_line = tmp_pgidx - line_idx * pgs_per_line (sp s)
         in if current_line_wp \<noteq> target_offset_in_line then Some (Inl Out_of_order, s)
            else
              (let s1 = s\<lparr>ppa_state := (ppa_state s)(tmp_pgidx := True),
                          line_wp := (line_wp s)(line_idx := line_wp s line_idx + 1)\<rparr>;
                   ppa = pgidx2ppa (sp s) tmp_pgidx;
                   i = lun_index s ppa;
                   s2 = s1\<lparr>stats := (stats s1)\<lparr>nr_nand_wr_lun :=
                          (nr_nand_wr_lun (stats s1))(i := nr_nand_wr_lun (stats s1) i + 1)\<rparr>\<rparr>;
                   (lat, s3) = ssd_advance_status now ppa NAND_WRITE stime s2;
                   etime = stime + lat
               in ssd_write_loop now n (Suc tmp_pgidx) stime
                    (if etime > max_etime then etime else max_etime) s3)))"

definition ssd_write_ppa :: "nat \<Rightarrow> nat \<Rightarrow> nat \<Rightarrow> nat \<Rightarrow> ssd \<Rightarrow> ((ssd_error + nat) \<times> ssd) option" where
  "ssd_write_ppa now pgidx sz stime0 s =
     (let stime = (if stime0 > now then stime0 else now) in do {
        (r, s') \<leftarrow> ssd_write_loop now (sz div PAGESIZE) pgidx stime 0 s;
        case r of
          Inl e \<Rightarrow> Some (Inl e, s')
        | Inr max_etime \<Rightarrow>
            Some (Inr (max_etime - stime),
              s'\<lparr>stats := (stats s')\<lparr>nr_nand_write := nr_nand_write (stats s') + sz div PAGESIZE\<rparr>\<rparr>)
      })"

fun ssd_read_loop :: "nat \<Rightarrow> nat \<Rightarrow> nat \<Rightarrow> nat \<Rightarrow> nat \<Rightarrow> ssd \<Rightarrow> ((ssd_error + nat) \<times> ssd) option" where
  "ssd_read_loop now 0 tmp_pgidx stime max_etime s = Some (Inr max_etime, s)"
| "ssd_read_loop now (Suc n) tmp_pgidx stime max_etime s =
     (if tmp_pgidx \<ge> tt_pgs (sp s) then None
      else if \<not> ppa_state s tmp_pgidx then Some (Inl Not_written, s)
      else
        (let ppa = pgidx2ppa (sp s) tmp_pgidx;
             i = lun_index s ppa;
             s2 = s\<lparr>stats := (stats s)\<lparr>nr_nand_rd_lun :=
                    (nr_nand_rd_lun (stats s))(i := nr_nand_rd_lun (stats s) i + 1)\<rparr>\<rparr>;
             (lat, s3) = ssd_advance_status now ppa NAND_READ stime s2;
             etime = stime + lat
         in ssd_read_loop now n (Suc tmp_pgidx) stime
              (if etime > max_etime then etime else max_etime) s3))"

definition ssd_read_ppa :: "nat \<Rightarrow> nat \<Rightarrow> nat \<Rightarrow> nat \<Rightarrow> ssd \<Rightarrow> ((ssd_error + nat) \<times> ssd) option" where
  "ssd_read_ppa now pgidx sz stime0 s =
     (let stime = (if stime0 > now then stime0 else now) in do {
        (r, s') \<leftarrow> ssd_read_loop now (sz div PAGESIZE) pgidx stime 0 s;
        case r of
          Inl e \<Rightarrow> Some (Inl e, s')
        | Inr max_etime \<Rightarrow>
            Some (Inr (max_etime - stime),
              s'\<lparr>stats := (stats s')\<lparr>nr_nand_read := nr_nand_read (stats s') + sz div PAGESIZE\<rparr>\<rparr>)
      })"

text \<open>One LUN of the erase loop, and the loop over \<open>i < tt_luns\<close>; \<^verbatim>\<open>maxlat\<close> has 32 bits.\<close>

definition ssd_trim_lun :: "nat \<Rightarrow> nat \<Rightarrow> nat \<Rightarrow> nat \<times> ssd \<Rightarrow> nat \<times> ssd" where
  "ssd_trim_lun now pgidx i = (\<lambda>(maxlat, s).
     let ppa = pgidx2ppa (sp s) (pgidx + i);
         k = lun_index s ppa;
         s1 = s\<lparr>stats := (stats s)\<lparr>nr_nand_er_lun :=
                (nr_nand_er_lun (stats s))(k := nr_nand_er_lun (stats s) k + 1)\<rparr>\<rparr>;
         (lat, s2) = ssd_advance_status now ppa NAND_ERASE now s1
     in (if lat > maxlat then lat mod 2 ^ 32 else maxlat, s2))"

definition ssd_trim_block :: "nat \<Rightarrow> nat \<Rightarrow> ssd \<Rightarrow> (nat \<times> ssd) option" where
  "ssd_trim_block now pgidx s =
     (if pgidx + pgs_per_line (sp s) > tt_pgs (sp s) then None
      else
        (let (maxlat, s1) = fold (ssd_trim_lun now pgidx) [0..<tt_luns (sp s)] (0, s);
             s2 = s1\<lparr>ppa_state := (\<lambda>p. if pgidx \<le> p \<and> p < pgidx + pgs_per_line (sp s) then False
                                       else ppa_state s1 p),
                     line_wp := (line_wp s1)(LINE_IDX s1 pgidx := 0)\<rparr>;
             s3 = s2\<lparr>stats := (stats s2)\<lparr>nr_nand_erase :=
                       nr_nand_erase (stats s2) + pgs_per_line (sp s2)\<rparr>\<rparr>
         in Some (maxlat, s3)))"

section \<open>Invariant\<close>

text \<open>
  A line is written from its start up to its write pointer, and nowhere else.
\<close>

definition geometry_ok :: "ssdparams \<Rightarrow> bool" where
  "geometry_ok g \<longleftrightarrow> 0 < pgs_per_line g \<and> tt_pgs g = tt_lines g * pgs_per_line g"

definition ssd_wf :: "ssd \<Rightarrow> bool" where
  "ssd_wf s \<longleftrightarrow> geometry_ok (sp s) \<and>
     (\<forall>l < tt_lines (sp s). line_wp s l \<le> pgs_per_line (sp s)) \<and>
     (\<forall>p < tt_pgs (sp s). ppa_state s p \<longleftrightarrow>
        p mod pgs_per_line (sp s) < line_wp s (p div pgs_per_line (sp s)))"

lemma geometry_ok_init [simp]: "geometry_ok ssd_init_params"
  by (simp add: geometry_ok_def ssd_init_params_def Let_def)

lemma line_page_less:
  assumes "geometry_ok g" and "l < tt_lines g" and "i < pgs_per_line g"
  shows "l * pgs_per_line g + i < tt_pgs g"
proof -
  have "l * pgs_per_line g + i < Suc l * pgs_per_line g"
    using assms(3) by simp
  also have "\<dots> \<le> tt_lines g * pgs_per_line g"
    using assms(2) by (intro mult_le_mono1) simp
  finally show ?thesis
    using assms(1) by (simp add: geometry_ok_def)
qed

lemma line_of_page:
  assumes "geometry_ok g" and "p < tt_pgs g"
  shows "p div pgs_per_line g < tt_lines g"
  using assms by (simp add: geometry_ok_def less_mult_imp_div_less)

lemma ssd_wf_init: "ssd_wf ssd_init"
  by (simp add: ssd_wf_def ssd_init_def)

lemma ssd_wf_stats [simp]: "ssd_wf (s\<lparr>stats := st\<rparr>) = ssd_wf s"
  by (simp add: ssd_wf_def)

lemma advance_status_frame:
  assumes "ssd_advance_status now ppa c stime s = (lat, s')"
  shows "sp s' = sp s" and "ppa_state s' = ppa_state s" and "line_wp s' = line_wp s"
    and "stats s' = stats s"
  using assms by (auto simp: ssd_advance_status_def Let_def)

lemma advance_status_latency:
  assumes "ssd_advance_status now ppa c stime s = (lat, s')"
  shows "op_latency (sp s) c \<le> lat"
  using assms by (auto simp: ssd_advance_status_def Let_def split: if_splits)

text \<open>Marking the page at the write pointer of its line.\<close>

lemma ssd_wf_mark:
  assumes wf: "ssd_wf s" and p: "p < tt_pgs (sp s)"
    and wp: "line_wp s (p div pgs_per_line (sp s)) = p mod pgs_per_line (sp s)"
    and s': "sp s' = sp s" "ppa_state s' = (ppa_state s)(p := True)"
      "line_wp s' = (line_wp s)(p div pgs_per_line (sp s) := p mod pgs_per_line (sp s) + 1)"
  shows "ssd_wf s'"
proof -
  let ?ppl = "pgs_per_line (sp s)"
  have "0 < ?ppl"
    using wf by (simp add: ssd_wf_def geometry_ok_def)
  then have off: "p mod ?ppl + 1 \<le> ?ppl"
    by (simp add: Suc_leI)
  have unique: "q mod ?ppl \<noteq> p mod ?ppl" if "q div ?ppl = p div ?ppl" "q \<noteq> p" for q
    using that by (metis div_mult_mod_eq)
  have "ppa_state s' q \<longleftrightarrow> q mod ?ppl < line_wp s' (q div ?ppl)" if "q < tt_pgs (sp s)" for q
    using wf wp unique [of q] that unfolding ssd_wf_def s'
    by (cases "q = p"; cases "q div ?ppl = p div ?ppl") (auto simp: less_Suc_eq)
  then show ?thesis
    using wf off unfolding ssd_wf_def by (simp add: s')
qed

lemma ssd_write_loop_ok:
  assumes "ssd_wf s" and "l < tt_lines (sp s)" and "p = l * pgs_per_line (sp s) + line_wp s l"
    and "line_wp s l + n \<le> pgs_per_line (sp s)"
  shows "\<exists>m s'. ssd_write_loop now n p stime e s = Some (Inr m, s') \<and> ssd_wf s' \<and> e \<le> m \<and>
    (0 < n \<longrightarrow> stime + pg_wr_lat (sp s) \<le> m) \<and> sp s' = sp s \<and>
    line_wp s' = (line_wp s)(l := line_wp s l + n)"
  using assms
proof (induction n arbitrary: p e s)
  case 0
  then show ?case by simp
next
  case (Suc n)
  let ?ppl = "pgs_per_line (sp s)"
  have off: "line_wp s l < ?ppl"
    using Suc.prems(4) by simp
  have geo: "geometry_ok (sp s)"
    using Suc.prems(1) by (simp add: ssd_wf_def)
  have p_in: "p < tt_pgs (sp s)"
    using line_page_less [OF geo Suc.prems(2) off] by (simp add: Suc.prems(3))
  have div_p: "p div ?ppl = l" "p mod ?ppl = line_wp s l"
    using off by (simp_all add: Suc.prems(3))
  have free: "\<not> ppa_state s p"
    using Suc.prems(1) p_in div_p by (simp add: ssd_wf_def)
  define s1 where "s1 = s\<lparr>ppa_state := (ppa_state s)(p := True), line_wp := (line_wp s)(l := line_wp s l + 1)\<rparr>"
  define i where "i = lun_index s (pgidx2ppa (sp s) p)"
  define s2 where "s2 = s1\<lparr>stats := (stats s1)\<lparr>nr_nand_wr_lun :=
    (nr_nand_wr_lun (stats s1))(i := nr_nand_wr_lun (stats s1) i + 1)\<rparr>\<rparr>"
  obtain lat s3 where adv: "ssd_advance_status now (pgidx2ppa (sp s) p) NAND_WRITE stime s2 = (lat, s3)"
    by fastforce
  have s3: "sp s3 = sp s" "ppa_state s3 = (ppa_state s)(p := True)"
    "line_wp s3 = (line_wp s)(l := line_wp s l + 1)"
    using advance_status_frame [OF adv] by (simp_all add: s2_def s1_def)
  have wf3: "ssd_wf s3"
    by (rule ssd_wf_mark [OF Suc.prems(1) p_in]) (use s3 div_p in simp_all)
  have lat: "pg_wr_lat (sp s) \<le> lat"
    using advance_status_latency [OF adv] by (simp add: op_latency_def s2_def s1_def)
  define e' where "e' = (if stime + lat > e then stime + lat else e)"
  have "\<exists>m s'. ssd_write_loop now n (Suc p) stime e' s3 = Some (Inr m, s') \<and> ssd_wf s' \<and> e' \<le> m \<and>
      (0 < n \<longrightarrow> stime + pg_wr_lat (sp s3) \<le> m) \<and> sp s' = sp s3 \<and>
      line_wp s' = (line_wp s3)(l := line_wp s3 l + n)"
    by (rule Suc.IH [OF wf3]) (use Suc.prems s3 in auto)
  then obtain m s' where IH: "ssd_write_loop now n (Suc p) stime e' s3 = Some (Inr m, s')"
    "ssd_wf s'" "e' \<le> m" "sp s' = sp s" "line_wp s' = (line_wp s)(l := line_wp s l + Suc n)"
    using s3 by auto
  have step: "ssd_write_loop now (Suc n) p stime e s = Some (Inr m, s')"
    using p_in free div_p adv IH(1) Suc.prems(3)
    by (simp add: LINE_IDX_def s1_def s2_def i_def Let_def e'_def)
  show ?case
    using step IH lat by (auto simp: e'_def split: if_splits)
qed

lemma ssd_write_loop_wf:
  "ssd_wf s \<Longrightarrow> ssd_write_loop now n p stime e s = Some (r, s') \<Longrightarrow> ssd_wf s' \<and> sp s' = sp s"
proof (induction n arbitrary: p e s)
  case 0
  then show ?case by simp
next
  case (Suc n)
  show ?case
  proof (cases "p < tt_pgs (sp s) \<and> \<not> ppa_state s p \<and>
      line_wp s (p div pgs_per_line (sp s)) = p mod pgs_per_line (sp s)")
    case True
    define s1 where "s1 = s\<lparr>ppa_state := (ppa_state s)(p := True),
      line_wp := (line_wp s)(p div pgs_per_line (sp s) := p mod pgs_per_line (sp s) + 1)\<rparr>"
    define i where "i = lun_index s (pgidx2ppa (sp s) p)"
    define s2 where "s2 = s1\<lparr>stats := (stats s1)\<lparr>nr_nand_wr_lun :=
      (nr_nand_wr_lun (stats s1))(i := nr_nand_wr_lun (stats s1) i + 1)\<rparr>\<rparr>"
    obtain lat s3 where adv: "ssd_advance_status now (pgidx2ppa (sp s) p) NAND_WRITE stime s2 = (lat, s3)"
      by fastforce
    have s3: "sp s3 = sp s" "ppa_state s3 = (ppa_state s)(p := True)"
      "line_wp s3 = (line_wp s)(p div pgs_per_line (sp s) := p mod pgs_per_line (sp s) + 1)"
      using advance_status_frame [OF adv] by (simp_all add: s2_def s1_def)
    have "ssd_wf s3"
      using True by (intro ssd_wf_mark [OF Suc.prems(1) _ _ s3]) auto
    then show ?thesis
      using Suc.IH [of s3] Suc.prems(2) True adv s3(1)
      by (simp add: LINE_IDX_def minus_div_mult_eq_mod s1_def s2_def i_def Let_def)
  next
    case False
    with Suc.prems show ?thesis
      by (auto simp: LINE_IDX_def minus_div_mult_eq_mod Let_def split: if_splits)
  qed
qed

lemma ssd_read_loop_frame:
  "ssd_read_loop now n p stime e s = Some (r, s') \<Longrightarrow>
    sp s' = sp s \<and> ppa_state s' = ppa_state s \<and> line_wp s' = line_wp s"
proof (induction n arbitrary: p e s)
  case 0
  then show ?case by simp
next
  case (Suc n)
  define i where "i = lun_index s (pgidx2ppa (sp s) p)"
  obtain lat s3 where adv: "ssd_advance_status now (pgidx2ppa (sp s) p) NAND_READ stime
      (s\<lparr>stats := (stats s)\<lparr>nr_nand_rd_lun := (nr_nand_rd_lun (stats s))(i := nr_nand_rd_lun (stats s) i + 1)\<rparr>\<rparr>)
      = (lat, s3)"
    by fastforce
  from Suc.prems Suc.IH [of _ _ s3] show ?case
    using advance_status_frame [OF adv] adv
    by (auto simp: i_def Let_def split: if_splits)
qed

lemma ssd_read_loop_returns:
  assumes "p + n \<le> tt_pgs (sp s)"
  shows "\<exists>r s'. ssd_read_loop now n p stime e s = Some (r, s') \<and>
    (isl r \<longleftrightarrow> (\<exists>i < n. \<not> ppa_state s (p + i)))"
  using assms
proof (induction n arbitrary: p e s)
  case 0
  then show ?case by simp
next
  case (Suc n)
  have ex: "(\<exists>i < Suc n. \<not> ppa_state s (p + i)) \<longleftrightarrow>
      \<not> ppa_state s p \<or> (\<exists>i < n. \<not> ppa_state s (Suc p + i))"
    by (auto simp: less_Suc_eq_0_disj)
  define i where "i = lun_index s (pgidx2ppa (sp s) p)"
  obtain lat s3 where adv: "ssd_advance_status now (pgidx2ppa (sp s) p) NAND_READ stime
      (s\<lparr>stats := (stats s)\<lparr>nr_nand_rd_lun := (nr_nand_rd_lun (stats s))(i := nr_nand_rd_lun (stats s) i + 1)\<rparr>\<rparr>)
      = (lat, s3)"
    by fastforce
  have s3: "sp s3 = sp s" "ppa_state s3 = ppa_state s"
    using advance_status_frame [OF adv] by simp_all
  show ?case
    using Suc.IH [of "Suc p" s3] Suc.prems s3 adv unfolding ex
    by (auto simp: i_def Let_def)
qed

text \<open>Both requests keep the invariant, whatever their arguments and whether or not they fail.\<close>

lemma ssd_write_ppa_wf:
  assumes "ssd_wf s" and "ssd_write_ppa now p sz stime s = Some (r, s')"
  shows "ssd_wf s' \<and> sp s' = sp s"
proof -
  obtain r0 s0 where loop: "ssd_write_loop now (sz div PAGESIZE) p (if stime > now then stime else now) 0 s
      = Some (r0, s0)"
    using assms(2) by (auto simp: ssd_write_ppa_def bind_Some_iff Let_def)
  have "ssd_wf s0 \<and> sp s0 = sp s"
    using ssd_write_loop_wf [OF assms(1) loop] .
  then show ?thesis
    using assms(2) loop by (auto simp: ssd_write_ppa_def ssd_wf_def split: sum.splits)
qed

lemma ssd_read_ppa_frame:
  assumes "ssd_read_ppa now p sz stime s = Some (r, s')"
  shows "sp s' = sp s \<and> ppa_state s' = ppa_state s \<and> line_wp s' = line_wp s"
proof -
  obtain r0 s0 where loop: "ssd_read_loop now (sz div PAGESIZE) p (if stime > now then stime else now) 0 s
      = Some (r0, s0)"
    using assms by (auto simp: ssd_read_ppa_def bind_Some_iff Let_def)
  then show ?thesis
    using assms ssd_read_loop_frame [OF loop] by (auto simp: ssd_read_ppa_def split: sum.splits)
qed

lemma ssd_trim_fold_frame:
  "fold (ssd_trim_lun now p) is (m, s) = (m', s') \<Longrightarrow>
    sp s' = sp s \<and> ppa_state s' = ppa_state s \<and> line_wp s' = line_wp s"
proof (induction "is" arbitrary: m s)
  case Nil
  then show ?case by simp
next
  case (Cons i "is")
  obtain m1 s1 where step: "ssd_trim_lun now p i (m, s) = (m1, s1)"
    by fastforce
  have "sp s1 = sp s \<and> ppa_state s1 = ppa_state s \<and> line_wp s1 = line_wp s"
    using step by (auto simp: ssd_trim_lun_def Let_def ssd_advance_status_def split: prod.splits)
  with Cons.IH [of m1 s1] Cons.prems step show ?case by simp
qed

lemma ssd_trim_block_returns:
  assumes wf: "ssd_wf s" and l: "l < tt_lines (sp s)"
  shows "returns (ssd_trim_block now (l * pgs_per_line (sp s)) s) (\<lambda>(lat, s').
    ssd_wf s' \<and> sp s' = sp s \<and> line_wp s' = (line_wp s)(l := 0))"
proof -
  let ?ppl = "pgs_per_line (sp s)"
  let ?p = "l * ?ppl"
  have geo: "geometry_ok (sp s)" "0 < ?ppl"
    using wf by (auto simp: ssd_wf_def geometry_ok_def)
  have fits: "?p + ?ppl \<le> tt_pgs (sp s)"
    using line_page_less [OF geo(1) l, of "?ppl - 1"] geo(2) by simp
  obtain m s1 where loop: "fold (ssd_trim_lun now ?p) [0..<tt_luns (sp s)] (0, s) = (m, s1)"
    by fastforce
  note s1 = ssd_trim_fold_frame [OF loop]
  define s2 where "s2 = s1\<lparr>ppa_state := (\<lambda>q. if ?p \<le> q \<and> q < ?p + ?ppl then False else ppa_state s1 q),
    line_wp := (line_wp s1)(l := 0)\<rparr>"
  have line: "?p \<le> q \<and> q < ?p + ?ppl \<longleftrightarrow> q div ?ppl = l" for q
    using geo(2) by (metis add.commute div_nat_eqI dividend_less_times_div div_times_less_eq_dividend
        mult.commute mult_Suc)
  have "ssd_wf s2"
    using wf s1 unfolding ssd_wf_def s2_def by (simp add: line)
  moreover have "ssd_trim_block now ?p s = Some (m, s2\<lparr>stats := (stats s2)\<lparr>nr_nand_erase :=
      nr_nand_erase (stats s2) + pgs_per_line (sp s2)\<rparr>\<rparr>)"
    using fits loop s1 geo(2) by (simp add: ssd_trim_block_def LINE_IDX_def s2_def)
  ultimately show ?thesis
    using s1 by (simp add: returns_def ssd_wf_def s2_def)
qed

section \<open>The device as the translation layer uses it\<close>

text \<open>The callers abort when a write reports an error.\<close>

definition ssd_program :: "nat \<Rightarrow> nat \<Rightarrow> nat \<Rightarrow> ssd \<Rightarrow> ssd option" where
  "ssd_program now p n s = do {
     (r, s') \<leftarrow> ssd_write_ppa now p (n * PAGESIZE) 0 s;
     case r of Inl _ \<Rightarrow> None | Inr _ \<Rightarrow> Some s'
   }"

definition ssd_erase :: "nat \<Rightarrow> nat \<Rightarrow> ssd \<Rightarrow> ssd option" where
  "ssd_erase now p s = map_option snd (ssd_trim_block now p s)"

definition ssd_readable :: "nat \<Rightarrow> ssd \<Rightarrow> nat \<Rightarrow> bool" where
  "ssd_readable now s p = (case ssd_read_ppa now p PAGESIZE 0 s of Some (Inr _, _) \<Rightarrow> True | _ \<Rightarrow> False)"

lemma ssd_program_returns:
  assumes "ssd_wf s" and "l < tt_lines (sp s)" and "line_wp s l + n \<le> pgs_per_line (sp s)"
  shows "returns (ssd_program now (l * pgs_per_line (sp s) + line_wp s l) n s)
    (\<lambda>s'. ssd_wf s' \<and> tt_lines (sp s') = tt_lines (sp s) \<and> pgs_per_line (sp s') = pgs_per_line (sp s) \<and>
      line_wp s' = (line_wp s)(l := line_wp s l + n))"
proof -
  from ssd_write_loop_ok [OF assms(1,2) refl assms(3), of now now 0]
  obtain m s' where loop: "ssd_write_loop now n (l * pgs_per_line (sp s) + line_wp s l) now 0 s = Some (Inr m, s')"
    and s': "ssd_wf s'" "sp s' = sp s" "line_wp s' = (line_wp s)(l := line_wp s l + n)"
    by auto
  show ?thesis
    using s' by (simp add: ssd_program_def ssd_write_ppa_def PAGESIZE_val loop)
qed

lemma ssd_readable_iff:
  "p < tt_pgs (sp s) \<Longrightarrow> ssd_readable now s p \<longleftrightarrow> ppa_state s p"
  using ssd_read_loop_returns [of p 1 s now "if 0 < now then 0 else now" 0]
  by (auto simp: ssd_readable_def ssd_read_ppa_def Let_def PAGESIZE_val split: sum.splits prod.splits)

interpretation dev: flash_device ssd_wf "\<lambda>s. tt_lines (sp s)" "\<lambda>s. pgs_per_line (sp s)" line_wp
    "ssd_readable now" "ssd_program now" "ssd_erase now" for now
proof
  show "returns (ssd_erase now (l * pgs_per_line (sp s)) s) (\<lambda>s'. ssd_wf s' \<and>
      tt_lines (sp s') = tt_lines (sp s) \<and> pgs_per_line (sp s') = pgs_per_line (sp s) \<and>
      line_wp s' = (line_wp s)(l := 0))" if "ssd_wf s" "l < tt_lines (sp s)" for s l
    using ssd_trim_block_returns [OF that, of now] by (auto simp: ssd_erase_def returns_def)
  show "ssd_readable now s (l * pgs_per_line (sp s) + i) \<longleftrightarrow> i < line_wp s l"
    if "ssd_wf s" "l < tt_lines (sp s)" "i < pgs_per_line (sp s)" for s l i
    using that line_page_less [of "sp s" l i] by (simp add: ssd_readable_iff ssd_wf_def)
qed (rule ssd_program_returns)

section \<open>Properties\<close>

text \<open>
  C30. Program order.  On a well-formed device, a write of \<open>n\<close> pages that fits its line succeeds
  exactly when it starts at the write pointer of the line; a write below the pointer is reported as
  an overwrite and a write above it as out of order, and neither changes the device.
\<close>

theorem ssd_write_program_order:
  assumes "ssd_wf s" and "l < tt_lines (sp s)" and "0 < n" and "i + n \<le> pgs_per_line (sp s)"
  shows "returns (ssd_write_ppa now (l * pgs_per_line (sp s) + i) (n * PAGESIZE) stime s) (\<lambda>(r, s').
    if i < line_wp s l then r = Inl Overwrite_PPA \<and> s' = s
    else if line_wp s l < i then r = Inl Out_of_order \<and> s' = s
    else (\<exists>lat. r = Inr lat \<and> pg_wr_lat (sp s) \<le> lat) \<and> ssd_wf s' \<and>
      line_wp s' = (line_wp s)(l := line_wp s l + n))"
proof (cases "i = line_wp s l")
  case True
  define st where "st = (if stime > now then stime else now)"
  from ssd_write_loop_ok [OF assms(1,2) refl, of n now st 0] assms True
  obtain m s' where "ssd_write_loop now n (l * pgs_per_line (sp s) + i) st 0 s = Some (Inr m, s')"
    "ssd_wf s'" "st + pg_wr_lat (sp s) \<le> m" "line_wp s' = (line_wp s)(l := line_wp s l + n)"
    by auto
  then show ?thesis
    using True by (simp add: ssd_write_ppa_def st_def [symmetric] PAGESIZE_val)
next
  case False
  let ?p = "l * pgs_per_line (sp s) + i"
  have i: "i < pgs_per_line (sp s)"
    using assms(3,4) by simp
  have geo: "geometry_ok (sp s)"
    using assms(1) by (simp add: ssd_wf_def)
  have p: "?p < tt_pgs (sp s)" "?p div pgs_per_line (sp s) = l" "?p mod pgs_per_line (sp s) = i"
    using line_page_less [OF geo assms(2) i] i by simp_all
  then have st: "ppa_state s ?p \<longleftrightarrow> i < line_wp s l"
    using assms(1) by (simp add: ssd_wf_def)
  obtain k where n: "n = Suc k"
    using assms(3) by (cases n) auto
  show ?thesis
    using False p st
    by (auto simp: ssd_write_ppa_def returns_def Let_def PAGESIZE_val n LINE_IDX_def)
qed

lemma ssd_write_program_order_witness:
  "returns (ssd_write_ppa 7 (2 * 65536 + 0) (1 * PAGESIZE) 0 ssd_init) (\<lambda>(r, s').
    \<exists>lat. r = Inr lat \<and> 500000 \<le> lat)"
  using ssd_write_program_order [of ssd_init 2 1 0 7 0] ssd_wf_init
  by (simp add: ssd_init_def ssd_init_params_def NAND_WRITE_LATENCY_def Let_def)
    (auto elim!: returns_mono)

text \<open>
  The life of a line.  After a trim of a line of a well-formed device, any batch of adjacent
  writes from its start that fits into it is accepted without error, and afterwards a read of a
  page of the line succeeds exactly for the pages of the batch.
\<close>

theorem ssd_trim_then_fill:
  assumes "ssd_wf s" and "l < tt_lines (sp s)" and "sum_list ns \<le> pgs_per_line (sp s)"
  shows "returns (ssd_erase now (l * pgs_per_line (sp s)) s) (\<lambda>s1.
    returns (program_all (ssd_program now) (tiles (l * pgs_per_line (sp s)) ns) s1) (\<lambda>s2. ssd_wf s2 \<and>
      (\<forall>i < pgs_per_line (sp s). ssd_readable now s2 (l * pgs_per_line (sp s) + i) \<longleftrightarrow> i < sum_list ns)))"
  using assms by (rule dev.erase_program)

lemma ssd_trim_then_fill_witness:
  "returns (ssd_erase 9 (3 * 65536) ssd_init) (\<lambda>s1.
    returns (program_all (ssd_program 9) (tiles (3 * 65536) [2, 1]) s1) (\<lambda>s2. ssd_wf s2 \<and>
      (\<forall>i < 65536. ssd_readable 9 s2 (3 * 65536 + i) \<longleftrightarrow> i < 3)))"
  using ssd_trim_then_fill [of ssd_init 3 "[2, 1]" 9] ssd_wf_init
  by (simp add: ssd_init_def ssd_init_params_def Let_def)

text \<open>
  The two address maps of the device are not inverse: \<^verbatim>\<open>pgidx2ppa\<close> interleaves
  consecutive pages over channels and LUNs, \<^verbatim>\<open>ppa2pgidx\<close> is channel-major, so page 1 is
  mapped back to the first page of channel 1.
\<close>

theorem ppa2pgidx_not_inverse:
  "ppa2pgidx ssd_init_params (pgidx2ppa ssd_init_params 1) = 19300352 \<and>
   valid_ppa ssd_init_params (pgidx2ppa ssd_init_params 1) 0"
  by (simp add: ppa2pgidx_def pgidx2ppa_def valid_ppa_def ssd_init_params_def Let_def)

end
