(* ===== verification/Bm.thy ===== *)
theory Bm
  imports Ssd
begin

text \<open>
  The block manager of \<^verbatim>\<open>hash_hot_cmt/dftl_bm.c\<close> and \<^verbatim>\<open>bm.h\<close>, built with
  \<^verbatim>\<open>DATA_SEGREGATION\<close>: superblocks and their two partitions, validity bits and out-of-band
  records of the grains, the eight write streams, the choice of active superblocks and of victims.
  A superblock pointer is its index; \<open>None\<close> as a pointer is \<^verbatim>\<open>NULL\<close>.  The tables are functions on
  indices; an access outside their C bounds makes the operation \<open>None\<close>, like \<^verbatim>\<open>abort()\<close>.
\<close>

section \<open>State\<close>

definition MAX_GC_STREAM :: nat where "MAX_GC_STREAM = 8"
definition MAP_S :: nat where "MAP_S = 0"
definition DATA_S :: nat where "DATA_S = 1"
definition SBLK_END :: nat where "SBLK_END = PPS"

definition SBLK_IDX :: "ppa_t \<Rightarrow> nat" where
  "SBLK_IDX x = x div PPS"

definition SBLK_OFFT2PPA :: "nat \<Rightarrow> nat \<Rightarrow> ppa_t" where
  "SBLK_OFFT2PPA k offt = k * PPS + offt"

lemma part_vals [settings]: "MAX_GC_STREAM = 8" "MAP_S = 0" "DATA_S = 1" "SBLK_END = 65536"
  by (simp_all add: MAX_GC_STREAM_def MAP_S_def DATA_S_def SBLK_END_def PPS_val)

record bm_oob =
  is_tpage :: bool
  oob_lpa :: lpa_t
  oob_length :: nat

record sblk =
  valid_cnt :: u32
  wp_offt :: nat
  gc_cnt :: nat
  is_owned :: bool
  stream_idx :: int
  is_rsv :: bool

text \<open>The unsigned \<^verbatim>\<open>-1\<close> of \<^verbatim>\<open>stream_idx\<close> is the integer \<open>- 1\<close>, the one of \<^verbatim>\<open>active_sblk\<close> is \<open>None\<close>.\<close>

record bm_part =
  s_sblk :: nat
  e_sblk :: nat
  sblk_rsv :: nat
  free_sblk_cnt :: u32
  active_sblk :: "nat option"
  rsv_sblk_cnt :: u32

record bm_stream =
  st_idx :: nat
  active_sblk_offset :: nat
  active_ppa :: ppa_t
  flush_ppa :: ppa_t
  flush_page :: nat
  page_remain :: nat
  grain_remain :: u32
  st_active :: "nat option"

record bm =
  valid_bitmap :: "nat \<Rightarrow> bool"
  oob :: "nat \<Rightarrow> bm_oob"
  part :: "nat \<Rightarrow> bm_part"
  sblk :: "nat \<Rightarrow> sblk"
  stream :: "nat \<Rightarrow> bm_stream"

definition grain_cnt :: nat where
  "grain_cnt = GRAIN_PER_PAGE * NOP"

definition upd_sblk :: "nat \<Rightarrow> (sblk \<Rightarrow> sblk) \<Rightarrow> bm \<Rightarrow> bm" where
  "upd_sblk k f b = b\<lparr>sblk := (sblk b)(k := f (sblk b k))\<rparr>"

definition upd_part :: "nat \<Rightarrow> (bm_part \<Rightarrow> bm_part) \<Rightarrow> bm \<Rightarrow> bm" where
  "upd_part p f b = b\<lparr>part := (part b)(p := f (part b p))\<rparr>"

definition upd_stream :: "nat \<Rightarrow> (bm_stream \<Rightarrow> bm_stream) \<Rightarrow> bm \<Rightarrow> bm" where
  "upd_stream i f b = b\<lparr>stream := (stream b)(i := f (stream b i))\<rparr>"

lemma upd_sblk_simps [simp]:
  "valid_bitmap (upd_sblk k f b) = valid_bitmap b" "oob (upd_sblk k f b) = oob b"
  "part (upd_sblk k f b) = part b" "stream (upd_sblk k f b) = stream b"
  "sblk (upd_sblk k f b) = (sblk b)(k := f (sblk b k))"
  by (simp_all add: upd_sblk_def)

lemma upd_part_simps [simp]:
  "valid_bitmap (upd_part k f b) = valid_bitmap b" "oob (upd_part k f b) = oob b"
  "sblk (upd_part k f b) = sblk b" "stream (upd_part k f b) = stream b"
  "part (upd_part k f b) = (part b)(k := f (part b k))"
  by (simp_all add: upd_part_def)

lemma upd_stream_simps [simp]:
  "valid_bitmap (upd_stream k f b) = valid_bitmap b" "oob (upd_stream k f b) = oob b"
  "part (upd_stream k f b) = part b" "sblk (upd_stream k f b) = sblk b"
  "stream (upd_stream k f b) = (stream b)(k := f (stream b k))"
  by (simp_all add: upd_stream_def)

section \<open>Validity of grains and pages\<close>

definition dftl_isvalid_grain :: "bm \<Rightarrow> nat \<Rightarrow> bool option" where
  "dftl_isvalid_grain b grain = (if grain \<ge> grain_cnt then None else Some (valid_bitmap b grain))"

definition dftl_validate_grain :: "nat \<Rightarrow> bm \<Rightarrow> bm option" where
  "dftl_validate_grain grain b =
     (if grain \<ge> grain_cnt \<or> SBLK_IDX (grain div GRAIN_PER_PAGE) \<ge> NOS then None
      else
        (let k = SBLK_IDX (grain div GRAIN_PER_PAGE);
             b1 = b\<lparr>valid_bitmap := (valid_bitmap b)(grain := True)\<rparr>;
             b2 = upd_sblk k (\<lambda>s. s\<lparr>valid_cnt := valid_cnt s + 1\<rparr>) b1
         in if unat (valid_cnt (sblk b2 k)) > PPS * GRAIN_PER_PAGE then None else Some b2))"

definition dftl_invalidate_grain :: "nat \<Rightarrow> bm \<Rightarrow> bm option" where
  "dftl_invalidate_grain grain b =
     (if grain \<ge> grain_cnt \<or> SBLK_IDX (grain div GRAIN_PER_PAGE) \<ge> NOS then None
      else
        (let k = SBLK_IDX (grain div GRAIN_PER_PAGE);
             b1 = b\<lparr>valid_bitmap := (valid_bitmap b)(grain := False)\<rparr>
         in Some (upd_sblk k (\<lambda>s. s\<lparr>valid_cnt := valid_cnt s - 1\<rparr>) b1)))"

definition dftl_isvalid_page :: "bm \<Rightarrow> ppa_t \<Rightarrow> bool option" where
  "dftl_isvalid_page b ppa = dftl_isvalid_grain b (ppa * GRAIN_PER_PAGE)"

text \<open>One round of the page loops; the count wraps without a check here.\<close>

definition page_round :: "bool \<Rightarrow> u32 \<Rightarrow> ppa_t \<Rightarrow> nat \<Rightarrow> bm option \<Rightarrow> bm option" where
  "page_round v d ppa i r = do {
     b \<leftarrow> r;
     if ppa * GRAIN_PER_PAGE + i \<ge> grain_cnt \<or> SBLK_IDX ppa \<ge> NOS then None
     else Some (upd_sblk (SBLK_IDX ppa) (\<lambda>s. s\<lparr>valid_cnt := valid_cnt s + d\<rparr>)
                  (b\<lparr>valid_bitmap := (valid_bitmap b)(ppa * GRAIN_PER_PAGE + i := v)\<rparr>))
   }"

definition dftl_validate_page :: "ppa_t \<Rightarrow> bm \<Rightarrow> bm option" where
  "dftl_validate_page ppa b = fold (page_round True 1 ppa) [0..<GRAIN_PER_PAGE] (Some b)"

definition dftl_invalidate_page :: "ppa_t \<Rightarrow> bm \<Rightarrow> bm option" where
  "dftl_invalidate_page ppa b = fold (page_round False (- 1) ppa) [0..<GRAIN_PER_PAGE] (Some b)"

definition dftl_bm_get_oob :: "bm \<Rightarrow> nat \<Rightarrow> bm_oob option" where
  "dftl_bm_get_oob b grain = (if grain \<ge> grain_cnt then None else Some (oob b grain))"

definition dftl_bm_set_oob :: "nat \<Rightarrow> bm_oob \<Rightarrow> bm \<Rightarrow> bm option" where
  "dftl_bm_set_oob grain ob b =
     (if grain \<ge> grain_cnt then None else Some (b\<lparr>oob := (oob b)(grain := ob)\<rparr>))"

section \<open>Active superblocks\<close>

definition dftl_check_full :: "bm \<Rightarrow> nat \<Rightarrow> bool" where
  "dftl_check_full b k \<longleftrightarrow> wp_offt (sblk b k) \<ge> SBLK_END"

definition dftl_get_page_num :: "nat \<Rightarrow> bm \<Rightarrow> ppa_t \<times> bm" where
  "dftl_get_page_num k b =
     (SBLK_OFFT2PPA k (wp_offt (sblk b k)), upd_sblk k (\<lambda>s. s\<lparr>wp_offt := wp_offt s + 1\<rparr>) b)"

text \<open>The search loops \<^verbatim>\<open>for (i = lo; i <= hi; i++) if (P i) ... break\<close>.\<close>

function find_range :: "(nat \<Rightarrow> bool) \<Rightarrow> nat \<Rightarrow> nat \<Rightarrow> nat option" where
  "find_range P i e = (if i > e then None else if P i then Some i else find_range P (i + 1) e)"
  by pat_completeness auto
termination
  by (relation "measure (\<lambda>(P, i, e). Suc e - i)") auto

declare find_range.simps [simp del]

definition free_for_data :: "bm \<Rightarrow> nat \<Rightarrow> bool" where
  "free_for_data b i \<longleftrightarrow> \<not> is_rsv (sblk b i) \<and> \<not> dftl_check_full b i \<and> \<not> is_owned (sblk b i)"

definition free_for_map :: "bm \<Rightarrow> bm_part \<Rightarrow> nat \<Rightarrow> bool" where
  "free_for_map b pt i \<longleftrightarrow> i \<noteq> sblk_rsv pt \<and> \<not> dftl_check_full b i"

text \<open>
  The two searches behind and before the last active superblock.  When the first loop found
  nothing either, \<^verbatim>\<open>start_sblk\<close> is the unsigned \<^verbatim>\<open>-1\<close>: the search then starts at superblock 0,
  and when that fails too the second loop leaves the array.
\<close>

definition next_active :: "(nat \<Rightarrow> bool) \<Rightarrow> bm_part \<Rightarrow> nat option \<Rightarrow> nat option option" where
  "next_active P pt start =
     (case start of
        Some st \<Rightarrow>
          (case find_range P (st + 1) (e_sblk pt) of
             Some i \<Rightarrow> Some (Some i)
           | None \<Rightarrow> Some (if st = 0 then None else find_range P (s_sblk pt) (st - 1)))
      | None \<Rightarrow>
          (case find_range P 0 (e_sblk pt) of Some i \<Rightarrow> Some (Some i) | None \<Rightarrow> None))"

definition dftl_get_active_sblk :: "nat \<Rightarrow> bool \<Rightarrow> bm \<Rightarrow> (nat option \<times> bm) option" where
  "dftl_get_active_sblk pt_num isreserve b =
     (let pt = part b pt_num in
      if isreserve \<and> pt_num = DATA_S then
        (let found = find_range (\<lambda>i. is_rsv (sblk b i) \<and> \<not> dftl_check_full b i \<and> \<not> is_owned (sblk b i))
                       (s_sblk pt) (e_sblk pt);
             act = (case found of Some i \<Rightarrow> Some i | None \<Rightarrow> active_sblk pt)
         in case act of None \<Rightarrow> None
            | Some k \<Rightarrow> Some (Some k, upd_part pt_num (\<lambda>p. p\<lparr>active_sblk := act\<rparr>) b))
      else if isreserve then Some (Some (sblk_rsv pt), b)
      else
        (let start = (case active_sblk pt of
                        Some k \<Rightarrow> Some k
                      | None \<Rightarrow> find_range (free_for_map b pt) (s_sblk pt) (e_sblk pt));
             P = (if pt_num = DATA_S then free_for_data b else free_for_map b pt)
         in do {
           act \<leftarrow> next_active P pt start;
           let b1 = upd_part pt_num (\<lambda>p. p\<lparr>active_sblk := act\<rparr>) b;
           case act of
             None \<Rightarrow> Some (None, b1)
           | Some k \<Rightarrow>
               Some (Some k, if wp_offt (sblk b1 k) = 0
                             then upd_part pt_num (\<lambda>p. p\<lparr>free_sblk_cnt := free_sblk_cnt p - 1\<rparr>) b1
                             else b1)
         }))"

definition stream_need_switch :: "bm \<Rightarrow> nat \<Rightarrow> bool" where
  "stream_need_switch b idx \<longleftrightarrow>
     (case st_active (stream b idx) of
        None \<Rightarrow> True
      | Some k \<Rightarrow> dftl_check_full b k \<or> \<not> is_owned (sblk b k) \<or> stream_idx (sblk b k) \<noteq> int idx)"

definition stream_open :: "nat \<Rightarrow> bm \<Rightarrow> bm_stream \<Rightarrow> bm_stream" where
  "stream_open k b s =
     (let ppa = SBLK_OFFT2PPA k (wp_offt (sblk b k))
      in s\<lparr>st_active := Some k, active_sblk_offset := wp_offt (sblk b k), active_ppa := ppa,
           flush_ppa := ppa, flush_page := 0, grain_remain := 0,
           page_remain := SBLK_END - wp_offt (sblk b k)\<rparr>)"

definition dftl_get_stream_sblk :: "nat \<Rightarrow> bm \<Rightarrow> (nat \<times> bm) option" where
  "dftl_get_stream_sblk idx b =
     (if idx \<ge> MAX_GC_STREAM then None
      else if stream_need_switch b idx then do {
        let b1 = (case st_active (stream b idx) of
                    None \<Rightarrow> b | Some old \<Rightarrow> upd_sblk old (\<lambda>s. s\<lparr>is_owned := False\<rparr>) b);
        (act, b2) \<leftarrow> dftl_get_active_sblk DATA_S False b1;
        case act of
          None \<Rightarrow> None
        | Some k \<Rightarrow>
            (let b3 = upd_sblk k (\<lambda>s. s\<lparr>is_owned := True, stream_idx := int idx\<rparr>) b2
             in Some (k, upd_stream idx (stream_open k b3) b3))
      }
      else map_option (\<lambda>k. (k, b)) (st_active (stream b idx)))"

section \<open>Initialisation\<close>

definition zero_oob :: bm_oob where
  "zero_oob = \<lparr>is_tpage = False, oob_lpa = 0, oob_length = 0\<rparr>"

definition fresh_sblk :: sblk where
  "fresh_sblk = \<lparr>valid_cnt = 0, wp_offt = 0, gc_cnt = 0, is_owned = False, stream_idx = - 1, is_rsv = False\<rparr>"

definition fresh_stream :: bm_stream where
  "fresh_stream = \<lparr>st_idx = 0, active_sblk_offset = 0, active_ppa = 0, flush_ppa = 0, flush_page = 0,
     page_remain = 0, grain_remain = 0, st_active = None\<rparr>"

definition init_parts :: "nat \<Rightarrow> bm_part" where
  "init_parts p =
     (if p = 0 then \<lparr>s_sblk = 0, e_sblk = NOS div 20, sblk_rsv = 0,
                     free_sblk_cnt = of_nat (NOS div 20 + 1), active_sblk = None, rsv_sblk_cnt = 0\<rparr>
      else \<lparr>s_sblk = NOS div 20 + 1, e_sblk = NOS - 1, sblk_rsv = NOS div 20 + 1,
            free_sblk_cnt = of_nat (NOS - (NOS div 20 + 1)), active_sblk = None, rsv_sblk_cnt = 0\<rparr>)"

text \<open>The first loop moves \<^verbatim>\<open>MAX_GC_STREAM\<close> superblocks to the reserve, the second opens the streams.\<close>

definition init_reserve :: "nat \<Rightarrow> bm option \<Rightarrow> bm option" where
  "init_reserve i r = do {
     b \<leftarrow> r;
     (act, b1) \<leftarrow> dftl_get_active_sblk DATA_S False b;
     k \<leftarrow> act;
     let b2 = upd_sblk k (\<lambda>s. s\<lparr>is_owned := False, stream_idx := - 1, is_rsv := True\<rparr>) b1;
     Some (upd_part DATA_S (\<lambda>p. p\<lparr>rsv_sblk_cnt := rsv_sblk_cnt p + 1\<rparr>) b2)
   }"

definition init_stream :: "nat \<Rightarrow> bm option \<Rightarrow> bm option" where
  "init_stream i r = do {
     b \<leftarrow> r;
     (act, b1) \<leftarrow> dftl_get_active_sblk DATA_S False b;
     k \<leftarrow> act;
     let b2 = upd_sblk k (\<lambda>s. s\<lparr>is_owned := True, stream_idx := int i\<rparr>) b1;
     Some (upd_stream i (\<lambda>s. (stream_open k b2 s)\<lparr>st_idx := i\<rparr>) b2)
   }"

definition bm_blank :: bm where
  "bm_blank = \<lparr>valid_bitmap = (\<lambda>_. False), oob = (\<lambda>_. zero_oob), part = init_parts,
     sblk = (\<lambda>_. fresh_sblk), stream = (\<lambda>_. fresh_stream)\<rparr>"

definition dftl_bm_init :: "bm option" where
  "dftl_bm_init = fold init_stream [0..<MAX_GC_STREAM] (fold init_reserve [0..<MAX_GC_STREAM] (Some bm_blank))"

section \<open>Garbage-collection support\<close>

definition dftl_isgc_needed :: "bm \<Rightarrow> nat \<Rightarrow> bool" where
  "dftl_isgc_needed b pt_num =
     (if pt_num = DATA_S then unat (free_sblk_cnt (part b pt_num)) \<le> MAX_GC_STREAM + 1
      else unat (free_sblk_cnt (part b pt_num)) \<le> 1)"

text \<open>One scan for the candidate with the fewest valid grains, the first one among equals.\<close>

definition gc_scan :: "(nat \<Rightarrow> bool) \<Rightarrow> bm \<Rightarrow> bm_part \<Rightarrow> nat option \<times> nat \<Rightarrow> nat option \<times> nat" where
  "gc_scan P b pt = fold (\<lambda>i (target, min_valid_cnt).
      if P i \<and> unat (valid_cnt (sblk b i)) < min_valid_cnt
      then (Some i, unat (valid_cnt (sblk b i))) else (target, min_valid_cnt))
    [s_sblk pt..<Suc (e_sblk pt)]"

definition dftl_get_gc_target :: "nat \<Rightarrow> int \<Rightarrow> bm \<Rightarrow> nat option" where
  "dftl_get_gc_target pt_num strm b =
     (let pt = part b pt_num;
          (target, min_valid_cnt) =
            (if pt_num = DATA_S then
               (let (t, m) = gc_scan (\<lambda>i. \<not> is_owned (sblk b i) \<and> \<not> is_rsv (sblk b i) \<and>
                                          stream_idx (sblk b i) = strm \<and> dftl_check_full b i)
                               b pt (None, UINT32_MAX)
                in if t = None then
                     gc_scan (\<lambda>i. \<not> is_owned (sblk b i) \<and> \<not> is_rsv (sblk b i) \<and> dftl_check_full b i)
                       b pt (t, m)
                   else (t, m))
             else gc_scan (\<lambda>i. i \<noteq> sblk_rsv pt \<and> dftl_check_full b i) b pt (None, UINT32_MAX))
      in case target of
           None \<Rightarrow> None
         | Some k \<Rightarrow>
             if min_valid_cnt = UINT32_MAX then None
             else if unat (valid_cnt (sblk b k)) \<ge> wp_offt (sblk b k) * GRAIN_PER_PAGE then None
             else Some k)"

definition dftl_trim_segment :: "nat \<Rightarrow> nat \<Rightarrow> bm \<times> ssd \<Rightarrow> (bm \<times> ssd) option" where
  "dftl_trim_segment now k = (\<lambda>(b, dv). do {
     (lat, dv') \<leftarrow> ssd_trim_block now (SBLK_OFFT2PPA k 0) dv;
     let b1 = upd_sblk k (\<lambda>s. s\<lparr>wp_offt := 0, valid_cnt := 0\<rparr>) b;
     Some (b1\<lparr>oob := (\<lambda>g. if SBLK_OFFT2PPA k 0 * GRAIN_PER_PAGE \<le> g \<and>
                            g < SBLK_OFFT2PPA k 0 * GRAIN_PER_PAGE + PPS * GRAIN_PER_PAGE
                         then zero_oob else oob b1 g)\<rparr>, dv')
   })"

definition dftl_change_reserve :: "nat \<Rightarrow> nat option \<Rightarrow> bm \<Rightarrow> (nat \<times> bm) option" where
  "dftl_change_reserve pt_num reserve b =
     (case reserve of None \<Rightarrow> None
      | Some k \<Rightarrow> Some (k, upd_part pt_num (\<lambda>p. p\<lparr>sblk_rsv := k\<rparr>) b))"

section \<open>Valid grains are counted exactly\<close>

definition sblk_grains :: "nat \<Rightarrow> nat set" where
  "sblk_grains k = {g. SBLK_IDX (g div GRAIN_PER_PAGE) = k}"

definition valid_grains :: "bm \<Rightarrow> nat \<Rightarrow> nat set" where
  "valid_grains b k = {g \<in> sblk_grains k. valid_bitmap b g}"

definition cnt_ok :: "bm \<Rightarrow> bool" where
  "cnt_ok b \<longleftrightarrow> (\<forall>k < NOS. valid_cnt (sblk b k) = of_nat (card (valid_grains b k)))"

lemma sblk_grains_eq: "sblk_grains k = {k * 262144..<k * 262144 + 262144}"
proof -
  have "g \<in> sblk_grains k \<longleftrightarrow> g \<in> {k * 262144..<k * 262144 + 262144}" for g
    by (simp add: sblk_grains_def SBLK_IDX_def settings div_mult2_eq [symmetric])
      (metis (no_types, opaque_lifting) add.commute div_nat_eqI dividend_less_times_div
        div_times_less_eq_dividend mult.commute mult_Suc zero_less_numeral)
  then show ?thesis by blast
qed

lemma finite_valid_grains [simp]: "finite (valid_grains b k)"
  by (simp add: valid_grains_def sblk_grains_eq)

lemma card_valid_grains_le: "card (valid_grains b k) \<le> 262144"
proof -
  have "card (valid_grains b k) \<le> card (sblk_grains k)"
    by (rule card_mono) (auto simp: valid_grains_def sblk_grains_eq)
  then show ?thesis by (simp add: sblk_grains_eq)
qed

lemma unat_card_valid: "unat (of_nat (card (valid_grains b k)) :: u32) = card (valid_grains b k)"
  using card_valid_grains_le [of b k] by (simp add: unat_of_nat)

lemma cnt_ok_unat: "cnt_ok b \<Longrightarrow> k < NOS \<Longrightarrow> unat (valid_cnt (sblk b k)) = card (valid_grains b k)"
  by (simp add: cnt_ok_def unat_card_valid)

lemma valid_grains_upd:
  "valid_grains (b\<lparr>valid_bitmap := (valid_bitmap b)(g := v)\<rparr>) k =
    (if SBLK_IDX (g div GRAIN_PER_PAGE) = k
     then (if v then insert g (valid_grains b k) else valid_grains b k - {g})
     else valid_grains b k)"
  by (auto simp: valid_grains_def sblk_grains_def)

lemma valid_grains_cong: "valid_bitmap b = valid_bitmap b' \<Longrightarrow> valid_grains b k = valid_grains b' k"
  by (simp add: valid_grains_def)

text \<open>A page inside the superblocks, and a grain of such a page.\<close>

definition page_ok :: "ppa_t \<Rightarrow> bool" where
  "page_ok p \<longleftrightarrow> p < NOS * PPS"

definition grain_ok :: "nat \<Rightarrow> bool" where
  "grain_ok g \<longleftrightarrow> page_ok (g div GRAIN_PER_PAGE)"

lemma page_ok_sblk: "page_ok p \<longleftrightarrow> SBLK_IDX p < NOS"
  by (auto simp: page_ok_def SBLK_IDX_def settings)

lemma grain_ok_bounds:
  assumes "grain_ok g"
  shows "g < grain_cnt" and "SBLK_IDX (g div GRAIN_PER_PAGE) < NOS"
  using assms by (auto simp: grain_ok_def page_ok_def grain_cnt_def SBLK_IDX_def settings)

lemma grain_ok_page [simp]: "i < GRAIN_PER_PAGE \<Longrightarrow> grain_ok (p * GRAIN_PER_PAGE + i) \<longleftrightarrow> page_ok p"
  by (simp add: grain_ok_def settings)

lemma page_of_grain [simp]: "i < GRAIN_PER_PAGE \<Longrightarrow> (p * GRAIN_PER_PAGE + i) div GRAIN_PER_PAGE = p"
  by (simp add: settings)

text \<open>The effect of setting one validity bit.\<close>

definition set_grain :: "bool \<Rightarrow> nat \<Rightarrow> bm \<Rightarrow> bm" where
  "set_grain v g b = upd_sblk (SBLK_IDX (g div GRAIN_PER_PAGE))
     (\<lambda>s. s\<lparr>valid_cnt := (if v then valid_cnt s + 1 else valid_cnt s - 1)\<rparr>)
     (b\<lparr>valid_bitmap := (valid_bitmap b)(g := v)\<rparr>)"

lemma set_grain_frame [simp]:
  "valid_bitmap (set_grain v g b) = (valid_bitmap b)(g := v)"
  "oob (set_grain v g b) = oob b" "part (set_grain v g b) = part b" "stream (set_grain v g b) = stream b"
  "wp_offt (sblk (set_grain v g b) k) = wp_offt (sblk b k)"
  "gc_cnt (sblk (set_grain v g b) k) = gc_cnt (sblk b k)"
  "is_owned (sblk (set_grain v g b) k) = is_owned (sblk b k)"
  "stream_idx (sblk (set_grain v g b) k) = stream_idx (sblk b k)"
  "is_rsv (sblk (set_grain v g b) k) = is_rsv (sblk b k)"
  by (simp_all add: set_grain_def)

lemma cnt_ok_set_grain:
  assumes ok: "cnt_ok b" and g: "valid_bitmap b g \<noteq> v"
  shows "cnt_ok (set_grain v g b)"
proof -
  let ?k = "SBLK_IDX (g div GRAIN_PER_PAGE)"
  let ?b = "b\<lparr>valid_bitmap := (valid_bitmap b)(g := v)\<rparr>"
  have vg: "valid_grains (set_grain v g b) k = valid_grains ?b k" for k
    by (rule valid_grains_cong) simp
  have mem: "g \<in> valid_grains b ?k \<longleftrightarrow> \<not> v"
    using g by (auto simp: valid_grains_def sblk_grains_def)
  have "(of_nat (card (valid_grains ?b ?k)) :: u32) =
      (if v then of_nat (card (valid_grains b ?k)) + 1 else of_nat (card (valid_grains b ?k)) - 1)"
  proof (cases v)
    case True
    then show ?thesis
      using mem by (simp add: valid_grains_upd)
  next
    case False
    then have "0 < card (valid_grains b ?k)"
      using mem by (auto simp: card_gt_0_iff)
    then show ?thesis
      using False mem by (simp add: valid_grains_upd of_nat_diff)
  qed
  moreover have "valid_cnt (sblk (set_grain v g b) k) = (if k = ?k
      then if v then valid_cnt (sblk b k) + 1 else valid_cnt (sblk b k) - 1 else valid_cnt (sblk b k))" for k
    by (simp add: set_grain_def)
  moreover have "valid_grains ?b k = valid_grains b k" if "k \<noteq> ?k" for k
    using that by (simp add: valid_grains_upd)
  ultimately show ?thesis
    using ok unfolding cnt_ok_def vg by (metis (full_types))
qed

lemma dftl_validate_grain_eq:
  assumes ok: "cnt_ok b" and g: "grain_ok g" and free: "\<not> valid_bitmap b g"
  shows "dftl_validate_grain g b = Some (set_grain True g b)"
proof -
  let ?k = "SBLK_IDX (g div GRAIN_PER_PAGE)"
  note bounds = grain_ok_bounds [OF g]
  have "cnt_ok (set_grain True g b)"
    using ok free by (intro cnt_ok_set_grain) auto
  from cnt_ok_unat [OF this bounds(2)]
  have "unat (valid_cnt (sblk (set_grain True g b) ?k)) \<le> 262144"
    using card_valid_grains_le by simp
  then show ?thesis
    using bounds by (simp add: dftl_validate_grain_def set_grain_def Let_def settings)
qed

lemma dftl_invalidate_grain_eq:
  "grain_ok g \<Longrightarrow> dftl_invalidate_grain g b = Some (set_grain False g b)"
  using grain_ok_bounds [of g] by (simp add: dftl_invalidate_grain_def set_grain_def Let_def)

lemma dftl_isvalid_grain_eq: "grain_ok g \<Longrightarrow> dftl_isvalid_grain b g = Some (valid_bitmap b g)"
  using grain_ok_bounds [of g] by (simp add: dftl_isvalid_grain_def)

text \<open>A page is four grains.\<close>

definition set_page :: "bool \<Rightarrow> ppa_t \<Rightarrow> bm \<Rightarrow> bm" where
  "set_page v p b = fold (\<lambda>i. set_grain v (p * GRAIN_PER_PAGE + i)) [0..<GRAIN_PER_PAGE] b"

lemma page_round_eq:
  assumes "page_ok p" and "i < GRAIN_PER_PAGE"
  shows "page_round v (if v then 1 else - 1) p i (Some b) = Some (set_grain v (p * GRAIN_PER_PAGE + i) b)"
  using assms grain_ok_bounds [of "p * GRAIN_PER_PAGE + i"]
  by (simp add: page_round_def set_grain_def)

lemma page_rounds_eq:
  assumes "page_ok p"
  shows "set is \<subseteq> {..<GRAIN_PER_PAGE} \<Longrightarrow> fold (page_round v (if v then 1 else - 1) p) is (Some b) =
    Some (fold (\<lambda>i. set_grain v (p * GRAIN_PER_PAGE + i)) is b)"
  by (induction "is" arbitrary: b) (simp_all add: page_round_eq [OF assms])

lemma dftl_validate_page_eq: "page_ok p \<Longrightarrow> dftl_validate_page p b = Some (set_page True p b)"
  using page_rounds_eq [of p "[0..<GRAIN_PER_PAGE]" True b]
  by (simp add: dftl_validate_page_def set_page_def lessThan_atLeast0)

lemma dftl_invalidate_page_eq: "page_ok p \<Longrightarrow> dftl_invalidate_page p b = Some (set_page False p b)"
  using page_rounds_eq [of p "[0..<GRAIN_PER_PAGE]" False b]
  by (simp add: dftl_invalidate_page_def set_page_def lessThan_atLeast0)

lemma set_page_frame [simp]:
  "oob (set_page v p b) = oob b" "part (set_page v p b) = part b" "stream (set_page v p b) = stream b"
  "wp_offt (sblk (set_page v p b) k) = wp_offt (sblk b k)"
  "is_owned (sblk (set_page v p b) k) = is_owned (sblk b k)"
  "stream_idx (sblk (set_page v p b) k) = stream_idx (sblk b k)"
  "is_rsv (sblk (set_page v p b) k) = is_rsv (sblk b k)"
  by (simp_all add: set_page_def GRAIN_PER_PAGE_val upt_rec)

lemma set_page_bitmap:
  "valid_bitmap (set_page v p b) g = (if g div GRAIN_PER_PAGE = p then v else valid_bitmap b g)"
proof -
  have "g div 4 = p \<longleftrightarrow> g \<in> {p * 4, p * 4 + 1, p * 4 + 2, p * 4 + 3}"
    by auto
  then show ?thesis
    by (auto simp: set_page_def GRAIN_PER_PAGE_val upt_rec)
qed

lemma cnt_ok_set_page:
  assumes "cnt_ok b" and "\<And>i. i < GRAIN_PER_PAGE \<Longrightarrow> valid_bitmap b (p * GRAIN_PER_PAGE + i) \<noteq> v"
  shows "cnt_ok (set_page v p b)"
  using assms(1) assms(2) [of 0] assms(2) [of 1] assms(2) [of 2] assms(2) [of 3]
  by (simp add: set_page_def GRAIN_PER_PAGE_val upt_rec cnt_ok_set_grain eval_nat_numeral)

section \<open>Searching\<close>

lemma find_range_SomeD:
  "find_range P i e = Some k \<Longrightarrow> i \<le> k \<and> k \<le> e \<and> P k \<and> (\<forall>j. i \<le> j \<and> j < k \<longrightarrow> \<not> P j)"
proof (induction P i e rule: find_range.induct)
  case (1 P i e)
  then show ?case
    by (subst (asm) find_range.simps) (auto split: if_splits simp: le_Suc_eq Suc_le_eq dest: le_neq_implies_less)
qed

lemma find_range_NoneD: "find_range P i e = None \<Longrightarrow> i \<le> j \<Longrightarrow> j \<le> e \<Longrightarrow> \<not> P j"
proof (induction P i e rule: find_range.induct)
  case (1 P i e)
  then show ?case
    by (subst (asm) find_range.simps) (auto split: if_splits dest: le_neq_implies_less)
qed

lemma find_range_exists:
  assumes "i \<le> j" and "j \<le> e" and "P j"
  obtains k where "find_range P i e = Some k" "i \<le> k" "k \<le> e" "P k"
  using find_range_NoneD [of P i e j] find_range_SomeD [of P i e] assms by (cases "find_range P i e") auto

text \<open>The victim scan returns a minimum of the candidates.\<close>

lemma gc_scan_list:
  assumes "(t, m) = fold (\<lambda>i (target, min_cnt). if P i \<and> c i < min_cnt then (Some i, c i) else (target, min_cnt))
    xs (None, M :: nat)"
  shows "(case t of None \<Rightarrow> m = M \<and> (\<forall>i \<in> set xs. P i \<longrightarrow> M \<le> c i)
    | Some k \<Rightarrow> k \<in> set xs \<and> P k \<and> m = c k \<and> m < M \<and> (\<forall>i \<in> set xs. P i \<longrightarrow> m \<le> c i))"
  using assms
proof (induction xs arbitrary: t m rule: rev_induct)
  case Nil
  then show ?case by simp
next
  case (snoc x xs)
  let ?f = "\<lambda>i (target, min_cnt). if P i \<and> c i < min_cnt then (Some i, c i) else (target, min_cnt)"
  obtain t0 m0 where eq: "fold ?f xs (None, M) = (t0, m0)"
    by (cases "fold ?f xs (None, M)")
  note IH = snoc.IH [OF eq [symmetric]]
  from snoc.prems eq have tm: "(t, m) = (if P x \<and> c x < m0 then (Some x, c x) else (t0, m0))"
    by simp
  show ?case
  proof (cases "P x \<and> c x < m0")
    case True
    with tm IH show ?thesis
      by (cases t0) (auto intro: order_trans less_imp_le)
  next
    case False
    with tm IH show ?thesis
      by (cases t0) auto
  qed
qed

lemma gc_scan_spec:
  assumes "gc_scan P b pt (None, M) = (t, m)"
  shows "(case t of None \<Rightarrow> m = M \<and> (\<forall>i \<in> {s_sblk pt..e_sblk pt}. P i \<longrightarrow> M \<le> unat (valid_cnt (sblk b i)))
    | Some k \<Rightarrow> k \<in> {s_sblk pt..e_sblk pt} \<and> P k \<and> m = unat (valid_cnt (sblk b k)) \<and> m < M \<and>
        (\<forall>i \<in> {s_sblk pt..e_sblk pt}. P i \<longrightarrow> m \<le> unat (valid_cnt (sblk b i))))"
  using gc_scan_list [of t m P "\<lambda>i. unat (valid_cnt (sblk b i))" "[s_sblk pt..<Suc (e_sblk pt)]" M] assms
  unfolding gc_scan_def
  by (cases t) (auto simp add: less_Suc_eq_le atLeastLessThanSuc_atLeastAtMost simp del: upt_Suc)

section \<open>The pools of superblocks\<close>

definition data_sblks :: "nat set" where
  "data_sblks = {NOS div 20 + 1..NOS - 1}"

definition free_set :: "bm \<Rightarrow> nat set" where
  "free_set b = {k \<in> data_sblks. \<not> is_rsv (sblk b k) \<and> \<not> is_owned (sblk b k) \<and> wp_offt (sblk b k) = 0}"

definition rsv_set :: "bm \<Rightarrow> nat set" where
  "rsv_set b = {k \<in> data_sblks. is_rsv (sblk b k)}"

text \<open>
  \<open>pool_wf n b\<close>, when the first \<open>n\<close> streams are open: a reserved superblock is empty and not owned,
  a superblock in no pool is empty or full, the two counters count the pools, and the owned
  superblocks are exactly the active superblocks of the open streams.
\<close>

definition pool_wf :: "nat \<Rightarrow> bm \<Rightarrow> bool" where
  "pool_wf n b \<longleftrightarrow>
     s_sblk (part b DATA_S) = NOS div 20 + 1 \<and> e_sblk (part b DATA_S) = NOS - 1 \<and>
     (\<forall>st. active_sblk (part b DATA_S) = Some st \<longrightarrow> st \<in> data_sblks) \<and>
     (\<forall>k \<in> data_sblks. is_rsv (sblk b k) \<longrightarrow> \<not> is_owned (sblk b k) \<and> wp_offt (sblk b k) = 0) \<and>
     (\<forall>k \<in> data_sblks. \<not> is_rsv (sblk b k) \<and> \<not> is_owned (sblk b k) \<longrightarrow>
        wp_offt (sblk b k) = 0 \<or> dftl_check_full b k) \<and>
     free_sblk_cnt (part b DATA_S) = of_nat (card (free_set b)) \<and>
     rsv_sblk_cnt (part b DATA_S) = of_nat (card (rsv_set b)) \<and>
     (\<forall>i < n. \<exists>k \<in> data_sblks. st_active (stream b i) = Some k \<and> is_owned (sblk b k) \<and>
        stream_idx (sblk b k) = int i) \<and>
     (\<forall>k \<in> data_sblks. is_owned (sblk b k) \<longrightarrow> (\<exists>i < n. st_active (stream b i) = Some k))"

lemma finite_sets [simp]: "finite data_sblks" "finite (free_set b)" "finite (rsv_set b)"
  by (simp_all add: data_sblks_def free_set_def rsv_set_def)

lemma two_members:
  assumes "2 \<le> card A"
  obtains x y where "x \<in> A" "y \<in> A" "x \<noteq> y"
proof -
  have "finite A" "A \<noteq> {}"
    using assms by (auto intro: card_ge_0_finite)
  then obtain x where x: "x \<in> A" by blast
  have "A \<noteq> {x}"
    using assms by auto
  then show ?thesis
    using x that by blast
qed

text \<open>With two free superblocks the search for a new active superblock succeeds.\<close>

lemma get_active_data:
  assumes D: "s_sblk (part b DATA_S) = NOS div 20 + 1" "e_sblk (part b DATA_S) = NOS - 1"
    and st: "\<And>st. active_sblk (part b DATA_S) = Some st \<Longrightarrow> st \<in> data_sblks"
    and shape: "\<And>k. k \<in> data_sblks \<Longrightarrow> free_for_data b k \<Longrightarrow> k \<in> free_set b"
    and two: "2 \<le> card (free_set b)"
  obtains k where "k \<in> free_set b"
    "dftl_get_active_sblk DATA_S False b = Some (Some k, upd_part DATA_S (\<lambda>p. p\<lparr>active_sblk := Some k,
       free_sblk_cnt := free_sblk_cnt p - 1\<rparr>) b)"
proof -
  let ?pt = "part b DATA_S"
  obtain x y where xy: "x \<in> free_set b" "y \<in> free_set b" "x \<noteq> y"
    using two by (rule two_members)
  have free: "free_for_data b z" "s_sblk ?pt \<le> z" "z \<le> e_sblk ?pt" if "z \<in> free_set b" for z
    using that D by (auto simp: free_set_def free_for_data_def data_sblks_def dftl_check_full_def settings)
  define start where "start = (case active_sblk ?pt of Some k \<Rightarrow> Some k
      | None \<Rightarrow> find_range (free_for_map b ?pt) (s_sblk ?pt) (e_sblk ?pt))"
  obtain st where st: "start = Some st" "st \<in> data_sblks"
  proof (cases "active_sblk ?pt")
    case None
    obtain z where z: "z \<in> free_set b" "z \<noteq> sblk_rsv ?pt"
      using xy by metis
    then have "free_for_map b ?pt z"
      using free [OF z(1)] by (simp add: free_for_data_def free_for_map_def)
    then obtain k where "find_range (free_for_map b ?pt) (s_sblk ?pt) (e_sblk ?pt) = Some k"
      "s_sblk ?pt \<le> k" "k \<le> e_sblk ?pt"
      using find_range_exists [OF free(2,3) [OF z(1)]] by blast
    then show ?thesis
      using None D by (intro that [of k]) (auto simp: start_def data_sblks_def)
  qed (use assms(3) start_def in \<open>auto intro: that\<close>)
  obtain z where z: "z \<in> free_set b" "z \<noteq> st"
    using xy by metis
  have "\<exists>k. next_active (free_for_data b) ?pt start = Some (Some k) \<and> k \<in> free_set b"
  proof (cases "find_range (free_for_data b) (st + 1) (e_sblk ?pt)")
    case (Some k)
    then have "k \<in> free_set b"
      using find_range_SomeD [OF Some] st(2) D by (intro shape) (auto simp: data_sblks_def)
    with Some show ?thesis
      by (simp add: next_active_def st)
  next
    case None
    have "\<not> st + 1 \<le> z"
      using find_range_NoneD [OF None, of z] free [OF z(1)] by auto
    then have "z < st"
      using z(2) by auto
    then have "z \<le> st - 1" by simp
    then obtain k where k: "find_range (free_for_data b) (s_sblk ?pt) (st - 1) = Some k"
      "s_sblk ?pt \<le> k" "k \<le> st - 1" "free_for_data b k"
      using find_range_exists [of "s_sblk ?pt" z "st - 1" "free_for_data b"] free [OF z(1)] by blast
    then have "k \<in> free_set b"
      using st(2) D by (intro shape) (auto simp: data_sblks_def)
    with None k \<open>z < st\<close> show ?thesis
      by (simp add: next_active_def st)
  qed
  then obtain k where k: "next_active (free_for_data b) ?pt start = Some (Some k)" "k \<in> free_set b"
    by blast
  moreover have "wp_offt (sblk b k) = 0"
    using k(2) by (simp add: free_set_def)
  ultimately show ?thesis
    by (intro that [of k]) (simp_all add: dftl_get_active_sblk_def Let_def upd_part_def
        start_def [symmetric])
qed

text \<open>Taking a free superblock \<open>k\<close> for stream \<open>i\<close>.\<close>

definition claim_sblk :: "nat \<Rightarrow> nat \<Rightarrow> bm \<Rightarrow> bm" where
  "claim_sblk i k b = upd_sblk k (\<lambda>s. s\<lparr>is_owned := True, stream_idx := int i\<rparr>)
     (upd_part DATA_S (\<lambda>p. p\<lparr>active_sblk := Some k, free_sblk_cnt := free_sblk_cnt p - 1\<rparr>) b)"

lemma of_nat_card_remove:
  assumes "k \<in> A" and "finite A"
  shows "(of_nat (card A) :: u32) - 1 = of_nat (card (A - {k}))"
proof -
  have "0 < card A"
    using assms card_gt_0_iff by blast
  then show ?thesis
    using assms by (simp add: of_nat_diff)
qed

lemma free_set_claim:
  "k \<in> free_set b \<Longrightarrow> free_set (claim_sblk i k b) = free_set b - {k}"
  by (auto simp: free_set_def claim_sblk_def)

lemma rsv_set_claim: "rsv_set (claim_sblk i k b) = rsv_set b"
  by (auto simp: rsv_set_def claim_sblk_def)

lemma claim_sblk_simps [simp]:
  "stream (claim_sblk i k b) = stream b" "valid_bitmap (claim_sblk i k b) = valid_bitmap b"
  "oob (claim_sblk i k b) = oob b"
  "sblk (claim_sblk i k b) = (sblk b)(k := (sblk b k)\<lparr>is_owned := True, stream_idx := int i\<rparr>)"
  "part (claim_sblk i k b) DATA_S = (part b DATA_S)\<lparr>active_sblk := Some k,
     free_sblk_cnt := free_sblk_cnt (part b DATA_S) - 1\<rparr>"
  by (simp_all add: claim_sblk_def)

lemma stream_open_simps [simp]:
  "st_active (stream_open k b s) = Some k" "grain_remain (stream_open k b s) = 0"
  "st_idx (stream_open k b s) = st_idx s"
  by (simp_all add: stream_open_def Let_def)

lemma pool_wf_free:
  "pool_wf n b \<Longrightarrow> k \<in> data_sblks \<Longrightarrow> free_for_data b k \<Longrightarrow> k \<in> free_set b"
  by (auto simp: pool_wf_def free_for_data_def free_set_def)

lemma free_set_not_full: "k \<in> free_set b \<Longrightarrow> \<not> dftl_check_full b k"
  by (simp add: free_set_def dftl_check_full_def settings)

lemma pool_wf_frame:
  assumes "pool_wf n b" and "part b' DATA_S = part b DATA_S" and "sblk b' = sblk b"
    and "\<And>i. st_active (stream b' i) = st_active (stream b i)"
  shows "pool_wf n b'"
  using assms unfolding pool_wf_def free_set_def rsv_set_def dftl_check_full_def by simp

text \<open>A stream whose superblock is full gives it up and opens a free one.\<close>

lemma get_stream_switch:
  assumes wf: "pool_wf n b" and i: "i < n" "n \<le> MAX_GC_STREAM" and two: "2 \<le> card (free_set b)"
    and full: "stream_need_switch b i"
  shows "returns (dftl_get_stream_sblk i b) (\<lambda>(k, b'). pool_wf n b' \<and> k \<in> free_set b \<and>
    free_set b' = free_set b - {k} \<and> rsv_set b' = rsv_set b \<and> valid_bitmap b' = valid_bitmap b \<and>
    oob b' = oob b \<and> st_active (stream b' i) = Some k \<and> grain_remain (stream b' i) = 0 \<and>
    is_owned (sblk b' k) \<and> stream_idx (sblk b' k) = int i \<and>
    (\<forall>j. wp_offt (sblk b' j) = wp_offt (sblk b j) \<and> valid_cnt (sblk b' j) = valid_cnt (sblk b j)))"
proof -
  from wf i(1) obtain old where old: "old \<in> data_sblks" "st_active (stream b i) = Some old"
    "is_owned (sblk b old)" "stream_idx (sblk b old) = int i"
    unfolding pool_wf_def by blast
  have old_full: "dftl_check_full b old"
    using full old by (simp add: stream_need_switch_def)
  have old_wp: "wp_offt (sblk b old) \<noteq> 0" "\<not> is_rsv (sblk b old)"
    using old_full old wf by (auto simp: dftl_check_full_def settings pool_wf_def)
  define b1 where "b1 = upd_sblk old (\<lambda>s. s\<lparr>is_owned := False\<rparr>) b"
  have fs1: "free_set b1 = free_set b" "rsv_set b1 = rsv_set b" "part b1 = part b"
    using old_wp by (auto simp: free_set_def rsv_set_def b1_def)
  obtain k where k: "k \<in> free_set b1" and get: "dftl_get_active_sblk DATA_S False b1 =
      Some (Some k, upd_part DATA_S (\<lambda>p. p\<lparr>active_sblk := Some k, free_sblk_cnt := free_sblk_cnt p - 1\<rparr>) b1)"
  proof (rule get_active_data [of b1])
    fix j assume "j \<in> data_sblks" "free_for_data b1 j"
    then show "j \<in> free_set b1"
      using wf old_full fs1 pool_wf_free [OF wf, of j]
      by (cases "j = old") (auto simp: free_for_data_def b1_def dftl_check_full_def)
  qed (use wf two in \<open>auto simp: fs1 pool_wf_def\<close>)
  define b3 where "b3 = claim_sblk i k b1"
  define b4 where "b4 = upd_stream i (stream_open k b3) b3"
  have result: "dftl_get_stream_sblk i b = Some (k, b4)"
    using i full old(2) get
    by (simp add: dftl_get_stream_sblk_def b1_def [symmetric] b4_def b3_def claim_sblk_def Let_def)
  have kb: "k \<in> free_set b" "k \<in> data_sblks"
    using k unfolding fs1 by (auto simp: free_set_def)
  have k_old: "k \<noteq> old"
    using kb(1) old_wp by (auto simp: free_set_def)
  have sets: "free_set b4 = free_set b - {k}" "rsv_set b4 = rsv_set b"
    using free_set_claim [OF k, of i] rsv_set_claim [of i k b1] fs1
    by (simp_all add: b4_def b3_def free_set_def rsv_set_def)
  have others: "sblk b4 j = (if j = k then (sblk b k)\<lparr>is_owned := True, stream_idx := int i\<rparr>
      else if j = old then (sblk b old)\<lparr>is_owned := False\<rparr> else sblk b j)" for j
    using k_old by (simp add: b4_def b3_def b1_def)
  have st4: "st_active (stream b4 j) = (if j = i then Some k else st_active (stream b j))" for j
    by (simp add: b4_def b3_def b1_def)
  have part4: "part b4 DATA_S = (part b DATA_S)\<lparr>active_sblk := Some k,
      free_sblk_cnt := free_sblk_cnt (part b DATA_S) - 1\<rparr>"
    by (simp add: b4_def b3_def fs1(3))
  have k_free: "\<not> is_rsv (sblk b k)" "\<not> is_owned (sblk b k)" "wp_offt (sblk b k) = 0"
    using kb by (auto simp: free_set_def)
  have "pool_wf n b4"
    unfolding pool_wf_def sets part4
  proof (intro conjI allI impI ballI)
    fix j assume j: "j < n"
    show "\<exists>q\<in>data_sblks. st_active (stream b4 j) = Some q \<and> is_owned (sblk b4 q) \<and> stream_idx (sblk b4 q) = int j"
    proof (cases "j = i")
      case True
      then show ?thesis using kb by (simp add: st4 others)
    next
      case False
      from wf j obtain q where q: "q \<in> data_sblks" "st_active (stream b j) = Some q" "is_owned (sblk b q)"
        "stream_idx (sblk b q) = int j"
        unfolding pool_wf_def by blast
      then have "q \<noteq> k" "q \<noteq> old"
        using k_free False old by auto
      with q False show ?thesis by (simp add: st4 others)
    qed
  next
    fix q assume q: "q \<in> data_sblks" "is_owned (sblk b4 q)"
    show "\<exists>j<n. st_active (stream b4 j) = Some q"
    proof (cases "q = k")
      case True
      then show ?thesis using i by (auto simp: st4)
    next
      case False
      with q have "is_owned (sblk b q)" "q \<noteq> old"
        by (auto simp: others split: if_splits)
      then obtain j where "j < n" "st_active (stream b j) = Some q"
        using wf q unfolding pool_wf_def by blast
      then show ?thesis
        using \<open>q \<noteq> old\<close> old(2) by (auto simp: st4)
    qed
  next
    show "free_sblk_cnt ((part b DATA_S)\<lparr>active_sblk := Some k, free_sblk_cnt := free_sblk_cnt (part b DATA_S) - 1\<rparr>)
        = of_nat (card (free_set b - {k}))"
      using wf kb of_nat_card_remove [of k "free_set b"] by (simp add: pool_wf_def)
  next
    fix q assume q: "q \<in> data_sblks" "is_rsv (sblk b4 q)"
    then have "q \<noteq> k" "q \<noteq> old"
      using k_free(1) old_wp(2) k_old by (auto simp: others)
    then show "\<not> is_owned (sblk b4 q)" "wp_offt (sblk b4 q) = 0"
      using q wf by (auto simp: others pool_wf_def)
  next
    fix q assume q: "q \<in> data_sblks" "\<not> is_rsv (sblk b4 q) \<and> \<not> is_owned (sblk b4 q)"
    then have "q \<noteq> k"
      by (auto simp: others)
    then show "wp_offt (sblk b4 q) = 0 \<or> dftl_check_full b4 q"
      using q wf old_full by (cases "q = old") (auto simp: others pool_wf_def dftl_check_full_def)
  qed (use wf kb in \<open>auto simp: pool_wf_def\<close>)
  then show ?thesis
    using result kb sets st4 others k_free
    by (simp add: returns_def b4_def b3_def b1_def)
qed

lemma get_stream_keep:
  assumes wf: "pool_wf n b" and i: "i < n" "n \<le> MAX_GC_STREAM" and keep: "\<not> stream_need_switch b i"
  obtains k where "dftl_get_stream_sblk i b = Some (k, b)" "st_active (stream b i) = Some k"
    "k \<in> data_sblks" "is_owned (sblk b k)" "stream_idx (sblk b k) = int i" "\<not> dftl_check_full b k"
proof -
  from wf i(1) obtain k where k: "k \<in> data_sblks" "st_active (stream b i) = Some k"
    unfolding pool_wf_def by blast
  with keep i show ?thesis
    by (intro that [of k]) (auto simp: dftl_get_stream_sblk_def stream_need_switch_def)
qed

text \<open>Handing out a page of an owned superblock keeps the pools.\<close>

lemma get_page_num_pool:
  assumes wf: "pool_wf n b" and own: "is_owned (sblk b k)"
  shows "pool_wf n (snd (dftl_get_page_num k b))"
    and "free_set (snd (dftl_get_page_num k b)) = free_set b"
    and "rsv_set (snd (dftl_get_page_num k b)) = rsv_set b"
proof -
  let ?b = "snd (dftl_get_page_num k b)"
  have sb: "sblk ?b j = (if j = k then (sblk b k)\<lparr>wp_offt := wp_offt (sblk b k) + 1\<rparr> else sblk b j)" for j
    by (simp add: dftl_get_page_num_def)
  have rest: "part ?b = part b" "stream ?b = stream b"
    by (simp_all add: dftl_get_page_num_def)
  show fs: "free_set ?b = free_set b" "rsv_set ?b = rsv_set b"
    using own by (auto simp: free_set_def rsv_set_def sb)
  have same: "is_owned (sblk ?b j) = is_owned (sblk b j)" "is_rsv (sblk ?b j) = is_rsv (sblk b j)"
    "stream_idx (sblk ?b j) = stream_idx (sblk b j)" for j
    by (simp_all add: sb)
  have rsv: "k \<in> data_sblks \<Longrightarrow> \<not> is_rsv (sblk b k)"
    using wf own by (auto simp: pool_wf_def)
  show "pool_wf n ?b"
    using wf own rsv unfolding pool_wf_def fs rest same dftl_check_full_def
    by (auto simp: sb)
qed

section \<open>Initialisation establishes the pools\<close>

lemma pool_wf_blank: "pool_wf 0 bm_blank" "free_set bm_blank = data_sblks" "rsv_set bm_blank = {}"
proof -
  show fs: "free_set bm_blank = data_sblks" "rsv_set bm_blank = {}"
    by (auto simp: free_set_def rsv_set_def bm_blank_def fresh_sblk_def)
  show "pool_wf 0 bm_blank"
    unfolding pool_wf_def fs
    by (simp add: bm_blank_def init_parts_def fresh_sblk_def settings data_sblks_def)
qed

text \<open>What holds of the superblocks throughout initialisation.\<close>

definition all_empty :: "bm \<Rightarrow> bool" where
  "all_empty b \<longleftrightarrow> (\<forall>k. wp_offt (sblk b k) = 0 \<and> valid_cnt (sblk b k) = 0) \<and> (\<forall>g. \<not> valid_bitmap b g)"

lemma get_active_pool:
  assumes "pool_wf n b" and "2 \<le> card (free_set b)"
  obtains k where "k \<in> free_set b"
    "dftl_get_active_sblk DATA_S False b = Some (Some k, upd_part DATA_S (\<lambda>p. p\<lparr>active_sblk := Some k,
       free_sblk_cnt := free_sblk_cnt p - 1\<rparr>) b)"
proof (rule get_active_data [of b])
  show "s_sblk (part b DATA_S) = NOS div 20 + 1" "e_sblk (part b DATA_S) = NOS - 1"
    using assms(1) by (simp_all add: pool_wf_def)
  show "st \<in> data_sblks" if "active_sblk (part b DATA_S) = Some st" for st
    using assms(1) that by (simp add: pool_wf_def)
qed (use assms pool_wf_free that in blast)+

lemma init_reserve_step:
  assumes wf: "pool_wf 0 b" and two: "2 \<le> card (free_set b)" and e: "all_empty b"
  shows "returns (init_reserve i (Some b)) (\<lambda>b'. pool_wf 0 b' \<and> all_empty b' \<and>
    card (free_set b') + 1 = card (free_set b) \<and> card (rsv_set b') = card (rsv_set b) + 1)"
proof -
  obtain k where k: "k \<in> free_set b" and get: "dftl_get_active_sblk DATA_S False b =
    Some (Some k, upd_part DATA_S (\<lambda>p. p\<lparr>active_sblk := Some k, free_sblk_cnt := free_sblk_cnt p - 1\<rparr>) b)"
    using get_active_pool [OF wf two] by blast
  define b' where "b' = upd_part DATA_S (\<lambda>p. p\<lparr>rsv_sblk_cnt := rsv_sblk_cnt p + 1\<rparr>)
    (upd_sblk k (\<lambda>s. s\<lparr>is_owned := False, stream_idx := - 1, is_rsv := True\<rparr>)
    (upd_part DATA_S (\<lambda>p. p\<lparr>active_sblk := Some k, free_sblk_cnt := free_sblk_cnt p - 1\<rparr>) b))"
  have result: "init_reserve i (Some b) = Some b'"
    using get by (simp add: init_reserve_def b'_def)
  have kd: "k \<in> data_sblks" "k \<notin> rsv_set b"
    using k by (auto simp: free_set_def rsv_set_def)
  have sets: "free_set b' = free_set b - {k}" "rsv_set b' = insert k (rsv_set b)"
    using k kd by (auto simp: free_set_def rsv_set_def b'_def)
  have cards: "card (free_set b') + 1 = card (free_set b)" "card (rsv_set b') = card (rsv_set b) + 1"
    using k kd card_Suc_Diff1 [of "free_set b" k] by (simp_all add: sets)
  have "pool_wf 0 b'"
    using wf kd e of_nat_card_remove [OF k] unfolding pool_wf_def sets
    by (auto simp: b'_def dftl_check_full_def all_empty_def)
  then show ?thesis
    using result cards e by (simp add: all_empty_def b'_def)
qed

lemma init_reserve_steps:
  assumes "pool_wf 0 b" and "length is + 1 < card (free_set b)" and "all_empty b"
  shows "returns (fold init_reserve is (Some b)) (\<lambda>b'. pool_wf 0 b' \<and> all_empty b' \<and>
    card (free_set b') + length is = card (free_set b) \<and> card (rsv_set b') = card (rsv_set b) + length is)"
  using assms
proof (induction "is" arbitrary: b)
  case Nil
  then show ?case by simp
next
  case (Cons i "is")
  have "2 \<le> card (free_set b)"
    using Cons.prems(2) by simp
  from init_reserve_step [OF Cons.prems(1) this Cons.prems(3), of i]
  obtain b1 where b1: "init_reserve i (Some b) = Some b1" "pool_wf 0 b1" "all_empty b1"
    "card (free_set b1) + 1 = card (free_set b)" "card (rsv_set b1) = card (rsv_set b) + 1"
    by (auto elim: returnsE)
  with Cons.IH [of b1] Cons.prems(2) show ?case
    by (auto elim!: returns_mono)
qed

lemma init_stream_step:
  assumes wf: "pool_wf n b" and two: "2 \<le> card (free_set b)" and e: "all_empty b"
  shows "returns (init_stream n (Some b)) (\<lambda>b'. pool_wf (Suc n) b' \<and> all_empty b' \<and>
    card (free_set b') + 1 = card (free_set b) \<and> rsv_set b' = rsv_set b)"
proof -
  obtain k where k: "k \<in> free_set b" and get: "dftl_get_active_sblk DATA_S False b =
    Some (Some k, upd_part DATA_S (\<lambda>p. p\<lparr>active_sblk := Some k, free_sblk_cnt := free_sblk_cnt p - 1\<rparr>) b)"
    using get_active_pool [OF wf two] by blast
  define b1 where "b1 = claim_sblk n k b"
  define b' where "b' = upd_stream n (\<lambda>s. (stream_open k b1 s)\<lparr>st_idx := n\<rparr>) b1"
  have result: "init_stream n (Some b) = Some b'"
    using get by (simp add: init_stream_def b'_def b1_def claim_sblk_def Let_def)
  have kd: "k \<in> data_sblks" "\<not> is_owned (sblk b k)" "\<not> is_rsv (sblk b k)"
    using k by (auto simp: free_set_def)
  have sets: "free_set b' = free_set b - {k}" "rsv_set b' = rsv_set b"
    using free_set_claim [OF k, of n] rsv_set_claim [of n k b]
    by (simp_all add: b'_def b1_def free_set_def rsv_set_def)
  have cards: "card (free_set b') + 1 = card (free_set b)"
    using k card_Suc_Diff1 [of "free_set b" k] by (simp add: sets)
  have st: "st_active (stream b' j) = (if j = n then Some k else st_active (stream b j))" for j
    by (simp add: b'_def b1_def)
  have sb: "sblk b' j = (if j = k then (sblk b k)\<lparr>is_owned := True, stream_idx := int n\<rparr> else sblk b j)" for j
    by (simp add: b'_def b1_def)
  have pt: "part b' DATA_S = (part b DATA_S)\<lparr>active_sblk := Some k,
      free_sblk_cnt := free_sblk_cnt (part b DATA_S) - 1\<rparr>"
    by (simp add: b'_def b1_def)
  have opened: "\<exists>q\<in>data_sblks. st_active (stream b' j) = Some q \<and> is_owned (sblk b' q) \<and>
      stream_idx (sblk b' q) = int j" if "j < Suc n" for j
  proof (cases "j = n")
    case False
    then have "j < n"
      using that by simp
    then obtain q where "q \<in> data_sblks" "st_active (stream b j) = Some q" "is_owned (sblk b q)"
        "stream_idx (sblk b q) = int j"
      using wf unfolding pool_wf_def by blast
    then show ?thesis using False kd by (auto simp: st sb)
  qed (use kd in \<open>simp add: st sb\<close>)
  have owned: "\<exists>j<Suc n. st_active (stream b' j) = Some q" if mem: "q \<in> data_sblks" "is_owned (sblk b' q)" for q
  proof (cases "q = k")
    case False
    then have "is_owned (sblk b q)"
      using mem by (simp add: sb)
    then obtain j where "j < n" "st_active (stream b j) = Some q"
      using mem(1) wf unfolding pool_wf_def by blast
    then show ?thesis by (auto simp: st intro!: exI [of _ j])
  qed (auto simp: st)
  have "pool_wf (Suc n) b'"
    unfolding pool_wf_def sets pt
  proof (intro conjI)
    show "\<forall>j<Suc n. \<exists>q\<in>data_sblks. st_active (stream b' j) = Some q \<and> is_owned (sblk b' q) \<and>
        stream_idx (sblk b' q) = int j"
      using opened by blast
    show "\<forall>q\<in>data_sblks. is_owned (sblk b' q) \<longrightarrow> (\<exists>j<Suc n. st_active (stream b' j) = Some q)"
      using owned by blast
  qed (use wf kd of_nat_card_remove [OF k] in \<open>auto simp: pool_wf_def sb dftl_check_full_def\<close>)
  then show ?thesis
    using result cards sets e by (simp add: all_empty_def b'_def b1_def)
qed

lemma init_stream_steps:
  assumes "pool_wf 0 b" and "n + 1 < card (free_set b)" and "all_empty b"
  shows "returns (fold init_stream [0..<n] (Some b)) (\<lambda>b'. pool_wf n b' \<and> all_empty b' \<and>
    card (free_set b') + n = card (free_set b) \<and> rsv_set b' = rsv_set b)"
  using assms(2)
proof (induction n)
  case 0
  then show ?case using assms by simp
next
  case (Suc n)
  then obtain b1 where b1: "fold init_stream [0..<n] (Some b) = Some b1" "pool_wf n b1" "all_empty b1"
    "card (free_set b1) + n = card (free_set b)" "rsv_set b1 = rsv_set b"
    by (auto elim: returnsE)
  have "2 \<le> card (free_set b1)"
    using Suc.prems b1(4) by simp
  from init_stream_step [OF b1(2) this b1(3)] b1 show ?case
    by (auto elim!: returns_mono)
qed

lemma all_empty_cnt: "all_empty b \<Longrightarrow> cnt_ok b"
  by (simp add: all_empty_def cnt_ok_def valid_grains_def)

lemma card_data_sblks: "card data_sblks = 1118"
  by (simp add: data_sblks_def settings)

lemma dftl_bm_init_obtain:
  obtains b where "dftl_bm_init = Some b" "pool_wf MAX_GC_STREAM b" "all_empty b"
    "card (free_set b) = 1102" "card (rsv_set b) = 8" "unat (free_sblk_cnt (part b DATA_S)) = 1102"
proof -
  have "length [0..<MAX_GC_STREAM] + 1 < card (free_set bm_blank)"
    by (simp add: pool_wf_blank card_data_sblks settings)
  moreover have "all_empty bm_blank"
    by (simp add: all_empty_def bm_blank_def fresh_sblk_def)
  ultimately obtain b1 where b1: "fold init_reserve [0..<MAX_GC_STREAM] (Some bm_blank) = Some b1"
    "pool_wf 0 b1" "all_empty b1" "card (free_set b1) = 1110" "card (rsv_set b1) = 8"
    using init_reserve_steps [OF pool_wf_blank(1), of "[0..<MAX_GC_STREAM]"]
    by (auto simp: pool_wf_blank card_data_sblks settings elim!: returnsE)
  have "MAX_GC_STREAM + 1 < card (free_set b1)"
    by (simp add: b1 settings)
  from init_stream_steps [OF b1(2) this b1(3)] b1
  obtain b where b: "dftl_bm_init = Some b" "pool_wf MAX_GC_STREAM b" "all_empty b"
    "card (free_set b) = 1102" "card (rsv_set b) = 8"
    by (auto simp: dftl_bm_init_def settings elim!: returnsE)
  moreover have "unat (free_sblk_cnt (part b DATA_S)) = 1102"
    using b(2,4) by (simp add: pool_wf_def)
  ultimately show ?thesis
    by (rule that)
qed

text \<open>The candidates of a data collection.\<close>

definition victim_ok :: "bm \<Rightarrow> nat \<Rightarrow> bool" where
  "victim_ok b k \<longleftrightarrow> k \<in> data_sblks \<and> \<not> is_owned (sblk b k) \<and> \<not> is_rsv (sblk b k) \<and> dftl_check_full b k"

section \<open>Properties\<close>

text \<open>
  The block manager starts well-formed: \<^verbatim>\<open>dftl_bm_init\<close> returns (no search fails), each of
  the eight streams owns a superblock of its own, eight superblocks are reserved, the remaining
  1102 of the data partition are free, the two counters say so, and no grain is valid.
\<close>

theorem dftl_bm_init_pools:
  "returns dftl_bm_init (\<lambda>b. pool_wf MAX_GC_STREAM b \<and> cnt_ok b \<and> card (rsv_set b) = 8 \<and>
     card (free_set b) = 1102 \<and> unat (free_sblk_cnt (part b DATA_S)) = 1102 \<and>
     (\<forall>g. \<not> valid_bitmap b g))"
proof (rule dftl_bm_init_obtain)
  fix b
  assume b: "dftl_bm_init = Some b" "pool_wf MAX_GC_STREAM b" "all_empty b" "card (free_set b) = 1102"
    "card (rsv_set b) = 8" "unat (free_sblk_cnt (part b DATA_S)) = 1102"
  show ?thesis
    unfolding b(1) using all_empty_cnt [OF b(3)] b(2-) by (simp add: all_empty_def)
qed

text \<open>
  C17. The valid-grain counters are exact.  On a state whose counters count the valid grains of
  each superblock, validating an invalid grain and invalidating a valid grain of a data page both
  succeed (the overflow check never aborts), flip that bit only and keep the counters exact.
\<close>

theorem valid_cnt_exact:
  assumes "cnt_ok b" and "grain_ok g"
  shows "returns (if valid_bitmap b g then dftl_invalidate_grain g b else dftl_validate_grain g b)
    (\<lambda>b'. cnt_ok b' \<and> valid_bitmap b' = (valid_bitmap b)(g := \<not> valid_bitmap b g))"
  using assms by (simp add: dftl_validate_grain_eq dftl_invalidate_grain_eq cnt_ok_set_grain)

lemma valid_cnt_exact_witness:
  "returns (dftl_validate_grain 5 bm_blank) (\<lambda>b'. cnt_ok b' \<and> valid_bitmap b' 5)"
proof -
  have "cnt_ok bm_blank"
    by (rule all_empty_cnt) (simp add: all_empty_def bm_blank_def fresh_sblk_def)
  moreover have "grain_ok 5"
    by (simp add: grain_ok_def page_ok_def settings)
  ultimately have "returns (dftl_validate_grain 5 bm_blank)
      (\<lambda>b'. cnt_ok b' \<and> valid_bitmap b' = (valid_bitmap bm_blank)(5 := True))"
    using valid_cnt_exact [of bm_blank 5] by (simp add: bm_blank_def)
  then show ?thesis
    by (auto elim!: returns_mono)
qed

text \<open>
  C19. Victim choice.  When the data partition has a full superblock outside the pools and every
  such superblock has an invalid grain, \<^verbatim>\<open>dftl_get_gc_target\<close> returns one: it is full, not owned
  and not reserved, of the requested stream whenever there is such a one of that stream, and no
  candidate of that stream (of all streams in the fallback) has fewer valid grains.
\<close>

theorem dftl_get_gc_target_minimal:
  assumes wf: "pool_wf n b" and ok: "cnt_ok b" and ex: "victim_ok b j"
    and garbage: "\<And>i. victim_ok b i \<Longrightarrow> unat (valid_cnt (sblk b i)) < wp_offt (sblk b i) * GRAIN_PER_PAGE"
  shows "\<exists>k. dftl_get_gc_target DATA_S s b = Some k \<and> victim_ok b k \<and>
    (if \<exists>i. victim_ok b i \<and> stream_idx (sblk b i) = s
     then stream_idx (sblk b k) = s \<and> (\<forall>i. victim_ok b i \<and> stream_idx (sblk b i) = s \<longrightarrow>
            unat (valid_cnt (sblk b k)) \<le> unat (valid_cnt (sblk b i)))
     else \<forall>i. victim_ok b i \<longrightarrow> unat (valid_cnt (sblk b k)) \<le> unat (valid_cnt (sblk b i)))"
proof -
  let ?pt = "part b DATA_S"
  have D: "{s_sblk ?pt..e_sblk ?pt} = data_sblks"
    using wf by (simp add: pool_wf_def data_sblks_def)
  have small: "unat (valid_cnt (sblk b i)) < UINT32_MAX" if "i \<in> data_sblks" for i
  proof -
    have "i < NOS" using that by (auto simp: data_sblks_def settings)
    then show ?thesis
      using cnt_ok_unat [OF ok] card_valid_grains_le [of b i] by (simp add: settings)
  qed
  define P where "P = (\<lambda>i. \<not> is_owned (sblk b i) \<and> \<not> is_rsv (sblk b i) \<and> stream_idx (sblk b i) = s \<and>
    dftl_check_full b i)"
  define Q where "Q = (\<lambda>i. \<not> is_owned (sblk b i) \<and> \<not> is_rsv (sblk b i) \<and> dftl_check_full b i)"
  have vP: "victim_ok b i \<and> stream_idx (sblk b i) = s \<longleftrightarrow> i \<in> data_sblks \<and> P i" for i
    by (auto simp: victim_ok_def P_def)
  have vQ: "victim_ok b i \<longleftrightarrow> i \<in> data_sblks \<and> Q i" for i
    by (auto simp: victim_ok_def Q_def)
  obtain t m where first: "gc_scan P b ?pt (None, UINT32_MAX) = (t, m)"
    by fastforce
  note t = gc_scan_spec [OF first, unfolded D]
  show ?thesis
  proof (cases t)
    case (Some k)
    with t have k: "victim_ok b k" "stream_idx (sblk b k) = s"
      using vP by auto
    have "dftl_get_gc_target DATA_S s b = Some k"
      using Some t first garbage [OF k(1)]
      by (simp add: dftl_get_gc_target_def P_def [symmetric] not_le settings)
    then show ?thesis
      using k t Some vP by auto
  next
    case None
    with t have none: "\<not> (victim_ok b i \<and> stream_idx (sblk b i) = s)" for i
      using small [of i] vP [of i] by auto
    obtain t' m' where second: "gc_scan Q b ?pt (None, UINT32_MAX) = (t', m')"
      by fastforce
    note t' = gc_scan_spec [OF second, unfolded D]
    obtain k where k: "t' = Some k"
      using t' ex vQ [of j] small [of j] by (cases t') auto
    with t' have v: "victim_ok b k"
      using vQ by auto
    have "dftl_get_gc_target DATA_S s b = Some k"
      using None t first second k t' garbage [OF v]
      by (simp add: dftl_get_gc_target_def P_def [symmetric] Q_def [symmetric] not_le settings)
    then show ?thesis
      using none v k t' vQ by auto
  qed
qed

definition bm_full_demo :: bm where
  "bm_full_demo = upd_part DATA_S (\<lambda>p. p\<lparr>free_sblk_cnt := 1117\<rparr>)
     (upd_sblk 100 (\<lambda>s. s\<lparr>wp_offt := SBLK_END, stream_idx := 3\<rparr>) bm_blank)"

lemma bm_full_demo_facts: "pool_wf 0 bm_full_demo" "cnt_ok bm_full_demo"
  "victim_ok bm_full_demo i \<longleftrightarrow> i = 100"
proof -
  have fs: "free_set bm_full_demo = data_sblks - {100}" "rsv_set bm_full_demo = {}"
    by (auto simp: free_set_def rsv_set_def bm_full_demo_def bm_blank_def fresh_sblk_def settings
        split: if_splits)
  have "100 \<in> data_sblks"
    by (simp add: data_sblks_def settings)
  then show "pool_wf 0 bm_full_demo" "victim_ok bm_full_demo i \<longleftrightarrow> i = 100"
    unfolding pool_wf_def fs victim_ok_def
    by (auto simp: bm_full_demo_def bm_blank_def init_parts_def fresh_sblk_def settings data_sblks_def
        dftl_check_full_def)
  show "cnt_ok bm_full_demo"
    by (simp add: cnt_ok_def valid_grains_def bm_full_demo_def bm_blank_def fresh_sblk_def)
qed

lemma dftl_get_gc_target_minimal_witness:
  "dftl_get_gc_target DATA_S 3 bm_full_demo = Some 100"
proof -
  have "\<exists>k. dftl_get_gc_target DATA_S 3 bm_full_demo = Some k \<and> victim_ok bm_full_demo k"
    using dftl_get_gc_target_minimal [OF bm_full_demo_facts(1,2), of 100 3]
    by (auto simp: bm_full_demo_facts(3)) (simp add: bm_full_demo_def bm_blank_def fresh_sblk_def settings)
  then show ?thesis
    by (simp add: bm_full_demo_facts(3))
qed

text \<open>
  C18. Stream allocation.  On well-formed pools with two free superblocks,
  \<^verbatim>\<open>dftl_get_stream_sblk\<close> returns a superblock of the data partition that is not full, owned by
  the stream and by no other, leaves the pools well-formed, and takes at most one superblock out
  of the free pool and none out of the reserve.
\<close>

theorem dftl_get_stream_sblk_owned:
  assumes wf: "pool_wf MAX_GC_STREAM b" and i: "i < MAX_GC_STREAM" and two: "2 \<le> card (free_set b)"
  shows "returns (dftl_get_stream_sblk i b) (\<lambda>(k, b'). pool_wf MAX_GC_STREAM b' \<and> k \<in> data_sblks \<and>
    \<not> dftl_check_full b' k \<and> is_owned (sblk b' k) \<and> stream_idx (sblk b' k) = int i \<and>
    st_active (stream b' i) = Some k \<and>
    free_set b - {k} \<subseteq> free_set b' \<and> free_set b' \<subseteq> free_set b \<and> rsv_set b' = rsv_set b)"
proof (cases "stream_need_switch b i")
  case True
  have empty: "k \<in> data_sblks \<and> \<not> dftl_check_full b k" if "k \<in> free_set b" for k
    using that free_set_not_full by (auto simp: free_set_def)
  show ?thesis
    by (rule returns_mono [OF get_stream_switch [OF wf i order_refl two True]])
      (use empty in \<open>auto simp: dftl_check_full_def\<close>)
next
  case False
  then obtain k where "dftl_get_stream_sblk i b = Some (k, b)" "st_active (stream b i) = Some k"
    "k \<in> data_sblks" "is_owned (sblk b k)" "stream_idx (sblk b k) = int i" "\<not> dftl_check_full b k"
    using get_stream_keep [OF wf i order_refl] by blast
  then show ?thesis
    using wf by auto
qed

lemma dftl_get_stream_sblk_owned_witness:
  "\<exists>b. dftl_bm_init = Some b \<and> returns (dftl_get_stream_sblk 7 b) (\<lambda>(k, b'). k \<in> data_sblks \<and>
    \<not> dftl_check_full b' k \<and> stream_idx (sblk b' k) = 7)"
proof (rule dftl_bm_init_obtain)
  fix b
  assume b: "dftl_bm_init = Some b" "pool_wf MAX_GC_STREAM b" "card (free_set b) = 1102"
  have "returns (dftl_get_stream_sblk 7 b) (\<lambda>(k, b'). k \<in> data_sblks \<and>
      \<not> dftl_check_full b' k \<and> stream_idx (sblk b' k) = 7)"
    by (rule returns_mono [OF dftl_get_stream_sblk_owned [OF b(2)]]) (auto simp: settings b(3))
  with b(1) show ?thesis by blast
qed

end
