(* ===== verification/Hot.thy ===== *)
theory Hot
  imports Dcache
begin

text \<open>
  The hot table of \<^verbatim>\<open>hash_hot_cmt/dftl_cache.c\<close>: an open-addressing hash table of grain mappings
  with quadratic probing, the placement of a promoted grain in it, and its lookup.  A slot is the
  pair of its page and its offset; a pointer to a slot is that pair.  \<open>None\<close> is a division by
  zero (a hot table without pages).

  The lemmas show that placement and lookup walk the same chain of 50 slots and that the histogram
  of live states counts the slots.
\<close>

section \<open>Histogram of the live states\<close>

definition hot_hist_dec :: "nat \<Rightarrow> dcache \<Rightarrow> dcache" where
  "hot_hist_dec state c =
     (if state < STATE_NUM \<and> hot_pte_state_live (stat c) state > 0
      then upd_stat (\<lambda>s. s\<lparr>hot_pte_state_live := (hot_pte_state_live s)(state := hot_pte_state_live s state - 1)\<rparr>) c
      else c)"

definition hot_hist_inc :: "nat \<Rightarrow> dcache \<Rightarrow> dcache" where
  "hot_hist_inc state c =
     (if state < STATE_NUM
      then upd_stat (\<lambda>s. s\<lparr>hot_pte_state_live := (hot_pte_state_live s)(state := hot_pte_state_live s state + 1)\<rparr>) c
      else c)"

definition hot_cmt_hist_on_clear_slot :: "h_pte \<Rightarrow> dcache \<Rightarrow> dcache" where
  "hot_cmt_hist_on_clear_slot slot c = (if h_lpa slot = UINT32_MAX then c else hot_hist_dec (h_state slot) c)"

definition hot_hist_move :: "nat \<times> nat \<Rightarrow> nat \<Rightarrow> dcache \<Rightarrow> dcache" where
  "hot_hist_move q new_state c =
     (if h_lpa (hot_slot c q) = UINT32_MAX \<or> new_state \<ge> STATE_NUM then c
      else let c1 = hot_hist_dec (h_state (hot_slot c q)) c;
               c2 = upd_slot q (\<lambda>e. e\<lparr>h_state := new_state\<rparr>) c1
           in hot_hist_inc (h_state (hot_slot c2 q)) c2)"

definition hot_state_raise :: "nat \<times> nat \<Rightarrow> dcache \<Rightarrow> dcache" where
  "hot_state_raise q c =
     (if h_lpa (hot_slot c q) = UINT32_MAX then c
      else let c1 = (if h_state (hot_slot c q) < HOT_STATE_MAX
                     then hot_hist_move q (h_state (hot_slot c q) + 1) c else c);
               st = h_state (hot_slot c1 q)
           in if st < STATE_NUM
              then upd_stat (\<lambda>s. s\<lparr>hot_pte_state_on_hit := (hot_pte_state_on_hit s)(st := hot_pte_state_on_hit s st + 1)\<rparr>) c1
              else c1)"

definition hot_promote_entry_state :: "nat \<Rightarrow> nat" where
  "hot_promote_entry_state cold_cnt = (if cold_cnt > HOT_STATE_MAX then HOT_STATE_MAX else cold_cnt)"

definition hot_hist_place_promoted :: "nat \<times> nat \<Rightarrow> nat \<Rightarrow> dcache \<Rightarrow> dcache" where
  "hot_hist_place_promoted q cold_cnt c =
     (let heat = hot_promote_entry_state cold_cnt
      in hot_hist_inc heat (upd_slot q (\<lambda>e. e\<lparr>h_state := heat\<rparr>) c))"

definition hot_hist_sync_promoted :: "nat \<times> nat \<Rightarrow> nat \<Rightarrow> dcache \<Rightarrow> dcache" where
  "hot_hist_sync_promoted q cold_cnt c =
     (let heat = hot_promote_entry_state cold_cnt
      in if h_state (hot_slot c q) \<noteq> heat then hot_hist_move q heat c else c)"

section \<open>Placement of a promoted grain\<close>

definition MAX_PROBE :: nat where "MAX_PROBE = 50"

definition hot_probe_advance :: "nat \<Rightarrow> nat \<Rightarrow> nat \<times> nat \<Rightarrow> (nat \<times> nat) option" where
  "hot_probe_advance max_tpages probe_step = (\<lambda>(d_idx, p_idx).
     if max_tpages = 0 then None
     else let p = p_idx + probe_step * probe_step
          in Some ((d_idx + p div EPP) mod max_tpages, p mod EPP))"

definition hot_home :: "cache_env \<Rightarrow> lpa_t \<Rightarrow> (nat \<times> nat) option" where
  "hot_home e lpa =
     (if max_cached_hot_entries e = 0 then None
      else let new_lpa = lpa mod max_cached_hot_entries e in Some (new_lpa div EPP, new_lpa mod EPP))"

definition adaptive_stat_inc_hot_evict :: "dcache \<Rightarrow> dcache" where
  "adaptive_stat_inc_hot_evict = upd_stat (\<lambda>s. s\<lparr>hot_evict_count := hot_evict_count s + 1\<rparr>)"

definition adaptive_stat_inc_cold_evict :: "dcache \<Rightarrow> dcache" where
  "adaptive_stat_inc_cold_evict = upd_stat (\<lambda>s. s\<lparr>cold_evict_count := cold_evict_count s + 1\<rparr>)"

definition hot_promote_adaptive_evict_stat :: "h_pte \<Rightarrow> nat \<Rightarrow> dcache \<Rightarrow> dcache" where
  "hot_promote_adaptive_evict_stat victim incoming_cnt c =
     (if promote_displace_counts_hot_evict victim incoming_cnt then adaptive_stat_inc_hot_evict c
      else adaptive_stat_inc_cold_evict c)"

definition hot_promote_adaptive_block_stat :: "h_pte \<Rightarrow> dcache \<Rightarrow> dcache" where
  "hot_promote_adaptive_block_stat victim c =
     (if hot_pte_counts_hot_evict victim then adaptive_stat_inc_hot_evict c else c)"

text \<open>
  The scan of the chain: the slot of the address itself, or the first empty slot and the last of
  the coldest occupied slots.  The first argument is the number of iterations left.
\<close>

datatype hot_scan_result = Found "nat \<times> nat" | Chain "(nat \<times> nat) option" "(nat \<times> nat) option"

fun hot_scan :: "nat \<Rightarrow> nat \<Rightarrow> dcache \<Rightarrow> lpa_t \<Rightarrow> nat \<times> nat \<Rightarrow> (nat \<times> nat) option \<Rightarrow>
    (nat \<times> nat) option \<Rightarrow> nat \<Rightarrow> hot_scan_result option" where
  "hot_scan 0 probe c lpa q em victim victim_state = Some (Chain em victim)"
| "hot_scan (Suc k) probe c lpa q em victim victim_state =
     (let slot = hot_slot c q in
      if h_lpa slot = lpa then Some (Found q)
      else let (em', victim', victim_state') =
             (if h_lpa slot = UINT32_MAX then (if em = None then Some q else em, victim, victim_state)
              else if h_state slot < victim_state then (em, Some q, h_state slot)
              else if h_state slot = victim_state then (em, Some q, victim_state)
              else (em, victim, victim_state))
           in if probe + 1 \<ge> MAX_PROBE then Some (Chain em' victim')
              else do {
                q' \<leftarrow> hot_probe_advance (max_cached_hot_tpages (env c)) (probe + 1) q;
                hot_scan k (probe + 1) c lpa q' em' victim' victim_state'
              })"

definition hot_fill_slot :: "nat \<times> nat \<Rightarrow> lpa_t \<Rightarrow> ppa_t \<Rightarrow> u32 \<Rightarrow> nat \<Rightarrow> dcache \<Rightarrow> dcache" where
  "hot_fill_slot q lpa ppa key_fp cold_cnt c =
     hot_hist_place_promoted q cold_cnt
       (upd_slot q (\<lambda>e. e\<lparr>key_ghost_mark := False, h_lpa := lpa, h_ppa := ppa, h_fp := key_fp\<rparr>) c)"

definition hot_promote_place_grain :: "lpa_t \<Rightarrow> ppa_t \<Rightarrow> u32 \<Rightarrow> nat \<Rightarrow> dcache \<Rightarrow> (bool \<times> dcache) option" where
  "hot_promote_place_grain lpa ppa key_fp cold_cnt c = do {
     home \<leftarrow> hot_home (env c) lpa;
     res \<leftarrow> hot_scan MAX_PROBE 0 c lpa home None None (HOT_STATE_MAX + 1);
     case res of
       Found q \<Rightarrow>
         Some (True, upd_slot q (\<lambda>e. e\<lparr>key_ghost_mark := False\<rparr>)
           (hot_hist_sync_promoted q cold_cnt (upd_slot q (\<lambda>e. e\<lparr>h_ppa := ppa, h_fp := key_fp\<rparr>) c)))
     | Chain (Some q) _ \<Rightarrow>
         Some (True, hot_fill_slot q lpa ppa key_fp cold_cnt
           (upd_stat (\<lambda>s. s\<lparr>hot_valid_entries := hot_valid_entries s + 1, up_grain_new_cnt := up_grain_new_cnt s + 1\<rparr>) c))
     | Chain None (Some q) \<Rightarrow>
         (let slot = hot_slot c q in
          if cold_cnt < h_state slot
          then Some (False, upd_stat (\<lambda>s. s\<lparr>hot_promote_blocked_cnt := hot_promote_blocked_cnt s + 1\<rparr>)
                 (hot_promote_adaptive_block_stat slot c))
          else let c1 = upd_stat (\<lambda>s. s\<lparr>hot_rewrite_entries := hot_rewrite_entries s + 1\<rparr>) c;
                   c2 = hot_promote_adaptive_evict_stat slot cold_cnt c1;
                   c3 = (if h_lpa slot \<noteq> UINT32_MAX then hot_hist_dec (h_state slot) c2 else c2)
               in Some (True, hot_fill_slot q lpa ppa key_fp cold_cnt c3))
     | Chain None None \<Rightarrow> Some (False, c)
   }"

section \<open>Lookup\<close>

fun hot_find :: "nat \<Rightarrow> nat \<Rightarrow> dcache \<Rightarrow> lpa_t \<Rightarrow> nat \<times> nat \<Rightarrow> (nat \<times> nat) option option" where
  "hot_find 0 probe c lpa q = Some None"
| "hot_find (Suc k) probe c lpa q =
     (if h_lpa (hot_slot c q) = lpa then Some (Some q)
      else if probe + 1 \<ge> MAX_PROBE then Some None
      else do {
        q' \<leftarrow> hot_probe_advance (max_cached_hot_tpages (env c)) (probe + 1) q;
        hot_find k (probe + 1) c lpa q'
      })"

section \<open>The chain of an address\<close>

definition hot_env_ok :: "cache_env \<Rightarrow> bool" where
  "hot_env_ok e \<longleftrightarrow> 0 < max_cached_hot_tpages e \<and> max_cached_hot_entries e = max_cached_hot_tpages e * EPP"

definition hot_next :: "nat \<Rightarrow> nat \<Rightarrow> nat \<times> nat \<Rightarrow> nat \<times> nat" where
  "hot_next n i = (\<lambda>(d, p). ((d + (p + i * i) div EPP) mod n, (p + i * i) mod EPP))"

fun probe_path :: "nat \<Rightarrow> nat \<Rightarrow> nat \<Rightarrow> nat \<times> nat \<Rightarrow> (nat \<times> nat) list" where
  "probe_path n 0 i q = []"
| "probe_path n (Suc k) i q = q # probe_path n k (Suc i) (hot_next n (Suc i) q)"

definition hot_start :: "cache_env \<Rightarrow> lpa_t \<Rightarrow> nat \<times> nat" where
  "hot_start e lpa = (lpa mod max_cached_hot_entries e div EPP, lpa mod max_cached_hot_entries e mod EPP)"

definition hot_chain :: "cache_env \<Rightarrow> lpa_t \<Rightarrow> (nat \<times> nat) list" where
  "hot_chain e lpa = probe_path (max_cached_hot_tpages e) MAX_PROBE 0 (hot_start e lpa)"

definition region :: "nat \<Rightarrow> (nat \<times> nat) set" where
  "region n = {..<n} \<times> {..<EPP}"

lemma finite_region [simp]: "finite (region n)"
  by (simp add: region_def)

lemma hot_probe_advance_Some: "0 < n \<Longrightarrow> hot_probe_advance n i q = Some (hot_next n i q)"
  by (cases q) (simp add: hot_probe_advance_def hot_next_def Let_def)

lemma hot_home_Some: "hot_env_ok e \<Longrightarrow> hot_home e lpa = Some (hot_start e lpa)"
  by (simp add: hot_env_ok_def hot_home_def hot_start_def Let_def EPP_val)

lemma hot_next_region: "0 < n \<Longrightarrow> hot_next n i q \<in> region n"
  by (cases q) (simp add: hot_next_def region_def EPP_val)

lemma hot_start_region: "hot_env_ok e \<Longrightarrow> hot_start e lpa \<in> region (max_cached_hot_tpages e)"
  by (auto simp: hot_env_ok_def hot_start_def region_def EPP_val less_mult_imp_div_less)

lemma probe_path_region: "0 < n \<Longrightarrow> q \<in> region n \<Longrightarrow> set (probe_path n k i q) \<subseteq> region n"
  by (induction n k i q rule: probe_path.induct) (auto simp: hot_next_region)

lemma hot_chain_region: "hot_env_ok e \<Longrightarrow> set (hot_chain e lpa) \<subseteq> region (max_cached_hot_tpages e)"
  unfolding hot_chain_def by (rule probe_path_region) (auto simp: hot_start_region, simp add: hot_env_ok_def)

lemma hot_chain_nonempty [simp]: "hot_chain e lpa \<noteq> []"
  by (simp add: hot_chain_def MAX_PROBE_def numeral_eq_Suc)

definition slot_has :: "dcache \<Rightarrow> lpa_t \<Rightarrow> nat \<times> nat \<Rightarrow> bool" where
  "slot_has c lpa q \<longleftrightarrow> h_lpa (hot_slot c q) = lpa"

lemma hot_find_path:
  "0 < max_cached_hot_tpages (env c) \<Longrightarrow> k + i = MAX_PROBE \<Longrightarrow>
    hot_find k i c lpa q = Some (List.find (slot_has c lpa) (probe_path (max_cached_hot_tpages (env c)) k i q))"
proof (induction k arbitrary: i q)
  case (Suc k)
  then show ?case
    by (cases k) (auto simp: hot_probe_advance_Some slot_has_def)
qed simp

text \<open>The scan as a function of the chain.\<close>

fun scan_path :: "dcache \<Rightarrow> lpa_t \<Rightarrow> (nat \<times> nat) list \<Rightarrow> (nat \<times> nat) option \<Rightarrow> (nat \<times> nat) option \<Rightarrow> nat \<Rightarrow>
    hot_scan_result" where
  "scan_path c lpa [] em victim victim_state = Chain em victim"
| "scan_path c lpa (q # qs) em victim victim_state =
     (if slot_has c lpa q then Found q
      else if slot_has c UINT32_MAX q
      then scan_path c lpa qs (if em = None then Some q else em) victim victim_state
      else if h_state (hot_slot c q) \<le> victim_state
      then scan_path c lpa qs em (Some q) (h_state (hot_slot c q))
      else scan_path c lpa qs em victim victim_state)"

lemma hot_scan_path:
  "0 < max_cached_hot_tpages (env c) \<Longrightarrow> k + i = MAX_PROBE \<Longrightarrow>
    hot_scan k i c lpa q em v vs = Some (scan_path c lpa (probe_path (max_cached_hot_tpages (env c)) k i q) em v vs)"
proof (induction k arbitrary: i q em v vs)
  case (Suc k)
  show ?case
  proof (cases k)
    case 0
    with Suc.prems show ?thesis
      by (auto simp: Let_def slot_has_def)
  next
    case (Suc k')
    then have less: "\<not> MAX_PROBE \<le> Suc i" and eq: "k + Suc i = MAX_PROBE"
      using Suc.prems by auto
    show ?thesis
      using less Suc.prems(1) Suc.IH [OF Suc.prems(1) eq]
      by (auto simp: Let_def hot_probe_advance_Some slot_has_def)
  qed
qed simp

lemma scan_path_Found: "scan_path c lpa qs em v vs = Found q \<Longrightarrow> List.find (slot_has c lpa) qs = Some q"
  by (induction c lpa qs em v vs rule: scan_path.induct) (auto split: if_splits)

lemma scan_path_Chain_find:
  "scan_path c lpa qs em v vs = Chain em' v' \<Longrightarrow> List.find (slot_has c lpa) qs = None"
  by (induction c lpa qs em v vs rule: scan_path.induct) (auto split: if_splits)

lemma scan_path_Chain_empty:
  "scan_path c lpa qs em v vs = Chain em' v' \<Longrightarrow>
    em' = (case em of None \<Rightarrow> List.find (slot_has c UINT32_MAX) qs | Some q \<Rightarrow> Some q)"
proof (induction qs arbitrary: em v vs)
  case (Cons q qs)
  show ?case
  proof (cases "slot_has c UINT32_MAX q")
    case True
    then have "scan_path c lpa qs (if em = None then Some q else em) v vs = Chain em' v'"
      using Cons.prems by (cases "em = None") (simp_all split: if_splits)
    from Cons.IH [OF this] show ?thesis
      using True by (cases em) simp_all
  next
    case False
    then obtain v1 vs1 where "scan_path c lpa qs em v1 vs1 = Chain em' v'"
      using Cons.prems by (auto split: if_splits)
    from Cons.IH [OF this] show ?thesis
      using False by (cases em) simp_all
  qed
qed (auto split: option.splits)

text \<open>Without an empty slot, the victim is a coldest slot of the chain.\<close>

lemma scan_path_victim:
  "\<lbrakk>scan_path c lpa qs em v vs = Chain em' v'; \<forall>q \<in> set qs. \<not> slot_has c UINT32_MAX q\<rbrakk> \<Longrightarrow>
    (v' = v \<and> (\<forall>q \<in> set qs. vs < h_state (hot_slot c q))) \<or>
    (\<exists>q \<in> set qs. v' = Some q \<and> h_state (hot_slot c q) \<le> vs \<and>
      (\<forall>q' \<in> set qs. h_state (hot_slot c q) \<le> h_state (hot_slot c q')))"
proof (induction qs arbitrary: v vs)
  case (Cons q qs)
  have nn: "\<not> slot_has c lpa q" "\<not> slot_has c UINT32_MAX q"
    using Cons.prems by (auto split: if_splits)
  show ?case
  proof (cases "h_state (hot_slot c q) \<le> vs")
    case True
    then have "scan_path c lpa qs em (Some q) (h_state (hot_slot c q)) = Chain em' v'"
      using Cons.prems(1) nn by simp
    from Cons.IH [OF this] Cons.prems(2) show ?thesis
      using True by (auto intro: less_imp_le order.trans)
  next
    case False
    then have "scan_path c lpa qs em v vs = Chain em' v'"
      using Cons.prems(1) nn by simp
    from Cons.IH [OF this] Cons.prems(2) show ?thesis
      using False by auto
  qed
qed simp

section \<open>Placement\<close>

lemma hot_hist_dec_simps [simp]:
  "env (hot_hist_dec s c) = env c" "member (hot_hist_dec s c) = member c" "rehash (hot_hist_dec s c) = rehash c"
  "hot_slot (hot_hist_dec s c) = hot_slot c"
  by (simp_all add: hot_hist_dec_def)

lemma hot_hist_inc_simps [simp]:
  "env (hot_hist_inc s c) = env c" "member (hot_hist_inc s c) = member c" "rehash (hot_hist_inc s c) = rehash c"
  "hot_slot (hot_hist_inc s c) = hot_slot c"
  by (simp_all add: hot_hist_inc_def)

lemma evict_stat_simps [simp]:
  "env (hot_promote_adaptive_evict_stat v n c) = env c" "member (hot_promote_adaptive_evict_stat v n c) = member c"
  "rehash (hot_promote_adaptive_evict_stat v n c) = rehash c"
  "hot_slot (hot_promote_adaptive_evict_stat v n c) = hot_slot c"
  "hot_pte_state_live (stat (hot_promote_adaptive_evict_stat v n c)) = hot_pte_state_live (stat c)"
  "hot_valid_entries (stat (hot_promote_adaptive_evict_stat v n c)) = hot_valid_entries (stat c)"
  by (simp_all add: hot_promote_adaptive_evict_stat_def adaptive_stat_inc_hot_evict_def
      adaptive_stat_inc_cold_evict_def)

lemma block_stat_simps [simp]:
  "env (hot_promote_adaptive_block_stat v c) = env c" "member (hot_promote_adaptive_block_stat v c) = member c"
  "rehash (hot_promote_adaptive_block_stat v c) = rehash c"
  "hot_slot (hot_promote_adaptive_block_stat v c) = hot_slot c"
  "hot_pte_state_live (stat (hot_promote_adaptive_block_stat v c)) = hot_pte_state_live (stat c)"
  "hot_valid_entries (stat (hot_promote_adaptive_block_stat v c)) = hot_valid_entries (stat c)"
  by (simp_all add: hot_promote_adaptive_block_stat_def adaptive_stat_inc_hot_evict_def)

lemma hot_hist_move_slot [simp]:
  "hot_slot (hot_hist_move q n c) =
    (if h_lpa (hot_slot c q) = UINT32_MAX \<or> n \<ge> STATE_NUM then hot_slot c
     else (hot_slot c)(q := (hot_slot c q)\<lparr>h_state := n\<rparr>))"
  "env (hot_hist_move q n c) = env c" "rehash (hot_hist_move q n c) = rehash c"
  "cmts (member (hot_hist_move q n c)) = cmts (member c)"
  "mem_table (member (hot_hist_move q n c)) = mem_table (member c)"
  by (simp_all add: hot_hist_move_def Let_def)

definition hot_entry :: "lpa_t \<Rightarrow> ppa_t \<Rightarrow> u32 \<Rightarrow> nat \<Rightarrow> h_pte \<Rightarrow> h_pte" where
  "hot_entry lpa ppa key_fp cold_cnt e = e\<lparr>h_lpa := lpa, h_ppa := ppa, h_fp := key_fp,
     h_state := hot_promote_entry_state cold_cnt, key_ghost_mark := False\<rparr>"

lemma hot_entry_sel [simp]:
  "h_lpa (hot_entry lpa ppa f n e) = lpa" "h_ppa (hot_entry lpa ppa f n e) = ppa"
  "h_fp (hot_entry lpa ppa f n e) = f" "h_state (hot_entry lpa ppa f n e) = hot_promote_entry_state n"
  "\<not> key_ghost_mark (hot_entry lpa ppa f n e)"
  by (simp_all add: hot_entry_def)

lemma hot_promote_entry_state_less [simp]: "hot_promote_entry_state n < STATE_NUM"
  by (simp add: hot_promote_entry_state_def settings)

lemma hot_promote_entry_state_le [simp]: "hot_promote_entry_state n \<le> HOT_STATE_MAX"
  by (simp add: hot_promote_entry_state_def settings)

lemma hot_fill_slot_simps [simp]:
  "hot_slot (hot_fill_slot q lpa ppa f n c) = (hot_slot c)(q := hot_entry lpa ppa f n (hot_slot c q))"
  "env (hot_fill_slot q lpa ppa f n c) = env c" "rehash (hot_fill_slot q lpa ppa f n c) = rehash c"
  "cmts (member (hot_fill_slot q lpa ppa f n c)) = cmts (member c)"
  "mem_table (member (hot_fill_slot q lpa ppa f n c)) = mem_table (member c)"
  by (cases "hot_slot c q"; simp add: hot_fill_slot_def hot_hist_place_promoted_def Let_def hot_entry_def)+

definition found_state :: "nat \<times> nat \<Rightarrow> ppa_t \<Rightarrow> u32 \<Rightarrow> nat \<Rightarrow> dcache \<Rightarrow> dcache" where
  "found_state q ppa f n c = upd_slot q (\<lambda>e. e\<lparr>key_ghost_mark := False\<rparr>)
     (hot_hist_sync_promoted q n (upd_slot q (\<lambda>e. e\<lparr>h_ppa := ppa, h_fp := f\<rparr>) c))"

lemma found_state_simps:
  assumes "h_lpa (hot_slot c q) = lpa" and "lpa \<noteq> UINT32_MAX"
  shows "hot_slot (found_state q ppa f n c) = (hot_slot c)(q := hot_entry lpa ppa f n (hot_slot c q))"
    and "env (found_state q ppa f n c) = env c" and "rehash (found_state q ppa f n c) = rehash c"
    and "cmts (member (found_state q ppa f n c)) = cmts (member c)"
    and "mem_table (member (found_state q ppa f n c)) = mem_table (member c)"
  using assms
  by (cases "hot_slot c q"; simp add: found_state_def hot_hist_sync_promoted_def Let_def hot_entry_def not_le
      fun_eq_iff)+

text \<open>The slot a placement writes.\<close>

definition place_target :: "dcache \<Rightarrow> lpa_t \<Rightarrow> nat \<Rightarrow> nat \<times> nat \<Rightarrow> bool" where
  "place_target c lpa cold_cnt q \<longleftrightarrow> q \<in> set (hot_chain (env c) lpa) \<and>
     (case List.find (slot_has c lpa) (hot_chain (env c) lpa) of
        Some q' \<Rightarrow> q = q'
      | None \<Rightarrow> (case List.find (slot_has c UINT32_MAX) (hot_chain (env c) lpa) of
          Some q' \<Rightarrow> q = q'
        | None \<Rightarrow> h_state (hot_slot c q) \<le> cold_cnt \<and>
            (\<forall>q' \<in> set (hot_chain (env c) lpa). h_state (hot_slot c q) \<le> h_state (hot_slot c q'))))"

definition place_blocked :: "dcache \<Rightarrow> lpa_t \<Rightarrow> nat \<Rightarrow> bool" where
  "place_blocked c lpa cold_cnt \<longleftrightarrow> (\<forall>q \<in> set (hot_chain (env c) lpa).
     \<not> slot_has c lpa q \<and> \<not> slot_has c UINT32_MAX q \<and> cold_cnt < h_state (hot_slot c q))"

definition states_ok :: "dcache \<Rightarrow> bool" where
  "states_ok c \<longleftrightarrow> (\<forall>q \<in> region (max_cached_hot_tpages (env c)). h_state (hot_slot c q) \<le> HOT_STATE_MAX)"

lemma find_mem: "List.find P xs = Some x \<Longrightarrow> x \<in> set xs \<and> P x"
  by (induction xs) (auto split: if_splits)

text \<open>The four outcomes, with the state each leaves.\<close>

lemma place_outcomes [consumes 2]:
  assumes ok: "hot_env_ok (env c)" and st: "states_ok c"
  obtains (found) q where "List.find (slot_has c lpa) (hot_chain (env c) lpa) = Some q"
      "hot_promote_place_grain lpa ppa f n c = Some (True, found_state q ppa f n c)"
  | (fresh) q where "List.find (slot_has c lpa) (hot_chain (env c) lpa) = None"
      "List.find (slot_has c UINT32_MAX) (hot_chain (env c) lpa) = Some q"
      "hot_promote_place_grain lpa ppa f n c = Some (True, hot_fill_slot q lpa ppa f n
        (upd_stat (\<lambda>s. s\<lparr>hot_valid_entries := hot_valid_entries s + 1, up_grain_new_cnt := up_grain_new_cnt s + 1\<rparr>) c))"
  | (displace) q where "place_target c lpa n q" "\<not> slot_has c UINT32_MAX q"
      "hot_promote_place_grain lpa ppa f n c = Some (True, hot_fill_slot q lpa ppa f n
        (hot_hist_dec (h_state (hot_slot c q)) (hot_promote_adaptive_evict_stat (hot_slot c q) n
          (upd_stat (\<lambda>s. s\<lparr>hot_rewrite_entries := hot_rewrite_entries s + 1\<rparr>) c))))"
  | (blocked) q where "place_blocked c lpa n"
      "hot_promote_place_grain lpa ppa f n c = Some (False, upd_stat (\<lambda>s. s\<lparr>hot_promote_blocked_cnt :=
        hot_promote_blocked_cnt s + 1\<rparr>) (hot_promote_adaptive_block_stat (hot_slot c q) c))"
proof -
  let ?ch = "hot_chain (env c) lpa"
  have n: "0 < max_cached_hot_tpages (env c)"
    using ok by (simp add: hot_env_ok_def)
  have scan: "hot_scan MAX_PROBE 0 c lpa (hot_start (env c) lpa) None None (HOT_STATE_MAX + 1) =
      Some (scan_path c lpa ?ch None None (Suc HOT_STATE_MAX))"
    using n by (simp add: hot_scan_path hot_chain_def)
  have eq: "hot_promote_place_grain lpa ppa f n c = (case scan_path c lpa ?ch None None (Suc HOT_STATE_MAX) of
       Found q \<Rightarrow> Some (True, found_state q ppa f n c)
     | Chain (Some q) _ \<Rightarrow> Some (True, hot_fill_slot q lpa ppa f n
         (upd_stat (\<lambda>s. s\<lparr>hot_valid_entries := hot_valid_entries s + 1, up_grain_new_cnt := up_grain_new_cnt s + 1\<rparr>) c))
     | Chain None (Some q) \<Rightarrow>
         if n < h_state (hot_slot c q)
         then Some (False, upd_stat (\<lambda>s. s\<lparr>hot_promote_blocked_cnt := hot_promote_blocked_cnt s + 1\<rparr>)
           (hot_promote_adaptive_block_stat (hot_slot c q) c))
         else Some (True, hot_fill_slot q lpa ppa f n
           (if h_lpa (hot_slot c q) \<noteq> UINT32_MAX
            then hot_hist_dec (h_state (hot_slot c q)) (hot_promote_adaptive_evict_stat (hot_slot c q) n
              (upd_stat (\<lambda>s. s\<lparr>hot_rewrite_entries := hot_rewrite_entries s + 1\<rparr>) c))
            else hot_promote_adaptive_evict_stat (hot_slot c q) n
              (upd_stat (\<lambda>s. s\<lparr>hot_rewrite_entries := hot_rewrite_entries s + 1\<rparr>) c)))
     | Chain None None \<Rightarrow> Some (False, c))"
    unfolding hot_promote_place_grain_def hot_home_Some [OF ok] bind.bind_lunit scan Let_def found_state_def
    by (rule refl)
  show thesis
  proof (cases "scan_path c lpa ?ch None None (Suc HOT_STATE_MAX)")
    case (Found q)
    show thesis
      using scan_path_Found [OF Found] by (rule found) (simp add: eq Found)
  next
    case (Chain em v)
    note none = scan_path_Chain_find [OF Chain]
    have em: "em = List.find (slot_has c UINT32_MAX) ?ch"
      using scan_path_Chain_empty [OF Chain] by simp
    show thesis
    proof (cases em)
      case (Some q)
      show thesis
        using none em [symmetric, unfolded Some] by (rule fresh) (simp add: eq Chain Some)
    next
      case None
      then have full: "\<forall>q \<in> set ?ch. \<not> slot_has c UINT32_MAX q" and
        other: "\<forall>q \<in> set ?ch. \<not> slot_has c lpa q"
        using em none by (auto simp: find_None_iff)
      have "\<forall>q \<in> set ?ch. h_state (hot_slot c q) \<le> HOT_STATE_MAX"
        using st hot_chain_region [OF ok] by (auto simp: states_ok_def)
      then have "\<exists>q \<in> set ?ch. \<not> Suc HOT_STATE_MAX < h_state (hot_slot c q)"
        using hot_chain_nonempty [of "env c" lpa] by (metis le_SucI last_in_set linorder_not_less)
      then obtain q where q: "q \<in> set ?ch" "v = Some q"
        "\<forall>q' \<in> set ?ch. h_state (hot_slot c q) \<le> h_state (hot_slot c q')"
        using scan_path_victim [OF Chain full] by blast
      have lpa_q: "h_lpa (hot_slot c q) \<noteq> UINT32_MAX"
        using full q(1) by (simp add: slot_has_def)
      show thesis
      proof (cases "n < h_state (hot_slot c q)")
        case True
        then have "place_blocked c lpa n"
          using full other q(3) by (auto simp: place_blocked_def)
        then show thesis
          by (rule blocked) (simp add: eq Chain None q(2) True)
      next
        case False
        then have "place_target c lpa n q"
          using q none em None by (simp add: place_target_def)
        moreover have "\<not> slot_has c UINT32_MAX q"
          using lpa_q by (simp add: slot_has_def)
        ultimately show thesis
          by (rule displace) (simp add: eq Chain None q(2) False lpa_q)
      qed
    qed
  qed
qed

text \<open>The placement as seen in the table.\<close>

lemma place_slots:
  assumes ok: "hot_env_ok (env c)" and st: "states_ok c" and lpa: "lpa \<noteq> UINT32_MAX"
  shows "returns (hot_promote_place_grain lpa ppa f n c) (\<lambda>(placed, c'). env c' = env c \<and> rehash c' = rehash c \<and>
    cmts (member c') = cmts (member c) \<and> mem_table (member c') = mem_table (member c) \<and>
    (if place_blocked c lpa n then \<not> placed \<and> hot_slot c' = hot_slot c
     else placed \<and> (\<exists>q. place_target c lpa n q \<and> hot_slot c' = (hot_slot c)(q := hot_entry lpa ppa f n (hot_slot c q)))))"
  using ok st
proof (cases rule: place_outcomes [where lpa = lpa and ppa = ppa and f = f and n = n])
  case (found q)
  then have "q \<in> set (hot_chain (env c) lpa)" "h_lpa (hot_slot c q) = lpa"
    using find_mem [OF found(1)] by (simp_all add: slot_has_def)
  then have "place_target c lpa n q" "\<not> place_blocked c lpa n"
    using found(1) by (auto simp: place_target_def place_blocked_def slot_has_def)
  then show ?thesis
    using found(2) found_state_simps [OF \<open>h_lpa (hot_slot c q) = lpa\<close> lpa]
    by (auto simp del: split_paired_Ex intro!: exI [of _ q])
next
  case (fresh q)
  then have "place_target c lpa n q" "\<not> place_blocked c lpa n"
    using find_mem [OF fresh(2)] by (auto simp: place_target_def place_blocked_def)
  then show ?thesis
    using fresh(3) by (auto simp del: split_paired_Ex intro!: exI [of _ q])
next
  case (displace q)
  then have "\<not> place_blocked c lpa n"
    by (fastforce simp: place_target_def place_blocked_def slot_has_def split: option.splits dest!: find_mem)
  then show ?thesis
    using displace by (auto simp del: split_paired_Ex intro!: exI [of _ q])
next
  case (blocked q)
  then show ?thesis by simp
qed

lemma find_after_write:
  assumes "q \<in> set qs" and "List.find (slot_has c lpa) qs \<in> {None, Some q}"
    and "hot_slot c' = (hot_slot c)(q := e)" and "h_lpa e = lpa"
  shows "List.find (slot_has c' lpa) qs = Some q"
  using assms by (induction qs) (auto simp: slot_has_def split: if_splits)

lemma find_after_other_write:
  assumes "\<not> slot_has c lpa q" and "hot_slot c' = (hot_slot c)(q := e)" and "h_lpa e \<noteq> lpa"
  shows "List.find (slot_has c' lpa) qs = List.find (slot_has c lpa) qs"
proof -
  have "slot_has c' lpa = slot_has c lpa"
    using assms by (auto simp: slot_has_def fun_eq_iff)
  then show ?thesis by simp
qed

lemma place_target_find:
  "place_target c lpa n q \<Longrightarrow> List.find (slot_has c lpa) (hot_chain (env c) lpa) \<in> {None, Some q}"
  by (auto simp: place_target_def split: option.splits)

section \<open>The histogram counts the slots\<close>

definition slot_count :: "nat \<Rightarrow> (nat \<times> nat \<Rightarrow> h_pte) \<Rightarrow> (h_pte \<Rightarrow> bool) \<Rightarrow> nat" where
  "slot_count n f P = card {q \<in> region n. P (f q)}"

definition in_state :: "nat \<Rightarrow> h_pte \<Rightarrow> bool" where
  "in_state s e \<longleftrightarrow> h_lpa e \<noteq> UINT32_MAX \<and> h_state e = s"

definition in_use :: "h_pte \<Rightarrow> bool" where
  "in_use e \<longleftrightarrow> h_lpa e \<noteq> UINT32_MAX"

definition live_ok :: "dcache \<Rightarrow> bool" where
  "live_ok c \<longleftrightarrow> (\<forall>s < STATE_NUM. hot_pte_state_live (stat c) s =
     slot_count (max_cached_hot_tpages (env c)) (hot_slot c) (in_state s))"

text \<open>
  The counter of valid entries exceeds the number of slots in use by \<open>k\<close>: a rehash of a table with
  several entries for one address counts each of them but keeps one.
\<close>

definition valid_ok :: "nat \<Rightarrow> dcache \<Rightarrow> bool" where
  "valid_ok k c \<longleftrightarrow> hot_valid_entries (stat c) = slot_count (max_cached_hot_tpages (env c)) (hot_slot c) in_use + k"

text \<open>The invariant of the hot table between rehashes.\<close>

definition hot_ok :: "nat \<Rightarrow> dcache \<Rightarrow> bool" where
  "hot_ok k c \<longleftrightarrow> hot_env_ok (env c) \<and> states_ok c \<and> live_ok c \<and> valid_ok k c"

lemma empty_table_hot_ok:
  assumes "hot_env_ok (env c)" and "states_ok c"
    and none: "\<And>q. q \<in> region (max_cached_hot_tpages (env c)) \<Longrightarrow> \<not> in_use (hot_slot c q)"
    and "hot_pte_state_live (stat c) = (\<lambda>_. 0)" and "hot_valid_entries (stat c) = 0"
  shows "hot_ok 0 c"
proof -
  have "slot_count (max_cached_hot_tpages (env c)) (hot_slot c) P = 0" if "\<And>e. P e \<Longrightarrow> in_use e" for P
    using none that by (auto simp: slot_count_def)
  moreover have "in_state s e \<Longrightarrow> in_use e" for s e
    by (simp add: in_state_def in_use_def)
  ultimately show ?thesis
    using assms by (auto simp: hot_ok_def live_ok_def valid_ok_def)
qed

lemma slot_count_upd:
  assumes "q \<in> region n"
  shows "slot_count n (f(q := e)) P + (if P (f q) then 1 else 0) = slot_count n f P + (if P e then 1 else 0)"
proof -
  have "{x \<in> region n. P ((f(q := e)) x)} = {x \<in> region n - {q}. P (f x)} \<union> {x \<in> {q}. P e}"
    using assms by auto
  then have 1: "slot_count n (f(q := e)) P = card {x \<in> region n - {q}. P (f x)} + (if P e then 1 else 0)"
    by (simp add: slot_count_def card_insert_if)
  have "{x \<in> region n. P (f x)} = {x \<in> region n - {q}. P (f x)} \<union> {x \<in> {q}. P (f q)}"
    using assms by auto
  then have "slot_count n f P = card {x \<in> region n - {q}. P (f x)} + (if P (f q) then 1 else 0)"
    by (simp add: slot_count_def card_insert_if)
  with 1 show ?thesis by simp
qed

lemma slot_count_pos: "q \<in> region n \<Longrightarrow> P (f q) \<Longrightarrow> 0 < slot_count n f P"
  unfolding slot_count_def card_gt_0_iff by (rule conjI, blast, simp)

text \<open>Writing a slot that holds an entry in state \<open>s'\<close> afterwards, with the histogram updates the code makes.\<close>

lemma live_dec [simp]: "hot_pte_state_live (stat (hot_hist_dec s c)) =
    (if s < STATE_NUM then (hot_pte_state_live (stat c))(s := hot_pte_state_live (stat c) s - 1)
     else hot_pte_state_live (stat c))"
  by (auto simp: hot_hist_dec_def fun_eq_iff)

lemma live_inc [simp]: "hot_pte_state_live (stat (hot_hist_inc s c)) =
    (if s < STATE_NUM then (hot_pte_state_live (stat c))(s := Suc (hot_pte_state_live (stat c) s))
     else hot_pte_state_live (stat c))"
  by (auto simp: hot_hist_inc_def)

lemma valid_dec_inc [simp]:
  "hot_valid_entries (stat (hot_hist_dec s c)) = hot_valid_entries (stat c)"
  "hot_valid_entries (stat (hot_hist_inc s c)) = hot_valid_entries (stat c)"
  by (simp_all add: hot_hist_dec_def hot_hist_inc_def)

lemma live_ok_write:
  assumes ok: "live_ok c" and q: "q \<in> region (max_cached_hot_tpages (env c))"
    and used: "in_use (hot_slot c q) \<Longrightarrow> h_state (hot_slot c q) < STATE_NUM"
    and new: "in_use e" "h_state e < STATE_NUM"
    and c': "env c' = env c" "hot_slot c' = (hot_slot c)(q := e)"
    and live: "hot_pte_state_live (stat c') = (\<lambda>L. L(h_state e := Suc (L (h_state e))))
       (if in_use (hot_slot c q)
        then (hot_pte_state_live (stat c))(h_state (hot_slot c q) := hot_pte_state_live (stat c) (h_state (hot_slot c q)) - 1)
        else hot_pte_state_live (stat c))"
  shows "live_ok c'"
  unfolding live_ok_def
proof (intro allI impI)
  fix s
  assume s: "s < STATE_NUM"
  let ?n = "max_cached_hot_tpages (env c)"
  have cnt: "slot_count ?n (hot_slot c') (in_state s) + (if in_state s (hot_slot c q) then 1 else 0) =
      slot_count ?n (hot_slot c) (in_state s) + (if in_state s e then 1 else 0)"
    unfolding c' using q by (rule slot_count_upd)
  have pos: "in_state s (hot_slot c q) \<Longrightarrow> 0 < slot_count ?n (hot_slot c) (in_state s)"
    using q by (rule slot_count_pos)
  have L: "hot_pte_state_live (stat c) s = slot_count ?n (hot_slot c) (in_state s)"
    using ok s by (simp add: live_ok_def)
  show "hot_pte_state_live (stat c') s = slot_count (max_cached_hot_tpages (env c')) (hot_slot c') (in_state s)"
    using cnt pos L new(1) unfolding live c'(1)
    by (auto simp: in_state_def in_use_def split: if_splits)
qed

lemma place_hot_ok:
  assumes ok: "hot_ok k c" and lpa: "lpa \<noteq> UINT32_MAX"
  shows "returns (hot_promote_place_grain lpa ppa f n c) (\<lambda>(_, c'). hot_ok k c')"
proof -
  let ?n = "max_cached_hot_tpages (env c)" and ?e = "\<lambda>q. hot_entry lpa ppa f n (hot_slot c q)"
  have eo: "hot_env_ok (env c)" and st: "states_ok c" and lo: "live_ok c" and vo: "valid_ok k c"
    using ok by (auto simp: hot_ok_def)
  have states: "states_ok c'" if "env c' = env c" "hot_slot c' = (hot_slot c)(q := ?e q)" for c' q
    using st that by (simp add: states_ok_def)
  have used: "h_state (hot_slot c q) < STATE_NUM" if "q \<in> region ?n" for q
    using st that by (auto simp: states_ok_def settings)
  have e: "in_use (?e q)" "h_state (?e q) < STATE_NUM" for q
    using lpa by (simp_all add: in_use_def)
  have chain: "set (hot_chain (env c) lpa) \<subseteq> region ?n"
    using eo by (rule hot_chain_region)
  have counted: "slot_count ?n ((hot_slot c)(q := ?e q)) in_use =
      slot_count ?n (hot_slot c) in_use + (if in_use (hot_slot c q) then 0 else 1)" if "q \<in> region ?n" for q
    using slot_count_upd [OF that, of "hot_slot c" "?e q" in_use] e(1) by (auto split: if_splits)
  show ?thesis
    using eo st
  proof (cases rule: place_outcomes [where lpa = lpa and ppa = ppa and f = f and n = n])
    case (found q)
    have q: "q \<in> region ?n" "h_lpa (hot_slot c q) = lpa"
      using find_mem [OF found(1)] chain by (auto simp: slot_has_def)
    let ?c = "found_state q ppa f n c"
    note sim = found_state_simps [OF q(2) lpa]
    have valid: "hot_valid_entries (stat ?c) = hot_valid_entries (stat c)"
      by (auto simp: found_state_def hot_hist_sync_promoted_def hot_hist_move_def Let_def)
    have "live_ok ?c"
    proof (rule live_ok_write [OF lo q(1)])
      show "hot_pte_state_live (stat ?c) = (\<lambda>L. L(h_state (?e q) := Suc (L (h_state (?e q)))))
       (if in_use (hot_slot c q)
        then (hot_pte_state_live (stat c))(h_state (hot_slot c q) := hot_pte_state_live (stat c) (h_state (hot_slot c q)) - 1)
        else hot_pte_state_live (stat c))"
        using q(2) lpa used [OF q(1)] lo hot_promote_entry_state_less [of n] slot_count_pos [OF q(1), of "in_state (h_state (hot_slot c q))" "hot_slot c"]
        by (auto simp: found_state_def hot_hist_sync_promoted_def hot_hist_move_def Let_def in_use_def
            in_state_def live_ok_def simp del: hot_promote_entry_state_less)
    qed (use e used q sim in auto)
    then show ?thesis
      using found(2) sim states [OF sim(2,1)] eo vo counted [OF q(1)] q(2) lpa valid
      by (simp add: hot_ok_def valid_ok_def in_use_def)
  next
    case (fresh q)
    have q: "q \<in> region ?n" "h_lpa (hot_slot c q) = UINT32_MAX"
      using find_mem [OF fresh(2)] chain by (auto simp: slot_has_def)
    let ?c = "hot_fill_slot q lpa ppa f n
      (upd_stat (\<lambda>s. s\<lparr>hot_valid_entries := hot_valid_entries s + 1, up_grain_new_cnt := up_grain_new_cnt s + 1\<rparr>) c)"
    have sim: "env ?c = env c" "hot_slot ?c = (hot_slot c)(q := ?e q)" by simp_all
    have "live_ok ?c"
      by (rule live_ok_write [OF lo q(1) _ e sim])
        (use used q in \<open>auto simp: in_use_def hot_fill_slot_def hot_hist_place_promoted_def Let_def\<close>)
    moreover have "hot_valid_entries (stat ?c) = hot_valid_entries (stat c) + 1"
      by (simp add: hot_fill_slot_def hot_hist_place_promoted_def Let_def)
    ultimately show ?thesis
      using fresh(3) states [OF sim] eo vo counted [OF q(1)] q(2)
      by (simp add: hot_ok_def valid_ok_def in_use_def)
  next
    case (displace q)
    have q: "q \<in> region ?n" "in_use (hot_slot c q)"
      using displace chain by (auto simp: place_target_def slot_has_def in_use_def)
    let ?c = "hot_fill_slot q lpa ppa f n
        (hot_hist_dec (h_state (hot_slot c q)) (hot_promote_adaptive_evict_stat (hot_slot c q) n
          (upd_stat (\<lambda>s. s\<lparr>hot_rewrite_entries := hot_rewrite_entries s + 1\<rparr>) c)))"
    have sim: "env ?c = env c" "hot_slot ?c = (hot_slot c)(q := ?e q)" by simp_all
    have "live_ok ?c"
      by (rule live_ok_write [OF lo q(1) _ e sim])
        (use used q in \<open>auto simp: hot_fill_slot_def hot_hist_place_promoted_def Let_def\<close>)
    moreover have "hot_valid_entries (stat ?c) = hot_valid_entries (stat c)"
      by (simp add: hot_fill_slot_def hot_hist_place_promoted_def Let_def)
    ultimately show ?thesis
      using displace(3) states [OF sim] eo vo counted [OF q(1)] q(2)
      by (simp add: hot_ok_def valid_ok_def)
  next
    case (blocked q)
    then show ?thesis
      using ok by (simp add: hot_ok_def states_ok_def live_ok_def valid_ok_def)
  qed
qed

section \<open>Frame\<close>

lemma hist_side [simp]:
  "side (hot_hist_dec s c) = side c" "side (hot_hist_inc s c) = side c" "side (hot_hist_move q n c) = side c"
  "side (hot_cmt_hist_on_clear_slot e c) = side c" "side (hot_promote_adaptive_evict_stat e n c) = side c"
  "side (hot_promote_adaptive_block_stat e c) = side c" "side (hot_fill_slot q lpa ppa f n c) = side c"
  "side (hot_state_raise q c) = side c" "side (found_state q ppa f n c) = side c"
  by (simp_all add: hot_hist_dec_def hot_hist_inc_def hot_hist_move_def hot_cmt_hist_on_clear_slot_def
      hot_promote_adaptive_evict_stat_def hot_promote_adaptive_block_stat_def adaptive_stat_inc_hot_evict_def
      adaptive_stat_inc_cold_evict_def hot_fill_slot_def hot_hist_place_promoted_def hot_state_raise_def
      found_state_def hot_hist_sync_promoted_def Let_def)

lemma place_side:
  assumes "hot_env_ok (env c)" and "states_ok c"
  shows "returns (hot_promote_place_grain lpa ppa f n c) (\<lambda>(_, c'). side c' = side c)"
  using assms
  by (cases rule: place_outcomes [where lpa = lpa and ppa = ppa and f = f and n = n]) simp_all

end
