(* ===== verification/Rehash.thy ===== *)
theory Rehash
  imports Hot
begin

text \<open>
  The rehash of the hot table after a change of its size (\<^verbatim>\<open>hash_hot_cmt/dftl_cache.c\<close>): a collect
  phase that saves the warm entries and clears the table, an insert phase that places them again,
  both cut into ticks with a budget.  \<open>None\<close> is a division by zero (a hot table without pages).

  The lemmas show that a rehash run to its end keeps every warm entry, drops the others, restores
  the histogram and stays far below the iteration limit of \<^verbatim>\<open>hot_rehash_drain_all\<close>.
\<close>

section \<open>Slots and progress\<close>

definition HOT_REHASH_MAX_PROBE :: nat where "HOT_REHASH_MAX_PROBE = MAX_PROBE * 64"

definition hot_rehash_clear_slot :: "nat \<times> nat \<Rightarrow> dcache \<Rightarrow> dcache" where
  "hot_rehash_clear_slot q c =
     (let c1 = hot_cmt_hist_on_clear_slot (hot_slot c q) c;
          c2 = upd_slot q (\<lambda>e. e\<lparr>h_lpa := UINT32_MAX, h_ppa := UINT32_MAX, h_state := MIN_STATE, h_fp := 0\<rparr>) c1
      in if key_ghost_mark (hot_slot c2 q)
         then let state = (if key_ghost_state (hot_slot c2 q) < STATE_NUM then key_ghost_state (hot_slot c2 q) else 0);
                  c3 = upd_stat (\<lambda>s. s\<lparr>ghost_key_state_live := (ghost_key_state_live s)(state := ghost_key_state_live s state - 1)\<rparr>) c2;
                  c4 = upd_slot q (\<lambda>e. e\<lparr>key_ghost_mark := False, key_ghost_state := 0\<rparr>) c3
              in if nr_ghost_key (member c4) > 0
                 then upd_member (\<lambda>m. m\<lparr>nr_ghost_key := nr_ghost_key m - 1\<rparr>) c4 else c4
         else c2)"

text \<open>\<^verbatim>\<open>key_ghost_state\<close> of the destination is left as it is.\<close>

definition hot_rehash_copy_pte :: "h_pte \<Rightarrow> h_pte \<Rightarrow> h_pte" where
  "hot_rehash_copy_pte src dest = dest\<lparr>h_lpa := h_lpa src, h_ppa := h_ppa src, h_state := h_state src,
     h_fp := h_fp src, key_ghost_mark := key_ghost_mark src\<rparr>"

definition hot_cmt_accessible :: "dcache \<Rightarrow> bool" where
  "hot_cmt_accessible c \<longleftrightarrow> phase (rehash c) = HOT_REHASH_IDLE"

definition hot_cmt_report_valid_entries :: "dcache \<Rightarrow> nat" where
  "hot_cmt_report_valid_entries c = (case phase (rehash c) of
     HOT_REHASH_IDLE \<Rightarrow> hot_valid_entries (stat c)
   | HOT_REHASH_INSERT \<Rightarrow> placed (rehash c) + (length (saved (rehash c)) - insert_idx (rehash c))
   | HOT_REHASH_COLLECT \<Rightarrow> length (saved (rehash c)))"

definition hot_cmt_fill_permille :: "dcache \<Rightarrow> nat" where
  "hot_cmt_fill_permille c =
     (let max_hot = max_cached_hot_entries (env c); valid = hot_cmt_report_valid_entries c
      in if max_hot = 0 then 0 else valid * 1000 div max_hot)"

definition hot_cmt_warm_fill_permille :: "dcache \<Rightarrow> nat" where
  "hot_cmt_warm_fill_permille c =
     (let max_hot = max_cached_hot_entries (env c)
      in if max_hot = 0 then 0
         else sum_list (map (hot_pte_state_live (stat c)) [DEFAULT_STATE..<STATE_NUM]) * 1000 div max_hot)"

definition hot_rehash_advance_probe :: "dcache \<Rightarrow> nat \<Rightarrow> nat \<times> nat \<Rightarrow> (nat \<times> nat) option" where
  "hot_rehash_advance_probe c probe = (\<lambda>(d_idx, p_idx).
     let p = p_idx + probe * probe; max_tpages = max_cached_hot_tpages (env c)
     in if max_tpages = 0 then None else Some ((d_idx + p div EPP) mod max_tpages, p mod EPP))"

definition rehash_put :: "h_pte \<Rightarrow> nat \<times> nat \<Rightarrow> dcache \<Rightarrow> dcache" where
  "rehash_put src q c =
     (let c1 = (if h_lpa (hot_slot c q) \<noteq> UINT32_MAX then hot_hist_dec (h_state (hot_slot c q)) c else c);
          c2 = upd_slot q (hot_rehash_copy_pte src) c1
      in hot_hist_inc (h_state (hot_slot c2 q)) c2)"

fun rehash_probe :: "nat \<Rightarrow> nat \<Rightarrow> h_pte \<Rightarrow> nat \<times> nat \<Rightarrow> dcache \<Rightarrow> (bool \<times> dcache) option" where
  "rehash_probe 0 probe src q c = Some (False, c)"
| "rehash_probe (Suc k) probe src q c =
     (if h_lpa (hot_slot c q) = UINT32_MAX \<or> h_lpa (hot_slot c q) = h_lpa src
      then Some (True, rehash_put src q c)
      else if probe + 1 \<ge> HOT_REHASH_MAX_PROBE then Some (False, c)
      else do {
        q' \<leftarrow> hot_rehash_advance_probe c (probe + 1) q;
        rehash_probe k (probe + 1) src q' c
      })"

definition hot_rehash_place_entry_primary :: "h_pte \<Rightarrow> dcache \<Rightarrow> (bool \<times> dcache) option" where
  "hot_rehash_place_entry_primary src c = do {
     home \<leftarrow> hot_home (env c) (h_lpa src);
     rehash_probe HOT_REHASH_MAX_PROBE 0 src home c
   }"

text \<open>All slots in the order of the two loops of the fallback.\<close>

definition slots_of :: "nat \<Rightarrow> (nat \<times> nat) list" where
  "slots_of n = List.product [0..<n] [0..<EPP]"

definition hot_rehash_place_entry_fallback :: "h_pte \<Rightarrow> dcache \<Rightarrow> bool \<times> dcache" where
  "hot_rehash_place_entry_fallback src c =
     (case List.find (\<lambda>q. h_lpa (hot_slot c q) = UINT32_MAX \<or> h_lpa (hot_slot c q) = h_lpa src)
             (slots_of (max_cached_hot_tpages (env c))) of
        Some q \<Rightarrow> (True, rehash_put src q c)
      | None \<Rightarrow> (False, c))"

definition hot_rehash_place_entry :: "h_pte \<Rightarrow> dcache \<Rightarrow> (bool \<times> dcache) option" where
  "hot_rehash_place_entry src c = do {
     (ok, c') \<leftarrow> hot_rehash_place_entry_primary src c;
     if ok then Some (True, c') else Some (hot_rehash_place_entry_fallback src c')
   }"

definition hot_rehash_finish_locked :: "dcache \<Rightarrow> dcache" where
  "hot_rehash_finish_locked c =
     (let c1 = upd_rehash (\<lambda>r. r\<lparr>saved := [], insert_idx := 0, scan_page := 0, scan_grain := 0,
                 insert_dropped := 0, collect_dropped_cold := 0, phase := HOT_REHASH_IDLE\<rparr>) c;
          c2 = upd_stat (\<lambda>s. s\<lparr>hot_valid_entries := placed (rehash c1)\<rparr>) c1
      in upd_member (\<lambda>m. m\<lparr>nr_ghost_key := of_nat (ghosts (rehash c2))\<rparr>) c2)"

definition hot_rehash_saved_push :: "h_pte \<Rightarrow> dcache \<Rightarrow> dcache" where
  "hot_rehash_saved_push p = upd_rehash (\<lambda>r. r\<lparr>saved := saved r @ [p]\<rparr>)"

definition hot_rehash_begin_locked :: "dcache \<Rightarrow> dcache" where
  "hot_rehash_begin_locked c =
     (let c1 = upd_rehash (\<lambda>_. rehash_zero\<lparr>n_pages := max_cached_hot_tpages (env c)\<rparr>) c;
          c2 = upd_stat (\<lambda>s. s\<lparr>hot_valid_entries := 0, hot_pte_state_live := (\<lambda>_. 0)\<rparr>) c1;
          c3 = upd_member (\<lambda>m. m\<lparr>nr_ghost_key := 0\<rparr>) c2
      in upd_rehash (\<lambda>r. r\<lparr>phase := HOT_REHASH_COLLECT\<rparr>) c3)"

definition hot_rehash_begin :: "dcache \<Rightarrow> dcache" where
  "hot_rehash_begin c = hot_rehash_begin_locked c"

text \<open>The bodies of the two loops of \<^verbatim>\<open>hot_rehash_step_locked\<close>, and the loops with their budget.\<close>

definition collect_one :: "dcache \<Rightarrow> dcache" where
  "collect_one c =
     (let q = (scan_page (rehash c), scan_grain (rehash c)); slot = hot_slot c q;
          c1 = (if h_lpa slot \<noteq> UINT32_MAX
                then hot_rehash_clear_slot q
                  (if hot_pte_is_warm slot then hot_rehash_saved_push slot c
                   else upd_rehash (\<lambda>r. r\<lparr>collect_dropped_cold := collect_dropped_cold r + 1\<rparr>) c)
                else c);
          c2 = upd_rehash (\<lambda>r. r\<lparr>scan_grain := scan_grain r + 1\<rparr>) c1
      in if scan_grain (rehash c2) \<ge> EPP
         then upd_rehash (\<lambda>r. r\<lparr>scan_grain := 0, scan_page := scan_page r + 1\<rparr>) c2 else c2)"

fun collect_loop :: "nat \<Rightarrow> dcache \<Rightarrow> dcache" where
  "collect_loop 0 c = c"
| "collect_loop (Suc budget) c =
     (if scan_page (rehash c) < n_pages (rehash c) then collect_loop budget (collect_one c) else c)"

definition insert_one :: "dcache \<Rightarrow> dcache option" where
  "insert_one c = do {
     let src = saved (rehash c) ! insert_idx (rehash c);
     (ok, c1) \<leftarrow> hot_rehash_place_entry src c;
     Some (if \<not> ok
       then upd_rehash (\<lambda>r. r\<lparr>insert_dropped := insert_dropped r + 1, insert_idx := insert_idx r + 1\<rparr>) c1
       else upd_rehash (\<lambda>r. r\<lparr>placed := placed r + 1,
              ghosts := (if key_ghost_mark src then ghosts r + 1 else ghosts r), insert_idx := insert_idx r + 1\<rparr>) c1)
   }"

fun insert_loop :: "nat \<Rightarrow> dcache \<Rightarrow> dcache option" where
  "insert_loop 0 c = Some c"
| "insert_loop (Suc budget) c =
     (if insert_idx (rehash c) < length (saved (rehash c))
      then do { c' \<leftarrow> insert_one c; insert_loop budget c' } else Some c)"

definition hot_rehash_step_locked :: "nat \<Rightarrow> dcache \<Rightarrow> dcache option" where
  "hot_rehash_step_locked budget c = (case phase (rehash c) of
     HOT_REHASH_IDLE \<Rightarrow> Some c
   | HOT_REHASH_COLLECT \<Rightarrow>
       (let c1 = collect_loop budget c
        in Some (if scan_page (rehash c1) \<ge> n_pages (rehash c1)
                 then upd_rehash (\<lambda>r. r\<lparr>insert_idx := 0, phase := HOT_REHASH_INSERT\<rparr>) c1 else c1))
   | HOT_REHASH_INSERT \<Rightarrow> do {
       c1 \<leftarrow> insert_loop budget c;
       Some (if insert_idx (rehash c1) \<ge> length (saved (rehash c1)) then hot_rehash_finish_locked c1 else c1)
     })"

definition hot_rehash_tick :: "dcache \<Rightarrow> dcache option" where
  "hot_rehash_tick c = hot_rehash_step_locked
     (if phase (rehash c) = HOT_REHASH_INSERT then HOT_REHASH_INSERT_BUDGET else HOT_REHASH_SCAN_BUDGET) c"

fun hot_rehash_drain :: "nat \<Rightarrow> dcache \<Rightarrow> dcache option" where
  "hot_rehash_drain 0 c = Some c"
| "hot_rehash_drain (Suc rounds) c =
     (if hot_cmt_accessible c then Some c
      else do { c' \<leftarrow> hot_rehash_tick c; hot_rehash_drain rounds c' })"

text \<open>\<^verbatim>\<open>hot_rehash_drain_all\<close> gives up after 200000001 ticks.\<close>

definition hot_rehash_drain_all :: "dcache \<Rightarrow> dcache option" where
  "hot_rehash_drain_all c = hot_rehash_drain 200000001 c"

section \<open>Slots in scan order\<close>

definition slot_at :: "nat \<Rightarrow> nat \<times> nat" where
  "slot_at k = (k div EPP, k mod EPP)"

lemma slot_at_inj: "slot_at k = slot_at k' \<longleftrightarrow> k = k'"
  unfolding slot_at_def by (metis div_mult_mod_eq prod.inject)

lemma region_slot_at: "region n = slot_at ` {..<n * EPP}"
proof
  show "region n \<subseteq> slot_at ` {..<n * EPP}"
  proof
    fix q
    assume "q \<in> region n"
    then obtain d p where q: "q = (d, p)" "d < n" "p < EPP"
      by (auto simp: region_def)
    have "d * EPP + p < (d + 1) * EPP"
      using q(3) by simp
    also have "\<dots> \<le> n * EPP"
      using q(2) by (intro mult_le_mono1) simp
    finally have "d * EPP + p < n * EPP" .
    moreover have "q = slot_at (d * EPP + p)"
      using q by (simp add: slot_at_def)
    ultimately show "q \<in> slot_at ` {..<n * EPP}" by blast
  qed
qed (auto simp: region_def slot_at_def less_mult_imp_div_less EPP_val)

lemma card_region: "card (region n) = n * EPP"
  by (simp add: region_def)

lemma set_slots_of [simp]: "set (slots_of n) = region n"
  by (auto simp: slots_of_def region_def)

lemma slot_at_region: "k < n * EPP \<Longrightarrow> slot_at k \<in> region n"
  by (auto simp: region_slot_at)

lemma slot_at_Suc:
  "slot_at (Suc k) = (if Suc (snd (slot_at k)) \<ge> EPP then (Suc (fst (slot_at k)), 0)
    else (fst (slot_at k), Suc (snd (slot_at k))))"
  by (auto simp: slot_at_def EPP_val div_Suc mod_Suc)

lemma slot_at_page: "fst (slot_at k) < n \<longleftrightarrow> k < n * EPP"
  by (simp add: slot_at_def EPP_val div_less_iff_less_mult)

section \<open>Collect phase\<close>

definition warm_of :: "(nat \<times> nat \<Rightarrow> h_pte) \<Rightarrow> nat \<Rightarrow> h_pte list" where
  "warm_of tab i = filter hot_pte_is_warm (map (\<lambda>k. tab (slot_at k)) [0..<i])"

lemma warm_of_Suc: "warm_of tab (Suc i) = warm_of tab i @ (if hot_pte_is_warm (tab (slot_at i)) then [tab (slot_at i)] else [])"
  by (simp add: warm_of_def)

lemma length_warm_of: "length (warm_of tab i) \<le> i"
  unfolding warm_of_def by (rule order.trans [OF length_filter_le]) simp

lemma set_warm_of: "set (warm_of tab (n * EPP)) = tab ` {q \<in> region n. hot_pte_is_warm (tab q)}"
  by (auto simp: warm_of_def region_slot_at)

definition collect_inv :: "cache_env \<Rightarrow> (nat \<times> nat \<Rightarrow> h_pte) \<Rightarrow> nat \<Rightarrow> dcache \<Rightarrow> bool" where
  "collect_inv e tab i c \<longleftrightarrow> env c = e \<and> states_ok c \<and> i \<le> max_cached_hot_tpages e * EPP \<and>
     (let r = rehash c in phase r = HOT_REHASH_COLLECT \<and> n_pages r = max_cached_hot_tpages e \<and>
       (scan_page r, scan_grain r) = slot_at i \<and> saved r = warm_of tab i \<and>
       insert_idx r = 0 \<and> placed r = 0 \<and> insert_dropped r = 0) \<and>
     (\<forall>k < i. \<not> in_use (hot_slot c (slot_at k))) \<and>
     (\<forall>k. i \<le> k \<longrightarrow> hot_slot c (slot_at k) = tab (slot_at k)) \<and>
     hot_pte_state_live (stat c) = (\<lambda>_. 0)"

lemma hot_rehash_clear_slot_simps [simp]:
  "env (hot_rehash_clear_slot q c) = env c" "rehash (hot_rehash_clear_slot q c) = rehash c"
  "h_lpa (hot_slot (hot_rehash_clear_slot q c) q) = UINT32_MAX"
  "h_state (hot_slot (hot_rehash_clear_slot q c) q) = MIN_STATE"
  "q' \<noteq> q \<Longrightarrow> hot_slot (hot_rehash_clear_slot q c) q' = hot_slot c q'"
  by (simp_all add: hot_rehash_clear_slot_def hot_cmt_hist_on_clear_slot_def Let_def)

lemma clear_slot_live:
  "hot_pte_state_live (stat c) = (\<lambda>_. 0) \<Longrightarrow> hot_pte_state_live (stat (hot_rehash_clear_slot q c)) = (\<lambda>_. 0)"
  by (auto simp: hot_rehash_clear_slot_def hot_cmt_hist_on_clear_slot_def Let_def)

lemma collect_one_inv:
  assumes inv: "collect_inv e tab i c" and i: "i < max_cached_hot_tpages e * EPP"
  shows "collect_inv e tab (Suc i) (collect_one c)"
proof -
  let ?q = "slot_at i"
  define c1 where "c1 = (if in_use (hot_slot c ?q)
    then hot_rehash_clear_slot ?q
      (if hot_pte_is_warm (hot_slot c ?q) then hot_rehash_saved_push (hot_slot c ?q) c
       else upd_rehash (\<lambda>r. r\<lparr>collect_dropped_cold := collect_dropped_cold r + 1\<rparr>) c)
    else c)"
  have q: "(scan_page (rehash c), scan_grain (rehash c)) = ?q"
    using inv by (simp add: collect_inv_def Let_def)
  have c1: "collect_one c = (let c2 = upd_rehash (\<lambda>r. r\<lparr>scan_grain := scan_grain r + 1\<rparr>) c1
      in if scan_grain (rehash c2) \<ge> EPP
         then upd_rehash (\<lambda>r. r\<lparr>scan_grain := 0, scan_page := scan_page r + 1\<rparr>) c2 else c2)"
    by (simp add: collect_one_def q Let_def c1_def in_use_def)
  have tab: "hot_slot c ?q = tab ?q"
    using inv by (simp add: collect_inv_def)
  have warm: "hot_pte_is_warm (tab ?q) \<Longrightarrow> in_use (tab ?q)"
    by (simp add: hot_pte_is_warm_def in_use_def)
  have r: "phase (rehash c1) = phase (rehash c)" "n_pages (rehash c1) = n_pages (rehash c)"
    "scan_page (rehash c1) = fst ?q" "scan_grain (rehash c1) = snd ?q"
    "saved (rehash c1) = warm_of tab (Suc i)" "insert_idx (rehash c1) = insert_idx (rehash c)"
    "placed (rehash c1) = placed (rehash c)" "insert_dropped (rehash c1) = insert_dropped (rehash c)"
    and e: "env c1 = env c" and live: "hot_pte_state_live (stat c1) = (\<lambda>_. 0)"
    using inv q warm tab
    by (auto simp: c1_def hot_rehash_saved_push_def collect_inv_def Let_def warm_of_Suc clear_slot_live prod_eq_iff)
  have slot: "x \<noteq> ?q \<Longrightarrow> hot_slot c1 x = hot_slot c x" for x
    by (simp add: c1_def hot_rehash_saved_push_def)
  have free: "\<not> in_use (hot_slot c1 ?q)"
    by (simp add: c1_def in_use_def hot_rehash_saved_push_def)
  have sq: "h_state (hot_slot c1 ?q) \<le> HOT_STATE_MAX"
    using inv slot_at_region [OF i]
    by (auto simp: c1_def hot_rehash_saved_push_def settings collect_inv_def states_ok_def)
  have "h_state (hot_slot c1 x) \<le> HOT_STATE_MAX" if "x \<in> region (max_cached_hot_tpages (env c))" for x
    using that inv sq slot [of x] by (cases "x = ?q") (auto simp: states_ok_def collect_inv_def)
  then have st: "states_ok c1"
    by (simp add: states_ok_def e)
  let ?f = "\<lambda>r. if Suc (scan_grain r) \<ge> EPP then r\<lparr>scan_grain := 0, scan_page := Suc (scan_page r)\<rparr>
    else r\<lparr>scan_grain := Suc (scan_grain r)\<rparr>"
  have co: "rehash (collect_one c) = ?f (rehash c1)" "env (collect_one c) = env c1"
    "stat (collect_one c) = stat c1" "hot_slot (collect_one c) = hot_slot c1"
    by (auto simp: c1 Let_def)
  have "\<not> in_use (hot_slot c1 (slot_at k))" if "k < Suc i" for k
    using that free slot [of "slot_at k"] inv by (auto simp: slot_at_inj collect_inv_def less_Suc_eq)
  moreover have "hot_slot c1 (slot_at k) = tab (slot_at k)" if "Suc i \<le> k" for k
    using that slot [of "slot_at k"] inv by (auto simp: slot_at_inj collect_inv_def)
  moreover have "(scan_page (?f (rehash c1)), scan_grain (?f (rehash c1))) = slot_at (Suc i)"
    using r by (simp add: slot_at_Suc)
  moreover have "states_ok (collect_one c)"
    using st by (simp add: states_ok_def co)
  ultimately show ?thesis
    using i r inv live unfolding collect_inv_def co e Let_def by auto
qed

lemma collect_loop_inv:
  "collect_inv e tab i c \<Longrightarrow>
    collect_inv e tab (min (max_cached_hot_tpages e * EPP) (i + b)) (collect_loop b c)"
proof (induction b arbitrary: i c)
  case 0
  then have "min (max_cached_hot_tpages e * EPP) i = i"
    by (simp add: collect_inv_def)
  then show ?case
    using 0 by simp
next
  case (Suc b)
  have "scan_page (rehash c) = fst (slot_at i)" "n_pages (rehash c) = max_cached_hot_tpages e"
    "i \<le> max_cached_hot_tpages e * EPP"
    using Suc.prems by (auto simp: collect_inv_def Let_def prod_eq_iff)
  then have iff: "scan_page (rehash c) < n_pages (rehash c) \<longleftrightarrow> i < max_cached_hot_tpages e * EPP"
    by (simp add: slot_at_page)
  show ?case
  proof (cases "i < max_cached_hot_tpages e * EPP")
    case True
    then show ?thesis
      using Suc.IH [OF collect_one_inv [OF Suc.prems True]] iff by simp
  next
    case False
    then have "min (max_cached_hot_tpages e * EPP) (i + Suc b) = i"
      using \<open>i \<le> _\<close> by simp
    then show ?thesis
      using Suc.prems iff False by simp
  qed
qed

section \<open>Insert phase\<close>

text \<open>What a rehash keeps of an entry: all but \<^verbatim>\<open>key_ghost_state\<close>.\<close>

definition pte_view :: "h_pte \<Rightarrow> nat \<times> nat \<times> nat \<times> u32 \<times> bool" where
  "pte_view e = (h_lpa e, h_ppa e, h_state e, h_fp e, key_ghost_mark e)"

definition used_slots :: "dcache \<Rightarrow> (nat \<times> nat) set" where
  "used_slots c = {q \<in> region (max_cached_hot_tpages (env c)). in_use (hot_slot c q)}"

definition insert_inv :: "cache_env \<Rightarrow> h_pte list \<Rightarrow> nat \<Rightarrow> dcache \<Rightarrow> bool" where
  "insert_inv e S j c \<longleftrightarrow> env c = e \<and> hot_env_ok e \<and> states_ok c \<and> live_ok c \<and> j \<le> length S \<and>
     length S \<le> max_cached_hot_tpages e * EPP \<and> (\<forall>x \<in> set S. in_use x \<and> h_state x < STATE_NUM) \<and>
     phase (rehash c) = HOT_REHASH_INSERT \<and> saved (rehash c) = S \<and> insert_idx (rehash c) = j \<and>
     placed (rehash c) = j \<and>
     card (used_slots c) \<le> j \<and> h_lpa ` hot_slot c ` used_slots c = h_lpa ` set (take j S) \<and>
     (distinct (map h_lpa S) \<longrightarrow> card (used_slots c) = j \<and>
        pte_view ` hot_slot c ` used_slots c = pte_view ` set (take j S))"

definition fits :: "h_pte \<Rightarrow> dcache \<Rightarrow> nat \<times> nat \<Rightarrow> bool" where
  "fits src c q \<longleftrightarrow> h_lpa (hot_slot c q) = UINT32_MAX \<or> h_lpa (hot_slot c q) = h_lpa src"

lemma rehash_probe_cases:
  "\<lbrakk>0 < max_cached_hot_tpages (env c); q \<in> region (max_cached_hot_tpages (env c))\<rbrakk> \<Longrightarrow>
    rehash_probe k i src q c = Some (False, c) \<or>
    (\<exists>q' \<in> region (max_cached_hot_tpages (env c)). fits src c q' \<and>
      rehash_probe k i src q c = Some (True, rehash_put src q' c))"
proof (induction k arbitrary: i q)
  case (Suc k)
  have nxt: "hot_rehash_advance_probe c (Suc i) q = Some (hot_next (max_cached_hot_tpages (env c)) (Suc i) q)"
    using Suc.prems(1) by (cases q) (simp add: hot_rehash_advance_probe_def hot_next_def Let_def)
  show ?case
    using Suc.IH [OF Suc.prems(1) hot_next_region [OF Suc.prems(1)], of "Suc i" "Suc i" q] Suc.prems(2)
    by (auto simp: nxt fits_def)
qed simp

lemma place_entry_fits:
  assumes ok: "hot_env_ok (env c)" and ex: "\<exists>q \<in> region (max_cached_hot_tpages (env c)). fits src c q"
  obtains q where "q \<in> region (max_cached_hot_tpages (env c))" "fits src c q"
    "hot_rehash_place_entry src c = Some (True, rehash_put src q c)"
proof -
  let ?R = "region (max_cached_hot_tpages (env c))"
  have primary: "hot_rehash_place_entry_primary src c =
      rehash_probe HOT_REHASH_MAX_PROBE 0 src (hot_start (env c) (h_lpa src)) c"
    by (simp add: hot_rehash_place_entry_primary_def hot_home_Some [OF ok])
  have "rehash_probe HOT_REHASH_MAX_PROBE 0 src (hot_start (env c) (h_lpa src)) c = Some (False, c) \<or>
    (\<exists>q' \<in> ?R. fits src c q' \<and>
      rehash_probe HOT_REHASH_MAX_PROBE 0 src (hot_start (env c) (h_lpa src)) c = Some (True, rehash_put src q' c))"
    using ok by (intro rehash_probe_cases hot_start_region) (simp_all add: hot_env_ok_def)
  then show thesis
  proof
    assume False: "rehash_probe HOT_REHASH_MAX_PROBE 0 src (hot_start (env c) (h_lpa src)) c = Some (False, c)"
    have "\<exists>q \<in> set (slots_of (max_cached_hot_tpages (env c))). fits src c q"
      using ex by simp
    then obtain q where q: "List.find (fits src c) (slots_of (max_cached_hot_tpages (env c))) = Some q"
      by (metis find_None_iff not_None_eq)
    have fb: "hot_rehash_place_entry_fallback src c = (True, rehash_put src q c)"
      using q by (simp add: hot_rehash_place_entry_fallback_def fits_def [abs_def])
    show thesis
    proof (rule that)
      show "q \<in> ?R" "fits src c q"
        using find_mem [OF q] by simp_all
      show "hot_rehash_place_entry src c = Some (True, rehash_put src q c)"
        by (simp add: hot_rehash_place_entry_def primary False fb)
    qed
  next
    assume "\<exists>q' \<in> ?R. fits src c q' \<and>
      rehash_probe HOT_REHASH_MAX_PROBE 0 src (hot_start (env c) (h_lpa src)) c = Some (True, rehash_put src q' c)"
    then obtain q where q: "q \<in> ?R" "fits src c q"
      "rehash_probe HOT_REHASH_MAX_PROBE 0 src (hot_start (env c) (h_lpa src)) c = Some (True, rehash_put src q c)"
      by blast
    show thesis
      using q(1,2) by (rule that) (simp add: hot_rehash_place_entry_def primary q(3))
  qed
qed

lemma rehash_put_simps [simp]:
  "env (rehash_put src q c) = env c" "rehash (rehash_put src q c) = rehash c"
  "hot_slot (rehash_put src q c) = (hot_slot c)(q := hot_rehash_copy_pte src (hot_slot c q))"
  by (simp_all add: rehash_put_def Let_def)

lemma copy_pte_simps [simp]:
  "h_lpa (hot_rehash_copy_pte src e) = h_lpa src" "h_state (hot_rehash_copy_pte src e) = h_state src"
  "pte_view (hot_rehash_copy_pte src e) = pte_view src" "in_use (hot_rehash_copy_pte src e) = in_use src"
  by (simp_all add: hot_rehash_copy_pte_def pte_view_def in_use_def)

lemma rehash_put_live:
  assumes "live_ok c" and "states_ok c" and q: "q \<in> region (max_cached_hot_tpages (env c))" and src: "in_use src" "h_state src < STATE_NUM"
  shows "live_ok (rehash_put src q c)"
proof (rule live_ok_write [OF assms(1) q])
  show less: "h_state (hot_slot c q) < STATE_NUM" if "in_use (hot_slot c q)"
    using assms(2) q by (auto simp: states_ok_def settings)
  show "hot_pte_state_live (stat (rehash_put src q c)) =
     (\<lambda>L. L(h_state (hot_rehash_copy_pte src (hot_slot c q)) := Suc (L (h_state (hot_rehash_copy_pte src (hot_slot c q))))))
       (if in_use (hot_slot c q)
        then (hot_pte_state_live (stat c))(h_state (hot_slot c q) := hot_pte_state_live (stat c) (h_state (hot_slot c q)) - 1)
        else hot_pte_state_live (stat c))"
    using less src(2) by (auto simp: rehash_put_def Let_def in_use_def)
qed (use src in simp_all)

lemma used_slots_put:
  assumes "q \<in> region (max_cached_hot_tpages (env c))" and "in_use src"
  shows "used_slots (rehash_put src q c) = insert q (used_slots c)"
  using assms by (auto simp: used_slots_def)

lemma finite_used_slots [simp]: "finite (used_slots c)"
  by (simp add: used_slots_def)

lemma insert_one_inv:
  assumes inv: "insert_inv e S j c" and j: "j < length S"
  shows "returns (insert_one c) (insert_inv e S (Suc j))"
proof -
  define src where "src = S ! j"
  let ?R = "region (max_cached_hot_tpages (env c))"
  have e: "env c = e" "hot_env_ok (env c)" and st: "states_ok c" "live_ok c" and card_le: "card (used_slots c) \<le> j"
    and len: "length S \<le> max_cached_hot_tpages (env c) * EPP"
    and lpas: "h_lpa ` hot_slot c ` used_slots c = h_lpa ` set (take j S)"
    and dist: "distinct (map h_lpa S) \<Longrightarrow> card (used_slots c) = j \<and>
        pte_view ` hot_slot c ` used_slots c = pte_view ` set (take j S)"
    and r: "saved (rehash c) = S" "insert_idx (rehash c) = j"
    using inv by (auto simp: insert_inv_def)
  have src: "in_use src" "h_state src < STATE_NUM" "src \<in> set S"
    using inv j by (auto simp: insert_inv_def src_def)
  have tk: "set (take (Suc j) S) = insert src (set (take j S))"
    using j by (simp add: take_Suc_conv_app_nth src_def)
  have "\<exists>q \<in> ?R. fits src c q"
  proof (rule ccontr)
    assume "\<not> ?thesis"
    then have "?R \<subseteq> used_slots c"
      by (auto simp: fits_def used_slots_def in_use_def)
    then have "card ?R \<le> card (used_slots c)"
      by (intro card_mono) simp_all
    then show False
      using card_le j len by (simp add: card_region)
  qed
  then obtain q where q: "q \<in> ?R" "fits src c q" "hot_rehash_place_entry src c = Some (True, rehash_put src q c)"
    using place_entry_fits [OF e(2)] by blast
  define c1 where "c1 = rehash_put src q c"
  have slot: "hot_slot c1 = (hot_slot c)(q := hot_rehash_copy_pte src (hot_slot c q))"
    and used: "used_slots c1 = insert q (used_slots c)"
    by (simp_all add: c1_def used_slots_put [OF q(1) src(1)])
  have "h_lpa ` hot_slot c1 ` used_slots c1 = insert (h_lpa src) (h_lpa ` hot_slot c ` used_slots c)"
  proof -
    let ?U = "used_slots c"
    have "hot_slot c1 ` insert q ?U = insert (hot_rehash_copy_pte src (hot_slot c q)) (hot_slot c ` (?U - {q}))"
      by (auto simp: slot)
    then have "h_lpa ` hot_slot c1 ` insert q ?U = insert (h_lpa src) (h_lpa ` hot_slot c ` (?U - {q}))"
      by simp
    also have "\<dots> = insert (h_lpa src) (h_lpa ` hot_slot c ` ?U)"
    proof (cases "q \<in> ?U")
      case True
      then have eq: "h_lpa (hot_slot c q) = h_lpa src"
        using q(2) by (simp add: fits_def used_slots_def in_use_def)
      have "h_lpa ` hot_slot c ` ?U = insert (h_lpa (hot_slot c q)) (h_lpa ` hot_slot c ` (?U - {q}))"
        using True by (metis image_insert insert_Diff)
      then show ?thesis
        by (simp add: eq)
    qed simp
    finally show ?thesis
      by (simp add: used)
  qed
  then have lpas': "h_lpa ` hot_slot c1 ` used_slots c1 = h_lpa ` set (take (Suc j) S)"
    by (simp add: lpas tk)
  have dist': "card (used_slots c1) = Suc j \<and> pte_view ` hot_slot c1 ` used_slots c1 = pte_view ` set (take (Suc j) S)"
    if d: "distinct (map h_lpa S)"
  proof -
    have "distinct (map h_lpa (take j S @ src # drop (Suc j) S))"
      using d j by (simp add: src_def id_take_nth_drop [symmetric])
    then have "h_lpa src \<notin> h_lpa ` hot_slot c ` used_slots c"
      by (simp add: lpas)
    have free: "q \<notin> used_slots c"
    proof
      assume U: "q \<in> used_slots c"
      then have "h_lpa (hot_slot c q) = h_lpa src"
        using q(2) by (simp add: fits_def used_slots_def in_use_def)
      moreover have "h_lpa (hot_slot c q) \<in> h_lpa ` hot_slot c ` used_slots c"
        using U by blast
      ultimately show False
        using \<open>h_lpa src \<notin> _\<close> by simp
    qed
    then have "hot_slot c1 ` used_slots c1 = insert (hot_rehash_copy_pte src (hot_slot c q)) (hot_slot c ` used_slots c)"
      by (auto simp: used slot)
    then show ?thesis
      using dist [OF d] free by (simp add: used tk)
  qed
  have "card (used_slots c1) \<le> Suc j"
    using card_le by (simp add: used card_insert_if)
  moreover have "live_ok c1"
    unfolding c1_def using st(2,1) q(1) src(1,2) by (rule rehash_put_live)
  moreover have "h_state src \<le> HOT_STATE_MAX"
    using src(2) by (simp add: settings)
  then have "states_ok c1"
    using st(1) by (simp add: states_ok_def c1_def)
  ultimately have "insert_inv e S (Suc j) (upd_rehash (\<lambda>r. r\<lparr>placed := placed r + 1,
       ghosts := (if key_ghost_mark src then ghosts r + 1 else ghosts r), insert_idx := insert_idx r + 1\<rparr>) c1)"
    using inv j lpas' dist' unfolding insert_inv_def used_slots_def states_ok_def live_ok_def c1_def
    by auto
  then show ?thesis
    by (simp add: insert_one_def r src_def [symmetric] q(3) c1_def)
qed

lemma insert_loop_inv:
  "insert_inv e S j c \<Longrightarrow> returns (insert_loop b c) (insert_inv e S (min (length S) (j + b)))"
proof (induction b arbitrary: j c)
  case 0
  then have "min (length S) j = j"
    by (simp add: insert_inv_def)
  then show ?case
    using 0 by simp
next
  case (Suc b)
  have r: "saved (rehash c) = S" "insert_idx (rehash c) = j" "j \<le> length S"
    using Suc.prems by (auto simp: insert_inv_def)
  show ?case
  proof (cases "j < length S")
    case True
    have "returns (insert_one c) (\<lambda>c'. returns (insert_loop b c') (insert_inv e S (min (length S) (Suc j + b))))"
      using insert_one_inv [OF Suc.prems True] by (rule returns_mono) (rule Suc.IH)
    then show ?thesis
      using True r by simp
  next
    case False
    then have "min (length S) (j + Suc b) = j"
      using r by simp
    then show ?thesis
      using Suc.prems False r by simp
  qed
qed

section \<open>A rehash run to its end\<close>

definition rehash_done :: "cache_env \<Rightarrow> h_pte list \<Rightarrow> dcache \<Rightarrow> bool" where
  "rehash_done e S c \<longleftrightarrow> env c = e \<and> hot_cmt_accessible c \<and> states_ok c \<and> live_ok c \<and>
     hot_valid_entries (stat c) = length S \<and> card (used_slots c) \<le> length S \<and>
     h_lpa ` hot_slot c ` used_slots c = h_lpa ` set S \<and>
     (distinct (map h_lpa S) \<longrightarrow> card (used_slots c) = length S \<and>
        pte_view ` hot_slot c ` used_slots c = pte_view ` set S)"

lemma finish_done:
  assumes "insert_inv e S (length S) c"
  shows "rehash_done e S (hot_rehash_finish_locked c)"
proof -
  have f: "env (hot_rehash_finish_locked c) = env c" "hot_slot (hot_rehash_finish_locked c) = hot_slot c"
    "phase (rehash (hot_rehash_finish_locked c)) = HOT_REHASH_IDLE"
    "hot_valid_entries (stat (hot_rehash_finish_locked c)) = placed (rehash c)"
    "hot_pte_state_live (stat (hot_rehash_finish_locked c)) = hot_pte_state_live (stat c)"
    by (simp_all add: hot_rehash_finish_locked_def Let_def)
  show ?thesis
    using assms
    by (auto simp: rehash_done_def insert_inv_def f hot_cmt_accessible_def states_ok_def live_ok_def used_slots_def)
qed

lemma drain_done: "rehash_done e S c \<Longrightarrow> hot_rehash_drain n c = Some c"
  by (cases n) (auto simp: rehash_done_def)

lemma drain_insert:
  "insert_inv e S j c \<Longrightarrow> (length S - j) div HOT_REHASH_INSERT_BUDGET < n \<Longrightarrow>
    returns (hot_rehash_drain n c) (rehash_done e S)"
proof (induction n arbitrary: j c)
  case (Suc n)
  let ?b = HOT_REHASH_INSERT_BUDGET
  have ph: "phase (rehash c) = HOT_REHASH_INSERT"
    using Suc.prems(1) by (simp add: insert_inv_def)
  obtain c1 where c1: "insert_loop ?b c = Some c1" "insert_inv e S (min (length S) (j + ?b)) c1"
    using insert_loop_inv [OF Suc.prems(1), of ?b] by (auto elim: returnsE)
  have r: "insert_idx (rehash c1) = min (length S) (j + ?b)" "saved (rehash c1) = S"
    using c1(2) by (auto simp: insert_inv_def)
  show ?case
  proof (cases "length S \<le> j + ?b")
    case True
    then have "hot_rehash_tick c = Some (hot_rehash_finish_locked c1)" "insert_inv e S (length S) c1"
      using c1 r by (simp_all add: hot_rehash_tick_def hot_rehash_step_locked_def ph)
    then show ?thesis
      by (simp add: hot_cmt_accessible_def ph drain_done [OF finish_done] finish_done)
  next
    case False
    then have t: "hot_rehash_tick c = Some c1" and i: "insert_inv e S (j + ?b) c1"
      using c1 r by (simp_all add: hot_rehash_tick_def hot_rehash_step_locked_def ph)
    have "(length S - (j + ?b)) div ?b < n"
      using Suc.prems(2) False le_div_geq [of ?b "length S - j"] by (simp add: HOT_REHASH_INSERT_BUDGET_def)
    then show ?thesis
      using Suc.IH [OF i] t by (simp add: hot_cmt_accessible_def ph)
  qed
qed simp

lemma collect_to_insert:
  assumes inv: "collect_inv e tab (max_cached_hot_tpages e * EPP) c" and ok: "hot_env_ok e"
    and st: "\<forall>q \<in> region (max_cached_hot_tpages e). h_state (tab q) \<le> HOT_STATE_MAX"
  shows "insert_inv e (warm_of tab (max_cached_hot_tpages e * EPP)) 0
    (upd_rehash (\<lambda>r. r\<lparr>insert_idx := 0, phase := HOT_REHASH_INSERT\<rparr>) c)"
proof -
  have none: "\<not> in_use (hot_slot c q)" if "q \<in> region (max_cached_hot_tpages e)" for q
    using inv that by (auto simp: collect_inv_def region_slot_at)
  have warm: "in_use x \<and> h_state x < STATE_NUM" if "x \<in> set (warm_of tab (max_cached_hot_tpages e * EPP))" for x
    using that st by (auto simp: set_warm_of hot_pte_is_warm_def in_use_def state_vals)
  have "slot_count (max_cached_hot_tpages e) (hot_slot c) (in_state s) = 0" for s
    using none by (auto simp: slot_count_def in_state_def in_use_def)
  then show ?thesis
    using inv ok none warm length_warm_of [of tab]
    by (auto simp: insert_inv_def collect_inv_def Let_def states_ok_def live_ok_def used_slots_def)
qed

lemma drain_collect:
  assumes ok: "hot_env_ok e" and st: "\<forall>q \<in> region (max_cached_hot_tpages e). h_state (tab q) \<le> HOT_STATE_MAX"
  shows "collect_inv e tab i c \<Longrightarrow>
    (max_cached_hot_tpages e * EPP - i) div HOT_REHASH_SCAN_BUDGET + 1 +
      max_cached_hot_tpages e * EPP div HOT_REHASH_INSERT_BUDGET < n \<Longrightarrow>
    returns (hot_rehash_drain n c) (rehash_done e (warm_of tab (max_cached_hot_tpages e * EPP)))"
proof (induction n arbitrary: i c)
  case (Suc n)
  let ?b = HOT_REHASH_SCAN_BUDGET and ?N = "max_cached_hot_tpages e * EPP"
  have ph: "phase (rehash c) = HOT_REHASH_COLLECT"
    using Suc.prems(1) by (simp add: collect_inv_def Let_def)
  define c1 where "c1 = collect_loop ?b c"
  have c1: "collect_inv e tab (min ?N (i + ?b)) c1"
    unfolding c1_def using Suc.prems(1) by (rule collect_loop_inv)
  then have fin: "scan_page (rehash c1) \<ge> n_pages (rehash c1) \<longleftrightarrow> ?N \<le> i + ?b"
    using slot_at_page [of "min ?N (i + ?b)" "max_cached_hot_tpages e"]
    by (auto simp: collect_inv_def Let_def prod_eq_iff not_less [symmetric])
  show ?case
  proof (cases "?N \<le> i + ?b")
    case True
    let ?c = "upd_rehash (\<lambda>r. r\<lparr>insert_idx := 0, phase := HOT_REHASH_INSERT\<rparr>) c1"
    have t: "hot_rehash_tick c = Some ?c"
      using fin True by (simp add: hot_rehash_tick_def hot_rehash_step_locked_def ph c1_def Let_def)
    have "collect_inv e tab ?N c1"
      using c1 True by simp
    then have "insert_inv e (warm_of tab ?N) 0 ?c"
      using ok st by (rule collect_to_insert)
    moreover have "(length (warm_of tab ?N) - 0) div HOT_REHASH_INSERT_BUDGET < n"
    proof -
      have "length (warm_of tab ?N) div HOT_REHASH_INSERT_BUDGET \<le> ?N div HOT_REHASH_INSERT_BUDGET"
        by (rule div_le_mono) (rule length_warm_of)
      also have "\<dots> < n"
        using Suc.prems(2) by simp
      finally show ?thesis by simp
    qed
    ultimately show ?thesis
      using drain_insert t by (simp add: hot_cmt_accessible_def ph)
  next
    case False
    then have t: "hot_rehash_tick c = Some c1" and i: "collect_inv e tab (i + ?b) c1"
      using fin c1 by (simp_all add: hot_rehash_tick_def hot_rehash_step_locked_def ph c1_def Let_def)
    have "(?N - i) div ?b = Suc ((?N - (i + ?b)) div ?b)"
      using False le_div_geq [of ?b "?N - i"] by (simp add: HOT_REHASH_SCAN_BUDGET_def)
    then have "(?N - (i + ?b)) div ?b + 1 + ?N div HOT_REHASH_INSERT_BUDGET < n"
      using Suc.prems(2) by simp
    then show ?thesis
      using Suc.IH [OF i] t by (simp add: hot_cmt_accessible_def ph)
  qed
qed simp

lemma begin_collect:
  "states_ok c \<Longrightarrow> collect_inv (env c) (hot_slot c) 0 (hot_rehash_begin c)"
  by (auto simp: collect_inv_def hot_rehash_begin_def hot_rehash_begin_locked_def Let_def rehash_zero_def
      slot_at_def warm_of_def states_ok_def)

lemma drain_all_done:
  assumes ok: "hot_env_ok (env c)" and small: "max_cached_hot_tpages (env c) < 2 ^ 31" and st: "states_ok c"
  shows "returns (hot_rehash_drain_all (hot_rehash_begin c))
    (rehash_done (env c) (warm_of (hot_slot c) (max_cached_hot_tpages (env c) * EPP)))"
proof -
  have "max_cached_hot_tpages (env c) * EPP div HOT_REHASH_SCAN_BUDGET + 1 +
      max_cached_hot_tpages (env c) * EPP div HOT_REHASH_INSERT_BUDGET < 200000001"
    using small by (simp add: HOT_REHASH_SCAN_BUDGET_def HOT_REHASH_INSERT_BUDGET_def EPP_val)
  then show ?thesis
    unfolding hot_rehash_drain_all_def
    by (intro drain_collect [OF ok _ begin_collect [OF st]]) (use st in \<open>simp_all add: states_ok_def\<close>)
qed

lemma distinct_warm_of:
  assumes "inj_on (\<lambda>q. h_lpa (tab q)) {q \<in> region n. hot_pte_is_warm (tab q)}"
  shows "distinct (map h_lpa (warm_of tab (n * EPP)))"
proof -
  have "inj_on (\<lambda>k. h_lpa (tab (slot_at k))) {k. k < n * EPP \<and> hot_pte_is_warm (tab (slot_at k))}"
  proof -
    let ?K = "{k. k < n * EPP \<and> hot_pte_is_warm (tab (slot_at k))}"
    have "inj_on (\<lambda>q. h_lpa (tab q)) (slot_at ` ?K)"
      by (rule inj_on_subset [OF assms]) (auto simp: slot_at_region)
    moreover have "inj_on slot_at ?K"
      by (simp add: inj_on_def slot_at_inj)
    ultimately show ?thesis
      using comp_inj_on by (fastforce simp: comp_def)
  qed
  then show ?thesis
    by (simp add: warm_of_def filter_map comp_def distinct_map)
qed

definition warm_slots :: "dcache \<Rightarrow> (nat \<times> nat) set" where
  "warm_slots c = {q \<in> region (max_cached_hot_tpages (env c)). hot_pte_is_warm (hot_slot c q)}"

lemma used_slots_count: "card (used_slots c) = slot_count (max_cached_hot_tpages (env c)) (hot_slot c) in_use"
  by (simp add: used_slots_def slot_count_def)

lemma card_image_distinct:
  "distinct (map h_lpa S) \<Longrightarrow> card (h_lpa ` set S) = length S"
  by (metis distinct_card length_map set_map)

lemma rehash_done_hot_ok:
  assumes "rehash_done e S c" and "hot_env_ok e"
  shows "\<exists>k. hot_ok k c \<and> (distinct (map h_lpa S) \<longrightarrow> k = 0)"
proof -
  have "hot_ok (length S - card (used_slots c)) c" if "card (used_slots c) \<le> length S"
    using assms that by (simp add: rehash_done_def hot_ok_def valid_ok_def used_slots_count)
  moreover have "card (used_slots c) \<le> length S"
    using assms(1) by (simp add: rehash_done_def)
  ultimately show ?thesis
    using assms(1) by (auto simp: rehash_done_def)
qed

text \<open>
  C9. A rehash run to its end leaves the table accessible within the iteration limit of
  \<^verbatim>\<open>hot_rehash_drain_all\<close>, keeps an entry for exactly the addresses that had an entry of state 2 or
  more, whatever the table sizes, and restores the histogram; when the warm entries have different
  addresses, each is kept with its location, state and fingerprint, and the counter of valid
  entries is exact.
\<close>

theorem rehash_keeps_warm:
  assumes "hot_env_ok (env c)" and "max_cached_hot_tpages (env c) < 2 ^ 31" and "states_ok c"
  shows "returns (hot_rehash_drain_all (hot_rehash_begin c)) (\<lambda>c'.
    hot_cmt_accessible c' \<and> env c' = env c \<and>
    h_lpa ` hot_slot c' ` used_slots c' = h_lpa ` hot_slot c ` warm_slots c \<and>
    (\<exists>k. hot_ok k c' \<and> (inj_on (\<lambda>q. h_lpa (hot_slot c q)) (warm_slots c) \<longrightarrow>
       k = 0 \<and> pte_view ` hot_slot c' ` used_slots c' = pte_view ` hot_slot c ` warm_slots c)))"
  using drain_all_done [OF assms]
proof (rule returns_mono)
  fix c'
  let ?S = "warm_of (hot_slot c) (max_cached_hot_tpages (env c) * EPP)"
  assume fin: "rehash_done (env c) ?S c'"
  then obtain k where k: "hot_ok k c'" "distinct (map h_lpa ?S) \<Longrightarrow> k = 0"
    using rehash_done_hot_ok [OF _ assms(1)] by blast
  have set: "set ?S = hot_slot c ` warm_slots c"
    by (simp add: set_warm_of warm_slots_def)
  show "hot_cmt_accessible c' \<and> env c' = env c \<and>
    h_lpa ` hot_slot c' ` used_slots c' = h_lpa ` hot_slot c ` warm_slots c \<and>
    (\<exists>k. hot_ok k c' \<and> (inj_on (\<lambda>q. h_lpa (hot_slot c q)) (warm_slots c) \<longrightarrow>
       k = 0 \<and> pte_view ` hot_slot c' ` used_slots c' = pte_view ` hot_slot c ` warm_slots c))"
  proof (intro conjI exI [of _ k] impI)
    assume "inj_on (\<lambda>q. h_lpa (hot_slot c q)) (warm_slots c)"
    then have d: "distinct (map h_lpa ?S)"
      unfolding warm_slots_def by (rule distinct_warm_of)
    then show "k = 0" by (rule k(2))
    show "pte_view ` hot_slot c' ` used_slots c' = pte_view ` hot_slot c ` warm_slots c"
      using fin d by (simp add: rehash_done_def set)
  qed (use fin k(1) in \<open>simp_all add: rehash_done_def set\<close>)
qed

text \<open>A table of one page with a warm and a cold entry, far from their chains.\<close>

definition one_page_env :: cache_env where
  "one_page_env = cache_env_init\<lparr>max_cached_hot_tpages := 1, max_cached_hot_entries := 512\<rparr>"

definition blank_dcache :: dcache where
  "blank_dcache = \<lparr>env = cache_env_init, member = cache_member_init, stat = cache_stat_init,
     rehash = rehash_zero, cold_fifo = fifo_empty, key_fifo = fifo_empty, ghost_cold_scan_rr = 0,
     ghost_key_scan_rr = 0, pop_count = 0, rebalance_evict_cnt = 0\<rparr>"

definition two_entries :: dcache where
  "two_entries = upd_slot (0, 7) (\<lambda>_. \<lparr>h_lpa = 3, h_ppa = 40, h_state = 4, h_fp = 9, key_ghost_mark = False, key_ghost_state = 0\<rparr>)
     (upd_slot (0, 8) (\<lambda>_. \<lparr>h_lpa = 4, h_ppa = 41, h_state = 1, h_fp = 8, key_ghost_mark = False, key_ghost_state = 0\<rparr>)
       (upd_env (\<lambda>_. one_page_env) blank_dcache))"

lemma blank_slot [simp]: "hot_slot blank_dcache q = empty_slot"
  by (simp add: hot_slot_def blank_dcache_def cache_member_init_def split: prod.splits)

lemma rehash_keeps_warm_witness:
  "returns (hot_rehash_drain_all (hot_rehash_begin two_entries)) (\<lambda>c'.
    hot_cmt_accessible c' \<and> hot_ok 0 c' \<and> pte_view ` hot_slot c' ` used_slots c' = {(3, 40, 4, 9, False)})"
proof -
  have env: "hot_env_ok (env two_entries)" "max_cached_hot_tpages (env two_entries) < 2 ^ 31"
    by (simp_all add: two_entries_def one_page_env_def hot_env_ok_def EPP_val)
  have st: "states_ok two_entries"
    by (auto simp: states_ok_def two_entries_def settings empty_slot_def)
  have warm: "warm_slots two_entries = {(0, 7)}"
    by (auto simp: warm_slots_def two_entries_def one_page_env_def hot_pte_is_warm_def settings empty_slot_def
        region_def split: if_splits)
  have img: "pte_view ` hot_slot two_entries ` warm_slots two_entries = {(3, 40, 4, 9, False)}"
    unfolding warm by (simp add: two_entries_def pte_view_def)
  have inj: "inj_on (\<lambda>q. h_lpa (hot_slot two_entries q)) (warm_slots two_entries)"
    unfolding warm by simp
  show ?thesis
    using rehash_keeps_warm [OF env st]
    by (rule returns_mono) (use img inj in auto)
qed

section \<open>Frame\<close>

lemma clear_slot_side [simp]: "side (hot_rehash_clear_slot q c) = side c"
  by (simp add: hot_rehash_clear_slot_def Let_def)

lemma collect_loop_side: "side (collect_loop b c) = side c"
proof (induction b c rule: collect_loop.induct)
  case (2 b c)
  have "side (collect_one c) = side c"
    by (simp add: collect_one_def hot_rehash_saved_push_def Let_def)
  then show ?case
    using 2 by simp
qed simp

lemma rehash_put_side [simp]: "side (rehash_put src q c) = side c"
  by (simp add: rehash_put_def Let_def)

lemma rehash_probe_side: "rehash_probe k i src q c = Some (ok, c') \<Longrightarrow> side c' = side c"
  by (induction k i src q c rule: rehash_probe.induct) (auto split: if_splits simp: bind_Some_iff)

lemma place_entry_side:
  assumes "hot_rehash_place_entry src c = Some (ok, c')"
  shows "side c' = side c"
proof -
  obtain b c1 where c1: "hot_rehash_place_entry_primary src c = Some (b, c1)"
    and c': "(if b then Some (True, c1) else Some (hot_rehash_place_entry_fallback src c1)) = Some (ok, c')"
    using assms by (auto simp: hot_rehash_place_entry_def bind_Some_iff)
  have "side c1 = side c"
    using c1 by (auto simp: hot_rehash_place_entry_primary_def bind_Some_iff dest: rehash_probe_side)
  moreover have "side c' = side c1"
    using c' by (auto simp: hot_rehash_place_entry_fallback_def split: if_splits option.splits)
  ultimately show ?thesis by simp
qed

lemma insert_one_side:
  assumes "insert_one c = Some c'"
  shows "side c' = side c"
proof -
  obtain ok c1 where "hot_rehash_place_entry (saved (rehash c) ! insert_idx (rehash c)) c = Some (ok, c1)"
    and "side c' = side c1"
    using assms by (auto simp: insert_one_def Let_def bind_Some_iff simp del: if_split split: if_split_asm)
  then show ?thesis
    by (simp add: place_entry_side)
qed

lemma insert_loop_side: "insert_loop b c = Some c' \<Longrightarrow> side c' = side c"
  by (induction b c arbitrary: c' rule: insert_loop.induct)
    (auto simp: bind_Some_iff split: if_splits dest: insert_one_side)

lemma tick_side: "hot_rehash_tick c = Some c' \<Longrightarrow> side c' = side c"
  by (auto simp: hot_rehash_tick_def hot_rehash_step_locked_def Let_def bind_Some_iff hot_rehash_finish_locked_def
      collect_loop_side dest!: insert_loop_side split: rehash_phase.splits if_splits)

lemma drain_side: "hot_rehash_drain n c = Some c' \<Longrightarrow> side c' = side c"
  by (induction n c arbitrary: c' rule: hot_rehash_drain.induct)
    (auto simp: bind_Some_iff split: if_splits dest: tick_side)

lemma begin_side [simp]: "side (hot_rehash_begin c) = side c"
  by (simp add: hot_rehash_begin_def hot_rehash_begin_locked_def Let_def)

end
