(* ===== verification/Promote.thy ===== *)
theory Promote
  imports Rehash
begin

text \<open>
  The operations of \<^verbatim>\<open>hash_hot_cmt/dftl_cache.c\<close> on the hot table: reset, the access of a grain of a
  cold page, the promotion of the grains of a page, and the lookup.  During a rehash the table is
  not accessible: promotion and lookup then only push the rehash forward.
\<close>

section \<open>Cache operations on the hot table\<close>

definition reset_slot :: "h_pte \<Rightarrow> h_pte" where
  "reset_slot e = e\<lparr>key_ghost_mark := False, h_lpa := UINT32_MAX, h_ppa := UINT32_MAX,
     h_state := MIN_STATE, h_fp := 0\<rparr>"

definition dftl_cache_hot_reset :: "dcache \<Rightarrow> dcache" where
  "dftl_cache_hot_reset c =
     (let c1 = fold (\<lambda>q. upd_slot q reset_slot) (slots_of (max_cached_hot_tpages (env c))) c;
          c2 = upd_stat (\<lambda>s. s\<lparr>hot_pte_state_live := (\<lambda>_. 0), hot_pte_state_on_hit := (\<lambda>_. 0),
                 hot_valid_entries := 0\<rparr>) c1
      in upd_member (\<lambda>m. m\<lparr>nr_ghost_key := 0\<rparr>) c2)"

definition dftl_cache_cold_grain_access :: "lpa_t \<Rightarrow> dcache \<Rightarrow> dcache" where
  "dftl_cache_cold_grain_access lpa c =
     (let cmt = cmts (member c) (D_IDX lpa) in
      if \<not> cmt_is_resident cmt then c
      else let (cnt, cmt') = cmt_grain_heat_raise cmt (int (P_IDX lpa));
               c1 = upd_cmt (D_IDX lpa) (\<lambda>_. cmt') c
           in if \<not> cold_cnt_promotable cnt \<or> pte_ppa (mem_table (member c) (the (cmt_pt cmt')) (P_IDX lpa)) = UINT32_MAX
              then c1
              else upd_stat (\<lambda>s. s\<lparr>up_grain_cnt := up_grain_cnt s + 1, up_hit_cnt := up_hit_cnt s + cnt,
                  cold_promote_grain_period := (if cnt < STATE_NUM
                    then (cold_promote_grain_period s)(cnt := cold_promote_grain_period s cnt + 1)
                    else cold_promote_grain_period s),
                  grain_heat_distribute := (grain_heat_distribute s)(cnt := grain_heat_distribute s cnt + 1)\<rparr>) c1)"

text \<open>One iteration of the promotion loop over the grains of page \<open>v\<close> with row \<open>row\<close>; the pair
  counts the promotable grains.\<close>

definition promote_grain :: "nat \<Rightarrow> nat \<Rightarrow> nat list \<Rightarrow> nat \<Rightarrow> nat \<times> dcache \<Rightarrow> (nat \<times> dcache) option" where
  "promote_grain v row cs i = (\<lambda>(n, c).
     let e = mem_table (member c) row i; cnt = cs ! i in
     if pte_ppa e = UINT32_MAX then Some (n, c)
     else let c1 = (if cnt < STATE_NUM
            then upd_stat (\<lambda>s. s\<lparr>cold_promote_page_grain_period :=
              (cold_promote_page_grain_period s)(cnt := cold_promote_page_grain_period s cnt + 1)\<rparr>) c else c)
       in if \<not> cold_cnt_promotable cnt then Some (n, c1)
          else do {
            (_, c2) \<leftarrow> hot_promote_place_grain (IDX_TO_LPA v i) (pte_ppa e) (pte_fp e) cnt
              (upd_stat (\<lambda>s. s\<lparr>up_grain_cnt := up_grain_cnt s + 1, up_hit_cnt := up_hit_cnt s + cnt,
                  cold_promote_grain_period := (if cnt < STATE_NUM
                    then (cold_promote_grain_period s)(cnt := cold_promote_grain_period s cnt + 1)
                    else cold_promote_grain_period s),
                  grain_heat_distribute := (grain_heat_distribute s)(cnt := grain_heat_distribute s cnt + 1)\<rparr>) c1);
            Some (n + 1, c2)
          })"

fun promote_loop :: "nat \<Rightarrow> nat \<Rightarrow> nat list \<Rightarrow> nat list \<Rightarrow> nat \<times> dcache \<Rightarrow> (nat \<times> dcache) option" where
  "promote_loop v row cs [] st = Some st"
| "promote_loop v row cs (i # is) st = do { st' \<leftarrow> promote_grain v row cs i st; promote_loop v row cs is st' }"

definition dftl_cache_promote_hot :: "nat option \<Rightarrow> dcache \<Rightarrow> (int \<times> dcache) option" where
  "dftl_cache_promote_hot victim c =
     (if \<not> hot_cmt_accessible c
      then let c1 = (case victim of Some v \<Rightarrow> upd_cmt v cmt_page_heat_clear c | None \<Rightarrow> c)
           in do { c2 \<leftarrow> hot_rehash_drain 8 c1; Some (0, c2) }
      else case victim of None \<Rightarrow> Some (- 1, c)
      | Some v \<Rightarrow>
         (let cmt = cmts (member c) v in
          case (cmt_is_ghost cmt, cmt_pt cmt, cnt_map cmt) of
            (False, Some row, Some cs) \<Rightarrow>
              if \<not> list_ex (\<lambda>i. pte_ppa (mem_table (member c) row i) \<noteq> UINT32_MAX) [0..<EPP]
              then do { c1 \<leftarrow> hot_rehash_drain 8 (upd_cmt v cmt_page_heat_clear c); Some (0, c1) }
              else do {
                (n, c1) \<leftarrow> promote_loop (cmt_idx cmt) row cs [0..<EPP] (0, c);
                let c2 = (if n > 0 then upd_stat (\<lambda>s. s\<lparr>
                  cold_promote_pages_period := cold_promote_pages_period s + 1,
                  cold_promote_page_heat_sum_period := cold_promote_page_heat_sum_period s + page_heat_sum cmt\<rparr>) c1
                  else c1);
                let c3 = upd_cmt v (\<lambda>x. cmt_update_hot_entry_flag (mem_table (member c)) (cmt_page_heat_clear x)) c2;
                Some (1, upd_stat (\<lambda>s. s\<lparr>up_page_cnt := up_page_cnt s + 1\<rparr>) c3)
              }
          | _ \<Rightarrow> Some (- 1, c)))"

text \<open>The result is the slot of the hit, \<open>None\<close> for a miss.\<close>

definition dftl_cache_hot_is_hit :: "lpa_t \<Rightarrow> dcache \<Rightarrow> ((nat \<times> nat) option \<times> dcache) option" where
  "dftl_cache_hot_is_hit lpa c =
     (if \<not> hot_cmt_accessible c then do { c1 \<leftarrow> hot_rehash_drain 4 c; Some (None, c1) }
      else do {
        home \<leftarrow> hot_home (env c) lpa;
        r \<leftarrow> hot_find MAX_PROBE 0 c lpa home;
        case r of Some q \<Rightarrow> Some (Some q, hot_state_raise q c)
        | None \<Rightarrow> do { c1 \<leftarrow> hot_rehash_drain 4 c; Some (None, c1) }
      })"

section \<open>Lookup\<close>

lemma hot_state_raise_simps [simp]:
  "env (hot_state_raise q c) = env c" "rehash (hot_state_raise q c) = rehash c"
  "cmts (member (hot_state_raise q c)) = cmts (member c)"
  "mem_table (member (hot_state_raise q c)) = mem_table (member c)"
  by (auto simp: hot_state_raise_def Let_def)

lemma hot_state_raise_slot:
  assumes "h_state (hot_slot c q) \<le> HOT_STATE_MAX" and "h_lpa (hot_slot c q) \<noteq> UINT32_MAX"
  shows "hot_slot (hot_state_raise q c) = (hot_slot c)(q := (hot_slot c q)\<lparr>h_state := grain_heat_raise (h_state (hot_slot c q))\<rparr>)"
  using assms by (cases "hot_slot c q") (auto simp: hot_state_raise_def Let_def grain_heat_raise_def state_vals fun_eq_iff)

lemma hot_state_raise_ok:
  assumes ok: "hot_ok k c" and q: "q \<in> region (max_cached_hot_tpages (env c))"
  shows "hot_ok k (hot_state_raise q c)"
proof (cases "h_lpa (hot_slot c q) = UINT32_MAX")
  case True
  then show ?thesis
    using ok by (simp add: hot_state_raise_def)
next
  case False
  let ?e = "(hot_slot c q)\<lparr>h_state := grain_heat_raise (h_state (hot_slot c q))\<rparr>" and ?c = "hot_state_raise q c"
  have le: "h_state (hot_slot c q) \<le> HOT_STATE_MAX" and lo: "live_ok c" and vo: "valid_ok k c"
    using ok q by (auto simp: hot_ok_def states_ok_def)
  note slot = hot_state_raise_slot [OF le False]
  have used: "in_use (hot_slot c q)" "in_use ?e" "h_state ?e < STATE_NUM" "h_state (hot_slot c q) < STATE_NUM"
    using False le by (auto simp: in_use_def grain_heat_raise_def state_vals)
  have pos: "0 < hot_pte_state_live (stat c) (h_state (hot_slot c q))"
    using lo used q slot_count_pos [OF q, of "in_state (h_state (hot_slot c q))" "hot_slot c"]
    by (simp add: live_ok_def in_state_def in_use_def)
  have "live_ok ?c"
  proof (rule live_ok_write [OF lo q used(4) used(2,3) _ slot])
    show "hot_pte_state_live (stat ?c) = (\<lambda>L. L(h_state ?e := Suc (L (h_state ?e))))
       (if in_use (hot_slot c q)
        then (hot_pte_state_live (stat c))(h_state (hot_slot c q) := hot_pte_state_live (stat c) (h_state (hot_slot c q)) - 1)
        else hot_pte_state_live (stat c))"
      using False le pos
      by (auto simp: hot_state_raise_def hot_hist_move_def Let_def grain_heat_raise_def state_vals in_use_def fun_eq_iff)
  qed simp
  moreover have "hot_valid_entries (stat ?c) = hot_valid_entries (stat c)"
    by (simp add: hot_state_raise_def hot_hist_move_def Let_def)
  moreover have "states_ok ?c"
    using ok used(3) by (auto simp: states_ok_def hot_ok_def slot state_vals)
  moreover have "slot_count (max_cached_hot_tpages (env c)) (hot_slot ?c) in_use =
      slot_count (max_cached_hot_tpages (env c)) (hot_slot c) in_use"
    using slot_count_upd [OF q, of "hot_slot c" ?e in_use] used by (simp add: slot)
  ultimately show ?thesis
    using ok vo by (simp add: hot_ok_def valid_ok_def)
qed

lemma accessible_drain [simp]: "hot_cmt_accessible c \<Longrightarrow> hot_rehash_drain n c = Some c"
  by (cases n) simp_all

lemma is_hit_eq:
  assumes "hot_env_ok (env c)" and "hot_cmt_accessible c"
  shows "dftl_cache_hot_is_hit lpa c = Some (case List.find (slot_has c lpa) (hot_chain (env c) lpa) of
    Some q \<Rightarrow> (Some q, hot_state_raise q c) | None \<Rightarrow> (None, c))"
proof -
  have "hot_find MAX_PROBE 0 c lpa (hot_start (env c) lpa) =
      Some (List.find (slot_has c lpa) (hot_chain (env c) lpa))"
    unfolding hot_chain_def using assms(1) by (intro hot_find_path) (simp_all add: hot_env_ok_def)
  then show ?thesis
    using assms by (auto simp: dftl_cache_hot_is_hit_def hot_home_Some split: option.split)
qed

lemma is_hit_ok:
  assumes "hot_ok k c" and "hot_cmt_accessible c"
  shows "returns (dftl_cache_hot_is_hit lpa c) (\<lambda>(_, c'). hot_ok k c' \<and> rehash c' = rehash c \<and> env c' = env c)"
proof -
  have eo: "hot_env_ok (env c)"
    using assms(1) by (simp add: hot_ok_def)
  then show ?thesis
    using assms hot_chain_region [OF eo, of lpa]
    by (auto simp: is_hit_eq hot_state_raise_ok dest!: find_mem split: option.splits)
qed

text \<open>
  C11. A promoted grain hits: unless all 50 slots of its chain hold other addresses in hotter
  states, a placement succeeds, and the next lookup of the address returns a slot with the placed
  location and fingerprint.  A refused placement leaves the table as it was.
\<close>

theorem promoted_grain_hits:
  assumes "hot_ok k c" and "hot_cmt_accessible c" and "lpa \<noteq> UINT32_MAX"
  shows "returns (hot_promote_place_grain lpa ppa f n c) (\<lambda>(placed, c').
    placed = (\<not> place_blocked c lpa n) \<and>
    (if placed
     then returns (dftl_cache_hot_is_hit lpa c') (\<lambda>(hit, c'').
       \<exists>q. hit = Some q \<and> h_lpa (hot_slot c'' q) = lpa \<and> h_ppa (hot_slot c'' q) = ppa \<and> h_fp (hot_slot c'' q) = f)
     else hot_slot c' = hot_slot c))"
proof -
  have eo: "hot_env_ok (env c)" and st: "states_ok c"
    using assms(1) by (simp_all add: hot_ok_def)
  have hit: "returns (dftl_cache_hot_is_hit lpa c') (\<lambda>(hit, c'').
       \<exists>q. hit = Some q \<and> h_lpa (hot_slot c'' q) = lpa \<and> h_ppa (hot_slot c'' q) = ppa \<and> h_fp (hot_slot c'' q) = f)"
    if c': "env c' = env c" "rehash c' = rehash c" "place_target c lpa n q"
      "hot_slot c' = (hot_slot c)(q := hot_entry lpa ppa f n (hot_slot c q))" for c' q
  proof -
    have "List.find (slot_has c' lpa) (hot_chain (env c) lpa) = Some q"
      using c'(3) by (intro find_after_write [OF _ place_target_find [OF c'(3)] c'(4)]) (simp_all add: place_target_def)
    then have "dftl_cache_hot_is_hit lpa c' = Some (Some q, hot_state_raise q c')"
      using is_hit_eq [of c' lpa] eo assms(2) c'(1,2) by (simp add: hot_cmt_accessible_def)
    then show ?thesis
      using assms(3) hot_state_raise_slot [of c' q]
      by (simp add: c'(4) del: split_paired_Ex)
  qed
  show ?thesis
    using place_slots [OF eo st assms(3), of ppa f n]
    by (rule returns_mono) (use hit in \<open>auto split: if_splits simp del: split_paired_Ex\<close>)
qed

text \<open>
  Placements do not disturb each other: a placement that hits another address changes the
  lookup of an address only by displacing the very slot that the lookup finds.
\<close>

theorem placement_keeps_other_lookups:
  assumes "hot_ok k c" and "hot_cmt_accessible c" and "lpa \<noteq> UINT32_MAX" and "other \<noteq> lpa" and "other \<noteq> UINT32_MAX"
  shows "returns (hot_promote_place_grain lpa ppa f n c) (\<lambda>(placed, c').
    map_option fst (dftl_cache_hot_is_hit other c') = map_option fst (dftl_cache_hot_is_hit other c) \<or>
    (\<exists>q. place_target c lpa n q \<and> slot_has c other q \<and> h_state (hot_slot c q) \<le> n \<and>
       (\<forall>q' \<in> set (hot_chain (env c) lpa). h_state (hot_slot c q) \<le> h_state (hot_slot c q'))))"
proof -
  have eo: "hot_env_ok (env c)" and st: "states_ok c"
    using assms(1) by (simp_all add: hot_ok_def)
  have same: "map_option fst (dftl_cache_hot_is_hit other c') = map_option fst (dftl_cache_hot_is_hit other c)"
    if "env c' = env c" "rehash c' = rehash c" "slot_has c' other = slot_has c other" for c'
    using that eo assms(2) by (simp add: is_hit_eq hot_cmt_accessible_def split: option.split)
  have victim: "h_state (hot_slot c q) \<le> n \<and>
       (\<forall>q' \<in> set (hot_chain (env c) lpa). h_state (hot_slot c q) \<le> h_state (hot_slot c q'))"
    if "place_target c lpa n q" "slot_has c other q" for q
    using that assms(4,5) by (auto simp: place_target_def slot_has_def split: option.splits dest!: find_mem)
  show ?thesis
    using place_slots [OF eo st assms(3), of ppa f n]
  proof (rule returns_mono, clarify)
    fix placed c'
    assume c': "env c' = env c" "rehash c' = rehash c"
      and r: "if place_blocked c lpa n then \<not> placed \<and> hot_slot c' = hot_slot c
        else placed \<and> (\<exists>q. place_target c lpa n q \<and> hot_slot c' = (hot_slot c)(q := hot_entry lpa ppa f n (hot_slot c q)))"
      and no: "\<nexists>q. place_target c lpa n q \<and> slot_has c other q \<and> h_state (hot_slot c q) \<le> n \<and>
       (\<forall>q' \<in> set (hot_chain (env c) lpa). h_state (hot_slot c q) \<le> h_state (hot_slot c q'))"
    have "slot_has c' other = slot_has c other"
    proof (cases "place_blocked c lpa n")
      case True
      then show ?thesis
        using r by (simp add: slot_has_def fun_eq_iff)
    next
      case False
      then obtain q where q: "place_target c lpa n q"
        "hot_slot c' = (hot_slot c)(q := hot_entry lpa ppa f n (hot_slot c q))"
        using r by auto
      have "\<not> slot_has c other q"
        using no q(1) victim by blast
      then show ?thesis
        using q(2) assms(4) by (auto simp: slot_has_def fun_eq_iff)
    qed
    then show "map_option fst (dftl_cache_hot_is_hit other c') = map_option fst (dftl_cache_hot_is_hit other c)"
      using c' same by blast
  qed
qed

lemma placement_demo:
  "hot_ok 0 (upd_env (\<lambda>_. one_page_env) blank_dcache)" "hot_cmt_accessible (upd_env (\<lambda>_. one_page_env) blank_dcache)"
proof -
  let ?c = "upd_env (\<lambda>_. one_page_env) blank_dcache"
  show "hot_ok 0 ?c"
  proof (rule empty_table_hot_ok)
    show "hot_env_ok (env ?c)"
      by (simp add: hot_env_ok_def one_page_env_def EPP_val)
    show "hot_pte_state_live (stat ?c) = (\<lambda>_. 0)" "hot_valid_entries (stat ?c) = 0"
      by (simp_all add: blank_dcache_def cache_stat_init_def)
  qed (simp_all add: states_ok_def in_use_def, simp_all add: empty_slot_def state_vals)
  show "hot_cmt_accessible ?c"
    by (simp add: hot_cmt_accessible_def blank_dcache_def rehash_zero_def)
qed

lemma promoted_grain_hits_witness:
  "returns (hot_promote_place_grain 5 77 3 2 (upd_env (\<lambda>_. one_page_env) blank_dcache)) (\<lambda>(placed, c').
    placed = (\<not> place_blocked (upd_env (\<lambda>_. one_page_env) blank_dcache) 5 2))"
  using promoted_grain_hits [OF placement_demo, of 5 77 3 2]
  by (rule returns_mono) (auto simp: UINT32_MAX_def)

lemma placement_keeps_other_lookups_witness:
  "returns (hot_promote_place_grain 5 77 3 2 (upd_env (\<lambda>_. one_page_env) blank_dcache)) (\<lambda>(placed, c').
    map_option fst (dftl_cache_hot_is_hit 6 c') =
    map_option fst (dftl_cache_hot_is_hit 6 (upd_env (\<lambda>_. one_page_env) blank_dcache)))"
  using placement_keeps_other_lookups [OF placement_demo, of 5 6 77 3 2]
  by (rule returns_mono) (auto simp: UINT32_MAX_def slot_has_def empty_slot_def)

section \<open>Promotion of a page\<close>

text \<open>The hot table agrees with the mapping table.\<close>

definition hot_sound :: "dcache \<Rightarrow> bool" where
  "hot_sound c \<longleftrightarrow> (\<forall>q \<in> region (max_cached_hot_tpages (env c)). in_use (hot_slot c q) \<longrightarrow>
     (let e = mem_table (member c) (D_IDX (h_lpa (hot_slot c q))) (P_IDX (h_lpa (hot_slot c q)))
      in h_ppa (hot_slot c q) = pte_ppa e \<and> h_fp (hot_slot c q) = pte_fp e))"

definition promote_inv :: "nat \<Rightarrow> dcache \<Rightarrow> dcache \<Rightarrow> bool" where
  "promote_inv k c0 c \<longleftrightarrow> hot_ok k c \<and> hot_sound c \<and> env c = env c0 \<and> rehash c = rehash c0 \<and>
     cmts (member c) = cmts (member c0) \<and> mem_table (member c) = mem_table (member c0)"

lemma promote_inv_stat:
  assumes "promote_inv k c0 c"
    and "\<And>s. hot_pte_state_live (f s) = hot_pte_state_live s" and "\<And>s. hot_valid_entries (f s) = hot_valid_entries s"
  shows "promote_inv k c0 (upd_stat f c)"
  using assms
  by (auto simp: promote_inv_def hot_ok_def hot_sound_def states_ok_def live_ok_def valid_ok_def)

lemma place_promote_inv:
  assumes inv: "promote_inv k c0 c" and lpa: "lpa \<noteq> UINT32_MAX"
    and e: "mem_table (member c0) (D_IDX lpa) (P_IDX lpa) = e"
  shows "returns (hot_promote_place_grain lpa (pte_ppa e) (pte_fp e) n c) (\<lambda>(_, c'). promote_inv k c0 c')"
proof -
  have ok: "hot_ok k c" "hot_env_ok (env c)" "states_ok c"
    using inv by (auto simp: promote_inv_def hot_ok_def)
  show ?thesis
    using returns_conj [OF place_hot_ok [OF ok(1) lpa] place_slots [OF ok(2,3) lpa]]
  proof (rule returns_mono)
    fix r
    assume *: "(case r of (_, c') \<Rightarrow> hot_ok k c') \<and> (case r of (ok, c') \<Rightarrow> env c' = env c \<and> rehash c' = rehash c \<and>
      cmts (member c') = cmts (member c) \<and> mem_table (member c') = mem_table (member c) \<and>
      (if place_blocked c lpa n then \<not> ok \<and> hot_slot c' = hot_slot c
       else ok \<and> (\<exists>q. place_target c lpa n q \<and>
         hot_slot c' = (hot_slot c)(q := hot_entry lpa (pte_ppa e) (pte_fp e) n (hot_slot c q)))))"
    obtain b c' where r: "r = (b, c')" by (cases r)
    have "\<exists>q x. hot_slot c' = hot_slot c \<or> hot_slot c' = (hot_slot c)(q := hot_entry lpa (pte_ppa e) (pte_fp e) n x)"
      using * by (auto simp: r split: if_splits simp del: split_paired_Ex)
    then have "hot_sound c'"
      using inv * e by (auto simp: r promote_inv_def hot_sound_def Let_def)
    then show "case r of (_, c') \<Rightarrow> promote_inv k c0 c'"
      using inv * by (simp add: r promote_inv_def)
  qed
qed

lemma promote_grain_inv:
  assumes inv: "promote_inv k c0 c" and i: "i < EPP" and v: "v < 2 ^ 22"
  shows "returns (promote_grain v v cs i (n, c)) (\<lambda>(_, c'). promote_inv k c0 c')"
proof -
  have lpa: "IDX_TO_LPA v i \<noteq> UINT32_MAX"
    using i v by (simp add: IDX_TO_LPA_def settings)
  have mt: "mem_table (member c) = mem_table (member c0)"
    using inv by (simp add: promote_inv_def)
  have e: "mem_table (member c0) (D_IDX (IDX_TO_LPA v i)) (P_IDX (IDX_TO_LPA v i)) = mem_table (member c0) v i"
    using i by simp
  have upd: "promote_inv k c0 c' \<Longrightarrow> promote_inv k c0 (upd_stat (\<lambda>s. s\<lparr>up_grain_cnt := f1 s, up_hit_cnt := f2 s,
      cold_promote_grain_period := f3 s, grain_heat_distribute := f4 s\<rparr>) c')" for f1 f2 f3 f4 c'
    by (rule promote_inv_stat) simp_all
  have upd1: "promote_inv k c0 c' \<Longrightarrow> promote_inv k c0 (upd_stat (\<lambda>s. s\<lparr>up_grain_cnt := f1 s, up_hit_cnt := f2 s,
      grain_heat_distribute := f4 s\<rparr>) c')" for f1 f2 f4 c'
    by (rule promote_inv_stat) simp_all
  have upd2: "promote_inv k c0 (upd_stat (\<lambda>s. s\<lparr>cold_promote_page_grain_period := f s\<rparr>) c)" for f
    using inv by (rule promote_inv_stat) simp_all
  have place: "promote_inv k c0 c' \<Longrightarrow>
      returns (hot_promote_place_grain (IDX_TO_LPA v i) (pte_ppa (mem_table (member c0) v i))
        (pte_fp (mem_table (member c0) v i)) m c') (\<lambda>(_, c'). promote_inv k c0 c')" for c' m
    using place_promote_inv [OF _ lpa e] by blast
  show ?thesis
    unfolding promote_grain_def prod.case Let_def mt
    by (auto simp: inv upd2 intro!: returns_mono [OF place] upd upd1)
qed

lemma promote_loop_inv:
  "\<lbrakk>promote_inv k c0 c; \<forall>i \<in> set is. i < EPP; v < 2 ^ 22\<rbrakk> \<Longrightarrow>
    returns (promote_loop v v cs is (n, c)) (\<lambda>(_, c'). promote_inv k c0 c')"
proof (induction "is" arbitrary: n c)
  case (Cons i "is")
  have "returns (promote_grain v v cs i (n, c)) (\<lambda>st. returns (promote_loop v v cs is st) (\<lambda>(_, c'). promote_inv k c0 c'))"
    using promote_grain_inv [OF Cons.prems(1) _ Cons.prems(3), of i cs n] Cons.prems(2,3)
    by (auto elim!: returns_mono intro: Cons.IH)
  then show ?case by simp
qed simp

text \<open>Clearing the heat of a page at the end of its promotion.\<close>

lemma promote_inv_ok:
  assumes "promote_inv k c c'" "hot_cmt_accessible c"
  shows "hot_ok k (upd_cmt v f c')" "hot_sound (upd_cmt v f c')" "hot_cmt_accessible (upd_cmt v f c')"
  using assms
  by (auto simp: promote_inv_def hot_ok_def hot_sound_def states_ok_def live_ok_def valid_ok_def hot_cmt_accessible_def)

definition cooled :: "nat \<Rightarrow> nat \<Rightarrow> dcache \<Rightarrow> dcache \<Rightarrow> bool" where
  "cooled k v c c' \<longleftrightarrow> hot_ok k c' \<and> hot_sound c' \<and> hot_cmt_accessible c' \<and> page_heat_sum (cmts (member c') v) = 0 \<and>
     cnt_map (cmts (member c') v) = Some (replicate EPP 0) \<and> (\<forall>w. w \<noteq> v \<longrightarrow> cmts (member c') w = cmts (member c) w)"

lemma page_heat_clear_vals:
  assumes "cnt_map x \<noteq> None"
  shows "page_heat_sum (cmt_page_heat_clear x) = 0" "cnt_map (cmt_page_heat_clear x) = Some (replicate EPP 0)"
    "cmt_pt (cmt_page_heat_clear x) = cmt_pt x"
  using assms by (auto simp: cmt_page_heat_clear_def Let_def)

lemma flag_vals:
  assumes "cnt_map x \<noteq> None" "cmt_pt x = Some v"
  shows "page_heat_sum (cmt_update_hot_entry_flag mt (cmt_page_heat_clear x)) = 0"
    "cnt_map (cmt_update_hot_entry_flag mt (cmt_page_heat_clear x)) = Some (replicate EPP 0)"
    "\<not> has_hot_entry (cmt_update_hot_entry_flag mt (cmt_page_heat_clear x))"
  using page_heat_clear_vals [OF assms(1)] assms(2)
  by (auto simp: cmt_update_hot_entry_flag_def cmt_cnt_map_active_def state_vals list_ex_iff)

lemma promote_finish:
  assumes inv: "promote_inv k c c'" and acc: "hot_cmt_accessible c" and x: "cnt_map (cmts (member c) v) \<noteq> None" "cmt_pt (cmts (member c) v) = Some v"
  defines "flag \<equiv> \<lambda>y. cmt_update_hot_entry_flag (mem_table (member c)) (cmt_page_heat_clear y)"
  shows "cooled k v c (upd_stat (\<lambda>s. s\<lparr>up_page_cnt := g s\<rparr>) (upd_cmt v flag c'))"
    "\<not> has_hot_entry (cmts (member (upd_stat (\<lambda>s. s\<lparr>up_page_cnt := g s\<rparr>) (upd_cmt v flag c'))) v)"
proof -
  have same: "cmts (member c') = cmts (member c)"
    using inv by (simp add: promote_inv_def)
  have "promote_inv k (upd_cmt v flag c') (upd_cmt v flag c')"
    using promote_inv_ok [OF inv acc] by (simp add: promote_inv_def)
  then have "promote_inv k (upd_cmt v flag c') (upd_stat (\<lambda>s. s\<lparr>up_page_cnt := g s\<rparr>) (upd_cmt v flag c'))"
    by (rule promote_inv_stat) simp_all
  then show "cooled k v c (upd_stat (\<lambda>s. s\<lparr>up_page_cnt := g s\<rparr>) (upd_cmt v flag c'))"
    using promote_inv_ok(3) [OF inv acc, of v flag] flag_vals [OF x] same
    by (auto simp: promote_inv_def hot_cmt_accessible_def cooled_def flag_def)
  show "\<not> has_hot_entry (cmts (member (upd_stat (\<lambda>s. s\<lparr>up_page_cnt := g s\<rparr>) (upd_cmt v flag c'))) v)"
    using flag_vals(3) [OF x] same by (simp add: flag_def)
qed

text \<open>
  C14. Promoting a resident page never aborts, keeps the hot table well-formed and in agreement
  with the mapping table, zeroes the heat of that page, clears its hot flag when grains were
  considered, and leaves the other pages alone.
\<close>

theorem promote_hot_sound:
  assumes "hot_ok k c" and "hot_cmt_accessible c" and "hot_sound c"
    and "\<not> cmt_is_ghost (cmts (member c) v)" and "cmt_pt (cmts (member c) v) = Some v"
    and "cmt_idx (cmts (member c) v) = v" and "cnt_map (cmts (member c) v) \<noteq> None" and "v < 2 ^ 22"
  shows "returns (dftl_cache_promote_hot (Some v) c) (\<lambda>(r, c'). hot_ok k c' \<and> hot_sound c' \<and> hot_cmt_accessible c' \<and>
    page_heat_sum (cmts (member c') v) = 0 \<and> cnt_map (cmts (member c') v) = Some (replicate EPP 0) \<and>
    (r = 1 \<longrightarrow> \<not> has_hot_entry (cmts (member c') v)) \<and> (\<forall>w. w \<noteq> v \<longrightarrow> cmts (member c') w = cmts (member c) w))"
proof -
  obtain cs where cs: "cnt_map (cmts (member c) v) = Some cs"
    using assms(7) by blast
  have inv: "promote_inv k c c"
    using assms(1,3) by (simp add: promote_inv_def)
  show ?thesis
  proof (cases "list_ex (\<lambda>i. pte_ppa (mem_table (member c) v i) \<noteq> UINT32_MAX) [0..<EPP]")
    case False
    then show ?thesis
      using assms(2,4,5) cs promote_inv_ok [OF inv assms(2)] page_heat_clear_vals [OF assms(7)]
      by (simp add: dftl_cache_promote_hot_def Let_def)
  next
    case True
    let ?flag = "\<lambda>x. cmt_update_hot_entry_flag (mem_table (member c)) (cmt_page_heat_clear x)"
    have eq: "dftl_cache_promote_hot (Some v) c = do {
        (n, c1) \<leftarrow> promote_loop v v cs [0..<EPP] (0, c);
        let c2 = (if n > 0 then upd_stat (\<lambda>s. s\<lparr>
                  cold_promote_pages_period := cold_promote_pages_period s + 1,
                  cold_promote_page_heat_sum_period := cold_promote_page_heat_sum_period s + page_heat_sum (cmts (member c) v)\<rparr>) c1
                  else c1);
        Some (1, upd_stat (\<lambda>s. s\<lparr>up_page_cnt := up_page_cnt s + 1\<rparr>) (upd_cmt v ?flag c2))
      }"
      using True assms(2,4-6) cs by (simp add: dftl_cache_promote_hot_def Let_def)
    obtain n c1 where c1: "promote_loop v v cs [0..<EPP] (0, c) = Some (n, c1)" "promote_inv k c c1"
      using promote_loop_inv [OF inv _ assms(8), of "[0..<EPP]" cs 0] by (auto elim!: returnsE)
    let ?c2 = "if n > 0 then upd_stat (\<lambda>s. s\<lparr>
                  cold_promote_pages_period := cold_promote_pages_period s + 1,
                  cold_promote_page_heat_sum_period := cold_promote_page_heat_sum_period s + page_heat_sum (cmts (member c) v)\<rparr>) c1
                  else c1"
    have "promote_inv k c ?c2"
      using c1(2) promote_inv_stat [OF c1(2)] by simp
    note fin = promote_finish [OF this assms(2,7,5), of "\<lambda>s. up_page_cnt s + 1"]
    show ?thesis
      unfolding eq c1(1) using fin by (simp only: bind.bind_lunit prod.case Let_def returns_simps cooled_def) simp
  qed
qed

lemma hot_ok_upd_cmt [simp]:
  "hot_ok k (upd_cmt v f c) = hot_ok k c" "hot_sound (upd_cmt v f c) = hot_sound c"
  "hot_cmt_accessible (upd_cmt v f c) = hot_cmt_accessible c"
  by (simp_all add: hot_ok_def hot_sound_def states_ok_def live_ok_def valid_ok_def hot_cmt_accessible_def)

text \<open>Page 0 is resident, with two touched grains.\<close>

definition resident_demo :: dcache where
  "resident_demo = upd_cmt 0 (\<lambda>x. x\<lparr>cmt_pt := Some 0, cnt_map := Some ((replicate EPP 0)[3 := 2, 4 := 1]),
     page_heat_sum := 3\<rparr>) (upd_env (\<lambda>_. one_page_env) blank_dcache)"

lemma promote_hot_sound_witness:
  "returns (dftl_cache_promote_hot (Some 0) resident_demo) (\<lambda>(r, c'). hot_ok 0 c' \<and> page_heat_sum (cmts (member c') 0) = 0)"
proof -
  have "hot_sound (upd_env (\<lambda>_. one_page_env) blank_dcache)"
    by (simp add: hot_sound_def in_use_def empty_slot_def)
  then have r: "hot_ok 0 resident_demo" "hot_cmt_accessible resident_demo" "hot_sound resident_demo"
    using placement_demo by (simp_all add: resident_demo_def)
  have c: "\<not> cmt_is_ghost (cmts (member resident_demo) 0)" "cmt_pt (cmts (member resident_demo) 0) = Some 0"
    "cmt_idx (cmts (member resident_demo) 0) = 0" "cnt_map (cmts (member resident_demo) 0) \<noteq> None" "(0::nat) < 2 ^ 22"
    by (simp_all add: resident_demo_def cmt_is_ghost_def blank_dcache_def cache_member_init_def blank_cmt_def)
  show ?thesis
    using promote_hot_sound [OF r c] by (rule returns_mono) auto
qed

section \<open>Frame\<close>

definition same_side :: "nat \<Rightarrow> dcache \<Rightarrow> dcache \<Rightarrow> bool" where
  "same_side k c c' \<longleftrightarrow> hot_ok k c' \<and> env c' = env c \<and> rehash c' = rehash c \<and> side c' = side c"

lemma same_side_stat:
  assumes "same_side k c c'"
    and "\<And>s. hot_pte_state_live (f s) = hot_pte_state_live s" and "\<And>s. hot_valid_entries (f s) = hot_valid_entries s"
  shows "same_side k c (upd_stat f c')"
  using assms by (auto simp: same_side_def hot_ok_def states_ok_def live_ok_def valid_ok_def)

lemma place_same_side:
  assumes "same_side k c c'" and lpa: "lpa \<noteq> UINT32_MAX"
  shows "returns (hot_promote_place_grain lpa ppa f n c') (\<lambda>(_, c''). same_side k c c'')"
proof -
  have ok: "hot_ok k c'" "hot_env_ok (env c')" "states_ok c'"
    using assms(1) by (auto simp: same_side_def hot_ok_def)
  show ?thesis
    using returns_conj [OF place_hot_ok [OF ok(1) lpa] returns_conj [OF place_slots [OF ok(2,3) lpa] place_side [OF ok(2,3)]]]
    by (rule returns_mono) (use assms(1) in \<open>auto simp: same_side_def\<close>)
qed

lemma promote_grain_same_side:
  assumes inv: "same_side k c c'" and i: "i < EPP" and v: "v < 2 ^ 22"
  shows "returns (promote_grain v row cs i (n, c')) (\<lambda>(_, c''). same_side k c c'')"
proof -
  have lpa: "IDX_TO_LPA v i \<noteq> UINT32_MAX"
    using i v by (simp add: IDX_TO_LPA_def settings)
  show ?thesis
    unfolding promote_grain_def prod.case Let_def
    by (auto simp: inv intro!: returns_mono [OF place_same_side [OF _ lpa]] same_side_stat)
qed

lemma promote_loop_same_side:
  "\<lbrakk>same_side k c c'; \<forall>i \<in> set is. i < EPP; v < 2 ^ 22\<rbrakk> \<Longrightarrow>
    returns (promote_loop v row cs is (n, c')) (\<lambda>(_, c''). same_side k c c'')"
proof (induction "is" arbitrary: n c')
  case (Cons i "is")
  have "returns (promote_grain v row cs i (n, c')) (\<lambda>(_, c''). same_side k c c'')"
    using Cons.prems by (intro promote_grain_same_side) auto
  then have "returns (promote_grain v row cs i (n, c')) (\<lambda>st. returns (promote_loop v row cs is st) (\<lambda>(_, c''). same_side k c c''))"
    by (rule returns_mono) (use Cons in auto)
  then show ?case by simp
qed simp

text \<open>A promotion changes no page but the promoted one, and of that only its heat.\<close>

definition heat_change :: "(cmt \<Rightarrow> cmt) \<Rightarrow> bool" where
  "heat_change g \<longleftrightarrow> (\<forall>x. cmt_idx (g x) = cmt_idx x \<and> cmt_pt (g x) = cmt_pt x \<and> t_ppa (g x) = t_ppa x \<and>
     cmt_dirty (g x) = cmt_dirty x \<and> is_flying (g x) = is_flying x \<and> retry_q (g x) = retry_q x \<and>
     lru_ptr (g x) = lru_ptr x \<and> ghost_mark (g x) = ghost_mark x)"

lemma heat_change_intros:
  "heat_change (\<lambda>x. x)" "heat_change cmt_page_heat_clear"
  "heat_change (\<lambda>x. cmt_update_hot_entry_flag mt (cmt_page_heat_clear x))"
  by (simp_all add: heat_change_def cmt_page_heat_clear_def cmt_update_hot_entry_flag_def Let_def)

lemma side_upd_cmt: "side c' = side c \<Longrightarrow> side (upd_cmt v g c') = side (upd_cmt v g c)"
  by (simp add: side_def upd_cmt_def upd_member_def)

lemma side_upd_cmt_id [simp]: "side (upd_cmt v (\<lambda>x. x) c) = side c"
  by (simp add: side_def upd_cmt_def upd_member_def)

lemma promote_hot_same:
  assumes ok: "hot_ok k c" "hot_cmt_accessible c" and idx: "\<And>v. vo = Some v \<Longrightarrow> cmt_idx (cmts (member c) v) < 2 ^ 22"
  shows "returns (dftl_cache_promote_hot vo c) (\<lambda>(_, c'). hot_ok k c' \<and> env c' = env c \<and> rehash c' = rehash c \<and>
    (\<exists>v g. heat_change g \<and> side c' = side (upd_cmt v g c)))"
proof -
  let ?P = "\<lambda>c'. hot_ok k c' \<and> env c' = env c \<and> rehash c' = rehash c \<and> (\<exists>v g. heat_change g \<and> side c' = side (upd_cmt v g c))"
  have same: "?P c"
    using ok(1) heat_change_intros(1) side_upd_cmt_id by fastforce
  have clear: "?P (upd_cmt v cmt_page_heat_clear c)" for v
    using ok(1) heat_change_intros(2) by auto
  have fin: "?P (upd_stat (\<lambda>s. s\<lparr>up_page_cnt := h s\<rparr>)
      (upd_cmt v (\<lambda>x. cmt_update_hot_entry_flag mt (cmt_page_heat_clear x)) c'))" if "same_side k c c'" for v mt c' h
  proof -
    have "hot_ok k (upd_stat (\<lambda>s. s\<lparr>up_page_cnt := h s\<rparr>) c')"
      using same_side_stat [OF that, of "\<lambda>s. s\<lparr>up_page_cnt := h s\<rparr>"] by (simp add: same_side_def)
    then have "hot_ok k (upd_stat (\<lambda>s. s\<lparr>up_page_cnt := h s\<rparr>)
        (upd_cmt v (\<lambda>x. cmt_update_hot_entry_flag mt (cmt_page_heat_clear x)) c'))"
      by (simp add: hot_ok_def states_ok_def live_ok_def valid_ok_def)
    then show ?thesis
      using that heat_change_intros(3) side_upd_cmt [of c' c] by (auto simp: same_side_def)
  qed
  have upd: "same_side k c (if n > 0 then upd_stat (\<lambda>s. s\<lparr>cold_promote_pages_period := f s,
      cold_promote_page_heat_sum_period := g s\<rparr>) c' else c')" if "same_side k c c'" for n :: nat and f g c'
    using that same_side_stat [OF that] by simp
  show ?thesis
  proof (cases vo)
    case None
    then show ?thesis
      using ok(2) same by (simp add: dftl_cache_promote_hot_def)
  next
    case (Some v)
    let ?x = "cmts (member c) v"
    show ?thesis
    proof (cases "\<not> cmt_is_ghost ?x \<and> cmt_pt ?x \<noteq> None \<and> cnt_map ?x \<noteq> None")
      case False
      then have "dftl_cache_promote_hot vo c = Some (- 1, c)"
        using ok(2) Some by (auto simp: dftl_cache_promote_hot_def Let_def split: option.splits bool.splits)
      then show ?thesis
        using same by simp
    next
      case True
      then obtain row cs where rc: "\<not> cmt_is_ghost ?x" "cmt_pt ?x = Some row" "cnt_map ?x = Some cs"
        by auto
      show ?thesis
      proof (cases "list_ex (\<lambda>i. pte_ppa (mem_table (member c) row i) \<noteq> UINT32_MAX) [0..<EPP]")
        case False
        then show ?thesis
          using rc ok(2) Some clear [of v] by (simp add: dftl_cache_promote_hot_def Let_def)
      next
        case True
        have loop: "returns (promote_loop (cmt_idx ?x) row cs [0..<EPP] (0, c)) (\<lambda>(_, c'). same_side k c c')"
          using ok(1) idx [OF Some] by (intro promote_loop_same_side) (auto simp: same_side_def)
        have eq: "dftl_cache_promote_hot vo c = do {
            (n, c1) \<leftarrow> promote_loop (cmt_idx ?x) row cs [0..<EPP] (0, c);
            let c2 = (if n > 0 then upd_stat (\<lambda>s. s\<lparr>
                  cold_promote_pages_period := cold_promote_pages_period s + 1,
                  cold_promote_page_heat_sum_period := cold_promote_page_heat_sum_period s + page_heat_sum ?x\<rparr>) c1
                  else c1);
            Some (1, upd_stat (\<lambda>s. s\<lparr>up_page_cnt := up_page_cnt s + 1\<rparr>) (upd_cmt v
              (\<lambda>x. cmt_update_hot_entry_flag (mem_table (member c)) (cmt_page_heat_clear x)) c2))
          }"
          using True rc ok(2) Some by (simp add: dftl_cache_promote_hot_def Let_def)
        show ?thesis
          unfolding eq
          by (rule returns_bindI [OF loop], clarify, simp only: prod.case Let_def returns_simps(1),
              rule fin, rule upd, assumption)
      qed
    qed
  qed
qed

end
