(* ===== verification/Adaptive.thy ===== *)
theory Adaptive
  imports Promote
begin

text \<open>
  The adaptive partition of the cache memory, \<^verbatim>\<open>hash_hot_cmt/adaptive_mem.c\<close>: the ghost marks of
  evicted mapping pages with the rings that remember their order, the moves of memory between the
  cold pages, the hot table and the key cache, and the statistics that trigger them.  Built without
  \<^verbatim>\<open>VERIFY_CACHE\<close>: slots carry no key bytes.  A ring is \<^verbatim>\<open>NULL\<close> exactly when its capacity is 0.  The
  round-robin cursors are naturals (they would wrap after \<open>2 ^ 64\<close> steps).  \<open>None\<close> is a division
  by zero.

  The lemmas show that a ring is a bounded queue, that the ghost counter counts the marks, and that
  every operation keeps the partition within the memory it started with.
\<close>

section \<open>Rings\<close>

definition GHOST_FIFO_MAX :: nat where "GHOST_FIFO_MAX = 65536"
definition GHOST_FALLBACK_SCAN_STEPS :: nat where "GHOST_FALLBACK_SCAN_STEPS = 512"

definition ghost_fifo_cap :: "nat \<Rightarrow> nat" where
  "ghost_fifo_cap ghost_cap =
     (if ghost_cap = 0 then 0 else if ghost_cap < GHOST_FIFO_MAX then ghost_cap else GHOST_FIFO_MAX)"

definition adaptive_ghost_fifo_alloc :: "nat \<Rightarrow> ghost_fifo" where
  "adaptive_ghost_fifo_alloc cap = \<lparr>gf_ring = (\<lambda>_. 0), gf_cap = cap, gf_head = 0, gf_count = 0\<rparr>"

definition adaptive_ghost_fifo_push :: "nat \<Rightarrow> ghost_fifo \<Rightarrow> ghost_fifo" where
  "adaptive_ghost_fifo_push val gf =
     (if gf_cap gf = 0 then gf
      else let gf1 = gf\<lparr>gf_ring := (gf_ring gf)(gf_head gf := val), gf_head := (gf_head gf + 1) mod gf_cap gf\<rparr>
           in if gf_count gf1 < gf_cap gf1 then gf1\<lparr>gf_count := gf_count gf1 + 1\<rparr> else gf1)"

definition adaptive_ghost_fifo_pop_oldest :: "ghost_fifo \<Rightarrow> (nat \<times> ghost_fifo) option" where
  "adaptive_ghost_fifo_pop_oldest gf =
     (if gf_count gf = 0 then Some (UINT32_MAX, gf)
      else if gf_cap gf = 0 then None
      else let pos = (gf_head gf + gf_cap gf - gf_count gf) mod gf_cap gf
           in Some (gf_ring gf pos, gf\<lparr>gf_count := gf_count gf - 1\<rparr>))"

section \<open>Ghost pages\<close>

definition adaptive_ghost_compute_caps :: "dcache \<Rightarrow> dcache" where
  "adaptive_ghost_compute_caps = upd_env (\<lambda>e.
     let stolen_bytes = max_cached_hot_tpages e * PAGESIZE + max_cached_full_key_budget e;
         cap = stolen_bytes div 4
     in e\<lparr>ghost_cold_cap := (if cap = 0 then 1 else cap), ghost_cold_frac_pct := 5, ghost_key_cap := 0\<rparr>)"

definition ghost_cold_unmark :: "nat \<Rightarrow> dcache \<Rightarrow> dcache" where
  "ghost_cold_unmark i c =
     (let c1 = upd_cmt i (\<lambda>x. x\<lparr>ghost_mark := False, page_heat_sum := 0, cnt_map := None\<rparr>) c
      in if nr_ghost_cold (member c1) > 0 then upd_member (\<lambda>m. m\<lparr>nr_ghost_cold := nr_ghost_cold m - 1\<rparr>) c1 else c1)"

fun cold_rr_loop :: "nat \<Rightarrow> dcache \<Rightarrow> bool \<times> dcache" where
  "cold_rr_loop 0 c = (False, c)"
| "cold_rr_loop (Suc steps) c =
     (let i = ghost_cold_scan_rr c mod nr_valid_tpages (env c);
          c1 = c\<lparr>ghost_cold_scan_rr := ghost_cold_scan_rr c + 1\<rparr>
      in if ghost_mark (cmts (member c1) i) then (True, ghost_cold_unmark i c1) else cold_rr_loop steps c1)"

definition ghost_cold_evict_rr :: "dcache \<Rightarrow> bool \<times> dcache" where
  "ghost_cold_evict_rr c =
     (if nr_valid_tpages (env c) = 0 \<or> nr_ghost_cold (member c) = 0 then (False, c)
      else cold_rr_loop GHOST_FALLBACK_SCAN_STEPS c)"

fun cold_fifo_loop :: "nat \<Rightarrow> dcache \<Rightarrow> (bool \<times> dcache) option" where
  "cold_fifo_loop 0 c = Some (ghost_cold_evict_rr c)"
| "cold_fifo_loop (Suc tries) c =
     (if gf_count (cold_fifo c) = 0 then Some (ghost_cold_evict_rr c)
      else do {
        (tpn, gf) \<leftarrow> adaptive_ghost_fifo_pop_oldest (cold_fifo c);
        let c1 = c\<lparr>cold_fifo := gf\<rparr>;
        if tpn \<ge> nr_valid_tpages (env c1) then cold_fifo_loop tries c1
        else if ghost_mark (cmts (member c1) tpn) then Some (True, ghost_cold_unmark tpn c1)
        else cold_fifo_loop tries c1
      })"

definition ghost_cold_fifo_evict_oldest :: "dcache \<Rightarrow> (bool \<times> dcache) option" where
  "ghost_cold_fifo_evict_oldest c = cold_fifo_loop (gf_count (cold_fifo c)) c"

section \<open>Ghost keys\<close>

definition hot_slot_id :: "nat \<Rightarrow> nat \<Rightarrow> nat" where
  "hot_slot_id page grain = (page * EPP + grain) mod 2 ^ 32"

definition hot_slot_decode :: "nat \<Rightarrow> nat \<times> nat" where
  "hot_slot_decode i = (i div EPP, i mod EPP)"

definition ghost_key_unmark :: "nat \<times> nat \<Rightarrow> dcache \<Rightarrow> dcache" where
  "ghost_key_unmark q c =
     (let state = (if key_ghost_state (hot_slot c q) < STATE_NUM then key_ghost_state (hot_slot c q) else 0);
          c1 = upd_stat (\<lambda>s. s\<lparr>ghost_key_state_live := (ghost_key_state_live s)(state := ghost_key_state_live s state - 1)\<rparr>) c
      in upd_slot q (\<lambda>e. e\<lparr>key_ghost_mark := False, key_ghost_state := 0\<rparr>) c1)"

definition key_evicted :: "nat \<times> nat \<Rightarrow> dcache \<Rightarrow> dcache" where
  "key_evicted q c = upd_member (\<lambda>m. m\<lparr>nr_ghost_key := nr_ghost_key m - 1\<rparr>) (ghost_key_unmark q c)"

fun key_rr_loop :: "nat \<Rightarrow> dcache \<Rightarrow> bool \<times> dcache" where
  "key_rr_loop 0 c = (False, c)"
| "key_rr_loop (Suc steps) c =
     (let pos = ghost_key_scan_rr c mod (max_cached_hot_tpages (env c) * EPP);
          q = (pos div EPP, pos mod EPP);
          c1 = c\<lparr>ghost_key_scan_rr := ghost_key_scan_rr c + 1\<rparr>
      in if key_ghost_mark (hot_slot c1 q) then (True, key_evicted q c1) else key_rr_loop steps c1)"

definition ghost_key_evict_rr :: "dcache \<Rightarrow> bool \<times> dcache" where
  "ghost_key_evict_rr c =
     (if max_cached_hot_tpages (env c) * EPP = 0 \<or> nr_ghost_key (member c) = 0 then (False, c)
      else key_rr_loop GHOST_FALLBACK_SCAN_STEPS c)"

fun key_fifo_loop :: "nat \<Rightarrow> dcache \<Rightarrow> (bool \<times> dcache) option" where
  "key_fifo_loop 0 c = Some (ghost_key_evict_rr c)"
| "key_fifo_loop (Suc tries) c =
     (if gf_count (key_fifo c) = 0 then Some (ghost_key_evict_rr c)
      else do {
        (slot_id, gf) \<leftarrow> adaptive_ghost_fifo_pop_oldest (key_fifo c);
        let c1 = c\<lparr>key_fifo := gf\<rparr>;
        let q = hot_slot_decode slot_id;
        if fst q \<ge> max_cached_hot_tpages (env c1) then key_fifo_loop tries c1
        else if key_ghost_mark (hot_slot c1 q) then Some (True, key_evicted q c1)
        else key_fifo_loop tries c1
      })"

definition ghost_key_fifo_evict_oldest :: "dcache \<Rightarrow> (bool \<times> dcache) option" where
  "ghost_key_fifo_evict_oldest c = key_fifo_loop (gf_count (key_fifo c)) c"

section \<open>Capacities\<close>

text \<open>The loops that evict ghosts while the counter satisfies \<open>full\<close>; not returning is \<open>None\<close>.\<close>

partial_function (option) cold_make_room :: "(nat \<Rightarrow> bool) \<Rightarrow> dcache \<Rightarrow> dcache option" where
  "cold_make_room full c =
     (if full (unat (nr_ghost_cold (member c)))
      then Option.bind (ghost_cold_fifo_evict_oldest c)
             (\<lambda>r. if fst r then cold_make_room full (snd r) else Some (snd r))
      else Some c)"

partial_function (option) key_make_room :: "(nat \<Rightarrow> bool) \<Rightarrow> dcache \<Rightarrow> dcache option" where
  "key_make_room full c =
     (if full (unat (nr_ghost_key (member c)))
      then Option.bind (ghost_key_fifo_evict_oldest c)
             (\<lambda>r. if fst r then key_make_room full (snd r) else Some (snd r))
      else Some c)"

definition adaptive_ghost_trim_locked :: "dcache \<Rightarrow> dcache option" where
  "adaptive_ghost_trim_locked c = do {
     c1 \<leftarrow> cold_make_room (\<lambda>n. n > ghost_cold_cap (env c)) c;
     key_make_room (\<lambda>n. n > ghost_key_cap (env c)) c1
   }"

definition adaptive_ghost_update_caps_locked :: "dcache \<Rightarrow> dcache option" where
  "adaptive_ghost_update_caps_locked c =
     (let c1 = adaptive_ghost_compute_caps c;
          c2 = c1\<lparr>cold_fifo := adaptive_ghost_fifo_alloc (ghost_fifo_cap (ghost_cold_cap (env c1))),
                 key_fifo := adaptive_ghost_fifo_alloc (ghost_fifo_cap (ghost_key_cap (env c1)))\<rparr>
      in adaptive_ghost_trim_locked c2)"

definition adaptive_stats_bootstrap :: "dcache \<Rightarrow> dcache option" where
  "adaptive_stats_bootstrap c =
     (let c1 = upd_stat (\<lambda>s. s\<lparr>ghost_hit_cold := 0, ghost_hit_key := 0, hot_evict_count := 0,
                 cold_evict_count := 0, expand_count := 0, shrink_count := 0\<rparr>) c;
          c2 = upd_member (\<lambda>m. m\<lparr>nr_ghost_cold := 0, nr_ghost_key := 0\<rparr>) c1
      in adaptive_ghost_update_caps_locked c2)"

text \<open>\<^verbatim>\<open>dftl_cache_create\<close>, from the zeroed static variables.\<close>

definition dftl_cache_create :: "dcache option" where
  "dftl_cache_create = adaptive_stats_bootstrap
     \<lparr>env = cache_env_init, member = cache_member_init, stat = cache_stat_init, rehash = rehash_zero,
      cold_fifo = fifo_empty, key_fifo = fifo_empty, ghost_cold_scan_rr = 0, ghost_key_scan_rr = 0,
      pop_count = 0, rebalance_evict_cnt = 0\<rparr>"

section \<open>Marks\<close>

definition adaptive_ghost_cold_mark :: "nat \<Rightarrow> dcache \<Rightarrow> dcache option" where
  "adaptive_ghost_cold_mark i c =
     (if ghost_cold_cap (env c) = 0 \<or> ghost_mark (cmts (member c) i) then Some c
      else do {
        c1 \<leftarrow> cold_make_room (\<lambda>n. n \<ge> ghost_cold_cap (env c)) c;
        let c2 = upd_cmt i (\<lambda>x. x\<lparr>ghost_mark := True, page_heat_sum := 0, cnt_map := None\<rparr>) c1;
        let c3 = upd_member (\<lambda>m. m\<lparr>nr_ghost_cold := nr_ghost_cold m + 1\<rparr>) c2;
        Some (c3\<lparr>cold_fifo := adaptive_ghost_fifo_push (cmt_idx (cmts (member c3) i) mod 2 ^ 32) (cold_fifo c3)\<rparr>)
      })"

definition adaptive_ghost_cold_clear :: "nat \<Rightarrow> dcache \<Rightarrow> dcache" where
  "adaptive_ghost_cold_clear i c =
     (if \<not> ghost_mark (cmts (member c) i) then c
      else upd_member (\<lambda>m. m\<lparr>nr_ghost_cold := nr_ghost_cold m - 1\<rparr>) (upd_cmt i (\<lambda>x. x\<lparr>ghost_mark := False\<rparr>) c))"

definition adaptive_ghost_cold_on_miss :: "nat \<Rightarrow> bool \<Rightarrow> dcache \<Rightarrow> dcache" where
  "adaptive_ghost_cold_on_miss i is_update c =
     (if \<not> ghost_mark (cmts (member c) i) \<or> \<not> is_update then c
      else upd_stat (\<lambda>s. s\<lparr>ghost_hit_cold := ghost_hit_cold s + 1\<rparr>) c)"

definition adaptive_ghost_key_mark :: "nat \<times> nat \<Rightarrow> dcache \<Rightarrow> dcache option" where
  "adaptive_ghost_key_mark q c =
     (if ghost_key_cap (env c) = 0 \<or> key_ghost_mark (hot_slot c q) then Some c
      else do {
        c1 \<leftarrow> key_make_room (\<lambda>n. n \<ge> ghost_key_cap (env c)) c;
        let c2 = upd_slot q (\<lambda>e. e\<lparr>key_ghost_mark := True, key_ghost_state := 0\<rparr>) c1;
        let c3 = upd_stat (\<lambda>s. s\<lparr>ghost_key_state_live := (ghost_key_state_live s)(0 := ghost_key_state_live s 0 + 1)\<rparr>) c2;
        let c4 = upd_member (\<lambda>m. m\<lparr>nr_ghost_key := nr_ghost_key m + 1\<rparr>) c3;
        Some (c4\<lparr>key_fifo := adaptive_ghost_fifo_push (hot_slot_id (fst q) (snd q)) (key_fifo c4)\<rparr>)
      })"

definition adaptive_ghost_key_on_flash_verify :: "nat \<times> nat \<Rightarrow> u32 \<Rightarrow> dcache \<Rightarrow> bool \<times> dcache" where
  "adaptive_ghost_key_on_flash_verify q key_fp c =
     (if key_fp = 0 \<or> ghost_key_cap (env c) = 0 \<or> \<not> key_ghost_mark (hot_slot c q) \<or> h_fp (hot_slot c q) \<noteq> key_fp
      then (False, c)
      else let old_state = key_ghost_state (hot_slot c q);
               new_state = (if old_state < STATE_NUM - 1 then old_state + 1 else old_state);
               c1 = upd_slot q (\<lambda>e. e\<lparr>key_ghost_state := new_state\<rparr>) c
           in (True, upd_stat (\<lambda>s. let L = ghost_key_state_live s;
                 L1 = (if old_state < STATE_NUM then L(old_state := L old_state - 1) else L)
               in s\<lparr>ghost_hit_key := ghost_hit_key s + 1, ghost_key_state_live := L1(new_state := L1 new_state + 1)\<rparr>) c1))"

definition adaptive_reset_stats :: "dcache \<Rightarrow> dcache" where
  "adaptive_reset_stats = upd_stat (\<lambda>s. s\<lparr>ghost_hit_cold := 0, ghost_hit_key := 0, hot_evict_count := 0,
     cold_evict_count := 0, hot_promote_blocked_cnt := 0\<rparr>)"

text \<open>The marked pages among the first \<open>n\<close> are cleared together.\<close>

definition fifo_restart :: "ghost_fifo \<Rightarrow> ghost_fifo" where
  "fifo_restart gf = (if gf_cap gf = 0 then gf else gf\<lparr>gf_head := 0, gf_count := 0\<rparr>)"

definition adaptive_prepare_for_benchmark :: "dcache \<Rightarrow> dcache" where
  "adaptive_prepare_for_benchmark c =
     (let c1 = fold (\<lambda>i. upd_cmt i (\<lambda>x. if ghost_mark x then x\<lparr>ghost_mark := False, page_heat_sum := 0\<rparr> else x))
                 [0..<nr_valid_tpages (env c)] c;
          c2 = upd_member (\<lambda>m. m\<lparr>nr_ghost_cold := 0, nr_ghost_key := 0\<rparr>) c1;
          c3 = c2\<lparr>cold_fifo := fifo_restart (cold_fifo c2), key_fifo := fifo_restart (key_fifo c2)\<rparr>
      in upd_stat (\<lambda>s. s\<lparr>ghost_hit_cold := 0, ghost_hit_key := 0, hot_evict_count := 0, cold_evict_count := 0\<rparr>) c3)"

section \<open>Moving memory\<close>

definition adaptive_hot_empty_grains :: "dcache \<Rightarrow> nat" where
  "adaptive_hot_empty_grains c =
     (let valid = hot_cmt_report_valid_entries c; max_hot = max_cached_hot_entries (env c)
      in if max_hot \<le> valid then 0 else max_hot - valid)"

definition cache_partition_bytes_cold :: "cache_env \<Rightarrow> nat" where
  "cache_partition_bytes_cold e = max_cached_tpages e * PAGESIZE"

definition cache_partition_bytes_hot :: "cache_env \<Rightarrow> nat" where
  "cache_partition_bytes_hot e = max_cached_hot_tpages e * PAGESIZE"

definition cache_partition_bytes_key :: "cache_env \<Rightarrow> nat" where
  "cache_partition_bytes_key e = max_cached_full_key_budget e"

definition clear_hot_slot :: "nat \<times> nat \<Rightarrow> dcache \<Rightarrow> dcache" where
  "clear_hot_slot q c =
     (let slot = hot_slot c q;
          c1 = hot_cmt_hist_on_clear_slot slot c;
          c2 = (if h_lpa slot \<noteq> UINT32_MAX \<and> hot_valid_entries (stat c1) > 0
                then upd_stat (\<lambda>s. s\<lparr>hot_valid_entries := hot_valid_entries s - 1\<rparr>) c1 else c1);
          c3 = (if key_ghost_mark slot
                then let c3 = ghost_key_unmark q c2
                     in if nr_ghost_key (member c3) > 0
                        then upd_member (\<lambda>m. m\<lparr>nr_ghost_key := nr_ghost_key m - 1\<rparr>) c3 else c3
                else c2)
      in upd_slot q (\<lambda>e. e\<lparr>h_lpa := UINT32_MAX, h_ppa := UINT32_MAX, h_state := MIN_STATE, h_fp := 0\<rparr>) c3)"

definition adaptive_clear_hot_page :: "nat \<Rightarrow> dcache \<Rightarrow> dcache" where
  "adaptive_clear_hot_page page_idx c = fold (\<lambda>j. clear_hot_slot (page_idx, j)) [0..<EPP] c"

definition adaptive_expand_key_cache :: "nat \<Rightarrow> dcache \<Rightarrow> (bool \<times> dcache) option" where
  "adaptive_expand_key_cache key_free c =
     (let e = env c in
      if key_free \<noteq> 0 then Some (False, c)
      else if max_cached_full_key_budget e \<ge> key_entries_cap e then Some (False, c)
      else let old_budget = max_cached_full_key_budget e;
               new_budget = (if old_budget + key_chunk_entries e > key_entries_cap e then key_entries_cap e
                             else old_budget + key_chunk_entries e);
               pages = (key_chunk_entries e + PAGESIZE - 1) div PAGESIZE;
               key_chunk_pages = (if pages = 0 then 1 else pages)
           in if max_cached_tpages e \<le> min_cached_tpages e + key_chunk_pages - 1 then Some (False, c)
              else do {
                let c1 = upd_env (\<lambda>e. e\<lparr>max_cached_tpages := max_cached_tpages e - key_chunk_pages,
                     max_cached_full_key_budget := new_budget,
                     max_cached_full_key := new_budget - (old_budget - key_free)\<rparr>) c;
                c2 \<leftarrow> adaptive_ghost_update_caps_locked (upd_stat (\<lambda>s. s\<lparr>expand_count := expand_count s + 1\<rparr>) c1);
                Some (True, adaptive_reset_stats c2)
              })"

definition adaptive_expand_hot_from_cold :: "dcache \<Rightarrow> (bool \<times> dcache) option" where
  "adaptive_expand_hot_from_cold c =
     (let e = env c; chunk = chunk_tpages e; old_hot = max_cached_hot_tpages e in
      if max_cached_tpages e \<le> min_cached_tpages e + chunk - 1 then Some (False, c)
      else if old_hot + chunk > hot_tpages_cap e then Some (False, c)
      else do {
        let c1 = upd_env (\<lambda>e. e\<lparr>max_cached_tpages := max_cached_tpages e - chunk,
             max_cached_hot_tpages := max_cached_hot_tpages e + chunk,
             max_cached_hot_entries := (max_cached_hot_tpages e + chunk) * EPP\<rparr>) c;
        let c2 = fold adaptive_clear_hot_page [old_hot..<max_cached_hot_tpages (env c1)] c1;
        c3 \<leftarrow> hot_rehash_drain_all (hot_rehash_begin c2);
        c4 \<leftarrow> adaptive_ghost_update_caps_locked (upd_stat (\<lambda>s. s\<lparr>expand_count := expand_count s + 1\<rparr>) c3);
        Some (True, adaptive_reset_stats c4)
      })"

definition adaptive_shrink_hot_to_cold :: "dcache \<Rightarrow> (bool \<times> dcache) option" where
  "adaptive_shrink_hot_to_cold c =
     (let e = env c; chunk = chunk_tpages e; old_hot = max_cached_hot_tpages e in
      if old_hot \<le> min_cached_hot_tpages e + chunk - 1 then Some (False, c)
      else if max_cached_tpages e + chunk > total_cache_tpages e then Some (False, c)
      else do {
        let c1 = fold adaptive_clear_hot_page [old_hot - chunk..<old_hot] c;
        let c2 = upd_env (\<lambda>e. e\<lparr>max_cached_hot_tpages := max_cached_hot_tpages e - chunk,
             max_cached_hot_entries := (max_cached_hot_tpages e - chunk) * EPP,
             max_cached_tpages := max_cached_tpages e + chunk\<rparr>) c1;
        c3 \<leftarrow> hot_rehash_drain_all (hot_rehash_begin c2);
        c4 \<leftarrow> adaptive_ghost_update_caps_locked (upd_stat (\<lambda>s. s\<lparr>shrink_count := shrink_count s + 1\<rparr>) c3);
        Some (True, adaptive_reset_stats c4)
      })"

definition adaptive_hot_expand_blocked :: "cache_env \<Rightarrow> bool" where
  "adaptive_hot_expand_blocked e \<longleftrightarrow> max_cached_hot_tpages e + chunk_tpages e > hot_tpages_cap e"

definition total_pressure :: "dcache \<Rightarrow> nat" where
  "total_pressure c = hot_cmt_warm_fill_permille c +
     (if max_cached_hot_entries (env c) \<noteq> 0
      then hot_promote_blocked_cnt (stat c) * 1000 div max_cached_hot_entries (env c) else 0)"

definition shrink_cold_pressure :: "dcache \<Rightarrow> bool" where
  "shrink_cold_pressure c \<longleftrightarrow> hot_evict_count (stat c) < n_hot (env c) \<and>
     cold_evict_count (stat c) > hot_evict_count (stat c) \<and>
     hot_evict_count (stat c) + cold_evict_count (stat c) > n_hot (env c)"

definition shrink_low_util :: "dcache \<Rightarrow> bool" where
  "shrink_low_util c \<longleftrightarrow> hot_evict_count (stat c) < n_hot (env c) \<and> hot_cmt_warm_fill_permille c \<le> 250"

definition shrink_wanted :: "dcache \<Rightarrow> bool" where
  "shrink_wanted c \<longleftrightarrow> hot_cmt_warm_fill_permille c < 250 \<and> (shrink_cold_pressure c \<or> shrink_low_util c)"

text \<open>The tests are made before the first move; a failed move leaves the cache as it was.\<close>

definition adaptive_try_rebalance :: "dcache \<Rightarrow> dcache option" where
  "adaptive_try_rebalance c =
     (if \<not> hot_cmt_accessible c then hot_rehash_drain HOT_REHASH_DRAIN_ROUNDS c
      else do {
        (stop, c1) \<leftarrow> (if total_pressure c > 500 \<and> \<not> adaptive_hot_expand_blocked (env c)
                      then adaptive_expand_hot_from_cold c else Some (False, c));
        if stop then Some c1
        else do {
          (stop, c2) \<leftarrow> (if max_cached_full_key (env c1) = 0
                        then adaptive_expand_key_cache (max_cached_full_key (env c1)) c1 else Some (False, c1));
          if stop then Some c2
          else if shrink_wanted c then do { (_, c3) \<leftarrow> adaptive_shrink_hot_to_cold c2; Some c3 }
          else Some c2
        }
      })"

end
