(* ===== verification/Sys.thy ===== *)
theory Sys
  imports Skiplist Algoq Htable Bm Adaptive
begin

text \<open>
  The state of the translation layer as a whole: the components' states, the requests and write
  buffer entries in flight, the queues and the counters of \<^verbatim>\<open>demand_env\<close> (\<^verbatim>\<open>demand.h\<close>), with the
  parts of \<^verbatim>\<open>request.c\<close> that mark an operation as in flight and the operations of
  \<^verbatim>\<open>dftl_cache.c\<close> that touch one mapping entry.  A pointer to a request or to a write buffer
  entry is its address; \<open>io\<close> says which of the two an operation works for.  Clock readings are an
  argument \<open>now\<close>.
\<close>

section \<open>State\<close>

text \<open>The request types of \<^verbatim>\<open>request.h\<close> that the code tests.\<close>

definition DATAR :: nat where "DATAR = 5"
definition DATAW :: nat where "DATAW = 6"
definition PREFILL_DATAR :: nat where "PREFILL_DATAR = 11"

datatype req_state_t = ALGO_REQ_PENDING | ALGO_REQ_NOT_FOUND

record request =
  r_type :: nat
  r_key :: str_key
  r_value :: "value_set option"
  r_h_params :: "hash_params option"
  r_state :: req_state_t
  r_stime :: nat
  r_etime :: nat
  r_params :: "jump_t option"

datatype io = Req addr | Wbe addr

record demand_env =
  num_page :: nat
  num_grain :: nat
  env_max_cache_entry :: nat
  num_block :: nat
  p_p_b :: nat
  num_tblock :: nat
  num_tpage :: nat
  num_dblock :: nat
  num_dpage :: nat
  num_dgrain :: nat
  nr_pages_optimal_caching :: nat
  num_max_cache :: nat
  real_max_cache :: nat
  max_write_buf :: nat
  max_try :: nat
  num_rd_wb_hit :: nat
  num_rd_data_rd :: nat
  num_rd_data_miss_rd :: nat
  num_data_gc :: nat
  num_gc_flash_read :: nat
  gc_cmt_total :: nat
  num_gc_mapping_hit :: nat
  num_gc_flash_write :: nat
  r_hash_collision_cnt :: "nat \<Rightarrow> nat"
  w_hash_collision_cnt :: "nat \<Rightarrow> nat"

record flush_node =
  fl_ppa :: ppa_t
  fl_length :: nat

record wb_stats =
  nr_rd_hit :: nat
  nr_rd_miss :: nat
  nr_wr_hit :: nat
  nr_wr_miss :: nat

record sys =
  bmgr :: bm
  dev :: ssd
  cache :: dcache
  t_active :: "nat option"
  t_reserve :: "nat option"
  d_active :: "nat option"
  denv :: demand_env
  real_keys :: "nat \<Rightarrow> str_key"
  reqs :: "addr \<rightharpoonup> request"
  wb :: skiplist
  wb_master_q :: "addr list"
  wb_retry_q :: "addr algo_q"
  req_retry_q :: "addr algo_q"
  finish_q :: "addr list"
  fl_stream :: "nat \<Rightarrow> flush_node list"
  hash_table :: d_htable
  wbstats :: wb_stats

definition upd_bm :: "(bm \<Rightarrow> bm) \<Rightarrow> sys \<Rightarrow> sys" where
  "upd_bm f s = s\<lparr>bmgr := f (bmgr s)\<rparr>"

definition upd_cache :: "(dcache \<Rightarrow> dcache) \<Rightarrow> sys \<Rightarrow> sys" where
  "upd_cache f s = s\<lparr>cache := f (cache s)\<rparr>"

definition upd_denv :: "(demand_env \<Rightarrow> demand_env) \<Rightarrow> sys \<Rightarrow> sys" where
  "upd_denv f s = s\<lparr>denv := f (denv s)\<rparr>"

text \<open>Running an operation of a component on the whole state.\<close>

definition on_bm :: "(bm \<Rightarrow> bm option) \<Rightarrow> sys \<Rightarrow> sys option" where
  "on_bm f s = map_option (\<lambda>b. s\<lparr>bmgr := b\<rparr>) (f (bmgr s))"

definition on_cache :: "(dcache \<Rightarrow> dcache option) \<Rightarrow> sys \<Rightarrow> sys option" where
  "on_cache f s = map_option (\<lambda>c. s\<lparr>cache := c\<rparr>) (f (cache s))"

definition the_cmt :: "sys \<Rightarrow> nat \<Rightarrow> cmt" where
  "the_cmt s i = cmts (member (cache s)) i"

definition upd_cmt_at :: "nat \<Rightarrow> (cmt \<Rightarrow> cmt) \<Rightarrow> sys \<Rightarrow> sys" where
  "upd_cmt_at i f = upd_cache (upd_cmt i f)"

section \<open>The device\<close>

text \<open>An error of the device is an unsigned \<^verbatim>\<open>-1\<close> or \<^verbatim>\<open>-2\<close> in place of the latency.\<close>

definition lat_code :: "ssd_error + nat \<Rightarrow> nat" where
  "lat_code r = (case r of Inr l \<Rightarrow> l | Inl Out_of_order \<Rightarrow> 2 ^ 64 - 2 | Inl _ \<Rightarrow> 2 ^ 64 - 1)"

definition li_read :: "nat \<Rightarrow> ppa_t \<Rightarrow> nat \<Rightarrow> sys \<Rightarrow> (nat \<times> sys) option" where
  "li_read now ppa sz s = do {
     (r, d) \<leftarrow> ssd_read_ppa now ppa sz 0 (dev s);
     Some (lat_code r, s\<lparr>dev := d\<rparr>)
   }"

definition li_write :: "nat \<Rightarrow> ppa_t \<Rightarrow> nat \<Rightarrow> sys \<Rightarrow> (nat \<times> sys) option" where
  "li_write now ppa sz s = do {
     (r, d) \<leftarrow> ssd_write_ppa now ppa sz 0 (dev s);
     Some (lat_code r, s\<lparr>dev := d\<rparr>)
   }"

definition lat_failed :: "nat \<Rightarrow> bool" where
  "lat_failed lat \<longleftrightarrow> lat = 2 ^ 64 - 1 \<or> lat = 2 ^ 64 - 2"

section \<open>Requests in flight\<close>

definition modify_req :: "addr \<Rightarrow> (request \<Rightarrow> request) \<Rightarrow> sys \<Rightarrow> sys option" where
  "modify_req r f s = do { q \<leftarrow> reqs s r; Some (s\<lparr>reqs := (reqs s)(r \<mapsto> f q)\<rparr>) }"

definition modify_wbe :: "addr \<Rightarrow> (snode \<Rightarrow> snode) \<Rightarrow> sys \<Rightarrow> sys option" where
  "modify_wbe e f s = do { m \<leftarrow> modify (Some e) f (sl_mem (wb s)); Some (s\<lparr>wb := (wb s)\<lparr>sl_mem := m\<rparr>\<rparr>) }"

text \<open>\<^verbatim>\<open>get_iparams(...)->jump = j\<close>: the record is allocated when there is none.\<close>

definition get_iparams :: "io \<Rightarrow> jump_t \<Rightarrow> sys \<Rightarrow> sys option" where
  "get_iparams i j = (case i of Req r \<Rightarrow> modify_req r (\<lambda>q. q\<lparr>r_params := Some j\<rparr>)
     | Wbe e \<Rightarrow> modify_wbe e (\<lambda>n. n\<lparr>sn_params := Some j\<rparr>))"

definition free_iparams :: "io \<Rightarrow> sys \<Rightarrow> sys option" where
  "free_iparams i = (case i of Req r \<Rightarrow> modify_req r (\<lambda>q. q\<lparr>r_params := None\<rparr>)
     | Wbe e \<Rightarrow> modify_wbe e (\<lambda>n. n\<lparr>sn_params := None\<rparr>))"

text \<open>\<^verbatim>\<open>etime = clock_get_ns() + lat\<close>, in 64 bits.\<close>

definition set_etime :: "io \<Rightarrow> nat \<Rightarrow> nat \<Rightarrow> sys \<Rightarrow> sys option" where
  "set_etime i now lat = (case i of Req r \<Rightarrow> modify_req r (\<lambda>q. q\<lparr>r_etime := (now + lat) mod 2 ^ 64\<rparr>)
     | Wbe e \<Rightarrow> modify_wbe e (\<lambda>n. n\<lparr>sn_etime := (now + lat) mod 2 ^ 64\<rparr>))"

definition req_etime :: "sys \<Rightarrow> addr \<Rightarrow> nat" where
  "req_etime s r = (case reqs s r of Some q \<Rightarrow> r_etime q | None \<Rightarrow> 0)"

definition wbe_etime :: "sys \<Rightarrow> addr \<Rightarrow> nat" where
  "wbe_etime s e = (case cells (sl_mem (wb s)) e of Some n \<Rightarrow> sn_etime n | None \<Rightarrow> 0)"

text \<open>The two retry queues, and the completion ring (as large as the number of requests).\<close>

definition retry_later :: "io \<Rightarrow> sys \<Rightarrow> sys option" where
  "retry_later i s = (case i of
     Req r \<Rightarrow> do { q \<leftarrow> algo_q_insert_sorted (req_etime s) (req_retry_q s) (Some r) None; Some (s\<lparr>req_retry_q := q\<rparr>) }
   | Wbe e \<Rightarrow> do { q \<leftarrow> algo_q_insert_sorted (wbe_etime s) (wb_retry_q s) None (Some e); Some (s\<lparr>wb_retry_q := q\<rparr>) })"

definition finish :: "addr \<Rightarrow> sys \<Rightarrow> sys" where
  "finish r s = s\<lparr>finish_q := finish_q s @ [r]\<rparr>"

section \<open>Single entries of the mapping cache\<close>

definition IS_INITIAL_PPA :: "ppa_t \<Rightarrow> bool" where
  "IS_INITIAL_PPA x \<longleftrightarrow> x = UINT32_MAX"

definition dftl_cache_load :: "nat \<Rightarrow> lpa_t \<Rightarrow> io \<Rightarrow> sys \<Rightarrow> (int \<times> sys) option" where
  "dftl_cache_load now lpa i s =
     (let cmt = the_cmt s (D_IDX lpa) in
      if IS_INITIAL_PPA (t_ppa cmt) then Some (0, s)
      else do {
        s1 \<leftarrow> get_iparams i GOTO_LIST s;
        let s2 = upd_cache (upd_stat (\<lambda>t. t\<lparr>cache_load := cache_load t + 1\<rparr>)) s1;
        (lat, s3) \<leftarrow> li_read now (t_ppa cmt) PAGESIZE s2;
        s4 \<leftarrow> set_etime i now lat s3;
        Some (1, upd_cmt_at (D_IDX lpa) (\<lambda>x. x\<lparr>is_flying := True\<rparr>) s4)
      })"

definition dftl_cache_wait_if_flying :: "lpa_t \<Rightarrow> io \<Rightarrow> sys \<Rightarrow> int \<times> sys" where
  "dftl_cache_wait_if_flying lpa i s =
     (if is_flying (the_cmt s (D_IDX lpa)) then
        (1, upd_cmt_at (D_IDX lpa) (\<lambda>x. x\<lparr>retry_q := retry_q x @ [case i of Req r \<Rightarrow> r | Wbe e \<Rightarrow> e]\<rparr>)
           (upd_cache (upd_stat (\<lambda>t. t\<lparr>blocked_miss := blocked_miss t + 1\<rparr>)) s))
      else (0, s))"

definition dftl_cache_touch :: "lpa_t \<Rightarrow> sys \<Rightarrow> sys option" where
  "dftl_cache_touch lpa s =
     (let cmt = the_cmt s (D_IDX lpa) in
      if \<not> cmt_is_resident cmt \<or> lru_ptr cmt = None then Some s
      else do {
        l \<leftarrow> lru_update (clru (member (cache s))) (lru_ptr cmt);
        Some (upd_cache (upd_member (\<lambda>m. m\<lparr>clru := l\<rparr>)) s)
      })"

text \<open>\<^verbatim>\<open>pt\<close> is a row of \<^verbatim>\<open>mem_table\<close>, so both branches write that table.\<close>

definition set_pte :: "nat \<Rightarrow> nat \<Rightarrow> pte \<Rightarrow> cache_member \<Rightarrow> cache_member" where
  "set_pte d p v m = m\<lparr>mem_table := (mem_table m)(d := (mem_table m d)(p := v))\<rparr>"

definition dftl_cache_update :: "lpa_t \<Rightarrow> pte \<Rightarrow> sys \<Rightarrow> sys option" where
  "dftl_cache_update lpa v s =
     (let d = D_IDX lpa; cmt = the_cmt s d in
      case cmt_pt cmt of
        Some row \<Rightarrow> do {
          let s1 = upd_cache (upd_member (set_pte row (P_IDX lpa) v)) s;
          s2 \<leftarrow> (if \<not> IS_INITIAL_PPA (t_ppa cmt) \<and> \<not> cmt_dirty cmt
                 then map_option (upd_cmt_at d (\<lambda>x. x\<lparr>t_ppa := UINT32_MAX\<rparr>))
                        (on_bm (dftl_invalidate_page (t_ppa cmt)) s1)
                 else Some s1);
          let s3 = upd_cmt_at d (\<lambda>x. x\<lparr>cmt_dirty := True\<rparr>) s2;
          l \<leftarrow> lru_update (clru (member (cache s3))) (lru_ptr cmt);
          Some (upd_cache (upd_member (\<lambda>m. m\<lparr>clru := l\<rparr>)) s3)
        }
      | None \<Rightarrow> Some (upd_cache (upd_member (set_pte d (P_IDX lpa) v)) s))"

definition dftl_cache_get_pte :: "lpa_t \<Rightarrow> sys \<Rightarrow> pte" where
  "dftl_cache_get_pte lpa s =
     (case cmt_pt (the_cmt s (D_IDX lpa)) of
        Some row \<Rightarrow> mem_table (member (cache s)) row (P_IDX lpa)
      | None \<Rightarrow> mem_table (member (cache s)) (D_IDX lpa) (P_IDX lpa))"

definition dftl_cache_is_hit :: "lpa_t \<Rightarrow> sys \<Rightarrow> bool \<times> sys" where
  "dftl_cache_is_hit lpa s =
     (if cmt_is_resident (the_cmt s (D_IDX lpa))
      then (True, upd_cache (dftl_cache_cold_grain_access lpa) s) else (False, s))"

definition dftl_cache_is_full :: "sys \<Rightarrow> bool" where
  "dftl_cache_is_full s \<longleftrightarrow> nr_cached_tpages (member (cache s)) \<ge> int (max_cached_tpages (env (cache s)))"

end
