(* ===== verification/Gc.thy ===== *)
theory Gc
  imports Sys
begin

text \<open>
  Page allocation and garbage collection, \<^verbatim>\<open>hash_hot_cmt/dftl_pg.c\<close> with \<^verbatim>\<open>DATA_SEGREGATION\<close>:
  the allocators of data and translation pages, the collection of a translation superblock, the
  collection of a data superblock with its update of the mapping, and the page reads of the
  request paths.  The in-flight counter of the collector and its log lines are not modelled.
\<close>

section \<open>Translation pages\<close>

definition dftl_page_init :: "sys \<Rightarrow> sys option" where
  "dftl_page_init s = do {
     (k, b) \<leftarrow> dftl_get_active_sblk MAP_S True (bmgr s);
     Some (s\<lparr>bmgr := b, d_active := None, t_reserve := k, t_active := None\<rparr>)
   }"

text \<open>
  \<^verbatim>\<open>_do_bulk_read_valid_tpages\<close>: the table collects the logical indices.  The latency is stored
  in an \<^verbatim>\<open>int\<close> and compared with \<^verbatim>\<open>-1\<close>.
\<close>

definition read_tpage :: "nat \<Rightarrow> nat \<Rightarrow> nat \<Rightarrow> (lpa_t list \<times> sys) option \<Rightarrow> (lpa_t list \<times> sys) option" where
  "read_tpage now target offt r = do {
     (tab, s) \<leftarrow> r;
     let ppa = SBLK_OFFT2PPA target offt;
     v \<leftarrow> dftl_isvalid_page (bmgr s) ppa;
     if \<not> v then Some (tab, s)
     else do {
       (lat, s1) \<leftarrow> li_read now ppa PAGESIZE s;
       if lat mod 2 ^ 32 = 2 ^ 32 - 1 then None
       else do {
         s2 \<leftarrow> on_bm (dftl_invalidate_page ppa) s1;
         ob \<leftarrow> dftl_bm_get_oob (bmgr s2) (ppa * GRAIN_PER_PAGE);
         Some (tab @ [oob_lpa ob], s2)
       }
     }
   }"

definition bulk_read_valid_tpages :: "nat \<Rightarrow> nat \<Rightarrow> sys \<Rightarrow> (lpa_t list \<times> sys) option" where
  "bulk_read_valid_tpages now target s = fold (read_tpage now target) [0..<SBLK_END] (Some ([], s))"

definition tpage_oob :: "nat \<Rightarrow> bm_oob" where
  "tpage_oob i = \<lparr>is_tpage = True, oob_lpa = i, oob_length = PAGESIZE\<rparr>"

text \<open>\<^verbatim>\<open>_do_bulk_write_valid_tpages\<close>; the first component is \<^verbatim>\<open>sppa\<close>, unset at first.\<close>

definition write_tpage :: "lpa_t \<Rightarrow> (ppa_t option \<times> sys) option \<Rightarrow> (ppa_t option \<times> sys) option" where
  "write_tpage i r = do {
     (sppa, s) \<leftarrow> r;
     k \<leftarrow> t_reserve s;
     let (new_ppa, b) = dftl_get_page_num k (bmgr s);
     b1 \<leftarrow> dftl_validate_page new_ppa b;
     b2 \<leftarrow> dftl_bm_set_oob (new_ppa * GRAIN_PER_PAGE) (tpage_oob i) b1;
     if i \<ge> nr_valid_tpages (env (cache s)) then None
     else Some (case sppa of None \<Rightarrow> Some new_ppa | Some p \<Rightarrow> Some p,
                upd_cmt_at i (\<lambda>x. x\<lparr>t_ppa := new_ppa\<rparr>) (s\<lparr>bmgr := b2\<rparr>))
   }"

definition bulk_write_valid_tpages :: "nat \<Rightarrow> lpa_t list \<Rightarrow> sys \<Rightarrow> sys option" where
  "bulk_write_valid_tpages now tab s =
     (if tab = [] then Some s
      else do {
        (sppa, s1) \<leftarrow> fold write_tpage tab (Some (None, s));
        p \<leftarrow> sppa;
        (lat, s2) \<leftarrow> li_write now p (length tab * PAGESIZE) s1;
        Some s2
      })"

definition trim_on_sys :: "nat \<Rightarrow> nat \<Rightarrow> sys \<Rightarrow> sys option" where
  "trim_on_sys now k s = do {
     (b, d) \<leftarrow> dftl_trim_segment now k (bmgr s, dev s);
     Some (s\<lparr>bmgr := b, dev := d\<rparr>)
   }"

definition tpage_gc :: "nat \<Rightarrow> sys \<Rightarrow> (nat \<times> sys) option" where
  "tpage_gc now s = do {
     target \<leftarrow> dftl_get_gc_target MAP_S (- 1) (bmgr s);
     (tab, s1) \<leftarrow> bulk_read_valid_tpages now target s;
     s2 \<leftarrow> bulk_write_valid_tpages now tab s1;
     s3 \<leftarrow> trim_on_sys now target s2;
     let s4 = upd_bm (upd_sblk target (\<lambda>x. x\<lparr>gc_cnt := gc_cnt x + 1\<rparr>)) s3;
     (k, b) \<leftarrow> dftl_change_reserve MAP_S (Some target) (bmgr s4);
     Some (length tab, s4\<lparr>bmgr := b, t_active := t_reserve s4, t_reserve := Some k\<rparr>)
   }"

definition tp_alloc :: "nat \<Rightarrow> sys \<Rightarrow> (ppa_t \<times> sys) option" where
  "tp_alloc now s = do {
     s1 \<leftarrow> (if (case t_active s of None \<Rightarrow> True | Some k \<Rightarrow> dftl_check_full (bmgr s) k) then
              (if dftl_isgc_needed (bmgr s) MAP_S then map_option snd (tpage_gc now s)
               else do {
                 (k, b) \<leftarrow> dftl_get_active_sblk MAP_S False (bmgr s);
                 Some (s\<lparr>bmgr := b, t_active := k\<rparr>)
               })
            else Some s);
     k \<leftarrow> t_active s1;
     let (ppa, b) = dftl_get_page_num k (bmgr s1);
     Some (ppa, s1\<lparr>bmgr := b\<rparr>)
   }"

section \<open>Collecting the valid items of a data superblock\<close>

fun any_valid :: "bm \<Rightarrow> nat list \<Rightarrow> bool option" where
  "any_valid b [] = Some False"
| "any_valid b (g # gs) = do { v \<leftarrow> dftl_isvalid_grain b g; if v then Some True else any_valid b gs }"

definition contains_valid_grain :: "bm \<Rightarrow> ppa_t \<Rightarrow> bool option" where
  "contains_valid_grain b ppa = any_valid b (map (\<lambda>i. ppa * GRAIN_PER_PAGE + i) [0..<GRAIN_PER_PAGE])"

definition read_dpage :: "nat \<Rightarrow> nat \<Rightarrow> nat \<Rightarrow> (ppa_t list \<times> sys) option \<Rightarrow> (ppa_t list \<times> sys) option" where
  "read_dpage now target offt r = do {
     (tab, s) \<leftarrow> r;
     let ppa = SBLK_OFFT2PPA target offt;
     v \<leftarrow> contains_valid_grain (bmgr s) ppa;
     if \<not> v then Some (tab, s)
     else do {
       (lat, s1) \<leftarrow> li_read now ppa PAGESIZE s;
       Some (tab @ [ppa], s1)
     }
   }"

definition bulk_read_pages_containing_valid_grain :: "nat \<Rightarrow> nat \<Rightarrow> sys \<Rightarrow> (ppa_t list \<times> sys) option" where
  "bulk_read_pages_containing_valid_grain now target s = fold (read_dpage now target) [0..<SBLK_END] (Some ([], s))"

record gc_node =
  gn_lpa :: lpa_t
  gn_ppa :: ppa_t
  gn_len :: nat

definition invalidate_run :: "nat \<Rightarrow> nat \<Rightarrow> bm \<Rightarrow> bm option" where
  "invalidate_run pga len b = fold (\<lambda>g r. Option.bind r (dftl_invalidate_grain g)) [pga..<pga + len] (Some b)"

text \<open>
  The grains of a page from grain \<open>j\<close> on: a valid one starts an item of the length in its
  out-of-band record, which is skipped as a whole.  Length 0 aborts; a length above 4 leaves the
  bucket array.
\<close>

function collect_grains :: "ppa_t \<Rightarrow> nat \<Rightarrow> gc_node list \<Rightarrow> bm \<Rightarrow> (gc_node list \<times> bm) option" where
  "collect_grains ppa j nodes b =
     (if j \<ge> GRAIN_PER_PAGE then Some (nodes, b)
      else
        (let pga = ppa * GRAIN_PER_PAGE + j in
         case (dftl_isvalid_grain b pga, dftl_bm_get_oob b pga) of
           (Some False, _) \<Rightarrow> collect_grains ppa (j + 1) nodes b
         | (Some True, Some ob) \<Rightarrow>
             if oob_length ob = 0 \<or> oob_length ob > GRAIN_PER_PAGE then None
             else
               (case invalidate_run pga (oob_length ob) b of
                  None \<Rightarrow> None
                | Some b' \<Rightarrow>
                    collect_grains ppa (j + oob_length ob)
                      (nodes @ [\<lparr>gn_lpa = oob_lpa ob, gn_ppa = 0, gn_len = oob_length ob\<rparr>]) b')
         | _ \<Rightarrow> None))"
  by pat_completeness auto
termination
  by (relation "measure (\<lambda>(ppa, j, nodes, b). GRAIN_PER_PAGE - j)") auto

declare collect_grains.simps [simp del]

definition collect_page :: "ppa_t \<Rightarrow> (gc_node list \<times> bm) option \<Rightarrow> (gc_node list \<times> bm) option" where
  "collect_page ppa r = do {
     (nodes, b) \<leftarrow> r;
     (nodes', b') \<leftarrow> collect_grains ppa 0 nodes b;
     v \<leftarrow> contains_valid_grain b' ppa;
     if v then None else Some (nodes', b')
   }"

section \<open>Rewriting the items\<close>

definition PPA_TO_PGA :: "ppa_t \<Rightarrow> nat \<Rightarrow> nat" where
  "PPA_TO_PGA ppa offset = (ppa * GRAIN_PER_PAGE + offset) mod 2 ^ 32"

definition gc_dp_alloc :: "nat \<Rightarrow> sys \<Rightarrow> (ppa_t \<times> sys) option" where
  "gc_dp_alloc idx s = do {
     (k, b) \<leftarrow> dftl_get_stream_sblk idx (bmgr s);
     let (ppa, b1) = dftl_get_page_num k b;
     Some (ppa, s\<lparr>bmgr := b1\<rparr>)
   }"

text \<open>A stream takes a new page: four grains are free in it.\<close>

definition stream_take_page :: "nat \<Rightarrow> ppa_t \<Rightarrow> sys \<Rightarrow> sys option" where
  "stream_take_page idx ppa s = do {
     k \<leftarrow> st_active (stream (bmgr s) idx);
     Some (upd_bm (upd_stream idx (\<lambda>t. t\<lparr>active_sblk_offset := wp_offt (sblk (bmgr s) k),
             active_ppa := ppa, grain_remain := of_nat GRAIN_PER_PAGE\<rparr>)) s)
   }"

text \<open>The locals of the rewriting loop; \<open>None\<close> is the initial \<^verbatim>\<open>-2\<close> of \<^verbatim>\<open>sppa\<close> and \<^verbatim>\<open>last_ppa\<close>.\<close>

record gc_seg =
  seg_ppa :: ppa_t
  seg_sppa :: "ppa_t option"
  seg_last :: "ppa_t option"
  seg_copied :: nat

definition flush_segment :: "nat \<Rightarrow> ppa_t \<Rightarrow> ppa_t \<Rightarrow> sys \<Rightarrow> sys option" where
  "flush_segment now sppa last_ppa s = do {
     (lat, s1) \<leftarrow> li_write now sppa ((last_ppa - sppa + 1) * PAGESIZE) s;
     if lat_failed lat then None else Some s1
   }"

definition gc_open_page :: "nat \<Rightarrow> nat \<Rightarrow> gc_seg \<Rightarrow> sys \<Rightarrow> (gc_seg \<times> sys) option" where
  "gc_open_page now idx w s = do {
     (ppa, s1) \<leftarrow> gc_dp_alloc idx s;
     s2 \<leftarrow> stream_take_page idx ppa s1;
     (sp, s3) \<leftarrow> (case (seg_sppa w, seg_last w) of
        (Some p, Some l) \<Rightarrow>
          if ppa \<noteq> l + 1 then map_option (Pair (Some ppa)) (flush_segment now p l s2)
          else Some (Some p, s2)
      | _ \<Rightarrow> Some (Some ppa, s2));
     Some (w\<lparr>seg_ppa := ppa, seg_sppa := sp, seg_last := Some ppa, seg_copied := seg_copied w + 1\<rparr>, s3)
   }"

definition data_oob :: "lpa_t \<Rightarrow> nat \<Rightarrow> bm_oob" where
  "data_oob lpa len = \<lparr>is_tpage = False, oob_lpa = lpa, oob_length = len\<rparr>"

text \<open>One item is rewritten as a single grain, whatever its length was.\<close>

definition gc_write_item :: "nat \<Rightarrow> nat \<Rightarrow> gc_node \<Rightarrow> (gc_seg \<times> gc_node list \<times> sys) option \<Rightarrow> (gc_seg \<times> gc_node list \<times> sys) option" where
  "gc_write_item now idx node r = do {
     (w, nodes, s) \<leftarrow> r;
     (w1, s1) \<leftarrow> (if grain_remain (stream (bmgr s) idx) = 0 then gc_open_page now idx w s else Some (w, s));
     let remain = grain_remain (stream (bmgr s1) idx);
     let s2 = upd_bm (upd_stream idx (\<lambda>t. t\<lparr>grain_remain := grain_remain t - 1\<rparr>)) s1;
     let pga = PPA_TO_PGA (seg_ppa w1) (unat (of_nat GRAIN_PER_PAGE - remain));
     s3 \<leftarrow> on_bm (dftl_validate_grain pga) s2;
     s4 \<leftarrow> on_bm (dftl_bm_set_oob pga (data_oob (gn_lpa node) 1)) s3;
     Some (w1, nodes @ [node\<lparr>gn_ppa := pga\<rparr>], s4)
   }"

definition gc_stream_of :: "sblk \<Rightarrow> nat" where
  "gc_stream_of x = (if stream_idx x < 0 \<or> stream_idx x \<ge> int MAX_GC_STREAM then 0 else nat (stream_idx x))"

definition bulk_write_valid_items :: "nat \<Rightarrow> nat \<Rightarrow> ppa_t list \<Rightarrow> sys \<Rightarrow> (gc_node list \<times> sys) option" where
  "bulk_write_valid_items now target tab s =
     (if tab = [] then Some ([], s)
      else do {
        (nodes, b) \<leftarrow> fold collect_page tab (Some ([], bmgr s));
        let s1 = s\<lparr>bmgr := b\<rparr>;
        let idx = gc_stream_of (sblk b target);
        (w, nodes', s2) \<leftarrow> fold (gc_write_item now idx) nodes
           (Some (\<lparr>seg_ppa = 0, seg_sppa = None, seg_last = None, seg_copied = 0\<rparr>, [], s1));
        s3 \<leftarrow> (case (seg_sppa w, seg_last w) of
           (Some p, Some l) \<Rightarrow> flush_segment now p l s2
         | _ \<Rightarrow> Some s2);
        Some (nodes', upd_denv (\<lambda>e. e\<lparr>num_gc_flash_write := num_gc_flash_write e + 1\<rparr>) s3)
      })"

section \<open>Updating the mapping\<close>

text \<open>
  The first pass over the items, sorted by logical address (\<^verbatim>\<open>qsort\<close>; the order of items with
  equal addresses is not specified, here they keep theirs).  The flags say which items are done.
\<close>

definition map_first_pass :: "nat \<Rightarrow> gc_node \<Rightarrow> (bool list \<times> sys) option \<Rightarrow> (bool list \<times> sys) option" where
  "map_first_pass now node r = do {
     (skip, s) \<leftarrow> r;
     let lpa = gn_lpa node;
     if D_IDX lpa \<ge> nr_valid_tpages (env (cache s)) then None
     else
       (let (hit, s1) = dftl_cache_is_hit lpa s in
        if hit then do {
          let s2 = upd_denv (\<lambda>e. e\<lparr>num_gc_mapping_hit := num_gc_mapping_hit e + 1\<rparr>) s1;
          s3 \<leftarrow> dftl_cache_update lpa ((dftl_cache_get_pte lpa s2)\<lparr>pte_ppa := gn_ppa node\<rparr>) s2;
          Some (skip @ [True], s3)
        } else if t_ppa (the_cmt s1 (D_IDX lpa)) = UINT32_MAX then Some (skip @ [False], s1)
        else do {
          (lat, s2) \<leftarrow> li_read now (t_ppa (the_cmt s1 (D_IDX lpa))) PAGESIZE s1;
          let s3 = upd_denv (\<lambda>e. e\<lparr>num_gc_flash_read := num_gc_flash_read e + 1\<rparr>) s2;
          s4 \<leftarrow> on_bm (dftl_invalidate_page (t_ppa (the_cmt s3 (D_IDX lpa)))) s3;
          Some (skip @ [False], upd_cmt_at (D_IDX lpa) (\<lambda>x. x\<lparr>t_ppa := UINT32_MAX\<rparr>) s4)
        })
   }"

definition set_ppa :: "nat \<Rightarrow> gc_node \<Rightarrow> sys \<Rightarrow> sys" where
  "set_ppa d node = upd_cache (upd_member (\<lambda>m.
     set_pte d (P_IDX (gn_lpa node)) ((mem_table m d (P_IDX (gn_lpa node)))\<lparr>pte_ppa := gn_ppa node\<rparr>) m))"

text \<open>The second pass: each page of the mapping table that is not resident is written once.\<close>

function map_second_pass :: "nat \<Rightarrow> (gc_node \<times> bool) list \<Rightarrow> sys \<Rightarrow> sys option" where
  "map_second_pass now [] s = Some s"
| "map_second_pass now ((node, True) # rest) s = map_second_pass now rest s"
| "map_second_pass now ((node, False) # rest) s =
     (let d = D_IDX (gn_lpa node);
          d' = cmt_idx (the_cmt s d);
          same = takeWhile (\<lambda>(n, _). D_IDX (gn_lpa n) = d') rest;
          s1 = fold (\<lambda>(n, _). set_ppa d' n) same (set_ppa d' node s)
      in case tp_alloc now s1 of
           None \<Rightarrow> None
         | Some (p, s2) \<Rightarrow>
            (case on_bm (dftl_validate_page p) (upd_cmt_at d (\<lambda>x. x\<lparr>t_ppa := p\<rparr>) s2) of
               None \<Rightarrow> None
             | Some s3 \<Rightarrow>
                (case li_write now p PAGESIZE s3 of
                   None \<Rightarrow> None
                 | Some (lat, s4) \<Rightarrow>
                    (case on_bm (dftl_bm_set_oob (p * GRAIN_PER_PAGE) (tpage_oob d')) s4 of
                       None \<Rightarrow> None
                     | Some s5 \<Rightarrow>
                         map_second_pass now (dropWhile (\<lambda>(n, _). D_IDX (gn_lpa n) = d') rest)
                           (upd_cmt_at d (\<lambda>x. x\<lparr>cmt_dirty := False\<rparr>) s5)))))"
  by pat_completeness auto
termination
  by (relation "measure (\<lambda>(now, xs, s). length xs)") (auto simp: le_imp_less_Suc length_dropWhile_le)

definition bulk_mapping_update :: "nat \<Rightarrow> gc_node list \<Rightarrow> sys \<Rightarrow> sys option" where
  "bulk_mapping_update now nodes s =
     (if nodes = [] then Some s
      else do {
        let sorted_nodes = sort_key gn_lpa nodes;
        (skip, s1) \<leftarrow> fold (map_first_pass now) sorted_nodes (Some ([], s));
        let s2 = upd_denv (\<lambda>e. e\<lparr>gc_cmt_total := gc_cmt_total e +
                   length (remdups (map (D_IDX \<circ> gn_lpa) sorted_nodes))\<rparr>) s1;
        map_second_pass now (zip sorted_nodes skip) s2
      })"

section \<open>Collecting a data superblock\<close>

text \<open>What happens to the collected superblock: it refills the reserve, else becomes free.\<close>

definition release_sblk :: "nat \<Rightarrow> bm \<Rightarrow> bm" where
  "release_sblk k b =
     (let b1 = upd_sblk k (\<lambda>x. x\<lparr>gc_cnt := gc_cnt x + 1, is_owned := False, stream_idx := - 1\<rparr>) b
      in if unat (rsv_sblk_cnt (part b1 DATA_S)) < MAX_GC_STREAM
         then upd_part DATA_S (\<lambda>p. p\<lparr>rsv_sblk_cnt := rsv_sblk_cnt p + 1\<rparr>) (upd_sblk k (\<lambda>x. x\<lparr>is_rsv := True\<rparr>) b1)
         else upd_part DATA_S (\<lambda>p. p\<lparr>free_sblk_cnt := free_sblk_cnt p + 1\<rparr>) (upd_sblk k (\<lambda>x. x\<lparr>is_rsv := False\<rparr>) b1))"

definition dpage_gc_dvalue :: "nat \<Rightarrow> int \<Rightarrow> sys \<Rightarrow> (nat \<times> sys) option" where
  "dpage_gc_dvalue now strm s = do {
     let s0 = upd_denv (\<lambda>e. e\<lparr>num_data_gc := num_data_gc e + 1\<rparr>) s;
     target \<leftarrow> dftl_get_gc_target DATA_S strm (bmgr s0);
     if unat (valid_cnt (sblk (bmgr s0) target)) \<ge> wp_offt (sblk (bmgr s0) target) * GRAIN_PER_PAGE then None
     else do {
       (tab, s1) \<leftarrow> bulk_read_pages_containing_valid_grain now target s0;
       (nodes, s2) \<leftarrow> bulk_write_valid_items now target tab s1;
       s3 \<leftarrow> bulk_mapping_update now nodes s2;
       s4 \<leftarrow> trim_on_sys now target s3;
       Some (length tab, upd_bm (release_sblk target) s4)
     }
   }"

definition dp_alloc :: "nat \<Rightarrow> lpa_t \<Rightarrow> sys \<Rightarrow> (ppa_t \<times> sys) option" where
  "dp_alloc now lpa s =
     (let idx = D_IDX lpa mod MAX_GC_STREAM in do {
        act \<leftarrow> st_active (stream (bmgr s) idx);
        s1 \<leftarrow> (if dftl_check_full (bmgr s) act \<and> dftl_isgc_needed (bmgr s) DATA_S
               then map_option snd (dpage_gc_dvalue now (int idx) s) else Some s);
        (k, b) \<leftarrow> dftl_get_stream_sblk idx (bmgr s1);
        let (ppa, b1) = dftl_get_page_num k b;
        Some (ppa, s1\<lparr>bmgr := b1, d_active := Some k\<rparr>)
      })"

section \<open>Reads of the request paths\<close>

definition G_IDX :: "nat \<Rightarrow> ppa_t" where
  "G_IDX x = x div GRAIN_PER_PAGE"

text \<open>Pages of a stream that are allocated but not yet written are not read from the device.\<close>

definition in_flight_page :: "bm \<Rightarrow> ppa_t \<Rightarrow> bool" where
  "in_flight_page b p \<longleftrightarrow> list_ex (\<lambda>i. flush_ppa (stream b i) \<le> p \<and> p < flush_ppa (stream b i) + flush_page (stream b i))
     [0..<MAX_GC_STREAM]"

definition read_actual_dpage :: "nat \<Rightarrow> nat \<Rightarrow> addr \<Rightarrow> sys \<Rightarrow> (nat \<times> sys) option" where
  "read_actual_dpage now ppa r s =
     (if ppa = UINT32_MAX then Some (UINT32_MAX, s)
      else if in_flight_page (bmgr s) (G_IDX ppa) then Some (0, s)
      else do {
        (lat, s1) \<leftarrow> li_read now (G_IDX ppa) PAGESIZE s;
        s2 \<leftarrow> set_etime (Req r) now lat s1;
        Some (0, s2)
      })"

definition read_for_data_check :: "nat \<Rightarrow> nat \<Rightarrow> addr \<Rightarrow> sys \<Rightarrow> (nat \<times> sys) option" where
  "read_for_data_check now ppa e s =
     (if in_flight_page (bmgr s) (G_IDX ppa) then Some (0, s)
      else do {
        (lat, s1) \<leftarrow> li_read now (G_IDX ppa) PAGESIZE s;
        s2 \<leftarrow> set_etime (Wbe e) now lat s1;
        Some (0, s2)
      })"

end
