(* ===== verification/Listup.thy ===== *)
theory Listup
  imports Gc
begin

text \<open>
  \<^verbatim>\<open>dftl_cache_list_up\<close> of \<^verbatim>\<open>hash_hot_cmt/dftl_cache.c\<close>: making a mapping page resident.  When the
  cache is full a page is evicted from the tail of the LRU list, after a round of promotions
  every thousandth time; a dirty victim is written to flash; the victim becomes a ghost and the
  memory partition may be rebalanced.
\<close>

definition promote_candidate :: "nat \<Rightarrow> sys option \<Rightarrow> sys option" where
  "promote_candidate v r = do {
     s \<leftarrow> r;
     let x = the_cmt s v;
     if cmt_pt x \<noteq> None \<and> cnt_map x \<noteq> None \<and> \<not> cmt_is_ghost x
     then map_option (\<lambda>(rc, c). s\<lparr>cache := c\<rparr>) (dftl_cache_promote_hot (Some v) (cache s))
     else Some s
   }"

definition promote_round :: "sys \<Rightarrow> sys option" where
  "promote_round s =
     (if COLD_LRU_PROMOTE_INTERVAL \<noteq> 0 \<and> pop_count (cache s) mod COLD_LRU_PROMOTE_INTERVAL = 0 then do {
        cands \<leftarrow> lru_pick_promote_hot_pages (cmts (member (cache s))) (clru (member (cache s)))
                    (int COLD_LRU_PROMOTE_TOP_K);
        fold promote_candidate cands (Some s)
      } else Some s)"

text \<open>The eviction loop: the first argument is what is left until \<^verbatim>\<open>pop_guard\<close> aborts.\<close>

fun pop_victim :: "nat \<Rightarrow> sys \<Rightarrow> (nat \<times> sys) option" where
  "pop_victim 0 s = None"
| "pop_victim (Suc guard) s = do {
     s1 \<leftarrow> promote_round s;
     (d, l) \<leftarrow> lru_pop (clru (member (cache s1)));
     let s2 = upd_cache (upd_member (\<lambda>m. m\<lparr>clru := l\<rparr>)) s1;
     v \<leftarrow> d;
     let s3 = upd_cmt_at v (\<lambda>x. x\<lparr>lru_ptr := None\<rparr>) s2;
     if cmt_is_ghost (the_cmt s3 v) \<or> cmt_pt (the_cmt s3 v) = None then pop_victim guard s3
     else Some (v, s3)
   }"

definition evict_write :: "nat \<Rightarrow> nat \<Rightarrow> io \<Rightarrow> sys \<Rightarrow> sys option" where
  "evict_write now v i s = do {
     let s1 = upd_cache (upd_stat (\<lambda>t. t\<lparr>dirty_evict := dirty_evict t + 1\<rparr>)) s;
     s2 \<leftarrow> get_iparams i GOTO_COMPLETE s1;
     (p, s3) \<leftarrow> tp_alloc now s2;
     let s4 = upd_cmt_at v (\<lambda>x. x\<lparr>t_ppa := p\<rparr>) s3;
     s5 \<leftarrow> on_bm (dftl_validate_page p) s4;
     let s6 = upd_cmt_at v (\<lambda>x. x\<lparr>cmt_dirty := False\<rparr>) s5;
     (lat, s7) \<leftarrow> li_write now p PAGESIZE s6;
     s8 \<leftarrow> set_etime i now lat s7;
     on_bm (dftl_bm_set_oob (p * GRAIN_PER_PAGE) (tpage_oob (cmt_idx (the_cmt s8 v)))) s8
   }"

definition evict_rebalance :: "nat \<Rightarrow> dcache \<Rightarrow> dcache option" where
  "evict_rebalance v c = do {
     c1 \<leftarrow> adaptive_ghost_cold_mark v c;
     if \<not> hot_cmt_accessible c1 then hot_rehash_drain 16 c1
     else
       (let c2 = c1\<lparr>rebalance_evict_cnt := rebalance_evict_cnt c1 + 1\<rparr>
        in if unat (rebalance_evict_cnt c2) mod 64 = 0 then adaptive_try_rebalance c2 else Some c2)
   }"

definition evict_page :: "nat \<Rightarrow> io \<Rightarrow> sys \<Rightarrow> (int \<times> sys) option" where
  "evict_page now i s = do {
     let s1 = upd_cache (\<lambda>c. c\<lparr>pop_count := pop_count c + 1\<rparr>) s;
     (v, s2) \<leftarrow> pop_victim (max_cached_tpages (env (cache s1)) + 64) s1;
     let s3 = upd_cmt_at v cmt_cold_tail_evict_teardown s2;
     let s4 = upd_cache (upd_member (\<lambda>m. m\<lparr>nr_cached_tpages := nr_cached_tpages m - 1\<rparr>)) s3;
     let s5 = upd_cmt_at v (\<lambda>x. x\<lparr>cmt_pt := None\<rparr>) s4;
     (rc, s6) \<leftarrow> (if cmt_dirty (the_cmt s5 v) then map_option (Pair 1) (evict_write now v i s5)
                  else Some (0, upd_cache (upd_stat (\<lambda>t. t\<lparr>clean_evict := clean_evict t + 1\<rparr>)) s5));
     s7 \<leftarrow> on_cache (evict_rebalance v) s6;
     Some (rc, s7)
   }"

text \<open>The page's own part: it becomes resident and the most recent, with its counters at zero.\<close>

definition install_page :: "nat \<Rightarrow> sys \<Rightarrow> sys option" where
  "install_page d s = do {
     let s1 = upd_cache (adaptive_ghost_cold_clear d) s;
     let s2 = upd_cmt_at d (\<lambda>x. cmt_cold_resident_meta_init (x\<lparr>cmt_pt := Some d, cnt_map := Some (replicate EPP 0)\<rparr>)) s1;
     let l0 = clru (member (cache s2));
     s3 \<leftarrow> (if lru_ptr (the_cmt s2 d) \<noteq> None then do {
               l \<leftarrow> lru_update l0 (lru_ptr (the_cmt s2 d));
               Some (upd_cache (upd_member (\<lambda>m. m\<lparr>clru := l\<rparr>)) s2)
             } else do {
               (a, l) \<leftarrow> lru_push l0 (Some d);
               Some (upd_cmt_at d (\<lambda>x. x\<lparr>lru_ptr := Some a\<rparr>) (upd_cache (upd_member (\<lambda>m. m\<lparr>clru := l\<rparr>)) s2))
             });
     Some (upd_cache (upd_member (\<lambda>m. m\<lparr>nr_cached_tpages := nr_cached_tpages m + 1\<rparr>)) s3)
   }"

text \<open>
  The operations that waited for the page are resumed; a handle in the ring is taken for the kind
  of the operation that ends the flight.
\<close>

definition resume_one :: "io \<Rightarrow> addr \<Rightarrow> sys option \<Rightarrow> sys option" where
  "resume_one i a r = do {
     s \<leftarrow> r;
     let w = (case i of Req _ \<Rightarrow> Req a | Wbe _ \<Rightarrow> Wbe a);
     s1 \<leftarrow> get_iparams w GOTO_COMPLETE s;
     retry_later w s1
   }"

definition resume_waiting :: "nat \<Rightarrow> io \<Rightarrow> sys \<Rightarrow> sys option" where
  "resume_waiting d i s =
     (if is_flying (the_cmt s d) then
        (let waiting = Cmt.retry_q (the_cmt s d);
             s1 = upd_cmt_at d (\<lambda>x. x\<lparr>is_flying := False, Cmt.retry_q := []\<rparr>) s
         in fold (resume_one i) waiting (Some s1))
      else Some s)"

definition dftl_cache_list_up :: "nat \<Rightarrow> lpa_t \<Rightarrow> io \<Rightarrow> sys \<Rightarrow> (int \<times> sys) option" where
  "dftl_cache_list_up now lpa i s = do {
     (rc, s1) \<leftarrow> (if dftl_cache_is_full s then evict_page now i s else Some (0, s));
     s2 \<leftarrow> install_page (D_IDX lpa) s1;
     s3 \<leftarrow> resume_waiting (D_IDX lpa) i s2;
     Some (rc, s3)
   }"

section \<open>The count of cached pages\<close>

text \<open>
  An installation counts a page whether it was resident or not: when two operations miss on the same
  page before either has installed it, the second counts it again, while an eviction counts it off once.
\<close>

lemma install_page_count:
  assumes "install_page d s = Some s'"
  shows "nr_cached_tpages (member (cache s')) = nr_cached_tpages (member (cache s)) + 1"
proof -
  have clear: "nr_cached_tpages (member (adaptive_ghost_cold_clear d c)) = nr_cached_tpages (member c)" for c
    by (simp add: adaptive_ghost_cold_clear_def Let_def upd_cmt_def upd_member_def)
  show ?thesis
    using assms by (auto simp: install_page_def Let_def upd_cmt_at_def upd_cache_def upd_member_def upd_cmt_def clear bind_Some_iff
        split: if_splits)
qed

end
