(* ===== verification/Wb.thy ===== *)
theory Wb
  imports Listup
begin

text \<open>
  The write buffer, \<^verbatim>\<open>hash_hot_cmt/dftl_wb.c\<close> with \<^verbatim>\<open>DATA_SEGREGATION\<close>, \<^verbatim>\<open>STORE_KEY_FP\<close> and
  \<^verbatim>\<open>UPDATE_DATA_CHECK\<close>: entries are collected in the skip list; a full buffer is flushed in three
  steps, the placement of the values on pages, the update of the mapping (a state machine over
  the entries, which may wait for flash operations) and the writing of the pages.
\<close>

section \<open>Initialisation, lookup and insertion\<close>

definition dftl_wb_stats_init :: wb_stats where
  "dftl_wb_stats_init = \<lparr>nr_rd_hit = 0, nr_rd_miss = 0, nr_wr_hit = 0, nr_wr_miss = 0\<rparr>"

definition dftl_wb_init :: "u32 \<Rightarrow> sys \<Rightarrow> sys" where
  "dftl_wb_init garbage s = s\<lparr>wbstats := dftl_wb_stats_init, wb := skiplist_init garbage,
     fl_stream := (\<lambda>_. []), wb_master_q := [], wb_retry_q := algo_q_create,
     hash_table := d_htable_init (MAX_WRITE_BUF * 2)\<rparr>"

definition wb_is_full :: "sys \<Rightarrow> bool" where
  "wb_is_full s \<longleftrightarrow> sl_size (wb s) = MAX_WRITE_BUF"

text \<open>\<^verbatim>\<open>copy_value\<close>: a \<^verbatim>\<open>memcpy\<close> into the buffer of the request, which must be large enough.\<close>

definition copy_value :: "value_set \<Rightarrow> value_set \<Rightarrow> nat \<Rightarrow> value_set option" where
  "copy_value dst src n =
     (if n > length (vs_value src) \<or> n > length (vs_value dst) then None
      else Some (dst\<lparr>vs_value := take n (vs_value src) @ drop n (vs_value dst)\<rparr>))"

definition do_wb_check :: "addr \<Rightarrow> sys \<Rightarrow> (nat \<times> sys) option" where
  "do_wb_check r s = do {
     q \<leftarrow> reqs s r;
     e \<leftarrow> skiplist_find (wb s) (r_key q);
     case e of
       Some a \<Rightarrow> do {
         n \<leftarrow> cells (sl_mem (wb s)) a;
         src \<leftarrow> sn_value n;
         dst \<leftarrow> r_value q;
         dst' \<leftarrow> copy_value dst src (vs_length_in_bytes src);
         let s1 = s\<lparr>wbstats := (wbstats s)\<lparr>nr_rd_hit := nr_rd_hit (wbstats s) + 1\<rparr>\<rparr>;
         s2 \<leftarrow> modify_req r (\<lambda>q. q\<lparr>r_h_params := None,
                 r_value := Some (dst'\<lparr>vs_length_in_bytes := 0, vs_offset := 0\<rparr>)\<rparr>) s1;
         Some (1, s2)
       }
     | None \<Rightarrow> Some (0, s\<lparr>wbstats := (wbstats s)\<lparr>nr_rd_miss := nr_rd_miss (wbstats s) + 1\<rparr>\<rparr>)
   }"

definition do_wb_insert :: "(nat \<Rightarrow> int) \<Rightarrow> addr \<Rightarrow> sys \<Rightarrow> (nat \<times> sys) option" where
  "do_wb_insert draws r s = do {
     q \<leftarrow> reqs s r;
     (e, l) \<leftarrow> skiplist_insert draws (wb s) (r_key q) (r_value q) True;
     s1 \<leftarrow> modify_wbe e (\<lambda>n. n\<lparr>sn_hash_params := r_h_params q\<rparr>) (s\<lparr>wb := l\<rparr>);
     s2 \<leftarrow> modify_req r (\<lambda>q. q\<lparr>r_h_params := None, r_value := None\<rparr>) s1;
     Some (if wb_is_full s2 then 1 else 0, s2)
   }"

section \<open>Placement\<close>

text \<open>The grains an entry takes: value, one byte, four bytes and the key, rounded up.\<close>

definition entry_grains :: "nat \<Rightarrow> str_key \<Rightarrow> nat" where
  "entry_grains value_bytes key =
     (let n = value_bytes + 1 + 4 + length key
      in n div GRAINED_UNIT + (if n mod GRAINED_UNIT \<noteq> 0 then 1 else 0))"

text \<open>The flush list of a stream: segments of adjacent pages.\<close>

definition fl_add :: "ppa_t \<Rightarrow> flush_node list \<Rightarrow> flush_node list" where
  "fl_add ppa fl =
     (if fl = [] \<or> ppa \<noteq> fl_ppa (last fl) + fl_length (last fl) then fl @ [\<lparr>fl_ppa = ppa, fl_length = 1\<rparr>]
      else butlast fl @ [(last fl)\<lparr>fl_length := fl_length (last fl) + 1\<rparr>])"

definition wb_open_page :: "nat \<Rightarrow> lpa_t \<Rightarrow> nat \<Rightarrow> sys \<Rightarrow> (ppa_t \<times> sys) option" where
  "wb_open_page now lpa idx s = do {
     (ppa, s1) \<leftarrow> dp_alloc now lpa s;
     s2 \<leftarrow> stream_take_page idx ppa s1;
     let s3 = s2\<lparr>fl_stream := (fl_stream s2)(idx := fl_add ppa (fl_stream s2 idx))\<rparr>;
     Some (ppa, upd_bm (upd_stream idx (\<lambda>t. t\<lparr>flush_ppa := ppa, flush_page := 1\<rparr>)) s3)
   }"

definition validate_run :: "nat \<Rightarrow> nat \<Rightarrow> bm \<Rightarrow> bm option" where
  "validate_run pga len b = fold (\<lambda>g r. Option.bind r (dftl_validate_grain g)) [pga..<pga + len] (Some b)"

definition wb_assign_one :: "nat \<Rightarrow> addr \<Rightarrow> sys \<Rightarrow> sys option" where
  "wb_assign_one now e s = do {
     n \<leftarrow> cells (sl_mem (wb s)) e;
     v \<leftarrow> sn_value n;
     h \<leftarrow> sn_hash_params n;
     let val_len = entry_grains (vs_length_in_bytes v) (sn_key n);
     lpa \<leftarrow> get_lpa (env (cache s)) h;
     let idx = D_IDX lpa mod MAX_GC_STREAM;
     (ppa, s1) \<leftarrow> (if grain_remain (stream (bmgr s) idx) = 0 then wb_open_page now lpa idx s
        else Some (active_ppa (stream (bmgr s) idx),
               upd_bm (upd_stream idx (\<lambda>t. t\<lparr>flush_page := flush_page t + 1\<rparr>)) s));
     let pga = PPA_TO_PGA ppa (unat (of_nat GRAIN_PER_PAGE - grain_remain (stream (bmgr s1) idx)));
     let s2 = upd_bm (upd_stream idx (\<lambda>t. t\<lparr>grain_remain := grain_remain t - of_nat val_len\<rparr>)) s1;
     s3 \<leftarrow> modify_wbe e (\<lambda>n. n\<lparr>sn_ppa := pga, sn_value := None\<rparr>) s2;
     s4 \<leftarrow> on_bm (validate_run pga val_len) s3;
     on_bm (dftl_bm_set_oob pga (data_oob lpa val_len)) s4
   }"

fun wb_assign_loop :: "nat \<Rightarrow> nat \<Rightarrow> addr \<Rightarrow> sys \<Rightarrow> sys option" where
  "wb_assign_loop now 0 it s = Some s"
| "wb_assign_loop now (Suc n) it s = do {
     (e, it') \<leftarrow> skiplist_get_next (wb s) it;
     a \<leftarrow> e;
     s1 \<leftarrow> wb_assign_one now a s;
     wb_assign_loop now n it' s1
   }"

definition do_wb_assign_ppa :: "nat \<Rightarrow> sys \<Rightarrow> sys option" where
  "do_wb_assign_ppa now s = wb_assign_loop now MAX_WRITE_BUF (skiplist_get_iterator (wb s)) s"

section \<open>Mapping update\<close>

text \<open>
  The labels of the loop body, and its local variables: \<open>hot_hit\<close>, which an entry that resumes at
  a later label has not initialised (it then has whatever value is given for it), and \<open>hot_pte\<close>,
  which keeps its last value across entries.
\<close>

datatype wb_label = wb_retry | wb_cache_load | wb_cache_list_up | wb_data_check | wb_do_update | wb_direct_update

record wb_locals =
  hot_hit :: bool
  hot_pte :: "(nat \<times> nat) option"

definition h_of :: "addr \<Rightarrow> sys \<Rightarrow> hash_params option" where
  "h_of e s = Option.bind (cells (sl_mem (wb s)) e) sn_hash_params"

definition upd_h :: "addr \<Rightarrow> (hash_params \<Rightarrow> hash_params) \<Rightarrow> sys \<Rightarrow> sys option" where
  "upd_h e f = modify_wbe e (\<lambda>n. n\<lparr>sn_hash_params := map_option f (sn_hash_params n)\<rparr>)"

text \<open>The two lookups of the hot table at the start.\<close>

definition wb_hot_lookup :: "lpa_t \<Rightarrow> hash_params \<Rightarrow> wb_locals \<Rightarrow> sys \<Rightarrow> (wb_locals \<times> sys) option" where
  "wb_hot_lookup lpa h v s =
     (if hp_cnt h \<noteq> 0 then Some (v\<lparr>hot_hit := False\<rparr>, s)
      else do {
        (q1, c1) \<leftarrow> dftl_cache_hot_is_hit lpa (cache s);
        let (v1, c2) = (case q1 of
           None \<Rightarrow> (v\<lparr>hot_hit := False\<rparr>, c1)
         | Some q \<Rightarrow>
             if hp_key_fp h = h_fp (hot_slot c1 q)
             then (v\<lparr>hot_hit := True, hot_pte := Some q\<rparr>, dftl_cache_cold_grain_access lpa c1)
             else (v\<lparr>hot_hit := False, hot_pte := Some q\<rparr>,
                   if key_ghost_mark (hot_slot c1 q) then snd (adaptive_ghost_key_on_flash_verify q (hp_key_fp h) c1)
                   else c1));
        (q2, c3) \<leftarrow> dftl_cache_hot_is_hit lpa c2;
        Some (case q2 of
           None \<Rightarrow> (v1, s\<lparr>cache := c3\<rparr>)
         | Some q \<Rightarrow> (v1\<lparr>hot_pte := Some q\<rparr>, s\<lparr>cache :=
             (if hp_key_fp h \<noteq> h_fp (hot_slot c3 q)
              then upd_stat (\<lambda>t. t\<lparr>ghost_hit_key := ghost_hit_key t + 1\<rparr>) c3 else c3)\<rparr>))
      })"

definition count_hit :: "nat \<Rightarrow> cache_stat \<Rightarrow> cache_stat" where
  "count_hit cnt t = (if cnt > 0 then t\<lparr>cache_hit_by_collision := cache_hit_by_collision t + 1\<rparr>
     else t\<lparr>cache_hit := cache_hit t + 1\<rparr>)"

definition count_miss :: "nat \<Rightarrow> cache_stat \<Rightarrow> cache_stat" where
  "count_miss cnt t = (if cnt > 0 then t\<lparr>cache_miss_by_collision := cache_miss_by_collision t + 1\<rparr>
     else t\<lparr>cache_miss := cache_miss t + 1\<rparr>)"

definition jump_label :: "jump_t \<Rightarrow> wb_label option" where
  "jump_label j = (case j of GOTO_LOAD \<Rightarrow> Some wb_cache_load | GOTO_LIST \<Rightarrow> Some wb_cache_list_up
     | GOTO_COMPLETE \<Rightarrow> Some wb_data_check | GOTO_UPDATE \<Rightarrow> Some wb_do_update | _ \<Rightarrow> None)"

definition key_differs :: "addr \<Rightarrow> sys \<Rightarrow> sys option" where
  "key_differs e = upd_h e (\<lambda>h. h\<lparr>hp_find := HASH_KEY_DIFF, hp_cnt := hp_cnt h + 1\<rparr>)"

text \<open>
  What a label does with the entry, and where it jumps: to another label, to the end of the loop
  body with the mapping updated, or to the next round with the entry in the retry queue.
\<close>

datatype wb_jump = wb_goto wb_label | wb_updated | wb_waits

definition wb_at_retry :: "addr \<Rightarrow> snode \<Rightarrow> hash_params \<Rightarrow> lpa_t \<Rightarrow> wb_locals \<Rightarrow> sys \<Rightarrow>
    (wb_jump \<times> wb_locals \<times> sys) option" where
  "wb_at_retry e n h lpa v s =
     (if hp_cnt h > MAX_HASH_COLLISION then None
      else case sn_params n of
        Some j \<Rightarrow> do {
          s1 \<leftarrow> free_iparams (Wbe e) s;
          lb \<leftarrow> jump_label j;
          Some (wb_goto lb, v, s1)
        }
      | None \<Rightarrow> do {
          (v1, s1) \<leftarrow> wb_hot_lookup lpa h v s;
          let (hit, s2) = dftl_cache_is_hit lpa s1;
          if hit then do {
            s3 \<leftarrow> dftl_cache_touch lpa s2;
            Some (wb_goto wb_data_check, v1, upd_cache (upd_stat (count_hit (hp_cnt h))) s3)
          } else Some (wb_goto wb_cache_load, v1,
            upd_cache (adaptive_ghost_cold_on_miss (D_IDX lpa) True) (upd_cache (upd_stat (count_miss (hp_cnt h))) s2))
        })"

definition wb_at_load :: "nat \<Rightarrow> addr \<Rightarrow> lpa_t \<Rightarrow> wb_locals \<Rightarrow> sys \<Rightarrow> (wb_jump \<times> wb_locals \<times> sys) option" where
  "wb_at_load now e lpa v s = do {
     (rc, s1) \<leftarrow> dftl_cache_load now lpa (Wbe e) s;
     if rc \<noteq> 0 then do {
       s2 \<leftarrow> retry_later (Wbe e) s1;
       Some (wb_waits, v, s2)
     } else Some (wb_goto wb_cache_list_up, v, s1)
   }"

definition wb_at_list_up :: "nat \<Rightarrow> addr \<Rightarrow> lpa_t \<Rightarrow> wb_locals \<Rightarrow> sys \<Rightarrow> (wb_jump \<times> wb_locals \<times> sys) option" where
  "wb_at_list_up now e lpa v s = do {
     (rc, s1) \<leftarrow> dftl_cache_list_up now lpa (Wbe e) s;
     if rc \<noteq> 0 then do {
       s2 \<leftarrow> retry_later (Wbe e) s1;
       Some (wb_waits, v, s2)
     } else Some (wb_goto wb_data_check, v, s1)
   }"

text \<open>\<^verbatim>\<open>wb_data_check\<close>: the comparison with the entry the address holds, and the read that settles it.\<close>

definition wb_check_key :: "nat \<Rightarrow> addr \<Rightarrow> addr \<Rightarrow> snode \<Rightarrow> hash_params \<Rightarrow> lpa_t \<Rightarrow> pte \<Rightarrow> wb_locals \<Rightarrow> sys \<Rightarrow> sys option" where
  "wb_check_key now r e n h lpa pte v s = do {
     s1 \<leftarrow> (if hot_hit v then do {
              q \<leftarrow> hot_pte v;
              Some (upd_cache (\<lambda>c. snd (adaptive_ghost_key_on_flash_verify q (hp_key_fp h) c)) s)
            } else Some s);
     let s2 = upd_denv (\<lambda>d. d\<lparr>num_rd_data_rd := num_rd_data_rd d + 1\<rparr>) s1;
     (_, s3) \<leftarrow> read_for_data_check now (pte_ppa pte) e s2;
     s4 \<leftarrow> (if KEYCMP (sn_key n) (real_keys s3 lpa) = 0 then do {
              t1 \<leftarrow> upd_h e (\<lambda>h. h\<lparr>hp_find := HASH_KEY_SAME\<rparr>) s3;
              t2 \<leftarrow> get_iparams (Wbe e) GOTO_UPDATE t1;
              modify_req r (\<lambda>q. q\<lparr>r_etime := wbe_etime t2 e\<rparr>) t2
            } else do {
              t1 \<leftarrow> key_differs e s3;
              Some (upd_denv (\<lambda>d. d\<lparr>num_rd_data_miss_rd := num_rd_data_miss_rd d + 1\<rparr>) t1)
            });
     retry_later (Wbe e) s4
   }"

definition wb_at_check :: "nat \<Rightarrow> addr \<Rightarrow> addr \<Rightarrow> snode \<Rightarrow> hash_params \<Rightarrow> lpa_t \<Rightarrow> wb_locals \<Rightarrow> sys \<Rightarrow>
    (wb_jump \<times> wb_locals \<times> sys) option" where
  "wb_at_check now r e n h lpa v s =
     (let pte = dftl_cache_get_pte lpa s in
      if IS_INITIAL_PPA (pte_ppa pte) then Some (wb_goto wb_direct_update, v, s)
      else if hp_key_fp h \<noteq> pte_fp pte \<or> d_htable_find (hash_table s) (pte_ppa pte) lpa then do {
        s1 \<leftarrow> key_differs e s;
        Some (wb_goto wb_retry, v, s1)
      } else do {
        s1 \<leftarrow> wb_check_key now r e n h lpa pte v s;
        Some (wb_waits, v, s1)
      })"

definition wb_at_update :: "lpa_t \<Rightarrow> wb_locals \<Rightarrow> sys \<Rightarrow> (wb_jump \<times> wb_locals \<times> sys) option" where
  "wb_at_update lpa v s =
     (let pte = dftl_cache_get_pte lpa s in
      if IS_INITIAL_PPA (pte_ppa pte) then Some (wb_goto wb_direct_update, v, s)
      else do {
        ob \<leftarrow> dftl_bm_get_oob (bmgr s) (pte_ppa pte);
        s1 \<leftarrow> on_bm (invalidate_run (pte_ppa pte) (oob_length ob)) s;
        Some (wb_goto wb_direct_update, v, s1)
      })"

definition log_collision :: "nat \<Rightarrow> rw_t \<Rightarrow> demand_env \<Rightarrow> demand_env" where
  "log_collision cnt op d =
     (let (rc, rcnt, wcnt) = hash_collision_logging cnt op (r_hash_collision_cnt d, w_hash_collision_cnt d)
      in d\<lparr>max_try := (if cnt > max_try d then cnt else max_try d),
           r_hash_collision_cnt := rcnt, w_hash_collision_cnt := wcnt\<rparr>)"

definition wb_at_direct_update :: "snode \<Rightarrow> hash_params \<Rightarrow> lpa_t \<Rightarrow> wb_locals \<Rightarrow> sys \<Rightarrow>
    (wb_jump \<times> wb_locals \<times> sys) option" where
  "wb_at_direct_update n h lpa v s = do {
     s1 \<leftarrow> dftl_cache_update lpa \<lparr>pte_ppa = sn_ppa n, pte_fp = hp_key_fp h\<rparr> s;
     let s2 = s1\<lparr>real_keys := (real_keys s1)(lpa := sn_key n),
                 hash_table := d_htable_insert (sn_ppa n) lpa (hash_table s1)\<rparr>;
     let s3 = upd_denv (log_collision (hp_cnt h) WRITE) s2;
     ob \<leftarrow> dftl_bm_get_oob (bmgr s3) (sn_ppa n);
     s4 \<leftarrow> on_bm (dftl_bm_set_oob (sn_ppa n) (ob\<lparr>oob_lpa := lpa\<rparr>)) s3;
     Some (wb_updated, v, s4)
   }"

definition wb_step :: "nat \<Rightarrow> addr \<Rightarrow> addr \<Rightarrow> wb_label \<Rightarrow> wb_locals \<Rightarrow> sys \<Rightarrow> (wb_jump \<times> wb_locals \<times> sys) option" where
  "wb_step now r e label v s = do {
     n \<leftarrow> cells (sl_mem (wb s)) e;
     h \<leftarrow> sn_hash_params n;
     lpa \<leftarrow> get_lpa (env (cache s)) h;
     (case label of
        wb_retry \<Rightarrow> wb_at_retry e n h lpa v s
      | wb_cache_load \<Rightarrow> wb_at_load now e lpa v s
      | wb_cache_list_up \<Rightarrow> wb_at_list_up now e lpa v s
      | wb_data_check \<Rightarrow> wb_at_check now r e n h lpa v s
      | wb_do_update \<Rightarrow> wb_at_update lpa v s
      | wb_direct_update \<Rightarrow> wb_at_direct_update n h lpa v s)
   }"

text \<open>
  One entry from a label on: the result says whether its mapping is updated, or it waits.  After a
  jump back to \<open>wb_retry\<close> the collision counter is one higher, and above \<open>MAX_HASH_COLLISION\<close> the code aborts.
\<close>

partial_function (option) wb_entry_run :: "nat \<Rightarrow> addr \<Rightarrow> addr \<Rightarrow> wb_label \<Rightarrow> wb_locals \<Rightarrow> sys \<Rightarrow>
    (bool \<times> wb_locals \<times> sys) option" where
  "wb_entry_run now r e label v s =
     Option.bind (wb_step now r e label v s) (\<lambda>x.
       case fst x of
         wb_goto l \<Rightarrow> wb_entry_run now r e l (fst (snd x)) (snd (snd x))
       | wb_updated \<Rightarrow> Some (True, snd x)
       | wb_waits \<Rightarrow> Some (False, snd x))"

declare wb_entry_run.simps [code]

text \<open>
  The loop over the two queues: \<open>clk k\<close> is the clock at round \<open>k\<close>, \<open>junk k\<close> the value an
  uninitialised \<open>hot_hit\<close> has then.  A round without a ready entry does nothing.
\<close>

definition wb_next_entry :: "nat \<Rightarrow> addr \<Rightarrow> sys \<Rightarrow> (addr option \<times> sys) option" where
  "wb_next_entry now r s = do {
     due \<leftarrow> (case q_head (wb_retry_q s) of
        None \<Rightarrow> Some False
      | Some a \<Rightarrow> map_option (\<lambda>n. wbe_etime s (data n) \<le> now) (cells (q_mem (wb_retry_q s)) a));
     if due then do {
       (e, q) \<leftarrow> algo_q_dequeue (wb_retry_q s);
       Some (e, s\<lparr>wb_retry_q := q\<rparr>)
     } else case wb_master_q s of
         [] \<Rightarrow> Some (None, s)
       | e # es \<Rightarrow> do {
           q \<leftarrow> reqs s r;
           s1 \<leftarrow> modify_wbe e (\<lambda>n. n\<lparr>sn_etime := r_stime q\<rparr>) (s\<lparr>wb_master_q := es\<rparr>);
           Some (Some e, s1)
         }
   }"

partial_function (option) wb_update_loop :: "(nat \<Rightarrow> nat) \<Rightarrow> (nat \<Rightarrow> bool) \<Rightarrow> addr \<Rightarrow> nat \<Rightarrow> nat \<Rightarrow> wb_locals \<Rightarrow>
    sys \<Rightarrow> sys option" where
  "wb_update_loop clk junk r k updated v s =
     (if updated \<ge> MAX_WRITE_BUF then Some s
      else Option.bind (wb_next_entry (clk k) r s) (\<lambda>x.
        case fst x of
          None \<Rightarrow> wb_update_loop clk junk r (k + 1) updated v (snd x)
        | Some e \<Rightarrow>
            Option.bind (wb_entry_run (clk k) r e wb_retry (v\<lparr>hot_hit := junk k\<rparr>) (snd x)) (\<lambda>y.
              wb_update_loop clk junk r (k + 1) (if fst y then updated + 1 else updated) (fst (snd y)) (snd (snd y)))))"

declare wb_update_loop.simps [code]

fun wb_enqueue_all :: "nat \<Rightarrow> addr \<Rightarrow> sys \<Rightarrow> sys option" where
  "wb_enqueue_all 0 it s = Some s"
| "wb_enqueue_all (Suc n) it s = do {
     (e, it') \<leftarrow> skiplist_get_next (wb s) it;
     a \<leftarrow> e;
     wb_enqueue_all n it' (s\<lparr>wb_master_q := wb_master_q s @ [a]\<rparr>)
   }"

fun wb_release_params :: "nat \<Rightarrow> addr \<Rightarrow> sys \<Rightarrow> sys option" where
  "wb_release_params 0 it s = Some s"
| "wb_release_params (Suc n) it s = do {
     (e, it') \<leftarrow> skiplist_get_next (wb s) it;
     a \<leftarrow> e;
     s1 \<leftarrow> modify_wbe a (\<lambda>n. n\<lparr>sn_hash_params := None, sn_params := None\<rparr>) s;
     wb_release_params n it' s1
   }"

definition do_wb_mapping_update :: "(nat \<Rightarrow> nat) \<Rightarrow> (nat \<Rightarrow> bool) \<Rightarrow> addr \<Rightarrow> sys \<Rightarrow> sys option" where
  "do_wb_mapping_update clk junk r s = do {
     s1 \<leftarrow> wb_enqueue_all MAX_WRITE_BUF (skiplist_get_iterator (wb s)) s;
     s2 \<leftarrow> wb_update_loop clk junk r 0 0 \<lparr>hot_hit = False, hot_pte = None\<rparr> s1;
     if wb_master_q s2 \<noteq> [] \<or> q_head (wb_retry_q s2) \<noteq> None then None
     else wb_release_params MAX_WRITE_BUF (skiplist_get_iterator (wb s2)) s2
   }"

section \<open>Flushing\<close>

text \<open>A segment at page 0 is skipped; a failed write aborts.\<close>

definition flush_one :: "nat \<Rightarrow> flush_node \<Rightarrow> (nat \<times> sys) option \<Rightarrow> (nat \<times> sys) option" where
  "flush_one now f r = do {
     (maxlat, s) \<leftarrow> r;
     if fl_ppa f = 0 then Some (maxlat, s)
     else do {
       (lat, s1) \<leftarrow> li_write now (fl_ppa f) (fl_length f * PAGESIZE) s;
       if lat_failed lat then None else Some (if lat > maxlat then lat else maxlat, s1)
     }
   }"

definition flush_stream :: "nat \<Rightarrow> nat \<Rightarrow> (nat \<times> sys) option \<Rightarrow> (nat \<times> sys) option" where
  "flush_stream now i r = do {
     (maxlat, s) \<leftarrow> r;
     (maxlat', s1) \<leftarrow> fold (flush_one now) (fl_stream s i) (Some (maxlat, s));
     Some (maxlat', s1\<lparr>fl_stream := (fl_stream s1)(i := [])\<rparr>)
   }"

definition do_wb_flush :: "u32 \<Rightarrow> nat \<Rightarrow> addr \<Rightarrow> sys \<Rightarrow> sys option" where
  "do_wb_flush garbage now r s = do {
     (maxlat, s1) \<leftarrow> fold (flush_stream now) [0..<MAX_GC_STREAM] (Some (0, s));
     s2 \<leftarrow> set_etime (Req r) now maxlat s1;
     _ \<leftarrow> skiplist_clear (wb s2);
     Some (s2\<lparr>hash_table := d_htable_init (MAX_WRITE_BUF * 2), wb := skiplist_init garbage\<rparr>)
   }"

end
