(* ===== verification/Demand.thy ===== *)
theory Demand
  imports Wb
begin

text \<open>
  The entry points of the translation layer, \<^verbatim>\<open>hash_hot_cmt/demand.c\<close>: start-up, the write path
  and the read path, which is a state machine over labels like that of the write buffer.
\<close>

section \<open>Start-up\<close>

text \<open>The geometry constants of \<^verbatim>\<open>demand_create\<close>, in 32 bits, and the zeroed counters.\<close>

definition demand_env_init :: demand_env where
  "demand_env_init =
     (let page = NOP; grain = (page * GRAIN_PER_PAGE) mod 2 ^ 32;
          entries = grain div EPP + (if grain mod EPP \<noteq> 0 then 1 else 0);
          tb = entries div PPS + (if entries mod PPS \<noteq> 0 then 1 else 0);
          tblock = (if tb < 2 then 2 else tb);
          dblock = NOS - tblock - 2;
          optimal = (page * 4 mod 2 ^ 64) div PAGESIZE
      in \<lparr>num_page = page, num_grain = grain, env_max_cache_entry = entries, num_block = NOS, p_p_b = PPS,
          num_tblock = tblock, num_tpage = tblock * PPS, num_dblock = dblock, num_dpage = dblock * PPS,
          num_dgrain = dblock * PPS * GRAIN_PER_PAGE, nr_pages_optimal_caching = optimal,
          num_max_cache = optimal div 5, real_max_cache = optimal div 5, max_write_buf = MAX_WRITE_BUF,
          max_try = 0, num_rd_wb_hit = 0, num_rd_data_rd = 0, num_rd_data_miss_rd = 0, num_data_gc = 0,
          num_gc_flash_read = 0, gc_cmt_total = 0, num_gc_mapping_hit = 0, num_gc_flash_write = 0,
          r_hash_collision_cnt = (\<lambda>_. 0), w_hash_collision_cnt = (\<lambda>_. 0)\<rparr>)"

text \<open>
  \<^verbatim>\<open>demand_create\<close>: \<open>keys0\<close> is the content of the table of stored keys, which is allocated and not
  cleared, and \<open>garbage\<close> the uninitialised field of the new skip list.
\<close>

definition demand_create :: "u32 \<Rightarrow> (nat \<Rightarrow> str_key) \<Rightarrow> sys \<Rightarrow> sys option" where
  "demand_create garbage keys0 s = do {
     let s1 = dftl_wb_init garbage (s\<lparr>denv := demand_env_init\<rparr>);
     c \<leftarrow> dftl_cache_create;
     b \<leftarrow> dftl_bm_init;
     s2 \<leftarrow> dftl_page_init (s1\<lparr>cache := c, bmgr := b\<rparr>);
     Some (s2\<lparr>req_retry_q := algo_q_create, finish_q := [], real_keys := keys0\<rparr>)
   }"

section \<open>Writes\<close>

text \<open>\<open>garbage\<close> as above; \<open>clk\<close>, \<open>junk\<close> as in \<open>wb_update_loop\<close>; \<open>draws\<close> the levels drawn.\<close>

definition flush_buffer :: "u32 \<Rightarrow> (nat \<Rightarrow> nat) \<Rightarrow> (nat \<Rightarrow> bool) \<Rightarrow> addr \<Rightarrow> sys \<Rightarrow> sys option" where
  "flush_buffer garbage clk junk r s = do {
     s1 \<leftarrow> do_wb_assign_ppa (clk 0) s;
     s2 \<leftarrow> do_wb_mapping_update clk junk r s1;
     do_wb_flush garbage (clk 0) r s2
   }"

definition demand_set_inner :: "u32 \<Rightarrow> (nat \<Rightarrow> nat) \<Rightarrow> (nat \<Rightarrow> bool) \<Rightarrow> (nat \<Rightarrow> int) \<Rightarrow> addr \<Rightarrow> sys \<Rightarrow> (nat \<times> sys) option" where
  "demand_set_inner garbage clk junk draws r s = do {
     s1 \<leftarrow> (if wb_is_full s then flush_buffer garbage clk junk r s else Some s);
     (rc, s2) \<leftarrow> do_wb_insert draws r s1;
     Some (rc, finish r s2)
   }"

definition ensure_hash_params :: "addr \<Rightarrow> sys \<Rightarrow> sys option" where
  "ensure_hash_params r s = do {
     q \<leftarrow> reqs s r;
     (if r_h_params q = None
      then modify_req r (\<lambda>q. q\<lparr>r_h_params := Some (make_hash_params (r_key q))\<rparr>) s
      else Some s)
   }"

definition demand_set :: "u32 \<Rightarrow> (nat \<Rightarrow> nat) \<Rightarrow> (nat \<Rightarrow> bool) \<Rightarrow> (nat \<Rightarrow> int) \<Rightarrow> addr \<Rightarrow> sys \<Rightarrow> sys option" where
  "demand_set garbage clk junk draws r s = do {
     s1 \<leftarrow> ensure_hash_params r s;
     (rc, s2) \<leftarrow> demand_set_inner garbage clk junk draws r s1;
     Some s2
   }"

section \<open>Reads\<close>

text \<open>The labels of \<^verbatim>\<open>__demand_get\<close>, and the ways its parts end: a jump, or \<^verbatim>\<open>read_ret\<close> with \<open>rc\<close>.\<close>

datatype rd_label = read_retry | rd_cache_load | rd_cache_list_up | cache_check_complete | data_read

datatype rd_jump = rd_goto rd_label | rd_ret nat

definition upd_h_req :: "addr \<Rightarrow> (hash_params \<Rightarrow> hash_params) \<Rightarrow> sys \<Rightarrow> sys option" where
  "upd_h_req r f = modify_req r (\<lambda>q. q\<lparr>r_h_params := map_option f (r_h_params q)\<rparr>)"

definition rd_jump_label :: "jump_t \<Rightarrow> rd_label option" where
  "rd_jump_label j = (case j of GOTO_LOAD \<Rightarrow> Some rd_cache_load | GOTO_LIST \<Rightarrow> Some rd_cache_list_up
     | GOTO_EVICT \<Rightarrow> Some rd_cache_list_up | GOTO_COMPLETE \<Rightarrow> Some cache_check_complete
     | GOTO_READ \<Rightarrow> Some data_read | _ \<Rightarrow> None)"

text \<open>The lookup in the hot table: \<open>Some\<close> entry when the read goes straight to the data.\<close>

definition rd_hot_lookup :: "lpa_t \<Rightarrow> hash_params \<Rightarrow> sys \<Rightarrow> (pte option \<times> sys) option" where
  "rd_hot_lookup lpa h s =
     (if hp_cnt h \<noteq> 0 then Some (None, s)
      else do {
        (q1, c1) \<leftarrow> dftl_cache_hot_is_hit lpa (cache s);
        case q1 of
          None \<Rightarrow> Some (None, s\<lparr>cache := c1\<rparr>)
        | Some q \<Rightarrow>
            if hp_key_fp h = h_fp (hot_slot c1 q) then
              (let c2 = dftl_cache_cold_grain_access lpa (upd_stat (\<lambda>t. t\<lparr>hot_cmt_hit := hot_cmt_hit t + 1\<rparr>) c1)
               in Some (Some \<lparr>pte_ppa = h_ppa (hot_slot c2 q), pte_fp = h_fp (hot_slot c2 q)\<rparr>, s\<lparr>cache := c2\<rparr>))
            else do {
              let c2 = (if key_ghost_mark (hot_slot c1 q)
                        then snd (adaptive_ghost_key_on_flash_verify q (hp_key_fp h) c1) else c1);
              (q2, c3) \<leftarrow> dftl_cache_hot_is_hit lpa c2;
              Some (None, s\<lparr>cache :=
                (case q2 of
                   None \<Rightarrow> c3
                 | Some q' \<Rightarrow> if hp_key_fp h \<noteq> h_fp (hot_slot c3 q')
                     then upd_stat (\<lambda>t. t\<lparr>ghost_hit_key := ghost_hit_key t + 1\<rparr>) c3 else c3)\<rparr>)
            }
      })"

text \<open>The lookup in the cached mapping pages that follows.\<close>

definition rd_cold_lookup :: "request \<Rightarrow> lpa_t \<Rightarrow> hash_params \<Rightarrow> sys \<Rightarrow> (rd_label \<times> sys) option" where
  "rd_cold_lookup q lpa h s =
     (let (hit, s1) = dftl_cache_is_hit lpa s in
      if hit then do {
        s2 \<leftarrow> dftl_cache_touch lpa s1;
        Some (cache_check_complete, upd_cache (upd_stat (count_hit (hp_cnt h))) s2)
      } else Some (rd_cache_load,
        upd_cache (adaptive_ghost_cold_on_miss (D_IDX lpa) (r_type q = DATAW)) (upd_cache (upd_stat (count_miss (hp_cnt h))) s1)))"

definition rd_at_retry :: "addr \<Rightarrow> request \<Rightarrow> hash_params \<Rightarrow> lpa_t \<Rightarrow> sys \<Rightarrow> (rd_jump \<times> pte \<times> sys) option" where
  "rd_at_retry r q h lpa s =
     (let pte0 = \<lparr>pte_ppa = UINT32_MAX, pte_fp = - 1\<rparr> in
      if hp_cnt h > max_try (denv s) then Some (rd_ret UINT32_MAX, pte0, s)
      else case r_params q of
        Some j \<Rightarrow> do {
          s1 \<leftarrow> free_iparams (Req r) s;
          lb \<leftarrow> rd_jump_label j;
          Some (rd_goto lb, pte0, s1)
        }
      | None \<Rightarrow> do {
          (rc, s1) \<leftarrow> (if hp_cnt h = 0 \<and> r_type q \<noteq> PREFILL_DATAR then do_wb_check r s else Some (0, s));
          if rc \<noteq> 0
          then Some (rd_ret rc, pte0, finish r (upd_denv (\<lambda>d. d\<lparr>num_rd_wb_hit := num_rd_wb_hit d + 1\<rparr>) s1))
          else do {
            (hot, s2) \<leftarrow> rd_hot_lookup lpa h s1;
            case hot of
              Some pte \<Rightarrow> Some (rd_goto data_read, pte, s2)
            | None \<Rightarrow> do {
                (lb, s3) \<leftarrow> rd_cold_lookup q lpa h s2;
                Some (rd_goto lb, pte0, s3)
              }
          }
        })"

definition set_not_found :: "addr \<Rightarrow> sys \<Rightarrow> sys option" where
  "set_not_found r = modify_req r (\<lambda>q. q\<lparr>r_state := ALGO_REQ_NOT_FOUND\<rparr>)"

definition rd_at_load :: "nat \<Rightarrow> addr \<Rightarrow> request \<Rightarrow> lpa_t \<Rightarrow> pte \<Rightarrow> sys \<Rightarrow> (rd_jump \<times> pte \<times> sys) option" where
  "rd_at_load now r q lpa pte s =
     (if r_type q = PREFILL_DATAR \<and> IS_INITIAL_PPA (t_ppa (the_cmt s (D_IDX lpa)))
      then Some (rd_ret UINT32_MAX, pte, s)
      else do {
        (rc, s1) \<leftarrow> dftl_cache_load now lpa (Req r) s;
        s2 \<leftarrow> (if rc = 0 then map_option (finish r) (set_not_found r s1) else Some s1);
        s3 \<leftarrow> retry_later (Req r) s2;
        Some (rd_ret (if rc = 0 then UINT32_MAX else 1), pte, s3)
      })"

definition rd_at_list_up :: "nat \<Rightarrow> addr \<Rightarrow> lpa_t \<Rightarrow> pte \<Rightarrow> sys \<Rightarrow> (rd_jump \<times> pte \<times> sys) option" where
  "rd_at_list_up now r lpa pte s = do {
     (rc, s1) \<leftarrow> dftl_cache_list_up now lpa (Req r) s;
     if rc \<noteq> 0 then do {
       s2 \<leftarrow> retry_later (Req r) s1;
       Some (rd_ret 1, pte, s2)
     } else Some (rd_goto cache_check_complete, pte, s1)
   }"

definition rd_at_check :: "addr \<Rightarrow> hash_params \<Rightarrow> lpa_t \<Rightarrow> sys \<Rightarrow> (rd_jump \<times> pte \<times> sys) option" where
  "rd_at_check r h lpa s =
     (let pte = dftl_cache_get_pte lpa s in
      if hp_key_fp h \<noteq> pte_fp pte then do {
        s1 \<leftarrow> upd_h_req r (\<lambda>h. h\<lparr>hp_cnt := hp_cnt h + 1\<rparr>) s;
        Some (rd_goto read_retry, pte, s1)
      } else Some (rd_goto data_read, pte, s))"

definition rd_at_data :: "nat \<Rightarrow> addr \<Rightarrow> request \<Rightarrow> hash_params \<Rightarrow> lpa_t \<Rightarrow> pte \<Rightarrow> sys \<Rightarrow> (rd_jump \<times> pte \<times> sys) option" where
  "rd_at_data now r q h lpa pte s = do {
     (rc, s1) \<leftarrow> read_actual_dpage now (pte_ppa pte) r s;
     if rc = UINT32_MAX then Some (rd_ret rc, pte, s1)
     else if KEYCMP (r_key q) (real_keys s1 lpa) = 0 then do {
       let s2 = upd_denv (\<lambda>d.
         let (_, rcnt, wcnt) = hash_collision_logging (hp_cnt h) READ (r_hash_collision_cnt d, w_hash_collision_cnt d)
         in d\<lparr>r_hash_collision_cnt := rcnt, w_hash_collision_cnt := wcnt\<rparr>) s1;
       s3 \<leftarrow> modify_req r (\<lambda>q. q\<lparr>r_h_params := None\<rparr>) s2;
       Some (rd_ret rc, pte, if r_type q \<noteq> PREFILL_DATAR then finish r s3 else s3)
     } else do {
       s2 \<leftarrow> upd_h_req r (\<lambda>h. h\<lparr>hp_find := HASH_KEY_DIFF, hp_cnt := hp_cnt h + 1\<rparr>) s1;
       let s3 = upd_denv (\<lambda>d. d\<lparr>num_rd_data_miss_rd := num_rd_data_miss_rd d + 1\<rparr>) s2;
       s4 \<leftarrow> retry_later (Req r) s3;
       Some (rd_ret rc, pte, s4)
     }
   }"

definition rd_step :: "nat \<Rightarrow> addr \<Rightarrow> rd_label \<Rightarrow> pte \<Rightarrow> sys \<Rightarrow> (rd_jump \<times> pte \<times> sys) option" where
  "rd_step now r label pte s = do {
     q \<leftarrow> reqs s r;
     h \<leftarrow> r_h_params q;
     lpa \<leftarrow> get_lpa (env (cache s)) h;
     (case label of
        read_retry \<Rightarrow> rd_at_retry r q h lpa s
      | rd_cache_load \<Rightarrow> rd_at_load now r q lpa pte s
      | rd_cache_list_up \<Rightarrow> rd_at_list_up now r lpa pte s
      | cache_check_complete \<Rightarrow> rd_at_check r h lpa s
      | data_read \<Rightarrow> rd_at_data now r q h lpa pte s)
   }"

partial_function (option) rd_run :: "nat \<Rightarrow> addr \<Rightarrow> rd_label \<Rightarrow> pte \<Rightarrow> sys \<Rightarrow> (nat \<times> sys) option" where
  "rd_run now r label pte s =
     Option.bind (rd_step now r label pte s) (\<lambda>x.
       case fst x of
         rd_goto l \<Rightarrow> rd_run now r l (fst (snd x)) (snd (snd x))
       | rd_ret rc \<Rightarrow> Some (rc, snd (snd x)))"

declare rd_run.simps [code]

text \<open>
  \<^verbatim>\<open>demand_get\<close>.  The result of \<^verbatim>\<open>__demand_get\<close> is only compared with \<^verbatim>\<open>UINT32_MAX\<close>, which the
  logical address it returns for a prefill read never is, so \<open>rc\<close> stands for it.
\<close>

definition demand_get :: "nat \<Rightarrow> addr \<Rightarrow> sys \<Rightarrow> sys option" where
  "demand_get now r s = do {
     s1 \<leftarrow> ensure_hash_params r s;
     (rc, s2) \<leftarrow> rd_run now r read_retry \<lparr>pte_ppa = UINT32_MAX, pte_fp = - 1\<rparr> s1;
     if rc = UINT32_MAX then map_option (finish r) (set_not_found r s2) else Some s2
   }"

end
