(* ===== verification/Partition.thy ===== *)
theory Partition
  imports Adaptive
begin

text \<open>
  Properties of the adaptive partition: the ghost rings are bounded queues, the ghost counter
  counts the marks, and every operation keeps the invariant of the partition: the memory in use stays
  within the budget and the hot table stays well-formed.  \<open>Runs\<close> has the reachable states.
\<close>

section \<open>The ring is a bounded queue\<close>

definition ring_ok :: "ghost_fifo \<Rightarrow> bool" where
  "ring_ok gf \<longleftrightarrow> gf_count gf \<le> gf_cap gf \<and> (0 < gf_cap gf \<longrightarrow> gf_head gf < gf_cap gf)"

text \<open>The \<open>k\<close>-th newest value, and the queue from the oldest value on.\<close>

definition ring_nth :: "ghost_fifo \<Rightarrow> nat \<Rightarrow> nat" where
  "ring_nth gf k = gf_ring gf ((gf_head gf + gf_cap gf - k) mod gf_cap gf)"

definition ring_list :: "ghost_fifo \<Rightarrow> nat list" where
  "ring_list gf = map (ring_nth gf) (rev [1..<Suc (gf_count gf)])"

lemma length_ring_list [simp]: "length (ring_list gf) = gf_count gf"
  by (simp add: ring_list_def)

lemma ring_list_Suc:
  "gf_count gf = Suc m \<Longrightarrow> ring_list gf = ring_nth gf (Suc m) # map (ring_nth gf) (rev [1..<Suc m])"
  by (simp add: ring_list_def upt_Suc_append)

lemma rev_upt_Suc: "rev [Suc 0..<Suc (Suc n)] = map Suc (rev [Suc 0..<Suc n]) @ [Suc 0]"
  using upt_conv_Cons [of "Suc 0" "Suc (Suc n)"] by (simp add: rev_map [symmetric] map_Suc_upt del: upt_Suc)

lemma ring_index_step:
  assumes "h < n" and "1 \<le> k" and "k < (n::nat)"
  shows "(Suc h mod n + n - Suc k) mod n = (h + n - k) mod n" and "(h + n - k) mod n \<noteq> h"
proof -
  show "(Suc h mod n + n - Suc k) mod n = (h + n - k) mod n"
    using assms by (cases "Suc h = n") (auto simp: mod_if)
  show "(h + n - k) mod n \<noteq> h"
    using assms by (auto simp: mod_if)
qed

lemma ring_nth_push:
  assumes "ring_ok gf" and "0 < gf_cap gf"
  shows "1 \<le> k \<Longrightarrow> k < gf_cap gf \<Longrightarrow> ring_nth (adaptive_ghost_fifo_push x gf) (Suc k) = ring_nth gf k"
    and "ring_nth (adaptive_ghost_fifo_push x gf) 1 = x"
proof -
  have h: "gf_head gf < gf_cap gf"
    using assms by (simp add: ring_ok_def)
  show "ring_nth (adaptive_ghost_fifo_push x gf) (Suc k) = ring_nth gf k" if "1 \<le> k" "k < gf_cap gf"
    using ring_index_step [OF h that] assms(2) by (simp add: ring_nth_def adaptive_ghost_fifo_push_def Let_def)
  have "(Suc (gf_head gf) mod gf_cap gf + gf_cap gf - Suc 0) mod gf_cap gf = gf_head gf"
    using h by (cases "Suc (gf_head gf) = gf_cap gf") (auto simp: mod_if)
  then show "ring_nth (adaptive_ghost_fifo_push x gf) 1 = x"
    using assms(2) by (simp add: ring_nth_def adaptive_ghost_fifo_push_def Let_def)
qed

lemma ring_push:
  assumes ok: "ring_ok gf"
  shows "ring_ok (adaptive_ghost_fifo_push x gf) \<and> gf_cap (adaptive_ghost_fifo_push x gf) = gf_cap gf \<and>
    ring_list (adaptive_ghost_fifo_push x gf) = last_n (gf_cap gf) (ring_list gf @ [x])"
proof (cases "gf_cap gf = 0")
  case True
  then show ?thesis
    using ok by (simp add: adaptive_ghost_fifo_push_def last_n_def ring_ok_def ring_list_def)
next
  case False
  let ?p = "adaptive_ghost_fifo_push x gf" and ?n = "gf_count gf" and ?c = "gf_cap gf"
  have c: "gf_count ?p = (if ?n < ?c then Suc ?n else ?n)" "gf_cap ?p = ?c" "gf_head ?p < ?c"
    using False by (auto simp: adaptive_ghost_fifo_push_def Let_def)
  have le: "?n \<le> ?c"
    using ok by (simp add: ring_ok_def)
  have tail: "map (ring_nth ?p) (map Suc (rev [1..<Suc m])) = map (ring_nth gf) (rev [1..<Suc m])" if "m < ?c" for m
    using that False by (auto simp: ring_nth_push(1) [OF ok])
  have "ring_list ?p = last_n ?c (ring_list gf @ [x])"
  proof (cases "?n < ?c")
    case True
    then show ?thesis
      using tail [OF True] ring_nth_push(2) [OF ok, of x] False
      by (simp add: ring_list_def c rev_upt_Suc del: upt_Suc rev_rev_ident map_map)
  next
    case full: False
    then obtain m where m: "?n = Suc m" "?c = Suc m"
      using le False by (cases ?c) auto
    have "ring_list ?p = map (ring_nth gf) (rev [1..<Suc m]) @ [x]"
      using tail [of m] ring_nth_push(2) [OF ok, of x] False m
      by (simp add: ring_list_def c rev_upt_Suc del: upt_Suc map_map)
    moreover have "last_n ?c (ring_list gf @ [x]) = map (ring_nth gf) (rev [1..<Suc m]) @ [x]"
      by (simp add: last_n_def ring_list_Suc m del: upt_Suc)
    ultimately show ?thesis by simp
  qed
  then show ?thesis
    using c le False by (auto simp: ring_ok_def)
qed

lemma ring_pop:
  assumes ok: "ring_ok gf" and list: "ring_list gf = x # xs"
  shows "returns (adaptive_ghost_fifo_pop_oldest gf) (\<lambda>(y, gf'). y = x \<and> ring_ok gf' \<and>
    gf_cap gf' = gf_cap gf \<and> ring_list gf' = xs)"
proof -
  obtain m where m: "gf_count gf = Suc m"
    using list length_ring_list [of gf] by (cases "gf_count gf") auto
  then have cap: "0 < gf_cap gf"
    using ok by (simp add: ring_ok_def)
  have "ring_list gf = ring_nth gf (Suc m) # map (ring_nth gf) (rev [1..<Suc m])"
    using m by (rule ring_list_Suc)
  then have "x = ring_nth gf (Suc m)" "xs = map (ring_nth gf) (rev [1..<Suc m])"
    using list by simp_all
  moreover have "ring_nth (gf\<lparr>gf_count := m\<rparr>) = ring_nth gf"
    by (simp add: ring_nth_def fun_eq_iff)
  ultimately show ?thesis
    using ok m cap
    by (simp add: adaptive_ghost_fifo_pop_oldest_def Let_def ring_list_def ring_ok_def ring_nth_def)
qed

interpretation ring: bounded_queue ring_ok gf_cap ring_list adaptive_ghost_fifo_push adaptive_ghost_fifo_pop_oldest
  by unfold_locales (use ring_push ring_pop in blast)+

lemma ring_alloc: "ring_ok (adaptive_ghost_fifo_alloc n)" "ring_list (adaptive_ghost_fifo_alloc n) = []"
  by (simp_all add: ring_ok_def adaptive_ghost_fifo_alloc_def ring_list_def)

text \<open>
  C27. The ghost ring remembers eviction order: after any pushes into a fresh ring of capacity
  \<open>n\<close>, popping returns the last \<open>n\<close> pushed page numbers, oldest first, and leaves the ring empty.
\<close>

theorem ghost_ring_order:
  "returns (pop_n adaptive_ghost_fifo_pop_oldest (min n (length xs))
      (fold adaptive_ghost_fifo_push xs (adaptive_ghost_fifo_alloc n)))
    (\<lambda>(rs, gf). rs = last_n n xs \<and> ring_list gf = [])"
  using ring.push_pop [OF ring_alloc, of n xs] by (simp add: adaptive_ghost_fifo_alloc_def)

section \<open>The ghost counter\<close>

definition ghosts_of :: "dcache \<Rightarrow> nat set" where
  "ghosts_of c = {i. i < nr_valid_tpages (env c) \<and> ghost_mark (cmts (member c) i)}"

definition ghost_ok :: "dcache \<Rightarrow> bool" where
  "ghost_ok c \<longleftrightarrow> nr_valid_tpages (env c) < 2 ^ 32 \<and>
     unat (nr_ghost_cold (member c)) = card (ghosts_of c) \<and> ring_ok (cold_fifo c) \<and> ring_ok (key_fifo c)"

lemma finite_ghosts [simp]: "finite (ghosts_of c)"
  by (simp add: ghosts_of_def)

lemma card_ghosts_le: "card (ghosts_of c) \<le> nr_valid_tpages (env c)"
proof -
  have "card (ghosts_of c) \<le> card {..<nr_valid_tpages (env c)}"
    by (rule card_mono) (auto simp: ghosts_of_def)
  then show ?thesis by simp
qed

lemma unat_dec: "0 < unat (n :: u64) \<Longrightarrow> unat (n - 1) = unat n - 1"
  by (metis less_nat_zero_code unat_0 unat_minus_one)

text \<open>What the ghost bookkeeping may change, besides marks, counters and rings.\<close>

definition slot_core :: "h_pte \<Rightarrow> nat \<times> nat \<times> nat \<times> u32" where
  "slot_core e = (h_lpa e, h_ppa e, h_state e, h_fp e)"

definition page_core :: "cmt \<Rightarrow> nat \<times> nat option \<times> nat \<times> bool \<times> bool \<times> nat list \<times> nat option" where
  "page_core x = (cmt_idx x, cmt_pt x, t_ppa x, cmt_dirty x, is_flying x, retry_q x, lru_ptr x)"

definition env_core :: "cache_env \<Rightarrow> cache_env" where
  "env_core e = e\<lparr>ghost_cold_cap := 0, ghost_cold_frac_pct := 0, ghost_key_cap := 0\<rparr>"

definition ghost_rel :: "dcache \<Rightarrow> dcache \<Rightarrow> bool" where
  "ghost_rel c c' \<longleftrightarrow>
     env_core (env c') = env_core (env c) \<and>
     rehash c' = rehash c \<and> hot_pte_state_live (stat c') = hot_pte_state_live (stat c) \<and>
     hot_valid_entries (stat c') = hot_valid_entries (stat c) \<and>
     (\<forall>q. slot_core (hot_slot c' q) = slot_core (hot_slot c q)) \<and>
     mem_table (member c') = mem_table (member c) \<and> clru (member c') = clru (member c) \<and>
     nr_cached_tpages (member c') = nr_cached_tpages (member c) \<and>
     (\<forall>i. page_core (cmts (member c') i) = page_core (cmts (member c) i) \<and>
       (\<not> ghost_mark (cmts (member c) i) \<longrightarrow> cmts (member c') i = cmts (member c) i))"

lemma ghost_rel_refl [simp]: "ghost_rel c c"
  by (simp add: ghost_rel_def)

lemma ghost_rel_trans [trans]: "ghost_rel a b \<Longrightarrow> ghost_rel b c \<Longrightarrow> ghost_rel a c"
  unfolding ghost_rel_def by (elim conjE, intro conjI allI impI; metis)

lemma env_core_simps:
  assumes "env_core e' = env_core e"
  shows "max_cached_hot_tpages e' = max_cached_hot_tpages e" "max_cached_hot_entries e' = max_cached_hot_entries e"
    "max_cached_tpages e' = max_cached_tpages e" "nr_valid_tpages e' = nr_valid_tpages e"
    "max_cached_full_key_budget e' = max_cached_full_key_budget e" "total_cache_tpages e' = total_cache_tpages e"
    "hot_tpages_cap e' = hot_tpages_cap e" "min_cached_tpages e' = min_cached_tpages e"
    "min_cached_hot_tpages e' = min_cached_hot_tpages e" "chunk_tpages e' = chunk_tpages e"
    "key_entries_cap e' = key_entries_cap e" "key_chunk_entries e' = key_chunk_entries e"
proof -
  have "f e' = f e" if "\<And>x. f (env_core x) = f x" for f :: "cache_env \<Rightarrow> nat"
    using assms that by metis
  then show "max_cached_hot_tpages e' = max_cached_hot_tpages e" "max_cached_hot_entries e' = max_cached_hot_entries e"
    "max_cached_tpages e' = max_cached_tpages e" "nr_valid_tpages e' = nr_valid_tpages e"
    "max_cached_full_key_budget e' = max_cached_full_key_budget e" "total_cache_tpages e' = total_cache_tpages e"
    "hot_tpages_cap e' = hot_tpages_cap e" "min_cached_tpages e' = min_cached_tpages e"
    "min_cached_hot_tpages e' = min_cached_hot_tpages e" "chunk_tpages e' = chunk_tpages e"
    "key_entries_cap e' = key_entries_cap e" "key_chunk_entries e' = key_chunk_entries e"
    by (simp_all add: env_core_def)
qed

lemma ghost_rel_env: "ghost_rel c c' \<Longrightarrow> env_core (env c') = env_core (env c)"
  by (simp add: ghost_rel_def)

lemma ghost_rel_slot:
  assumes "ghost_rel c c'"
  shows "h_lpa (hot_slot c' q) = h_lpa (hot_slot c q)" "h_state (hot_slot c' q) = h_state (hot_slot c q)"
proof -
  have "slot_core (hot_slot c' q) = slot_core (hot_slot c q)"
    using assms unfolding ghost_rel_def by blast
  then show "h_lpa (hot_slot c' q) = h_lpa (hot_slot c q)" "h_state (hot_slot c' q) = h_state (hot_slot c q)"
    by (simp_all add: slot_core_def)
qed

lemma ghost_rel_hot_ok:
  assumes rel: "ghost_rel c c'" and ok: "hot_ok k c"
  shows "hot_ok k c'"
proof -
  note slot = ghost_rel_slot [OF rel] and env = env_core_simps [OF ghost_rel_env [OF rel]]
  have st: "hot_pte_state_live (stat c') = hot_pte_state_live (stat c)" "hot_valid_entries (stat c') = hot_valid_entries (stat c)"
    using rel by (auto simp: ghost_rel_def)
  have "slot_count n (hot_slot c') (in_state s) = slot_count n (hot_slot c) (in_state s)"
    "slot_count n (hot_slot c') in_use = slot_count n (hot_slot c) in_use" for n s
    by (simp_all add: slot_count_def in_state_def in_use_def slot)
  then show ?thesis
    using ok by (simp add: hot_ok_def hot_env_ok_def states_ok_def live_ok_def valid_ok_def env st slot)
qed

lemma ghost_rel_used:
  assumes "ghost_rel c c'"
  shows "used_slots c' = used_slots c" "h_lpa ` hot_slot c' ` used_slots c' = h_lpa ` hot_slot c ` used_slots c"
proof -
  note slot = ghost_rel_slot [OF assms]
  show 1: "used_slots c' = used_slots c"
    using env_core_simps [OF ghost_rel_env [OF assms]] by (simp add: used_slots_def in_use_def slot)
  show "h_lpa ` hot_slot c' ` used_slots c' = h_lpa ` hot_slot c ` used_slots c"
    by (simp add: image_image slot 1)
qed

definition evict_post :: "dcache \<Rightarrow> bool \<times> dcache \<Rightarrow> bool" where
  "evict_post c = (\<lambda>(ok, c'). ghost_ok c' \<and> ghost_rel c c' \<and> env c' = env c \<and> nr_ghost_key (member c') = nr_ghost_key (member c) \<and>
     ghosts_of c' \<subseteq> ghosts_of c \<and>
     unat (nr_ghost_cold (member c')) = (if ok then unat (nr_ghost_cold (member c)) - 1 else unat (nr_ghost_cold (member c))) \<and>
     (ok \<longrightarrow> 0 < unat (nr_ghost_cold (member c))))"

lemma ghost_cold_unmark_post:
  assumes ok: "ghost_ok c" and i: "i < nr_valid_tpages (env c)" "ghost_mark (cmts (member c) i)"
  shows "evict_post c (True, ghost_cold_unmark i c)"
proof -
  let ?c = "ghost_cold_unmark i c"
  have mem: "i \<in> ghosts_of c"
    using i by (simp add: ghosts_of_def)
  then have pos: "0 < card (ghosts_of c)"
    by (auto simp: card_gt_0_iff)
  have nr: "0 < unat (nr_ghost_cold (member c))"
    using ok pos by (simp add: ghost_ok_def)
  then have "nr_ghost_cold (member c) > 0"
    by (simp add: word_less_nat_alt)
  then have c: "env ?c = env c" "rehash ?c = rehash c" "stat ?c = stat c" "hot_slot ?c = hot_slot c"
    "cold_fifo ?c = cold_fifo c" "key_fifo ?c = key_fifo c" "mem_table (member ?c) = mem_table (member c)"
    "clru (member ?c) = clru (member c)" "nr_cached_tpages (member ?c) = nr_cached_tpages (member c)"
    "nr_ghost_key (member ?c) = nr_ghost_key (member c)"
    "cmts (member ?c) = (cmts (member c))(i := (cmts (member c) i)\<lparr>ghost_mark := False, page_heat_sum := 0, cnt_map := None\<rparr>)"
    "nr_ghost_cold (member ?c) = nr_ghost_cold (member c) - 1"
    by (simp_all add: ghost_cold_unmark_def Let_def upd_cmt_def)
  have "ghosts_of ?c = ghosts_of c - {i}"
    by (auto simp: ghosts_of_def c)
  moreover have "ghost_rel c ?c"
    unfolding ghost_rel_def c using i(2)
    by (auto simp: page_core_def)
  ultimately show ?thesis
    using ok nr mem by (simp add: evict_post_def ghost_ok_def c unat_dec)
qed

lemma evict_post_id: "ghost_ok c \<Longrightarrow> evict_post c (False, c)"
  by (simp add: evict_post_def)

lemma evict_post_step:
  assumes "evict_post c1 r" and "ghost_rel c c1" and "env c1 = env c" and "nr_ghost_key (member c1) = nr_ghost_key (member c)"
    and "nr_ghost_cold (member c1) = nr_ghost_cold (member c)" and "ghosts_of c1 = ghosts_of c"
  shows "evict_post c r"
  using assms(1,3-6) ghost_rel_trans [OF assms(2)] by (cases r) (auto simp: evict_post_def)

definition cursor_step :: "(dcache \<Rightarrow> dcache) \<Rightarrow> bool" where
  "cursor_step f \<longleftrightarrow> (\<forall>c. env (f c) = env c \<and> rehash (f c) = rehash c \<and> stat (f c) = stat c \<and> member (f c) = member c)"

lemma cursor_step_rel:
  assumes "cursor_step f"
  shows "ghost_rel c (f c)" "ghosts_of (f c) = ghosts_of c"
proof -
  have "hot_slot (f c) = hot_slot c"
    using assms by (simp add: cursor_step_def hot_slot_def)
  then show "ghost_rel c (f c)" "ghosts_of (f c) = ghosts_of c"
    using assms ghost_rel_refl [of c] by (simp_all add: cursor_step_def ghost_rel_def ghosts_of_def)
qed

lemma evict_post_cursor:
  assumes "cursor_step f" and "evict_post (f c) r"
  shows "evict_post c r"
proof (rule evict_post_step [OF assms(2) cursor_step_rel(1) [OF assms(1)] _ _ _ cursor_step_rel(2) [OF assms(1)]])
  have "env (f c) = env c" "member (f c) = member c"
    using assms(1) by (simp_all add: cursor_step_def)
  then show "env (f c) = env c" "nr_ghost_key (member (f c)) = nr_ghost_key (member c)"
    "nr_ghost_cold (member (f c)) = nr_ghost_cold (member c)"
    by simp_all
qed

lemma cursor_steps: "cursor_step (\<lambda>c. c\<lparr>ghost_cold_scan_rr := f c\<rparr>)" "cursor_step (\<lambda>c. c\<lparr>cold_fifo := g c\<rparr>)"
  by (simp_all add: cursor_step_def)

lemma cold_rr_loop_post:
  "ghost_ok c \<Longrightarrow> 0 < nr_valid_tpages (env c) \<Longrightarrow> evict_post c (cold_rr_loop n c)"
proof (induction n arbitrary: c)
  case (Suc n)
  let ?c = "c\<lparr>ghost_cold_scan_rr := ghost_cold_scan_rr c + 1\<rparr>"
  have ok: "ghost_ok ?c"
    using Suc.prems(1) by (simp add: ghost_ok_def ghosts_of_def)
  have "evict_post ?c (cold_rr_loop n ?c)"
    using Suc.IH [OF ok] Suc.prems(2) by simp
  moreover have "evict_post ?c (True, ghost_cold_unmark (ghost_cold_scan_rr c mod nr_valid_tpages (env c)) ?c)"
    if "ghost_mark (cmts (member c) (ghost_cold_scan_rr c mod nr_valid_tpages (env c)))"
    using that Suc.prems(2) by (intro ghost_cold_unmark_post ok) simp_all
  ultimately have "evict_post ?c (cold_rr_loop (Suc n) c)"
    by (simp add: Let_def)
  then show ?case
    using cursor_steps(1) [of "\<lambda>c. ghost_cold_scan_rr c + 1"] by (rule evict_post_cursor [rotated])
qed (simp add: evict_post_id)

lemma cold_evict_rr_post: "ghost_ok c \<Longrightarrow> evict_post c (ghost_cold_evict_rr c)"
  by (auto simp: ghost_cold_evict_rr_def evict_post_id cold_rr_loop_post)

lemma cold_fifo_loop_post: "ghost_ok c \<Longrightarrow> returns (cold_fifo_loop n c) (evict_post c)"
proof (induction n arbitrary: c)
  case (Suc n)
  show ?case
  proof (cases "gf_count (cold_fifo c) = 0")
    case True
    then show ?thesis
      using Suc.prems by (simp add: cold_evict_rr_post)
  next
    case False
    have ring: "ring_ok (cold_fifo c)"
      using Suc.prems by (simp add: ghost_ok_def)
    obtain x xs where "ring_list (cold_fifo c) = x # xs"
      using False length_ring_list [of "cold_fifo c"] by (cases "ring_list (cold_fifo c)") auto
    then obtain gf where gf: "adaptive_ghost_fifo_pop_oldest (cold_fifo c) = Some (x, gf)" "ring_ok gf"
      using ring.pop [OF ring] by (auto elim!: returnsE)
    let ?c = "c\<lparr>cold_fifo := gf\<rparr>"
    have ok: "ghost_ok ?c"
      using Suc.prems gf(2) by (simp add: ghost_ok_def ghosts_of_def)
    have post: "evict_post ?c r \<Longrightarrow> evict_post c r" for r
      using cursor_steps(2) [of "\<lambda>_. gf"] evict_post_cursor by blast
    have "returns (cold_fifo_loop n ?c) (evict_post c)"
      using Suc.IH [OF ok] post by (rule returns_mono)
    then show ?thesis
      using False gf(1) post ghost_cold_unmark_post [OF ok, of x] by (auto simp: Let_def)
  qed
qed (simp add: cold_evict_rr_post)

lemma cold_make_room_post:
  "ghost_ok c \<Longrightarrow> (\<And>n. full n \<Longrightarrow> 0 < n) \<Longrightarrow>
    returns (cold_make_room full c) (\<lambda>c'. ghost_ok c' \<and> ghost_rel c c' \<and> env c' = env c \<and>
      nr_ghost_key (member c') = nr_ghost_key (member c) \<and> ghosts_of c' \<subseteq> ghosts_of c)"
proof (induction "unat (nr_ghost_cold (member c))" arbitrary: c rule: less_induct)
  case less
  show ?case
  proof (cases "full (unat (nr_ghost_cold (member c)))")
    case False
    then show ?thesis
      using less.prems by (simp add: cold_make_room.simps)
  next
    case True
    obtain res where "ghost_cold_fifo_evict_oldest c = Some res" "evict_post c res"
      using cold_fifo_loop_post [OF less.prems(1), of "gf_count (cold_fifo c)"]
      by (auto simp: ghost_cold_fifo_evict_oldest_def elim: returnsE)
    then obtain ok c1 where r: "ghost_cold_fifo_evict_oldest c = Some (ok, c1)" "evict_post c (ok, c1)"
      by (cases res) auto
    show ?thesis
    proof (cases ok)
      case False
      then show ?thesis
        using r True by (simp add: cold_make_room.simps [of full c] evict_post_def)
    next
      case ok: True
      have "returns (cold_make_room full c1) (\<lambda>c'. ghost_ok c' \<and> ghost_rel c1 c' \<and> env c' = env c1 \<and>
          nr_ghost_key (member c') = nr_ghost_key (member c1) \<and> ghosts_of c' \<subseteq> ghosts_of c1)"
        using r(2) ok by (intro less.hyps less.prems(2)) (auto simp: evict_post_def)
      then show ?thesis
        using r True ok ghost_rel_trans
        by (auto simp: cold_make_room.simps [of full c] evict_post_def elim!: returns_mono)
    qed
  qed
qed

text \<open>The same for the key marks.\<close>

definition kevict_post :: "dcache \<Rightarrow> bool \<times> dcache \<Rightarrow> bool" where
  "kevict_post c = (\<lambda>(ok, c'). ghost_ok c' \<and> ghost_rel c c' \<and> env c' = env c \<and> ghosts_of c' = ghosts_of c \<and>
     nr_ghost_key (member c') = (if ok then nr_ghost_key (member c) - 1 else nr_ghost_key (member c)))"

lemma key_evicted_post:
  assumes "ghost_ok c"
  shows "kevict_post c (True, key_evicted q c)"
proof -
  have "ghosts_of (key_evicted q c) = ghosts_of c"
    by (simp add: ghosts_of_def key_evicted_def ghost_key_unmark_def Let_def)
  moreover have "ghost_rel c (key_evicted q c)"
    by (simp add: ghost_rel_def key_evicted_def ghost_key_unmark_def Let_def slot_core_def page_core_def)
  ultimately show ?thesis
    using assms by (simp add: kevict_post_def ghost_ok_def key_evicted_def ghost_key_unmark_def Let_def)
qed

lemma kevict_post_id: "ghost_ok c \<Longrightarrow> kevict_post c (False, c)"
  by (simp add: kevict_post_def)

lemma kevict_post_cursor:
  assumes f: "cursor_step f" and post: "kevict_post (f c) r"
  shows "kevict_post c r"
proof -
  have "env (f c) = env c" "member (f c) = member c"
    using f by (simp_all add: cursor_step_def)
  then show ?thesis
    using post ghost_rel_trans [OF cursor_step_rel(1) [OF f, of c]] cursor_step_rel(2) [OF f, of c]
    by (cases r) (auto simp: kevict_post_def)
qed

lemma key_cursor_steps: "cursor_step (\<lambda>c. c\<lparr>ghost_key_scan_rr := f c\<rparr>)" "cursor_step (\<lambda>c. c\<lparr>key_fifo := g c\<rparr>)"
  by (simp_all add: cursor_step_def)

lemma key_rr_loop_post: "ghost_ok c \<Longrightarrow> kevict_post c (key_rr_loop n c)"
proof (induction n arbitrary: c)
  case (Suc n)
  let ?c = "c\<lparr>ghost_key_scan_rr := ghost_key_scan_rr c + 1\<rparr>"
  have ok: "ghost_ok ?c"
    using Suc.prems by (simp add: ghost_ok_def ghosts_of_def)
  have "kevict_post ?c (key_rr_loop (Suc n) c)"
    using Suc.IH [OF ok] key_evicted_post [OF ok] by (simp add: Let_def)
  then show ?case
    using key_cursor_steps(1) [of "\<lambda>c. ghost_key_scan_rr c + 1"] kevict_post_cursor by blast
qed (simp add: kevict_post_id)

lemma key_evict_rr_post: "ghost_ok c \<Longrightarrow> kevict_post c (ghost_key_evict_rr c)"
  by (auto simp: ghost_key_evict_rr_def kevict_post_id key_rr_loop_post)

lemma key_fifo_loop_post: "ghost_ok c \<Longrightarrow> returns (key_fifo_loop n c) (kevict_post c)"
proof (induction n arbitrary: c)
  case (Suc n)
  show ?case
  proof (cases "gf_count (key_fifo c) = 0")
    case True
    then show ?thesis
      using Suc.prems by (simp add: key_evict_rr_post)
  next
    case False
    have ring: "ring_ok (key_fifo c)"
      using Suc.prems by (simp add: ghost_ok_def)
    obtain x xs where "ring_list (key_fifo c) = x # xs"
      using False length_ring_list [of "key_fifo c"] by (cases "ring_list (key_fifo c)") auto
    then obtain gf where gf: "adaptive_ghost_fifo_pop_oldest (key_fifo c) = Some (x, gf)" "ring_ok gf"
      using ring.pop [OF ring] by (auto elim!: returnsE)
    let ?c = "c\<lparr>key_fifo := gf\<rparr>"
    have ok: "ghost_ok ?c"
      using Suc.prems gf(2) by (simp add: ghost_ok_def ghosts_of_def)
    have post: "kevict_post ?c r \<Longrightarrow> kevict_post c r" for r
      using key_cursor_steps(2) [of "\<lambda>_. gf"] kevict_post_cursor by blast
    have "returns (key_fifo_loop n ?c) (kevict_post c)"
      using Suc.IH [OF ok] post by (rule returns_mono)
    then show ?thesis
      using False gf(1) post key_evicted_post [OF ok] by (auto simp: Let_def)
  qed
qed (simp add: key_evict_rr_post)

lemma key_make_room_post:
  "ghost_ok c \<Longrightarrow> (\<And>n. full n \<Longrightarrow> 0 < n) \<Longrightarrow>
    returns (key_make_room full c) (\<lambda>c'. ghost_ok c' \<and> ghost_rel c c' \<and> env c' = env c \<and> ghosts_of c' = ghosts_of c)"
proof (induction "unat (nr_ghost_key (member c))" arbitrary: c rule: less_induct)
  case less
  show ?case
  proof (cases "full (unat (nr_ghost_key (member c)))")
    case False
    then show ?thesis
      using less.prems by (simp add: key_make_room.simps)
  next
    case True
    then have pos: "0 < unat (nr_ghost_key (member c))"
      using less.prems(2) by blast
    obtain res where "ghost_key_fifo_evict_oldest c = Some res" "kevict_post c res"
      using key_fifo_loop_post [OF less.prems(1), of "gf_count (key_fifo c)"]
      by (auto simp: ghost_key_fifo_evict_oldest_def elim: returnsE)
    then obtain ok c1 where r: "ghost_key_fifo_evict_oldest c = Some (ok, c1)" "kevict_post c (ok, c1)"
      by (cases res) auto
    show ?thesis
    proof (cases ok)
      case False
      then show ?thesis
        using r True by (simp add: key_make_room.simps [of full c] kevict_post_def)
    next
      case ok: True
      have "unat (nr_ghost_key (member c1)) < unat (nr_ghost_key (member c))"
        using r(2) ok pos by (simp add: kevict_post_def unat_dec)
      then have "returns (key_make_room full c1) (\<lambda>c'. ghost_ok c' \<and> ghost_rel c1 c' \<and> env c' = env c1 \<and>
          ghosts_of c' = ghosts_of c1)"
        using r(2) ok by (intro less.hyps less.prems(2)) (auto simp: kevict_post_def)
      then show ?thesis
        using r True ok ghost_rel_trans
        by (auto simp: key_make_room.simps [of full c] kevict_post_def elim!: returns_mono)
    qed
  qed
qed

section \<open>Capacities\<close>

lemma trim_post:
  assumes "ghost_ok c"
  shows "returns (adaptive_ghost_trim_locked c) (\<lambda>c'. ghost_ok c' \<and> ghost_rel c c' \<and> ghosts_of c' \<subseteq> ghosts_of c)"
proof -
  have "returns (cold_make_room (\<lambda>n. ghost_cold_cap (env c) < n) c) (\<lambda>c1. ghost_ok c1 \<and> ghost_rel c c1 \<and>
      env c1 = env c \<and> nr_ghost_key (member c1) = nr_ghost_key (member c) \<and> ghosts_of c1 \<subseteq> ghosts_of c)"
    using assms by (intro cold_make_room_post) auto
  then show ?thesis
    unfolding adaptive_ghost_trim_locked_def
  proof (rule returns_bindI)
    fix c1
    assume c1: "ghost_ok c1 \<and> ghost_rel c c1 \<and> env c1 = env c \<and>
      nr_ghost_key (member c1) = nr_ghost_key (member c) \<and> ghosts_of c1 \<subseteq> ghosts_of c"
    then have "returns (key_make_room (\<lambda>n. ghost_key_cap (env c) < n) c1) (\<lambda>c2. ghost_ok c2 \<and> ghost_rel c1 c2 \<and>
        env c2 = env c1 \<and> ghosts_of c2 = ghosts_of c1)"
      by (intro key_make_room_post) auto
    then show "returns (key_make_room (\<lambda>n. ghost_key_cap (env c) < n) c1)
        (\<lambda>c'. ghost_ok c' \<and> ghost_rel c c' \<and> ghosts_of c' \<subseteq> ghosts_of c)"
      by (rule returns_mono) (use c1 ghost_rel_trans in auto)
  qed
qed

text \<open>The counter and the marks agree; the rings are replaced by fresh ones.\<close>

definition count_ok :: "dcache \<Rightarrow> bool" where
  "count_ok c \<longleftrightarrow> nr_valid_tpages (env c) < 2 ^ 32 \<and> unat (nr_ghost_cold (member c)) = card (ghosts_of c)"

lemma ghost_ok_count: "ghost_ok c \<Longrightarrow> count_ok c"
  by (simp add: ghost_ok_def count_ok_def)

lemma update_caps_post:
  assumes "count_ok c"
  shows "returns (adaptive_ghost_update_caps_locked c) (\<lambda>c'. ghost_ok c' \<and> ghost_rel c c' \<and> ghosts_of c' \<subseteq> ghosts_of c)"
proof -
  define c2 where "c2 = (adaptive_ghost_compute_caps c)
    \<lparr>cold_fifo := adaptive_ghost_fifo_alloc (ghost_fifo_cap (ghost_cold_cap (env (adaptive_ghost_compute_caps c)))),
     key_fifo := adaptive_ghost_fifo_alloc (ghost_fifo_cap (ghost_key_cap (env (adaptive_ghost_compute_caps c))))\<rparr>"
  have c2: "member c2 = member c" "rehash c2 = rehash c" "stat c2 = stat c" "env_core (env c2) = env_core (env c)"
    by (simp_all add: c2_def adaptive_ghost_compute_caps_def Let_def env_core_def)
  have nr: "nr_valid_tpages (env c2) = nr_valid_tpages (env c)"
    using c2(4) by (rule env_core_simps)
  have gs: "ghosts_of c2 = ghosts_of c"
    by (simp add: ghosts_of_def c2 nr)
  have ok: "ghost_ok c2"
    using assms by (simp add: count_ok_def ghost_ok_def gs nr c2(1)) (simp add: c2_def ring_alloc)
  have rel: "ghost_rel c c2"
    by (simp add: ghost_rel_def c2 hot_slot_def)
  have "adaptive_ghost_update_caps_locked c = adaptive_ghost_trim_locked c2"
    by (simp add: adaptive_ghost_update_caps_locked_def c2_def Let_def)
  then show ?thesis
    using trim_post [OF ok] ghost_rel_trans [OF rel] by (auto simp: gs elim!: returns_mono)
qed

section \<open>Clearing pages of the hot table\<close>

lemma clear_hot_slot_simps [simp]:
  "env (clear_hot_slot q c) = env c" "rehash (clear_hot_slot q c) = rehash c" "side (clear_hot_slot q c) = side c"
  "q' \<noteq> q \<Longrightarrow> hot_slot (clear_hot_slot q c) q' = hot_slot c q'"
  "h_lpa (hot_slot (clear_hot_slot q c) q) = UINT32_MAX" "h_state (hot_slot (clear_hot_slot q c) q) = MIN_STATE"
  by (simp_all add: clear_hot_slot_def ghost_key_unmark_def hot_cmt_hist_on_clear_slot_def Let_def)

lemma clear_slots:
  "env (fold clear_hot_slot qs c) = env c" "rehash (fold clear_hot_slot qs c) = rehash c" "side (fold clear_hot_slot qs c) = side c"
  "q \<notin> set qs \<Longrightarrow> hot_slot (fold clear_hot_slot qs c) q = hot_slot c q"
  "q \<in> set qs \<Longrightarrow> h_lpa (hot_slot (fold clear_hot_slot qs c) q) = UINT32_MAX \<and>
     h_state (hot_slot (fold clear_hot_slot qs c) q) = MIN_STATE"
proof (induction qs arbitrary: c)
  case (Cons x qs)
  {
    case 5
    show ?case
    proof (cases "q \<in> set qs")
      case True
      then show ?thesis
        using Cons.IH(5) by simp
    next
      case False
      then show ?thesis
        using 5 Cons.IH(4) [OF False, of "clear_hot_slot x c"] by simp
    qed
  }
qed (use Cons in simp_all)

lemma clear_pages_slots:
  "fold adaptive_clear_hot_page ps c = fold clear_hot_slot (List.product ps [0..<EPP]) c"
  by (induction ps arbitrary: c) (simp_all add: adaptive_clear_hot_page_def fold_map comp_def)

lemma clear_pages:
  shows "env (fold adaptive_clear_hot_page ps c) = env c" and "rehash (fold adaptive_clear_hot_page ps c) = rehash c"
    and "side (fold adaptive_clear_hot_page ps c) = side c"
    and "d \<notin> set ps \<Longrightarrow> hot_slot (fold adaptive_clear_hot_page ps c) (d, j) = hot_slot c (d, j)"
    and "d \<in> set ps \<Longrightarrow> j < EPP \<Longrightarrow> h_lpa (hot_slot (fold adaptive_clear_hot_page ps c) (d, j)) = UINT32_MAX \<and>
       h_state (hot_slot (fold adaptive_clear_hot_page ps c) (d, j)) = MIN_STATE"
  unfolding clear_pages_slots by (rule clear_slots; simp)+

section \<open>The invariant of the partition\<close>

text \<open>The sizes that no operation changes.\<close>

definition static_env :: "cache_env \<Rightarrow> nat \<times> nat \<times> nat \<times> nat \<times> nat \<times> nat" where
  "static_env e = (total_cache_tpages e, hot_tpages_cap e, min_cached_tpages e, min_cached_hot_tpages e,
     chunk_tpages e, nr_valid_tpages e)"

definition mem_ok :: "cache_env \<Rightarrow> bool" where
  "mem_ok e \<longleftrightarrow> hot_env_ok e \<and> static_env e = static_env cache_env_init \<and>
     cache_partition_bytes_cold e + cache_partition_bytes_hot e + cache_partition_bytes_key e \<le> total_cache_tpages e * PAGESIZE \<and>
     max_cached_hot_tpages e \<le> hot_tpages_cap e \<and> hot_tpages_cap e < 2 ^ 31 \<and>
     min_cached_tpages e \<le> max_cached_tpages e \<and> 1 \<le> min_cached_hot_tpages e \<and>
     min_cached_hot_tpages e \<le> max_cached_hot_tpages e \<and> 1 \<le> chunk_tpages e \<and>
     max_cached_full_key_budget e \<le> key_entries_cap e"

definition part_ok :: "dcache \<Rightarrow> bool" where
  "part_ok c \<longleftrightarrow> mem_ok (env c) \<and> ghost_ok c \<and> hot_cmt_accessible c \<and> (\<exists>k. hot_ok k c) \<and>
     (\<forall>i. cmt_idx (cmts (member c) i) = i) \<and> nr_valid_tpages (env c) \<le> 2 ^ 22"

lemma mem_ok_core:
  assumes "env_core e' = env_core e"
  shows "mem_ok e' = mem_ok e"
  unfolding mem_ok_def hot_env_ok_def static_env_def cache_partition_bytes_cold_def cache_partition_bytes_hot_def
    cache_partition_bytes_key_def env_core_simps [OF assms] by (rule refl)

lemma hot_ok_stat:
  assumes "\<And>s. hot_pte_state_live (f s) = hot_pte_state_live s" and "\<And>s. hot_valid_entries (f s) = hot_valid_entries s"
  shows "hot_ok k (upd_stat f c) = hot_ok k c"
  using assms by (simp add: hot_ok_def states_ok_def live_ok_def valid_ok_def)

lemma part_ok_stat:
  assumes "\<And>s. hot_pte_state_live (f s) = hot_pte_state_live s" and "\<And>s. hot_valid_entries (f s) = hot_valid_entries s"
  shows "part_ok (upd_stat f c) = part_ok c"
  by (simp add: part_ok_def ghost_ok_def ghosts_of_def hot_cmt_accessible_def hot_ok_stat assms)

text \<open>The end of every move: the counters, the capacities and the statistics.\<close>

lemma caps_part_ok:
  assumes "mem_ok (env c)" and "count_ok c" and "hot_cmt_accessible c" and "hot_ok k c"
    and "\<forall>i. cmt_idx (cmts (member c) i) = i" and "nr_valid_tpages (env c) \<le> 2 ^ 22"
    and f: "\<And>s. hot_pte_state_live (f s) = hot_pte_state_live s" "\<And>s. hot_valid_entries (f s) = hot_valid_entries s"
  shows "returns (adaptive_ghost_update_caps_locked (upd_stat f c)) (\<lambda>c'. part_ok c' \<and> ghost_rel (upd_stat f c) c' \<and>
    ghosts_of c' \<subseteq> ghosts_of c)"
proof -
  let ?c = "upd_stat f c"
  have cnt: "count_ok ?c" and gs: "ghosts_of ?c = ghosts_of c"
    using assms(2) by (simp_all add: count_ok_def ghosts_of_def)
  have ok: "hot_ok k ?c"
    using assms(4) by (simp add: hot_ok_stat f)
  show ?thesis
    using update_caps_post [OF cnt]
  proof (rule returns_mono)
    fix c'
    assume c': "ghost_ok c' \<and> ghost_rel ?c c' \<and> ghosts_of c' \<subseteq> ghosts_of ?c"
    then have rel: "ghost_rel ?c c'" by simp
    have core: "env_core (env c') = env_core (env c)"
      using ghost_rel_env [OF rel] by simp
    have idx: "cmt_idx (cmts (member c') i) = i" for i
    proof -
      have "page_core (cmts (member c') i) = page_core (cmts (member c) i)"
        using rel unfolding ghost_rel_def by simp
      then show ?thesis
        using assms(5) by (simp add: page_core_def)
    qed
    have acc: "hot_cmt_accessible c'"
      using rel assms(3) by (simp add: ghost_rel_def hot_cmt_accessible_def)
    have "mem_ok (env c')" "nr_valid_tpages (env c') \<le> 2 ^ 22"
      using assms(1,6) by (simp_all add: mem_ok_core [OF core] env_core_simps(4) [OF core])
    then have "part_ok c'"
      unfolding part_ok_def using c' acc idx ghost_rel_hot_ok [OF rel ok] by blast
    then show "part_ok c' \<and> ghost_rel ?c c' \<and> ghosts_of c' \<subseteq> ghosts_of c"
      using c' gs by simp
  qed
qed

text \<open>A rehash between two sizes.\<close>

lemma resize_post:
  assumes e: "mem_ok (env c)" and st: "states_ok c" and cnt: "count_ok c"
    and idx: "\<forall>i. cmt_idx (cmts (member c) i) = i" and nr: "nr_valid_tpages (env c) \<le> 2 ^ 22"
    and f: "\<And>s. hot_pte_state_live (f s) = hot_pte_state_live s" "\<And>s. hot_valid_entries (f s) = hot_valid_entries s"
  shows "returns (hot_rehash_drain_all (hot_rehash_begin c)) (\<lambda>c3. returns (adaptive_ghost_update_caps_locked (upd_stat f c3))
    (\<lambda>c4. part_ok (adaptive_reset_stats c4) \<and> env_core (env (adaptive_reset_stats c4)) = env_core (env c) \<and>
       ghosts_of (adaptive_reset_stats c4) \<subseteq> ghosts_of c \<and>
       h_lpa ` hot_slot (adaptive_reset_stats c4) ` used_slots (adaptive_reset_stats c4) = h_lpa ` hot_slot c ` warm_slots c))"
proof -
  let ?S = "warm_of (hot_slot c) (max_cached_hot_tpages (env c) * EPP)"
  have eo: "hot_env_ok (env c)" and small: "max_cached_hot_tpages (env c) < 2 ^ 31"
    using e by (auto simp: mem_ok_def)
  have "returns (hot_rehash_drain_all (hot_rehash_begin c)) (\<lambda>c3. side c3 = side c)"
    using drain_all_done [OF eo small st] drain_side [of 200000001 "hot_rehash_begin c"]
    by (auto simp: returns_def hot_rehash_drain_all_def)
  from returns_conj [OF drain_all_done [OF eo small st] this] show ?thesis
  proof (rule returns_mono)
    fix c3
    assume c3: "rehash_done (env c) ?S c3 \<and> side c3 = side c"
    then obtain k where k: "hot_ok k c3"
      using rehash_done_hot_ok eo by blast
    have env: "env c3 = env c" and acc: "hot_cmt_accessible c3"
      and lpas: "h_lpa ` hot_slot c3 ` used_slots c3 = h_lpa ` hot_slot c ` warm_slots c"
      using c3 set_warm_of [of "hot_slot c" "max_cached_hot_tpages (env c)"] by (auto simp: rehash_done_def warm_slots_def)
    have mem: "cmts (member c3) = cmts (member c)" "nr_ghost_cold (member c3) = nr_ghost_cold (member c)"
      using c3 by (auto dest: side_eqD)
    have gs: "ghosts_of c3 = ghosts_of c"
      by (simp add: ghosts_of_def env mem)
    have "returns (adaptive_ghost_update_caps_locked (upd_stat f c3)) (\<lambda>c'. part_ok c' \<and> ghost_rel (upd_stat f c3) c' \<and>
        ghosts_of c' \<subseteq> ghosts_of c3)"
      using e cnt acc k idx nr f by (intro caps_part_ok) (simp_all add: env mem count_ok_def gs)
    then show "returns (adaptive_ghost_update_caps_locked (upd_stat f c3))
      (\<lambda>c4. part_ok (adaptive_reset_stats c4) \<and> env_core (env (adaptive_reset_stats c4)) = env_core (env c) \<and>
       ghosts_of (adaptive_reset_stats c4) \<subseteq> ghosts_of c \<and>
       h_lpa ` hot_slot (adaptive_reset_stats c4) ` used_slots (adaptive_reset_stats c4) = h_lpa ` hot_slot c ` warm_slots c)"
    proof (rule returns_mono)
      fix c4
      assume c4: "part_ok c4 \<and> ghost_rel (upd_stat f c3) c4 \<and> ghosts_of c4 \<subseteq> ghosts_of c3"
      then have rel: "ghost_rel (upd_stat f c3) c4" by simp
      have "used_slots (upd_stat f c3) = used_slots c3" "used_slots (adaptive_reset_stats c4) = used_slots c4"
        by (simp_all add: used_slots_def adaptive_reset_stats_def)
      moreover have "part_ok (adaptive_reset_stats c4)"
        using c4 by (simp add: adaptive_reset_stats_def part_ok_stat)
      ultimately show "part_ok (adaptive_reset_stats c4) \<and> env_core (env (adaptive_reset_stats c4)) = env_core (env c) \<and>
       ghosts_of (adaptive_reset_stats c4) \<subseteq> ghosts_of c \<and>
       h_lpa ` hot_slot (adaptive_reset_stats c4) ` used_slots (adaptive_reset_stats c4) = h_lpa ` hot_slot c ` warm_slots c"
        using ghost_rel_used(2) [OF rel] ghost_rel_env [OF rel] c4 gs lpas env
        by (simp add: adaptive_reset_stats_def ghosts_of_def)
    qed
  qed
qed

section \<open>The moves\<close>

definition lpas_of :: "dcache \<Rightarrow> (nat \<times> nat) set \<Rightarrow> nat set" where
  "lpas_of c Q = h_lpa ` hot_slot c ` Q"

definition resized :: "dcache \<Rightarrow> dcache \<Rightarrow> dcache \<Rightarrow> bool" where
  "resized c c1 c' \<longleftrightarrow> part_ok c' \<and> env_core (env c') = env_core (env c1) \<and> ghosts_of c' \<subseteq> ghosts_of c \<and>
     lpas_of c' (used_slots c') = lpas_of c1 (warm_slots c1)"

lemma resize:
  assumes ok: "part_ok c" and e: "mem_ok (env c1)" "nr_valid_tpages (env c1) = nr_valid_tpages (env c)"
    and side: "side c1 = side c" and st: "states_ok c1"
    and f: "\<And>s. hot_pte_state_live (f s) = hot_pte_state_live s" "\<And>s. hot_valid_entries (f s) = hot_valid_entries s"
  shows "returns (do {
      c3 \<leftarrow> hot_rehash_drain_all (hot_rehash_begin c1);
      c4 \<leftarrow> adaptive_ghost_update_caps_locked (upd_stat f c3);
      Some (True, adaptive_reset_stats c4)
    }) (\<lambda>(moved, c'). moved \<and> resized c c1 c')"
proof -
  have m: "cmts (member c1) = cmts (member c)" "nr_ghost_cold (member c1) = nr_ghost_cold (member c)"
    using side by (auto dest: side_eqD)
  have gs: "ghosts_of c1 = ghosts_of c"
    by (simp add: ghosts_of_def e(2) m)
  have cnt: "count_ok c1"
    using ok by (simp add: part_ok_def ghost_ok_def count_ok_def gs m e(2))
  have idx: "\<forall>i. cmt_idx (cmts (member c1) i) = i" "nr_valid_tpages (env c1) \<le> 2 ^ 22"
    using ok by (simp_all add: part_ok_def m e(2))
  show ?thesis
    using resize_post [OF e(1) st cnt idx f] by (simp add: gs resized_def lpas_of_def)
qed

lemma expand_post:
  assumes ok: "part_ok c"
  shows "returns (adaptive_expand_hot_from_cold c) (\<lambda>(moved, c'). part_ok c' \<and> ghosts_of c' \<subseteq> ghosts_of c \<and>
    (if moved
     then max_cached_hot_tpages (env c') = max_cached_hot_tpages (env c) + chunk_tpages (env c) \<and>
       max_cached_tpages (env c') + chunk_tpages (env c) = max_cached_tpages (env c) \<and>
       lpas_of c' (used_slots c') = lpas_of c (warm_slots c)
     else c' = c))"
proof -
  let ?e = "env c" and ?k = "chunk_tpages (env c)" and ?h = "max_cached_hot_tpages (env c)"
  show ?thesis
  proof (cases "max_cached_tpages ?e \<le> min_cached_tpages ?e + ?k - 1 \<or> ?h + ?k > hot_tpages_cap ?e")
    case True
    then show ?thesis
      using ok by (auto simp: adaptive_expand_hot_from_cold_def Let_def)
  next
    case False
    define c1 where "c1 = upd_env (\<lambda>e. e\<lparr>max_cached_tpages := max_cached_tpages e - ?k,
             max_cached_hot_tpages := max_cached_hot_tpages e + ?k,
             max_cached_hot_entries := (max_cached_hot_tpages e + ?k) * EPP\<rparr>) c"
    define c2 where "c2 = fold adaptive_clear_hot_page [?h..<?h + ?k] c1"
    have e1: "max_cached_hot_tpages (env c1) = ?h + ?k" "max_cached_tpages (env c1) = max_cached_tpages ?e - ?k"
      "nr_valid_tpages (env c1) = nr_valid_tpages ?e" "side c1 = side c" "hot_slot c1 = hot_slot c"
      by (simp_all add: c1_def)
    have m: "mem_ok ?e" and st: "states_ok c"
      using ok by (auto simp: part_ok_def hot_ok_def)
    have "mem_ok (env c1)"
      using m False
      by (auto simp: mem_ok_def hot_env_ok_def static_env_def c1_def cache_partition_bytes_cold_def cache_partition_bytes_hot_def
          cache_partition_bytes_key_def PAGESIZE_val)
    then have m2: "mem_ok (env c2)"
      by (simp add: c2_def clear_pages)
    have slot: "hot_slot c2 (d, j) = hot_slot c (d, j)" if "d < ?h" for d j
      using clear_pages(4) [of d "[?h..<?h + ?k]" c1 j] that by (simp add: c2_def e1)
    have cleared: "h_lpa (hot_slot c2 (d, j)) = UINT32_MAX \<and> h_state (hot_slot c2 (d, j)) = MIN_STATE"
      if "?h \<le> d" "d < ?h + ?k" "j < EPP" for d j
      using clear_pages(5) [of d "[?h..<?h + ?k]" j c1] that by (simp add: c2_def)
    have st2: "states_ok c2"
      unfolding states_ok_def
    proof
      fix q
      assume "q \<in> region (max_cached_hot_tpages (env c2))"
      then obtain d j where q: "q = (d, j)" "d < ?h + ?k" "j < EPP"
        by (auto simp: region_def c2_def clear_pages e1)
      show "h_state (hot_slot c2 q) \<le> HOT_STATE_MAX"
      proof (cases "d < ?h")
        case True
        then show ?thesis
          using st q slot [OF True, of j] by (auto simp: states_ok_def region_def)
      next
        case False
        then show ?thesis
          using cleared [of d j] q by (simp add: state_vals)
      qed
    qed
    have warm: "lpas_of c2 (warm_slots c2) = lpas_of c (warm_slots c)"
    proof -
      have "(d, j) \<in> warm_slots c2 \<longleftrightarrow> (d, j) \<in> warm_slots c" for d j
        using slot [of d j] cleared [of d j]
        by (cases "d < ?h") (auto simp: warm_slots_def region_def hot_pte_is_warm_def c2_def clear_pages e1)
      then have w: "warm_slots c2 = warm_slots c"
        by auto
      have "hot_slot c2 q = hot_slot c q" if "q \<in> warm_slots c" for q
        using that slot by (auto simp: warm_slots_def region_def)
      then show ?thesis
        unfolding lpas_of_def w image_image by auto
    qed
    have s2: "side c2 = side c"
      by (simp add: c2_def clear_pages e1)
    have n2: "nr_valid_tpages (env c2) = nr_valid_tpages (env c)"
      by (simp add: c2_def clear_pages e1)
    have eq: "adaptive_expand_hot_from_cold c = do {
        c3 \<leftarrow> hot_rehash_drain_all (hot_rehash_begin c2);
        c4 \<leftarrow> adaptive_ghost_update_caps_locked (upd_stat (\<lambda>s. s\<lparr>expand_count := expand_count s + 1\<rparr>) c3);
        Some (True, adaptive_reset_stats c4)
      }"
      using False by (simp add: adaptive_expand_hot_from_cold_def Let_def c2_def c1_def)
    have fin: "part_ok c' \<and> ghosts_of c' \<subseteq> ghosts_of c \<and> max_cached_hot_tpages (env c') = ?h + ?k \<and>
        max_cached_tpages (env c') + ?k = max_cached_tpages ?e \<and> lpas_of c' (used_slots c') = lpas_of c (warm_slots c)"
      if "resized c c2 c'" for c'
    proof -
      have "env_core (env c') = env_core (env c1)"
        using that by (simp add: resized_def c2_def clear_pages)
      then show ?thesis
        using that False env_core_simps(1,3) [of "env c'" "env c1"] unfolding resized_def warm by (auto simp: e1)
    qed
    show ?thesis
      unfolding eq by (rule returns_mono [OF resize [OF ok m2 n2 s2 st2]]) (auto dest: fin)
  qed
qed

text \<open>A shrink drops the entries of the removed pages and the cold ones.\<close>

lemma shrink_post:
  assumes ok: "part_ok c"
  shows "returns (adaptive_shrink_hot_to_cold c) (\<lambda>(moved, c'). part_ok c' \<and> ghosts_of c' \<subseteq> ghosts_of c \<and>
    (if moved
     then max_cached_hot_tpages (env c') + chunk_tpages (env c) = max_cached_hot_tpages (env c) \<and>
       max_cached_tpages (env c') = max_cached_tpages (env c) + chunk_tpages (env c) \<and>
       lpas_of c' (used_slots c') = lpas_of c {q \<in> warm_slots c. fst q < max_cached_hot_tpages (env c) - chunk_tpages (env c)}
     else c' = c))"
proof -
  let ?e = "env c" and ?k = "chunk_tpages (env c)" and ?h = "max_cached_hot_tpages (env c)"
  show ?thesis
  proof (cases "?h \<le> min_cached_hot_tpages ?e + ?k - 1 \<or> max_cached_tpages ?e + ?k > total_cache_tpages ?e")
    case True
    then show ?thesis
      using ok by (auto simp: adaptive_shrink_hot_to_cold_def Let_def)
  next
    case False
    define c1 where "c1 = fold adaptive_clear_hot_page [?h - ?k..<?h] c"
    define c2 where "c2 = upd_env (\<lambda>e. e\<lparr>max_cached_hot_tpages := max_cached_hot_tpages e - ?k,
             max_cached_hot_entries := (max_cached_hot_tpages e - ?k) * EPP,
             max_cached_tpages := max_cached_tpages e + ?k\<rparr>) c1"
    have c1: "env c1 = ?e" "side c1 = side c"
      by (simp_all add: c1_def clear_pages)
    have e2: "max_cached_hot_tpages (env c2) = ?h - ?k" "max_cached_tpages (env c2) = max_cached_tpages ?e + ?k"
      "nr_valid_tpages (env c2) = nr_valid_tpages ?e" "side c2 = side c" "hot_slot c2 = hot_slot c1"
      by (simp_all add: c2_def c1)
    have m: "mem_ok ?e" and st: "states_ok c"
      using ok by (auto simp: part_ok_def hot_ok_def)
    have m2: "mem_ok (env c2)"
      using m False
      by (auto simp: mem_ok_def hot_env_ok_def static_env_def c2_def c1 cache_partition_bytes_cold_def cache_partition_bytes_hot_def
          cache_partition_bytes_key_def PAGESIZE_val)
    have slot: "hot_slot c2 (d, j) = hot_slot c (d, j)" if "d < ?h - ?k" for d j
      using clear_pages(4) [of d "[?h - ?k..<?h]" c j] that by (simp add: c1_def e2)
    have st2: "states_ok c2"
      using st slot by (auto simp: states_ok_def region_def e2)
    have warm: "lpas_of c2 (warm_slots c2) = lpas_of c {q \<in> warm_slots c. fst q < ?h - ?k}"
    proof -
      have w: "warm_slots c2 = {q \<in> warm_slots c. fst q < ?h - ?k}"
        using slot by (auto simp: warm_slots_def region_def e2)
      have "hot_slot c2 q = hot_slot c q" if "fst q < ?h - ?k" for q
        using slot [of "fst q" "snd q"] that by simp
      then show ?thesis
        unfolding lpas_of_def w image_image by auto
    qed
    have eq: "adaptive_shrink_hot_to_cold c = do {
        c3 \<leftarrow> hot_rehash_drain_all (hot_rehash_begin c2);
        c4 \<leftarrow> adaptive_ghost_update_caps_locked (upd_stat (\<lambda>s. s\<lparr>shrink_count := shrink_count s + 1\<rparr>) c3);
        Some (True, adaptive_reset_stats c4)
      }"
      using False by (simp add: adaptive_shrink_hot_to_cold_def Let_def c2_def c1_def)
    have fin: "part_ok c' \<and> ghosts_of c' \<subseteq> ghosts_of c \<and> max_cached_hot_tpages (env c') + ?k = ?h \<and>
        max_cached_tpages (env c') = max_cached_tpages ?e + ?k \<and>
        lpas_of c' (used_slots c') = lpas_of c {q \<in> warm_slots c. fst q < ?h - ?k}"
      if "resized c c2 c'" for c'
      using that False env_core_simps(1,3) [of "env c'" "env c2"] unfolding resized_def warm by (auto simp: e2)
    show ?thesis
      unfolding eq by (rule returns_mono [OF resize [OF ok m2 e2(3,4) st2]]) (auto dest: fin)
  qed
qed

lemma expand_key_post:
  assumes ok: "part_ok c"
  shows "returns (adaptive_expand_key_cache free c) (\<lambda>(moved, c'). part_ok c' \<and> ghosts_of c' \<subseteq> ghosts_of c \<and>
    max_cached_hot_tpages (env c') = max_cached_hot_tpages (env c) \<and> chunk_tpages (env c') = chunk_tpages (env c) \<and>
    lpas_of c' (used_slots c') = lpas_of c (used_slots c) \<and> (\<not> moved \<longrightarrow> c' = c))"
proof -
  let ?e = "env c"
  define p where "p = (let pages = (key_chunk_entries ?e + PAGESIZE - 1) div PAGESIZE in if pages = 0 then 1 else pages)"
  show ?thesis
  proof (cases "free \<noteq> 0 \<or> max_cached_full_key_budget ?e \<ge> key_entries_cap ?e \<or> max_cached_tpages ?e \<le> min_cached_tpages ?e + p - 1")
    case True
    then show ?thesis
      using ok by (auto simp: adaptive_expand_key_cache_def Let_def p_def)
  next
    case False
    define nb where "nb = (if max_cached_full_key_budget ?e + key_chunk_entries ?e > key_entries_cap ?e then key_entries_cap ?e
                             else max_cached_full_key_budget ?e + key_chunk_entries ?e)"
    define c1 where "c1 = upd_env (\<lambda>e. e\<lparr>max_cached_tpages := max_cached_tpages e - p,
                     max_cached_full_key_budget := nb,
                     max_cached_full_key := nb - (max_cached_full_key_budget ?e - free)\<rparr>) c"
    obtain k where k: "hot_ok k c"
      using ok by (auto simp: part_ok_def)
    have m: "mem_ok ?e"
      using ok by (simp add: part_ok_def)
    have "key_chunk_entries ?e \<le> p * PAGESIZE"
      by (auto simp: p_def Let_def PAGESIZE_val)
    then have m1: "mem_ok (env c1)"
      using m False
      by (auto simp: mem_ok_def hot_env_ok_def static_env_def c1_def nb_def cache_partition_bytes_cold_def cache_partition_bytes_hot_def
          cache_partition_bytes_key_def PAGESIZE_val)
    have e1: "max_cached_hot_tpages (env c1) = max_cached_hot_tpages ?e" "chunk_tpages (env c1) = chunk_tpages ?e"
      "nr_valid_tpages (env c1) = nr_valid_tpages ?e" "member c1 = member c" "hot_slot c1 = hot_slot c" "rehash c1 = rehash c"
      "stat c1 = stat c"
      by (simp_all add: c1_def)
    have gs: "ghosts_of c1 = ghosts_of c"
      by (simp add: ghosts_of_def e1)
    have "hot_ok k c1"
      using k m1 by (simp add: hot_ok_def states_ok_def live_ok_def valid_ok_def e1 mem_ok_def)
    then have post: "returns (adaptive_ghost_update_caps_locked (upd_stat (\<lambda>s. s\<lparr>expand_count := expand_count s + 1\<rparr>) c1))
        (\<lambda>c'. part_ok c' \<and> ghost_rel (upd_stat (\<lambda>s. s\<lparr>expand_count := expand_count s + 1\<rparr>) c1) c' \<and> ghosts_of c' \<subseteq> ghosts_of c1)"
      using m1 ok by (intro caps_part_ok) (auto simp: part_ok_def ghost_ok_def count_ok_def gs e1 hot_cmt_accessible_def)
    have eq: "adaptive_expand_key_cache free c = do {
        c2 \<leftarrow> adaptive_ghost_update_caps_locked (upd_stat (\<lambda>s. s\<lparr>expand_count := expand_count s + 1\<rparr>) c1);
        Some (True, adaptive_reset_stats c2)
      }"
      using False by (simp add: adaptive_expand_key_cache_def Let_def c1_def nb_def p_def)
    show ?thesis
      unfolding eq returns_simps using post
    proof (rule returns_mono)
      fix c2
      assume c2: "part_ok c2 \<and> ghost_rel (upd_stat (\<lambda>s. s\<lparr>expand_count := expand_count s + 1\<rparr>) c1) c2 \<and> ghosts_of c2 \<subseteq> ghosts_of c1"
      then have rel: "ghost_rel (upd_stat (\<lambda>s. s\<lparr>expand_count := expand_count s + 1\<rparr>) c1) c2" by simp
      have core: "env_core (env c2) = env_core (env c1)"
        using ghost_rel_env [OF rel] by simp
      have u: "used_slots (upd_stat (\<lambda>s. s\<lparr>expand_count := expand_count s + 1\<rparr>) c1) = used_slots c"
        by (simp add: used_slots_def e1)
      show "case (True, adaptive_reset_stats c2) of (moved, c') \<Rightarrow> part_ok c' \<and> ghosts_of c' \<subseteq> ghosts_of c \<and>
          max_cached_hot_tpages (env c') = max_cached_hot_tpages (env c) \<and> chunk_tpages (env c') = chunk_tpages (env c) \<and>
          lpas_of c' (used_slots c') = lpas_of c (used_slots c) \<and> (\<not> moved \<longrightarrow> c' = c)"
        using c2 env_core_simps(1,10) [OF core] ghost_rel_used [OF rel]
        by (simp add: adaptive_reset_stats_def part_ok_stat ghosts_of_def e1 lpas_of_def u used_slots_def)
    qed
  qed
qed

lemma try_rebalance_post:
  assumes ok: "part_ok c"
  shows "returns (adaptive_try_rebalance c) (\<lambda>c'. part_ok c' \<and> ghosts_of c' \<subseteq> ghosts_of c)"
proof -
  have acc: "hot_cmt_accessible c"
    using ok by (simp add: part_ok_def)
  let ?P = "\<lambda>c'. part_ok c' \<and> ghosts_of c' \<subseteq> ghosts_of c"
  have a: "returns (if b then adaptive_expand_hot_from_cold c else Some (False, c)) (\<lambda>(_, c'). ?P c')" for b
    using expand_post [OF ok] ok by (cases b) (auto elim!: returns_mono)
  have k: "returns (if b then adaptive_expand_key_cache n c1 else Some (False, c1)) (\<lambda>(_, c'). ?P c')" if "?P c1" for b n c1
    using expand_key_post [of c1 n] that by (cases b) (auto elim!: returns_mono)
  have s: "returns (adaptive_shrink_hot_to_cold c1) (\<lambda>(_, c'). ?P c')" if "?P c1" for c1
    using shrink_post [of c1] that by (auto elim!: returns_mono)
  have kk: "returns (do {
          (stop, c2) \<leftarrow> (if b then adaptive_expand_key_cache n c1 else Some (False, c1));
          if stop then Some c2
          else if w then do { (_, c3) \<leftarrow> adaptive_shrink_hot_to_cold c2; Some c3 }
          else Some c2
        }) ?P" if "?P c1" for b n c1 w
    by (rule returns_bindI [OF k [OF that]]) (auto intro!: returns_mono [OF s])
  have "returns (do {
        (stop, c1) \<leftarrow> (if b then adaptive_expand_hot_from_cold c else Some (False, c));
        if stop then Some c1
        else do {
          (stop, c2) \<leftarrow> (if max_cached_full_key (env c1) = 0
                        then adaptive_expand_key_cache (max_cached_full_key (env c1)) c1 else Some (False, c1));
          if stop then Some c2
          else if w then do { (_, c3) \<leftarrow> adaptive_shrink_hot_to_cold c2; Some c3 }
          else Some c2
        }
      }) ?P" for b w
    by (rule returns_bindI [OF a], simp only: split_paired_all prod.case, rename_tac stop c1, case_tac stop,
        simp_all only: if_True if_False returns_simps(1) kk)
  then show ?thesis
    using acc by (simp only: adaptive_try_rebalance_def not_True_eq_False if_False)
qed

section \<open>The other operations\<close>

lemma heat_change_page:
  assumes "heat_change g"
  shows "cmt_idx (g x) = cmt_idx x" "ghost_mark (g x) = ghost_mark x"
  using assms by (simp_all add: heat_change_def)

lemma part_ok_side:
  assumes ok: "part_ok c" and "env c' = env c" and "rehash c' = rehash c" and hot: "hot_ok k c'"
    and g: "heat_change g" and side: "side c' = side (upd_cmt v g c)"
  shows "part_ok c' \<and> ghosts_of c' = ghosts_of c"
proof -
  have m: "cmts (member c') = (cmts (member c))(v := g (cmts (member c) v))"
    "nr_ghost_cold (member c') = nr_ghost_cold (member c)" "cold_fifo c' = cold_fifo c" "key_fifo c' = key_fifo c"
    using side_eqD(1,3-5) [OF side] by simp_all
  have gs: "ghosts_of c' = ghosts_of c"
    by (auto simp: ghosts_of_def m assms(2) heat_change_page [OF g])
  have "\<forall>i. cmt_idx (cmts (member c') i) = i"
    using ok by (auto simp: part_ok_def m heat_change_page [OF g])
  moreover have "ghost_ok c'"
    using ok by (simp add: part_ok_def ghost_ok_def gs m(2-4) assms(2))
  ultimately show ?thesis
    using ok hot gs assms(2,3) by (auto simp: part_ok_def hot_cmt_accessible_def)
qed

lemma promote_part_ok:
  assumes ok: "part_ok c" and v: "v < nr_valid_tpages (env c)"
  shows "returns (dftl_cache_promote_hot (Some v) c) (\<lambda>(_, c'). part_ok c' \<and> ghosts_of c' = ghosts_of c)"
proof -
  obtain k where k: "hot_ok k c" "hot_cmt_accessible c"
    using ok by (auto simp: part_ok_def)
  have "cmt_idx (cmts (member c) w) < 2 ^ 22" if "Some v = Some w" for w
    using ok v that by (auto simp: part_ok_def)
  from promote_hot_same [OF k this] show ?thesis
    by (rule returns_mono) (auto dest: part_ok_side [OF ok])
qed

lemma lookup_part_ok:
  assumes ok: "part_ok c"
  shows "returns (dftl_cache_hot_is_hit lpa c) (\<lambda>(_, c'). part_ok c' \<and> ghosts_of c' = ghosts_of c)"
proof -
  obtain k where k: "hot_ok k c" "hot_cmt_accessible c" and eo: "hot_env_ok (env c)"
    using ok by (auto simp: part_ok_def hot_ok_def)
  have "returns (dftl_cache_hot_is_hit lpa c) (\<lambda>(_, c'). side c' = side (upd_cmt 0 (\<lambda>x. x) c))"
    by (auto simp: is_hit_eq [OF eo k(2)] split: option.split)
  from returns_conj [OF this is_hit_ok [OF k]] show ?thesis
    by (rule returns_mono) (auto dest: part_ok_side [OF ok _ _ _ heat_change_intros(1)])
qed

lemma access_part_ok:
  assumes ok: "part_ok c"
  shows "part_ok (dftl_cache_cold_grain_access lpa c) \<and> ghosts_of (dftl_cache_cold_grain_access lpa c) = ghosts_of c"
proof -
  let ?c = "dftl_cache_cold_grain_access lpa c" and ?g = "\<lambda>x. snd (cmt_grain_heat_raise x (int (P_IDX lpa)))"
  obtain k where k: "hot_ok k c"
    using ok by (auto simp: part_ok_def)
  have g: "heat_change ?g"
    by (simp add: heat_change_def cmt_grain_heat_raise_def Let_def)
  obtain cnt x where r: "cmt_grain_heat_raise (cmts (member c) (D_IDX lpa)) (int (P_IDX lpa)) = (cnt, x)"
    by (cases "cmt_grain_heat_raise (cmts (member c) (D_IDX lpa)) (int (P_IDX lpa))")
  have upd: "upd_cmt (D_IDX lpa) (\<lambda>_. x) c = upd_cmt (D_IDX lpa) ?g c"
    by (simp add: upd_cmt_def upd_member_def r)
  have "env ?c = env c \<and> rehash ?c = rehash c \<and> hot_ok k ?c \<and> (side ?c = side c \<or> side ?c = side (upd_cmt (D_IDX lpa) ?g c))"
    using k by (simp add: dftl_cache_cold_grain_access_def Let_def hot_ok_stat r upd)
  then have "env ?c = env c \<and> rehash ?c = rehash c \<and> hot_ok k ?c \<and> (\<exists>h. heat_change h \<and> side ?c = side (upd_cmt (D_IDX lpa) h c))"
    using g heat_change_intros(1) side_upd_cmt_id [of "D_IDX lpa" c] by metis
  then show ?thesis
    using part_ok_side [OF ok] by blast
qed

lemma reset_sel: "h_lpa (reset_slot e) = UINT32_MAX" "h_state (reset_slot e) = MIN_STATE"
  by (simp_all add: reset_slot_def)

lemma reset_part_ok:
  assumes ok: "part_ok c"
  shows "part_ok (dftl_cache_hot_reset c) \<and> ghosts_of (dftl_cache_hot_reset c) = ghosts_of c"
proof -
  have fold: "env (fold (\<lambda>q. upd_slot q reset_slot) qs d) = env d \<and> rehash (fold (\<lambda>q. upd_slot q reset_slot) qs d) = rehash d \<and>
      side (fold (\<lambda>q. upd_slot q reset_slot) qs d) = side d \<and>
      (\<forall>q. (q \<in> set qs \<or> h_lpa (hot_slot d q) = UINT32_MAX \<and> h_state (hot_slot d q) = MIN_STATE) \<longrightarrow>
        h_lpa (hot_slot (fold (\<lambda>q. upd_slot q reset_slot) qs d) q) = UINT32_MAX \<and>
        h_state (hot_slot (fold (\<lambda>q. upd_slot q reset_slot) qs d) q) = MIN_STATE)" for qs d
  proof (induction qs arbitrary: d)
    case (Cons x qs)
    show ?case
      using Cons.IH [of "upd_slot x reset_slot d"] by (auto simp: reset_sel simp del: split_paired_All)
  qed simp
  let ?c = "dftl_cache_hot_reset c"
  have e: "env ?c = env c" "rehash ?c = rehash c" "side ?c = side c"
    using fold by (simp_all add: dftl_cache_hot_reset_def Let_def)
  have "h_lpa (hot_slot ?c q) = UINT32_MAX \<and> h_state (hot_slot ?c q) = MIN_STATE"
    if "q \<in> region (max_cached_hot_tpages (env c))" for q
    using fold [of "slots_of (max_cached_hot_tpages (env c))" c] that
    by (auto simp: dftl_cache_hot_reset_def Let_def simp del: split_paired_All)
  moreover have "hot_pte_state_live (stat ?c) = (\<lambda>_. 0)" "hot_valid_entries (stat ?c) = 0"
    by (simp_all add: dftl_cache_hot_reset_def Let_def)
  ultimately have "hot_ok 0 ?c"
    using ok by (intro empty_table_hot_ok) (auto simp: e part_ok_def mem_ok_def states_ok_def in_use_def state_vals)
  then show ?thesis
    using part_ok_side [OF ok e(1,2) _ heat_change_intros(1)] e(3) by simp
qed

text \<open>Operations on the marks: the hot table is not involved.\<close>

lemma part_ok_marks:
  assumes ok: "part_ok c" and e: "env c' = env c" "rehash c' = rehash c" "hot_slot c' = hot_slot c"
    "hot_pte_state_live (stat c') = hot_pte_state_live (stat c)" "hot_valid_entries (stat c') = hot_valid_entries (stat c)"
    and "ghost_ok c'" and "\<And>i. cmt_idx (cmts (member c') i) = cmt_idx (cmts (member c) i)"
  shows "part_ok c'"
proof -
  obtain k where "hot_ok k c"
    using ok by (auto simp: part_ok_def)
  then have "hot_ok k c'"
    by (simp add: hot_ok_def states_ok_def live_ok_def valid_ok_def e)
  then show ?thesis
    using ok assms(7,8) by (auto simp: part_ok_def e hot_cmt_accessible_def)
qed

lemma ghost_rel_part_ok:
  assumes ok: "part_ok c" and rel: "ghost_rel c c'" and "ghost_ok c'" and env: "env c' = env c"
  shows "part_ok c'"
proof -
  obtain k where k: "hot_ok k c"
    using ok by (auto simp: part_ok_def)
  have "cmt_idx (cmts (member c') i) = i" for i
  proof -
    have "page_core (cmts (member c') i) = page_core (cmts (member c) i)"
      using rel unfolding ghost_rel_def by simp
    then show ?thesis
      using ok by (simp add: page_core_def part_ok_def)
  qed
  moreover have "rehash c' = rehash c"
    using rel by (simp add: ghost_rel_def)
  ultimately show ?thesis
    using ok ghost_rel_hot_ok [OF rel k] assms(3) by (auto simp: part_ok_def env hot_cmt_accessible_def)
qed

lemma mark_part_ok:
  assumes ok: "part_ok c" and v: "v < nr_valid_tpages (env c)"
  shows "returns (adaptive_ghost_cold_mark v c) (\<lambda>c'. part_ok c' \<and> ghosts_of c' \<subseteq> insert v (ghosts_of c) \<and>
    (ghost_cold_cap (env c) \<noteq> 0 \<longrightarrow> v \<in> ghosts_of c'))"
proof (cases "ghost_cold_cap (env c) = 0 \<or> ghost_mark (cmts (member c) v)")
  case True
  then show ?thesis
    using ok v by (auto simp: adaptive_ghost_cold_mark_def ghosts_of_def)
next
  case False
  have gok: "ghost_ok c"
    using ok by (simp add: part_ok_def)
  have room: "returns (cold_make_room (\<lambda>n. n \<ge> ghost_cold_cap (env c)) c) (\<lambda>c1. ghost_ok c1 \<and> ghost_rel c c1 \<and> env c1 = env c \<and>
      nr_ghost_key (member c1) = nr_ghost_key (member c) \<and> ghosts_of c1 \<subseteq> ghosts_of c)"
    using gok False by (intro cold_make_room_post) auto
  have fin: "part_ok c3 \<and> ghosts_of c3 \<subseteq> insert v (ghosts_of c) \<and> v \<in> ghosts_of c3"
    if c1: "ghost_ok c1 \<and> ghost_rel c c1 \<and> env c1 = env c \<and>
      nr_ghost_key (member c1) = nr_ghost_key (member c) \<and> ghosts_of c1 \<subseteq> ghosts_of c"
      and c2: "c2 = upd_member (\<lambda>m. m\<lparr>nr_ghost_cold := nr_ghost_cold m + 1\<rparr>)
        (upd_cmt v (\<lambda>x. x\<lparr>ghost_mark := True, page_heat_sum := 0, cnt_map := None\<rparr>) c1)"
      and c3: "c3 = c2\<lparr>cold_fifo := adaptive_ghost_fifo_push p (cold_fifo c2)\<rparr>" for c1 c2 c3 p
  proof -
    have p1: "part_ok c1"
      using ghost_rel_part_ok [OF ok] c1 by blast
    have nv: "v \<notin> ghosts_of c1"
      using c1 False by (auto simp: ghosts_of_def)
    have gs: "ghosts_of c3 = insert v (ghosts_of c1)"
      using v c1 by (auto simp: ghosts_of_def c2 c3 upd_cmt_def)
    have "unat (nr_ghost_cold (member c1)) < 2 ^ 32"
      using c1 card_ghosts_le [of c1] by (auto simp: ghost_ok_def)
    then have "unat (nr_ghost_cold (member c1) + 1) = unat (nr_ghost_cold (member c1)) + 1"
      by (simp add: unat_word_ariths)
    moreover have "env c3 = env c1" "nr_ghost_cold (member c3) = nr_ghost_cold (member c1) + 1"
      "cold_fifo c3 = adaptive_ghost_fifo_push p (cold_fifo c1)" "key_fifo c3 = key_fifo c1"
      by (simp_all add: c2 c3 upd_cmt_def)
    moreover have "ghost_ok c1"
      using c1 by simp
    ultimately have "ghost_ok c3"
      using nv ring.push [of "cold_fifo c1" p] by (simp add: ghost_ok_def gs)
    then have "part_ok c3"
      by (intro part_ok_marks [OF p1]) (simp_all add: c2 c3 upd_cmt_def hot_slot_def)
    then show ?thesis
      using gs c1 by auto
  qed
  show ?thesis
    using False unfolding adaptive_ghost_cold_mark_def
    by (simp only: if_False Let_def) (rule returns_bindI [OF room], simp only: returns_simps(1),
        drule fin [OF _ refl refl], blast)
qed

lemma clear_part_ok:
  assumes ok: "part_ok c" and v: "v < nr_valid_tpages (env c)"
  shows "part_ok (adaptive_ghost_cold_clear v c) \<and> ghosts_of (adaptive_ghost_cold_clear v c) = ghosts_of c - {v}"
proof (cases "ghost_mark (cmts (member c) v)")
  case False
  then show ?thesis
    using ok by (auto simp: adaptive_ghost_cold_clear_def ghosts_of_def)
next
  case True
  let ?c = "adaptive_ghost_cold_clear v c"
  have c: "env ?c = env c" "rehash ?c = rehash c" "stat ?c = stat c" "hot_slot ?c = hot_slot c" "cold_fifo ?c = cold_fifo c"
    "key_fifo ?c = key_fifo c" "cmts (member ?c) = (cmts (member c))(v := (cmts (member c) v)\<lparr>ghost_mark := False\<rparr>)"
    "nr_ghost_cold (member ?c) = nr_ghost_cold (member c) - 1"
    using True by (simp_all add: adaptive_ghost_cold_clear_def upd_cmt_def)
  have mem: "v \<in> ghosts_of c"
    using True v by (simp add: ghosts_of_def)
  have gs: "ghosts_of ?c = ghosts_of c - {v}"
    by (auto simp: ghosts_of_def c)
  have pos: "0 < unat (nr_ghost_cold (member c))"
    using ok mem by (auto simp: part_ok_def ghost_ok_def card_gt_0_iff)
  have "ghost_ok ?c"
    using ok mem by (simp add: part_ok_def ghost_ok_def gs c unat_dec [OF pos])
  then show ?thesis
    using gs by (intro conjI part_ok_marks [OF ok]) (simp_all add: c)
qed

lemma miss_part_ok:
  assumes "part_ok c"
  shows "part_ok (adaptive_ghost_cold_on_miss v u c) \<and> ghosts_of (adaptive_ghost_cold_on_miss v u c) = ghosts_of c"
  using assms by (simp add: adaptive_ghost_cold_on_miss_def part_ok_stat ghosts_of_def)

lemma prepare_part_ok:
  assumes ok: "part_ok c"
  shows "part_ok (adaptive_prepare_for_benchmark c) \<and> ghosts_of (adaptive_prepare_for_benchmark c) = {}"
proof -
  let ?f = "\<lambda>i. upd_cmt i (\<lambda>x. if ghost_mark x then x\<lparr>ghost_mark := False, page_heat_sum := 0\<rparr> else x)"
  have fold: "env (fold ?f is d) = env d \<and> rehash (fold ?f is d) = rehash d \<and> stat (fold ?f is d) = stat d \<and>
      hot_slot (fold ?f is d) = hot_slot d \<and> cold_fifo (fold ?f is d) = cold_fifo d \<and> key_fifo (fold ?f is d) = key_fifo d \<and>
      (\<forall>i. cmt_idx (cmts (member (fold ?f is d)) i) = cmt_idx (cmts (member d) i)) \<and>
      (\<forall>i. ghost_mark (cmts (member (fold ?f is d)) i) = (ghost_mark (cmts (member d) i) \<and> i \<notin> set is))" for "is" d
    by (induction "is" arbitrary: d) (auto simp: fun_upd_def)
  let ?c = "adaptive_prepare_for_benchmark c"
  have gs: "ghosts_of ?c = {}"
    using fold by (auto simp: ghosts_of_def adaptive_prepare_for_benchmark_def Let_def)
  have r: "ring_ok gf \<Longrightarrow> ring_ok (fifo_restart gf)" for gf
    by (simp add: ring_ok_def fifo_restart_def)
  have "ghost_ok ?c"
    using ok fold r by (simp add: ghost_ok_def gs part_ok_def) (simp add: adaptive_prepare_for_benchmark_def Let_def)
  then have "part_ok ?c"
    by (intro part_ok_marks [OF ok]) (simp_all add: adaptive_prepare_for_benchmark_def Let_def fold)
  then show ?thesis
    using gs by simp
qed

section \<open>Creation\<close>

lemma static_init [simp]: "static_env cache_env_init = (65537, 13107, 655, 655, 655, 699050)"
  by (simp add: static_env_def)

lemma init_parts:
  "mem_ok cache_env_init" "count_ok blank_dcache" "hot_cmt_accessible blank_dcache" "hot_ok 0 blank_dcache"
  "\<forall>i. cmt_idx (cmts (member blank_dcache) i) = i" "nr_valid_tpages cache_env_init \<le> 2 ^ 22"
proof -
  have eo: "hot_env_ok cache_env_init"
    by (simp add: hot_env_ok_def EPP_val)
  then show "mem_ok cache_env_init"
    by (simp add: mem_ok_def cache_partition_bytes_cold_def cache_partition_bytes_hot_def cache_partition_bytes_key_def)
  show "count_ok blank_dcache"
    by (simp add: count_ok_def ghosts_of_def blank_dcache_def cache_member_init_def blank_cmt_def)
  show "hot_cmt_accessible blank_dcache"
    by (simp add: hot_cmt_accessible_def blank_dcache_def rehash_zero_def)
  show "hot_ok 0 blank_dcache"
  proof (rule empty_table_hot_ok)
    show "hot_env_ok (env blank_dcache)"
      using eo by (simp add: blank_dcache_def)
    show "hot_pte_state_live (stat blank_dcache) = (\<lambda>_. 0)" "hot_valid_entries (stat blank_dcache) = 0"
      by (simp_all add: blank_dcache_def cache_stat_init_def)
  qed (simp_all add: states_ok_def in_use_def, simp_all add: empty_slot_def state_vals)
  show "\<forall>i. cmt_idx (cmts (member blank_dcache) i) = i"
    by (simp add: blank_dcache_def cache_member_init_def blank_cmt_def)
  show "nr_valid_tpages cache_env_init \<le> 2 ^ 22"
    by simp
qed

lemma create_post: "returns dftl_cache_create part_ok"
proof -
  let ?f = "\<lambda>s. s\<lparr>ghost_hit_cold := 0, ghost_hit_key := 0, hot_evict_count := 0, cold_evict_count := 0,
    expand_count := 0, shrink_count := (0 :: nat)\<rparr>"
  have "upd_member (\<lambda>m. m\<lparr>nr_ghost_cold := 0, nr_ghost_key := 0\<rparr>) (upd_stat ?f blank_dcache) = upd_stat ?f blank_dcache"
    by (simp add: upd_member_def upd_stat_def blank_dcache_def cache_member_init_def)
  then have eq: "dftl_cache_create = adaptive_ghost_update_caps_locked (upd_stat ?f blank_dcache)"
    by (simp add: dftl_cache_create_def adaptive_stats_bootstrap_def Let_def blank_dcache_def)
  have e: "env blank_dcache = cache_env_init"
    by (simp add: blank_dcache_def)
  have "returns (adaptive_ghost_update_caps_locked (upd_stat ?f blank_dcache)) (\<lambda>c'. part_ok c' \<and>
      ghost_rel (upd_stat ?f blank_dcache) c' \<and> ghosts_of c' \<subseteq> ghosts_of blank_dcache)"
    using init_parts by (intro caps_part_ok [where k = 0]) (simp_all add: e)
  then show ?thesis
    unfolding eq by (rule returns_mono) simp
qed

end
