(* ===== verification/Serve.thy ===== *)
theory Serve
  imports Demand Partition
begin

text \<open>
  Properties of the translation layer as its clients see it: the state after start-up, writes that
  the buffer absorbs and reads of buffered keys.
\<close>

section \<open>Start-up\<close>

lemma make_room_noop:
  "\<not> full (unat (nr_ghost_cold (member c))) \<Longrightarrow> cold_make_room full c = Some c"
  "\<not> full (unat (nr_ghost_key (member c))) \<Longrightarrow> key_make_room full c = Some c"
  by (subst cold_make_room.simps, simp) (subst key_make_room.simps, simp)

lemma dftl_cache_create_val:
  obtains c where "dftl_cache_create = Some c" "member c = cache_member_init" "nr_valid_tentries (env c) = 357913600"
    "nr_valid_tpages (env c) = 699050" "max_cached_tpages (env c) = 62260" "part_ok c"
proof -
  have "\<exists>c. dftl_cache_create = Some c \<and> member c = cache_member_init \<and> nr_valid_tentries (env c) = 357913600 \<and>
    nr_valid_tpages (env c) = 699050 \<and> max_cached_tpages (env c) = 62260"
    by (simp add: dftl_cache_create_def adaptive_stats_bootstrap_def adaptive_ghost_update_caps_locked_def
        adaptive_ghost_trim_locked_def adaptive_ghost_compute_caps_def Let_def upd_env_def upd_stat_def upd_member_def
        make_room_noop cache_member_init_def)
  then show thesis using that returnsD [OF create_post] by blast
qed

lemma demand_create_returns:
  "returns (demand_create g keys0 s) (\<lambda>s'. wb s' = skiplist_init g \<and> reqs s' = reqs s \<and> finish_q s' = [] \<and>
     member (cache s') = cache_member_init \<and> nr_valid_tentries (env (cache s')) = 357913600 \<and> wb_retry_q s' = algo_q_create \<and>
     req_retry_q s' = algo_q_create \<and> part_ok (cache s') \<and> max_try (denv s') = 0 \<and> real_keys s' = keys0)"
proof -
  obtain c where c: "dftl_cache_create = Some c" "member c = cache_member_init" "nr_valid_tentries (env c) = 357913600" "part_ok c"
    by (rule dftl_cache_create_val)
  obtain b where b: "dftl_bm_init = Some b"
    by (rule dftl_bm_init_obtain)
  have page: "dftl_page_init t = Some (t\<lparr>bmgr := bmgr t, d_active := None, t_reserve := Some (sblk_rsv (part (bmgr t) MAP_S)),
      t_active := None\<rparr>)" for t
    by (simp add: dftl_page_init_def dftl_get_active_sblk_def MAP_S_def DATA_S_def)
  have denv: "max_try demand_env_init = 0"
    unfolding demand_env_init_def Let_def by (rule demand_env.select_convs)
  show ?thesis
    by (simp add: demand_create_def c b page denv dftl_wb_init_def)
qed

section \<open>The buffer as a map\<close>

definition buffered :: "sys \<Rightarrow> (str_key \<rightharpoonup> value_set) \<Rightarrow> bool" where
  "buffered s b \<longleftrightarrow> (\<exists>xs. sl_rep (wb s) xs \<and> map_of (sl_items (sl_mem (wb s)) xs) = b)"

lemma length_ins_item: "length (ins_item k v xs) \<le> Suc (length xs)"
  by (induction xs) auto

lemma sl_rep_size: "sl_rep l xs \<Longrightarrow> sl_size l = length (sl_items (sl_mem l) xs)"
  by (simp add: sl_rep_def sl_items_def)

lemma do_wb_insert_buffered:
  assumes "buffered s b" and q: "reqs s r = Some q" "r_value q = Some v" and key: "key_less (r_key q) key_max"
  shows "returns (do_wb_insert draws r s) (\<lambda>(rc, s'). buffered s' (b(r_key q \<mapsto> norm_value v)) \<and>
    sl_size (wb s') \<le> Suc (sl_size (wb s)) \<and>
    s' = s\<lparr>wb := wb s', reqs := (reqs s)(r \<mapsto> q\<lparr>r_h_params := None, r_value := None\<rparr>)\<rparr>)"
proof -
  obtain xs where xs: "sl_rep (wb s) xs" "map_of (sl_items (sl_mem (wb s)) xs) = b"
    using assms(1) by (auto simp: buffered_def)
  obtain a l ys where ins: "skiplist_insert draws (wb s) (r_key q) (Some v) True = Some (a, l)" "sl_rep l ys"
    "a \<in> fst ` set ys" "sl_items (sl_mem l) ys = ins_item (r_key q) (norm_value v) (sl_items (sl_mem (wb s)) xs)"
    using skiplist_insert_refines [OF xs(1) key, of draws v True] by (auto elim!: returnsE)
  obtain n where n: "cells (sl_mem l) a = Some n"
    using sl_rep_live [OF ins(2), of a] ins(3) by auto
  let ?l = "l\<lparr>sl_mem := (sl_mem l)\<lparr>cells := (cells (sl_mem l))(a \<mapsto> n\<lparr>sn_hash_params := r_h_params q\<rparr>)\<rparr>\<rparr>"
  have info: "map_option info (cells (sl_mem ?l) x) = map_option info (cells (sl_mem l) x)" for x
    using n by (simp add: info_def)
  have "mem_wf (sl_mem l)"
    using ins(2) by (simp add: sl_rep_def)
  then have "sl_rep ?l ys"
    using n info by (intro sl_rep_cong [OF ins(2)]) (auto intro!: mem_wf_upd_live simp: forward_def)
  moreover have items: "sl_items (sl_mem ?l) ys = sl_items (sl_mem l) ys"
    using info sl_rep_live [OF ins(2)] by (intro sl_items_cong) auto
  moreover have "map_of (sl_items (sl_mem l) ys) = b(r_key q \<mapsto> norm_value v)"
    using sl_rep_items_sorted [OF xs(1)] xs(2) by (simp add: ins(4) map_of_ins_item)
  moreover have "sl_size ?l \<le> Suc (sl_size (wb s))"
    unfolding sl_rep_size [OF \<open>sl_rep ?l ys\<close>] items ins(4) sl_rep_size [OF xs(1)] by (rule length_ins_item)
  ultimately show ?thesis
    using n by (auto simp: do_wb_insert_def q ins(1) modify_wbe_def modify_req_def buffered_def)
qed


text \<open>A write while the buffer is not full: nothing but the buffer, its request and the completion ring changes.\<close>

definition hashed :: "request \<Rightarrow> request" where
  "hashed q = (if r_h_params q = None then q\<lparr>r_h_params := Some (make_hash_params (r_key q))\<rparr> else q)"

lemma ensure_hash_params_simp:
  "reqs s r = Some q \<Longrightarrow> ensure_hash_params r s = Some (s\<lparr>reqs := (reqs s)(r \<mapsto> hashed q)\<rparr>)"
  by (auto simp: ensure_hash_params_def modify_req_def hashed_def fun_upd_idem)

lemma hashed_fields [simp]:
  "r_key (hashed q) = r_key q" "r_value (hashed q) = r_value q" "r_type (hashed q) = r_type q" "r_params (hashed q) = r_params q"
  by (simp_all add: hashed_def)

lemma demand_set_buffered:
  assumes b: "buffered s b" and q: "reqs s r = Some q" "r_value q = Some v" and key: "key_less (r_key q) key_max"
    and room: "sl_size (wb s) < MAX_WRITE_BUF"
  shows "returns (demand_set g clk junk draws r s) (\<lambda>s'. buffered s' (b(r_key q \<mapsto> norm_value v)) \<and>
    sl_size (wb s') \<le> Suc (sl_size (wb s)) \<and>
    (\<exists>q'. s' = s\<lparr>wb := wb s', reqs := (reqs s)(r \<mapsto> q'), finish_q := finish_q s @ [r]\<rparr>))"
proof -
  let ?s = "s\<lparr>reqs := (reqs s)(r \<mapsto> hashed q)\<rparr>"
  have "buffered ?s b"
    using b by (simp add: buffered_def)
  then obtain rc s2 where s2: "do_wb_insert draws r ?s = Some (rc, s2)" "buffered s2 (b(r_key q \<mapsto> norm_value v))"
    "sl_size (wb s2) \<le> Suc (sl_size (wb s))"
    "s2 = ?s\<lparr>wb := wb s2, reqs := (reqs ?s)(r \<mapsto> (hashed q)\<lparr>r_h_params := None, r_value := None\<rparr>)\<rparr>"
    using do_wb_insert_buffered [of ?s b r "hashed q" v draws] q(2) key by (auto elim!: returnsE)
  have r: "demand_set g clk junk draws r s = Some (finish r s2)"
    using room by (simp add: demand_set_def demand_set_inner_def ensure_hash_params_simp [OF q(1)] wb_is_full_def s2(1))
  have "finish r s2 = s\<lparr>wb := wb s2, reqs := (reqs s)(r \<mapsto> (hashed q)\<lparr>r_h_params := None, r_value := None\<rparr>),
      finish_q := finish_q s @ [r]\<rparr>"
    by (subst s2(4)) (simp add: finish_def)
  then show ?thesis
    using s2(2,3) by (auto simp: r finish_def buffered_def)
qed

text \<open>Several writes in a row.\<close>

fun demand_set_all :: "u32 \<Rightarrow> (nat \<Rightarrow> nat) \<Rightarrow> (nat \<Rightarrow> bool) \<Rightarrow> ((nat \<Rightarrow> int) \<times> addr) list \<Rightarrow> sys \<Rightarrow> sys option" where
  "demand_set_all g clk junk [] s = Some s"
| "demand_set_all g clk junk ((draws, r) # ws) s = do {
     s1 \<leftarrow> demand_set g clk junk draws r s;
     demand_set_all g clk junk ws s1
   }"

definition writable :: "request \<Rightarrow> bool" where
  "writable q \<longleftrightarrow> (\<exists>v. r_value q = Some v) \<and> key_less (r_key q) key_max"

definition written :: "(addr \<rightharpoonup> request) \<Rightarrow> addr \<Rightarrow> (str_key \<rightharpoonup> value_set) \<Rightarrow> (str_key \<rightharpoonup> value_set)" where
  "written rq r b = b(r_key (the (rq r)) \<mapsto> norm_value (the (r_value (the (rq r)))))"

lemma fold_written_cong:
  "(\<And>a. a \<in> set rs \<Longrightarrow> rq' a = rq a) \<Longrightarrow> fold (written rq') rs b = fold (written rq) rs b"
  by (intro fold_cong) (auto simp: written_def fun_eq_iff)

lemma demand_set_all_buffered:
  "buffered s b \<Longrightarrow> distinct (map snd ws) \<Longrightarrow> \<forall>r \<in> set (map snd ws). \<exists>q. reqs s r = Some q \<and> writable q \<Longrightarrow>
    sl_size (wb s) + length ws \<le> MAX_WRITE_BUF \<Longrightarrow>
    returns (demand_set_all g clk junk ws s) (\<lambda>s'. buffered s' (fold (written (reqs s)) (map snd ws) b) \<and>
      (\<forall>a. a \<notin> set (map snd ws) \<longrightarrow> reqs s' a = reqs s a) \<and> cache s' = cache s \<and> dev s' = dev s \<and>
      finish_q s' = finish_q s @ map snd ws)"
proof (induction ws arbitrary: s b)
  case (Cons w ws)
  obtain d r where w: "w = (d, r)" by (cases w)
  obtain q v where q: "reqs s r = Some q" "r_value q = Some v" "key_less (r_key q) key_max"
    using Cons.prems(3) by (auto simp: w writable_def)
  have "sl_size (wb s) < MAX_WRITE_BUF"
    using Cons.prems(4) by simp
  from demand_set_buffered [OF Cons.prems(1) q this, of g clk junk d] obtain s1 q' where
    s1: "demand_set g clk junk d r s = Some s1" "buffered s1 (b(r_key q \<mapsto> norm_value v))" "sl_size (wb s1) \<le> Suc (sl_size (wb s))"
    "s1 = s\<lparr>wb := wb s1, reqs := (reqs s)(r \<mapsto> q'), finish_q := finish_q s @ [r]\<rparr>"
    by (auto elim!: returnsE)
  have f: "reqs s1 = (reqs s)(r \<mapsto> q')" "finish_q s1 = finish_q s @ [r]" "cache s1 = cache s" "dev s1 = dev s"
    by (subst s1(4), simp)+
  have "fold (written (reqs s1)) (map snd ws) b1 = fold (written (reqs s)) (map snd ws) b1" for b1
    using Cons.prems(2) by (intro fold_written_cong) (auto simp: f(1) w)
  moreover have "returns (demand_set_all g clk junk ws s1) (\<lambda>s'.
      buffered s' (fold (written (reqs s1)) (map snd ws) (b(r_key q \<mapsto> norm_value v))) \<and>
      (\<forall>a. a \<notin> set (map snd ws) \<longrightarrow> reqs s' a = reqs s1 a) \<and> cache s' = cache s1 \<and> dev s' = dev s1 \<and>
      finish_q s' = finish_q s1 @ map snd ws)"
    using Cons.prems(2-) s1(3) by (intro Cons.IH [OF s1(2)]) (auto simp: f(1) w)
  ultimately show ?case
    by (simp add: w s1(1)) (rule returns_mono, assumption, auto simp: f w written_def q)
qed simp

section \<open>Reading a buffered key\<close>

lemma demand_get_buffered:
  assumes b: "buffered s b" "b (r_key q) = Some v" and key: "key_less (r_key q) key_max"
    and q: "reqs s r = Some q" "r_h_params q = None" "r_params q = None" "r_type q \<noteq> PREFILL_DATAR" "r_value q = Some dst"
    and len: "vs_length_in_bytes v \<le> length (vs_value v)" "vs_length_in_bytes v \<le> length (vs_value dst)"
    and env: "nr_valid_tentries (env (cache s)) \<noteq> 0"
  shows "returns (demand_get now r s) (\<lambda>s'. finish_q s' = finish_q s @ [r] \<and>
    (\<exists>q' d. reqs s' r = Some q' \<and> r_value q' = Some d \<and>
      take (vs_length_in_bytes v) (vs_value d) = take (vs_length_in_bytes v) (vs_value v)))"
proof -
  obtain xs where xs: "sl_rep (wb s) xs" "map_of (sl_items (sl_mem (wb s)) xs) = b"
    using b(1) by (auto simp: buffered_def)
  from skiplist_find_spec [OF xs(1) key] obtain e where
    e: "skiplist_find (wb s) (r_key q) = Some e" "found_at (sl_mem (wb s)) xs (r_key q) e"
    by (auto elim: returnsE)
  from found_value [OF xs(1) e(2)] b(2) obtain a where a: "e = Some a" "the (sn_value (the (cells (sl_mem (wb s)) a))) = v"
    by (auto simp: xs(2))
  then obtain k where "(a, k) \<in> set xs"
    using e(2) by (auto simp: found_at_def)
  then obtain n where n: "cells (sl_mem (wb s)) a = Some n" "sn_value n = Some v"
    using sl_rep_node [OF xs(1) \<open>(a, k) \<in> set xs\<close>] a(2) by (auto simp: node_ok_def)
  let ?s = "s\<lparr>reqs := (reqs s)(r \<mapsto> hashed q)\<rparr>"
  let ?d = "dst\<lparr>vs_value := take (vs_length_in_bytes v) (vs_value v) @ drop (vs_length_in_bytes v) (vs_value dst),
    vs_length_in_bytes := 0, vs_offset := 0\<rparr>"
  have check: "do_wb_check r ?s = Some (1, ?s\<lparr>wbstats := (wbstats s)\<lparr>nr_rd_hit := nr_rd_hit (wbstats s) + 1\<rparr>,
      reqs := (reqs s)(r \<mapsto> (hashed q)\<lparr>r_h_params := None, r_value := Some ?d\<rparr>)\<rparr>)"
    using len by (simp add: do_wb_check_def e a n q copy_value_def modify_req_def)
  have h: "r_h_params (hashed q) = Some (make_hash_params (r_key q))" "hp_cnt (make_hash_params (r_key q)) = 0"
    by (simp_all add: hashed_def q(2) make_hash_params_def)
  show ?thesis
    using env
    by (simp add: demand_get_def ensure_hash_params_simp [OF q(1)] rd_run.simps [of now r read_retry] rd_step_def h get_lpa_def
        rd_at_retry_def q check finish_def upd_denv_def UINT32_MAX_def Let_def len)
qed

text \<open>
  C1. Reads see buffered writes.  After start-up, any sequence of at most 256 writes completes each
  of them in order without touching the flash; a read of a key that was written then completes
  at once, and the first bytes of its buffer are those of the value written last under the key.
\<close>

theorem read_sees_buffered_writes:
  assumes "length ws \<le> MAX_WRITE_BUF" and "distinct (map snd ws)" and "r \<notin> set (map snd ws)"
    and "\<forall>a \<in> set (map snd ws). \<exists>q. reqs s a = Some q \<and> writable q"
    and "reqs s r = Some q" and "r_h_params q = None" and "r_params q = None" and "r_type q = DATAR" and "r_value q = Some dst"
    and "fold (written (reqs s)) (map snd ws) Map.empty (r_key q) = Some v" and "key_less (r_key q) key_max"
    and "vs_length_in_bytes v \<le> length (vs_value v)" and "vs_length_in_bytes v \<le> length (vs_value dst)"
  shows "returns (demand_create g keys0 s) (\<lambda>s0. returns (demand_set_all g clk junk ws s0) (\<lambda>s1.
    dev s1 = dev s0 \<and> returns (demand_get now r s1) (\<lambda>s2. finish_q s2 = map snd ws @ [r] \<and>
    (\<exists>q' d. reqs s2 r = Some q' \<and> r_value q' = Some d \<and>
      take (vs_length_in_bytes v) (vs_value d) = take (vs_length_in_bytes v) (vs_value v)))))"
proof -
  from demand_create_returns [of g keys0 s] obtain s0 where s0: "demand_create g keys0 s = Some s0" "wb s0 = skiplist_init g"
    "reqs s0 = reqs s" "finish_q s0 = []" "nr_valid_tentries (env (cache s0)) = 357913600"
    by (auto elim: returnsE)
  have "sl_items (sl_mem (skiplist_init g)) [] = []"
    by (simp add: sl_items_def)
  then have "buffered s0 Map.empty" "sl_size (wb s0) = 0"
    using skiplist_init_rep [of g] by (auto simp: buffered_def s0(2) sl_rep_def intro!: exI [of _ "[]"])
  then have "returns (demand_set_all g clk junk ws s0) (\<lambda>s'. buffered s' (fold (written (reqs s0)) (map snd ws) Map.empty) \<and>
      (\<forall>a. a \<notin> set (map snd ws) \<longrightarrow> reqs s' a = reqs s0 a) \<and> cache s' = cache s0 \<and> dev s' = dev s0 \<and>
      finish_q s' = finish_q s0 @ map snd ws)"
    using assms(1,2,4) by (intro demand_set_all_buffered) (simp_all add: s0(3))
  then obtain s1 where s1: "demand_set_all g clk junk ws s0 = Some s1"
    "buffered s1 (fold (written (reqs s)) (map snd ws) Map.empty)" "reqs s1 r = Some q" "cache s1 = cache s0" "dev s1 = dev s0"
    "finish_q s1 = map snd ws"
    using assms(3,5) by (auto simp: s0(3,4) elim: returnsE)
  have "r_type q \<noteq> PREFILL_DATAR" "nr_valid_tentries (env (cache s1)) \<noteq> 0"
    using assms(8) by (simp_all add: DATAR_def PREFILL_DATAR_def s0(5) s1(4))
  with demand_get_buffered [OF s1(2) assms(10,11) s1(3) assms(6,7) _ assms(9,12,13)] show ?thesis
    by (simp add: s0(1) s1(1,5,6))
qed


text \<open>Two writes under one key, with two bytes each, and a read into a buffer of four.\<close>

definition demo_request :: "nat \<Rightarrow> u8 list \<Rightarrow> nat \<Rightarrow> request" where
  "demo_request ty bytes n = \<lparr>r_type = ty, r_key = [7],
     r_value = Some \<lparr>vs_value = bytes, vs_length = 1024, vs_ppa = 0, vs_length_in_bytes = n, vs_offset = 0\<rparr>,
     r_h_params = None, r_state = ALGO_REQ_PENDING, r_stime = 0, r_etime = 0, r_params = None\<rparr>"

definition demo_reqs :: "addr \<rightharpoonup> request" where
  "demo_reqs = [0 \<mapsto> demo_request DATAW [1, 2] 2, 1 \<mapsto> demo_request DATAW [3, 4] 2, 2 \<mapsto> demo_request DATAR [0, 0, 0, 0] 4]"

lemma read_sees_buffered_writes_witness:
  "\<forall>s. returns (demand_create 0 (\<lambda>_. []) (s\<lparr>reqs := demo_reqs\<rparr>)) (\<lambda>s0.
     returns (demand_set_all 0 id (\<lambda>_. False) [(\<lambda>_. 0, 0), (\<lambda>_. 0, 1)] s0) (\<lambda>s1.
       returns (demand_get 5 2 s1) (\<lambda>s2. finish_q s2 = [0, 1, 2] \<and>
         (\<exists>q' d. reqs s2 2 = Some q' \<and> r_value q' = Some d \<and> take 2 (vs_value d) = [3 :: u8, 4]))))"
proof
  fix s :: sys
  let ?s = "s\<lparr>reqs := demo_reqs\<rparr>"
  have dst: "r_value (demo_request DATAR [0, 0, 0, 0] 4) =
      Some \<lparr>vs_value = [0, 0, 0, 0], vs_length = 1024, vs_ppa = 0, vs_length_in_bytes = 4, vs_offset = 0\<rparr>"
    by (simp add: demo_request_def)
  have w: "\<forall>a \<in> set (map snd [(\<lambda>_ :: nat. 0 :: int, 0), (\<lambda>_. 0, 1)]). \<exists>q. reqs ?s a = Some q \<and> writable q"
    by (simp add: demo_reqs_def demo_request_def writable_def key_less_key_max)
  have f: "fold (written (reqs ?s)) (map snd [(\<lambda>_ :: nat. 0 :: int, 0), (\<lambda>_. 0, 1)]) Map.empty
      (r_key (demo_request DATAR [0, 0, 0, 0] 4)) =
      Some (norm_value \<lparr>vs_value = [3, 4], vs_length = 1024, vs_ppa = 0, vs_length_in_bytes = 2, vs_offset = 0\<rparr>)"
    by (simp add: demo_reqs_def demo_request_def written_def)
  have "returns (demand_create 0 (\<lambda>_. []) ?s) (\<lambda>s0.
     returns (demand_set_all 0 id (\<lambda>_. False) [(\<lambda>_. 0, 0), (\<lambda>_. 0, 1)] s0) (\<lambda>s1. dev s1 = dev s0 \<and>
       returns (demand_get 5 2 s1) (\<lambda>s2. finish_q s2 = map snd [(\<lambda>_ :: nat. 0 :: int, 0), (\<lambda>_. 0, 1)] @ [2] \<and>
         (\<exists>q' d. reqs s2 2 = Some q' \<and> r_value q' = Some d \<and> take 2 (vs_value d) = take 2 [3, 4]))))"
    using read_sees_buffered_writes [OF _ _ _ w _ _ _ _ dst f, of 2 0 "\<lambda>_. []" id "\<lambda>_. False" 5]
    by (simp add: demo_reqs_def demo_request_def norm_value_def key_less_key_max MAX_WRITE_BUF_def)
  then show "returns (demand_create 0 (\<lambda>_. []) ?s) (\<lambda>s0.
     returns (demand_set_all 0 id (\<lambda>_. False) [(\<lambda>_. 0, 0), (\<lambda>_. 0, 1)] s0) (\<lambda>s1.
       returns (demand_get 5 2 s1) (\<lambda>s2. finish_q s2 = [0, 1, 2] \<and>
         (\<exists>q' d. reqs s2 2 = Some q' \<and> r_value q' = Some d \<and> take 2 (vs_value d) = [3 :: u8, 4]))))"
    by (rule returns_mono) (erule returns_mono, simp)
qed


section \<open>Reading a key that was never written\<close>

text \<open>
  C35. A read that misses everywhere completes more than once.  For a request whose key is not buffered,
  whose address misses the hot table, and whose mapping page is not resident and was never written,
  \<^verbatim>\<open>demand_get\<close> enters the request twice into the completion ring and leaves it in the retry
  queue as well, from where it will be served again.
\<close>

theorem absent_key_completes_twice:
  assumes b: "buffered s b" "b (r_key q) = None" and key: "key_less (r_key q) key_max"
    and q: "reqs s r = Some q" "r_h_params q = None" "r_params q = None" "r_type q = DATAR"
    and lpa: "get_lpa (env (cache s)) (make_hash_params (r_key q)) = Some lpa"
    and hot: "dftl_cache_hot_is_hit lpa (cache s) = Some (None, cache s)"
    and cold: "\<not> cmt_is_resident (the_cmt s (D_IDX lpa))" "t_ppa (the_cmt s (D_IDX lpa)) = UINT32_MAX"
    and rq: "q_list (req_retry_q s) xs"
  shows "returns (demand_get now r s) (\<lambda>s'. finish_q s' = finish_q s @ [r, r] \<and>
    (\<exists>q'. reqs s' r = Some q' \<and> r_state q' = ALGO_REQ_NOT_FOUND) \<and>
    (\<exists>ys. q_list (req_retry_q s') ys \<and> mset ys = add_mset r (mset xs)))"
proof -
  obtain zs where zs: "sl_rep (wb s) zs" "map_of (sl_items (sl_mem (wb s)) zs) = b"
    using b(1) by (auto simp: buffered_def)
  from skiplist_find_spec [OF zs(1) key] obtain e where
    e: "skiplist_find (wb s) (r_key q) = Some e" "found_at (sl_mem (wb s)) zs (r_key q) e"
    by (auto elim: returnsE)
  from found_value [OF zs(1) e(2)] b(2) have [simp]: "e = None"
    by (simp add: zs(2))
  let ?h = "make_hash_params (r_key q)"
  have h: "r_h_params (hashed q) = Some ?h" "hp_cnt ?h = 0"
    by (simp_all add: hashed_def q(2) make_hash_params_def)
  have ins: "returns (algo_q_insert_sorted et (req_retry_q s) (Some r) None)
      (\<lambda>q'. \<exists>ys. q_list q' ys \<and> mset ys = add_mset r (mset xs))" for et
    using algo_q_insert_refines [OF rq, of "Some r" None r et] by (rule returns_mono) (auto simp: algo_q_payload_def)
  have check: "do_wb_check r (s\<lparr>reqs := (reqs s)(r \<mapsto> hashed q)\<rparr>) = Some (0,
      s\<lparr>reqs := (reqs s)(r \<mapsto> hashed q), wbstats := (wbstats s)\<lparr>nr_rd_miss := nr_rd_miss (wbstats s) + 1\<rparr>\<rparr>)"
    by (simp add: do_wb_check_def e)
  have ty: "r_type q \<noteq> PREFILL_DATAR" "r_type q \<noteq> DATAW"
    using q(4) by (simp_all add: DATAR_def PREFILL_DATAR_def DATAW_def)
  have cold': "\<not> cmt_is_resident (cmts (member (cache s)) (D_IDX lpa))"
    "t_ppa (cmts (member (cache s)) (D_IDX lpa)) = UINT32_MAX"
    using cold by (simp_all add: the_cmt_def)
  show ?thesis
    by (simp add: demand_get_def ensure_hash_params_simp [OF q(1)] rd_run.simps [of now r read_retry]
        rd_run.simps [of now r rd_cache_load] rd_step_def h lpa rd_at_retry_def q(3) ty check rd_hot_lookup_def hot
        rd_cold_lookup_def dftl_cache_is_hit_def the_cmt_def cold' upd_cache_def upd_stat_def adaptive_ghost_cold_on_miss_def
        rd_at_load_def dftl_cache_load_def IS_INITIAL_PPA_def set_not_found_def modify_req_def finish_def retry_later_def Let_def)
     (rule returns_mono [OF ins], auto)
qed


text \<open>The first read after start-up is such a read.\<close>

lemma absent_key_completes_twice_witness:
  "\<forall>s. returns (demand_create 0 (\<lambda>_. []) (s\<lparr>reqs := demo_reqs\<rparr>)) (\<lambda>s0.
     returns (demand_get 5 2 s0) (\<lambda>s1. finish_q s1 = [2, 2] \<and>
       (\<exists>q'. reqs s1 2 = Some q' \<and> r_state q' = ALGO_REQ_NOT_FOUND) \<and>
       (\<exists>ys. q_list (req_retry_q s1) ys \<and> mset ys = {#2#})))"
proof
  fix s :: sys
  from demand_create_returns [of 0 "\<lambda>_. []" "s\<lparr>reqs := demo_reqs\<rparr>"] obtain s0 where
    s0: "demand_create 0 (\<lambda>_. []) (s\<lparr>reqs := demo_reqs\<rparr>) = Some s0" "wb s0 = skiplist_init 0" "reqs s0 = demo_reqs"
      "finish_q s0 = []" "member (cache s0) = cache_member_init" "nr_valid_tentries (env (cache s0)) = 357913600"
      "req_retry_q s0 = algo_q_create" "part_ok (cache s0)"
    by (auto elim: returnsE)
  let ?q = "demo_request DATAR [0, 0, 0, 0] 4"
  obtain lpa where lpa: "get_lpa (env (cache s0)) (make_hash_params (r_key ?q)) = Some lpa" "lpa < 357913600"
    by (auto simp: get_lpa_def s0(6))
  have "List.find (slot_has (cache s0) lpa) xs = None" for xs
    using lpa(2) by (induction xs) (simp_all add: slot_has_def hot_slot_def s0(5) cache_member_init_def empty_slot_def
        UINT32_MAX_def split: prod.split)
  then have hot: "dftl_cache_hot_is_hit lpa (cache s0) = Some (None, cache s0)"
    using s0(8) by (subst is_hit_eq) (auto simp: part_ok_def mem_ok_def)
  have rq: "q_list (req_retry_q s0) []"
    unfolding s0(7) by (rule q_list_create)
  have b: "buffered s0 Map.empty"
    using skiplist_init_rep [of 0] by (auto simp: buffered_def s0(2) sl_items_def intro!: exI [of _ "[]"])
  have cold: "\<not> cmt_is_resident (the_cmt s0 (D_IDX lpa))" "t_ppa (the_cmt s0 (D_IDX lpa)) = UINT32_MAX"
    by (simp_all add: the_cmt_def s0(5) cache_member_init_def blank_cmt_def cmt_is_resident_def)
  have q: "reqs s0 2 = Some ?q" "r_h_params ?q = None" "r_params ?q = None" "r_type ?q = DATAR" "key_less (r_key ?q) key_max"
    by (simp_all add: s0(3) demo_reqs_def demo_request_def key_less_key_max)
  show "returns (demand_create 0 (\<lambda>_. []) (s\<lparr>reqs := demo_reqs\<rparr>)) (\<lambda>s0.
     returns (demand_get 5 2 s0) (\<lambda>s1. finish_q s1 = [2, 2] \<and>
       (\<exists>q'. reqs s1 2 = Some q' \<and> r_state q' = ALGO_REQ_NOT_FOUND) \<and>
       (\<exists>ys. q_list (req_retry_q s1) ys \<and> mset ys = {#2#})))"
    using absent_key_completes_twice [OF b _ q(5) q(1-4) lpa(1) hot cold rq, of 5]
    by (simp add: s0(1,4))
qed

end
