(* ===== verification/Runs.thy ===== *)
theory Runs
  imports Serve
begin

text \<open>
  Runs of the mapping cache.  The steps are the operations the read path, the write path and the
  collector perform on it: lookups, the loading, listing and eviction of mapping pages, updates of
  entries, promotions into the hot table, ghost bookkeeping and moves of memory.  The partition's
  invariant holds in every state they reach from the creation of the cache; a concrete run fills the
  hot table until it is expanded.
\<close>

section \<open>The pages of the recency list\<close>

text \<open>Every node of the list holds a page number of the mapping table.\<close>

definition lru_below :: "nat \<Rightarrow> nat lru \<Rightarrow> bool" where
  "lru_below N l \<longleftrightarrow> (\<forall>a n v. cells (lru_mem l) a = Some n \<longrightarrow> data n = Some v \<longrightarrow> v < N)"

definition mem_below :: "nat \<Rightarrow> nat option node mem \<Rightarrow> bool" where
  "mem_below N m \<longleftrightarrow> (\<forall>a n v. cells m a = Some n \<longrightarrow> data n = Some v \<longrightarrow> v < N)"

lemma lru_below_mem: "lru_below N l = mem_below N (lru_mem l)"
  by (simp add: lru_below_def mem_below_def)

lemma mem_below_load: "load p m = Some n \<Longrightarrow> mem_below N m \<Longrightarrow> data n = Some v \<Longrightarrow> v < N"
  by (auto simp: load_def mem_below_def split: option.splits)

lemma mem_below_modify: "modify p f m = Some m' \<Longrightarrow> mem_below N m \<Longrightarrow> (\<And>n. data (f n) = data n) \<Longrightarrow> mem_below N m'"
  by (auto simp: modify_def mem_below_def split: option.splits if_splits)

lemma mem_below_modify_link:
  "modify p (\<lambda>n. n\<lparr>prv := x\<rparr>) m = Some m' \<Longrightarrow> mem_below N m \<Longrightarrow> mem_below N m'"
  "modify p (\<lambda>n. n\<lparr>nxt := x\<rparr>) m = Some m' \<Longrightarrow> mem_below N m \<Longrightarrow> mem_below N m'"
  by (erule mem_below_modify; simp)+

lemma mem_below_free: "free_cell p m = Some m' \<Longrightarrow> mem_below N m \<Longrightarrow> mem_below N m'"
  by (auto simp: free_cell_def mem_below_def split: option.splits if_splits)

lemma mem_below_unlink: "unlink_middle p m = Some m' \<Longrightarrow> mem_below N m \<Longrightarrow> mem_below N m'"
  by (auto simp: unlink_middle_def bind_Some_iff dest!: mem_below_modify_link)

lemmas mem_below_intros = mem_below_modify_link mem_below_free mem_below_unlink

lemma lru_update_below: "lru_update l p = Some l' \<Longrightarrow> lru_below N l \<Longrightarrow> lru_below N l'"
  unfolding lru_below_mem
  by (auto simp: lru_update_def bind_Some_iff Let_def split: if_splits dest!: mem_below_intros)

lemma lru_pop_below:
  assumes "lru_pop l = Some (d, l')" and "lru_below N l"
  shows "lru_below N l' \<and> (\<forall>v. d = Some v \<longrightarrow> v < N)"
  using assms unfolding lru_below_mem
  by (auto simp: lru_pop_def bind_Some_iff Let_def split: if_splits dest: mem_below_load elim: mem_below_intros(1,2)
      intro: mem_below_free [OF _ mem_below_modify_link(2)] mem_below_free)

lemma lru_push_below:
  assumes "lru_push l (Some d) = Some (a, l')" and "lru_below N l" and "d < N"
  shows "lru_below N l'"
proof -
  have "mem_below N (snd (malloc \<lparr>data = Some d, nxt = None, prv = None\<rparr> (lru_mem l)))"
    using assms(2,3) by (auto simp: malloc_def lru_below_def mem_below_def)
  then show ?thesis
    using assms(1) unfolding lru_below_mem
    by (auto simp: lru_push_def bind_Some_iff Let_def split: if_splits prod.splits dest!: mem_below_intros)
qed

lemma hot_pages_loop_below:
  "hot_pages_loop cm m k n p out = Some r \<Longrightarrow> mem_below N m \<Longrightarrow> \<forall>v \<in> set out. v < N \<Longrightarrow> \<forall>v \<in> set r. v < N"
proof (induction cm m k n p out rule: hot_pages_loop.induct)
  case (2 cm m k n p out)
  show ?case
  proof (cases "p = None \<or> k \<le> int (length out)")
    case True
    then have "r = out"
      using "2.prems"(1) by (cases "p = None") simp_all
    then show ?thesis
      using "2.prems"(3) by simp
  next
    case False
    then obtain nd where nd: "load p m = Some nd"
      "hot_pages_loop cm m k n (nxt nd) (case data nd of None \<Rightarrow> out
         | Some d \<Rightarrow> if has_hot_entry (cm d) \<and> \<not> cmt_is_ghost (cm d) then out @ [d] else out) = Some r"
      using "2.prems"(1) by (auto simp: bind_Some_iff)
    have "\<forall>v \<in> set (case data nd of None \<Rightarrow> out
         | Some d \<Rightarrow> if has_hot_entry (cm d) \<and> \<not> cmt_is_ghost (cm d) then out @ [d] else out). v < N"
      using "2.prems"(3) mem_below_load [OF nd(1) "2.prems"(2)] by (auto split: option.split)
    then show ?thesis
      using "2.IH" [OF _ _ nd(1) refl nd(2) "2.prems"(2)] False by simp
  qed
qed simp

lemma lru_pick_below: "lru_pick_promote_hot_pages cm l k = Some r \<Longrightarrow> lru_below N l \<Longrightarrow> v \<in> set r \<Longrightarrow> v < N"
  by (auto simp: lru_pick_promote_hot_pages_def lru_below_mem split: if_splits dest: hot_pages_loop_below)

section \<open>What leaves the partition alone\<close>

text \<open>Steps on pages and entries: the memory sizes, the hot table and the ghost marks stay.\<close>

definition gentle :: "dcache \<Rightarrow> dcache \<Rightarrow> bool" where
  "gentle c c' \<longleftrightarrow> env c' = env c \<and> rehash c' = rehash c \<and> hot_slot c' = hot_slot c \<and>
     hot_pte_state_live (stat c') = hot_pte_state_live (stat c) \<and> hot_valid_entries (stat c') = hot_valid_entries (stat c) \<and>
     cold_fifo c' = cold_fifo c \<and> key_fifo c' = key_fifo c \<and> nr_ghost_cold (member c') = nr_ghost_cold (member c) \<and>
     (\<forall>i. cmt_idx (cmts (member c') i) = cmt_idx (cmts (member c) i) \<and>
       ghost_mark (cmts (member c') i) = ghost_mark (cmts (member c) i)) \<and>
     (\<forall>N. lru_below N (clru (member c)) \<longrightarrow> lru_below N (clru (member c')))"

lemma gentle_refl [simp]: "gentle c c"
  by (simp add: gentle_def)

lemma gentle_trans: "gentle a b \<Longrightarrow> gentle b c \<Longrightarrow> gentle a c"
  by (simp add: gentle_def)

text \<open>The invariant of the runs.\<close>

definition run_ok :: "dcache \<Rightarrow> bool" where
  "run_ok c \<longleftrightarrow> part_ok c \<and> lru_below 699050 (clru (member c))"

lemma part_ok_pages: "part_ok c \<Longrightarrow> nr_valid_tpages (env c) = 699050"
  by (simp add: part_ok_def mem_ok_def static_env_def)

lemma gentle_run_ok:
  assumes ok: "run_ok c" and "gentle c c'"
  shows "run_ok c'"
proof -
  have g: "env c' = env c" "rehash c' = rehash c" "hot_slot c' = hot_slot c" "nr_ghost_cold (member c') = nr_ghost_cold (member c)"
    "hot_pte_state_live (stat c') = hot_pte_state_live (stat c)" "hot_valid_entries (stat c') = hot_valid_entries (stat c)"
    "cold_fifo c' = cold_fifo c" "key_fifo c' = key_fifo c"
    "\<And>i. cmt_idx (cmts (member c') i) = cmt_idx (cmts (member c) i)"
    "\<And>i. ghost_mark (cmts (member c') i) = ghost_mark (cmts (member c) i)"
    "lru_below 699050 (clru (member c'))"
    using assms by (auto simp: gentle_def run_ok_def)
  have "ghosts_of c' = ghosts_of c"
    by (simp add: ghosts_of_def g)
  then have "ghost_ok c'"
    using ok by (simp add: run_ok_def part_ok_def ghost_ok_def g)
  then show ?thesis
    using ok g unfolding run_ok_def by (intro conjI part_ok_marks [of c c']) simp_all
qed

text \<open>Updates of a page that keep its number and its mark.\<close>

lemma gentle_upd:
  "gentle c (upd_member (set_pte r p v) c)"
  "(\<And>x. cmt_idx (f x) = cmt_idx x \<and> ghost_mark (f x) = ghost_mark x) \<Longrightarrow> gentle c (upd_cmt i f c)"
  "(\<And>t. hot_pte_state_live (g t) = hot_pte_state_live t \<and> hot_valid_entries (g t) = hot_valid_entries t) \<Longrightarrow> gentle c (upd_stat g c)"
  "gentle c (upd_member (\<lambda>m. m\<lparr>nr_cached_tpages := n m\<rparr>) c)"
  "gentle c (c\<lparr>pop_count := k\<rparr>)" "gentle c (c\<lparr>rebalance_evict_cnt := u\<rparr>)"
  by (auto simp: gentle_def hot_slot_def upd_member_def upd_cmt_def upd_stat_def set_pte_def)

lemma gentle_upd_lru:
  assumes "\<And>N. lru_below N (clru (member c)) \<Longrightarrow> lru_below N l"
  shows "gentle c (upd_member (\<lambda>m. m\<lparr>clru := l\<rparr>) c)"
  using assms by (auto simp: gentle_def hot_slot_def upd_member_def)

text \<open>The same on the whole state.\<close>

abbreviation calm :: "sys \<Rightarrow> sys \<Rightarrow> bool" where
  "calm s s' \<equiv> gentle (cache s) (cache s')"

lemma calm_trans: "calm s s1 \<Longrightarrow> calm s1 s2 \<Longrightarrow> calm s s2"
  by (rule gentle_trans)

lemma calm_upd:
  "gentle (cache s) (f (cache s)) \<Longrightarrow> calm s (upd_cache f s)"
  "(\<And>x. cmt_idx (g x) = cmt_idx x \<and> ghost_mark (g x) = ghost_mark x) \<Longrightarrow> calm s (upd_cmt_at i g s)"
  by (simp_all add: upd_cache_def upd_cmt_at_def gentle_upd)

text \<open>Operations that do not touch the cache.\<close>

lemma cache_frames:
  "modify_req r fr s = Some s' \<Longrightarrow> cache s' = cache s" "modify_wbe e fw s = Some s' \<Longrightarrow> cache s' = cache s"
  "get_iparams i j s = Some s' \<Longrightarrow> cache s' = cache s" "set_etime i now lat s = Some s' \<Longrightarrow> cache s' = cache s"
  "retry_later i s = Some s' \<Longrightarrow> cache s' = cache s" "on_bm g s = Some s' \<Longrightarrow> cache s' = cache s"
  "li_read now p z s = Some (l, s') \<Longrightarrow> cache s' = cache s" "li_write now p z s = Some (l, s') \<Longrightarrow> cache s' = cache s"
  "trim_on_sys now k s = Some s' \<Longrightarrow> cache s' = cache s"
  by (cases i; auto simp: modify_req_def modify_wbe_def get_iparams_def set_etime_def retry_later_def on_bm_def li_read_def
      li_write_def trim_on_sys_def bind_Some_iff; fail | auto simp: modify_req_def modify_wbe_def on_bm_def li_read_def
      li_write_def trim_on_sys_def bind_Some_iff)+

section \<open>The allocation of a translation page\<close>

lemma read_tpage_cache:
  "fold (read_tpage now t) xs r = Some (tab, s') \<Longrightarrow> (\<And>tab s. r = Some (tab, s) \<Longrightarrow> cache s = c) \<Longrightarrow> cache s' = c"
proof (induction xs arbitrary: r)
  case (Cons x xs)
  show ?case
  proof (rule Cons.IH)
    show "fold (read_tpage now t) xs (read_tpage now t x r) = Some (tab, s')"
      using Cons.prems(1) by simp
    show "cache s1 = c" if "read_tpage now t x r = Some (tab1, s1)" for tab1 s1
      using that Cons.prems(2) by (auto simp: read_tpage_def bind_Some_iff Let_def split: if_splits dest!: cache_frames(6,7))
  qed
qed simp

lemma write_tpage_calm:
  "fold write_tpage xs r = Some (p, s') \<Longrightarrow> (\<And>p s. r = Some (p, s) \<Longrightarrow> calm s0 s) \<Longrightarrow> calm s0 s'"
proof (induction xs arbitrary: r)
  case (Cons x xs)
  show ?case
  proof (rule Cons.IH)
    show "fold write_tpage xs (write_tpage x r) = Some (p, s')"
      using Cons.prems(1) by simp
    show "calm s0 s1" if run: "write_tpage x r = Some (p1, s1)" for p1 s1
    proof -
      obtain p2 s2 b ppa where s2: "r = Some (p2, s2)" "s1 = upd_cmt_at x (\<lambda>x. x\<lparr>t_ppa := ppa\<rparr>) (s2\<lparr>bmgr := b\<rparr>)"
        using run by (auto simp: write_tpage_def dftl_get_page_num_def bind_Some_iff Let_def split: if_splits)
      have "calm (s2\<lparr>bmgr := b\<rparr>) s1"
        unfolding s2(2) by (rule calm_upd) simp
      then show ?thesis
        using Cons.prems(2) [OF s2(1)] calm_trans by simp
    qed
  qed
qed simp

lemma tpage_gc_calm:
  assumes "tpage_gc now s = Some (n, s')"
  shows "calm s s'"
proof -
  obtain target tab s1 s2 s3 where r: "bulk_read_valid_tpages now target s = Some (tab, s1)"
    "bulk_write_valid_tpages now tab s1 = Some s2" "trim_on_sys now target s2 = Some s3" "cache s' = cache s3"
    using assms by (auto simp: tpage_gc_def bind_Some_iff Let_def upd_bm_def)
  have "cache s1 = cache s"
    using r(1) by (auto simp: bulk_read_valid_tpages_def dest: read_tpage_cache)
  moreover have "calm s1 s2"
    using r(2) by (auto simp: bulk_write_valid_tpages_def bind_Some_iff split: if_splits dest!: cache_frames(8)
        dest: write_tpage_calm [where ?s0.0 = s1])
  ultimately show ?thesis
    using cache_frames(9) [OF r(3)] by (simp add: r(4))
qed

lemma tp_alloc_calm:
  assumes "tp_alloc now s = Some (p, s')"
  shows "calm s s'"
  using assms by (auto simp: tp_alloc_def dftl_get_page_num_def bind_Some_iff Let_def split: if_splits dest: tpage_gc_calm)

lemma evict_write_calm:
  assumes "evict_write now v i s = Some s'"
  shows "calm s s'"
proof -
  let ?s1 = "upd_cache (upd_stat (\<lambda>t. t\<lparr>dirty_evict := dirty_evict t + 1\<rparr>)) s"
  obtain s2 p s3 s5 lat s7 s8 where r: "get_iparams i GOTO_COMPLETE ?s1 = Some s2" "tp_alloc now s2 = Some (p, s3)"
    "on_bm (dftl_validate_page p) (upd_cmt_at v (\<lambda>x. x\<lparr>t_ppa := p\<rparr>) s3) = Some s5"
    "li_write now p PAGESIZE (upd_cmt_at v (\<lambda>x. x\<lparr>cmt_dirty := False\<rparr>) s5) = Some (lat, s7)" "set_etime i now lat s7 = Some s8"
    "cache s' = cache s8"
    using assms by (auto simp: evict_write_def bind_Some_iff Let_def dest: cache_frames(6))
  have "calm s s2"
    using calm_upd(1) [of s "upd_stat (\<lambda>t. t\<lparr>dirty_evict := dirty_evict t + 1\<rparr>)"] cache_frames(3) [OF r(1)] by (simp add: gentle_upd)
  then have "calm s s3"
    using tp_alloc_calm [OF r(2)] calm_trans by blast
  moreover have "calm s3 s5" "calm s5 s7"
    using calm_upd(2) [of "\<lambda>x. x\<lparr>t_ppa := p\<rparr>" s3 v] calm_upd(2) [of "\<lambda>x. x\<lparr>cmt_dirty := False\<rparr>" s5 v]
    by (simp_all add: cache_frames(6) [OF r(3)] cache_frames(8) [OF r(4)])
  ultimately show ?thesis
    using calm_trans cache_frames(4) [OF r(5)] unfolding r(6) by metis
qed

section \<open>The operations of the partition keep the list\<close>

lemma ghost_evict_clru:
  "clru (member (snd (cold_rr_loop n c))) = clru (member c)" "clru (member (snd (key_rr_loop n c))) = clru (member c)"
  by (induction n arbitrary: c)
    (auto simp: Let_def ghost_cold_unmark_def upd_cmt_def upd_member_def key_evicted_def ghost_key_unmark_def)

lemma unmark_clru [simp]:
  "clru (member (ghost_cold_unmark i c)) = clru (member c)" "clru (member (key_evicted q c)) = clru (member c)"
  by (simp_all add: ghost_cold_unmark_def key_evicted_def ghost_key_unmark_def Let_def upd_cmt_def upd_member_def)

lemma ghost_evict_rr_clru [simp]:
  "clru (member (snd (ghost_cold_evict_rr c))) = clru (member c)" "clru (member (snd (ghost_key_evict_rr c))) = clru (member c)"
  by (simp_all add: ghost_cold_evict_rr_def ghost_key_evict_rr_def ghost_evict_clru)

lemma cold_fifo_loop_clru: "cold_fifo_loop n c = Some r \<Longrightarrow> clru (member (snd r)) = clru (member c)"
proof (induction n arbitrary: c)
  case (Suc n)
  show ?case
  proof (cases "gf_count (cold_fifo c) = 0")
    case False
    then obtain p gf where p: "adaptive_ghost_fifo_pop_oldest (cold_fifo c) = Some (p, gf)"
      using Suc.prems by (auto simp: bind_Some_iff)
    show ?thesis
      using Suc.prems False p Suc.IH [of "c\<lparr>cold_fifo := gf\<rparr>"] by (auto simp: Let_def split: if_splits)
  qed (use Suc in auto)
qed auto

lemma key_fifo_loop_clru: "key_fifo_loop n c = Some r \<Longrightarrow> clru (member (snd r)) = clru (member c)"
proof (induction n arbitrary: c)
  case (Suc n)
  show ?case
  proof (cases "gf_count (key_fifo c) = 0")
    case False
    then obtain p gf where p: "adaptive_ghost_fifo_pop_oldest (key_fifo c) = Some (p, gf)"
      using Suc.prems by (auto simp: bind_Some_iff)
    show ?thesis
      using Suc.prems False p Suc.IH [of "c\<lparr>key_fifo := gf\<rparr>"] by (auto simp: Let_def split: if_splits)
  qed (use Suc in auto)
qed auto

lemma cold_make_room_clru:
  assumes "cold_make_room full c = Some c'"
  shows "clru (member c') = clru (member c)"
proof (rule cold_make_room.raw_induct [where P = "\<lambda>_ c c'. clru (member c') = clru (member c)", OF _ assms])
  fix f full c c'
  assume ih: "\<And>full c c'. f full c = Some c' \<Longrightarrow> clru (member c') = clru (member c)"
    and run: "(if full (unat (nr_ghost_cold (member c))) then Option.bind (ghost_cold_fifo_evict_oldest c)
      (\<lambda>r. if fst r then f full (snd r) else Some (snd r)) else Some c) = Some c'"
  show "clru (member c') = clru (member c)"
  proof (cases "full (unat (nr_ghost_cold (member c)))")
    case True
    then obtain r where r: "ghost_cold_fifo_evict_oldest c = Some r" "(if fst r then f full (snd r) else Some (snd r)) = Some c'"
      using run by (auto simp: bind_Some_iff)
    have "clru (member (snd r)) = clru (member c)"
      using r(1) by (simp add: ghost_cold_fifo_evict_oldest_def cold_fifo_loop_clru)
    then show ?thesis
      using r(2) ih [of full "snd r" c'] by (cases "fst r") simp_all
  qed (use run in simp)
qed

lemma key_make_room_clru:
  assumes "key_make_room full c = Some c'"
  shows "clru (member c') = clru (member c)"
proof (rule key_make_room.raw_induct [where P = "\<lambda>_ c c'. clru (member c') = clru (member c)", OF _ assms])
  fix f full c c'
  assume ih: "\<And>full c c'. f full c = Some c' \<Longrightarrow> clru (member c') = clru (member c)"
    and run: "(if full (unat (nr_ghost_key (member c))) then Option.bind (ghost_key_fifo_evict_oldest c)
      (\<lambda>r. if fst r then f full (snd r) else Some (snd r)) else Some c) = Some c'"
  show "clru (member c') = clru (member c)"
  proof (cases "full (unat (nr_ghost_key (member c)))")
    case True
    then obtain r where r: "ghost_key_fifo_evict_oldest c = Some r" "(if fst r then f full (snd r) else Some (snd r)) = Some c'"
      using run by (auto simp: bind_Some_iff)
    have "clru (member (snd r)) = clru (member c)"
      using r(1) by (simp add: ghost_key_fifo_evict_oldest_def key_fifo_loop_clru)
    then show ?thesis
      using r(2) ih [of full "snd r" c'] by (cases "fst r") simp_all
  qed (use run in simp)
qed

lemma update_caps_clru:
  assumes "adaptive_ghost_update_caps_locked c = Some c'"
  shows "clru (member c') = clru (member c)"
proof -
  obtain full1 full2 c1 c2 where r: "cold_make_room full1 c1 = Some c2" "key_make_room full2 c2 = Some c'"
    "clru (member c1) = clru (member c)"
    using assms by (auto simp: adaptive_ghost_update_caps_locked_def adaptive_ghost_trim_locked_def Let_def
        adaptive_ghost_compute_caps_def bind_Some_iff)
  then show ?thesis
    by (simp add: cold_make_room_clru [OF r(1)] key_make_room_clru [OF r(2)])
qed

lemma side_clru: "side c' = side c \<Longrightarrow> clru (member c') = clru (member c)"
  by (rule side_eqD)

lemma drain_all_clru: "hot_rehash_drain_all c = Some c' \<Longrightarrow> clru (member c') = clru (member c)"
  by (auto simp: hot_rehash_drain_all_def intro!: side_clru dest: drain_side)

lemma moves_clru:
  "adaptive_expand_hot_from_cold c = Some (b, c') \<Longrightarrow> clru (member c') = clru (member c)"
  "adaptive_shrink_hot_to_cold c = Some (b, c') \<Longrightarrow> clru (member c') = clru (member c)"
  "adaptive_expand_key_cache n c = Some (b, c') \<Longrightarrow> clru (member c') = clru (member c)"
proof -
  have clear: "clru (member (fold adaptive_clear_hot_page ps d)) = clru (member d)" for ps d
    by (rule side_clru) (rule clear_pages)
  have start: "clru (member (hot_rehash_begin d)) = clru (member d)" for d
    by (rule side_clru) simp
  show "adaptive_expand_hot_from_cold c = Some (b, c') \<Longrightarrow> clru (member c') = clru (member c)"
    "adaptive_shrink_hot_to_cold c = Some (b, c') \<Longrightarrow> clru (member c') = clru (member c)"
    "adaptive_expand_key_cache n c = Some (b, c') \<Longrightarrow> clru (member c') = clru (member c)"
    by (auto simp: adaptive_expand_hot_from_cold_def adaptive_shrink_hot_to_cold_def adaptive_expand_key_cache_def Let_def
        bind_Some_iff adaptive_reset_stats_def clear start split: if_splits dest!: update_caps_clru drain_all_clru)
qed

lemma try_rebalance_clru:
  assumes "adaptive_try_rebalance c = Some c'"
  shows "clru (member c') = clru (member c)"
  using assms by (auto simp: adaptive_try_rebalance_def bind_Some_iff split: if_splits
      dest!: moves_clru intro: side_clru dest: drain_side)

section \<open>Every operation keeps the invariant\<close>

lemma run_okI: "part_ok c' \<Longrightarrow> clru (member c') = clru (member c) \<Longrightarrow> run_ok c \<Longrightarrow> run_ok c'"
  by (simp add: run_ok_def)

lemma run_ok_part: "run_ok c \<Longrightarrow> part_ok c"
  by (simp add: run_ok_def)

lemma promote_run_ok:
  assumes ok: "run_ok c" and v: "v < 699050" and run: "dftl_cache_promote_hot (Some v) c = Some (r, c')"
  shows "run_ok c'"
proof -
  note part = run_ok_part [OF ok]
  obtain k where k: "hot_ok k c" "hot_cmt_accessible c"
    using part by (auto simp: part_ok_def)
  have "cmt_idx (cmts (member c) w) < 2 ^ 22" if "Some v = Some w" for w
    using part v that by (auto simp: part_ok_def)
  from returnsD [OF promote_hot_same [OF k this] run] obtain w g where "side c' = side (upd_cmt w g c)"
    by auto
  then have "clru (member c') = clru (member c)"
    by (auto dest: side_clru)
  then show ?thesis
    using returnsD [OF promote_part_ok [OF part] run] v part_ok_pages [OF part] ok by (auto intro: run_okI)
qed

lemma lookup_run_ok:
  assumes ok: "run_ok c" and run: "dftl_cache_hot_is_hit lpa c = Some (hit, c')"
  shows "run_ok c'"
proof -
  note part = run_ok_part [OF ok]
  have "hot_env_ok (env c)" "hot_cmt_accessible c"
    using part by (auto simp: part_ok_def hot_ok_def)
  note eq = is_hit_eq [OF this]
  have "side c' = side c"
    using run by (auto simp: eq split: option.splits)
  then show ?thesis
    using returnsD [OF lookup_part_ok [OF part] run] ok by (auto intro: run_okI side_clru)
qed

lemma access_run_ok:
  assumes ok: "run_ok c"
  shows "run_ok (dftl_cache_cold_grain_access lpa c)"
proof (rule run_okI [OF _ _ ok])
  show "part_ok (dftl_cache_cold_grain_access lpa c)"
    using access_part_ok [OF run_ok_part [OF ok]] by blast
  show "clru (member (dftl_cache_cold_grain_access lpa c)) = clru (member c)"
    by (simp add: dftl_cache_cold_grain_access_def Let_def upd_cmt_def upd_member_def upd_stat_def split: prod.split)
qed

lemma mark_run_ok:
  assumes ok: "run_ok c" and v: "v < 699050" and run: "adaptive_ghost_cold_mark v c = Some c'"
  shows "run_ok c'"
proof (rule run_okI [OF _ _ ok])
  show "part_ok c'"
    using returnsD [OF mark_part_ok [OF run_ok_part [OF ok]] run] v part_ok_pages [OF run_ok_part [OF ok]] by simp
  show "clru (member c') = clru (member c)"
    using run by (auto simp: adaptive_ghost_cold_mark_def bind_Some_iff Let_def upd_cmt_def upd_member_def split: if_splits
        dest: cold_make_room_clru)
qed

lemma clear_run_ok:
  assumes ok: "run_ok c" and v: "v < 699050"
  shows "run_ok (adaptive_ghost_cold_clear v c)"
proof (rule run_okI [OF _ _ ok])
  show "part_ok (adaptive_ghost_cold_clear v c)"
    using clear_part_ok [OF run_ok_part [OF ok]] v part_ok_pages [OF run_ok_part [OF ok]] by simp
qed (simp add: adaptive_ghost_cold_clear_def Let_def upd_cmt_def upd_member_def)

lemma rebalance_run_ok:
  assumes ok: "run_ok c" and run: "adaptive_try_rebalance c = Some c'"
  shows "run_ok c'"
  using returnsD [OF try_rebalance_post [OF run_ok_part [OF ok]] run] try_rebalance_clru [OF run] ok by (auto intro: run_okI)

lemma evict_rebalance_run_ok:
  assumes ok: "run_ok c" and v: "v < 699050" and run: "evict_rebalance v c = Some c'"
  shows "run_ok c'"
proof -
  obtain c1 where c1: "adaptive_ghost_cold_mark v c = Some c1"
    using run by (auto simp: evict_rebalance_def bind_Some_iff)
  then have ok1: "run_ok c1"
    using mark_run_ok [OF ok v] by blast
  then have "hot_cmt_accessible c1" "run_ok (c1\<lparr>rebalance_evict_cnt := n\<rparr>)" for n
    using gentle_run_ok [OF ok1 gentle_upd(6)] by (auto simp: run_ok_def part_ok_def)
  then show ?thesis
    using run c1 by (auto simp: evict_rebalance_def Let_def split: if_splits intro: rebalance_run_ok)
qed

section \<open>Listing a page\<close>

abbreviation sys_ok :: "sys \<Rightarrow> bool" where
  "sys_ok s \<equiv> run_ok (cache s)"

lemma calm_sys_ok: "sys_ok s \<Longrightarrow> calm s s' \<Longrightarrow> sys_ok s'"
  by (rule gentle_run_ok)

lemma promote_round_ok:
  assumes "promote_round s = Some s'" and "sys_ok s"
  shows "sys_ok s'"
proof -
  have cands: "fold promote_candidate cs (Some s) = Some s' \<Longrightarrow> \<forall>v \<in> set cs. v < 699050 \<Longrightarrow> sys_ok s \<Longrightarrow> sys_ok s'" for cs s
  proof (induction cs arbitrary: s)
    case (Cons v cs)
    have none: "fold promote_candidate xs None = None" for xs
      by (induction xs) (simp_all add: promote_candidate_def)
    obtain s1 where s1: "promote_candidate v (Some s) = Some s1" "fold promote_candidate cs (Some s1) = Some s'"
      using Cons.prems(1) none by (cases "promote_candidate v (Some s)") auto
    have "sys_ok s1"
      using s1(1) Cons.prems(2,3) promote_run_ok [of "cache s" v] by (auto simp: promote_candidate_def Let_def split: if_splits)
    then show ?case
      using Cons.IH [OF s1(2)] Cons.prems(2) by simp
  qed simp
  show ?thesis
    using assms lru_pick_below [where N = 699050]
    by (auto simp: promote_round_def bind_Some_iff run_ok_def split: if_splits dest!: cands [unfolded run_ok_def])
qed

lemma pop_victim_ok: "pop_victim g s = Some (v, s') \<Longrightarrow> sys_ok s \<Longrightarrow> sys_ok s' \<and> v < 699050"
proof (induction g arbitrary: s)
  case (Suc g)
  obtain s1 d l where s1: "promote_round s = Some s1" "lru_pop (clru (member (cache s1))) = Some (Some d, l)"
    "(let s3 = upd_cmt_at d (\<lambda>x. x\<lparr>lru_ptr := None\<rparr>) (upd_cache (upd_member (\<lambda>m. m\<lparr>clru := l\<rparr>)) s1)
      in if cmt_is_ghost (the_cmt s3 d) \<or> cmt_pt (the_cmt s3 d) = None then pop_victim g s3 else Some (d, s3)) = Some (v, s')"
    using Suc.prems(1) by (auto simp: bind_Some_iff Let_def)
  define s3 where "s3 = upd_cmt_at d (\<lambda>x. x\<lparr>lru_ptr := None\<rparr>) (upd_cache (upd_member (\<lambda>m. m\<lparr>clru := l\<rparr>)) s1)"
  have ok1: "sys_ok s1"
    using promote_round_ok [OF s1(1) Suc.prems(2)] .
  have "calm s1 (upd_cache (upd_member (\<lambda>m. m\<lparr>clru := l\<rparr>)) s1)"
    using lru_pop_below [OF s1(2)] by (intro calm_upd(1) gentle_upd_lru) blast
  moreover have "calm (upd_cache (upd_member (\<lambda>m. m\<lparr>clru := l\<rparr>)) s1) s3"
    unfolding s3_def by (rule calm_upd(2)) simp
  ultimately have ok3: "sys_ok s3"
    using calm_sys_ok [OF ok1] calm_trans by blast
  have "d < 699050"
    using lru_pop_below [OF s1(2)] ok1 by (auto simp: run_ok_def)
  then show ?case
    using s1(3) Suc.IH [of s3] ok3 unfolding s3_def [symmetric] Let_def by (auto split: if_splits)
qed simp

lemma evict_page_ok:
  assumes "evict_page now i s = Some (rc, s')" and ok: "sys_ok s"
  shows "sys_ok s'"
proof -
  let ?s1 = "upd_cache (\<lambda>c. c\<lparr>pop_count := pop_count c + 1\<rparr>) s"
  obtain g v s2 where v: "pop_victim g ?s1 = Some (v, s2)" and rest: "do {
     let s3 = upd_cmt_at v cmt_cold_tail_evict_teardown s2;
     let s4 = upd_cache (upd_member (\<lambda>m. m\<lparr>nr_cached_tpages := nr_cached_tpages m - 1\<rparr>)) s3;
     let s5 = upd_cmt_at v (\<lambda>x. x\<lparr>cmt_pt := None\<rparr>) s4;
     (rc, s6) \<leftarrow> (if cmt_dirty (the_cmt s5 v) then map_option (Pair (1 :: int)) (evict_write now v i s5)
                  else Some (0, upd_cache (upd_stat (\<lambda>t. t\<lparr>clean_evict := clean_evict t + 1\<rparr>)) s5));
     s7 \<leftarrow> on_cache (evict_rebalance v) s6;
     Some (rc, s7) } = Some (rc, s')"
    using assms(1) by (auto simp: evict_page_def Let_def bind_Some_iff)
  define s3 where "s3 = upd_cmt_at v cmt_cold_tail_evict_teardown s2"
  define s4 where "s4 = upd_cache (upd_member (\<lambda>m. m\<lparr>nr_cached_tpages := nr_cached_tpages m - 1\<rparr>)) s3"
  define s5 where "s5 = upd_cmt_at v (\<lambda>x. x\<lparr>cmt_pt := None\<rparr>) s4"
  have "calm s ?s1"
    by (rule calm_upd(1)) (rule gentle_upd)
  then have v2: "sys_ok s2" "v < 699050"
    using pop_victim_ok [OF v] calm_sys_ok [OF ok] by auto
  have "calm s2 s3"
    unfolding s3_def by (rule calm_upd(2)) (simp add: cmt_cold_tail_evict_teardown_def)
  moreover have "calm s3 s4"
    unfolding s4_def by (rule calm_upd(1)) (rule gentle_upd(4))
  moreover have "calm s4 s5"
    unfolding s5_def by (rule calm_upd(2)) simp
  ultimately have c5: "calm s2 s5"
    using calm_trans by blast
  obtain s6 where s6: "calm s5 s6" "on_cache (evict_rebalance v) s6 = Some s'"
  proof (cases "cmt_dirty (the_cmt s5 v)")
    case True
    then show thesis
      using rest that unfolding Let_def s3_def [symmetric] s4_def [symmetric] s5_def [symmetric]
      by (auto simp: bind_Some_iff dest: evict_write_calm)
  next
    case False
    have "calm s5 (upd_cache (upd_stat (\<lambda>t. t\<lparr>clean_evict := clean_evict t + 1\<rparr>)) s5)"
      by (rule calm_upd(1)) (rule gentle_upd(3), simp)
    then show thesis
      using False rest that unfolding Let_def s3_def [symmetric] s4_def [symmetric] s5_def [symmetric]
      by (auto simp: bind_Some_iff)
  qed
  have "sys_ok s6"
    using calm_sys_ok [OF v2(1)] calm_trans [OF c5 s6(1)] by blast
  then show ?thesis
    using s6(2) evict_rebalance_run_ok [OF _ v2(2)] by (auto simp: on_cache_def)
qed

lemma install_page_ok:
  assumes run: "install_page d s = Some s'" and ok: "sys_ok s" and d: "d < 699050"
  shows "sys_ok s'"
proof -
  define s1 where "s1 = upd_cache (adaptive_ghost_cold_clear d) s"
  define s2 where "s2 = upd_cmt_at d (\<lambda>x. cmt_cold_resident_meta_init (x\<lparr>cmt_pt := Some d, cnt_map := Some (replicate EPP 0)\<rparr>)) s1"
  let ?l0 = "clru (member (cache s2))" and ?count = "upd_cache (upd_member (\<lambda>m. m\<lparr>nr_cached_tpages := nr_cached_tpages m + 1\<rparr>))"
  have "sys_ok s1"
    using clear_run_ok [OF ok d] by (simp add: s1_def upd_cache_def)
  moreover have "calm s1 s2"
    unfolding s2_def by (rule calm_upd(2)) (simp add: cmt_cold_resident_meta_init_def)
  ultimately have ok2: "sys_ok s2"
    by (rule calm_sys_ok)
  have run: "do {
     s3 \<leftarrow> (if lru_ptr (the_cmt s2 d) \<noteq> None then do {
               l \<leftarrow> lru_update ?l0 (lru_ptr (the_cmt s2 d));
               Some (upd_cache (upd_member (\<lambda>m. m\<lparr>clru := l\<rparr>)) s2)
             } else do {
               (a, l) \<leftarrow> lru_push ?l0 (Some d);
               Some (upd_cmt_at d (\<lambda>x. x\<lparr>lru_ptr := Some a\<rparr>) (upd_cache (upd_member (\<lambda>m. m\<lparr>clru := l\<rparr>)) s2))
             });
     Some (?count s3) } = Some s'"
    using run unfolding install_page_def Let_def s1_def [symmetric] s2_def [symmetric] .
  have counted: "sys_ok t \<Longrightarrow> sys_ok (?count t)" for t
    by (erule calm_sys_ok) (rule calm_upd(1), rule gentle_upd(4))
  show ?thesis
  proof (cases "lru_ptr (the_cmt s2 d) = None")
    case False
    then obtain l where l: "lru_update ?l0 (lru_ptr (the_cmt s2 d)) = Some l" "s' = ?count (upd_cache (upd_member (\<lambda>m. m\<lparr>clru := l\<rparr>)) s2)"
      using run by (auto simp: bind_Some_iff)
    have "calm s2 (upd_cache (upd_member (\<lambda>m. m\<lparr>clru := l\<rparr>)) s2)"
      using lru_update_below [OF l(1)] by (intro calm_upd(1) gentle_upd_lru)
    then show ?thesis
      unfolding l(2) by (intro counted calm_sys_ok [OF ok2])
  next
    case True
    then obtain a l where l: "lru_push ?l0 (Some d) = Some (a, l)"
      "s' = ?count (upd_cmt_at d (\<lambda>x. x\<lparr>lru_ptr := Some a\<rparr>) (upd_cache (upd_member (\<lambda>m. m\<lparr>clru := l\<rparr>)) s2))"
      using run by (auto simp: bind_Some_iff)
    have "part_ok (cache (upd_cache (upd_member (\<lambda>m. m\<lparr>clru := l\<rparr>)) s2))"
      by (rule part_ok_marks [OF run_ok_part [OF ok2]])
        (use ok2 in \<open>auto simp: upd_cache_def upd_member_def hot_slot_def run_ok_def part_ok_def ghost_ok_def ghosts_of_def\<close>)
    then have "sys_ok (upd_cache (upd_member (\<lambda>m. m\<lparr>clru := l\<rparr>)) s2)"
      using lru_push_below [OF l(1) _ d] ok2 by (simp add: run_ok_def upd_cache_def upd_member_def)
    then show ?thesis
      unfolding l(2) by (intro counted) (erule calm_sys_ok, rule calm_upd(2), simp)
  qed
qed

lemma resume_waiting_calm:
  assumes "resume_waiting d i s = Some s'"
  shows "calm s s'"
proof -
  have none: "fold (resume_one i) as None = None" for as
    by (induction as) (simp_all add: resume_one_def)
  have fold: "fold (resume_one i) as (Some t) = Some s' \<Longrightarrow> cache s' = cache t" for as t
  proof (induction as arbitrary: t)
    case (Cons a as)
    then obtain t1 where t1: "resume_one i a (Some t) = Some t1" "fold (resume_one i) as (Some t1) = Some s'"
      using none by (cases "resume_one i a (Some t)") auto
    then show ?case
      using Cons.IH [OF t1(2)] by (auto simp: resume_one_def bind_Some_iff Let_def dest!: cache_frames(3,5))
  qed simp
  have "calm s (upd_cmt_at d (\<lambda>x. x\<lparr>is_flying := False, Cmt.retry_q := []\<rparr>) s)"
    by (rule calm_upd(2)) simp
  then show ?thesis
    using assms fold by (auto simp: resume_waiting_def Let_def split: if_splits)
qed

lemma list_up_ok:
  assumes run: "dftl_cache_list_up now lpa i s = Some (rc, s')" and ok: "sys_ok s" and d: "D_IDX lpa < 699050"
  shows "sys_ok s'"
proof -
  obtain rc1 s1 s2 where r: "(if dftl_cache_is_full s then evict_page now i s else Some (0, s)) = Some (rc1, s1)"
    "install_page (D_IDX lpa) s1 = Some s2" "resume_waiting (D_IDX lpa) i s2 = Some s'"
    using run by (auto simp: dftl_cache_list_up_def bind_Some_iff)
  have "sys_ok s1"
    using r(1) evict_page_ok ok by (auto split: if_splits)
  then show ?thesis
    using install_page_ok [OF r(2) _ d] resume_waiting_calm [OF r(3)] calm_sys_ok by blast
qed

section \<open>The other steps\<close>

lemma update_calm:
  assumes "dftl_cache_update lpa v s = Some s'"
  shows "calm s s'"
proof (cases "cmt_pt (the_cmt s (D_IDX lpa))")
  case None
  then have "s' = upd_cache (upd_member (set_pte (D_IDX lpa) (P_IDX lpa) v)) s"
    using assms by (simp add: dftl_cache_update_def Let_def)
  then show ?thesis
    by (simp add: calm_upd gentle_upd)
next
  case (Some row)
  let ?d = "D_IDX lpa" and ?s1 = "upd_cache (upd_member (set_pte row (P_IDX lpa) v)) s"
  obtain s2 l where s2: "(if \<not> IS_INITIAL_PPA (t_ppa (the_cmt s ?d)) \<and> \<not> cmt_dirty (the_cmt s ?d)
       then map_option (upd_cmt_at ?d (\<lambda>x. x\<lparr>t_ppa := UINT32_MAX\<rparr>)) (on_bm (dftl_invalidate_page (t_ppa (the_cmt s ?d))) ?s1)
       else Some ?s1) = Some s2"
    and l: "lru_update (clru (member (cache (upd_cmt_at ?d (\<lambda>x. x\<lparr>cmt_dirty := True\<rparr>) s2)))) (lru_ptr (the_cmt s ?d)) = Some l"
      "s' = upd_cache (upd_member (\<lambda>m. m\<lparr>clru := l\<rparr>)) (upd_cmt_at ?d (\<lambda>x. x\<lparr>cmt_dirty := True\<rparr>) s2)"
    using assms unfolding dftl_cache_update_def Let_def Some option.case by (auto simp: bind_Some_iff)
  have "calm s ?s1"
    by (rule calm_upd(1)) (rule gentle_upd(1))
  moreover have "calm ?s1 s2"
  proof (cases "\<not> IS_INITIAL_PPA (t_ppa (the_cmt s ?d)) \<and> \<not> cmt_dirty (the_cmt s ?d)")
    case True
    then obtain t where t: "on_bm (dftl_invalidate_page (t_ppa (the_cmt s ?d))) ?s1 = Some t" "s2 = upd_cmt_at ?d (\<lambda>x. x\<lparr>t_ppa := UINT32_MAX\<rparr>) t"
      using s2 by auto
    have "calm t s2"
      unfolding t(2) by (rule calm_upd(2)) simp
    then show ?thesis
      by (simp add: cache_frames(6) [OF t(1)])
  qed (use s2 in \<open>simp split: if_splits\<close>)
  moreover have "calm s2 (upd_cmt_at ?d (\<lambda>x. x\<lparr>cmt_dirty := True\<rparr>) s2)"
    by (rule calm_upd(2)) simp
  moreover have "calm (upd_cmt_at ?d (\<lambda>x. x\<lparr>cmt_dirty := True\<rparr>) s2) s'"
    unfolding l(2) using lru_update_below [OF l(1)] by (intro calm_upd(1) gentle_upd_lru)
  ultimately show ?thesis
    using calm_trans by blast
qed

lemma touch_calm:
  assumes "dftl_cache_touch lpa s = Some s'"
  shows "calm s s'"
proof (cases "\<not> cmt_is_resident (the_cmt s (D_IDX lpa)) \<or> lru_ptr (the_cmt s (D_IDX lpa)) = None")
  case False
  then obtain l where l: "lru_update (clru (member (cache s))) (lru_ptr (the_cmt s (D_IDX lpa))) = Some l"
    "s' = upd_cache (upd_member (\<lambda>m. m\<lparr>clru := l\<rparr>)) s"
    using assms by (auto simp: dftl_cache_touch_def Let_def bind_Some_iff)
  show ?thesis
    unfolding l(2) using lru_update_below [OF l(1)] by (intro calm_upd(1) gentle_upd_lru)
qed (use assms in \<open>auto simp: dftl_cache_touch_def Let_def\<close>)

lemma load_calm:
  assumes "dftl_cache_load now lpa i s = Some (rc, s')"
  shows "calm s s'"
proof (cases "IS_INITIAL_PPA (t_ppa (the_cmt s (D_IDX lpa)))")
  case False
  then obtain s1 lat s3 s4 where r: "get_iparams i GOTO_LIST s = Some s1"
    "li_read now (t_ppa (the_cmt s (D_IDX lpa))) PAGESIZE (upd_cache (upd_stat (\<lambda>t. t\<lparr>cache_load := cache_load t + 1\<rparr>)) s1) = Some (lat, s3)"
    "set_etime i now lat s3 = Some s4" "s' = upd_cmt_at (D_IDX lpa) (\<lambda>x. x\<lparr>is_flying := True\<rparr>) s4"
    using assms by (auto simp: dftl_cache_load_def Let_def bind_Some_iff)
  have "calm s1 (upd_cache (upd_stat (\<lambda>t. t\<lparr>cache_load := cache_load t + 1\<rparr>)) s1)"
    by (rule calm_upd(1)) (rule gentle_upd(3), simp)
  then have "calm s s4"
    by (simp add: cache_frames(3) [OF r(1)] cache_frames(7) [OF r(2)] cache_frames(4) [OF r(3)])
  moreover have "calm s4 s'"
    unfolding r(4) by (rule calm_upd(2)) simp
  ultimately show ?thesis
    by (rule calm_trans)
qed (use assms in \<open>simp add: dftl_cache_load_def Let_def\<close>)

lemma wait_calm:
  assumes "dftl_cache_wait_if_flying lpa i s = (rc, s')"
  shows "calm s s'"
proof -
  have "calm s (upd_cache (upd_stat (\<lambda>t. t\<lparr>blocked_miss := blocked_miss t + 1\<rparr>)) s)"
    by (rule calm_upd(1)) (rule gentle_upd(3), simp)
  moreover have "calm t (upd_cmt_at (D_IDX lpa) (\<lambda>x. x\<lparr>Cmt.retry_q := Cmt.retry_q x @ [h]\<rparr>) t)" for t h
    by (rule calm_upd(2)) simp
  ultimately have "calm s (upd_cmt_at (D_IDX lpa) (\<lambda>x. x\<lparr>Cmt.retry_q := Cmt.retry_q x @ [h]\<rparr>)
      (upd_cache (upd_stat (\<lambda>t. t\<lparr>blocked_miss := blocked_miss t + 1\<rparr>)) s))" for h
    using calm_trans by blast
  then show ?thesis
    using assms by (auto simp: dftl_cache_wait_if_flying_def split: if_splits)
qed

lemma page_lookup_ok: "dftl_cache_is_hit lpa s = (hit, s') \<Longrightarrow> sys_ok s \<Longrightarrow> sys_ok s'"
  by (auto simp: dftl_cache_is_hit_def upd_cache_def access_run_ok split: if_splits)

lemma stat_run_ok:
  "(\<And>t. hot_pte_state_live (g t) = hot_pte_state_live t \<and> hot_valid_entries (g t) = hot_valid_entries t) \<Longrightarrow> run_ok c \<Longrightarrow> run_ok (upd_stat g c)"
  by (erule gentle_run_ok) (rule gentle_upd(3))

lemma miss_run_ok: "run_ok c \<Longrightarrow> run_ok (adaptive_ghost_cold_on_miss v u c)"
  by (simp add: adaptive_ghost_cold_on_miss_def stat_run_ok)

lemma reset_run_ok:
  assumes ok: "run_ok c"
  shows "run_ok (dftl_cache_hot_reset c)"
proof (rule run_okI [OF _ _ ok])
  show "part_ok (dftl_cache_hot_reset c)"
    using reset_part_ok [OF run_ok_part [OF ok]] by blast
  have "side (fold (\<lambda>q. upd_slot q reset_slot) qs d) = side d" for qs d
    by (induction qs arbitrary: d) simp_all
  then have "clru (member (fold (\<lambda>q. upd_slot q reset_slot) qs d)) = clru (member d)" for qs d
    by (rule side_clru)
  then show "clru (member (dftl_cache_hot_reset c)) = clru (member c)"
    by (simp add: dftl_cache_hot_reset_def Let_def)
qed

lemma prepare_run_ok:
  assumes ok: "run_ok c"
  shows "run_ok (adaptive_prepare_for_benchmark c)"
proof (rule run_okI [OF _ _ ok])
  show "part_ok (adaptive_prepare_for_benchmark c)"
    using prepare_part_ok [OF run_ok_part [OF ok]] by blast
  have "clru (member (fold (\<lambda>i. upd_cmt i f) is d)) = clru (member d)" for "is" d f
    by (induction "is" arbitrary: d) (simp_all add: upd_cmt_def upd_member_def)
  then show "clru (member (adaptive_prepare_for_benchmark c)) = clru (member c)"
    by (simp add: adaptive_prepare_for_benchmark_def Let_def upd_member_def upd_stat_def)
qed

lemma verify_run_ok:
  assumes ok: "run_ok c"
  shows "run_ok (snd (adaptive_ghost_key_on_flash_verify q fp c))"
proof (rule run_okI [OF _ _ ok])
  let ?c = "snd (adaptive_ghost_key_on_flash_verify q fp c)"
  have "ghost_rel c ?c"
    by (simp add: adaptive_ghost_key_on_flash_verify_def Let_def ghost_rel_def slot_core_def)
  moreover have m: "env ?c = env c" "cold_fifo ?c = cold_fifo c" "key_fifo ?c = key_fifo c" "cmts (member ?c) = cmts (member c)"
    "nr_ghost_cold (member ?c) = nr_ghost_cold (member c)" "clru (member ?c) = clru (member c)"
    by (simp_all add: adaptive_ghost_key_on_flash_verify_def Let_def)
  moreover have "ghost_ok ?c"
    using ok by (simp add: run_ok_def part_ok_def ghost_ok_def ghosts_of_def m)
  ultimately show "part_ok ?c"
    using ghost_rel_part_ok [OF run_ok_part [OF ok]] by blast
  show "clru (member ?c) = clru (member c)"
    by (rule m)
qed

section \<open>The mapping updates of the collector\<close>

lemma first_pass_ok:
  "fold (map_first_pass now) ns r = Some (skip, s') \<Longrightarrow> (\<And>k s. r = Some (k, s) \<Longrightarrow> sys_ok s) \<Longrightarrow> sys_ok s'"
proof (induction ns arbitrary: r)
  case (Cons n ns)
  show ?case
  proof (rule Cons.IH)
    show "fold (map_first_pass now) ns (map_first_pass now n r) = Some (skip, s')"
      using Cons.prems(1) by simp
    show "sys_ok s1" if run: "map_first_pass now n r = Some (k1, s1)" for k1 s1
    proof -
      obtain k0 s0 where s0: "r = Some (k0, s0)" "sys_ok s0"
        using run Cons.prems(2) by (auto simp: map_first_pass_def bind_Some_iff)
      obtain hit t where t: "dftl_cache_is_hit (gn_lpa n) s0 = (hit, t)"
        by (cases "dftl_cache_is_hit (gn_lpa n) s0")
      have ok: "sys_ok t"
        using page_lookup_ok [OF t s0(2)] .
      have "calm t s1"
      proof (cases hit)
        case True
        then obtain v t1 where "dftl_cache_update (gn_lpa n) v t1 = Some s1" "cache t1 = cache t"
          using run s0(1) t by (auto simp: map_first_pass_def bind_Some_iff Let_def upd_denv_def split: if_splits)
        then show ?thesis
          using update_calm by metis
      next
        case False
        show ?thesis
        proof (cases "t_ppa (the_cmt t (D_IDX (gn_lpa n))) = UINT32_MAX")
          case True
          then show ?thesis
            using run s0(1) t False by (auto simp: map_first_pass_def bind_Some_iff Let_def split: if_splits)
        next
          case ne: False
          obtain lat t2 t4 where r: "li_read now (t_ppa (the_cmt t (D_IDX (gn_lpa n)))) PAGESIZE t = Some (lat, t2)"
            "cache t4 = cache t2" "s1 = upd_cmt_at (D_IDX (gn_lpa n)) (\<lambda>x. x\<lparr>t_ppa := UINT32_MAX\<rparr>) t4"
            using run s0(1) t False ne
            by (auto simp: map_first_pass_def bind_Some_iff Let_def upd_denv_def split: if_splits dest!: cache_frames(6))
          have "calm t4 s1"
            unfolding r(3) by (rule calm_upd(2)) simp
          then show ?thesis
            by (simp add: r(2) cache_frames(7) [OF r(1)])
        qed
      qed
      then show ?thesis
        using calm_sys_ok [OF ok] by blast
    qed
  qed
qed simp

lemma set_ppa_calm: "calm s (set_ppa d n s)"
  unfolding set_ppa_def by (rule calm_upd(1)) (simp add: gentle_def hot_slot_def upd_member_def set_pte_def)

lemma second_pass_calm: "map_second_pass now ns s = Some s' \<Longrightarrow> calm s s'"
proof (induction now ns s rule: map_second_pass.induct)
  case (3 now node rest s)
  let ?d = "D_IDX (gn_lpa node)" and ?d' = "cmt_idx (the_cmt s (D_IDX (gn_lpa node)))"
  define s1 where "s1 = fold (\<lambda>(n, _). set_ppa ?d' n) (takeWhile (\<lambda>(n, _). D_IDX (gn_lpa n) = ?d') rest) (set_ppa ?d' node s)"
  have "calm t (fold (\<lambda>(n, _). set_ppa ?d' n) xs t)" for xs :: "(gc_node \<times> bool) list" and t
  proof (induction xs arbitrary: t)
    case (Cons x xs)
    then show ?case
      using set_ppa_calm [of t ?d' "fst x"] calm_trans by (cases x) fastforce
  qed simp
  then have c1: "calm s s1"
    using set_ppa_calm [of s ?d' node] calm_trans unfolding s1_def by blast
  obtain p s2 where a: "tp_alloc now s1 = Some (p, s2)"
    using "3.prems" unfolding map_second_pass.simps Let_def s1_def [symmetric] by (auto split: option.splits)
  obtain s3 where b: "on_bm (dftl_validate_page p) (upd_cmt_at ?d (\<lambda>x. x\<lparr>t_ppa := p\<rparr>) s2) = Some s3"
    using "3.prems" a unfolding map_second_pass.simps Let_def s1_def [symmetric] by (auto split: option.splits)
  obtain lat s4 where w: "li_write now p PAGESIZE s3 = Some (lat, s4)"
    using "3.prems" a b unfolding map_second_pass.simps Let_def s1_def [symmetric] by (auto split: option.splits)
  obtain s5 where o5: "on_bm (dftl_bm_set_oob (p * GRAIN_PER_PAGE) (tpage_oob ?d')) s4 = Some s5"
    and rest: "map_second_pass now (dropWhile (\<lambda>(n, _). D_IDX (gn_lpa n) = ?d') rest) (upd_cmt_at ?d (\<lambda>x. x\<lparr>cmt_dirty := False\<rparr>) s5) = Some s'"
    using "3.prems" a b w unfolding map_second_pass.simps Let_def s1_def [symmetric] by (auto split: option.splits)
  have "calm s2 (upd_cmt_at ?d (\<lambda>x. x\<lparr>t_ppa := p\<rparr>) s2)"
    by (rule calm_upd(2)) simp
  then have c5: "calm s2 s5"
    by (simp add: cache_frames(6) [OF b] cache_frames(8) [OF w] cache_frames(6) [OF o5])
  have c6: "calm s5 (upd_cmt_at ?d (\<lambda>x. x\<lparr>cmt_dirty := False\<rparr>) s5)"
    by (rule calm_upd(2)) simp
  have "calm (upd_cmt_at ?d (\<lambda>x. x\<lparr>cmt_dirty := False\<rparr>) s5) s'"
    using "3.IH" a b w o5 rest unfolding s1_def by (metis (no_types, lifting))
  then show ?case
    using calm_trans [OF c1 calm_trans [OF tp_alloc_calm [OF a] calm_trans [OF c5 calm_trans [OF c6]]]] by blast
qed simp_all

lemma mapping_update_ok:
  assumes run: "bulk_mapping_update now nodes s = Some s'" and ok: "sys_ok s"
  shows "sys_ok s'"
proof (cases "nodes = []")
  case False
  then obtain skip s1 t where r: "fold (map_first_pass now) (sort_key gn_lpa nodes) (Some ([], s)) = Some (skip, s1)"
    "map_second_pass now (zip (sort_key gn_lpa nodes) skip) t = Some s'" "cache t = cache s1"
    using run by (auto simp: bulk_mapping_update_def bind_Some_iff Let_def upd_denv_def)
  have "sys_ok s1"
    using first_pass_ok [OF r(1)] ok by simp
  then show ?thesis
    using second_pass_calm [OF r(2)] calm_sys_ok [of s1 s'] by (simp add: r(3))
qed (use run ok in \<open>simp add: bulk_mapping_update_def\<close>)

section \<open>Runs\<close>

text \<open>
  The steps: the lookups in the hot table and in the cached pages with their access counters, the
  check of a stored key, a miss, the touch, the load, the wait and the listing of a page (with its
  eviction, promotions, ghost marks and rebalance), updates of entries by writes and by the
  collector, a promotion, a rebalance, the two resets, and steps of other components, which may
  count statistics of the cache.
\<close>

inductive cache_step :: "sys \<Rightarrow> sys \<Rightarrow> bool" where
  hot_lookup: "dftl_cache_hot_is_hit lpa (cache s) = Some (q, c') \<Longrightarrow> cache_step s (s\<lparr>cache := c'\<rparr>)"
| grain_access: "cache_step s (upd_cache (dftl_cache_cold_grain_access lpa) s)"
| key_verify: "cache_step s (upd_cache (\<lambda>c. snd (adaptive_ghost_key_on_flash_verify q fp c)) s)"
| cold_lookup: "dftl_cache_is_hit lpa s = (hit, s') \<Longrightarrow> cache_step s s'"
| ghost_miss: "cache_step s (upd_cache (adaptive_ghost_cold_on_miss v u) s)"
| touch: "dftl_cache_touch lpa s = Some s' \<Longrightarrow> cache_step s s'"
| load_page: "dftl_cache_load now lpa i s = Some (rc, s') \<Longrightarrow> cache_step s s'"
| wait: "dftl_cache_wait_if_flying lpa i s = (rc, s') \<Longrightarrow> cache_step s s'"
| list_up: "D_IDX lpa < nr_valid_tpages (env (cache s)) \<Longrightarrow> dftl_cache_list_up now lpa i s = Some (rc, s') \<Longrightarrow> cache_step s s'"
| update: "dftl_cache_update lpa v s = Some s' \<Longrightarrow> cache_step s s'"
| collect: "bulk_mapping_update now nodes s = Some s' \<Longrightarrow> cache_step s s'"
| promote: "v < nr_valid_tpages (env (cache s)) \<Longrightarrow> dftl_cache_promote_hot (Some v) (cache s) = Some (r, c') \<Longrightarrow>
    cache_step s (s\<lparr>cache := c'\<rparr>)"
| rebalance: "adaptive_try_rebalance (cache s) = Some c' \<Longrightarrow> cache_step s (s\<lparr>cache := c'\<rparr>)"
| hot_reset: "cache_step s (upd_cache dftl_cache_hot_reset s)"
| prepare: "cache_step s (upd_cache adaptive_prepare_for_benchmark s)"
| other: "cache s' = upd_stat g (cache s) \<Longrightarrow>
    (\<And>t. hot_pte_state_live (g t) = hot_pte_state_live t \<and> hot_valid_entries (g t) = hot_valid_entries t) \<Longrightarrow> cache_step s s'"

inductive cache_reach :: "sys \<Rightarrow> bool" where
  create: "dftl_cache_create = Some c \<Longrightarrow> cache s = c \<Longrightarrow> cache_reach s"
| step: "cache_reach s \<Longrightarrow> cache_step s s' \<Longrightarrow> cache_reach s'"

lemma create_run_ok:
  assumes "dftl_cache_create = Some c"
  shows "run_ok c"
proof -
  have "member c = cache_member_init" "part_ok c"
    using assms by (metis dftl_cache_create_val option.inject)+
  then show ?thesis
    by (simp add: run_ok_def cache_member_init_def lru_below_def lru_init_def empty_mem_def)
qed

lemma cache_step_ok: "cache_step s s' \<Longrightarrow> sys_ok s \<Longrightarrow> sys_ok s'"
proof (induction rule: cache_step.induct)
  case (list_up lpa s now i rc s')
  then show ?case
    using list_up_ok part_ok_pages [OF run_ok_part] by metis
next
  case (promote v s r c')
  then show ?case
    using promote_run_ok [of "cache s" v] part_ok_pages [OF run_ok_part] by simp
next
  case (other s' g s)
  then show ?case
    using stat_run_ok [of g] by simp
qed (auto simp: upd_cache_def intro: lookup_run_ok access_run_ok verify_run_ok page_lookup_ok miss_run_ok mapping_update_ok
    rebalance_run_ok reset_run_ok prepare_run_ok calm_sys_ok [OF _ touch_calm] calm_sys_ok [OF _ load_calm]
    calm_sys_ok [OF _ wait_calm] calm_sys_ok [OF _ update_calm])

lemma cache_reach_ok: "cache_reach s \<Longrightarrow> sys_ok s"
  by (induction rule: cache_reach.induct) (auto intro: create_run_ok cache_step_ok)

section \<open>A run that fills the hot table\<close>

text \<open>
  The grains of the first \<open>n\<close> mapping pages are in the hot table, each in its home slot with state 2;
  the other slots are empty and the other pages untouched.
\<close>

definition home_filled :: "(nat \<times> nat \<Rightarrow> bool) \<Rightarrow> dcache \<Rightarrow> bool" where
  "home_filled P c \<longleftrightarrow> max_cached_hot_tpages (env c) = 3277 \<and> (\<forall>d < 3277. \<forall>j < EPP.
     if P (d, j) then h_lpa (hot_slot c (d, j)) = IDX_TO_LPA d j \<and> h_state (hot_slot c (d, j)) = 2
     else h_lpa (hot_slot c (d, j)) = UINT32_MAX)"

definition filling :: "nat \<Rightarrow> sys \<Rightarrow> bool" where
  "filling n s \<longleftrightarrow> cache_reach s \<and> home_filled (\<lambda>q. fst q < n) (cache s) \<and> max_cached_tpages (env (cache s)) = 62260 \<and>
     nr_cached_tpages (member (cache s)) = int n \<and> (\<exists>ps. lru_rep (clru (member (cache s))) ps) \<and>
     (\<forall>d \<ge> n. the_cmt s d = blank_cmt d)"

lemma filling_start:
  assumes "dftl_cache_create = Some c"
  shows "filling 0 (s\<lparr>cache := c\<rparr>)"
proof -
  have c: "member c = cache_member_init" "max_cached_tpages (env c) = 62260" "part_ok c"
    using assms by (metis dftl_cache_create_val option.inject)+
  have "max_cached_hot_tpages (env c) = 3277"
    using assms by (auto simp: dftl_cache_create_def adaptive_stats_bootstrap_def adaptive_ghost_update_caps_locked_def
        adaptive_ghost_trim_locked_def adaptive_ghost_compute_caps_def Let_def upd_env_def upd_stat_def upd_member_def
        make_room_noop cache_member_init_def)
  moreover have "hot_slot c q = empty_slot" for q
    by (cases q) (simp add: hot_slot_def c cache_member_init_def)
  ultimately show ?thesis
    using create [OF assms, of "s\<lparr>cache := c\<rparr>"] lru_rep_init
    by (auto simp: filling_def home_filled_def c cache_member_init_def the_cmt_def empty_slot_def)
qed

text \<open>The entries of a page are written while it is not resident.\<close>

lemma reach_rows:
  assumes "cache_reach s" and "cmt_pt (the_cmt s n) = None" and "k \<le> EPP"
  shows "\<exists>s'. cache_reach s' \<and> cache s' = upd_member (\<lambda>m. m\<lparr>mem_table := (mem_table m)
    (n := (\<lambda>j. if j < k then \<lparr>pte_ppa = 0, pte_fp = 0\<rparr> else mem_table m n j))\<rparr>) (cache s)"
  using assms(3)
proof (induction k)
  case 0
  have "upd_member (\<lambda>m. m\<lparr>mem_table := (mem_table m)(n := mem_table m n)\<rparr>) (cache s) = cache s"
    by (simp add: upd_member_def)
  then show ?case
    using assms(1) by (intro exI [of _ s]) simp
next
  case (Suc k)
  then obtain s1 where s1: "cache_reach s1" "cache s1 = upd_member (\<lambda>m. m\<lparr>mem_table := (mem_table m)
    (n := (\<lambda>j. if j < k then \<lparr>pte_ppa = 0, pte_fp = 0\<rparr> else mem_table m n j))\<rparr>) (cache s)"
    by (auto simp del: fun_upd_apply)
  have idx: "D_IDX (IDX_TO_LPA n k) = n" "P_IDX (IDX_TO_LPA n k) = k"
    using Suc.prems by (simp_all add: D_IDX_def P_IDX_def IDX_TO_LPA_def)
  have none: "cmt_pt (the_cmt s1 n) = None"
    using assms(2) by (simp add: the_cmt_def s1(2) upd_member_def)
  let ?s2 = "upd_cache (upd_member (set_pte n k \<lparr>pte_ppa = 0, pte_fp = 0\<rparr>)) s1"
  have "dftl_cache_update (IDX_TO_LPA n k) \<lparr>pte_ppa = 0, pte_fp = 0\<rparr> s1 = Some ?s2"
    by (simp add: dftl_cache_update_def idx none)
  then have "cache_reach ?s2"
    using s1(1) cache_reach.step cache_step.update by blast
  moreover have "cache ?s2 = upd_member (\<lambda>m. m\<lparr>mem_table := (mem_table m)
    (n := (\<lambda>j. if j < Suc k then \<lparr>pte_ppa = 0, pte_fp = 0\<rparr> else mem_table m n j))\<rparr>) (cache s)"
    by (simp add: upd_cache_def s1(2) upd_member_def set_pte_def) (auto simp: fun_eq_iff less_Suc_eq)
  ultimately show ?case
    by blast
qed

text \<open>What the later steps on page \<open>n\<close> keep.\<close>

definition core_same :: "nat \<Rightarrow> sys \<Rightarrow> sys \<Rightarrow> bool" where
  "core_same n s s' \<longleftrightarrow> env (cache s') = env (cache s) \<and> hot_slot (cache s') = hot_slot (cache s) \<and>
     mem_table (member (cache s')) = mem_table (member (cache s)) \<and> clru (member (cache s')) = clru (member (cache s)) \<and>
     nr_cached_tpages (member (cache s')) = nr_cached_tpages (member (cache s)) \<and>
     (\<forall>d. d \<noteq> n \<longrightarrow> the_cmt s' d = the_cmt s d) \<and> cmt_pt (the_cmt s' n) = cmt_pt (the_cmt s n) \<and>
     ghost_mark (the_cmt s' n) = ghost_mark (the_cmt s n)"

lemma core_same_refl [simp]: "core_same n s s"
  by (simp add: core_same_def)

lemma core_same_trans: "core_same n a b \<Longrightarrow> core_same n b c \<Longrightarrow> core_same n a c"
  by (simp add: core_same_def)

lemma is_hit_raises:
  assumes "cmt_pt (the_cmt s n) = Some n" "\<not> ghost_mark (the_cmt s n)" "cnt_map (the_cmt s n) = Some cs" "j < EPP"
    and "cs ! j = v" "v < 5"
  shows "\<exists>s'. dftl_cache_is_hit (IDX_TO_LPA n j) s = (True, s') \<and> core_same n s s' \<and> cnt_map (the_cmt s' n) = Some (cs[j := Suc v])"
proof -
  have idx: "D_IDX (IDX_TO_LPA n j) = n" "P_IDX (IDX_TO_LPA n j) = j"
    using assms(4) by (simp_all add: D_IDX_def P_IDX_def IDX_TO_LPA_def)
  let ?x = "cmts (member (cache s)) n"
  define x where "x = ?x\<lparr>cnt_map := Some (cs[j := Suc v]), page_heat_sum := page_heat_sum ?x + 1, has_hot_entry := True\<rparr>"
  have "cmt_counter_raise v = Suc v"
    using assms(6) by (simp add: cmt_counter_raise_def grain_heat_raise_def state_vals)
  then have raise: "cmt_grain_heat_raise ?x (int j) = (Suc v, x)"
    using assms by (simp add: cmt_grain_heat_raise_def cmt_cnt_map_active_def the_cmt_def Let_def x_def)
  have res: "cmt_is_resident ?x"
    using assms by (simp add: cmt_is_resident_def the_cmt_def)
  define c where "c = dftl_cache_cold_grain_access (IDX_TO_LPA n j) (cache s)"
  have "\<exists>g. c = upd_stat g (upd_cmt n (\<lambda>_. x) (cache s)) \<or> c = upd_cmt n (\<lambda>_. x) (cache s)"
    unfolding c_def dftl_cache_cold_grain_access_def idx Let_def raise prod.case using res by auto
  then have c: "env c = env (cache s)" "hot_slot c = hot_slot (cache s)" "mem_table (member c) = mem_table (member (cache s))"
    "clru (member c) = clru (member (cache s))" "nr_cached_tpages (member c) = nr_cached_tpages (member (cache s))"
    "cmts (member c) = (cmts (member (cache s)))(n := x)"
    by (auto simp: upd_cmt_def upd_member_def upd_stat_def hot_slot_def)
  have "dftl_cache_is_hit (IDX_TO_LPA n j) s = (True, s\<lparr>cache := c\<rparr>)"
    using res by (simp add: dftl_cache_is_hit_def idx the_cmt_def upd_cache_def c_def)
  then show ?thesis
    by (auto simp: core_same_def the_cmt_def c x_def)
qed

lemma reach_accesses:
  assumes "cache_reach s" "cmt_pt (the_cmt s n) = Some n" "\<not> ghost_mark (the_cmt s n)"
    and "cnt_map (the_cmt s n) = Some (replicate EPP v)" "v < 5" "k \<le> EPP"
  shows "\<exists>s'. cache_reach s' \<and> core_same n s s' \<and> cnt_map (the_cmt s' n) = Some (replicate k (Suc v) @ replicate (EPP - k) v)"
  using assms(6)
proof (induction k)
  case 0
  then show ?case
    using assms(1,4) by (intro exI [of _ s]) simp
next
  case (Suc k)
  then obtain s1 where s1: "cache_reach s1" "core_same n s s1" "cnt_map (the_cmt s1 n) = Some (replicate k (Suc v) @ replicate (EPP - k) v)"
    by auto
  let ?cs = "replicate k (Suc v) @ replicate (EPP - k) v"
  have x: "cmt_pt (the_cmt s1 n) = Some n" "\<not> ghost_mark (the_cmt s1 n)" "?cs ! k = v"
    using s1(2) assms(2,3) Suc.prems by (auto simp: core_same_def nth_append)
  obtain s2 where s2: "dftl_cache_is_hit (IDX_TO_LPA n k) s1 = (True, s2)" "core_same n s1 s2"
    "cnt_map (the_cmt s2 n) = Some (?cs[k := Suc v])"
    using is_hit_raises [OF x(1,2) s1(3) _ x(3) assms(5)] Suc.prems by auto
  obtain m where m: "EPP - k = Suc m" "EPP - Suc k = m"
    using Suc.prems by (metis Suc_diff_Suc Suc_le_lessD)
  have "?cs[k := Suc v] = replicate (Suc k) (Suc v) @ replicate (EPP - Suc k) v"
    unfolding m by (simp add: list_update_append replicate_app_Cons_same)
  then show ?case
    using s2 cache_reach.step [OF s1(1) cache_step.cold_lookup [OF s2(1)]] core_same_trans [OF s1(2) s2(2)] by auto
qed

text \<open>The page becomes resident: the cache is not full.\<close>

lemma reach_install:
  assumes fill: "filling n s" and n: "n < 3277"
  shows "\<exists>s'. cache_reach s' \<and> home_filled (\<lambda>q. fst q < n) (cache s') \<and> max_cached_tpages (env (cache s')) = 62260 \<and>
    nr_cached_tpages (member (cache s')) = int (Suc n) \<and> (\<exists>ps. lru_rep (clru (member (cache s'))) ps) \<and>
    (\<forall>d \<ge> Suc n. the_cmt s' d = blank_cmt d) \<and> cmt_pt (the_cmt s' n) = Some n \<and> \<not> ghost_mark (the_cmt s' n) \<and>
    cnt_map (the_cmt s' n) = Some (replicate EPP 0) \<and> (\<forall>j < EPP. mem_table (member (cache s')) n j = \<lparr>pte_ppa = 0, pte_fp = 0\<rparr>)"
proof -
  have f: "cache_reach s" "home_filled (\<lambda>q. fst q < n) (cache s)" "max_cached_tpages (env (cache s)) = 62260"
    "nr_cached_tpages (member (cache s)) = int n" "\<And>d. n \<le> d \<Longrightarrow> the_cmt s d = blank_cmt d"
    using fill by (simp_all add: filling_def)
  obtain ps where ps: "lru_rep (clru (member (cache s))) ps"
    using fill by (auto simp: filling_def)
  have "cmt_pt (the_cmt s n) = None"
    using f(5) by (simp add: blank_cmt_def)
  from reach_rows [OF f(1) this order_refl] obtain s1 where s1: "cache_reach s1"
    "cache s1 = upd_member (\<lambda>m. m\<lparr>mem_table := (mem_table m)
      (n := (\<lambda>j. if j < EPP then \<lparr>pte_ppa = 0, pte_fp = 0\<rparr> else mem_table m n j))\<rparr>) (cache s)"
    by blast
  have c1: "env (cache s1) = env (cache s)" "hot_slot (cache s1) = hot_slot (cache s)" "the_cmt s1 = the_cmt s"
    "clru (member (cache s1)) = clru (member (cache s))" "nr_cached_tpages (member (cache s1)) = int n"
    "\<forall>j < EPP. mem_table (member (cache s1)) n j = \<lparr>pte_ppa = 0, pte_fp = 0\<rparr>"
    by (simp_all add: s1(2) the_cmt_def upd_member_def hot_slot_def f(4) fun_eq_iff)
  obtain a l where l: "lru_push (clru (member (cache s))) (Some n) = Some (a, l)" "lru_rep l ((a, Some n) # ps)"
    using lru_push_refines [OF ps, of "Some n"] by (auto elim!: returnsE)
  define s2 where "s2 = upd_cmt_at n (\<lambda>x. cmt_cold_resident_meta_init (x\<lparr>cmt_pt := Some n, cnt_map := Some (replicate EPP 0)\<rparr>)) s1"
  define s3 where "s3 = upd_cache (upd_member (\<lambda>m. m\<lparr>nr_cached_tpages := nr_cached_tpages m + 1\<rparr>))
    (upd_cmt_at n (\<lambda>x. x\<lparr>lru_ptr := Some a\<rparr>) (upd_cache (upd_member (\<lambda>m. m\<lparr>clru := l\<rparr>)) s2))"
  have blank: "cmts (member (cache s)) n = blank_cmt n"
    using f(5) [of n] by (simp add: the_cmt_def)
  have clear: "upd_cache (adaptive_ghost_cold_clear n) s1 = s1"
    by (simp add: adaptive_ghost_cold_clear_def upd_cache_def s1(2) upd_member_def blank blank_cmt_def)
  have lru2: "clru (member (cache s2)) = clru (member (cache s))" "lru_ptr (the_cmt s2 n) = None"
    by (simp_all add: s2_def upd_cmt_at_def upd_cache_def c1(4) the_cmt_def upd_cmt_def upd_member_def s1(2) blank
        cmt_cold_resident_meta_init_def blank_cmt_def)
  have inst: "install_page n s1 = Some s3"
    unfolding install_page_def Let_def clear s2_def [symmetric] lru2 l(1) by (simp add: s3_def)
  have v3: "env (cache s3) = env (cache s)" "hot_slot (cache s3) = hot_slot (cache s)" "clru (member (cache s3)) = l"
    "nr_cached_tpages (member (cache s3)) = int (Suc n)" "mem_table (member (cache s3)) = mem_table (member (cache s1))"
    "the_cmt s3 = (the_cmt s)(n := (blank_cmt n)\<lparr>cmt_pt := Some n, cnt_map := Some (replicate EPP 0), lru_ptr := Some a\<rparr>)"
    by (simp_all add: s3_def s2_def upd_cmt_at_def upd_cache_def upd_cmt_def upd_member_def the_cmt_def s1(2) hot_slot_def f(4)
        blank cmt_cold_resident_meta_init_def blank_cmt_def fun_eq_iff)
  have "resume_waiting n (Req 0) s3 = Some s3"
    by (simp add: resume_waiting_def v3(6) blank_cmt_def)
  moreover have "\<not> dftl_cache_is_full s1"
    using n by (simp add: dftl_cache_is_full_def c1 f(3))
  moreover have "D_IDX (IDX_TO_LPA n 0) = n"
    by (simp add: D_IDX_def IDX_TO_LPA_def EPP_val)
  ultimately have run: "dftl_cache_list_up 0 (IDX_TO_LPA n 0) (Req 0) s1 = Some (0, s3)"
    by (simp add: dftl_cache_list_up_def inst)
  have "D_IDX (IDX_TO_LPA n 0) < nr_valid_tpages (env (cache s1))"
    using part_ok_pages [OF run_ok_part [OF cache_reach_ok [OF s1(1)]]] n by (simp add: D_IDX_def IDX_TO_LPA_def EPP_val)
  from cache_reach.step [OF s1(1) cache_step.list_up [OF this run]] have "cache_reach s3" .
  moreover have "home_filled (\<lambda>q. fst q < n) (cache s3)"
    using f(2) by (simp add: home_filled_def v3)
  ultimately show ?thesis
    using f(5) l(2) c1(6) by (intro exI [of _ s3]) (auto simp: v3 f(3) blank_cmt_def)
qed

text \<open>Placing one grain of the page: its home slot is empty.\<close>

lemma place_home:
  assumes ok: "hot_env_ok (env c)" "states_ok c" and fill: "home_filled (\<lambda>q. fst q < n \<or> fst q = n \<and> snd q < i) c"
    and n: "n < 3277" and i: "i < EPP"
  shows "returns (hot_promote_place_grain (IDX_TO_LPA n i) ppa fp 2 c)
    (\<lambda>(_, c'). home_filled (\<lambda>q. fst q < n \<or> fst q = n \<and> snd q < Suc i) c')"
proof -
  let ?lpa = "IDX_TO_LPA n i" and ?ch = "hot_chain (env c) (IDX_TO_LPA n i)"
  have e: "max_cached_hot_tpages (env c) = 3277" "max_cached_hot_entries (env c) = 3277 * EPP"
    using ok(1) fill by (simp_all add: home_filled_def hot_env_ok_def)
  have lpa: "IDX_TO_LPA d j = ?lpa \<longleftrightarrow> d = n \<and> j = i" if "j < EPP" for d j
  proof
    assume eq: "IDX_TO_LPA d j = ?lpa"
    have "(d * EPP + j) div EPP = d" "(n * EPP + i) div EPP = n" "(d * EPP + j) mod EPP = j" "(n * EPP + i) mod EPP = i"
      using that i by simp_all
    then show "d = n \<and> j = i"
      using eq unfolding IDX_TO_LPA_def by metis
  qed simp
  have not_max: "?lpa \<noteq> UINT32_MAX"
    using n i by (simp add: IDX_TO_LPA_def settings)
  have start: "hot_start (env c) ?lpa = (n, i)"
    using n i by (simp add: hot_start_def e IDX_TO_LPA_def EPP_val)
  have ch: "?ch = (n, i) # tl ?ch"
    unfolding hot_chain_def start MAX_PROBE_def by (simp add: numeral_eq_Suc)
  have slot: "d < 3277 \<Longrightarrow> j < EPP \<Longrightarrow> h_lpa (hot_slot c (d, j)) \<noteq> ?lpa" for d j
    using fill lpa not_max unfolding home_filled_def by (metis fst_conv nat_less_le snd_conv)
  have empty: "slot_has c UINT32_MAX (n, i)"
    using fill n i by (simp add: home_filled_def slot_has_def)
  have "\<not> slot_has c ?lpa q" if in_ch: "q \<in> set ?ch" for q
  proof -
    obtain d j where q: "q = (d, j)" "d < 3277" "j < EPP"
      using subsetD [OF hot_chain_region [OF ok(1)] in_ch] by (auto simp: region_def e)
    then show ?thesis
      using slot [of d j] by (simp add: slot_has_def)
  qed
  then have none: "List.find (slot_has c ?lpa) ?ch = None"
    by (simp add: find_None_iff)
  have home: "List.find (slot_has c UINT32_MAX) ?ch = Some (n, i)"
    by (subst ch) (simp add: empty)
  from ok show ?thesis
  proof (cases rule: place_outcomes [where lpa = ?lpa and ppa = ppa and f = fp and n = 2])
    case (found q)
    then show ?thesis
      using none by simp
  next
    case (fresh q)
    then have q: "q = (n, i)"
      using home by simp
    show ?thesis
      unfolding fresh(3) q using fill n i not_max
      by (auto simp: home_filled_def hot_promote_entry_state_def state_vals less_Suc_eq)
  next
    case (displace q)
    then have "q = (n, i)"
      using none home by (simp add: place_target_def)
    then show ?thesis
      using displace(2) empty by simp
  next
    case (blocked q)
    then have "\<not> slot_has c UINT32_MAX (n, i)"
      using ch unfolding place_blocked_def by (metis list.set_intros(1))
    then show ?thesis
      using empty by simp
  qed
qed

lemma promote_loop_home:
  assumes "same_side k c c'" "home_filled (\<lambda>q. fst q < n \<or> fst q = n \<and> snd q < i) c'" "n < 3277" "i \<le> EPP"
    and row: "\<forall>j < EPP. mem_table (member c) n j = \<lparr>pte_ppa = 0, pte_fp = 0\<rparr>"
  shows "returns (promote_loop n n (replicate EPP 2) [i..<EPP] (m, c')) (\<lambda>(_, c'').
    same_side k c c'' \<and> home_filled (\<lambda>q. fst q < Suc n) c'')"
  using assms(1-4)
proof (induction "EPP - i" arbitrary: i m c')
  case 0
  then have "i = EPP"
    by simp
  then show ?case
    using 0 by (simp add: home_filled_def less_Suc_eq)
next
  case (Suc x)
  then have i: "i < EPP" and upt: "[i..<EPP] = i # [Suc i..<EPP]"
    by (simp_all add: upt_conv_Cons)
  have table: "mem_table (member c') n i = \<lparr>pte_ppa = 0, pte_fp = 0\<rparr>"
    using row i Suc.prems(1) side_eqD(2) [of c' c] by (simp add: same_side_def)
  define c1 where "c1 = upd_stat (\<lambda>s. s\<lparr>up_grain_cnt := up_grain_cnt s + 1, up_hit_cnt := up_hit_cnt s + 2,
     cold_promote_grain_period := (cold_promote_grain_period s)(2 := cold_promote_grain_period s 2 + 1),
     grain_heat_distribute := (grain_heat_distribute s)(2 := grain_heat_distribute s 2 + 1)\<rparr>)
    (upd_stat (\<lambda>s. s\<lparr>cold_promote_page_grain_period :=
      (cold_promote_page_grain_period s)(2 := cold_promote_page_grain_period s 2 + 1)\<rparr>) c')"
  have ss: "same_side k c c1"
    unfolding c1_def by (intro same_side_stat Suc.prems(1)) simp_all
  have eq: "promote_grain n n (replicate EPP 2) i (m, c') = do {
      (_, c2) \<leftarrow> hot_promote_place_grain (IDX_TO_LPA n i) 0 0 2 c1; Some (m + 1, c2) }"
    using i by (simp add: promote_grain_def table cold_cnt_promotable_def state_vals c1_def settings)
  have "home_filled (\<lambda>q. fst q < n \<or> fst q = n \<and> snd q < i) c1"
    using Suc.prems(2) by (simp add: home_filled_def c1_def)
  moreover have "hot_env_ok (env c1)" "states_ok c1"
    using ss by (auto simp: same_side_def hot_ok_def)
  ultimately have place: "returns (hot_promote_place_grain (IDX_TO_LPA n i) 0 0 2 c1)
      (\<lambda>(_, c2). home_filled (\<lambda>q. fst q < n \<or> fst q = n \<and> snd q < Suc i) c2)"
    using Suc.prems(3) i by (intro place_home)
  have "IDX_TO_LPA n i \<noteq> UINT32_MAX"
    using Suc.prems(3) i by (simp add: IDX_TO_LPA_def settings)
  from returns_conj [OF place place_same_side [OF ss this]] obtain b c2 where c2:
    "hot_promote_place_grain (IDX_TO_LPA n i) 0 0 2 c1 = Some (b, c2)" "same_side k c c2"
    "home_filled (\<lambda>q. fst q < n \<or> fst q = n \<and> snd q < Suc i) c2"
    by (auto elim!: returnsE)
  have "returns (promote_loop n n (replicate EPP 2) [Suc i..<EPP] (m + 1, c2)) (\<lambda>(_, c'').
      same_side k c c'' \<and> home_filled (\<lambda>q. fst q < Suc n) c'')"
    using Suc.hyps(2) i by (intro Suc.hyps(1) c2 Suc.prems(3)) simp_all
  then show ?case
    by (simp add: upt eq c2(1))
qed

lemma filling_Suc:
  assumes fill: "filling n s" and n: "n < 3277"
  shows "\<exists>s'. filling (Suc n) s'"
proof -
  obtain s1 where s1: "cache_reach s1" "home_filled (\<lambda>q. fst q < n) (cache s1)" "max_cached_tpages (env (cache s1)) = 62260"
    "nr_cached_tpages (member (cache s1)) = int (Suc n)" "\<exists>ps. lru_rep (clru (member (cache s1))) ps"
    "\<forall>d \<ge> Suc n. the_cmt s1 d = blank_cmt d" "cmt_pt (the_cmt s1 n) = Some n" "\<not> ghost_mark (the_cmt s1 n)"
    "cnt_map (the_cmt s1 n) = Some (replicate EPP 0)" "\<forall>j < EPP. mem_table (member (cache s1)) n j = \<lparr>pte_ppa = 0, pte_fp = 0\<rparr>"
    using reach_install [OF fill n] by blast
  obtain s2 where s2: "cache_reach s2" "core_same n s1 s2" "cnt_map (the_cmt s2 n) = Some (replicate EPP (Suc 0))"
    using reach_accesses [OF s1(1,7-9) _ order_refl] by auto
  have x2: "cmt_pt (the_cmt s2 n) = Some n" "\<not> ghost_mark (the_cmt s2 n)"
    using s1(7,8) s2(2) by (simp_all add: core_same_def)
  obtain s3 where s3: "cache_reach s3" "core_same n s2 s3" "cnt_map (the_cmt s3 n) = Some (replicate EPP 2)"
    using reach_accesses [OF s2(1) x2 s2(3) _ order_refl] by (auto simp: numeral_2_eq_2)
  have same: "core_same n s1 s3"
    using core_same_trans [OF s2(2) s3(2)] .
  let ?c = "cache s3"
  have part: "part_ok ?c"
    using run_ok_part [OF cache_reach_ok [OF s3(1)]] .
  obtain k where k: "hot_ok k ?c" "hot_cmt_accessible ?c" and idx: "cmt_idx (cmts (member ?c) n) = n"
    using part by (auto simp: part_ok_def)
  have row: "\<forall>j < EPP. mem_table (member ?c) n j = \<lparr>pte_ppa = 0, pte_fp = 0\<rparr>" and home: "home_filled (\<lambda>q. fst q < n) ?c"
    using s1(2,10) same by (simp_all add: core_same_def home_filled_def)
  have x: "\<not> cmt_is_ghost (cmts (member ?c) n)" "cmt_pt (cmts (member ?c) n) = Some n" "cnt_map (cmts (member ?c) n) = Some (replicate EPP 2)"
    using s1(7,8) same s3(3) by (simp_all add: core_same_def the_cmt_def cmt_is_ghost_def)
  have "same_side k ?c ?c"
    using k(1) by (simp add: same_side_def)
  from promote_loop_home [OF this _ n _ row, of 0 0] home obtain m c1 where c1:
    "promote_loop n n (replicate EPP 2) [0..<EPP] (0, ?c) = Some (m, c1)" "same_side k ?c c1" "home_filled (\<lambda>q. fst q < Suc n) c1"
    by (auto elim!: returnsE)
  have "list_ex (\<lambda>i. pte_ppa (mem_table (member ?c) n i) \<noteq> UINT32_MAX) [0..<EPP]"
    using row by (auto simp: list_ex_iff EPP_val UINT32_MAX_def intro!: exI [of _ 0])
  then obtain c2 where c2: "dftl_cache_promote_hot (Some n) ?c = Some (1, c2)" "env c2 = env c1" "hot_slot c2 = hot_slot c1"
    "nr_cached_tpages (member c2) = nr_cached_tpages (member c1)" "clru (member c2) = clru (member c1)"
    "\<forall>d. d \<noteq> n \<longrightarrow> cmts (member c2) d = cmts (member c1) d"
    using k(2) x idx by (simp add: dftl_cache_promote_hot_def Let_def c1(1))
  have pages: "n < nr_valid_tpages (env ?c)"
    using part_ok_pages [OF part] n by simp
  have side: "clru (member c1) = clru (member ?c)" "nr_cached_tpages (member c1) = nr_cached_tpages (member ?c)"
    "cmts (member c1) = cmts (member ?c)" "env c1 = env ?c"
    using c1(2) by (auto simp: same_side_def dest: side_eqD)
  have "filling (Suc n) (s3\<lparr>cache := c2\<rparr>)"
    using cache_reach.step [OF s3(1) cache_step.promote [OF pages c2(1)]] c1(3) same s1(3-6)
    by (auto simp: filling_def home_filled_def c2 side core_same_def the_cmt_def)
  then show ?thesis
    by blast
qed

lemma filling_exists:
  assumes "n \<le> 3277"
  shows "\<exists>s. filling n s"
  using assms
proof (induction n)
  case 0
  obtain c where "dftl_cache_create = Some c"
    using create_post by (auto elim: returnsE)
  then show ?case
    using filling_start by blast
next
  case (Suc n)
  then show ?case
    using filling_Suc by auto
qed

text \<open>With 1642 of the 3277 pages filled, more than half of the table is warm.\<close>

lemma filled_live:
  assumes "filling n s" and "n \<le> 3277"
  shows "n * EPP \<le> hot_pte_state_live (stat (cache s)) 2"
proof -
  let ?c = "cache s"
  have fill: "home_filled (\<lambda>q. fst q < n) ?c" and reach: "cache_reach s"
    using assms(1) by (simp_all add: filling_def)
  obtain k where "hot_ok k ?c"
    using run_ok_part [OF cache_reach_ok [OF reach]] by (auto simp: part_ok_def)
  then have live: "hot_pte_state_live (stat ?c) 2 = card {q \<in> region 3277. in_state 2 (hot_slot ?c q)}"
    using fill by (simp add: hot_ok_def live_ok_def slot_count_def home_filled_def state_vals)
  have "IDX_TO_LPA d j \<noteq> UINT32_MAX" if "d < 3277" "j < EPP" for d j
    using that by (simp add: IDX_TO_LPA_def settings)
  then have "region n \<subseteq> {q \<in> region 3277. in_state 2 (hot_slot ?c q)}"
    using fill assms(2) by (auto simp: region_def in_state_def home_filled_def)
  then have "card (region n) \<le> card {q \<in> region 3277. in_state 2 (hot_slot ?c q)}"
    by (rule card_mono [rotated]) simp
  then show ?thesis
    by (simp add: live region_def)
qed

lemma filled_expands:
  assumes fill: "filling 1642 s"
  shows "returns (adaptive_try_rebalance (cache s)) (\<lambda>c'. max_cached_hot_tpages (env c') = 3932 \<and> max_cached_tpages (env c') = 61605)"
proof -
  let ?c = "cache s"
  have home: "max_cached_hot_tpages (env ?c) = 3277" "max_cached_tpages (env ?c) = 62260" and part: "part_ok ?c"
    using fill run_ok_part [OF cache_reach_ok] by (auto simp: filling_def home_filled_def)
  then have e: "max_cached_hot_entries (env ?c) = 1677824" "chunk_tpages (env ?c) = 655" "hot_tpages_cap (env ?c) = 13107"
    "min_cached_tpages (env ?c) = 655" and acc: "hot_cmt_accessible ?c"
    by (simp_all add: part_ok_def mem_ok_def hot_env_ok_def static_env_def EPP_val)
  have "840704 \<le> sum_list (map (hot_pte_state_live (stat ?c)) [DEFAULT_STATE..<STATE_NUM])"
    using filled_live [OF fill] by (simp add: state_vals EPP_val upt_rec)
  then have "840704 * 1000 div 1677824 \<le> hot_cmt_warm_fill_permille ?c"
    unfolding hot_cmt_warm_fill_permille_def Let_def e by (simp add: div_le_mono)
  then have pressure: "500 < total_pressure ?c"
    by (simp add: total_pressure_def)
  obtain moved c' where c': "adaptive_expand_hot_from_cold ?c = Some (moved, c')" "if moved
     then max_cached_hot_tpages (env c') = 3932 \<and> max_cached_tpages (env c') + 655 = 62260 else c' = ?c"
    using expand_post [OF part] by (auto simp: home e elim!: returnsE split: if_splits)
  have "moved"
    using c'(1) by (auto simp: adaptive_expand_hot_from_cold_def home e bind_Some_iff)
  then show ?thesis
    using c' pressure acc by (simp add: adaptive_try_rebalance_def adaptive_hot_expand_blocked_def home e)
qed

section \<open>Properties\<close>

text \<open>
  C4. Memory budget: in every state the mapping cache reaches from its creation by its operations
  (listings with evictions, promotions and rebalances, lookups, updates, collections and resets),
  the cold pages, the hot table and the key cache together never exceed the 65537 pages of the pool,
  each of the cold and hot partitions keeps at least 655 pages, and the hot table at most 13107.
\<close>

theorem memory_budget:
  assumes "cache_reach s"
  shows "cache_partition_bytes_cold (env (cache s)) + cache_partition_bytes_hot (env (cache s)) +
      cache_partition_bytes_key (env (cache s)) \<le> 65537 * PAGESIZE \<and>
    655 \<le> max_cached_tpages (env (cache s)) \<and> 655 \<le> max_cached_hot_tpages (env (cache s)) \<and>
    max_cached_hot_tpages (env (cache s)) \<le> 13107 \<and>
    max_cached_hot_entries (env (cache s)) = max_cached_hot_tpages (env (cache s)) * EPP"
  using run_ok_part [OF cache_reach_ok [OF assms]] static_init by (auto simp: part_ok_def mem_ok_def hot_env_ok_def static_env_def)

text \<open>The budget holds after an expansion of the hot table, which a run reaches.\<close>

lemma memory_budget_witness:
  "\<exists>s. cache_reach s \<and> max_cached_hot_tpages (env (cache s)) = 3932 \<and> max_cached_tpages (env (cache s)) = 61605 \<and>
    cache_partition_bytes_cold (env (cache s)) + cache_partition_bytes_hot (env (cache s)) +
      cache_partition_bytes_key (env (cache s)) \<le> 65537 * PAGESIZE"
proof -
  obtain s where s: "filling 1642 s"
    using filling_exists [of 1642] by auto
  obtain c' where c': "adaptive_try_rebalance (cache s) = Some c'" "max_cached_hot_tpages (env c') = 3932" "max_cached_tpages (env c') = 61605"
    using filled_expands [OF s] by (auto elim!: returnsE)
  have "cache_reach (s\<lparr>cache := c'\<rparr>)"
    using s cache_reach.step [OF _ cache_step.rebalance [OF c'(1)]] by (simp add: filling_def)
  from memory_budget [OF this] this c'(2,3) show ?thesis
    by (intro exI [of _ "s\<lparr>cache := c'\<rparr>"]) simp
qed

text \<open>
  C12. In every state the mapping cache reaches the ghost counter equals the number of marked pages
  (so its decrements never wrap), and the live histogram of the hot table counts its slots.
\<close>

theorem ghost_and_live_counters_exact:
  assumes "cache_reach s"
  shows "unat (nr_ghost_cold (member (cache s))) =
      card {i. i < nr_valid_tpages (env (cache s)) \<and> ghost_mark (cmts (member (cache s)) i)} \<and>
    (\<forall>st < STATE_NUM. hot_pte_state_live (stat (cache s)) st = card {q \<in> region (max_cached_hot_tpages (env (cache s))).
       h_lpa (hot_slot (cache s) q) \<noteq> UINT32_MAX \<and> h_state (hot_slot (cache s) q) = st})"
  using run_ok_part [OF cache_reach_ok [OF assms]]
  by (auto simp: part_ok_def ghost_ok_def ghosts_of_def hot_ok_def live_ok_def slot_count_def in_state_def)

text \<open>A reached state with 840704 live entries of state 2.\<close>

lemma ghost_and_live_counters_exact_witness:
  "\<exists>s. cache_reach s \<and> 840704 \<le> card {q \<in> region (max_cached_hot_tpages (env (cache s))).
     h_lpa (hot_slot (cache s) q) \<noteq> UINT32_MAX \<and> h_state (hot_slot (cache s) q) = 2}"
proof -
  obtain s where s: "filling 1642 s"
    using filling_exists [of 1642] by auto
  then have reach: "cache_reach s"
    by (simp add: filling_def)
  have "840704 \<le> hot_pte_state_live (stat (cache s)) 2"
    using filled_live [OF s] by (simp add: EPP_val)
  with ghost_and_live_counters_exact [OF reach] reach show ?thesis
    by (auto simp: state_vals)
qed

text \<open>
  C13. In every state the mapping cache reaches, each operation of the partition returns: the probes
  do not divide by zero and the eviction loops, rehashes and rebalances end.
\<close>

theorem partition_never_stuck:
  assumes "cache_reach s" and "v < nr_valid_tpages (env (cache s))"
  shows "(\<exists>r. dftl_cache_promote_hot (Some v) (cache s) = Some r) \<and> (\<exists>r. dftl_cache_hot_is_hit lpa (cache s) = Some r) \<and>
    (\<exists>c'. adaptive_ghost_cold_mark v (cache s) = Some c') \<and> (\<exists>c'. adaptive_try_rebalance (cache s) = Some c') \<and>
    (\<exists>c'. evict_rebalance v (cache s) = Some c')"
proof -
  have run: "run_ok (cache s)" and ok: "part_ok (cache s)"
    using run_ok_part cache_reach_ok [OF assms(1)] by auto
  obtain c1 where c1: "adaptive_ghost_cold_mark v (cache s) = Some c1" "part_ok c1"
    using mark_part_ok [OF ok assms(2)] by (auto elim!: returnsE)
  have "hot_cmt_accessible c1"
    using c1(2) by (simp add: part_ok_def)
  moreover have "v < 699050"
    using assms(2) part_ok_pages [OF ok] by simp
  then have "run_ok c1"
    using mark_run_ok [OF run _ c1(1)] by simp
  then have "part_ok (c1\<lparr>rebalance_evict_cnt := n\<rparr>)" for n
    using gentle_run_ok [OF _ gentle_upd(6)] run_ok_part by blast
  then have "\<exists>c'. adaptive_try_rebalance (c1\<lparr>rebalance_evict_cnt := n\<rparr>) = Some c'" for n
    using try_rebalance_post unfolding returns_def by blast
  ultimately have "\<exists>c'. evict_rebalance v (cache s) = Some c'"
    by (simp add: evict_rebalance_def c1(1) Let_def)
  then show ?thesis
    using promote_part_ok [OF ok assms(2)] lookup_part_ok [OF ok] c1(1) try_rebalance_post [OF ok]
    unfolding returns_def by blast
qed

text \<open>On the filled table the lookups and the rebalance, which rehashes the table, return.\<close>

lemma partition_never_stuck_witness:
  "\<exists>s r c'. cache_reach s \<and> 840704 \<le> hot_pte_state_live (stat (cache s)) 2 \<and>
    dftl_cache_hot_is_hit 7 (cache s) = Some r \<and> adaptive_try_rebalance (cache s) = Some c' \<and>
    max_cached_hot_tpages (env c') = 3932"
proof -
  obtain s where s: "filling 1642 s"
    using filling_exists [of 1642] by auto
  then have reach: "cache_reach s"
    by (simp add: filling_def)
  have "0 < nr_valid_tpages (env (cache s))"
    using part_ok_pages [OF run_ok_part [OF cache_reach_ok [OF reach]]] by simp
  from partition_never_stuck [OF reach this, of 7] filled_expands [OF s] filled_live [OF s] reach show ?thesis
    by (auto simp: EPP_val elim!: returnsE)
qed

text \<open>
  Growing the hot table moves one chunk of pages from the cold pages to it and loses no warm
  entry: afterwards exactly the addresses that had an entry of state 2 or more have one.
\<close>

lemma expand_keeps_warm:
  assumes "cache_reach s"
  shows "returns (adaptive_expand_hot_from_cold (cache s)) (\<lambda>(moved, c'). if moved
     then max_cached_hot_tpages (env c') = max_cached_hot_tpages (env (cache s)) + 655 \<and>
       max_cached_tpages (env c') + 655 = max_cached_tpages (env (cache s)) \<and>
       h_lpa ` hot_slot c' ` used_slots c' = h_lpa ` hot_slot (cache s) ` warm_slots (cache s)
     else c' = cache s)"
proof -
  have ok: "part_ok (cache s)"
    using run_ok_part [OF cache_reach_ok [OF assms]] .
  then have "chunk_tpages (env (cache s)) = 655"
    by (simp add: part_ok_def mem_ok_def static_env_def)
  then show ?thesis
    using expand_post [OF ok] by (auto simp: lpas_of_def elim!: returns_mono split: if_splits)
qed

end
