(* ===== verification/Mapgc.thy ===== *)
theory Mapgc
  imports Serve
begin

text \<open>
  Correctness of the translation pages on flash: every mapping page that has a flash location is
  stored there, and the allocation of translation pages, with the collection of translation
  superblocks, always succeeds and keeps this.
\<close>

section \<open>Reading a page without delay overflow\<close>

text \<open>
  \<^verbatim>\<open>_do_bulk_read_valid_tpages\<close> takes a latency that is \<^verbatim>\<open>-1\<close> in 32 bits for an error, so it aborts
  if a read happens to wait for 4.294967295 seconds.  \<open>backlog\<close> bounds the work queued at the LUNs.
\<close>

definition backlog :: "nat \<Rightarrow> ssd \<Rightarrow> nat \<Rightarrow> bool" where
  "backlog now d n \<longleftrightarrow> (\<forall>c l. next_lun_avail_time d c l \<le> now + n)"

definition dev_ok :: "ssd \<Rightarrow> bool" where
  "dev_ok d \<longleftrightarrow> ssd_wf d \<and> pgs_per_line (sp d) = PPS \<and> NOS \<le> tt_lines (sp d) \<and> pg_rd_lat (sp d) \<le> NAND_READ_LATENCY"

lemma dev_ok_init: "dev_ok ssd_init"
  using ssd_wf_init by (simp add: dev_ok_def ssd_init_def ssd_init_params_def NAND_READ_LATENCY_def settings Let_def)

lemma dev_ok_page: "dev_ok d \<Longrightarrow> p < NOS * PPS \<Longrightarrow> p < tt_pgs (sp d)"
proof -
  assume d: "dev_ok d" and p: "p < NOS * PPS"
  have "NOS * PPS \<le> tt_lines (sp d) * PPS"
    using d by (intro mult_le_mono1) (simp add: dev_ok_def)
  with p have "p < tt_lines (sp d) * PPS"
    by (rule less_le_trans)
  with d show ?thesis
    by (simp add: dev_ok_def ssd_wf_def geometry_ok_def)
qed

lemma dev_ok_readable:
  assumes "dev_ok d" and "p < NOS * PPS"
  shows "ppa_state d p \<longleftrightarrow> p mod PPS < line_wp d (SBLK_IDX p)"
  using assms dev_ok_page [OF assms] by (simp add: dev_ok_def ssd_wf_def SBLK_IDX_def)

lemma ssd_read_page:
  assumes d: "dev_ok d" and p: "p < NOS * PPS" "ppa_state d p" and b: "backlog now d n"
  shows "returns (ssd_read_ppa now p PAGESIZE 0 d) (\<lambda>(r, d'). (\<exists>lat. r = Inr lat \<and> lat \<le> n + NAND_READ_LATENCY) \<and>
    dev_ok d' \<and> line_wp d' = line_wp d \<and> sp d' = sp d \<and> backlog now d' (n + NAND_READ_LATENCY))"
proof -
  define q where "q = pgidx2ppa (sp d) p"
  define d1 where "d1 = d\<lparr>stats := (stats d)\<lparr>nr_nand_rd_lun :=
    (nr_nand_rd_lun (stats d))(lun_index d q := nr_nand_rd_lun (stats d) (lun_index d q) + 1)\<rparr>\<rparr>"
  obtain lat d2 where adv: "ssd_advance_status now q NAND_READ now d1 = (lat, d2)"
    by fastforce
  let ?a = "next_lun_avail_time d (g_ch q) (g_lun q)"
  let ?e = "(if ?a < now then now else ?a) + pg_rd_lat (sp d)"
  have e: "?e \<le> now + (n + NAND_READ_LATENCY)"
  proof -
    have "?a \<le> now + n" "pg_rd_lat (sp d) \<le> NAND_READ_LATENCY"
      using b d by (simp_all add: backlog_def dev_ok_def)
    then show ?thesis by simp
  qed
  have "lat = ?e - now" and d2: "next_lun_avail_time d2 = (next_lun_avail_time d)(g_ch q := (next_lun_avail_time d (g_ch q))(g_lun q := ?e))"
    using adv by (auto simp: ssd_advance_status_def d1_def op_latency_def Let_def)
  then have lat: "lat \<le> n + NAND_READ_LATENCY"
    using e by simp
  have "next_lun_avail_time d c l \<le> now + (n + NAND_READ_LATENCY)" for c l
    using b by (simp add: backlog_def) (metis add.assoc trans_le_add1)
  then have backlog': "backlog now d2 (n + NAND_READ_LATENCY)"
    using e by (auto simp: backlog_def d2 split: if_splits)
  note f = advance_status_frame [OF adv]
  have st: "(if (0::nat) > now then 0 else now) = now"
    by simp
  have loop: "ssd_read_loop now (PAGESIZE div PAGESIZE) p now 0 d = Some (Inr (now + lat), d2)"
    using p(2) dev_ok_page [OF d p(1)] adv by (simp add: PAGESIZE_val d1_def q_def Let_def)
  have "ssd_wf d2"
    using d f by (auto simp: dev_ok_def ssd_wf_def d1_def)
  then show ?thesis
    using d f lat backlog' by (simp add: ssd_read_ppa_def st loop dev_ok_def d1_def backlog_def)
qed


lemma li_write_ok:
  assumes d: "dev_ok (dev s)" and k: "k < NOS" and fits: "line_wp (dev s) k + n \<le> PPS"
  shows "\<exists>lat d'. li_write now (k * PPS + line_wp (dev s) k) (n * PAGESIZE) s = Some (lat, s\<lparr>dev := d'\<rparr>) \<and>
    dev_ok d' \<and> line_wp d' = (line_wp (dev s))(k := line_wp (dev s) k + n)"
proof -
  have wf: "ssd_wf (dev s)" "pgs_per_line (sp (dev s)) = PPS" "k < tt_lines (sp (dev s))"
    using d k by (auto simp: dev_ok_def)
  from ssd_write_loop_ok [OF wf(1,3) refl, of n now "if 0 > now then 0 else now" 0] fits wf(2)
  obtain m d' where "ssd_write_loop now n (k * PPS + line_wp (dev s) k) (if 0 > now then 0 else now) 0 (dev s) = Some (Inr m, d')"
    "ssd_wf d'" "sp d' = sp (dev s)" "line_wp d' = (line_wp (dev s))(k := line_wp (dev s) k + n)"
    by auto
  then show ?thesis
    using d by (simp add: li_write_def ssd_write_ppa_def PAGESIZE_val dev_ok_def) (rule exI, rule conjI [OF refl], simp)
qed

lemma trim_ok:
  assumes d: "dev_ok (dev s)" and k: "k < NOS"
  shows "\<exists>d'. trim_on_sys now k s = Some (s\<lparr>bmgr := (upd_sblk k (\<lambda>s. s\<lparr>wp_offt := 0, valid_cnt := 0\<rparr>) (bmgr s))
      \<lparr>oob := (\<lambda>g. if SBLK_OFFT2PPA k 0 * GRAIN_PER_PAGE \<le> g \<and> g < SBLK_OFFT2PPA k 0 * GRAIN_PER_PAGE + PPS * GRAIN_PER_PAGE
                   then zero_oob else oob (bmgr s) g)\<rparr>, dev := d'\<rparr>) \<and>
    dev_ok d' \<and> line_wp d' = (line_wp (dev s))(k := 0)"
proof -
  have wf: "ssd_wf (dev s)" "k < tt_lines (sp (dev s))"
    using d k by (auto simp: dev_ok_def)
  have p: "SBLK_OFFT2PPA k 0 = k * pgs_per_line (sp (dev s))"
    using d by (simp add: SBLK_OFFT2PPA_def dev_ok_def)
  show ?thesis
    using ssd_trim_block_returns [OF wf, of now] d
    unfolding trim_on_sys_def dftl_trim_segment_def prod.case p [symmetric]
    by (auto simp: dev_ok_def Let_def elim!: returnsE cong: if_cong)
qed

section \<open>What a collection leaves alone\<close>

definition bm_same :: "bm \<Rightarrow> bm \<Rightarrow> bool" where
  "bm_same b b' \<longleftrightarrow> oob b' = oob b \<and> part b' = part b \<and> stream b' = stream b \<and>
     (\<forall>k. wp_offt (sblk b' k) = wp_offt (sblk b k) \<and> is_owned (sblk b' k) = is_owned (sblk b k) \<and>
        stream_idx (sblk b' k) = stream_idx (sblk b k) \<and> is_rsv (sblk b' k) = is_rsv (sblk b k))"

lemma bm_same_refl [simp]: "bm_same b b"
  by (simp add: bm_same_def)

lemma bm_same_set_page [simp]: "bm_same b (set_page v p b') = bm_same b b'"
  by (simp add: bm_same_def)

lemma set_grains_sblk:
  "set is \<subseteq> {..<GRAIN_PER_PAGE} \<Longrightarrow> SBLK_IDX p \<noteq> k \<Longrightarrow>
    sblk (fold (\<lambda>i. set_grain v (p * GRAIN_PER_PAGE + i)) is b) k = sblk b k"
  by (induction "is" arbitrary: b) (simp_all add: set_grain_def)

lemma set_page_sblk: "SBLK_IDX p \<noteq> k \<Longrightarrow> sblk (set_page v p b) k = sblk b k"
  unfolding set_page_def by (rule set_grains_sblk) auto

definition page_valid :: "bm \<Rightarrow> ppa_t \<Rightarrow> bool" where
  "page_valid b p \<longleftrightarrow> valid_bitmap b (p * GRAIN_PER_PAGE)"

definition whole_page :: "bm \<Rightarrow> ppa_t \<Rightarrow> bool" where
  "whole_page b p \<longleftrightarrow> (\<forall>i < GRAIN_PER_PAGE. valid_bitmap b (p * GRAIN_PER_PAGE + i) = page_valid b p)"

lemma whole_page_grain:
  assumes "whole_page b p" and "g div GRAIN_PER_PAGE = p"
  shows "valid_bitmap b g = page_valid b p"
proof -
  have "g = p * GRAIN_PER_PAGE + g mod GRAIN_PER_PAGE" "g mod GRAIN_PER_PAGE < GRAIN_PER_PAGE"
    using assms(2) div_mult_mod_eq [of g GRAIN_PER_PAGE] by (auto simp: settings)
  with assms(1) show ?thesis
    by (metis whole_page_def)
qed

lemma page_valid_set_page [simp]: "page_valid (set_page v p b) q = (if q = p then v else page_valid b q)"
  by (simp add: page_valid_def set_page_bitmap GRAIN_PER_PAGE_val)

lemma whole_page_set_page: "whole_page b q \<Longrightarrow> whole_page (set_page v p b) q"
  by (simp add: whole_page_def set_page_bitmap)

lemma cnt_ok_set_page_valid: "cnt_ok b \<Longrightarrow> whole_page b p \<Longrightarrow> page_valid b p \<noteq> v \<Longrightarrow> cnt_ok (set_page v p b)"
  by (rule cnt_ok_set_page) (simp_all add: whole_page_def)

section \<open>The first loop of a collection\<close>

lemma li_read_valid:
  assumes "dev_ok (dev s)" and "p < NOS * PPS" and "ppa_state (dev s) p" and "backlog now (dev s) n"
    and "n + NAND_READ_LATENCY < 2 ^ 32 - 1"
  shows "returns (li_read now p PAGESIZE s) (\<lambda>(lat, s'). lat mod 2 ^ 32 \<noteq> 2 ^ 32 - 1 \<and> s' = s\<lparr>dev := dev s'\<rparr> \<and>
    dev_ok (dev s') \<and> line_wp (dev s') = line_wp (dev s) \<and> backlog now (dev s') (n + NAND_READ_LATENCY))"
  using ssd_read_page [OF assms(1-4)] assms(5)
  by (auto simp: li_read_def lat_code_def elim!: returnsE)

text \<open>The pages of superblock \<open>t\<close> below offset \<open>n\<close>.\<close>

definition seen :: "nat \<Rightarrow> nat \<Rightarrow> ppa_t \<Rightarrow> bool" where
  "seen t n p \<longleftrightarrow> t * PPS \<le> p \<and> p < t * PPS + n"

lemma seen_0 [simp]: "\<not> seen t 0 p"
  by (simp add: seen_def)

definition tpages_of :: "bm \<Rightarrow> nat \<Rightarrow> nat \<Rightarrow> ppa_t list" where
  "tpages_of b t n = filter (page_valid b) (map (SBLK_OFFT2PPA t) [0..<n])"

definition oob_of_page :: "bm \<Rightarrow> ppa_t \<Rightarrow> lpa_t" where
  "oob_of_page b p = oob_lpa (oob b (p * GRAIN_PER_PAGE))"

lemma read_phase:
  assumes t: "t < NOS" and cnt: "cnt_ok (bmgr s)" and whole: "\<And>p. SBLK_IDX p = t \<Longrightarrow> whole_page (bmgr s) p"
    and wr: "\<And>p. SBLK_IDX p = t \<Longrightarrow> page_valid (bmgr s) p \<Longrightarrow> ppa_state (dev s) p"
    and d: "dev_ok (dev s)" "backlog now (dev s) m" and m: "m + PPS * NAND_READ_LATENCY < 2 ^ 32 - 1"
  shows "n \<le> PPS \<Longrightarrow> returns (fold (read_tpage now t) [0..<n] (Some ([], s))) (\<lambda>(tab, s').
    tab = map (oob_of_page (bmgr s)) (tpages_of (bmgr s) t n) \<and> s' = s\<lparr>bmgr := bmgr s', dev := dev s'\<rparr> \<and>
    bm_same (bmgr s) (bmgr s') \<and> cnt_ok (bmgr s') \<and> (\<forall>p. SBLK_IDX p = t \<longrightarrow> whole_page (bmgr s') p) \<and>
    (\<forall>g. valid_bitmap (bmgr s') g = (valid_bitmap (bmgr s) g \<and> \<not> (seen t n (g div GRAIN_PER_PAGE)))) \<and>
    dev_ok (dev s') \<and> line_wp (dev s') = line_wp (dev s) \<and> backlog now (dev s') (m + n * NAND_READ_LATENCY))"
proof (induction n)
  case 0
  then show ?case
    using cnt whole d by (simp add: tpages_of_def seen_def)
next
  case (Suc n)
  then have n: "n < PPS" by simp
  with Suc.IH obtain tab s1 where s1: "fold (read_tpage now t) [0..<n] (Some ([], s)) = Some (tab, s1)"
    "tab = map (oob_of_page (bmgr s)) (tpages_of (bmgr s) t n)" "s1 = s\<lparr>bmgr := bmgr s1, dev := dev s1\<rparr>"
    "bm_same (bmgr s) (bmgr s1)" "cnt_ok (bmgr s1)" "\<forall>p. SBLK_IDX p = t \<longrightarrow> whole_page (bmgr s1) p"
    "\<forall>g. valid_bitmap (bmgr s1) g = (valid_bitmap (bmgr s) g \<and> \<not> (seen t n (g div GRAIN_PER_PAGE)))"
    "dev_ok (dev s1)" "line_wp (dev s1) = line_wp (dev s)" "backlog now (dev s1) (m + n * NAND_READ_LATENCY)"
    by (auto elim!: returnsE)
  let ?p = "SBLK_OFFT2PPA t n"
  have p: "SBLK_IDX ?p = t" "?p < NOS * PPS"
    using n t by (auto simp: SBLK_IDX_def SBLK_OFFT2PPA_def settings)
  have po: "page_ok ?p"
    using p(2) by (simp add: page_ok_def)
  have pv: "page_valid (bmgr s1) ?p = page_valid (bmgr s) ?p"
    using s1(7) by (simp add: page_valid_def seen_def SBLK_OFFT2PPA_def GRAIN_PER_PAGE_val)
  have isv: "dftl_isvalid_page (bmgr s1) ?p = Some (page_valid (bmgr s) ?p)"
    using po grain_ok_page [of 0 ?p] pv by (simp add: dftl_isvalid_page_def dftl_isvalid_grain_eq page_valid_def settings)
  have seen: "seen t (Suc n) q = (seen t n q \<or> q = ?p)" for q
    by (auto simp: seen_def SBLK_OFFT2PPA_def)
  have bl: "backlog now d (m + n * NAND_READ_LATENCY) \<Longrightarrow> backlog now d (m + Suc n * NAND_READ_LATENCY)" for d
    by (simp add: backlog_def) (metis (no_types) add.assoc add.commute trans_le_add1)
  show ?case
  proof (cases "page_valid (bmgr s) ?p")
    case False
    then have "valid_bitmap (bmgr s) g = False" if "g div GRAIN_PER_PAGE = ?p" for g
      using whole_page_grain [OF whole [OF p(1)] that] by simp
    moreover have "read_tpage now t n (Some (tab, s1)) = Some (tab, s1)"
      using False by (simp add: read_tpage_def isv)
    ultimately show ?thesis
      using s1 False bl by (auto simp: tpages_of_def seen)
  next
    case True
    have st: "ppa_state (dev s1) ?p"
      using wr [OF p(1) True] dev_ok_readable [OF d(1) p(2)] dev_ok_readable [OF s1(8) p(2)] s1(9) by simp
    have "m + n * NAND_READ_LATENCY + NAND_READ_LATENCY \<le> m + PPS * NAND_READ_LATENCY"
      using n mult_le_mono1 [of "Suc n" PPS NAND_READ_LATENCY] by simp
    with m have small: "m + n * NAND_READ_LATENCY + NAND_READ_LATENCY < 2 ^ 32 - 1"
      by linarith
    obtain lat s2 where s2: "li_read now ?p PAGESIZE s1 = Some (lat, s2)" "lat mod 2 ^ 32 \<noteq> 2 ^ 32 - 1" "s2 = s1\<lparr>dev := dev s2\<rparr>"
      "dev_ok (dev s2)" "line_wp (dev s2) = line_wp (dev s1)" "backlog now (dev s2) (m + n * NAND_READ_LATENCY + NAND_READ_LATENCY)"
      using li_read_valid [OF s1(8) p(2) st s1(10) small] by (auto elim!: returnsE)
    have b2: "bmgr s2 = bmgr s1"
      by (subst s2(3)) simp
    let ?b = "set_page False ?p (bmgr s1)"
    have inv: "on_bm (dftl_invalidate_page ?p) s2 = Some (s2\<lparr>bmgr := ?b\<rparr>)"
      by (simp add: on_bm_def b2 dftl_invalidate_page_eq [OF po])
    have ob: "dftl_bm_get_oob ?b (?p * GRAIN_PER_PAGE) = Some (oob (bmgr s) (?p * GRAIN_PER_PAGE))"
      using grain_ok_bounds(1) [of "?p * GRAIN_PER_PAGE"] grain_ok_page [of 0 ?p] po s1(4)
      by (simp add: dftl_bm_get_oob_def bm_same_def settings)
    have step: "read_tpage now t n (Some (tab, s1)) = Some (tab @ [oob_of_page (bmgr s) ?p], s2\<lparr>bmgr := ?b\<rparr>)"
      using s2(2) by (simp add: read_tpage_def isv True s2(1) inv ob oob_of_page_def Let_def)
    have res: "fold (read_tpage now t) [0..<Suc n] (Some ([], s)) = Some (tab @ [oob_of_page (bmgr s) ?p], s2\<lparr>bmgr := ?b\<rparr>)"
      by (simp add: s1(1) step)
    have "cnt_ok ?b"
      using s1(5,6) p(1) True pv by (intro cnt_ok_set_page_valid) auto
    moreover have "s2\<lparr>bmgr := ?b\<rparr> = s\<lparr>bmgr := ?b, dev := dev s2\<rparr>"
      by (subst s2(3), subst s1(3)) simp
    ultimately show ?thesis
      unfolding res using s1(2,4,6-) s2(4-6) True
      by (auto simp: tpages_of_def seen whole_page_set_page set_page_bitmap add.commute add.left_commute)
  qed
qed


section \<open>The second loop\<close>

text \<open>The flash locations of the mapping pages, and the cache with other ones.\<close>

definition tmap :: "sys \<Rightarrow> nat \<Rightarrow> ppa_t" where
  "tmap s i = t_ppa (the_cmt s i)"

definition retarget :: "(nat \<Rightarrow> ppa_t) \<Rightarrow> dcache \<Rightarrow> dcache" where
  "retarget f = upd_member (\<lambda>m. m\<lparr>cmts := (\<lambda>i. (cmts m i)\<lparr>t_ppa := f i\<rparr>)\<rparr>)"

lemma retarget_id [simp]: "retarget (tmap s) (cache s) = cache s"
  by (simp add: retarget_def upd_member_def tmap_def the_cmt_def)

lemma retarget_retarget [simp]: "retarget f (retarget g c) = retarget f c"
  by (simp add: retarget_def upd_member_def)

lemma env_retarget [simp]: "env (retarget f c) = env c"
  by (simp add: retarget_def)

lemma tmap_retarget [simp]: "tmap (s\<lparr>cache := retarget f c\<rparr>) = f"
  by (simp add: fun_eq_iff tmap_def the_cmt_def retarget_def)

lemma tmap_more [simp]:
  "tmap (s\<lparr>bmgr := b\<rparr>) = tmap s" "tmap (s\<lparr>dev := d\<rparr>) = tmap s" "tmap (s\<lparr>t_active := k\<rparr>) = tmap s"
  "tmap (s\<lparr>t_reserve := k\<rparr>) = tmap s"
  by (simp_all add: fun_eq_iff tmap_def the_cmt_def)

lemma set_t_ppa: "upd_cmt_at i (\<lambda>x. x\<lparr>t_ppa := p\<rparr>) s = s\<lparr>cache := retarget ((tmap s)(i := p)) (cache s)\<rparr>"
  by (simp add: upd_cmt_at_def upd_cache_def retarget_def upd_cmt_def upd_member_def tmap_def the_cmt_def fun_eq_iff)

definition placed_at :: "ppa_t \<Rightarrow> lpa_t list \<Rightarrow> (nat \<Rightarrow> ppa_t) \<Rightarrow> nat \<Rightarrow> ppa_t" where
  "placed_at base xs f i = (case map_of (zip xs [base..<base + length xs]) i of None \<Rightarrow> f i | Some p \<Rightarrow> p)"

lemma placed_at_Nil [simp]: "placed_at base [] f = f"
  by (simp add: placed_at_def fun_eq_iff)

lemma map_of_zip_other: "i \<notin> set xs \<Longrightarrow> map_of (zip xs ys) i = None"
  by (auto simp: map_of_eq_None_iff dest: set_zip_leftD)

lemma placed_at_snoc:
  "x \<notin> set xs \<Longrightarrow> placed_at base (xs @ [x]) f = (placed_at base xs f)(x := base + length xs)"
  by (auto simp: placed_at_def fun_eq_iff map_of_zip_other map_add_def split: option.splits)

lemma placed_at_nth:
  assumes "distinct xs" and "j < length xs"
  shows "placed_at base xs f (xs ! j) = base + j"
  using assms map_of_zip_nth [of xs "[base..<base + length xs]" j] by (simp add: placed_at_def)

lemma placed_at_other: "i \<notin> set xs \<Longrightarrow> placed_at base xs f i = f i"
  by (simp add: placed_at_def map_of_zip_other)

definition dead_sblk :: "bm \<Rightarrow> nat \<Rightarrow> bool" where
  "dead_sblk b k \<longleftrightarrow> (\<forall>g. SBLK_IDX (g div GRAIN_PER_PAGE) = k \<longrightarrow> \<not> valid_bitmap b g)"

lemma dead_sblk_page:
  assumes "dead_sblk b k" and "SBLK_IDX p = k"
  shows "\<not> page_valid b p" and "whole_page b p"
proof -
  have "\<not> valid_bitmap b (p * GRAIN_PER_PAGE + i)" if "i < GRAIN_PER_PAGE" for i
    using assms that unfolding dead_sblk_def by (metis page_of_grain)
  from this this [of 0] show "\<not> page_valid b p" "whole_page b p"
    by (simp_all add: page_valid_def whole_page_def settings)
qed

text \<open>Superblock \<open>R\<close> got the pages of \<open>xs\<close> from its start on.\<close>

definition filled :: "nat \<Rightarrow> lpa_t list \<Rightarrow> bm \<Rightarrow> bm \<Rightarrow> bool" where
  "filled R xs b b' \<longleftrightarrow>
     (\<forall>g. valid_bitmap b' g = (valid_bitmap b g \<or> seen R (length xs) (g div GRAIN_PER_PAGE))) \<and>
     (\<forall>p. oob b' (p * GRAIN_PER_PAGE) = (if seen R (length xs) p then tpage_oob (xs ! (p - R * PPS)) else oob b (p * GRAIN_PER_PAGE))) \<and>
     (\<forall>g. \<not> seen R (length xs) (g div GRAIN_PER_PAGE) \<longrightarrow> oob b' g = oob b g) \<and>
     cnt_ok b' \<and> part b' = part b \<and> stream b' = stream b \<and>
     (\<forall>k. k \<noteq> R \<longrightarrow> sblk b' k = sblk b k) \<and> wp_offt (sblk b' R) = length xs"

lemma filled_simps:
  assumes "filled R xs b b'"
  shows "valid_bitmap b' g = (valid_bitmap b g \<or> seen R (length xs) (g div GRAIN_PER_PAGE))"
    and "oob b' (p * GRAIN_PER_PAGE) = (if seen R (length xs) p then tpage_oob (xs ! (p - R * PPS)) else oob b (p * GRAIN_PER_PAGE))"
    and "\<not> seen R (length xs) (g div GRAIN_PER_PAGE) \<Longrightarrow> oob b' g = oob b g"
    and "cnt_ok b'" and "part b' = part b" and "stream b' = stream b"
    and "k \<noteq> R \<Longrightarrow> sblk b' k = sblk b k" and "wp_offt (sblk b' R) = length xs"
  using assms unfolding filled_def by blast+

lemma write_phase:
  assumes R: "t_reserve s = Some R" "R < NOS" "wp_offt (sblk (bmgr s) R) = 0" and dead: "dead_sblk (bmgr s) R"
    and cnt: "cnt_ok (bmgr s)"
  shows "length xs \<le> PPS \<Longrightarrow> distinct xs \<Longrightarrow> \<forall>i \<in> set xs. i < nr_valid_tpages (env (cache s)) \<Longrightarrow>
    \<exists>b'. fold write_tpage xs (Some (None, s)) = Some (if xs = [] then None else Some (R * PPS),
      s\<lparr>bmgr := b', cache := retarget (placed_at (R * PPS) xs (tmap s)) (cache s)\<rparr>) \<and> filled R xs (bmgr s) b'"
proof (induction xs rule: rev_induct)
  case Nil
  have "s = s\<lparr>bmgr := bmgr s, cache := retarget (tmap s) (cache s)\<rparr>"
    by simp
  then show ?case
    using R(3) cnt by (intro exI [of _ "bmgr s"]) (simp add: filled_def)
next
  case (snoc x xs)
  let ?n = "length xs" and ?S = "\<lambda>b f. s\<lparr>bmgr := b, cache := retarget f (cache s)\<rparr>"
  obtain b where b0: "fold write_tpage xs (Some (None, s)) = Some (if xs = [] then None else Some (R * PPS),
      ?S b (placed_at (R * PPS) xs (tmap s)))" "filled R xs (bmgr s) b"
    using snoc by auto
  note b = b0(1) filled_simps [OF b0(2)]
  let ?p = "SBLK_OFFT2PPA R ?n"
  let ?b1 = "upd_sblk R (\<lambda>s. s\<lparr>wp_offt := Suc (wp_offt s)\<rparr>) b"
  have n: "?n < PPS" "x \<notin> set xs" "x < nr_valid_tpages (env (cache s))"
    using snoc.prems by auto
  have p: "SBLK_IDX ?p = R" "page_ok ?p" "?p = R * PPS + ?n"
    using n R(2) by (auto simp: SBLK_IDX_def SBLK_OFFT2PPA_def page_ok_def settings)
  have "\<not> seen R ?n ?p"
    by (simp add: seen_def p(3))
  then have "valid_bitmap b (?p * GRAIN_PER_PAGE + i) = valid_bitmap (bmgr s) (?p * GRAIN_PER_PAGE + i)" if "i < GRAIN_PER_PAGE" for i
    using that by (simp add: b(2))
  from this this [of 0] have "page_valid b ?p = page_valid (bmgr s) ?p" "whole_page b ?p"
    using dead_sblk_page [OF dead p(1)] by (simp_all add: page_valid_def whole_page_def GRAIN_PER_PAGE_val)
  then have inv: "\<not> page_valid ?b1 ?p" "whole_page ?b1 ?p"
    using dead_sblk_page(1) [OF dead p(1)] by (simp_all add: page_valid_def whole_page_def)
  have "cnt_ok ?b1"
    using b(5) by (simp add: cnt_ok_def valid_grains_def)
  then have cnt2: "cnt_ok (set_page True ?p ?b1)"
    using inv by (intro cnt_ok_set_page_valid) auto
  let ?b2 = "(set_page True ?p ?b1)\<lparr>oob := (oob b)(?p * GRAIN_PER_PAGE := tpage_oob x)\<rparr>"
  have num: "dftl_get_page_num R b = (?p, ?b1)"
    using b(9) by (simp add: dftl_get_page_num_def)
  have ob: "dftl_bm_set_oob (?p * GRAIN_PER_PAGE) (tpage_oob x) (set_page True ?p ?b1) = Some ?b2"
    using grain_ok_bounds(1) [of "?p * GRAIN_PER_PAGE"] grain_ok_page [of 0 ?p] p(2)
    by (simp add: dftl_bm_set_oob_def settings)
  have step: "write_tpage x (Some (sp, ?S b f)) = Some (case sp of None \<Rightarrow> Some ?p | Some p \<Rightarrow> Some p,
      ?S ?b2 (f(x := ?p)))" for sp f
    using n(3) R(1) by (simp add: write_tpage_def num dftl_validate_page_eq [OF p(2)] ob set_t_ppa)
  have res: "fold write_tpage (xs @ [x]) (Some (None, s)) = Some (Some (R * PPS),
      ?S ?b2 (placed_at (R * PPS) (xs @ [x]) (tmap s)))"
  proof -
    have "fold write_tpage (xs @ [x]) (Some (None, s)) = write_tpage x (fold write_tpage xs (Some (None, s)))"
      by simp
    also have "\<dots> = Some (case (if xs = [] then None else Some (R * PPS)) of None \<Rightarrow> Some ?p | Some p \<Rightarrow> Some p,
        ?S ?b2 ((placed_at (R * PPS) xs (tmap s))(x := ?p)))"
      unfolding b(1) by (rule step)
    also have "(placed_at (R * PPS) xs (tmap s))(x := ?p) = placed_at (R * PPS) (xs @ [x]) (tmap s)"
      by (simp only: placed_at_snoc [OF n(2)] p(3))
    also have "(case (if xs = [] then None else Some (R * PPS)) of None \<Rightarrow> Some ?p | Some p \<Rightarrow> Some p) = Some (R * PPS)"
      by (simp add: p(3) SBLK_OFFT2PPA_def)
    finally show ?thesis .
  qed
  have seen: "seen R (Suc ?n) q = (seen R ?n q \<or> q = ?p)" for q
    by (auto simp: seen_def p(3))
  have "\<forall>g. valid_bitmap ?b2 g = (valid_bitmap (bmgr s) g \<or> seen R (length (xs @ [x])) (g div GRAIN_PER_PAGE))"
    by (auto simp: set_page_bitmap b(2) seen)
  moreover have "\<forall>q. oob ?b2 (q * GRAIN_PER_PAGE) = (if seen R (length (xs @ [x])) q then tpage_oob ((xs @ [x]) ! (q - R * PPS))
      else oob (bmgr s) (q * GRAIN_PER_PAGE))"
  proof
    fix q
    show "oob ?b2 (q * GRAIN_PER_PAGE) = (if seen R (length (xs @ [x])) q then tpage_oob ((xs @ [x]) ! (q - R * PPS))
      else oob (bmgr s) (q * GRAIN_PER_PAGE))"
    proof (cases "q = ?p")
      case True
      then show ?thesis
        by (simp add: seen) (simp add: p(3))
    next
      case False
      then have "oob ?b2 (q * GRAIN_PER_PAGE) = oob b (q * GRAIN_PER_PAGE)"
        by (simp add: GRAIN_PER_PAGE_val)
      moreover have "(xs @ [x]) ! (q - R * PPS) = xs ! (q - R * PPS)" if "seen R ?n q"
        using that by (auto simp: seen_def nth_append)
      ultimately show ?thesis
        using False by (simp add: b(3) seen)
    qed
  qed
  moreover have "\<forall>g. \<not> seen R (length (xs @ [x])) (g div GRAIN_PER_PAGE) \<longrightarrow> oob ?b2 g = oob (bmgr s) g"
    by (auto simp: seen b(4) GRAIN_PER_PAGE_val)
  moreover have "cnt_ok ?b2"
    using cnt2 by (simp add: cnt_ok_def valid_grains_def)
  moreover have "part ?b2 = part (bmgr s)" "stream ?b2 = stream (bmgr s)"
    by (simp_all add: b(6,7))
  moreover have "\<forall>k. k \<noteq> R \<longrightarrow> sblk ?b2 k = sblk (bmgr s) k" "wp_offt (sblk ?b2 R) = length (xs @ [x])"
    using b(8,9) p(1) by (simp_all add: set_page_sblk)
  ultimately show ?case
    unfolding res filled_def by (intro exI [of _ ?b2] conjI) simp_all
qed

lemma bulk_write_ok:
  assumes R: "t_reserve s = Some R" "R < NOS" "wp_offt (sblk (bmgr s) R) = 0" and dead: "dead_sblk (bmgr s) R"
    and cnt: "cnt_ok (bmgr s)" and xs: "length xs \<le> PPS" "distinct xs" "\<forall>i \<in> set xs. i < nr_valid_tpages (env (cache s))"
    and d: "dev_ok (dev s)" "line_wp (dev s) R = 0"
  shows "\<exists>b' d'. bulk_write_valid_tpages now xs s = Some (s\<lparr>bmgr := b', dev := d',
      cache := retarget (placed_at (R * PPS) xs (tmap s)) (cache s)\<rparr>) \<and> filled R xs (bmgr s) b' \<and>
      dev_ok d' \<and> line_wp d' = (line_wp (dev s))(R := length xs)"
proof (cases "xs = []")
  case True
  have "line_wp (dev s) = (line_wp (dev s))(R := 0)"
    using d(2) by auto
  with True show ?thesis
    using R(3) cnt d by (intro exI [of _ "bmgr s"] exI [of _ "dev s"]) (simp add: bulk_write_valid_tpages_def filled_def)
next
  case False
  obtain b' where b': "fold write_tpage xs (Some (None, s)) = Some (if xs = [] then None else Some (R * PPS),
      s\<lparr>bmgr := b', cache := retarget (placed_at (R * PPS) xs (tmap s)) (cache s)\<rparr>)" "filled R xs (bmgr s) b'"
    using write_phase [OF R dead cnt xs] by blast
  let ?s = "s\<lparr>bmgr := b', cache := retarget (placed_at (R * PPS) xs (tmap s)) (cache s)\<rparr>"
  obtain lat d' where "li_write now (R * PPS) (length xs * PAGESIZE) ?s = Some (lat, ?s\<lparr>dev := d'\<rparr>)"
    "dev_ok d'" "line_wp d' = (line_wp (dev s))(R := length xs)"
    using li_write_ok [of ?s R "length xs" now] d R(2) xs(1) by auto
  then show ?thesis
    using False b' by (intro exI [of _ b'] exI [of _ d']) (simp add: bulk_write_valid_tpages_def)
qed

end
