(* ===== verification/Mapinv.thy ===== *)
theory Mapinv
  imports Mapgc
begin

text \<open>
  The invariant of the translation pages, and the allocation of translation pages by
  \<^verbatim>\<open>tp_alloc\<close> with the collection by \<^verbatim>\<open>tpage_gc\<close>.
\<close>

section \<open>The invariant\<close>

text \<open>The superblocks of the translation partition, and those never opened.\<close>

definition map_end :: nat where
  "map_end = NOS div 20"

definition fresh_set :: "sys \<Rightarrow> nat set" where
  "fresh_set s = {k. k \<le> map_end \<and> Some k \<noteq> t_reserve s \<and> Some k \<noteq> t_active s \<and> wp_offt (sblk (bmgr s) k) = 0}"

lemma map_end_vals [settings]: "map_end = 58"
  by (simp add: map_end_def settings)

lemma finite_fresh_set [simp]: "finite (fresh_set s)"
  by (rule finite_subset [of _ "{..map_end}"]) (auto simp: fresh_set_def)

text \<open>
  The pool: the reserve is empty, every other superblock is the active one, fresh or full, the
  counter counts the fresh ones and the reserve.  The search for the next superblock starts behind
  the active one as long as a fresh one is left.
\<close>

definition map_pool :: "sys \<Rightarrow> bool" where
  "map_pool s \<longleftrightarrow>
     (let pt = part (bmgr s) MAP_S; wp = (\<lambda>k. wp_offt (sblk (bmgr s) k)) in
      s_sblk pt = 0 \<and> e_sblk pt = map_end \<and>
      t_reserve s = Some (sblk_rsv pt) \<and> sblk_rsv pt \<le> map_end \<and> wp (sblk_rsv pt) = 0 \<and>
      (case t_active s of None \<Rightarrow> active_sblk pt = None \<and> (\<forall>k \<le> map_end. wp k = 0)
       | Some a \<Rightarrow> a \<le> map_end \<and> a \<noteq> sblk_rsv pt \<and> wp a \<le> PPS) \<and>
      (\<forall>k \<le> map_end. Some k \<noteq> t_active s \<longrightarrow> wp k = 0 \<or> wp k = PPS) \<and>
      free_sblk_cnt pt = of_nat (1 + card (fresh_set s)) \<and>
      (fresh_set s \<noteq> {} \<longrightarrow> active_sblk pt = t_active s))"

text \<open>
  The pages: every flash location in the mapping table holds a valid page with that page's index in
  its out-of-band record, and every valid page of the partition is one of these.
\<close>

definition map_pages :: "sys \<Rightarrow> bool" where
  "map_pages s \<longleftrightarrow>
     cnt_ok (bmgr s) \<and> nr_valid_tpages (env (cache s)) < map_end * PPS \<and>
     (\<forall>p. SBLK_IDX p \<le> map_end \<longrightarrow> whole_page (bmgr s) p) \<and>
     (\<forall>i < nr_valid_tpages (env (cache s)). tmap s i \<noteq> UINT32_MAX \<longrightarrow>
        SBLK_IDX (tmap s i) \<le> map_end \<and> page_valid (bmgr s) (tmap s i) \<and> oob_of_page (bmgr s) (tmap s i) = i) \<and>
     (\<forall>p. SBLK_IDX p \<le> map_end \<longrightarrow> page_valid (bmgr s) p \<longrightarrow>
        p mod PPS < wp_offt (sblk (bmgr s) (SBLK_IDX p)) \<and>
        oob_of_page (bmgr s) p < nr_valid_tpages (env (cache s)) \<and> tmap s (oob_of_page (bmgr s) p) = p)"

text \<open>The device agrees with the write pointers.\<close>

definition map_dev :: "sys \<Rightarrow> bool" where
  "map_dev s \<longleftrightarrow> dev_ok (dev s) \<and> (\<forall>k \<le> map_end. line_wp (dev s) k = wp_offt (sblk (bmgr s) k))"

definition map_inv :: "sys \<Rightarrow> bool" where
  "map_inv s \<longleftrightarrow> map_pool s \<and> map_pages s \<and> map_dev s"

section \<open>Consequences\<close>

lemma map_pagesD:
  assumes "map_pages s"
  shows "cnt_ok (bmgr s)" and "nr_valid_tpages (env (cache s)) < map_end * PPS"
    and "SBLK_IDX p \<le> map_end \<Longrightarrow> whole_page (bmgr s) p"
    and "i < nr_valid_tpages (env (cache s)) \<Longrightarrow> tmap s i \<noteq> UINT32_MAX \<Longrightarrow> SBLK_IDX (tmap s i) \<le> map_end"
    and "i < nr_valid_tpages (env (cache s)) \<Longrightarrow> tmap s i \<noteq> UINT32_MAX \<Longrightarrow> page_valid (bmgr s) (tmap s i)"
    and "i < nr_valid_tpages (env (cache s)) \<Longrightarrow> tmap s i \<noteq> UINT32_MAX \<Longrightarrow> oob_of_page (bmgr s) (tmap s i) = i"
    and "SBLK_IDX p \<le> map_end \<Longrightarrow> page_valid (bmgr s) p \<Longrightarrow> p mod PPS < wp_offt (sblk (bmgr s) (SBLK_IDX p))"
    and "SBLK_IDX p \<le> map_end \<Longrightarrow> page_valid (bmgr s) p \<Longrightarrow> oob_of_page (bmgr s) p < nr_valid_tpages (env (cache s))"
    and "SBLK_IDX p \<le> map_end \<Longrightarrow> page_valid (bmgr s) p \<Longrightarrow> tmap s (oob_of_page (bmgr s) p) = p"
  using assms unfolding map_pages_def by blast+

lemma map_poolD:
  assumes "map_pool s"
  shows "s_sblk (part (bmgr s) MAP_S) = 0" and "e_sblk (part (bmgr s) MAP_S) = map_end"
    and "t_reserve s = Some (sblk_rsv (part (bmgr s) MAP_S))" and "sblk_rsv (part (bmgr s) MAP_S) \<le> map_end"
    and "wp_offt (sblk (bmgr s) (sblk_rsv (part (bmgr s) MAP_S))) = 0"
    and "k \<le> map_end \<Longrightarrow> Some k \<noteq> t_active s \<Longrightarrow> wp_offt (sblk (bmgr s) k) = 0 \<or> wp_offt (sblk (bmgr s) k) = PPS"
    and "free_sblk_cnt (part (bmgr s) MAP_S) = of_nat (1 + card (fresh_set s))"
    and "fresh_set s \<noteq> {} \<Longrightarrow> active_sblk (part (bmgr s) MAP_S) = t_active s"
  using assms unfolding map_pool_def Let_def by blast+

lemma SBLK_of_page: "n < PPS \<Longrightarrow> SBLK_IDX (k * PPS + n) = k"
  by (simp add: SBLK_IDX_def settings)

lemma map_end_NOS: "map_end < NOS"
  by (simp add: settings)

lemma seen_full: "seen k PPS p \<longleftrightarrow> SBLK_IDX p = k"
  by (auto simp: seen_def SBLK_IDX_def settings)

text \<open>An empty superblock holds no valid page.\<close>

lemma empty_dead:
  assumes "map_pages s" and "k \<le> map_end" and "wp_offt (sblk (bmgr s) k) = 0"
  shows "dead_sblk (bmgr s) k"
proof -
  have "\<not> valid_bitmap (bmgr s) g" if "SBLK_IDX (g div GRAIN_PER_PAGE) = k" for g
    using map_pagesD(3,7) [OF assms(1), of "g div GRAIN_PER_PAGE"] assms(2,3) that
      whole_page_grain [of "bmgr s" "g div GRAIN_PER_PAGE" g] by auto
  then show ?thesis
    by (simp add: dead_sblk_def)
qed

section \<open>The victim\<close>

text \<open>There are fewer mapping pages than pages outside the reserve.\<close>

lemma some_invalid:
  assumes pages: "map_pages s" and R: "R \<le> map_end"
  obtains k n where "k \<le> map_end" "k \<noteq> R" "n < PPS" "\<not> page_valid (bmgr s) (k * PPS + n)"
proof (rule ccontr)
  assume "\<not> thesis"
  note none = this
  have all: "page_valid (bmgr s) (k * PPS + n)" if "k \<le> map_end" "k \<noteq> R" "n < PPS" for k n
    using none that \<open>\<And>k n. \<lbrakk>k \<le> map_end; k \<noteq> R; n < PPS; \<not> page_valid (bmgr s) (k * PPS + n)\<rbrakk> \<Longrightarrow> thesis\<close> by blast
  let ?K = "{..map_end} - {R}" and ?f = "\<lambda>(k, n). k * PPS + n"
  have pair: "(SBLK_IDX p, p mod PPS) = x" if "?f x = p" "x \<in> ?K \<times> {..<PPS}" for p x
    using that by (auto simp: SBLK_IDX_def settings)
  have "inj_on (\<lambda>x. oob_of_page (bmgr s) (?f x)) (?K \<times> {..<PPS})"
  proof (rule inj_onI)
    fix x y assume xy: "x \<in> ?K \<times> {..<PPS}" "y \<in> ?K \<times> {..<PPS}" "oob_of_page (bmgr s) (?f x) = oob_of_page (bmgr s) (?f y)"
    then have "?f x = ?f y"
      using map_pagesD(9) [OF pages, of "?f x"] map_pagesD(9) [OF pages, of "?f y"] all SBLK_of_page by (auto split: prod.splits)
    with pair [of x "?f x"] pair [of y "?f x"] xy show "x = y"
      by simp
  qed
  moreover have "(\<lambda>x. oob_of_page (bmgr s) (?f x)) ` (?K \<times> {..<PPS}) \<subseteq> {..<nr_valid_tpages (env (cache s))}"
  proof (intro subsetI)
    fix i assume "i \<in> (\<lambda>x. oob_of_page (bmgr s) (?f x)) ` (?K \<times> {..<PPS})"
    then obtain k n where "i = oob_of_page (bmgr s) (k * PPS + n)" "k \<le> map_end" "k \<noteq> R" "n < PPS"
      by auto
    then show "i \<in> {..<nr_valid_tpages (env (cache s))}"
      using map_pagesD(8) [OF pages, of "k * PPS + n"] all [of k n] SBLK_of_page [of n k] by simp
  qed
  ultimately have "card (?K \<times> {..<PPS}) \<le> nr_valid_tpages (env (cache s))"
    using card_inj_on_le [of _ "?K \<times> {..<PPS}" "{..<nr_valid_tpages (env (cache s))}"] by simp
  then show False
    using map_pagesD(2) [OF pages] R by (simp add: card_cartesian_product)
qed

lemma finite_sblk_grains: "finite (sblk_grains k)"
  by (simp add: sblk_grains_eq)

lemma map_victim:
  assumes pages: "map_pages s" and pool: "map_pool s"
    and full: "\<And>k. k \<le> map_end \<Longrightarrow> t_reserve s \<noteq> Some k \<Longrightarrow> wp_offt (sblk (bmgr s) k) = PPS"
  obtains T where "dftl_get_gc_target MAP_S (- 1) (bmgr s) = Some T" "T \<le> map_end" "t_reserve s \<noteq> Some T"
    "card (valid_grains (bmgr s) T) < PPS * GRAIN_PER_PAGE"
proof -
  let ?b = "bmgr s"
  let ?pt = "part ?b MAP_S"
  let ?R = "sblk_rsv ?pt"
  let ?P = "\<lambda>i. i \<noteq> ?R \<and> dftl_check_full ?b i"
  note pl = map_poolD [OF pool]
  obtain k n where k: "k \<le> map_end" "k \<noteq> ?R" "n < PPS" "\<not> page_valid ?b (k * PPS + n)"
    using some_invalid [OF pages pl(4)] .
  let ?g = "(k * PPS + n) * GRAIN_PER_PAGE"
  have cnt: "unat (valid_cnt (sblk ?b i)) = card (valid_grains ?b i)" if "i \<le> map_end" for i
    using map_pagesD(1) [OF pages] that map_end_NOS by (intro cnt_ok_unat) auto
  have "?g \<in> sblk_grains k - valid_grains ?b k"
    using k(3,4) SBLK_of_page [of n k] by (simp add: sblk_grains_def valid_grains_def page_valid_def GRAIN_PER_PAGE_val)
  then have "card (valid_grains ?b k) < card (sblk_grains k)"
    by (intro psubset_card_mono psubsetI) (auto simp: finite_sblk_grains valid_grains_def)
  then have small: "unat (valid_cnt (sblk ?b k)) < PPS * GRAIN_PER_PAGE"
    using cnt [OF k(1)] by (simp add: sblk_grains_eq settings)
  obtain t m where scan: "gc_scan ?P ?b ?pt (None, UINT32_MAX) = (t, m)"
    by fastforce
  have range: "{s_sblk ?pt..e_sblk ?pt} = {..map_end}"
    using pl(1,2) by auto
  note spec = gc_scan_spec [OF scan, unfolded range]
  have kP: "?P k"
    using full [of k] k pl(3) by (simp add: dftl_check_full_def settings)
  have "PPS * GRAIN_PER_PAGE < UINT32_MAX"
    by (simp add: settings)
  then obtain T where T: "t = Some T" "T \<le> map_end" "?P T" "m = unat (valid_cnt (sblk ?b T))" "m \<le> unat (valid_cnt (sblk ?b k))"
    using spec kP small k(1) by (cases t) auto
  have "wp_offt (sblk ?b T) = PPS"
    using full [of T] T pl(3) by simp
  then have "dftl_get_gc_target MAP_S (- 1) ?b = Some T"
    using scan T small spec by (simp add: dftl_get_gc_target_def settings)
  moreover have "card (valid_grains ?b T) < PPS * GRAIN_PER_PAGE"
    using T(2,4,5) small cnt [OF T(2)] by simp
  ultimately show thesis
    using T(2,3) pl(3) by (intro that) auto
qed

section \<open>Moving the pages of a superblock\<close>

lemma set_tpages_of: "p \<in> set (tpages_of b t n) \<longleftrightarrow> page_valid b p \<and> seen t n p"
  by (auto simp: tpages_of_def seen_def SBLK_OFFT2PPA_def image_iff intro!: bexI [of _ "p - t * PPS"])

lemma distinct_tpages_of: "distinct (tpages_of b t n)"
  by (auto simp: tpages_of_def distinct_map inj_on_def SBLK_OFFT2PPA_def)

lemma tpages_of_short:
  assumes "card (valid_grains b t) < PPS * GRAIN_PER_PAGE" and "\<And>p. SBLK_IDX p = t \<Longrightarrow> whole_page b p"
  shows "length (tpages_of b t PPS) < PPS"
proof (rule ccontr)
  assume "\<not> length (tpages_of b t PPS) < PPS"
  then have "filter (page_valid b) (map (SBLK_OFFT2PPA t) [0..<PPS]) = map (SBLK_OFFT2PPA t) [0..<PPS]"
    unfolding tpages_of_def
    by (metis filter_True length_filter_less length_map length_upt minus_nat.diff_0)
  then have "\<forall>p \<in> set (map (SBLK_OFFT2PPA t) [0..<PPS]). page_valid b p"
    by (simp only: filter_id_conv)
  then have all: "page_valid b p" if "SBLK_IDX p = t" for p
  proof -
    have "p = SBLK_OFFT2PPA t (p mod PPS)" "p mod PPS < PPS"
      using that by (auto simp: SBLK_OFFT2PPA_def SBLK_IDX_def settings)
    with \<open>\<forall>p \<in> _. _\<close> show ?thesis
      by (metis atLeastLessThan_iff imageI le0 list.set_map set_upt)
  qed
  have "valid_grains b t = sblk_grains t"
    using whole_page_grain [OF assms(2) refl] all by (auto simp: valid_grains_def sblk_grains_def)
  with assms(1) show False
    by (simp add: sblk_grains_eq settings)
qed

lemma relocate_pages:
  assumes pages: "map_pages s" and cnt: "cnt_ok (bmgr s')" and env: "env (cache s') = env (cache s)"
    and T: "T \<le> map_end" and R: "R \<le> map_end" "R \<noteq> T" and dead: "dead_sblk (bmgr s) R"
    and xs: "xs = map (oob_of_page (bmgr s)) (tpages_of (bmgr s) T PPS)" and n: "length xs \<le> PPS"
    and tm: "tmap s' = placed_at (R * PPS) xs (tmap s)"
    and valid: "\<And>g. valid_bitmap (bmgr s') g = (valid_bitmap (bmgr s) g \<and> SBLK_IDX (g div GRAIN_PER_PAGE) \<noteq> T \<or>
      seen R (length xs) (g div GRAIN_PER_PAGE))"
    and ob: "\<And>p. SBLK_IDX p \<noteq> T \<Longrightarrow> oob_of_page (bmgr s') p =
      (if seen R (length xs) p then xs ! (p - R * PPS) else oob_of_page (bmgr s) p)"
    and wp: "\<And>k. k \<noteq> T \<Longrightarrow> wp_offt (sblk (bmgr s') k) = (if k = R then length xs else wp_offt (sblk (bmgr s) k))"
  shows "map_pages s'"
proof -
  let ?b = "bmgr s" and ?b' = "bmgr s'" and ?n = "length xs"
  note pg = map_pagesD [OF pages]
  have in_R: "SBLK_IDX p = R" if "seen R ?n p" for p
    using that n by (auto simp: seen_def SBLK_IDX_def settings)
  have pv: "page_valid ?b' p = (page_valid ?b p \<and> SBLK_IDX p \<noteq> T \<or> seen R ?n p)" for p
    by (simp add: page_valid_def valid GRAIN_PER_PAGE_val)
  have not_R: "SBLK_IDX p \<noteq> R" if "page_valid ?b p" for p
    using dead_sblk_page(1) [OF dead] that by blast
  have idx: "x \<in> set xs \<longleftrightarrow> (\<exists>p. SBLK_IDX p = T \<and> page_valid ?b p \<and> oob_of_page ?b p = x)" for x
    by (auto simp: xs set_tpages_of seen_full)
  have dist: "distinct xs"
    unfolding xs distinct_map using distinct_tpages_of pg(9) T
    by (metis inj_onI seen_full set_tpages_of)
  have whole: "whole_page ?b' p" if "SBLK_IDX p \<le> map_end" for p
    using pg(3) [OF that] by (simp add: whole_page_def pv) (simp add: valid)
  have one: "SBLK_IDX (tmap s' i) \<le> map_end \<and> page_valid ?b' (tmap s' i) \<and> oob_of_page ?b' (tmap s' i) = i"
    if i: "i < nr_valid_tpages (env (cache s))" "tmap s' i \<noteq> UINT32_MAX" for i
  proof (cases "i \<in> set xs")
    case True
    then obtain j where j: "j < ?n" "i = xs ! j"
      by (metis in_set_conv_nth)
    then have "tmap s' i = R * PPS + j"
      using dist by (simp add: tm placed_at_nth)
    moreover have "seen R ?n (R * PPS + j)" "SBLK_IDX (R * PPS + j) = R"
      using j n by (auto simp: seen_def intro: SBLK_of_page)
    ultimately show ?thesis
      using R j by (simp add: pv ob)
  next
    case False
    then have t: "tmap s' i = tmap s i"
      by (simp add: tm placed_at_other)
    note old = pg(4-6) [OF i(1) i(2) [unfolded t]]
    have "SBLK_IDX (tmap s i) \<noteq> T"
      using False idx [of i] old by auto
    moreover have "\<not> seen R ?n (tmap s i)"
      using in_R not_R old by blast
    ultimately show ?thesis
      using old by (simp add: t pv ob)
  qed
  have two: "p mod PPS < wp_offt (sblk ?b' (SBLK_IDX p)) \<and> oob_of_page ?b' p < nr_valid_tpages (env (cache s)) \<and>
      tmap s' (oob_of_page ?b' p) = p" if p: "SBLK_IDX p \<le> map_end" "page_valid ?b' p" for p
  proof (cases "seen R ?n p")
    case True
    then obtain j where j: "j < ?n" "p = R * PPS + j"
      by (auto simp: seen_def le_iff_add)
    have "oob_of_page ?b' p = xs ! j" "tmap s' (xs ! j) = p"
      using in_R [OF True] R True j dist by (simp_all add: ob tm placed_at_nth)
    moreover have "xs ! j < nr_valid_tpages (env (cache s))"
      using idx [of "xs ! j"] nth_mem [OF j(1)] pg(8) T by metis
    moreover have "p mod PPS = j"
      using j n by simp
    ultimately show ?thesis
      using in_R [OF True] R j by (simp add: wp)
  next
    case False
    with p pv have old: "page_valid ?b p" "SBLK_IDX p \<noteq> T"
      by auto
    have "oob_of_page ?b p \<notin> set xs"
      using idx [of "oob_of_page ?b p"] pg(9) p(1) old T by metis
    then show ?thesis
      using pg(7-9) [OF p(1) old(1)] old(2) not_R [OF old(1)] False by (simp add: ob wp tm placed_at_other)
  qed
  show ?thesis
    unfolding map_pages_def env using cnt pg(2) whole one two by blast
qed

section \<open>Collecting a translation superblock\<close>

text \<open>
  What an allocation may change: the block manager, the device, the locations of mapping pages that
  have one, and the two superblock pointers.
\<close>

definition moved :: "sys \<Rightarrow> sys \<Rightarrow> bool" where
  "moved s s' \<longleftrightarrow> (\<exists>f. s' = s\<lparr>bmgr := bmgr s', dev := dev s', cache := retarget f (cache s),
      t_active := t_active s', t_reserve := t_reserve s'\<rparr> \<and> (\<forall>i. tmap s i = UINT32_MAX \<longrightarrow> f i = UINT32_MAX))"

text \<open>The superblock counters do not count what is not modified.\<close>

lemma trimmed_cnt_ok:
  assumes cnt: "cnt_ok b" and dead: "dead_sblk b k" and b': "valid_bitmap b' = valid_bitmap b"
    and sb: "\<And>j. valid_cnt (sblk b' j) = (if j = k then 0 else valid_cnt (sblk b j))"
  shows "cnt_ok b'"
proof -
  have "valid_grains b k = {}"
    using dead by (auto simp: valid_grains_def sblk_grains_def dead_sblk_def)
  then show ?thesis
    using cnt valid_grains_cong [OF b'] by (auto simp: cnt_ok_def sb)
qed

lemma tpage_gc_returns:
  assumes inv: "map_inv s"
    and full: "\<And>k. k \<le> map_end \<Longrightarrow> t_reserve s \<noteq> Some k \<Longrightarrow> wp_offt (sblk (bmgr s) k) = PPS"
    and lat: "backlog now (dev s) m" "m + PPS * NAND_READ_LATENCY < 2 ^ 32 - 1"
  shows "returns (tpage_gc now s) (\<lambda>(n, s'). map_inv s' \<and> moved s s' \<and>
    (\<exists>a. t_active s' = Some a \<and> wp_offt (sblk (bmgr s') a) < PPS) \<and> n < PPS)"
proof -
  have pool: "map_pool s" and pages: "map_pages s" and d: "dev_ok (dev s)"
    and wpd: "\<And>k. k \<le> map_end \<Longrightarrow> line_wp (dev s) k = wp_offt (sblk (bmgr s) k)"
    using inv by (auto simp: map_inv_def map_dev_def)
  note pl = map_poolD [OF pool] and pg = map_pagesD [OF pages]
  let ?b = "bmgr s"
  define R where "R = sblk_rsv (part ?b MAP_S)"
  have R: "t_reserve s = Some R" "R \<le> map_end" "R < NOS" "wp_offt (sblk ?b R) = 0"
    using pl map_end_NOS by (auto simp: R_def)
  obtain T where T: "dftl_get_gc_target MAP_S (- 1) ?b = Some T" "T \<le> map_end" "R \<noteq> T"
    "card (valid_grains ?b T) < PPS * GRAIN_PER_PAGE"
    using map_victim [OF pages pool full] R(1) by auto
  have TN: "T < NOS" and wpT: "wp_offt (sblk ?b T) = PPS"
    using T full [of T] R map_end_NOS by auto
  define xs where "xs = map (oob_of_page ?b) (tpages_of ?b T PPS)"
  have short: "length xs < PPS"
    using tpages_of_short [OF T(4)] pg(3) T(2) by (simp add: xs_def)
  have readable: "ppa_state (dev s) p" if "SBLK_IDX p = T" "page_valid ?b p" for p
  proof -
    have "p < NOS * PPS"
      using that(1) TN page_ok_sblk [of p] by (simp add: page_ok_def)
    then show ?thesis
      using dev_ok_readable [OF d] pg(7) [of p] that T(2) wpd by simp
  qed
  obtain s1 where s1: "bulk_read_valid_tpages now T s = Some (xs, s1)" "s1 = s\<lparr>bmgr := bmgr s1, dev := dev s1\<rparr>"
    "bm_same ?b (bmgr s1)" "cnt_ok (bmgr s1)"
    "\<And>g. valid_bitmap (bmgr s1) g = (valid_bitmap ?b g \<and> SBLK_IDX (g div GRAIN_PER_PAGE) \<noteq> T)"
    "dev_ok (dev s1)" "line_wp (dev s1) = line_wp (dev s)"
    using read_phase [OF TN pg(1) _ readable d lat order_refl] pg(3) T(2)
    by (auto simp: bulk_read_valid_tpages_def SBLK_END_def seen_full xs_def elim!: returnsE)
  have same: "tmap s1 = tmap s" "t_reserve s1 = Some R" "cache s1 = cache s" "t_active s1 = t_active s"
    by (subst s1(2), simp add: R)+
  have b1: "oob (bmgr s1) = oob ?b" "part (bmgr s1) = part ?b" "\<And>k. wp_offt (sblk (bmgr s1) k) = wp_offt (sblk ?b k)"
    using s1(3) by (simp_all add: bm_same_def)
  have dead: "dead_sblk ?b R"
    using empty_dead [OF pages R(2,4)] .
  then have dead1: "dead_sblk (bmgr s1) R"
    by (simp add: dead_sblk_def s1(5))
  have idx: "\<forall>i \<in> set xs. i < nr_valid_tpages (env (cache s1))"
    using pg(8) T(2) by (auto simp: xs_def set_tpages_of seen_full same)
  have dist: "distinct xs"
    unfolding xs_def distinct_map using distinct_tpages_of pg(9) T(2)
    by (metis inj_onI seen_full set_tpages_of)
  obtain b2 d2 where w: "bulk_write_valid_tpages now xs s1 = Some (s1\<lparr>bmgr := b2, dev := d2,
      cache := retarget (placed_at (R * PPS) xs (tmap s)) (cache s)\<rparr>)" "filled R xs (bmgr s1) b2"
    "dev_ok d2" "line_wp d2 = (line_wp (dev s))(R := length xs)"
    using bulk_write_ok [OF same(2) R(3) _ dead1 s1(4) _ dist idx s1(6), of now] short R(2,4) wpd
    by (auto simp: b1 same s1(7))
  note f = filled_simps [OF w(2)]
  define s2 where "s2 = s1\<lparr>bmgr := b2, dev := d2, cache := retarget (placed_at (R * PPS) xs (tmap s)) (cache s)\<rparr>"
  have bs2: "bmgr s2 = b2" "dev s2 = d2"
    by (simp_all add: s2_def)
  define z where "z = (\<lambda>g. SBLK_OFFT2PPA T 0 * GRAIN_PER_PAGE \<le> g \<and> g < SBLK_OFFT2PPA T 0 * GRAIN_PER_PAGE + PPS * GRAIN_PER_PAGE)"
  obtain d3 where tr: "trim_on_sys now T s2 = Some (s2\<lparr>bmgr := (upd_sblk T (\<lambda>s. s\<lparr>wp_offt := 0, valid_cnt := 0\<rparr>) b2)
      \<lparr>oob := (\<lambda>g. if z g then zero_oob else oob b2 g)\<rparr>, dev := d3\<rparr>)" "dev_ok d3" "line_wp d3 = (line_wp d2)(T := 0)"
    using trim_ok [of s2 T now, unfolded bs2] w(3) TN unfolding z_def by blast
  define b where "b = upd_part MAP_S (\<lambda>p. p\<lparr>sblk_rsv := T\<rparr>) (upd_sblk T (\<lambda>x. x\<lparr>gc_cnt := gc_cnt x + 1\<rparr>)
      ((upd_sblk T (\<lambda>s. s\<lparr>wp_offt := 0, valid_cnt := 0\<rparr>) b2)\<lparr>oob := (\<lambda>g. if z g then zero_oob else oob b2 g)\<rparr>))"
  define s' where "s' = s2\<lparr>bmgr := b, dev := d3, t_active := Some R, t_reserve := Some T\<rparr>"
  have run: "tpage_gc now s = Some (length xs, s')"
    using R(1) by (simp add: tpage_gc_def T(1) s1(1) w(1) s2_def [symmetric] tr(1) dftl_change_reserve_def upd_bm_def
        s'_def b_def) (simp add: s2_def same)
  have s': "bmgr s' = b" "dev s' = d3" "t_active s' = Some R" "t_reserve s' = Some T" "env (cache s') = env (cache s)"
    "tmap s' = placed_at (R * PPS) xs (tmap s)"
    by (simp_all add: s'_def s2_def)
  have part: "part b = (part ?b)(MAP_S := (part ?b MAP_S)\<lparr>sblk_rsv := T\<rparr>)"
    by (simp add: b_def f b1)
  have wp: "wp_offt (sblk b k) = (if k = T then 0 else if k = R then length xs else wp_offt (sblk ?b k))" for k
    using f(7) [of k] f(8) T(3) by (simp add: b_def b1)
  have bits: "valid_bitmap b g = (valid_bitmap ?b g \<and> SBLK_IDX (g div GRAIN_PER_PAGE) \<noteq> T \<or>
      seen R (length xs) (g div GRAIN_PER_PAGE))" for g
    by (simp add: b_def f s1(5))
  have in_R: "SBLK_IDX p = R" if "seen R (length xs) p" for p
    using that short by (auto simp: seen_def SBLK_IDX_def settings)
  have "cnt_ok b"
  proof (rule trimmed_cnt_ok [OF f(4), of T])
    show "dead_sblk b2 T"
      using in_R T(3) by (auto simp: dead_sblk_def f s1(5))
  qed (simp_all add: b_def)
  moreover have "oob_of_page b p = (if seen R (length xs) p then xs ! (p - R * PPS) else oob_of_page ?b p)" if "SBLK_IDX p \<noteq> T" for p
  proof -
    have "\<not> z (p * GRAIN_PER_PAGE)"
      using that by (auto simp: z_def SBLK_OFFT2PPA_def SBLK_IDX_def settings)
    then show ?thesis
      by (simp add: oob_of_page_def b_def f b1 tpage_oob_def)
  qed
  ultimately have pages': "map_pages s'"
    using short bits wp
    by (intro relocate_pages [OF pages _ s'(5) T(2) R(2) T(3) dead xs_def _ s'(6)]) (simp_all add: s'(1))
  have "fresh_set s' = {}"
    using full R(1) T(2,3) by (auto simp: fresh_set_def s' wp settings)
  moreover have "fresh_set s = {}"
    using full by (auto simp: fresh_set_def settings)
  ultimately have pool': "map_pool s'"
    using pl(1,2,7) T(2,3) R short full unfolding map_pool_def
    by (auto simp: s' part wp)
  have "map_dev s'"
    using tr(2,3) w(4) wpd by (simp add: map_dev_def s' wp)
  moreover have "moved s s'"
  proof -
    have "placed_at (R * PPS) xs (tmap s) i = UINT32_MAX" if "tmap s i = UINT32_MAX" for i
    proof (cases "i \<in> set xs")
      case True
      then obtain p where "SBLK_IDX p = T" "page_valid ?b p" "oob_of_page ?b p = i"
        by (auto simp: xs_def set_tpages_of seen_full)
      then have "p = UINT32_MAX" "SBLK_IDX p \<le> map_end"
        using pg(9) [of p] T(2) that by auto
      then show ?thesis
        by (simp add: SBLK_IDX_def settings)
    qed (simp add: placed_at_other that)
    moreover have "s' = s\<lparr>bmgr := b, dev := d3, cache := retarget (placed_at (R * PPS) xs (tmap s)) (cache s),
        t_active := Some R, t_reserve := Some T\<rparr>"
      unfolding s'_def s2_def by (subst s1(2)) simp
    ultimately show ?thesis
      unfolding moved_def by (intro exI [of _ "placed_at (R * PPS) xs (tmap s)"]) (simp add: s'(1-4))
  qed
  ultimately show ?thesis
    using pool' pages' short T(3) by (simp add: run map_inv_def s' wp)
qed

section \<open>Opening a fresh superblock\<close>

lemma next_active_finds:
  assumes "s_sblk pt \<le> st" and "st \<le> e_sblk pt" and z: "s_sblk pt \<le> z" "z \<le> e_sblk pt" "z \<noteq> st" "P z"
  obtains k where "next_active P pt (Some st) = Some (Some k)" "s_sblk pt \<le> k" "k \<le> e_sblk pt" "k \<noteq> st" "P k"
proof (cases "find_range P (st + 1) (e_sblk pt)")
  case (Some k)
  with find_range_SomeD [OF Some] assms(1) show thesis
    by (intro that [of k]) (auto simp: next_active_def)
next
  case None
  have "\<not> st + 1 \<le> z"
    using find_range_NoneD [OF None, of z] z by auto
  then have "z < st" "z \<le> st - 1"
    using z(3) by auto
  then obtain k where "find_range P (s_sblk pt) (st - 1) = Some k" "s_sblk pt \<le> k" "k \<le> st - 1" "P k"
    using find_range_exists [of "s_sblk pt" z "st - 1" P] z by blast
  with None \<open>z < st\<close> assms(2) show thesis
    by (intro that [of k]) (auto simp: next_active_def)
qed

lemma MAP_S_ne: "(MAP_S = DATA_S) = False"
  by (simp add: part_vals)

lemma get_active_map:
  assumes pool: "map_pool s" and full: "\<And>a. t_active s = Some a \<Longrightarrow> wp_offt (sblk (bmgr s) a) = PPS"
    and ne: "fresh_set s \<noteq> {}"
  obtains k where "k \<in> fresh_set s" "dftl_get_active_sblk MAP_S False (bmgr s) = Some (Some k,
    upd_part MAP_S (\<lambda>p. p\<lparr>active_sblk := Some k, free_sblk_cnt := free_sblk_cnt p - 1\<rparr>) (bmgr s))"
proof -
  let ?b = "bmgr s"
  let ?pt = "part ?b MAP_S"
  let ?P = "free_for_map ?b ?pt"
  note pl = map_poolD [OF pool]
  have shape: "k \<in> fresh_set s" if "k \<le> map_end" "?P k" "Some k \<noteq> t_active s" for k
    using that pl(3) pl(6) [of k] by (auto simp: fresh_set_def free_for_map_def dftl_check_full_def SBLK_END_def)
  have free: "?P k" "k \<le> map_end" "Some k \<noteq> t_active s" if "k \<in> fresh_set s" for k
    using that pl(3) by (auto simp: fresh_set_def free_for_map_def dftl_check_full_def settings)
  have act: "active_sblk ?pt = t_active s"
    using pl(8) ne .
  define start where "start = (case active_sblk ?pt of Some k \<Rightarrow> Some k | None \<Rightarrow> find_range ?P (s_sblk ?pt) (e_sblk ?pt))"
  have "\<exists>st z. start = Some st \<and> st \<le> map_end \<and> z \<in> fresh_set s \<and> z \<noteq> st \<and> (\<forall>k. t_active s = Some k \<longrightarrow> k = st)"
  proof (cases "t_active s")
    case (Some a)
    then have "a \<le> map_end"
      using pool by (simp add: map_pool_def Let_def)
    with Some ne free show ?thesis
      by (auto simp: start_def act)
  next
    case None
    then have zero: "\<And>k. k \<le> map_end \<Longrightarrow> wp_offt (sblk ?b k) = 0"
      using pool by (simp add: map_pool_def Let_def)
    have fr: "fresh_set s = {..map_end} - {sblk_rsv ?pt}"
      using zero pl(3) None by (auto simp: fresh_set_def)
    then have "2 \<le> card (fresh_set s)"
      using pl(4) by (simp add: settings)
    then obtain x y where xy: "x \<in> fresh_set s" "y \<in> fresh_set s" "x \<noteq> y"
      by (rule two_members)
    obtain st where "start = Some st" "st \<le> map_end"
      using find_range_exists [of 0 x map_end ?P] free [OF xy(1)] pl(1,2) None by (auto simp: start_def act)
    with xy None show ?thesis
      by (metis option.distinct(1))
  qed
  then obtain st z where st: "start = Some st" "st \<le> map_end" "z \<in> fresh_set s" "z \<noteq> st" "\<And>k. t_active s = Some k \<Longrightarrow> k = st"
    by blast
  obtain k where k: "next_active ?P ?pt (Some st) = Some (Some k)" "k \<le> map_end" "k \<noteq> st" "?P k"
    using next_active_finds [of ?pt st z ?P] st free [OF st(3)] pl(1,2) by auto
  then have "k \<in> fresh_set s"
    using st(5) by (intro shape) auto
  moreover from this have "wp_offt (sblk ?b k) = 0"
    by (simp add: fresh_set_def)
  ultimately show thesis
    using k(1) st(1) by (intro that [of k]) (simp_all add: dftl_get_active_sblk_def Let_def upd_part_def start_def [symmetric] MAP_S_ne)
qed

lemma open_fresh:
  assumes inv: "map_inv s" and k: "k \<in> fresh_set s" and full: "\<And>a. t_active s = Some a \<Longrightarrow> wp_offt (sblk (bmgr s) a) = PPS"
  shows "map_inv (s\<lparr>bmgr := upd_part MAP_S (\<lambda>p. p\<lparr>active_sblk := Some k, free_sblk_cnt := free_sblk_cnt p - 1\<rparr>) (bmgr s),
    t_active := Some k\<rparr>)" (is "map_inv ?s")
proof -
  have pool: "map_pool s"
    using inv by (simp add: map_inv_def)
  note pl = map_poolD [OF pool]
  have kk: "k \<le> map_end" "Some k \<noteq> t_active s" "k \<noteq> sblk_rsv (part (bmgr s) MAP_S)" "wp_offt (sblk (bmgr s) k) = 0"
    using k pl(3) by (auto simp: fresh_set_def)
  have act: "wp_offt (sblk (bmgr s) j) = 0 \<or> wp_offt (sblk (bmgr s) j) = PPS" if "j \<le> map_end" for j
    using pl(6) [OF that] full [of j] by metis
  have fresh: "fresh_set ?s = fresh_set s - {k}"
    using full by (auto simp: fresh_set_def settings)
  have "card (fresh_set s) = Suc (card (fresh_set s - {k}))"
    by (rule card.remove [OF finite_fresh_set k])
  then have "map_pool ?s"
    using pl(1-5,7) kk act unfolding map_pool_def fresh by (auto simp: upd_part_def)
  moreover have "map_pages ?s" "map_dev ?s"
    using inv by (simp_all add: map_inv_def map_pages_def map_dev_def page_valid_def whole_page_def oob_of_page_def cnt_ok_def
        valid_grains_def tmap_def the_cmt_def)
  ultimately show ?thesis
    by (simp add: map_inv_def)
qed

section \<open>Allocating a translation page\<close>

lemma moved_refl [simp]: "moved s s"
  unfolding moved_def by (intro exI [of _ "tmap s"]) simp

lemma card_fresh_le: "card (fresh_set s) \<le> 59"
proof -
  have "card (fresh_set s) \<le> card {..map_end}"
    by (rule card_mono) (auto simp: fresh_set_def)
  then show ?thesis
    by (simp add: settings)
qed

lemma gc_not_needed:
  assumes "map_pool s"
  shows "dftl_isgc_needed (bmgr s) MAP_S \<longleftrightarrow> fresh_set s = {}"
proof -
  have "unat (free_sblk_cnt (part (bmgr s) MAP_S)) = 1 + card (fresh_set s)"
    using map_poolD(7) [OF assms] card_fresh_le [of s] by (simp add: unat_of_nat del: of_nat_add of_nat_Suc)
  then show ?thesis
    by (simp add: dftl_isgc_needed_def MAP_S_ne)
qed

lemma PPS_pos: "0 < PPS"
  by (simp add: settings)

lemma tp_alloc_returns:
  assumes inv: "map_inv s" and lat: "backlog now (dev s) m" "m + PPS * NAND_READ_LATENCY < 2 ^ 32 - 1"
  shows "returns (tp_alloc now s) (\<lambda>(p, s'). \<exists>s0 k. map_inv s0 \<and> moved s s0 \<and> t_active s0 = Some k \<and>
    wp_offt (sblk (bmgr s0) k) < PPS \<and> p = SBLK_OFFT2PPA k (wp_offt (sblk (bmgr s0) k)) \<and>
    s' = s0\<lparr>bmgr := upd_sblk k (\<lambda>x. x\<lparr>wp_offt := wp_offt x + 1\<rparr>) (bmgr s0)\<rparr>)"
proof -
  let ?need = "case t_active s of None \<Rightarrow> True | Some k \<Rightarrow> dftl_check_full (bmgr s) k"
  have pool: "map_pool s"
    using inv by (simp add: map_inv_def)
  have full: "wp_offt (sblk (bmgr s) a) = PPS" if ?need "t_active s = Some a" for a
    using pool that by (auto simp: map_pool_def Let_def dftl_check_full_def SBLK_END_def)
  let ?open = "(if ?need then
              (if dftl_isgc_needed (bmgr s) MAP_S then map_option snd (tpage_gc now s)
               else do {
                 (k, b) \<leftarrow> dftl_get_active_sblk MAP_S False (bmgr s);
                 Some (s\<lparr>bmgr := b, t_active := k\<rparr>)
               })
            else Some s)"
  have "returns ?open (\<lambda>s0. map_inv s0 \<and> moved s s0 \<and> (\<exists>k. t_active s0 = Some k \<and> wp_offt (sblk (bmgr s0) k) < PPS))"
  proof (cases ?need)
    case False
    then show ?thesis
      using inv by (auto simp: dftl_check_full_def SBLK_END_def split: option.splits)
  next
    case True
    show ?thesis
    proof (cases "fresh_set s = {}")
      case True
      have "wp_offt (sblk (bmgr s) k) = PPS" if "k \<le> map_end" "t_reserve s \<noteq> Some k" for k
      proof (cases "t_active s = Some k")
        case False
        then have "wp_offt (sblk (bmgr s) k) \<noteq> 0"
          using True that by (auto simp: fresh_set_def)
        with False map_poolD(6) [OF pool that(1)] show ?thesis by auto
      qed (rule full [OF \<open>?need\<close>])
      from tpage_gc_returns [OF inv this lat] show ?thesis
        using \<open>?need\<close> True gc_not_needed [OF pool] by (auto elim!: returnsE)
    next
      case False
      obtain k where k: "k \<in> fresh_set s" "dftl_get_active_sblk MAP_S False (bmgr s) = Some (Some k,
        upd_part MAP_S (\<lambda>p. p\<lparr>active_sblk := Some k, free_sblk_cnt := free_sblk_cnt p - 1\<rparr>) (bmgr s))"
        using get_active_map [OF pool full [OF True] False] by blast
      let ?s = "s\<lparr>bmgr := upd_part MAP_S (\<lambda>p. p\<lparr>active_sblk := Some k, free_sblk_cnt := free_sblk_cnt p - 1\<rparr>) (bmgr s),
        t_active := Some k\<rparr>"
      have "moved s ?s"
        unfolding moved_def by (intro exI [of _ "tmap s"]) simp
      moreover have wp: "wp_offt (sblk (bmgr s) k) = 0"
        using k(1) by (simp add: fresh_set_def)
      ultimately show ?thesis
        using True gc_not_needed [OF pool] k(2) open_fresh [OF inv k(1) full [OF True]] wp
        by (simp add: False PPS_pos)
    qed
  qed
  then obtain s0 k where o: "?open = Some s0" "map_inv s0" "moved s s0" "t_active s0 = Some k" "wp_offt (sblk (bmgr s0) k) < PPS"
    by (auto elim!: returnsE simp del: bind_eq_Some_conv map_option_eq_Some)
  have "tp_alloc now s = Some (SBLK_OFFT2PPA k (wp_offt (sblk (bmgr s0) k)),
      s0\<lparr>bmgr := upd_sblk k (\<lambda>x. x\<lparr>wp_offt := wp_offt x + 1\<rparr>) (bmgr s0)\<rparr>)"
    unfolding tp_alloc_def o(1) by (simp add: o(4) dftl_get_page_num_def)
  with o(2-) show ?thesis
    by auto
qed

section \<open>Placing a mapping page\<close>

lemma place_map_page:
  assumes inv: "map_inv s" and k: "t_active s = Some k" "wp_offt (sblk (bmgr s) k) < PPS"
    and p: "p = SBLK_OFFT2PPA k (wp_offt (sblk (bmgr s) k))"
    and i: "i < nr_valid_tpages (env (cache s))" "tmap s i = UINT32_MAX"
    and b: "bmgr s' = (set_page True p (upd_sblk k (\<lambda>x. x\<lparr>wp_offt := wp_offt x + 1\<rparr>) (bmgr s)))
      \<lparr>oob := (oob (bmgr s))(p * GRAIN_PER_PAGE := tpage_oob i)\<rparr>"
    and d: "dev_ok (dev s')" "line_wp (dev s') = (line_wp (dev s))(k := wp_offt (sblk (bmgr s) k) + 1)"
    and same: "tmap s' = (tmap s)(i := p)" "env (cache s') = env (cache s)" "t_active s' = Some k" "t_reserve s' = t_reserve s"
  shows "map_inv s'"
proof -
  have pool: "map_pool s" and pages: "map_pages s" and wpd: "\<And>k. k \<le> map_end \<Longrightarrow> line_wp (dev s) k = wp_offt (sblk (bmgr s) k)"
    using inv by (auto simp: map_inv_def map_dev_def)
  note pl = map_poolD [OF pool] and pg = map_pagesD [OF pages]
  have kk: "k \<le> map_end" "k \<noteq> sblk_rsv (part (bmgr s) MAP_S)"
    using pool k(1) by (auto simp: map_pool_def Let_def)
  have pk: "SBLK_IDX p = k" "p mod PPS = wp_offt (sblk (bmgr s) k)"
    using k(2) by (simp_all add: p SBLK_OFFT2PPA_def SBLK_of_page)
  have wp: "wp_offt (sblk (bmgr s') j) = (if j = k then wp_offt (sblk (bmgr s) k) + 1 else wp_offt (sblk (bmgr s) j))" for j
    by (simp add: b)
  have new: "\<not> page_valid (bmgr s) p"
    using pg(7) [of p] kk(1) pk by auto
  have pv: "page_valid (bmgr s') q = (q = p \<or> page_valid (bmgr s) q)" for q
    by (simp add: page_valid_def b set_page_bitmap GRAIN_PER_PAGE_val)
  have ob: "oob_of_page (bmgr s') q = (if q = p then i else oob_of_page (bmgr s) q)" for q
    by (simp add: oob_of_page_def b tpage_oob_def GRAIN_PER_PAGE_val)
  have whole: "whole_page (bmgr s') q" if "SBLK_IDX q \<le> map_end" for q
    using pg(3) [OF that] by (simp add: whole_page_def pv) (simp add: b set_page_bitmap)
  have "cnt_ok (set_page True p (upd_sblk k (\<lambda>x. x\<lparr>wp_offt := wp_offt x + 1\<rparr>) (bmgr s)))"
  proof (rule cnt_ok_set_page_valid)
    show "cnt_ok (upd_sblk k (\<lambda>x. x\<lparr>wp_offt := wp_offt x + 1\<rparr>) (bmgr s))"
      using pg(1) by (simp add: cnt_ok_def valid_grains_def)
  qed (use pg(3) [of p] kk(1) pk(1) new in \<open>simp_all add: whole_page_def page_valid_def\<close>)
  then have cnt: "cnt_ok (bmgr s')"
    by (simp add: b cnt_ok_def valid_grains_def)
  have not_p: "tmap s j \<noteq> p" if "j < nr_valid_tpages (env (cache s))" "tmap s j \<noteq> UINT32_MAX" for j
    using pg(5) [OF that] new by auto
  have one: "SBLK_IDX (tmap s' j) \<le> map_end \<and> page_valid (bmgr s') (tmap s' j) \<and> oob_of_page (bmgr s') (tmap s' j) = j"
    if "j < nr_valid_tpages (env (cache s))" "tmap s' j \<noteq> UINT32_MAX" for j
  proof (cases "j = i")
    case True
    then show ?thesis
      using kk pk by (simp add: same pv ob)
  next
    case False
    then have "tmap s' j = tmap s j" "tmap s j \<noteq> UINT32_MAX"
      using that by (simp_all add: same)
    then show ?thesis
      using pg(4-6) [OF that(1)] not_p [OF that(1)] by (simp add: pv ob)
  qed
  have two: "q mod PPS < wp_offt (sblk (bmgr s') (SBLK_IDX q)) \<and> oob_of_page (bmgr s') q < nr_valid_tpages (env (cache s)) \<and>
      tmap s' (oob_of_page (bmgr s') q) = q" if q: "SBLK_IDX q \<le> map_end" "page_valid (bmgr s') q" for q
  proof (cases "q = p")
    case True
    then show ?thesis
      using i(1) pk by (simp add: ob wp same)
  next
    case False
    with q pv have old: "page_valid (bmgr s) q"
      by simp
    have "oob_of_page (bmgr s) q \<noteq> i"
    proof
      assume "oob_of_page (bmgr s) q = i"
      then have "q = UINT32_MAX"
        using pg(9) [OF q(1) old] i(2) by simp
      then show False
        using q(1) by (simp add: SBLK_IDX_def settings)
    qed
    then show ?thesis
      using pg(7-9) [OF q(1) old] False pk(1) by (auto simp: ob wp same)
  qed
  have pages': "map_pages s'"
    unfolding map_pages_def same(2) using cnt pg(2) whole one two by blast
  have part: "part (bmgr s') = part (bmgr s)"
    by (simp add: b)
  have "fresh_set s' = fresh_set s"
    using k(1) by (auto simp: fresh_set_def same wp)
  then have "map_pool s'"
    using pool k kk unfolding map_pool_def by (auto simp: part same wp)
  moreover have "map_dev s'"
    using d wpd kk(1) by (simp add: map_dev_def wp)
  ultimately show ?thesis
    using pages' by (simp add: map_inv_def)
qed

section \<open>The mapping table with its dirty flags\<close>

text \<open>A page that differs from its flash copy has none.\<close>

definition map_ok :: "sys \<Rightarrow> bool" where
  "map_ok s \<longleftrightarrow> map_inv s \<and> (\<forall>i < nr_valid_tpages (env (cache s)).
     cmt_idx (the_cmt s i) = i \<and> (cmt_dirty (the_cmt s i) \<longrightarrow> tmap s i = UINT32_MAX))"

text \<open>The part of the state that matters here.\<close>

definition view :: "sys \<Rightarrow> bm \<times> ssd \<times> (nat \<Rightarrow> cmt) \<times> cache_env \<times> nat option \<times> nat option" where
  "view s = (bmgr s, dev s, cmts (member (cache s)), env (cache s), t_active s, t_reserve s)"

lemma view_D:
  assumes "view s' = view s"
  shows "bmgr s' = bmgr s" and "dev s' = dev s" and "the_cmt s' = the_cmt s" and "tmap s' = tmap s"
    and "env (cache s') = env (cache s)" and "t_active s' = t_active s" and "t_reserve s' = t_reserve s"
  using assms by (auto simp: view_def the_cmt_def tmap_def fun_eq_iff)

lemma map_ok_cong:
  assumes "view s' = view s"
  shows "map_ok s' = map_ok s"
  by (simp add: map_ok_def map_inv_def map_pool_def map_pages_def map_dev_def fresh_set_def view_D [OF assms])

lemma view_more [simp]: "view (s\<lparr>reqs := q, wb := w\<rparr>) = view s" "view (upd_cache (upd_stat g) s) = view s"
  by (simp_all add: view_def upd_cache_def upd_stat_def)

text \<open>Marking the request or write buffer entry that waits.\<close>

definition io_live :: "io \<Rightarrow> sys \<Rightarrow> bool" where
  "io_live i s \<longleftrightarrow> (case i of Req r \<Rightarrow> reqs s r \<noteq> None | Wbe e \<Rightarrow> cells (sl_mem (wb s)) e \<noteq> None)"

lemma set_etime_live:
  assumes "io_live i s"
  shows "\<exists>s'. set_etime i now lat s = Some s' \<and> s' = s\<lparr>reqs := reqs s', wb := wb s'\<rparr> \<and> io_live i s'"
  using assms by (cases i) (auto simp: io_live_def set_etime_def modify_req_def modify_wbe_def modify_def)

lemma get_iparams_live:
  assumes "io_live i s"
  shows "\<exists>s'. get_iparams i j s = Some s' \<and> s' = s\<lparr>reqs := reqs s', wb := wb s'\<rparr> \<and> io_live i s'"
  using assms by (cases i) (auto simp: io_live_def get_iparams_def modify_req_def modify_wbe_def modify_def)

text \<open>An eviction of a dirty page: it is written, its location is set, the invariant is kept.\<close>

lemma io_live_cong: "io_live i s \<Longrightarrow> reqs s' = reqs s \<Longrightarrow> wb s' = wb s \<Longrightarrow> io_live i s'"
  by (cases i) (auto simp: io_live_def)

lemma evict_write_returns:
  assumes ok: "map_ok s" and v: "v < nr_valid_tpages (env (cache s))" "cmt_dirty (the_cmt s v)" and live: "io_live i s"
    and lat: "backlog now (dev s) m" "m + PPS * NAND_READ_LATENCY < 2 ^ 32 - 1"
  shows "returns (evict_write now v i s) (\<lambda>s'. map_ok s' \<and> tmap s' v \<noteq> UINT32_MAX \<and> \<not> cmt_dirty (the_cmt s' v))"
proof -
  define s1 where "s1 = upd_cache (upd_stat (\<lambda>t. t\<lparr>dirty_evict := dirty_evict t + 1\<rparr>)) s"
  have "io_live i s1"
    by (rule io_live_cong [OF live]) (simp_all add: s1_def upd_cache_def)
  then obtain s2 where s2: "get_iparams i GOTO_COMPLETE s1 = Some s2" "s2 = s1\<lparr>reqs := reqs s2, wb := wb s2\<rparr>" "io_live i s2"
    using get_iparams_live by blast
  have "view s2 = view s"
    by (subst s2(2)) (simp add: s1_def)
  note v2 = view_D [OF this] and ok2 = map_ok_cong [OF this]
  have inv2: "map_inv s2"
    using ok ok2 by (simp add: map_ok_def)
  obtain s0 k where a: "map_inv s0" "moved s2 s0" "t_active s0 = Some k" "wp_offt (sblk (bmgr s0) k) < PPS"
    "tp_alloc now s2 = Some (SBLK_OFFT2PPA k (wp_offt (sblk (bmgr s0) k)),
       s0\<lparr>bmgr := upd_sblk k (\<lambda>x. x\<lparr>wp_offt := wp_offt x + 1\<rparr>) (bmgr s0)\<rparr>)"
    using tp_alloc_returns [OF inv2 _ lat(2), of now] lat(1) by (auto simp: v2 elim!: returnsE)
  obtain f where f: "s0 = s2\<lparr>bmgr := bmgr s0, dev := dev s0, cache := retarget f (cache s2),
      t_active := t_active s0, t_reserve := t_reserve s0\<rparr>" "\<And>i. tmap s2 i = UINT32_MAX \<Longrightarrow> f i = UINT32_MAX"
    using a(2) by (auto simp: moved_def)
  have cache0: "cache s0 = retarget f (cache s2)"
    by (subst f(1)) simp
  have rw0: "reqs s0 = reqs s2" "wb s0 = wb s2"
    by (subst f(1), simp)+
  have c0: "the_cmt s0 j = (the_cmt s j)\<lparr>t_ppa := f j\<rparr>" "tmap s0 = f" "env (cache s0) = env (cache s)" for j
    unfolding v2(3) [symmetric] v2(5) [symmetric] by (simp_all add: the_cmt_def tmap_def cache0 retarget_def upd_member_def fun_eq_iff)
  define p where "p = SBLK_OFFT2PPA k (wp_offt (sblk (bmgr s0) k))"
  define b where "b = set_page True p (upd_sblk k (\<lambda>x. x\<lparr>wp_offt := wp_offt x + 1\<rparr>) (bmgr s0))"
  have kk: "k \<le> map_end" "k < NOS" "line_wp (dev s0) k = wp_offt (sblk (bmgr s0) k)" "dev_ok (dev s0)"
    using a(1,3) map_end_NOS by (auto simp: map_inv_def map_pool_def map_dev_def Let_def)
  have po: "page_ok p" "SBLK_IDX p = k"
    using kk a(4) SBLK_of_page [of _ k] by (simp_all add: p_def SBLK_OFFT2PPA_def page_ok_sblk)
  define s6 where "s6 = upd_cmt_at v (\<lambda>x. x\<lparr>cmt_dirty := False\<rparr>) (upd_cmt_at v (\<lambda>x. x\<lparr>t_ppa := p\<rparr>) (s0\<lparr>bmgr := b\<rparr>))"
  have v6: "bmgr s6 = b" "dev s6 = dev s0" "env (cache s6) = env (cache s)" "t_active s6 = t_active s0" "t_reserve s6 = t_reserve s0"
    "the_cmt s6 j = (if j = v then (the_cmt s v)\<lparr>t_ppa := p, cmt_dirty := False\<rparr> else (the_cmt s j)\<lparr>t_ppa := f j\<rparr>)" for j
    using c0 by (auto simp: s6_def upd_cmt_at_def upd_cache_def the_cmt_def)
  obtain lat d7 where d7: "li_write now p PAGESIZE s6 = Some (lat, s6\<lparr>dev := d7\<rparr>)" "dev_ok d7"
    "line_wp d7 = (line_wp (dev s0))(k := wp_offt (sblk (bmgr s0) k) + 1)"
    using li_write_ok [of s6 k 1 now] kk a(4) by (auto simp: v6 p_def SBLK_OFFT2PPA_def)
  have "io_live i (s6\<lparr>dev := d7\<rparr>)"
    by (rule io_live_cong [OF s2(3)]) (simp_all add: s6_def upd_cmt_at_def upd_cache_def rw0)
  then obtain s8 where s8: "set_etime i now lat (s6\<lparr>dev := d7\<rparr>) = Some s8"
    "s8 = s6\<lparr>dev := d7, reqs := reqs s8, wb := wb s8\<rparr>"
    using set_etime_live by force
  have v8: "bmgr s8 = b" "dev s8 = d7" "env (cache s8) = env (cache s)" "t_active s8 = t_active s0" "t_reserve s8 = t_reserve s0"
    "the_cmt s8 = the_cmt s6"
    by (subst s8(2), simp add: v6 the_cmt_def fun_eq_iff)+
  define s9 where "s9 = s8\<lparr>bmgr := b\<lparr>oob := (oob (bmgr s0))(p * GRAIN_PER_PAGE := tpage_oob v)\<rparr>\<rparr>"
  have v9: "dev s9 = d7" "env (cache s9) = env (cache s)" "t_active s9 = Some k" "t_reserve s9 = t_reserve s0"
    "the_cmt s9 = the_cmt s6" "tmap s9 = (tmap s0)(v := p)"
    using v8 a(3) by (auto simp: s9_def the_cmt_def tmap_def fun_eq_iff c0(2) v6(6) [unfolded the_cmt_def])
  have idx: "cmt_idx (the_cmt s6 v) = v"
    using ok v(1) by (simp add: v6 map_ok_def)
  have ob: "oob b = oob (bmgr s0)"
    by (simp add: b_def)
  let ?s3 = "s0\<lparr>bmgr := upd_sblk k (\<lambda>x. x\<lparr>wp_offt := wp_offt x + 1\<rparr>) (bmgr s0)\<rparr>"
  have st5: "on_bm (dftl_validate_page p) (upd_cmt_at v (\<lambda>x. x\<lparr>t_ppa := p\<rparr>) ?s3) = Some (upd_cmt_at v (\<lambda>x. x\<lparr>t_ppa := p\<rparr>) (s0\<lparr>bmgr := b\<rparr>))"
    by (simp add: on_bm_def upd_cmt_at_def upd_cache_def dftl_validate_page_eq [OF po(1)] b_def)
  have st9: "on_bm (dftl_bm_set_oob (p * GRAIN_PER_PAGE) (tpage_oob v)) s8 = Some s9"
    using grain_ok_page [of 0 p] grain_ok_bounds(1) [of "p * GRAIN_PER_PAGE"] po(1)
    by (simp add: on_bm_def dftl_bm_set_oob_def v8 s9_def ob settings)
  have "evict_write now v i s = (do {
     (lat, s7) \<leftarrow> li_write now p PAGESIZE s6;
     s8 \<leftarrow> set_etime i now lat s7;
     on_bm (dftl_bm_set_oob (p * GRAIN_PER_PAGE) (tpage_oob (cmt_idx (the_cmt s8 v)))) s8 })"
    unfolding evict_write_def Let_def s1_def [symmetric] s2(1) Option.bind_lunit a(5) p_def [symmetric] prod.case st5 s6_def by (rule refl)
  also have "\<dots> = Some s9"
    unfolding d7(1) Option.bind_lunit prod.case s8(1) v8(6) idx by (rule st9)
  finally have run: "evict_write now v i s = Some s9" .
  have fv: "f v = UINT32_MAX"
    using ok v f(2) [of v] by (simp add: map_ok_def v2)
  have "map_inv s9"
    using a(4) p_def v(1) v9 d7 c0(2) fv
    by (intro place_map_page [OF a(1,3,4) p_def, of v s9]) (auto simp: s9_def b_def c0 v2)
  moreover have "cmt_idx (the_cmt s9 j) = j \<and> (cmt_dirty (the_cmt s9 j) \<longrightarrow> tmap s9 j = UINT32_MAX)"
    if "j < nr_valid_tpages (env (cache s9))" for j
    using that ok f(2) [of j] by (auto simp: v9 v6 map_ok_def c0 v2)
  moreover have "p \<noteq> UINT32_MAX"
    using po(2) kk(1) by (auto simp: SBLK_IDX_def settings)
  ultimately show ?thesis
    by (simp add: run map_ok_def v9 v6)
qed

end
