(* ===== verification/Maptab.thy ===== *)
theory Maptab
  imports Mapinv
begin

text \<open>
  The mapping table over its life: the state after start-up, updates of entries, evictions, and the
  updates after a collection of data keep the translation pages on flash correct.
\<close>

section \<open>Start-up\<close>

lemma get_active_data_map:
  "dftl_get_active_sblk DATA_S r b = Some (act, b') \<Longrightarrow> part b' MAP_S = part b MAP_S"
  by (auto simp: dftl_get_active_sblk_def Let_def part_vals bind_Some_iff split: if_splits option.splits)

lemma init_reserve_map: "fold init_reserve is r = Some b' \<Longrightarrow> \<exists>b. r = Some b \<and> part b' MAP_S = part b MAP_S"
proof (induction "is" arbitrary: r)
  case (Cons i "is")
  obtain b1 where b1: "init_reserve i r = Some b1" "part b' MAP_S = part b1 MAP_S"
    using Cons by force
  then show ?case
    by (auto simp: init_reserve_def bind_Some_iff MAP_S_ne dest!: get_active_data_map)
qed simp

lemma init_stream_map: "fold init_stream is r = Some b' \<Longrightarrow> \<exists>b. r = Some b \<and> part b' MAP_S = part b MAP_S"
proof (induction "is" arbitrary: r)
  case (Cons i "is")
  obtain b1 where b1: "init_stream i r = Some b1" "part b' MAP_S = part b1 MAP_S"
    using Cons by force
  then show ?case
    by (auto simp: init_stream_def bind_Some_iff MAP_S_ne Let_def dest!: get_active_data_map)
qed simp

lemma bm_init_map: "dftl_bm_init = Some b \<Longrightarrow> part b MAP_S = init_parts 0"
  unfolding dftl_bm_init_def by (auto simp: bm_blank_def MAP_S_def dest!: init_stream_map init_reserve_map)

lemma demand_create_map_ok:
  "returns (demand_create g keys0 (s\<lparr>dev := ssd_init\<rparr>)) (\<lambda>s'. map_ok s' \<and> dev s' = ssd_init \<and> reqs s' = reqs s \<and>
     member (cache s') = cache_member_init \<and> nr_valid_tpages (env (cache s')) = 699050)"
proof -
  obtain c where c: "dftl_cache_create = Some c" "member c = cache_member_init" "nr_valid_tpages (env c) = 699050"
    by (rule dftl_cache_create_val)
  obtain b where b: "dftl_bm_init = Some b" "all_empty b"
    by (rule dftl_bm_init_obtain)
  note part = bm_init_map [OF b(1)]
  define s' where "s' = (dftl_wb_init g (s\<lparr>dev := ssd_init, denv := demand_env_init\<rparr>))\<lparr>cache := c, bmgr := b,
    d_active := None, t_reserve := Some 0, t_active := None, req_retry_q := algo_q_create, finish_q := [], real_keys := keys0\<rparr>"
  have run: "demand_create g keys0 (s\<lparr>dev := ssd_init\<rparr>) = Some s'"
    using part by (simp add: demand_create_def c b s'_def dftl_wb_init_def dftl_page_init_def dftl_get_active_sblk_def part_vals init_parts_def)
  have v: "bmgr s' = b" "dev s' = ssd_init" "t_reserve s' = Some 0" "t_active s' = None" "member (cache s') = cache_member_init"
    "nr_valid_tpages (env (cache s')) = 699050" "reqs s' = reqs s"
    by (simp_all add: s'_def c dftl_wb_init_def)
  have wp: "wp_offt (sblk b k) = 0" for k
    using b(2) by (simp add: all_empty_def)
  have tm: "the_cmt s' i = blank_cmt i" "tmap s' i = UINT32_MAX" for i
    by (simp_all add: tmap_def the_cmt_def v cache_member_init_def blank_cmt_def)
  have "fresh_set s' = {1..58}"
    by (auto simp: fresh_set_def v wp settings)
  then have "map_pool s'"
    by (simp add: map_pool_def v wp part init_parts_def map_end_vals PPS_val NOS_val)
  moreover have "map_pages s'"
    using all_empty_cnt [OF b(2)] b(2) by (simp add: map_pages_def v tm page_valid_def whole_page_def all_empty_def settings)
  moreover have "map_dev s'"
    using dev_ok_init by (simp add: map_dev_def v wp ssd_init_def)
  ultimately show ?thesis
    by (simp add: run v map_ok_def map_inv_def tm) (simp add: blank_cmt_def)
qed

section \<open>Updating an entry\<close>

text \<open>The flash copy of a page is given up.\<close>

lemma drop_map_page:
  assumes inv: "map_inv s" and i: "i < nr_valid_tpages (env (cache s))" "tmap s i \<noteq> UINT32_MAX"
    and b: "bmgr s' = set_page False (tmap s i) (bmgr s)" and same: "tmap s' = (tmap s)(i := UINT32_MAX)"
    "dev s' = dev s" "env (cache s') = env (cache s)" "t_active s' = t_active s" "t_reserve s' = t_reserve s"
  shows "map_inv s'"
proof -
  have pages: "map_pages s"
    using inv by (simp add: map_inv_def)
  note pg = map_pagesD [OF pages]
  let ?p = "tmap s i"
  have pv: "page_valid (bmgr s') q = (page_valid (bmgr s) q \<and> q \<noteq> ?p)" for q
    by (simp add: b)
  have ob: "oob_of_page (bmgr s') q = oob_of_page (bmgr s) q" for q
    by (simp add: oob_of_page_def b)
  have wp: "wp_offt (sblk (bmgr s') k) = wp_offt (sblk (bmgr s) k)" and part: "part (bmgr s') = part (bmgr s)" for k
    by (simp_all add: b)
  have "cnt_ok (bmgr s')"
    unfolding b using pg(1,3) pg(4,5) [OF i] by (intro cnt_ok_set_page_valid) auto
  moreover have "whole_page (bmgr s') q" if "SBLK_IDX q \<le> map_end" for q
    unfolding b by (rule whole_page_set_page [OF pg(3) [OF that]])
  moreover have "SBLK_IDX (tmap s' j) \<le> map_end \<and> page_valid (bmgr s') (tmap s' j) \<and> oob_of_page (bmgr s') (tmap s' j) = j"
    if j: "j < nr_valid_tpages (env (cache s))" "tmap s' j \<noteq> UINT32_MAX" for j
  proof -
    have j': "j \<noteq> i" "tmap s j \<noteq> UINT32_MAX" "tmap s' j = tmap s j"
      using j by (auto simp: same split: if_splits)
    then have "tmap s j \<noteq> ?p"
      using pg(6) [OF i] pg(6) [OF j(1) j'(2)] by auto
    then show ?thesis
      using pg(4-6) [OF j(1) j'(2)] by (simp add: j'(3) pv ob)
  qed
  moreover have "q mod PPS < wp_offt (sblk (bmgr s) (SBLK_IDX q)) \<and> oob_of_page (bmgr s) q < nr_valid_tpages (env (cache s)) \<and>
      tmap s' (oob_of_page (bmgr s) q) = q" if q: "SBLK_IDX q \<le> map_end" "page_valid (bmgr s') q" for q
    using pg(7-9) [OF q(1)] q(2) by (auto simp: pv same)
  ultimately have "map_pages s'"
    unfolding map_pages_def same ob wp using pg(2) by blast
  moreover have "fresh_set s' = fresh_set s"
    by (simp add: fresh_set_def same wp)
  then have "map_pool s'" "map_dev s'"
    using inv by (simp_all add: map_inv_def map_pool_def map_dev_def same wp part)
  ultimately show ?thesis
    by (simp add: map_inv_def)
qed

text \<open>A resident page uses its own row and has a node in the list.\<close>

definition rows_ok :: "sys \<Rightarrow> bool" where
  "rows_ok s \<longleftrightarrow> (\<forall>i. cmt_pt (the_cmt s i) \<in> {None, Some i})"

definition listed :: "sys \<Rightarrow> nat \<Rightarrow> bool" where
  "listed s d \<longleftrightarrow> (\<exists>a us vs. lru_ptr (the_cmt s d) = Some a \<and> lru_rep (clru (member (cache s))) (us @ (a, Some d) # vs))"

lemma listed_update:
  assumes "listed s d"
  shows "\<exists>l. lru_update (clru (member (cache s))) (lru_ptr (the_cmt s d)) = Some l"
proof -
  obtain a us vs where a: "lru_ptr (the_cmt s d) = Some a" "lru_rep (clru (member (cache s))) (us @ (a, Some d) # vs)"
    using assms by (auto simp: listed_def)
  show ?thesis
    using lru_update_refines [OF a(2)] by (auto simp: a(1) elim: returnsE)
qed

lemma cache_idx_eq: "D_IDX l = D_IDX l' \<Longrightarrow> P_IDX l = P_IDX l' \<Longrightarrow> l = l'"
  by (metis D_IDX_def P_IDX_def div_mult_mod_eq)

text \<open>The row of the in-memory table that an address is read from.\<close>

definition pte_row :: "sys \<Rightarrow> lpa_t \<Rightarrow> nat" where
  "pte_row s lpa = (case cmt_pt (the_cmt s (D_IDX lpa)) of Some r \<Rightarrow> r | None \<Rightarrow> D_IDX lpa)"

lemma get_pte_row: "dftl_cache_get_pte lpa s = mem_table (member (cache s)) (pte_row s lpa) (P_IDX lpa)"
  by (simp add: dftl_cache_get_pte_def pte_row_def split: option.split)

lemma pte_row_ok: "rows_ok s \<Longrightarrow> pte_row s lpa = D_IDX lpa"
  unfolding rows_ok_def pte_row_def by (metis insertE option.simps(4,5) singletonD)

lemma cache_update_step:
  assumes ok: "map_ok s" and d: "D_IDX lpa < nr_valid_tpages (env (cache s))"
    and run: "dftl_cache_update lpa v s = Some s'"
  shows "map_ok s' \<and> (\<forall>i. cmt_pt (the_cmt s' i) = cmt_pt (the_cmt s i)) \<and> env (cache s') = env (cache s) \<and>
    mem_table (member (cache s')) = (mem_table (member (cache s)))
      (pte_row s lpa := (mem_table (member (cache s)) (pte_row s lpa))(P_IDX lpa := v)) \<and>
    (cmt_pt (the_cmt s (D_IDX lpa)) \<noteq> None \<longrightarrow> cmt_dirty (the_cmt s' (D_IDX lpa)) \<and> tmap s' (D_IDX lpa) = UINT32_MAX)"
proof (cases "cmt_pt (the_cmt s (D_IDX lpa))")
  case None
  then have s': "s' = upd_cache (upd_member (set_pte (D_IDX lpa) (P_IDX lpa) v)) s"
    using run by (simp add: dftl_cache_update_def Let_def)
  have "view s' = view s"
    by (simp add: s' view_def upd_cache_def upd_member_def set_pte_def)
  from map_ok_cong [OF this] view_D(3,5) [OF this] ok None show ?thesis
    by (simp add: pte_row_def) (simp add: s' upd_cache_def upd_member_def set_pte_def)
next
  case (Some row)
  let ?d = "D_IDX lpa"
  have inv: "map_inv s"
    using ok by (simp add: map_ok_def)
  define t where "t = tmap s ?d"
  have tp: "t_ppa (the_cmt s ?d) = t"
    by (simp add: t_def tmap_def)
  have dirty: "t = UINT32_MAX" if "cmt_dirty (the_cmt s ?d)"
    using ok d that by (simp add: map_ok_def t_def)
  define b where "b = (if t = UINT32_MAX then bmgr s else set_page False t (bmgr s))"
  have po: "page_ok t" if "t \<noteq> UINT32_MAX"
    using map_pagesD(4) [of s ?d] inv d that map_end_NOS by (simp add: map_inv_def t_def page_ok_sblk)
  let ?s1 = "upd_cache (upd_member (set_pte row (P_IDX lpa) v)) s"
  define s2 where "s2 = upd_cmt_at ?d (\<lambda>x. x\<lparr>t_ppa := UINT32_MAX\<rparr>) (?s1\<lparr>bmgr := b\<rparr>)"
  define s3 where "s3 = upd_cmt_at ?d (\<lambda>x. x\<lparr>cmt_dirty := True\<rparr>) s2"
  have step2: "(if \<not> IS_INITIAL_PPA (t_ppa (the_cmt s ?d)) \<and> \<not> cmt_dirty (the_cmt s ?d)
      then map_option (upd_cmt_at ?d (\<lambda>x. x\<lparr>t_ppa := UINT32_MAX\<rparr>)) (on_bm (dftl_invalidate_page (t_ppa (the_cmt s ?d))) ?s1)
      else Some ?s1) = Some s2"
  proof (cases "t = UINT32_MAX")
    case True
    have "(cmts (member (cache s)) ?d)\<lparr>t_ppa := UINT32_MAX\<rparr> = cmts (member (cache s)) ?d"
      using tp True by (simp add: the_cmt_def)
    then have "s2 = ?s1"
      by (simp add: s2_def b_def True upd_cmt_at_def upd_cache_def upd_member_def upd_cmt_def set_pte_def fun_upd_idem)
    then show ?thesis
      by (simp add: tp True IS_INITIAL_PPA_def)
  next
    case False
    with dirty po show ?thesis
      by (auto simp: tp IS_INITIAL_PPA_def s2_def b_def on_bm_def upd_cache_def dftl_invalidate_page_eq)
  qed
  obtain l where s': "s' = upd_cache (upd_member (\<lambda>m. m\<lparr>clru := l\<rparr>)) s3"
    using run unfolding dftl_cache_update_def Let_def Some option.case step2 Option.bind_lunit s3_def [symmetric]
    by (auto simp: bind_Some_iff)
  have v: "bmgr s' = b" "dev s' = dev s" "t_active s' = t_active s" "t_reserve s' = t_reserve s" "env (cache s') = env (cache s)"
    "the_cmt s' = (the_cmt s)(?d := (the_cmt s ?d)\<lparr>t_ppa := UINT32_MAX, cmt_dirty := True\<rparr>)"
    "mem_table (member (cache s')) = (mem_table (member (cache s)))(row := (mem_table (member (cache s)) row)(P_IDX lpa := v))"
    by (simp_all add: s' s3_def s2_def upd_cmt_at_def upd_cmt_def upd_cache_def upd_member_def set_pte_def the_cmt_def fun_eq_iff)
  have tm: "tmap s' = (tmap s)(?d := UINT32_MAX)"
    by (simp add: tmap_def v fun_eq_iff)
  have "map_inv s'"
  proof (cases "t = UINT32_MAX")
    case True
    then have "tmap s' = tmap s"
      by (simp add: tm t_def fun_upd_idem)
    then show ?thesis
      using inv True by (simp add: map_inv_def map_pool_def map_pages_def map_dev_def fresh_set_def v b_def)
  next
    case False
    then show ?thesis
      by (intro drop_map_page [OF inv d]) (simp_all add: v tm b_def t_def)
  qed
  with ok d show ?thesis
    by (simp add: map_ok_def v tm Some pte_row_def)
qed

lemma clru_frame [simp]:
  "clru (member (cache (s\<lparr>bmgr := b\<rparr>))) = clru (member (cache s))"
  "clru (member (cache (upd_cmt_at i f s))) = clru (member (cache s))"
  "clru (member (cache (upd_cache (upd_member (set_pte r p v)) s))) = clru (member (cache s))"
  by (simp_all add: upd_cmt_at_def upd_cache_def upd_member_def set_pte_def)

lemma cache_update_runs:
  assumes ok: "map_ok s" and d: "D_IDX lpa < nr_valid_tpages (env (cache s))"
    and l: "cmt_pt (the_cmt s (D_IDX lpa)) = None \<or> listed s (D_IDX lpa)"
  shows "\<exists>s'. dftl_cache_update lpa v s = Some s'"
proof (cases "cmt_pt (the_cmt s (D_IDX lpa))")
  case (Some row)
  then obtain l where l: "lru_update (clru (member (cache s))) (lru_ptr (the_cmt s (D_IDX lpa))) = Some l"
    using assms(3) listed_update by auto
  let ?t = "t_ppa (the_cmt s (D_IDX lpa))"
  have "page_ok ?t" if "?t \<noteq> UINT32_MAX"
    using map_pagesD(4) [of s "D_IDX lpa"] ok d that map_end_NOS by (simp add: map_ok_def map_inv_def tmap_def page_ok_sblk)
  then have inval: "\<exists>b. dftl_invalidate_page ?t (bmgr t) = Some b" if "\<not> IS_INITIAL_PPA ?t" for t
    using that by (simp add: IS_INITIAL_PPA_def dftl_invalidate_page_eq)
  show ?thesis
  proof (cases "\<not> IS_INITIAL_PPA ?t \<and> \<not> cmt_dirty (the_cmt s (D_IDX lpa))")
    case True
    then show ?thesis
      using inval [of "upd_cache (upd_member (set_pte row (P_IDX lpa) v)) s"]
      by (auto simp: dftl_cache_update_def Let_def Some on_bm_def l)
  next
    case False
    then show ?thesis
      unfolding dftl_cache_update_def Let_def by (auto simp: Some l)
  qed
qed (simp add: dftl_cache_update_def)

section \<open>Properties\<close>

text \<open>Every mapping page with a location is a written page that names it.\<close>

definition stored :: "sys \<Rightarrow> bool" where
  "stored s \<longleftrightarrow> (\<forall>i < nr_valid_tpages (env (cache s)). tmap s i \<noteq> UINT32_MAX \<longrightarrow>
     ppa_state (dev s) (tmap s i) \<and> page_valid (bmgr s) (tmap s i) \<and> oob_of_page (bmgr s) (tmap s i) = i)"

lemma map_ok_stored:
  assumes "map_ok s"
  shows "stored s"
proof -
  have pages: "map_pages s" and d: "dev_ok (dev s)"
    and wpd: "\<And>k. k \<le> map_end \<Longrightarrow> line_wp (dev s) k = wp_offt (sblk (bmgr s) k)"
    using assms by (auto simp: map_ok_def map_inv_def map_dev_def)
  note pg = map_pagesD [OF pages]
  have "ppa_state (dev s) p" if "SBLK_IDX p \<le> map_end" "page_valid (bmgr s) p" for p
  proof -
    have "p < NOS * PPS"
      using that(1) map_end_NOS page_ok_sblk [of p] by (simp add: page_ok_def)
    then show ?thesis
      using dev_ok_readable [OF d] pg(7) [OF that] wpd [OF that(1)] by simp
  qed
  with pg(4-6) show ?thesis
    by (simp add: stored_def)
qed

text \<open>
  C10. Writing back a dirty mapping page.  On a state whose translation pages are in order, the
  write of a dirty page by an eviction always succeeds, with the collection of a translation
  superblock where one is needed; afterwards the page is clean and has a location, the translation
  pages are in order again, and every mapping page with a location is a written and valid flash page
  that names it.  Flash work queued at the start must not exceed \<open>m\<close> ns, so that no read latency
  reaches the value taken for an error.
\<close>

theorem evict_write_stores:
  assumes "map_ok s" and "v < nr_valid_tpages (env (cache s))" and "cmt_dirty (the_cmt s v)" and "io_live i s"
    and "backlog now (dev s) m" and "m + PPS * NAND_READ_LATENCY < 2 ^ 32 - 1"
  shows "returns (evict_write now v i s) (\<lambda>s'. map_ok s' \<and> tmap s' v \<noteq> UINT32_MAX \<and>
    \<not> cmt_dirty (the_cmt s' v) \<and> stored s')"
  by (rule returns_mono [OF evict_write_returns [OF assms]]) (simp add: map_ok_stored)

lemma evict_write_stores_witness:
  "\<forall>s. returns (demand_create 0 (\<lambda>_. []) (s\<lparr>reqs := demo_reqs, dev := ssd_init\<rparr>)) (\<lambda>s0.
     returns (evict_write 5 3 (Req 0) (upd_cmt_at 3 (\<lambda>x. x\<lparr>cmt_dirty := True\<rparr>) s0)) (\<lambda>s1.
       tmap s1 3 \<noteq> UINT32_MAX \<and> stored s1))"
proof
  fix s :: sys
  obtain s0 where s0: "demand_create 0 (\<lambda>_. []) (s\<lparr>reqs := demo_reqs, dev := ssd_init\<rparr>) = Some s0" "map_ok s0"
    "dev s0 = ssd_init" "reqs s0 = demo_reqs" "member (cache s0) = cache_member_init" "nr_valid_tpages (env (cache s0)) = 699050"
    using demand_create_map_ok [of 0 "\<lambda>_. []" "s\<lparr>reqs := demo_reqs\<rparr>"] by (auto elim!: returnsE)
  let ?s = "upd_cmt_at 3 (\<lambda>x. x\<lparr>cmt_dirty := True\<rparr>) s0"
  have the: "the_cmt ?s i = (if i = 3 then (the_cmt s0 3)\<lparr>cmt_dirty := True\<rparr> else the_cmt s0 i)" for i
    by (simp add: upd_cmt_at_def upd_cache_def the_cmt_def)
  have tm: "tmap ?s = tmap s0" "tmap s0 3 = UINT32_MAX"
    by (auto simp: tmap_def the fun_eq_iff) (simp add: the_cmt_def s0(5) cache_member_init_def blank_cmt_def)
  have same: "bmgr ?s = bmgr s0" "dev ?s = ssd_init" "reqs ?s = demo_reqs" "t_active ?s = t_active s0" "t_reserve ?s = t_reserve s0"
    "env (cache ?s) = env (cache s0)"
    by (simp_all add: upd_cmt_at_def upd_cache_def s0)
  have "map_ok ?s"
    using s0(2) by (simp add: map_ok_def map_inv_def map_pool_def map_pages_def map_dev_def fresh_set_def the tm same s0(3))
  moreover have "backlog 5 (dev ?s) 0" "io_live (Req 0) ?s"
    by (simp_all add: same backlog_def ssd_init_def io_live_def demo_reqs_def)
  ultimately have "returns (evict_write 5 3 (Req 0) ?s) (\<lambda>s1. map_ok s1 \<and> tmap s1 3 \<noteq> UINT32_MAX \<and>
      \<not> cmt_dirty (the_cmt s1 3) \<and> stored s1)"
    by (intro evict_write_stores [where m = 0]) (simp_all add: the same s0(6) PPS_val NAND_READ_LATENCY_def)
  then show "returns (demand_create 0 (\<lambda>_. []) (s\<lparr>reqs := demo_reqs, dev := ssd_init\<rparr>)) (\<lambda>s0.
     returns (evict_write 5 3 (Req 0) (upd_cmt_at 3 (\<lambda>x. x\<lparr>cmt_dirty := True\<rparr>) s0)) (\<lambda>s1.
       tmap s1 3 \<noteq> UINT32_MAX \<and> stored s1))"
    by (simp add: s0(1)) (erule returns_mono, simp)
qed

text \<open>
  C22. The mapping cache is a map.  Updating the entry of an address on a state in order succeeds, when
  the page is either not resident or listed in the recency list; then the address reads back the new
  entry and every other address its old one, a resident page is dirty and has given up its flash
  copy, and the translation pages are still in order.
\<close>

theorem dftl_cache_update_get:
  assumes ok: "map_ok s" "rows_ok s" and d: "D_IDX lpa < nr_valid_tpages (env (cache s))"
    and l: "cmt_pt (the_cmt s (D_IDX lpa)) = None \<or> listed s (D_IDX lpa)"
  shows "returns (dftl_cache_update lpa v s) (\<lambda>s'. map_ok s' \<and> rows_ok s' \<and>
    (\<forall>a. dftl_cache_get_pte a s' = (if a = lpa then v else dftl_cache_get_pte a s)) \<and>
    (cmt_pt (the_cmt s (D_IDX lpa)) \<noteq> None \<longrightarrow>
       cmt_dirty (the_cmt s' (D_IDX lpa)) \<and> tmap s' (D_IDX lpa) = UINT32_MAX))"
proof -
  obtain s' where run: "dftl_cache_update lpa v s = Some s'"
    using cache_update_runs [OF ok(1) d l] by blast
  note st = cache_update_step [OF ok(1) d run]
  have rows: "rows_ok s'"
    using ok(2) st by (simp add: rows_ok_def)
  have "dftl_cache_get_pte a s' = (if a = lpa then v else dftl_cache_get_pte a s)" for a
    using st cache_idx_eq [of a lpa]
    by (auto simp: get_pte_row pte_row_ok [OF rows] pte_row_ok [OF ok(2)])
  with st rows show ?thesis
    by (simp add: run)
qed


lemma dftl_cache_update_get_witness:
  "\<forall>s. returns (demand_create 0 (\<lambda>_. []) (s\<lparr>reqs := demo_reqs, dev := ssd_init\<rparr>)) (\<lambda>s0.
     returns (dftl_cache_update 515 \<lparr>pte_ppa = 9, pte_fp = 4\<rparr> s0) (\<lambda>s1.
       dftl_cache_get_pte 515 s1 = \<lparr>pte_ppa = 9, pte_fp = 4\<rparr> \<and> pte_ppa (dftl_cache_get_pte 3 s1) = UINT32_MAX))"
proof
  fix s :: sys
  obtain s0 where s0: "demand_create 0 (\<lambda>_. []) (s\<lparr>reqs := demo_reqs, dev := ssd_init\<rparr>) = Some s0" "map_ok s0"
    "member (cache s0) = cache_member_init" "nr_valid_tpages (env (cache s0)) = 699050"
    using demand_create_map_ok [of 0 "\<lambda>_. []" "s\<lparr>reqs := demo_reqs\<rparr>"] by (auto elim!: returnsE)
  have none: "cmt_pt (the_cmt s0 i) = None" for i
    by (simp add: the_cmt_def s0(3) cache_member_init_def blank_cmt_def)
  have old: "pte_ppa (dftl_cache_get_pte 3 s0) = UINT32_MAX"
    by (simp add: get_pte_row s0(3) cache_member_init_def)
  have "returns (dftl_cache_update 515 \<lparr>pte_ppa = 9, pte_fp = 4\<rparr> s0) (\<lambda>s1. map_ok s1 \<and> rows_ok s1 \<and>
    (\<forall>a. dftl_cache_get_pte a s1 = (if a = 515 then \<lparr>pte_ppa = 9, pte_fp = 4\<rparr> else dftl_cache_get_pte a s0)) \<and>
    (cmt_pt (the_cmt s0 (D_IDX 515)) \<noteq> None \<longrightarrow> cmt_dirty (the_cmt s1 (D_IDX 515)) \<and> tmap s1 (D_IDX 515) = UINT32_MAX))"
    by (rule dftl_cache_update_get) (simp_all add: s0(2,4) rows_ok_def none D_IDX_def settings)
  then show "returns (demand_create 0 (\<lambda>_. []) (s\<lparr>reqs := demo_reqs, dev := ssd_init\<rparr>)) (\<lambda>s0.
     returns (dftl_cache_update 515 \<lparr>pte_ppa = 9, pte_fp = 4\<rparr> s0) (\<lambda>s1.
       dftl_cache_get_pte 515 s1 = \<lparr>pte_ppa = 9, pte_fp = 4\<rparr> \<and> pte_ppa (dftl_cache_get_pte 3 s1) = UINT32_MAX))"
    by (simp add: s0(1)) (erule returns_mono, simp add: old)
qed

section \<open>Reachable states\<close>

text \<open>What leaves the locations, the dirty flags and the flash as they are.\<close>

definition same_tables :: "sys \<Rightarrow> sys \<Rightarrow> bool" where
  "same_tables s s' \<longleftrightarrow> bmgr s' = bmgr s \<and> dev s' = dev s \<and> env (cache s') = env (cache s) \<and>
     t_active s' = t_active s \<and> t_reserve s' = t_reserve s \<and>
     (\<forall>i. t_ppa (the_cmt s' i) = t_ppa (the_cmt s i) \<and> cmt_dirty (the_cmt s' i) = cmt_dirty (the_cmt s i) \<and>
        cmt_idx (the_cmt s' i) = cmt_idx (the_cmt s i))"

lemma map_ok_same_tables: "map_ok s \<Longrightarrow> same_tables s s' \<Longrightarrow> map_ok s'"
  by (simp add: same_tables_def map_ok_def map_inv_def map_pool_def map_pages_def map_dev_def fresh_set_def tmap_def)

inductive map_reach :: "nat \<Rightarrow> sys \<Rightarrow> bool" for m where
  start: "demand_create g keys0 (s\<lparr>dev := ssd_init\<rparr>) = Some s' \<Longrightarrow> map_reach m s'"
| update: "map_reach m s \<Longrightarrow> D_IDX lpa < nr_valid_tpages (env (cache s)) \<Longrightarrow> dftl_cache_update lpa v s = Some s' \<Longrightarrow>
    map_reach m s'"
| evict: "map_reach m s \<Longrightarrow> v < nr_valid_tpages (env (cache s)) \<Longrightarrow> cmt_dirty (the_cmt s v) \<Longrightarrow> backlog now (dev s) m \<Longrightarrow>
    evict_write now v i s = Some s' \<Longrightarrow> map_reach m s'"
| other: "map_reach m s \<Longrightarrow> same_tables s s' \<Longrightarrow> map_reach m s'"

lemma evict_write_live: "evict_write now v i s = Some s' \<Longrightarrow> io_live i s"
  by (cases i) (auto simp: evict_write_def Let_def bind_Some_iff get_iparams_def modify_req_def modify_wbe_def modify_def
      io_live_def upd_cache_def split: option.splits)

text \<open>
  C5. Reachable translation pages.  From start-up on, through any updates of entries, evictions of
  dirty pages and steps that do not touch the table, every mapping page that has a location is
  stored there: the flash page was written, is valid and names the mapping page.
\<close>

theorem map_reach_stored:
  assumes "map_reach m s" and "m + PPS * NAND_READ_LATENCY < 2 ^ 32 - 1"
  shows "map_ok s \<and> stored s"
proof -
  have "map_ok s"
    using assms
  proof (induction rule: map_reach.induct)
    case (start g keys0 s s')
    with demand_create_map_ok [of g keys0 s] show ?case
      by simp
  next
    case (update s lpa v s')
    with cache_update_step [of s lpa v s'] show ?case
      by simp
  next
    case (evict s v now i s')
    with evict_write_returns [of s v i now m] evict_write_live [of now v i s s'] show ?case
      by simp
  next
    case (other s s')
    with map_ok_same_tables show ?case
      by blast
  qed
  then show ?thesis
    by (simp add: map_ok_stored)
qed

lemma map_reach_stored_witness:
  "\<forall>s. returns (demand_create 0 (\<lambda>_. []) (s\<lparr>dev := ssd_init\<rparr>)) (\<lambda>s0.
     returns (dftl_cache_update 515 \<lparr>pte_ppa = 9, pte_fp = 4\<rparr> s0) stored)"
proof
  fix s :: sys
  obtain s0 where s0: "demand_create 0 (\<lambda>_. []) (s\<lparr>dev := ssd_init\<rparr>) = Some s0" "map_ok s0"
    "member (cache s0) = cache_member_init" "nr_valid_tpages (env (cache s0)) = 699050"
    using demand_create_map_ok [of 0 "\<lambda>_. []" s] by (auto elim!: returnsE)
  have none: "cmt_pt (the_cmt s0 i) = None" for i
    by (simp add: the_cmt_def s0(3) cache_member_init_def blank_cmt_def)
  have d: "D_IDX 515 < nr_valid_tpages (env (cache s0))"
    by (simp add: s0(4) D_IDX_def settings)
  obtain s1 where s1: "dftl_cache_update 515 \<lparr>pte_ppa = 9, pte_fp = 4\<rparr> s0 = Some s1"
    using cache_update_runs [OF s0(2) d] none by blast
  have "map_reach 0 s1"
    by (rule map_reach.update [OF map_reach.start [OF s0(1)] d s1])
  from map_reach_stored [OF this] have "stored s1"
    by (simp add: PPS_val NAND_READ_LATENCY_def)
  then show "returns (demand_create 0 (\<lambda>_. []) (s\<lparr>dev := ssd_init\<rparr>)) (\<lambda>s0.
     returns (dftl_cache_update 515 \<lparr>pte_ppa = 9, pte_fp = 4\<rparr> s0) stored)"
    by (simp add: s0(1) s1)
qed

end
