(* ===== verification/Dgc.thy ===== *)
theory Dgc
  imports Maptab
begin

text \<open>
  Garbage collection of data superblocks: the items that are collected, what the rewriting does
  with them and the mapping update.
\<close>

section \<open>The items of a page\<close>

text \<open>
  An item is its first grain on the page, its logical address and its number of grains.  A page is
  described by a list of items when they lie one behind the other, their first grains carry their
  records, and the valid grains are exactly theirs.
\<close>

type_synonym item = "nat \<times> lpa_t \<times> nat"

definition covers :: "item list \<Rightarrow> nat \<Rightarrow> bool" where
  "covers xs j \<longleftrightarrow> (\<exists>(i, l, n) \<in> set xs. i \<le> j \<and> j < i + n)"

definition item_on :: "bm \<Rightarrow> ppa_t \<Rightarrow> item \<Rightarrow> bool" where
  "item_on b p = (\<lambda>(i, l, n). 0 < n \<and> i + n \<le> GRAIN_PER_PAGE \<and>
     oob_lpa (oob b (p * GRAIN_PER_PAGE + i)) = l \<and> oob_length (oob b (p * GRAIN_PER_PAGE + i)) = n)"

definition page_items :: "bm \<Rightarrow> ppa_t \<Rightarrow> item list \<Rightarrow> bool" where
  "page_items b p xs \<longleftrightarrow> sorted_wrt (\<lambda>(i, l, n) (i', l', n'). i + n \<le> i') xs \<and> (\<forall>x \<in> set xs. item_on b p x) \<and>
     (\<forall>j < GRAIN_PER_PAGE. valid_bitmap b (p * GRAIN_PER_PAGE + j) = covers xs j)"

lemma covers_Nil [simp]: "\<not> covers [] j"
  by (simp add: covers_def)

lemma covers_Cons: "covers ((i, l, n) # xs) j \<longleftrightarrow> i \<le> j \<and> j < i + n \<or> covers xs j"
  by (auto simp: covers_def)

definition item_node :: "item \<Rightarrow> gc_node" where
  "item_node = (\<lambda>(i, l, n). \<lparr>gn_lpa = l, gn_ppa = 0, gn_len = n\<rparr>)"

section \<open>Invalidating a run\<close>

definition clear_run :: "nat \<Rightarrow> nat \<Rightarrow> bm \<Rightarrow> bm" where
  "clear_run g n b = fold (set_grain False) [g..<g + n] b"

lemma clear_run_simps:
  "valid_bitmap (clear_run g n b) h = (valid_bitmap b h \<and> \<not> (g \<le> h \<and> h < g + n))"
  "oob (clear_run g n b) = oob b" "part (clear_run g n b) = part b" "stream (clear_run g n b) = stream b"
  "wp_offt (sblk (clear_run g n b) k) = wp_offt (sblk b k)"
  "is_owned (sblk (clear_run g n b) k) = is_owned (sblk b k)"
  "stream_idx (sblk (clear_run g n b) k) = stream_idx (sblk b k)"
  "is_rsv (sblk (clear_run g n b) k) = is_rsv (sblk b k)"
  by (induction n) (auto simp: clear_run_def)

lemma cnt_ok_clear_run:
  "cnt_ok b \<Longrightarrow> \<forall>h. g \<le> h \<and> h < g + n \<longrightarrow> valid_bitmap b h \<Longrightarrow> cnt_ok (clear_run g n b)"
proof (induction n)
  case (Suc n)
  then have "cnt_ok (clear_run g n b)" "valid_bitmap (clear_run g n b) (g + n)"
    by (simp_all add: clear_run_simps)
  then have "cnt_ok (set_grain False (g + n) (clear_run g n b))"
    by (intro cnt_ok_set_grain) simp_all
  then show ?case
    by (simp add: clear_run_def)
qed (simp add: clear_run_def)

lemma invalidate_run_eq:
  "\<forall>h. g \<le> h \<and> h < g + n \<longrightarrow> grain_ok h \<Longrightarrow> invalidate_run g n b = Some (clear_run g n b)"
  by (induction n) (simp_all add: invalidate_run_def clear_run_def dftl_invalidate_grain_eq)

section \<open>Collecting a page\<close>

lemma collect_grains_items:
  assumes p: "page_ok p"
  shows "cnt_ok b \<Longrightarrow> sorted_wrt (\<lambda>(i, l, n) (i', l', n'). i + n \<le> i') xs \<Longrightarrow> \<forall>x \<in> set xs. item_on b p x \<and> j \<le> fst x \<Longrightarrow>
    \<forall>k. j \<le> k \<and> k < GRAIN_PER_PAGE \<longrightarrow> valid_bitmap b (p * GRAIN_PER_PAGE + k) = covers xs k \<Longrightarrow>
    \<exists>b'. collect_grains p j nodes b = Some (nodes @ map item_node xs, b') \<and> cnt_ok b' \<and> bm_same b b' \<and>
      (\<forall>g. valid_bitmap b' g = (valid_bitmap b g \<and> \<not> (g div GRAIN_PER_PAGE = p \<and> j \<le> g mod GRAIN_PER_PAGE)))"
proof (induction "GRAIN_PER_PAGE - j" arbitrary: j nodes b xs rule: less_induct)
  case less
  show ?case
  proof (cases "j < GRAIN_PER_PAGE")
    case False
    then have "xs = []"
      using less.prems(3) by (cases xs) (auto simp: item_on_def)
    moreover have "\<not> j \<le> g mod GRAIN_PER_PAGE" for g
      using False by (simp add: settings not_le less_le_trans)
    ultimately show ?thesis
      using False less.prems(1) by (subst collect_grains.simps) simp
  next
    case True
    let ?g = "p * GRAIN_PER_PAGE + j"
    have gok: "grain_ok (p * GRAIN_PER_PAGE + k)" if "k < GRAIN_PER_PAGE" for k
      using grain_ok_page [OF that, of p] p by simp
    have isv: "dftl_isvalid_grain b ?g = Some (covers xs j)"
      using True less.prems(4) by (simp add: dftl_isvalid_grain_eq p)
    have ob: "dftl_bm_get_oob b ?g = Some (oob b ?g)"
      using grain_ok_bounds(1) [OF gok [OF True]] by (simp add: dftl_bm_get_oob_def)
    have grain: "g = p * GRAIN_PER_PAGE + g mod GRAIN_PER_PAGE" if "g div GRAIN_PER_PAGE = p" for g
      using that div_mult_mod_eq [of g GRAIN_PER_PAGE] by simp
    show ?thesis
    proof (cases "covers xs j")
      case False
      have later: "\<forall>x \<in> set xs. item_on b p x \<and> j + 1 \<le> fst x"
      proof
        fix x assume x: "x \<in> set xs"
        with less.prems(3) have "item_on b p x" "j \<le> fst x" by auto
        moreover have "fst x \<noteq> j"
          using False x \<open>item_on b p x\<close> by (auto simp: covers_def item_on_def)
        ultimately show "item_on b p x \<and> j + 1 \<le> fst x" by simp
      qed
      have "GRAIN_PER_PAGE - (j + 1) < GRAIN_PER_PAGE - j"
        using True by simp
      from less.hyps [OF this less.prems(1,2) later, of nodes] less.prems(4)
      obtain b' where b': "collect_grains p (j + 1) nodes b = Some (nodes @ map item_node xs, b')" "cnt_ok b'" "bm_same b b'"
        "\<And>g. valid_bitmap b' g = (valid_bitmap b g \<and> \<not> (g div GRAIN_PER_PAGE = p \<and> j + 1 \<le> g mod GRAIN_PER_PAGE))"
        by auto
      have "valid_bitmap b' g = (valid_bitmap b g \<and> \<not> (g div GRAIN_PER_PAGE = p \<and> j \<le> g mod GRAIN_PER_PAGE))" for g
      proof (cases "g div GRAIN_PER_PAGE = p \<and> g mod GRAIN_PER_PAGE = j")
        case True
        then have "\<not> valid_bitmap b g"
          using grain [of g] less.prems(4) False \<open>j < GRAIN_PER_PAGE\<close> by auto
        then show ?thesis by (simp add: b'(4))
      qed (auto simp: b'(4))
      then show ?thesis
        using True b'(1-3) False by (subst collect_grains.simps) (simp add: isv ob Let_def)
    next
      case cov: True
      obtain l n ys where xs: "xs = (j, l, n) # ys"
      proof -
        obtain i l n where x: "(i, l, n) \<in> set xs" "i \<le> j"
          using cov by (auto simp: covers_def)
        then have "i = j"
          using less.prems(3) by force
        obtain i' l' n' ys where xs: "xs = (i', l', n') # ys"
          using x(1) by (cases xs) auto
        have h: "j \<le> i'" "0 < n'"
          using less.prems(3) by (auto simp: xs item_on_def)
        have "(i, l, n) \<notin> set ys"
          using less.prems(2) h x(2) by (auto simp: xs)
        with x(1) \<open>i = j\<close> show thesis
          by (intro that [of l n ys]) (auto simp: xs)
      qed
      have it: "0 < n" "j + n \<le> GRAIN_PER_PAGE" "oob_lpa (oob b ?g) = l" "oob_length (oob b ?g) = n"
        using less.prems(3) by (auto simp: xs item_on_def)
      let ?b = "clear_run ?g n b"
      have run: "k < GRAIN_PER_PAGE \<and> j \<le> k \<and> k < j + n" if "h = p * GRAIN_PER_PAGE + k" "?g \<le> h" "h < ?g + n" for h k
        using that it(2) by auto
      have in_run: "\<exists>k. h = p * GRAIN_PER_PAGE + k" if "?g \<le> h" for h
        using that by (auto simp: le_iff_add)
      have inval: "invalidate_run ?g n b = Some ?b"
        using run in_run gok by (intro invalidate_run_eq) blast
      have "valid_bitmap b h" if h: "?g \<le> h" "h < ?g + n" for h
      proof -
        obtain k where k: "h = p * GRAIN_PER_PAGE + k"
          using in_run [OF h(1)] by blast
        with run [OF k h] less.prems(4) show ?thesis
          by (simp add: xs covers_Cons)
      qed
      then have cnt: "cnt_ok ?b"
        by (intro cnt_ok_clear_run less.prems(1)) blast
      have sorted: "sorted_wrt (\<lambda>(i, l, n) (i', l', n'). i + n \<le> i') ys"
        using less.prems(2) by (simp add: xs)
      have later: "\<forall>x \<in> set ys. item_on ?b p x \<and> j + n \<le> fst x"
        using less.prems(2,3) by (auto simp: xs item_on_def clear_run_simps)
      have rest: "\<forall>k. j + n \<le> k \<and> k < GRAIN_PER_PAGE \<longrightarrow> valid_bitmap ?b (p * GRAIN_PER_PAGE + k) = covers ys k"
        using less.prems(4) by (auto simp: clear_run_simps xs covers_Cons)
      have "GRAIN_PER_PAGE - (j + n) < GRAIN_PER_PAGE - j"
        using True it(1) by simp
      from less.hyps [OF this cnt sorted later rest, of "nodes @ [item_node (j, l, n)]"]
      obtain b' where b': "collect_grains p (j + n) (nodes @ [item_node (j, l, n)]) ?b = Some (nodes @ map item_node xs, b')"
        "cnt_ok b'" "bm_same ?b b'"
        "\<And>g. valid_bitmap b' g = (valid_bitmap ?b g \<and> \<not> (g div GRAIN_PER_PAGE = p \<and> j + n \<le> g mod GRAIN_PER_PAGE))"
        by (auto simp: xs)
      have "valid_bitmap b' g = (valid_bitmap b g \<and> \<not> (g div GRAIN_PER_PAGE = p \<and> j \<le> g mod GRAIN_PER_PAGE))" for g
      proof (cases "g div GRAIN_PER_PAGE = p")
        case True
        have "?g \<le> g \<longleftrightarrow> j \<le> g mod GRAIN_PER_PAGE" "g < ?g + n \<longleftrightarrow> g mod GRAIN_PER_PAGE < j + n"
          using grain [OF True] by linarith+
        with True show ?thesis
          by (auto simp: b'(4) clear_run_simps)
      next
        case False
        have "\<not> (?g \<le> g \<and> g < ?g + n)"
          using run [of g] in_run [of g] page_of_grain [of _ p] False by metis
        with False show ?thesis
          by (simp add: b'(4) clear_run_simps)
      qed
      moreover have "bm_same b b'"
        using b'(3) by (simp add: bm_same_def clear_run_simps)
      moreover have "collect_grains p j nodes b = Some (nodes @ map item_node xs, b')"
        using True cov it b'(1) by (subst collect_grains.simps) (simp add: isv ob Let_def inval item_node_def not_less)
      ultimately show ?thesis
        using b'(2) by blast
    qed
  qed
qed

lemma any_valid_eq:
  "\<forall>j \<in> set js. grain_ok (a + j) \<Longrightarrow> any_valid b (map (\<lambda>j. a + j) js) = Some (\<exists>j \<in> set js. valid_bitmap b (a + j))"
  by (induction js) (simp_all add: dftl_isvalid_grain_eq)

lemma contains_valid_eq:
  assumes "page_ok p"
  shows "contains_valid_grain b p = Some (\<exists>j < GRAIN_PER_PAGE. valid_bitmap b (p * GRAIN_PER_PAGE + j))"
proof -
  have "contains_valid_grain b p = Some (\<exists>j \<in> set [0..<GRAIN_PER_PAGE]. valid_bitmap b (p * GRAIN_PER_PAGE + j))"
    unfolding contains_valid_grain_def using assms by (intro any_valid_eq) simp
  then show ?thesis
    by (simp add: lessThan_atLeast0 [symmetric] Bex_def)
qed

lemma contains_valid_items:
  assumes "page_ok p" and "page_items b p xs"
  shows "contains_valid_grain b p = Some (xs \<noteq> [])"
proof -
  have "(\<exists>j < GRAIN_PER_PAGE. covers xs j) \<longleftrightarrow> xs \<noteq> []"
  proof
    assume "xs \<noteq> []"
    then obtain i l n where x: "(i, l, n) \<in> set xs"
      by (cases xs) auto
    with assms(2) have "0 < n" "i + n \<le> GRAIN_PER_PAGE"
      by (auto simp: page_items_def item_on_def)
    then show "\<exists>j < GRAIN_PER_PAGE. covers xs j"
      using x unfolding covers_def by (intro exI [of _ i] conjI bexI [of _ "(i, l, n)"]) auto
  qed auto
  then show ?thesis
    using assms by (simp add: contains_valid_eq page_items_def cong: conj_cong)
qed

lemma collect_page_items:
  assumes p: "page_ok p" and cnt: "cnt_ok b" and xs: "page_items b p xs"
  shows "\<exists>b'. collect_page p (Some (nodes, b)) = Some (nodes @ map item_node xs, b') \<and> cnt_ok b' \<and> bm_same b b' \<and>
    (\<forall>g. valid_bitmap b' g = (valid_bitmap b g \<and> g div GRAIN_PER_PAGE \<noteq> p))"
proof -
  have "\<exists>b'. collect_grains p 0 nodes b = Some (nodes @ map item_node xs, b') \<and> cnt_ok b' \<and> bm_same b b' \<and>
      (\<forall>g. valid_bitmap b' g = (valid_bitmap b g \<and> \<not> (g div GRAIN_PER_PAGE = p \<and> 0 \<le> g mod GRAIN_PER_PAGE)))"
    using xs by (intro collect_grains_items [OF p cnt]) (auto simp: page_items_def)
  then obtain b' where b': "collect_grains p 0 nodes b = Some (nodes @ map item_node xs, b')" "cnt_ok b'" "bm_same b b'"
    "\<And>g. valid_bitmap b' g = (valid_bitmap b g \<and> g div GRAIN_PER_PAGE \<noteq> p)"
    by auto
  have "contains_valid_grain b' p = Some False"
    using p by (simp add: contains_valid_eq b'(4) cong: conj_cong)
  then show ?thesis
    using b' by (simp add: collect_page_def)
qed

section \<open>Collecting a superblock\<close>

lemma page_items_cong:
  assumes "page_items b p xs" and "oob b' = oob b"
    and "\<And>j. j < GRAIN_PER_PAGE \<Longrightarrow> valid_bitmap b' (p * GRAIN_PER_PAGE + j) = valid_bitmap b (p * GRAIN_PER_PAGE + j)"
  shows "page_items b' p xs"
  using assms by (simp add: page_items_def item_on_def)

lemma collect_pages_items:
  "distinct ps \<Longrightarrow> \<forall>p \<in> set ps. page_ok p \<and> page_items b p (it p) \<Longrightarrow> cnt_ok b \<Longrightarrow>
    \<exists>b'. fold collect_page ps (Some (nodes, b)) = Some (nodes @ map item_node (concat (map it ps)), b') \<and> cnt_ok b' \<and>
      bm_same b b' \<and> (\<forall>g. valid_bitmap b' g = (valid_bitmap b g \<and> g div GRAIN_PER_PAGE \<notin> set ps))"
proof (induction ps arbitrary: nodes b)
  case (Cons p ps)
  then obtain b1 where b1: "collect_page p (Some (nodes, b)) = Some (nodes @ map item_node (it p), b1)" "cnt_ok b1" "bm_same b b1"
    "\<And>g. valid_bitmap b1 g = (valid_bitmap b g \<and> g div GRAIN_PER_PAGE \<noteq> p)"
    using collect_page_items [of p b "it p" nodes] by auto
  have "\<forall>q \<in> set ps. page_ok q \<and> page_items b1 q (it q)"
  proof
    fix q assume q: "q \<in> set ps"
    with Cons.prems have "page_ok q" "page_items b q (it q)" "q \<noteq> p"
      by auto
    moreover from this have "page_items b1 q (it q)"
      using b1(3) by (auto simp: b1(4) bm_same_def elim!: page_items_cong)
    ultimately show "page_ok q \<and> page_items b1 q (it q)"
      by simp
  qed
  from Cons.IH [OF _ this b1(2), of "nodes @ map item_node (it p)"] Cons.prems(1)
  have "\<exists>b'. fold collect_page ps (Some (nodes @ map item_node (it p), b1)) =
      Some ((nodes @ map item_node (it p)) @ map item_node (concat (map it ps)), b') \<and> cnt_ok b' \<and> bm_same b1 b' \<and>
      (\<forall>g. valid_bitmap b' g = (valid_bitmap b1 g \<and> g div GRAIN_PER_PAGE \<notin> set ps))"
    by (simp only: distinct.simps simp_thms)
  then obtain b' where "fold collect_page ps (Some (nodes @ map item_node (it p), b1)) =
      Some ((nodes @ map item_node (it p)) @ map item_node (concat (map it ps)), b')" "cnt_ok b'" "bm_same b1 b'"
    "\<And>g. valid_bitmap b' g = (valid_bitmap b1 g \<and> g div GRAIN_PER_PAGE \<notin> set ps)"
    by blast
  moreover from this have "bm_same b b'"
    using b1(3) by (simp add: bm_same_def)
  ultimately show ?case
    by (intro exI [of _ b']) (simp add: b1(1,4) conj_ac)
qed simp

text \<open>The reads find the pages with items; a failed read goes unnoticed.\<close>

lemma read_dpages_items:
  assumes t: "t < NOS" and it: "\<And>p. SBLK_IDX p = t \<Longrightarrow> page_items (bmgr s) p (it p)"
    and d: "tt_pgs (sp (dev s)) = d0" "NOS * PPS \<le> d0"
  shows "n \<le> PPS \<Longrightarrow> \<exists>d'. fold (read_dpage now t) [0..<n] (Some ([], s)) =
    Some (filter (\<lambda>p. it p \<noteq> []) (map (SBLK_OFFT2PPA t) [0..<n]), s\<lparr>dev := d'\<rparr>) \<and> tt_pgs (sp d') = d0"
proof (induction n)
  case 0
  show ?case
    using d(1) by (intro exI [of _ "dev s"]) simp
next
  case (Suc n)
  then obtain d1 where d1: "fold (read_dpage now t) [0..<n] (Some ([], s)) =
    Some (filter (\<lambda>p. it p \<noteq> []) (map (SBLK_OFFT2PPA t) [0..<n]), s\<lparr>dev := d1\<rparr>)" "tt_pgs (sp d1) = d0"
    by auto
  let ?p = "SBLK_OFFT2PPA t n"
  have p: "SBLK_IDX ?p = t" "page_ok ?p"
    using Suc.prems t SBLK_of_page [of n t] by (simp_all add: SBLK_OFFT2PPA_def page_ok_sblk)
  have "?p + 1 \<le> tt_pgs (sp d1)"
    using p(2) d(2) d1(2) by (simp add: page_ok_def)
  from ssd_read_loop_returns [OF this, of now "if 0 > now then 0 else now" 0]
  have "\<exists>r d'. ssd_read_ppa now ?p PAGESIZE 0 d1 = Some (r, d')"
    by (auto simp: ssd_read_ppa_def PAGESIZE_val split: sum.split)
  then obtain r d2 where d2: "ssd_read_ppa now ?p PAGESIZE 0 d1 = Some (r, d2)"
    by blast
  have step: "read_dpage now t n (Some (tab, s\<lparr>dev := d1\<rparr>)) =
      Some (if it ?p = [] then (tab, s\<lparr>dev := d1\<rparr>) else (tab @ [?p], s\<lparr>dev := d2\<rparr>))" for tab
    using contains_valid_items [OF p(2) it [OF p(1)]] d2 by (simp add: read_dpage_def li_read_def)
  have "tt_pgs (sp d2) = d0"
    using ssd_read_ppa_frame [OF d2] d1(2) by simp
  with d1 show ?case
    by (cases "it ?p = []") (auto simp: step)
qed

text \<open>The items of a superblock, in address order.\<close>

definition sblk_items :: "(ppa_t \<Rightarrow> item list) \<Rightarrow> nat \<Rightarrow> item list" where
  "sblk_items it t = concat (map it (map (SBLK_OFFT2PPA t) [0..<PPS]))"

lemma concat_filter_empty: "concat (map f (filter (\<lambda>x. f x \<noteq> []) xs)) = concat (map f xs)"
  by (induction xs) auto

abbreviation has_valid_grain :: "bm \<Rightarrow> nat \<Rightarrow> bool" where
  "has_valid_grain b p \<equiv> \<exists>j < GRAIN_PER_PAGE. valid_bitmap b (p * GRAIN_PER_PAGE + j)"

lemma gc_collects:
  assumes t: "t < NOS" and it: "\<And>p. SBLK_IDX p = t \<Longrightarrow> page_items (bmgr s) p (it p)" and cnt: "cnt_ok (bmgr s)"
    and d: "NOS * PPS \<le> tt_pgs (sp (dev s))"
  obtains tab d' b' where "bulk_read_pages_containing_valid_grain now t s = Some (tab, s\<lparr>dev := d'\<rparr>)"
    "fold collect_page tab (Some ([], bmgr s)) = Some (map item_node (sblk_items it t), b')" "cnt_ok b'" "bm_same (bmgr s) b'"
    "\<And>g. valid_bitmap b' g = (valid_bitmap (bmgr s) g \<and> SBLK_IDX (g div GRAIN_PER_PAGE) \<noteq> t)"
    "tab = filter (has_valid_grain (bmgr s)) (map (SBLK_OFFT2PPA t) [0..<PPS])"
proof -
  define tab where "tab = filter (\<lambda>p. it p \<noteq> []) (map (SBLK_OFFT2PPA t) [0..<PPS])"
  obtain d' where read: "bulk_read_pages_containing_valid_grain now t s = Some (tab, s\<lparr>dev := d'\<rparr>)"
    using read_dpages_items [OF t it refl d order_refl, where now = now]
    by (auto simp: bulk_read_pages_containing_valid_grain_def SBLK_END_def tab_def)
  have page_of: "SBLK_IDX p = t \<longleftrightarrow> (\<exists>n < PPS. p = SBLK_OFFT2PPA t n)" for p
    by (auto simp: SBLK_OFFT2PPA_def SBLK_of_page SBLK_IDX_def settings intro!: exI [of _ "p mod PPS"])
  then have in_tab: "p \<in> set tab \<longleftrightarrow> SBLK_IDX p = t \<and> it p \<noteq> []" for p
    by (auto simp: tab_def)
  have "distinct tab"
    by (simp add: tab_def distinct_map inj_on_def SBLK_OFFT2PPA_def)
  moreover have "\<forall>p \<in> set tab. page_ok p \<and> page_items (bmgr s) p (it p)"
    using it t by (simp add: in_tab page_ok_sblk)
  ultimately obtain b' where b': "fold collect_page tab (Some ([], bmgr s)) = Some ([] @ map item_node (concat (map it tab)), b')"
    "cnt_ok b'" "bm_same (bmgr s) b'" "\<And>g. valid_bitmap b' g = (valid_bitmap (bmgr s) g \<and> g div GRAIN_PER_PAGE \<notin> set tab)"
    using collect_pages_items [of tab "bmgr s" it "[]"] cnt by blast
  have valid: "valid_bitmap b' g = (valid_bitmap (bmgr s) g \<and> SBLK_IDX (g div GRAIN_PER_PAGE) \<noteq> t)" for g
  proof (cases "SBLK_IDX (g div GRAIN_PER_PAGE) = t \<and> it (g div GRAIN_PER_PAGE) = []")
    case True
    then have "page_items (bmgr s) (g div GRAIN_PER_PAGE) []"
      using it [of "g div GRAIN_PER_PAGE"] by simp
    moreover have "g mod GRAIN_PER_PAGE < GRAIN_PER_PAGE"
      by (simp add: settings)
    ultimately have "\<not> valid_bitmap (bmgr s) (g div GRAIN_PER_PAGE * GRAIN_PER_PAGE + g mod GRAIN_PER_PAGE)"
      unfolding page_items_def by (metis covers_Nil)
    then show ?thesis
      by (simp add: b'(4) div_mult_mod_eq)
  qed (auto simp: b'(4) in_tab)
  have "has_valid_grain (bmgr s) p \<longleftrightarrow> it p \<noteq> []" if p: "SBLK_IDX p = t" for p
    using contains_valid_items [OF _ it [OF p]] contains_valid_eq [of p "bmgr s"] t p by (simp add: page_ok_sblk)
  then have pages: "tab = filter (has_valid_grain (bmgr s)) (map (SBLK_OFFT2PPA t) [0..<PPS])"
    unfolding tab_def using page_of by (intro filter_cong refl) (metis (no_types, lifting) atLeastLessThan_iff image_iff list.set_map set_upt)
  have "concat (map it tab) = sblk_items it t"
    by (simp add: sblk_items_def tab_def concat_filter_empty)
  then have "fold collect_page tab (Some ([], bmgr s)) = Some (map item_node (sblk_items it t), b')"
    using b'(1) by simp
  from that [OF read this b'(2,3) valid pages] show thesis .
qed

section \<open>Rewriting an item\<close>

definition seg_start :: gc_seg where
  "seg_start = \<lparr>seg_ppa = 0, seg_sppa = None, seg_last = None, seg_copied = 0\<rparr>"

text \<open>An item that goes to the open page of its stream, which the loop takes to be page \<open>seg_ppa w\<close>.\<close>

lemma gc_write_item_open:
  assumes r: "grain_remain (stream (bmgr s) idx) = of_nat r" "0 < r" "r \<le> GRAIN_PER_PAGE"
    and g: "g = seg_ppa w * GRAIN_PER_PAGE + (GRAIN_PER_PAGE - r)" "grain_ok g" "\<not> valid_bitmap (bmgr s) g"
    and cnt: "cnt_ok (bmgr s)"
  shows "gc_write_item now idx node (Some (w, nodes, s)) = Some (w, nodes @ [node\<lparr>gn_ppa := g\<rparr>],
    s\<lparr>bmgr := (set_grain True g (upd_stream idx (\<lambda>t. t\<lparr>grain_remain := grain_remain t - 1\<rparr>) (bmgr s)))
      \<lparr>oob := (oob (bmgr s))(g := data_oob (gn_lpa node) 1)\<rparr>\<rparr>)"
proof -
  have "unat (grain_remain (stream (bmgr s) idx)) = r"
    using r(3) by (simp add: r(1) unat_of_nat settings)
  then have ne: "grain_remain (stream (bmgr s) idx) \<noteq> 0"
    using r(2) by auto
  have "(of_nat GRAIN_PER_PAGE :: u32) - of_nat r = of_nat (GRAIN_PER_PAGE - r)"
    using r(3) by (simp add: of_nat_diff)
  then have off: "unat ((of_nat GRAIN_PER_PAGE :: u32) - grain_remain (stream (bmgr s) idx)) = GRAIN_PER_PAGE - r"
    by (simp add: r(1) unat_of_nat settings)
  have "g < 2 ^ 32"
    using grain_ok_bounds(1) [OF g(2)] by (simp add: grain_cnt_def settings)
  then have pga: "PPA_TO_PGA (seg_ppa w) (GRAIN_PER_PAGE - r) = g"
    by (simp add: PPA_TO_PGA_def g(1))
  let ?b = "upd_stream idx (\<lambda>t. t\<lparr>grain_remain := grain_remain t - 1\<rparr>) (bmgr s)"
  have "cnt_ok ?b"
    using cnt by (simp add: cnt_ok_def valid_grains_def)
  then have val: "dftl_validate_grain g ?b = Some (set_grain True g ?b)"
    using g(2,3) by (intro dftl_validate_grain_eq) simp_all
  show ?thesis
    using ne grain_ok_bounds(1) [OF g(2)]
    by (simp add: gc_write_item_def off pga on_bm_def upd_bm_def val dftl_bm_set_oob_def Let_def)
qed

section \<open>Properties\<close>

text \<open>
  C15. A collection finds every live item.  When each page of a data superblock is laid out by
  items, the read pass reads exactly the pages of the superblock that have a valid grain, in order, and the scan of
  them returns every item once, in address order, with its address and its length; afterwards no grain of the superblock is valid, all other grains are as before and
  the counters are exact.
\<close>

theorem gc_collects_every_item:
  assumes "t < NOS" and "\<And>p. SBLK_IDX p = t \<Longrightarrow> page_items (bmgr s) p (it p)" and "cnt_ok (bmgr s)" and "dev_ok (dev s)"
  shows "returns (bulk_read_pages_containing_valid_grain now t s) (\<lambda>(tab, s1). bmgr s1 = bmgr s \<and>
    tab = filter (\<lambda>p. \<exists>j < GRAIN_PER_PAGE. valid_bitmap (bmgr s) (p * GRAIN_PER_PAGE + j)) (map (SBLK_OFFT2PPA t) [0..<PPS]) \<and>
    returns (fold collect_page tab (Some ([], bmgr s1))) (\<lambda>(nodes, b). nodes = map item_node (sblk_items it t) \<and>
      cnt_ok b \<and> (\<forall>g. valid_bitmap b g = (valid_bitmap (bmgr s) g \<and> SBLK_IDX (g div GRAIN_PER_PAGE) \<noteq> t))))"
proof -
  have "NOS * PPS \<le> tt_pgs (sp (dev s))"
    using assms(4) by (auto simp: dev_ok_def ssd_wf_def geometry_ok_def)
  note size = this
  show ?thesis
  proof (rule gc_collects [OF assms(1) _ assms(3) size, where now = now])
    show "page_items (bmgr s) p (it p)" if "SBLK_IDX p = t" for p
      using that by (rule assms(2))
  qed simp
qed

text \<open>Two items on the first page of superblock 60, one of two grains and one of one.\<close>

definition two_items :: bm where
  "two_items = (let b = set_grain True 15728642 (set_grain True 15728641 (set_grain True 15728640 bm_blank))
     in b\<lparr>oob := (oob b)(15728640 := data_oob 7 2, 15728642 := data_oob 9 1)\<rparr>)"

lemma two_items_bits:
  "valid_bitmap two_items g = (g \<in> {15728640, 15728641, 15728642})"
  "oob two_items 15728640 = data_oob 7 2" "oob two_items 15728642 = data_oob 9 1" "cnt_ok two_items"
proof -
  have "cnt_ok bm_blank"
    by (rule all_empty_cnt) (simp add: all_empty_def bm_blank_def fresh_sblk_def)
  then have "cnt_ok (set_grain True 15728642 (set_grain True 15728641 (set_grain True 15728640 bm_blank)))"
    by (intro cnt_ok_set_grain) (simp_all add: bm_blank_def)
  then show "cnt_ok two_items"
    by (simp add: two_items_def Let_def cnt_ok_def valid_grains_def)
qed (auto simp: two_items_def Let_def bm_blank_def)

lemma gc_collects_every_item_witness:
  "\<forall>s. returns (bulk_read_pages_containing_valid_grain 5 60 (s\<lparr>bmgr := two_items, dev := ssd_init\<rparr>)) (\<lambda>(tab, s1).
     returns (fold collect_page tab (Some ([], bmgr s1))) (\<lambda>(nodes, b). map gn_lpa nodes = [7, 9] \<and> map gn_len nodes = [2, 1]))"
proof
  fix s :: sys
  let ?s = "s\<lparr>bmgr := two_items, dev := ssd_init\<rparr>" and ?it = "\<lambda>p. if p = 3932160 then [(0, 7, 2), (2, 9, 1)] else []"
  have lay: "page_items (bmgr ?s) p (?it p)" for p
    by (auto simp: page_items_def covers_Cons item_on_def two_items_bits data_oob_def settings)
  have "[0..<PPS] = 0 # [1..<PPS]"
    by (simp add: upt_conv_Cons PPS_pos)
  moreover have "concat (map ?it (map (SBLK_OFFT2PPA 60) [1..<PPS])) = []"
    by (auto simp: SBLK_OFFT2PPA_def PPS_val)
  ultimately have "sblk_items ?it 60 = [(0, 7, 2), (2, 9, 1)]"
    by (simp add: sblk_items_def SBLK_OFFT2PPA_def PPS_val)
  with gc_collects_every_item [of 60 ?s ?it 5] lay two_items_bits(4) dev_ok_init
  show "returns (bulk_read_pages_containing_valid_grain 5 60 ?s) (\<lambda>(tab, s1).
     returns (fold collect_page tab (Some ([], bmgr s1))) (\<lambda>(nodes, b). map gn_lpa nodes = [7, 9] \<and> map gn_len nodes = [2, 1]))"
    by (auto simp: item_node_def settings elim!: returns_mono)
qed

text \<open>
  C39. A collection can write to page 0.  When the stream of the victim has an open page with free
  grains, the rewriting loop still has its initial page number 0: the first item gets a
  grain of page 0, which belongs to the translation pages, as a record of one grain whatever its
  length was, and the translation pages are no longer in order.
\<close>

theorem gc_rewrite_hits_page_zero:
  assumes inv: "map_inv s" "\<not> page_valid (bmgr s) 0" and r: "grain_remain (stream (bmgr s) idx) = of_nat r" "0 < r" "r < GRAIN_PER_PAGE"
  shows "returns (gc_write_item now idx node (Some (seg_start, nodes, s))) (\<lambda>(w, nodes', s').
    nodes' = nodes @ [node\<lparr>gn_ppa := GRAIN_PER_PAGE - r\<rparr>] \<and> SBLK_IDX ((GRAIN_PER_PAGE - r) div GRAIN_PER_PAGE) \<le> map_end \<and>
    oob (bmgr s') (GRAIN_PER_PAGE - r) = data_oob (gn_lpa node) 1 \<and> \<not> map_inv s')"
proof -
  let ?g = "GRAIN_PER_PAGE - r"
  have page: "?g div GRAIN_PER_PAGE = 0" "?g < GRAIN_PER_PAGE" "?g \<noteq> 0"
    using r by auto
  have pages: "map_pages s"
    using inv(1) by (simp add: map_inv_def)
  have "whole_page (bmgr s) 0"
    using map_pagesD(3) [OF pages, of 0] by (simp add: SBLK_IDX_def)
  then have free: "\<not> valid_bitmap (bmgr s) ?g"
    using whole_page_grain [of "bmgr s" 0 ?g] page(1) inv(2) by simp
  let ?s = "s\<lparr>bmgr := (set_grain True ?g (upd_stream idx (\<lambda>t. t\<lparr>grain_remain := grain_remain t - 1\<rparr>) (bmgr s)))
      \<lparr>oob := (oob (bmgr s))(?g := data_oob (gn_lpa node) 1)\<rparr>\<rparr>"
  have run: "gc_write_item now idx node (Some (seg_start, nodes, s)) = Some (seg_start, nodes @ [node\<lparr>gn_ppa := ?g\<rparr>], ?s)"
    using r free map_pagesD(1) [OF pages] page
    by (intro gc_write_item_open [where r = r]) (simp_all add: seg_start_def grain_ok_def page_ok_def settings)
  have "\<not> whole_page (bmgr ?s) 0"
    using page inv(2) by (auto simp: whole_page_def page_valid_def)
  then have "\<not> map_inv ?s"
    using map_pagesD(3) [of ?s 0] by (auto simp: map_inv_def SBLK_IDX_def)
  then show ?thesis
    using page by (simp add: run SBLK_IDX_def)
qed

lemma gc_rewrite_hits_page_zero_witness:
  "\<forall>s. returns (demand_create 0 (\<lambda>_. []) (s\<lparr>dev := ssd_init\<rparr>)) (\<lambda>s0.
     returns (gc_write_item 5 3 \<lparr>gn_lpa = 77, gn_ppa = 0, gn_len = 1\<rparr>
         (Some (seg_start, [], upd_bm (upd_stream 3 (\<lambda>t. t\<lparr>grain_remain := 2\<rparr>)) s0)))
       (\<lambda>(w, nodes, s1). map gn_ppa nodes = [2] \<and> \<not> map_inv s1))"
proof
  fix s :: sys
  obtain s0 where s0: "demand_create 0 (\<lambda>_. []) (s\<lparr>dev := ssd_init\<rparr>) = Some s0" "map_ok s0" "member (cache s0) = cache_member_init"
    using demand_create_map_ok [of 0 "\<lambda>_. []" s] by (auto elim!: returnsE)
  let ?s = "upd_bm (upd_stream 3 (\<lambda>t. t\<lparr>grain_remain := 2\<rparr>)) s0"
  have inv0: "map_inv s0"
    using s0(2) by (simp add: map_ok_def)
  have tm: "tmap ?s = tmap s0" "tmap s0 i = UINT32_MAX" for i
    by (simp_all add: upd_bm_def) (simp add: tmap_def the_cmt_def s0(3) cache_member_init_def blank_cmt_def)
  have "map_inv ?s"
    using inv0 by (simp add: map_inv_def map_pool_def map_pages_def map_dev_def fresh_set_def tm(1) upd_bm_def
        page_valid_def whole_page_def oob_of_page_def cnt_ok_def valid_grains_def)
  moreover have "\<not> page_valid (bmgr ?s) 0"
  proof
    assume "page_valid (bmgr ?s) 0"
    then have "page_valid (bmgr s0) 0"
      by (simp add: page_valid_def upd_bm_def)
    then have "tmap s0 (oob_of_page (bmgr s0) 0) = 0"
      using inv0 map_pagesD(9) [of s0 0] by (simp add: map_inv_def SBLK_IDX_def)
    then show False
      by (simp add: tm(2) settings)
  qed
  ultimately have "returns (gc_write_item 5 3 \<lparr>gn_lpa = 77, gn_ppa = 0, gn_len = 1\<rparr> (Some (seg_start, [], ?s)))
      (\<lambda>(w, nodes', s'). nodes' = [] @ [\<lparr>gn_lpa = 77, gn_ppa = 0, gn_len = 1\<rparr>\<lparr>gn_ppa := GRAIN_PER_PAGE - 2\<rparr>] \<and>
        SBLK_IDX ((GRAIN_PER_PAGE - 2) div GRAIN_PER_PAGE) \<le> map_end \<and>
        oob (bmgr s') (GRAIN_PER_PAGE - 2) = data_oob (gn_lpa \<lparr>gn_lpa = 77, gn_ppa = 0, gn_len = 1\<rparr>) 1 \<and> \<not> map_inv s')"
    by (intro gc_rewrite_hits_page_zero) (simp_all add: upd_bm_def settings)
  then show "returns (demand_create 0 (\<lambda>_. []) (s\<lparr>dev := ssd_init\<rparr>)) (\<lambda>s0.
     returns (gc_write_item 5 3 \<lparr>gn_lpa = 77, gn_ppa = 0, gn_len = 1\<rparr>
         (Some (seg_start, [], upd_bm (upd_stream 3 (\<lambda>t. t\<lparr>grain_remain := 2\<rparr>)) s0)))
       (\<lambda>(w, nodes, s1). map gn_ppa nodes = [2] \<and> \<not> map_inv s1))"
    by (simp add: s0(1)) (erule returns_mono, auto simp: settings)
qed

end
