(* ===== verification/Place.thy ===== *)
theory Place
  imports Dgc
begin

text \<open>
  Placement of buffered entries on the open pages of the streams: what a page holds, in terms of
  the items of \<^theory_text>\<open>Dgc\<close>, after an entry was placed on it.
\<close>

section \<open>Validating a run\<close>

definition set_run :: "nat \<Rightarrow> nat \<Rightarrow> bm \<Rightarrow> bm" where
  "set_run g n b = fold (set_grain True) [g..<g + n] b"

lemma set_run_simps:
  "valid_bitmap (set_run g n b) h = (valid_bitmap b h \<or> g \<le> h \<and> h < g + n)"
  "oob (set_run g n b) = oob b" "part (set_run g n b) = part b" "stream (set_run g n b) = stream b"
  "wp_offt (sblk (set_run g n b) k) = wp_offt (sblk b k)"
  by (induction n) (auto simp: set_run_def)

lemma validate_run_eq:
  "cnt_ok b \<Longrightarrow> \<forall>h. g \<le> h \<and> h < g + n \<longrightarrow> grain_ok h \<and> \<not> valid_bitmap b h \<Longrightarrow>
    validate_run g n b = Some (set_run g n b) \<and> cnt_ok (set_run g n b)"
proof (induction n)
  case (Suc n)
  then have IH: "validate_run g n b = Some (set_run g n b)" "cnt_ok (set_run g n b)"
    by auto
  have free: "grain_ok (g + n)" "\<not> valid_bitmap (set_run g n b) (g + n)"
    using Suc.prems by (auto simp: set_run_simps)
  have "validate_run g (Suc n) b = dftl_validate_grain (g + n) (set_run g n b)"
    using IH(1) by (simp add: validate_run_def)
  with IH(2) free show ?case
    by (simp add: dftl_validate_grain_eq cnt_ok_set_grain) (simp add: set_run_def cnt_ok_set_grain)
qed (simp add: validate_run_def set_run_def)

section \<open>An entry on an open page\<close>

lemma entry_grains_pos: "0 < entry_grains v k"
proof -
  have "0 < n div m + (if n mod m \<noteq> 0 then 1 else 0)" if "0 < n" for n m :: nat
    using that div_mult_mod_eq [of n m] by (cases "n mod m = 0"; cases "n div m = 0") auto
  from this [of "v + 1 + 4 + length k" GRAINED_UNIT] show ?thesis
    by (simp add: entry_grains_def Let_def)
qed

text \<open>What an entry that is about to be placed looks like.\<close>

definition entry_ready :: "sys \<Rightarrow> addr \<Rightarrow> lpa_t \<Rightarrow> nat \<Rightarrow> bool" where
  "entry_ready s e lpa len \<longleftrightarrow> (\<exists>n v h. cells (sl_mem (wb s)) e = Some n \<and> sn_value n = Some v \<and> sn_hash_params n = Some h \<and>
     get_lpa (env (cache s)) h = Some lpa \<and> len = entry_grains (vs_length_in_bytes v) (sn_key n))"

definition stream_of :: "lpa_t \<Rightarrow> nat" where
  "stream_of lpa = D_IDX lpa mod MAX_GC_STREAM"

lemma wb_assign_open:
  assumes e: "entry_ready s e lpa len" and i: "i = stream_of lpa"
    and r: "grain_remain (stream (bmgr s) i) = of_nat r" "0 < r" "r \<le> GRAIN_PER_PAGE"
    and g: "g = active_ppa (stream (bmgr s) i) * GRAIN_PER_PAGE + (GRAIN_PER_PAGE - r)" "g < 2 ^ 32" "g < grain_cnt"
    and cnt: "cnt_ok (bmgr s)" and free: "\<forall>h. g \<le> h \<and> h < g + len \<longrightarrow> grain_ok h \<and> \<not> valid_bitmap (bmgr s) h"
  shows "\<exists>s'. wb_assign_one now e s = Some s' \<and> cnt_ok (bmgr s') \<and>
    valid_bitmap (bmgr s') = valid_bitmap (set_run g len (bmgr s)) \<and> oob (bmgr s') = (oob (bmgr s))(g := data_oob lpa len) \<and>
    grain_remain (stream (bmgr s') i) = of_nat r - of_nat len \<and>
    active_ppa (stream (bmgr s') i) = active_ppa (stream (bmgr s) i) \<and>
    (\<exists>n. cells (sl_mem (wb s')) e = Some n \<and> sn_ppa n = g)"
proof -
  obtain n v h where n: "cells (sl_mem (wb s)) e = Some n" "sn_value n = Some v" "sn_hash_params n = Some h"
    "get_lpa (env (cache s)) h = Some lpa" "len = entry_grains (vs_length_in_bytes v) (sn_key n)"
    using e by (auto simp: entry_ready_def)
  have i': "D_IDX lpa mod MAX_GC_STREAM = i"
    by (simp add: i stream_of_def)
  have "unat (grain_remain (stream (bmgr s) i)) = r"
    using r(3) by (simp add: r(1) unat_of_nat settings)
  then have ne: "grain_remain (stream (bmgr s) i) \<noteq> 0"
    using r(2) by auto
  have "(of_nat GRAIN_PER_PAGE :: u32) - of_nat r = of_nat (GRAIN_PER_PAGE - r)"
    using r(3) by (simp add: of_nat_diff)
  then have off: "unat ((of_nat GRAIN_PER_PAGE :: u32) - of_nat r) = GRAIN_PER_PAGE - r"
    by (simp add: unat_of_nat settings)
  have pga: "PPA_TO_PGA (active_ppa (stream (bmgr s) i)) (GRAIN_PER_PAGE - r) = g"
    using g(2) by (simp add: PPA_TO_PGA_def g(1))
  let ?b = "upd_stream i (\<lambda>t. t\<lparr>grain_remain := grain_remain t - of_nat len\<rparr>)
     (upd_stream i (\<lambda>t. t\<lparr>flush_page := Suc (flush_page t)\<rparr>) (bmgr s))"
  have "cnt_ok ?b"
    using cnt by (simp add: cnt_ok_def valid_grains_def)
  from validate_run_eq [OF this, of g len] free
  have val: "validate_run g len ?b = Some (set_run g len ?b)" "cnt_ok (set_run g len ?b)"
    by auto
  have "cnt_ok ((set_run g len ?b)\<lparr>oob := x\<rparr>)" for x
    using val(2) by (simp add: cnt_ok_def valid_grains_def)
  moreover have "valid_bitmap (set_run g len ?b) = valid_bitmap (set_run g len (bmgr s))"
    by (simp add: fun_eq_iff set_run_simps)
  ultimately show ?thesis
    using ne g(3)
    by (simp add: wb_assign_one_def n(1-4) n(5) [symmetric] i' r(1) off pga upd_bm_def modify_wbe_def modify_def on_bm_def val(1)
        dftl_bm_set_oob_def set_run_simps Let_def)
qed

section \<open>Properties\<close>

text \<open>
  The open page of a stream: its items lie in front of the free grains and the rest is free.
\<close>

definition open_page :: "sys \<Rightarrow> nat \<Rightarrow> nat \<Rightarrow> item list \<Rightarrow> bool" where
  "open_page s i r xs \<longleftrightarrow> grain_remain (stream (bmgr s) i) = of_nat r \<and> r \<le> GRAIN_PER_PAGE \<and>
     page_ok (active_ppa (stream (bmgr s) i)) \<and> page_items (bmgr s) (active_ppa (stream (bmgr s) i)) xs \<and>
     (\<forall>(o1, l, n) \<in> set xs. o1 + n \<le> GRAIN_PER_PAGE - r)"

lemma covers_append: "covers (xs @ ys) j \<longleftrightarrow> covers xs j \<or> covers ys j"
  by (auto simp: covers_def)

lemma page_grain_bound: "page_ok p \<Longrightarrow> j < GRAIN_PER_PAGE \<Longrightarrow> p * GRAIN_PER_PAGE + j < 2 ^ 32 \<and> p * GRAIN_PER_PAGE + j < grain_cnt"
proof -
  assume "page_ok p" "j < GRAIN_PER_PAGE"
  then have "p * GRAIN_PER_PAGE + j < grain_cnt"
    using grain_ok_page [of j p] by (intro grain_ok_bounds(1)) simp
  moreover have "grain_cnt < 2 ^ 32"
    by (simp add: grain_cnt_def settings)
  ultimately show ?thesis by linarith
qed

text \<open>Appending one item to a page: the page gets the item, the other pages keep theirs.\<close>

lemma item_on_other:
  assumes "oob b' = (oob b)(p * GRAIN_PER_PAGE + k := w)" "k < GRAIN_PER_PAGE" "q = p \<Longrightarrow> fst x < k" "fst x < GRAIN_PER_PAGE"
  shows "item_on b' q x = item_on b q x"
proof -
  have "q * GRAIN_PER_PAGE + fst x \<noteq> p * GRAIN_PER_PAGE + k"
    using assms(2-4) by (metis add_left_cancel less_irrefl page_of_grain)
  then show ?thesis
    by (auto simp: item_on_def assms(1))
qed

lemma item_on_head: "item_on b q x \<Longrightarrow> fst x < GRAIN_PER_PAGE"
  by (auto simp: item_on_def)

lemma set_run_page:
  assumes "k + len \<le> GRAIN_PER_PAGE" "j < GRAIN_PER_PAGE"
  shows "valid_bitmap (set_run (p * GRAIN_PER_PAGE + k) len b) (q * GRAIN_PER_PAGE + j) \<longleftrightarrow>
    valid_bitmap b (q * GRAIN_PER_PAGE + j) \<or> q = p \<and> k \<le> j \<and> j < k + len"
proof -
  have "q = p" if run: "p * GRAIN_PER_PAGE + k \<le> q * GRAIN_PER_PAGE + j" "q * GRAIN_PER_PAGE + j < p * GRAIN_PER_PAGE + k + len"
  proof -
    define m where "m = q * GRAIN_PER_PAGE + j - p * GRAIN_PER_PAGE"
    have "q * GRAIN_PER_PAGE + j = p * GRAIN_PER_PAGE + m" "m < GRAIN_PER_PAGE"
      using run assms(1) by (auto simp: m_def)
    then show ?thesis
      using assms(2) by (metis page_of_grain)
  qed
  then show ?thesis
    unfolding set_run_simps by auto
qed

lemma page_items_append:
  assumes "page_items b p xs" "\<forall>(j, l, n) \<in> set xs. j + n \<le> k" "0 < len" "k + len \<le> GRAIN_PER_PAGE"
    "valid_bitmap b' = valid_bitmap (set_run (p * GRAIN_PER_PAGE + k) len b)"
    "oob b' = (oob b)(p * GRAIN_PER_PAGE + k := data_oob lpa len)"
  shows "page_items b' p (xs @ [(k, lpa, len)])" "q \<noteq> p \<Longrightarrow> page_items b q ys \<Longrightarrow> page_items b' q ys"
proof -
  have k: "k < GRAIN_PER_PAGE"
    using assms(3,4) by simp
  have "item_on b' p x" if x: "x \<in> set xs" for x
  proof -
    have it: "item_on b p x"
      using x assms(1) by (simp add: page_items_def)
    obtain j l n where jn: "x = (j, l, n)"
      by (cases x)
    then have "fst x < k"
      using x it assms(2) by (fastforce simp: item_on_def)
    with it item_on_head [OF it] show ?thesis
      by (simp add: item_on_other [OF assms(6) k])
  qed
  moreover have "item_on b' p (k, lpa, len)"
    using assms(3,4) by (simp add: item_on_def assms(6) data_oob_def)
  ultimately show "page_items b' p (xs @ [(k, lpa, len)])"
    using assms(1,2) set_run_page [OF assms(4)]
    by (auto simp: page_items_def sorted_wrt_append assms(5) covers_append covers_Cons)
  assume q: "q \<noteq> p" "page_items b q ys"
  have "item_on b' q x" if "x \<in> set ys" for x
    using q that item_on_head [of b q x] item_on_other [OF assms(6) k, of q x] by (auto simp: page_items_def)
  with q show "page_items b' q ys"
    using set_run_page [OF assms(4)] by (simp add: page_items_def assms(5))
qed

text \<open>
  An entry is placed on the open page of its stream; what does not fit goes over to the page behind it,
  which must have no items for the placement to return.
\<close>

lemma place_on_open:
  fixes s :: sys
  defines "p \<equiv> \<lambda>lpa. active_ppa (stream (bmgr s) (stream_of lpa))"
  assumes e: "entry_ready s e lpa len" and op: "open_page s (stream_of lpa) r xs" and cnt: "cnt_ok (bmgr s)" and r: "0 < r"
    and over: "r < len \<Longrightarrow> len \<le> r + GRAIN_PER_PAGE \<and> page_ok (p lpa + 1) \<and> page_items (bmgr s) (p lpa + 1) []"
  shows "\<exists>s'. wb_assign_one now e s = Some s' \<and> cnt_ok (bmgr s') \<and>
    valid_bitmap (bmgr s') = valid_bitmap (set_run (p lpa * GRAIN_PER_PAGE + (GRAIN_PER_PAGE - r)) len (bmgr s)) \<and>
    oob (bmgr s') = (oob (bmgr s))(p lpa * GRAIN_PER_PAGE + (GRAIN_PER_PAGE - r) := data_oob lpa len) \<and>
    grain_remain (stream (bmgr s') (stream_of lpa)) = of_nat r - of_nat len \<and>
    active_ppa (stream (bmgr s') (stream_of lpa)) = p lpa \<and>
    (\<exists>n. cells (sl_mem (wb s')) e = Some n \<and> sn_ppa n = p lpa * GRAIN_PER_PAGE + (GRAIN_PER_PAGE - r))"
proof -
  let ?p = "p lpa"
  let ?k = "GRAIN_PER_PAGE - r"
  let ?g = "?p * GRAIN_PER_PAGE + ?k"
  have o: "grain_remain (stream (bmgr s) (stream_of lpa)) = of_nat r" "r \<le> GRAIN_PER_PAGE" "page_ok ?p" "page_items (bmgr s) ?p xs"
    "\<And>j l n. (j, l, n) \<in> set xs \<Longrightarrow> j + n \<le> ?k"
    using op by (auto simp: open_page_def p_def)
  have end_k: "?g + r = (?p + 1) * GRAIN_PER_PAGE"
    using o(2) by (simp add: algebra_simps)
  have free: "\<forall>h. ?g \<le> h \<and> h < ?g + len \<longrightarrow> grain_ok h \<and> \<not> valid_bitmap (bmgr s) h"
  proof (intro allI impI)
    fix h assume h: "?g \<le> h \<and> h < ?g + len"
    show "grain_ok h \<and> \<not> valid_bitmap (bmgr s) h"
    proof (cases "h < (?p + 1) * GRAIN_PER_PAGE")
      case True
      then obtain j where j: "h = ?p * GRAIN_PER_PAGE + j" "?k \<le> j" "j < GRAIN_PER_PAGE"
        using h by (intro that [of "h - ?p * GRAIN_PER_PAGE"]) auto
      have "\<not> covers xs j"
        using o(5) j(2) by (fastforce simp: covers_def)
      then show ?thesis
        using o(3,4) j by (simp add: page_items_def)
    next
      case False
      then have big: "r < len"
        using h False unfolding end_k [symmetric] by auto
      then have "len \<le> r + GRAIN_PER_PAGE"
        using over by simp
      then have "h - (?p + 1) * GRAIN_PER_PAGE < GRAIN_PER_PAGE" "h = (?p + 1) * GRAIN_PER_PAGE + (h - (?p + 1) * GRAIN_PER_PAGE)"
        using h False unfolding end_k [symmetric] by auto
      then obtain j where j: "h = (?p + 1) * GRAIN_PER_PAGE + j" "j < GRAIN_PER_PAGE"
        by blast
      have "grain_ok (q * GRAIN_PER_PAGE + j) \<and> \<not> valid_bitmap (bmgr s) (q * GRAIN_PER_PAGE + j)"
        if "page_ok q" "page_items (bmgr s) q []" for q
        using that j(2) by (simp add: page_items_def)
      then show ?thesis
        using over [OF big] j(1) by blast
    qed
  qed
  have k: "?k < GRAIN_PER_PAGE"
    using r o(2) by auto
  note bound = page_grain_bound [OF o(3) k]
  show ?thesis
    using wb_assign_open [OF e refl o(1) r o(2) _ conjunct1 [OF bound] conjunct2 [OF bound] cnt free] by (simp add: p_def)
qed

text \<open>
  C29. Placement of an entry that fits.  When the open page of the stream of an entry has room for
  it, \<^verbatim>\<open>_do_wb_assign_ppa\<close> puts it right behind the items of the page: the page then holds these
  items and the new one, with the address and the number of grains of the entry, every
  other page is laid out as before, the counters stay exact and the entry knows its grain.
\<close>

theorem wb_assign_appends_item:
  assumes e: "entry_ready s e lpa len" and op: "open_page s (stream_of lpa) r xs" and cnt: "cnt_ok (bmgr s)"
    and fits: "0 < r" "len \<le> r"
  shows "returns (wb_assign_one now e s) (\<lambda>s'. cnt_ok (bmgr s') \<and>
    open_page s' (stream_of lpa) (r - len) (xs @ [(GRAIN_PER_PAGE - r, lpa, len)]) \<and>
    (\<forall>q ys. q \<noteq> active_ppa (stream (bmgr s) (stream_of lpa)) \<longrightarrow> page_items (bmgr s) q ys \<longrightarrow> page_items (bmgr s') q ys) \<and>
    (\<exists>n. cells (sl_mem (wb s')) e = Some n \<and>
       sn_ppa n = active_ppa (stream (bmgr s) (stream_of lpa)) * GRAIN_PER_PAGE + (GRAIN_PER_PAGE - r)))"
proof -
  let ?i = "stream_of lpa"
  let ?p = "active_ppa (stream (bmgr s) ?i)"
  let ?k = "GRAIN_PER_PAGE - r"
  have o: "r \<le> GRAIN_PER_PAGE" "page_ok ?p" "page_items (bmgr s) ?p xs" "\<forall>(j, l, n) \<in> set xs. j + n \<le> ?k"
    using op by (auto simp: open_page_def)
  have len: "0 < len" "?k + len \<le> GRAIN_PER_PAGE" "?k + len = GRAIN_PER_PAGE - (r - len)"
    using e entry_grains_pos fits o(1) by (auto simp: entry_ready_def)
  obtain s' where s': "wb_assign_one now e s = Some s'" "cnt_ok (bmgr s')"
    "valid_bitmap (bmgr s') = valid_bitmap (set_run (?p * GRAIN_PER_PAGE + ?k) len (bmgr s))"
    "oob (bmgr s') = (oob (bmgr s))(?p * GRAIN_PER_PAGE + ?k := data_oob lpa len)"
    "grain_remain (stream (bmgr s') ?i) = of_nat r - of_nat len" "active_ppa (stream (bmgr s') ?i) = ?p"
    "\<exists>n. cells (sl_mem (wb s')) e = Some n \<and> sn_ppa n = ?p * GRAIN_PER_PAGE + ?k"
    using place_on_open [OF e op cnt fits(1), of now] fits(2) by auto
  note items = page_items_append [OF o(3,4) len(1,2) s'(3,4)]
  have "\<forall>(j, l, n) \<in> set (xs @ [(?k, lpa, len)]). j + n \<le> GRAIN_PER_PAGE - (r - len)"
    using o(4) len(3) by auto
  moreover have "(of_nat r :: u32) - of_nat len = of_nat (r - len)"
    using fits by (simp add: of_nat_diff)
  ultimately show ?thesis
    using s' items o(1,2) by (simp add: open_page_def)
qed

text \<open>An entry of two grains in a fresh page of stream 3, reached by address 1536.\<close>

definition demo_entry :: snode where
  "demo_entry = \<lparr>sn_ppa = 0, sn_key = [7], sn_etime = 0, sn_level = 1,
     sn_value = Some \<lparr>vs_value = [], vs_length = 2048, vs_ppa = 0, vs_length_in_bytes = 1500, vs_offset = 0\<rparr>,
     sn_isvalid = True, sn_lpa = 0,
     sn_hash_params = Some \<lparr>hash = 1536, hp_key_fp = 0, hp_cnt = 0, hp_find = HASH_KEY_INITIAL\<rparr>,
     sn_params = None, sn_list = [], sn_back = None\<rparr>"

definition demo_open :: "nat \<Rightarrow> sys \<Rightarrow> sys" where
  "demo_open r s = s\<lparr>bmgr := upd_stream 3 (\<lambda>t. t\<lparr>active_ppa := 3932160, grain_remain := of_nat r\<rparr>) bm_blank,
     wb := (wb s)\<lparr>sl_mem := (sl_mem (wb s))\<lparr>cells := [1 \<mapsto> demo_entry]\<rparr>\<rparr>\<rparr>"

lemma demo_open_facts:
  assumes "nr_valid_tentries (env (cache s)) = 357913600" and "r \<le> GRAIN_PER_PAGE"
  shows "entry_ready (demo_open r s) 1 1536 2" and "open_page (demo_open r s) 3 r []" and "cnt_ok (bmgr (demo_open r s))"
    and "stream_of 1536 = 3"
proof -
  have "cnt_ok bm_blank"
    by (rule all_empty_cnt) (simp add: all_empty_def bm_blank_def fresh_sblk_def)
  then show "cnt_ok (bmgr (demo_open r s))"
    by (simp add: demo_open_def cnt_ok_def valid_grains_def)
  show "entry_ready (demo_open r s) 1 1536 2"
    using assms(1) by (simp add: entry_ready_def demo_open_def demo_entry_def get_lpa_def QUADRATIC_PROBING_def entry_grains_def
        GRAINED_UNIT_def)
  show "open_page (demo_open r s) 3 r []"
    using assms(2) by (simp add: open_page_def demo_open_def page_items_def bm_blank_def page_ok_def settings)
qed (simp add: stream_of_def D_IDX_def settings)

lemma wb_assign_appends_item_witness:
  "\<forall>s. returns (demand_create 0 (\<lambda>_. []) s) (\<lambda>s0.
     returns (wb_assign_one 5 1 (demo_open 4 s0)) (\<lambda>s1. open_page s1 3 2 [(0, 1536, 2)]))"
proof
  fix s :: sys
  obtain s0 where s0: "demand_create 0 (\<lambda>_. []) s = Some s0" "nr_valid_tentries (env (cache s0)) = 357913600"
    using demand_create_returns [of 0 "\<lambda>_. []" s] by (auto elim: returnsE)
  note f = demo_open_facts [OF s0(2), of 4]
  from wb_assign_appends_item [OF f(1) _ f(3), of 4 "[]" 5] f(2)
  have "returns (wb_assign_one 5 1 (demo_open 4 s0)) (\<lambda>s1. open_page s1 3 2 [(0, 1536, 2)])"
    by (auto simp: f(4) settings elim!: returns_mono)
  then show "returns (demand_create 0 (\<lambda>_. []) s) (\<lambda>s0.
     returns (wb_assign_one 5 1 (demo_open 4 s0)) (\<lambda>s1. open_page s1 3 2 [(0, 1536, 2)]))"
    by (simp add: s0(1))
qed

text \<open>
  C40. Placement of an entry that does not fit.  The stream takes no new page when an entry has more
  grains than are left on its open page: the last grains of the entry are taken from the page behind,
  which was not allocated to the stream, and the unsigned count of free grains wraps to at least
  \<open>2 ^ 32 - 4\<close>, so that the entries that follow are placed further and further behind the page.
\<close>

theorem wb_assign_overruns_page:
  assumes e: "entry_ready s e lpa len" and op: "open_page s (stream_of lpa) r xs" and cnt: "cnt_ok (bmgr s)"
    and big: "0 < r" "r < len" "len \<le> r + GRAIN_PER_PAGE"
    and nxt: "p = active_ppa (stream (bmgr s) (stream_of lpa)) + 1" "page_ok p" "page_items (bmgr s) p []"
  shows "returns (wb_assign_one now e s) (\<lambda>s'. valid_bitmap (bmgr s') (p * GRAIN_PER_PAGE) \<and>
    active_ppa (stream (bmgr s') (stream_of lpa)) + 1 = p \<and>
    unat (grain_remain (stream (bmgr s') (stream_of lpa))) = 2 ^ 32 - (len - r))"
proof -
  let ?i = "stream_of lpa"
  let ?g = "active_ppa (stream (bmgr s) ?i) * GRAIN_PER_PAGE + (GRAIN_PER_PAGE - r)"
  have end_k: "p * GRAIN_PER_PAGE = ?g + r"
    using op nxt(1) by (simp add: open_page_def algebra_simps)
  obtain s' where s': "wb_assign_one now e s = Some s'"
    "valid_bitmap (bmgr s') = valid_bitmap (set_run ?g len (bmgr s))"
    "grain_remain (stream (bmgr s') ?i) = of_nat r - of_nat len" "active_ppa (stream (bmgr s') ?i) + 1 = p"
    using place_on_open [OF e op cnt big(1), of now] big(3) nxt by auto
  have d: "0 < len - r" "len - r < 2 ^ 32"
    using big op by (auto simp: open_page_def settings)
  have "(of_nat r :: u32) - of_nat len = - of_nat (len - r)"
    using big(2) by (simp add: of_nat_diff)
  moreover have "- (of_nat (len - r) :: u32) = of_nat (2 ^ 32 - (len - r))"
    using d(2) by (simp add: of_nat_diff)
  moreover have "unat (of_nat (2 ^ 32 - (len - r)) :: u32) = 2 ^ 32 - (len - r)"
    using d(1) by (simp add: unat_of_nat)
  moreover have "valid_bitmap (bmgr s') (p * GRAIN_PER_PAGE)"
    unfolding s'(2) set_run_simps end_k using big(2) by simp
  ultimately show ?thesis
    using s'(1,3,4) by simp
qed

lemma wb_assign_overruns_page_witness:
  "\<forall>s. returns (demand_create 0 (\<lambda>_. []) s) (\<lambda>s0.
     returns (wb_assign_one 5 1 (demo_open 1 s0)) (\<lambda>s1. unat (grain_remain (stream (bmgr s1) 3)) = 2 ^ 32 - 1))"
proof
  fix s :: sys
  obtain s0 where s0: "demand_create 0 (\<lambda>_. []) s = Some s0" "nr_valid_tentries (env (cache s0)) = 357913600"
    using demand_create_returns [of 0 "\<lambda>_. []" s] by (auto elim: returnsE)
  have "(1 :: nat) \<le> GRAIN_PER_PAGE"
    by (simp add: settings)
  note f = demo_open_facts [OF s0(2) this]
  have "page_items (bmgr (demo_open 1 s0)) 3932161 []" "page_ok 3932161"
    "active_ppa (stream (bmgr (demo_open 1 s0)) 3) = 3932160"
    by (simp_all add: demo_open_def page_items_def bm_blank_def page_ok_def settings)
  with wb_assign_overruns_page [OF f(1) _ f(3), of 1 "[]" 3932161 5] f(2)
  have "returns (wb_assign_one 5 1 (demo_open 1 s0)) (\<lambda>s1. unat (grain_remain (stream (bmgr s1) 3)) = 2 ^ 32 - 1)"
    by (auto simp: f(4) settings elim!: returns_mono)
  then show "returns (demand_create 0 (\<lambda>_. []) s) (\<lambda>s0.
     returns (wb_assign_one 5 1 (demo_open 1 s0)) (\<lambda>s1. unat (grain_remain (stream (bmgr s1) 3)) = 2 ^ 32 - 1))"
    by (simp add: s0(1))
qed

end
