(* ===== verification/Labels.thy ===== *)
theory Labels
  imports Place
begin

text \<open>
  The labels that the read and write state machines store in the operations that wait: every label
  stored has a case in the dispatch that resumes it.
\<close>

section \<open>Well-labelled states\<close>

definition rd_labels :: "jump_t option set" where
  "rd_labels = {None, Some GOTO_LIST, Some GOTO_COMPLETE}"

definition wb_labels :: "jump_t option set" where
  "wb_labels = {None, Some GOTO_LIST, Some GOTO_COMPLETE, Some GOTO_UPDATE}"

definition labels_ok :: "sys \<Rightarrow> bool" where
  "labels_ok s \<longleftrightarrow> (\<forall>r q. reqs s r = Some q \<longrightarrow> r_params q \<in> rd_labels) \<and>
     (\<forall>e n. cells (sl_mem (wb s)) e = Some n \<longrightarrow> sn_params n \<in> wb_labels)"

lemma labels_ok_more [simp]:
  "labels_ok (s\<lparr>bmgr := b\<rparr>) = labels_ok s" "labels_ok (s\<lparr>dev := d\<rparr>) = labels_ok s" "labels_ok (s\<lparr>cache := c\<rparr>) = labels_ok s"
  "labels_ok (s\<lparr>t_active := k\<rparr>) = labels_ok s" "labels_ok (s\<lparr>t_reserve := k\<rparr>) = labels_ok s"
  "labels_ok (s\<lparr>denv := e\<rparr>) = labels_ok s" "labels_ok (s\<lparr>d_active := k\<rparr>) = labels_ok s" "labels_ok (s\<lparr>fl_stream := fl\<rparr>) = labels_ok s"
  "labels_ok (s\<lparr>wb_master_q := mq\<rparr>) = labels_ok s" "labels_ok (s\<lparr>real_keys := rk\<rparr>) = labels_ok s"
  "labels_ok (s\<lparr>wb_retry_q := q\<rparr>) = labels_ok s" "labels_ok (s\<lparr>req_retry_q := q\<rparr>) = labels_ok s"
  "labels_ok (s\<lparr>finish_q := fq\<rparr>) = labels_ok s" "labels_ok (s\<lparr>hash_table := h\<rparr>) = labels_ok s"
  "labels_ok (s\<lparr>wbstats := st\<rparr>) = labels_ok s" "labels_ok (finish r s) = labels_ok s"
  "labels_ok (upd_cache f s) = labels_ok s" "labels_ok (upd_bm g s) = labels_ok s" "labels_ok (upd_denv de s) = labels_ok s"
  "labels_ok (upd_cmt_at i x s) = labels_ok s"
  by (simp_all add: labels_ok_def finish_def upd_cache_def upd_bm_def upd_denv_def upd_cmt_at_def)

section \<open>Operations that store no label\<close>

named_theorems label_intro

lemma labels_modify_req [label_intro]:
  "modify_req r f s = Some s' \<Longrightarrow> labels_ok s \<Longrightarrow> (\<And>q. r_params q \<in> rd_labels \<Longrightarrow> r_params (f q) \<in> rd_labels) \<Longrightarrow> labels_ok s'"
  by (auto simp: modify_req_def labels_ok_def bind_Some_iff split: if_splits)

lemma labels_modify_wbe [label_intro]:
  "modify_wbe e f s = Some s' \<Longrightarrow> labels_ok s \<Longrightarrow> (\<And>n. sn_params n \<in> wb_labels \<Longrightarrow> sn_params (f n) \<in> wb_labels) \<Longrightarrow> labels_ok s'"
  by (auto simp: modify_wbe_def modify_def labels_ok_def bind_Some_iff split: option.splits if_splits)

lemma labels_free_iparams [label_intro]: "free_iparams i s = Some s' \<Longrightarrow> labels_ok s \<Longrightarrow> labels_ok s'"
  by (cases i) (auto simp: free_iparams_def rd_labels_def wb_labels_def intro: labels_modify_req labels_modify_wbe)

lemma labels_set_etime [label_intro]: "set_etime i now lat s = Some s' \<Longrightarrow> labels_ok s \<Longrightarrow> labels_ok s'"
  by (cases i) (auto simp: set_etime_def intro: labels_modify_req labels_modify_wbe)

lemma labels_get_iparams:
  "get_iparams i j s = Some s' \<Longrightarrow> labels_ok s \<Longrightarrow> (case i of Req _ \<Rightarrow> Some j \<in> rd_labels | Wbe _ \<Rightarrow> Some j \<in> wb_labels) \<Longrightarrow> labels_ok s'"
  by (cases i) (auto simp: get_iparams_def intro: labels_modify_req labels_modify_wbe)

lemma labels_list_complete [label_intro]:
  "get_iparams i GOTO_LIST s = Some s' \<Longrightarrow> labels_ok s \<Longrightarrow> labels_ok s'"
  "get_iparams i GOTO_COMPLETE s = Some s' \<Longrightarrow> labels_ok s \<Longrightarrow> labels_ok s'"
  by (erule labels_get_iparams, assumption, simp add: rd_labels_def wb_labels_def split: io.split)+

lemma labels_retry_later [label_intro]: "retry_later i s = Some s' \<Longrightarrow> labels_ok s \<Longrightarrow> labels_ok s'"
  by (cases i) (auto simp: retry_later_def bind_Some_iff)

lemma labels_on [label_intro]:
  "on_bm g s = Some s' \<Longrightarrow> labels_ok s \<Longrightarrow> labels_ok s'" "on_cache f s = Some s' \<Longrightarrow> labels_ok s \<Longrightarrow> labels_ok s'"
  by (auto simp: on_bm_def on_cache_def)

lemma labels_li [label_intro]:
  "li_read now p z s = Some (lat, s') \<Longrightarrow> labels_ok s \<Longrightarrow> labels_ok s'" "li_write now p z s = Some (lat, s') \<Longrightarrow> labels_ok s \<Longrightarrow> labels_ok s'"
  by (auto simp: li_read_def li_write_def bind_Some_iff)

section \<open>The paths behind a miss\<close>

lemma labels_read_tpage [label_intro]:
  "fold (read_tpage now t) xs r = Some (tab, s') \<Longrightarrow> (\<And>tab s. r = Some (tab, s) \<Longrightarrow> labels_ok s) \<Longrightarrow> labels_ok s'"
proof (induction xs arbitrary: r)
  case (Cons x xs)
  show ?case
  proof (rule Cons.IH)
    show "fold (read_tpage now t) xs (read_tpage now t x r) = Some (tab, s')"
      using Cons.prems(1) by simp
    show "labels_ok s1" if "read_tpage now t x r = Some (tab1, s1)" for tab1 s1
      using that Cons.prems(2) by (auto simp: read_tpage_def bind_Some_iff Let_def split: if_splits intro: label_intro)
  qed
qed auto

lemma labels_write_tpage [label_intro]:
  "fold write_tpage xs r = Some (tab, s') \<Longrightarrow> (\<And>tab s. r = Some (tab, s) \<Longrightarrow> labels_ok s) \<Longrightarrow> labels_ok s'"
proof (induction xs arbitrary: r)
  case (Cons x xs)
  show ?case
  proof (rule Cons.IH)
    show "fold write_tpage xs (write_tpage x r) = Some (tab, s')"
      using Cons.prems(1) by simp
    show "labels_ok s1" if "write_tpage x r = Some (tab1, s1)" for tab1 s1
      using that Cons.prems(2) by (auto simp: write_tpage_def dftl_get_page_num_def bind_Some_iff Let_def split: if_splits)
  qed
qed auto

lemma labels_tpage_gc [label_intro]: "tpage_gc now s = Some (n, s') \<Longrightarrow> labels_ok s \<Longrightarrow> labels_ok s'"
  by (auto simp: tpage_gc_def bulk_read_valid_tpages_def bulk_write_valid_tpages_def trim_on_sys_def bind_Some_iff Let_def
      split: if_splits dest!: labels_read_tpage labels_write_tpage labels_li)

lemma labels_tp_alloc [label_intro]: "tp_alloc now s = Some (p, s') \<Longrightarrow> labels_ok s \<Longrightarrow> labels_ok s'"
  by (auto simp: tp_alloc_def dftl_get_page_num_def bind_Some_iff Let_def split: if_splits dest: labels_tpage_gc)

lemma labels_evict_write [label_intro]: "evict_write now v i s = Some s' \<Longrightarrow> labels_ok s \<Longrightarrow> labels_ok s'"
  by (auto simp: evict_write_def bind_Some_iff Let_def dest!: labels_list_complete labels_tp_alloc labels_on labels_li labels_set_etime)

lemma labels_promote_round [label_intro]: "promote_round s = Some s' \<Longrightarrow> labels_ok s \<Longrightarrow> labels_ok s'"
proof -
  have "fold promote_candidate cs r = Some s' \<Longrightarrow> (\<And>s. r = Some s \<Longrightarrow> labels_ok s) \<Longrightarrow> labels_ok s'" for cs r
  proof (induction cs arbitrary: r)
    case (Cons c cs)
    show ?case
    proof (rule Cons.IH)
      show "fold promote_candidate cs (promote_candidate c r) = Some s'"
        using Cons.prems(1) by simp
      show "labels_ok s1" if "promote_candidate c r = Some s1" for s1
        using that Cons.prems(2) by (auto simp: promote_candidate_def bind_Some_iff Let_def split: if_splits)
    qed
  qed auto
  then show "promote_round s = Some s' \<Longrightarrow> labels_ok s \<Longrightarrow> labels_ok s'"
    by (auto simp: promote_round_def bind_Some_iff split: if_splits)
qed

lemma labels_pop_victim [label_intro]: "pop_victim g s = Some (v, s') \<Longrightarrow> labels_ok s \<Longrightarrow> labels_ok s'"
proof (induction g s rule: pop_victim.induct)
  case (2 g s)
  then obtain s1 where s1: "promote_round s = Some s1" "labels_ok s1"
    by (auto simp: bind_Some_iff intro: labels_promote_round)
  from 2 s1 show ?case
    by (auto simp: bind_Some_iff Let_def split: if_splits)
qed simp

lemma labels_evict_page [label_intro]: "evict_page now i s = Some (rc, s') \<Longrightarrow> labels_ok s \<Longrightarrow> labels_ok s'"
  by (auto simp: evict_page_def bind_Some_iff Let_def split: if_splits dest!: labels_pop_victim labels_evict_write labels_on)

lemma labels_install_page [label_intro]: "install_page d s = Some s' \<Longrightarrow> labels_ok s \<Longrightarrow> labels_ok s'"
  by (auto simp: install_page_def bind_Some_iff Let_def split: if_splits)

lemma labels_resume_waiting [label_intro]: "resume_waiting d i s = Some s' \<Longrightarrow> labels_ok s \<Longrightarrow> labels_ok s'"
proof -
  have "fold (resume_one i) as r = Some s' \<Longrightarrow> (\<And>s. r = Some s \<Longrightarrow> labels_ok s) \<Longrightarrow> labels_ok s'" for as r
  proof (induction as arbitrary: r)
    case (Cons a as)
    show ?case
    proof (rule Cons.IH)
      show "fold (resume_one i) as (resume_one i a r) = Some s'"
        using Cons.prems(1) by simp
      show "labels_ok s1" if "resume_one i a r = Some s1" for s1
        using that Cons.prems(2) by (auto simp: resume_one_def bind_Some_iff Let_def dest!: labels_list_complete labels_retry_later)
    qed
  qed auto
  note * = this
  show "resume_waiting d i s = Some s' \<Longrightarrow> labels_ok s \<Longrightarrow> labels_ok s'"
    unfolding resume_waiting_def Let_def
    by (split if_splits) (elim disjE conjE * | fastforce)+
qed

lemma labels_list_up [label_intro]: "dftl_cache_list_up now lpa i s = Some (rc, s') \<Longrightarrow> labels_ok s \<Longrightarrow> labels_ok s'"
  by (auto simp: dftl_cache_list_up_def bind_Some_iff split: if_splits dest!: labels_evict_page labels_install_page labels_resume_waiting)

lemma labels_load [label_intro]: "dftl_cache_load now lpa i s = Some (rc, s') \<Longrightarrow> labels_ok s \<Longrightarrow> labels_ok s'"
  by (auto simp: dftl_cache_load_def bind_Some_iff Let_def split: if_splits dest!: labels_list_complete labels_li labels_set_etime)

lemma labels_update [label_intro]: "dftl_cache_update lpa v s = Some s' \<Longrightarrow> labels_ok s \<Longrightarrow> labels_ok s'"
  by (auto simp: dftl_cache_update_def bind_Some_iff Let_def split: if_splits option.splits dest!: labels_on)

lemma labels_touch [label_intro]: "dftl_cache_touch lpa s = Some s' \<Longrightarrow> labels_ok s \<Longrightarrow> labels_ok s'"
  by (auto simp: dftl_cache_touch_def bind_Some_iff Let_def split: if_splits)

lemma labels_is_hit [label_intro]: "dftl_cache_is_hit lpa s = (h, s') \<Longrightarrow> labels_ok s \<Longrightarrow> labels_ok s'"
  by (auto simp: dftl_cache_is_hit_def split: if_splits)

lemma labels_is_hit_snd [simp]: "labels_ok (snd (dftl_cache_is_hit lpa s)) = labels_ok s"
  by (simp add: dftl_cache_is_hit_def)

section \<open>The machines\<close>

lemma labels_rd_hot [label_intro]:
  assumes "rd_hot_lookup lpa h s = Some (x, s')" "labels_ok s"
  shows "labels_ok s'"
proof (cases "hp_cnt h \<noteq> 0")
  case False
  then obtain q1 c1 where h1: "dftl_cache_hot_is_hit lpa (cache s) = Some (q1, c1)"
    using assms(1) by (auto simp: rd_hot_lookup_def bind_Some_iff)
  show ?thesis
  proof (cases q1)
    case (Some q)
    then show ?thesis
    proof (cases "hp_key_fp h = h_fp (hot_slot c1 q)")
      case diff: False
      let ?c2 = "if key_ghost_mark (hot_slot c1 q) then snd (adaptive_ghost_key_on_flash_verify q (hp_key_fp h) c1) else c1"
      obtain q2 c3 where "dftl_cache_hot_is_hit lpa ?c2 = Some (q2, c3)"
        using assms(1) False h1 Some diff by (auto simp: rd_hot_lookup_def bind_Some_iff Let_def simp del: split_paired_Ex cong: if_cong)
      then show ?thesis
        using assms False h1 Some diff by (auto simp: rd_hot_lookup_def Let_def cong: if_cong)
    qed (use assms False h1 in \<open>auto simp: rd_hot_lookup_def Let_def\<close>)
  qed (use assms False h1 in \<open>auto simp: rd_hot_lookup_def\<close>)
qed (use assms in \<open>auto simp: rd_hot_lookup_def\<close>)

lemma labels_rd_cold [label_intro]: "rd_cold_lookup q lpa h s = Some (x, s') \<Longrightarrow> labels_ok s \<Longrightarrow> labels_ok s'"
  by (auto simp: rd_cold_lookup_def bind_Some_iff Let_def split: if_splits prod.splits dest!: labels_is_hit labels_touch)

lemma labels_wb_check [label_intro]: "do_wb_check r s = Some (rc, s') \<Longrightarrow> labels_ok s \<Longrightarrow> labels_ok s'"
  by (auto simp: do_wb_check_def bind_Some_iff Let_def split: option.splits dest!: labels_modify_req)

lemma labels_upd_h_req [label_intro]: "upd_h_req r f s = Some s' \<Longrightarrow> labels_ok s \<Longrightarrow> labels_ok s'"
  by (auto simp: upd_h_req_def elim!: labels_modify_req)

lemma labels_not_found [label_intro]: "set_not_found r s = Some s' \<Longrightarrow> labels_ok s \<Longrightarrow> labels_ok s'"
  by (auto simp: set_not_found_def elim!: labels_modify_req)

lemma labels_read_page [label_intro]: "read_actual_dpage now p r s = Some (rc, s') \<Longrightarrow> labels_ok s \<Longrightarrow> labels_ok s'"
  by (auto simp: read_actual_dpage_def bind_Some_iff Let_def split: if_splits dest!: labels_li labels_set_etime)

lemma labels_for_check [label_intro]: "read_for_data_check now p e s = Some (rc, s') \<Longrightarrow> labels_ok s \<Longrightarrow> labels_ok s'"
  by (auto simp: read_for_data_check_def bind_Some_iff Let_def split: if_splits dest!: labels_li labels_set_etime)

lemma labels_rd_at:
  "rd_at_retry r q h lpa s = Some (x, p, s') \<Longrightarrow> labels_ok s \<Longrightarrow> labels_ok s'"
  "rd_at_load now r q lpa pte s = Some (x, p, s') \<Longrightarrow> labels_ok s \<Longrightarrow> labels_ok s'"
  "rd_at_list_up now r lpa pte s = Some (x, p, s') \<Longrightarrow> labels_ok s \<Longrightarrow> labels_ok s'"
  "rd_at_check r h lpa s = Some (x, p, s') \<Longrightarrow> labels_ok s \<Longrightarrow> labels_ok s'"
  "rd_at_data now r q h lpa pte s = Some (x, p, s') \<Longrightarrow> labels_ok s \<Longrightarrow> labels_ok s'"
  subgoal
    by (auto simp: rd_at_retry_def bind_Some_iff Let_def split: if_splits option.split_asm
        dest!: labels_free_iparams labels_wb_check labels_rd_hot labels_rd_cold)
  subgoal
    by (auto simp: rd_at_load_def bind_Some_iff Let_def split: if_splits dest!: labels_load labels_not_found labels_retry_later)
  subgoal
    by (auto simp: rd_at_list_up_def bind_Some_iff Let_def split: if_splits dest!: labels_list_up labels_retry_later)
  subgoal
    by (auto simp: rd_at_check_def bind_Some_iff Let_def split: if_splits dest!: labels_upd_h_req)
  subgoal
    by (auto simp: rd_at_data_def bind_Some_iff Let_def split: if_splits
        dest!: labels_read_page labels_upd_h_req labels_retry_later elim!: labels_modify_req)
  done

lemma labels_rd_step: "rd_step now r l pte s = Some (x, p, s') \<Longrightarrow> labels_ok s \<Longrightarrow> labels_ok s'"
  by (cases l) (auto simp: rd_step_def bind_Some_iff intro: labels_rd_at)

lemma labels_rd_run [label_intro]:
  assumes "rd_run now r l pte s = Some (rc, s')" "labels_ok s"
  shows "labels_ok s'"
proof -
  have "labels_ok s \<longrightarrow> labels_ok (snd y)" if "rd_run now r l pte s = Some y" for l pte s y
  proof (rule rd_run.raw_induct [where P = "\<lambda>now r l pte s y. labels_ok s \<longrightarrow> labels_ok (snd y)", OF _ that])
    fix run now r l pte s y
    assume 1: "\<And>now r l pte s y. run now r l pte s = Some y \<Longrightarrow> labels_ok s \<longrightarrow> labels_ok (snd y)"
      "Option.bind (rd_step now r l pte s) (\<lambda>x. case fst x of rd_goto l \<Rightarrow> run now r l (fst (snd x)) (snd (snd x))
         | rd_ret rc \<Rightarrow> Some (rc, snd (snd x))) = Some y"
    from 1(2) obtain x where x: "rd_step now r l pte s = Some x"
      "(case fst x of rd_goto l \<Rightarrow> run now r l (fst (snd x)) (snd (snd x)) | rd_ret rc \<Rightarrow> Some (rc, snd (snd x))) = Some y"
      by (auto simp: bind_eq_Some_conv)
    then show "labels_ok s \<longrightarrow> labels_ok (snd y)"
      using 1(1) labels_rd_step [of now r l pte s "fst x" "fst (snd x)" "snd (snd x)"] by (auto split: rd_jump.splits)
  qed
  then show ?thesis
    using assms by fastforce
qed

lemma labels_upd_h [label_intro]:
  "upd_h e f s = Some s' \<Longrightarrow> labels_ok s \<Longrightarrow> labels_ok s'" "key_differs e s = Some s' \<Longrightarrow> labels_ok s \<Longrightarrow> labels_ok s'"
  by (auto simp: upd_h_def key_differs_def elim!: labels_modify_wbe)

lemma labels_goto_update [label_intro]: "get_iparams (Wbe e) GOTO_UPDATE s = Some s' \<Longrightarrow> labels_ok s \<Longrightarrow> labels_ok s'"
  by (erule labels_get_iparams, assumption) (simp add: wb_labels_def)

lemma labels_case_cache:
  assumes "(case q of None \<Rightarrow> (v1, s\<lparr>cache := c1\<rparr>) | Some x \<Rightarrow> (f x, s\<lparr>cache := g x\<rparr>)) = (v', s')" "labels_ok s"
  shows "labels_ok s'"
  using assms by (cases q) auto

lemma labels_wb_hot [label_intro]:
  assumes "wb_hot_lookup lpa h v s = Some (v', s')" "labels_ok s"
  shows "labels_ok s'"
proof (cases "hp_cnt h \<noteq> 0")
  case False
  then obtain q1 c1 where h1: "dftl_cache_hot_is_hit lpa (cache s) = Some (q1, c1)"
    using assms(1) by (auto simp: wb_hot_lookup_def bind_Some_iff)
  note c = assms False h1
  show ?thesis
  proof (cases q1)
    case (Some q)
    then show ?thesis
      using c by (cases "hp_key_fp h = h_fp (hot_slot c1 q)"; cases "key_ghost_mark (hot_slot c1 q)")
        (auto simp: wb_hot_lookup_def bind_Some_iff, (erule labels_case_cache, simp)+)
  qed (use c in \<open>auto simp: wb_hot_lookup_def bind_Some_iff split: option.split_asm\<close>)
qed (use assms in \<open>auto simp: wb_hot_lookup_def\<close>)

lemma labels_wb_check_key [label_intro]: "wb_check_key now r e n h lpa pte v s = Some s' \<Longrightarrow> labels_ok s \<Longrightarrow> labels_ok s'"
  by (auto simp: wb_check_key_def bind_Some_iff Let_def split: if_splits
      dest!: labels_for_check labels_upd_h labels_goto_update labels_retry_later elim!: labels_modify_req)

lemma labels_wb_at:
  "wb_at_retry e n h lpa v s = Some (x, v', s') \<Longrightarrow> labels_ok s \<Longrightarrow> labels_ok s'"
  "wb_at_load now e lpa v s = Some (x, v', s') \<Longrightarrow> labels_ok s \<Longrightarrow> labels_ok s'"
  "wb_at_list_up now e lpa v s = Some (x, v', s') \<Longrightarrow> labels_ok s \<Longrightarrow> labels_ok s'"
  "wb_at_check now r e n h lpa v s = Some (x, v', s') \<Longrightarrow> labels_ok s \<Longrightarrow> labels_ok s'"
  "wb_at_update lpa v s = Some (x, v', s') \<Longrightarrow> labels_ok s \<Longrightarrow> labels_ok s'"
  "wb_at_direct_update n h lpa v s = Some (x, v', s') \<Longrightarrow> labels_ok s \<Longrightarrow> labels_ok s'"
  subgoal
    by (auto simp: wb_at_retry_def bind_Some_iff Let_def case_prod_beta split: if_splits option.split_asm
        dest!: labels_free_iparams labels_wb_hot labels_touch)
  subgoal
    by (auto simp: wb_at_load_def bind_Some_iff Let_def split: if_splits dest!: labels_load labels_retry_later)
  subgoal
    by (auto simp: wb_at_list_up_def bind_Some_iff Let_def split: if_splits dest!: labels_list_up labels_retry_later)
  subgoal
    by (auto simp: wb_at_check_def bind_Some_iff Let_def split: if_splits dest!: labels_upd_h labels_wb_check_key)
  subgoal
    by (auto simp: wb_at_update_def bind_Some_iff Let_def split: if_splits dest!: labels_on)
  subgoal
    by (auto simp: wb_at_direct_update_def bind_Some_iff Let_def dest!: labels_update labels_on)
  done

lemma labels_wb_step: "wb_step now r e l v s = Some (x, v', s') \<Longrightarrow> labels_ok s \<Longrightarrow> labels_ok s'"
  by (cases l) (auto simp: wb_step_def bind_Some_iff intro: labels_wb_at)

lemma labels_wb_run [label_intro]:
  assumes "wb_entry_run now r e l v s = Some (u, v', s')" "labels_ok s"
  shows "labels_ok s'"
proof -
  have "labels_ok s \<longrightarrow> labels_ok (snd (snd y))" if "wb_entry_run now r e l v s = Some y" for l v s y
  proof (rule wb_entry_run.raw_induct [where P = "\<lambda>now r e l v s y. labels_ok s \<longrightarrow> labels_ok (snd (snd y))", OF _ that])
    fix run now r e l v s y
    assume 1: "\<And>now r e l v s y. run now r e l v s = Some y \<Longrightarrow> labels_ok s \<longrightarrow> labels_ok (snd (snd y))"
      "Option.bind (wb_step now r e l v s) (\<lambda>x. case fst x of wb_goto l \<Rightarrow> run now r e l (fst (snd x)) (snd (snd x))
         | wb_updated \<Rightarrow> Some (True, snd x) | wb_waits \<Rightarrow> Some (False, snd x)) = Some y"
    from 1(2) obtain x where x: "wb_step now r e l v s = Some x"
      "(case fst x of wb_goto l \<Rightarrow> run now r e l (fst (snd x)) (snd (snd x))
        | wb_updated \<Rightarrow> Some (True, snd x) | wb_waits \<Rightarrow> Some (False, snd x)) = Some y"
      by (auto simp: bind_eq_Some_conv)
    then show "labels_ok s \<longrightarrow> labels_ok (snd (snd y))"
      using 1(1) labels_wb_step [of now r e l v s "fst x" "fst (snd x)" "snd (snd x)"] by (auto split: wb_jump.splits)
  qed
  then show ?thesis
    using assms by fastforce
qed

section \<open>Collection and placement\<close>

lemma labels_fold_option:
  assumes "fold F xs r = Some y" "\<And>y. r = Some y \<Longrightarrow> labels_ok (st y)"
    "\<And>x r y. F x r = Some y \<Longrightarrow> \<exists>z. r = Some z \<and> (labels_ok (st z) \<longrightarrow> labels_ok (st y))"
  shows "labels_ok (st y)"
  using assms(1,2)
proof (induction xs arbitrary: r)
  case (Cons x xs)
  show ?case
    using Cons.prems(1) Cons.prems(2) assms(3)
    by (intro Cons.IH [of "F x r"]) (simp, blast)
qed simp

lemma labels_read_dpage [label_intro]:
  "bulk_read_pages_containing_valid_grain now t s = Some (tab, s') \<Longrightarrow> labels_ok s \<Longrightarrow> labels_ok s'"
  unfolding bulk_read_pages_containing_valid_grain_def
  by (drule labels_fold_option [where st = snd])
    (auto simp: read_dpage_def bind_Some_iff Let_def split: if_splits dest: labels_li)

lemma labels_flush_segment [label_intro]: "flush_segment now a b s = Some s' \<Longrightarrow> labels_ok s \<Longrightarrow> labels_ok s'"
  by (auto simp: flush_segment_def bind_Some_iff split: if_splits dest: labels_li)

lemma labels_take_page [label_intro]: "stream_take_page idx p s = Some s' \<Longrightarrow> labels_ok s \<Longrightarrow> labels_ok s'"
  by (auto simp: stream_take_page_def bind_Some_iff)

lemma labels_open_page [label_intro]: "gc_open_page now idx w s = Some (w', s') \<Longrightarrow> labels_ok s \<Longrightarrow> labels_ok s'"
  by (cases "seg_sppa w"; cases "seg_last w")
    (auto simp: gc_open_page_def gc_dp_alloc_def bind_Some_iff Let_def case_prod_beta split: if_splits
      dest!: labels_take_page labels_flush_segment)

lemma labels_last_segment [label_intro]:
  "(case seg_sppa w of None \<Rightarrow> Some s | Some p \<Rightarrow> (case seg_last w of None \<Rightarrow> Some s | Some l \<Rightarrow> flush_segment now p l s)) = Some s' \<Longrightarrow>
    labels_ok s \<Longrightarrow> labels_ok s'"
  by (cases "seg_sppa w"; cases "seg_last w") (auto intro: labels_flush_segment)

lemma labels_gc_write_item: "gc_write_item now idx node r = Some y \<Longrightarrow>
    \<exists>z. r = Some z \<and> (labels_ok (snd (snd z)) \<longrightarrow> labels_ok (snd (snd y)))"
  by (cases y) (fastforce simp: gc_write_item_def bind_Some_iff Let_def split: if_splits dest!: labels_open_page labels_on)

lemma labels_write_items [label_intro]: "bulk_write_valid_items now t tab s = Some (nodes, s') \<Longrightarrow> labels_ok s \<Longrightarrow> labels_ok s'"
  by (auto simp: bulk_write_valid_items_def bind_Some_iff Let_def split: if_splits
      dest!: labels_last_segment labels_fold_option [where st = "\<lambda>z. snd (snd z)", OF _ _ labels_gc_write_item])

lemma labels_first_pass: "map_first_pass now node r = Some y \<Longrightarrow> \<exists>z. r = Some z \<and> (labels_ok (snd z) \<longrightarrow> labels_ok (snd y))"
  by (cases y) (fastforce simp: map_first_pass_def bind_Some_iff Let_def case_prod_beta split: if_splits
      dest!: labels_update labels_on labels_li)

lemma labels_set_ppa [simp]: "labels_ok (set_ppa d n s) = labels_ok s"
  by (simp add: set_ppa_def)

lemma labels_fold_set_ppa [simp]: "labels_ok (fold (\<lambda>(n, _). set_ppa d n) xs s) = labels_ok s"
proof (induction xs arbitrary: s)
  case (Cons x xs)
  then show ?case
    by (cases x) (simp only: fold_simps comp_apply prod.case labels_set_ppa)
qed simp

lemma case_option_bind: "(case m of None \<Rightarrow> None | Some x \<Rightarrow> f x) = Option.bind m f"
  by (cases m) auto

lemma labels_second_pass [label_intro]: "map_second_pass now xs s = Some s' \<Longrightarrow> labels_ok s \<Longrightarrow> labels_ok s'"
proof (induction "length xs" arbitrary: xs s rule: less_induct)
  case less
  show ?case
  proof (cases xs)
    case (Cons x rest)
    obtain node b where x: "x = (node, b)"
      by (cases x)
    show ?thesis
    proof (cases b)
      case True
      then show ?thesis
        using less(2,3) Cons x by (intro less(1) [of rest s]) simp_all
    next
      case False
      let ?d = "cmt_idx (the_cmt s (D_IDX (gn_lpa node)))"
      let ?rest = "dropWhile (\<lambda>(n, _). D_IDX (gn_lpa n) = ?d) rest"
      have short: "length ?rest < length xs"
        using length_dropWhile_le [of "\<lambda>(n, _). D_IDX (gn_lpa n) = ?d" rest] Cons by simp
      obtain p s2 s3 lat s4 s5 where s: "tp_alloc now (fold (\<lambda>(n, _). set_ppa ?d n)
          (takeWhile (\<lambda>(n, _). D_IDX (gn_lpa n) = ?d) rest) (set_ppa ?d node s)) = Some (p, s2)"
        "on_bm (dftl_validate_page p) (upd_cmt_at (D_IDX (gn_lpa node)) (\<lambda>x. x\<lparr>t_ppa := p\<rparr>) s2) = Some s3"
        "li_write now p PAGESIZE s3 = Some (lat, s4)" "on_bm (dftl_bm_set_oob (p * GRAIN_PER_PAGE) (tpage_oob ?d)) s4 = Some s5"
        "map_second_pass now ?rest (upd_cmt_at (D_IDX (gn_lpa node)) (\<lambda>x. x\<lparr>cmt_dirty := False\<rparr>) s5) = Some s'"
        using less(2) False unfolding Cons x
        by (simp only: map_second_pass.simps Let_def case_option_bind bind_Some_iff) (auto simp: case_option_bind bind_Some_iff)
      have "labels_ok s5"
        using s(1) [THEN labels_tp_alloc] s(2) [THEN labels_on(1)] s(3) [THEN labels_li(2)] s(4) [THEN labels_on(1)] less(3) by simp
      then show ?thesis
        using less(1) [OF short s(5)] by simp
    qed
  qed (use less in simp)
qed

lemma labels_bulk_update [label_intro]: "bulk_mapping_update now nodes s = Some s' \<Longrightarrow> labels_ok s \<Longrightarrow> labels_ok s'"
  by (auto simp: bulk_mapping_update_def bind_Some_iff Let_def split: if_splits
      dest!: labels_second_pass labels_fold_option [where st = snd, OF _ _ labels_first_pass])

lemma labels_dpage_gc [label_intro]: "dpage_gc_dvalue now strm s = Some (n, s') \<Longrightarrow> labels_ok s \<Longrightarrow> labels_ok s'"
  by (auto simp: dpage_gc_dvalue_def trim_on_sys_def bind_Some_iff Let_def split: if_splits
      dest!: labels_read_dpage labels_write_items labels_bulk_update)

lemma labels_dp_alloc [label_intro]: "dp_alloc now lpa s = Some (p, s') \<Longrightarrow> labels_ok s \<Longrightarrow> labels_ok s'"
  by (auto simp: dp_alloc_def bind_Some_iff Let_def case_prod_beta split: if_splits dest!: labels_dpage_gc)

lemma labels_wb_open [label_intro]: "wb_open_page now lpa idx s = Some (p, s') \<Longrightarrow> labels_ok s \<Longrightarrow> labels_ok s'"
  by (auto simp: wb_open_page_def bind_Some_iff Let_def dest!: labels_dp_alloc labels_take_page)

lemma labels_assign_one [label_intro]: "wb_assign_one now e s = Some s' \<Longrightarrow> labels_ok s \<Longrightarrow> labels_ok s'"
  by (auto simp: wb_assign_one_def bind_Some_iff Let_def split: if_splits
      dest!: labels_wb_open labels_on labels_modify_wbe)

lemma labels_assign_loop [label_intro]: "wb_assign_loop now n it s = Some s' \<Longrightarrow> labels_ok s \<Longrightarrow> labels_ok s'"
  by (induction n arbitrary: it s) (auto simp: bind_Some_iff dest!: labels_assign_one)

section \<open>The write path\<close>

lemma labels_enqueue [label_intro]: "wb_enqueue_all n it s = Some s' \<Longrightarrow> labels_ok s \<Longrightarrow> labels_ok s'"
  by (induction n it s rule: wb_enqueue_all.induct) (auto simp: bind_Some_iff labels_ok_def)

lemma labels_release [label_intro]: "wb_release_params n it s = Some s' \<Longrightarrow> labels_ok s \<Longrightarrow> labels_ok s'"
  by (induction n arbitrary: it s) (auto simp: bind_Some_iff wb_labels_def dest!: labels_modify_wbe)

lemma labels_next_entry [label_intro]: "wb_next_entry now r s = Some (e, s') \<Longrightarrow> labels_ok s \<Longrightarrow> labels_ok s'"
  by (auto simp: wb_next_entry_def bind_Some_iff labels_ok_def split: if_splits list.splits dest!: labels_modify_wbe)

lemma labels_update_loop [label_intro]:
  assumes "wb_update_loop clk junk r k u v s = Some s'" "labels_ok s"
  shows "labels_ok s'"
proof -
  have "labels_ok s \<longrightarrow> labels_ok y" if "wb_update_loop clk junk r k u v s = Some y" for k u v s y
  proof (rule wb_update_loop.raw_induct [where P = "\<lambda>clk junk r k u v s y. labels_ok s \<longrightarrow> labels_ok y", OF _ that])
    fix run clk junk r k u v s y
    assume 1: "\<And>clk junk r k u v s y. run clk junk r k u v s = Some y \<Longrightarrow> labels_ok s \<longrightarrow> labels_ok y"
      "(if MAX_WRITE_BUF \<le> u then Some s else Option.bind (wb_next_entry (clk k) r s) (\<lambda>x.
          case fst x of None \<Rightarrow> run clk junk r (k + 1) u v (snd x)
          | Some e \<Rightarrow> Option.bind (wb_entry_run (clk k) r e wb_retry (v\<lparr>hot_hit := junk k\<rparr>) (snd x)) (\<lambda>y.
              run clk junk r (k + 1) (if fst y then u + 1 else u) (fst (snd y)) (snd (snd y))))) = Some y"
    show "labels_ok s \<longrightarrow> labels_ok y"
    proof (cases "MAX_WRITE_BUF \<le> u")
      case False
      then obtain e s1 where e: "wb_next_entry (clk k) r s = Some (e, s1)"
        using 1(2) by (auto simp: bind_eq_Some_conv)
      then show ?thesis
        using 1(2) False labels_next_entry [OF e]
        by (cases e) (auto simp: bind_eq_Some_conv dest!: 1(1) labels_wb_run)
    qed (use 1(2) in simp)
  qed
  then show ?thesis
    using assms by blast
qed

lemma labels_flush [label_intro]: "do_wb_flush g now r s = Some s' \<Longrightarrow> labels_ok s \<Longrightarrow> labels_ok s'"
proof -
  have init: "labels_ok (s\<lparr>hash_table := h, wb := skiplist_init g\<rparr>)" if "labels_ok s" for s h
    using that by (auto simp: labels_ok_def skiplist_init_def malloc_def empty_mem_def blank_snode_def wb_labels_def)
  have one: "flush_one now f r = Some y \<Longrightarrow> \<exists>z. r = Some z \<and> (labels_ok (snd z) \<longrightarrow> labels_ok (snd y))" for f r y
    by (cases y) (fastforce simp: flush_one_def bind_Some_iff split: if_splits dest!: labels_li)
  have str: "flush_stream now f r = Some y \<Longrightarrow> \<exists>z. r = Some z \<and> (labels_ok (snd z) \<longrightarrow> labels_ok (snd y))" for f r y
    by (cases y) (fastforce simp: flush_stream_def bind_Some_iff labels_ok_def dest!: labels_fold_option [where st = snd, OF _ _ one])
  then show "do_wb_flush g now r s = Some s' \<Longrightarrow> labels_ok s \<Longrightarrow> labels_ok s'"
    by (auto simp: do_wb_flush_def bind_Some_iff intro!: init dest!: labels_fold_option [where st = snd, OF _ _ str] labels_set_etime)
qed

section \<open>The operations of the clients\<close>

definition nodes_labelled :: "snode mem \<Rightarrow> bool" where
  "nodes_labelled m \<longleftrightarrow> (\<forall>e n. cells m e = Some n \<longrightarrow> sn_params n \<in> wb_labels)"

lemma nodes_labelled_modify:
  "modify p f m = Some m' \<Longrightarrow> nodes_labelled m \<Longrightarrow> (\<And>n. sn_params (f n) = sn_params n) \<Longrightarrow> nodes_labelled m'"
  by (auto simp: nodes_labelled_def modify_def split: option.split_asm if_splits)

lemma nodes_labelled_set:
  "nodes_labelled m \<Longrightarrow> cells m a = Some n \<Longrightarrow> sn_params n' = sn_params n \<Longrightarrow> nodes_labelled (m\<lparr>cells := (cells m)(a \<mapsto> n')\<rparr>)"
  by (auto simp: nodes_labelled_def)

lemma nodes_labelled_link: "sl_link_all x u is m = Some m' \<Longrightarrow> nodes_labelled m \<Longrightarrow> nodes_labelled m'"
proof (induction "is" arbitrary: m)
  case (Cons i "is")
  have set: "nodes_labelled b" if "set_forward j a y m = Some b" "nodes_labelled m" for j a y m b
    by (insert that, auto simp: set_forward_def bind_Some_iff split: if_splits, erule (1) nodes_labelled_set, simp)
  from Cons show ?case
    by (auto simp: sl_link_def bind_Some_iff dest!: set)
qed auto

lemma labels_wb_insert [label_intro]: "do_wb_insert draws r s = Some (rc, s') \<Longrightarrow> labels_ok s \<Longrightarrow> labels_ok s'"
proof -
  have mal: "nodes_labelled (snd (malloc n m))" if "nodes_labelled m" "sn_params n = None" for n m
    using that by (auto simp: nodes_labelled_def malloc_def wb_labels_def)
  have ins: "nodes_labelled (sl_mem l')" if l: "skiplist_insert draws l k v d = Some (e, l')" "nodes_labelled (sl_mem l)" for l k v d e l'
    by (insert l, auto simp: skiplist_insert_def bind_Some_iff Let_def case_prod_beta blank_snode_def split: if_splits
        elim!: nodes_labelled_modify dest!: nodes_labelled_link intro!: mal,
        (erule (1) nodes_labelled_set, simp)+)
  have wb: "labels_ok (s\<lparr>wb := l\<rparr>)" if "labels_ok s" "nodes_labelled (sl_mem l)" for s l
    using that by (auto simp: labels_ok_def nodes_labelled_def)
  have nl: "nodes_labelled (sl_mem (wb s))" if "labels_ok s" for s
    using that by (auto simp: labels_ok_def nodes_labelled_def)
  show "labels_ok s'" if w: "do_wb_insert draws r s = Some (rc, s')" and ok: "labels_ok s"
  proof -
    obtain q e l s1 where s: "reqs s r = Some q" "skiplist_insert draws (wb s) (r_key q) (r_value q) True = Some (e, l)"
      "modify_wbe e (\<lambda>n. n\<lparr>sn_hash_params := r_h_params q\<rparr>) (s\<lparr>wb := l\<rparr>) = Some s1"
      "modify_req r (\<lambda>q. q\<lparr>r_h_params := None, r_value := None\<rparr>) s1 = Some s'"
      using w by (auto simp: do_wb_insert_def bind_Some_iff)
    have "labels_ok s1"
      using s(3) wb [OF ok ins [OF s(2) nl [OF ok]]] by (rule labels_modify_wbe) simp
    with s(4) show ?thesis
      by (rule labels_modify_req) simp
  qed
qed

lemma labels_ensure [label_intro]: "ensure_hash_params r s = Some s' \<Longrightarrow> labels_ok s \<Longrightarrow> labels_ok s'"
  by (auto simp: ensure_hash_params_def bind_Some_iff split: if_splits elim!: labels_modify_req)

lemma labels_demand_set: "demand_set g clk junk draws r s = Some s' \<Longrightarrow> labels_ok s \<Longrightarrow> labels_ok s'"
  by (auto simp: demand_set_def demand_set_inner_def flush_buffer_def do_wb_assign_ppa_def do_wb_mapping_update_def bind_Some_iff
      split: if_splits
      dest!: labels_ensure labels_assign_loop labels_enqueue labels_update_loop labels_release labels_flush labels_wb_insert)

lemma labels_demand_get: "demand_get now r s = Some s' \<Longrightarrow> labels_ok s \<Longrightarrow> labels_ok s'"
  by (auto simp: demand_get_def bind_Some_iff split: if_splits dest!: labels_ensure labels_rd_run labels_not_found)

lemma labels_start:
  assumes "\<And>r q. reqs s r = Some q \<Longrightarrow> r_params q \<in> rd_labels"
  shows "returns (demand_create g keys0 s) (\<lambda>s'. labels_ok s' \<and> reqs s' = reqs s \<and> max_try (denv s') = 0)"
  using assms by (intro returns_mono [OF demand_create_returns])
    (auto simp: labels_ok_def skiplist_init_def malloc_def empty_mem_def blank_snode_def wb_labels_def rd_labels_def)

text \<open>
  C6. The labels of the state machines are well typed (progress and preservation).  \<open>labels_ok\<close> says
  that a request stores at most the labels \<open>GOTO_LIST\<close> and \<open>GOTO_COMPLETE\<close> and a buffer entry at most
  these and \<open>GOTO_UPDATE\<close>.  In such a state the read path dispatches every label a request stores,
  and resumes it there with the label removed; the write path does the same with the label of an
  entry; and reads, writes with the flushes and collections they trigger, and the run of a single
  entry inside a flush lead to such states again.  The other labels of \<open>jump_t\<close>, and \<open>GOTO_UPDATE\<close> on
  the read path, which has no case for it, are never stored.
\<close>

theorem stored_labels_dispatch:
  assumes "labels_ok s"
  shows "(\<forall>r q j h lpa. reqs s r = Some q \<and> r_params q = Some j \<and> hp_cnt h \<le> max_try (denv s) \<longrightarrow>
      (\<exists>l pte. rd_jump_label j = Some l \<and>
         rd_at_retry r q h lpa s = Some (rd_goto l, pte, s\<lparr>reqs := (reqs s)(r \<mapsto> q\<lparr>r_params := None\<rparr>)\<rparr>))) \<and>
    (\<forall>e n j h lpa v. cells (sl_mem (wb s)) e = Some n \<and> sn_params n = Some j \<and> hp_cnt h \<le> MAX_HASH_COLLISION \<longrightarrow>
      (\<exists>l s'. jump_label j = Some l \<and> wb_at_retry e n h lpa v s = Some (wb_goto l, v, s') \<and> free_iparams (Wbe e) s = Some s')) \<and>
    (\<forall>now r s'. demand_get now r s = Some s' \<longrightarrow> labels_ok s') \<and>
    (\<forall>g clk junk draws r s'. demand_set g clk junk draws r s = Some s' \<longrightarrow> labels_ok s') \<and>
    (\<forall>now r e l v u v' s'. wb_entry_run now r e l v s = Some (u, v', s') \<longrightarrow> labels_ok s')"
proof -
  note ok = assms [unfolded labels_ok_def]
  have "\<exists>l pte. rd_jump_label j = Some l \<and>
      rd_at_retry r q h lpa s = Some (rd_goto l, pte, s\<lparr>reqs := (reqs s)(r \<mapsto> q\<lparr>r_params := None\<rparr>)\<rparr>)"
    if "reqs s r = Some q" "r_params q = Some j" "hp_cnt h \<le> max_try (denv s)" for r q j h lpa
  proof -
    have "Some j \<in> rd_labels"
      using ok that by metis
    then show ?thesis
      using that by (auto simp: rd_labels_def rd_at_retry_def rd_jump_label_def free_iparams_def modify_req_def)
  qed
  moreover have "\<exists>l s'. jump_label j = Some l \<and> wb_at_retry e n h lpa v s = Some (wb_goto l, v, s') \<and> free_iparams (Wbe e) s = Some s'"
    if "cells (sl_mem (wb s)) e = Some n" "sn_params n = Some j" "hp_cnt h \<le> MAX_HASH_COLLISION" for e n j h lpa and v :: wb_locals
  proof -
    have "Some j \<in> wb_labels"
      using ok that by metis
    then show ?thesis
      using that by (auto simp: wb_labels_def wb_at_retry_def jump_label_def free_iparams_def modify_wbe_def modify_def)
  qed
  moreover note labels_demand_get [OF _ assms] labels_demand_set [OF _ assms] labels_wb_run [OF _ assms]
  ultimately show ?thesis
    by (intro conjI allI impI; (elim conjE)?)
qed

lemma stored_labels_dispatch_witness:
  "\<forall>s. returns (demand_create 0 (\<lambda>_. []) (s\<lparr>reqs := [0 \<mapsto> (demo_request DATAR [] 0)\<lparr>r_params := Some GOTO_LIST\<rparr>]\<rparr>)) (\<lambda>s0.
     \<exists>pte s1. rd_at_retry 0 ((demo_request DATAR [] 0)\<lparr>r_params := Some GOTO_LIST\<rparr>) (make_hash_params []) 7 s0 =
       Some (rd_goto rd_cache_list_up, pte, s1) \<and> map_option r_params (reqs s1 0) = Some None)"
proof
  fix s :: sys
  let ?q = "(demo_request DATAR [] 0)\<lparr>r_params := Some GOTO_LIST\<rparr>"
  have "returns (demand_create 0 (\<lambda>_. []) (s\<lparr>reqs := [0 \<mapsto> ?q]\<rparr>)) (\<lambda>s0. labels_ok s0 \<and> reqs s0 = [0 \<mapsto> ?q] \<and> max_try (denv s0) = 0)"
    by (rule labels_start [where s = "s\<lparr>reqs := [0 \<mapsto> ?q]\<rparr>", simplified]) (auto simp: rd_labels_def split: if_splits)
  then show "returns (demand_create 0 (\<lambda>_. []) (s\<lparr>reqs := [0 \<mapsto> ?q]\<rparr>)) (\<lambda>s0.
     \<exists>pte s1. rd_at_retry 0 ?q (make_hash_params []) 7 s0 = Some (rd_goto rd_cache_list_up, pte, s1) \<and>
       map_option r_params (reqs s1 0) = Some None)"
  proof (rule returns_mono)
    fix s0 assume s0: "labels_ok s0 \<and> reqs s0 = [0 \<mapsto> ?q] \<and> max_try (denv s0) = 0"
    then have "reqs s0 0 = Some ?q \<and> r_params ?q = Some GOTO_LIST \<and> hp_cnt (make_hash_params []) \<le> max_try (denv s0)"
      by (simp add: make_hash_params_def)
    with stored_labels_dispatch [OF conjunct1 [OF s0], THEN conjunct1]
    obtain l pte where "rd_jump_label GOTO_LIST = Some l"
      "rd_at_retry 0 ?q (make_hash_params []) 7 s0 = Some (rd_goto l, pte, s0\<lparr>reqs := (reqs s0)(0 \<mapsto> ?q\<lparr>r_params := None\<rparr>)\<rparr>)"
      by blast
    then show "\<exists>pte s1. rd_at_retry 0 ?q (make_hash_params []) 7 s0 = Some (rd_goto rd_cache_list_up, pte, s1) \<and>
       map_option r_params (reqs s1 0) = Some None"
      by (auto simp: rd_jump_label_def)
  qed
qed

end
