(* ===== verification/LsmPage.thy ===== *)
theory LsmPage
  imports Keys
begin

text \<open>
  The metadata pages of the LSM-tree store, \<^verbatim>\<open>lsmtree_kvssd\<close>: a page of 4096 bytes starts with an
  array of 16-bit offsets (\<^verbatim>\<open>bitmap\<close>), whose element 0 is the number of entries and whose element
  \<open>i\<close> is where entry \<open>i\<close> starts; an entry is a flash page number in four bytes and the key.  The
  theory models the readers and writers of \<^verbatim>\<open>array/array.c\<close>, \<^verbatim>\<open>array/array_level.c\<close>,
  \<^verbatim>\<open>array/pipe_merger.c\<close> and \<^verbatim>\<open>lsmtree/lsm_utils.c\<close> on the bytes of a page.  The key comparison
  is the one of \<open>Keys\<close>, which \<^verbatim>\<open>lsmtree/lsm_settings.h\<close> repeats.
\<close>

section \<open>Bytes\<close>

type_synonym page = "u8 list"

definition KEYBITMAP :: nat where "KEYBITMAP = 1024"

text \<open>\<^verbatim>\<open>bitmap[i]\<close>, little endian; an access outside the page is undefined.\<close>

definition get16 :: "page \<Rightarrow> nat \<Rightarrow> nat option" where
  "get16 p i = (if 2 * i + 1 < length p then Some (unat (p ! (2 * i)) + 256 * unat (p ! (2 * i + 1))) else None)"

definition put16 :: "nat \<Rightarrow> nat \<Rightarrow> page \<Rightarrow> page option" where
  "put16 i v p = (if 2 * i + 1 < length p then Some (p[2 * i := of_nat v, 2 * i + 1 := of_nat (v div 256)]) else None)"

definition memread :: "page \<Rightarrow> nat \<Rightarrow> nat \<Rightarrow> u8 list option" where
  "memread p off n = (if off + n \<le> length p then Some (take n (drop off p)) else None)"

definition memwrite :: "nat \<Rightarrow> u8 list \<Rightarrow> page \<Rightarrow> page option" where
  "memwrite off bs p = (if off + length bs \<le> length p then Some (take off p @ bs @ drop (off + length bs) p) else None)"

definition le32 :: "nat \<Rightarrow> u8 list" where
  "le32 v = [of_nat v, of_nat (v div 2 ^ 8), of_nat (v div 2 ^ 16), of_nat (v div 2 ^ 24)]"

definition from_le32 :: "u8 list \<Rightarrow> nat" where
  "from_le32 bs = unat (bs ! 0) + 2 ^ 8 * unat (bs ! 1) + 2 ^ 16 * unat (bs ! 2) + 2 ^ 24 * unat (bs ! 3)"

lemma returns_map_option [simp]: "returns (map_option f m) Q \<longleftrightarrow> returns m (\<lambda>x. Q (f x))"
  by (cases m) auto

section \<open>Readers\<close>

text \<open>The entry at an index; the length of the key is cut to eight bits.\<close>

definition header_ppa :: "page \<Rightarrow> nat \<Rightarrow> ppa_t option" where
  "header_ppa p idx = do { off \<leftarrow> get16 p idx; bs \<leftarrow> memread p off 4; Some (from_le32 bs) }"

definition header_key :: "page \<Rightarrow> nat \<Rightarrow> str_key option" where
  "header_key p idx = do {
     a \<leftarrow> get16 p idx;
     b \<leftarrow> get16 p (idx + 1);
     memread p (a + 4) (nat ((int b - int a - 4) mod 2 ^ 8))
   }"

text \<open>\<^verbatim>\<open>array_find_keyset\<close>: the offset of the entry, which the callers read as a \<^verbatim>\<open>keyset\<close>.\<close>

function find_keyset_loop :: "page \<Rightarrow> str_key \<Rightarrow> int \<Rightarrow> int \<Rightarrow> nat option option" where
  "find_keyset_loop p lpa s e =
     (if s \<le> e then
        (let mid = (s + e) div 2 in
         case header_key p (nat mid) of
           None \<Rightarrow> None
         | Some target \<Rightarrow>
             (let res = KEYCMP target lpa in
              if res = 0 then map_option Some (get16 p (nat mid))
              else if res < 0 then find_keyset_loop p lpa (mid + 1) e
              else find_keyset_loop p lpa s (mid - 1)))
      else Some None)"
  by pat_completeness auto
termination
  by (relation "measure (\<lambda>(p, lpa, s, e). nat (e + 1 - s))") auto

declare find_keyset_loop.simps [simp del]

definition array_find_keyset :: "page \<Rightarrow> str_key \<Rightarrow> nat option option" where
  "array_find_keyset p lpa = do { n \<leftarrow> get16 p 0; find_keyset_loop p lpa 1 (int n) }"

text \<open>\<^verbatim>\<open>array_find_idx_lower_bound\<close>; the result of the last comparison and its index are kept.\<close>

function lower_bound_loop :: "page \<Rightarrow> str_key \<Rightarrow> int \<Rightarrow> int \<Rightarrow> int \<Rightarrow> int \<Rightarrow> nat option" where
  "lower_bound_loop p lpa s e mid res =
     (if s \<le> e then
        (let mid = (s + e) div 2 in
         case header_key p (nat mid) of
           None \<Rightarrow> None
         | Some target \<Rightarrow>
             (let res = KEYCMP target lpa in
              if res = 0 then Some (nat mid)
              else if res < 0 then lower_bound_loop p lpa (mid + 1) e mid res
              else lower_bound_loop p lpa s (mid - 1) mid res))
      else Some (if res < 0 then nat (mid + 1) else nat mid))"
  by pat_completeness auto
termination
  by (relation "measure (\<lambda>(p, lpa, s, e, mid, res). nat (e + 1 - s))") auto

declare lower_bound_loop.simps [simp del]

definition array_find_idx_lower_bound :: "page \<Rightarrow> str_key \<Rightarrow> nat option" where
  "array_find_idx_lower_bound p lpa = do { n \<leftarrow> get16 p 0; lower_bound_loop p lpa 1 (int n) 0 0 }"

text \<open>
  \<^verbatim>\<open>for_each_header_start\<close>: the entries from an index on, up to the offset \<^verbatim>\<open>UINT16_MAX\<close> or the
  number of entries; \<open>n\<close> counts down the indices that are left.
\<close>

definition UINT16_MAX :: nat where "UINT16_MAX = 65535"

fun header_entries_from :: "page \<Rightarrow> nat \<Rightarrow> nat \<Rightarrow> (str_key \<times> ppa_t) list option" where
  "header_entries_from p idx 0 = (case get16 p idx of None \<Rightarrow> None | Some _ \<Rightarrow> Some [])"
| "header_entries_from p idx (Suc n) = do {
     off \<leftarrow> get16 p idx;
     if off = UINT16_MAX then Some []
     else do {
       k \<leftarrow> header_key p idx;
       a \<leftarrow> header_ppa p idx;
       rest \<leftarrow> header_entries_from p (idx + 1) n;
       Some ((k, a) # rest)
     }
   }"

definition header_entries :: "page \<Rightarrow> (str_key \<times> ppa_t) list option" where
  "header_entries p = do { n \<leftarrow> get16 p 0; header_entries_from p 1 n }"

text \<open>\<^verbatim>\<open>KEYVALCHECK\<close>: the first byte is compared as a signed \<^verbatim>\<open>char\<close>.\<close>

definition KEYVALCHECK :: "str_key \<Rightarrow> bool" where
  "KEYVALCHECK a \<longleftrightarrow> 0 < length a \<and> hd a < 0x80"

text \<open>\<^verbatim>\<open>keyset_check\<close> looks at all entries but the last.\<close>

fun keyset_check_from :: "page \<Rightarrow> nat \<Rightarrow> nat \<Rightarrow> bool option" where
  "keyset_check_from p idx 0 = Some True"
| "keyset_check_from p idx (Suc n) = do {
     k \<leftarrow> header_key p idx;
     if KEYVALCHECK k then keyset_check_from p (idx + 1) n else Some False
   }"

definition keyset_check :: "page \<Rightarrow> bool option" where
  "keyset_check p = do { n \<leftarrow> get16 p 0; keyset_check_from p 1 (n - 1) }"

section \<open>Writers\<close>

text \<open>The loop over the nodes of a skip list, given as its keys and page numbers; \<^verbatim>\<open>data_start\<close> has 16 bits.\<close>

definition put_entry :: "nat \<Rightarrow> str_key \<times> ppa_t \<Rightarrow> page \<Rightarrow> page option" where
  "put_entry off e p = do {
     p1 \<leftarrow> memwrite off (le32 (snd e)) p;
     memwrite (off + 4) (fst e) p1
   }"

fun put_entries :: "nat \<Rightarrow> nat \<Rightarrow> (str_key \<times> ppa_t) list \<Rightarrow> page \<Rightarrow> (nat \<times> nat \<times> page) option" where
  "put_entries idx data_start [] p = Some (idx, data_start, p)"
| "put_entries idx data_start (e # es) p = do {
     p1 \<leftarrow> put_entry data_start e p;
     p2 \<leftarrow> put16 idx data_start p1;
     put_entries (idx + 1) ((data_start + length (fst e) + 4) mod 2 ^ 16) es p2
   }"

text \<open>\<^verbatim>\<open>array_skip_cvt2_data\<close>: \<open>garbage\<close> is the allocated page; an invalid key aborts.\<close>

definition array_skip_cvt2_data :: "page \<Rightarrow> (str_key \<times> ppa_t) list \<Rightarrow> page option" where
  "array_skip_cvt2_data garbage es =
     (if \<exists>e \<in> set es. \<not> KEYVALCHECK (fst e) then None
      else do {
        (idx, data_start, p) \<leftarrow> put_entries 1 KEYBITMAP es garbage;
        p1 \<leftarrow> put16 0 (idx - 1) p;
        put16 idx data_start p1
      })"

text \<open>
  \<^verbatim>\<open>array_mem_cvt2table\<close>: the page is zeroed, half of its offset array is filled with ones (the
  byte count passed to \<^verbatim>\<open>memset\<close> is the number of 16-bit elements), and \<open>size\<close> is the stored size of the list.
  The result has the first key, and the last one if there is more than one.
\<close>

definition array_mem_cvt2table :: "nat \<Rightarrow> (str_key \<times> ppa_t) list \<Rightarrow> (str_key option \<times> str_key option \<times> page) option" where
  "array_mem_cvt2table sz es = do {
     let p0 = replicate (KEYBITMAP div 2) 0xFF @ replicate (PAGESIZE - KEYBITMAP div 2) 0;
     p1 \<leftarrow> put16 0 sz p0;
     (idx, data_start, p2) \<leftarrow> put_entries 1 KEYBITMAP es p1;
     p3 \<leftarrow> put16 idx data_start p2;
     Some (case es of [] \<Rightarrow> None | e # _ \<Rightarrow> Some (fst e),
           if 1 < sz \<and> sz \<le> length es then Some (fst (es ! (sz - 1))) else None, p3)
   }"

section \<open>Layout\<close>

abbreviation entry_size :: "str_key \<times> ppa_t \<Rightarrow> nat" where
  "entry_size e \<equiv> length (fst e) + 4"

definition hoff :: "(str_key \<times> ppa_t) list \<Rightarrow> nat \<Rightarrow> nat" where
  "hoff es i = KEYBITMAP + sum_list (map entry_size (take i es))"

definition entries_fit :: "(str_key \<times> ppa_t) list \<Rightarrow> bool" where
  "entries_fit es \<longleftrightarrow> length es \<le> 510 \<and> hoff es (length es) \<le> PAGESIZE \<and> (\<forall>e \<in> set es. length (fst e) < 256 \<and> snd e < 2 ^ 32)"

text \<open>The page lists the entries \<open>es\<close>.\<close>

definition header_page :: "page \<Rightarrow> (str_key \<times> ppa_t) list \<Rightarrow> bool" where
  "header_page p es \<longleftrightarrow> length p = PAGESIZE \<and> entries_fit es \<and> get16 p 0 = Some (length es) \<and>
     (\<forall>i \<le> length es. get16 p (i + 1) = Some (hoff es i)) \<and>
     (\<forall>i < length es. memread p (hoff es i) (entry_size (es ! i)) = Some (le32 (snd (es ! i)) @ fst (es ! i)))"

lemma from_le32_le32: "v < 2 ^ 32 \<Longrightarrow> from_le32 (le32 v) = v"
proof -
  assume "v < 2 ^ 32"
  have b: "unat (of_nat n :: u8) = n mod 256" for n
    by (simp add: unat_of_nat)
  have d: "v div 65536 = v div 256 div 256" "v div 16777216 = v div 65536 div 256"
    by (simp_all add: div_mult2_eq [symmetric])
  have top: "v div 16777216 mod 256 = v div 16777216"
    using \<open>v < 2 ^ 32\<close> by (simp add: less_mult_imp_div_less)
  have "v = v mod 256 + 256 * (v div 256)" "v div 256 = v div 256 mod 256 + 256 * (v div 65536)"
    "v div 65536 = v div 65536 mod 256 + 256 * (v div 16777216)"
    unfolding d by (simp_all only: mod_mult_div_eq)
  then have "v mod 256 + 256 * (v div 256 mod 256) + 65536 * (v div 65536 mod 256) + 16777216 * (v div 16777216 mod 256) = v"
    using top by linarith
  then show ?thesis
    using top by (simp add: from_le32_def le32_def b)
qed

lemma get16_put16:
  assumes "put16 i v p = Some p'"
  shows "get16 p' j = (if i = j then Some (v mod 2 ^ 16) else get16 p j)" "length p' = length p"
proof -
  have i: "2 * i + 1 < length p" "p' = p[2 * i := of_nat v, 2 * i + 1 := of_nat (v div 256)]"
    using assms by (auto simp: put16_def split: if_splits)
  have v: "v mod 2 ^ 8 + 256 * (v div 256 mod 2 ^ 8) = v mod 2 ^ 16"
    using mod_mult2_eq [of v 256 256] by simp
  have odd: "2 * j + 1 \<noteq> 2 * k" "2 * j \<noteq> Suc (2 * k)" for j k :: nat
    by presburger+
  show "get16 p' j = (if i = j then Some (v mod 2 ^ 16) else get16 p j)"
    using i v odd by (auto simp: get16_def nth_list_update unat_of_nat)
  show "length p' = length p"
    using i by simp
qed

lemma memread_memwrite:
  assumes "memwrite off bs p = Some p'"
  shows "memread p' off (length bs) = Some bs" "length p' = length p"
    "a + n \<le> off \<or> off + length bs \<le> a \<Longrightarrow> memread p' a n = memread p a n"
proof -
  have p': "off + length bs \<le> length p" "p' = take off p @ bs @ drop (off + length bs) p"
    using assms by (auto simp: memwrite_def split: if_splits)
  show "memread p' off (length bs) = Some bs" "length p' = length p"
    using p' by (simp_all add: memread_def)
  assume "a + n \<le> off \<or> off + length bs \<le> a"
  then show "memread p' a n = memread p a n"
  proof
    assume "a + n \<le> off"
    then show ?thesis
      using p' by (simp add: memread_def drop_take)
  next
    assume "off + length bs \<le> a"
    then obtain k where "a = off + length bs + k"
      by (auto simp: le_iff_add)
    then show ?thesis
      using p' by (simp add: memread_def add.commute)
  qed
qed

lemma get16_memread: "get16 p i = map_option (\<lambda>bs. unat (bs ! 0) + 256 * unat (bs ! 1)) (memread p (2 * i) 2)"
  by (auto simp: get16_def memread_def)

lemma get16_memwrite: "memwrite off bs p = Some p' \<Longrightarrow> 2 * i + 2 \<le> off \<Longrightarrow> get16 p' i = get16 p i"
  using memread_memwrite(3) [of off bs p p' "2 * i" 2] by (simp add: get16_memread)

lemma memread_put16:
  assumes "put16 i v p = Some p'" and "2 * i + 2 \<le> off"
  shows "memread p' off n = memread p off n"
  using assms by (auto simp: put16_def memread_def split: if_splits)

lemma take_drop_add: "take (n + m) (drop a p) = take n (drop a p) @ take m (drop (a + n) p)"
  by (simp add: take_add add.commute [of n a])

lemma memread_length: "memread p a n = Some xs \<Longrightarrow> length xs = n"
  by (auto simp: memread_def split: if_splits)

lemma memread_append: "memread p a (n + m) = Some (xs @ ys) \<Longrightarrow> length xs = n \<Longrightarrow> memread p a n = Some xs \<and> memread p (a + n) m = Some ys"
  by (auto simp: memread_def take_drop_add append_eq_append_conv split: if_splits)

lemma memread_appendI: "memread p a n = Some xs \<Longrightarrow> memread p (a + n) m = Some ys \<Longrightarrow> memread p a (n + m) = Some (xs @ ys)"
  by (auto simp: memread_def take_drop_add split: if_splits)

lemma length_le32 [simp]: "length (le32 v) = 4"
  by (simp add: le32_def)

lemma put_entry_reads:
  assumes "off + entry_size e \<le> length p"
  obtains p' where "put_entry off e p = Some p'" "length p' = length p"
    "memread p' off (entry_size e) = Some (le32 (snd e) @ fst e)"
    "\<And>a n. a + n \<le> off \<Longrightarrow> memread p' a n = memread p a n"
proof -
  obtain p1 where p1: "memwrite off (le32 (snd e)) p = Some p1"
    using assms by (simp add: memwrite_def)
  note w1 = memread_memwrite [OF p1]
  obtain p2 where p2: "memwrite (off + 4) (fst e) p1 = Some p2"
    using assms w1(2) by (simp add: memwrite_def)
  note w2 = memread_memwrite [OF p2]
  have "memread p2 off 4 = Some (le32 (snd e))"
    using w1(1) w2(3) [of off 4] by simp
  then have "memread p2 off (4 + length (fst e)) = Some (le32 (snd e) @ fst e)"
    using w2(1) by (intro memread_appendI) simp_all
  then show thesis
    using p1 p2 w1(2,3) w2(2,3) by (intro that [of p2]) (simp_all add: put_entry_def add.commute)
qed

section \<open>Writing and reading a page\<close>

abbreviation entry_bytes :: "str_key \<times> ppa_t \<Rightarrow> u8 list" where
  "entry_bytes e \<equiv> le32 (snd e) @ fst e"

text \<open>The first \<open>n\<close> of the entries \<open>es\<close> are in place.\<close>

definition entries_in :: "page \<Rightarrow> (str_key \<times> ppa_t) list \<Rightarrow> nat \<Rightarrow> bool" where
  "entries_in p es n \<longleftrightarrow> length p = PAGESIZE \<and> (\<forall>i < n. get16 p (i + 1) = Some (hoff es i) \<and>
     memread p (hoff es i) (entry_size (es ! i)) = Some (entry_bytes (es ! i)))"

lemma hoff_Suc: "i < length es \<Longrightarrow> hoff es (Suc i) = hoff es i + entry_size (es ! i)"
  by (simp add: hoff_def take_Suc_conv_app_nth)

lemma hoff_mono: "i \<le> j \<Longrightarrow> hoff es i \<le> hoff es j"
  by (auto simp: hoff_def le_iff_add take_add)

lemma hoff_append [simp]: "i \<le> length es \<Longrightarrow> hoff (es @ fs) i = hoff es i"
  by (simp add: hoff_def)

lemma hoff_0 [simp]: "hoff es 0 = KEYBITMAP"
  by (simp add: hoff_def)

lemma hoff_ge: "KEYBITMAP \<le> hoff es i"
  by (simp add: hoff_def)

lemma entries_fit_bound: "entries_fit es \<Longrightarrow> i \<le> length es \<Longrightarrow> hoff es i \<le> PAGESIZE"
  using hoff_mono [of i "length es" es] by (simp add: entries_fit_def)

text \<open>One entry is appended behind the others.\<close>

lemma put_entry_step:
  assumes "entries_in p es n" "n < length es" "hoff es (Suc n) \<le> PAGESIZE" "n < 510"
  obtains p1 p2 where "put_entry (hoff es n) (es ! n) p = Some p1" "put16 (n + 1) (hoff es n) p1 = Some p2"
    "entries_in p2 es (Suc n)" "get16 p2 0 = get16 p 0"
proof -
  have len: "length p = PAGESIZE"
    using assms(1) by (simp add: entries_in_def)
  have fits: "hoff es n + entry_size (es ! n) \<le> length p"
    using assms(2,3) len by (simp add: hoff_Suc)
  obtain p1 where p1: "put_entry (hoff es n) (es ! n) p = Some p1" "length p1 = length p"
    "memread p1 (hoff es n) (entry_size (es ! n)) = Some (entry_bytes (es ! n))"
    "\<And>a m. a + m \<le> hoff es n \<Longrightarrow> memread p1 a m = memread p a m"
    using put_entry_reads [OF fits] by blast
  have "2 * (n + 1) + 1 < length p1"
    using p1(2) len assms(4) by (simp add: PAGESIZE_def)
  then obtain p2 where p2: "put16 (n + 1) (hoff es n) p1 = Some p2"
    by (simp add: put16_def)
  note w = get16_put16 [OF p2] memread_put16 [OF p2]
  have g16: "get16 p1 i = get16 p i" if "i \<le> 510" for i
    using that p1(4) [of "2 * i" 2] hoff_ge [of es n] by (simp add: get16_memread KEYBITMAP_def)
  have small: "hoff es n < 2 ^ 16"
    using assms(2,3) hoff_mono [of n "Suc n" es] by (simp add: PAGESIZE_def)
  have far: "2 * (n + 1) + 2 \<le> hoff es i" for i
    using hoff_ge [of es i] assms(4) by (simp add: KEYBITMAP_def)
  have "entries_in p2 es (Suc n)"
    unfolding entries_in_def
  proof (intro conjI allI impI)
    show "length p2 = PAGESIZE"
      using w(2) p1(2) len by simp
  next
    fix i assume "i < Suc n"
    show "get16 p2 (i + 1) = Some (hoff es i)"
      using \<open>i < Suc n\<close> assms(1,4) small g16 [of "i + 1"] w(1) [of "i + 1"] by (auto simp: entries_in_def)
    show "memread p2 (hoff es i) (entry_size (es ! i)) = Some (entry_bytes (es ! i))"
    proof (cases "i = n")
      case False
      then have "hoff es i + entry_size (es ! i) \<le> hoff es n"
        using \<open>i < Suc n\<close> assms(2) hoff_mono [of "Suc i" n es] by (simp add: hoff_Suc)
      then show ?thesis
        using False \<open>i < Suc n\<close> assms(1) p1(4) far w(3) by (simp add: entries_in_def)
    qed (use p1(3) far w(3) in simp)
  qed
  moreover have "get16 p2 0 = get16 p 0"
    using w(1) [of 0] g16 [of 0] by simp
  ultimately show thesis
    using p1(1) p2 by (intro that)
qed

lemma put_entries_in:
  assumes "entries_in p es n" "n \<le> length es" "entries_fit es"
  obtains p' where "put_entries (n + 1) (hoff es n) (drop n es) p = Some (length es + 1, hoff es (length es), p')"
    "entries_in p' es (length es)" "get16 p' 0 = get16 p 0"
  using assms
proof (induction "length es - n" arbitrary: n p thesis)
  case 0
  then show ?case by simp
next
  case (Suc k)
  then have n: "n < length es" "hoff es (Suc n) \<le> PAGESIZE" "n < 510"
    using entries_fit_bound [of es "Suc n"] by (auto simp: entries_fit_def)
  obtain p1 p2 where p: "put_entry (hoff es n) (es ! n) p = Some p1" "put16 (n + 1) (hoff es n) p1 = Some p2"
    "entries_in p2 es (Suc n)" "get16 p2 0 = get16 p 0"
    using put_entry_step [OF Suc.prems(2) n] by blast
  have "k = length es - Suc n" "Suc n \<le> length es"
    using Suc.hyps(2) n by auto
  then obtain p' where p': "put_entries (Suc n + 1) (hoff es (Suc n)) (drop (Suc n) es) p2 =
      Some (length es + 1, hoff es (length es), p')" "entries_in p' es (length es)" "get16 p' 0 = get16 p2 0"
    using Suc.hyps(1) [OF _ _ p(3) _ Suc.prems(4)] by blast
  have next_off: "(hoff es n + length (fst (es ! n)) + 4) mod 2 ^ 16 = hoff es (Suc n)"
    using n by (simp add: hoff_Suc PAGESIZE_def)
  have "put_entries (n + 1) (hoff es n) (drop n es) p = Some (length es + 1, hoff es (length es), p')"
    unfolding Cons_nth_drop_Suc [OF n(1), symmetric] put_entries.simps next_off using p p'(1) by simp
  then show ?case
    using p'(2,3) p(4) by (intro Suc.prems(1) [of p']) simp_all
qed

lemma finish_page:
  assumes "entries_in p es (length es)" "entries_fit es"
  obtains p1 p2 where "put16 0 (length es) p = Some p1" "put16 (length es + 1) (hoff es (length es)) p1 = Some p2" "header_page p2 es"
    "\<And>q. put16 (length es + 1) (hoff es (length es)) p = Some q \<Longrightarrow> get16 p 0 = Some (length es) \<Longrightarrow> header_page q es"
proof -
  have len: "length p = PAGESIZE" "length es \<le> 510" "hoff es (length es) < 2 ^ 16"
    using assms by (auto simp: entries_in_def entries_fit_def PAGESIZE_def)
  have far: "2 * (length es + 1) + 2 \<le> hoff es i" for i
    using hoff_ge [of es i] len by (simp add: KEYBITMAP_def)
  have last: "header_page q es" if q: "put16 (length es + 1) (hoff es (length es)) r = Some q" and r: "entries_in r es (length es)"
    "get16 r 0 = Some (length es)" for q r
    using r assms(2) len get16_put16 [OF q] memread_put16 [OF q far]
    by (auto simp: header_page_def entries_in_def le_less)
  obtain p1 where p1: "put16 0 (length es) p = Some p1"
    using len by (simp add: put16_def PAGESIZE_def)
  note w = get16_put16 [OF p1] memread_put16 [OF p1]
  have "2 * 0 + 2 \<le> hoff es i" for i
    using far [of i] by simp
  then have e1: "entries_in p1 es (length es)" "get16 p1 0 = Some (length es)"
    using assms(1) w len by (auto simp: entries_in_def)
  obtain p2 where p2: "put16 (length es + 1) (hoff es (length es)) p1 = Some p2"
    using len w(2) by (simp add: put16_def PAGESIZE_def)
  show thesis
    using p1 p2 last [OF p2 e1] last [OF _ assms(1)] by (intro that)
qed

text \<open>Both writers lay out a page that lists the entries.\<close>

lemma entries_in_0: "length p = PAGESIZE \<Longrightarrow> entries_in p es 0"
  by (simp add: entries_in_def)

lemma array_skip_cvt2_data_page:
  assumes "length garbage = PAGESIZE" "entries_fit es" "\<forall>e \<in> set es. KEYVALCHECK (fst e)"
  shows "returns (array_skip_cvt2_data garbage es) (\<lambda>p. header_page p es)"
proof -
  obtain p where p: "put_entries 1 KEYBITMAP es garbage = Some (length es + 1, hoff es (length es), p)" "entries_in p es (length es)"
    using put_entries_in [OF entries_in_0 [OF assms(1)], of es] assms(2) by auto
  obtain p1 p2 where "put16 0 (length es) p = Some p1" "put16 (length es + 1) (hoff es (length es)) p1 = Some p2" "header_page p2 es"
    using finish_page [OF p(2) assms(2)] by blast
  with p(1) assms(3) show ?thesis
    by (auto simp: array_skip_cvt2_data_def)
qed

lemma array_mem_cvt2table_page:
  assumes "entries_fit es"
  shows "returns (array_mem_cvt2table (length es) es) (\<lambda>(s, e, p). header_page p es \<and>
    s = (case es of [] \<Rightarrow> None | x # _ \<Rightarrow> Some (fst x)) \<and> e = (if 1 < length es then Some (fst (last es)) else None))"
proof -
  let ?p0 = "replicate (KEYBITMAP div 2) 0xFF @ replicate (PAGESIZE - KEYBITMAP div 2) (0 :: u8)"
  have len: "length ?p0 = PAGESIZE"
    by (simp add: KEYBITMAP_def PAGESIZE_def)
  obtain p1 where p1: "put16 0 (length es) ?p0 = Some p1"
    using len by (simp add: put16_def PAGESIZE_def)
  have e1: "entries_in p1 es 0" "get16 p1 0 = Some (length es)"
    using get16_put16 [OF p1] len assms by (auto simp: entries_in_def entries_fit_def)
  obtain p2 where p2: "put_entries 1 KEYBITMAP es p1 = Some (length es + 1, hoff es (length es), p2)"
    "entries_in p2 es (length es)" "get16 p2 0 = Some (length es)"
    using put_entries_in [OF e1(1) _ assms] e1(2) by auto
  obtain p3 where p3: "put16 (length es + 1) (hoff es (length es)) p2 = Some p3"
    using p2(2) assms by (auto simp: put16_def entries_in_def entries_fit_def PAGESIZE_def)
  moreover have "header_page p3 es"
    using finish_page [OF p2(2) assms] p3 p2(3) by blast
  moreover have "array_mem_cvt2table (length es) es = Some (case es of [] \<Rightarrow> None | x # _ \<Rightarrow> Some (fst x),
      if 1 < length es \<and> length es \<le> length es then Some (fst (es ! (length es - 1))) else None, p3)"
    unfolding array_mem_cvt2table_def Let_def p1 p2(1) bind.bind_lunit prod.case p3 by simp
  ultimately show ?thesis
    by (cases "es = []") (simp_all add: last_conv_nth)
qed

text \<open>The readers return the entries of such a page.\<close>

lemma header_key_page:
  assumes "header_page p es" "i < length es"
  shows "header_key p (i + 1) = Some (fst (es ! i))" "header_ppa p (i + 1) = Some (snd (es ! i))"
proof -
  have b: "get16 p (i + 1) = Some (hoff es i)" "get16 p (i + 1 + 1) = Some (hoff es (Suc i))"
    using assms by (auto simp: header_page_def)
  have e: "memread p (hoff es i) (4 + length (fst (es ! i))) = Some (entry_bytes (es ! i))"
    using assms by (simp add: header_page_def add.commute)
  note parts = memread_append [OF e length_le32]
  have small: "length (fst (es ! i)) < 256" "snd (es ! i) < 2 ^ 32"
    using assms by (auto simp: header_page_def entries_fit_def)
  have "nat ((int (hoff es (Suc i)) - int (hoff es i) - 4) mod 2 ^ 8) = length (fst (es ! i))"
    using small(1) assms(2) by (simp add: hoff_Suc)
  then show "header_key p (i + 1) = Some (fst (es ! i))"
    using b parts by (simp add: header_key_def)
  show "header_ppa p (i + 1) = Some (snd (es ! i))"
    using b(1) parts small(2) by (simp add: header_ppa_def from_le32_le32)
qed

lemma get16_not_max: "header_page p es \<Longrightarrow> i \<le> length es \<Longrightarrow> get16 p (i + 1) = Some (hoff es i) \<and> hoff es i \<noteq> UINT16_MAX"
  using entries_fit_bound [of es i] by (auto simp: header_page_def UINT16_MAX_def PAGESIZE_def)

lemma header_entries_page:
  assumes "header_page p es"
  shows "header_entries p = Some es"
proof -
  have "header_entries_from p (i + 1) (length es - i) = Some (drop i es)" if "i \<le> length es" for i
    using that
  proof (induction "length es - i" arbitrary: i)
    case 0
    then show ?case
      using get16_not_max [OF assms, of i] by simp
  next
    case (Suc k)
    then have i: "i < length es" "length es - i = Suc k" "k = length es - Suc i"
      by auto
    have "header_entries_from p (Suc i + 1) k = Some (drop (Suc i) es)"
      using Suc.hyps(1) [of "Suc i"] i by simp
    then show ?case
      using get16_not_max [OF assms, of i] header_key_page [OF assms i(1)] i Cons_nth_drop_Suc [OF i(1)] by simp
  qed
  from this [of 0] show ?thesis
    using assms by (simp add: header_entries_def header_page_def)
qed

section \<open>Searching a page\<close>

text \<open>The key order as facts for the searches.\<close>

lemma key_less_trans: "key_less a b \<Longrightarrow> key_less b c \<Longrightarrow> key_less a c"
  by (rule lexordp_trans)

lemma key_less_irrefl [simp]: "\<not> key_less a a"
  by (rule lexordp_irreflexive')

lemma key_less_asym: "key_less a b \<Longrightarrow> \<not> key_less b a"
  using key_less_trans key_less_irrefl by blast

lemma key_less_cases: obtains "key_less a b" | "a = b" | "key_less b a"
  using lexordp_linear [of a b] by blast

lemma KEYCMP_pos: "0 < KEYCMP a b \<longleftrightarrow> key_less b a"
  using lexordp_linear [of a b] key_less_asym by (auto simp: KEYCMP_lexordp)

definition keys_sorted :: "(str_key \<times> ppa_t) list \<Rightarrow> bool" where
  "keys_sorted es \<longleftrightarrow> sorted_wrt key_less (map fst es)"

lemma keys_sortedD: "keys_sorted es \<Longrightarrow> i < j \<Longrightarrow> j < length es \<Longrightarrow> key_less (fst (es ! i)) (fst (es ! j))"
  using sorted_wrt_nth_less [of key_less "map fst es" i j] by (simp add: keys_sorted_def)

text \<open>
  A binary search narrows a window \<open>s..e\<close> of indices: those before it are \<open>lo\<close>, those behind it
  \<open>hi\<close>.  The lemmas serve all the searches of the store.
\<close>

definition ordered_by :: "nat \<Rightarrow> (nat \<Rightarrow> bool) \<Rightarrow> (nat \<Rightarrow> bool) \<Rightarrow> bool" where
  "ordered_by n lo hi \<longleftrightarrow> (\<forall>i j. i \<le> j \<longrightarrow> j < n \<longrightarrow> lo j \<longrightarrow> lo i) \<and> (\<forall>i j. i \<le> j \<longrightarrow> j < n \<longrightarrow> hi i \<longrightarrow> hi j)"

definition window :: "nat \<Rightarrow> (nat \<Rightarrow> bool) \<Rightarrow> (nat \<Rightarrow> bool) \<Rightarrow> int \<Rightarrow> int \<Rightarrow> bool" where
  "window n lo hi s e \<longleftrightarrow> 0 \<le> s \<and> s \<le> e + 1 \<and> e < int n \<and>
     (\<forall>i < n. int i < s \<longrightarrow> lo i) \<and> (\<forall>i < n. e < int i \<longrightarrow> hi i)"

lemma window_start: "window n lo hi 0 (int n - 1)"
  by (simp add: window_def)

lemma window_mid:
  assumes "window n lo hi s e" "s \<le> e"
  obtains i where "(s + e) div 2 = int i" "i < n" "s \<le> int i" "int i \<le> e"
proof -
  have "s \<le> (s + e) div 2" "(s + e) div 2 \<le> e"
    using assms(2) by linarith+
  then show thesis
    using assms(1) by (intro that [of "nat ((s + e) div 2)"]) (auto simp: window_def)
qed

lemma window_step:
  assumes "window n lo hi s e" "ordered_by n lo hi" "s \<le> int i" "int i \<le> e" "i < n"
  shows "lo i \<Longrightarrow> window n lo hi (int i + 1) e" "hi i \<Longrightarrow> window n lo hi s (int i - 1)"
proof -
  note w = assms(1) [unfolded window_def] and o = assms(2) [unfolded ordered_by_def]
  show "window n lo hi (int i + 1) e" if "lo i"
    using w assms(3-5) that conjunct1 [OF o] by (auto simp: window_def)
  show "window n lo hi s (int i - 1)" if "hi i"
  proof -
    have "hi j" if "j < n" "int i - 1 < int j" for j
    proof -
      have "i \<le> j"
        using that(2) by linarith
      then show ?thesis
        using conjunct2 [OF o] \<open>hi i\<close> that(1) by blast
    qed
    then show ?thesis
      using w assms(3-5) by (auto simp: window_def)
  qed
qed

lemma window_closed:
  assumes "window n lo hi s e" "\<not> s \<le> e"
  shows "s = e + 1" "i < n \<Longrightarrow> int i < s \<Longrightarrow> lo i" "i < n \<Longrightarrow> s \<le> int i \<Longrightarrow> hi i"
  using assms by (auto simp: window_def)

abbreviation entry_below :: "(str_key \<times> ppa_t) list \<Rightarrow> str_key \<Rightarrow> nat \<Rightarrow> bool" where
  "entry_below es k i \<equiv> key_less (fst (es ! i)) k"

abbreviation entry_above :: "(str_key \<times> ppa_t) list \<Rightarrow> str_key \<Rightarrow> nat \<Rightarrow> bool" where
  "entry_above es k i \<equiv> key_less k (fst (es ! i))"

lemma entries_ordered: "keys_sorted es \<Longrightarrow> ordered_by (length es) (entry_below es k) (entry_above es k)"
  unfolding ordered_by_def
proof (intro conjI allI impI)
  assume sorted: "keys_sorted es"
  fix i j :: nat assume ij: "i \<le> j" "j < length es"
  have "i = j \<or> key_less (fst (es ! i)) (fst (es ! j))"
    using ij keys_sortedD [OF sorted, of i j] by (cases "i = j") auto
  then show "entry_below es k j \<Longrightarrow> entry_below es k i" "entry_above es k i \<Longrightarrow> entry_above es k j"
    by (auto intro: key_less_trans)
qed

lemma find_keyset_loop_correct:
  assumes "header_page p es" "keys_sorted es" "window (length es) (entry_below es k) (entry_above es k) (s - 1) (e - 1)"
  shows "returns (find_keyset_loop p k s e) (\<lambda>r. case r of
    Some off \<Rightarrow> (\<exists>i < length es. fst (es ! i) = k \<and> off = hoff es i) | None \<Rightarrow> \<forall>i < length es. fst (es ! i) \<noteq> k)"
  using assms(3)
proof (induction "nat (e + 1 - s)" arbitrary: s e rule: less_induct)
  case less
  note steps = window_step [OF less.prems entries_ordered [OF assms(2)]]
  show ?case
  proof (cases "s \<le> e")
    case False
    then have "\<not> s - 1 \<le> e - 1"
      by simp
    note closed = window_closed [OF less.prems this]
    have "fst (es ! i) \<noteq> k" if "i < length es" for i
      using closed(2,3) [OF that] key_less_irrefl [of k] by (cases "int i < s - 1") auto
    then show ?thesis
      using False by (subst find_keyset_loop.simps) simp
  next
    case True
    then have "s - 1 \<le> e - 1"
      by simp
    then obtain i where i: "(s - 1 + (e - 1)) div 2 = int i" "i < length es" "s - 1 \<le> int i" "int i \<le> e - 1"
      using window_mid [OF less.prems] by blast
    have mid: "(s + e) div 2 = int i + 1"
      using i(1) by linarith
    have key: "header_key p (nat (int i + 1)) = Some (fst (es ! i))"
      using header_key_page(1) [OF assms(1) i(2)] by (simp add: nat_add_distrib)
    have off: "get16 p (nat (int i + 1)) = Some (hoff es i)"
      using assms(1) i(2) by (simp add: header_page_def nat_add_distrib)
    show ?thesis
    proof (cases rule: key_less_cases [of "fst (es ! i)" k])
      case 1
      have "window (length es) (entry_below es k) (entry_above es k) (int i + 1 + 1 - 1) (e - 1)"
        using steps(1) [OF i(3,4,2) 1] by (simp only: add_diff_cancel_right')
      moreover have "nat (e + 1 - (int i + 1 + 1)) < nat (e + 1 - s)"
        using i by linarith
      ultimately show ?thesis
        using less.hyps 1 key_less_irrefl [of k] by (subst find_keyset_loop.simps) (auto simp: True mid key Let_def)
    next
      case 2
      then show ?thesis
        using i(2) by (subst find_keyset_loop.simps) (auto simp: True mid key off Let_def)
    next
      case 3
      have "window (length es) (entry_below es k) (entry_above es k) (s - 1) (int i + 1 - 1 - 1)"
        using steps(2) [OF i(3,4,2) 3] by simp
      moreover have "nat (int i + 1 - 1 + 1 - s) < nat (e + 1 - s)"
        using i by linarith
      ultimately show ?thesis
        using less.hyps [of "int i + 1 - 1" s] 3 key_less_irrefl [of k] key_less_asym [OF 3]
        by (subst find_keyset_loop.simps) (auto simp: True mid key Let_def)
    qed
  qed
qed

lemma lower_bound_loop_correct:
  assumes "header_page p es" "keys_sorted es" "window (length es) (entry_below es k) (entry_above es k) (s - 1) (e - 1)"
    "s \<le> e \<or> (if res < 0 then mid + 1 = s else mid = s)"
  shows "returns (lower_bound_loop p k s e mid res) (\<lambda>r. 1 \<le> r \<and> r \<le> length es + 1 \<and>
    (\<forall>i < length es. if i + 1 < r then key_less (fst (es ! i)) k else \<not> key_less (fst (es ! i)) k))"
  using assms(3,4)
proof (induction "nat (e + 1 - s)" arbitrary: s e mid res rule: less_induct)
  case less
  note steps = window_step [OF less.prems(1) entries_ordered [OF assms(2)]]
  show ?case
  proof (cases "s \<le> e")
    case False
    then have "\<not> s - 1 \<le> e - 1"
      by simp
    note closed = window_closed [OF less.prems(1) this]
    have bounds: "1 \<le> s" "s \<le> int (length es) + 1"
      using less.prems(1) by (auto simp: window_def)
    have "if i + 1 < nat s then key_less (fst (es ! i)) k else \<not> key_less (fst (es ! i)) k" if "i < length es" for i
      using closed(2,3) [OF that] key_less_asym [of k "fst (es ! i)"] by auto
    moreover have "lower_bound_loop p k s e mid res = Some (nat s)"
      using False less.prems(2) by (subst lower_bound_loop.simps) (auto split: if_splits)
    ultimately show ?thesis
      using bounds by auto
  next
    case True
    then have "s - 1 \<le> e - 1"
      by simp
    then obtain i where i: "(s - 1 + (e - 1)) div 2 = int i" "i < length es" "s - 1 \<le> int i" "int i \<le> e - 1"
      using window_mid [OF less.prems(1)] by blast
    have mid: "(s + e) div 2 = int i + 1"
      using i(1) by linarith
    have key: "header_key p (nat (int i + 1)) = Some (fst (es ! i))"
      using header_key_page(1) [OF assms(1) i(2)] by (simp add: nat_add_distrib)
    show ?thesis
    proof (cases rule: key_less_cases [of "fst (es ! i)" k])
      case 1
      have "window (length es) (entry_below es k) (entry_above es k) (int i + 1 + 1 - 1) (e - 1)"
        using steps(1) [OF i(3,4,2) 1] by (simp only: add_diff_cancel_right')
      moreover have "nat (e + 1 - (int i + 1 + 1)) < nat (e + 1 - s)"
        using i by linarith
      ultimately show ?thesis
        using less.hyps [of e "int i + 1 + 1" "KEYCMP (fst (es ! i)) k" "int i + 1"] 1 key_less_irrefl [of k]
        by (subst lower_bound_loop.simps) (auto simp: True mid key Let_def)
    next
      case 2
      have "if j + 1 < i + 1 then key_less (fst (es ! j)) k else \<not> key_less (fst (es ! j)) k" if "j < length es" for j
        using 2 that keys_sortedD [OF assms(2), of j i] keys_sortedD [OF assms(2), of i j] i(2) key_less_asym key_less_irrefl
        by (cases j i rule: linorder_cases) auto
      moreover have "lower_bound_loop p k s e mid res = Some (nat (int i + 1))"
        by (subst lower_bound_loop.simps) (simp add: True mid key Let_def 2)
      moreover have "nat (int i + 1) = i + 1"
        by simp
      ultimately show ?thesis
        using i(2) by simp
    next
      case 3
      have "window (length es) (entry_below es k) (entry_above es k) (s - 1) (int i + 1 - 1 - 1)"
        using steps(2) [OF i(3,4,2) 3] by simp
      moreover have "nat (int i + 1 - 1 + 1 - s) < nat (e + 1 - s)"
        using i by linarith
      moreover have "s \<le> int i + 1 - 1 \<or> (if KEYCMP (fst (es ! i)) k < 0 then int i + 1 + 1 = s else int i + 1 = s)"
        using i(3) key_less_asym [OF 3] by auto
      ultimately have "returns (lower_bound_loop p k s (int i + 1 - 1) (int i + 1) (KEYCMP (fst (es ! i)) k)) (\<lambda>r. 1 \<le> r \<and> r \<le> length es + 1 \<and>
          (\<forall>i < length es. if i + 1 < r then key_less (fst (es ! i)) k else \<not> key_less (fst (es ! i)) k))"
        by (intro less.hyps)
      moreover have "lower_bound_loop p k s e mid res = lower_bound_loop p k s (int i + 1 - 1) (int i + 1) (KEYCMP (fst (es ! i)) k)"
        using 3 key_less_irrefl [of k] key_less_asym [OF 3] by (subst lower_bound_loop.simps) (auto simp: True mid key Let_def)
      ultimately show ?thesis
        by simp
    qed
  qed
qed

lemma array_find_keyset_correct:
  assumes "header_page p es" "keys_sorted es"
  shows "returns (array_find_keyset p k) (\<lambda>r. case r of
    Some off \<Rightarrow> (\<exists>i < length es. fst (es ! i) = k \<and> off = hoff es i) | None \<Rightarrow> \<forall>i < length es. fst (es ! i) \<noteq> k)"
proof -
  have "get16 p 0 = Some (length es)"
    using assms(1) by (simp add: header_page_def)
  then show ?thesis
    using find_keyset_loop_correct [OF assms, of k 1 "int (length es)"] window_start [of "length es"]
    by (simp add: array_find_keyset_def)
qed

text \<open>The first entry that is not below the key, counted from 1; of an empty page, index 0.\<close>

lemma array_find_idx_lower_bound_correct:
  assumes "header_page p es" "keys_sorted es" "es \<noteq> []"
  shows "returns (array_find_idx_lower_bound p k) (\<lambda>r. 1 \<le> r \<and> r \<le> length es + 1 \<and>
    (\<forall>i < length es. if i + 1 < r then key_less (fst (es ! i)) k else \<not> key_less (fst (es ! i)) k))"
proof -
  have "get16 p 0 = Some (length es)"
    using assms(1) by (simp add: header_page_def)
  then show ?thesis
    using lower_bound_loop_correct [OF assms(1,2), of k 1 "int (length es)" 0 0] window_start [of "length es"] assms(3)
    by (cases es) (simp_all add: array_find_idx_lower_bound_def)
qed

section \<open>Iterators\<close>

text \<open>\<^verbatim>\<open>array_key_iter_init\<close> and \<^verbatim>\<open>array_key_iter_nxt\<close>: the iterator is an index into the page; \<open>None\<close> is its end.\<close>

definition array_key_iter_init :: "nat \<Rightarrow> nat" where
  "array_key_iter_init start = start"

definition array_key_iter_nxt :: "page \<Rightarrow> nat \<Rightarrow> ((str_key \<times> ppa_t) option \<times> nat) option" where
  "array_key_iter_nxt p idx = do {
     off \<leftarrow> get16 p idx;
     n \<leftarrow> get16 p 0;
     if off = UINT16_MAX \<or> idx > n then Some (None, idx)
     else do {
       a \<leftarrow> header_ppa p idx;
       k \<leftarrow> header_key p idx;
       Some (Some (k, a), idx + 1)
     }
   }"

text \<open>
  \<^verbatim>\<open>array_find_keyset_first\<close> and \<^verbatim>\<open>array_find_keyset_last\<close> subtract the offsets in the wrong order:
  the length they give a key is cut to eight bits.
\<close>

definition keyset_backwards :: "page \<Rightarrow> nat \<Rightarrow> str_key option" where
  "keyset_backwards p idx = do {
     a \<leftarrow> get16 p idx;
     b \<leftarrow> get16 p (idx + 1);
     memread p (a + 4) (nat ((int a - int b - 4) mod 2 ^ 8))
   }"

definition array_find_keyset_first :: "page \<Rightarrow> str_key option" where
  "array_find_keyset_first p = keyset_backwards p 1"

definition array_find_keyset_last :: "page \<Rightarrow> str_key option" where
  "array_find_keyset_last p = do { e \<leftarrow> get16 p 0; keyset_backwards p e }"

lemma array_key_iter_nxt_page:
  assumes "header_page p es"
  shows "i < length es \<Longrightarrow> array_key_iter_nxt p (i + 1) = Some (Some (es ! i), i + 2)"
    "array_key_iter_nxt p (length es + 1) = Some (None, length es + 1)"
proof -
  have n: "get16 p 0 = Some (length es)"
    using assms by (simp add: header_page_def)
  show "i < length es \<Longrightarrow> array_key_iter_nxt p (i + 1) = Some (Some (es ! i), i + 2)"
    using header_key_page [OF assms, of i] get16_not_max [OF assms, of i] n by (simp add: array_key_iter_nxt_def)
  show "array_key_iter_nxt p (length es + 1) = Some (None, length es + 1)"
    using get16_not_max [OF assms, of "length es"] n by (simp add: array_key_iter_nxt_def)
qed

lemma array_find_keyset_first_length:
  assumes "header_page p es" "es \<noteq> []" "array_find_keyset_first p = Some k" "length (fst (hd es)) \<le> 248"
  shows "length k = 248 - length (fst (hd es))"
proof -
  have es: "0 < length es" "hd es = es ! 0"
    using assms(2) by (auto simp: hd_conv_nth)
  have b: "get16 p 1 = Some KEYBITMAP" "get16 p 2 = Some (KEYBITMAP + entry_size (es ! 0))"
    using get16_not_max [OF assms(1), of 0] get16_not_max [OF assms(1), of 1] hoff_Suc [of 0 es] es(1) by (auto simp: numeral_2_eq_2)
  let ?l = "length (fst (es ! 0))"
  have "(int KEYBITMAP - int (KEYBITMAP + entry_size (es ! 0)) - 4) mod 2 ^ 8 = (248 - int ?l + 256 * (- 1)) mod 256"
    by simp
  also have "\<dots> = 248 - int ?l"
    using assms(4) es(2) by (simp only: mod_mult_self2) (simp add: mod_pos_pos_trivial)
  finally have "nat ((int KEYBITMAP - int (KEYBITMAP + entry_size (es ! 0)) - 4) mod 2 ^ 8) = 248 - ?l"
    by simp
  moreover have "memread p (KEYBITMAP + 4) (nat ((int KEYBITMAP - int (KEYBITMAP + entry_size (es ! 0)) - 4) mod 2 ^ 8)) = Some k"
    using assms(3) unfolding array_find_keyset_first_def keyset_backwards_def one_add_one b bind.bind_lunit .
  ultimately show ?thesis
    using memread_length es(2) by metis
qed

section \<open>Writing and reading a page\<close>

text \<open>
  C20. Metadata pages round trip.  The page \<^verbatim>\<open>array_mem_cvt2table\<close> writes for a sorted list of entries that
  fits a page is read back entry by entry as the same list, and \<^verbatim>\<open>array_find_keyset\<close> on it, which never
  reads outside of the page, finds exactly the keys of the list.
\<close>

theorem table_page_roundtrip:
  assumes "entries_fit es" "keys_sorted es"
  shows "returns (array_mem_cvt2table (length es) es) (\<lambda>(s, e, p). header_entries p = Some es \<and>
    (\<forall>k. returns (array_find_keyset p k) (\<lambda>r. r \<noteq> None \<longleftrightarrow> k \<in> fst ` set es)))"
proof -
  obtain s e p where p: "array_mem_cvt2table (length es) es = Some (s, e, p)" "header_page p es"
    using array_mem_cvt2table_page [OF assms(1)] by (auto elim!: returnsE)
  have "returns (array_find_keyset p k) (\<lambda>r. r \<noteq> None \<longleftrightarrow> k \<in> fst ` set es)" for k
  proof (rule returns_mono [OF array_find_keyset_correct [OF p(2) assms(2), of k]], goal_cases)
    case (1 r)
    then show ?case
      by (cases r) (force simp: in_set_conv_nth)+
  qed
  then show ?thesis
    using p header_entries_page [OF p(2)] by simp
qed

theorem table_page_roundtrip_witness:
  "returns (array_mem_cvt2table 2 [([1], 7), ([2, 0], 9)]) (\<lambda>(s, e, p). header_entries p = Some [([1], 7), ([2, 0], 9)] \<and>
    returns (array_find_keyset p [2]) (\<lambda>r. r = None))"
proof -
  let ?es = "[([1], 7), ([2, 0], 9)] :: (str_key \<times> ppa_t) list"
  have "entries_fit ?es" "keys_sorted ?es"
    by (simp_all add: entries_fit_def hoff_def KEYBITMAP_def PAGESIZE_def keys_sorted_def)
  from table_page_roundtrip [OF this] obtain s e p where p: "array_mem_cvt2table (length ?es) ?es = Some (s, e, p)"
      "header_entries p = Some ?es" "\<forall>k. returns (array_find_keyset p k) (\<lambda>r. r \<noteq> None \<longleftrightarrow> k \<in> fst ` set ?es)"
    by (auto elim!: returnsE)
  have "returns (array_find_keyset p [2]) (\<lambda>r. r = None)"
    using spec [OF p(3), of "[2]"] by simp
  then show ?thesis
    using p(1,2) by (simp add: numeral_2_eq_2)
qed

end
