(* ===== verification/LsmBm.thy ===== *)
theory LsmBm
  imports Base
begin

text \<open>
  The superblock and page manager of the LSM-tree store, \<^verbatim>\<open>lsmtree/lsm_bm.c\<close> and \<^verbatim>\<open>lsmtree/lsm_pm.c\<close>:
  pages are handed out in increasing order from the superblocks of two partitions, for metadata
  and for data; nothing is ever collected.
\<close>

section \<open>State\<close>

text \<open>The sizes of \<^verbatim>\<open>lsm_settings.h\<close> and \<^verbatim>\<open>lsm_setup_params\<close>.\<close>

definition PIECE_PER_PAGE :: nat where "PIECE_PER_PAGE = PAGESIZE div 512"

definition LSM_KEYNUM :: nat where "LSM_KEYNUM = PAGESIZE div (32 + 4)"

definition LSM_ONESEGMENT :: nat where "LSM_ONESEGMENT = LSM_KEYNUM * 1024"

definition LSM_HEADERNUM :: nat where
  "LSM_HEADERNUM = 64 * 2 ^ 30 div LSM_ONESEGMENT + (if 64 * 2 ^ 30 mod LSM_ONESEGMENT \<noteq> 0 then 1 else 0)"

datatype ptype = MAP | DATA

record piece_oob_t =
  po_length :: u8
  po_isvalid :: bool

text \<open>\<^verbatim>\<open>active_sblk\<close> is \<^verbatim>\<open>UINT_MAX\<close> when there is none.\<close>

record sblk_master =
  min_sblk_idx :: nat
  max_sblk_idx :: nat
  free_sblk_cnt :: u32
  active_sblk :: "nat option"
  reserve_sblk :: nat

record lsm_bm =
  lb_invalid :: "nat \<Rightarrow> u32"
  lb_wp :: "nat \<Rightarrow> nat"
  lb_master :: "ptype \<Rightarrow> sblk_master"
  lb_oob :: "nat \<Rightarrow> piece_oob_t"

text \<open>\<^verbatim>\<open>page_t\<close>: the active and reserved superblocks by index.\<close>

record lsm_page =
  lp_active :: "ptype \<Rightarrow> nat option"
  lp_reserve :: "ptype \<Rightarrow> nat option"

section \<open>Superblocks\<close>

text \<open>
  \<^verbatim>\<open>lsm_bm_init\<close>.  The array of superblocks is allocated with \<^verbatim>\<open>_NOS\<close> elements and used with the indices
  up to \<^verbatim>\<open>_NOS\<close>; the model has that element.  The product is in 32 bits.
\<close>

definition lsm_master_init :: "ptype \<Rightarrow> sblk_master" where
  "lsm_master_init t =
     (let map_max = (LSM_HEADERNUM * PAGESIZE) mod 2 ^ 32 div (PPS * PAGESIZE) * 2 in
      case t of
        MAP \<Rightarrow> \<lparr>min_sblk_idx = 1, max_sblk_idx = map_max, free_sblk_cnt = of_nat map_max, active_sblk = None, reserve_sblk = 1\<rparr>
      | DATA \<Rightarrow> \<lparr>min_sblk_idx = map_max + 1, max_sblk_idx = NOS, free_sblk_cnt = of_nat (NOS - (map_max + 1)),
                active_sblk = None, reserve_sblk = map_max + 1\<rparr>)"

definition lsm_bm_init :: "(nat \<Rightarrow> piece_oob_t) \<Rightarrow> lsm_bm" where
  "lsm_bm_init oob0 = \<lparr>lb_invalid = (\<lambda>_. 0), lb_wp = (\<lambda>_. 0), lb_master = lsm_master_init, lb_oob = oob0\<rparr>"

definition lsm_check_full :: "lsm_bm \<Rightarrow> nat \<Rightarrow> bool" where
  "lsm_check_full b k \<longleftrightarrow> lb_wp b k \<ge> PPS"

text \<open>Taking a page of a full superblock leaves the function without a value.\<close>

definition lsm_get_page_num :: "nat \<Rightarrow> lsm_bm \<Rightarrow> (ppa_t \<times> lsm_bm) option" where
  "lsm_get_page_num k b =
     (if lsm_check_full b k then None
      else Some (k * PPS + lb_wp b k, b\<lparr>lb_wp := (lb_wp b)(k := lb_wp b k + 1)\<rparr>))"

definition upd_master :: "ptype \<Rightarrow> (sblk_master \<Rightarrow> sblk_master) \<Rightarrow> lsm_bm \<Rightarrow> lsm_bm" where
  "upd_master t f b = b\<lparr>lb_master := (lb_master b)(t := f (lb_master b t))\<rparr>"

definition lsm_get_active_sblk :: "ptype \<Rightarrow> lsm_bm \<Rightarrow> (nat \<times> lsm_bm) option" where
  "lsm_get_active_sblk t b =
     (let m = lb_master b t;
          start = (case active_sblk m of None \<Rightarrow> min_sblk_idx m | Some k \<Rightarrow> k)
      in case List.find (\<lambda>i. i \<noteq> reserve_sblk m \<and> \<not> lsm_check_full b i) [start..<Suc (max_sblk_idx m)] of
           None \<Rightarrow> None
         | Some k \<Rightarrow> Some (k, upd_master t (\<lambda>m. m\<lparr>active_sblk := Some k,
             free_sblk_cnt := (if lb_wp b k = 0 then free_sblk_cnt m - 1 else free_sblk_cnt m)\<rparr>) b))"

definition lsm_isgc_needed :: "lsm_bm \<Rightarrow> ptype \<Rightarrow> bool" where
  "lsm_isgc_needed b t =
     (let m = lb_master b t in
      if unat (free_sblk_cnt m) < 1 \<and> t = MAP then True
      else t = DATA \<and> unat (free_sblk_cnt m) \<le> max_sblk_idx m * 70 div 100)"

definition lsm_get_gc_target :: "lsm_bm \<Rightarrow> ptype \<Rightarrow> nat" where
  "lsm_get_gc_target b t = min_sblk_idx (lb_master b t)"

section \<open>Pages\<close>

text \<open>\<^verbatim>\<open>lsm_page_init\<close> asks for reserved superblocks, which the block manager does not distinguish.\<close>

definition lsm_page_init :: "lsm_bm \<Rightarrow> (lsm_page \<times> lsm_bm) option" where
  "lsm_page_init b = do {
     (dr, b1) \<leftarrow> lsm_get_active_sblk DATA b;
     (mr, b2) \<leftarrow> lsm_get_active_sblk MAP b1;
     Some (\<lparr>lp_active = (\<lambda>_. None), lp_reserve = (\<lambda>t. case t of DATA \<Rightarrow> Some dr | MAP \<Rightarrow> Some mr)\<rparr>,
           b2\<lparr>lb_oob := (\<lambda>i. if i < NOP * PIECE_PER_PAGE then \<lparr>po_length = 0, po_isvalid = False\<rparr> else lb_oob b2 i)\<rparr>)
   }"

definition lsm_get_page :: "ptype \<Rightarrow> lsm_page \<times> lsm_bm \<Rightarrow> (ppa_t \<times> lsm_page \<times> lsm_bm) option" where
  "lsm_get_page t = (\<lambda>(p, b). do {
     (k, p1, b1) \<leftarrow> (case lp_active p t of
        None \<Rightarrow> map_option (\<lambda>(k, b1). (k, p\<lparr>lp_active := (lp_active p)(t := Some k)\<rparr>, b1)) (lsm_get_active_sblk t b)
      | Some k \<Rightarrow>
          if lsm_check_full b k
          then map_option (\<lambda>(k, b1). (k, p\<lparr>lp_active := (lp_active p)(t := Some k)\<rparr>, b1)) (lsm_get_active_sblk t b)
          else Some (k, p, b));
     (ppa, b2) \<leftarrow> lsm_get_page_num k b1;
     Some (ppa, p1, b2)
   })"

text \<open>
  \<^verbatim>\<open>PPA2SBLK\<close> divides by the pieces of a page although its argument is a page.  The flag is a
  \<^verbatim>\<open>bool\<close>: the \<^verbatim>\<open>-1\<close> that marks an invalid piece is stored as true, like a valid one.
\<close>

definition PPA2SBLK :: "ppa_t \<Rightarrow> nat" where
  "PPA2SBLK ppa = ppa div PIECE_PER_PAGE div PPS"

definition invalidate_PPA :: "ptype \<Rightarrow> ppa_t \<Rightarrow> lsm_bm \<Rightarrow> lsm_bm option" where
  "invalidate_PPA t ppa b =
     (case t of
        MAP \<Rightarrow> Some b
      | DATA \<Rightarrow>
          if PPA2SBLK ppa > NOS \<or> ppa \<ge> NOP * PIECE_PER_PAGE then None
          else Some (b\<lparr>lb_invalid := (lb_invalid b)(PPA2SBLK ppa := lb_invalid b (PPA2SBLK ppa) + ucast (po_length (lb_oob b ppa))),
                      lb_oob := (lb_oob b)(ppa := (lb_oob b ppa)\<lparr>po_isvalid := True\<rparr>)\<rparr>))"

definition validate_PPA :: "ptype \<Rightarrow> ppa_t \<Rightarrow> lsm_bm \<Rightarrow> lsm_bm option" where
  "validate_PPA t ppa b =
     (case t of
        MAP \<Rightarrow> Some b
      | DATA \<Rightarrow>
          if ppa \<ge> NOP * PIECE_PER_PAGE then None
          else Some (b\<lparr>lb_oob := (lb_oob b)(ppa := (lb_oob b ppa)\<lparr>po_isvalid := False\<rparr>)\<rparr>))"

text \<open>The check \<^verbatim>\<open>isvalid == -1\<close> that guards new pages never holds.\<close>

definition piece_marked_invalid :: "lsm_bm \<Rightarrow> ppa_t \<Rightarrow> bool" where
  "piece_marked_invalid b ppa = ((if po_isvalid (lb_oob b ppa) then 1 else 0) = (- 1 :: int))"

section \<open>Pages are handed out once\<close>

lemma master_init_val [settings]:
  "min_sblk_idx (lsm_master_init MAP) = 1" "max_sblk_idx (lsm_master_init MAP) = 18" "reserve_sblk (lsm_master_init MAP) = 1"
  "min_sblk_idx (lsm_master_init DATA) = 19" "max_sblk_idx (lsm_master_init DATA) = 1177" "reserve_sblk (lsm_master_init DATA) = 19"
  "active_sblk (lsm_master_init t) = None"
  by (simp_all add: lsm_master_init_def LSM_HEADERNUM_def LSM_ONESEGMENT_def LSM_KEYNUM_def PPS_val PAGESIZE_val NOS_val Let_def split: ptype.split)

text \<open>
  The fixed bounds of the partitions; the first superblock of each is in reserve.  The superblocks
  behind it fill up in order: those before the cursor \<open>a\<close> are full, those behind it empty.
\<close>

definition lo_sblk :: "ptype \<Rightarrow> nat" where
  "lo_sblk t = (case t of MAP \<Rightarrow> 1 | DATA \<Rightarrow> 19)"

definition hi_sblk :: "ptype \<Rightarrow> nat" where
  "hi_sblk t = (case t of MAP \<Rightarrow> 18 | DATA \<Rightarrow> 1177)"

definition filling :: "lsm_bm \<Rightarrow> ptype \<Rightarrow> nat \<Rightarrow> bool" where
  "filling b t a \<longleftrightarrow> min_sblk_idx (lb_master b t) = lo_sblk t \<and> max_sblk_idx (lb_master b t) = hi_sblk t \<and>
     reserve_sblk (lb_master b t) = lo_sblk t \<and> lo_sblk t < a \<and> a \<le> hi_sblk t \<and> lb_wp b a \<le> PPS \<and>
     (\<forall>i. lo_sblk t < i \<longrightarrow> i < a \<longrightarrow> lb_wp b i = PPS) \<and> (\<forall>i. a < i \<longrightarrow> i \<le> hi_sblk t \<longrightarrow> lb_wp b i = 0) \<and>
     (case active_sblk (lb_master b t) of None \<Rightarrow> True | Some k \<Rightarrow> k = a)"

text \<open>A partition has handed out \<open>n\<close> pages; the page with a given number.\<close>

definition handed_out :: "lsm_page \<times> lsm_bm \<Rightarrow> ptype \<Rightarrow> nat \<Rightarrow> bool" where
  "handed_out = (\<lambda>(p, b) t n. \<exists>a. filling b t a \<and> (case lp_active p t of None \<Rightarrow> True | Some k \<Rightarrow> k = a) \<and>
     n = (a - lo_sblk t - 1) * PPS + lb_wp b a)"

definition nth_page :: "ptype \<Rightarrow> nat \<Rightarrow> ppa_t" where
  "nth_page t n = (lo_sblk t + 1) * PPS + n"

definition partition_pages :: "ptype \<Rightarrow> nat" where
  "partition_pages t = (hi_sblk t - lo_sblk t) * PPS"

lemma find_upt: "List.find P [a..<b] = Some k" if "a \<le> k" "k < b" "P k" "\<forall>i. a \<le> i \<longrightarrow> i < k \<longrightarrow> \<not> P i"
proof -
  have "List.find P [a..<b] = Some ([a..<b] ! (k - a))"
    unfolding find_Some_iff using that by (intro exI [of _ "k - a"]) auto
  then show ?thesis
    using that by simp
qed

text \<open>The search for a superblock ends at the cursor, or at the next one when the cursor is full.\<close>

lemma lsm_get_active_next:
  assumes "filling b t a" "lb_wp b a = PPS \<longrightarrow> a < hi_sblk t"
  defines "k \<equiv> (if lb_wp b a = PPS then a + 1 else a)"
  obtains b' where "lsm_get_active_sblk t b = Some (k, b')" "filling b' t k" "lb_wp b' = lb_wp b" "lb_oob b' = lb_oob b"
    "\<forall>u. u \<noteq> t \<longrightarrow> lb_master b' u = lb_master b u" "(k - lo_sblk t - 1) * PPS + lb_wp b k = (a - lo_sblk t - 1) * PPS + lb_wp b a"
    "lb_wp b k < PPS"
proof -
  note f = assms(1) [unfolded filling_def]
  let ?m = "lb_master b t"
  let ?start = "case active_sblk ?m of None \<Rightarrow> min_sblk_idx ?m | Some k \<Rightarrow> k"
  have k: "lo_sblk t < k" "k \<le> hi_sblk t" "lb_wp b k < PPS" "a \<le> k"
    using f assms(2) by (auto simp: k_def PPS_val)
  have start: "?start \<le> a" "lo_sblk t \<le> ?start"
    using f by (auto split: option.splits)
  have before: "i = lo_sblk t \<or> lb_wp b i = PPS" if "?start \<le> i" "i < k" for i
    using f that start by (cases "i < a"; cases "i = lo_sblk t") (auto simp: k_def less_Suc_eq split: if_splits)
  have "List.find (\<lambda>i. i \<noteq> reserve_sblk ?m \<and> \<not> lsm_check_full b i) [?start..<Suc (max_sblk_idx ?m)] = Some k"
    using f k start by (intro find_upt) (auto simp: lsm_check_full_def dest: before)
  then have eq: "lsm_get_active_sblk t b = Some (k, upd_master t (\<lambda>m. m\<lparr>active_sblk := Some k,
      free_sblk_cnt := (if lb_wp b k = 0 then free_sblk_cnt m - 1 else free_sblk_cnt m)\<rparr>) b)"
    by (simp add: lsm_get_active_sblk_def Let_def)
  have full: "lb_wp b i = PPS" if "lo_sblk t < i" "i < k" for i
    using f that by (cases "i < a") (auto simp: k_def less_Suc_eq split: if_splits)
  have fill: "filling (upd_master t (\<lambda>m. m\<lparr>active_sblk := Some k,
      free_sblk_cnt := (if lb_wp b k = 0 then free_sblk_cnt m - 1 else free_sblk_cnt m)\<rparr>) b) t k"
    using f k full by (auto simp: filling_def upd_master_def)
  have "(k - lo_sblk t - 1) * PPS + lb_wp b k = (a - lo_sblk t - 1) * PPS + lb_wp b a"
  proof (cases "lb_wp b a = PPS")
    case True
    then have "lb_wp b k = 0" "k - lo_sblk t - 1 = Suc (a - lo_sblk t - 1)"
      using f k by (auto simp: k_def)
    then show ?thesis
      using True by simp
  qed (simp add: k_def)
  then show thesis
    using that [OF eq fill] k(3) by (simp add: upd_master_def)
qed

lemma handed_outE:
  assumes "handed_out (p, b) t n" "n < partition_pages t"
  obtains a where "filling b t a" "case lp_active p t of None \<Rightarrow> True | Some k \<Rightarrow> k = a"
    "n = (a - lo_sblk t - 1) * PPS + lb_wp b a" "lb_wp b a = PPS \<longrightarrow> a < hi_sblk t"
proof -
  obtain a where a: "filling b t a" "case lp_active p t of None \<Rightarrow> True | Some k \<Rightarrow> k = a"
    "n = (a - lo_sblk t - 1) * PPS + lb_wp b a"
    using assms(1) by (auto simp: handed_out_def)
  have "a < hi_sblk t" if full: "lb_wp b a = PPS"
  proof (rule ccontr)
    assume "\<not> a < hi_sblk t"
    then have "a - lo_sblk t = Suc (a - lo_sblk t - 1)" "hi_sblk t = a"
      using a(1) by (auto simp: filling_def)
    then have "partition_pages t = PPS + (a - lo_sblk t - 1) * PPS"
      by (metis mult_Suc partition_pages_def)
    then show False
      using a(3) assms(2) full by simp
  qed
  then show thesis
    using a that by blast
qed

lemma lsm_get_page_num_filling:
  assumes "filling b t k" "lb_wp b k < PPS"
  obtains b' where "lsm_get_page_num k b = Some (k * PPS + lb_wp b k, b')" "filling b' t k" "lb_wp b' = (lb_wp b)(k := lb_wp b k + 1)"
    "lb_oob b' = lb_oob b" "lb_master b' = lb_master b"
proof -
  let ?b = "b\<lparr>lb_wp := (lb_wp b)(k := lb_wp b k + 1)\<rparr>"
  have "lsm_get_page_num k b = Some (k * PPS + lb_wp b k, ?b)"
    using assms(2) by (simp add: lsm_get_page_num_def lsm_check_full_def)
  moreover have "filling ?b t k"
    using assms by (auto simp: filling_def)
  ultimately show thesis
    by (rule that) simp_all
qed

text \<open>The superblocks of the other partition are not touched.\<close>

lemma filling_other:
  assumes "filling b u a" "t \<noteq> u" "lo_sblk t < k" "k \<le> hi_sblk t" "lb_wp b' = (lb_wp b)(k := x)" "lb_master b' u = lb_master b u"
  shows "filling b' u a" "lb_wp b' a = lb_wp b a"
proof -
  have "k \<le> lo_sblk u \<or> hi_sblk u < k"
    using assms(2-4) by (cases t; cases u) (auto simp: lo_sblk_def hi_sblk_def)
  then show "filling b' u a" "lb_wp b' a = lb_wp b a"
    using assms(1,5,6) by (auto simp: filling_def)
qed

lemma lsm_get_page_next:
  assumes "handed_out (p, b) t n" "n < partition_pages t"
  shows "returns (lsm_get_page t (p, b)) (\<lambda>(ppa, p', b'). ppa = nth_page t n \<and> handed_out (p', b') t (n + 1) \<and> lb_oob b' = lb_oob b \<and>
    (\<forall>u m. u \<noteq> t \<longrightarrow> handed_out (p, b) u m \<longrightarrow> handed_out (p', b') u m))"
proof -
  obtain a where a: "filling b t a" "case lp_active p t of None \<Rightarrow> True | Some k \<Rightarrow> k = a"
    "n = (a - lo_sblk t - 1) * PPS + lb_wp b a" "lb_wp b a = PPS \<longrightarrow> a < hi_sblk t"
    using handed_outE [OF assms] by blast
  have pick: "\<exists>k p1 b1. (case lp_active p t of
        None \<Rightarrow> map_option (\<lambda>(k, b1). (k, p\<lparr>lp_active := (lp_active p)(t := Some k)\<rparr>, b1)) (lsm_get_active_sblk t b)
      | Some k \<Rightarrow>
          if lsm_check_full b k
          then map_option (\<lambda>(k, b1). (k, p\<lparr>lp_active := (lp_active p)(t := Some k)\<rparr>, b1)) (lsm_get_active_sblk t b)
          else Some (k, p, b)) = Some (k, p1, b1) \<and> filling b1 t k \<and> lb_wp b1 = lb_wp b \<and> lb_oob b1 = lb_oob b \<and>
      (\<forall>u. u \<noteq> t \<longrightarrow> lb_master b1 u = lb_master b u \<and> lp_active p1 u = lp_active p u) \<and> lp_active p1 t = Some k \<and>
      (k - lo_sblk t - 1) * PPS + lb_wp b k = n \<and> lb_wp b k < PPS"
  proof (cases "lp_active p t = Some a \<and> lb_wp b a < PPS")
    case True
    then show ?thesis
      using a by (intro exI [of _ a] exI [of _ p] exI [of _ b]) (simp add: lsm_check_full_def)
  next
    case False
    define k where "k = (if lb_wp b a = PPS then a + 1 else a)"
    obtain b1 where b1: "lsm_get_active_sblk t b = Some (k, b1)" "filling b1 t k" "lb_wp b1 = lb_wp b" "lb_oob b1 = lb_oob b"
      "\<forall>u. u \<noteq> t \<longrightarrow> lb_master b1 u = lb_master b u" "(k - lo_sblk t - 1) * PPS + lb_wp b k = n" "lb_wp b k < PPS"
      using lsm_get_active_next [OF a(1,4)] a(3) unfolding k_def by blast
    have "lp_active p t = None \<or> lp_active p t = Some a \<and> lsm_check_full b a"
      using False a(2) by (cases "lp_active p t") (auto simp: lsm_check_full_def)
    then show ?thesis
      using b1 by (intro exI [of _ k] exI [of _ "p\<lparr>lp_active := (lp_active p)(t := Some k)\<rparr>"] exI [of _ b1]) auto
  qed
  obtain k p1 b1 where k: "(case lp_active p t of
        None \<Rightarrow> map_option (\<lambda>(k, b1). (k, p\<lparr>lp_active := (lp_active p)(t := Some k)\<rparr>, b1)) (lsm_get_active_sblk t b)
      | Some k \<Rightarrow>
          if lsm_check_full b k
          then map_option (\<lambda>(k, b1). (k, p\<lparr>lp_active := (lp_active p)(t := Some k)\<rparr>, b1)) (lsm_get_active_sblk t b)
          else Some (k, p, b)) = Some (k, p1, b1)" "filling b1 t k" "lb_wp b1 = lb_wp b" "lb_oob b1 = lb_oob b"
    "\<forall>u. u \<noteq> t \<longrightarrow> lb_master b1 u = lb_master b u \<and> lp_active p1 u = lp_active p u" "lp_active p1 t = Some k"
    "(k - lo_sblk t - 1) * PPS + lb_wp b k = n" "lb_wp b k < PPS"
    using pick by blast
  obtain b2 where b2: "lsm_get_page_num k b1 = Some (k * PPS + lb_wp b1 k, b2)" "filling b2 t k" "lb_wp b2 = (lb_wp b1)(k := lb_wp b1 k + 1)"
    "lb_oob b2 = lb_oob b1" "lb_master b2 = lb_master b1"
    using lsm_get_page_num_filling [OF k(2)] k(3,8) by metis
  have eq: "lsm_get_page t (p, b) = Some (k * PPS + lb_wp b k, p1, b2)"
    using k(1,3) b2(1) by (simp add: lsm_get_page_def)
  have bounds: "lo_sblk t < k" "k \<le> hi_sblk t"
    using k(2) by (auto simp: filling_def)
  then have "k * PPS = ((lo_sblk t + 1) + (k - lo_sblk t - 1)) * PPS"
    by simp
  then have "k * PPS = (lo_sblk t + 1) * PPS + (k - lo_sblk t - 1) * PPS"
    by (simp only: add_mult_distrib)
  then have "k * PPS + lb_wp b k = nth_page t n"
    using k(7) by (simp add: nth_page_def)
  moreover have "handed_out (p1, b2) t (n + 1)"
    using b2(2,3) k(3,6,7) by (auto simp: handed_out_def intro!: exI [of _ k])
  moreover have "handed_out (p1, b2) u m" if u: "u \<noteq> t" and m: "handed_out (p, b) u m" for u m
  proof -
    obtain c where c: "filling b u c" "case lp_active p u of None \<Rightarrow> True | Some k \<Rightarrow> k = c" "m = (c - lo_sblk u - 1) * PPS + lb_wp b c"
      using m by (auto simp: handed_out_def)
    have "lb_wp b2 = (lb_wp b)(k := lb_wp b k + 1)" "lb_master b2 u = lb_master b u"
      using b2(3,5) k(3,5) u by simp_all
    from filling_other [OF c(1) u [symmetric] bounds this] c(2,3) k(5) u show ?thesis
      by (auto simp: handed_out_def intro!: exI [of _ c])
  qed
  ultimately show ?thesis
    using b2(4) k(4) eq by simp
qed

text \<open>A fresh store has handed out nothing.\<close>

lemma lsm_bm_init_filling: "filling (lsm_bm_init oob0) t (lo_sblk t + 1)"
  by (cases t) (simp_all add: filling_def lsm_bm_init_def master_init_val lo_sblk_def hi_sblk_def)

lemma lsm_page_init_handed_out: "returns (lsm_page_init (lsm_bm_init oob0)) (\<lambda>pb. \<forall>t. handed_out pb t 0)"
proof -
  let ?b = "lsm_bm_init oob0"
  have wp: "lb_wp ?b = (\<lambda>_. 0)"
    by (simp add: lsm_bm_init_def)
  have room: "lb_wp ?b (lo_sblk t + 1) = PPS \<longrightarrow> lo_sblk t + 1 < hi_sblk t" for t
    by (simp add: wp PPS_val)
  obtain b1 where b1: "lsm_get_active_sblk DATA ?b = Some (20, b1)" "filling b1 DATA 20" "lb_wp b1 = lb_wp ?b"
    "\<forall>u. u \<noteq> DATA \<longrightarrow> lb_master b1 u = lb_master ?b u"
    using lsm_get_active_next [OF lsm_bm_init_filling [of oob0 DATA] room] by (auto simp: wp PPS_val lo_sblk_def)
  have "filling b1 MAP (lo_sblk MAP + 1)"
    using lsm_bm_init_filling [of oob0 MAP] b1(3,4) by (simp add: filling_def)
  then have "filling b1 MAP 2"
    by (simp add: lo_sblk_def numeral_2_eq_2)
  moreover have "lb_wp b1 2 = PPS \<longrightarrow> 2 < hi_sblk MAP"
    by (simp add: hi_sblk_def)
  ultimately obtain b2 where b2: "lsm_get_active_sblk MAP b1 = Some (2, b2)" "filling b2 MAP 2" "lb_wp b2 = lb_wp b1"
    "\<forall>u. u \<noteq> MAP \<longrightarrow> lb_master b2 u = lb_master b1 u"
    using lsm_get_active_next [of b1 MAP 2] b1(3) by (auto simp: wp PPS_val)
  have "filling b2 DATA 20"
    using b1(2) b2(3,4) by (simp add: filling_def)
  then have "filling (b2\<lparr>lb_oob := f\<rparr>) t (lo_sblk t + 1)" for t f
    using b2(2) by (cases t) (simp_all add: filling_def lo_sblk_def numeral_2_eq_2)
  then show ?thesis
    using b1(1) b2(1,3) b1(3) wp by (auto simp: lsm_page_init_def handed_out_def intro!: exI [of _ "lo_sblk _ + 1"])
qed

text \<open>Numbers name pages uniquely, and the partitions are disjoint.\<close>

lemma nth_page_inject: "n < partition_pages t \<Longrightarrow> m < partition_pages u \<Longrightarrow> nth_page t n = nth_page u m \<longleftrightarrow> t = u \<and> n = m"
  by (cases t; cases u) (auto simp: nth_page_def partition_pages_def lo_sblk_def hi_sblk_def PPS_val)

lemma nth_page_bound: "n < partition_pages t \<Longrightarrow> nth_page t n < 1178 * PPS"
  by (cases t) (auto simp: nth_page_def partition_pages_def lo_sblk_def hi_sblk_def PPS_val)

section \<open>A sequence of requests\<close>

fun lsm_get_pages :: "ptype list \<Rightarrow> lsm_page \<times> lsm_bm \<Rightarrow> (ppa_t list \<times> (lsm_page \<times> lsm_bm)) option" where
  "lsm_get_pages [] st = Some ([], st)"
| "lsm_get_pages (t # ts) st = do {
     (ppa, st1) \<leftarrow> lsm_get_page t st;
     (ppas, st2) \<leftarrow> lsm_get_pages ts st1;
     Some (ppa # ppas, st2)
   }"

fun nth_pages :: "(ptype \<Rightarrow> nat) \<Rightarrow> ptype list \<Rightarrow> ppa_t list" where
  "nth_pages c [] = []"
| "nth_pages c (t # ts) = nth_page t (c t) # nth_pages (c(t := c t + 1)) ts"

definition requests_fit :: "(ptype \<Rightarrow> nat) \<Rightarrow> ptype list \<Rightarrow> bool" where
  "requests_fit c ts \<longleftrightarrow> (\<forall>t. c t + length (filter (\<lambda>u. u = t) ts) \<le> partition_pages t)"

lemma requests_fit_Cons: "requests_fit c (t # ts) \<Longrightarrow> c t < partition_pages t \<and> requests_fit (c(t := c t + 1)) ts"
  unfolding requests_fit_def
proof
  assume fit: "\<forall>u. c u + length (filter (\<lambda>v. v = u) (t # ts)) \<le> partition_pages u"
  from spec [OF fit, of t] show "c t < partition_pages t"
    by simp
  show "\<forall>u. (c(t := c t + 1)) u + length (filter (\<lambda>v. v = u) ts) \<le> partition_pages u"
  proof
    fix u
    show "(c(t := c t + 1)) u + length (filter (\<lambda>v. v = u) ts) \<le> partition_pages u"
      using spec [OF fit, of u] by (cases "t = u") simp_all
  qed
qed

lemma lsm_get_pages_next:
  assumes "\<forall>t. handed_out st t (c t)" "requests_fit c ts"
  shows "returns (lsm_get_pages ts st) (\<lambda>(ppas, st'). ppas = nth_pages c ts)"
  using assms
proof (induction ts arbitrary: st c)
  case (Cons t ts)
  obtain p b where st: "st = (p, b)"
    by (cases st)
  note fit = requests_fit_Cons [OF Cons.prems(2)]
  have "handed_out (p, b) t (c t)"
    using Cons.prems(1) st by simp
  from lsm_get_page_next [OF this] fit obtain p' b' where page: "lsm_get_page t (p, b) = Some (nth_page t (c t), p', b')"
      "handed_out (p', b') t (c t + 1)" "\<forall>u m. u \<noteq> t \<longrightarrow> handed_out (p, b) u m \<longrightarrow> handed_out (p', b') u m"
    by (auto elim!: returnsE)
  have "\<forall>u. handed_out (p', b') u ((c(t := c t + 1)) u)"
    using page(2,3) Cons.prems(1) st by simp
  from Cons.IH [OF this] fit show ?case
    using page(1) st by (auto simp del: fun_upd_apply elim!: returnsE)
qed simp

lemma nth_pages_between:
  assumes "requests_fit c ts" "i < length ts"
  shows "\<exists>n. c (ts ! i) \<le> n \<and> n < partition_pages (ts ! i) \<and> nth_pages c ts ! i = nth_page (ts ! i) n"
  using assms
proof (induction ts arbitrary: c i)
  case (Cons t ts)
  note fit = requests_fit_Cons [OF Cons.prems(1)]
  show ?case
  proof (cases i)
    case 0
    then show ?thesis
      using fit by auto
  next
    case (Suc k)
    then obtain n where "(c(t := c t + 1)) (ts ! k) \<le> n" "n < partition_pages (ts ! k)"
        "nth_pages (c(t := c t + 1)) ts ! k = nth_page (ts ! k) n"
      using Cons.IH [of "c(t := c t + 1)" k] fit Cons.prems(2) by (auto simp del: fun_upd_apply)
    then show ?thesis
      using Suc by (cases "ts ! k = t") (auto dest: Suc_leD)
  qed
qed simp

lemma length_nth_pages [simp]: "length (nth_pages c ts) = length ts"
  by (induction ts arbitrary: c) simp_all

lemma nth_pages_distinct: "requests_fit c ts \<Longrightarrow> distinct (nth_pages c ts)"
proof (induction ts arbitrary: c)
  case (Cons t ts)
  note fit = requests_fit_Cons [OF Cons.prems]
  have "nth_page t (c t) \<noteq> nth_pages (c(t := c t + 1)) ts ! i" if i: "i < length ts" for i
  proof -
    obtain n where n: "(c(t := c t + 1)) (ts ! i) \<le> n" "n < partition_pages (ts ! i)"
        "nth_pages (c(t := c t + 1)) ts ! i = nth_page (ts ! i) n"
      using nth_pages_between [of "c(t := c t + 1)" ts i] fit i by blast
    show ?thesis
      using n nth_page_inject [of "c t" t n "ts ! i"] fit by (cases "ts ! i = t") auto
  qed
  then have "nth_page t (c t) \<notin> set (nth_pages (c(t := c t + 1)) ts)"
    by (metis in_set_conv_nth length_nth_pages)
  moreover have "distinct (nth_pages (c(t := c t + 1)) ts)"
    using Cons.IH fit by blast
  ultimately show ?case
    by simp
qed simp

text \<open>
  C21. Page allocation of the LSM-tree store.  From \<^verbatim>\<open>lsm_bm_init\<close> and \<^verbatim>\<open>lsm_page_init\<close> on, any
  sequence \<open>ts\<close> of requests for metadata and data pages that does not exceed the two partitions
  (\<open>requests_fit\<close>) is served by \<^verbatim>\<open>lsm_get_page\<close>; the pages are all different, and each belongs to the
  partition it was requested from.
\<close>

theorem lsm_pages_distinct:
  assumes "requests_fit (\<lambda>_. 0) ts"
  shows "returns (do { st \<leftarrow> lsm_page_init (lsm_bm_init oob0); lsm_get_pages ts st }) (\<lambda>(ppas, st').
    length ppas = length ts \<and> distinct ppas \<and>
    (\<forall>i < length ts. \<exists>n < partition_pages (ts ! i). ppas ! i = nth_page (ts ! i) n))"
proof -
  obtain st where st: "lsm_page_init (lsm_bm_init oob0) = Some st" "\<forall>t. handed_out st t 0"
    by (rule returnsE [OF lsm_page_init_handed_out])
  obtain ppas st' where "lsm_get_pages ts st = Some (ppas, st')" "ppas = nth_pages (\<lambda>_. 0) ts"
    using lsm_get_pages_next [of st "\<lambda>_. 0", OF st(2) assms] by (auto elim!: returnsE)
  then show ?thesis
    using st(1) nth_pages_distinct [OF assms] nth_pages_between [OF assms] by auto
qed

theorem lsm_pages_distinct_witness:
  "returns (do { st \<leftarrow> lsm_page_init (lsm_bm_init (\<lambda>_. \<lparr>po_length = 0, po_isvalid = False\<rparr>)); lsm_get_pages [MAP, DATA, MAP] st })
     (\<lambda>(ppas, st'). length ppas = 3 \<and> distinct ppas)"
proof -
  have "requests_fit (\<lambda>_. 0) [MAP, DATA, MAP]"
    unfolding requests_fit_def
  proof
    fix t
    show "0 + length (filter (\<lambda>u. u = t) [MAP, DATA, MAP]) \<le> partition_pages t"
      by (cases t) (simp_all add: partition_pages_def lo_sblk_def hi_sblk_def PPS_val)
  qed
  from lsm_pages_distinct [OF this, of "\<lambda>_. \<lparr>po_length = 0, po_isvalid = False\<rparr>"] show ?thesis
    by (rule returns_mono) (auto simp: numeral_eq_Suc)
qed

end
