(* ===== verification/LsmRuns.thy ===== *)
theory LsmRuns
  imports LsmPage LsmBm
begin

text \<open>
  The levels of the LSM tree, \<^verbatim>\<open>lsmtree/lsm_level.h\<close> and \<^verbatim>\<open>array/array.c\<close>: a level is an array of
  runs in key order, a run is a metadata page with its first and last key.  The theory has the
  operations on levels and the searches, which are binary searches over the array.
\<close>

section \<open>Runs and levels\<close>

text \<open>
  Pages are held by value: \<open>r_data\<close> is \<^verbatim>\<open>level_caching_data\<close>, \<open>r_cpt\<close> the page of \<^verbatim>\<open>cpt_data\<close>.  The
  fields that only the unused caching code reads are left out.
\<close>

record run_t =
  r_key :: str_key
  r_end :: str_key
  r_pbn :: ppa_t
  r_iscached :: nat
  r_data :: "page option"
  r_cpt :: "page option"

text \<open>\<^verbatim>\<open>lv_arrs\<close> is the used part of the array, so \<^verbatim>\<open>n_num\<close> is its length; \<open>lv_m_num\<close> runs are allocated.\<close>

record level =
  lv_idx :: nat
  lv_m_num :: nat
  lv_start :: str_key
  lv_end :: str_key
  lv_istier :: bool
  lv_isCXL :: bool
  lv_iscompactioning :: bool
  lv_arrs :: "run_t list"

abbreviation n_num :: "level \<Rightarrow> nat" where
  "n_num lev \<equiv> length (lv_arrs lev)"

definition LEVELN :: nat where "LEVELN = 5"

definition LEVELCACHING :: nat where "LEVELCACHING = 3"

text \<open>The extreme keys of \<^verbatim>\<open>lsm_create\<close> have \<^verbatim>\<open>MAXKEYLENGTH\<close> bytes.\<close>

definition lsm_key_max :: str_key where "lsm_key_max = replicate 255 0xFF"

definition lsm_key_min :: str_key where "lsm_key_min = replicate 255 0"

definition array_init :: "nat \<Rightarrow> nat \<Rightarrow> bool \<Rightarrow> level" where
  "array_init sz idx istier = \<lparr>lv_idx = idx, lv_m_num = sz, lv_start = lsm_key_max, lv_end = lsm_key_min,
     lv_istier = istier, lv_isCXL = False, lv_iscompactioning = False, lv_arrs = []\<rparr>"

definition array_make_run :: "str_key \<Rightarrow> str_key \<Rightarrow> ppa_t \<Rightarrow> run_t" where
  "array_make_run start end pbn = \<lparr>r_key = start, r_end = end, r_pbn = pbn, r_iscached = 0, r_data = None, r_cpt = None\<rparr>"

text \<open>The copy in the array takes over the cached page.\<close>

definition array_run_cpy_to :: "run_t \<Rightarrow> run_t \<times> run_t" where
  "array_run_cpy_to r =
     (\<lparr>r_key = r_key r, r_end = r_end r, r_pbn = r_pbn r, r_iscached = r_iscached r, r_data = r_data r, r_cpt = None\<rparr>,
      r\<lparr>r_data := None\<rparr>)"

definition array_range_update :: "str_key \<Rightarrow> level \<Rightarrow> level" where
  "array_range_update key lev =
     (let lev1 = (if KEYCMP (lv_start lev) key > 0 then lev\<lparr>lv_start := key\<rparr> else lev)
      in if KEYCMP (lv_end lev1) key < 0 then lev1\<lparr>lv_end := key\<rparr> else lev1)"

definition array_insert :: "level \<Rightarrow> run_t \<Rightarrow> (level \<times> run_t) option" where
  "array_insert lev r =
     (if lv_m_num lev \<le> n_num lev then None
      else
        (let (target, r') = array_run_cpy_to r;
             lev1 = array_range_update (r_end target) (array_range_update (r_key target) lev)
         in Some (lev1\<lparr>lv_arrs := lv_arrs lev1 @ [target]\<rparr>, r')))"

text \<open>\<^verbatim>\<open>array_lev_copy\<close> moves the pages too; an array that is too small is overrun.\<close>

definition array_lev_copy :: "level \<Rightarrow> level \<Rightarrow> (level \<times> level) option" where
  "array_lev_copy des src =
     (if lv_m_num des < n_num src then None
      else Some (des\<lparr>lv_start := lv_start src, lv_end := lv_end src,
                   lv_arrs := map (\<lambda>r. fst (array_run_cpy_to r)) (lv_arrs src)\<rparr>,
                 src\<lparr>lv_arrs := map (\<lambda>r. snd (array_run_cpy_to r)) (lv_arrs src)\<rparr>))"

text \<open>The memory for the cached levels and the number of metadata pages of \<^verbatim>\<open>lsm_setup_params\<close>.\<close>

definition total_memory :: int where "total_memory = 64 * 2 ^ 30 div 1024 * 10"

definition HEADERNUM :: int where "HEADERNUM = int LSM_HEADERNUM"

lemma HEADERNUM_value [code]: "HEADERNUM = 593884"
  by (simp add: HEADERNUM_def LSM_HEADERNUM_def LSM_ONESEGMENT_def LSM_KEYNUM_def PAGESIZE_def)

text \<open>
  The size factor is a \<^verbatim>\<open>float\<close> between 8 and 16, a multiple of \<open>2 ^ -20\<close>, and is counted in these units:
  \<^verbatim>\<open>0.05f\<close> is taken off it in steps of 52429 of them.  Its powers are exact here; the \<^verbatim>\<open>float\<close> products of the
  source round them by far less than what separates them from the integers they are compared with.
\<close>

abbreviation fixed_one :: int where "fixed_one \<equiv> 2 ^ 20"

definition rounded_power :: "int \<Rightarrow> nat \<Rightarrow> int" where
  "rounded_power r i = (2 * r ^ i + fixed_one ^ i) div (2 * fixed_one ^ i)"

definition ceil_power :: "int \<Rightarrow> nat \<Rightarrow> int" where
  "ceil_power r i = - ((- (r ^ i)) div fixed_one ^ i)"

fun fit_factor :: "nat \<Rightarrow> int \<Rightarrow> int option" where
  "fit_factor 0 r = None"
| "fit_factor (Suc fuel) r =
     (if (\<Sum>i \<leftarrow> [1..<Suc LEVELN]. rounded_power r i) > HEADERNUM then fit_factor fuel (r - 52429) else Some r)"

fun cached_runs :: "nat \<Rightarrow> int \<Rightarrow> int \<Rightarrow> int" where
  "cached_runs 0 r ptr = 0"
| "cached_runs (Suc n) r ptr = (let ptr' = - ((- (r * ptr)) div fixed_one) in ptr' + cached_runs n r ptr')"

text \<open>
  \<^verbatim>\<open>get_sizefactor\<close> starts at the least integer whose fifth power is not below \<^verbatim>\<open>HEADERNUM\<close>; the last loop never
  ends if the cached levels do not fit the memory.
\<close>

definition get_sizefactor :: "int option" where
  "get_sizefactor = do {
     start \<leftarrow> List.find (\<lambda>n. HEADERNUM \<le> n ^ LEVELN) (map int [0..<100]);
     res \<leftarrow> fit_factor 100 (start * fixed_one);
     if cached_runs LEVELCACHING res 1 * int PAGESIZE < total_memory then Some res else None
   }"

definition size_factor :: int where
  "size_factor = (case get_sizefactor of Some r \<Rightarrow> r | None \<Rightarrow> 0)"

text \<open>The capacities \<^verbatim>\<open>lsm_create\<close> gives to the levels.\<close>

definition lsm_level_sizes :: "nat list" where
  "lsm_level_sizes = map (\<lambda>i. nat (ceil_power size_factor (Suc i))) [0..<LEVELN]"

text \<open>
  \<^verbatim>\<open>def_full_chk\<close>: \<^verbatim>\<open>m_num / size_factor * (size_factor - 1)\<close> is truncated for the cached levels and
  compared as it is for the others.
\<close>

definition def_full_chk :: "level \<Rightarrow> bool" where
  "def_full_chk lev =
     (let a = int (n_num lev); m = int (lv_m_num lev) in
      if lv_idx lev < LEVELCACHING then a \<ge> (if lv_idx lev = 0 then m - 2 else m * (size_factor - fixed_one) div size_factor)
      else a * size_factor \<ge> m * (size_factor - fixed_one) \<or>
        (m \<ge> 100 \<and> 100 * (a * size_factor) \<ge> 95 * (m * (size_factor - fixed_one))))"

lemma get_sizefactor_value: "get_sizefactor = Some 14732489"
  by code_simp

lemma size_factor_value: "size_factor = 14732489"
  unfolding size_factor_def get_sizefactor_value by simp

lemma lsm_level_sizes_value: "lsm_level_sizes = [15, 198, 2774, 38968, 547497]"
  by (simp add: lsm_level_sizes_def LEVELN_def upt_rec ceil_power_def size_factor_value)

definition array_chk_overlap :: "level \<Rightarrow> str_key \<Rightarrow> str_key \<Rightarrow> bool" where
  "array_chk_overlap lev start end = (\<not> (KEYCMP (lv_start lev) end > 0 \<or> KEYCMP (lv_end lev) start < 0))"

definition array_get_run_idx :: "level \<Rightarrow> nat \<Rightarrow> run_t option" where
  "array_get_run_idx lev idx = (if idx < n_num lev then Some (lv_arrs lev ! idx) else None)"

text \<open>\<^verbatim>\<open>array_check_order\<close> aborts on a level that is out of order.\<close>

definition array_check_order :: "level \<Rightarrow> unit option" where
  "array_check_order lev =
     (if lv_idx lev < LEVELCACHING \<or> n_num lev = 0 then Some ()
      else if \<exists>i \<in> {1..<n_num lev}. KEYCMP (r_end (lv_arrs lev ! (i - 1))) (r_key (lv_arrs lev ! i)) \<ge> 0 then None
      else Some ())"

section \<open>Searches\<close>

text \<open>
  \<^verbatim>\<open>array_find_run\<close>: the loop is entered with \<open>s \<le> e\<close>; the result is the index of the run, and the
  midpoint of an empty window is rounded towards zero.
\<close>

function find_run_loop :: "run_t list \<Rightarrow> str_key \<Rightarrow> int \<Rightarrow> int \<Rightarrow> nat option" where
  "find_run_loop arrs lpa s e =
     (if s \<le> e \<and> 0 \<le> s \<and> e < int (length arrs) then
        (let mid = (s + e) div 2;
             res1 = KEYCMP (r_key (arrs ! nat mid)) lpa;
             s' = (if res1 > 0 then s else mid + 1);
             e' = (if res1 > 0 then mid - 1 else e)
         in if res1 = 0 then Some (nat mid)
            else if s' > e' then Some (nat ((s' + e') div 2))
            else find_run_loop arrs lpa s' e')
      else None)"
  by pat_completeness auto
termination
  by (relation "measure (\<lambda>(arrs, lpa, s, e). nat (e + 1 - s))") auto

declare find_run_loop.simps [simp del]

definition array_find_run :: "level \<Rightarrow> str_key \<Rightarrow> nat option option" where
  "array_find_run lev lpa =
     (if n_num lev = 0 then Some None
      else map_option Some (find_run_loop (lv_arrs lev) lpa 0 (int (n_num lev) - 1)))"

text \<open>\<^verbatim>\<open>array_binary_search\<close>: the run whose range has the key, or \<open>-1\<close>.\<close>

function binary_search_loop :: "run_t list \<Rightarrow> str_key \<Rightarrow> int \<Rightarrow> int \<Rightarrow> int" where
  "binary_search_loop body lpa s e =
     (if s \<le> e then
        (let mid = (s + e) div 2;
             res1 = KEYCMP (r_key (body ! nat mid)) lpa;
             res2 = KEYCMP (r_end (body ! nat mid)) lpa
         in if res1 \<le> 0 \<and> res2 \<ge> 0 then mid
            else if res1 > 0 then binary_search_loop body lpa s (mid - 1)
            else binary_search_loop body lpa (mid + 1) e)
      else - 1)"
  by pat_completeness auto
termination
  by (relation "measure (\<lambda>(body, lpa, s, e). nat (e + 1 - s))") auto

declare binary_search_loop.simps [simp del]

definition array_binary_search :: "level \<Rightarrow> str_key \<Rightarrow> int" where
  "array_binary_search lev lpa = binary_search_loop (lv_arrs lev) lpa 0 (int (n_num lev) - 1)"

text \<open>\<^verbatim>\<open>array_bound_search\<close>; the loop keeps its last midpoint and comparisons.\<close>

function bound_search_loop :: "run_t list \<Rightarrow> str_key \<Rightarrow> bool \<Rightarrow> int \<Rightarrow> int \<Rightarrow> int \<Rightarrow> int \<Rightarrow> int \<Rightarrow> int" where
  "bound_search_loop body lpa islower s e mid res1 res2 =
     (if s \<le> e then
        (let mid = (s + e) div 2;
             res1 = KEYCMP (r_key (body ! nat mid)) lpa;
             res2 = KEYCMP (r_end (body ! nat mid)) lpa
         in if res1 \<le> 0 \<and> res2 \<ge> 0 then (if islower then mid else mid + 1)
            else if res1 > 0 then bound_search_loop body lpa islower s (mid - 1) mid res1 res2
            else bound_search_loop body lpa islower (mid + 1) e mid res1 res2)
      else if res1 > 0 then mid
      else if res2 < 0 \<and> mid < int (length body) - 1 then mid + 1
      else - 1)"
  by pat_completeness auto
termination
  by (relation "measure (\<lambda>(body, lpa, islower, s, e, mid, res1, res2). nat (e + 1 - s))") auto

declare bound_search_loop.simps [simp del]

definition array_bound_search :: "level \<Rightarrow> str_key \<Rightarrow> bool \<Rightarrow> int" where
  "array_bound_search lev lpa islower = bound_search_loop (lv_arrs lev) lpa islower 0 (int (n_num lev) - 1) 0 0 0"

section \<open>Ranges of runs\<close>

fun range_find_from :: "str_key \<Rightarrow> str_key \<Rightarrow> run_t list \<Rightarrow> run_t list" where
  "range_find_from s e [] = []"
| "range_find_from s e (r # rs) =
     (if \<not> (KEYCMP (r_end r) s < 0 \<or> KEYCMP (r_key r) e > 0) then r # range_find_from s e rs
      else if KEYCMP e (r_key r) < 0 then []
      else range_find_from s e rs)"

definition from_index :: "int \<Rightarrow> level \<Rightarrow> run_t list" where
  "from_index i lev = drop (nat (if i = - 1 then 0 else i)) (lv_arrs lev)"

definition array_range_find :: "level \<Rightarrow> str_key \<Rightarrow> str_key \<Rightarrow> run_t list" where
  "array_range_find lev s e = range_find_from s e (from_index (array_binary_search lev s) lev)"

definition array_range_find_compaction :: "level \<Rightarrow> str_key \<Rightarrow> str_key \<Rightarrow> run_t list" where
  "array_range_find_compaction lev s e = from_index (array_bound_search lev s True) lev"

definition array_unmatch_find :: "level \<Rightarrow> str_key \<Rightarrow> str_key \<Rightarrow> run_t list" where
  "array_unmatch_find lev s e = filter (\<lambda>r. KEYCMP (r_end r) s < 0) (lv_arrs lev)"

definition array_range_find_lowerbound :: "level \<Rightarrow> str_key \<Rightarrow> int option" where
  "array_range_find_lowerbound lev target = (let i = array_bound_search lev target True in if i = - 1 then None else Some i)"

definition array_next_run :: "level \<Rightarrow> str_key \<Rightarrow> nat option" where
  "array_next_run lev key =
     (let i = array_binary_search lev key in
      if i = - 1 then None else if i + 1 < int (n_num lev) then Some (nat (i + 1)) else None)"

text \<open>\<^verbatim>\<open>array_find_run_num\<close>: at most \<open>num\<close> runs; the value for a tiered level is an invalid pointer, here \<open>None\<close>.\<close>

definition array_find_run_num :: "level \<Rightarrow> str_key \<Rightarrow> nat \<Rightarrow> run_t list option option" where
  "array_find_run_num lev lpa num =
     (if n_num lev = 0 then Some None
      else if KEYCMP (lv_start lev) lpa > 0 \<or> KEYCMP (lv_end lev) lpa < 0 then Some None
      else if lv_istier lev then None
      else (let i = array_binary_search lev lpa in
            if i = - 1 then Some None else Some (Some (take num (drop (nat i) (lv_arrs lev))))))"

text \<open>The iterator: the next index and the index it ends at.\<close>

definition array_get_iter :: "level \<Rightarrow> str_key \<Rightarrow> str_key \<Rightarrow> int \<times> int" where
  "array_get_iter lev start end =
     (if KEYCMP start (lv_start lev) = 0 \<and> KEYCMP end (lv_end lev) = 0 then (0, int (n_num lev))
      else (array_bound_search lev start True, array_bound_search lev end True))"

definition array_iter_nxt :: "level \<Rightarrow> int \<times> int \<Rightarrow> (run_t option \<times> int \<times> int) option" where
  "array_iter_nxt lev it =
     (if fst it = snd it then Some (None, it)
      else if 0 \<le> fst it \<and> fst it < int (n_num lev) then Some (Some (lv_arrs lev ! nat (fst it)), fst it + 1, snd it)
      else None)"

section \<open>Ordered levels\<close>

text \<open>The ranges of the runs are non-empty intervals in increasing order.\<close>

definition runs_ordered :: "run_t list \<Rightarrow> bool" where
  "runs_ordered rs \<longleftrightarrow> (\<forall>r \<in> set rs. \<not> key_less (r_end r) (r_key r)) \<and> sorted_wrt (\<lambda>a b. key_less (r_end a) (r_key b)) rs"

lemma runs_orderedD:
  assumes "runs_ordered rs" "i < length rs"
  shows "\<not> key_less (r_end (rs ! i)) (r_key (rs ! i))" "i < j \<Longrightarrow> j < length rs \<Longrightarrow> key_less (r_end (rs ! i)) (r_key (rs ! j))"
  using assms by (auto simp: runs_ordered_def sorted_wrt_iff_nth_less)

lemma key_le_less_trans: "\<not> key_less b a \<Longrightarrow> key_less b c \<Longrightarrow> key_less a c"
  using key_less_trans by (cases rule: key_less_cases [of a b]) auto

lemma key_less_le_trans: "key_less a b \<Longrightarrow> \<not> key_less c b \<Longrightarrow> key_less a c"
  using key_less_trans by (cases rule: key_less_cases [of b c]) auto

lemma runs_ordered_keys:
  assumes "runs_ordered rs" "i < j" "j < length rs"
  shows "key_less (r_key (rs ! i)) (r_key (rs ! j))" "key_less (r_end (rs ! i)) (r_end (rs ! j))"
proof -
  have l: "key_less (r_end (rs ! i)) (r_key (rs ! j))"
    using runs_orderedD(2) [OF assms(1) _ assms(2,3)] assms by simp
  show "key_less (r_key (rs ! i)) (r_key (rs ! j))"
    using key_le_less_trans [OF runs_orderedD(1) [OF assms(1)] l] assms by simp
  show "key_less (r_end (rs ! i)) (r_end (rs ! j))"
    using key_less_le_trans [OF l runs_orderedD(1) [OF assms(1,3)]] .
qed

text \<open>Two views of the array: by first keys, and by ranges.\<close>

lemma first_keys_ordered:
  assumes "runs_ordered rs"
  shows "ordered_by (length rs) (\<lambda>i. key_less (r_key (rs ! i)) k) (\<lambda>i. key_less k (r_key (rs ! i)))"
  unfolding ordered_by_def
proof (intro conjI allI impI)
  fix i j :: nat assume ij: "i \<le> j" "j < length rs"
  have "i = j \<or> key_less (r_key (rs ! i)) (r_key (rs ! j))"
    using ij runs_ordered_keys(1) [OF assms, of i j] by (cases "i = j") auto
  then show "key_less (r_key (rs ! j)) k \<Longrightarrow> key_less (r_key (rs ! i)) k" "key_less k (r_key (rs ! i)) \<Longrightarrow> key_less k (r_key (rs ! j))"
    by (auto intro: key_less_trans)
qed

lemma ranges_ordered:
  assumes "runs_ordered rs"
  shows "ordered_by (length rs) (\<lambda>i. key_less (r_end (rs ! i)) k) (\<lambda>i. key_less k (r_key (rs ! i)))"
  unfolding ordered_by_def
proof (intro conjI allI impI)
  fix i j :: nat assume ij: "i \<le> j" "j < length rs"
  have "i = j \<or> key_less (r_key (rs ! i)) (r_key (rs ! j))" "i = j \<or> key_less (r_end (rs ! i)) (r_end (rs ! j))"
    using ij runs_ordered_keys [OF assms, of i j] by (cases "i = j"; auto)+
  then show "key_less (r_end (rs ! j)) k \<Longrightarrow> key_less (r_end (rs ! i)) k" "key_less k (r_key (rs ! i)) \<Longrightarrow> key_less k (r_key (rs ! j))"
    by (auto intro: key_less_trans)
qed

text \<open>The run that a lookup uses: the last one whose first key is not above the key, or the first run.\<close>

lemma find_run_loop_correct:
  assumes "runs_ordered rs" "rs \<noteq> []" "window (length rs) (\<lambda>i. key_less (r_key (rs ! i)) k) (\<lambda>i. key_less k (r_key (rs ! i))) s e" "s \<le> e"
  shows "returns (find_run_loop rs k s e) (\<lambda>i. i < length rs \<and> (0 < i \<longrightarrow> \<not> key_less k (r_key (rs ! i))) \<and>
    (\<forall>j < length rs. i < j \<longrightarrow> key_less k (r_key (rs ! j))))"
  using assms(3,4)
proof (induction "nat (e + 1 - s)" arbitrary: s e rule: less_induct)
  case less
  note steps = window_step [OF less.prems(1) first_keys_ordered [OF assms(1)]]
  obtain i where i: "(s + e) div 2 = int i" "i < length rs" "s \<le> int i" "int i \<le> e"
    using window_mid [OF less.prems] by blast
  have rng: "0 \<le> s" "e < int (length rs)"
    using less.prems(1) by (auto simp: window_def)
  show ?case
  proof (cases rule: key_less_cases [of "r_key (rs ! i)" k])
    case 2
    have "key_less k (r_key (rs ! j))" if "i < j" "j < length rs" for j
      using 2 runs_ordered_keys(1) [OF assms(1) that] by simp
    moreover have "find_run_loop rs k s e = Some i"
      using 2 by (subst find_run_loop.simps) (simp add: Let_def less.prems(2) rng i(1))
    ultimately show ?thesis
      using 2 i(2) by simp
  next
    case 1
    have w: "window (length rs) (\<lambda>i. key_less (r_key (rs ! i)) k) (\<lambda>i. key_less k (r_key (rs ! i))) (int i + 1) e"
      using steps(1) [OF i(3,4,2) 1] .
    show ?thesis
    proof (cases "int i + 1 \<le> e")
      case True
      have "find_run_loop rs k s e = find_run_loop rs k (int i + 1) e"
        using 1 key_less_asym [OF 1] True by (subst find_run_loop.simps) (auto simp: Let_def less.prems(2) rng i(1) KEYCMP_pos)
      then show ?thesis
        using less.hyps [OF _ w True] i(3,4) by simp
    next
      case False
      then have e: "e = int i"
        using i(4) by linarith
      have "(int i + 1 + e) div 2 = int i"
        using e by linarith
      then have "find_run_loop rs k s e = Some i"
        using 1 key_less_asym [OF 1] False by (subst find_run_loop.simps) (auto simp: Let_def less.prems(2) rng i(1) KEYCMP_pos)
      moreover have "key_less k (r_key (rs ! j))" if "i < j" "j < length rs" for j
        using that w e by (auto simp: window_def)
      ultimately show ?thesis
        using i(2) key_less_asym [OF 1] by simp
    qed
  next
    case 3
    have w: "window (length rs) (\<lambda>i. key_less (r_key (rs ! i)) k) (\<lambda>i. key_less k (r_key (rs ! i))) s (int i - 1)"
      using steps(2) [OF i(3,4,2) 3] .
    show ?thesis
    proof (cases "s \<le> int i - 1")
      case True
      have "find_run_loop rs k s e = find_run_loop rs k s (int i - 1)"
        using 3 True by (subst find_run_loop.simps) (auto simp: Let_def less.prems(2) rng i(1) KEYCMP_pos)
      then show ?thesis
        using less.hyps [OF _ w True] i(3,4) by simp
    next
      case False
      then have s: "s = int i"
        using i(3) by linarith
      have mid: "nat ((s + (int i - 1)) div 2) = i - 1"
        using s by (cases i) auto
      have "find_run_loop rs k s e = Some (i - 1)"
        using 3 False mid by (subst find_run_loop.simps) (auto simp: Let_def less.prems(2) rng i(1) KEYCMP_pos)
      moreover have "key_less k (r_key (rs ! j))" if "i - 1 < j" "j < length rs" for j
        using that w s by (auto simp: window_def)
      moreover have "\<not> key_less k (r_key (rs ! (i - 1)))" if "0 < i - 1"
      proof -
        have "key_less (r_key (rs ! (i - 1))) k"
          using w s that i(2) by (auto simp: window_def)
        then show ?thesis
          by (rule key_less_asym)
      qed
      ultimately show ?thesis
        using i(2) by simp
    qed
  qed
qed

lemma array_find_run_correct:
  assumes "runs_ordered (lv_arrs lev)"
  shows "returns (array_find_run lev k) (\<lambda>r. case r of None \<Rightarrow> lv_arrs lev = []
    | Some i \<Rightarrow> i < n_num lev \<and> (0 < i \<longrightarrow> \<not> key_less k (r_key (lv_arrs lev ! i))) \<and>
        (\<forall>j < n_num lev. i < j \<longrightarrow> key_less k (r_key (lv_arrs lev ! j))))"
proof (cases "lv_arrs lev = []")
  case False
  then have "0 \<le> int (n_num lev) - 1"
    by (cases "lv_arrs lev") auto
  then show ?thesis
    using find_run_loop_correct [OF assms False window_start] False by (simp add: array_find_run_def)
qed (simp add: array_find_run_def)

text \<open>The run whose range covers a key, and the first run that does not end before it.\<close>

definition covers_key :: "run_t \<Rightarrow> str_key \<Rightarrow> bool" where
  "covers_key r k \<longleftrightarrow> \<not> key_less k (r_key r) \<and> \<not> key_less (r_end r) k"

lemma KEYCMP_covers: "KEYCMP (r_key r) k \<le> 0 \<and> KEYCMP (r_end r) k \<ge> 0 \<longleftrightarrow> covers_key r k"
  by (simp add: covers_key_def not_less [symmetric] KEYCMP_pos)

lemma window_closed_uncovered:
  assumes "window (length rs) (\<lambda>i. key_less (r_end (rs ! i)) k) (\<lambda>i. key_less k (r_key (rs ! i))) s e" "\<not> s \<le> e" "i < length rs"
  shows "\<not> covers_key (rs ! i) k"
  using window_closed(2,3) [OF assms] by (cases "int i < s") (auto simp: covers_key_def)

lemma binary_search_loop_correct:
  assumes "runs_ordered rs" "window (length rs) (\<lambda>i. key_less (r_end (rs ! i)) k) (\<lambda>i. key_less k (r_key (rs ! i))) s e"
  shows "(\<exists>i < length rs. binary_search_loop rs k s e = int i \<and> covers_key (rs ! i) k) \<or>
    (binary_search_loop rs k s e = - 1 \<and> (\<forall>i < length rs. \<not> covers_key (rs ! i) k))"
  using assms(2)
proof (induction "nat (e + 1 - s)" arbitrary: s e rule: less_induct)
  case less
  note steps = window_step [OF less.prems ranges_ordered [OF assms(1)]]
  show ?case
  proof (cases "s \<le> e")
    case False
    then show ?thesis
      using window_closed_uncovered [OF less.prems False] by (subst (1 2) binary_search_loop.simps) simp
  next
    case True
    obtain i where i: "(s + e) div 2 = int i" "i < length rs" "s \<le> int i" "int i \<le> e"
      using window_mid [OF less.prems True] by blast
    have unfold: "binary_search_loop rs k s e = (if covers_key (rs ! i) k then int i
        else if key_less k (r_key (rs ! i)) then binary_search_loop rs k s (int i - 1)
        else binary_search_loop rs k (int i + 1) e)"
      by (subst binary_search_loop.simps) (simp add: True i(1) Let_def KEYCMP_covers KEYCMP_pos)
    consider "covers_key (rs ! i) k" | "\<not> covers_key (rs ! i) k" "key_less k (r_key (rs ! i))"
      | "\<not> covers_key (rs ! i) k" "\<not> key_less k (r_key (rs ! i))" "key_less (r_end (rs ! i)) k"
      by (auto simp: covers_key_def)
    then show ?thesis
    proof cases
      case 1
      then show ?thesis
        using i(2) unfold by auto
    next
      case 2
      then show ?thesis
        using less.hyps [OF _ steps(2) [OF i(3,4,2) 2(2)]] i(3,4) unfold by simp
    next
      case 3
      then show ?thesis
        using less.hyps [OF _ steps(1) [OF i(3,4,2) 3(3)]] i(3,4) unfold by simp
    qed
  qed
qed

lemma array_binary_search_correct:
  assumes "runs_ordered (lv_arrs lev)"
  shows "(\<exists>i < n_num lev. array_binary_search lev k = int i \<and> covers_key (lv_arrs lev ! i) k) \<or>
    (array_binary_search lev k = - 1 \<and> (\<forall>r \<in> set (lv_arrs lev). \<not> covers_key r k))"
  using binary_search_loop_correct [OF assms window_start, of k] by (auto simp: array_binary_search_def in_set_conv_nth)

lemma bound_search_loop_correct:
  assumes "runs_ordered rs" "window (length rs) (\<lambda>i. key_less (r_end (rs ! i)) k) (\<lambda>i. key_less k (r_key (rs ! i))) s e"
    "s \<le> e \<or> (res1 > 0 \<and> mid = s \<and> s < int (length rs)) \<or> (res1 \<le> 0 \<and> res2 < 0 \<and> mid + 1 = s) \<or> (rs = [] \<and> res1 = 0 \<and> res2 = 0)"
  shows "(\<exists>i < length rs. bound_search_loop rs k True s e mid res1 res2 = int i \<and> \<not> key_less (r_end (rs ! i)) k \<and>
      (\<forall>j < i. key_less (r_end (rs ! j)) k)) \<or>
    (bound_search_loop rs k True s e mid res1 res2 = - 1 \<and> (\<forall>i < length rs. key_less (r_end (rs ! i)) k))"
  using assms(2,3)
proof (induction "nat (e + 1 - s)" arbitrary: s e mid res1 res2 rule: less_induct)
  case less
  note steps = window_step [OF less.prems(1) ranges_ordered [OF assms(1)]]
  show ?case
  proof (cases "s \<le> e")
    case False
    note closed = window_closed [OF less.prems(1) False]
    have s: "0 \<le> s" "s \<le> int (length rs)"
      using less.prems(1) False by (auto simp: window_def)
    have at: "\<not> key_less (r_end (rs ! nat s)) k \<and> (\<forall>j < nat s. key_less (r_end (rs ! j)) k)" if "s < int (length rs)"
    proof -
      have "key_less k (r_key (rs ! nat s))"
        using closed(3) [of "nat s"] that s by simp
      then have "key_less k (r_end (rs ! nat s))"
        using key_less_le_trans [OF _ runs_orderedD(1) [OF assms(1), of "nat s"]] that s by simp
      moreover have "key_less (r_end (rs ! j)) k" if "j < nat s" for j
        using closed(2) [of j] that \<open>s < int (length rs)\<close> by simp
      ultimately show ?thesis
        using key_less_asym by blast
    qed
    have val: "bound_search_loop rs k True s e mid res1 res2 = (if res1 > 0 then mid
        else if res2 < 0 \<and> mid < int (length rs) - 1 then mid + 1 else - 1)"
      using False by (subst bound_search_loop.simps) simp
    show ?thesis
    proof (cases "s < int (length rs)")
      case True
      then have "bound_search_loop rs k True s e mid res1 res2 = s"
        using val less.prems(2) False s by auto
      then show ?thesis
        using at [OF True] True s by (intro disjI1 exI [of _ "nat s"]) auto
    next
      case last: False
      then have "bound_search_loop rs k True s e mid res1 res2 = - 1"
        using val less.prems(2) False s by auto
      then show ?thesis
        using closed(2) last by auto
    qed
  next
    case True
    obtain i where i: "(s + e) div 2 = int i" "i < length rs" "s \<le> int i" "int i \<le> e"
      using window_mid [OF less.prems(1) True] by blast
    let ?r1 = "KEYCMP (r_key (rs ! i)) k" and ?r2 = "KEYCMP (r_end (rs ! i)) k"
    have unfold: "bound_search_loop rs k True s e mid res1 res2 = (if covers_key (rs ! i) k then int i
        else if key_less k (r_key (rs ! i)) then bound_search_loop rs k True s (int i - 1) (int i) ?r1 ?r2
        else bound_search_loop rs k True (int i + 1) e (int i) ?r1 ?r2)"
      by (subst bound_search_loop.simps) (simp add: True i(1) Let_def KEYCMP_covers KEYCMP_pos)
    consider "covers_key (rs ! i) k" | "\<not> covers_key (rs ! i) k" "key_less k (r_key (rs ! i))"
      | "\<not> covers_key (rs ! i) k" "\<not> key_less k (r_key (rs ! i))" "key_less (r_end (rs ! i)) k"
      by (auto simp: covers_key_def)
    then show ?thesis
    proof cases
      case 1
      have "key_less (r_end (rs ! j)) k" if "j < i" for j
        using key_less_le_trans [OF runs_orderedD(2) [OF assms(1) _ that i(2)]] 1 that i(2) by (simp add: covers_key_def)
      then show ?thesis
        using 1 i(2) unfold by (auto simp: covers_key_def)
    next
      case 2
      have d: "s \<le> int i - 1 \<or> (?r1 > 0 \<and> int i = s \<and> s < int (length rs)) \<or> (?r1 \<le> 0 \<and> ?r2 < 0 \<and> int i + 1 = s) \<or>
          (rs = [] \<and> ?r1 = 0 \<and> ?r2 = 0)"
        using i 2(2) by (auto simp: KEYCMP_pos)
      have "nat (int i - 1 + 1 - s) < nat (e + 1 - s)"
        using i by linarith
      from less.hyps [OF this steps(2) [OF i(3,4,2) 2(2)] d] show ?thesis
        unfolding unfold using 2 by simp
    next
      case 3
      have d: "int i + 1 \<le> e \<or> (?r1 > 0 \<and> int i = int i + 1 \<and> int i + 1 < int (length rs)) \<or> (?r1 \<le> 0 \<and> ?r2 < 0 \<and> int i + 1 = int i + 1) \<or>
          (rs = [] \<and> ?r1 = 0 \<and> ?r2 = 0)"
        using 3 by (simp add: not_less [symmetric] KEYCMP_pos)
      have "nat (e + 1 - (int i + 1)) < nat (e + 1 - s)"
        using i by linarith
      from less.hyps [OF this steps(1) [OF i(3,4,2) 3(3)] d] show ?thesis
        unfolding unfold using 3 by simp
    qed
  qed
qed

lemma array_bound_search_correct:
  assumes "runs_ordered (lv_arrs lev)"
  shows "(\<exists>i < n_num lev. array_bound_search lev k True = int i \<and> \<not> key_less (r_end (lv_arrs lev ! i)) k \<and>
      (\<forall>j < i. key_less (r_end (lv_arrs lev ! j)) k)) \<or>
    (array_bound_search lev k True = - 1 \<and> (\<forall>i < n_num lev. key_less (r_end (lv_arrs lev ! i)) k))"
  using bound_search_loop_correct [OF assms window_start, where k = k and ?res1.0 = 0 and ?res2.0 = 0 and mid = 0] by (cases "lv_arrs lev") (auto simp: array_bound_search_def)

text \<open>The runs that overlap a range of keys.\<close>

definition overlaps_range :: "str_key \<Rightarrow> str_key \<Rightarrow> run_t \<Rightarrow> bool" where
  "overlaps_range s e r \<longleftrightarrow> \<not> key_less (r_end r) s \<and> \<not> key_less e (r_key r)"

lemma range_find_from_filter:
  assumes "runs_ordered rs"
  shows "range_find_from s e rs = filter (overlaps_range s e) rs"
  using assms
proof (induction rs)
  case (Cons r rs)
  have rs: "runs_ordered rs" "\<forall>r' \<in> set rs. key_less (r_end r) (r_key r')" "\<not> key_less (r_end r) (r_key r)"
    using Cons.prems by (auto simp: runs_ordered_def)
  have stop: "filter (overlaps_range s e) rs = []" if "key_less e (r_key r)"
  proof -
    have "key_less e (r_key r')" if "r' \<in> set rs" for r'
      using key_le_less_trans [OF rs(3) bspec [OF rs(2) that]] key_less_trans \<open>key_less e (r_key r)\<close> by blast
    then show ?thesis
      by (auto simp: filter_empty_conv overlaps_range_def)
  qed
  show ?case
    using Cons.IH [OF rs(1)] stop by (auto simp: overlaps_range_def [of s e r] KEYCMP_pos)
qed simp

lemma array_range_find_correct:
  assumes "runs_ordered (lv_arrs lev)"
  shows "array_range_find lev s e = filter (overlaps_range s e) (lv_arrs lev)"
proof -
  have drop: "runs_ordered (drop i (lv_arrs lev))" for i
    using assms set_drop_subset [of i "lv_arrs lev"] by (auto simp: runs_ordered_def sorted_wrt_drop)
  from array_binary_search_correct [OF assms, of s] show ?thesis
  proof (elim disjE exE conjE)
    fix i assume i: "i < n_num lev" "array_binary_search lev s = int i" "covers_key (lv_arrs lev ! i) s"
    have "key_less (r_end (lv_arrs lev ! j)) s" if "j < i" for j
      using key_less_le_trans [OF runs_orderedD(2) [OF assms _ that i(1)]] i that by (simp add: covers_key_def)
    then have "filter (overlaps_range s e) (take i (lv_arrs lev)) = []"
      using i(1) by (auto simp: filter_empty_conv overlaps_range_def in_set_conv_nth)
    then have "filter (overlaps_range s e) (lv_arrs lev) = filter (overlaps_range s e) (drop i (lv_arrs lev))"
      using filter_append [of "overlaps_range s e" "take i (lv_arrs lev)" "drop i (lv_arrs lev)"] by simp
    then show ?thesis
      using range_find_from_filter [OF drop] i(2) by (simp add: array_range_find_def from_index_def)
  qed (use range_find_from_filter [OF assms] in \<open>simp add: array_range_find_def from_index_def\<close>)
qed

lemma array_range_find_compaction_all:
  assumes "runs_ordered (lv_arrs lev)" "\<forall>r \<in> set (lv_arrs lev). \<not> key_less (r_end r) s"
  shows "array_range_find_compaction lev s e = lv_arrs lev"
  using array_bound_search_correct [OF assms(1), of s]
proof (elim disjE exE conjE)
  fix i assume i: "i < n_num lev" "array_bound_search lev s True = int i" "\<forall>j < i. key_less (r_end (lv_arrs lev ! j)) s"
  then have "i = 0"
    using assms(2) by (cases i) auto
  then show ?thesis
    using i by (simp add: array_range_find_compaction_def from_index_def)
qed (simp add: array_range_find_compaction_def from_index_def)

text \<open>Iterating over a whole level.\<close>

lemma array_get_iter_full: "array_get_iter lev (lv_start lev) (lv_end lev) = (0, int (n_num lev))"
  by (simp add: array_get_iter_def)

lemma array_iter_nxt_full:
  "i < n_num lev \<Longrightarrow> array_iter_nxt lev (int i, int (n_num lev)) = Some (Some (lv_arrs lev ! i), int i + 1, int (n_num lev))"
  "array_iter_nxt lev (int (n_num lev), int (n_num lev)) = Some (None, int (n_num lev), int (n_num lev))"
  by (simp_all add: array_iter_nxt_def)

text \<open>Insertion behind the last run.\<close>

lemma array_insert_arrs:
  assumes "array_insert lev r = Some (lev', r')"
  shows "lv_arrs lev' = lv_arrs lev @ [fst (array_run_cpy_to r)]" "n_num lev < lv_m_num lev" "lv_m_num lev' = lv_m_num lev"
    "lv_idx lev' = lv_idx lev" "lv_isCXL lev' = lv_isCXL lev"
  using assms by (auto simp: array_insert_def array_run_cpy_to_def array_range_update_def Let_def split: if_splits)

end
