(* ===== verification/LsmMerge.thy ===== *)
theory LsmMerge
  imports LsmRuns LsmBm
begin

text \<open>
  Merging the metadata pages of two levels, \<^verbatim>\<open>array/pipe.c\<close> and \<^verbatim>\<open>array/pipe_merger.c\<close>: two streams of
  keys are read from the pages of the upper and of the lower level and written to a stream of new
  pages, which is then cut into runs.  The main result is that the new pages list the union of the
  two levels in key order, and that the upper level wins where both have a key.
\<close>

section \<open>Streams of pages\<close>

text \<open>
  \<^verbatim>\<open>p_body\<close>; a null pointer in \<^verbatim>\<open>data_ptr\<close> and in \<^verbatim>\<open>now_page\<close> is \<open>None\<close>.  \<^verbatim>\<open>pb_runs\<close> are the runs a
  stream reads when \<^verbatim>\<open>read_from_run\<close> is set.
\<close>

record p_body =
  pb_max_page :: nat
  pb_pidx :: nat
  pb_data :: "page option list"
  pb_runs :: "run_t list"
  pb_now :: "page option"
  pb_length :: nat
  pb_max_key :: nat
  pb_kidx :: nat
  pb_read_from_run :: bool

definition pbody_init :: "page option list \<Rightarrow> nat \<Rightarrow> run_t list \<Rightarrow> bool \<Rightarrow> p_body" where
  "pbody_init datas sz runs from_run = \<lparr>pb_max_page = sz, pb_pidx = 0, pb_data = datas, pb_runs = runs, pb_now = None,
     pb_length = 0, pb_max_key = 0, pb_kidx = 0, pb_read_from_run = from_run\<rparr>"

text \<open>\<^verbatim>\<open>data_from_run\<close>.\<close>

definition data_from_run :: "run_t \<Rightarrow> page option" where
  "data_from_run r = (case r_data r of Some p \<Rightarrow> Some p | None \<Rightarrow> r_cpt r)"

text \<open>
  \<^verbatim>\<open>new_page_set\<close>: \<open>garbage\<close> is the content of the page that is allocated when the stream is written
  and has none at the index; an index behind the arrays and a missing page are undefined.
\<close>

definition new_page_set :: "(nat \<Rightarrow> page) \<Rightarrow> p_body \<Rightarrow> bool \<Rightarrow> p_body option" where
  "new_page_set garbage p iswrite = do {
     now \<leftarrow> (if pb_read_from_run p
             then (if pb_pidx p < length (pb_runs p) then Some (data_from_run (pb_runs p ! pb_pidx p)) else None)
             else if pb_pidx p < length (pb_data p) then Some (pb_data p ! pb_pidx p) else None);
     page \<leftarrow> (if iswrite \<and> now = None then Some (garbage (pb_pidx p)) else now);
     n \<leftarrow> get16 page 0;
     Some (p\<lparr>pb_now := Some page, pb_kidx := 1, pb_max_key := n, pb_length := KEYBITMAP, pb_pidx := pb_pidx p + 1\<rparr>)
   }"

text \<open>
  \<^verbatim>\<open>pbody_get_next_key\<close>: the key, and the page number, which stays what it was at the end of the stream.
  The end is marked by a key of \<^verbatim>\<open>UINT8_MAX\<close> bytes with no bytes behind it, here \<open>None\<close>.
\<close>

definition pbody_get_next_key :: "p_body \<Rightarrow> ppa_t \<Rightarrow> (str_key option \<times> ppa_t \<times> p_body) option" where
  "pbody_get_next_key p ppa = do {
     p1 \<leftarrow> (if pb_now p = None \<or> (pb_pidx p < pb_max_page p \<and> pb_kidx p > pb_max_key p)
            then new_page_set (\<lambda>_. []) p False else Some p);
     if pb_pidx p1 \<ge> pb_max_page p1 \<and> pb_kidx p1 > pb_max_key p1 then Some (None, ppa, p1)
     else do {
       page \<leftarrow> pb_now p1;
       a \<leftarrow> header_ppa page (pb_kidx p1);
       k \<leftarrow> header_key page (pb_kidx p1);
       Some (Some k, a, p1\<lparr>pb_kidx := pb_kidx p1 + 1\<rparr>)
     }
   }"

text \<open>The callers look for the end by the length alone.\<close>

definition UINT8_MAX :: nat where "UINT8_MAX = 255"

definition at_end :: "str_key option \<Rightarrow> bool" where
  "at_end k = (case k of None \<Rightarrow> True | Some k \<Rightarrow> length k = UINT8_MAX)"

text \<open>\<^verbatim>\<open>pbody_insert_new_key\<close>: closes the page when the entry does not fit or the stream is flushed.\<close>

definition close_page :: "p_body \<Rightarrow> p_body option" where
  "close_page p =
     (case pb_now p of
        None \<Rightarrow> Some p
      | Some page \<Rightarrow> do {
          p1 \<leftarrow> put16 0 (pb_kidx p - 1) page;
          p2 \<leftarrow> put16 (pb_kidx p) (pb_length p) p1;
          if pb_pidx p - 1 < length (pb_data p)
          then Some (p\<lparr>pb_now := Some p2, pb_data := (pb_data p)[pb_pidx p - 1 := Some p2]\<rparr>)
          else None
        })"

definition append_key :: "p_body \<Rightarrow> str_key \<Rightarrow> ppa_t \<Rightarrow> p_body option" where
  "append_key p key ppa = do {
     page \<leftarrow> pb_now p;
     page1 \<leftarrow> put_entry (pb_length p) (key, ppa) page;
     page2 \<leftarrow> put16 (pb_kidx p) (pb_length p) page1;
     Some (p\<lparr>pb_now := Some page2, pb_kidx := pb_kidx p + 1, pb_length := pb_length p + 4 + length key\<rparr>)
   }"

definition pbody_insert_new_key :: "(nat \<Rightarrow> page) \<Rightarrow> p_body \<Rightarrow> str_key \<Rightarrow> ppa_t \<Rightarrow> bool \<Rightarrow> p_body option" where
  "pbody_insert_new_key garbage p key ppa flush =
     (if (flush \<and> pb_kidx p > 1) \<or> pb_now p = None \<or> pb_kidx p \<ge> KEYBITMAP div 2 - 2 \<or>
         pb_length p + (length key + 4) > PAGESIZE
      then do {
        p1 \<leftarrow> close_page p;
        if flush then Some p1
        else do { p2 \<leftarrow> new_page_set garbage p1 True; append_key p2 key ppa }
      }
      else append_key p key ppa)"

text \<open>\<^verbatim>\<open>pbody_get_data\<close>.\<close>

definition pbody_get_data :: "p_body \<Rightarrow> bool \<Rightarrow> (page option \<times> p_body) option" where
  "pbody_get_data p init =
     (let p1 = (if init then p\<lparr>pb_max_page := pb_pidx p, pb_pidx := 0\<rparr> else p) in
      if pb_pidx p1 < pb_max_page p1
      then (if pb_pidx p1 < length (pb_data p1) then Some (pb_data p1 ! pb_pidx p1, p1\<lparr>pb_pidx := pb_pidx p1 + 1\<rparr>) else None)
      else Some (None, p1))"

section \<open>The merger\<close>

text \<open>
  Which stream is popped next: the lower one if negative, the upper one if positive, both if zero.
  Both mergers abort on an invalid key while both streams have one.
\<close>

definition next_pop :: "str_key option \<Rightarrow> str_key option \<Rightarrow> int option" where
  "next_pop lk hk =
     (if at_end lk then Some 1
      else if at_end hk then Some (- 1)
      else (case (lk, hk) of
          (Some l, Some h) \<Rightarrow> if KEYVALCHECK l \<and> KEYVALCHECK h then Some (KEYCMP l h) else None
        | _ \<Rightarrow> None))"

text \<open>The variables of the loop: the streams, their next keys and page numbers.\<close>

record merge_t =
  mg_lp :: p_body
  mg_hp :: p_body
  mg_rp :: p_body
  mg_lkey :: "str_key option"
  mg_hkey :: "str_key option"
  mg_lppa :: ppa_t
  mg_hppa :: ppa_t

definition pop_lower :: "merge_t \<Rightarrow> merge_t option" where
  "pop_lower m = do {
     (k, a, p) \<leftarrow> pbody_get_next_key (mg_lp m) (mg_lppa m);
     Some (m\<lparr>mg_lp := p, mg_lkey := k, mg_lppa := a\<rparr>)
   }"

definition pop_upper :: "merge_t \<Rightarrow> merge_t option" where
  "pop_upper m = do {
     (k, a, p) \<leftarrow> pbody_get_next_key (mg_hp m) (mg_hppa m);
     Some (m\<lparr>mg_hp := p, mg_hkey := k, mg_hppa := a\<rparr>)
   }"

text \<open>
  One round of the loop; \<open>invalidates\<close> tells the merger that marks the lower page of a key that both streams have
  from the one where the call is commented out.
\<close>

definition merge_round :: "bool \<Rightarrow> (nat \<Rightarrow> page) \<Rightarrow> merge_t \<times> lsm_bm \<Rightarrow> (merge_t \<times> lsm_bm) option" where
  "merge_round invalidates garbage = (\<lambda>(m, b). do {
     pop \<leftarrow> next_pop (mg_lkey m) (mg_hkey m);
     key \<leftarrow> (if pop < 0 then mg_lkey m else mg_hkey m);
     b1 \<leftarrow> (if pop = 0 \<and> invalidates then invalidate_PPA DATA (mg_lppa m) b else Some b);
     rp \<leftarrow> pbody_insert_new_key garbage (mg_rp m) key (if pop < 0 then mg_lppa m else mg_hppa m) False;
     let m1 = m\<lparr>mg_rp := rp\<rparr>;
     m2 \<leftarrow> (if pop \<le> 0 then pop_lower m1 else Some m1);
     m3 \<leftarrow> (if pop \<ge> 0 then pop_upper m2 else Some m2);
     Some (m3, b1)
   })"

partial_function (option) merge_loop :: "bool \<Rightarrow> (nat \<Rightarrow> page) \<Rightarrow> merge_t \<times> lsm_bm \<Rightarrow> (merge_t \<times> lsm_bm) option" where
  "merge_loop invalidates garbage mb =
     (if at_end (mg_lkey (fst mb)) \<and> at_end (mg_hkey (fst mb)) then Some mb
      else Option.bind (merge_round invalidates garbage mb) (merge_loop invalidates garbage))"

text \<open>The flush at the end passes whatever key is left in the variable; it is not used.\<close>

definition merge_streams :: "bool \<Rightarrow> (nat \<Rightarrow> page) \<Rightarrow> p_body \<Rightarrow> p_body \<Rightarrow> p_body \<Rightarrow> lsm_bm \<Rightarrow> (p_body \<times> lsm_bm) option" where
  "merge_streams invalidates garbage lp hp rp b = do {
     (lk, la, lp1) \<leftarrow> pbody_get_next_key lp 0;
     (hk, ha, hp1) \<leftarrow> pbody_get_next_key hp 0;
     (m, b1) \<leftarrow> merge_loop invalidates garbage
       (\<lparr>mg_lp = lp1, mg_hp = hp1, mg_rp = rp, mg_lkey = lk, mg_hkey = hk, mg_lppa = la, mg_hppa = ha\<rparr>, b);
     rp1 \<leftarrow> pbody_insert_new_key garbage (mg_rp m) [] 0 True;
     Some (rp1, b1)
   }"

definition result_padding :: nat where "result_padding = 500"

text \<open>
  \<^verbatim>\<open>array_pipe_merger\<close>: \<open>mem\<close> is the list of a skip list; without it the runs \<open>s\<close> are the upper level.
  Every page is checked.
\<close>

definition checked_page :: "page option \<Rightarrow> page option" where
  "checked_page d = do { page \<leftarrow> d; ok \<leftarrow> keyset_check page; if ok then Some page else None }"

definition array_pipe_merger ::
  "(nat \<Rightarrow> page) \<Rightarrow> page \<Rightarrow> (str_key \<times> ppa_t) list option \<Rightarrow> run_t list \<Rightarrow> run_t list \<Rightarrow> lsm_bm \<Rightarrow> (p_body \<times> lsm_bm) option" where
  "array_pipe_merger garbage garbage0 mem s org b = do {
     u_data \<leftarrow> (case mem of
         Some es \<Rightarrow> do { page \<leftarrow> checked_page (array_skip_cvt2_data garbage0 es); Some [page] }
       | None \<Rightarrow> those (map (\<lambda>r. checked_page (data_from_run r)) s));
     o_data \<leftarrow> those (map (\<lambda>r. checked_page (data_from_run r)) org);
     let n = length o_data + length u_data + result_padding;
     merge_streams True garbage
       (pbody_init (map Some o_data) (length o_data) [] False)
       (pbody_init (map Some u_data) (length u_data) [] False)
       (pbody_init (replicate n None) n [] False) b
   }"

text \<open>\<^verbatim>\<open>array_pipe_make_run\<close>: \<open>level_idx\<close> is unsigned, so that the index \<^verbatim>\<open>-1\<close> is above the cached levels.\<close>

definition array_pipe_make_run :: "page \<Rightarrow> nat \<Rightarrow> run_t option" where
  "array_pipe_make_run p level_idx = do {
     n \<leftarrow> get16 p 0;
     start \<leftarrow> header_key p 1;
     end \<leftarrow> header_key p n;
     let r = array_make_run start end UINT32_MAX;
     Some (if level_idx < LEVELCACHING then r\<lparr>r_iscached := 1, r_data := Some p\<rparr>
           else r\<lparr>r_iscached := 0, r_data := Some p, r_cpt := Some p\<rparr>)
   }"

text \<open>\<^verbatim>\<open>array_pipe_cutter\<close> with its flag \<^verbatim>\<open>cutter_start\<close>; no run when the pages are used up.\<close>

definition array_pipe_cutter :: "bool \<Rightarrow> p_body \<Rightarrow> nat \<Rightarrow> (run_t option \<times> p_body) option" where
  "array_pipe_cutter cutter_start rp level_idx = do {
     (data, rp1) \<leftarrow> pbody_get_data rp cutter_start;
     (case data of
        None \<Rightarrow> Some (None, rp1)
      | Some page \<Rightarrow> do { r \<leftarrow> array_pipe_make_run page level_idx; Some (Some r, rp1) })
   }"

text \<open>Cutting until there is no run left; \<open>fuel\<close> bounds the number of runs.\<close>

fun cut_all :: "nat \<Rightarrow> bool \<Rightarrow> p_body \<Rightarrow> nat \<Rightarrow> run_t list option" where
  "cut_all 0 cutter_start rp idx = None"
| "cut_all (Suc fuel) cutter_start rp idx = do {
     (r, rp1) \<leftarrow> array_pipe_cutter cutter_start rp idx;
     (case r of
        None \<Rightarrow> Some []
      | Some r \<Rightarrow> do { rs \<leftarrow> cut_all fuel False rp1 idx; Some (r # rs) })
   }"

text \<open>
  \<^verbatim>\<open>array_pipe_p_merger_cutter\<close>: the streams read from runs, and every new run is handed to
  \<open>lev_insert_write\<close>, a step on a state.
\<close>

fun insert_runs :: "(level \<Rightarrow> run_t \<Rightarrow> 's \<Rightarrow> (level \<times> 's) option) \<Rightarrow> level \<Rightarrow> run_t list \<Rightarrow> 's \<Rightarrow> (level \<times> 's) option" where
  "insert_runs f d [] st = Some (d, st)"
| "insert_runs f d (r # rs) st = Option.bind (f d r st) (\<lambda>(d', st'). insert_runs f d' rs st')"

definition array_pipe_p_merger_cutter ::
  "(nat \<Rightarrow> page) \<Rightarrow> page \<Rightarrow> (str_key \<times> ppa_t) list option \<Rightarrow> run_t list \<Rightarrow> run_t list \<Rightarrow> level \<Rightarrow>
    (level \<Rightarrow> run_t \<Rightarrow> 's \<Rightarrow> (level \<times> 's) option) \<Rightarrow> lsm_bm \<Rightarrow> 's \<Rightarrow> (level \<times> 's) option" where
  "array_pipe_p_merger_cutter garbage garbage0 skip u_data l_data d lev_insert_write b st = do {
     us \<leftarrow> (case skip of
         Some es \<Rightarrow> do {
           page \<leftarrow> array_skip_cvt2_data garbage0 es;
           r \<leftarrow> array_pipe_make_run page UINT32_MAX;
           Some [r] }
       | None \<Rightarrow> Some u_data);
     let n = length us + length l_data + result_padding;
     (rp, b1) \<leftarrow> merge_streams False garbage
       (pbody_init [] (length l_data) l_data True)
       (pbody_init [] (length us) us True)
       (pbody_init (replicate n None) n [] False) b;
     runs \<leftarrow> cut_all (n + 1) True rp (lv_idx d);
     insert_runs lev_insert_write d runs st
   }"

section \<open>Reading a stream\<close>

type_synonym entries = "(str_key \<times> ppa_t) list"

definition stream_pages :: "p_body \<Rightarrow> page option list" where
  "stream_pages p = (if pb_read_from_run p then map data_from_run (pb_runs p) else pb_data p)"

text \<open>The pages list the entries, page by page; no page is empty.\<close>

definition page_lists :: "page option \<Rightarrow> entries \<Rightarrow> bool" where
  "page_lists d es \<longleftrightarrow> es \<noteq> [] \<and> (\<exists>p. d = Some p \<and> header_page p es)"

text \<open>The entries that are still to be read.\<close>

definition reader :: "p_body \<Rightarrow> entries \<Rightarrow> bool" where
  "reader p es \<longleftrightarrow> length (stream_pages p) = pb_max_page p \<and> pb_pidx p \<le> pb_max_page p \<and>
     (\<exists>cs. list_all2 page_lists (drop (pb_pidx p) (stream_pages p)) cs \<and>
        (case pb_now p of
           None \<Rightarrow> cs \<noteq> [] \<and> es = concat cs
         | Some pg \<Rightarrow> (\<exists>c. header_page pg c \<and> pb_max_key p = length c \<and> 1 \<le> pb_kidx p \<and> pb_kidx p \<le> length c + 1 \<and>
             es = drop (pb_kidx p - 1) c @ concat cs)))"

lemma reader_init:
  assumes "list_all2 page_lists (if from_run then map data_from_run runs else datas) cs" "cs \<noteq> []"
  shows "reader (pbody_init datas (length cs) runs from_run) (concat cs)"
  using assms list_all2_lengthD [OF assms(1)] by (auto simp: reader_def pbody_init_def stream_pages_def)

lemma new_page_set_read:
  assumes "list_all2 page_lists (drop (pb_pidx p) (stream_pages p)) (c # cs)"
  obtains pg where "new_page_set garbage p False = Some (p\<lparr>pb_now := Some pg, pb_kidx := 1, pb_max_key := length c,
      pb_length := KEYBITMAP, pb_pidx := pb_pidx p + 1\<rparr>)" "header_page pg c" "c \<noteq> []"
    "list_all2 page_lists (drop (pb_pidx p + 1) (stream_pages p)) cs" "pb_pidx p < length (stream_pages p)"
proof -
  have lt: "pb_pidx p < length (stream_pages p)"
    using list_all2_lengthD [OF assms] by simp
  have split: "drop (pb_pidx p) (stream_pages p) = stream_pages p ! pb_pidx p # drop (pb_pidx p + 1) (stream_pages p)"
    using Cons_nth_drop_Suc [OF lt] by simp
  then obtain pg where pg: "stream_pages p ! pb_pidx p = Some pg" "header_page pg c" "c \<noteq> []"
    "list_all2 page_lists (drop (pb_pidx p + 1) (stream_pages p)) cs"
    using assms by (auto simp: page_lists_def)
  have "get16 pg 0 = Some (length c)"
    using pg(2) by (simp add: header_page_def)
  then have "new_page_set garbage p False = Some (p\<lparr>pb_now := Some pg, pb_kidx := 1, pb_max_key := length c,
      pb_length := KEYBITMAP, pb_pidx := pb_pidx p + 1\<rparr>)"
    using lt pg(1) by (simp add: new_page_set_def stream_pages_def split: if_splits)
  then show thesis
    using pg lt by (intro that)
qed

text \<open>An entry of the current page is read.\<close>

lemma read_entry:
  assumes "header_page pg c" "pb_now p = Some pg" "pb_max_key p = length c" "pb_kidx p = i + 1" "i < length c"
  shows "pbody_get_next_key p ppa = Some (Some (fst (c ! i)), snd (c ! i), p\<lparr>pb_kidx := i + 2\<rparr>)"
  using header_key_page [OF assms(1,5)] assms(2-5) by (simp add: pbody_get_next_key_def)

lemma reader_next:
  assumes "reader p (e # es)"
  obtains p' where "pbody_get_next_key p ppa = Some (Some (fst e), snd e, p')" "reader p' es"
proof -
  note result = that
  have len: "length (stream_pages p) = pb_max_page p" "pb_pidx p \<le> pb_max_page p"
    using assms by (simp_all add: reader_def)
  have load: thesis if needs: "pb_now p = None \<or> (pb_pidx p < pb_max_page p \<and> pb_kidx p > pb_max_key p)"
    and cs: "list_all2 page_lists (drop (pb_pidx p) (stream_pages p)) cs" "e # es = concat cs" for cs
  proof -
    obtain c cs' where cs': "cs = c # cs'"
      using cs(2) by (cases cs) auto
    obtain pg where pg: "new_page_set (\<lambda>_. []) p False = Some (p\<lparr>pb_now := Some pg, pb_kidx := 1, pb_max_key := length c,
        pb_length := KEYBITMAP, pb_pidx := pb_pidx p + 1\<rparr>)" "header_page pg c" "c \<noteq> []"
      "list_all2 page_lists (drop (pb_pidx p + 1) (stream_pages p)) cs'" "pb_pidx p < length (stream_pages p)"
      using new_page_set_read cs(1) unfolding cs' by blast
    let ?p = "p\<lparr>pb_now := Some pg, pb_kidx := 1, pb_max_key := length c, pb_length := KEYBITMAP, pb_pidx := pb_pidx p + 1\<rparr>"
    have "pbody_get_next_key p ppa = pbody_get_next_key ?p ppa"
      using needs pg(1,3) by (simp add: pbody_get_next_key_def)
    also have "\<dots> = Some (Some (fst (c ! 0)), snd (c ! 0), ?p\<lparr>pb_kidx := 0 + 2\<rparr>)"
      using pg(2,3) by (intro read_entry [of pg c]) simp_all
    finally have "pbody_get_next_key p ppa = Some (Some (fst (c ! 0)), snd (c ! 0), ?p\<lparr>pb_kidx := 2\<rparr>)"
      by simp
    moreover have "e = c ! 0" "es = drop 1 c @ concat cs'"
      using cs(2) cs' pg(3) by (cases c; simp)+
    moreover have "reader (?p\<lparr>pb_kidx := 2\<rparr>) (drop 1 c @ concat cs')"
      using pg len by (auto simp: reader_def stream_pages_def Suc_le_eq)
    ultimately show thesis
      by (intro result) simp_all
  qed
  obtain cs where cs: "list_all2 page_lists (drop (pb_pidx p) (stream_pages p)) cs"
    "case pb_now p of None \<Rightarrow> cs \<noteq> [] \<and> e # es = concat cs
     | Some pg \<Rightarrow> (\<exists>c. header_page pg c \<and> pb_max_key p = length c \<and> 1 \<le> pb_kidx p \<and> pb_kidx p \<le> length c + 1 \<and>
         e # es = drop (pb_kidx p - 1) c @ concat cs)"
    using assms by (auto simp: reader_def)
  show thesis
  proof (cases "pb_now p")
    case None
    then show thesis
      using load cs by simp
  next
    case (Some pg)
    then obtain c where c: "header_page pg c" "pb_max_key p = length c" "1 \<le> pb_kidx p" "pb_kidx p \<le> length c + 1"
      "e # es = drop (pb_kidx p - 1) c @ concat cs"
      using cs(2) by auto
    show thesis
    proof (cases "pb_kidx p \<le> length c")
      case True
      then have i: "pb_kidx p = (pb_kidx p - 1) + 1" "pb_kidx p - 1 < length c"
        using c(3) by auto
      note hd = Cons_nth_drop_Suc [OF i(2), symmetric]
      have "e = c ! (pb_kidx p - 1)" "es = drop (pb_kidx p) c @ concat cs"
        using c(3,5) unfolding hd by simp_all
      moreover have "pbody_get_next_key p ppa = Some (Some (fst (c ! (pb_kidx p - 1))), snd (c ! (pb_kidx p - 1)),
          p\<lparr>pb_kidx := pb_kidx p - 1 + 2\<rparr>)"
        using read_entry [OF c(1) Some c(2) i] .
      moreover have "reader (p\<lparr>pb_kidx := pb_kidx p - 1 + 2\<rparr>) (drop (pb_kidx p) c @ concat cs)"
        using len cs(1) c(1-4) True Some by (auto simp: reader_def stream_pages_def intro!: exI [of _ cs] exI [of _ c])
      ultimately show thesis
        by (intro result) simp_all
    next
      case False
      then have e: "e # es = concat cs" "pb_kidx p > pb_max_key p"
        using c(2,4,5) by auto
      then have "pb_pidx p < pb_max_page p"
        using list_all2_lengthD [OF cs(1)] len by (cases cs) auto
      then show thesis
        using load [OF _ cs(1)] e by blast
    qed
  qed
qed

lemma concat_page_lists_Nil: "list_all2 page_lists ds cs \<Longrightarrow> concat cs = [] \<Longrightarrow> cs = []"
  by (cases ds; cases cs) (auto simp: page_lists_def)

lemma reader_end:
  assumes "reader p []"
  shows "pbody_get_next_key p ppa = Some (None, ppa, p)"
proof -
  obtain cs where cs: "list_all2 page_lists (drop (pb_pidx p) (stream_pages p)) cs" "concat cs = []"
    "case pb_now p of None \<Rightarrow> cs \<noteq> [] | Some pg \<Rightarrow> pb_kidx p > pb_max_key p"
    "pb_pidx p \<le> pb_max_page p" "length (stream_pages p) = pb_max_page p"
    using assms unfolding reader_def by (cases "pb_now p") auto
  have "cs = []"
    using concat_page_lists_Nil [OF cs(1,2)] .
  then have "pb_pidx p = pb_max_page p" "\<exists>pg. pb_now p = Some pg" "pb_kidx p > pb_max_key p"
    using cs list_all2_lengthD [OF cs(1)] by (auto split: option.splits)
  then show ?thesis
    by (auto simp: pbody_get_next_key_def)
qed

section \<open>Writing a stream\<close>

text \<open>What the writer does to the list of closed pages and to the open one.\<close>

definition open_full :: "entries \<Rightarrow> str_key \<times> ppa_t \<Rightarrow> bool" where
  "open_full cur e \<longleftrightarrow> cur = [] \<or> 509 \<le> length cur \<or> PAGESIZE < hoff cur (length cur) + entry_size e"

fun place :: "entries list \<times> entries \<Rightarrow> str_key \<times> ppa_t \<Rightarrow> entries list \<times> entries" where
  "place (closed, cur) e =
     (if cur = [] then (closed, [e])
      else if open_full cur e then (closed @ [cur], [e])
      else (closed, cur @ [e]))"

text \<open>The stream has closed the pages of \<open>closed\<close> and its open page lists \<open>cur\<close>.\<close>

definition open_fits :: "entries \<Rightarrow> bool" where
  "open_fits cur \<longleftrightarrow> entries_fit cur \<and> length cur \<le> 509"

definition writer :: "nat \<Rightarrow> p_body \<Rightarrow> entries list \<times> entries \<Rightarrow> bool" where
  "writer n p s \<longleftrightarrow> \<not> pb_read_from_run p \<and>
     (\<exists>ps. list_all2 page_lists ps (fst s) \<and> length ps \<le> n \<and> pb_data p = ps @ replicate (n - length ps) None \<and>
       (case pb_now p of
          None \<Rightarrow> s = ([], []) \<and> pb_pidx p = 0
        | Some pg \<Rightarrow> snd s \<noteq> [] \<and> open_fits (snd s) \<and> entries_in pg (snd s) (length (snd s)) \<and> pb_kidx p = length (snd s) + 1 \<and>
            pb_length p = hoff (snd s) (length (snd s)) \<and> pb_pidx p = length ps + 1 \<and> length ps < n))"

lemma writer_init: "writer n (pbody_init (replicate n None) n [] False) ([], [])"
  by (simp add: writer_def pbody_init_def)

definition good_entry :: "str_key \<times> ppa_t \<Rightarrow> bool" where
  "good_entry e \<longleftrightarrow> KEYVALCHECK (fst e) \<and> length (fst e) < UINT8_MAX \<and> snd e < NOP"

lemma good_entry_size: "good_entry e \<Longrightarrow> 5 \<le> entry_size e \<and> entry_size e \<le> 258 \<and> length (fst e) < 256 \<and> snd e < 2 ^ 32"
  by (auto simp: good_entry_def KEYVALCHECK_def UINT8_MAX_def NOP_val Suc_le_eq)

lemma hoff_snoc: "hoff (cur @ [e]) (Suc (length cur)) = hoff cur (length cur) + entry_size e"
  by (simp add: hoff_def)

lemma open_fits_snoc: "open_fits cur \<Longrightarrow> \<not> open_full cur e \<Longrightarrow> good_entry e \<Longrightarrow> open_fits (cur @ [e])"
  using good_entry_size [of e] by (auto simp: open_fits_def entries_fit_def open_full_def hoff_snoc)

lemma open_fits_single: "good_entry e \<Longrightarrow> open_fits [e]"
  using good_entry_size [of e] by (auto simp: open_fits_def entries_fit_def hoff_def KEYBITMAP_def PAGESIZE_def)

lemma entries_in_append: "n \<le> length cur \<Longrightarrow> entries_in pg (cur @ es) n = entries_in pg cur n"
  by (auto simp: entries_in_def nth_append)

text \<open>One entry is appended to the open page.\<close>

lemma append_entry:
  assumes "entries_in pg cur (length cur)" "open_fits (cur @ [e])"
  obtains p1 p2 where "put_entry (hoff cur (length cur)) e pg = Some p1" "put16 (length cur + 1) (hoff cur (length cur)) p1 = Some p2"
    "entries_in p2 (cur @ [e]) (length cur + 1)"
proof -
  have "entries_in pg (cur @ [e]) (length cur)" "length cur < length (cur @ [e])" "hoff (cur @ [e]) (Suc (length cur)) \<le> PAGESIZE"
    "length cur < 510"
    using assms by (simp_all add: entries_in_append open_fits_def entries_fit_def)
  from put_entry_step [OF this] show thesis
    using that by auto
qed

lemma append_key_writer:
  assumes "pb_now p = Some pg" "entries_in pg cur (length cur)" "open_fits (cur @ [e])" "pb_kidx p = length cur + 1"
    "pb_length p = hoff cur (length cur)" "\<not> pb_read_from_run p" "pb_data p = ps @ replicate (n - length ps) None"
    "length ps < n" "pb_pidx p = length ps + 1" "list_all2 page_lists ps closed"
  shows "returns (append_key p (fst e) (snd e)) (\<lambda>q. writer n q (closed, cur @ [e]))"
proof -
  obtain p1 p2 where p: "put_entry (hoff cur (length cur)) e pg = Some p1" "put16 (length cur + 1) (hoff cur (length cur)) p1 = Some p2"
    "entries_in p2 (cur @ [e]) (length cur + 1)"
    using append_entry [OF assms(2,3)] by blast
  have "append_key p (fst e) (snd e) =
      Some (p\<lparr>pb_now := Some p2, pb_kidx := pb_kidx p + 1, pb_length := pb_length p + 4 + length (fst e)\<rparr>)"
    using assms(1,4,5) p(1,2) by (simp add: append_key_def)
  moreover have "writer n (p\<lparr>pb_now := Some p2, pb_kidx := pb_kidx p + 1, pb_length := pb_length p + 4 + length (fst e)\<rparr>) (closed, cur @ [e])"
    using assms p(3) by (auto simp: writer_def hoff_snoc intro!: exI [of _ ps])
  ultimately show ?thesis
    by simp
qed

text \<open>Closing the open page.\<close>

lemma close_page_writer:
  assumes "writer n p (closed, cur)" "pb_now p = Some pg"
  obtains q ps where "close_page p = Some (p\<lparr>pb_now := Some q, pb_data := ps @ replicate (n - length ps) None\<rparr>)"
    "list_all2 page_lists ps (closed @ [cur])" "length ps \<le> n" "pb_pidx p = length ps" "header_page q cur"
proof -
  obtain ps where ps: "list_all2 page_lists ps closed" "pb_data p = ps @ replicate (n - length ps) None" "length ps < n"
    "cur \<noteq> []" "open_fits cur" "entries_in pg cur (length cur)" "pb_kidx p = length cur + 1" "pb_length p = hoff cur (length cur)"
    "pb_pidx p = length ps + 1"
    using assms by (auto simp: writer_def)
  obtain p1 q where q: "put16 0 (length cur) pg = Some p1" "put16 (length cur + 1) (hoff cur (length cur)) p1 = Some q" "header_page q cur"
    using finish_page [OF ps(6)] ps(5) unfolding open_fits_def by blast
  have "pb_data p = ps @ None # replicate (n - length (ps @ [Some q])) None"
    using ps(2,3) by (cases "n - length ps") (auto simp: Suc_diff_Suc)
  then have "(pb_data p)[length ps := Some q] = (ps @ [Some q]) @ replicate (n - length (ps @ [Some q])) None"
    by (simp add: list_update_append)
  moreover have "close_page p = Some (p\<lparr>pb_now := Some q, pb_data := (pb_data p)[length ps := Some q]\<rparr>)"
    using assms(2) ps(2,3,7-9) q(1,2) by (simp add: close_page_def)
  ultimately have "close_page p = Some (p\<lparr>pb_now := Some q, pb_data := (ps @ [Some q]) @ replicate (n - length (ps @ [Some q])) None\<rparr>)"
    by (simp only:)
  moreover have "list_all2 page_lists (ps @ [Some q]) (closed @ [cur])"
    using ps(1,4) q(3) by (simp add: list_all2_appendI page_lists_def)
  ultimately show thesis
    using ps(3,9) q(3) by (intro that [of "ps @ [Some q]" q]) (simp_all del: append_assoc)
qed

abbreviation fresh_pages :: "(nat \<Rightarrow> page) \<Rightarrow> bool" where
  "fresh_pages garbage \<equiv> \<forall>i. length (garbage i) = PAGESIZE"

text \<open>A new page with its first entry.\<close>

lemma first_entry:
  assumes "\<not> pb_read_from_run p" "pb_data p = ps @ replicate (n - length ps) None" "length ps < n" "pb_pidx p = length ps"
    "list_all2 page_lists ps closed" "good_entry e" "fresh_pages garbage"
  shows "returns (Option.bind (new_page_set garbage p True) (\<lambda>p2. append_key p2 (fst e) (snd e))) (\<lambda>q. writer n q (closed, [e]))"
proof -
  let ?pg = "garbage (pb_pidx p)"
  obtain v where v: "get16 ?pg 0 = Some v"
    using assms(7) by (simp add: get16_def PAGESIZE_def)
  let ?p2 = "p\<lparr>pb_now := Some ?pg, pb_kidx := 1, pb_max_key := v, pb_length := KEYBITMAP, pb_pidx := length ps + 1\<rparr>"
  have set: "new_page_set garbage p True = Some ?p2"
    using assms(1-4) v by (simp add: new_page_set_def nth_append)
  have "returns (append_key ?p2 (fst e) (snd e)) (\<lambda>q. writer n q (closed, [] @ [e]))"
    using assms open_fits_single [OF assms(6)] entries_in_0 [OF spec [OF assms(7)]] by (intro append_key_writer [where pg = ?pg and ps = ps]) simp_all
  then show ?thesis
    using set by simp
qed

lemma pbody_insert_writer:
  assumes "writer n p s" "good_entry e" "fresh_pages garbage" "length (fst (place s e)) < n"
  shows "returns (pbody_insert_new_key garbage p (fst e) (snd e) False) (\<lambda>q. writer n q (place s e))"
proof -
  obtain closed cur where s: "s = (closed, cur)"
    by (cases s)
  show ?thesis
  proof (cases "pb_now p")
    case None
    then have w: "closed = []" "cur = []" "pb_pidx p = length []" "\<not> pb_read_from_run p" "pb_data p = [] @ replicate (n - length []) None"
      "length [] < n" "list_all2 page_lists [] closed"
      using assms(1,4) s by (auto simp: writer_def)
    show ?thesis
      using first_entry [OF w(4,5,6,3,7) assms(2,3)] None s w(2) by (simp add: pbody_insert_new_key_def close_page_def)
  next
    case (Some pg)
    then obtain ps where ps: "list_all2 page_lists ps closed" "pb_data p = ps @ replicate (n - length ps) None" "length ps < n"
      "cur \<noteq> []" "open_fits cur" "entries_in pg cur (length cur)" "pb_kidx p = length cur + 1" "pb_length p = hoff cur (length cur)"
      "pb_pidx p = length ps + 1" "\<not> pb_read_from_run p"
      using assms(1) s by (auto simp: writer_def)
    have full: "((False \<and> pb_kidx p > 1) \<or> pb_now p = None \<or> pb_kidx p \<ge> KEYBITMAP div 2 - 2 \<or>
       pb_length p + (length (fst e) + 4) > PAGESIZE) = open_full cur e"
      using ps(4,7,8) Some by (simp add: open_full_def KEYBITMAP_def)
    show ?thesis
    proof (cases "open_full cur e")
      case False
      have "returns (append_key p (fst e) (snd e)) (\<lambda>q. writer n q (closed, cur @ [e]))"
        using open_fits_snoc [OF ps(5) False assms(2)] by (rule append_key_writer [OF Some ps(6) _ ps(7,8,10,2,3,9,1)])
      then show ?thesis
        unfolding pbody_insert_new_key_def full s using False ps(4) by simp
    next
      case True
      obtain q ps' where q: "close_page p = Some (p\<lparr>pb_now := Some q, pb_data := ps' @ replicate (n - length ps') None\<rparr>)"
        "list_all2 page_lists ps' (closed @ [cur])" "length ps' \<le> n" "pb_pidx p = length ps'"
        using close_page_writer [OF assms(1) [unfolded s] Some] by blast
      have "length ps' = length closed + 1"
        using list_all2_lengthD [OF q(2)] by simp
      then have n: "length ps' < n"
        using assms(4) s True ps(4) by simp
      have "returns (Option.bind (new_page_set garbage (p\<lparr>pb_now := Some q, pb_data := ps' @ replicate (n - length ps') None\<rparr>) True)
          (\<lambda>p2. append_key p2 (fst e) (snd e))) (\<lambda>q. writer n q (closed @ [cur], [e]))"
        using ps(10) q n assms(2,3) by (intro first_entry [where ps = ps']) simp_all
      then show ?thesis
        unfolding pbody_insert_new_key_def full s using True ps(4) q(1) by simp
    qed
  qed
qed

text \<open>The flush closes the last page.\<close>

lemma pbody_flush_writer:
  assumes "writer n p (closed, cur)" "cur \<noteq> []"
  obtains q ps where "pbody_insert_new_key garbage p key ppa True = Some q" "pb_data q = ps @ replicate (n - length ps) None"
    "list_all2 page_lists ps (closed @ [cur])" "pb_pidx q = length ps" "length ps \<le> n"
proof -
  obtain pg where pg: "pb_now p = Some pg" "pb_kidx p > 1"
    using assms by (auto simp: writer_def split: option.splits)
  obtain q ps where "close_page p = Some (p\<lparr>pb_now := Some q, pb_data := ps @ replicate (n - length ps) None\<rparr>)"
    "list_all2 page_lists ps (closed @ [cur])" "length ps \<le> n" "pb_pidx p = length ps"
    using close_page_writer [OF assms(1) pg(1)] by blast
  then show thesis
    using pg by (intro that [of "p\<lparr>pb_now := Some q, pb_data := ps @ replicate (n - length ps) None\<rparr>" ps])
      (simp_all add: pbody_insert_new_key_def)
qed

section \<open>The merged list\<close>

text \<open>The union of a lower and an upper list; the upper entry wins, the lower one is shadowed.\<close>

fun merge_entries :: "entries \<Rightarrow> entries \<Rightarrow> entries" where
  "merge_entries [] us = us"
| "merge_entries (l # ls) [] = l # ls"
| "merge_entries (l # ls) (u # us) =
     (if key_less (fst l) (fst u) then l # merge_entries ls (u # us)
      else if key_less (fst u) (fst l) then u # merge_entries (l # ls) us
      else u # merge_entries ls us)"

fun shadowed :: "entries \<Rightarrow> entries \<Rightarrow> ppa_t list" where
  "shadowed [] us = []"
| "shadowed (l # ls) [] = []"
| "shadowed (l # ls) (u # us) =
     (if key_less (fst l) (fst u) then shadowed ls (u # us)
      else if key_less (fst u) (fst l) then shadowed (l # ls) us
      else snd l # shadowed ls us)"

lemma merge_entries_Nil2 [simp]: "merge_entries ls [] = ls"
  by (cases ls) simp_all

lemma merge_entries_empty [simp]: "merge_entries ls us = [] \<longleftrightarrow> ls = [] \<and> us = []"
  by (induction ls us rule: merge_entries.induct) auto

lemma shadowed_Nil2 [simp]: "shadowed ls [] = []"
  by (cases ls) simp_all

definition mark_invalid :: "ppa_t \<Rightarrow> lsm_bm \<Rightarrow> lsm_bm" where
  "mark_invalid a b = b\<lparr>lb_invalid := (lb_invalid b)(PPA2SBLK a := lb_invalid b (PPA2SBLK a) + ucast (po_length (lb_oob b a))),
     lb_oob := (lb_oob b)(a := (lb_oob b a)\<lparr>po_isvalid := True\<rparr>)\<rparr>"

lemma invalidate_PPA_mark:
  assumes "a < NOP"
  shows "invalidate_PPA DATA a b = Some (mark_invalid a b)"
proof -
  have "PPA2SBLK a \<le> NOS"
    using assms by (simp add: PPA2SBLK_def PIECE_PER_PAGE_def PAGESIZE_val NOP_val NOS_val PPS_val div_le_mono)
  then show ?thesis
    using assms by (simp add: invalidate_PPA_def mark_invalid_def PIECE_PER_PAGE_def PAGESIZE_val)
qed

lemma fold_mark_invalid: "po_isvalid (lb_oob (fold mark_invalid as b) a) \<longleftrightarrow> po_isvalid (lb_oob b a) \<or> a \<in> set as"
  by (induction as arbitrary: b) (auto simp: mark_invalid_def)

text \<open>The next entry of a stream is in the variables of the loop, the others are still to be read.\<close>

definition popped :: "p_body \<Rightarrow> str_key option \<Rightarrow> ppa_t \<Rightarrow> entries \<Rightarrow> bool" where
  "popped p k a es \<longleftrightarrow> (case es of [] \<Rightarrow> k = None \<and> reader p [] | e # es' \<Rightarrow> k = Some (fst e) \<and> a = snd e \<and> reader p es')"

lemma pop_popped: "reader p es \<Longrightarrow> returns (pbody_get_next_key p ppa) (\<lambda>(k, a, q). popped q k a es)"
proof (cases es)
  case (Cons e es')
  assume "reader p es"
  then obtain q where "pbody_get_next_key p ppa = Some (Some (fst e), snd e, q)" "reader q es'"
    using reader_next [of p e es'] Cons by blast
  then show ?thesis
    using Cons by (simp add: popped_def)
qed (simp add: reader_end popped_def)

definition merging :: "nat \<Rightarrow> merge_t \<Rightarrow> entries \<Rightarrow> entries \<Rightarrow> entries list \<times> entries \<Rightarrow> bool" where
  "merging n m ls us s \<longleftrightarrow> popped (mg_lp m) (mg_lkey m) (mg_lppa m) ls \<and> popped (mg_hp m) (mg_hkey m) (mg_hppa m) us \<and>
     writer n (mg_rp m) s"

lemma pop_lower_merging:
  assumes "reader (mg_lp m) ls" "popped (mg_hp m) (mg_hkey m) (mg_hppa m) us" "writer n (mg_rp m) s"
  shows "returns (pop_lower m) (\<lambda>m'. merging n m' ls us s)"
  using pop_popped [OF assms(1), of "mg_lppa m"] assms(2,3) unfolding pop_lower_def
  by (auto simp: merging_def elim!: returnsE)

lemma pop_upper_merging:
  assumes "reader (mg_hp m) us" "popped (mg_lp m) (mg_lkey m) (mg_lppa m) ls" "writer n (mg_rp m) s"
  shows "returns (pop_upper m) (\<lambda>m'. merging n m' ls us s)"
  using pop_popped [OF assms(1), of "mg_hppa m"] assms(2,3) unfolding pop_upper_def
  by (auto simp: merging_def elim!: returnsE)

lemma pop_both_merging:
  assumes "reader (mg_lp m) ls" "reader (mg_hp m) us" "writer n (mg_rp m) s"
  shows "returns (Option.bind (pop_lower m) pop_upper) (\<lambda>m'. merging n m' ls us s)"
proof -
  have "returns (pop_lower m) (\<lambda>m'. popped (mg_lp m') (mg_lkey m') (mg_lppa m') ls \<and> reader (mg_hp m') us \<and> writer n (mg_rp m') s)"
    using pop_popped [OF assms(1), of "mg_lppa m"] assms(2,3) unfolding pop_lower_def by (auto elim!: returnsE)
  then show ?thesis
    by (rule returns_bindI) (blast intro: pop_upper_merging)
qed

lemma at_end_popped: "popped p k a es \<Longrightarrow> \<forall>e \<in> set es. good_entry e \<Longrightarrow> at_end k \<longleftrightarrow> es = []"
  by (cases es) (auto simp: popped_def at_end_def good_entry_def)

text \<open>One round, by the outcome of the comparison.\<close>

lemma round_lower:
  assumes "fresh_pages garbage" "merging n m (l # ls) us s" "next_pop (mg_lkey m) (mg_hkey m) = Some pop" "pop < 0" "good_entry l" "length (fst (place s l)) < n"
  shows "returns (merge_round marks garbage (m, b)) (\<lambda>(m', b'). merging n m' ls us (place s l) \<and> b' = b)"
proof -
  have m: "mg_lkey m = Some (fst l)" "mg_lppa m = snd l" "reader (mg_lp m) ls" "popped (mg_hp m) (mg_hkey m) (mg_hppa m) us"
    "writer n (mg_rp m) s"
    using assms(2) by (auto simp: merging_def popped_def)
  obtain rp where rp: "pbody_insert_new_key garbage (mg_rp m) (fst l) (snd l) False = Some rp" "writer n rp (place s l)"
    using pbody_insert_writer [OF m(5) assms(5) assms(1,6)] by (auto elim: returnsE)
  have "returns (pop_lower (m\<lparr>mg_rp := rp\<rparr>)) (\<lambda>m'. merging n m' ls us (place s l))"
    using m rp(2) by (intro pop_lower_merging) simp_all
  then show ?thesis
    using assms(3,4) m(1,2) rp(1) by (auto simp: merge_round_def Let_def elim!: returnsE)
qed

lemma round_upper:
  assumes "fresh_pages garbage" "merging n m ls (u # us) s" "next_pop (mg_lkey m) (mg_hkey m) = Some pop" "0 < pop" "good_entry u" "length (fst (place s u)) < n"
  shows "returns (merge_round marks garbage (m, b)) (\<lambda>(m', b'). merging n m' ls us (place s u) \<and> b' = b)"
proof -
  have m: "mg_hkey m = Some (fst u)" "mg_hppa m = snd u" "reader (mg_hp m) us" "popped (mg_lp m) (mg_lkey m) (mg_lppa m) ls"
    "writer n (mg_rp m) s"
    using assms(2) by (auto simp: merging_def popped_def)
  obtain rp where rp: "pbody_insert_new_key garbage (mg_rp m) (fst u) (snd u) False = Some rp" "writer n rp (place s u)"
    using pbody_insert_writer [OF m(5) assms(5) assms(1,6)] by (auto elim: returnsE)
  have "returns (pop_upper (m\<lparr>mg_rp := rp\<rparr>)) (\<lambda>m'. merging n m' ls us (place s u))"
    using m rp(2) by (intro pop_upper_merging) simp_all
  then show ?thesis
    using assms(3,4) m(1,2) rp(1) by (auto simp: merge_round_def Let_def elim!: returnsE)
qed

lemma round_both:
  assumes "fresh_pages garbage" "merging n m (l # ls) (u # us) s" "next_pop (mg_lkey m) (mg_hkey m) = Some 0" "good_entry l" "good_entry u" "length (fst (place s u)) < n"
  shows "returns (merge_round marks garbage (m, b))
    (\<lambda>(m', b'). merging n m' ls us (place s u) \<and> b' = (if marks then mark_invalid (snd l) b else b))"
proof -
  have m: "mg_hkey m = Some (fst u)" "mg_hppa m = snd u" "mg_lkey m = Some (fst l)" "mg_lppa m = snd l"
    "reader (mg_hp m) us" "reader (mg_lp m) ls" "writer n (mg_rp m) s"
    using assms(2) by (auto simp: merging_def popped_def)
  obtain rp where rp: "pbody_insert_new_key garbage (mg_rp m) (fst u) (snd u) False = Some rp" "writer n rp (place s u)"
    using pbody_insert_writer [OF m(7) assms(5) assms(1,6)] by (auto elim: returnsE)
  have "returns (Option.bind (pop_lower (m\<lparr>mg_rp := rp\<rparr>)) pop_upper) (\<lambda>m'. merging n m' ls us (place s u))"
    using m rp(2) by (intro pop_both_merging) simp_all
  moreover have "invalidate_PPA DATA (snd l) b = Some (mark_invalid (snd l) b)"
    using assms(4) by (simp add: good_entry_def invalidate_PPA_mark)
  ultimately show ?thesis
    using assms(3) m(1-4) rp(1) by (auto simp: merge_round_def Let_def elim!: returnsE)
qed

lemma foldl_place_mono: "length (fst s) \<le> length (fst (foldl place s es))"
proof (induction es arbitrary: s)
  case (Cons e es)
  have "length (fst s) \<le> length (fst (place s e))"
    by (cases s) auto
  then show ?case
    using Cons [of "place s e"] by simp
qed simp

lemma foldl_place_room: "length (fst (foldl place s (e # es))) < n \<Longrightarrow> length (fst (place s e)) < n"
  using foldl_place_mono [of "place s e" es] by simp

lemma merge_loop_correct:
  assumes "fresh_pages garbage" "merging n m ls us s" "\<forall>e \<in> set ls \<union> set us. good_entry e" "length (fst (foldl place s (merge_entries ls us))) < n"
  shows "returns (merge_loop marks garbage (m, b)) (\<lambda>(m', b'). writer n (mg_rp m') (foldl place s (merge_entries ls us)) \<and>
    b' = fold mark_invalid (if marks then shadowed ls us else []) b)"
  using assms(2-)
proof (induction "length ls + length us" arbitrary: m b ls us s rule: less_induct)
  case less
  have ends: "at_end (mg_lkey m) \<longleftrightarrow> ls = []" "at_end (mg_hkey m) \<longleftrightarrow> us = []"
    using less.prems(1,2) at_end_popped by (auto simp: merging_def)
  have step: ?case if r: "returns (merge_round marks garbage (m, b))
      (\<lambda>(m', b'). merging n m' ls' us' (place s e) \<and> b' = fold mark_invalid (if marks then as else []) b)"
    and sm: "length ls' + length us' < length ls + length us" "set ls' \<union> set us' \<subseteq> set ls \<union> set us"
    and eq: "merge_entries ls us = e # merge_entries ls' us'" "shadowed ls us = as @ shadowed ls' us'" for ls' us' e as
  proof -
    obtain m' b' where r': "merge_round marks garbage (m, b) = Some (m', b')" "merging n m' ls' us' (place s e)"
      "b' = fold mark_invalid (if marks then as else []) b"
      using r by (auto elim: returnsE)
    have "\<forall>e \<in> set ls' \<union> set us'. good_entry e"
      using less.prems(2) sm(2) by blast
    then have "returns (merge_loop marks garbage (m', b')) (\<lambda>(m', b''). writer n (mg_rp m') (foldl place (place s e) (merge_entries ls' us')) \<and>
        b'' = fold mark_invalid (if marks then shadowed ls' us' else []) b')"
      using less.prems(3) eq(1) by (intro less.hyps [OF sm(1) r'(2)]) simp_all
    moreover have "merge_loop marks garbage (m, b) = merge_loop marks garbage (m', b')"
      using ends eq(1) r'(1) by (subst merge_loop.simps) (auto simp: at_end_def)
    ultimately show ?case
      using eq r'(3) by (auto elim!: returns_mono)
  qed
  show ?case
  proof (cases ls)
    case Nil
    show ?thesis
    proof (cases us)
      case us: Nil
      then show ?thesis
        using Nil ends less.prems(1) by (subst merge_loop.simps) (simp add: merging_def)
    next
      case (Cons u us')
      have "returns (merge_round marks garbage (m, b)) (\<lambda>(m', b'). merging n m' [] us' (place s u) \<and> b' = b)"
        using less.prems Cons Nil ends foldl_place_room assms(1) by (intro round_upper [where pop = 1]) (simp_all add: next_pop_def)
      then show ?thesis
        using Cons Nil by (intro step [of "[]" us' u "[]"]) auto
    qed
  next
    case ls: (Cons l ls')
    show ?thesis
    proof (cases us)
      case Nil
      have "returns (merge_round marks garbage (m, b)) (\<lambda>(m', b'). merging n m' ls' [] (place s l) \<and> b' = b)"
        using less.prems Nil ls ends foldl_place_room assms(1) by (intro round_lower [where pop = "- 1"]) (simp_all add: next_pop_def)
      then show ?thesis
        using ls Nil by (intro step [of ls' "[]" l "[]"]) auto
    next
      case us: (Cons u us')
      have good: "good_entry l" "good_entry u"
        using less.prems(2) ls us by auto
      have keys: "mg_lkey m = Some (fst l)" "mg_hkey m = Some (fst u)"
        using less.prems(1) ls us by (auto simp: merging_def popped_def)
      have pop: "next_pop (mg_lkey m) (mg_hkey m) = Some (KEYCMP (fst l) (fst u))"
        using good ends ls us by (simp add: next_pop_def keys good_entry_def)
      show ?thesis
      proof (cases rule: key_less_cases [of "fst l" "fst u"])
        case 1
        have "returns (merge_round marks garbage (m, b)) (\<lambda>(m', b'). merging n m' ls' us (place s l) \<and> b' = b)"
          using less.prems pop good foldl_place_room 1 ls us assms(1) by (intro round_lower [where pop = "KEYCMP (fst l) (fst u)"]) simp_all
        then show ?thesis
          using ls us 1 by (intro step [of ls' us l "[]"]) auto
      next
        case 2
        have "returns (merge_round marks garbage (m, b)) (\<lambda>(m', b'). merging n m' ls' us' (place s u) \<and> b' = (if marks then mark_invalid (snd l) b else b))"
          using less.prems pop good foldl_place_room 2 ls us assms(1) by (intro round_both) simp_all
        then show ?thesis
          using ls us 2 by (intro step [of ls' us' u "[snd l]"]) auto
      next
        case 3
        have "returns (merge_round marks garbage (m, b)) (\<lambda>(m', b'). merging n m' ls us' (place s u) \<and> b' = b)"
          using less.prems pop good foldl_place_room 3 ls us key_less_asym [OF 3] assms(1)
          by (intro round_upper [where pop = "KEYCMP (fst l) (fst u)"]) (simp_all add: KEYCMP_pos)
        then show ?thesis
          using ls us 3 key_less_asym [OF 3] by (intro step [of ls us' u "[]"]) auto
      qed
    qed
  qed
qed

text \<open>The merged list is the union in key order, and the shadowed pages are those of the keys both lists have.\<close>

lemma keys_sorted_Cons: "keys_sorted (e # es) \<longleftrightarrow> (\<forall>x \<in> set es. key_less (fst e) (fst x)) \<and> keys_sorted es"
  by (simp add: keys_sorted_def)

lemma keys_sorted_Nil [simp]: "keys_sorted []"
  by (simp add: keys_sorted_def)

lemma set_merge_entries: "set (merge_entries ls us) \<subseteq> set ls \<union> set us"
  by (induction ls us rule: merge_entries.induct) auto

lemma above_not_dom: "\<forall>x \<in> set es. key_less k (fst x) \<Longrightarrow> k \<notin> dom (map_of es)"
  by (metis (no_types) dom_map_of_conv_image_fst imageE key_less_irrefl)

lemma sorted_tail: "keys_sorted (e # es) \<Longrightarrow> \<forall>x \<in> set es. key_less (fst e) (fst x)"
  by (simp add: keys_sorted_Cons)

lemma below_sorted: "key_less k (fst u) \<Longrightarrow> keys_sorted (u # us) \<Longrightarrow> \<forall>x \<in> set (u # us). key_less k (fst x)"
  unfolding keys_sorted_Cons using key_less_trans by auto

lemma merge_entries_above: "\<forall>x \<in> set ls. key_less k (fst x) \<Longrightarrow> \<forall>x \<in> set us. key_less k (fst x) \<Longrightarrow> \<forall>x \<in> set (merge_entries ls us). key_less k (fst x)"
  using set_merge_entries by blast

lemma merge_entries_sorted: "keys_sorted ls \<Longrightarrow> keys_sorted us \<Longrightarrow> keys_sorted (merge_entries ls us)"
proof (induction ls us rule: merge_entries.induct)
  case (3 l ls u us)
  note tails = sorted_tail [OF "3.prems"(1)] sorted_tail [OF "3.prems"(2)]
  have ks: "keys_sorted ls" "keys_sorted us"
    using "3.prems" by (simp_all add: keys_sorted_Cons)
  show ?case
  proof (cases rule: key_less_cases [of "fst l" "fst u"])
    case 1
    then show ?thesis
      using 3(1,4,5) ks merge_entries_above [OF tails(1) below_sorted [OF 1 "3.prems"(2)]] by (simp add: keys_sorted_Cons [of l])
  next
    case 2
    then show ?thesis
      using 3(3) ks merge_entries_above [OF tails(1) [unfolded 2] tails(2)] by (simp add: keys_sorted_Cons [of u])
  next
    case g: 3
    then show ?thesis
      using 3(2,4,5) ks key_less_asym [OF g] merge_entries_above [OF below_sorted [OF g "3.prems"(1)] tails(2)]
      by (simp add: keys_sorted_Cons [of u])
  qed
qed simp_all

lemma map_of_Cons: "map_of (e # es) = (map_of es)(fst e \<mapsto> snd e)"
  by simp

lemma merge_entries_map: "keys_sorted ls \<Longrightarrow> keys_sorted us \<Longrightarrow> map_of (merge_entries ls us) = map_of ls ++ map_of us"
proof (induction ls us rule: merge_entries.induct)
  case (3 l ls u us)
  have ks: "keys_sorted ls" "keys_sorted us"
    using "3.prems" by (simp_all add: keys_sorted_Cons)
  show ?case
  proof (cases rule: key_less_cases [of "fst l" "fst u"])
    case 1
    have "map_of (merge_entries ls (u # us)) = map_of ls ++ map_of (u # us)"
      using 3(1) 1 ks(1) "3.prems"(2) by blast
    moreover have "merge_entries (l # ls) (u # us) = l # merge_entries ls (u # us)"
      using 1 by simp
    ultimately show ?thesis
      using map_add_upd_left [OF above_not_dom [OF below_sorted [OF 1 "3.prems"(2)]], of "map_of ls" "snd l"] map_of_Cons by metis
  next
    case 2
    have "map_of (l # ls) ++ map_of (u # us) = (map_of ls ++ map_of us)(fst u \<mapsto> snd u)"
      using 2 by (auto simp: fun_eq_iff map_add_def split: option.splits)
    then show ?thesis
      using 2 3(3) ks by (simp del: fun_upd_apply)
  next
    case g: 3
    have "map_of (merge_entries (l # ls) us) = map_of (l # ls) ++ map_of us"
      using 3(2) g key_less_asym [OF g] ks(2) "3.prems"(1) by blast
    moreover have "merge_entries (l # ls) (u # us) = u # merge_entries (l # ls) us"
      using g key_less_asym [OF g] by simp
    ultimately show ?thesis
      using map_add_upd map_of_Cons by metis
  qed
qed simp_all

lemma set_shadowed:
  assumes "keys_sorted ls" "keys_sorted us"
  shows "a \<in> set (shadowed ls us) \<longleftrightarrow> (\<exists>k. (k, a) \<in> set ls \<and> k \<in> dom (map_of us))"
  using assms
proof (induction ls us rule: shadowed.induct)
  case (3 l ls u us)
  note tails = above_not_dom [OF sorted_tail [OF "3.prems"(1)]] above_not_dom [OF sorted_tail [OF "3.prems"(2)]]
  have ks: "keys_sorted ls" "keys_sorted us"
    using "3.prems" by (simp_all add: keys_sorted_Cons)
  show ?case
  proof (cases rule: key_less_cases [of "fst l" "fst u"])
    case 1
    have "a \<in> set (shadowed ls (u # us)) \<longleftrightarrow> (\<exists>k. (k, a) \<in> set ls \<and> k \<in> dom (map_of (u # us)))"
      using 3(1) 1 ks(1) "3.prems"(2) by blast
    then show ?thesis
      using 1 above_not_dom [OF below_sorted [OF 1 "3.prems"(2)]] by (cases l) (simp del: map_of.simps, blast)
  next
    case 2
    have "a \<in> set (shadowed ls us) \<longleftrightarrow> (\<exists>k. (k, a) \<in> set ls \<and> k \<in> dom (map_of us))"
      using 3(3) 2 ks by simp
    moreover have "(k, a) \<in> set ls \<Longrightarrow> k \<noteq> fst l" for k
      using tails(1) by (auto simp: dom_map_of_conv_image_fst image_iff)
    moreover have "dom (map_of (u # us)) = insert (fst l) (dom (map_of us))"
      using 2 by simp
    ultimately show ?thesis
      using 2 by (cases l) (simp del: map_of.simps, blast)
  next
    case g: 3
    have "a \<in> set (shadowed (l # ls) us) \<longleftrightarrow> (\<exists>k. (k, a) \<in> set (l # ls) \<and> k \<in> dom (map_of us))"
      using 3(2) g key_less_asym [OF g] ks(2) "3.prems"(1) by blast
    moreover have "(k, a) \<in> set (l # ls) \<Longrightarrow> k \<noteq> fst u" for k
      using above_not_dom [OF below_sorted [OF g "3.prems"(1)]] unfolding dom_map_of_conv_image_fst by (metis fst_conv imageI)
    moreover have "dom (map_of (u # us)) = insert (fst u) (dom (map_of us))"
      by simp
    ultimately show ?thesis
      using g key_less_asym [OF g] by (simp del: map_of.simps list.set) blast
  qed
qed simp_all

section \<open>The pages of the result\<close>

abbreviation bytes :: "entries \<Rightarrow> nat" where
  "bytes es \<equiv> sum_list (map entry_size es)"

lemma foldl_place_concat: "foldl place s es = (closed, cur) \<Longrightarrow> concat closed @ cur = (concat (fst s) @ snd s) @ es"
proof (induction es arbitrary: s)
  case (Cons e es)
  have "concat (fst (place s e)) @ snd (place s e) = concat (fst s) @ snd s @ [e]"
    by (cases s) auto
  then show ?case
    using Cons.IH [of "place s e"] Cons.prems by simp
qed simp

text \<open>A closed page has at least 2545 bytes of entries: 509 entries of five bytes, or not enough room for 258 bytes.\<close>

lemma open_full_bytes:
  assumes "open_full cur e" "cur \<noteq> []" "\<forall>x \<in> set (e # cur). good_entry x"
  shows "2545 \<le> bytes cur"
proof (cases "509 \<le> length cur")
  case True
  have "5 * length cur \<le> bytes cur"
    using sum_list_mono [of cur "\<lambda>_. 5" entry_size] good_entry_size assms(3) by (fastforce simp: sum_list_triv mult.commute)
  then show ?thesis
    using True by simp
next
  case False
  then show ?thesis
    using assms(1,2,3) good_entry_size [of e] by (simp add: open_full_def hoff_def KEYBITMAP_def PAGESIZE_def)
qed

lemma foldl_place_bytes:
  assumes "foldl place s es = (closed, cur)" "\<forall>x \<in> set (snd s) \<union> set es. good_entry x" "2545 * length (fst s) \<le> bytes (concat (fst s))"
  shows "2545 * length closed \<le> bytes (concat closed)"
  using assms
proof (induction es arbitrary: s)
  case (Cons e es)
  obtain cl cu where s: "s = (cl, cu)"
    by (cases s)
  have "2545 * length (fst (place s e)) \<le> bytes (concat (fst (place s e)))"
    using Cons.prems(2,3) open_full_bytes [of cu e] s by auto
  moreover have "\<forall>x \<in> set (snd (place s e)) \<union> set es. good_entry x"
    using Cons.prems(2) s by auto
  ultimately show ?case
    using Cons.IH [of "place s e"] Cons.prems(1) by simp
qed simp

lemma foldl_place_open: "foldl place s es = (closed, cur) \<Longrightarrow> es \<noteq> [] \<or> snd s \<noteq> [] \<Longrightarrow> cur \<noteq> []"
proof (induction es arbitrary: s)
  case (Cons e es)
  have "snd (place s e) \<noteq> []"
    by (cases s) auto
  then show ?case
    using Cons.IH [of "place s e"] Cons.prems(1) by simp
qed simp

lemma merge_entries_bytes: "bytes (merge_entries ls us) \<le> bytes ls + bytes us"
  by (induction ls us rule: merge_entries.induct) auto

lemma page_bytes: "list_all2 page_lists ds cs \<Longrightarrow> bytes (concat cs) \<le> 3072 * length cs"
proof (induction ds cs rule: list_all2_induct)
  case (Cons d ds c cs)
  have "bytes c \<le> 3072"
    using Cons.hyps(1) by (auto simp: page_lists_def header_page_def entries_fit_def hoff_def KEYBITMAP_def PAGESIZE_def)
  then show ?case
    using Cons.IH by simp
qed simp

lemma result_bytes:
  assumes "foldl place ([], []) es = (closed, cur)" "\<forall>e \<in> set es. good_entry e"
  shows "2545 * length closed \<le> bytes es"
proof -
  have "2545 * length closed \<le> bytes (concat closed)"
    using foldl_place_bytes [OF assms(1)] assms(2) by simp
  also have "\<dots> \<le> bytes (concat closed @ cur)"
    by simp
  also have "concat closed @ cur = es"
    using foldl_place_concat [OF assms(1)] by simp
  finally show ?thesis .
qed

section \<open>Merging two levels\<close>

text \<open>The stream has written exactly the pages \<open>ps\<close>.\<close>

definition written :: "nat \<Rightarrow> p_body \<Rightarrow> page option list \<Rightarrow> bool" where
  "written n p ps \<longleftrightarrow> pb_data p = ps @ replicate (n - length ps) None \<and> pb_pidx p = length ps \<and> length ps \<le> n"

text \<open>
  What both streams promise: non-empty lists of non-empty pages with valid keys, and few enough bytes for
  the array of the result.  Two levels of at most 2400 pages together always have few enough.
\<close>

definition few_bytes :: "nat \<Rightarrow> entries \<Rightarrow> entries \<Rightarrow> bool" where
  "few_bytes n ls us \<longleftrightarrow> bytes ls + bytes us < 2545 * (n + result_padding)"

lemma few_bytes_pages:
  assumes "list_all2 page_lists lds ls" "list_all2 page_lists uds us" "length ls + length us \<le> 2400"
  shows "few_bytes (length ls + length us) (concat ls) (concat us)"
  using page_bytes [OF assms(1)] page_bytes [OF assms(2)] assms(3) by (simp add: few_bytes_def result_padding_def)

definition mergeable :: "page option list \<Rightarrow> entries list \<Rightarrow> page option list \<Rightarrow> entries list \<Rightarrow> bool" where
  "mergeable lds ls uds us \<longleftrightarrow> list_all2 page_lists lds ls \<and> list_all2 page_lists uds us \<and> ls \<noteq> [] \<and> us \<noteq> [] \<and>
     (\<forall>e \<in> set (concat ls) \<union> set (concat us). good_entry e) \<and> few_bytes (length ls + length us) (concat ls) (concat us)"

text \<open>The pages list the entries, and all but the last are well filled.\<close>

definition cuts_into :: "nat \<Rightarrow> p_body \<Rightarrow> entries \<Rightarrow> bool" where
  "cuts_into n rp es \<longleftrightarrow> (\<exists>ps ess. written n rp ps \<and> list_all2 page_lists ps ess \<and> concat ess = es \<and> 2545 * (length ess - 1) \<le> bytes es)"

lemma merge_streams_correct:
  assumes "fresh_pages garbage" "mergeable lds ls uds us" "reader lp (concat ls)" "reader hp (concat us)"
    "n = length ls + length us + result_padding"
  shows "returns (merge_streams marks garbage lp hp (pbody_init (replicate n None) n [] False) b) (\<lambda>(rp, b').
    cuts_into n rp (merge_entries (concat ls) (concat us)) \<and>
    b' = fold mark_invalid (if marks then shadowed (concat ls) (concat us) else []) b)"
proof -
  let ?rp = "pbody_init (replicate n None) n [] False"
  note pre = assms(2) [unfolded mergeable_def]
  obtain lk la lp1 where l: "pbody_get_next_key lp 0 = Some (lk, la, lp1)" "popped lp1 lk la (concat ls)"
    using pop_popped [OF assms(3), of 0] by (auto elim!: returnsE)
  obtain hk ha hp1 where h: "pbody_get_next_key hp 0 = Some (hk, ha, hp1)" "popped hp1 hk ha (concat us)"
    using pop_popped [OF assms(4), of 0] by (auto elim!: returnsE)
  let ?m = "\<lparr>mg_lp = lp1, mg_hp = hp1, mg_rp = ?rp, mg_lkey = lk, mg_hkey = hk, mg_lppa = la, mg_hppa = ha\<rparr>"
  have start: "merging n ?m (concat ls) (concat us) ([], [])"
    using l(2) h(2) writer_init by (simp add: merging_def)
  have good: "\<forall>e \<in> set (concat ls) \<union> set (concat us). good_entry e"
    using pre by blast
  obtain closed cur where r: "foldl place ([], []) (merge_entries (concat ls) (concat us)) = (closed, cur)"
    by fastforce
  have filled: "2545 * length closed \<le> bytes (merge_entries (concat ls) (concat us))"
    using result_bytes [OF r] good set_merge_entries by blast
  then have fits: "length (fst (foldl place ([], []) (merge_entries (concat ls) (concat us)))) < n"
    using merge_entries_bytes [of "concat ls" "concat us"] pre r assms(5) by (simp add: few_bytes_def)
  obtain m b' where m: "merge_loop marks garbage (?m, b) = Some (m, b')" "writer n (mg_rp m) (closed, cur)"
    "b' = fold mark_invalid (if marks then shadowed (concat ls) (concat us) else []) b"
    using merge_loop_correct [OF assms(1) start good fits, of marks b] r by (auto elim!: returnsE)
  obtain l0 ls0 d0 ds0 where "ls = l0 # ls0" "lds = d0 # ds0"
    using pre by (cases ls; cases lds) auto
  then have "concat ls \<noteq> []"
    using pre by (auto simp: page_lists_def)
  then have "merge_entries (concat ls) (concat us) \<noteq> []"
    by simp
  then have cur: "cur \<noteq> []"
    using foldl_place_open [OF r] by simp
  obtain q ps where q: "pbody_insert_new_key garbage (mg_rp m) [] 0 True = Some q" "pb_data q = ps @ replicate (n - length ps) None"
    "list_all2 page_lists ps (closed @ [cur])" "pb_pidx q = length ps" "length ps \<le> n"
    using pbody_flush_writer [OF m(2) cur] by blast
  have "concat (closed @ [cur]) = merge_entries (concat ls) (concat us)"
    using foldl_place_concat [OF r] by simp
  then have "cuts_into n q (merge_entries (concat ls) (concat us))"
    using q(2-5) filled unfolding cuts_into_def written_def by (intro exI [of _ ps] exI [of _ "closed @ [cur]"]) simp
  then show ?thesis
    using l(1) h(1) m(1,3) q(1) by (simp add: merge_streams_def)
qed

text \<open>The run of a page.\<close>

definition run_lists :: "run_t \<Rightarrow> entries \<Rightarrow> bool" where
  "run_lists r es \<longleftrightarrow> page_lists (data_from_run r) es \<and> r_key r = fst (hd es) \<and> r_end r = fst (last es)"

lemma array_pipe_make_run_lists:
  assumes "header_page p es" "es \<noteq> []"
  obtains r where "array_pipe_make_run p idx = Some r" "run_lists r es" "r_iscached r = (if idx < LEVELCACHING then 1 else 0)"
    "r_data r = Some p" "r_pbn r = UINT32_MAX" "idx \<ge> LEVELCACHING \<Longrightarrow> r_cpt r = Some p" "idx < LEVELCACHING \<Longrightarrow> r_cpt r = None"
proof -
  have n: "0 < length es" "get16 p 0 = Some (length es - 1 + 1)"
    using assms by (auto simp: header_page_def)
  have keys: "header_key p 1 = Some (fst (hd es))" "header_key p (length es - 1 + 1) = Some (fst (last es))"
    using header_key_page(1) [OF assms(1), of 0] header_key_page(1) [OF assms(1), of "length es - 1"] n(1) assms(2)
    by (simp_all add: hd_conv_nth last_conv_nth)
  have "\<exists>r. array_pipe_make_run p idx = Some r \<and> run_lists r es \<and> r_iscached r = (if idx < LEVELCACHING then 1 else 0) \<and>
      r_data r = Some p \<and> r_pbn r = UINT32_MAX \<and> (idx \<ge> LEVELCACHING \<longrightarrow> r_cpt r = Some p) \<and> (idx < LEVELCACHING \<longrightarrow> r_cpt r = None)"
    unfolding array_pipe_make_run_def n(2) bind.bind_lunit keys Let_def
    using assms by (simp add: run_lists_def page_lists_def data_from_run_def array_make_run_def)
  then show thesis
    using that by blast
qed

text \<open>Cutting the written pages, from an index on.\<close>

definition fresh_run :: "nat \<Rightarrow> run_t \<Rightarrow> bool" where
  "fresh_run idx r \<longleftrightarrow> r_iscached r = (if idx < LEVELCACHING then 1 else 0) \<and> r_data r \<noteq> None \<and> (LEVELCACHING \<le> idx \<longrightarrow> r_cpt r \<noteq> None)"

abbreviation cut_result :: "nat \<Rightarrow> entries list \<Rightarrow> run_t list \<Rightarrow> bool" where
  "cut_result idx ess rs \<equiv> list_all2 run_lists rs ess \<and> (\<forall>r \<in> set rs. fresh_run idx r)"

lemma cut_from:
  assumes "pb_data rp = ps @ rest" "list_all2 page_lists ps ess" "pb_max_page rp = length ps" "pb_pidx rp = i" "i \<le> length ps"
    "length ps - i < fuel"
  shows "returns (cut_all fuel False rp idx) (cut_result idx (drop i ess))"
  using assms
proof (induction fuel arbitrary: rp i)
  case (Suc fuel)
  show ?case
  proof (cases "i < length ps")
    case True
    have len: "length ps = length ess"
      using list_all2_lengthD [OF Suc.prems(2)] .
    have "page_lists (ps ! i) (ess ! i)"
      using list_all2_nthD [OF Suc.prems(2) True] .
    then obtain pg where pg: "ps ! i = Some pg" "header_page pg (ess ! i)" "ess ! i \<noteq> []"
      by (auto simp: page_lists_def)
    obtain r where r: "array_pipe_make_run pg idx = Some r" "run_lists r (ess ! i)" "fresh_run idx r"
      using array_pipe_make_run_lists [OF pg(2,3), of idx] unfolding fresh_run_def by (metis option.distinct(1))
    have cut: "array_pipe_cutter False rp idx = Some (Some r, rp\<lparr>pb_pidx := Suc i\<rparr>)"
      using Suc.prems(1,3,4) True pg(1) r(1) by (simp add: array_pipe_cutter_def pbody_get_data_def nth_append)
    have "returns (cut_all fuel False (rp\<lparr>pb_pidx := Suc i\<rparr>) idx) (cut_result idx (drop (Suc i) ess))"
      using Suc.prems True by (intro Suc.IH) simp_all
    moreover have "drop i ess = ess ! i # drop (Suc i) ess"
      using Cons_nth_drop_Suc [of i ess] True len by simp
    ultimately show ?thesis
      using cut r by (auto elim!: returnsE)
  next
    case False
    then have "array_pipe_cutter False rp idx = Some (None, rp)"
      using Suc.prems(3-5) by (simp add: array_pipe_cutter_def pbody_get_data_def)
    then show ?thesis
      using False list_all2_lengthD [OF Suc.prems(2)] by simp
  qed
qed simp

lemma cut_all_lists:
  assumes "written n rp ps" "list_all2 page_lists ps ess" "pb_pidx rp < fuel"
  shows "returns (cut_all fuel True rp idx) (cut_result idx ess)"
proof -
  obtain f where f: "fuel = Suc f"
    using assms(3) by (cases fuel) auto
  let ?rp = "rp\<lparr>pb_max_page := length ps, pb_pidx := 0\<rparr>"
  have "cut_all fuel True rp idx = cut_all fuel False ?rp idx"
    using assms(1) by (simp add: f written_def array_pipe_cutter_def pbody_get_data_def)
  moreover have "returns (cut_all fuel False ?rp idx) (cut_result idx (drop 0 ess))"
    using assms by (intro cut_from [where ps = ps]) (simp_all add: written_def)
  ultimately show ?thesis
    by simp
qed

text \<open>A level lists entries: those of its runs, in key order and with valid keys.\<close>

definition level_lists :: "run_t list \<Rightarrow> entries \<Rightarrow> bool" where
  "level_lists rs es \<longleftrightarrow> (\<exists>ess. list_all2 run_lists rs ess \<and> es = concat ess) \<and> keys_sorted es \<and> (\<forall>e \<in> set es. good_entry e)"

lemma run_lists_pages: "list_all2 run_lists rs ess \<Longrightarrow> list_all2 page_lists (map data_from_run rs) ess"
  by (simp add: list_all2_map1 run_lists_def list_all2_conv_all_nth)

lemma keyset_check_page:
  assumes "header_page p es" "\<forall>e \<in> set es. KEYVALCHECK (fst e)"
  shows "keyset_check p = Some True"
proof -
  have "keyset_check_from p (i + 1) n = Some True" if "i + n < length es \<or> n = 0" for i n
    using that
  proof (induction n arbitrary: i)
    case (Suc n)
    then have "header_key p (i + 1) = Some (fst (es ! i))" "KEYVALCHECK (fst (es ! i))"
      using header_key_page(1) [OF assms(1), of i] assms(2) by auto
    then show ?case
      using Suc.IH [of "Suc i"] Suc.prems by auto
  qed simp
  from this [of 0 "length es - 1"] have "keyset_check_from p 1 (length es - 1) = Some True"
    by (cases es) simp_all
  then show ?thesis
    using assms(1) by (simp add: keyset_check_def header_page_def)
qed

lemma checked_pages:
  assumes "list_all2 page_lists ds ess" "\<forall>e \<in> set (concat ess). good_entry e"
  obtains ps where "those (map checked_page ds) = Some ps" "list_all2 page_lists (map Some ps) ess"
  using assms
proof (induction ds ess arbitrary: thesis rule: list_all2_induct)
  case (Cons d ds es ess)
  obtain p where p: "d = Some p" "header_page p es" "es \<noteq> []"
    using Cons.hyps(1) by (auto simp: page_lists_def)
  then have "keyset_check p = Some True"
    using Cons.prems(2) by (intro keyset_check_page) (auto simp: good_entry_def)
  then have d: "checked_page d = Some p"
    using p(1) by (simp add: checked_page_def)
  obtain ps where "those (map checked_page ds) = Some ps" "list_all2 page_lists (map Some ps) ess"
    using Cons.IH Cons.prems(2) by auto
  then show ?case
    using d p by (intro Cons.prems(1) [of "p # ps"]) (simp_all add: page_lists_def [of "Some p" es])
qed simp

lemma cut_all_level:
  assumes "cuts_into n rp es" "pb_pidx rp < fuel" "keys_sorted es" "\<forall>e \<in> set es. good_entry e"
  shows "returns (cut_all fuel True rp idx) (\<lambda>rs. level_lists rs es \<and> (\<forall>r \<in> set rs. fresh_run idx r) \<and> 2545 * (length rs - 1) \<le> bytes es)"
proof -
  obtain ps ess where c: "written n rp ps" "list_all2 page_lists ps ess" "concat ess = es" "2545 * (length ess - 1) \<le> bytes es"
    using assms(1) by (auto simp: cuts_into_def)
  from cut_all_lists [OF c(1,2) assms(2), of idx] show ?thesis
    by (rule returns_mono) (use assms(3,4) c(3,4) in \<open>auto simp: level_lists_def dest: list_all2_lengthD\<close>)
qed

lemma merger_pages:
  assumes "fresh_pages garbage" "list_all2 page_lists (map Some uds) us" "list_all2 page_lists (map Some lds) ls" "us \<noteq> []" "ls \<noteq> []"
    "\<forall>e \<in> set (concat ls) \<union> set (concat us). good_entry e" "few_bytes (length lds + length uds) (concat ls) (concat us)"
  defines "n \<equiv> length lds + length uds + result_padding"
  shows "returns (merge_streams True garbage (pbody_init (map Some lds) (length lds) [] False)
      (pbody_init (map Some uds) (length uds) [] False) (pbody_init (replicate n None) n [] False) b)
    (\<lambda>(rp, b'). cuts_into n rp (merge_entries (concat ls) (concat us)) \<and> b' = fold mark_invalid (shadowed (concat ls) (concat us)) b)"
proof -
  have len: "length lds = length ls" "length uds = length us"
    using list_all2_lengthD [OF assms(2)] list_all2_lengthD [OF assms(3)] by simp_all
  have "mergeable (map Some lds) ls (map Some uds) us"
    using assms len by (simp add: mergeable_def)
  moreover have "reader (pbody_init (map Some lds) (length ls) [] False) (concat ls)"
    "reader (pbody_init (map Some uds) (length us) [] False) (concat us)"
    using assms(2-5) by (auto intro: reader_init)
  ultimately have "returns (merge_streams True garbage (pbody_init (map Some lds) (length ls) [] False)
      (pbody_init (map Some uds) (length us) [] False) (pbody_init (replicate n None) n [] False) b) (\<lambda>(rp, b').
      cuts_into n rp (merge_entries (concat ls) (concat us)) \<and>
      b' = fold mark_invalid (if True then shadowed (concat ls) (concat us) else []) b)"
    using assms(1) len by (intro merge_streams_correct) (simp_all add: n_def)
  then show ?thesis
    unfolding len by simp
qed

lemma array_pipe_merger_levels:
  assumes "fresh_pages garbage" "level_lists s us" "level_lists org ls" "s \<noteq> []" "org \<noteq> []" "few_bytes (length org + length s) ls us"
  shows "returns (array_pipe_merger garbage garbage0 None s org b) (\<lambda>(rp, b').
    cuts_into (length org + length s + result_padding) rp (merge_entries ls us) \<and> b' = fold mark_invalid (shadowed ls us) b)"
proof -
  obtain uss where us: "list_all2 run_lists s uss" "us = concat uss" "\<forall>e \<in> set (concat uss). good_entry e"
    using assms(2) by (auto simp: level_lists_def)
  obtain lss where ls: "list_all2 run_lists org lss" "ls = concat lss" "\<forall>e \<in> set (concat lss). good_entry e"
    using assms(3) by (auto simp: level_lists_def)
  obtain uds where uds: "those (map checked_page (map data_from_run s)) = Some uds" "list_all2 page_lists (map Some uds) uss"
    using checked_pages [OF run_lists_pages [OF us(1)] us(3)] by blast
  obtain lds where lds: "those (map checked_page (map data_from_run org)) = Some lds" "list_all2 page_lists (map Some lds) lss"
    using checked_pages [OF run_lists_pages [OF ls(1)] ls(3)] by blast
  have len: "length uds = length s" "length lds = length org"
    using list_all2_lengthD [OF us(1)] list_all2_lengthD [OF ls(1)] list_all2_lengthD [OF uds(2)] list_all2_lengthD [OF lds(2)] by simp_all
  have ne: "uss \<noteq> []" "lss \<noteq> []"
    using us(1) ls(1) assms(4,5) by auto
  have good: "\<forall>e \<in> set (concat lss) \<union> set (concat uss). good_entry e"
    using us(3) ls(3) by blast
  have "few_bytes (length lds + length uds) (concat lss) (concat uss)"
    using assms(6) len us(2) ls(2) by simp
  from merger_pages [OF assms(1) uds(2) lds(2) ne good this, of b] show ?thesis
    using uds(1) lds(1) us(2) ls(2) len by (simp add: array_pipe_merger_def Let_def comp_def)
qed

lemma array_pipe_merger_mem:
  assumes "fresh_pages garbage" "length garbage0 = PAGESIZE" "entries_fit es" "es \<noteq> []" "\<forall>e \<in> set es. good_entry e"
    "level_lists org ls" "org \<noteq> []" "few_bytes (length org + 1) ls es"
  shows "returns (array_pipe_merger garbage garbage0 (Some es) s org b) (\<lambda>(rp, b').
    cuts_into (length org + 1 + result_padding) rp (merge_entries ls es) \<and> b' = fold mark_invalid (shadowed ls es) b)"
proof -
  obtain ls' where ls: "list_all2 run_lists org ls'" "ls = concat ls'" "\<forall>e \<in> set (concat ls'). good_entry e"
    using assms(6) by (auto simp: level_lists_def)
  have valid: "\<forall>e \<in> set es. KEYVALCHECK (fst e)"
    using assms(5) by (simp add: good_entry_def)
  obtain u where u: "array_skip_cvt2_data garbage0 es = Some u" "header_page u es"
    using array_skip_cvt2_data_page [OF assms(2,3) valid] by (auto elim: returnsE)
  have cu: "checked_page (array_skip_cvt2_data garbage0 es) = Some u"
    using u keyset_check_page [OF u(2) valid] by (simp add: checked_page_def)
  obtain lds where lds: "those (map checked_page (map data_from_run org)) = Some lds" "list_all2 page_lists (map Some lds) ls'"
    using checked_pages [OF run_lists_pages [OF ls(1)] ls(3)] by blast
  have len: "length lds = length org"
    using list_all2_lengthD [OF ls(1)] list_all2_lengthD [OF lds(2)] by simp
  have ne: "[es] \<noteq> []" "ls' \<noteq> []" and up: "list_all2 page_lists (map Some [u]) [es]"
    using ls(1) assms(4,7) u(2) by (auto simp: page_lists_def)
  have good: "\<forall>e \<in> set (concat ls') \<union> set (concat [es]). good_entry e"
    using assms(5) ls(3) by auto
  have "few_bytes (length lds + length [u]) (concat ls') (concat [es])"
    using assms(8) len ls(2) by simp
  from merger_pages [OF assms(1) up lds(2) ne good this, of b] show ?thesis
    using cu lds(1) ls(2) len by (simp add: array_pipe_merger_def Let_def comp_def)
qed

end
