(* ===== verification/LsmMem.thy ===== *)
theory LsmMem
  imports LsmMerge
begin

text \<open>
  The memtable of the LSM-tree store, \<^verbatim>\<open>lsm_tools/skiplist.c\<close>, at the level of the list of its nodes:
  the towers above the bottom list only speed up the searches and are left out (the theory
  \<open>Skiplist\<close> has such a list with its towers).  The theory also has the placement of the values of a
  cut list on data pages.
\<close>

section \<open>Nodes and lists\<close>

text \<open>\<^verbatim>\<open>snode\<close>: the value is known by its length in pieces of 512 bytes; a null pointer is \<open>None\<close>.\<close>

record lsm_snode =
  sn_key :: str_key
  sn_ppa :: ppa_t
  sn_value :: "nat option"
  sn_isvalid :: bool

record memtable =
  mt_nodes :: "lsm_snode list"
  mt_size :: nat
  mt_all_length :: nat
  mt_data_size :: u32

text \<open>\<^verbatim>\<open>skiplist_init\<close> leaves \<^verbatim>\<open>data_size\<close> as it was allocated.\<close>

definition lsm_skiplist_init :: "u32 \<Rightarrow> memtable" where
  "lsm_skiplist_init garbage = \<lparr>mt_nodes = [], mt_size = 0, mt_all_length = 0, mt_data_size = garbage\<rparr>"

abbreviation KEYLEN :: "str_key \<Rightarrow> nat" where
  "KEYLEN k \<equiv> length k + 4"

text \<open>
  The search stops at the first node that is not below the key; behind the last one it is the header,
  whose key is \<^verbatim>\<open>key_max\<close>.
\<close>

definition below :: "str_key \<Rightarrow> lsm_snode \<Rightarrow> bool" where
  "below key n \<longleftrightarrow> KEYCMP (sn_key n) key < 0"

definition lsm_skiplist_find :: "memtable \<Rightarrow> str_key \<Rightarrow> lsm_snode option option" where
  "lsm_skiplist_find l key =
     (if mt_size l = 0 then Some None
      else (case dropWhile (below key) (mt_nodes l) of
          [] \<Rightarrow> if key = lsm_key_max then None else Some None
        | n # _ \<Rightarrow> Some (if sn_key n = key then Some n else None)))"

definition lsm_skiplist_find_lowerbound :: "memtable \<Rightarrow> str_key \<Rightarrow> lsm_snode option" where
  "lsm_skiplist_find_lowerbound l key =
     (if mt_size l = 0 then None
      else (case dropWhile (below key) (mt_nodes l) of [] \<Rightarrow> None | n # _ \<Rightarrow> Some n))"

definition LSM_PIECE :: nat where "LSM_PIECE = 512"

definition lsm_pieces :: "nat \<Rightarrow> nat" where
  "lsm_pieces len = len div LSM_PIECE + (if len mod LSM_PIECE \<noteq> 0 then 1 else 0)"

text \<open>
  \<^verbatim>\<open>skiplist_insert\<close>: the flag tells an update from an insertion.  The value and the old value are
  dereferenced; the key of the header and an invalid key are not survived.
\<close>

definition lsm_skiplist_insert :: "memtable \<Rightarrow> str_key \<Rightarrow> nat option \<Rightarrow> bool \<Rightarrow> (bool \<times> memtable) option" where
  "lsm_skiplist_insert l key value deletef = do {
     v \<leftarrow> map_option lsm_pieces value;
     let pre = takeWhile (below key) (mt_nodes l);
     let post = dropWhile (below key) (mt_nodes l);
     let fresh = \<lparr>sn_key = key, sn_ppa = UINT32_MAX, sn_value = Some v, sn_isvalid = deletef\<rparr>;
     let inserted = (if KEYVALCHECK key
           then Some (False, l\<lparr>mt_nodes := pre @ fresh # post, mt_size := mt_size l + 1,
             mt_all_length := mt_all_length l + KEYLEN key, mt_data_size := mt_data_size l + of_nat (v * LSM_PIECE)\<rparr>)
           else None);
     (case post of
        [] \<Rightarrow> if key = lsm_key_max then None else inserted
      | n # rest \<Rightarrow>
          if sn_key n = key
          then do {
            old \<leftarrow> sn_value n;
            Some (True, l\<lparr>mt_nodes := pre @ n\<lparr>sn_value := Some v, sn_isvalid := deletef\<rparr> # rest,
              mt_data_size := mt_data_size l - of_nat (old * LSM_PIECE) + of_nat (v * LSM_PIECE)\<rparr>)
          }
          else inserted)
   }"

section \<open>Cutting a list for a flush\<close>

definition num_limit :: nat where "num_limit = KEYBITMAP div 2 - 2"

definition size_limit :: nat where "size_limit = PAGESIZE - KEYBITMAP"

text \<open>The loop of \<^verbatim>\<open>skiplist_cutting_header\<close>: the number of nodes and their length; behind the last node is the header.\<close>

fun cut_loop :: "nat \<Rightarrow> nat \<Rightarrow> lsm_snode list \<Rightarrow> nat \<times> nat" where
  "cut_loop len idx [] = (idx, len)"
| "cut_loop len idx (n # ns) =
     (let len' = len + KEYLEN (sn_key n);
          idx' = idx + 1;
          following = (case ns of [] \<Rightarrow> KEYLEN lsm_key_max | m # _ \<Rightarrow> KEYLEN (sn_key m))
      in if len' + following \<ge> size_limit \<or> idx' \<ge> num_limit then (idx', len') else cut_loop len' idx' ns)"

text \<open>
  \<^verbatim>\<open>skiplist_cutting_header\<close> with \<^verbatim>\<open>skiplist_divide\<close>, which gives the nodes up to the last one of the loop to a new
  list: \<open>None\<close> inside when nothing is cut, else the new list and the rest.
\<close>

definition lsm_cutting_header :: "u32 \<Rightarrow> memtable \<Rightarrow> (memtable \<times> memtable) option" where
  "lsm_cutting_header garbage l =
     (if mt_all_length l < size_limit \<and> mt_size l < num_limit then None
      else
        (let (idx, len) = cut_loop 0 0 (mt_nodes l) in
         Some (\<lparr>mt_nodes = take idx (mt_nodes l), mt_size = idx, mt_all_length = len, mt_data_size = garbage\<rparr>,
               l\<lparr>mt_nodes := drop idx (mt_nodes l), mt_size := mt_size l - idx, mt_all_length := mt_all_length l - len\<rparr>)))"

section \<open>Placing the values\<close>

type_synonym alloc = "lsm_page \<times> lsm_bm"

definition set_oob :: "ppa_t \<Rightarrow> nat \<Rightarrow> alloc \<Rightarrow> alloc option" where
  "set_oob a len = (\<lambda>(p, b).
     if a \<ge> NOP * PIECE_PER_PAGE \<or> piece_marked_invalid b a then None
     else Some (p, b\<lparr>lb_oob := (lb_oob b)(a := \<lparr>po_length = of_nat len, po_isvalid = True\<rparr>)\<rparr>))"

text \<open>\<^verbatim>\<open>l_bucket\<close>: the keys of the nodes with a value of each length, in the order of the list.\<close>

type_synonym l_bucket = "nat \<Rightarrow> str_key list"

definition fill_buckets :: "lsm_snode list \<Rightarrow> l_bucket option" where
  "fill_buckets ns =
     (if \<exists>n \<in> set ns. \<exists>v. sn_value n = Some v \<and> v > PIECE_PER_PAGE then None
      else Some (\<lambda>v. map sn_key (filter (\<lambda>n. sn_value n = Some v) ns)))"

definition set_ppa :: "str_key \<Rightarrow> ppa_t \<Rightarrow> lsm_snode list \<Rightarrow> lsm_snode list" where
  "set_ppa key a = map (\<lambda>n. if sn_key n = key then n\<lparr>sn_ppa := a\<rparr> else n)"

definition drop_value :: "str_key \<Rightarrow> lsm_snode list \<Rightarrow> lsm_snode list" where
  "drop_value key = map (\<lambda>n. if sn_key n = key then n\<lparr>sn_value := None\<rparr> else n)"

text \<open>The values of a whole page, each on a page of its own.  Nothing is stored in the piece information: both assignments are comparisons.\<close>

fun place_pages :: "str_key list \<Rightarrow> lsm_snode list \<Rightarrow> alloc \<Rightarrow> (ppa_t list \<times> lsm_snode list \<times> alloc) option" where
  "place_pages [] ns st = Some ([], ns, st)"
| "place_pages (key # keys) ns st = do {
     (ppa, st1) \<leftarrow> lsm_get_page DATA st;
     if ppa \<ge> NOP * PIECE_PER_PAGE \<or> piece_marked_invalid (snd st1) ppa then None
     else do {
       (ppas, ns1, st2) \<leftarrow> place_pages keys (drop_value key (set_ppa key ppa ns)) st1;
       Some (ppa # ppas, ns1, st2)
     }
   }"

text \<open>
  \<^verbatim>\<open>variable_value2Page\<close>.  \<open>longest\<close> is the scan for the longest bucket that is not empty, from a length
  down.  The inner loop fills a page of \<open>remain\<close> pieces; the nodes get the outer \<^verbatim>\<open>start_ppa\<close>, which is 0.
\<close>

fun longest :: "l_bucket \<Rightarrow> nat \<Rightarrow> nat" where
  "longest b 0 = 0"
| "longest b (Suc n) = (if b (Suc n) = [] then longest b n else Suc n)"

lemma longest_le: "longest b n \<le> n"
  by (induction n) auto

function fill_page :: "nat \<Rightarrow> nat \<Rightarrow> l_bucket \<Rightarrow> lsm_snode list \<Rightarrow> alloc \<Rightarrow> (l_bucket \<times> lsm_snode list \<times> alloc) option" where
  "fill_page max_piece remain b ns st =
     (let l = longest b (min remain max_piece) in
      if remain = 0 \<or> l = 0 then Some (b, ns, st)
      else (case set_oob 0 l st of
          None \<Rightarrow> None
        | Some st1 \<Rightarrow> fill_page max_piece (remain - l) (b(l := butlast (b l))) (set_ppa (last (b l)) 0 ns) st1))"
  by pat_completeness auto
termination
  by (relation "measure (\<lambda>(max_piece, remain, b, ns, st). remain)") auto

declare fill_page.simps [simp del]

definition buckets_empty :: "l_bucket \<Rightarrow> bool" where
  "buckets_empty b \<longleftrightarrow> (\<forall>i \<in> {0..PIECE_PER_PAGE}. b i = [])"

partial_function (option) value2page_loop ::
  "nat \<Rightarrow> l_bucket \<Rightarrow> lsm_snode list \<Rightarrow> alloc \<Rightarrow> (lsm_snode list \<times> alloc) option" where
  "value2page_loop max_piece b ns st =
     Option.bind (lsm_get_page DATA st) (\<lambda>r.
     Option.bind (set_oob (fst r) max_piece (snd r)) (\<lambda>st2.
     Option.bind (fill_page max_piece PIECE_PER_PAGE b ns st2) (\<lambda>s.
       if buckets_empty (fst s) then Some (snd s) else value2page_loop max_piece (fst s) (fst (snd s)) (snd (snd s)))))"

definition variable_value2Page :: "l_bucket \<Rightarrow> lsm_snode list \<Rightarrow> alloc \<Rightarrow> (lsm_snode list \<times> alloc) option" where
  "variable_value2Page b ns st =
     (let max_piece = longest b (PIECE_PER_PAGE - 1) in
      if max_piece = 0 then Some (ns, st) else value2page_loop max_piece b ns st)"

text \<open>
  \<^verbatim>\<open>skiplist_make_valueset\<close>: the pages of the returned array, and the first and last key if the list has a first node and a second.
  \<^verbatim>\<open>variable_value2Page\<close> does not advance its index into the array, and the entry there is cleared
  afterwards, so that its pages are not in the result.
\<close>

record valueset =
  vs_pages :: "ppa_t list"
  vs_start :: "str_key option"
  vs_end :: "str_key option"

definition skiplist_make_valueset :: "memtable \<Rightarrow> alloc \<Rightarrow> (valueset \<times> memtable \<times> alloc) option" where
  "skiplist_make_valueset l st = do {
     let start = (case mt_nodes l of [] \<Rightarrow> None | n # _ \<Rightarrow> Some (sn_key n));
     let end = (if 1 < mt_size l \<and> mt_size l \<le> length (mt_nodes l) then Some (sn_key (mt_nodes l ! (mt_size l - 1))) else None);
     b \<leftarrow> fill_buckets (mt_nodes l);
     (ppas, ns1, st1) \<leftarrow> place_pages (b PIECE_PER_PAGE) (mt_nodes l) st;
     let b1 = b(PIECE_PER_PAGE := []);
     let vs = \<lparr>vs_pages = ppas, vs_start = start, vs_end = end\<rparr>;
     if \<forall>i \<in> {1..PIECE_PER_PAGE}. b1 i = [] then Some (vs, l\<lparr>mt_nodes := ns1\<rparr>, st1)
     else do {
       (ns2, st2) \<leftarrow> variable_value2Page b1 ns1 st1;
       Some (vs, l\<lparr>mt_nodes := ns2\<rparr>, st2)
     }
   }"

section \<open>Well-formed lists\<close>

text \<open>
  The nodes are in strict key order with valid keys shorter than the end marker of the merge
  streams, the counters are exact, and every node has a value of one to eight pieces.
\<close>

definition node_ok :: "lsm_snode \<Rightarrow> bool" where
  "node_ok n \<longleftrightarrow> KEYVALCHECK (sn_key n) \<and> length (sn_key n) < UINT8_MAX \<and> (\<exists>v. sn_value n = Some v \<and> 0 < v \<and> v \<le> PIECE_PER_PAGE)"

abbreviation keylens :: "lsm_snode list \<Rightarrow> nat" where
  "keylens ns \<equiv> sum_list (map (\<lambda>n. KEYLEN (sn_key n)) ns)"

definition mem_ok :: "memtable \<Rightarrow> bool" where
  "mem_ok l \<longleftrightarrow> sorted_wrt key_less (map sn_key (mt_nodes l)) \<and> (\<forall>n \<in> set (mt_nodes l). node_ok n) \<and>
     mt_size l = length (mt_nodes l) \<and> mt_all_length l = keylens (mt_nodes l)"

lemma sorted_split:
  assumes "sorted_wrt key_less (map sn_key ns)" "dropWhile (below key) ns = n # rest"
  shows "\<forall>x \<in> set rest. key_less key (sn_key x)" "sn_key n = key \<or> key_less key (sn_key n)"
    "\<forall>x \<in> set (takeWhile (below key) ns). key_less (sn_key x) key" "sorted_wrt key_less (map sn_key rest)"
    "\<forall>x \<in> set rest. key_less (sn_key n) (sn_key x)"
proof -
  have ns: "ns = takeWhile (below key) ns @ n # rest"
    using takeWhile_dropWhile_id [of "below key" ns] assms(2) by simp
  have "sorted_wrt key_less (map sn_key (takeWhile (below key) ns @ n # rest))"
    using assms(1) ns by simp
  then show rest: "sorted_wrt key_less (map sn_key rest)" "\<forall>x \<in> set rest. key_less (sn_key n) (sn_key x)"
    by (auto simp: sorted_wrt_append)
  have "\<not> below key n"
    using assms(2) hd_dropWhile [of "below key" ns] by simp
  then show n: "sn_key n = key \<or> key_less key (sn_key n)"
    by (cases rule: key_less_cases [of "sn_key n" key]) (auto simp: below_def)
  show "\<forall>x \<in> set rest. key_less key (sn_key x)"
    using n rest(2) key_less_trans by metis
  show "\<forall>x \<in> set (takeWhile (below key) ns). key_less (sn_key x) key"
    using set_takeWhileD by (fastforce simp: below_def)
qed

lemma below_all: "dropWhile (below key) ns = [] \<Longrightarrow> \<forall>x \<in> set ns. key_less (sn_key x) key"
  by (simp add: below_def)

abbreviation node_map :: "lsm_snode list \<Rightarrow> str_key \<Rightarrow> nat option" where
  "node_map ns \<equiv> \<lambda>k. Option.bind (map_of (map (\<lambda>n. (sn_key n, n)) ns) k) sn_value"

lemma node_map_middle: "sn_key n \<notin> sn_key ` set pre \<Longrightarrow> node_map (pre @ n # post) = (\<lambda>k. if k = sn_key n then sn_value n else node_map (pre @ post) k)"
  by (induction pre) (auto simp: fun_eq_iff)

lemma lsm_pieces_bound:
  assumes "len \<le> PAGESIZE"
  shows "lsm_pieces len \<le> PIECE_PER_PAGE"
proof (cases "len mod 512 = 0")
  case False
  have "len = 512 * (len div 512) + len mod 512" "len \<le> 4096"
    using assms by (simp_all add: PAGESIZE_def)
  then have "len div 512 \<le> 7"
    using False by linarith
  then show ?thesis
    using False by (simp add: lsm_pieces_def LSM_PIECE_def PIECE_PER_PAGE_def PAGESIZE_def)
qed (use assms in \<open>simp add: lsm_pieces_def LSM_PIECE_def PIECE_PER_PAGE_def PAGESIZE_def div_le_mono\<close>)

text \<open>What an insertion does to the list and to the values stored under the keys.\<close>

lemma lsm_skiplist_insert_ok:
  assumes "mem_ok l" "KEYVALCHECK key" "length key < UINT8_MAX" "0 < len" "len \<le> PAGESIZE"
  shows "returns (lsm_skiplist_insert l key (Some len) deletef) (\<lambda>(upd, l'). mem_ok l' \<and>
    sn_key ` set (mt_nodes l') = insert key (sn_key ` set (mt_nodes l)) \<and> (upd \<longleftrightarrow> key \<in> sn_key ` set (mt_nodes l)) \<and>
    node_map (mt_nodes l') = (node_map (mt_nodes l))(key \<mapsto> lsm_pieces len))"
proof -
  note ok = assms(1) [unfolded mem_ok_def]
  obtain pre post where pp: "takeWhile (below key) (mt_nodes l) = pre" "dropWhile (below key) (mt_nodes l) = post"
    "mt_nodes l = pre @ post"
    by (metis takeWhile_dropWhile_id)
  have len: "0 < lsm_pieces len" "lsm_pieces len \<le> PIECE_PER_PAGE"
    using lsm_pieces_bound [OF assms(5)] assms(4) by (auto simp: lsm_pieces_def LSM_PIECE_def)
  have key: "key \<noteq> lsm_key_max"
    using assms(3) by (auto simp: lsm_key_max_def UINT8_MAX_def)
  have pre: "\<forall>x \<in> set pre. key_less (sn_key x) key"
    unfolding pp(1) [symmetric] using set_takeWhileD by (fastforce simp: below_def)
  have sp: "sorted_wrt key_less (map sn_key (pre @ post))"
    using ok pp(3) by simp
  have keys: "key \<notin> sn_key ` set pre"
    using pre key_less_irrefl by (metis imageE)
  let ?fresh = "\<lparr>sn_key = key, sn_ppa = UINT32_MAX, sn_value = Some (lsm_pieces len), sn_isvalid = deletef\<rparr>"
  have fresh: "node_ok ?fresh"
    using assms(2,3) len by (simp add: node_ok_def)
  show ?thesis
  proof (cases "post = [] \<or> sn_key (hd post) \<noteq> key")
    case True
    have post: "\<forall>x \<in> set post. key_less key (sn_key x)"
    proof (cases post)
      case (Cons n rest)
      then show ?thesis
        using sorted_split [OF _ pp(2) [unfolded Cons]] ok True by auto
    qed simp
    let ?l' = "l\<lparr>mt_nodes := pre @ ?fresh # post, mt_size := mt_size l + 1, mt_all_length := mt_all_length l + KEYLEN key,
      mt_data_size := mt_data_size l + of_nat (lsm_pieces len * LSM_PIECE)\<rparr>"
    have eq: "lsm_skiplist_insert l key (Some len) deletef = Some (False, ?l')"
      using True assms(2) key unfolding lsm_skiplist_insert_def pp(1,2) by (cases post) (auto simp: Let_def)
    have absent: "key \<notin> sn_key ` set post"
      using post key_less_irrefl by (metis imageE)
    have sorted: "sorted_wrt key_less (map sn_key (pre @ ?fresh # post))"
      using sp pre post key_less_trans by (auto simp: sorted_wrt_append)
    have sums: "length (mt_nodes l) = length pre + length post" "keylens (mt_nodes l) = keylens pre + keylens post"
      by (simp_all add: pp(3))
    have all: "\<forall>n \<in> set pre \<union> set post. node_ok n"
      using ok pp(3) by auto
    have "mem_ok ?l'"
      using ok sorted sums all fresh by (auto simp: mem_ok_def)
    moreover have "sn_key ` set (mt_nodes ?l') = insert key (sn_key ` set (mt_nodes l))"
      by (auto simp: pp(3))
    moreover have "key \<notin> sn_key ` set (mt_nodes l)"
      using keys absent by (auto simp: pp(3))
    moreover have "node_map (mt_nodes ?l') = (node_map (mt_nodes l))(key \<mapsto> lsm_pieces len)"
      unfolding pp(3) using keys node_map_middle [of ?fresh pre post] absent by (auto simp: fun_eq_iff)
    ultimately show ?thesis
      unfolding eq by simp
  next
    case False
    then obtain n rest where post: "post = n # rest" "sn_key n = key"
      by (cases post) auto
    have n: "n \<in> set (mt_nodes l)" "set rest \<subseteq> set (mt_nodes l)"
      using post(1) by (auto simp: pp(3))
    then obtain v where v: "sn_value n = Some v"
      using ok by (auto simp: node_ok_def)
    let ?n = "n\<lparr>sn_value := Some (lsm_pieces len), sn_isvalid := deletef\<rparr>"
    let ?l' = "l\<lparr>mt_nodes := pre @ ?n # rest,
      mt_data_size := mt_data_size l - of_nat (v * LSM_PIECE) + of_nat (lsm_pieces len * LSM_PIECE)\<rparr>"
    have eq: "lsm_skiplist_insert l key (Some len) deletef = Some (True, ?l')"
      using post v unfolding lsm_skiplist_insert_def pp(1,2) by (simp add: Let_def)
    have ns': "mt_nodes l = pre @ n # rest"
      using pp(3) post(1) by simp
    have sorted: "sorted_wrt key_less (map sn_key (pre @ ?n # rest))"
      using ok ns' by simp
    have sums: "length (mt_nodes l) = length pre + length rest + 1" "keylens (mt_nodes l) = keylens pre + KEYLEN key + keylens rest"
      by (simp_all add: ns' post(2))
    have all: "\<forall>m \<in> set pre \<union> set rest. node_ok m"
      using ok ns' by auto
    have nok: "node_ok ?n"
      using assms(2,3) len post(2) by (simp add: node_ok_def)
    have "mem_ok ?l'"
      using ok sorted sums all nok post(2) by (auto simp: mem_ok_def)
    moreover have "sn_key ` set (mt_nodes ?l') = insert key (sn_key ` set (mt_nodes l))"
      by (auto simp: ns' post(2))
    moreover have "key \<in> sn_key ` set (mt_nodes l)"
      using n(1) post(2) by auto
    moreover have "node_map (mt_nodes ?l') = (node_map (mt_nodes l))(key \<mapsto> lsm_pieces len)"
      unfolding ns' using keys post(2) node_map_middle [of ?n pre rest] node_map_middle [of n pre rest] by (auto simp: fun_eq_iff)
    ultimately show ?thesis
      unfolding eq by simp
  qed
qed

section \<open>What is cut fits a page\<close>

lemma cut_loop_bound:
  assumes "len < size_limit" "\<forall>n \<in> set ns. length (sn_key n) < UINT8_MAX" "ns \<noteq> [] \<longrightarrow> len + KEYLEN (sn_key (hd ns)) < size_limit" "idx < num_limit"
    "cut_loop len idx ns = (idx', len')"
  shows "\<exists>k \<le> length ns. idx' = idx + k \<and> len' = len + keylens (take k ns) \<and> len' < size_limit \<and> idx' \<le> num_limit \<and> (ns \<noteq> [] \<longrightarrow> 0 < k)"
  using assms
proof (induction ns arbitrary: len idx)
  case (Cons n ns)
  let ?len = "len + KEYLEN (sn_key n)"
  let ?following = "case ns of [] \<Rightarrow> KEYLEN lsm_key_max | m # _ \<Rightarrow> KEYLEN (sn_key m)"
  show ?case
  proof (cases "?len + ?following \<ge> size_limit \<or> idx + 1 \<ge> num_limit")
    case True
    then have "idx' = idx + 1" "len' = ?len"
      using Cons.prems(5) by (auto simp: Let_def split: if_splits)
    then show ?thesis
      using Cons.prems(3,4) by (intro exI [of _ 1]) simp
  next
    case False
    then have rec: "cut_loop ?len (idx + 1) ns = (idx', len')" "idx + 1 < num_limit"
      using Cons.prems(5) by (auto simp: Let_def split: if_splits)
    moreover have "ns \<noteq> [] \<longrightarrow> ?len + KEYLEN (sn_key (hd ns)) < size_limit"
      using False by (cases ns) auto
    ultimately obtain k where "k \<le> length ns" "idx' = idx + 1 + k" "len' = ?len + keylens (take k ns)" "len' < size_limit" "idx' \<le> num_limit"
      using Cons.IH [of ?len "idx + 1"] Cons.prems(2,3) by auto
    then show ?thesis
      by (intro exI [of _ "Suc k"]) simp
  qed
qed simp

abbreviation node_entries :: "lsm_snode list \<Rightarrow> entries" where
  "node_entries ns \<equiv> map (\<lambda>n. (sn_key n, sn_ppa n)) ns"

lemma bytes_node_entries: "bytes (node_entries ns) = keylens ns"
  by (induction ns) auto

text \<open>A cut splits the list in two, and the first part fits a metadata page.\<close>

lemma lsm_cutting_header_ok:
  assumes "mem_ok l" "lsm_cutting_header garbage l = Some (c, r)"
  shows "mt_nodes l = mt_nodes c @ mt_nodes r" "mem_ok c" "mem_ok r" "mt_nodes c \<noteq> []"
    "length (mt_nodes c) \<le> 510" "keylens (mt_nodes c) < 3072"
proof -
  note ok = assms(1) [unfolded mem_ok_def]
  obtain idx len where cut: "cut_loop 0 0 (mt_nodes l) = (idx, len)"
    by fastforce
  have c: "c = \<lparr>mt_nodes = take idx (mt_nodes l), mt_size = idx, mt_all_length = len, mt_data_size = garbage\<rparr>"
    "r = l\<lparr>mt_nodes := drop idx (mt_nodes l), mt_size := mt_size l - idx, mt_all_length := mt_all_length l - len\<rparr>"
    and big: "size_limit \<le> mt_all_length l \<or> num_limit \<le> mt_size l"
    using assms(2) cut by (auto simp: lsm_cutting_header_def split: if_splits)
  have ne: "mt_nodes l \<noteq> []"
    using big ok by (auto simp: size_limit_def num_limit_def KEYBITMAP_def PAGESIZE_def)
  have short: "\<forall>n \<in> set (mt_nodes l). length (sn_key n) < UINT8_MAX"
    using ok by (simp add: node_ok_def)
  have first: "mt_nodes l \<noteq> [] \<longrightarrow> 0 + KEYLEN (sn_key (hd (mt_nodes l))) < size_limit"
  proof
    assume "mt_nodes l \<noteq> []"
    then have "length (sn_key (hd (mt_nodes l))) < UINT8_MAX"
      using short by simp
    then show "0 + KEYLEN (sn_key (hd (mt_nodes l))) < size_limit"
      by (simp add: UINT8_MAX_def size_limit_def KEYBITMAP_def PAGESIZE_def)
  qed
  have "0 < size_limit" "0 < num_limit"
    by (simp_all add: size_limit_def num_limit_def KEYBITMAP_def PAGESIZE_def)
  from cut_loop_bound [OF this(1) short first this(2) cut] ne obtain
    k: "idx \<le> length (mt_nodes l)" "len = keylens (take idx (mt_nodes l))" "len < size_limit" "idx \<le> num_limit" "0 < idx"
    by auto
  note ns = append_take_drop_id [of idx "mt_nodes l", symmetric]
  show "mt_nodes l = mt_nodes c @ mt_nodes r"
    by (simp add: c)
  have "sorted_wrt key_less (map sn_key (take idx (mt_nodes l)) @ map sn_key (drop idx (mt_nodes l)))"
    using ok by (simp flip: map_append)
  then have sorted: "sorted_wrt key_less (map sn_key (take idx (mt_nodes l)))" "sorted_wrt key_less (map sn_key (drop idx (mt_nodes l)))"
    by (auto simp: sorted_wrt_append)
  have "keylens (mt_nodes l) = keylens (take idx (mt_nodes l)) + keylens (drop idx (mt_nodes l))"
    by (subst ns) (simp del: append_take_drop_id)
  then show "mem_ok c" "mem_ok r"
    using ok k sorted in_set_takeD in_set_dropD by (fastforce simp: mem_ok_def c)+
  show "mt_nodes c \<noteq> []"
    using k ne by (simp add: c)
  show "length (mt_nodes c) \<le> 510" "keylens (mt_nodes c) < 3072"
    using k by (simp_all add: c size_limit_def num_limit_def KEYBITMAP_def PAGESIZE_def)
qed

section \<open>Where the values go\<close>

lemma handed_out_oob [simp]: "handed_out (p, b\<lparr>lb_oob := f\<rparr>) t n = handed_out (p, b) t n"
  by (simp add: handed_out_def filling_def)

lemma piece_never_marked [simp]: "\<not> piece_marked_invalid b a"
  by (simp add: piece_marked_invalid_def)

lemma data_page_bound: "n < partition_pages t \<Longrightarrow> nth_page t n < NOP * PIECE_PER_PAGE"
  using nth_page_bound [of n t] by (simp add: NOP_val PPS_val PIECE_PER_PAGE_def PAGESIZE_val)

text \<open>The state of the allocator: \<open>n\<close> data pages are gone, and nothing changes for the metadata.\<close>

definition alloc_step :: "alloc \<Rightarrow> alloc \<Rightarrow> nat \<Rightarrow> bool" where
  "alloc_step st st' n \<longleftrightarrow> handed_out st' DATA n \<and> (\<forall>m. handed_out st MAP m \<longrightarrow> handed_out st' MAP m)"

lemma alloc_step_trans: "alloc_step st st1 n \<Longrightarrow> alloc_step st1 st2 m \<Longrightarrow> alloc_step st st2 m"
  by (simp add: alloc_step_def)

lemma get_data_page:
  assumes "handed_out st DATA n" "n < partition_pages DATA"
  obtains st' where "lsm_get_page DATA st = Some (nth_page DATA n, st')" "alloc_step st st' (n + 1)"
proof -
  obtain p b where st: "st = (p, b)"
    by (cases st)
  from lsm_get_page_next [OF assms(1) [unfolded st] assms(2)] obtain p' b' where
    "lsm_get_page DATA (p, b) = Some (nth_page DATA n, p', b')" "handed_out (p', b') DATA (n + 1)"
    "\<forall>u m. u \<noteq> DATA \<longrightarrow> handed_out (p, b) u m \<longrightarrow> handed_out (p', b') u m"
    by (auto elim!: returnsE)
  then show thesis
    by (intro that [of "(p', b')"]) (auto simp: st alloc_step_def)
qed

lemma set_oob_ok:
  assumes "a < NOP * PIECE_PER_PAGE" "handed_out st DATA n"
  obtains st' where "set_oob a len st = Some st'" "alloc_step st st' n"
  using assms by (cases st) (auto simp: set_oob_def alloc_step_def)

text \<open>Whole pages.\<close>

definition placed :: "(str_key \<Rightarrow> nat option) \<Rightarrow> lsm_snode \<Rightarrow> lsm_snode" where
  "placed m x = (case m (sn_key x) of None \<Rightarrow> x | Some i \<Rightarrow> x\<lparr>sn_ppa := nth_page DATA i, sn_value := None\<rparr>)"

lemma place_pages_placed:
  assumes "distinct keys" "handed_out st DATA n" "n + length keys \<le> partition_pages DATA"
  shows "returns (place_pages keys ns st) (\<lambda>(ppas, ns', st'). ppas = map (nth_page DATA) [n..<n + length keys] \<and>
    ns' = map (placed (map_of (zip keys [n..<n + length keys]))) ns \<and> alloc_step st st' (n + length keys))"
  using assms
proof (induction keys arbitrary: ns st n)
  case Nil
  then show ?case
    by (simp add: alloc_step_def placed_def)
next
  case (Cons key keys)
  have room: "n < partition_pages DATA"
    using Cons.prems(3) by simp
  obtain st1 where st1: "lsm_get_page DATA st = Some (nth_page DATA n, st1)" "alloc_step st st1 (n + 1)"
    using get_data_page [OF Cons.prems(2) room] by blast
  let ?ns = "drop_value key (set_ppa key (nth_page DATA n) ns)"
  obtain ns2 st2 where rec: "place_pages keys ?ns st1 = Some (map (nth_page DATA) [Suc n..<Suc n + length keys], ns2, st2)"
    "ns2 = map (placed (map_of (zip keys [Suc n..<Suc n + length keys]))) ?ns" "alloc_step st1 st2 (Suc n + length keys)"
    using Cons.IH [of st1 "Suc n" ?ns] Cons.prems st1(2) by (auto simp: alloc_step_def elim!: returnsE)
  have upt: "[n..<n + length (key # keys)] = n # [Suc n..<Suc n + length keys]"
    using upt_conv_Cons [of n "n + length (key # keys)"] by (simp del: upt_Suc)
  have none: "map_of (zip keys [Suc n..<Suc n + length keys]) key = None"
    using Cons.prems(1) by (simp add: map_of_zip_is_None)
  have "ns2 = map (placed (map_of (zip (key # keys) [n..<n + length (key # keys)]))) ns"
    unfolding rec(2) upt drop_value_def set_ppa_def map_map using none by (auto simp: placed_def)
  moreover have "place_pages (key # keys) ns st = Some (map (nth_page DATA) [n..<n + length (key # keys)], ns2, st2)"
    unfolding upt using st1(1) rec(1) data_page_bound [OF room] by simp
  moreover have "alloc_step st st2 (n + length (key # keys))"
    using alloc_step_trans [OF st1(2) rec(3)] by simp
  ultimately show ?case
    by (simp del: upt_Suc)
qed

text \<open>Smaller values: every node of the buckets gets page 0.\<close>

definition bucket_keys :: "l_bucket \<Rightarrow> str_key set" where
  "bucket_keys b = (\<Union>i \<in> {0..PIECE_PER_PAGE}. set (b i))"

definition bucket_count :: "l_bucket \<Rightarrow> nat" where
  "bucket_count b = (\<Sum>i \<in> {0..PIECE_PER_PAGE}. length (b i))"

definition zeroed :: "str_key set \<Rightarrow> lsm_snode list \<Rightarrow> lsm_snode list" where
  "zeroed K = map (\<lambda>x. if sn_key x \<in> K then x\<lparr>sn_ppa := 0\<rparr> else x)"

lemma zeroed_zeroed: "zeroed A (zeroed B ns) = zeroed (A \<union> B) ns"
  by (auto simp: zeroed_def)

lemma set_ppa_zeroed: "set_ppa k 0 ns = zeroed {k} ns"
  by (auto simp: set_ppa_def zeroed_def)

lemma longest_spec:
  "0 < longest b n \<Longrightarrow> b (longest b n) \<noteq> [] \<and> longest b n \<le> n"
  "longest b n = 0 \<Longrightarrow> 0 < i \<Longrightarrow> i \<le> n \<Longrightarrow> b i = []"
  by (induction n) (auto simp: le_Suc_eq split: if_splits)

lemma bucket_pop:
  assumes "b l \<noteq> []" "l \<le> PIECE_PER_PAGE"
  shows "bucket_keys b = insert (last (b l)) (bucket_keys (b(l := butlast (b l))))"
    "bucket_count b = Suc (bucket_count (b(l := butlast (b l))))"
proof -
  have l: "l \<in> {0..PIECE_PER_PAGE}"
    using assms(2) by simp
  have keys: "bucket_keys c = set (c l) \<union> (\<Union>i \<in> {0..PIECE_PER_PAGE} - {l}. set (c i))" for c
    unfolding bucket_keys_def using l by blast
  have count: "bucket_count c = length (c l) + (\<Sum>i \<in> {0..PIECE_PER_PAGE} - {l}. length (c i))" for c
    unfolding bucket_count_def using l by (simp add: sum.remove)
  have set: "set (b l) = insert (last (b l)) (set (butlast (b l)))"
    using append_butlast_last_id [OF assms(1)] by (metis list.simps(15) rotate1.simps(2) set_rotate1)
  have len: "length (b l) = Suc (length (butlast (b l)))"
    using assms(1) by simp
  show "bucket_keys b = insert (last (b l)) (bucket_keys (b(l := butlast (b l))))"
    unfolding keys set by simp
  show "bucket_count b = Suc (bucket_count (b(l := butlast (b l))))"
    unfolding count len by simp
qed

lemma fill_page_zeroed:
  assumes "handed_out st DATA n" "max_piece \<le> PIECE_PER_PAGE"
  shows "returns (fill_page max_piece remain b ns st) (\<lambda>(b', ns', st'). alloc_step st st' n \<and>
    (\<exists>K. ns' = zeroed K ns \<and> bucket_keys b = K \<union> bucket_keys b') \<and> bucket_count b' \<le> bucket_count b \<and>
    (0 < longest b (min remain max_piece) \<longrightarrow> bucket_count b' < bucket_count b) \<and> (\<forall>i. set (b' i) \<subseteq> set (b i)))"
  using assms(1)
proof (induction remain arbitrary: b ns st rule: less_induct)
  case (less remain)
  let ?l = "longest b (min remain max_piece)"
  show ?case
  proof (cases "remain = 0 \<or> ?l = 0")
    case True
    then have "fill_page max_piece remain b ns st = Some (b, ns, st)"
      by (subst fill_page.simps) (simp add: Let_def)
    then show ?thesis
      using less.prems True by (auto simp: alloc_step_def zeroed_def intro!: exI [of _ "{}"])
  next
    case False
    then have l: "b ?l \<noteq> []" "?l \<le> min remain max_piece" "?l \<le> PIECE_PER_PAGE"
      using longest_spec(1) [of b "min remain max_piece"] assms(2) by auto
    obtain st1 where st1: "set_oob 0 ?l st = Some st1" "alloc_step st st1 n"
      using set_oob_ok [OF _ less.prems, of 0 ?l] by (auto simp: NOP_val PIECE_PER_PAGE_def PAGESIZE_val)
    let ?b = "b(?l := butlast (b ?l))" and ?ns = "set_ppa (last (b ?l)) 0 ns"
    have "remain - ?l < remain" "handed_out st1 DATA n"
      using False st1(2) by (auto simp: alloc_step_def)
    from less.IH [OF this, of ?b ?ns] obtain r where r: "fill_page max_piece (remain - ?l) ?b ?ns st1 = Some r"
      "(\<lambda>(b', ns', st'). alloc_step st1 st' n \<and> (\<exists>K. ns' = zeroed K ?ns \<and> bucket_keys ?b = K \<union> bucket_keys b') \<and>
        bucket_count b' \<le> bucket_count ?b \<and> (0 < longest ?b (min (remain - ?l) max_piece) \<longrightarrow> bucket_count b' < bucket_count ?b) \<and>
        (\<forall>i. set (b' i) \<subseteq> set (?b i))) r"
      by (rule returnsE)
    then obtain b' ns' st' K where rec: "fill_page max_piece (remain - ?l) ?b ?ns st1 = Some (b', ns', st')"
      "alloc_step st1 st' n" "ns' = zeroed K ?ns" "bucket_keys ?b = K \<union> bucket_keys b'" "bucket_count b' \<le> bucket_count ?b"
      "\<forall>i. set (b' i) \<subseteq> set (?b i)"
      by (cases r) blast
    have eq: "fill_page max_piece remain b ns st = Some (b', ns', st')"
      using False st1(1) rec(1) by (subst fill_page.simps) (simp add: Let_def)
    have K: "ns' = zeroed (insert (last (b ?l)) K) ns" "bucket_keys b = insert (last (b ?l)) K \<union> bucket_keys b'"
      using rec(3,4) bucket_pop(1) [of b ?l] l by (auto simp: set_ppa_zeroed zeroed_zeroed)
    have subs: "\<forall>i. set (b' i) \<subseteq> set (b i)"
    proof
      fix i
      have "set (?b i) \<subseteq> set (b i)"
        by (auto dest: in_set_butlastD)
      then show "set (b' i) \<subseteq> set (b i)"
        using rec(6) by blast
    qed
    show ?thesis
      using eq K rec(5) subs bucket_pop(2) [of b ?l] l alloc_step_trans [OF st1(2) rec(2)] by auto
  qed
qed

lemma buckets_empty_iff: "buckets_empty b \<longleftrightarrow> bucket_keys b = {}"
  by (auto simp: buckets_empty_def bucket_keys_def)

lemma bucket_count_pos: "bucket_keys b \<noteq> {} \<Longrightarrow> 0 < bucket_count b"
  by (auto simp: bucket_keys_def bucket_count_def sum_eq_0_iff simp flip: neq0_conv)

text \<open>Only lengths from 1 to the longest one are left.\<close>

definition only_upto :: "nat \<Rightarrow> l_bucket \<Rightarrow> bool" where
  "only_upto m b \<longleftrightarrow> b 0 = [] \<and> (\<forall>i > m. b i = [])"

lemma value2page_loop_zeroed:
  assumes "handed_out st DATA n" "only_upto max_piece b" "bucket_keys b \<noteq> {}" "max_piece \<le> PIECE_PER_PAGE" "n + bucket_count b \<le> partition_pages DATA"
  shows "returns (value2page_loop max_piece b ns st) (\<lambda>(ns', st'). ns' = zeroed (bucket_keys b) ns \<and> (\<exists>m \<le> n + bucket_count b. alloc_step st st' m))"
  using assms(1-3,5)
proof (induction "bucket_count b" arbitrary: b ns st n rule: less_induct)
  case less
  have pos: "0 < bucket_count b"
    using bucket_count_pos [OF less.prems(3)] .
  then have room: "n < partition_pages DATA"
    using less.prems(4) by simp
  obtain st1 where st1: "lsm_get_page DATA st = Some (nth_page DATA n, st1)" "alloc_step st st1 (n + 1)"
    using get_data_page [OF less.prems(1) room] by blast
  obtain st2 where st2: "set_oob (nth_page DATA n) max_piece st1 = Some st2" "alloc_step st1 st2 (n + 1)"
    using set_oob_ok [OF data_page_bound [OF room], of st1 "n + 1" max_piece] st1(2) by (auto simp: alloc_step_def)
  have "0 < longest b (min PIECE_PER_PAGE max_piece)"
  proof (rule ccontr)
    assume "\<not> ?thesis"
    then have "b i = []" for i
      using longest_spec(2) [of b "min PIECE_PER_PAGE max_piece" i] less.prems(2) assms(4)
      by (cases "i = 0"; cases "i \<le> max_piece") (auto simp: only_upto_def)
    then show False
      using less.prems(3) by (simp add: bucket_keys_def)
  qed
  moreover have h2: "handed_out st2 DATA (n + 1)"
    using st2(2) by (simp add: alloc_step_def)
  ultimately obtain b' ns' st3 K where f: "fill_page max_piece PIECE_PER_PAGE b ns st2 = Some (b', ns', st3)" "alloc_step st2 st3 (n + 1)"
    "ns' = zeroed K ns" "bucket_keys b = K \<union> bucket_keys b'" "bucket_count b' < bucket_count b" "\<forall>i. set (b' i) \<subseteq> set (b i)"
    using fill_page_zeroed [OF h2 assms(4), of PIECE_PER_PAGE b ns] by (auto elim!: returnsE)
  note steps = alloc_step_trans [OF alloc_step_trans [OF st1(2) st2(2)] f(2)]
  have eq: "value2page_loop max_piece b ns st = (if buckets_empty b' then Some (ns', st3) else value2page_loop max_piece b' ns' st3)"
    using st1(1) st2(1) f(1) by (subst value2page_loop.simps) simp
  show ?case
  proof (cases "buckets_empty b'")
    case True
    then show ?thesis
      using eq f(3,4) steps pos by (auto simp: buckets_empty_iff intro!: exI [of _ "n + 1"])
  next
    case False
    have up: "only_upto max_piece b'"
      using less.prems(2) f(6) by (metis only_upto_def set_empty subset_empty)
    have "returns (value2page_loop max_piece b' ns' st3) (\<lambda>(ns'', st'). ns'' = zeroed (bucket_keys b') ns' \<and> (\<exists>m \<le> n + 1 + bucket_count b'. alloc_step st3 st' m))"
      using False f(2,5) up less.prems(4) by (intro less.hyps [of b' st3 "n + 1"]) (auto simp: alloc_step_def buckets_empty_iff)
    then obtain st' m where "value2page_loop max_piece b' ns' st3 = Some (zeroed (bucket_keys b') ns', st')" "alloc_step st3 st' m"
        "m \<le> n + 1 + bucket_count b'"
      by (auto elim!: returnsE)
    moreover have "alloc_step st st' m"
      using alloc_step_trans [OF steps] calculation(2) .
    moreover have "m \<le> n + bucket_count b"
      using calculation(3) f(5) by simp
    ultimately show ?thesis
      using False eq f(3,4) by (auto simp: zeroed_zeroed Un_commute)
  qed
qed

text \<open>The whole placement: a value of a page gets the next page, every other value page 0.\<close>

abbreviation whole_page :: "lsm_snode \<Rightarrow> bool" where
  "whole_page x \<equiv> sn_value x = Some PIECE_PER_PAGE"

definition node_page :: "nat \<Rightarrow> lsm_snode list \<Rightarrow> nat \<Rightarrow> ppa_t" where
  "node_page n ns i = (if whole_page (ns ! i) then nth_page DATA (n + length (filter whole_page (take i ns))) else 0)"

lemma filter_rank:
  assumes "i < length ns" "P (ns ! i)"
  shows "length (filter P (take i ns)) < length (filter P ns)" "filter P ns ! length (filter P (take i ns)) = ns ! i"
proof -
  have "filter P ns = filter P (take i ns) @ ns ! i # filter P (drop (Suc i) ns)"
    using id_take_nth_drop [OF assms(1)] assms(2) by (metis filter.simps(2) filter_append)
  then show "length (filter P (take i ns)) < length (filter P ns)" "filter P ns ! length (filter P (take i ns)) = ns ! i"
    by simp_all
qed

lemma filter_rank_less:
  assumes "i < j" "j < length ns" "P (ns ! i)"
  shows "length (filter P (take i ns)) < length (filter P (take j ns))"
  using filter_rank(1) [of i "take j ns" P] assms by simp

lemma longest_max: "i \<le> n \<Longrightarrow> longest b n < i \<Longrightarrow> b i = []"
  by (induction n) (auto simp: le_Suc_eq split: if_splits)

lemma sorted_keys_distinct: "sorted_wrt key_less (map sn_key ns) \<Longrightarrow> distinct (map sn_key ns)"
  by (induction ns) auto

lemma bucket_count_nodes:
  assumes "\<forall>x \<in> set ns. node_ok x"
  shows "bucket_count (\<lambda>v. map sn_key (filter (\<lambda>x. sn_value x = Some v) ns)) = length ns"
  using assms
proof (induction ns)
  case (Cons x ns)
  obtain v where v: "sn_value x = Some v" "v \<le> PIECE_PER_PAGE"
    using Cons.prems by (auto simp: node_ok_def)
  have "bucket_count (\<lambda>w. map sn_key (filter (\<lambda>x. sn_value x = Some w) (x # ns))) =
      (\<Sum>w \<in> {0..PIECE_PER_PAGE}. (if w = v then 1 else 0) + length (filter (\<lambda>x. sn_value x = Some w) ns))"
    unfolding bucket_count_def by (rule sum.cong) (auto simp: v(1))
  also have "\<dots> = 1 + bucket_count (\<lambda>w. map sn_key (filter (\<lambda>x. sn_value x = Some w) ns))"
    using v(2) by (simp add: sum.distrib bucket_count_def)
  finally show ?case
    using Cons by simp
qed (simp add: bucket_count_def)

lemma make_valueset_nodes:
  assumes "mem_ok l" "handed_out st DATA n" "n + 2 * length (mt_nodes l) \<le> partition_pages DATA"
  shows "returns (skiplist_make_valueset l st) (\<lambda>(vs, l', st').
    vs_pages vs = map (nth_page DATA) [n..<n + length (filter whole_page (mt_nodes l))] \<and>
    map sn_key (mt_nodes l') = map sn_key (mt_nodes l) \<and> map sn_ppa (mt_nodes l') = map (node_page n (mt_nodes l)) [0..<length (mt_nodes l)] \<and>
    mt_size l' = mt_size l \<and> vs_start vs = (case mt_nodes l of [] \<Rightarrow> None | x # _ \<Rightarrow> Some (sn_key x)) \<and>
    vs_end vs = (if 1 < length (mt_nodes l) then Some (sn_key (last (mt_nodes l))) else None) \<and> (\<exists>m \<le> n + 2 * length (mt_nodes l). alloc_step st st' m))"
proof -
  note ok = assms(1) [unfolded mem_ok_def]
  let ?ns = "mt_nodes l" and ?whole = "filter whole_page (mt_nodes l)"
  define b where "b = (\<lambda>v. map sn_key (filter (\<lambda>x. sn_value x = Some v) ?ns))"
  have fb: "fill_buckets ?ns = Some b"
    using ok by (auto simp: fill_buckets_def b_def node_ok_def)
  have dist: "distinct (map sn_key ?ns)"
    using ok sorted_keys_distinct by blast
  have keys: "b PIECE_PER_PAGE = map sn_key ?whole"
    by (simp add: b_def)
  have dw: "distinct (map sn_key ?whole)" "length ?whole \<le> length ?ns"
    using dist by (simp_all add: distinct_map_filter)
  have two: "length ?whole \<le> 2 * length ?ns"
    using dw(2) by linarith
  define m where "m = map_of (zip (map sn_key ?whole) [n..<n + length (map sn_key ?whole)])"
  obtain st1 where p: "place_pages (b PIECE_PER_PAGE) ?ns st = Some (map (nth_page DATA) [n..<n + length ?whole], map (placed m) ?ns, st1)"
    "alloc_step st st1 (n + length ?whole)"
    using place_pages_placed [OF dw(1) assms(2), of ?ns] assms(3) dw(2) unfolding keys m_def by (auto elim!: returnsE)
  define b1 where "b1 = b(PIECE_PER_PAGE := [])"
  have b1: "b1 i = (if i = PIECE_PER_PAGE then [] else map sn_key (filter (\<lambda>x. sn_value x = Some i) ?ns))" for i
    by (simp add: b1_def b_def)
  have m: "m (sn_key (?ns ! i)) = (if whole_page (?ns ! i) then Some (n + length (filter whole_page (take i ?ns))) else None)" if i: "i < length ?ns" for i
  proof (cases "whole_page (?ns ! i)")
    case True
    note r = filter_rank [of i ?ns whole_page, OF i True]
    have "m (map sn_key ?whole ! length (filter whole_page (take i ?ns))) = Some ([n..<n + length (map sn_key ?whole)] ! length (filter whole_page (take i ?ns)))"
      unfolding m_def using dw(1) r(1) by (intro map_of_zip_nth) simp_all
    then show ?thesis
      using True r by simp
  next
    case False
    have "sn_key (?ns ! i) \<notin> sn_key ` set ?whole"
    proof
      assume "sn_key (?ns ! i) \<in> sn_key ` set ?whole"
      then obtain y where y: "y \<in> set ?ns" "whole_page y" "sn_key y = sn_key (?ns ! i)"
        by auto
      then have "y = ?ns ! i"
        using dist i by (metis inj_onD distinct_map nth_mem)
      then show False
        using y False by simp
    qed
    then show ?thesis
      using False by (simp add: m_def map_of_zip_is_None)
  qed
  have small: "sn_key (?ns ! i) \<in> bucket_keys b1 \<longleftrightarrow> \<not> whole_page (?ns ! i)" if i: "i < length ?ns" for i
  proof
    assume "sn_key (?ns ! i) \<in> bucket_keys b1"
    then obtain y v where y: "y \<in> set ?ns" "sn_value y = Some v" "v \<noteq> PIECE_PER_PAGE" "sn_key y = sn_key (?ns ! i)"
      by (auto simp: bucket_keys_def b1 split: if_splits)
    then have "y = ?ns ! i"
      using dist i by (metis inj_onD distinct_map nth_mem)
    then show "\<not> whole_page (?ns ! i)"
      using y by simp
  next
    assume "\<not> whole_page (?ns ! i)"
    moreover have "node_ok (?ns ! i)"
      using ok i by simp
    then obtain v where "sn_value (?ns ! i) = Some v" "v \<le> PIECE_PER_PAGE"
      unfolding node_ok_def by blast
    ultimately show "sn_key (?ns ! i) \<in> bucket_keys b1"
      using i by (auto simp: bucket_keys_def b1 intro!: bexI [of _ v])
  qed
  let ?ns2 = "zeroed (bucket_keys b1) (map (placed m) ?ns)"
  have res: "map sn_key ?ns2 = map sn_key ?ns" "map sn_ppa ?ns2 = map (node_page n ?ns) [0..<length ?ns]"
  proof -
    show "map sn_key ?ns2 = map sn_key ?ns"
      by (auto simp: zeroed_def placed_def split: option.splits)
    show "map sn_ppa ?ns2 = map (node_page n ?ns) [0..<length ?ns]"
    proof (rule nth_equalityI)
      fix i assume "i < length (map sn_ppa ?ns2)"
      then have i: "i < length ?ns"
        by (simp add: zeroed_def)
      have "sn_key (placed m (?ns ! i)) = sn_key (?ns ! i)"
        by (simp add: placed_def split: option.split)
      then show "map sn_ppa ?ns2 ! i = map (node_page n ?ns) [0..<length ?ns] ! i"
        using m [OF i] small [OF i] i by (cases "whole_page (?ns ! i)") (simp_all add: zeroed_def placed_def node_page_def)
    qed (simp add: zeroed_def)
  qed
  let ?vs = "\<lparr>vs_pages = map (nth_page DATA) [n..<n + length ?whole],
    vs_start = (case ?ns of [] \<Rightarrow> None | x # _ \<Rightarrow> Some (sn_key x)),
    vs_end = (if 1 < length ?ns then Some (sn_key (last ?ns)) else None)\<rparr>"
  have vs: "(if 1 < mt_size l \<and> mt_size l \<le> length ?ns then Some (sn_key (?ns ! (mt_size l - 1))) else None) = vs_end ?vs"
    using ok by (cases "?ns = []") (auto simp: last_conv_nth)
  have eq: "skiplist_make_valueset l st = (if \<forall>i \<in> {1..PIECE_PER_PAGE}. b1 i = [] then Some (?vs, l\<lparr>mt_nodes := map (placed m) ?ns\<rparr>, st1)
      else Option.bind (variable_value2Page b1 (map (placed m) ?ns) st1) (\<lambda>(ns2, st2). Some (?vs, l\<lparr>mt_nodes := ns2\<rparr>, st2)))"
    using fb p(1) vs unfolding skiplist_make_valueset_def b1_def by (simp add: Let_def)
  have b0: "b1 0 = []"
    using ok by (auto simp: b1 filter_empty_conv node_ok_def)
  show ?thesis
  proof (cases "\<forall>i \<in> {1..PIECE_PER_PAGE}. b1 i = []")
    case True
    then have "bucket_keys b1 = {}"
      using b0 by (auto simp: bucket_keys_def Suc_le_eq)
    then have "?ns2 = map (placed m) ?ns"
      by (simp add: zeroed_def)
    then show ?thesis
      unfolding eq using True res p(2) two by (auto intro!: exI [of _ "n + length ?whole"])
  next
    case False
    let ?mp = "longest b1 (PIECE_PER_PAGE - 1)"
    obtain i where i: "1 \<le> i" "i < PIECE_PER_PAGE" "b1 i \<noteq> []"
      using False by (auto simp: b1 split: if_splits)
    have "i \<le> PIECE_PER_PAGE - 1"
      using i(2) by linarith
    then have mp: "0 < ?mp"
      using longest_spec(2) [of b1 "PIECE_PER_PAGE - 1" i] i by (cases "?mp = 0") auto
    have "only_upto ?mp b1"
      unfolding only_upto_def
    proof (intro conjI allI impI)
      fix i assume "?mp < i"
      show "b1 i = []"
      proof (cases "i \<le> PIECE_PER_PAGE - 1")
        case False
        then show ?thesis
          using ok by (auto simp: b1 filter_empty_conv node_ok_def)
      qed (use longest_max \<open>?mp < i\<close> in blast)
    qed (rule b0)
    moreover have "bucket_keys b1 \<noteq> {}"
      using i by (auto simp: bucket_keys_def intro!: bexI [of _ i])
    moreover have "?mp \<le> PIECE_PER_PAGE"
      using longest_le [of b1 "PIECE_PER_PAGE - 1"] by simp
    moreover have count: "bucket_count b1 \<le> length ?ns"
    proof -
      have "bucket_count b1 \<le> bucket_count b"
        unfolding bucket_count_def by (rule sum_mono) (simp add: b1_def)
      then show ?thesis
        using bucket_count_nodes [of ?ns] ok by (simp add: b_def)
    qed
    ultimately obtain st2 k where v: "value2page_loop ?mp b1 (map (placed m) ?ns) st1 = Some (?ns2, st2)" "alloc_step st1 st2 k"
        "k \<le> n + length ?whole + bucket_count b1"
      using value2page_loop_zeroed [of st1 "n + length ?whole" ?mp b1 "map (placed m) ?ns"] p(2) assms(3) dw(2)
      by (auto simp: alloc_step_def elim!: returnsE)
    have "variable_value2Page b1 (map (placed m) ?ns) st1 = Some (?ns2, st2)"
      using mp v(1) by (simp add: variable_value2Page_def Let_def)
    moreover have "alloc_step st st2 k"
      using alloc_step_trans [OF p(2) v(2)] .
    moreover have k_le: "k \<le> n + 2 * length ?ns"
      using v(3) count dw(2) by linarith
    ultimately show ?thesis
      unfolding eq using False res k_le by (auto intro!: exI [of _ k])
  qed
qed

section \<open>Values smaller than a page\<close>

text \<open>
  C38. Small values are lost.  \<^verbatim>\<open>skiplist_make_valueset\<close> gives every value that fills a whole page a page
  of its own, which is among those that are written and which no other such value gets, and every smaller value
  page 0, which is not among the pages that are written: in
  \<^verbatim>\<open>variable_value2Page\<close> the variable that is set to the allocated page hides the one the addresses are computed from.
\<close>

theorem small_values_on_page_zero:
  assumes "mem_ok l" "handed_out st DATA n" "n + 2 * length (mt_nodes l) \<le> partition_pages DATA"
  shows "returns (skiplist_make_valueset l st) (\<lambda>(vs, l', st'). 0 \<notin> set (vs_pages vs) \<and> distinct (vs_pages vs) \<and>
    length (mt_nodes l') = length (mt_nodes l) \<and>
    (\<forall>i < length (mt_nodes l). if sn_value (mt_nodes l ! i) = Some PIECE_PER_PAGE
      then sn_ppa (mt_nodes l' ! i) \<in> set (vs_pages vs) else sn_ppa (mt_nodes l' ! i) = 0) \<and>
    inj_on (\<lambda>i. sn_ppa (mt_nodes l' ! i)) {i. i < length (mt_nodes l) \<and> sn_value (mt_nodes l ! i) = Some PIECE_PER_PAGE})"
proof (rule returns_mono [OF make_valueset_nodes [OF assms]], clarify, intro conjI allI impI)
  let ?ns = "mt_nodes l"
  fix vs l' p b m
  assume vs: "vs_pages vs = map (nth_page DATA) [n..<n + length (filter whole_page ?ns)]"
    and keys: "map sn_key (mt_nodes l') = map sn_key ?ns" and ppas: "map sn_ppa (mt_nodes l') = map (node_page n ?ns) [0..<length ?ns]"
  show "0 \<notin> set (vs_pages vs)"
    by (auto simp: vs nth_page_def lo_sblk_def PPS_val)
  show "distinct (vs_pages vs)"
    by (auto simp: vs distinct_map inj_on_def nth_page_def)
  show len: "length (mt_nodes l') = length ?ns"
    using keys map_eq_imp_length_eq by blast
  have ppa: "sn_ppa (mt_nodes l' ! i) = node_page n ?ns i" if "i < length ?ns" for i
    using arg_cong [OF ppas, of "\<lambda>xs. xs ! i"] that len by simp
  show "if whole_page (?ns ! i) then sn_ppa (mt_nodes l' ! i) \<in> set (vs_pages vs) else sn_ppa (mt_nodes l' ! i) = 0" if "i < length ?ns" for i
    using filter_rank(1) [of i ?ns whole_page] that by (simp add: ppa node_page_def vs)
  have mono: "sn_ppa (mt_nodes l' ! i) < sn_ppa (mt_nodes l' ! j)" if "i < j" "j < length ?ns" "whole_page (?ns ! i)" "whole_page (?ns ! j)" for i j
    using filter_rank_less [of i j ?ns whole_page] that by (simp add: ppa node_page_def nth_page_def)
  show "inj_on (\<lambda>i. sn_ppa (mt_nodes l' ! i)) {i. i < length ?ns \<and> whole_page (?ns ! i)}"
  proof (rule linorder_inj_onI)
    fix i j assume "i < j" "i \<in> {i. i < length ?ns \<and> whole_page (?ns ! i)}" "j \<in> {i. i < length ?ns \<and> whole_page (?ns ! i)}"
    then show "sn_ppa (mt_nodes l' ! i) \<noteq> sn_ppa (mt_nodes l' ! j)"
      using mono [of i j] by auto
  qed auto
qed

definition small_and_page :: memtable where
  "small_and_page = \<lparr>mt_nodes = [\<lparr>sn_key = [1], sn_ppa = 0, sn_value = Some 1, sn_isvalid = False\<rparr>,
     \<lparr>sn_key = [2], sn_ppa = 0, sn_value = Some 8, sn_isvalid = False\<rparr>], mt_size = 2, mt_all_length = 10, mt_data_size = 0\<rparr>"

theorem small_values_on_page_zero_witness:
  "returns (do { st \<leftarrow> lsm_page_init (lsm_bm_init (\<lambda>_. \<lparr>po_length = 0, po_isvalid = False\<rparr>)); skiplist_make_valueset small_and_page st })
     (\<lambda>(vs, l', st'). sn_ppa (mt_nodes l' ! 0) = 0 \<and> sn_ppa (mt_nodes l' ! 1) \<in> set (vs_pages vs))"
proof -
  have mem: "mem_ok small_and_page"
    by (simp add: small_and_page_def mem_ok_def node_ok_def KEYVALCHECK_def UINT8_MAX_def PIECE_PER_PAGE_def PAGESIZE_val)
  obtain st where st: "lsm_page_init (lsm_bm_init (\<lambda>_. \<lparr>po_length = 0, po_isvalid = False\<rparr>)) = Some st" "\<forall>t. handed_out st t 0"
    by (rule returnsE [OF lsm_page_init_handed_out])
  have "0 + 2 * length (mt_nodes small_and_page) \<le> partition_pages DATA"
    by (simp add: small_and_page_def partition_pages_def lo_sblk_def hi_sblk_def PPS_val)
  from small_values_on_page_zero [OF mem spec [OF st(2)] this] show ?thesis
    unfolding st(1) bind.bind_lunit
    by (rule returns_mono) (auto simp: small_and_page_def PIECE_PER_PAGE_def PAGESIZE_val dest!: spec [of _ 0] spec [of _ "Suc 0"] split: prod.splits)
qed

end
