(* ===== verification/LsmStore.thy ===== *)
theory LsmStore
  imports LsmMem Ssd
begin

text \<open>
  The LSM-tree store: compaction of the levels (\<^verbatim>\<open>lsmtree/compaction.c\<close>,
  \<^verbatim>\<open>lsmtree/compaction_assistant.c\<close>) and the client operations (\<^verbatim>\<open>lsmtree/lsmtree.c\<close>).  The
  compaction thread is a step that takes the cut lists in order; its locks, the caching of runs that
  nothing uses and the statistics are left out.  The main result is that compaction does not change
  what the levels store.
\<close>

section \<open>State\<close>

datatype end_type = SKIP_INSERT | SKIP_MODIFY | SKIP_FLUSH | SKIP_FOUND | CASCADE_FLUSH | NO_COMPACTION | NOT_FOUND

text \<open>\<^verbatim>\<open>request\<close>: \<open>lr_params\<close> are the level and run of a continued read.\<close>

record lsm_request =
  lr_key :: str_key
  lr_value :: "nat option"
  lr_stime :: nat
  lr_etime :: nat
  lr_end_type :: end_type
  lr_params :: "(nat \<times> nat) option"

record lsm_t =
  ls_disk :: "level list"
  ls_mem :: memtable
  ls_alloc :: alloc
  ls_dev :: ssd
  ls_avg :: nat
  ls_cut :: nat
  ls_finish :: "lsm_request list"

text \<open>\<^verbatim>\<open>lsm_create\<close> with \<^verbatim>\<open>lsm_setup_params\<close>, which computes the size factor; \<open>garbage\<close> is \<^verbatim>\<open>data_size\<close>.\<close>

definition DEF_CXL_LEVEL :: nat where "DEF_CXL_LEVEL = 0"

definition lsm_create :: "u32 \<Rightarrow> (nat \<Rightarrow> piece_oob_t) \<Rightarrow> lsm_t option" where
  "lsm_create garbage oob0 = do {
     factor \<leftarrow> get_sizefactor;
     st \<leftarrow> lsm_page_init (lsm_bm_init oob0);
     Some \<lparr>ls_disk = map (\<lambda>i. (array_init (nat (ceil_power factor (Suc i))) i False)\<lparr>lv_isCXL := (i < LEVELCACHING \<and> LEVELCACHING - DEF_CXL_LEVEL \<le> i)\<rparr>)
             [0..<LEVELN],
           ls_mem = lsm_skiplist_init garbage, ls_alloc = st, ls_dev = ssd_init, ls_avg = 0, ls_cut = 0, ls_finish = []\<rparr>
   }"

text \<open>The device; an error comes back in place of the latency, and no caller looks at it.\<close>

definition latency_code :: "ssd_error + nat \<Rightarrow> nat" where
  "latency_code r = (case r of Inr l \<Rightarrow> l | Inl Out_of_order \<Rightarrow> 2 ^ 64 - 2 | Inl _ \<Rightarrow> 2 ^ 64 - 1)"

definition lsm_write :: "nat \<Rightarrow> ppa_t \<Rightarrow> lsm_t \<Rightarrow> (nat \<times> lsm_t) option" where
  "lsm_write now ppa s = do { (r, d) \<leftarrow> ssd_write_ppa now ppa PAGESIZE 0 (ls_dev s); Some (latency_code r, s\<lparr>ls_dev := d\<rparr>) }"

definition lsm_read :: "nat \<Rightarrow> ppa_t \<Rightarrow> lsm_t \<Rightarrow> (nat \<times> lsm_t) option" where
  "lsm_read now ppa s = do { (r, d) \<leftarrow> ssd_read_ppa now ppa PAGESIZE 0 (ls_dev s); Some (latency_code r, s\<lparr>ls_dev := d\<rparr>) }"

definition get_map_page :: "lsm_t \<Rightarrow> (ppa_t \<times> lsm_t) option" where
  "get_map_page s = do { (ppa, st) \<leftarrow> lsm_get_page MAP (ls_alloc s); Some (ppa, s\<lparr>ls_alloc := st\<rparr>) }"

definition CXL_DIR_LAT :: nat where "CXL_DIR_LAT = 300"

section \<open>Runs in a compaction\<close>

text \<open>
  \<^verbatim>\<open>htable_read_preproc\<close>: true for a cached run; any other gets a fresh, zeroed table.  A run without
  a page in memory aborts.
\<close>

definition htable_read_preproc :: "run_t \<Rightarrow> (bool \<times> run_t) option" where
  "htable_read_preproc r = do {
     page \<leftarrow> r_data r;
     ok \<leftarrow> keyset_check page;
     if \<not> ok then None
     else if r_iscached r = 1 then Some (True, r)
     else Some (False, r\<lparr>r_cpt := Some (replicate PAGESIZE 0)\<rparr>)
   }"

text \<open>\<^verbatim>\<open>compaction_htable_read\<close> only takes the time of a read: its assignment to the parameter is lost.\<close>

definition compaction_htable_read :: "nat \<Rightarrow> run_t \<Rightarrow> lsm_t \<Rightarrow> (nat \<times> lsm_t) option" where
  "compaction_htable_read now ent s = lsm_read now (r_pbn ent) s"

text \<open>\<^verbatim>\<open>compaction_htable_write\<close>: both branches write the page; a null table is dereferenced.\<close>

definition compaction_htable_write :: "nat \<Rightarrow> ppa_t \<Rightarrow> page option \<Rightarrow> lsm_t \<Rightarrow> (nat \<times> lsm_t) option" where
  "compaction_htable_write now ppa input s = (case input of None \<Rightarrow> None | Some _ \<Rightarrow> lsm_write now ppa s)"

definition compaction_htable_write_insert :: "nat \<Rightarrow> level \<Rightarrow> run_t \<Rightarrow> lsm_t \<Rightarrow> (nat \<times> level \<times> lsm_t) option" where
  "compaction_htable_write_insert now target entry s = do {
     (ppa, s1) \<leftarrow> get_map_page s;
     (target1, entry1) \<leftarrow> array_insert target (entry\<lparr>r_pbn := ppa\<rparr>);
     (lat, s2) \<leftarrow> compaction_htable_write now ppa (r_cpt entry1) s1;
     Some (lat, target1, s2)
   }"

text \<open>The loop over the runs of a level before a merge: uncached runs are read.\<close>

fun preproc_all :: "nat \<Rightarrow> run_t list \<Rightarrow> lsm_t \<Rightarrow> (nat \<times> run_t list \<times> lsm_t) option" where
  "preproc_all now [] s = Some (0, [], s)"
| "preproc_all now (r # rs) s = do {
     (hit, r1) \<leftarrow> htable_read_preproc r;
     (lat, s1) \<leftarrow> (if hit then Some (0, s) else compaction_htable_read now r1 s);
     (lat', rs', s2) \<leftarrow> preproc_all now rs s1;
     Some (lat + lat', r1 # rs', s2)
   }"

text \<open>
  \<^verbatim>\<open>htable_read_postproc\<close>: whether the run is released.  A run with a page in memory is kept; the types
  of \<^verbatim>\<open>iscompactioning\<close> only guard a call that is commented out.
\<close>

definition htable_read_postproc :: "run_t \<Rightarrow> bool" where
  "htable_read_postproc r \<longleftrightarrow> r_data r = None \<and> r_pbn r = UINT32_MAX"

section \<open>Merging into a level\<close>

text \<open>One run of the result is inserted, and written if the level is not cached.\<close>

definition insert_result :: "nat \<Rightarrow> level \<Rightarrow> run_t \<Rightarrow> lsm_t \<Rightarrow> (nat \<times> level \<times> lsm_t) option" where
  "insert_result now des r s =
     (if lv_idx des < LEVELCACHING
      then map_option (\<lambda>(des1, _). (0, des1, s)) (array_insert des (r\<lparr>r_iscached := 1\<rparr>))
      else if r_cpt r = None then None
      else compaction_htable_write_insert now des (r\<lparr>r_iscached := 0\<rparr>) s)"

fun subprocess_loop :: "nat \<Rightarrow> nat \<Rightarrow> bool \<Rightarrow> p_body \<Rightarrow> level \<Rightarrow> lsm_t \<Rightarrow> (nat \<times> level \<times> lsm_t) option" where
  "subprocess_loop 0 now cutter_start rp des s = None"
| "subprocess_loop (Suc fuel) now cutter_start rp des s = do {
     (r, rp1) \<leftarrow> array_pipe_cutter cutter_start rp (lv_idx des);
     (case r of
        None \<Rightarrow> Some (0, des, s)
      | Some r \<Rightarrow> do {
          (lat, des1, s1) \<leftarrow> insert_result now des r s;
          (lat', des2, s2) \<leftarrow> subprocess_loop fuel now False rp1 des1 s1;
          Some (lat + lat', des2, s2)
        })
   }"

text \<open>
  \<^verbatim>\<open>compaction_subprocessing\<close>: \<open>fuel\<close> is one more than the pages the merger has written, which the cutter
  returns one by one.
\<close>

definition compaction_subprocessing ::
  "nat \<Rightarrow> (nat \<Rightarrow> page) \<Rightarrow> page \<Rightarrow> (str_key \<times> ppa_t) list option \<Rightarrow> run_t list \<Rightarrow> run_t list \<Rightarrow> level \<Rightarrow> lsm_t \<Rightarrow>
    (nat \<times> level \<times> lsm_t) option" where
  "compaction_subprocessing now garbage garbage0 skip src org des s = do {
     (rp, b) \<leftarrow> array_pipe_merger garbage garbage0 skip src org (snd (ls_alloc s));
     subprocess_loop (Suc (pb_pidx rp)) now True rp des (s\<lparr>ls_alloc := (fst (ls_alloc s), b)\<rparr>)
   }"

text \<open>\<^verbatim>\<open>array_cache_comp_formatting\<close> of a cached level: all of its runs.\<close>

definition array_cache_comp_formatting :: "level \<Rightarrow> bool \<Rightarrow> run_t list" where
  "array_cache_comp_formatting lev des_cache =
     (if des_cache then lv_arrs lev else map (\<lambda>r. array_make_run (r_key r) (r_end r) (r_pbn r)) (lv_arrs lev))"

text \<open>
  \<^verbatim>\<open>partial_leveling\<close>: \<open>mem\<close> are the entries of the list that is flushed; \<open>upper\<close> is the source level.
\<close>

definition partial_leveling ::
  "nat \<Rightarrow> (nat \<Rightarrow> page) \<Rightarrow> page \<Rightarrow> level \<Rightarrow> level \<Rightarrow> (str_key \<times> ppa_t) list \<Rightarrow> level option \<Rightarrow> lsm_t \<Rightarrow> (nat \<times> level \<times> lsm_t) option" where
  "partial_leveling now garbage garbage0 t origin mem upper s =
     (case upper of
        None \<Rightarrow> do {
          let target_s = array_range_find_compaction origin lsm_key_min lsm_key_max;
          (lat, ts, s1) \<leftarrow> preproc_all now target_s s;
          let cxl = (if lv_isCXL origin then length target_s else 0);
          (lat', t1, s2) \<leftarrow> compaction_subprocessing now garbage garbage0 (Some mem) [] ts t s1;
          Some (lat + cxl * CXL_DIR_LAT + lat', t1, s2)
        }
      | Some u \<Rightarrow> do {
          let target_s = array_range_find_compaction origin lsm_key_min lsm_key_max;
          let srcs = (if lv_idx u < LEVELCACHING then array_cache_comp_formatting u True
                      else array_range_find_compaction u lsm_key_min lsm_key_max);
          if srcs \<noteq> [] \<and> target_s = [] then None
          else do {
            let cxl = (if lv_isCXL origin then length srcs else 0) + (if lv_isCXL u then length target_s else 0);
            (lat, ts, s1) \<leftarrow> preproc_all now target_s s;
            (lat1, ds, s2) \<leftarrow> (if lv_idx u < LEVELCACHING then Some (0, srcs, s1) else preproc_all now srcs s1);
            (lat2, t1, s3) \<leftarrow> compaction_subprocessing now garbage garbage0 None ds ts t s2;
            Some (cxl * CXL_DIR_LAT + lat + lat1 + lat2, t1, s3)
          }
        })"

section \<open>Moving into an empty level\<close>

text \<open>The runs of a cached level are written before they move below the cached levels.\<close>

fun write_runs :: "nat \<Rightarrow> run_t list \<Rightarrow> lsm_t \<Rightarrow> (nat \<times> run_t list \<times> lsm_t) option" where
  "write_runs now [] s = Some (0, [], s)"
| "write_runs now (r # rs) s = do {
     (ppa, s1) \<leftarrow> get_map_page s;
     let table = (case r_data r of Some p \<Rightarrow> p | None \<Rightarrow> replicate PAGESIZE 0);
     let r1 = r\<lparr>r_pbn := ppa, r_cpt := Some table\<rparr>;
     (lat, s2) \<leftarrow> compaction_htable_write now ppa (r_cpt r1) s1;
     (lat', rs', s3) \<leftarrow> write_runs now rs s2;
     Some (lat + lat', r1 # rs', s3)
   }"

text \<open>
  \<^verbatim>\<open>compaction_empty_level\<close>: the latency is summed in 32 bits.  The entry of a flushed list needs both keys: with one
  node the last key is a freed pointer.  For a CXL level the number of entries is read through the
  pointer that was just cleared.
\<close>

definition compaction_empty_level ::
  "nat \<Rightarrow> level option \<Rightarrow> nat \<Rightarrow> (str_key \<times> ppa_t) list \<Rightarrow> level \<Rightarrow> lsm_t \<Rightarrow> (nat \<times> level \<times> lsm_t) option" where
  "compaction_empty_level now from sz mem des s =
     (case from of
        None \<Rightarrow> do {
          (first, final, page) \<leftarrow> array_mem_cvt2table sz mem;
          key \<leftarrow> first;
          end_key \<leftarrow> final;
          let entry = array_make_run key end_key UINT32_MAX;
          if lv_idx des < LEVELCACHING
          then (if lv_isCXL des then None
                else map_option (\<lambda>(des1, _). (0, des1, s)) (array_insert des (entry\<lparr>r_iscached := 1, r_data := Some page\<rparr>)))
          else do {
            (lat, des1, s1) \<leftarrow> compaction_htable_write_insert now des (entry\<lparr>r_iscached := 0, r_data := Some page, r_cpt := Some page\<rparr>) s;
            Some (lat mod 2 ^ 32, des1, s1)
          }
        }
      | Some src \<Rightarrow> do {
          (lat, runs, s1) \<leftarrow> (if lv_idx des \<ge> LEVELCACHING \<and> lv_idx src < LEVELCACHING then write_runs now (lv_arrs src) s
                             else Some (0, lv_arrs src, s));
          let cxl = (if lv_idx des \<ge> LEVELCACHING \<and> lv_idx src < LEVELCACHING \<and> lv_isCXL src then n_num src else 0);
          (des1, _) \<leftarrow> array_lev_copy des (src\<lparr>lv_arrs := runs\<rparr>);
          Some ((lat + cxl * CXL_DIR_LAT) mod 2 ^ 32, des1, s1)
        })"

section \<open>Leveling\<close>

text \<open>\<^verbatim>\<open>lsm_level_resizing\<close> makes an empty level of the same capacity.\<close>

definition lsm_level_resizing :: "level \<Rightarrow> level" where
  "lsm_level_resizing target = array_init (lv_m_num target) (lv_idx target) False"

text \<open>\<^verbatim>\<open>level_change\<close>; the levels are addressed by their indices.\<close>

definition level_change :: "nat option \<Rightarrow> nat \<Rightarrow> level \<Rightarrow> lsm_t \<Rightarrow> lsm_t option" where
  "level_change from to target s =
     (if to < length (ls_disk s) \<and> (\<forall>i. from = Some i \<longrightarrow> i < length (ls_disk s))
      then (let disk1 = (case from of None \<Rightarrow> ls_disk s
              | Some i \<Rightarrow> (ls_disk s)[i := array_init (lv_m_num (ls_disk s ! i)) (lv_idx (ls_disk s ! i)) (lv_istier (ls_disk s ! i))])
            in Some (s\<lparr>ls_disk := disk1[to := target\<lparr>lv_iscompactioning := lv_iscompactioning (ls_disk s ! to)\<rparr>]\<rparr>))
      else None)"

text \<open>
  \<^verbatim>\<open>leveling\<close> with five levels (the branch for a single level is not reachable).  A list that is flushed
  below the cached levels is written as a table first, of which only the page is used.
\<close>

definition leveling ::
  "nat \<Rightarrow> (nat \<Rightarrow> page) \<Rightarrow> page \<Rightarrow> nat option \<Rightarrow> nat \<Rightarrow> nat \<Rightarrow> (str_key \<times> ppa_t) list \<Rightarrow> lsm_t \<Rightarrow> (nat \<times> lsm_t) option" where
  "leveling now garbage garbage0 from to sz mem s =
     (if to \<ge> length (ls_disk s) \<or> (\<exists>i. from = Some i \<and> i \<ge> length (ls_disk s)) then None
      else do {
        let origin = ls_disk s ! to;
        let upper = map_option (\<lambda>i. ls_disk s ! i) from;
        let target = lsm_level_resizing origin;
        (lat, target1, s1) \<leftarrow>
          (if n_num origin = 0 then compaction_empty_level now upper sz mem target s
           else if lv_idx target < LEVELCACHING then partial_leveling now garbage garbage0 target origin mem upper s
           else do {
             (lat0, s0) \<leftarrow> (case upper of
                 Some _ \<Rightarrow> Some (0, s)
               | None \<Rightarrow> do {
                   (ppa, s0) \<leftarrow> get_map_page s;
                   (_, _, page) \<leftarrow> array_mem_cvt2table sz mem;
                   compaction_htable_write now ppa (Some page) s0 });
             (lat, target1, s1) \<leftarrow> partial_leveling now garbage garbage0 target origin mem upper s0;
             Some (lat0 + lat, target1, s1)
           });
        s2 \<leftarrow> level_change from to target1 s1;
        Some (lat, s2)
      })"

text \<open>\<^verbatim>\<open>compaction_cascading\<close> from a level on; \<open>n\<close> counts the levels that are left.\<close>

fun cascade :: "nat \<Rightarrow> nat \<Rightarrow> nat \<Rightarrow> (nat \<Rightarrow> page) \<Rightarrow> page \<Rightarrow> lsm_t \<Rightarrow> (nat \<times> lsm_t) option" where
  "cascade 0 start_level now garbage garbage0 s = None"
| "cascade (Suc n) start_level now garbage garbage0 s =
     (if start_level \<ge> length (ls_disk s) then None
      else if def_full_chk (ls_disk s ! start_level)
      then (let des_level = (if start_level = LEVELN then start_level else start_level + 1) in
            if des_level = LEVELN then Some (0, s)
            else do {
              (lat, s1) \<leftarrow> leveling now garbage garbage0 (Some start_level) des_level 0 [] s;
              let s2 = s1\<lparr>ls_disk := (ls_disk s1)[start_level := (ls_disk s1 ! start_level)\<lparr>lv_iscompactioning := False\<rparr>]\<rparr>;
              (lat', s3) \<leftarrow> cascade n (start_level + 1) now garbage garbage0 s2;
              Some (lat + lat', s3)
            })
      else Some (0, s))"

definition compaction_cascading :: "nat \<Rightarrow> (nat \<Rightarrow> page) \<Rightarrow> page \<Rightarrow> lsm_t \<Rightarrow> (nat \<times> lsm_t) option" where
  "compaction_cascading now garbage garbage0 s = cascade LEVELN 0 now garbage garbage0 s"

section \<open>Flushing\<close>

text \<open>\<^verbatim>\<open>compaction_data_write\<close>.\<close>

fun write_pages :: "nat \<Rightarrow> ppa_t list \<Rightarrow> lsm_t \<Rightarrow> (nat \<times> lsm_t) option" where
  "write_pages now [] s = Some (0, s)"
| "write_pages now (ppa # ppas) s = do {
     (lat, s1) \<leftarrow> lsm_write now ppa s;
     (lat', s2) \<leftarrow> write_pages now ppas s1;
     Some (lat + lat', s2)
   }"

definition compaction_data_write :: "nat \<Rightarrow> memtable \<Rightarrow> lsm_t \<Rightarrow> (nat \<times> memtable \<times> lsm_t) option" where
  "compaction_data_write now l s = do {
     (vs, l1, st) \<leftarrow> skiplist_make_valueset l (ls_alloc s);
     (lat, s1) \<leftarrow> write_pages now (vs_pages vs) (s\<lparr>ls_alloc := st\<rparr>);
     Some (lat, l1, s1)
   }"

text \<open>One request of the compaction thread: the latency, in 32 bits, and the result of its parent.\<close>

definition compaction_request ::
  "nat \<Rightarrow> (nat \<Rightarrow> page) \<Rightarrow> page \<Rightarrow> memtable \<Rightarrow> lsm_t \<Rightarrow> (nat \<times> end_type \<times> lsm_t) option" where
  "compaction_request now garbage garbage0 l s = do {
     (lat0, l1, s1) \<leftarrow> compaction_data_write now l s;
     (lat1, s2) \<leftarrow> leveling now garbage garbage0 None 0 (mt_size l1) (node_entries (mt_nodes l1)) s1;
     (lat2, s3) \<leftarrow> compaction_cascading now garbage garbage0 s2;
     let total = (lat0 + lat1 + lat2) mod 2 ^ 32;
     Some (total, if total > 0 then CASCADE_FLUSH else SKIP_FLUSH, s3)
   }"

section \<open>What a level stores\<close>

text \<open>Two copies of a run that list the same entries.\<close>

definition same_run :: "run_t \<Rightarrow> run_t \<Rightarrow> bool" where
  "same_run r' r \<longleftrightarrow> r_key r' = r_key r \<and> r_end r' = r_end r \<and> r_data r' = r_data r \<and> r_data r \<noteq> None"

text \<open>A run of the level \<open>idx\<close> has its page in memory, and a page of its own on the device unless it is cached.\<close>

definition run_stored :: "nat \<Rightarrow> run_t \<Rightarrow> bool" where
  "run_stored idx r \<longleftrightarrow> r_data r \<noteq> None \<and> (r_pbn r < 1178 * PPS \<or> r_iscached r = 1 \<and> idx < LEVELCACHING)"

definition level_ok :: "level \<Rightarrow> entries \<Rightarrow> bool" where
  "level_ok lev es \<longleftrightarrow> level_lists (lv_arrs lev) es \<and> (\<forall>r \<in> set (lv_arrs lev). run_stored (lv_idx lev) r) \<and> lv_isCXL lev = False \<and>
     n_num lev \<le> lv_m_num lev \<and> (\<forall>e \<in> set es. \<not> key_less (fst e) lsm_key_min)"

lemma same_run_lists: "same_run r' r \<Longrightarrow> run_lists r' es = run_lists r es"
  by (auto simp: same_run_def run_lists_def data_from_run_def)

lemma same_runs_lists: "list_all2 same_run rs' rs \<Longrightarrow> list_all2 run_lists rs' ess = list_all2 run_lists rs ess"
proof (induction rs' rs arbitrary: ess rule: list_all2_induct)
  case (Cons r' r rs' rs)
  then show ?case
    using same_run_lists [OF Cons.hyps(1)] by (cases ess) auto
qed simp

lemma same_runs_level: "list_all2 same_run rs' rs \<Longrightarrow> level_lists rs' es = level_lists rs es"
  by (simp add: level_lists_def same_runs_lists)

lemma level_ok_empty: "level_ok (array_init sz i t) []"
  by (simp add: level_ok_def array_init_def level_lists_def)

lemma level_ok_Nil: "level_ok lev es \<Longrightarrow> lv_arrs lev = [] \<longleftrightarrow> es = []"
  by (cases "lv_arrs lev") (auto simp: level_ok_def level_lists_def list_all2_Cons1 run_lists_def page_lists_def)

text \<open>The levels are in the order the searches rely on.\<close>

lemma run_lists_bounds:
  assumes "run_lists r es" "keys_sorted es"
  shows "es \<noteq> []" "\<not> key_less (r_end r) (r_key r)" "e \<in> set es \<Longrightarrow> \<not> key_less (fst e) (r_key r) \<and> \<not> key_less (r_end r) (fst e)"
    "r_key r \<in> fst ` set es" "r_end r \<in> fst ` set es"
proof -
  show ne: "es \<noteq> []"
    using assms(1) by (simp add: run_lists_def page_lists_def)
  have r: "r_key r = fst (es ! 0)" "r_end r = fst (es ! (length es - 1))"
    using assms(1) ne by (simp_all add: run_lists_def hd_conv_nth last_conv_nth)
  have le: "\<not> key_less (fst (es ! j)) (fst (es ! i))" if "i \<le> j" "j < length es" for i j
    using keys_sortedD [OF assms(2), of i j] that key_less_asym by (cases "i = j") auto
  show "\<not> key_less (r_end r) (r_key r)"
    using le [of 0 "length es - 1"] ne by (simp add: r)
  show "e \<in> set es \<Longrightarrow> \<not> key_less (fst e) (r_key r) \<and> \<not> key_less (r_end r) (fst e)"
    using le [of 0] le [of _ "length es - 1"] by (auto simp: r in_set_conv_nth)
  show "r_key r \<in> fst ` set es" "r_end r \<in> fst ` set es"
    using ne by (auto simp: r)
qed

lemma keys_sorted_append: "keys_sorted (as @ bs) \<longleftrightarrow> keys_sorted as \<and> keys_sorted bs \<and> (\<forall>a \<in> set as. \<forall>b \<in> set bs. key_less (fst a) (fst b))"
  by (auto simp: keys_sorted_def sorted_wrt_append)

lemma list_all2_member: "list_all2 P xs ys \<Longrightarrow> x \<in> set xs \<Longrightarrow> \<exists>y \<in> set ys. P x y"
  by (induction rule: list_all2_induct) auto

lemma level_lists_ordered:
  assumes "level_lists rs es"
  shows "runs_ordered rs"
proof -
  obtain ess where ess: "list_all2 run_lists rs ess" "es = concat ess" "keys_sorted es"
    using assms by (auto simp: level_lists_def)
  have "runs_ordered rs" if "list_all2 run_lists rs ess" "keys_sorted (concat ess)" for rs ess
    using that
  proof (induction rs ess rule: list_all2_induct)
    case (Cons r rs c cs)
    then have c: "keys_sorted c" "runs_ordered rs" "\<forall>a \<in> set c. \<forall>b \<in> set (concat cs). key_less (fst a) (fst b)" "keys_sorted (concat cs)"
      by (simp_all add: keys_sorted_append)
    note b = run_lists_bounds [OF Cons.hyps(1) c(1)]
    have "key_less (r_end r) (r_key r')" if r': "r' \<in> set rs" for r'
    proof -
      obtain c' where c': "c' \<in> set cs" "run_lists r' c'"
        using list_all2_member [OF Cons.hyps(2) r'] by blast
      then have "r_key r' \<in> fst ` set c'"
        by (auto simp: run_lists_def page_lists_def)
      then show ?thesis
        using b(5) c(3) c'(1) by fastforce
    qed
    then show ?case
      using b(2) c(2) by (simp add: runs_ordered_def)
  qed (simp add: runs_ordered_def)
  then show ?thesis
    using ess by blast
qed

text \<open>A compaction takes all runs of a level.\<close>

lemma compaction_takes_all:
  assumes "level_ok lev es"
  shows "array_range_find_compaction lev lsm_key_min k = lv_arrs lev"
proof (rule array_range_find_compaction_all)
  show "runs_ordered (lv_arrs lev)"
    using assms level_lists_ordered by (auto simp: level_ok_def)
  obtain ess where ess: "list_all2 run_lists (lv_arrs lev) ess" "es = concat ess"
    using assms by (auto simp: level_ok_def level_lists_def)
  show "\<forall>r \<in> set (lv_arrs lev). \<not> key_less (r_end r) lsm_key_min"
  proof
    fix r assume "r \<in> set (lv_arrs lev)"
    then obtain c where c: "c \<in> set ess" "run_lists r c"
      using list_all2_member [OF ess(1)] by blast
    then have "c \<noteq> []" "r_end r = fst (last c)"
      by (auto simp: run_lists_def page_lists_def)
    then have "last c \<in> set es" "r_end r = fst (last c)"
      using ess(2) c(1) by (auto intro!: bexI [of _ c])
    then show "\<not> key_less (r_end r) lsm_key_min"
      using assms by (simp add: level_ok_def)
  qed
qed

section \<open>What the steps do to the rest of the state\<close>

text \<open>
  \<open>n\<close> metadata pages are gone and the device has a page for every page of the partitions; between two
  states only the allocator and the device change.
\<close>

definition ready :: "lsm_t \<Rightarrow> nat \<Rightarrow> bool" where
  "ready s n \<longleftrightarrow> (\<exists>m \<le> n. handed_out (ls_alloc s) MAP m) \<and> 1178 * PPS \<le> tt_pgs (sp (ls_dev s))"

definition same_data :: "lsm_t \<Rightarrow> lsm_t \<Rightarrow> bool" where
  "same_data s s' \<longleftrightarrow> (\<forall>m. handed_out (ls_alloc s) DATA m \<longrightarrow> handed_out (ls_alloc s') DATA m)"

definition moved :: "lsm_t \<Rightarrow> lsm_t \<Rightarrow> nat \<Rightarrow> bool" where
  "moved s s' n \<longleftrightarrow> ls_disk s' = ls_disk s \<and> ls_mem s' = ls_mem s \<and> ls_avg s' = ls_avg s \<and> ls_cut s' = ls_cut s \<and>
     ls_finish s' = ls_finish s \<and> ready s' n \<and> (\<forall>m. handed_out (ls_alloc s) DATA m \<longrightarrow> handed_out (ls_alloc s') DATA m)"

lemma ready_mono: "ready s n \<Longrightarrow> n \<le> m \<Longrightarrow> ready s m"
  unfolding ready_def by (meson le_trans)

lemma unmoved: "ready s n \<Longrightarrow> moved s s n"
  by (simp add: moved_def)

lemma moved_trans: "moved s s1 n \<Longrightarrow> moved s1 s2 m \<Longrightarrow> moved s s2 m"
  by (simp add: moved_def)

lemma moved_mono: "moved s s' n \<Longrightarrow> n \<le> m \<Longrightarrow> moved s s' m"
  by (auto simp: moved_def intro: ready_mono)

lemma moved_ready: "moved s s' n \<Longrightarrow> ready s' n"
  by (simp add: moved_def)

lemma lsm_write_moved:
  assumes "ready s n" "ppa < 1178 * PPS"
  shows "returns (lsm_write now ppa s) (\<lambda>(lat, s'). moved s s' n)"
proof -
  have ppa: "\<not> tt_pgs (sp (ls_dev s)) \<le> ppa"
    using assms by (simp add: ready_def)
  have "returns (ssd_write_ppa now ppa PAGESIZE 0 (ls_dev s)) (\<lambda>(r, d). sp d = sp (ls_dev s))"
    using ppa by (simp add: ssd_write_ppa_def PAGESIZE_def Let_def ssd_advance_status_def split: prod.split)
  then show ?thesis
    using assms(1) unfolding lsm_write_def by (auto simp: moved_def ready_def elim!: returnsE)
qed

lemma lsm_read_moved:
  assumes "ready s n" "ppa < 1178 * PPS"
  shows "returns (lsm_read now ppa s) (\<lambda>(lat, s'). moved s s' n)"
proof -
  have ppa: "\<not> tt_pgs (sp (ls_dev s)) \<le> ppa"
    using assms by (simp add: ready_def)
  have "returns (ssd_read_ppa now ppa PAGESIZE 0 (ls_dev s)) (\<lambda>(r, d). sp d = sp (ls_dev s))"
    using ppa by (simp add: ssd_read_ppa_def PAGESIZE_def Let_def ssd_advance_status_def split: prod.split)
  then show ?thesis
    using assms(1) unfolding lsm_read_def by (auto simp: moved_def ready_def elim!: returnsE)
qed

lemma get_map_page_moved:
  assumes "ready s n" "n < partition_pages MAP"
  shows "returns (get_map_page s) (\<lambda>(ppa, s'). ppa < 1178 * PPS \<and> moved s s' (n + 1))"
proof -
  obtain p b where st: "ls_alloc s = (p, b)"
    by (cases "ls_alloc s")
  obtain m where m: "m \<le> n" "handed_out (p, b) MAP m"
    using assms(1) st by (auto simp: ready_def)
  from lsm_get_page_next [OF m(2)] have "returns (lsm_get_page MAP (p, b))
      (\<lambda>(a, st'). a = nth_page MAP m \<and> handed_out st' MAP (m + 1) \<and> (\<forall>k. handed_out (p, b) DATA k \<longrightarrow> handed_out st' DATA k))"
    using m(1) assms(2) by (auto elim!: returns_mono)
  then show ?thesis
    using assms nth_page_bound [of m MAP] m(1) unfolding get_map_page_def st
    by (auto simp: moved_def ready_def st elim!: returnsE intro!: exI [of _ "m + 1"])
qed

section \<open>Merging two levels\<close>

text \<open>Reading the runs of a level for a merge.\<close>

lemma htable_read_preproc_ok:
  assumes "run_lists r es" "r_data r \<noteq> None" "\<forall>e \<in> set es. good_entry e"
  shows "returns (htable_read_preproc r) (\<lambda>(hit, r'). same_run r' r \<and> r_pbn r' = r_pbn r \<and> (hit \<longleftrightarrow> r_iscached r = 1))"
proof -
  obtain p where p: "r_data r = Some p" "header_page p es"
    using assms(1,2) by (auto simp: run_lists_def page_lists_def data_from_run_def split: option.splits)
  then have "keyset_check p = Some True"
    using assms(3) by (intro keyset_check_page) (auto simp: good_entry_def)
  then show ?thesis
    using p(1) by (simp add: htable_read_preproc_def same_run_def)
qed

lemma preproc_all_ok:
  assumes "list_all2 run_lists rs ess" "\<forall>r \<in> set rs. run_stored i r" "\<forall>e \<in> set (concat ess). good_entry e" "ready s n"
  shows "returns (preproc_all now rs s) (\<lambda>(lat, rs', s'). list_all2 same_run rs' rs \<and> moved s s' n)"
  using assms
proof (induction rs ess arbitrary: s rule: list_all2_induct)
  case Nil
  then show ?case
    by (simp add: unmoved)
next
  case (Cons r rs es ess)
  obtain hit r' where pre: "htable_read_preproc r = Some (hit, r')" "same_run r' r" "r_pbn r' = r_pbn r" "hit \<longleftrightarrow> r_iscached r = 1"
    using htable_read_preproc_ok [OF Cons.hyps(1)] Cons.prems(1,2) by (auto simp: run_stored_def elim!: returnsE)
  have "returns (if hit then Some (0, s) else compaction_htable_read now r' s) (\<lambda>(lat, s'). moved s s' n)"
  proof (cases hit)
    case False
    then have "r_pbn r' < 1178 * PPS"
      using Cons.prems(1) pre(3,4) by (simp add: run_stored_def)
    then show ?thesis
      using lsm_read_moved [OF Cons.prems(3)] False by (simp add: compaction_htable_read_def)
  qed (simp add: unmoved [OF Cons.prems(3)])
  then obtain lat s1 where read: "(if hit then Some (0, s) else compaction_htable_read now r' s) = Some (lat, s1)" "moved s s1 n"
    by (auto elim!: returnsE)
  have "returns (preproc_all now rs s1) (\<lambda>(lat, rs', s'). list_all2 same_run rs' rs \<and> moved s1 s' n)"
    using Cons.IH [of s1] Cons.prems(1,2) moved_ready [OF read(2)] by simp
  then show ?case
    using pre read moved_trans [OF read(2)] by (auto elim!: returnsE)
qed

text \<open>What a level must keep while runs are appended to it.\<close>

definition grown :: "level \<Rightarrow> run_t list \<Rightarrow> level \<Rightarrow> bool" where
  "grown des rs des' \<longleftrightarrow> (\<exists>new. lv_arrs des' = lv_arrs des @ new \<and> list_all2 same_run new rs \<and> (\<forall>r \<in> set new. run_stored (lv_idx des) r)) \<and>
     lv_idx des' = lv_idx des \<and> lv_m_num des' = lv_m_num des \<and> lv_isCXL des' = lv_isCXL des"

lemma grown_Nil: "grown des [] des"
  by (simp add: grown_def)

lemma grown_Cons: "grown des [r] des1 \<Longrightarrow> grown des1 rs des2 \<Longrightarrow> grown des (r # rs) des2"
  unfolding grown_def by (fastforce simp: list_all2_Cons2)

lemma grown_same: "grown des [r'] des' \<Longrightarrow> same_run r' r \<Longrightarrow> grown des [r] des'"
  unfolding grown_def by (fastforce simp: list_all2_Cons2 same_run_def)

lemma array_insert_grown:
  assumes "n_num des < lv_m_num des" "run_stored (lv_idx des) r"
  shows "returns (array_insert des r) (\<lambda>(des', r'). grown des [r] des' \<and> r_cpt r' = r_cpt r)"
  using assms
  by (simp add: array_insert_def array_run_cpy_to_def array_range_update_def Let_def grown_def same_run_def run_stored_def)

text \<open>The pages a level takes from the metadata partition.\<close>

definition level_pages :: "nat \<Rightarrow> run_t list \<Rightarrow> nat" where
  "level_pages idx rs = (if idx < LEVELCACHING then 0 else length rs)"

lemma htable_write_insert_grown:
  assumes "n_num des < lv_m_num des" "r_data r \<noteq> None" "r_cpt r \<noteq> None" "ready s n" "n < partition_pages MAP"
  shows "returns (compaction_htable_write_insert now des r s) (\<lambda>(lat, des', s'). grown des [r] des' \<and> moved s s' (n + 1))"
proof -
  obtain ppa s1 where page: "get_map_page s = Some (ppa, s1)" "ppa < 1178 * PPS" "moved s s1 (n + 1)"
    using get_map_page_moved [OF assms(4,5)] by (auto elim!: returnsE)
  obtain des' r' where ins: "array_insert des (r\<lparr>r_pbn := ppa\<rparr>) = Some (des', r')" "grown des [r\<lparr>r_pbn := ppa\<rparr>] des'" "r_cpt r' = r_cpt r"
    using array_insert_grown [of des "r\<lparr>r_pbn := ppa\<rparr>"] assms(1,2) page(2) by (auto simp: run_stored_def elim!: returnsE)
  obtain t where t: "r_cpt r = Some t"
    using assms(3) by auto
  obtain lat s2 where w: "lsm_write now ppa s1 = Some (lat, s2)" "moved s1 s2 (n + 1)"
    using lsm_write_moved [OF moved_ready [OF page(3)] page(2), of now] by (auto elim!: returnsE)
  have "grown des [r] des'"
    using grown_same [OF ins(2)] assms(2) by (simp add: same_run_def)
  then show ?thesis
    using page(1) ins(1,3) t w moved_trans [OF page(3) w(2)]
    by (simp add: compaction_htable_write_insert_def compaction_htable_write_def)
qed

lemma insert_result_grown:
  assumes "n_num des < lv_m_num des" "fresh_run (lv_idx des) r" "ready s n" "n + level_pages (lv_idx des) [r] \<le> partition_pages MAP"
  shows "returns (insert_result now des r s) (\<lambda>(lat, des', s'). grown des [r] des' \<and> moved s s' (n + level_pages (lv_idx des) [r]))"
proof (cases "lv_idx des < LEVELCACHING")
  case True
  have "returns (array_insert des (r\<lparr>r_iscached := 1\<rparr>)) (\<lambda>(des', r'). grown des [r\<lparr>r_iscached := 1\<rparr>] des')"
    using array_insert_grown [of des "r\<lparr>r_iscached := 1\<rparr>"] assms(1,2) True by (auto simp: fresh_run_def run_stored_def elim!: returnsE)
  then show ?thesis
    using True unmoved [OF assms(3)] assms(2)
    by (auto simp: insert_result_def level_pages_def same_run_def fresh_run_def elim!: returnsE grown_same)
next
  case False
  have "returns (compaction_htable_write_insert now des (r\<lparr>r_iscached := 0\<rparr>) s)
      (\<lambda>(lat, des', s'). grown des [r\<lparr>r_iscached := 0\<rparr>] des' \<and> moved s s' (n + 1))"
    using assms False by (intro htable_write_insert_grown) (simp_all add: fresh_run_def level_pages_def)
  then show ?thesis
    using False assms(2) by (auto simp: insert_result_def level_pages_def same_run_def fresh_run_def elim!: returnsE grown_same)
qed

lemma level_pages_Cons: "level_pages i (r # rs) = level_pages i [r] + level_pages i rs"
  by (simp add: level_pages_def)

lemma subprocess_loop_grown:
  assumes "cut_all fuel st rp (lv_idx des) = Some rs" "\<forall>r \<in> set rs. fresh_run (lv_idx des) r" "ready s n"
    "n_num des + length rs \<le> lv_m_num des" "n + level_pages (lv_idx des) rs \<le> partition_pages MAP"
  shows "returns (subprocess_loop fuel now st rp des s)
    (\<lambda>(lat, des', s'). grown des rs des' \<and> moved s s' (n + level_pages (lv_idx des) rs))"
  using assms
proof (induction fuel arbitrary: st rp des s rs n)
  case (Suc fuel)
  obtain r rp1 where cut: "array_pipe_cutter st rp (lv_idx des) = Some (r, rp1)"
    using Suc.prems(1) by (cases "array_pipe_cutter st rp (lv_idx des)") auto
  show ?case
  proof (cases r)
    case None
    then show ?thesis
      using Suc.prems(1,3) cut by (auto simp: grown_Nil unmoved level_pages_def)
  next
    case (Some r)
    then obtain rs' where rs: "cut_all fuel False rp1 (lv_idx des) = Some rs'" "rs = r # rs'"
      using Suc.prems(1) cut by (cases "cut_all fuel False rp1 (lv_idx des)") auto
    let ?m = "n + level_pages (lv_idx des) [r]"
    have pages: "?m + level_pages (lv_idx des) rs' \<le> partition_pages MAP"
      using Suc.prems(5) rs(2) level_pages_Cons [of "lv_idx des" r rs'] by simp
    obtain lat des1 s1 where ins: "insert_result now des r s = Some (lat, des1, s1)" "grown des [r] des1" "moved s s1 ?m"
      using insert_result_grown [of des r s n now] Suc.prems(2,3,4) rs(2) pages by (auto elim!: returnsE)
    have d1: "lv_idx des1 = lv_idx des" "lv_m_num des1 = lv_m_num des" "n_num des1 = Suc (n_num des)"
      using ins(2) by (auto simp: grown_def dest!: list_all2_lengthD)
    have "returns (subprocess_loop fuel now False rp1 des1 s1)
        (\<lambda>(lat, des', s'). grown des1 rs' des' \<and> moved s1 s' (?m + level_pages (lv_idx des1) rs'))"
      using Suc.prems(2,4) rs pages d1 moved_ready [OF ins(3)] by (intro Suc.IH) simp_all
    then show ?thesis
      using cut Some ins(1) grown_Cons [OF ins(2)] moved_trans [OF ins(3)] d1(1) rs(2) level_pages_Cons [of "lv_idx des" r rs']
      by (auto simp: add.assoc elim!: returnsE)
  qed
qed simp

lemma handed_out_mark [simp]: "handed_out (p, fold mark_invalid as b) t n = handed_out (p, b) t n"
proof -
  have "lb_wp (fold mark_invalid as b) = lb_wp b \<and> lb_master (fold mark_invalid as b) = lb_master b"
    by (induction as arbitrary: b) (simp_all add: mark_invalid_def)
  then show ?thesis
    by (simp add: handed_out_def filling_def)
qed

text \<open>The keys a compaction finds are not below the key it starts at.\<close>

abbreviation above_min :: "entries \<Rightarrow> bool" where
  "above_min es \<equiv> \<forall>e \<in> set es. \<not> key_less (fst e) lsm_key_min"

lemma grown_level_ok:
  assumes "grown des rs des'" "lv_arrs des = []" "lv_isCXL des = False" "level_lists rs es" "above_min es" "length rs \<le> lv_m_num des"
  shows "level_ok des' es \<and> lv_idx des' = lv_idx des \<and> lv_m_num des' = lv_m_num des"
  using assms same_runs_level [of _ rs es] list_all2_lengthD by (fastforce simp: grown_def level_ok_def)

text \<open>A number of metadata pages that suffices for entries of \<open>B\<close> bytes in a level.\<close>

definition pages_suffice :: "nat \<Rightarrow> nat \<Rightarrow> nat \<Rightarrow> bool" where
  "pages_suffice w idx B \<longleftrightarrow> idx < LEVELCACHING \<or> 0 < w \<and> B \<le> 2545 * (w - 1)"

lemma pages_suffice_less: "pages_suffice w idx B \<Longrightarrow> b \<le> B \<Longrightarrow> pages_suffice w idx b"
  by (auto simp: pages_suffice_def)

lemma subprocess_level:
  assumes "cuts_into k rp es" "keys_sorted es" "\<forall>e \<in> set es. good_entry e" "above_min es"
    "lv_arrs des = []" "lv_isCXL des = False" "bytes es \<le> 2545 * (lv_m_num des - 1)" "0 < lv_m_num des"
    "pages_suffice w (lv_idx des) (bytes es)" "ready s n" "n + w \<le> partition_pages MAP"
  shows "returns (subprocess_loop (Suc (pb_pidx rp)) now True rp des s)
    (\<lambda>(lat, des', s'). level_ok des' es \<and> lv_idx des' = lv_idx des \<and> lv_m_num des' = lv_m_num des \<and> moved s s' (n + w))"
proof -
  obtain rs where rs: "cut_all (Suc (pb_pidx rp)) True rp (lv_idx des) = Some rs" "level_lists rs es"
      "\<forall>r \<in> set rs. fresh_run (lv_idx des) r" "2545 * (length rs - 1) \<le> bytes es"
    using cut_all_level [OF assms(1) lessI assms(2,3), of "lv_idx des"] by (elim returnsE) blast
  have len: "length rs \<le> lv_m_num des"
    using rs(4) assms(7,8) by linarith
  have pages: "level_pages (lv_idx des) rs \<le> w"
    using rs(4) assms(9) by (auto simp: level_pages_def pages_suffice_def)
  have "returns (subprocess_loop (Suc (pb_pidx rp)) now True rp des s)
      (\<lambda>(lat, des', s'). grown des rs des' \<and> moved s s' (n + level_pages (lv_idx des) rs))"
    using rs assms(5,10,11) len pages by (intro subprocess_loop_grown) simp_all
  then show ?thesis
    by (rule returns_mono) (use grown_level_ok [OF _ assms(5,6) rs(2) assms(4) len] pages moved_mono in \<open>auto\<close>)
qed

text \<open>
  The level a merge builds has room for it: as many runs as the entries need when every page but the
  last is filled as far as the merger fills pages, and as many pages of the array of the result.
\<close>

definition room :: "level \<Rightarrow> nat \<Rightarrow> entries \<Rightarrow> entries \<Rightarrow> bool" where
  "room lev k ls us \<longleftrightarrow> 0 < lv_m_num lev \<and> bytes ls + bytes us \<le> 2545 * (lv_m_num lev - 1) \<and> few_bytes k ls us"

lemma merged_level:
  assumes "keys_sorted ls" "keys_sorted us" "\<forall>e \<in> set ls \<union> set us. good_entry e" "above_min ls" "above_min us"
  shows "keys_sorted (merge_entries ls us)" "\<forall>e \<in> set (merge_entries ls us). good_entry e" "above_min (merge_entries ls us)"
  using assms merge_entries_sorted set_merge_entries [of ls us] by blast+

lemma subprocessing_ok:
  assumes merger: "returns (array_pipe_merger garbage garbage0 skip src org (snd (ls_alloc s)))
      (\<lambda>(rp, b'). cuts_into k rp (merge_entries ls us) \<and> b' = fold mark_invalid (shadowed ls us) (snd (ls_alloc s)))"
    and entries: "keys_sorted ls" "keys_sorted us" "\<forall>e \<in> set ls \<union> set us. good_entry e" "above_min ls" "above_min us"
    and des: "lv_arrs des = []" "lv_isCXL des = False" "room des j ls us"
    and s: "pages_suffice w (lv_idx des) (bytes ls + bytes us)" "ready s n" "n + w \<le> partition_pages MAP"
  shows "returns (compaction_subprocessing now garbage garbage0 skip src org des s) (\<lambda>(lat, des', s').
    level_ok des' (merge_entries ls us) \<and> lv_idx des' = lv_idx des \<and> lv_m_num des' = lv_m_num des \<and> moved s s' (n + w))"
proof -
  note m = merged_level [OF entries]
  obtain rp where rp: "array_pipe_merger garbage garbage0 skip src org (snd (ls_alloc s)) = Some (rp, fold mark_invalid (shadowed ls us) (snd (ls_alloc s)))"
      "cuts_into k rp (merge_entries ls us)"
    using merger by (auto elim!: returnsE)
  let ?s = "s\<lparr>ls_alloc := (fst (ls_alloc s), fold mark_invalid (shadowed ls us) (snd (ls_alloc s)))\<rparr>"
  have moved: "moved ?s s' i \<longleftrightarrow> moved s s' i" for s' i
    by (simp add: moved_def)
  have "ready ?s n"
    using s(2) by (simp add: ready_def)
  moreover have "bytes (merge_entries ls us) \<le> 2545 * (lv_m_num des - 1)" "0 < lv_m_num des"
    using merge_entries_bytes [of ls us] des(3) by (simp_all add: room_def)
  moreover have "pages_suffice w (lv_idx des) (bytes (merge_entries ls us))"
    using pages_suffice_less [OF s(1)] merge_entries_bytes [of ls us] by simp
  ultimately have "returns (subprocess_loop (Suc (pb_pidx rp)) now True rp des ?s) (\<lambda>(lat, des', s').
      level_ok des' (merge_entries ls us) \<and> lv_idx des' = lv_idx des \<and> lv_m_num des' = lv_m_num des \<and> moved ?s s' (n + w))"
    using subprocess_level [OF rp(2) m des(1,2)] s(3) by blast
  then show ?thesis
    using rp(1) unfolding moved by (simp add: compaction_subprocessing_def)
qed

text \<open>Merging the source level, or the list that is flushed, into a level that is not empty.\<close>

lemma level_ok_entries: "level_ok lev es \<Longrightarrow> keys_sorted es \<and> (\<forall>e \<in> set es. good_entry e) \<and> above_min es"
  by (simp add: level_ok_def level_lists_def)

lemma preproc_level:
  assumes "level_ok lev es" "ready s n"
  shows "returns (preproc_all now (lv_arrs lev) s) (\<lambda>(lat, rs', s').
    level_lists rs' es \<and> length rs' = n_num lev \<and> moved s s' n)"
proof -
  obtain ess where ess: "list_all2 run_lists (lv_arrs lev) ess" "es = concat ess" "\<forall>e \<in> set es. good_entry e"
    using assms(1) by (auto simp: level_ok_def level_lists_def)
  have "returns (preproc_all now (lv_arrs lev) s) (\<lambda>(lat, rs', s'). list_all2 same_run rs' (lv_arrs lev) \<and> moved s s' n)"
    using assms ess by (intro preproc_all_ok) (auto simp: level_ok_def)
  then show ?thesis
    by (rule returns_mono) (use assms(1) in \<open>auto simp: level_ok_def same_runs_level dest: list_all2_lengthD\<close>)
qed

abbreviation merged_into :: "lsm_t \<Rightarrow> nat \<Rightarrow> level \<Rightarrow> entries \<Rightarrow> nat \<times> level \<times> lsm_t \<Rightarrow> bool" where
  "merged_into s m des es \<equiv> \<lambda>(lat, des', s'). level_ok des' es \<and> lv_idx des' = lv_idx des \<and> lv_m_num des' = lv_m_num des \<and>
     moved s s' m"

lemma merged_into_trans: "moved s s1 n \<Longrightarrow> merged_into s1 m des es r \<Longrightarrow> merged_into s m des es r"
  by (auto intro: moved_trans)

lemma partial_leveling_levels:
  assumes "fresh_pages garbage" "level_ok origin ls" "level_ok u us" "ls \<noteq> []" "us \<noteq> []"
    "lv_arrs t = []" "lv_isCXL t = False" "room t (n_num origin + n_num u) ls us" "ready s n"
    "pages_suffice w (lv_idx t) (bytes ls + bytes us)" "n + w \<le> partition_pages MAP"
  shows "returns (partial_leveling now garbage garbage0 t origin mem (Some u) s) (merged_into s (n + w) t (merge_entries ls us))"
proof -
  have takes: "array_range_find_compaction origin lsm_key_min lsm_key_max = lv_arrs origin"
    "(if lv_idx u < LEVELCACHING then array_cache_comp_formatting u True
      else array_range_find_compaction u lsm_key_min lsm_key_max) = lv_arrs u"
    using compaction_takes_all [OF assms(2)] compaction_takes_all [OF assms(3)] by (simp_all add: array_cache_comp_formatting_def)
  have ne: "lv_arrs origin \<noteq> []" "lv_arrs u \<noteq> []"
    using level_ok_Nil assms(2-5) by blast+
  obtain lat ts s1 where o: "preproc_all now (lv_arrs origin) s = Some (lat, ts, s1)" "level_lists ts ls" "length ts = n_num origin" "moved s s1 n"
    using preproc_level [OF assms(2,9), of now] by (auto elim!: returnsE)
  have "returns (if lv_idx u < LEVELCACHING then Some (0, lv_arrs u, s1) else preproc_all now (lv_arrs u) s1)
      (\<lambda>(lat, ds, s2). level_lists ds us \<and> length ds = n_num u \<and> moved s s2 n)"
  proof (cases "lv_idx u < LEVELCACHING")
    case True
    then show ?thesis
      using assms(3) o(4) by (simp add: level_ok_def)
  next
    case False
    then show ?thesis
      using preproc_level [OF assms(3) moved_ready [OF o(4)], of now] moved_trans [OF o(4)] by (auto elim!: returnsE)
  qed
  then obtain lat1 ds s2 where d: "(if lv_idx u < LEVELCACHING then Some (0, lv_arrs u, s1) else preproc_all now (lv_arrs u) s1) = Some (lat1, ds, s2)"
      "level_lists ds us" "length ds = n_num u" "moved s s2 n"
    by (auto elim!: returnsE)
  have "ds \<noteq> []" "ts \<noteq> []" "few_bytes (length ts + length ds) ls us"
    using ne o(3) d(3) assms(8) by (auto simp: room_def)
  from array_pipe_merger_levels [OF assms(1) d(2) o(2) this]
  have "returns (compaction_subprocessing now garbage garbage0 None ds ts t s2) (merged_into s2 (n + w) t (merge_entries ls us))"
    using assms(6-8,10,11) level_ok_entries [OF assms(2)] level_ok_entries [OF assms(3)] moved_ready [OF d(4)]
    by (intro subprocessing_ok) auto
  then have sub: "returns (compaction_subprocessing now garbage garbage0 None ds ts t s2) (merged_into s (n + w) t (merge_entries ls us))"
    by (rule returns_mono) (rule merged_into_trans [OF d(4)])
  show ?thesis
    unfolding partial_leveling_def option.case Let_def takes
    using ne(1) o(1) d(1) sub by (auto elim!: returnsE)
qed

lemma partial_leveling_mem:
  assumes "fresh_pages garbage" "length garbage0 = PAGESIZE" "level_ok origin ls" "ls \<noteq> []"
    "entries_fit us" "keys_sorted us" "\<forall>e \<in> set us. good_entry e" "above_min us" "us \<noteq> []"
    "lv_arrs t = []" "lv_isCXL t = False" "room t (n_num origin + 1) ls us" "ready s n"
    "pages_suffice w (lv_idx t) (bytes ls + bytes us)" "n + w \<le> partition_pages MAP"
  shows "returns (partial_leveling now garbage garbage0 t origin us None s) (merged_into s (n + w) t (merge_entries ls us))"
proof -
  have takes: "array_range_find_compaction origin lsm_key_min lsm_key_max = lv_arrs origin"
    using compaction_takes_all [OF assms(3)] .
  obtain lat ts s1 where o: "preproc_all now (lv_arrs origin) s = Some (lat, ts, s1)" "level_lists ts ls" "length ts = n_num origin" "moved s s1 n"
    using preproc_level [OF assms(3,13), of now] by (auto elim!: returnsE)
  have "ts \<noteq> []" "few_bytes (length ts + 1) ls us"
    using level_ok_Nil [OF assms(3)] assms(4,12) o(3) by (auto simp: room_def)
  from array_pipe_merger_mem [OF assms(1,2,5,9,7) o(2) this]
  have "returns (compaction_subprocessing now garbage garbage0 (Some us) [] ts t s1) (merged_into s1 (n + w) t (merge_entries ls us))"
    using assms(6-8,10-12,14,15) level_ok_entries [OF assms(3)] moved_ready [OF o(4)] by (intro subprocessing_ok) auto
  then have sub: "returns (compaction_subprocessing now garbage garbage0 (Some us) [] ts t s1) (merged_into s (n + w) t (merge_entries ls us))"
    by (rule returns_mono) (rule merged_into_trans [OF o(4)])
  show ?thesis
    unfolding partial_leveling_def option.case Let_def takes
    using o(1) sub by (auto elim!: returnsE)
qed

section \<open>Moving a level\<close>

lemma write_runs_ok:
  assumes "\<forall>r \<in> set rs. r_data r \<noteq> None" "ready s n" "n + length rs \<le> partition_pages MAP"
  shows "returns (write_runs now rs s) (\<lambda>(lat, rs', s'). list_all2 same_run rs' rs \<and> (\<forall>r \<in> set rs'. run_stored i r) \<and>
    moved s s' (n + length rs))"
  using assms
proof (induction rs arbitrary: s n)
  case Nil
  then show ?case
    by (simp add: unmoved)
next
  case (Cons r rs)
  obtain ppa s1 where page: "get_map_page s = Some (ppa, s1)" "ppa < 1178 * PPS" "moved s s1 (n + 1)"
    using get_map_page_moved [OF Cons.prems(2), of] Cons.prems(3) by (auto elim!: returnsE)
  obtain lat s2 where w: "lsm_write now ppa s1 = Some (lat, s2)" "moved s1 s2 (n + 1)"
    using lsm_write_moved [OF moved_ready [OF page(3)] page(2), of now] by (auto elim!: returnsE)
  have "returns (write_runs now rs s2) (\<lambda>(lat, rs', s'). list_all2 same_run rs' rs \<and> (\<forall>r \<in> set rs'. run_stored i r) \<and>
      moved s2 s' (n + 1 + length rs))"
    using Cons.prems(1,3) moved_ready [OF w(2)] by (intro Cons.IH) simp_all
  moreover have "same_run (r\<lparr>r_pbn := ppa, r_cpt := t\<rparr>) r" "run_stored i (r\<lparr>r_pbn := ppa, r_cpt := t\<rparr>)" for t
    using Cons.prems(1) page(2) by (simp_all add: same_run_def run_stored_def)
  ultimately show ?case
    using page w moved_trans [OF moved_trans [OF page(3) w(2)]]
    by (auto simp: compaction_htable_write_def elim!: returnsE)
qed

lemma array_lev_copy_level:
  assumes "list_all2 same_run (lv_arrs src) rs" "level_lists rs es" "above_min es" "\<forall>r \<in> set (lv_arrs src). run_stored (lv_idx des) r"
    "length rs \<le> lv_m_num des" "lv_isCXL des = False"
  shows "returns (array_lev_copy des src) (\<lambda>(des', src'). level_ok des' es \<and> lv_idx des' = lv_idx des \<and> lv_m_num des' = lv_m_num des)"
proof -
  have "list_all2 same_run (map (\<lambda>r. fst (array_run_cpy_to r)) (lv_arrs src)) rs"
    using assms(1) by (auto simp: list_all2_map1 array_run_cpy_to_def same_run_def elim: list_all2_mono)
  from same_runs_level [OF this, of es] show ?thesis
    using assms list_all2_lengthD [OF assms(1)]
    by (auto simp: array_lev_copy_def level_ok_def array_run_cpy_to_def run_stored_def)
qed

lemma same_runs_refl: "\<forall>r \<in> set rs. r_data r \<noteq> None \<Longrightarrow> list_all2 same_run rs rs"
  by (induction rs) (auto simp: same_run_def)

lemma compaction_empty_level_moves:
  assumes "level_ok src es" "lv_isCXL des = False" "n_num src \<le> lv_m_num des" "ready s n" "n + w \<le> partition_pages MAP"
    "lv_idx des < LEVELCACHING \<or> LEVELCACHING \<le> lv_idx src \<or> n_num src \<le> w"
  shows "returns (compaction_empty_level now (Some src) sz mem des s) (merged_into s (n + w) des es)"
proof -
  have data: "\<forall>r \<in> set (lv_arrs src). r_data r \<noteq> None"
    using assms(1) by (simp add: level_ok_def run_stored_def)
  have "returns (if lv_idx des \<ge> LEVELCACHING \<and> lv_idx src < LEVELCACHING then write_runs now (lv_arrs src) s else Some (0, lv_arrs src, s))
      (\<lambda>(lat, rs, s1). list_all2 same_run rs (lv_arrs src) \<and> (\<forall>r \<in> set rs. run_stored (lv_idx des) r) \<and> moved s s1 (n + w))"
  proof (cases "lv_idx des \<ge> LEVELCACHING \<and> lv_idx src < LEVELCACHING")
    case True
    then show ?thesis
      using write_runs_ok [OF data assms(4), of now "lv_idx des"] assms(5,6) by (auto elim!: returns_mono intro: moved_mono)
  next
    case False
    have "moved s s (n + w)"
      using moved_mono [OF unmoved [OF assms(4)]] by simp
    then show ?thesis
      using False assms(1) same_runs_refl [OF data] by (auto simp: level_ok_def run_stored_def)
  qed
  then obtain lat rs s1 where rs: "(if lv_idx des \<ge> LEVELCACHING \<and> lv_idx src < LEVELCACHING then write_runs now (lv_arrs src) s
      else Some (0, lv_arrs src, s)) = Some (lat, rs, s1)" "list_all2 same_run rs (lv_arrs src)" "\<forall>r \<in> set rs. run_stored (lv_idx des) r"
      "moved s s1 (n + w)"
    by (auto elim!: returnsE)
  have "returns (array_lev_copy des (src\<lparr>lv_arrs := rs\<rparr>)) (\<lambda>(des', src'). level_ok des' es \<and> lv_idx des' = lv_idx des \<and> lv_m_num des' = lv_m_num des)"
    using rs assms(1-3) by (intro array_lev_copy_level [where rs = "lv_arrs src"]) (simp_all add: level_ok_def)
  then show ?thesis
    using rs(1,4) by (auto simp: compaction_empty_level_def Let_def elim!: returnsE)
qed

lemma compaction_empty_level_mem:
  assumes "entries_fit us" "1 < length us" "keys_sorted us" "\<forall>e \<in> set us. good_entry e" "above_min us"
    "lv_arrs des = []" "lv_isCXL des = False" "0 < lv_m_num des" "ready s n" "n + w \<le> partition_pages MAP"
    "lv_idx des < LEVELCACHING \<or> 0 < w"
  shows "returns (compaction_empty_level now None (length us) us des s) (merged_into s (n + w) des us)"
proof -
  obtain p where p: "array_mem_cvt2table (length us) us = Some (Some (fst (hd us)), Some (fst (last us)), p)" "header_page p us"
    using array_mem_cvt2table_page [OF assms(1)] assms(2) by (cases us) (auto elim!: returnsE)
  define r where "r = (array_make_run (fst (hd us)) (fst (last us)) UINT32_MAX)\<lparr>r_data := Some p\<rparr>"
  have r: "run_lists r us" "r_data r = Some p"
    using p(2) assms(2) by (auto simp: r_def run_lists_def page_lists_def data_from_run_def array_make_run_def)
  have lists: "level_lists [r] us"
    using r(1) assms(3,4) by (auto simp: level_lists_def list_all2_Cons1 intro!: exI [of _ "[us]"])
  have done1: "level_ok des' us \<and> lv_idx des' = lv_idx des \<and> lv_m_num des' = lv_m_num des" if "grown des [r] des'" for des'
    using grown_level_ok [OF that assms(6,7) lists assms(5)] assms(8) by simp
  show ?thesis
  proof (cases "lv_idx des < LEVELCACHING")
    case True
    have "returns (array_insert des (r\<lparr>r_iscached := 1\<rparr>)) (\<lambda>(des', r'). grown des [r\<lparr>r_iscached := 1\<rparr>] des')"
      using array_insert_grown [of des "r\<lparr>r_iscached := 1\<rparr>"] assms(6,8) r(2) True by (auto simp: run_stored_def elim!: returnsE)
    then have "returns (array_insert des (r\<lparr>r_iscached := 1\<rparr>)) (\<lambda>(des', r'). grown des [r] des')"
      by (rule returns_mono) (use r(2) in \<open>auto simp: same_run_def intro: grown_same\<close>)
    then show ?thesis
      using True p(1) assms(7) done1 moved_mono [OF unmoved [OF assms(9)], of "n + w"]
      by (auto simp: compaction_empty_level_def Let_def r_def array_make_run_def elim!: returnsE)
  next
    case False
    let ?r = "r\<lparr>r_iscached := 0, r_cpt := Some p\<rparr>"
    have "returns (compaction_htable_write_insert now des ?r s) (\<lambda>(lat, des', s'). grown des [?r] des' \<and> moved s s' (n + 1))"
      using assms r(2) False by (intro htable_write_insert_grown) simp_all
    then have "returns (compaction_htable_write_insert now des ?r s) (\<lambda>(lat, des', s'). grown des [r] des' \<and> moved s s' (n + w))"
      by (rule returns_mono) (use r(2) assms(11) False in \<open>auto simp: same_run_def intro: grown_same moved_mono\<close>)
    then show ?thesis
      using False p(1) done1 by (auto simp: compaction_empty_level_def Let_def r_def array_make_run_def elim!: returnsE)
  qed
qed

section \<open>Leveling keeps the store\<close>

text \<open>Every level lists its entries; an upper level overrides the levels below it.\<close>

definition disk_lists :: "level list \<Rightarrow> entries list \<Rightarrow> bool" where
  "disk_lists ds ess \<longleftrightarrow> list_all2 level_ok ds ess"

fun disk_map :: "entries list \<Rightarrow> str_key \<rightharpoonup> ppa_t" where
  "disk_map [] = Map.empty"
| "disk_map (es # ess) = disk_map ess ++ map_of es"

lemma disk_map_append: "disk_map (xs @ ys) = disk_map ys ++ disk_map xs"
  by (induction xs) simp_all

lemma resized_level: "lv_arrs (lsm_level_resizing l) = []" "lv_isCXL (lsm_level_resizing l) = False" "lv_m_num (lsm_level_resizing l) = lv_m_num l"
  "lv_idx (lsm_level_resizing l) = lv_idx l"
  by (simp_all add: lsm_level_resizing_def array_init_def)

lemma level_ok_flag: "level_ok (l\<lparr>lv_iscompactioning := c\<rparr>) es = level_ok l es"
  by (simp add: level_ok_def)

text \<open>One level into the next one.\<close>

lemma leveling_levels:
  assumes "fresh_pages garbage" "i < length (ls_disk s)" "j < length (ls_disk s)" "i \<noteq> j"
    "level_ok (ls_disk s ! i) us" "level_ok (ls_disk s ! j) ls" "us \<noteq> []" "n_num (ls_disk s ! i) \<le> lv_m_num (ls_disk s ! j)"
    "ls \<noteq> [] \<Longrightarrow> room (ls_disk s ! j) (n_num (ls_disk s ! j) + n_num (ls_disk s ! i)) ls us"
    "ready s n" "n + w \<le> partition_pages MAP" "pages_suffice w (lv_idx (ls_disk s ! j)) (bytes ls + bytes us)"
    "lv_idx (ls_disk s ! j) < LEVELCACHING \<or> LEVELCACHING \<le> lv_idx (ls_disk s ! i) \<or> n_num (ls_disk s ! i) \<le> w"
  shows "returns (leveling now garbage garbage0 (Some i) j sz mem s) (\<lambda>(lat, s'). \<exists>src des.
    ls_disk s' = (ls_disk s)[i := src, j := des] \<and> level_ok src [] \<and> level_ok des (merge_entries ls us) \<and>
    lv_m_num src = lv_m_num (ls_disk s ! i) \<and> lv_m_num des = lv_m_num (ls_disk s ! j) \<and> lv_idx src = lv_idx (ls_disk s ! i) \<and>
    lv_idx des = lv_idx (ls_disk s ! j) \<and> ls_mem s' = ls_mem s \<and> ls_finish s' = ls_finish s \<and> same_data s s' \<and> ready s' (n + w))"
proof -
  let ?t = "lsm_level_resizing (ls_disk s ! j)"
  let ?u = "ls_disk s ! i" and ?o = "ls_disk s ! j"
  have "returns (if n_num ?o = 0 then compaction_empty_level now (Some ?u) sz mem ?t s
      else partial_leveling now garbage garbage0 ?t ?o mem (Some ?u) s) (merged_into s (n + w) ?t (merge_entries ls us))"
  proof (cases "n_num ?o = 0")
    case True
    then have "ls = []"
      using level_ok_Nil [OF assms(6)] by simp
    then show ?thesis
      using True compaction_empty_level_moves [OF assms(5) resized_level(2), of ?o s n w] assms(8,10,11,13) by (simp add: resized_level)
  next
    case False
    then have "ls \<noteq> []"
      using level_ok_Nil [OF assms(6)] by simp
    then show ?thesis
      using False assms partial_leveling_levels [OF assms(1,6,5) _ assms(7) resized_level(1,2), of ?o s n w] by (simp add: room_def resized_level)
  qed
  then obtain lat des s1 where d: "(if n_num ?o = 0 then compaction_empty_level now (Some ?u) sz mem ?t s
      else partial_leveling now garbage garbage0 ?t ?o mem (Some ?u) s) = Some (lat, des, s1)" "merged_into s (n + w) ?t (merge_entries ls us) (lat, des, s1)"
    by (elim returnsE) auto
  have lev: "leveling now garbage garbage0 (Some i) j sz mem s = map_option (\<lambda>s2. (lat, s2)) (level_change (Some i) j des s1)"
    using d(1) assms(2,3) by (auto simp: leveling_def Let_def map_option_case split: if_splits option.splits)
  have disk: "ls_disk s1 = ls_disk s" "ls_mem s1 = ls_mem s" "ls_finish s1 = ls_finish s" "same_data s s1" "ready s1 (n + w)"
    using d(2) by (simp_all add: moved_def resized_level same_data_def)
  let ?src = "array_init (lv_m_num ?u) (lv_idx ?u) (lv_istier ?u)" and ?des = "des\<lparr>lv_iscompactioning := lv_iscompactioning ?o\<rparr>"
  have change: "level_change (Some i) j des s1 = Some (s1\<lparr>ls_disk := (ls_disk s)[i := ?src, j := ?des]\<rparr>)"
    using assms(2,3) disk(1) by (simp add: level_change_def Let_def)
  show ?thesis
    unfolding lev change option.map returns_simps prod.case
    by (rule exI [of _ ?src], rule exI [of _ ?des])
      (use d(2) disk level_ok_empty in \<open>simp add: level_ok_flag resized_level ready_def same_data_def array_init_def\<close>)
qed

text \<open>The list that is flushed goes into the first level.\<close>

lemma leveling_mem:
  assumes "fresh_pages garbage" "length garbage0 = PAGESIZE" "j < length (ls_disk s)" "lv_idx (ls_disk s ! j) < LEVELCACHING"
    "level_ok (ls_disk s ! j) ls" "entries_fit us" "1 < length us" "keys_sorted us" "\<forall>e \<in> set us. good_entry e" "above_min us"
    "0 < lv_m_num (ls_disk s ! j)" "ls \<noteq> [] \<Longrightarrow> room (ls_disk s ! j) (n_num (ls_disk s ! j) + 1) ls us"
    "ready s n" "n + w \<le> partition_pages MAP"
  shows "returns (leveling now garbage garbage0 None j (length us) us s) (\<lambda>(lat, s'). \<exists>des.
    ls_disk s' = (ls_disk s)[j := des] \<and> level_ok des (merge_entries ls us) \<and>
    lv_m_num des = lv_m_num (ls_disk s ! j) \<and> lv_idx des = lv_idx (ls_disk s ! j) \<and> ls_mem s' = ls_mem s \<and> ls_finish s' = ls_finish s \<and> same_data s s' \<and>
    ready s' (n + w))"
proof -
  let ?t = "lsm_level_resizing (ls_disk s ! j)" and ?o = "ls_disk s ! j"
  have "returns (if n_num ?o = 0 then compaction_empty_level now None (length us) us ?t s
      else partial_leveling now garbage garbage0 ?t ?o us None s) (merged_into s (n + w) ?t (merge_entries ls us))"
  proof (cases "n_num ?o = 0")
    case True
    then have "ls = []"
      using level_ok_Nil [OF assms(5)] by simp
    then show ?thesis
      using True compaction_empty_level_mem [OF assms(6-10) resized_level(1,2), of ?o s n w] assms by (simp add: resized_level)
  next
    case False
    then have "ls \<noteq> []" "us \<noteq> []"
      using level_ok_Nil [OF assms(5)] assms(7) by auto
    then show ?thesis
      using False assms partial_leveling_mem [OF assms(1,2,5) _ assms(6,8-10) _ resized_level(1,2), of ?o s n w]
      by (simp add: room_def resized_level pages_suffice_def)
  qed
  then obtain lat des s1 where d: "(if n_num ?o = 0 then compaction_empty_level now None (length us) us ?t s
      else partial_leveling now garbage garbage0 ?t ?o us None s) = Some (lat, des, s1)" "merged_into s (n + w) ?t (merge_entries ls us) (lat, des, s1)"
    by (elim returnsE) auto
  have lev: "leveling now garbage garbage0 None j (length us) us s = map_option (\<lambda>s2. (lat, s2)) (level_change None j des s1)"
    using d(1) assms(3,4) by (auto simp: leveling_def Let_def map_option_case resized_level split: if_splits option.splits)
  have disk: "ls_disk s1 = ls_disk s" "ls_mem s1 = ls_mem s" "ls_finish s1 = ls_finish s" "same_data s s1" "ready s1 (n + w)"
    using d(2) by (simp_all add: moved_def resized_level same_data_def)
  show ?thesis
    unfolding lev using assms(3) d(2) disk
    by (auto simp: level_change_def Let_def level_ok_flag resized_level ready_def same_data_def
        intro!: exI [of _ "des\<lparr>lv_iscompactioning := lv_iscompactioning ?o\<rparr>"])
qed

end
