(* ===== verification/LsmCompact.thy ===== *)
theory LsmCompact
  imports LsmStore
begin

text \<open>
  A compaction keeps the store: moving a level into the next one, or cascading through all levels that are
  full, does not change which page a key is mapped to, and a flush changes exactly the mappings of
  the list that is flushed.  The hypotheses are the room the levels need: the arrays of the source
  have a fixed size and nothing checks them.  The levels have the capacities \<^verbatim>\<open>lsm_create\<close> computes.
\<close>

section \<open>Room in the levels\<close>

abbreviation level_sizes :: "level list \<Rightarrow> nat list" where
  "level_sizes ds \<equiv> map lv_m_num ds"

text \<open>
  The bytes of entries a level has room for, together with those of the levels above it: its runs, when pages are
  filled as far as the merger fills them, and no more than the array for the result of a merge
  takes, whatever the lengths of the keys are.  That array has 500 pages more than the two levels have runs; a page
  holds 2545 bytes at least and 3072 at most.
\<close>

definition level_room :: "nat \<Rightarrow> nat" where
  "level_room j = min (2545 * (lsm_level_sizes ! j - 1)) (2400 * 3072)"

text \<open>Every level has room for its entries and those above it; \<open>extra\<close> are the bytes of a list that is flushed.\<close>

definition store_fits :: "nat \<Rightarrow> entries list \<Rightarrow> bool" where
  "store_fits extra ess \<longleftrightarrow> (\<forall>j < LEVELN. extra + bytes (concat (take (Suc j) ess)) \<le> level_room j)"

lemma level_index: "j < LEVELN \<Longrightarrow> j = 0 \<or> j = 1 \<or> j = 2 \<or> j = 3 \<or> j = 4"
  by (auto simp: LEVELN_def)

lemma level_room_val: "map level_room [0..<LEVELN] = [35630, 501365, 7057285, 7372800, 7372800]"
  by (simp add: level_room_def lsm_level_sizes_value LEVELN_def upt_rec)

lemma level_sizes_mono:
  assumes "Suc i < LEVELN"
  shows "lsm_level_sizes ! i \<le> lsm_level_sizes ! Suc i" "2 < lsm_level_sizes ! i" "2 < lsm_level_sizes ! Suc i"
proof -
  have "i = 0 \<or> i = 1 \<or> i = 2 \<or> i = 3"
    using assms by (simp add: LEVELN_def) linarith
  then show "lsm_level_sizes ! i \<le> lsm_level_sizes ! Suc i" "2 < lsm_level_sizes ! i" "2 < lsm_level_sizes ! Suc i"
    by (auto simp: lsm_level_sizes_value)
qed

lemma store_fits_mono:
  assumes "store_fits extra ess" "\<forall>j < LEVELN. extra' + bytes (concat (take (Suc j) ess')) \<le> extra + bytes (concat (take (Suc j) ess))"
  shows "store_fits extra' ess'"
  using assms unfolding store_fits_def by (meson le_trans)

text \<open>A level does not need more bytes than its runs have.\<close>

lemma level_ok_bytes:
  assumes "level_ok lev es"
  shows "bytes es \<le> 3072 * n_num lev"
proof -
  obtain ess where "list_all2 run_lists (lv_arrs lev) ess" "es = concat ess"
    using assms by (auto simp: level_ok_def level_lists_def)
  then show ?thesis
    using page_bytes [OF run_lists_pages [of "lv_arrs lev" ess]] list_all2_lengthD [of run_lists "lv_arrs lev" ess] by simp
qed

lemma few_bytes_runs:
  "bytes ls \<le> 3072 * n \<Longrightarrow> bytes us \<le> 3072 * k \<Longrightarrow> bytes ls + bytes us \<le> 2400 * 3072 \<Longrightarrow> few_bytes (n + k) ls us"
  by (simp add: few_bytes_def result_padding_def)

text \<open>The bytes of the levels down to each of them grow by no more than \<open>extra\<close>.\<close>

definition grows :: "nat \<Rightarrow> entries list \<Rightarrow> entries list \<Rightarrow> bool" where
  "grows extra ess ess' \<longleftrightarrow> (\<forall>j. bytes (concat (take (Suc j) ess')) \<le> extra + bytes (concat (take (Suc j) ess)))"

lemma grows_refl: "grows 0 ess ess"
  by (simp add: grows_def)

lemma growsD: "grows a ess ess' \<Longrightarrow> bytes (concat (take (Suc j) ess')) \<le> a + bytes (concat (take (Suc j) ess))"
  by (simp add: grows_def)

lemma grows_trans:
  assumes "grows a ess ess1" "grows b ess1 ess2"
  shows "grows (a + b) ess ess2"
  unfolding grows_def
proof
  fix j
  show "bytes (concat (take (Suc j) ess2)) \<le> a + b + bytes (concat (take (Suc j) ess))"
    using growsD [OF assms(1), of j] growsD [OF assms(2), of j] by linarith
qed

lemma store_fits_grows:
  assumes "store_fits (a + b) ess" "grows a ess ess'"
  shows "store_fits b ess'"
proof (rule store_fits_mono [OF assms(1)], intro allI impI)
  fix j
  show "b + bytes (concat (take (Suc j) ess')) \<le> a + b + bytes (concat (take (Suc j) ess))"
    using growsD [OF assms(2), of j] by linarith
qed

section \<open>One level into the next\<close>

definition pushed :: "nat \<Rightarrow> entries list \<Rightarrow> entries list" where
  "pushed i ess = ess[i := [], Suc i := merge_entries (ess ! Suc i) (ess ! i)]"

lemma pushed_append: "pushed (length pre) (pre @ us # ls # post) = pre @ [] # merge_entries ls us # post"
  by (simp add: pushed_def nth_append list_update_append)

lemma two_levels:
  assumes "Suc i < length ess"
  obtains pre post where "ess = pre @ ess ! i # ess ! Suc i # post" "length pre = i"
  using that [of "take i ess" "drop (Suc (Suc i)) ess"] assms by (metis Cons_nth_drop_Suc Suc_lessD id_take_nth_drop length_take min.absorb4)

lemma pushed_map:
  assumes "Suc i < length ess" "\<forall>es \<in> set ess. keys_sorted es"
  shows "disk_map (pushed i ess) = disk_map ess"
proof -
  obtain pre post where ess: "ess = pre @ ess ! i # ess ! Suc i # post" "length pre = i"
    using two_levels [OF assms(1)] .
  have "keys_sorted (ess ! i)" "keys_sorted (ess ! Suc i)"
    using assms by simp_all
  then have "disk_map (pre @ [] # merge_entries (ess ! Suc i) (ess ! i) # post) = disk_map (pre @ ess ! i # ess ! Suc i # post)"
    by (simp add: disk_map_append merge_entries_map)
  then show ?thesis
    using ess pushed_append [of pre "ess ! i" "ess ! Suc i" post] by metis
qed

lemma pushed_grows:
  assumes "Suc i < length ess"
  shows "grows 0 ess (pushed i ess)"
proof -
  obtain pre post where ess: "ess = pre @ ess ! i # ess ! Suc i # post" "length pre = i"
    using two_levels [OF assms] .
  have "bytes (concat (take (Suc j) (pre @ [] # merge_entries ls us # post))) \<le> bytes (concat (take (Suc j) (pre @ us # ls # post)))" for us ls j
  proof (cases "Suc j - length pre")
    case (Suc k)
    then show ?thesis
      using merge_entries_bytes [of ls us] by (cases k) auto
  qed simp
  then have "grows 0 (pre @ us # ls # post) (pre @ [] # merge_entries ls us # post)" for us ls
    by (simp add: grows_def)
  then show ?thesis
    using ess pushed_append [of pre "ess ! i" "ess ! Suc i" post] by metis
qed

text \<open>The store: what the levels list, their capacities, and that there is room.\<close>

definition stores :: "lsm_t \<Rightarrow> nat \<Rightarrow> entries list \<Rightarrow> bool" where
  "stores s n ess \<longleftrightarrow> disk_lists (ls_disk s) ess \<and> level_sizes (ls_disk s) = lsm_level_sizes \<and>
     map lv_idx (ls_disk s) = [0..<LEVELN] \<and> store_fits 0 ess \<and> ready s n"

definition same_levels :: "lsm_t \<Rightarrow> lsm_t \<Rightarrow> bool" where
  "same_levels s s' \<longleftrightarrow> level_sizes (ls_disk s') = level_sizes (ls_disk s) \<and> map lv_idx (ls_disk s') = map lv_idx (ls_disk s) \<and>
     ls_mem s' = ls_mem s \<and> ls_finish s' = ls_finish s"

definition same_shape :: "lsm_t \<Rightarrow> lsm_t \<Rightarrow> bool" where
  "same_shape s s' \<longleftrightarrow> same_levels s s' \<and> same_data s s'"

lemmas shape_defs = same_shape_def same_levels_def same_data_def

lemma stores_length:
  assumes "stores s n ess"
  shows "length ess = LEVELN" "length (ls_disk s) = LEVELN"
proof -
  have "length (map lv_idx (ls_disk s)) = length [0..<LEVELN]"
    using assms by (simp add: stores_def)
  then show "length (ls_disk s) = LEVELN"
    by simp
  then show "length ess = LEVELN"
    using assms by (auto simp: stores_def disk_lists_def dest: list_all2_lengthD)
qed

lemma stores_size:
  assumes "stores s n ess" "i < LEVELN"
  shows "lv_m_num (ls_disk s ! i) = lsm_level_sizes ! i" "lv_idx (ls_disk s ! i) = i"
proof -
  have i: "i < length (ls_disk s)"
    using stores_length [OF assms(1)] assms(2) by simp
  have "level_sizes (ls_disk s) ! i = lsm_level_sizes ! i" "map lv_idx (ls_disk s) ! i = [0..<LEVELN] ! i"
    using assms(1) by (simp_all add: stores_def)
  then show "lv_m_num (ls_disk s ! i) = lsm_level_sizes ! i" "lv_idx (ls_disk s ! i) = i"
    using i assms(2) by simp_all
qed

lemma stores_level: "stores s n ess \<Longrightarrow> i < LEVELN \<Longrightarrow> level_ok (ls_disk s ! i) (ess ! i)"
  using stores_length [of s n ess] by (auto simp: stores_def disk_lists_def dest: list_all2_nthD)

lemma lists_sorted: "disk_lists ds ess \<Longrightarrow> \<forall>es \<in> set ess. keys_sorted es"
  using level_ok_entries unfolding disk_lists_def by (metis in_set_conv_nth list_all2_conv_all_nth)

lemma stores_sorted: "stores s n ess \<Longrightarrow> \<forall>es \<in> set ess. keys_sorted es"
  using lists_sorted [of "ls_disk s" ess] by (simp add: stores_def)

lemma stores_same:
  assumes "stores s n ess" "same_shape s s'" "disk_lists (ls_disk s') ess'" "grows 0 ess ess'" "ready s' m"
  shows "stores s' m ess'"
  using assms store_fits_grows [of 0 0 ess ess'] by (simp add: stores_def shape_defs)

text \<open>
  What moving a level \<open>u\<close> with the entries \<open>us\<close> into the level \<open>lev\<close> with the entries \<open>ls\<close> needs: runs in the
  level, pages in the array for the result of a merge, and \<open>w\<close> pages of the metadata partition, unless the level is
  cached.
\<close>

definition move_room :: "level \<Rightarrow> level \<Rightarrow> entries \<Rightarrow> entries \<Rightarrow> bool" where
  "move_room lev u ls us \<longleftrightarrow> n_num u \<le> lv_m_num lev \<and> (ls \<noteq> [] \<longrightarrow> room lev (n_num lev + n_num u) ls us)"

definition move_pages :: "nat \<Rightarrow> level \<Rightarrow> level \<Rightarrow> entries \<Rightarrow> entries \<Rightarrow> bool" where
  "move_pages w lev u ls us \<longleftrightarrow> pages_suffice w (lv_idx lev) (bytes ls + bytes us) \<and>
     (lv_idx lev < LEVELCACHING \<or> LEVELCACHING \<le> lv_idx u \<or> n_num u \<le> w)"

lemma leveling_pushed:
  assumes "fresh_pages garbage" "disk_lists (ls_disk s) ess" "ready s n" "Suc i < length (ls_disk s)" "ess ! i \<noteq> []"
    "move_room (ls_disk s ! Suc i) (ls_disk s ! i) (ess ! Suc i) (ess ! i)"
    "move_pages w (ls_disk s ! Suc i) (ls_disk s ! i) (ess ! Suc i) (ess ! i)" "n + w \<le> partition_pages MAP"
  shows "returns (leveling now garbage garbage0 (Some i) (Suc i) sz mem s) (\<lambda>(lat, s').
    disk_lists (ls_disk s') (pushed i ess) \<and> ready s' (n + w) \<and> same_shape s s')"
proof -
  let ?o = "ls_disk s ! Suc i" and ?u = "ls_disk s ! i" and ?ms = "level_sizes (ls_disk s)"
  have i: "level_ok ?u (ess ! i)" "level_ok ?o (ess ! Suc i)"
    using assms(2,4) by (auto simp: disk_lists_def list_all2_conv_all_nth)
  have lev: "returns (leveling now garbage garbage0 (Some i) (Suc i) sz mem s) (\<lambda>(lat, s'). \<exists>src des.
      ls_disk s' = (ls_disk s)[i := src, Suc i := des] \<and> level_ok src [] \<and> level_ok des (merge_entries (ess ! Suc i) (ess ! i)) \<and>
      lv_m_num src = lv_m_num ?u \<and> lv_m_num des = lv_m_num ?o \<and> lv_idx src = lv_idx ?u \<and>
      lv_idx des = lv_idx ?o \<and> ls_mem s' = ls_mem s \<and> ls_finish s' = ls_finish s \<and> same_data s s' \<and> ready s' (n + w))"
    using assms i by (intro leveling_levels) (simp_all add: move_room_def move_pages_def)
  have sizes: "level_sizes ((ls_disk s)[i := src, Suc i := des]) = ?ms"
    "map lv_idx ((ls_disk s)[i := src, Suc i := des]) = map lv_idx (ls_disk s)"
    if "lv_m_num src = lv_m_num ?u" "lv_m_num des = lv_m_num ?o" "lv_idx src = lv_idx ?u" "lv_idx des = lv_idx ?o" for src des
    using assms(4) that by (auto simp: list_eq_iff_nth_eq nth_list_update)
  have lists: "disk_lists ((ls_disk s)[i := src, Suc i := des]) (pushed i ess)"
    if "level_ok src []" "level_ok des (merge_entries (ess ! Suc i) (ess ! i))" for src des
    using assms(2) that by (auto simp: pushed_def disk_lists_def intro!: list_all2_update_cong)
  show ?thesis
    using lev by (auto simp: shape_defs sizes intro: lists elim!: returns_mono)
qed

text \<open>
  The pages of a store with its capacities: 2898 are enough for a level on the device, and the cached levels need none.
\<close>

definition level_cost :: "nat \<Rightarrow> nat" where
  "level_cost j = (if j < LEVELCACHING then 0 else 2898)"

lemma stores_room:
  assumes "stores s n ess" "Suc i < LEVELN"
  shows "move_room (ls_disk s ! Suc i) (ls_disk s ! i) (ess ! Suc i) (ess ! i)"
    "move_pages (level_cost (Suc i)) (ls_disk s ! Suc i) (ls_disk s ! i) (ess ! Suc i) (ess ! i)"
proof -
  let ?o = "ls_disk s ! Suc i" and ?u = "ls_disk s ! i"
  have i: "level_ok ?u (ess ! i)" "level_ok ?o (ess ! Suc i)"
    using stores_level [OF assms(1)] assms(2) by simp_all
  have size: "lv_m_num ?o = lsm_level_sizes ! Suc i" "lv_m_num ?u = lsm_level_sizes ! i" "lv_idx ?o = Suc i" "lv_idx ?u = i"
    using stores_size [OF assms(1)] assms(2) by simp_all
  have "bytes (ess ! Suc i) + bytes (ess ! i) \<le> bytes (concat (take (Suc (Suc i)) ess))"
    using assms(2) stores_length(1) [OF assms(1)] by (simp add: take_Suc_conv_app_nth)
  moreover have "bytes (concat (take (Suc (Suc i)) ess)) \<le> level_room (Suc i)"
    using assms by (auto simp: stores_def store_fits_def)
  ultimately have b: "bytes (ess ! Suc i) + bytes (ess ! i) \<le> 2545 * (lv_m_num ?o - 1)"
      "bytes (ess ! Suc i) + bytes (ess ! i) \<le> 2400 * 3072"
    by (simp_all add: level_room_def size)
  have runs: "n_num ?u \<le> lsm_level_sizes ! i"
    using i(1) size(2) by (simp add: level_ok_def)
  show "move_room ?o ?u (ess ! Suc i) (ess ! i)"
    using b runs level_sizes_mono [OF assms(2)] size few_bytes_runs [OF level_ok_bytes [OF i(2)] level_ok_bytes [OF i(1)]]
    by (simp add: move_room_def room_def)
  have "i = 0 \<or> i = 1 \<or> i = 2 \<or> LEVELCACHING \<le> i"
    by (simp add: LEVELCACHING_def) linarith
  then have "LEVELCACHING \<le> i \<or> lsm_level_sizes ! i \<le> 2898"
    by (auto simp: lsm_level_sizes_value)
  then have cached: "LEVELCACHING \<le> i \<or> n_num ?u \<le> 2898"
    using runs by linarith
  show "move_pages (level_cost (Suc i)) ?o ?u (ess ! Suc i) (ess ! i)"
    using b(2) cached size by (auto simp: move_pages_def pages_suffice_def level_cost_def)
qed

lemma leveling_next:
  assumes "fresh_pages garbage" "stores s n ess" "Suc i < LEVELN" "ess ! i \<noteq> []"
    "n + level_cost (Suc i) \<le> partition_pages MAP"
  shows "returns (leveling now garbage garbage0 (Some i) (Suc i) sz mem s) (\<lambda>(lat, s').
    stores s' (n + level_cost (Suc i)) (pushed i ess) \<and> same_shape s s')"
proof -
  have len: "Suc i < length ess" "Suc i < length (ls_disk s)"
    using stores_length [OF assms(2)] assms(3) by simp_all
  have "disk_lists (ls_disk s) ess" "ready s n"
    using assms(2) by (simp_all add: stores_def)
  from leveling_pushed [OF assms(1) this len(2) assms(4) stores_room [OF assms(2,3)] assms(5)] show ?thesis
    by (rule returns_mono) (use stores_same [OF assms(2)] pushed_grows [OF len(1)] in auto)
qed

text \<open>
  C7. Moving a level down.  \<^verbatim>\<open>leveling\<close> on a non-empty level \<open>i\<close> of a store whose levels hold the
  sorted entry lists \<open>ess\<close> returns; afterwards the levels hold lists that map every key to the page it
  had, the upper level is empty, every level but these two holds what it held, and capacities, list and finished requests are
  unchanged.  Both branches are covered: the lower level empty (\<^verbatim>\<open>compaction_empty_level\<close>) and the merge of
  the two (\<^verbatim>\<open>partial_leveling\<close>).  The hypotheses are the limits that nothing in the source checks: the lower level has
  room for the merged runs and the result array of the merge for its pages (\<open>move_room\<close>), the metadata
  partition has the \<open>w\<close> pages the lower level may need (\<open>move_pages\<close>), and pages from \<^verbatim>\<open>malloc\<close> have their size.
\<close>

theorem leveling_keeps_store:
  assumes "fresh_pages garbage" "disk_lists (ls_disk s) ess" "ready s n" "Suc i < length (ls_disk s)" "ess ! i \<noteq> []"
    "move_room (ls_disk s ! Suc i) (ls_disk s ! i) (ess ! Suc i) (ess ! i)"
    "move_pages w (ls_disk s ! Suc i) (ls_disk s ! i) (ess ! Suc i) (ess ! i)" "n + w \<le> partition_pages MAP"
  shows "returns (leveling now garbage garbage0 (Some i) (Suc i) sz mem s) (\<lambda>(lat, s'). \<exists>ess'.
    disk_lists (ls_disk s') ess' \<and> disk_map ess' = disk_map ess \<and> ess' ! i = [] \<and> (\<forall>j. j \<in> {i, Suc i} \<or> ess' ! j = ess ! j) \<and>
    ready s' (n + w) \<and> same_shape s s')"
proof -
  have len: "Suc i < length ess"
    using assms(2,4) by (simp add: disk_lists_def list_all2_lengthD)
  have "disk_map (pushed i ess) = disk_map ess" "pushed i ess ! i = []"
    using pushed_map [OF len lists_sorted [OF assms(2)]] len by (simp_all add: pushed_def)
  moreover have "j \<in> {i, Suc i} \<or> pushed i ess ! j = ess ! j" for j
    by (cases "j = i"; cases "j = Suc i") (simp_all add: pushed_def)
  ultimately show ?thesis
    using leveling_pushed [OF assms, of now garbage0 sz mem] by (auto elim!: returns_mono)
qed

section \<open>Cascading\<close>

text \<open>A level that counts as full is not empty.\<close>

lemma full_not_empty:
  assumes "def_full_chk lev" "2 < lv_m_num lev"
  shows "lv_arrs lev \<noteq> []"
proof
  assume "lv_arrs lev = []"
  moreover have "0 < int (lv_m_num lev) * 13683913 div 14732489"
    using assms(2) by (simp add: pos_imp_zdiv_pos_iff)
  ultimately show False
    using assms unfolding def_full_chk_def size_factor_value by (simp add: Let_def split: if_splits)
qed

lemma stores_flag:
  assumes "stores s n ess" "i < LEVELN"
  shows "stores (s\<lparr>ls_disk := (ls_disk s)[i := (ls_disk s ! i)\<lparr>lv_iscompactioning := c\<rparr>]\<rparr>) n ess"
    "same_shape s (s\<lparr>ls_disk := (ls_disk s)[i := (ls_disk s ! i)\<lparr>lv_iscompactioning := c\<rparr>]\<rparr>)"
proof -
  let ?ds = "(ls_disk s)[i := (ls_disk s ! i)\<lparr>lv_iscompactioning := c\<rparr>]"
  have i: "i < length (ls_disk s)"
    using stores_length(2) [OF assms(1)] assms(2) by simp
  have sizes: "level_sizes ?ds = level_sizes (ls_disk s)" "map lv_idx ?ds = map lv_idx (ls_disk s)"
    using i by (auto simp: list_eq_iff_nth_eq nth_list_update)
  have "disk_lists ?ds ess"
    using assms i by (auto simp: stores_def disk_lists_def list_all2_conv_all_nth nth_list_update level_ok_flag)
  then show "stores (s\<lparr>ls_disk := ?ds\<rparr>) n ess"
    using assms(1) sizes by (simp add: stores_def ready_def)
  show "same_shape s (s\<lparr>ls_disk := ?ds\<rparr>)"
    using sizes by (simp add: shape_defs)
qed

lemma same_shape_trans: "same_shape s s1 \<Longrightarrow> same_shape s1 s2 \<Longrightarrow> same_shape s s2"
  by (simp add: shape_defs)

lemma same_shape_refl: "same_shape s s"
  by (simp add: shape_defs)

lemma stores_mono: "stores s n ess \<Longrightarrow> n \<le> m \<Longrightarrow> stores s m ess"
  by (auto simp: stores_def intro: ready_mono)

text \<open>The pages that cascading from a level on takes.\<close>

definition cost_below :: "nat \<Rightarrow> nat" where
  "cost_below i = sum_list (map level_cost [Suc i..<LEVELN])"

lemma cost_below_Suc: "Suc i < LEVELN \<Longrightarrow> cost_below i = level_cost (Suc i) + cost_below (Suc i)"
  by (simp add: cost_below_def upt_conv_Cons)

lemma cascade_keeps:
  assumes "fresh_pages garbage" "stores s n ess" "i + k = LEVELN" "0 < k" "n + cost_below i \<le> partition_pages MAP"
  shows "returns (cascade k i now garbage garbage0 s) (\<lambda>(lat, s'). \<exists>ess'.
    stores s' (n + cost_below i) ess' \<and> disk_map ess' = disk_map ess \<and> same_shape s s' \<and> grows 0 ess ess')"
  using assms
proof (induction k arbitrary: i s n ess)
  case (Suc k)
  let ?l = "ls_disk s ! i"
  have i: "i < length (ls_disk s)" "i < LEVELN"
    using Suc.prems(3) stores_length(2) [OF Suc.prems(2)] by simp_all
  have stay: "stores s (n + cost_below i) ess"
    using stores_mono [OF Suc.prems(2)] by simp
  show ?case
  proof (cases "def_full_chk ?l \<and> Suc i < LEVELN")
    case False
    then show ?thesis
      using i stay same_shape_refl grows_refl by (auto simp: Let_def)
  next
    case full: True
    note sum = cost_below_Suc [OF conjunct2 [OF full]]
    have "lv_arrs ?l \<noteq> []"
      using full_not_empty [of ?l] stores_size(1) [OF Suc.prems(2) i(2)] level_sizes_mono(2) [OF conjunct2 [OF full]] full by simp
    then have ne: "ess ! i \<noteq> []"
      using level_ok_Nil [OF stores_level [OF Suc.prems(2) i(2)]] by simp
    let ?n = "n + level_cost (Suc i)"
    obtain lat s1 where lev: "leveling now garbage garbage0 (Some i) (Suc i) 0 [] s = Some (lat, s1)"
        "stores s1 ?n (pushed i ess)" "same_shape s s1"
      using leveling_next [OF Suc.prems(1,2) _ ne, of now garbage0 0 "[]"] full Suc.prems(5) sum by (auto elim!: returnsE)
    let ?s2 = "s1\<lparr>ls_disk := (ls_disk s1)[i := (ls_disk s1 ! i)\<lparr>lv_iscompactioning := False\<rparr>]\<rparr>"
    have s2: "stores ?s2 ?n (pushed i ess)" "same_shape s ?s2"
      using stores_flag [OF lev(2) i(2), of False] same_shape_trans [OF lev(3)] by simp_all
    have "returns (cascade k (Suc i) now garbage garbage0 ?s2) (\<lambda>(lat, s'). \<exists>ess'.
        stores s' (?n + cost_below (Suc i)) ess' \<and> disk_map ess' = disk_map (pushed i ess) \<and> same_shape ?s2 s' \<and>
        grows 0 (pushed i ess) ess')"
      using full Suc.prems(3,5) sum by (intro Suc.IH [OF Suc.prems(1) s2(1)]) simp_all
    then obtain lat' s3 ess' where rest: "cascade k (Suc i) now garbage garbage0 ?s2 = Some (lat', s3)"
        "stores s3 (?n + cost_below (Suc i)) ess'" "disk_map ess' = disk_map (pushed i ess)" "same_shape ?s2 s3"
        "grows 0 (pushed i ess) ess'"
      by (auto elim!: returnsE)
    have len: "Suc i < length ess"
      using full stores_length(1) [OF Suc.prems(2)] by simp
    have "disk_map ess' = disk_map ess"
      using rest(3) pushed_map [OF len stores_sorted [OF Suc.prems(2)]] by simp
    moreover have "stores s3 (n + cost_below i) ess'"
      using rest(2) sum by (simp add: add.assoc)
    moreover have "grows 0 ess ess'"
      using grows_trans [OF pushed_grows [OF len] rest(5)] by simp
    moreover have "cascade (Suc k) i now garbage garbage0 s = Some (lat + lat', s3)"
      using full i lev(1) rest(1) by (simp add: Let_def)
    ultimately show ?thesis
      using same_shape_trans [OF s2(2) rest(4)] by auto
  qed
qed simp

section \<open>Flushing\<close>

text \<open>The entries of a list whose values have been placed, from data page \<open>d\<close> on.\<close>

definition flushed :: "nat \<Rightarrow> lsm_snode list \<Rightarrow> entries" where
  "flushed d ns = map (\<lambda>i. (sn_key (ns ! i), node_page d ns i)) [0..<length ns]"

lemma flushed_keys: "map fst (flushed d ns) = map sn_key ns"
  by (rule nth_equalityI) (simp_all add: flushed_def)

lemma flushed_length: "length (flushed d ns) = length ns"
  by (simp add: flushed_def)

lemma flushed_bytes: "bytes (flushed d ns) = keylens ns"
proof -
  have "bytes (flushed d ns) = sum_list (map (\<lambda>k. length k + 4) (map fst (flushed d ns)))"
    by (simp only: map_map comp_def)
  also have "\<dots> = keylens ns"
    unfolding flushed_keys by (simp only: map_map comp_def)
  finally show ?thesis .
qed

text \<open>The pages the list needs are pages of the device.\<close>

definition data_room :: "nat \<Rightarrow> nat \<Rightarrow> bool" where
  "data_room d n \<longleftrightarrow> nth_page DATA (d + 2 * n) \<le> NOP"

lemma data_roomD: "data_room d n \<Longrightarrow> d + 2 * n \<le> partition_pages DATA" "data_room d n \<Longrightarrow> i \<le> n \<Longrightarrow> nth_page DATA (d + i) \<le> NOP"
  by (auto simp: data_room_def nth_page_def partition_pages_def lo_sblk_def hi_sblk_def NOP_val PPS_val)

lemma flushed_nodes:
  assumes "map sn_key ns' = map sn_key ns" "map sn_ppa ns' = map (node_page d ns) [0..<length ns]"
  shows "node_entries ns' = flushed d ns"
proof (rule nth_equalityI)
  have len: "length ns' = length ns"
    using assms(1) map_eq_imp_length_eq by blast
  then show "length (node_entries ns') = length (flushed d ns)"
    by (simp add: flushed_def)
  fix i assume "i < length (node_entries ns')"
  then have i: "i < length ns'" "i < length ns"
    using len by simp_all
  have "map sn_key ns' ! i = map sn_key ns ! i" "map sn_ppa ns' ! i = map (node_page d ns) [0..<length ns] ! i"
    using assms by simp_all
  then show "node_entries ns' ! i = flushed d ns ! i"
    using i by (simp add: flushed_def)
qed

lemma whole_rank: "length (filter P (take i ns)) \<le> i"
  by (rule order_trans [OF length_filter_le]) simp

lemma flushed_good:
  assumes "mem_ok l" "data_room d (length (mt_nodes l))"
  shows "\<forall>e \<in> set (flushed d (mt_nodes l)). good_entry e" "keys_sorted (flushed d (mt_nodes l))"
proof -
  let ?ns = "mt_nodes l"
  have "node_page d ?ns i < NOP" if "i < length ?ns" for i
  proof -
    have "nth_page DATA (d + Suc i) \<le> NOP" "length (filter whole_page (take i ?ns)) \<le> i"
      using data_roomD(2) [OF assms(2), of "Suc i"] that whole_rank by simp_all
    then show ?thesis
      by (simp add: node_page_def nth_page_def NOP_val)
  qed
  moreover have "\<forall>n \<in> set ?ns. node_ok n"
    using assms(1) by (simp add: mem_ok_def)
  ultimately show "\<forall>e \<in> set (flushed d ?ns). good_entry e"
    by (auto simp: flushed_def good_entry_def node_ok_def)
  have "sorted_wrt key_less (map fst (flushed d ?ns))"
    unfolding flushed_keys using assms(1) by (simp add: mem_ok_def)
  then show "keys_sorted (flushed d ?ns)"
    by (simp add: keys_sorted_def sorted_wrt_map)
qed

lemma write_pages_moved:
  assumes "ready s n" "\<forall>a \<in> set ppas. a < 1178 * PPS"
  shows "returns (write_pages now ppas s) (\<lambda>(lat, s'). moved s s' n)"
  using assms
proof (induction ppas arbitrary: s)
  case (Cons a ppas)
  obtain lat s1 where w: "lsm_write now a s = Some (lat, s1)" "moved s s1 n"
    using lsm_write_moved [OF Cons.prems(1), of a now] Cons.prems(2) by (auto elim!: returnsE)
  then show ?case
    using Cons.IH [OF moved_ready [OF w(2)]] Cons.prems(2) moved_trans [OF w(2)] by (auto elim!: returnsE)
qed (simp add: unmoved)

lemma compaction_data_write_ok:
  assumes "mem_ok l" "handed_out (ls_alloc s) DATA d" "data_room d (length (mt_nodes l))" "ready s n"
  shows "returns (compaction_data_write now l s) (\<lambda>(lat, l', s').
    node_entries (mt_nodes l') = flushed d (mt_nodes l) \<and> mt_size l' = length (mt_nodes l) \<and>
    ls_disk s' = ls_disk s \<and> ls_mem s' = ls_mem s \<and> ls_finish s' = ls_finish s \<and> ready s' n \<and>
    (\<exists>m \<le> d + 2 * length (mt_nodes l). handed_out (ls_alloc s') DATA m))"
proof -
  obtain vs l1 st m where v: "skiplist_make_valueset l (ls_alloc s) = Some (vs, l1, st)"
      "vs_pages vs = map (nth_page DATA) [d..<d + length (filter whole_page (mt_nodes l))]"
      "map sn_key (mt_nodes l1) = map sn_key (mt_nodes l)"
      "map sn_ppa (mt_nodes l1) = map (node_page d (mt_nodes l)) [0..<length (mt_nodes l)]"
      "mt_size l1 = mt_size l" "alloc_step (ls_alloc s) st m"
      "m \<le> d + 2 * length (mt_nodes l)"
    using make_valueset_nodes [OF assms(1,2) data_roomD(1) [OF assms(3)]] by (auto elim!: returnsE)
  have "nth_page DATA i < 1178 * PPS" if "i < d + length (filter whole_page (mt_nodes l))" for i
  proof -
    have "i < partition_pages DATA"
      using that data_roomD(1) [OF assms(3)] length_filter_le [of whole_page "mt_nodes l"] by linarith
    then show ?thesis
      by (rule nth_page_bound)
  qed
  then have pages: "\<forall>a \<in> set (vs_pages vs). a < 1178 * PPS"
    using v(2) by auto
  have "ready (s\<lparr>ls_alloc := st\<rparr>) n"
    using assms(4) v(6) by (auto simp: ready_def alloc_step_def)
  from write_pages_moved [OF this pages, of now] show ?thesis
    using v(1,5) flushed_nodes [OF v(3,4)] assms(1)
      v(6,7)
    by (auto simp: compaction_data_write_def moved_def mem_ok_def alloc_step_def elim!: returnsE intro!: exI [of _ m])
qed

text \<open>
  A list fits a compaction: two nodes at least, since the key range of a single node is read from a freed key, and
  no more than a metadata page takes, which is what cutting returns.
\<close>

definition flushable :: "nat \<Rightarrow> memtable \<Rightarrow> bool" where
  "flushable d l \<longleftrightarrow> mem_ok l \<and> 2 \<le> length (mt_nodes l) \<and> length (mt_nodes l) \<le> 510 \<and> keylens (mt_nodes l) \<le> 3072 \<and>
     (\<forall>n \<in> set (mt_nodes l). \<not> key_less (sn_key n) lsm_key_min) \<and> data_room d (length (mt_nodes l))"

lemma flushable_entries:
  assumes "flushable d l"
  shows "entries_fit (flushed d (mt_nodes l))" "above_min (flushed d (mt_nodes l))" "1 < length (flushed d (mt_nodes l))"
proof -
  note f = assms [unfolded flushable_def]
  have good: "\<forall>e \<in> set (flushed d (mt_nodes l)). good_entry e"
    using flushed_good(1) f by blast
  show "entries_fit (flushed d (mt_nodes l))"
    using f good good_entry_size flushed_bytes [of d "mt_nodes l"] flushed_length [of d "mt_nodes l"]
    unfolding entries_fit_def hoff_def by (simp add: KEYBITMAP_def PAGESIZE_def)
  show "above_min (flushed d (mt_nodes l))"
    using f by (auto simp: flushed_def)
  show "1 < length (flushed d (mt_nodes l))"
    using f by (simp add: flushed_def)
qed

lemma map_update_same: "i < length xs \<Longrightarrow> f y = f (xs ! i) \<Longrightarrow> map f (xs[i := y]) = map f xs"
  by (metis list_update_id map_update nth_map)

lemma flush_into_first:
  assumes "fresh_pages garbage" "length garbage0 = PAGESIZE" "stores s n ess" "flushable d l"
    "store_fits (keylens (mt_nodes l)) ess" "n \<le> partition_pages MAP"
  defines "us \<equiv> flushed d (mt_nodes l)"
  shows "returns (leveling now garbage garbage0 None 0 (length (mt_nodes l)) us s) (\<lambda>(lat, s').
    stores s' n (ess[0 := merge_entries (ess ! 0) us]) \<and> same_shape s s' \<and>
    grows (keylens (mt_nodes l)) ess (ess[0 := merge_entries (ess ! 0) us]))"
proof -
  let ?o = "ls_disk s ! 0" and ?ms = "level_sizes (ls_disk s)" and ?ess = "ess[0 := merge_entries (ess ! 0) us]"
  note e = flushable_entries [OF assms(4), folded us_def]
  have good: "\<forall>e \<in> set us. good_entry e" "keys_sorted us"
    using flushed_good [of l d] assms(4) by (simp_all add: us_def flushable_def)
  have bytes: "bytes us = keylens (mt_nodes l)" and len: "length us = length (mt_nodes l)"
    unfolding us_def by (rule flushed_bytes) (simp add: flushed_def)
  have L: "0 < LEVELN"
    by (simp add: LEVELN_def)
  have d: "0 < length (ls_disk s)" "0 < length ess"
    using stores_length [OF assms(3)] L by simp_all
  have o: "level_ok ?o (ess ! 0)" "lv_m_num ?o = 15" "lv_idx ?o = 0"
    using stores_level [OF assms(3) L] stores_size [OF assms(3) L] by (simp_all add: lsm_level_sizes_value)
  have "take (Suc 0) ess = [ess ! 0]"
    using d(2) by (cases ess) auto
  then have b: "bytes us + bytes (ess ! 0) \<le> 35630"
    using assms(5) L unfolding store_fits_def bytes by (auto dest!: spec [of _ 0] simp: level_room_def lsm_level_sizes_value)
  then have room: "room ?o (n_num ?o + 1) (ess ! 0) us"
    using o(2) few_bytes_runs [OF level_ok_bytes [OF o(1)], of us 1] bytes assms(4) by (simp add: room_def flushable_def)
  have lev: "returns (leveling now garbage garbage0 None 0 (length us) us s) (\<lambda>(lat, s'). \<exists>des.
      ls_disk s' = (ls_disk s)[0 := des] \<and> level_ok des (merge_entries (ess ! 0) us) \<and>
      lv_m_num des = lv_m_num ?o \<and> lv_idx des = lv_idx ?o \<and> ls_mem s' = ls_mem s \<and> ls_finish s' = ls_finish s \<and> same_data s s' \<and> ready s' (n + 0))"
    using assms(1,2,3,6) d(1) o e good room by (intro leveling_mem) (simp_all add: LEVELCACHING_def stores_def)
  have sizes: "level_sizes ((ls_disk s)[0 := des]) = ?ms" "map lv_idx ((ls_disk s)[0 := des]) = map lv_idx (ls_disk s)"
    if "lv_m_num des = lv_m_num ?o" "lv_idx des = lv_idx ?o" for des
    using map_update_same [OF d(1)] that by blast+
  have lists: "disk_lists ((ls_disk s)[0 := des]) ?ess" if "level_ok des (merge_entries (ess ! 0) us)" for des
    using assms(3) that by (auto simp: stores_def disk_lists_def intro!: list_all2_update_cong)
  have grows: "grows (keylens (mt_nodes l)) ess ?ess"
    unfolding grows_def using merge_entries_bytes [of "ess ! 0" us] bytes d(2) by (cases ess) auto
  then have "store_fits 0 ?ess"
    using store_fits_grows [of "keylens (mt_nodes l)" 0] assms(5) by simp
  then show ?thesis
    using lev grows assms(3) unfolding len by (auto simp: stores_def shape_defs sizes intro: lists elim!: returns_mono)
qed

text \<open>The metadata pages of a request: two of the levels are on the device.\<close>

definition request_pages :: nat where
  "request_pages = 5796"

lemma cost_request: "cost_below 0 = request_pages"
  by (simp add: cost_below_def level_cost_def LEVELN_def LEVELCACHING_def request_pages_def upt_rec)

lemma compaction_request_lists:
  assumes "fresh_pages garbage" "length garbage0 = PAGESIZE" "stores s n ess" "flushable d l"
    "store_fits (keylens (mt_nodes l)) ess" "handed_out (ls_alloc s) DATA d" "n + request_pages \<le> partition_pages MAP"
  shows "returns (compaction_request now garbage garbage0 l s) (\<lambda>(lat, r, s'). \<exists>ess'.
    stores s' (n + request_pages) ess' \<and>
    disk_map ess' = disk_map ess ++ map_of (flushed d (mt_nodes l)) \<and> same_levels s s' \<and>
    grows (keylens (mt_nodes l)) ess ess' \<and> (\<exists>m \<le> d + 2 * length (mt_nodes l). handed_out (ls_alloc s') DATA m))"
proof -
  let ?us = "flushed d (mt_nodes l)" and ?ess = "ess[0 := merge_entries (ess ! 0) (flushed d (mt_nodes l))]"
  have l: "mem_ok l" "data_room d (length (mt_nodes l))"
    using assms(4) by (simp_all add: flushable_def)
  obtain lat0 l1 s1 where w: "compaction_data_write now l s = Some (lat0, l1, s1)" "node_entries (mt_nodes l1) = ?us"
      "mt_size l1 = length (mt_nodes l)" "ls_disk s1 = ls_disk s" "ls_mem s1 = ls_mem s \<and> ls_finish s1 = ls_finish s" "ready s1 n"
      "\<exists>m \<le> d + 2 * length (mt_nodes l). handed_out (ls_alloc s1) DATA m"
    using compaction_data_write_ok [OF l(1) assms(6) l(2), of n now] assms(3) by (auto simp: stores_def elim!: returnsE)
  have s1: "stores s1 n ess"
    using assms(3) w(4,6) by (simp add: stores_def)
  have "returns (leveling now garbage garbage0 None 0 (length (mt_nodes l)) ?us s1) (\<lambda>(lat, s').
      stores s' n ?ess \<and> same_shape s1 s' \<and> grows (keylens (mt_nodes l)) ess ?ess)"
    using assms(5,7) by (intro flush_into_first [OF assms(1,2) s1 assms(4)]) simp_all
  then obtain lat1 s2 where f: "leveling now garbage garbage0 None 0 (mt_size l1) (node_entries (mt_nodes l1)) s1 = Some (lat1, s2)"
      "stores s2 n ?ess" "same_shape s1 s2" "grows (keylens (mt_nodes l)) ess ?ess"
    unfolding w(2,3) by (auto elim!: returnsE)
  have "returns (cascade LEVELN 0 now garbage garbage0 s2) (\<lambda>(lat, s'). \<exists>ess'.
      stores s' (n + cost_below 0) ess' \<and> disk_map ess' = disk_map ?ess \<and> same_shape s2 s' \<and> grows 0 ?ess ess')"
    using assms(7) by (intro cascade_keeps [OF assms(1) f(2)]) (simp_all add: LEVELN_def cost_request)
  then obtain lat2 s3 ess' where c: "compaction_cascading now garbage garbage0 s2 = Some (lat2, s3)"
      "stores s3 (n + request_pages) ess'" "disk_map ess' = disk_map ?ess" "same_shape s2 s3" "grows 0 ?ess ess'"
    unfolding compaction_cascading_def cost_request by (auto elim!: returnsE)
  have "ess \<noteq> []"
    using stores_length(1) [OF assms(3)] by (auto simp: LEVELN_def)
  then have "disk_map ?ess = disk_map ess ++ map_of ?us"
    using stores_sorted [OF assms(3)] flushed_good(2) [OF l] merge_entries_map [of "ess ! 0" ?us] by (cases ess) simp_all
  moreover have "same_levels s s3" "\<exists>m \<le> d + 2 * length (mt_nodes l). handed_out (ls_alloc s3) DATA m"
    using same_shape_trans [OF f(3) c(4)] w(4,5,7) by (auto simp: shape_defs)
  moreover have "grows (keylens (mt_nodes l)) ess ess'"
    using grows_trans [OF f(4) c(5)] by simp
  ultimately show ?thesis
    using w(1) f(1) c by (simp add: compaction_request_def Let_def) blast
qed

text \<open>
  C3. A compaction request is a map update.  \<^verbatim>\<open>compaction_main\<close> on a cut list of recent pairs returns: it places
  the values, writes the data pages, merges the list into level 0 and cascades the full levels down;
  afterwards the levels map the keys of the list to the pages their values were placed at, and every other
  key to the page it had.  The levels have the capacities \<^verbatim>\<open>lsm_create\<close> gives them and hold entries of no more bytes than
  fit every level (\<open>store_fits\<close>: 35630 in level 0, 501365 and 7057285 down to the next two, 7372800 in all), the list
  counted; two nodes and at most a metadata page of them are in the list (\<open>flushable\<close>); the two partitions have
  the pages left.  Nothing in the source checks any of this.
\<close>

theorem compaction_request_flushes:
  assumes "fresh_pages garbage" "length garbage0 = PAGESIZE" "stores s n ess" "flushable d l"
    "store_fits (keylens (mt_nodes l)) ess" "handed_out (ls_alloc s) DATA d" "n + request_pages \<le> partition_pages MAP"
  shows "returns (compaction_request now garbage garbage0 l s) (\<lambda>(lat, r, s'). \<exists>ess'.
    stores s' (n + request_pages) ess' \<and>
    disk_map ess' = disk_map ess ++ map_of (flushed d (mt_nodes l)) \<and> same_levels s s' \<and>
    grows (keylens (mt_nodes l)) ess ess' \<and> (\<exists>m \<le> d + 2 * length (mt_nodes l). handed_out (ls_alloc s') DATA m))"
  using assms by (rule compaction_request_lists)

section \<open>Merging and cutting\<close>

text \<open>
  C8. The merge.  \<^verbatim>\<open>array_pipe_merger\<close> on two levels that hold the sorted lists \<open>us\<close> and \<open>ls\<close>, followed
  by \<^verbatim>\<open>array_pipe_cutter\<close> until no page is left, gives runs in key order that map every key as the upper
  level does if it has the key, and as the lower level does otherwise; exactly the flash pages of the entries of the lower
  level that are overridden are marked invalid in the page manager.
\<close>

theorem merge_cut_overrides:
  assumes "fresh_pages garbage" "level_lists s us" "level_lists org ls" "s \<noteq> []" "org \<noteq> []" "few_bytes (length org + length s) ls us"
  shows "returns (do { (rp, b') \<leftarrow> array_pipe_merger garbage garbage0 None s org b;
                       rs \<leftarrow> cut_all (Suc (pb_pidx rp)) True rp idx; Some (rs, b') })
    (\<lambda>(rs, b'). (\<exists>es. level_lists rs es \<and> map_of es = map_of ls ++ map_of us) \<and>
      (\<forall>a. po_isvalid (lb_oob b' a) \<longleftrightarrow> po_isvalid (lb_oob b a) \<or> (\<exists>k. (k, a) \<in> set ls \<and> k \<in> dom (map_of us))))"
proof -
  have sorted: "keys_sorted ls" "keys_sorted us" "\<forall>e \<in> set ls \<union> set us. good_entry e"
    using assms(2,3) by (auto simp: level_lists_def)
  obtain rp b' where m: "array_pipe_merger garbage garbage0 None s org b = Some (rp, b')"
      "cuts_into (length org + length s + result_padding) rp (merge_entries ls us)" "b' = fold mark_invalid (shadowed ls us) b"
    using array_pipe_merger_levels [OF assms, of garbage0 b] by (auto elim!: returnsE)
  have "\<forall>e \<in> set (merge_entries ls us). good_entry e"
    using sorted(3) set_merge_entries [of ls us] by blast
  from cut_all_level [OF m(2) lessI merge_entries_sorted [OF sorted(1,2)] this, of idx]
  have "returns (cut_all (Suc (pb_pidx rp)) True rp idx) (\<lambda>rs. level_lists rs (merge_entries ls us))"
    by (rule returns_mono) blast
  then obtain rs where "cut_all (Suc (pb_pidx rp)) True rp idx = Some rs" "level_lists rs (merge_entries ls us)"
    by (rule returnsE)
  then show ?thesis
    using m merge_entries_map [OF sorted(1,2)] set_shadowed [OF sorted(1,2)]
    by (auto simp: fold_mark_invalid simp del: cut_all.simps)
qed

section \<open>From the start-up on\<close>

lemma empty_fits: "extra \<le> 35630 \<Longrightarrow> store_fits extra (replicate LEVELN [])"
  unfolding store_fits_def
proof (intro allI impI)
  fix j assume "extra \<le> 35630" and j: "j < LEVELN"
  moreover have "35630 \<le> level_room j"
    using level_index [OF j] by (auto simp: level_room_def lsm_level_sizes_value)
  moreover have "bytes (concat (take (Suc j) (replicate LEVELN []))) = 0"
    by (simp add: take_replicate)
  ultimately show "extra + bytes (concat (take (Suc j) (replicate LEVELN []))) \<le> level_room j"
    by linarith
qed

text \<open>What the start-up makes is such a store, with the capacities of the source.\<close>

lemma lsm_create_ok:
  "returns (lsm_create garbage oob0) (\<lambda>s. stores s 0 (replicate LEVELN []) \<and> ls_mem s = lsm_skiplist_init garbage \<and>
    (\<forall>t. handed_out (ls_alloc s) t 0) \<and> ls_cut s = 0 \<and> ls_finish s = [])"
proof -
  obtain st where st: "lsm_page_init (lsm_bm_init oob0) = Some st" "\<forall>t. handed_out st t 0"
    by (rule returnsE [OF lsm_page_init_handed_out])
  let ?lev = "\<lambda>i. (array_init (nat (ceil_power 14732489 (Suc i))) i False)\<lparr>lv_isCXL := (i < LEVELCACHING \<and> LEVELCACHING - DEF_CXL_LEVEL \<le> i)\<rparr>"
  have lev: "?lev i = array_init (nat (ceil_power size_factor (Suc i))) i False" for i
    by (simp add: array_init_def DEF_CXL_LEVEL_def size_factor_value)
  have "list_all2 level_ok (map ?lev [0..<LEVELN]) (replicate LEVELN [])"
    unfolding lev by (simp add: list_all2_conv_all_nth level_ok_empty)
  moreover have "level_sizes (map ?lev [0..<LEVELN]) = lsm_level_sizes" "map lv_idx (map ?lev [0..<LEVELN]) = [0..<LEVELN]"
    unfolding lev by (simp_all add: list_eq_iff_nth_eq array_init_def lsm_level_sizes_def)
  moreover have "1178 * PPS \<le> tt_pgs (sp ssd_init)"
    by (simp add: ssd_init_def ssd_init_params_def PPS_val)
  moreover have "store_fits 0 (replicate LEVELN [])"
    by (simp add: empty_fits)
  ultimately show ?thesis
    using st by (simp add: lsm_create_def get_sizefactor_value stores_def disk_lists_def ready_def)
qed

text \<open>Two pairs and what is needed to flush them into the store of the start-up.\<close>

definition blank_page :: page where
  "blank_page = replicate PAGESIZE 0"

abbreviation no_oob :: "nat \<Rightarrow> piece_oob_t" where
  "no_oob \<equiv> \<lambda>_. \<lparr>po_length = 0, po_isvalid = False\<rparr>"

lemma blank_pages: "fresh_pages (\<lambda>_. blank_page)" "length blank_page = PAGESIZE"
  by (simp_all add: blank_page_def)

lemma above_key_min: "x \<noteq> 0 \<Longrightarrow> \<not> key_less (x # k) lsm_key_min"
proof -
  have min: "lsm_key_min = 0 # replicate 254 0"
    unfolding lsm_key_min_def by (subst replicate_Suc [symmetric]) (simp del: replicate_Suc)
  show "x \<noteq> 0 \<Longrightarrow> \<not> key_less (x # k) lsm_key_min"
    unfolding min by (simp add: word_gt_0)
qed

lemma small_flushable: "flushable 0 small_and_page"
  by (simp add: flushable_def small_and_page_def mem_ok_def node_ok_def KEYVALCHECK_def UINT8_MAX_def PIECE_PER_PAGE_def PAGESIZE_val
      above_key_min data_room_def nth_page_def lo_sblk_def PPS_val NOP_val)

lemma small_bytes: "keylens (mt_nodes small_and_page) = 10"
  by (simp add: small_and_page_def)

text \<open>The two pairs in the first level, and further down.\<close>

abbreviation two_entries :: entries where
  "two_entries \<equiv> flushed 0 (mt_nodes small_and_page)"

lemma two_entries_ne: "two_entries \<noteq> []"
  by (simp add: flushed_def small_and_page_def)

lemma two_entries_map: "map_of two_entries [1] = Some 0" "map_of two_entries [9] = None"
  by (simp_all add: flushed_def small_and_page_def node_page_def PIECE_PER_PAGE_def PAGESIZE_val)

lemma two_entries_bytes: "bytes two_entries = 10"
  unfolding flushed_bytes by (rule small_bytes)

lemma small_fits:
  assumes "extra + bytes (concat ess) \<le> 35630"
  shows "store_fits extra ess"
  unfolding store_fits_def
proof (intro allI impI)
  fix j assume j: "j < LEVELN"
  have "bytes (concat (take (Suc j) ess)) \<le> bytes (concat (take (Suc j) ess @ drop (Suc j) ess))"
    by (simp del: append_take_drop_id)
  then have "bytes (concat (take (Suc j) ess)) \<le> bytes (concat ess)"
    by simp
  moreover have "35630 \<le> level_room j"
    using level_index [OF j] by (auto simp: level_room_def lsm_level_sizes_value)
  ultimately show "extra + bytes (concat (take (Suc j) ess)) \<le> level_room j"
    using assms by linarith
qed

lemma map_partition: "partition_pages MAP = 1114112"
  by (simp add: partition_pages_def lo_sblk_def hi_sblk_def PPS_val)

lemma small_store:
  obtains s where "lsm_create 0 no_oob = Some s" "stores s 0 (replicate LEVELN [])" "handed_out (ls_alloc s) DATA 0"
    "ls_mem s = lsm_skiplist_init 0" "ls_cut s = 0" "ls_finish s = []"
  using lsm_create_ok [of 0 no_oob] by (elim returnsE) blast

lemma small_flush:
  assumes "stores s 0 ess" "bytes (concat ess) \<le> 100" "handed_out (ls_alloc s) DATA 0" "ls_mem s = lsm_skiplist_init 0"
  obtains s' where "stores s' 0 (ess[0 := merge_entries (ess ! 0) two_entries])" "handed_out (ls_alloc s') DATA 0"
    "ls_mem s' = lsm_skiplist_init 0"
proof -
  have "store_fits (keylens (mt_nodes small_and_page)) ess"
    using assms(2) small_bytes by (intro small_fits) simp
  then have "returns (leveling 0 (\<lambda>_. blank_page) blank_page None 0 (length (mt_nodes small_and_page)) two_entries s) (\<lambda>(lat, s').
      stores s' 0 (ess[0 := merge_entries (ess ! 0) two_entries]) \<and> same_shape s s' \<and>
      grows (keylens (mt_nodes small_and_page)) ess (ess[0 := merge_entries (ess ! 0) two_entries]))"
    by (intro flush_into_first [OF blank_pages assms(1) small_flushable]) simp_all
  then show thesis
    using that assms(3,4) by (auto simp: shape_defs elim!: returnsE)
qed

lemma small_next_level:
  assumes "stores s n ess" "Suc i < LEVELN" "ess ! i \<noteq> []" "n \<le> 1000" "handed_out (ls_alloc s) DATA 0" "ls_mem s = lsm_skiplist_init 0"
  obtains s' where "stores s' (n + level_cost (Suc i)) (pushed i ess)" "handed_out (ls_alloc s') DATA 0" "ls_mem s' = lsm_skiplist_init 0"
proof -
  have "n + level_cost (Suc i) \<le> partition_pages MAP"
    using assms(4) by (simp add: level_cost_def map_partition)
  from leveling_next [OF blank_pages(1) assms(1-3) this, of 0 blank_page 0 "[]"] show thesis
    using that assms(5,6) by (auto simp: shape_defs elim!: returnsE)
qed

lemma small_first_level:
  obtains s where "stores s 0 [two_entries, [], [], [], []]" "handed_out (ls_alloc s) DATA 0" "ls_mem s = lsm_skiplist_init 0"
proof -
  obtain s0 where s0: "stores s0 0 (replicate LEVELN [])" "handed_out (ls_alloc s0) DATA 0" "ls_mem s0 = lsm_skiplist_init 0"
    by (rule small_store)
  have "(replicate LEVELN [])[0 := merge_entries (replicate LEVELN [] ! 0) two_entries] = [two_entries, [], [], [], []]"
    by (simp add: LEVELN_def numeral_eq_Suc)
  then show thesis
    using small_flush [OF s0(1) _ s0(2,3)] that by force
qed

text \<open>Both of the first two levels hold the pairs.\<close>

lemma small_two_levels:
  obtains s where "stores s 0 [two_entries, two_entries, [], [], []]" "handed_out (ls_alloc s) DATA 0" "ls_mem s = lsm_skiplist_init 0"
proof -
  obtain s0 where s0: "stores s0 0 [two_entries, [], [], [], []]" "handed_out (ls_alloc s0) DATA 0" "ls_mem s0 = lsm_skiplist_init 0"
    by (rule small_first_level)
  obtain s1 where s1: "stores s1 0 [[], two_entries, [], [], []]" "handed_out (ls_alloc s1) DATA 0" "ls_mem s1 = lsm_skiplist_init 0"
    by (rule small_next_level [OF s0(1) _ _ _ s0(2,3), of 0]) (auto simp: two_entries_ne LEVELN_def pushed_def level_cost_def LEVELCACHING_def)
  show thesis
    by (rule small_flush [OF s1(1) _ s1(2,3)]) (use that two_entries_bytes in auto)
qed

lemma pushed_values:
  "pushed 0 [es, [], [], [], []] = [[], es, [], [], []]" "pushed 1 [[], es, [], [], []] = [[], [], es, [], []]"
  "pushed 2 [[], [], es, [], []] = [[], [], [], es, []]"
  by (simp_all add: pushed_def numeral_eq_Suc)

lemma small_fourth_level:
  obtains s where "stores s 2898 [[], [], [], two_entries, []]"
proof -
  obtain s0 where s0: "stores s0 0 [two_entries, [], [], [], []]" "handed_out (ls_alloc s0) DATA 0" "ls_mem s0 = lsm_skiplist_init 0"
    by (rule small_first_level)
  obtain s1 where s1: "stores s1 0 [[], two_entries, [], [], []]" "handed_out (ls_alloc s1) DATA 0" "ls_mem s1 = lsm_skiplist_init 0"
    by (rule small_next_level [OF s0(1) _ _ _ s0(2,3), of 0]) (auto simp: two_entries_ne LEVELN_def pushed_values level_cost_def LEVELCACHING_def)
  obtain s2 where s2: "stores s2 0 [[], [], two_entries, [], []]" "handed_out (ls_alloc s2) DATA 0" "ls_mem s2 = lsm_skiplist_init 0"
    by (rule small_next_level [OF s1(1) _ _ _ s1(2,3), of 1])
      (simp_all add: two_entries_ne LEVELN_def pushed_values [unfolded One_nat_def] level_cost_def LEVELCACHING_def)
  show thesis
    by (rule small_next_level [OF s2(1) _ _ _ s2(2,3), of 2])
      (use that in \<open>simp_all add: two_entries_ne LEVELN_def pushed_values level_cost_def LEVELCACHING_def\<close>)
qed


section \<open>The claims at concrete inputs\<close>

theorem merge_cut_overrides_witness:
  "\<exists>rs. level_lists rs two_entries \<and>
     returns (do { (rp, b') \<leftarrow> array_pipe_merger (\<lambda>_. blank_page) blank_page None rs rs (lsm_bm_init no_oob);
                   rs' \<leftarrow> cut_all (Suc (pb_pidx rp)) True rp 1; Some (rs', b') })
       (\<lambda>(rs', b'). (\<exists>es. level_lists rs' es \<and> map_of es [1] = Some 0) \<and> po_isvalid (lb_oob b' 0))"
proof -
  obtain s where s: "stores s 0 [two_entries, [], [], [], []]"
    by (rule small_first_level)
  let ?rs = "lv_arrs (ls_disk s ! 0)"
  have lev: "level_ok (ls_disk s ! 0) two_entries"
    using stores_level [OF s, of 0] by (simp add: LEVELN_def)
  have ne: "?rs \<noteq> []"
    using level_ok_Nil [OF lev] two_entries_ne by simp
  have lists: "level_lists ?rs two_entries"
    using lev by (simp add: level_ok_def)
  have "few_bytes (length ?rs + length ?rs) two_entries two_entries"
    unfolding few_bytes_def flushed_bytes small_bytes by (simp add: result_padding_def)
  from merge_cut_overrides [OF blank_pages(1) lists lists ne ne this, of blank_page "lsm_bm_init no_oob" 1]
  have "returns (do { (rp, b') \<leftarrow> array_pipe_merger (\<lambda>_. blank_page) blank_page None ?rs ?rs (lsm_bm_init no_oob);
                   rs' \<leftarrow> cut_all (Suc (pb_pidx rp)) True rp 1; Some (rs', b') })
       (\<lambda>(rs', b'). (\<exists>es. level_lists rs' es \<and> map_of es [1] = Some 0) \<and> po_isvalid (lb_oob b' 0))"
  proof (rule returns_mono, clarify, intro conjI)
    fix rs' b' es
    assume es: "level_lists rs' es" "map_of es = map_of two_entries ++ map_of two_entries"
    show "\<exists>es. level_lists rs' es \<and> map_of es [1] = Some 0"
      using es two_entries_map(1) by (intro exI [of _ es]) simp
    assume "\<forall>a. po_isvalid (lb_oob b' a) = (po_isvalid (lb_oob (lsm_bm_init no_oob) a) \<or> (\<exists>k. (k, a) \<in> set two_entries \<and> k \<in> dom (map_of two_entries)))"
    from spec [OF this, of 0] show "po_isvalid (lb_oob b' 0)"
      by (auto simp: flushed_def small_and_page_def node_page_def PIECE_PER_PAGE_def PAGESIZE_val)
  qed
  then show ?thesis
    using lists by blast
qed

text \<open>The levels of the source's capacities; the second level is not empty, so that the two are merged.\<close>

theorem leveling_keeps_store_witness:
  "\<exists>s. stores s 0 [two_entries, two_entries, [], [], []] \<and>
     returns (leveling 0 (\<lambda>_. blank_page) blank_page (Some 0) 1 0 [] s) (\<lambda>(lat, s'). \<exists>ess'.
       disk_lists (ls_disk s') ess' \<and> disk_map ess' [1] = Some 0 \<and> ess' ! 0 = [])"
proof -
  obtain s where s: "stores s 0 [two_entries, two_entries, [], [], []]"
    by (rule small_two_levels)
  have L: "Suc 0 < LEVELN" "Suc 0 < length (ls_disk s)"
    using stores_length(2) [OF s] by (simp_all add: LEVELN_def)
  have lists: "disk_lists (ls_disk s) [two_entries, two_entries, [], [], []]" "ready s 0"
    using s by (simp_all add: stores_def)
  have ne: "[two_entries, two_entries, [], [], []] ! 0 \<noteq> []"
    using two_entries_ne by simp
  have "0 + level_cost (Suc 0) \<le> partition_pages MAP"
    by (simp add: level_cost_def map_partition)
  from leveling_keeps_store [OF blank_pages(1) lists L(2) ne stores_room [OF s L(1)] this, of 0 blank_page 0 "[]"]
  have "returns (leveling 0 (\<lambda>_. blank_page) blank_page (Some 0) 1 0 [] s) (\<lambda>(lat, s'). \<exists>ess'.
       disk_lists (ls_disk s') ess' \<and> disk_map ess' [1] = Some 0 \<and> ess' ! 0 = [])"
  proof (simp only: One_nat_def, elim returns_mono, clarify)
    fix lat s' ess'
    assume l: "disk_lists (ls_disk s') ess'" "disk_map ess' = disk_map [two_entries, two_entries, [], [], []]" "ess' ! 0 = []"
    have "disk_map ess' [1] = Some 0"
      unfolding l(2) using two_entries_map(1) by simp
    then show "\<exists>ess'. disk_lists (ls_disk s') ess' \<and> disk_map ess' [1] = Some 0 \<and> ess' ! 0 = []"
      using l(1,3) by blast
  qed
  then show ?thesis
    using s by blast
qed

text \<open>A request on the store of the start-up, and one on a store with two levels.\<close>

theorem compaction_request_flushes_witness:
  "\<exists>s. stores s 0 [two_entries, two_entries, [], [], []] \<and> level_sizes (ls_disk s) = [15, 198, 2774, 38968, 547497] \<and>
     returns (compaction_request 0 (\<lambda>_. blank_page) blank_page small_and_page s) (\<lambda>(lat, r, s'). \<exists>ess'.
       disk_lists (ls_disk s') ess' \<and> disk_map ess' [1] = Some 0)"
proof -
  obtain s where s: "stores s 0 [two_entries, two_entries, [], [], []]" "handed_out (ls_alloc s) DATA 0"
    by (rule small_two_levels)
  have "keylens (mt_nodes small_and_page) + bytes (concat [two_entries, two_entries, [], [], []]) \<le> 35630"
    using two_entries_bytes small_bytes by simp
  then have fits: "store_fits (keylens (mt_nodes small_and_page)) [two_entries, two_entries, [], [], []]"
    by (rule small_fits)
  have "0 + request_pages \<le> partition_pages MAP"
    by (simp add: request_pages_def map_partition)
  from compaction_request_flushes [OF blank_pages s(1) small_flushable fits s(2) this, of 0]
  have run: "returns (compaction_request 0 (\<lambda>_. blank_page) blank_page small_and_page s) (\<lambda>(lat, r, s'). \<exists>ess'.
       disk_lists (ls_disk s') ess' \<and> disk_map ess' [1] = Some 0)"
  proof (rule returns_mono, clarify)
    fix lat r s' ess'
    assume "stores s' (0 + request_pages) ess'"
      and m: "disk_map ess' = disk_map [two_entries, two_entries, [], [], []] ++ map_of two_entries"
    then have "disk_lists (ls_disk s') ess'"
      by (simp add: stores_def)
    then show "\<exists>ess'. disk_lists (ls_disk s') ess' \<and> disk_map ess' [1] = Some 0"
      using two_entries_map(1) by (intro exI [of _ ess']) (simp add: m)
  qed
  have "level_sizes (ls_disk s) = [15, 198, 2774, 38968, 547497]"
    using s(1) by (simp add: stores_def lsm_level_sizes_value)
  then show ?thesis
    by (intro exI [of _ s] conjI s(1) run)
qed

end
