(* ===== verification/LsmOps.thy ===== *)
theory LsmOps
  imports LsmCompact
begin

text \<open>
  The client operations of the LSM-tree store (\<^verbatim>\<open>lsmtree/lsmtree.c\<close>) and the check that cuts the
  list of recent pairs into compaction requests (\<^verbatim>\<open>compaction_check\<close> in
  \<^verbatim>\<open>lsmtree/compaction_assistant.c\<close>).  The compaction thread handles the requests of a write while the
  write waits.
\<close>

section \<open>Cutting the list\<close>

definition FLUSH_CHECK_NUM :: nat where "FLUSH_CHECK_NUM = 64"

text \<open>
  The loop of \<^verbatim>\<open>compaction_check\<close>: the lists that are cut off, and what is left.  A new list has an
  uninitialised \<^verbatim>\<open>data_size\<close>, which is \<open>garbage\<close>.
\<close>

partial_function (option) cut_requests :: "u32 \<Rightarrow> memtable \<Rightarrow> (memtable list \<times> memtable) option" where
  "cut_requests garbage l =
     (case lsm_cutting_header garbage l of
        None \<Rightarrow> Some ([], l)
      | Some x \<Rightarrow> Option.bind (cut_requests garbage (snd x)) (\<lambda>y. Some (fst x # fst y, snd y)))"

text \<open>The running average of the nodes of a cut list, in 32 bits.\<close>

definition count_cut :: "nat \<Rightarrow> lsm_t \<Rightarrow> lsm_t option" where
  "count_cut avg_cnt s =
     (let n = (ls_cut s + 1) mod 2 ^ 32 in
      if n = 0 then None
      else Some (s\<lparr>ls_avg := ((ls_avg s * ls_cut s + avg_cnt) mod 2 ^ 32) div n, ls_cut := n\<rparr>))"

text \<open>
  \<^verbatim>\<open>compaction_check\<close>: whether anything was cut, and the lists for the compaction thread.  The first cut and
  the attempt that cuts nothing are counted, the latter with the size of the last cut.
\<close>

definition compaction_check :: "u32 \<Rightarrow> lsm_t \<Rightarrow> (bool \<times> memtable list \<times> lsm_t) option" where
  "compaction_check garbage s =
     (if mt_size (ls_mem s) < FLUSH_CHECK_NUM then Some (False, [], s)
      else do {
        (ts, rest) \<leftarrow> cut_requests garbage (ls_mem s);
        (case ts of
           [] \<Rightarrow> Some (False, [], s)
         | t # _ \<Rightarrow> do {
             s1 \<leftarrow> count_cut (mt_size t) (s\<lparr>ls_mem := rest\<rparr>);
             s2 \<leftarrow> count_cut (mt_size (last ts)) s1;
             Some (True, ts, s2)
           })
      })"

text \<open>
  The compaction thread: the requests of a write, in order; their times are added to it.  The write waits for all of them
  here.  In the source it goes on when the first one is finished: the others are already cut off and only change the levels,
  so that the insertion into the list, which follows, commutes with them; the time and the type of the end
  of the request may be written later than they are read.
\<close>

fun compact_all :: "nat \<Rightarrow> (nat \<Rightarrow> page) \<Rightarrow> page \<Rightarrow> memtable list \<Rightarrow> lsm_request \<Rightarrow> lsm_t \<Rightarrow> (lsm_request \<times> lsm_t) option" where
  "compact_all now garbage garbage0 [] req s = Some (req, s)"
| "compact_all now garbage garbage0 (t # ts) req s = do {
     (lat, r, s1) \<leftarrow> compaction_request now garbage garbage0 t s;
     compact_all now garbage garbage0 ts (req\<lparr>lr_etime := lr_etime req + lat, lr_end_type := r\<rparr>) s1
   }"

section \<open>Writing\<close>

text \<open>
  \<^verbatim>\<open>lsm_set\<close>: \<open>now\<close> is the clock.  The write that fills the list up to \<^verbatim>\<open>FLUSH_CHECK_NUM\<close> returns 1 and is not
  completed.
\<close>

definition lsm_set ::
  "nat \<Rightarrow> (nat \<Rightarrow> page) \<Rightarrow> page \<Rightarrow> u32 \<Rightarrow> lsm_request \<Rightarrow> lsm_t \<Rightarrow> (nat \<times> lsm_request \<times> lsm_t) option" where
  "lsm_set now garbage garbage0 garbage1 req s = do {
     (flush, ts, s1) \<leftarrow> compaction_check garbage1 s;
     (req1, s2) \<leftarrow> (if flush then compact_all now garbage garbage0 ts req s1
                   else Some (req\<lparr>lr_end_type := NO_COMPACTION\<rparr>, s1));
     (upd, l) \<leftarrow> lsm_skiplist_insert (ls_mem s2) (lr_key req1) (lr_value req1) False;
     let req2 = req1\<lparr>lr_value := None,
       lr_end_type := (if lr_end_type req1 = NO_COMPACTION then (if upd then SKIP_MODIFY else SKIP_INSERT) else lr_end_type req1)\<rparr>;
     let s3 = s2\<lparr>ls_mem := l\<rparr>;
     if mt_size l = FLUSH_CHECK_NUM then Some (1, req2, s3)
     else (let req3 = req2\<lparr>lr_etime := now\<rparr> in Some (0, req3, s3\<lparr>ls_finish := ls_finish s3 @ [req3]\<rparr>))
   }"

section \<open>Reading\<close>

text \<open>
  \<^verbatim>\<open>__lsm_get_sub\<close> on the list: found or not, and the time of a read if the value is on a page.  A
  value that is on a page is written through the request's value, which must be there.
\<close>

definition lsm_get_sub :: "nat \<Rightarrow> lsm_request \<Rightarrow> lsm_t \<Rightarrow> (end_type \<times> lsm_request \<times> lsm_t) option" where
  "lsm_get_sub now req s = do {
     r \<leftarrow> lsm_skiplist_find (ls_mem s) (lr_key req);
     (case r of
        None \<Rightarrow> Some (NOT_FOUND, req, s)
      | Some n \<Rightarrow>
          if sn_value n \<noteq> None then Some (SKIP_FOUND, req, s)
          else if lr_value req = None then None
          else do { (lat, s1) \<leftarrow> lsm_read now (sn_ppa n) s; Some (SKIP_FOUND, req\<lparr>lr_etime := lr_etime req + lat\<rparr>, s1) })
   }"

text \<open>\<^verbatim>\<open>ceil(log2(n))\<close>; of zero it has no integer value.\<close>

function ceil_log2 :: "nat \<Rightarrow> nat" where
  "ceil_log2 n = (if n \<le> 1 then 0 else 1 + ceil_log2 ((n + 1) div 2))"
  by pat_completeness auto
termination
  by (relation "measure id") auto

declare ceil_log2.simps [simp del]

definition cxl_cost :: "nat \<Rightarrow> nat \<Rightarrow> nat option" where
  "cxl_cost n_run n_key = (if n_run = 0 \<or> n_key = 0 then None else Some (ceil_log2 n_run + ceil_log2 n_key))"

text \<open>\<^verbatim>\<open>found->ppa\<close>: the four bytes at the entry.\<close>

definition keyset_ppa :: "page \<Rightarrow> nat \<Rightarrow> ppa_t option" where
  "keyset_ppa p off = map_option from_le32 (memread p off 4)"

text \<open>
  \<^verbatim>\<open>lsm_find_run\<close>: the outcome carries the out-parameters, which are the level and the page of an entry
  of a cached level, or the level and the run of a level on the device.  \<open>cxl\<close> is the number of accesses to a
  directory, which is only set at a CXL level.
\<close>

datatype find_outcome = CACHING nat ppa_t | FOUND nat nat | NOTFOUND

fun find_run_levels :: "str_key \<Rightarrow> nat \<Rightarrow> level list \<Rightarrow> nat \<Rightarrow> (find_outcome \<times> nat) option" where
  "find_run_levels key i [] cxl = Some (NOTFOUND, cxl)"
| "find_run_levels key i (lev # levs) cxl = do {
     e \<leftarrow> array_find_run lev key;
     (case e of
        None \<Rightarrow> find_run_levels key (i + 1) levs cxl
      | Some k \<Rightarrow>
          if i < LEVELCACHING
          then do {
            page \<leftarrow> r_data (lv_arrs lev ! k);
            f \<leftarrow> array_find_keyset page key;
            n \<leftarrow> get16 page 0;
            cxl1 \<leftarrow> (if lv_isCXL lev then cxl_cost (n_num lev) n else Some cxl);
            (case f of
               Some off \<Rightarrow> do { ppa \<leftarrow> keyset_ppa page off; Some (CACHING i ppa, cxl1) }
             | None \<Rightarrow> find_run_levels key (i + 1) levs cxl1)
          }
          else Some (FOUND i k, cxl))
   }"

definition lsm_find_run :: "str_key \<Rightarrow> nat \<Rightarrow> nat \<Rightarrow> nat \<Rightarrow> lsm_t \<Rightarrow> (find_outcome \<times> nat) option" where
  "lsm_find_run key level_start run cxl s =
     (let l = (if run \<noteq> 0 then level_start + 1 else level_start) in find_run_levels key l (drop l (ls_disk s)) cxl)"

text \<open>
  \<^verbatim>\<open>lsm_get\<close>.  A new request always ends behind the search of the list: the code that would search the levels is
  behind a return.  A continued read searches them; \<open>cxl\<close> is the uninitialised number of accesses.
\<close>

definition lsm_get :: "nat \<Rightarrow> nat \<Rightarrow> lsm_request \<Rightarrow> lsm_t \<Rightarrow> (end_type option \<times> lsm_request \<times> lsm_t) option" where
  "lsm_get now cxl req s =
     (case lr_params req of
        None \<Rightarrow> do {
          (res, req1, s1) \<leftarrow> lsm_get_sub now req s;
          let req2 = req1\<lparr>lr_end_type := SKIP_FOUND, lr_etime := now\<rparr>;
          Some (Some res, req2, s1\<lparr>ls_finish := ls_finish s1 @ [req2]\<rparr>)
        }
      | Some (level_start, run) \<Rightarrow> do {
          (out, n) \<leftarrow> lsm_find_run (lr_key req) level_start run cxl s;
          let req1 = req\<lparr>lr_etime := lr_etime req + n * CXL_DIR_LAT\<rparr>;
          (req2, s1) \<leftarrow> (case out of
              CACHING i ppa \<Rightarrow> do { (lat, s1) \<leftarrow> lsm_read now ppa s; Some (req1\<lparr>lr_etime := lr_etime req1 + lat\<rparr>, s1) }
            | FOUND i k \<Rightarrow> do {
                let entry = lv_arrs (ls_disk s ! i) ! k;
                (lat, s1) \<leftarrow> lsm_read now (r_pbn entry) s;
                page \<leftarrow> r_data entry;
                f \<leftarrow> array_find_keyset page (lr_key req);
                off \<leftarrow> f;
                ppa \<leftarrow> keyset_ppa page off;
                (lat', s2) \<leftarrow> lsm_read now ppa s1;
                Some (req1\<lparr>lr_params := Some (i, k), lr_etime := lr_etime req1 + lat + lat'\<rparr>, s2)
              }
            | NOTFOUND \<Rightarrow> Some (req1, s));
          let req3 = req2\<lparr>lr_etime := lr_stime req2 + lr_etime req2\<rparr>;
          Some (None, req3, s1\<lparr>ls_finish := ls_finish s1 @ [req3]\<rparr>)
        })"

section \<open>Finding a key in the levels\<close>

lemma keyset_ppa_page:
  assumes "header_page p es" "i < length es"
  shows "keyset_ppa p (hoff es i) = Some (snd (es ! i))"
proof -
  have "get16 p (i + 1) = Some (hoff es i)"
    using assms by (simp add: header_page_def)
  then show ?thesis
    using header_key_page(2) [OF assms] by (cases "memread p (hoff es i) 4") (simp_all add: keyset_ppa_def header_ppa_def)
qed

text \<open>The run at the index is the only one that can have the key.\<close>

lemma keys_sorted_map_of: "keys_sorted es \<Longrightarrow> i < length es \<Longrightarrow> map_of es (fst (es ! i)) = Some (snd (es ! i))"
proof (rule map_of_is_SomeI)
  assume s: "keys_sorted es" and i: "i < length es"
  show "(fst (es ! i), snd (es ! i)) \<in> set es"
    using i by simp
  have "distinct (map fst es)"
    using s by (induction es) (auto simp: keys_sorted_Cons)
  then show "distinct (map fst es)" .
qed

lemma map_of_run:
  assumes "list_all2 run_lists rs ess" "keys_sorted (concat ess)" "k < length rs"
    "0 < k \<longrightarrow> \<not> key_less key (r_key (rs ! k))" "\<forall>j < length rs. k < j \<longrightarrow> key_less key (r_key (rs ! j))"
  shows "map_of (concat ess) key = map_of (ess ! k) key"
proof -
  have len: "length ess = length rs"
    using list_all2_lengthD [OF assms(1)] by simp
  have split: "concat ess = concat (take k ess) @ ess ! k @ concat (drop (Suc k) ess)"
    using id_take_nth_drop [of k ess] assms(3) len by (metis concat.simps(2) concat_append)
  have sorted: "keys_sorted (ess ! k)" "\<forall>a \<in> set (concat (take k ess)). \<forall>b \<in> set (ess ! k). key_less (fst a) (fst b)"
    "\<forall>a \<in> set (ess ! k). \<forall>b \<in> set (concat (drop (Suc k) ess)). key_less (fst a) (fst b)"
    using assms(2) unfolding split by (auto simp: keys_sorted_append)
  have run: "run_lists (rs ! j) (ess ! j)" if "j < length rs" for j
    using list_all2_nthD [OF assms(1) that] .
  have "map_of (concat (drop (Suc k) ess)) key = None"
  proof (rule ccontr)
    assume "map_of (concat (drop (Suc k) ess)) key \<noteq> None"
    then obtain c where c: "c \<in> set (drop (Suc k) ess)" "key \<in> fst ` set c"
      by (auto simp: map_of_eq_None_iff)
    then obtain i where "i < length ess - Suc k" "c = ess ! (Suc k + i)"
      by (auto simp: in_set_conv_nth)
    then obtain j where j: "Suc k \<le> j" "j < length ess" "key \<in> fst ` set (ess ! j)"
      using c(2) by (intro that [of "Suc k + i"]) auto
    have "keys_sorted (ess ! j)"
      using assms(2) j(2) id_take_nth_drop [OF j(2)] by (metis concat.simps(2) concat_append keys_sorted_append)
    then show False
      using run_lists_bounds(3) [OF run [of j]] assms(5) j len by force
  qed
  moreover have "map_of (concat (take k ess)) key = None"
  proof (rule ccontr)
    assume ne: "map_of (concat (take k ess)) key \<noteq> None"
    then have "0 < k"
      by (cases k) auto
    have "r_key (rs ! k) \<in> fst ` set (ess ! k)"
      using run_lists_bounds(4) [OF run [OF assms(3)] sorted(1)] .
    moreover have "key \<in> fst ` set (concat (take k ess))"
      using ne by (simp add: map_of_eq_None_iff)
    ultimately have "key_less key (r_key (rs ! k))"
      using sorted(2) by force
    then show False
      using assms(4) \<open>0 < k\<close> by blast
  qed
  ultimately show ?thesis
    unfolding split by (simp add: map_add_def split: option.splits)
qed

text \<open>The run \<open>k\<close> is the only one whose range can have the key: the last one that does not start above it, or the first.\<close>

definition run_covers :: "run_t list \<Rightarrow> nat \<Rightarrow> str_key \<Rightarrow> bool" where
  "run_covers rs k key \<longleftrightarrow> k < length rs \<and> (k = 0 \<or> \<not> key_less key (r_key (rs ! k))) \<and>
     (\<forall>j \<in> {Suc k..<length rs}. key_less key (r_key (rs ! j)))"

lemma level_find:
  assumes "level_ok lev es"
  shows "returns (array_find_run lev key) (\<lambda>r. case r of None \<Rightarrow> es = []
    | Some k \<Rightarrow> es \<noteq> [] \<and> run_covers (lv_arrs lev) k key \<and>
        (\<exists>page off. r_data (lv_arrs lev ! k) = Some page \<and> array_find_keyset page key = Some off \<and>
        (\<exists>n. get16 page 0 = Some n) \<and> (case off of None \<Rightarrow> map_of es key = None | Some off \<Rightarrow> \<exists>ppa. map_of es key = Some ppa \<and> keyset_ppa page off = Some ppa)))"
proof -
  obtain ess where ess: "list_all2 run_lists (lv_arrs lev) ess" "es = concat ess" "keys_sorted es"
    using assms by (auto simp: level_ok_def level_lists_def)
  have ordered: "runs_ordered (lv_arrs lev)"
    using assms level_lists_ordered by (auto simp: level_ok_def)
  have nil: "lv_arrs lev = [] \<longleftrightarrow> es = []"
    using level_ok_Nil [OF assms] .
  show ?thesis
  proof (rule returns_mono [OF array_find_run_correct [OF ordered, of key]], goal_cases)
    case (1 r)
    show ?case
    proof (cases r)
      case None
      then show ?thesis
        using 1 nil by simp
    next
      case (Some k)
      then have k: "k < n_num lev" "0 < k \<longrightarrow> \<not> key_less key (r_key (lv_arrs lev ! k))"
          "\<forall>j < n_num lev. k < j \<longrightarrow> key_less key (r_key (lv_arrs lev ! j))"
        using 1 by simp_all
      then have covers: "run_covers (lv_arrs lev) k key"
        by (auto simp: run_covers_def)
      have m: "map_of es key = map_of (ess ! k) key"
        using map_of_run [OF ess(1) _ k] ess(2,3) by simp
      have "run_lists (lv_arrs lev ! k) (ess ! k)" "run_stored (lv_idx lev) (lv_arrs lev ! k)"
        using list_all2_nthD [OF ess(1) k(1)] assms k(1) by (simp_all add: level_ok_def)
      then obtain page where page: "r_data (lv_arrs lev ! k) = Some page" "header_page page (ess ! k)"
        by (auto simp: run_lists_def page_lists_def data_from_run_def run_stored_def)
      have klen: "k < length ess"
        using k(1) list_all2_lengthD [OF ess(1)] by simp
      have sorted: "keys_sorted (ess ! k)"
        using ess(2,3) id_take_nth_drop [OF klen] by (metis concat.simps(2) concat_append keys_sorted_append)
      obtain off where off: "array_find_keyset page key = Some off"
          "case off of Some off \<Rightarrow> \<exists>i < length (ess ! k). fst (ess ! k ! i) = key \<and> off = hoff (ess ! k) i
            | None \<Rightarrow> \<forall>i < length (ess ! k). fst (ess ! k ! i) \<noteq> key"
        using array_find_keyset_correct [OF page(2) sorted, of key] by (auto elim: returnsE)
      have "case off of None \<Rightarrow> map_of es key = None | Some off \<Rightarrow> \<exists>ppa. map_of es key = Some ppa \<and> keyset_ppa page off = Some ppa"
      proof (cases off)
        case None
        then show ?thesis
          using off(2) m by (force simp: map_of_eq_None_iff in_set_conv_nth)
      next
        case (Some o')
        then show ?thesis
          using off(2) m keyset_ppa_page [OF page(2)] keys_sorted_map_of [OF sorted] by auto
      qed
      then show ?thesis
        using Some k(1) page off(1) nil covers by (auto simp: header_page_def)
    qed
  qed
qed

lemma disk_map_None: "disk_map ess key = None \<longleftrightarrow> (\<forall>es \<in> set ess. map_of es key = None)"
  by (induction ess) (auto simp: map_add_None)

text \<open>The page of the run \<open>k\<close>, searched for the key, gives what the level maps the key to.\<close>

definition run_answers :: "level \<Rightarrow> nat \<Rightarrow> str_key \<Rightarrow> entries \<Rightarrow> bool" where
  "run_answers lev k key es \<longleftrightarrow> run_covers (lv_arrs lev) k key \<and>
     (\<exists>page off. r_data (lv_arrs lev ! k) = Some page \<and> array_find_keyset page key = Some off \<and>
        (case off of None \<Rightarrow> map_of es key = None | Some off \<Rightarrow> map_of es key \<noteq> None \<and> keyset_ppa page off = map_of es key))"

text \<open>A hit in a cached level is the newest mapping; else the result is the first level on the device that has a run.\<close>

definition find_result :: "str_key \<Rightarrow> nat \<Rightarrow> level list \<Rightarrow> entries list \<Rightarrow> find_outcome \<Rightarrow> bool" where
  "find_result key i ds ess out = (case out of
     CACHING j ppa \<Rightarrow> j < LEVELCACHING \<and> i \<le> j \<and> j < i + length ess \<and> map_of (ess ! (j - i)) key = Some ppa \<and>
       disk_map ess key = Some ppa
   | FOUND j k \<Rightarrow> LEVELCACHING \<le> j \<and> i \<le> j \<and> j < i + length ds \<and> ess ! (j - i) \<noteq> [] \<and> disk_map (take (j - i) ess) key = None \<and>
       (\<forall>m < j - i. LEVELCACHING \<le> i + m \<longrightarrow> ess ! m = []) \<and> run_answers (ds ! (j - i)) k key (ess ! (j - i))
   | NOTFOUND \<Rightarrow> disk_map ess key = None \<and> (\<forall>m < length ess. LEVELCACHING \<le> i + m \<longrightarrow> ess ! m = []))"

lemma find_result_Cons:
  assumes "find_result key (Suc i) ds ess out" "map_of es key = None" "LEVELCACHING \<le> i \<Longrightarrow> es = []"
  shows "find_result key i (d # ds) (es # ess) out"
proof (cases out)
  case (FOUND j k)
  then have f: "LEVELCACHING \<le> j" "Suc i \<le> j" "j < Suc i + length ds" "ess ! (j - Suc i) \<noteq> []" "disk_map (take (j - Suc i) ess) key = None"
      "\<forall>m < j - Suc i. LEVELCACHING \<le> Suc i + m \<longrightarrow> ess ! m = []" "run_answers (ds ! (j - Suc i)) k key (ess ! (j - Suc i))"
    using assms(1) by (simp_all add: find_result_def)
  then obtain l where l: "j = Suc i + l"
    by (metis le_Suc_ex)
  have "\<forall>m < Suc l. LEVELCACHING \<le> i + m \<longrightarrow> (es # ess) ! m = []"
    using f(6) assms(3) by (auto simp: l less_Suc_eq_0_disj)
  then show ?thesis
    using f assms(2) FOUND unfolding find_result_def l by (simp add: map_add_def)
next
  case NOTFOUND
  then show ?thesis
    using assms by (auto simp: find_result_def map_add_def nth_Cons split: nat.splits)
next
  case (CACHING j ppa)
  then have f: "j < LEVELCACHING" "Suc i \<le> j" "j < Suc i + length ess" "map_of (ess ! (j - Suc i)) key = Some ppa" "disk_map ess key = Some ppa"
    using assms(1) by (simp_all add: find_result_def)
  then obtain l where l: "j = Suc i + l"
    by (metis le_Suc_ex)
  show ?thesis
    using f assms(2) CACHING unfolding find_result_def l by (simp add: map_add_def)
qed

lemma find_run_levels_ok:
  assumes "list_all2 level_ok ds ess"
  shows "returns (find_run_levels key i ds cxl) (\<lambda>(out, n). n = cxl \<and> find_result key i ds ess out)"
  using assms
proof (induction ds ess arbitrary: i rule: list_all2_induct)
  case (Cons d ds es ess)
  obtain r where r: "array_find_run d key = Some r" "case r of None \<Rightarrow> es = []
    | Some k \<Rightarrow> es \<noteq> [] \<and> run_covers (lv_arrs d) k key \<and> (\<exists>page off. r_data (lv_arrs d ! k) = Some page \<and> array_find_keyset page key = Some off \<and>
        (\<exists>n. get16 page 0 = Some n) \<and> (case off of None \<Rightarrow> map_of es key = None | Some off \<Rightarrow> \<exists>ppa. map_of es key = Some ppa \<and> keyset_ppa page off = Some ppa))"
    using level_find [OF Cons.hyps(1), of key] by (auto elim: returnsE)
  have rest: "returns (find_run_levels key (i + 1) ds cxl) (\<lambda>(out, n). n = cxl \<and> find_result key i (d # ds) (es # ess) out)"
    if "map_of es key = None" "LEVELCACHING \<le> i \<Longrightarrow> es = []"
    by (rule returns_mono [OF Cons.IH]) (use that find_result_Cons in auto)
  show ?case
  proof (cases r)
    case None
    then show ?thesis
      using r rest by simp
  next
    case (Some k)
    then obtain page off n where p: "run_covers (lv_arrs d) k key" "r_data (lv_arrs d ! k) = Some page" "array_find_keyset page key = Some off"
        "get16 page 0 = Some n" "case off of None \<Rightarrow> map_of es key = None | Some off \<Rightarrow> \<exists>ppa. map_of es key = Some ppa \<and> keyset_ppa page off = Some ppa"
        "es \<noteq> []"
      using r(2) by auto
    have no_cxl: "lv_isCXL d = False"
      using Cons.hyps(1) by (simp add: level_ok_def)
    show ?thesis
    proof (cases "i < LEVELCACHING")
      case True
      show ?thesis
      proof (cases off)
        case None
        then show ?thesis
          using r(1) Some p no_cxl True rest by simp
      next
        case (Some o')
        then obtain ppa where "map_of es key = Some ppa" "keyset_ppa page o' = Some ppa"
          using p(5) by auto
        then show ?thesis
          using r(1) \<open>r = Some k\<close> Some p no_cxl True by (simp add: find_result_def)
      qed
    next
      case False
      have "run_answers d k key es"
        using p(1-3,5) by (cases off) (auto simp: run_answers_def)
      then show ?thesis
        using r(1) Some False p(6) by (simp add: find_result_def)
    qed
  qed
qed (simp add: find_result_def)

lemma lsm_find_run_result:
  assumes "disk_lists (ls_disk s) ess"
  shows "returns (lsm_find_run key 0 0 cxl s) (\<lambda>(out, c). c = cxl \<and> find_result key 0 (ls_disk s) ess out)"
  using find_run_levels_ok [of "ls_disk s" ess key 0 cxl] assms by (simp add: lsm_find_run_def disk_lists_def)

text \<open>
  C16. The level search.  On levels that hold the sorted entry lists \<open>ess\<close>, \<^verbatim>\<open>lsm_find_run\<close> from the first
  level on returns.  A page found in a cached level is the page the store maps the key to.  A level on the device is
  named when no cached level has the key; it is the first one on the device that is not empty, and the run that is named is
  the one whose range can have the key: its page, searched for the key, answers with the page the level maps the key to, or
  with nothing exactly if the level does not have it.  No result means that the store does not have the key and that
  every level on the device is empty.
\<close>

theorem lsm_find_run_correct:
  assumes "disk_lists (ls_disk s) ess"
  shows "returns (lsm_find_run key 0 0 cxl s) (\<lambda>(out, c). c = cxl \<and> (case out of
      CACHING j ppa \<Rightarrow> j < LEVELCACHING \<and> map_of (ess ! j) key = Some ppa \<and> disk_map ess key = Some ppa
    | FOUND j k \<Rightarrow> LEVELCACHING \<le> j \<and> j < length (ls_disk s) \<and> ess ! j \<noteq> [] \<and> disk_map (take j ess) key = None \<and>
        (\<forall>m \<in> {LEVELCACHING..<j}. ess ! m = []) \<and> run_answers (ls_disk s ! j) k key (ess ! j)
    | NOTFOUND \<Rightarrow> disk_map ess key = None \<and> (\<forall>m \<in> {LEVELCACHING..<length ess}. ess ! m = [])))"
  by (rule returns_mono [OF lsm_find_run_result [OF assms]]) (auto simp: find_result_def split: find_outcome.splits)

lemma lsm_read_returns:
  assumes "ready s n" "r_pbn r < 1178 * PPS"
  shows "lsm_read now (r_pbn r) s \<noteq> None"
  using lsm_read_moved [OF assms, of now] by (auto elim: returnsE)

lemma first_on_device:
  assumes "find_result key 0 ds ess out" "LEVELCACHING \<le> m" "m < length ess" "ess ! m \<noteq> []"
    "\<forall>j \<in> {LEVELCACHING..<m}. ess ! j = []" "\<forall>j \<le> m. map_of (ess ! j) key = None"
  obtains k where "out = FOUND m k" "run_answers (ds ! m) k key (ess ! m)"
proof (cases out)
  case (FOUND j k)
  then have f: "LEVELCACHING \<le> j" "ess ! j \<noteq> []" "\<forall>i < j. LEVELCACHING \<le> i \<longrightarrow> ess ! i = []" "run_answers (ds ! j) k key (ess ! j)"
    using assms(1) by (simp_all add: find_result_def)
  then have "j = m"
    using assms(2,4,5) by (metis atLeastLessThan_iff linorder_neqE_nat)
  then show thesis
    using that FOUND f(4) by blast
next
  case (CACHING j ppa)
  then show thesis
    using assms(1,2,6) by (auto simp: find_result_def)
next
  case NOTFOUND
  then show thesis
    using assms(1-4) by (auto simp: find_result_def)
qed

text \<open>
  C37. A read that resumes for an absent key crashes.  Let \<open>m\<close> be the first level on the device that is not empty, and let
  neither it nor a level above it have the key.  Then \<^verbatim>\<open>lsm_find_run\<close> names a run of it, the read of its page from the device
  returns, and \<^verbatim>\<open>array_find_keyset\<close> in the page is a null pointer, which \<^verbatim>\<open>lsm_get\<close> with its parameters set
  dereferences: it has no result.  A level further down may have the key.
\<close>

theorem lsm_get_missing_key:
  assumes "disk_lists (ls_disk s) ess" "map lv_idx (ls_disk s) = [0..<LEVELN]" "ready s n" "lr_params req = Some (0, 0)"
    "LEVELCACHING \<le> m" "m < LEVELN" "ess ! m \<noteq> []" "\<forall>j \<in> {LEVELCACHING..<m}. ess ! j = []"
    "disk_map (take (Suc m) ess) (lr_key req) = None"
  shows "\<exists>k page. lsm_find_run (lr_key req) 0 0 cxl s = Some (FOUND m k, cxl) \<and> k < n_num (ls_disk s ! m) \<and>
    lsm_read now (r_pbn (lv_arrs (ls_disk s ! m) ! k)) s \<noteq> None \<and> r_data (lv_arrs (ls_disk s ! m) ! k) = Some page \<and>
    array_find_keyset page (lr_key req) = Some None \<and> lsm_get now cxl req s = None"
proof -
  obtain out where out: "lsm_find_run (lr_key req) 0 0 cxl s = Some (out, cxl)" "find_result (lr_key req) 0 (ls_disk s) ess out"
    using lsm_find_run_result [OF assms(1), of "lr_key req" cxl] by (auto elim!: returnsE)
  have "length (ls_disk s) = LEVELN"
    using arg_cong [OF assms(2), of length] by simp
  then have len: "m < length (ls_disk s)" "m < length ess"
    using assms(1,6) by (simp_all add: disk_lists_def list_all2_lengthD [symmetric])
  have absent: "map_of (ess ! j) (lr_key req) = None" if "j \<le> m" for j
  proof -
    have "ess ! j \<in> set (take (Suc m) ess)"
      using that len(2) by (auto simp: in_set_conv_nth intro!: exI [of _ j])
    then show ?thesis
      using assms(9) by (simp add: disk_map_None)
  qed
  then have "\<forall>j \<le> m. map_of (ess ! j) (lr_key req) = None"
    by blast
  from first_on_device [OF out(2) assms(5) len(2) assms(7,8) this]
  obtain k where found: "out = FOUND m k" "run_answers (ls_disk s ! m) k (lr_key req) (ess ! m)" .
  then obtain page where k: "out = FOUND m k" "k < n_num (ls_disk s ! m)" "r_data (lv_arrs (ls_disk s ! m) ! k) = Some page"
      "array_find_keyset page (lr_key req) = Some None"
    using absent [of m] by (auto simp: run_answers_def run_covers_def split: option.splits)
  have "level_ok (ls_disk s ! m) (ess ! m)" "lv_idx (ls_disk s ! m) = m"
    using assms(1,6) len arg_cong [OF assms(2), of "\<lambda>l. l ! m"] by (auto simp: disk_lists_def list_all2_conv_all_nth)
  then have "r_pbn (lv_arrs (ls_disk s ! m) ! k) < 1178 * PPS"
    using k(2) assms(5) by (auto simp: level_ok_def run_stored_def)
  from lsm_read_returns [OF assms(3) this, of now]
  have read: "lsm_read now (r_pbn (lv_arrs (ls_disk s ! m) ! k)) s \<noteq> None" .
  moreover have "lsm_get now cxl req s = None"
    using out(1) assms(4) k by (cases "lsm_read now (r_pbn (lv_arrs (ls_disk s ! m) ! k)) s") (simp_all add: lsm_get_def Let_def split: prod.splits)
  ultimately show ?thesis
    using out(1) k by blast
qed

section \<open>A new read\<close>

lemma lsm_skiplist_find_ok:
  assumes "mem_ok l" "key \<noteq> lsm_key_max"
  shows "lsm_skiplist_find l key = Some (List.find (\<lambda>n. sn_key n = key) (mt_nodes l))"
proof (cases "dropWhile (below key) (mt_nodes l)")
  case Nil
  have "List.find (\<lambda>n. sn_key n = key) (mt_nodes l) = None"
    using below_all [OF Nil] by (auto simp: find_None_iff)
  then show ?thesis
    using Nil assms by (simp add: lsm_skiplist_find_def del: dropWhile_eq_Nil_conv)
next
  case (Cons n rest)
  have sorted: "sorted_wrt key_less (map sn_key (mt_nodes l))"
    using assms(1) by (simp add: mem_ok_def)
  note s = sorted_split [OF sorted Cons]
  obtain pre where ns: "mt_nodes l = pre @ n # rest" "\<forall>x \<in> set pre. key_less (sn_key x) key"
    using s(3) Cons by (metis takeWhile_dropWhile_id)
  have "List.find (\<lambda>n. sn_key n = key) (pre @ n # rest) = (if sn_key n = key then Some n else None)"
    using ns(2) s(1,2) by (induction pre) (auto simp: find_None_iff)
  then show ?thesis
    using Cons ns(1) assms(1) by (auto simp: lsm_skiplist_find_def mem_ok_def)
qed

text \<open>
  C36. A new read never looks at the levels.  Whatever the levels store, \<^verbatim>\<open>lsm_get\<close> on a new request for a key that is
  not in the list of recent pairs returns as not found, completes the request as one that was found in the list,
  and neither reads the device nor changes the store.
\<close>

theorem lsm_get_skips_levels:
  assumes "mem_ok (ls_mem s)" "lr_key req \<noteq> lsm_key_max" "lr_params req = None"
  shows "lsm_get now cxl req s =
    (let req' = req\<lparr>lr_end_type := SKIP_FOUND, lr_etime := now\<rparr>
     in Some (Some (if lr_key req \<in> sn_key ` set (mt_nodes (ls_mem s)) then SKIP_FOUND else NOT_FOUND), req',
          s\<lparr>ls_finish := ls_finish s @ [req']\<rparr>))"
proof (cases "List.find (\<lambda>n. sn_key n = lr_key req) (mt_nodes (ls_mem s))")
  case None
  then have "lr_key req \<notin> sn_key ` set (mt_nodes (ls_mem s))"
    by (auto simp: find_None_iff)
  then show ?thesis
    using None lsm_skiplist_find_ok [OF assms(1,2)] assms(3) by (simp add: lsm_get_def lsm_get_sub_def Let_def)
next
  case (Some n)
  then have "n \<in> set (mt_nodes (ls_mem s))" "sn_key n = lr_key req"
    by (auto simp: find_Some_iff)
  moreover have "sn_value n \<noteq> None"
    using assms(1) calculation by (auto simp: mem_ok_def node_ok_def)
  ultimately show ?thesis
    using Some lsm_skiplist_find_ok [OF assms(1,2)] assms(3) by (force simp: lsm_get_def lsm_get_sub_def Let_def)
qed

section \<open>The claims at concrete inputs\<close>

definition read_request :: "str_key \<Rightarrow> (nat \<times> nat) option \<Rightarrow> lsm_request" where
  "read_request key params = \<lparr>lr_key = key, lr_value = None, lr_stime = 0, lr_etime = 0, lr_end_type = NO_COMPACTION, lr_params = params\<rparr>"

text \<open>A hit in a cached level, and a run on the device.\<close>

theorem lsm_find_run_correct_witness:
  "\<exists>s s'. stores s 0 [two_entries, [], [], [], []] \<and> returns (lsm_find_run [1] 0 0 7 s) (\<lambda>(out, c). c = 7 \<and> (\<exists>j. out = CACHING j 0)) \<and>
     stores s' 2898 [[], [], [], two_entries, []] \<and> returns (lsm_find_run [1] 0 0 7 s') (\<lambda>(out, c). \<exists>k. out = FOUND 3 k)"
proof -
  obtain s where s: "stores s 0 [two_entries, [], [], [], []]"
    by (rule small_first_level)
  obtain s' where s': "stores s' 2898 [[], [], [], two_entries, []]"
    by (rule small_fourth_level)
  have lists: "disk_lists (ls_disk s) [two_entries, [], [], [], []]" "disk_lists (ls_disk s') [[], [], [], two_entries, []]"
    using s s' by (simp_all add: stores_def)
  have one: "disk_map [two_entries, [], [], [], []] [1] = Some 0" "disk_map [[], [], [], two_entries, []] [1] = Some 0"
    using two_entries_map(1) by simp_all
  have "returns (lsm_find_run [1] 0 0 7 s) (\<lambda>(out, c). c = 7 \<and> (\<exists>j. out = CACHING j 0))"
  proof (rule returns_mono [OF lsm_find_run_correct [OF lists(1), of "[1]" 7]], clarify, goal_cases)
    case (1 out c)
    then show ?case
      using one(1) by (cases out) (auto simp: LEVELCACHING_def nth_Cons split: nat.splits)
  qed
  moreover have "returns (lsm_find_run [1] 0 0 7 s') (\<lambda>(out, c). \<exists>k. out = FOUND 3 k)"
  proof (rule returns_mono [OF lsm_find_run_correct [OF lists(2), of "[1]" 7]], clarify, goal_cases)
    case (1 out c)
    then show ?case
      using one(2) two_entries_ne by (cases out) (auto simp: LEVELCACHING_def nth_Cons numeral_eq_Suc split: nat.splits)
  qed
  ultimately show ?thesis
    using s s' by blast
qed

theorem lsm_get_missing_key_witness:
  "\<exists>s. stores s 2898 [[], [], [], two_entries, []] \<and> lsm_get 0 0 (read_request [9] (Some (0, 0))) s = None"
proof -
  obtain s where s: "stores s 2898 [[], [], [], two_entries, []]"
    by (rule small_fourth_level)
  have "disk_lists (ls_disk s) [[], [], [], two_entries, []]" "map lv_idx (ls_disk s) = [0..<LEVELN]" "ready s 2898"
    using s by (simp_all add: stores_def)
  moreover have "lr_params (read_request [9] (Some (0, 0))) = Some (0, 0)" "LEVELCACHING \<le> 3" "3 < LEVELN"
    "[[], [], [], two_entries, []] ! 3 \<noteq> []" "\<forall>j \<in> {LEVELCACHING..<3}. [[], [], [], two_entries, []] ! j = []"
    using two_entries_ne by (simp_all add: read_request_def LEVELCACHING_def LEVELN_def)
  moreover have "disk_map (take (Suc 3) [[], [], [], two_entries, []]) (lr_key (read_request [9] (Some (0, 0)))) = None"
    using two_entries_map(2) by (simp add: read_request_def)
  ultimately have "lsm_get 0 0 (read_request [9] (Some (0, 0))) s = None"
    using lsm_get_missing_key by blast
  then show ?thesis
    using s by blast
qed

lemma mem_ok_empty: "mem_ok (lsm_skiplist_init garbage)"
  by (simp add: mem_ok_def lsm_skiplist_init_def)

lemma one_not_max: "[1] \<noteq> lsm_key_max"
proof
  assume "[1] = lsm_key_max"
  then have "length ([1] :: str_key) = length lsm_key_max"
    by simp
  then show False
    by (simp add: lsm_key_max_def)
qed

theorem lsm_get_skips_levels_witness:
  "\<exists>s. stores s 0 [two_entries, [], [], [], []] \<and> disk_map [two_entries, [], [], [], []] [1] = Some 0 \<and>
     map_option fst (lsm_get 5 0 (read_request [1] None) s) = Some (Some NOT_FOUND)"
proof -
  obtain s where s: "stores s 0 [two_entries, [], [], [], []]" "ls_mem s = lsm_skiplist_init 0"
    by (rule small_first_level)
  have "lr_key (read_request [1] None) \<noteq> lsm_key_max" "lr_params (read_request [1] None) = None"
    using one_not_max by (simp_all add: read_request_def)
  from lsm_get_skips_levels [OF _ this, of s 5 0] show ?thesis
    using s mem_ok_empty two_entries_map by (auto simp: read_request_def lsm_skiplist_init_def Let_def)
qed

end
