(* ===== verification/LsmWrite.thy ===== *)
theory LsmWrite
  imports LsmOps
begin

text \<open>
  A write of the LSM-tree store: whatever it cuts off and flushes, no key is lost, and the list is
  well-formed again.
\<close>

section \<open>What a write cuts off\<close>

definition short_keys :: "lsm_snode list \<Rightarrow> bool" where
  "short_keys ns \<longleftrightarrow> (\<forall>n \<in> set ns. length (sn_key n) < UINT8_MAX)"

lemma mem_ok_short: "mem_ok l \<Longrightarrow> short_keys (mt_nodes l)"
  by (simp add: mem_ok_def short_keys_def node_ok_def)

lemma limits: "size_limit = 3072" "num_limit = 510"
  by (simp_all add: size_limit_def num_limit_def KEYBITMAP_def PAGESIZE_def)

lemma keylens_many: "4 * length ns \<le> keylens ns"
  by (induction ns) auto

lemma keylens_few: "short_keys ns \<Longrightarrow> keylens ns \<le> 258 * length ns"
  by (induction ns) (auto simp: short_keys_def UINT8_MAX_def)

lemma cut_loop_moves:
  assumes "cut_loop len idx ns = (idx', len')" "ns \<noteq> []"
  shows "idx < idx'"
  using assms
proof (induction ns arbitrary: len idx)
  case (Cons n ns)
  then show ?case
    by (cases "ns = []") (fastforce simp: Let_def split: if_splits)+
qed simp

text \<open>A list that is cut has a dozen nodes, and at least two of them go.\<close>

lemma cut_two:
  assumes "mem_ok l" "lsm_cutting_header garbage l = Some (c, r)"
  shows "2 \<le> length (mt_nodes c)"
proof -
  have short: "short_keys (mt_nodes l)"
    using mem_ok_short [OF assms(1)] .
  obtain idx len where cut: "cut_loop 0 0 (mt_nodes l) = (idx, len)"
    by fastforce
  have c: "mt_nodes c = take idx (mt_nodes l)" "mt_size c = idx" and big: "3072 \<le> keylens (mt_nodes l) \<or> 510 \<le> length (mt_nodes l)"
    using assms cut by (auto simp: lsm_cutting_header_def mem_ok_def limits split: if_splits)
  have "2 \<le> length (mt_nodes l)"
    using big keylens_few [OF short] by linarith
  then obtain a b ns where ns: "mt_nodes l = a # b # ns"
    by (cases "mt_nodes l" rule: list.exhaust; cases "tl (mt_nodes l)") auto
  have "length (sn_key a) < 255" "length (sn_key b) < 255"
    using short ns by (simp_all add: short_keys_def UINT8_MAX_def)
  then have "cut_loop (KEYLEN (sn_key a)) 1 (b # ns) = (idx, len)"
    using cut ns by (simp add: limits Let_def del: cut_loop.simps(2)) (simp add: limits Let_def)
  then have "1 < idx"
    using cut_loop_moves by blast
  moreover have "mt_size c = length (mt_nodes c)"
    using lsm_cutting_header_ok(2) [OF assms] by (simp add: mem_ok_def)
  ultimately show ?thesis
    using c(2) by simp
qed

lemma cut_loop_big:
  assumes "cut_loop len idx ns = (idx', len')" "short_keys ns"
  shows "2813 \<le> len' \<or> 510 \<le> idx' \<or> idx' = idx + length ns \<and> len' = len + keylens ns"
  using assms
proof (induction ns arbitrary: len idx)
  case (Cons n ns)
  let ?following = "case ns of [] \<Rightarrow> KEYLEN lsm_key_max | m # _ \<Rightarrow> KEYLEN (sn_key m)"
  have following: "?following \<le> 259"
    using Cons.prems(2) by (auto simp: short_keys_def UINT8_MAX_def lsm_key_max_def split: list.splits)
  show ?case
  proof (cases "len + KEYLEN (sn_key n) + ?following \<ge> size_limit \<or> idx + 1 \<ge> num_limit")
    case True
    then have "idx' = idx + 1" "len' = len + KEYLEN (sn_key n)"
      using Cons.prems(1) by (auto simp: Let_def split: if_splits)
    then show ?thesis
      using True following by (auto simp: limits)
  next
    case False
    then have "cut_loop (len + KEYLEN (sn_key n)) (idx + 1) ns = (idx', len')"
      using Cons.prems(1) by (auto simp: Let_def)
    then show ?thesis
      using Cons.IH [of "len + KEYLEN (sn_key n)" "idx + 1"] Cons.prems(2) by (auto simp: short_keys_def)
  qed
qed simp

text \<open>A list is cut off when it has 510 nodes or its keys about 2800 bytes: the keys of 510 nodes have 2040 bytes at least.\<close>

lemma cut_big:
  assumes "mem_ok l" "lsm_cutting_header garbage l = Some (c, r)"
  shows "2040 \<le> keylens (mt_nodes c)"
proof -
  obtain idx len where cut: "cut_loop 0 0 (mt_nodes l) = (idx, len)"
    by fastforce
  have c: "mt_size c = idx" "mt_all_length c = len" and big: "3072 \<le> keylens (mt_nodes l) \<or> 510 \<le> length (mt_nodes l)"
    using assms cut by (auto simp: lsm_cutting_header_def mem_ok_def limits split: if_splits)
  have "mem_ok c"
    using lsm_cutting_header_ok(2) [OF assms] .
  then have "keylens (mt_nodes c) = len" "4 * idx \<le> keylens (mt_nodes c)"
    using c keylens_many [of "mt_nodes c"] by (simp_all add: mem_ok_def)
  moreover have "2813 \<le> len \<or> 510 \<le> idx \<or> idx = length (mt_nodes l) \<and> len = keylens (mt_nodes l)"
    using cut_loop_big [OF cut mem_ok_short [OF assms(1)]] by simp
  ultimately show ?thesis
    using big by linarith
qed

definition cut_list :: "memtable \<Rightarrow> bool" where
  "cut_list c \<longleftrightarrow> mem_ok c \<and> 2 \<le> length (mt_nodes c) \<and> length (mt_nodes c) \<le> 510 \<and> keylens (mt_nodes c) \<in> {2040..3072}"

abbreviation cut_nodes :: "memtable list \<Rightarrow> lsm_snode list" where
  "cut_nodes cs \<equiv> concat (map mt_nodes cs)"

lemma cut_requests_ok:
  assumes "mem_ok l"
  shows "returns (cut_requests garbage l) (\<lambda>(cs, r). mt_nodes l = cut_nodes cs @ mt_nodes r \<and> (\<forall>c \<in> set cs. cut_list c) \<and>
    mem_ok r \<and> keylens (mt_nodes r) < 3072 \<and> length (mt_nodes r) < 510)"
  using assms
proof (induction "length (mt_nodes l)" arbitrary: l rule: less_induct)
  case less
  show ?case
  proof (cases "lsm_cutting_header garbage l")
    case None
    then have "keylens (mt_nodes l) < 3072" "length (mt_nodes l) < 510"
      using less.prems by (auto simp: lsm_cutting_header_def mem_ok_def limits split: if_splits prod.splits)
    then show ?thesis
      using None less.prems by (simp add: cut_requests.simps)
  next
    case (Some x)
    obtain c r where x: "x = (c, r)"
      by (cases x)
    note cut = lsm_cutting_header_ok [OF less.prems Some [unfolded x]]
    have "cut_list c"
      using cut cut_two [OF less.prems Some [unfolded x]] cut_big [OF less.prems Some [unfolded x]] by (simp add: cut_list_def)
    moreover have "length (mt_nodes r) < length (mt_nodes l)"
      using cut(1,4) by simp
    ultimately show ?thesis
      using less.hyps [OF _ cut(3)] Some x cut(1) by (subst cut_requests.simps) (auto elim!: returnsE)
  qed
qed

section \<open>A write\<close>

text \<open>The state between two requests, when \<open>n\<close> metadata pages at most are gone and the levels list \<open>ess\<close>.\<close>

definition keys_above :: "lsm_snode list \<Rightarrow> bool" where
  "keys_above ns \<longleftrightarrow> (\<forall>n \<in> set ns. \<not> key_less (sn_key n) lsm_key_min)"

definition lsm_ok :: "lsm_t \<Rightarrow> nat \<Rightarrow> entries list \<Rightarrow> bool" where
  "lsm_ok s n ess \<longleftrightarrow> stores s n ess \<and> mem_ok (ls_mem s) \<and> keys_above (mt_nodes (ls_mem s))"

definition lsm_keys :: "lsm_t \<Rightarrow> entries list \<Rightarrow> str_key set" where
  "lsm_keys s ess = sn_key ` set (mt_nodes (ls_mem s)) \<union> dom (disk_map ess)"

lemma flushed_dom: "dom (map_of (flushed d ns)) = sn_key ` set ns"
proof -
  have "dom (map_of (flushed d ns)) = set (map fst (flushed d ns))"
    by (simp add: dom_map_of_conv_image_fst)
  then show ?thesis
    unfolding flushed_keys by simp
qed

lemma data_room_mono: "data_room d n \<Longrightarrow> d' + 2 * m \<le> d + 2 * n \<Longrightarrow> data_room d' m"
  by (simp add: data_room_def nth_page_def)

lemma compaction_request_type:
  "compaction_request now garbage garbage0 c s = Some (lat, r, s') \<Longrightarrow> r \<noteq> NO_COMPACTION"
  by (auto simp: compaction_request_def Let_def split: Option.bind_splits if_splits)

text \<open>What a list of compaction requests needs: the room in the levels and on the device.\<close>

definition compact_room :: "lsm_t \<Rightarrow> nat \<Rightarrow> entries list \<Rightarrow> nat \<Rightarrow> lsm_snode list \<Rightarrow> nat \<Rightarrow> bool" where
  "compact_room s n ess d ns k \<longleftrightarrow> store_fits (keylens ns) ess \<and>
     handed_out (ls_alloc s) DATA d \<and> data_room d (length ns) \<and> n + k * request_pages \<le> partition_pages MAP"

lemma compact_all_ok:
  assumes "fresh_pages garbage" "length garbage0 = PAGESIZE" "\<forall>c \<in> set cs. cut_list c" "keys_above (cut_nodes cs)"
    "stores s n ess" "compact_room s n ess d (cut_nodes cs) (length cs)"
  shows "returns (compact_all now garbage garbage0 cs req s) (\<lambda>(req', s'). \<exists>ess'.
    stores s' (n + length cs * request_pages) ess' \<and> same_levels s s' \<and>
    dom (disk_map ess') = dom (disk_map ess) \<union> sn_key ` set (cut_nodes cs) \<and>
    lr_key req' = lr_key req \<and> lr_value req' = lr_value req)"
  using assms(3-)
proof (induction cs arbitrary: req s n ess d)
  case Nil
  then show ?case
    by (auto simp: same_levels_def)
next
  case (Cons c cs)
  have c: "cut_list c" "keys_above (mt_nodes c)" "keys_above (cut_nodes cs)"
    using Cons.prems(1,2) by (auto simp: keys_above_def)
  have room: "store_fits (keylens (mt_nodes c) + keylens (cut_nodes cs)) ess" "handed_out (ls_alloc s) DATA d"
    "data_room d (length (mt_nodes c) + length (cut_nodes cs))" "n + (request_pages + length cs * request_pages) \<le> partition_pages MAP"
    using Cons.prems(4) by (simp_all add: compact_room_def)
  have "flushable d c"
    using c(1,2) data_room_mono [OF room(3), of d "length (mt_nodes c)"] by (simp add: flushable_def cut_list_def keys_above_def)
  moreover have "store_fits (keylens (mt_nodes c)) ess"
    using store_fits_mono [OF room(1), of "keylens (mt_nodes c)" ess] by simp
  ultimately have "returns (compaction_request now garbage garbage0 c s) (\<lambda>(lat, r, s'). \<exists>ess'.
      stores s' (n + request_pages) ess' \<and> disk_map ess' = disk_map ess ++ map_of (flushed d (mt_nodes c)) \<and> same_levels s s' \<and>
      grows (keylens (mt_nodes c)) ess ess' \<and> (\<exists>m \<le> d + 2 * length (mt_nodes c). handed_out (ls_alloc s') DATA m))"
    using Cons.prems(3) room(2,4) by (intro compaction_request_lists [OF assms(1,2)]) simp_all
  then obtain lat r s1 ess1 d1 where one: "compaction_request now garbage garbage0 c s = Some (lat, r, s1)"
      "stores s1 (n + request_pages) ess1" "disk_map ess1 = disk_map ess ++ map_of (flushed d (mt_nodes c))" "same_levels s s1"
      "grows (keylens (mt_nodes c)) ess ess1" "d1 \<le> d + 2 * length (mt_nodes c)" "handed_out (ls_alloc s1) DATA d1"
    by (elim returnsE) auto
  have "compact_room s1 (n + request_pages) ess1 d1 (cut_nodes cs) (length cs)"
    using store_fits_grows [OF room(1) one(5)] one(6,7) room(4) data_room_mono [OF room(3), of d1 "length (cut_nodes cs)"]
    unfolding compact_room_def by simp
  then have "returns (compact_all now garbage garbage0 cs (req\<lparr>lr_etime := lr_etime req + lat, lr_end_type := r\<rparr>) s1) (\<lambda>(req', s'). \<exists>ess'.
      stores s' (n + request_pages + length cs * request_pages) ess' \<and> same_levels s1 s' \<and>
      dom (disk_map ess') = dom (disk_map ess1) \<union> sn_key ` set (cut_nodes cs) \<and>
      lr_key req' = lr_key (req\<lparr>lr_etime := lr_etime req + lat, lr_end_type := r\<rparr>) \<and>
      lr_value req' = lr_value (req\<lparr>lr_etime := lr_etime req + lat, lr_end_type := r\<rparr>))"
    using Cons.prems(1) c(3) one(2) by (intro Cons.IH) simp_all
  then obtain req2 s2 ess2 where rest: "compact_all now garbage garbage0 cs (req\<lparr>lr_etime := lr_etime req + lat, lr_end_type := r\<rparr>) s1 = Some (req2, s2)"
      "stores s2 (n + request_pages + length cs * request_pages) ess2" "same_levels s1 s2"
      "dom (disk_map ess2) = dom (disk_map ess1) \<union> sn_key ` set (cut_nodes cs)" "lr_key req2 = lr_key req" "lr_value req2 = lr_value req"
    by (elim returnsE) auto
  have "dom (disk_map ess2) = dom (disk_map ess) \<union> sn_key ` set (cut_nodes (c # cs))"
    unfolding rest(4) one(3) dom_map_add flushed_dom by auto
  moreover have "same_levels s s2"
    using one(4) rest(3) by (simp add: same_levels_def)
  ultimately show ?case
    using one(1) rest by (auto simp: add.assoc intro!: exI [of _ ess2])
qed

text \<open>The counters: the average divides by the number of cuts, which is counted in 32 bits.\<close>

lemma count_cut_keeps:
  assumes "ls_cut s + 1 < 2 ^ 32"
  shows "\<exists>a. count_cut k s = Some (s\<lparr>ls_avg := a, ls_cut := ls_cut s + 1\<rparr>)"
  using assms by (intro exI [of _ "(ls_avg s * ls_cut s + k) mod 2 ^ 32 div (ls_cut s + 1)"]) (simp add: count_cut_def Let_def)

text \<open>What a write needs: a cut takes 2040 bytes of keys at least.\<close>

definition most_cuts :: "lsm_t \<Rightarrow> nat" where
  "most_cuts s = keylens (mt_nodes (ls_mem s)) div 2040"

definition write_room :: "lsm_t \<Rightarrow> nat \<Rightarrow> entries list \<Rightarrow> nat \<Rightarrow> bool" where
  "write_room s n ess d \<longleftrightarrow> compact_room s n ess d (mt_nodes (ls_mem s)) (most_cuts s) \<and> ls_cut s + 2 < 2 ^ 32"

lemma compact_room_mono:
  assumes "compact_room s n ess d ns k" "keylens ms \<le> keylens ns" "length ms \<le> length ns" "j \<le> k"
  shows "compact_room s n ess d ms j"
proof -
  have "store_fits (keylens ms) ess"
    using store_fits_mono [of "keylens ns" ess "keylens ms" ess] assms(1,2) by (simp add: compact_room_def)
  moreover have "j * request_pages \<le> k * request_pages"
    using assms(4) by simp
  ultimately show ?thesis
    using assms(1,3) data_room_mono [of d "length ns" d "length ms"] unfolding compact_room_def by linarith
qed

lemma cut_list_count: "\<forall>c \<in> set cs. cut_list c \<Longrightarrow> length cs * 2040 \<le> keylens (cut_nodes cs)"
  by (induction cs) (auto simp: cut_list_def)

text \<open>The state after the flush of a write, if there is one.\<close>

definition after_flush :: "lsm_t \<Rightarrow> nat \<Rightarrow> entries list \<Rightarrow> lsm_t \<Rightarrow> entries list \<Rightarrow> bool" where
  "after_flush s n ess s' ess' \<longleftrightarrow> lsm_ok s' (n + most_cuts s * request_pages) ess' \<and> ls_finish s' = ls_finish s \<and> lsm_keys s' ess' = lsm_keys s ess"

lemma after_flush_refl: "lsm_ok s n ess \<Longrightarrow> after_flush s n ess s ess"
  using stores_mono [OF _ le_add1] by (auto simp: after_flush_def lsm_ok_def)

lemma flush_cut:
  assumes "fresh_pages garbage" "length garbage0 = PAGESIZE" "lsm_ok s n ess" "write_room s n ess d"
    "mt_nodes (ls_mem s) = cut_nodes cs @ mt_nodes r" "\<forall>c \<in> set cs. cut_list c" "mem_ok r"
  shows "returns (compact_all now garbage garbage0 cs req (s\<lparr>ls_mem := r, ls_avg := a, ls_cut := k\<rparr>)) (\<lambda>(req', s'). \<exists>ess'.
    after_flush s n ess s' ess' \<and> lr_key req' = lr_key req \<and> lr_value req' = lr_value req)"
proof -
  let ?s = "s\<lparr>ls_mem := r, ls_avg := a, ls_cut := k\<rparr>" and ?ns = "mt_nodes (ls_mem s)"
  note s = assms(3) [unfolded lsm_ok_def]
  have above: "keys_above (cut_nodes cs)" "keys_above (mt_nodes r)"
    using s assms(5) by (auto simp: keys_above_def)
  have less: "keylens (cut_nodes cs) \<le> keylens ?ns" "length (cut_nodes cs) \<le> length ?ns"
    unfolding assms(5) by simp_all
  have few: "length cs \<le> most_cuts s"
    using cut_list_count [OF assms(6)] less(1) by (simp add: most_cuts_def less_eq_div_iff_mult_less_eq)
  have "compact_room s n ess d (cut_nodes cs) (length cs)"
    using compact_room_mono [OF _ less few] assms(4) by (simp add: write_room_def)
  then have room: "compact_room ?s n ess d (cut_nodes cs) (length cs)"
    by (simp add: compact_room_def)
  have st: "stores ?s n ess"
    using s by (simp add: stores_def ready_def)
  obtain req' s' ess' where f: "compact_all now garbage garbage0 cs req ?s = Some (req', s')"
      "stores s' (n + length cs * request_pages) ess'" "same_levels ?s s'"
      "dom (disk_map ess') = dom (disk_map ess) \<union> sn_key ` set (cut_nodes cs)" "lr_key req' = lr_key req" "lr_value req' = lr_value req"
    using compact_all_ok [OF assms(1,2,6) above(1) st room, of now req] by (elim returnsE) auto
  have shape: "ls_mem s' = r" "ls_finish s' = ls_finish s"
    using f(3) by (auto simp: same_levels_def)
  have "n + length cs * request_pages \<le> n + most_cuts s * request_pages"
    using few by simp
  then have "lsm_ok s' (n + most_cuts s * request_pages) ess'"
    using stores_mono [OF f(2)] shape assms(7) above(2) by (simp add: lsm_ok_def)
  moreover have "lsm_keys s' ess' = lsm_keys s ess"
    using f(4) shape assms(5) by (auto simp: lsm_keys_def)
  ultimately show ?thesis
    using f(1,5,6) shape by (auto simp: after_flush_def intro!: exI [of _ ess'])
qed

text \<open>The check, and the flush it asks for.\<close>

definition flush_step :: "nat \<Rightarrow> (nat \<Rightarrow> page) \<Rightarrow> page \<Rightarrow> u32 \<Rightarrow> lsm_request \<Rightarrow> lsm_t \<Rightarrow> (lsm_request \<times> lsm_t) option" where
  "flush_step now garbage garbage0 garbage1 req s = do {
     (flush, ts, s1) \<leftarrow> compaction_check garbage1 s;
     if flush then compact_all now garbage garbage0 ts req s1 else Some (req\<lparr>lr_end_type := NO_COMPACTION\<rparr>, s1)
   }"

lemma flush_step_ok:
  assumes "fresh_pages garbage" "length garbage0 = PAGESIZE" "lsm_ok s n ess" "write_room s n ess d"
  shows "returns (flush_step now garbage garbage0 garbage1 req s) (\<lambda>(req', s'). \<exists>ess'.
    after_flush s n ess s' ess' \<and> lr_key req' = lr_key req \<and> lr_value req' = lr_value req)"
proof (cases "mt_size (ls_mem s) < FLUSH_CHECK_NUM")
  case True
  then show ?thesis
    using after_flush_refl [OF assms(3)] by (auto simp: flush_step_def compaction_check_def)
next
  case False
  have mem: "mem_ok (ls_mem s)"
    using assms(3) by (simp add: lsm_ok_def)
  obtain cs r where cut: "cut_requests garbage1 (ls_mem s) = Some (cs, r)" "mt_nodes (ls_mem s) = cut_nodes cs @ mt_nodes r"
      "\<forall>c \<in> set cs. cut_list c" "mem_ok r"
    using cut_requests_ok [OF mem, of garbage1] by (auto elim!: returnsE)
  show ?thesis
  proof (cases cs)
    case Nil
    then show ?thesis
      using False cut(1) after_flush_refl [OF assms(3)] by (auto simp: flush_step_def compaction_check_def)
  next
    case (Cons c cs')
    have counts: "ls_cut s + 1 < 2 ^ 32" "Suc (ls_cut s) + 1 < 2 ^ 32"
      using assms(4) by (simp_all add: write_room_def)
    obtain a where a: "count_cut (mt_size c) (s\<lparr>ls_mem := r\<rparr>) = Some (s\<lparr>ls_mem := r, ls_avg := a, ls_cut := Suc (ls_cut s)\<rparr>)"
      using count_cut_keeps [of "s\<lparr>ls_mem := r\<rparr>" "mt_size c"] counts(1) by auto
    obtain b where b: "count_cut (mt_size (last cs)) (s\<lparr>ls_mem := r, ls_avg := a, ls_cut := Suc (ls_cut s)\<rparr>) =
        Some (s\<lparr>ls_mem := r, ls_avg := b, ls_cut := Suc (Suc (ls_cut s))\<rparr>)"
      using count_cut_keeps [of "s\<lparr>ls_mem := r, ls_avg := a, ls_cut := Suc (ls_cut s)\<rparr>" "mt_size (last cs)"] counts(2) by auto
    have "compaction_check garbage1 s = Some (True, cs, s\<lparr>ls_mem := r, ls_avg := b, ls_cut := Suc (Suc (ls_cut s))\<rparr>)"
      using False cut(1) Cons a b by (simp add: compaction_check_def)
    then show ?thesis
      using flush_cut [OF assms cut(2-4), where a = b and k = "Suc (Suc (ls_cut s))"] by (simp add: flush_step_def)
  qed
qed

lemma lsm_set_flush:
  "lsm_set now garbage garbage0 garbage1 req s = Option.bind (flush_step now garbage garbage0 garbage1 req s) (\<lambda>(req1, s2). do {
     (upd, l) \<leftarrow> lsm_skiplist_insert (ls_mem s2) (lr_key req1) (lr_value req1) False;
     let req2 = req1\<lparr>lr_value := None,
       lr_end_type := (if lr_end_type req1 = NO_COMPACTION then (if upd then SKIP_MODIFY else SKIP_INSERT) else lr_end_type req1)\<rparr>;
     let s3 = s2\<lparr>ls_mem := l\<rparr>;
     if mt_size l = FLUSH_CHECK_NUM then Some (1, req2, s3)
     else (let req3 = req2\<lparr>lr_etime := now\<rparr> in Some (0, req3, s3\<lparr>ls_finish := ls_finish s3 @ [req3]\<rparr>)) })"
  by (simp add: lsm_set_def flush_step_def split_def)

text \<open>
  C2. Writes lose no key.  On a store in order (\<open>lsm_ok\<close>: the capacities of \<^verbatim>\<open>lsm_create\<close>, sorted levels, a sorted
  list) with room (\<open>write_room\<close>), \<^verbatim>\<open>lsm_set\<close> on a valid pair returns, whatever it cuts off the list and flushes through
  the levels; the pair is in the list, no other key of the list or the levels is lost or new, the store is in order
  again, and the request is completed unless the list has then 64 pairs.  Room is what nothing in the source checks:
  the levels hold, with the list, no more bytes of entries than \<open>store_fits\<close> allows (35630 in level 0 and 7372800 in
  all), the data partition has two pages for every node, the metadata partition 5796 for every cut, and
  the counter of cuts does not wrap.
\<close>

theorem lsm_set_keeps_keys:
  assumes "fresh_pages garbage" "length garbage0 = PAGESIZE" "lsm_ok s n ess" "write_room s n ess d"
    "KEYVALCHECK (lr_key req)" "length (lr_key req) < UINT8_MAX" "\<not> key_less (lr_key req) lsm_key_min"
    "lr_value req = Some v" "0 < v" "v \<le> PAGESIZE"
  shows "returns (lsm_set now garbage garbage0 garbage1 req s) (\<lambda>(res, req', s'). \<exists>ess'.
    lsm_ok s' (n + most_cuts s * request_pages) ess' \<and>
    lsm_keys s' ess' = insert (lr_key req) (lsm_keys s ess) \<and>
    node_map (mt_nodes (ls_mem s')) (lr_key req) = Some (lsm_pieces v) \<and>
    res = (if mt_size (ls_mem s') = 64 then 1 else 0) \<and> ls_finish s' = ls_finish s @ (if res = 1 then [] else [req']))"
proof -
  obtain req1 s2 ess2 where f: "flush_step now garbage garbage0 garbage1 req s = Some (req1, s2)" "after_flush s n ess s2 ess2"
      "lr_key req1 = lr_key req" "lr_value req1 = lr_value req"
    using flush_step_ok [OF assms(1-4), of now garbage1 req] by (auto elim!: returnsE)
  note a = f(2) [unfolded after_flush_def lsm_ok_def]
  obtain upd l where l: "lsm_skiplist_insert (ls_mem s2) (lr_key req) (Some v) False = Some (upd, l)" "mem_ok l"
      "sn_key ` set (mt_nodes l) = insert (lr_key req) (sn_key ` set (mt_nodes (ls_mem s2)))"
      "node_map (mt_nodes l) = (node_map (mt_nodes (ls_mem s2)))(lr_key req \<mapsto> lsm_pieces v)"
    using lsm_skiplist_insert_ok [of "ls_mem s2" "lr_key req" v False] a assms(5,6,9,10) by (auto simp del: fun_upd_apply elim!: returnsE)
  have stored: "node_map (mt_nodes l) (lr_key req) = Some (lsm_pieces v)"
    using fun_cong [OF l(4), of "lr_key req"] by simp
  have above: "keys_above (mt_nodes l)"
    unfolding keys_above_def
  proof
    fix x assume "x \<in> set (mt_nodes l)"
    then have "sn_key x \<in> insert (lr_key req) (sn_key ` set (mt_nodes (ls_mem s2)))"
      using l(3) by blast
    then show "\<not> key_less (sn_key x) lsm_key_min"
      using a assms(7) by (auto simp: keys_above_def)
  qed
  have ok: "lsm_ok (s2\<lparr>ls_mem := l, ls_finish := fs\<rparr>) (n + most_cuts s * request_pages) ess2"
    "lsm_ok (s2\<lparr>ls_mem := l\<rparr>) (n + most_cuts s * request_pages) ess2" for fs
    using a l(2) above by (auto simp: lsm_ok_def stores_def ready_def)
  have keys: "lsm_keys (s2\<lparr>ls_mem := l, ls_finish := fs\<rparr>) ess2 = insert (lr_key req) (lsm_keys s ess)"
    "lsm_keys (s2\<lparr>ls_mem := l\<rparr>) ess2 = insert (lr_key req) (lsm_keys s ess)" for fs
    using a l(3) by (simp_all add: lsm_keys_def)
  show ?thesis
    unfolding lsm_set_flush using f(1,3,4) assms(8) l(1) stored a ok keys
    by (auto simp: FLUSH_CHECK_NUM_def Let_def intro!: exI [of _ ess2])
qed


section \<open>The claim at a concrete input\<close>

text \<open>A list of 64 pairs that is long enough to be cut.\<close>

definition long_key :: "nat \<Rightarrow> str_key" where
  "long_key i = of_nat (Suc i) # replicate 47 0"

definition long_list :: memtable where
  "long_list = \<lparr>mt_nodes = map (\<lambda>i. \<lparr>sn_key = long_key i, sn_ppa = 0, sn_value = Some 1, sn_isvalid = False\<rparr>) [0..<64],
     mt_size = 64, mt_all_length = 3328, mt_data_size = 0\<rparr>"

lemma long_byte: "i < 64 \<Longrightarrow> unat (of_nat (Suc i) :: 8 word) = Suc i"
  by (simp add: unat_of_nat del: of_nat_Suc)

lemma long_key_less:
  assumes "i < j" "j < 64"
  shows "key_less (long_key i) (long_key j)"
proof -
  have "(of_nat (Suc i) :: 8 word) < of_nat (Suc j)"
    using assms by (simp add: word_less_nat_alt long_byte del: of_nat_Suc)
  then show ?thesis
    by (simp add: long_key_def del: of_nat_Suc)
qed

lemma long_key_above:
  assumes "i < 64"
  shows "\<not> key_less (long_key i) lsm_key_min"
proof -
  have "(of_nat (Suc i) :: 8 word) \<noteq> 0"
    using long_byte [OF assms] by (metis nat.distinct(1) unat_0)
  then show ?thesis
    unfolding long_key_def by (rule above_key_min)
qed

lemma long_keylens: "keylens (mt_nodes long_list) = 3328"
proof -
  have "map (\<lambda>n. KEYLEN (sn_key n)) (mt_nodes long_list) = replicate 64 52"
    by (intro nth_equalityI) (simp_all add: long_list_def long_key_def)
  then show ?thesis
    by (simp add: sum_list_replicate)
qed

lemma long_list_ok: "mem_ok long_list" "keys_above (mt_nodes long_list)"
proof -
  have "sorted_wrt key_less (map sn_key (mt_nodes long_list))"
    by (auto simp: long_list_def sorted_wrt_map sorted_wrt_iff_nth_less long_key_less)
  moreover have "(of_nat (Suc i) :: 8 word) < 128" if "i < 64" for i
    using that by (simp add: word_less_nat_alt long_byte del: of_nat_Suc)
  then have "\<forall>n \<in> set (mt_nodes long_list). node_ok n"
    by (auto simp del: of_nat_Suc simp: long_list_def node_ok_def long_key_def KEYVALCHECK_def UINT8_MAX_def PIECE_PER_PAGE_def PAGESIZE_val)
  moreover have "mt_size long_list = length (mt_nodes long_list)" "mt_all_length long_list = keylens (mt_nodes long_list)"
    unfolding long_keylens by (simp_all add: long_list_def)
  ultimately show "mem_ok long_list"
    by (simp add: mem_ok_def)
  show "keys_above (mt_nodes long_list)"
    using long_key_above by (auto simp: keys_above_def long_list_def)
qed

lemma long_list_cut:
  assumes "ls_mem s = long_list" "ls_cut s = 0"
  shows "\<exists>ts s1. ts \<noteq> [] \<and> compaction_check 0 s = Some (True, ts, s1)"
proof -
  obtain cs r where cut: "cut_requests 0 long_list = Some (cs, r)" "mt_nodes long_list = cut_nodes cs @ mt_nodes r" "keylens (mt_nodes r) < 3072"
    using cut_requests_ok [OF long_list_ok(1), of 0] by (elim returnsE) auto
  have "cs \<noteq> []"
    using cut(2,3) long_keylens by auto
  then obtain c cs' where cs: "cs = c # cs'"
    by (cases cs) auto
  obtain a where a: "count_cut (mt_size c) (s\<lparr>ls_mem := r\<rparr>) = Some (s\<lparr>ls_mem := r, ls_avg := a, ls_cut := ls_cut s + 1\<rparr>)"
    using count_cut_keeps [of "s\<lparr>ls_mem := r\<rparr>" "mt_size c"] assms(2) by auto
  obtain b where b: "count_cut (mt_size (last cs)) (s\<lparr>ls_mem := r, ls_avg := a, ls_cut := ls_cut s + 1\<rparr>) =
      Some (s\<lparr>ls_mem := r, ls_avg := b, ls_cut := ls_cut s + 1 + 1\<rparr>)"
    using count_cut_keeps [of "s\<lparr>ls_mem := r, ls_avg := a, ls_cut := ls_cut s + 1\<rparr>" "mt_size (last cs)"] assms(2) by auto
  have "mt_size long_list = 64"
    by (simp add: long_list_def)
  then have "compaction_check 0 s = Some (True, cs, s\<lparr>ls_mem := r, ls_avg := b, ls_cut := ls_cut s + 1 + 1\<rparr>)"
    using cut(1) a b by (simp add: compaction_check_def FLUSH_CHECK_NUM_def assms(1) cs)
  then show ?thesis
    using cs by blast
qed

text \<open>On the store of the start-up with this list, a write cuts the list and flushes it, and all keys are still there.\<close>

theorem lsm_set_keeps_keys_witness:
  "\<exists>s. lsm_create 0 no_oob = Some s \<and>
     (\<exists>ts s1. ts \<noteq> [] \<and> compaction_check 0 (s\<lparr>ls_mem := long_list\<rparr>) = Some (True, ts, s1)) \<and>
     returns (lsm_set 5 (\<lambda>_. blank_page) blank_page 0 ((read_request [100] None)\<lparr>lr_value := Some 512\<rparr>) (s\<lparr>ls_mem := long_list\<rparr>))
       (\<lambda>(res, req', s'). \<exists>ess'. disk_lists (ls_disk s') ess' \<and> lsm_keys s' ess' = insert [100] (long_key ` {..<64}) \<and>
         node_map (mt_nodes (ls_mem s')) [100] = Some 1)"
proof -
  obtain s where s: "lsm_create 0 no_oob = Some s" "stores s 0 (replicate LEVELN [])" "handed_out (ls_alloc s) DATA 0"
      "ls_cut s = 0" "ls_finish s = []"
    by (rule small_store)
  let ?req = "(read_request [100] None)\<lparr>lr_value := Some 512\<rparr>" and ?s = "s\<lparr>ls_mem := long_list\<rparr>"
  have "stores ?s 0 (replicate LEVELN [])"
    using s(2) by (simp add: stores_def ready_def)
  then have ok: "lsm_ok ?s 0 (replicate LEVELN [])"
    using long_list_ok by (simp add: lsm_ok_def)
  have "length (mt_nodes long_list) = 64"
    by (simp add: long_list_def)
  then have "data_room 0 (length (mt_nodes long_list))"
    by (simp add: data_room_def nth_page_def lo_sblk_def PPS_val NOP_val)
  moreover have "store_fits (keylens (mt_nodes long_list)) (replicate LEVELN [])"
    unfolding long_keylens by (rule empty_fits) simp
  ultimately have room: "write_room ?s 0 (replicate LEVELN []) 0"
    using s(3,4) long_keylens by (simp add: write_room_def compact_room_def most_cuts_def request_pages_def map_partition)
  have req: "KEYVALCHECK (lr_key ?req)" "length (lr_key ?req) < UINT8_MAX" "\<not> key_less (lr_key ?req) lsm_key_min"
      "lr_value ?req = Some 512" "0 < (512 :: nat)" "512 \<le> PAGESIZE"
    by (simp_all add: read_request_def KEYVALCHECK_def UINT8_MAX_def above_key_min PAGESIZE_val)
  have keys: "lsm_keys ?s (replicate LEVELN []) = long_key ` {..<64}"
    by (force simp: lsm_keys_def long_list_def disk_map_None dom_def)
  have run: "returns (lsm_set 5 (\<lambda>_. blank_page) blank_page 0 ?req ?s)
       (\<lambda>(res, req', s'). \<exists>ess'. disk_lists (ls_disk s') ess' \<and> lsm_keys s' ess' = insert [100] (long_key ` {..<64}) \<and>
         node_map (mt_nodes (ls_mem s')) [100] = Some 1)"
  proof (rule returns_mono [OF lsm_set_keeps_keys [OF blank_pages ok room req, of 5 0]], clarify)
    fix res req' s' ess'
    assume r: "lsm_ok s' (0 + most_cuts ?s * request_pages) ess'" "lsm_keys s' ess' = insert (lr_key ?req) (lsm_keys ?s (replicate LEVELN []))"
      "node_map (mt_nodes (ls_mem s')) (lr_key ?req) = Some (lsm_pieces 512)"
    have "disk_lists (ls_disk s') ess'"
      using r(1) by (simp add: lsm_ok_def stores_def)
    then show "\<exists>ess'. disk_lists (ls_disk s') ess' \<and> lsm_keys s' ess' = insert [100] (long_key ` {..<64}) \<and>
         node_map (mt_nodes (ls_mem s')) [100] = Some 1"
      using r(2,3) unfolding keys by (intro exI [of _ ess']) (simp add: read_request_def lsm_pieces_def LSM_PIECE_def)
  qed
  have "\<exists>ts s1. ts \<noteq> [] \<and> compaction_check 0 ?s = Some (True, ts, s1)"
    using s(4) by (intro long_list_cut) simp_all
  then show ?thesis
    by (intro exI [of _ s] conjI s(1) run)
qed

end
