(* ===== verification/LsmSpare.thy ===== *)
theory LsmSpare
  imports LsmCompact
begin

text \<open>
  The operations of the LSM-tree store that its client operations do not reach: the collection of
  superblocks (\<^verbatim>\<open>lsmtree/lsm_pm.c\<close>), the iterators over a metadata page (\<^verbatim>\<open>array/array_level.c\<close>) and the
  remaining operations of the skip list (\<^verbatim>\<open>lsm_tools/skiplist.c\<close>).
\<close>

section \<open>Collection\<close>

text \<open>
  \<^verbatim>\<open>gc_header\<close> and \<^verbatim>\<open>gc_data\<close>: pages of the victim are read and new pages written; no mapping is
  changed and nothing is erased.  The latencies are summed in 32 bits.
\<close>

definition gc_copy :: "nat \<Rightarrow> ptype \<Rightarrow> ppa_t \<Rightarrow> lsm_t \<Rightarrow> (u32 \<times> lsm_t) option" where
  "gc_copy now t ppa s = do {
     (nppa, st) \<leftarrow> lsm_get_page t (ls_alloc s);
     (rl, s1) \<leftarrow> lsm_read now ppa (s\<lparr>ls_alloc := st\<rparr>);
     (wl, s2) \<leftarrow> lsm_write now nppa s1;
     Some (of_nat rl + of_nat wl, s2)
   }"

definition gc_header :: "nat \<Rightarrow> lsm_t \<Rightarrow> (u32 \<times> lsm_t) option" where
  "gc_header now s = gc_copy now MAP (lsm_get_gc_target (snd (ls_alloc s)) MAP * PPS) s"

fun gc_pages :: "nat \<Rightarrow> ppa_t list \<Rightarrow> lsm_t \<Rightarrow> (u32 \<times> lsm_t) option" where
  "gc_pages now [] s = Some (0, s)"
| "gc_pages now (ppa # ppas) s = do {
     (lat, s1) \<leftarrow> gc_copy now DATA ppa s;
     (lat', s2) \<leftarrow> gc_pages now ppas s1;
     Some (lat + lat', s2)
   }"

definition gc_data :: "nat \<Rightarrow> lsm_t \<Rightarrow> (u32 \<times> lsm_t) option" where
  "gc_data now s = (let k = lsm_get_gc_target (snd (ls_alloc s)) DATA in gc_pages now (map (\<lambda>i. k * PPS + i) [0..<PPS]) s)"

section \<open>Iterators over a page\<close>

text \<open>The page and the index of the next entry; \<^verbatim>\<open>private_data\<close> is null after the end.\<close>

record header_iter =
  hi_page :: "page option"
  hi_idx :: nat

text \<open>
  \<^verbatim>\<open>array_header_get_keyiter\<close>: without a page the run that covers the key is searched, which needs the key.  No
  result when there is no such run or its page is not in memory.
\<close>

definition array_header_get_keyiter :: "level \<Rightarrow> page option \<Rightarrow> str_key option \<Rightarrow> header_iter option option" where
  "array_header_get_keyiter lev page key = do {
     p \<leftarrow> (case page of
         Some q \<Rightarrow> Some (Some q)
       | None \<Rightarrow> do {
           k \<leftarrow> key;
           let target = array_binary_search lev k;
           Some (if target = - 1 then None else r_data (lv_arrs lev ! nat target))
         });
     (case (key, p) of
        (None, _) \<Rightarrow> Some (Some \<lparr>hi_page = p, hi_idx = 0\<rparr>)
      | (Some k, Some q) \<Rightarrow> map_option (\<lambda>i. Some \<lparr>hi_page = p, hi_idx = i\<rparr>) (array_find_idx_lower_bound q k)
      | (Some _, None) \<Rightarrow> Some None)
   }"

text \<open>\<^verbatim>\<open>array_header_next_key_pick\<close>: an entry is returned only if its index is below the number of entries.\<close>

definition array_header_next_key_pick :: "header_iter \<Rightarrow> (str_key \<times> ppa_t) option option" where
  "array_header_next_key_pick h = do {
     p \<leftarrow> hi_page h;
     n \<leftarrow> get16 p 0;
     if hi_idx h < n then do {
       a \<leftarrow> header_ppa p (hi_idx h);
       k \<leftarrow> header_key p (hi_idx h);
       Some (Some (k, a))
     } else Some None
   }"

definition array_header_next_key :: "header_iter option \<Rightarrow> ((str_key \<times> ppa_t) option \<times> header_iter option) option" where
  "array_header_next_key it =
     (case it of
        None \<Rightarrow> Some (None, None)
      | Some h \<Rightarrow> map_option (\<lambda>r. (r, if r = None then None else Some (h\<lparr>hi_idx := hi_idx h + 1\<rparr>))) (array_header_next_key_pick h))"

section \<open>The other operations of the list\<close>

text \<open>
  The range searches walk past the nodes that are not above the key.  With the key of the header they
  go round the list for ever.  The header stands behind the last node.
\<close>

definition not_above :: "str_key \<Rightarrow> lsm_snode \<Rightarrow> bool" where
  "not_above key n \<longleftrightarrow> KEYCMP (sn_key n) key \<le> 0"

definition lsm_skiplist_range_search :: "memtable \<Rightarrow> str_key \<Rightarrow> lsm_snode option option" where
  "lsm_skiplist_range_search l key =
     (if mt_size l = 0 then Some None
      else if key = lsm_key_max then None
      else
        (let us = takeWhile (not_above key) (mt_nodes l);
             next_key = (case dropWhile (not_above key) (mt_nodes l) of [] \<Rightarrow> lsm_key_max | n # _ \<Rightarrow> sn_key n)
         in if us \<noteq> [] \<and> KEYCMP (sn_key (last us)) key \<le> 0 \<and> KEYCMP key next_key < 0 then Some (Some (last us))
            else (case mt_nodes l of
                [] \<Rightarrow> None
              | n # _ \<Rightarrow> Some (if KEYCMP key (sn_key n) \<le> 0 then Some n else None))))"

definition lsm_skiplist_strict_range_search :: "memtable \<Rightarrow> str_key \<Rightarrow> lsm_snode option option" where
  "lsm_skiplist_strict_range_search l key =
     (if mt_size l = 0 then Some None
      else if key = lsm_key_max then None
      else
        (let us = takeWhile (not_above key) (mt_nodes l);
             vs = dropWhile (not_above key) (mt_nodes l);
             next_key = (case vs of [] \<Rightarrow> lsm_key_max | n # _ \<Rightarrow> sn_key n);
             bf_key = (case us of [] \<Rightarrow> lsm_key_max | _ \<Rightarrow> sn_key (last us))
         in if us \<noteq> [] \<and> KEYCMP bf_key key \<le> 0 \<and> KEYCMP key next_key < 0 then Some (Some (last us))
            else if KEYCMP bf_key lsm_key_max = 0 then (case vs of [] \<Rightarrow> None | n # _ \<Rightarrow> Some (Some n))
            else Some None))"

text \<open>\<^verbatim>\<open>skiplist_delete\<close> returns 0, -1 for an empty list and -2 for a key that is not there; \<^verbatim>\<open>all_length\<close> stays.\<close>

definition lsm_skiplist_delete :: "memtable \<Rightarrow> str_key \<Rightarrow> (int \<times> memtable) option" where
  "lsm_skiplist_delete l key =
     (if mt_size l = 0 then Some (- 1, l)
      else (case dropWhile (below key) (mt_nodes l) of
          [] \<Rightarrow> if KEYCMP lsm_key_max key = 0 then None else Some (- 2, l)
        | n # rest \<Rightarrow>
            if KEYCMP (sn_key n) key \<noteq> 0 then Some (- 2, l)
            else Some (0, l\<lparr>mt_nodes := takeWhile (below key) (mt_nodes l) @ rest, mt_size := mt_size l - 1\<rparr>)))"

text \<open>\<^verbatim>\<open>skiplist_at\<close>: the header counts as node 0 and follows the last node; it is \<open>None\<close>.\<close>

definition lsm_skiplist_at :: "memtable \<Rightarrow> nat \<Rightarrow> lsm_snode option" where
  "lsm_skiplist_at l idx =
     (let i = idx mod (length (mt_nodes l) + 1) in if i = 0 then None else Some (mt_nodes l ! (i - 1)))"

text \<open>\<^verbatim>\<open>skiplist_clear\<close> resets the number of nodes, but neither of the lengths.\<close>

definition lsm_skiplist_clear :: "memtable \<Rightarrow> memtable" where
  "lsm_skiplist_clear l = l\<lparr>mt_nodes := [], mt_size := 0\<rparr>"

text \<open>
  \<^verbatim>\<open>skiplist_cutting_header_se\<close>: also the first and the last key.  When nothing is cut, the last key is
  read behind the end of the loop, from the header.
\<close>

definition lsm_cutting_header_se :: "u32 \<Rightarrow> memtable \<Rightarrow> str_key option \<times> str_key option \<times> (memtable \<times> memtable) option" where
  "lsm_cutting_header_se garbage l =
     (case lsm_cutting_header garbage l of
        None \<Rightarrow> (case mt_nodes l of [] \<Rightarrow> (None, None, None) | n # _ \<Rightarrow> (Some (sn_key n), Some lsm_key_max, None))
      | Some (res, rest) \<Rightarrow>
          (case mt_nodes res of
             [] \<Rightarrow> (None, None, Some (res, rest))
           | n # _ \<Rightarrow> (Some (sn_key n), Some (sn_key (last (mt_nodes res))), Some (res, rest))))"

section \<open>A collection reclaims nothing\<close>

lemma gc_copy_data:
  assumes "ready s n" "handed_out (ls_alloc s) DATA d" "d < partition_pages DATA" "ppa < 1178 * PPS"
  shows "returns (gc_copy now DATA ppa s) (\<lambda>(lat, s'). ls_disk s' = ls_disk s \<and> ls_mem s' = ls_mem s \<and> ready s' n \<and>
    handed_out (ls_alloc s') DATA (d + 1))"
proof -
  obtain p b where st: "ls_alloc s = (p, b)"
    by (cases "ls_alloc s")
  obtain p' b' where page: "lsm_get_page DATA (p, b) = Some (nth_page DATA d, p', b')" "handed_out (p', b') DATA (d + 1)"
    "\<forall>u m. u \<noteq> DATA \<longrightarrow> handed_out (p, b) u m \<longrightarrow> handed_out (p', b') u m"
    using lsm_get_page_next [of p b DATA d] assms(2,3) st by (auto elim!: returnsE)
  let ?s = "s\<lparr>ls_alloc := (p', b')\<rparr>"
  have "ready ?s n"
    using assms(1) page(3) st by (auto simp: ready_def)
  then obtain rl s1 where r: "lsm_read now ppa ?s = Some (rl, s1)" "moved ?s s1 n"
    using lsm_read_moved [of ?s n ppa now] assms(4) by (auto elim!: returnsE)
  obtain wl s2 where w: "lsm_write now (nth_page DATA d) s1 = Some (wl, s2)" "moved s1 s2 n"
    using lsm_write_moved [OF moved_ready [OF r(2)] nth_page_bound [OF assms(3)], of now] by (auto elim!: returnsE)
  have "moved ?s s2 n"
    using r(2) w(2) by (rule moved_trans)
  then show ?thesis
    using page(1,2) r(1) w(1) by (simp add: gc_copy_def st moved_def)
qed

lemma gc_pages_data:
  assumes "ready s n" "handed_out (ls_alloc s) DATA d" "d + length ppas \<le> partition_pages DATA" "\<forall>a \<in> set ppas. a < 1178 * PPS"
  shows "returns (gc_pages now ppas s) (\<lambda>(lat, s'). ls_disk s' = ls_disk s \<and> ls_mem s' = ls_mem s \<and> ready s' n \<and>
    handed_out (ls_alloc s') DATA (d + length ppas))"
  using assms
proof (induction ppas arbitrary: s d)
  case (Cons a ppas)
  obtain lat s1 where c: "gc_copy now DATA a s = Some (lat, s1)" "ls_disk s1 = ls_disk s" "ls_mem s1 = ls_mem s" "ready s1 n"
    "handed_out (ls_alloc s1) DATA (d + 1)"
    using gc_copy_data [OF Cons.prems(1,2), of a now] Cons.prems(3,4) by (auto elim!: returnsE)
  then show ?case
    using Cons.IH [OF c(4,5)] Cons.prems(3,4) by (auto elim!: returnsE)
qed simp

text \<open>A collection uses up as many data pages as a superblock has, and the levels still name the old ones.\<close>

lemma gc_data_uses_pages:
  assumes "ready s n" "handed_out (ls_alloc s) DATA d" "d + PPS \<le> partition_pages DATA"
  shows "returns (gc_data now s) (\<lambda>(lat, s'). ls_disk s' = ls_disk s \<and> handed_out (ls_alloc s') DATA (d + PPS))"
proof -
  have "min_sblk_idx (lb_master (snd (ls_alloc s)) DATA) = 19"
    using assms(2) by (cases "ls_alloc s") (auto simp: handed_out_def filling_def lo_sblk_def)
  then have "\<forall>a \<in> set (map (\<lambda>i. lsm_get_gc_target (snd (ls_alloc s)) DATA * PPS + i) [0..<PPS]). a < 1178 * PPS"
    by (auto simp: lsm_get_gc_target_def PPS_val)
  then have "returns (gc_data now s) (\<lambda>(lat, s'). ls_disk s' = ls_disk s \<and> ls_mem s' = ls_mem s \<and> ready s' n \<and>
      handed_out (ls_alloc s') DATA (d + length (map (\<lambda>i. lsm_get_gc_target (snd (ls_alloc s)) DATA * PPS + i) [0..<PPS])))"
    unfolding gc_data_def Let_def using assms by (intro gc_pages_data) simp_all
  then show ?thesis
    by (rule returns_mono) auto
qed

section \<open>An iteration misses the last entry\<close>

fun iterate_all :: "nat \<Rightarrow> header_iter option \<Rightarrow> (str_key \<times> ppa_t) list option" where
  "iterate_all 0 it = Some []"
| "iterate_all (Suc fuel) it = do {
     (r, it') \<leftarrow> array_header_next_key it;
     (case r of
        None \<Rightarrow> Some []
      | Some e \<Rightarrow> map_option (\<lambda>es. e # es) (iterate_all fuel it'))
   }"

lemma header_next_key_page:
  assumes "header_page p es" "i < length es"
  shows "array_header_next_key (Some \<lparr>hi_page = Some p, hi_idx = i + 1\<rparr>) =
    Some (if i + 1 < length es then (Some (es ! i), Some \<lparr>hi_page = Some p, hi_idx = i + 2\<rparr>) else (None, None))"
  using assms header_key_page [OF assms] by (simp add: array_header_next_key_def array_header_next_key_pick_def header_page_def)

text \<open>An iteration from the first entry on returns all entries but the last one.\<close>

lemma iterate_butlast:
  assumes "header_page p es" "es \<noteq> []"
  shows "iterate_all (length es) (Some \<lparr>hi_page = Some p, hi_idx = 1\<rparr>) = Some (butlast es)"
proof -
  have "iterate_all (length es - i) (Some \<lparr>hi_page = Some p, hi_idx = i + 1\<rparr>) = Some (butlast (drop i es))" if "i < length es" for i
    using that
  proof (induction "length es - i" arbitrary: i)
    case (Suc k)
    have fuel: "length es - i = Suc (length es - (i + 1))"
      using Suc.prems by simp
    have drop_i: "drop i es = es ! i # drop (i + 1) es"
      using Cons_nth_drop_Suc [OF Suc.prems] by simp
    show ?case
    proof (cases "i + 1 < length es")
      case True
      then have "iterate_all (length es - (i + 1)) (Some \<lparr>hi_page = Some p, hi_idx = i + 1 + 1\<rparr>) = Some (butlast (drop (i + 1) es))"
        using Suc.hyps(1) [of "i + 1"] Suc.hyps(2) by simp
      then show ?thesis
        using True header_next_key_page [OF assms(1) Suc.prems] drop_i unfolding fuel by simp
    next
      case False
      then show ?thesis
        using header_next_key_page [OF assms(1) Suc.prems] drop_i unfolding fuel by simp
    qed
  qed simp
  from this [of 0] show ?thesis
    using assms(2) by simp
qed

section \<open>The other operations on a list in order\<close>

lemma not_above_sorted:
  assumes "sorted_wrt key_less (map sn_key ns)"
  shows "\<forall>n \<in> set (dropWhile (not_above key) ns). key_less key (sn_key n)"
  using assms
proof (induction ns)
  case (Cons m ns)
  show ?case
  proof (cases "not_above key m")
    case False
    then have m: "key_less key (sn_key m)"
      by (simp add: not_above_def KEYCMP_pos not_le)
    then show ?thesis
      using False Cons.prems key_less_trans [OF m] by auto
  qed (use Cons in simp)
qed simp

text \<open>Both range searches find the last node that is not above the key, or else the first node.\<close>

lemma range_search_ok:
  assumes "mem_ok l" "mt_nodes l \<noteq> []" "key_less key lsm_key_max"
  shows "lsm_skiplist_range_search l key =
      Some (Some (case takeWhile (not_above key) (mt_nodes l) of [] \<Rightarrow> hd (mt_nodes l) | us \<Rightarrow> last us))"
    and "lsm_skiplist_strict_range_search l key = lsm_skiplist_range_search l key"
proof -
  let ?ns = "mt_nodes l"
  have sz: "mt_size l \<noteq> 0" "key \<noteq> lsm_key_max"
    using assms by (auto simp: mem_ok_def)
  have above: "\<forall>n \<in> set (dropWhile (not_above key) ?ns). key_less key (sn_key n)"
    using assms(1) by (intro not_above_sorted) (simp add: mem_ok_def)
  have next_key: "KEYCMP key (case dropWhile (not_above key) ?ns of [] \<Rightarrow> lsm_key_max | n # _ \<Rightarrow> sn_key n) < 0"
    using above assms(3) by (auto split: list.split)
  have bf: "KEYCMP (sn_key (last us)) key \<le> 0" if "takeWhile (not_above key) ?ns = us" "us \<noteq> []" for us
    using that set_takeWhileD [of "last us" "not_above key" ?ns] by (auto simp: not_above_def)
  show r: "lsm_skiplist_range_search l key = Some (Some (case takeWhile (not_above key) ?ns of [] \<Rightarrow> hd ?ns | us \<Rightarrow> last us))"
  proof (cases "takeWhile (not_above key) ?ns")
    case Nil
    then have "?ns = hd ?ns # tl ?ns" "dropWhile (not_above key) ?ns = ?ns"
      using assms(2) takeWhile_dropWhile_id [of "not_above key" ?ns] by auto
    then have "key_less key (sn_key (hd ?ns))"
      using above by (metis list.set_intros(1))
    then have "KEYCMP key (sn_key (hd ?ns)) \<le> 0"
      by (simp add: KEYCMP_lexordp)
    then show ?thesis
      using Nil sz assms(2) unfolding lsm_skiplist_range_search_def by (cases ?ns) (auto simp: Let_def)
  next
    case (Cons u us)
    then show ?thesis
      using sz bf [OF Cons] next_key unfolding lsm_skiplist_range_search_def by (simp add: Let_def)
  qed
  show "lsm_skiplist_strict_range_search l key = lsm_skiplist_range_search l key"
  proof (cases "takeWhile (not_above key) ?ns")
    case Nil
    then have "dropWhile (not_above key) ?ns = ?ns"
      using takeWhile_dropWhile_id [of "not_above key" ?ns] by simp
    moreover have "KEYCMP lsm_key_max lsm_key_max = 0"
      by simp
    ultimately show ?thesis
      unfolding r unfolding lsm_skiplist_strict_range_search_def using Nil sz assms(2) by (cases ?ns) (auto simp: Let_def)
  next
    case (Cons u us)
    then show ?thesis
      unfolding r unfolding lsm_skiplist_strict_range_search_def using sz bf [OF Cons] next_key by (simp add: Let_def)
  qed
qed

text \<open>A deletion takes the node out, but the length of the keys no longer agrees with the nodes.\<close>

lemma delete_keeps_length:
  assumes "mem_ok l" "n \<in> set (mt_nodes l)"
  shows "returns (lsm_skiplist_delete l (sn_key n)) (\<lambda>(r, l'). r = 0 \<and>
    sn_key ` set (mt_nodes l') = sn_key ` set (mt_nodes l) - {sn_key n} \<and> mt_size l' = length (mt_nodes l') \<and>
    mt_all_length l' = keylens (mt_nodes l') + KEYLEN (sn_key n) \<and> \<not> mem_ok l')"
proof -
  let ?k = "sn_key n" and ?ns = "mt_nodes l"
  have sorted: "sorted_wrt key_less (map sn_key ?ns)"
    using assms(1) by (simp add: mem_ok_def)
  have "\<not> below ?k n"
    by (simp add: below_def)
  then obtain m rest where dw: "dropWhile (below ?k) ?ns = m # rest"
    using assms(2) by (cases "dropWhile (below ?k) ?ns") (auto simp: dropWhile_eq_Nil_conv)
  let ?pre = "takeWhile (below ?k) ?ns"
  have ns: "?ns = ?pre @ m # rest"
    using takeWhile_dropWhile_id [of "below ?k" ?ns] dw by simp
  note split = sorted_split [OF sorted dw]
  have pre: "?k \<notin> sn_key ` set ?pre" and post: "?k \<notin> sn_key ` set rest"
    using split(1,3) key_less_irrefl by (metis imageE)+
  have m: "sn_key m = ?k"
  proof (rule ccontr)
    assume ne: "sn_key m \<noteq> ?k"
    have "n \<in> set (?pre @ m # rest)"
      using assms(2) ns by simp
    then show False
      using ne pre post by auto
  qed
  have "lsm_skiplist_delete l ?k = Some (0, l\<lparr>mt_nodes := ?pre @ rest, mt_size := mt_size l - 1\<rparr>)"
    using assms dw m by (auto simp: lsm_skiplist_delete_def mem_ok_def)
  moreover have "sn_key ` set (?pre @ rest) = sn_key ` set ?ns - {?k}"
  proof -
    have "sn_key ` set ?ns = sn_key ` set (?pre @ m # rest)"
      using ns by simp
    then have "sn_key ` set ?ns = insert ?k (sn_key ` set ?pre \<union> sn_key ` set rest)"
      using m by (simp add: image_Un)
    then show ?thesis
      using pre post by (simp add: image_Un)
  qed
  moreover have "mt_size l - 1 = length (?pre @ rest)" "mt_all_length l = keylens (?pre @ rest) + KEYLEN ?k"
  proof -
    have "length ?ns = length (?pre @ m # rest)" "keylens ?ns = keylens (?pre @ m # rest)"
      using ns by simp_all
    then show "mt_size l - 1 = length (?pre @ rest)" "mt_all_length l = keylens (?pre @ rest) + KEYLEN ?k"
      using assms(1) m by (simp_all add: mem_ok_def)
  qed
  ultimately show ?thesis
    by (simp add: mem_ok_def)
qed

end
