(* ===== verification/Queues.thy ===== *)
theory Queues
  imports Interfaces Store
begin

text \<open>
  The two singly linked queues: \<^verbatim>\<open>tools/fifo_queue.c\<close>, which drops its oldest element when it is
  over its capacity, and \<^verbatim>\<open>lsm_tools/queue.c\<close>, which carries the requests to the compaction thread and
  refuses an element when it is full.  Both are modelled at the level of their pointers and refine a list.
\<close>

section \<open>Nodes\<close>

record 'd qnode =
  val :: 'd
  next_ptr :: "addr option"

record 'd pqueue =
  phead :: "addr option"
  ptail :: "addr option"
  qsize :: nat
  max_size :: nat
  qmem :: "'d qnode mem"

text \<open>Appending a node; only the head is tested to see whether there is a last node to link.\<close>

definition link_last :: "'d \<Rightarrow> 'd pqueue \<Rightarrow> bool \<Rightarrow> 'd pqueue option" where
  "link_last x q first =
     (let (newnode, m) = malloc \<lparr>val = x, next_ptr = None\<rparr> (qmem q) in
      if first then Some (q\<lparr>phead := Some newnode, ptail := Some newnode, qsize := qsize q + 1, qmem := m\<rparr>)
      else do {
        m1 \<leftarrow> modify (ptail q) (\<lambda>n. n\<lparr>next_ptr := Some newnode\<rparr>) m;
        Some (q\<lparr>ptail := Some newnode, qsize := qsize q + 1, qmem := m1\<rparr>)
      })"

section \<open>The dropping queue\<close>

definition QInit :: "nat \<Rightarrow> 'd pqueue option" where
  "QInit maxSize =
     (if maxSize = 0 then None
      else Some \<lparr>phead = None, ptail = None, qsize = 0, max_size = maxSize, qmem = empty_mem\<rparr>)"

definition QPop :: "'d pqueue \<Rightarrow> 'd pqueue option" where
  "QPop q =
     (if qsize q = 0 then None
      else do {
        n \<leftarrow> load (phead q) (qmem q);
        m \<leftarrow> free_cell (phead q) (qmem q);
        let q1 = q\<lparr>phead := next_ptr n, qmem := m\<rparr>;
        let q2 = (if phead q1 = None then q1\<lparr>ptail := None\<rparr> else q1);
        Some (q2\<lparr>qsize := qsize q2 - 1\<rparr>)
      })"

definition QPush :: "'d \<Rightarrow> 'd pqueue \<Rightarrow> 'd pqueue option" where
  "QPush x q = do {
     q1 \<leftarrow> link_last x q (phead q = None);
     if max_size q1 < qsize q1 then QPop q1 else Some q1
   }"

definition QFront :: "'d pqueue \<Rightarrow> 'd option" where
  "QFront q = map_option val (load (phead q) (qmem q))"

definition QBack :: "'d pqueue \<Rightarrow> 'd option" where
  "QBack q = map_option val (load (ptail q) (qmem q))"

definition QEmpty :: "'d pqueue \<Rightarrow> bool" where
  "QEmpty q \<longleftrightarrow> qsize q = 0"

partial_function (option) free_nodes :: "addr option \<Rightarrow> 'd qnode mem \<Rightarrow> 'd qnode mem option" where
  "free_nodes p m =
     (if p = None then Some m
      else do {
        n \<leftarrow> load p m;
        m1 \<leftarrow> free_cell p m;
        free_nodes (next_ptr n) m1
      })"

definition QDestroy :: "'d pqueue \<Rightarrow> 'd pqueue option" where
  "QDestroy q = do {
     m \<leftarrow> free_nodes (phead q) (qmem q);
     Some (q\<lparr>phead := None, ptail := None, qsize := 0, qmem := m\<rparr>)
   }"

section \<open>The refusing queue\<close>

definition q_init :: "nat \<Rightarrow> 'd pqueue" where
  "q_init n = \<lparr>phead = None, ptail = None, qsize = 0, max_size = n, qmem = empty_mem\<rparr>"

definition q_enqueue :: "'d \<Rightarrow> 'd pqueue \<Rightarrow> (bool \<times> 'd pqueue) option" where
  "q_enqueue x q =
     (if qsize q = max_size q then Some (False, q)
      else map_option (Pair True) (link_last x q (qsize q = 0)))"

definition q_enqueue_front :: "'d \<Rightarrow> 'd pqueue \<Rightarrow> (bool \<times> 'd pqueue) option" where
  "q_enqueue_front x q =
     (if qsize q = max_size q then Some (False, q)
      else
        (let (newnode, m) = malloc \<lparr>val = x, next_ptr = (if qsize q = 0 then None else phead q)\<rparr> (qmem q) in
         Some (True, q\<lparr>phead := Some newnode, ptail := (if qsize q = 0 then Some newnode else ptail q),
           qsize := qsize q + 1, qmem := m\<rparr>)))"

text \<open>\<^verbatim>\<open>q_dequeue\<close> leaves the tail pointer of a queue that becomes empty.\<close>

definition q_dequeue :: "'d pqueue \<Rightarrow> ('d option \<times> 'd pqueue) option" where
  "q_dequeue q =
     (if phead q = None \<or> qsize q = 0 then Some (None, q)
      else do {
        n \<leftarrow> load (phead q) (qmem q);
        m \<leftarrow> free_cell (phead q) (qmem q);
        Some (Some (val n), q\<lparr>phead := next_ptr n, qsize := qsize q - 1, qmem := m\<rparr>)
      })"

definition q_pick :: "'d pqueue \<Rightarrow> 'd option option" where
  "q_pick q =
     (if phead q = None \<or> qsize q = 0 then Some None
      else map_option (\<lambda>n. Some (val n)) (load (phead q) (qmem q)))"

section \<open>The list behind a queue\<close>

text \<open>The nodes at the addresses of \<open>ps\<close>, linked from \<open>p\<close> on, carry the values of \<open>ps\<close>.\<close>

fun chain :: "(addr \<rightharpoonup> 'd qnode) \<Rightarrow> addr option \<Rightarrow> (addr \<times> 'd) list \<Rightarrow> bool" where
  "chain c p [] \<longleftrightarrow> p = None"
| "chain c p ((a, d) # ps) \<longleftrightarrow> p = Some a \<and> (\<exists>n. c a = Some n \<and> val n = d \<and> chain c (next_ptr n) ps)"

lemma chain_frame [simp]: "a \<notin> fst ` set ps \<Longrightarrow> chain (c(a := v)) p ps \<longleftrightarrow> chain c p ps"
  by (induction ps arbitrary: p) auto

lemma chain_node: "chain c p ps \<Longrightarrow> (a, d) \<in> set ps \<Longrightarrow> \<exists>n. c a = Some n"
  by (induction ps arbitrary: p) auto

lemma chain_live: "chain c p ps \<Longrightarrow> a \<in> fst ` set ps \<Longrightarrow> \<exists>n. c a = Some n"
  using chain_node by force

lemma chain_fresh: "chain (cells m) p ps \<Longrightarrow> mem_wf m \<Longrightarrow> brk m \<notin> fst ` set ps"
  using mem_wf_fresh by (metis chain_live option.distinct(1))

lemma chain_head: "chain c p ps \<Longrightarrow> p = (if ps = [] then None else Some (fst (hd ps)))"
  by (cases ps) auto

text \<open>A node behind the last one.\<close>

lemma chain_snoc:
  assumes "chain c p (ps @ [(a, d)])" "distinct (map fst (ps @ [(a, d)]))" "b \<notin> fst ` set (ps @ [(a, d)])" "c a = Some n"
  shows "chain (c(b \<mapsto> \<lparr>val = x, next_ptr = None\<rparr>, a \<mapsto> n\<lparr>next_ptr := Some b\<rparr>)) p (ps @ [(a, d), (b, x)])"
  using assms by (induction ps arbitrary: p) auto

text \<open>The tail points to the last node; what it points to when there is none does not matter.\<close>

definition pq_rep :: "'d pqueue \<Rightarrow> (addr \<times> 'd) list \<Rightarrow> bool" where
  "pq_rep q ps \<longleftrightarrow> chain (cells (qmem q)) (phead q) ps \<and> distinct (map fst ps) \<and> qsize q = length ps \<and> mem_wf (qmem q) \<and>
     (ps \<noteq> [] \<longrightarrow> ptail q = Some (fst (last ps)))"

definition pq_list :: "'d pqueue \<Rightarrow> 'd list \<Rightarrow> bool" where
  "pq_list q xs \<longleftrightarrow> (\<exists>ps. pq_rep q ps \<and> map snd ps = xs)"

lemma pq_list_empty: "phead q = None \<Longrightarrow> qsize q = 0 \<Longrightarrow> mem_wf (qmem q) \<Longrightarrow> pq_list q []"
  by (simp add: pq_list_def pq_rep_def)

lemma link_last_list:
  assumes "pq_list q xs" "first \<longleftrightarrow> xs = []"
  shows "returns (link_last x q first) (\<lambda>q'. pq_list q' (xs @ [x]) \<and> max_size q' = max_size q \<and> qsize q' = Suc (length xs))"
proof -
  obtain ps where ps: "pq_rep q ps" "map snd ps = xs"
    using assms(1) by (auto simp: pq_list_def)
  have len: "length ps = length xs"
    using ps(2) by auto
  let ?b = "brk (qmem q)"
  have fresh: "?b \<notin> fst ` set ps"
    using ps(1) chain_fresh by (auto simp: pq_rep_def)
  show ?thesis
  proof (cases ps rule: rev_cases)
    case Nil
    then have "pq_rep (q\<lparr>phead := Some ?b, ptail := Some ?b, qsize := Suc 0,
        qmem := (qmem q)\<lparr>cells := (cells (qmem q))(?b \<mapsto> \<lparr>val = x, next_ptr = None\<rparr>), brk := Suc ?b\<rparr>\<rparr>) [(?b, x)]"
      using ps(1) mem_wf_alloc by (auto simp: pq_rep_def)
    then show ?thesis
      using Nil ps assms(2) by (auto simp: link_last_def malloc_def pq_list_def pq_rep_def intro!: exI [of _ "[(?b, x)]"])
  next
    case (snoc qs e)
    obtain a d where e: "e = (a, d)"
      by (cases e)
    obtain n where n: "cells (qmem q) a = Some n"
      using ps(1) chain_live [of "cells (qmem q)" "phead q" ps a] snoc e by (auto simp: pq_rep_def)
    have b: "?b \<noteq> a"
      using fresh snoc e by auto
    let ?m = "(qmem q)\<lparr>cells := (cells (qmem q))(?b \<mapsto> \<lparr>val = x, next_ptr = None\<rparr>, a \<mapsto> n\<lparr>next_ptr := Some ?b\<rparr>), brk := Suc ?b\<rparr>"
    have "mem_wf ?m"
      using ps(1) n by (auto simp: pq_rep_def mem_wf_def less_Suc_eq)
    moreover have "chain (cells ?m) (phead q) (ps @ [(?b, x)])"
      using chain_snoc [of "cells (qmem q)" "phead q" qs a d ?b n x] ps(1) fresh n by (simp add: pq_rep_def snoc e)
    ultimately have "pq_rep (q\<lparr>ptail := Some ?b, qsize := Suc (qsize q), qmem := ?m\<rparr>) (ps @ [(?b, x)])"
      using ps(1) fresh by (auto simp: pq_rep_def)
    moreover have "link_last x q first = Some (q\<lparr>ptail := Some ?b, qsize := Suc (qsize q), qmem := ?m\<rparr>)"
      using assms(2) ps snoc e n b by (auto simp: link_last_def malloc_def pq_rep_def)
    moreover have "map snd (ps @ [(?b, x)]) = xs @ [x]" "qsize q = length xs"
      using ps len by (simp_all add: pq_rep_def)
    ultimately show ?thesis
      unfolding pq_list_def by auto
  qed
qed

text \<open>Taking the first node away; the tail may stay or be cleared when it was the last one.\<close>

definition unlinked :: "'d pqueue \<Rightarrow> 'd qnode \<Rightarrow> 'd qnode mem \<Rightarrow> 'd list \<Rightarrow> 'd pqueue \<Rightarrow> bool" where
  "unlinked q n m xs q' \<longleftrightarrow> phead q' = next_ptr n \<and> qmem q' = m \<and> qsize q' = length xs \<and> (next_ptr n \<noteq> None \<longrightarrow> ptail q' = ptail q)"

lemma unlink_first:
  assumes "pq_list q (x # xs)"
  shows "\<exists>n m. load (phead q) (qmem q) = Some n \<and> free_cell (phead q) (qmem q) = Some m \<and> val n = x \<and>
    (\<forall>q'. unlinked q n m xs q' \<longrightarrow> pq_list q' xs) \<and> qsize q = Suc (length xs) \<and> phead q \<noteq> None"
proof -
  obtain ps where ps: "pq_rep q ps" "map snd ps = x # xs"
    using assms by (auto simp: pq_list_def)
  obtain a qs where qs: "ps = (a, x) # qs" "map snd qs = xs"
    using ps(2) by (cases ps) auto
  obtain n where n: "cells (qmem q) a = Some n" "val n = x" "chain (cells (qmem q)) (next_ptr n) qs" "phead q = Some a"
    using ps(1) qs(1) by (auto simp: pq_rep_def)
  have len: "length qs = length xs"
    using qs(2) by auto
  let ?m = "(qmem q)\<lparr>cells := (cells (qmem q))(a := None)\<rparr>"
  have wf: "mem_wf ?m"
    using ps(1) mem_wf_upd_live [OF _ n(1)] by (simp add: pq_rep_def)
  have qs_ok: "a \<notin> fst ` set qs" "distinct (map fst qs)" "qs \<noteq> [] \<longrightarrow> ptail q = Some (fst (last qs))"
    using ps(1) qs(1) by (auto simp: pq_rep_def)
  have "pq_list q' xs" if "unlinked q n ?m xs q'" for q'
  proof -
    have "pq_rep q' qs"
      using that wf qs_ok n(3) len chain_head [OF n(3)] unfolding pq_rep_def unlinked_def by (cases qs) simp_all
    then show ?thesis
      using qs(2) unfolding pq_list_def by blast
  qed
  moreover have "qsize q = Suc (length xs)"
    using ps(1) qs(1) len by (simp add: pq_rep_def)
  ultimately show ?thesis
    using n(1,2,4) by (intro exI [of _ n] exI [of _ ?m]) simp
qed

section \<open>The dropping queue keeps the latest\<close>

lemma QPop_list:
  assumes "pq_list q (x # xs)"
  shows "returns (QPop q) (\<lambda>q'. pq_list q' xs \<and> max_size q' = max_size q)"
proof -
  obtain n m where n: "load (phead q) (qmem q) = Some n" "free_cell (phead q) (qmem q) = Some m"
    "\<forall>q'. unlinked q n m xs q' \<longrightarrow> pq_list q' xs"
    "qsize q = Suc (length xs)"
    using unlink_first [OF assms] by blast
  show ?thesis
    using n by (simp add: QPop_def unlinked_def Let_def)
qed

definition fifo_ok :: "'d pqueue \<Rightarrow> bool" where
  "fifo_ok q \<longleftrightarrow> (\<exists>xs. pq_list q xs \<and> length xs \<le> max_size q) \<and> 0 < max_size q"

lemma chain_fun: "chain c p ps \<Longrightarrow> chain c p qs \<Longrightarrow> ps = qs"
proof (induction ps arbitrary: p qs)
  case Nil
  then show ?case
    by (cases qs) auto
next
  case (Cons e ps)
  then show ?case
    by (cases qs; cases e) auto
qed

lemma pq_rep_fun: "pq_rep q ps \<Longrightarrow> pq_rep q qs \<Longrightarrow> ps = qs"
  unfolding pq_rep_def using chain_fun by blast

definition pq_content :: "'d pqueue \<Rightarrow> 'd list" where
  "pq_content q = (THE xs. pq_list q xs)"

lemma pq_content_eq: "pq_list q xs \<Longrightarrow> pq_content q = xs"
  unfolding pq_content_def by (rule the_equality) (auto simp: pq_list_def dest: pq_rep_fun)

lemma QPush_list:
  assumes "pq_list q xs" "length xs \<le> max_size q" "0 < max_size q"
  shows "returns (QPush x q) (\<lambda>q'. pq_list q' (last_n (max_size q) (xs @ [x])) \<and> max_size q' = max_size q)"
proof -
  obtain ps where ps: "pq_rep q ps" "map snd ps = xs"
    using assms(1) by (auto simp: pq_list_def)
  have head: "phead q = None \<longleftrightarrow> xs = []"
    using ps chain_head [of "cells (qmem q)" "phead q" ps] by (cases ps) (auto simp: pq_rep_def)
  obtain q1 where q1: "link_last x q (phead q = None) = Some q1" "pq_list q1 (xs @ [x])" "max_size q1 = max_size q"
      "qsize q1 = Suc (length xs)"
    using link_last_list [OF assms(1) head] by (auto elim: returnsE)
  show ?thesis
  proof (cases "length xs = max_size q")
    case True
    then obtain y ys where ys: "xs = y # ys"
      using assms(3) by (cases xs) auto
    then have "last_n (max_size q) (xs @ [x]) = ys @ [x]"
      using True by (simp add: last_n_def)
    then show ?thesis
      using QPop_list [of q1 y "ys @ [x]"] q1 ys True by (auto simp: QPush_def elim: returns_mono)
  next
    case False
    then show ?thesis
      using q1 assms(2) by (simp add: QPush_def)
  qed
qed

text \<open>An element is read and then taken away.\<close>

definition take_first :: "'d pqueue \<Rightarrow> ('d \<times> 'd pqueue) option" where
  "take_first q = do { x \<leftarrow> QFront q; q' \<leftarrow> QPop q; Some (x, q') }"

interpretation fifo: bounded_queue fifo_ok max_size pq_content "\<lambda>x q. the (QPush x q)" take_first
proof unfold_locales
  fix q :: "'d pqueue" and x
  assume "fifo_ok q"
  then obtain xs where xs: "pq_list q xs" "length xs \<le> max_size q" "0 < max_size q"
    by (auto simp: fifo_ok_def)
  obtain q' where q': "QPush x q = Some q'" "pq_list q' (last_n (max_size q) (xs @ [x]))" "max_size q' = max_size q"
    using QPush_list [OF xs] by (auto elim: returnsE)
  have "length (last_n (max_size q) (xs @ [x])) \<le> max_size q'"
    using q'(3) by simp
  then have "fifo_ok q'"
    using q'(2,3) xs(3) unfolding fifo_ok_def by auto
  then show "fifo_ok (the (QPush x q)) \<and> max_size (the (QPush x q)) = max_size q \<and>
      pq_content (the (QPush x q)) = last_n (max_size q) (pq_content q @ [x])"
    using q' xs(1) by (simp add: pq_content_eq)
next
  fix q :: "'d pqueue" and x xs
  assume "fifo_ok q" and "pq_content q = x # xs"
  then have xs: "pq_list q (x # xs)" "Suc (length xs) \<le> max_size q" "0 < max_size q"
    unfolding fifo_ok_def by (metis length_Cons pq_content_eq)+
  obtain n where n: "load (phead q) (qmem q) = Some n" "val n = x"
    using unlink_first [OF xs(1)] by blast
  obtain q' where q': "QPop q = Some q'" "pq_list q' xs" "max_size q' = max_size q"
    using QPop_list [OF xs(1)] by (auto elim: returnsE)
  then have "fifo_ok q'"
    using xs(2,3) unfolding fifo_ok_def by (auto intro!: exI [of _ xs])
  then show "returns (take_first q) (\<lambda>(y, q'). y = x \<and> fifo_ok q' \<and> max_size q' = max_size q \<and> pq_content q' = xs)"
    using n q' by (simp add: take_first_def QFront_def pq_content_eq)
qed

text \<open>A fresh queue of capacity \<open>n\<close> returns the last \<open>n\<close> elements that were pushed, oldest first.\<close>

lemma fifo_queue_order:
  assumes "QInit n = Some q"
  shows "returns (pop_n take_first (min n (length xs)) (fold (\<lambda>x q. the (QPush x q)) xs q))
    (\<lambda>(rs, q'). rs = last_n n xs \<and> pq_content q' = [])"
proof -
  have q: "q = \<lparr>phead = None, ptail = None, qsize = 0, max_size = n, qmem = empty_mem\<rparr>" "0 < n"
    using assms by (auto simp: QInit_def split: if_splits)
  have "pq_list q []"
    by (rule pq_list_empty) (simp_all add: q mem_wf_def empty_mem_def)
  then have "fifo_ok q" "pq_content q = []" "max_size q = n"
    using q by (auto simp: fifo_ok_def pq_content_eq)
  then show ?thesis
    using fifo.push_pop [of q xs] by simp
qed

section \<open>The refusing queue is first in, first out\<close>

lemma q_enqueue_list:
  assumes "pq_list q xs"
  shows "returns (q_enqueue x q) (\<lambda>(ok, q'). max_size q' = max_size q \<and>
    (if length xs = max_size q then \<not> ok \<and> q' = q else ok \<and> pq_list q' (xs @ [x])))"
proof -
  have size: "qsize q = length xs"
    using assms by (auto simp: pq_list_def pq_rep_def)
  then have "returns (link_last x q (qsize q = 0)) (\<lambda>q'. pq_list q' (xs @ [x]) \<and> max_size q' = max_size q \<and> qsize q' = Suc (length xs))"
    by (intro link_last_list [OF assms]) simp
  then show ?thesis
    using size by (auto simp: q_enqueue_def elim!: returnsE)
qed

lemma q_enqueue_front_list:
  assumes "pq_list q xs" "length xs < max_size q"
  shows "returns (q_enqueue_front x q) (\<lambda>(ok, q'). ok \<and> pq_list q' (x # xs))"
proof -
  obtain ps where ps: "pq_rep q ps" "map snd ps = xs"
    using assms(1) by (auto simp: pq_list_def)
  let ?b = "brk (qmem q)"
  have fresh: "?b \<notin> fst ` set ps"
    using ps(1) chain_fresh by (auto simp: pq_rep_def)
  have len: "length ps = length xs" "qsize q \<noteq> max_size q"
    using ps assms(2) by (auto simp: pq_rep_def)
  have "phead q = None" if "ps = []"
    using that ps(1) by (simp add: pq_rep_def)
  then have "pq_rep (q\<lparr>phead := Some ?b, ptail := (if qsize q = 0 then Some ?b else ptail q), qsize := qsize q + 1,
      qmem := snd (malloc \<lparr>val = x, next_ptr = (if qsize q = 0 then None else phead q)\<rparr> (qmem q))\<rparr>) ((?b, x) # ps)"
    using ps(1) fresh mem_wf_alloc by (auto simp: pq_rep_def malloc_def)
  then show ?thesis
    using ps(2) len by (auto simp: q_enqueue_front_def pq_list_def malloc_def intro!: exI [of _ "(?b, x) # ps"])
qed

text \<open>The thread looks at the first request, handles it, and takes it away.\<close>

lemma q_pick_list:
  assumes "pq_list q xs"
  shows "q_pick q = Some (case xs of [] \<Rightarrow> None | x # _ \<Rightarrow> Some x)"
proof (cases xs)
  case Nil
  then show ?thesis
    using assms by (auto simp: q_pick_def pq_list_def pq_rep_def)
next
  case (Cons x ys)
  obtain n where "load (phead q) (qmem q) = Some n" "val n = x" "qsize q = Suc (length ys)" "phead q \<noteq> None"
    using unlink_first [of q x ys] assms Cons by blast
  then show ?thesis
    by (simp add: q_pick_def Cons)
qed

lemma q_dequeue_list:
  assumes "pq_list q (x # xs)"
  shows "returns (q_dequeue q) (\<lambda>(r, q'). r = Some x \<and> pq_list q' xs \<and> max_size q' = max_size q)"
proof -
  obtain n m where n: "load (phead q) (qmem q) = Some n" "free_cell (phead q) (qmem q) = Some m" "val n = x"
    "\<forall>q'. unlinked q n m xs q' \<longrightarrow> pq_list q' xs"
    "qsize q = Suc (length xs)" "phead q \<noteq> None"
    using unlink_first [OF assms] by blast
  then show ?thesis
    by (simp add: q_dequeue_def unlinked_def)
qed

text \<open>Everything that was accepted is handled once, in order.\<close>

lemma q_dequeue_all:
  assumes "pq_list q xs"
  shows "returns (pop_n q_dequeue (length xs) q) (\<lambda>(rs, q'). rs = map Some xs \<and> pq_list q' [])"
  using assms
proof (induction xs arbitrary: q)
  case (Cons x xs)
  obtain q' where q': "q_dequeue q = Some (Some x, q')" "pq_list q' xs"
    using q_dequeue_list [OF Cons.prems] by (auto elim!: returnsE)
  then show ?case
    using Cons.IH [OF q'(2)] by (auto elim!: returnsE)
qed simp

end
