(* ===== verification/Spec2Isabelle.thy ===== *)
theory Spec2Isabelle
  imports Murmur Bloom Runs Labels LsmWrite LsmSpare Queues
begin

text \<open>
  AggreKV is a user-space simulator of key-value SSDs in C.  The repository holds three programs: the hash-based
  store of the paper (\<^verbatim>\<open>src/hash_kvssd\<close>), an LSM-tree store it is compared with (\<^verbatim>\<open>src/lsmtree_kvssd\<close>), and a block SSD
  (\<^verbatim>\<open>src/block_ssd\<close>).  The development models the first two.  The first is taken with the macros of the profiles E6 to E9 of
  \<^verbatim>\<open>hash_kvssd/run_all_hashkvssd_tests.sh\<close> (\<^verbatim>\<open>HOT_CMT\<close>, \<^verbatim>\<open>DATA_SEGREGATION\<close> and \<^verbatim>\<open>ADAPTIVE_MEM\<close> on, which a bare \<^verbatim>\<open>make\<close>
  leaves off) and the settings of \<^verbatim>\<open>dftl_settings.h\<close> (\<^verbatim>\<open>STORE_KEY_FP\<close> and \<^verbatim>\<open>UPDATE_DATA_CHECK\<close> on; \<^verbatim>\<open>VERIFY_CACHE\<close>,
  \<^verbatim>\<open>PREFILL_CACHE\<close> and \<^verbatim>\<open>DEBUG_FTL\<close> off); the second with the constants of \<^verbatim>\<open>lsm_settings.h\<close>.

  The hash-based store answers \<^verbatim>\<open>demand_set\<close> and \<^verbatim>\<open>demand_get\<close>.  A write goes to the write buffer, a skip list; a full
  buffer is flushed: its values get places on the open flash pages of their streams, and the address of each key, found by
  hashing and probing, is updated in the mapping table.  The mapping table is cached page by page (the cold cache, an LRU list)
  and entry by entry (the hot table, a hash table with bounded probing); the adaptive partition moves memory between the two
  and a third part that counts ghost hits.  Pages come from the block manager, which hands out superblocks and
  picks victims; a collection of mapping pages or of data pages moves what is valid.  Operations that wait for flash
  store a label and go to a sorted retry queue.

  The LSM-tree store collects pairs in a skip list; a write that finds 64 pairs cuts off lists that fill a metadata page,
  and the compaction thread places their values, writes them and merges the list into level 0, after it has
  moved every full level into the next one.  A level is an array of runs, a run a metadata page of sorted keys.
\<close>

section \<open>Theories and code\<close>

text \<open>
  \<^item> \<open>Base\<close>, \<open>Store\<close>, \<open>Interfaces\<close>: the prelude.  Constants of \<^verbatim>\<open>dftl_settings.h\<close>, machine words, the result
    predicate \<open>returns\<close>, the explicit memory of the pointer structures, and the interfaces as locales: a membership
    filter (interpreted on \<^verbatim>\<open>bloomfilter.c\<close> in \<open>Bloom\<close> and on \<^verbatim>\<open>d_htable.c\<close> in \<open>Htable\<close>), a recency list
    (\<^verbatim>\<open>lru_list.c\<close>, \<open>Lru\<close>), a flash device (\<^verbatim>\<open>lower/ssd.c\<close>, \<open>Ssd\<close>), a bounded queue (the ghost rings of
    \<^verbatim>\<open>adaptive_mem.c\<close>, \<open>Partition\<close>, and \<^verbatim>\<open>fifo_queue.c\<close>, \<open>Queues\<close>) and a service queue (\<^verbatim>\<open>algo_queue.c\<close>, \<open>Algoq\<close>).
  \<^item> \<open>Murmur\<close>, \<open>Bloom\<close>, \<open>Htable\<close>, \<open>Lru\<close>, \<open>Algoq\<close>, \<open>Skiplist\<close>, \<open>Queues\<close>: the data structures of
    \<^verbatim>\<open>hash_kvssd/tools\<close> and \<^verbatim>\<open>algo_queue.c\<close>.  Pointer structures are maps from addresses to nodes and refine lists.
  \<^item> \<open>Ssd\<close>, \<open>Bm\<close>: the device of \<^verbatim>\<open>lower/ssd.c\<close> (geometry, write pointers, busy times) and the block manager of
    \<^verbatim>\<open>dftl_bm.c\<close> (partitions, streams, pools of superblocks, valid bits and their counters).
  \<^item> \<open>Cmt\<close>, \<open>Dcache\<close>, \<open>Hot\<close>, \<open>Rehash\<close>, \<open>Promote\<close>, \<open>Adaptive\<close>, \<open>Partition\<close>: the mapping cache of \<^verbatim>\<open>cache.h\<close>,
    \<^verbatim>\<open>dftl_cache.c\<close> and \<^verbatim>\<open>adaptive_mem.c\<close>: entries and heat, the hot table, its rehash as a state machine, promotion, ghost
    marks and the partition.  \<open>Partition\<close> has the invariant of the partition and what each of its operations does to it.
  \<^item> \<open>Keys\<close>, \<open>Sys\<close>: \<^verbatim>\<open>request.c\<close>, \<^verbatim>\<open>valueset.c\<close>, the hash parameters; the state of the translation layer and the
    operations on single mapping entries.
  \<^item> \<open>Gc\<close>, \<open>Listup\<close>, \<open>Wb\<close>, \<open>Demand\<close>: \<^verbatim>\<open>dftl_pg.c\<close> (page allocation, collection of mapping and of data
    superblocks), \<^verbatim>\<open>dftl_cache_list_up\<close> (eviction and installation), \<^verbatim>\<open>dftl_wb.c\<close> (buffer and flush), \<^verbatim>\<open>demand.c\<close>
    (start-up, \<^verbatim>\<open>demand_set\<close>, \<^verbatim>\<open>demand_get\<close>).  The gotos of the C functions are labels, one definition per label and a loop
    that dispatches on them.
  \<^item> \<open>Serve\<close>, \<open>Runs\<close>, \<open>Mapgc\<close>, \<open>Mapinv\<close>, \<open>Maptab\<close>, \<open>Dgc\<close>, \<open>Place\<close>, \<open>Labels\<close>: the properties that span these
    components: reads and buffered writes; the runs of the mapping cache; the mapping pages on flash through eviction and
    collection; collection of data; placement; the typing of the stored labels.  \<open>Runs\<close> has the step relation
    \<open>cache_step\<close> of the mapping cache: the lookups, the loading, installation (\<^verbatim>\<open>dftl_cache_list_up\<close>, with its evictions,
    promotions and rebalances), updates and resets of pages, and the bulk update of a collection, from the creation on.
  \<^item> \<open>LsmPage\<close>, \<open>LsmRuns\<close>, \<open>LsmBm\<close>, \<open>LsmMerge\<close>, \<open>LsmMem\<close>: the LSM-tree store below compaction: the bytes of a
    metadata page (\<^verbatim>\<open>array.c\<close>, \<^verbatim>\<open>array_level.c\<close>), levels, their capacities and their binary searches (\<^verbatim>\<open>array.c\<close>, \<^verbatim>\<open>lsm_settings.c\<close>), superblocks and pages
    (\<^verbatim>\<open>lsm_bm.c\<close>, \<^verbatim>\<open>lsm_pm.c\<close>), the merge (\<^verbatim>\<open>pipe.c\<close>, \<^verbatim>\<open>pipe_merger.c\<close>), the list of recent pairs and the placement of its
    values (\<^verbatim>\<open>lsm_tools/skiplist.c\<close>).
  \<^item> \<open>LsmStore\<close>, \<open>LsmCompact\<close>, \<open>LsmOps\<close>, \<open>LsmWrite\<close>, \<open>LsmSpare\<close>: compaction (\<^verbatim>\<open>compaction.c\<close>,
    \<^verbatim>\<open>compaction_assistant.c\<close>) and its refinement of a map update, the client operations (\<^verbatim>\<open>lsmtree.c\<close>), the invariant of a
    write, and the operations that have no caller.
\<close>

section \<open>Conventions\<close>

text \<open>
  A function of the source that can stop the program returns an option: None stands for \<^verbatim>\<open>abort()\<close>, a null or freed
  pointer, an access out of bounds, a division by zero, or a loop that does not end; an error that the code
  handles is an ordinary value.  \<open>returns m Q\<close> says that \<open>m\<close> has a result and that it satisfies \<open>Q\<close>, so every property
  of this form includes that the code returns.  Addresses and counts that the code keeps in range are natural numbers with
  the sentinel \<^verbatim>\<open>UINT32_MAX\<close> of the source; hashes, bit operations and counters without a guard are words of their
  width and wrap.  The clock is an argument.  Uninitialised memory is an argument (\<open>garbage\<close>), and so are the bits and bytes that
  \<^verbatim>\<open>bf_init\<close> computes in floating point.  The size factor of the LSM-tree levels, a \<^verbatim>\<open>float\<close>, is computed in fixed point with
  the 20 fractional bits it has in its range, with exact powers; the capacities of the levels that follow from it are 15,
  198, 2774, 38968 and 547497 runs.  \<^verbatim>\<open>rte_ring\<close>, the DPDK ring, appears as the lists of requests it carries.
\<close>

section \<open>What the properties show\<close>

text \<open>
  \<^item> Client level: reads see the buffered writes (C1), a write of the LSM-tree store loses no key (C2), a read of an absent
    key that misses both caches and a mapping page that was never written completes twice (C35), a new read of the LSM-tree
    store ignores the levels (C36), and a continued one crashes on a key that the first level on the device lacks (C37).
  \<^item> Refinement: a compaction request is a map update (C3), moving a level down changes no mapping (C7), the merge overrides
    the lower level (C8), the level search reads the map (C16); the skip list is a map (C23), the LRU list a recency
    order (C24), the ghost ring and the retry queue are queues (C27, C28).
  \<^item> Invariants: the memory budget, the exact counters and the progress of the partition (C4, C12, C13) over the runs of
    \<open>cache_reach\<close>; the mapping pages on flash (C5) over the runs of \<open>map_reach\<close>, which are updates and write-backs; the
    stored labels (C6), the valid counters and the pools of the block manager (C17, C18), the hot table (C9, C11, C14) and
    the mapping pages (C10, C22) for the single operations that change them; the pages the LSM-tree store hands out (C21) for
    sequences of requests.
  \<^item> Functional behaviour: collection (C15, C19), placement (C29), metadata pages (C20), promotion scans (C25, C26), the
    device (C30), filters, hashes and keys (C31 to C34).
  \<^item> Errors that the model exhibits: values on page 0 (C38, C39) and values across a page end (C40).
\<close>

section \<open>Bounds and fuel\<close>

text \<open>
  A lookup in the hot table probes \<^verbatim>\<open>MAX_PROBE\<close> = 50 slots, a rehash 3200, as in the code.  \<open>hot_rehash_drain_all\<close> has the limit
  of the code, 200,000,000 rounds, and C9 proves that it is not reached.  The scan for a cold victim has the 512 steps of
  \<^verbatim>\<open>GHOST_FALLBACK_SCAN_STEPS\<close>; the towers of the skip list at most \<^verbatim>\<open>MAX_L\<close> levels.  The pops of an eviction have the guard
  of the code, the number of cached pages plus 64.  The cutter of a merge gets one unit of fuel more
  than pages were written, each of which it consumes; the cascade gets \<^verbatim>\<open>LEVELN\<close>, the number of levels.  Loops
  without such a bound are \<open>partial_function (option)\<close>, and their termination is part of the properties that use them.
  The hypotheses on room (\<open>requests_fit\<close>, \<open>write_room\<close>, \<open>store_fits\<close>, \<open>move_room\<close>, the free superblocks of C10 and C18) state what
  the fixed arrays and the device hold; the code does not check them.  For the levels: a merge fills a metadata page with 2545
  bytes at least and 3072 at most, so a level of \<open>m\<close> runs takes \<open>2545 * (m - 1)\<close> bytes of entries whatever the lengths of the keys
  are, and the array of a merge's result, which has 500 pages more than the two levels have runs, takes 2400 pages of 3072
  bytes.  \<open>store_fits\<close> asks for the first at every level and for the second in all; the store of the start-up
  satisfies both, and a level on the device then takes no more than 2898 metadata pages in a compaction.
\<close>

section \<open>Not modelled\<close>

text \<open>
  \<^item> \<^verbatim>\<open>src/block_ssd\<close>: a fork of the same translation layer without keys; its device, LRU list and block manager repeat code that is
    modelled here from the hash-based store.
  \<^item> \<^verbatim>\<open>lsmtree_kvssd/dftl\<close> and \<^verbatim>\<open>lsmtree_kvssd/tools\<close>: an older copy of the hash-based store that no makefile rule builds.
  \<^item> \<^verbatim>\<open>lsm_cache.c\<close>, which no operation of the store calls; \<^verbatim>\<open>skiplist_insert_wP\<close>, which links a node to itself and is called
    only from \<^verbatim>\<open>array_normal_merger\<close>, which compaction does not use.
  \<^item> The accounting and printing of \<^verbatim>\<open>lsm_settings.c\<close>; \<^verbatim>\<open>bf_fpr_from_memory\<close> and the Zipf generator of \<^verbatim>\<open>tools/random\<close>, which are
    floating point.
  \<^item> \<^verbatim>\<open>pqueue.c\<close>, \<^verbatim>\<open>sha256.c\<close> and \<^verbatim>\<open>rte_ring\<close>: third-party code.
  \<^item> The benchmark drivers, the logging and printing functions and the latency reports: input and output only.
  \<^item> Threads: the poller, the client and the compaction thread hand over requests through rings and queues; the model takes their
    steps in the order of those queues, and locks are left out.  A write of the LSM-tree store waits for all lists it cut off,
    while in the source the flag it waits for is cleared after the first.
\<close>

end
